(* ===== verification/Prelude.thy ===== *)
theory Prelude
  imports Main "HOL-Library.Word"
begin

unbundle bit_operations_syntax

text \<open>
  Shared vocabulary of the development.  The storage engine works on byte
  strings: a \<^verbatim>\<open>std::string\<close>, a \<^verbatim>\<open>Slice\<close> and the region between two
  \<^verbatim>\<open>char*\<close> pointers are all a list of 8-bit words, and a pointer into a buffer
  that only ever moves forward is the list of the bytes from it to the limit.
  The fixed-width integers of the code keep their width (\<^verbatim>\<open>uint32_t\<close>,
  \<^verbatim>\<open>uint64_t\<close>); \<^verbatim>\<open>size_t\<close> values that count bytes in memory are natural
  numbers, and every narrowing cast of one is written out.
  The theory also holds the contract of a self-delimiting encoding, which
  the record formats of the later theories instantiate.
\<close>

section \<open>Types\<close>

type_synonym byte = "8 word"
type_synonym bytes = "byte list"
type_synonym u32 = "32 word"
type_synonym u64 = "64 word"

named_theorems codec_simps \<open>round trips of the encodings, used as rewrite rules\<close>
named_theorems length_simps \<open>lengths of encoded values\<close>

section \<open>Strings of the source as bytes\<close>

text \<open>A C string literal of the source as the bytes it stands for.\<close>

definition lit :: "string \<Rightarrow> bytes" where
  "lit s = map (\<lambda>c. of_nat (of_char c)) s"

lemma length_lit [simp]: "length (lit s) = length s"
  by (simp add: lit_def)

section \<open>Writing into the middle of a buffer\<close>

text \<open>
  \<^verbatim>\<open>memcpy(&s[i], bs, n)\<close> on a string that is long enough.
\<close>

definition overwrite :: "nat \<Rightarrow> 'a list \<Rightarrow> 'a list \<Rightarrow> 'a list" where
  "overwrite i bs xs = take i xs @ bs @ drop (i + length bs) xs"

lemma length_overwrite [simp]:
  "i + length bs \<le> length xs \<Longrightarrow> length (overwrite i bs xs) = length xs"
  by (simp add: overwrite_def)

lemma take_overwrite_le:
  "n \<le> i \<Longrightarrow> i \<le> length xs \<Longrightarrow> take n (overwrite i bs xs) = take n xs"
  by (simp add: overwrite_def min_absorb1)

lemma drop_overwrite_at:
  "i \<le> length xs \<Longrightarrow> drop i (overwrite i bs xs) = bs @ drop (i + length bs) xs"
  by (simp add: overwrite_def)

lemma drop_overwrite_ge:
  "i + length bs \<le> n \<Longrightarrow> i + length bs \<le> length xs \<Longrightarrow>
   drop n (overwrite i bs xs) = drop n xs"
  by (simp add: overwrite_def)

lemma overwrite_append:
  "i + length bs \<le> length xs \<Longrightarrow> overwrite i bs (xs @ ys) = overwrite i bs xs @ ys"
  by (simp add: overwrite_def)

section \<open>Bits of a word below a boundary\<close>

lemma take_bit_or_push_bit:
  fixes v :: "'a::len word"
  shows "take_bit s v OR push_bit s (take_bit k (drop_bit s v)) = take_bit (s + k) v"
  by (rule bit_word_eqI) (auto simp: bit_simps)

lemma take_bit_eq_iff_no_high_bits:
  fixes v :: "'a::len word"
  shows "take_bit k v = v \<longleftrightarrow> (\<forall>n\<ge>k. \<not> bit v n)"
proof
  assume "take_bit k v = v"
  then show "\<forall>n\<ge>k. \<not> bit v n" by (metis bit_take_bit_iff not_le)
next
  assume "\<forall>n\<ge>k. \<not> bit v n"
  then show "take_bit k v = v"
    by (intro bit_word_eqI) (auto simp: bit_take_bit_iff not_le [symmetric])
qed

lemma unat_drop_bit: "unat (drop_bit k v) = unat v div 2 ^ k" for v :: "'a::len word"
  unfolding unsigned_drop_bit_eq by (simp add: drop_bit_eq_div take_bit_nat_eq_self)

lemma unat_byte_less: "unat (b :: byte) < 256"
  and unat_u32_less: "unat (x :: u32) < 2 ^ 32"
  and unat_u64_less: "unat (y :: u64) < 2 ^ 64"
  using unsigned_less [where 'a = nat, of b] unsigned_less [where 'a = nat, of x]
    unsigned_less [where 'a = nat, of y] by simp_all

lemma unat_exp:
  assumes "k < LENGTH('a::len)"
  shows "unat (2 ^ k :: 'a word) = 2 ^ k"
proof -
  have "unat (of_nat (2 ^ k) :: 'a word) = 2 ^ k"
    using assms by (simp add: unat_of_nat del: of_nat_power of_nat_numeral)
  then show ?thesis by simp
qed

lemma less_exp_iff:
  fixes v :: "'a::len word"
  assumes "k < LENGTH('a)"
  shows "v < 2 ^ k \<longleftrightarrow> unat v < 2 ^ k"
  by (simp only: word_less_nat_alt unat_exp [OF assms])

lemma drop_bit_less_exp_iff:
  fixes v :: "'a::len word"
  assumes "k + j < LENGTH('a)"
  shows "drop_bit k v < 2 ^ j \<longleftrightarrow> v < 2 ^ (k + j)"
proof -
  have "drop_bit k v < 2 ^ j \<longleftrightarrow> unat v div 2 ^ k < 2 ^ j"
    using assms by (simp add: less_exp_iff unat_drop_bit)
  also have "\<dots> \<longleftrightarrow> unat v < 2 ^ (k + j)"
    by (simp add: div_less_iff_less_mult power_add mult.commute)
  also have "\<dots> \<longleftrightarrow> v < 2 ^ (k + j)"
    using assms by (simp add: less_exp_iff)
  finally show ?thesis .
qed

text \<open>Seven-bit values, in every form the variable-length encodings need.\<close>

lemma unat_128:
  assumes "8 \<le> LENGTH('a::len)"
  shows "unat (128 :: 'a word) = 128"
proof -
  have "(2::nat) ^ 8 \<le> 2 ^ LENGTH('a)"
    using assms by (rule power_increasing) simp
  then show ?thesis by (simp add: take_bit_nat_eq_self_iff)
qed

lemma less_128_bits:
  fixes v :: "'a::len word"
  assumes "8 \<le> LENGTH('a)"
  shows "v < 128 \<longleftrightarrow> (\<forall>n\<ge>7. \<not> bit v n)"
proof -
  have "v < 128 \<longleftrightarrow> unat v < 128"
    by (simp only: word_less_nat_alt unat_128 [OF assms])
  also have "\<dots> \<longleftrightarrow> take_bit 7 (unat v) = unat v"
    by (simp add: take_bit_nat_eq_self_iff)
  also have "\<dots> \<longleftrightarrow> take_bit 7 v = v"
    by (metis unsigned_take_bit_eq unsigned_word_eqI)
  also have "\<dots> \<longleftrightarrow> (\<forall>n\<ge>7. \<not> bit v n)"
    by (rule take_bit_eq_iff_no_high_bits)
  finally show ?thesis .
qed

lemma take_bit_drop_bit_less_128:
  fixes v :: "'a::len word"
  assumes "8 \<le> LENGTH('a)" "drop_bit s v < 128"
  shows "take_bit (s + 7) v = v"
proof (rule bit_word_eqI)
  fix n assume "n < LENGTH('a)"
  have "\<not> bit v (s + m)" if "7 \<le> m" for m
    using assms that by (auto simp: less_128_bits bit_simps)
  from this [of "n - s"] show "bit (take_bit (s + 7) v) n = bit v n"
    by (cases "n < s + 7") (auto simp: bit_simps)
qed

lemma unat_drop_bit_7_less:
  fixes v :: "'a::len word"
  assumes "8 \<le> LENGTH('a)" "\<not> v < 128"
  shows "unat (drop_bit 7 v) < unat v"
proof -
  have "128 \<le> unat v"
    using assms(2) by (simp only: not_less word_le_nat_alt unat_128 [OF assms(1)])
  then show ?thesis by (simp add: unat_drop_bit)
qed

lemma drop_bit_ge_128_bound:
  fixes v :: "'a::len word"
  assumes "8 \<le> LENGTH('a)" "\<not> drop_bit s v < 128"
  shows "s + 7 < LENGTH('a)"
proof -
  obtain n where "7 \<le> n" "bit (drop_bit s v) n"
    using assms by (auto simp: less_128_bits)
  then show ?thesis
    by (metis add_le_cancel_left bit_drop_bit_eq bit_imp_le_length comp_def linorder_not_less order_trans)
qed

section \<open>Self-delimiting encodings\<close>

text \<open>
  The contract every encoding of the storage formats keeps: a decoder that
  is given an encoded value followed by anything returns the value and what
  follows.  The laws of sequences of encoded values are proved once here.
\<close>

locale prefix_codec =
  fixes enc :: "'a \<Rightarrow> bytes"
    and dec :: "bytes \<Rightarrow> ('a \<times> bytes) option"
    and wf :: "'a \<Rightarrow> bool"
  assumes dec_enc: "wf x \<Longrightarrow> dec (enc x @ rest) = Some (x, rest)"
begin

lemma enc_inject:
  assumes "wf x" "wf y" "enc x @ r = enc y @ s"
  shows "x = y \<and> r = s"
proof -
  have "Some (x, r) = Some (y, s)"
    using assms dec_enc by metis
  then show ?thesis by simp
qed

lemma concat_enc_inject:
  assumes "list_all wf xs" "list_all wf ys" "length xs = length ys"
    "concat (map enc xs) @ r = concat (map enc ys) @ s"
  shows "xs = ys \<and> r = s"
  using assms(3,1,2,4)
proof (induction xs ys rule: list_induct2)
  case Nil
  then show ?case by simp
next
  case (Cons x xs y ys)
  from Cons.prems have "x = y \<and> concat (map enc xs) @ r = concat (map enc ys) @ s"
    by (intro enc_inject) auto
  with Cons show ?case by simp
qed

lemma enc_not_Nil:
  assumes "wf x" "wf y" "x \<noteq> y"
  shows "enc x \<noteq> []"
proof
  assume "enc x = []"
  then have "dec (enc y) = Some (x, enc y)"
    using dec_enc [OF assms(1), of "enc y"] by simp
  moreover have "dec (enc y) = Some (y, [])"
    using dec_enc [OF assms(2), of "[]"] by simp
  ultimately show False using assms(3) by simp
qed

end

end
