(* ===== verification/Slice.thy ===== *)
theory Slice
  imports Prelude
begin

text \<open>
  \<^verbatim>\<open>include/leveldb/slice.h\<close>: byte strings and their three-way comparison.  A
  slice is the list of the bytes it refers to.  \<^verbatim>\<open>memcmp\<close> compares unsigned
  bytes and only the sign of its result is specified; the model returns
  \<open>-1\<close>, \<open>0\<close> or \<open>1\<close>.
\<close>

fun memcmp :: "bytes \<Rightarrow> bytes \<Rightarrow> nat \<Rightarrow> int" where
  "memcmp (a # as) (b # bs) (Suc n) =
     (if a < b then -1 else if b < a then 1 else memcmp as bs n)"
| "memcmp _ _ _ = 0"

definition Slice_compare :: "bytes \<Rightarrow> bytes \<Rightarrow> int" where
  "Slice_compare s b =
     (let min_len = (if length s < length b then length s else length b);
          r = memcmp s b min_len
      in if r = 0 then
           (if length s < length b then -1 else if length s > length b then 1 else r)
         else r)"

definition Slice_eq :: "bytes \<Rightarrow> bytes \<Rightarrow> bool" where
  "Slice_eq x y \<longleftrightarrow> length x = length y \<and> memcmp x y (length x) = 0"

definition Slice_starts_with :: "bytes \<Rightarrow> bytes \<Rightarrow> bool" where
  "Slice_starts_with s x \<longleftrightarrow> length s \<ge> length x \<and> memcmp s x (length x) = 0"

text \<open>\<^verbatim>\<open>remove_prefix\<close> asserts that the prefix is there.\<close>

definition Slice_remove_prefix :: "bytes \<Rightarrow> nat \<Rightarrow> bytes" where
  "Slice_remove_prefix s n = drop n s"

section \<open>The comparison is the lexicographic order\<close>

fun bytes_less :: "bytes \<Rightarrow> bytes \<Rightarrow> bool" where
  "bytes_less [] [] = False"
| "bytes_less [] (b # bs) = True"
| "bytes_less (a # as) [] = False"
| "bytes_less (a # as) (b # bs) = (a < b \<or> a = b \<and> bytes_less as bs)"

lemma Slice_compare_Cons [simp]:
  "Slice_compare (a # as) (b # bs) =
     (if a < b then -1 else if b < a then 1 else Slice_compare as bs)"
  by (simp add: Slice_compare_def Let_def)

lemma Slice_compare_Nil [simp]:
  "Slice_compare [] [] = 0"
  "Slice_compare [] (b # bs) = -1"
  "Slice_compare (a # as) [] = 1"
  by (simp_all add: Slice_compare_def)

lemma Slice_compare_cases:
  "Slice_compare a b = (if a = b then 0 else if bytes_less a b then -1 else 1)"
  by (induction a b rule: bytes_less.induct) auto

lemma Slice_compare_eq_0 [simp]: "Slice_compare a b = 0 \<longleftrightarrow> a = b"
  by (simp add: Slice_compare_cases)

lemma bytes_less_irrefl [simp]: "\<not> bytes_less a a"
  by (induction a) auto

lemma bytes_less_trans: "bytes_less a b \<Longrightarrow> bytes_less b c \<Longrightarrow> bytes_less a c"
proof (induction a b arbitrary: c rule: bytes_less.induct)
  case (4 a as b bs)
  then show ?case by (cases c) (auto dest: less_trans)
next
  case (2 b bs)
  then show ?case by (cases c) auto
qed auto

lemma bytes_less_total: "a \<noteq> b \<Longrightarrow> bytes_less a b \<or> bytes_less b a"
  by (induction a b rule: bytes_less.induct) auto

lemma bytes_less_asym: "bytes_less a b \<Longrightarrow> \<not> bytes_less b a"
  using bytes_less_trans bytes_less_irrefl by blast

lemma Slice_compare_less: "Slice_compare a b < 0 \<longleftrightarrow> bytes_less a b"
  by (auto simp: Slice_compare_cases)

lemma Slice_compare_le: "Slice_compare a b \<le> 0 \<longleftrightarrow> a = b \<or> bytes_less a b"
  by (auto simp: Slice_compare_cases)

lemma Slice_compare_greater: "Slice_compare a b > 0 \<longleftrightarrow> bytes_less b a"
  using bytes_less_total bytes_less_asym by (auto simp: Slice_compare_cases)

lemma memcmp_eq_0:
  "n \<le> length a \<Longrightarrow> n \<le> length b \<Longrightarrow> memcmp a b n = 0 \<longleftrightarrow> take n a = take n b"
  by (induction a b n rule: memcmp.induct) auto

lemma Slice_eq_iff [simp]: "Slice_eq x y \<longleftrightarrow> x = y"
  using memcmp_eq_0 [of "length x" x y] by (auto simp: Slice_eq_def)

lemma Slice_starts_with_iff: "Slice_starts_with s x \<longleftrightarrow> (\<exists>t. s = x @ t)"
  using memcmp_eq_0 [of "length x" s x]
  by (auto simp: Slice_starts_with_def) (metis append_take_drop_id)

end
