(* ===== verification/Coding.thy ===== *)
theory Coding
  imports Prelude
begin

unbundle bit_operations_syntax

text \<open>
  \<^verbatim>\<open>util/coding.h\<close> and \<^verbatim>\<open>util/coding.cc\<close>: fixed-width little-endian integers,
  variable-length integers and length-prefixed strings.  A function that
  writes to a \<^verbatim>\<open>char*\<close> returns the bytes it writes; a function that appends
  to a \<^verbatim>\<open>std::string\<close> returns the longer string; a function that parses from
  a pointer up to a limit takes the bytes between them and returns, in an
  option, the value and the bytes after it (\<^term>\<open>None\<close> is \<^verbatim>\<open>nullptr\<close> or
  \<^verbatim>\<open>false\<close>).
\<close>

section \<open>Fixed-width integers\<close>

definition EncodeFixed32 :: "u32 \<Rightarrow> bytes" where
  "EncodeFixed32 value =
     [ucast value, ucast (drop_bit 8 value), ucast (drop_bit 16 value),
      ucast (drop_bit 24 value)]"

definition EncodeFixed64 :: "u64 \<Rightarrow> bytes" where
  "EncodeFixed64 value =
     [ucast value, ucast (drop_bit 8 value), ucast (drop_bit 16 value),
      ucast (drop_bit 24 value), ucast (drop_bit 32 value), ucast (drop_bit 40 value),
      ucast (drop_bit 48 value), ucast (drop_bit 56 value)]"

text \<open>The decoders read without bounds checks; every caller makes sure of the length.\<close>

definition DecodeFixed32 :: "bytes \<Rightarrow> u32" where
  "DecodeFixed32 buffer =
     ucast (buffer ! 0) OR push_bit 8 (ucast (buffer ! 1)) OR
     push_bit 16 (ucast (buffer ! 2)) OR push_bit 24 (ucast (buffer ! 3))"

definition DecodeFixed64 :: "bytes \<Rightarrow> u64" where
  "DecodeFixed64 buffer =
     ucast (buffer ! 0) OR push_bit 8 (ucast (buffer ! 1)) OR
     push_bit 16 (ucast (buffer ! 2)) OR push_bit 24 (ucast (buffer ! 3)) OR
     push_bit 32 (ucast (buffer ! 4)) OR push_bit 40 (ucast (buffer ! 5)) OR
     push_bit 48 (ucast (buffer ! 6)) OR push_bit 56 (ucast (buffer ! 7))"

definition PutFixed32 :: "bytes \<Rightarrow> u32 \<Rightarrow> bytes" where
  "PutFixed32 dst value = dst @ EncodeFixed32 value"

definition PutFixed64 :: "bytes \<Rightarrow> u64 \<Rightarrow> bytes" where
  "PutFixed64 dst value = dst @ EncodeFixed64 value"

section \<open>Variable-length integers\<close>

text \<open>The unrolled encoder of 32-bit values, branch by branch.\<close>

definition EncodeVarint32 :: "u32 \<Rightarrow> bytes" where
  "EncodeVarint32 v =
     (if v < 2 ^ 7 then [ucast v]
      else if v < 2 ^ 14 then [ucast (v OR 128), ucast (drop_bit 7 v)]
      else if v < 2 ^ 21 then
        [ucast (v OR 128), ucast (drop_bit 7 v OR 128), ucast (drop_bit 14 v)]
      else if v < 2 ^ 28 then
        [ucast (v OR 128), ucast (drop_bit 7 v OR 128), ucast (drop_bit 14 v OR 128),
         ucast (drop_bit 21 v)]
      else
        [ucast (v OR 128), ucast (drop_bit 7 v OR 128), ucast (drop_bit 14 v OR 128),
         ucast (drop_bit 21 v OR 128), ucast (drop_bit 28 v)])"

text \<open>
  The loop of \<^verbatim>\<open>EncodeVarint64\<close>.  It is stated at every word width, so that
  it is also the reference the unrolled 32-bit encoder is compared with.
\<close>

function varint :: "'a::len word \<Rightarrow> bytes" where
  "varint v = (if 8 \<le> LENGTH('a) \<and> \<not> v < 128 then ucast (v OR 128) # varint (drop_bit 7 v)
               else [ucast v])"
  by pat_completeness auto
termination
  by (relation "measure unat") (auto intro: unat_drop_bit_7_less)

declare varint.simps [simp del]

definition EncodeVarint64 :: "u64 \<Rightarrow> bytes" where
  "EncodeVarint64 v = varint v"

definition PutVarint32 :: "bytes \<Rightarrow> u32 \<Rightarrow> bytes" where
  "PutVarint32 dst v = dst @ EncodeVarint32 v"

definition PutVarint64 :: "bytes \<Rightarrow> u64 \<Rightarrow> bytes" where
  "PutVarint64 dst v = dst @ EncodeVarint64 v"

text \<open>The size of a string is cast to 32 bits before it is written.\<close>

definition PutLengthPrefixedSlice :: "bytes \<Rightarrow> bytes \<Rightarrow> bytes" where
  "PutLengthPrefixedSlice dst value = PutVarint32 dst (of_nat (length value)) @ value"

function VarintLength :: "u64 \<Rightarrow> nat" where
  "VarintLength v = (if \<not> v < 128 then Suc (VarintLength (drop_bit 7 v)) else 1)"
  by pat_completeness auto
termination
  by (relation "measure unat") (auto intro: unat_drop_bit_7_less)

declare VarintLength.simps [simp del]

text \<open>
  The decoding loop: \<open>maxshift\<close> is the largest shift the loop runs at (28 for
  32-bit values, 63 for 64-bit values).
\<close>

fun varint_loop :: "nat \<Rightarrow> nat \<Rightarrow> 'a::len word \<Rightarrow> bytes \<Rightarrow> ('a word \<times> bytes) option" where
  "varint_loop maxshift shift result [] = None"
| "varint_loop maxshift shift result (byte # p) =
     (if shift \<le> maxshift then
        (if byte AND 128 \<noteq> 0
         then varint_loop maxshift (shift + 7) (result OR push_bit shift (ucast byte AND 127)) p
         else Some (result OR push_bit shift (ucast byte), p))
      else None)"

definition GetVarint32PtrFallback :: "bytes \<Rightarrow> (u32 \<times> bytes) option" where
  "GetVarint32PtrFallback p = varint_loop 28 0 0 p"

definition GetVarint32Ptr :: "bytes \<Rightarrow> (u32 \<times> bytes) option" where
  "GetVarint32Ptr p =
     (case p of
        byte # q \<Rightarrow>
          (let result = ucast byte in
           if result AND 128 = (0::u32) then Some (result, q) else GetVarint32PtrFallback p)
      | [] \<Rightarrow> GetVarint32PtrFallback p)"

definition GetVarint64Ptr :: "bytes \<Rightarrow> (u64 \<times> bytes) option" where
  "GetVarint64Ptr p = varint_loop 63 0 0 p"

definition GetVarint32 :: "bytes \<Rightarrow> (u32 \<times> bytes) option" where
  "GetVarint32 input = GetVarint32Ptr input"

definition GetVarint64 :: "bytes \<Rightarrow> (u64 \<times> bytes) option" where
  "GetVarint64 input = GetVarint64Ptr input"

definition GetLengthPrefixedSlice :: "bytes \<Rightarrow> (bytes \<times> bytes) option" where
  "GetLengthPrefixedSlice input =
     (case GetVarint32 input of
        None \<Rightarrow> None
      | Some (len, input) \<Rightarrow>
          (if unat len \<le> length input then Some (take (unat len) input, drop (unat len) input)
           else None))"

text \<open>The pointer variant compares against the limit; it is the same parse.\<close>

definition GetLengthPrefixedSlicePtr :: "bytes \<Rightarrow> (bytes \<times> bytes) option" where
  "GetLengthPrefixedSlicePtr p =
     (case GetVarint32Ptr p of
        None \<Rightarrow> None
      | Some (len, p) \<Rightarrow>
          (if unat len > length p then None
           else Some (take (unat len) p, drop (unat len) p)))"

section \<open>Lengths\<close>

lemma length_EncodeFixed32 [simp, length_simps]: "length (EncodeFixed32 v) = 4"
  by (simp add: EncodeFixed32_def)

lemma length_EncodeFixed64 [simp, length_simps]: "length (EncodeFixed64 v) = 8"
  by (simp add: EncodeFixed64_def)

lemma varint_not_Nil [simp]: "varint v \<noteq> []"
  by (subst varint.simps) simp

section \<open>Fixed-width round trips\<close>

text \<open>
  The decoder assembles the value from the bottom: after the byte at bit
  \<open>s\<close> it has the low \<open>s + 8\<close> bits.
\<close>

lemma ucast_ucast_byte: "ucast (ucast v :: byte) = take_bit 8 v" for v :: "'a::len word"
  by (rule bit_word_eqI) (auto simp: bit_simps)

lemma or_next_byte:
  fixes v :: "'a::len word"
  shows "take_bit s v OR (push_bit s (take_bit 8 (drop_bit s v)) OR w) = take_bit (s + 8) v OR w"
  by (simp add: take_bit_or_push_bit flip: or.assoc)

lemma DecodeFixed32_EncodeFixed32 [simp, codec_simps]:
  "DecodeFixed32 (EncodeFixed32 v @ rest) = v"
proof -
  note step = or_next_byte [of _ v] and last_step = take_bit_or_push_bit [of _ v 8]
  show ?thesis
    by (simp add: DecodeFixed32_def EncodeFixed32_def ucast_ucast_byte step last_step
        take_bit_word_eq_self)
qed

lemma DecodeFixed64_EncodeFixed64 [simp, codec_simps]:
  "DecodeFixed64 (EncodeFixed64 v @ rest) = v"
proof -
  note step = or_next_byte [of _ v] and last_step = take_bit_or_push_bit [of _ v 8]
  show ?thesis
    by (simp add: DecodeFixed64_def EncodeFixed64_def ucast_ucast_byte step last_step
        take_bit_word_eq_self)
qed

lemma DecodeFixed32_EncodeFixed32_only [simp, codec_simps]: "DecodeFixed32 (EncodeFixed32 v) = v"
  using DecodeFixed32_EncodeFixed32 [of v "[]"] by simp

lemma DecodeFixed64_EncodeFixed64_only [simp, codec_simps]: "DecodeFixed64 (EncodeFixed64 v) = v"
  using DecodeFixed64_EncodeFixed64 [of v "[]"] by simp

text \<open>Eight bytes are the encoding of the value decoded from them.\<close>

lemma EncodeFixed64_DecodeFixed64:
  assumes "length b = 8"
  shows "EncodeFixed64 (DecodeFixed64 b) = b"
proof -
  obtain b0 b1 b2 b3 b4 b5 b6 b7 where b: "b = [b0, b1, b2, b3, b4, b5, b6, b7]"
    using assms by (auto simp: length_Suc_conv numeral_eq_Suc)
  show ?thesis
    unfolding b EncodeFixed64_def DecodeFixed64_def list.inject
    by (intro conjI refl bit_word_eqI) (auto simp: bit_simps dest: bit_imp_le_length)
qed

section \<open>Variable-length round trips\<close>

lemma varint_small: "v < 128 \<Longrightarrow> varint v = [ucast v]"
  by (subst varint.simps) simp

lemma varint_big:
  fixes v :: "'a::len word"
  shows "8 \<le> LENGTH('a) \<Longrightarrow> \<not> v < 128 \<Longrightarrow>
     varint v = ucast (v OR 128) # varint (drop_bit 7 v)"
  by (subst varint.simps) simp

lemma bit_128: "bit (128 :: int) n \<longleftrightarrow> n = 7"
  using bit_exp_iff [where 'a = int, of 7 n] by auto

text \<open>What the loop body does with one byte of the encoder's output.\<close>

lemma continuation_bit:
  fixes v :: "'a::len word"
  assumes "8 \<le> LENGTH('a)"
  shows "(ucast (v OR 128) :: byte) AND 128 \<noteq> 0"
proof -
  have "bit ((ucast (v OR 128) :: byte) AND 128) 7"
    using assms by (simp add: bit_simps bit_128)
  then show ?thesis by (metis bit_0_eq bot_apply bot_bool_def)
qed

lemma payload_bits:
  fixes v :: "'a::len word"
  assumes "8 \<le> LENGTH('a)"
  shows "ucast (ucast (v OR 128) :: byte) AND 127 = take_bit 7 v"
proof -
  have *: "127 = (mask 7 :: 'a word)"
    by (simp add: mask_eq_exp_minus_1)
  show ?thesis
    unfolding * by (rule bit_word_eqI) (auto simp: bit_simps bit_128)
qed

lemma final_byte:
  fixes v :: "'a::len word"
  assumes "8 \<le> LENGTH('a)" "v < 128"
  shows "(ucast v :: byte) AND 128 = 0" "ucast (ucast v :: byte) = v"
proof -
  have no: "\<not> bit v n" if "7 \<le> n" for n
    using assms that by (simp add: less_128_bits)
  show "(ucast v :: byte) AND 128 = 0"
    by (rule bit_word_eqI) (use no in \<open>auto simp: bit_simps bit_128\<close>)
  show "ucast (ucast v :: byte) = v"
  proof (rule bit_word_eqI)
    fix n assume "n < LENGTH('a)"
    then show "bit (ucast (ucast v :: byte) :: 'a word) n = bit v n"
      using no [of n] by (cases "n < 8") (auto simp: bit_simps)
  qed
qed

text \<open>
  The loop invariant: after \<open>shift\<close> bits the accumulator holds the low
  \<open>shift\<close> bits of the value, and the input is the encoding of the others.
\<close>

lemma varint_loop_varint:
  fixes v :: "'a::len word"
  assumes "8 \<le> LENGTH('a)" "7 dvd shift" "shift \<le> maxshift"
    "\<And>s. 7 dvd s \<Longrightarrow> s < LENGTH('a) \<Longrightarrow> s \<le> maxshift"
  shows "varint_loop maxshift shift (take_bit shift v) (varint (drop_bit shift v) @ rest) =
           Some (v, rest)"
  using assms(2,3)
proof (induction "drop_bit shift v" arbitrary: shift rule: varint.induct)
  case 1
  let ?d = "drop_bit shift v"
  show ?case
  proof (cases "?d < 128")
    case True
    then show ?thesis
      using assms(1) 1 final_byte [OF assms(1) True]
        take_bit_or_push_bit [of shift v 7] take_bit_drop_bit_less_128 [OF assms(1) True]
      by (simp add: varint_small less_128_bits take_bit_eq_iff_no_high_bits [symmetric])
  next
    case False
    have s: "shift + 7 \<le> maxshift"
      using drop_bit_ge_128_bound [OF assms(1) False] "1.prems" assms(4) by simp
    have IH: "varint_loop maxshift (shift + 7) (take_bit (shift + 7) v)
        (varint (drop_bit (shift + 7) v) @ rest) = Some (v, rest)"
      using "1.hyps" [of "shift + 7"] assms(1) False s "1.prems"
      by (simp add: add.commute)
    show ?thesis
      using IH False "1.prems" assms(1) continuation_bit [of ?d]
      by (simp add: varint_big payload_bits take_bit_or_push_bit add.commute)
  qed
qed

text \<open>The unrolled encoder is the loop.\<close>

lemma EncodeVarint32_eq_varint: "EncodeVarint32 v = varint v"
proof -
  have less: "drop_bit k v < 128 \<longleftrightarrow> v < 2 ^ (k + 7)" if "k + 7 < 32" for k
    using that drop_bit_less_exp_iff [of k 7 v] by simp
  have "unat v < 2 ^ 32"
    using unsigned_less [of v] by simp
  then have top: "drop_bit 28 v < 128"
    by (simp add: word_less_nat_alt unat_drop_bit)
  show ?thesis
    using less [of 0] less [of 7] less [of 14] less [of 21] top
    by (simp add: EncodeVarint32_def varint_small varint_big)
qed

text \<open>The single-byte fast path changes nothing.\<close>

lemma ucast_and_128_eq_0: "(ucast b AND 128 = (0::u32)) \<longleftrightarrow> b AND 128 = 0" for b :: byte
proof -
  have "ucast b AND 128 = (ucast (b AND 128) :: u32)"
    by (rule bit_word_eqI) (auto simp: bit_simps bit_128)
  moreover have "(ucast (b AND 128) :: u32) = 0 \<longleftrightarrow> b AND 128 = 0"
    by transfer (simp add: take_bit_take_bit)
  ultimately show ?thesis by simp
qed

lemma GetVarint32Ptr_eq_Fallback: "GetVarint32Ptr p = GetVarint32PtrFallback p"
  by (cases p)
     (auto simp: GetVarint32Ptr_def GetVarint32PtrFallback_def Let_def ucast_and_128_eq_0)

lemma dvd_7_bound_32: "7 dvd s \<Longrightarrow> s < 32 \<Longrightarrow> s \<le> (28::nat)"
  by presburger

lemma dvd_7_bound_64: "7 dvd s \<Longrightarrow> s < 64 \<Longrightarrow> s \<le> (63::nat)"
  by presburger

lemma GetVarint32_EncodeVarint32 [simp, codec_simps]:
  "GetVarint32 (EncodeVarint32 v @ rest) = Some (v, rest)"
  using varint_loop_varint [of 0 28 v rest] dvd_7_bound_32
  by (simp add: GetVarint32_def GetVarint32Ptr_eq_Fallback GetVarint32PtrFallback_def
      EncodeVarint32_eq_varint)

lemma GetVarint32Ptr_EncodeVarint32 [simp, codec_simps]:
  "GetVarint32Ptr (EncodeVarint32 v @ rest) = Some (v, rest)"
  using GetVarint32_EncodeVarint32 by (simp add: GetVarint32_def)

lemma GetVarint64_EncodeVarint64 [simp, codec_simps]:
  "GetVarint64 (EncodeVarint64 v @ rest) = Some (v, rest)"
  using varint_loop_varint [of 0 63 v rest] dvd_7_bound_64
  by (simp add: GetVarint64_def GetVarint64Ptr_def EncodeVarint64_def)

lemma length_EncodeVarint64: "length (EncodeVarint64 v) = VarintLength v"
  unfolding EncodeVarint64_def
  by (induction v rule: VarintLength.induct)
     (subst varint.simps, subst VarintLength.simps, simp)

lemma varint_ucast:
  assumes "8 \<le> LENGTH('a::len)" "LENGTH('a) \<le> LENGTH('b::len)"
  shows "varint (ucast (v :: 'a word) :: 'b word) = varint v"
proof (induction v rule: varint.induct)
  case (1 v)
  have bits: "bit (ucast v :: 'b word) n \<longleftrightarrow> bit v n" for n
    using assms(2) by (metis bit_imp_le_length bit_ucast_iff order_less_le_trans)
  have less: "(ucast v :: 'b word) < 128 \<longleftrightarrow> v < 128"
    using assms bits by (simp add: less_128_bits)
  have drop: "drop_bit 7 (ucast v :: 'b word) = ucast (drop_bit 7 v)"
    using assms by (intro bit_word_eqI) (auto simp: bit_simps dest: bit_imp_le_length)
  have low: "(ucast (ucast v :: 'b word) :: byte) = ucast v"
    and low_or: "(ucast ((ucast v :: 'b word) OR 128) :: byte) = ucast (v OR 128)"
    using assms by (auto intro!: bit_word_eqI simp: bit_simps bit_128)
  show ?case
  proof (cases "v < 128")
    case True
    then show ?thesis using less low by (simp add: varint_small)
  next
    case False
    then show ?thesis
      using 1 less drop low_or assms by (simp add: varint_big)
  qed
qed

lemma length_EncodeVarint32: "length (EncodeVarint32 v) = VarintLength (ucast v)"
  by (simp add: EncodeVarint32_eq_varint length_EncodeVarint64 [symmetric] EncodeVarint64_def
      varint_ucast)

lemma length_EncodeVarint32_bounds:
  "1 \<le> length (EncodeVarint32 v)" "length (EncodeVarint32 v) \<le> 5"
  by (simp_all add: EncodeVarint32_def)

lemma EncodeVarint32_not_Nil [simp]: "EncodeVarint32 v \<noteq> []"
  using length_EncodeVarint32_bounds(1) [of v] by auto

text \<open>What a successful parse consumed.\<close>

lemma varint_loop_consumes:
  "varint_loop m s r p = Some (v, q) \<Longrightarrow>
     \<exists>used. p = used @ q \<and> used \<noteq> [] \<and> s + 7 * (length used - 1) \<le> m"
proof (induction m s r p rule: varint_loop.induct)
  case (1 m s r)
  then show ?case by simp
next
  case (2 m s r b p)
  show ?case
  proof (cases "b AND 128 \<noteq> 0")
    case True
    with 2 obtain used where "p = used @ q" "used \<noteq> []" "s + 7 + 7 * (length used - 1) \<le> m"
      by (auto split: if_splits)
    then show ?thesis
      by (intro exI [of _ "b # used"]) (cases used; auto)
  next
    case False
    with 2 show ?thesis
      by (intro exI [of _ "[b]"]) (auto split: if_splits)
  qed
qed

lemma GetVarint32_consumes:
  assumes "GetVarint32 p = Some (v, q)"
  shows "\<exists>used. p = used @ q \<and> 1 \<le> length used \<and> length used \<le> 5"
proof -
  from assms have "varint_loop 28 0 0 p = Some (v, q)"
    by (simp add: GetVarint32_def GetVarint32Ptr_eq_Fallback GetVarint32PtrFallback_def)
  from varint_loop_consumes [OF this] obtain used
    where "p = used @ q" "used \<noteq> []" "7 * (length used - 1) \<le> 28" by auto
  then show ?thesis by (intro exI [of _ used]) (cases used; auto)
qed

lemma GetVarint64_consumes:
  assumes "GetVarint64 p = Some (v, q)"
  shows "\<exists>used. p = used @ q \<and> 1 \<le> length used \<and> length used \<le> 10"
proof -
  from assms have "varint_loop 63 0 0 p = Some (v, q)"
    by (simp add: GetVarint64_def GetVarint64Ptr_def)
  from varint_loop_consumes [OF this] obtain used
    where "p = used @ q" "used \<noteq> []" "7 * (length used - 1) \<le> 63" by auto
  then show ?thesis by (intro exI [of _ used]) (cases used; auto)
qed

section \<open>Length-prefixed strings\<close>

definition slice_size_ok :: "bytes \<Rightarrow> bool" where
  "slice_size_ok s \<longleftrightarrow> length s < 2 ^ 32"

lemma unat_of_nat_u32: "n < 2 ^ 32 \<Longrightarrow> unat (of_nat n :: u32) = n"
  by (simp add: unat_of_nat take_bit_nat_eq_self)

lemma GetLengthPrefixedSlice_Put [simp, codec_simps]:
  "slice_size_ok s \<Longrightarrow>
     GetLengthPrefixedSlice (PutLengthPrefixedSlice [] s @ rest) = Some (s, rest)"
  by (simp add: GetLengthPrefixedSlice_def PutLengthPrefixedSlice_def PutVarint32_def
      slice_size_ok_def unat_of_nat_u32)

lemma PutLengthPrefixedSlice_append:
  "PutLengthPrefixedSlice dst s = dst @ PutLengthPrefixedSlice [] s"
  by (simp add: PutLengthPrefixedSlice_def PutVarint32_def)

lemma GetLengthPrefixedSlicePtr_eq: "GetLengthPrefixedSlicePtr p = GetLengthPrefixedSlice p"
  by (auto simp: GetLengthPrefixedSlicePtr_def GetLengthPrefixedSlice_def GetVarint32_def
      split: option.splits)

lemma GetLengthPrefixedSlice_shorter:
  assumes "GetLengthPrefixedSlice p = Some (s, q)"
  shows "length s + length q < length p"
  using assms GetVarint32_consumes [of p]
  by (fastforce simp: GetLengthPrefixedSlice_def split: option.splits if_splits)

section \<open>The encodings keep the contract\<close>

definition GetFixed32 :: "bytes \<Rightarrow> (u32 \<times> bytes) option" where
  "GetFixed32 p = (if 4 \<le> length p then Some (DecodeFixed32 p, drop 4 p) else None)"

definition GetFixed64 :: "bytes \<Rightarrow> (u64 \<times> bytes) option" where
  "GetFixed64 p = (if 8 \<le> length p then Some (DecodeFixed64 p, drop 8 p) else None)"

interpretation fixed32: prefix_codec EncodeFixed32 GetFixed32 "\<lambda>_. True"
  by unfold_locales (simp add: GetFixed32_def)

interpretation fixed64: prefix_codec EncodeFixed64 GetFixed64 "\<lambda>_. True"
  by unfold_locales (simp add: GetFixed64_def)

interpretation varint32: prefix_codec EncodeVarint32 GetVarint32 "\<lambda>_. True"
  by unfold_locales simp

interpretation varint64: prefix_codec EncodeVarint64 GetVarint64 "\<lambda>_. True"
  by unfold_locales simp

interpretation lps: prefix_codec "PutLengthPrefixedSlice []" GetLengthPrefixedSlice slice_size_ok
  by unfold_locales simp

section \<open>The codecs are correct\<close>

text \<open>
  C14. Every decoder of \<^verbatim>\<open>util/coding.cc\<close> inverts its encoder, whatever
  bytes follow: fixed-width and variable-length integers of 32 and 64 bits return the value and
  exactly the bytes after it, and so does a length-prefixed slice (both the \<^verbatim>\<open>Slice*\<close> and the
  pointer version) whose size fits in 32 bits.
\<close>

theorem coding_roundtrips:
  fixes v :: u32 and w :: u64
  assumes "slice_size_ok xs"
  shows "DecodeFixed32 (PutFixed32 [] v @ rest) = v \<and>
    DecodeFixed64 (PutFixed64 [] w @ rest) = w \<and>
    GetVarint32 (PutVarint32 [] v @ rest) = Some (v, rest) \<and>
    GetVarint64 (PutVarint64 [] w @ rest) = Some (w, rest) \<and>
    GetLengthPrefixedSlice (PutLengthPrefixedSlice [] xs @ rest) = Some (xs, rest) \<and>
    GetLengthPrefixedSlicePtr (PutLengthPrefixedSlice [] xs @ rest) = Some (xs, rest)"
  using assms
  by (simp add: PutFixed32_def PutFixed64_def PutVarint32_def PutVarint64_def GetLengthPrefixedSlicePtr_eq)

theorem coding_roundtrips_witness:
  "GetVarint32 (PutVarint32 [] 300 @ [9]) = Some (300, [9]) \<and>
   GetLengthPrefixedSlice (PutLengthPrefixedSlice [] [1, 2, 3] @ [9]) = Some ([1, 2, 3], [9])"
  using coding_roundtrips [of "[1, 2, 3]" 300 "[9]" 7] by (simp add: slice_size_ok_def)

text \<open>
  The hand-unrolled encoder of 32-bit varints is the generic loop; the number
  of bytes written is what \<^verbatim>\<open>VarintLength\<close> computes (at most 5 and 10); and the one-byte fast path
  of the 32-bit decoder agrees with its fallback on every input.
\<close>

theorem varint_routines:
  "EncodeVarint32 v = varint v \<and>
   length (EncodeVarint32 v) = VarintLength (ucast v) \<and> length (EncodeVarint32 v) \<le> 5 \<and>
   length (EncodeVarint64 w) = VarintLength w \<and>
   GetVarint32Ptr p = GetVarint32PtrFallback p"
  using length_EncodeVarint32_bounds [of v] length_EncodeVarint32 [of v]
  by (simp add: EncodeVarint32_eq_varint length_EncodeVarint64 GetVarint32Ptr_eq_Fallback)

end
