(* ===== verification/Logging.thy ===== *)
theory Logging
  imports Prelude
begin

unbundle bit_operations_syntax

text \<open>
  \<^verbatim>\<open>util/logging.cc\<close>: printing and parsing of numbers and of strings.  The two
  uses of \<^verbatim>\<open>snprintf\<close> are the decimal digits of an unsigned number and the two
  hexadecimal digits of a byte.
\<close>

section \<open>Printing\<close>

fun dec_digits :: "nat \<Rightarrow> bytes" where
  "dec_digits n = (if n < 10 then [of_nat (48 + n)]
                   else dec_digits (n div 10) @ [of_nat (48 + n mod 10)])"

declare dec_digits.simps [simp del]

definition hex_digit :: "nat \<Rightarrow> byte" where
  "hex_digit n = of_nat (if n < 10 then 48 + n else 87 + n)"

definition hex2 :: "byte \<Rightarrow> bytes" where
  "hex2 c = [hex_digit (unat c div 16), hex_digit (unat c mod 16)]"

definition AppendNumberTo :: "bytes \<Rightarrow> u64 \<Rightarrow> bytes" where
  "AppendNumberTo str num = str @ dec_digits (unat num)"

text \<open>\<^verbatim>\<open>char\<close> is signed, so a byte above 127 is below the space character.\<close>

fun AppendEscapedStringTo :: "bytes \<Rightarrow> bytes \<Rightarrow> bytes" where
  "AppendEscapedStringTo str [] = str"
| "AppendEscapedStringTo str (c # value) =
     (if 32 \<le> sint c \<and> sint c \<le> 126 then AppendEscapedStringTo (str @ [c]) value
      else AppendEscapedStringTo (str @ lit [CHR 0x5C, CHR ''x''] @ hex2 c) value)"

definition NumberToString :: "u64 \<Rightarrow> bytes" where
  "NumberToString num = AppendNumberTo [] num"

definition EscapeString :: "bytes \<Rightarrow> bytes" where
  "EscapeString value = AppendEscapedStringTo [] value"

section \<open>Parsing\<close>

definition kMaxUint64 :: u64 where
  "kMaxUint64 = - 1"

text \<open>\<open>'0' + static_cast<char>(kMaxUint64 % 10)\<close>.\<close>

definition kLastDigitOfMaxUint64 :: byte where
  "kLastDigitOfMaxUint64 = 48 + ucast (kMaxUint64 mod 10)"

text \<open>
  The loop stops at the first byte that is not a digit or at the end.
  \<^term>\<open>None\<close> is the early \<^verbatim>\<open>return false\<close> on overflow; otherwise the value, the
  number of digits consumed and the rest.
\<close>

fun ConsumeDecimalNumber_loop :: "u64 \<Rightarrow> nat \<Rightarrow> bytes \<Rightarrow> (u64 \<times> nat \<times> bytes) option" where
  "ConsumeDecimalNumber_loop val n [] = Some (val, n, [])"
| "ConsumeDecimalNumber_loop val n (ch # current) =
     (if ch < 48 \<or> ch > 57 then Some (val, n, ch # current)
      else if val > kMaxUint64 div 10 \<or>
              (val = kMaxUint64 div 10 \<and> ch > kLastDigitOfMaxUint64) then None
      else ConsumeDecimalNumber_loop (val * 10 + ucast (ch - 48)) (Suc n) current)"

definition ConsumeDecimalNumber :: "bytes \<Rightarrow> (u64 \<times> bytes) option" where
  "ConsumeDecimalNumber input =
     (case ConsumeDecimalNumber_loop 0 0 input of
        None \<Rightarrow> None
      | Some (val, digits_consumed, rest) \<Rightarrow>
          (if digits_consumed \<noteq> 0 then Some (val, rest) else None))"

section \<open>The value of a digit string\<close>

definition is_digit :: "byte \<Rightarrow> bool" where
  "is_digit ch \<longleftrightarrow> 48 \<le> ch \<and> ch \<le> 57"

definition digit_val :: "byte \<Rightarrow> nat" where
  "digit_val ch = unat ch - 48"

definition dec_value :: "nat \<Rightarrow> bytes \<Rightarrow> nat" where
  "dec_value acc ds = foldl (\<lambda>n d. n * 10 + digit_val d) acc ds"

lemma dec_value_simps [simp]:
  "dec_value acc [] = acc"
  "dec_value acc (d # ds) = dec_value (acc * 10 + digit_val d) ds"
  "dec_value acc (ds @ [e]) = dec_value acc ds * 10 + digit_val e"
  by (simp_all add: dec_value_def)

lemma dec_value_ge: "acc \<le> dec_value acc ds"
proof (induction ds arbitrary: acc)
  case (Cons d ds)
  have "acc \<le> acc * 10 + digit_val d" by simp
  also have "\<dots> \<le> dec_value (acc * 10 + digit_val d) ds" by (rule Cons.IH)
  finally show ?case by simp
qed simp

lemma unat_of_nat_byte: "n < 256 \<Longrightarrow> unat (of_nat n :: byte) = n"
  by (simp add: unat_of_nat take_bit_nat_eq_self)

lemma is_digit_unat: "is_digit ch \<longleftrightarrow> 48 \<le> unat ch \<and> unat ch \<le> 57"
  by (simp add: is_digit_def word_le_nat_alt)

lemma digit_val_of_nat [simp]: "n < 10 \<Longrightarrow> digit_val (of_nat (48 + n)) = n"
  using unat_of_nat_byte [of "48 + n"] by (simp add: digit_val_def)

lemma is_digit_of_nat [simp]: "n < 10 \<Longrightarrow> is_digit (of_nat (48 + n))"
  using unat_of_nat_byte [of "48 + n"] by (simp add: is_digit_unat)

lemma dec_value_dec_digits: "dec_value 0 (dec_digits n) = n"
proof (induction n rule: dec_digits.induct)
  case (1 n)
  show ?case
    using 1 by (subst dec_digits.simps) (auto simp del: of_nat_add)
qed

lemma dec_digits_are_digits: "\<forall>d \<in> set (dec_digits n). is_digit d"
proof (induction n rule: dec_digits.induct)
  case (1 n)
  then show ?case
    by (subst dec_digits.simps) (auto simp del: of_nat_add)
qed

lemma dec_digits_not_Nil [simp]: "dec_digits n \<noteq> []"
  by (subst dec_digits.simps) simp

section \<open>The parser computes the value, and detects every overflow\<close>

lemma digit_step_unat:
  assumes "is_digit ch"
  shows "unat (ch - 48) = digit_val ch" "digit_val ch \<le> 9"
  using assms by (auto simp: is_digit_unat digit_val_def unat_sub word_le_nat_alt)

lemma overflow_test:
  assumes "is_digit ch"
  shows "(val > kMaxUint64 div 10 \<or> (val = kMaxUint64 div 10 \<and> ch > kLastDigitOfMaxUint64))
     \<longleftrightarrow> 2 ^ 64 \<le> unat val * 10 + digit_val ch"
proof -
  have q: "kMaxUint64 div 10 = 1844674407370955161"
    and d: "kLastDigitOfMaxUint64 = 53"
    by (simp_all add: kMaxUint64_def kLastDigitOfMaxUint64_def)
  show ?thesis
    using assms unfolding q d
    by (auto simp: word_less_nat_alt is_digit_unat digit_val_def word_unat_eq_iff)
qed

lemma no_overflow_step:
  assumes "is_digit ch" "unat val * 10 + digit_val ch < 2 ^ 64"
  shows "unat (val * 10 + ucast (ch - 48) :: u64) = unat val * 10 + digit_val ch"
proof -
  have "unat (ucast (ch - 48) :: u64) = digit_val ch"
    using digit_step_unat [OF assms(1)] by (simp add: unsigned_ucast_eq take_bit_nat_eq_self)
  with assms(2) show ?thesis
    by (simp add: unat_word_ariths)
qed

lemma ConsumeDecimalNumber_loop_digits:
  assumes "\<forall>d \<in> set ds. is_digit d" "rest = [] \<or> \<not> is_digit (hd rest)"
  shows "ConsumeDecimalNumber_loop val n (ds @ rest) =
    (if dec_value (unat val) ds < 2 ^ 64
     then Some (of_nat (dec_value (unat val) ds), n + length ds, rest) else None)"
  using assms(1)
proof (induction ds arbitrary: val n)
  case Nil
  then show ?case
    using assms(2) unsigned_less [of val] by (cases rest) (auto simp: is_digit_def not_le)
next
  case (Cons d ds)
  then have d: "is_digit d" by simp
  then have dd: "\<not> (d < 48 \<or> d > 57)" by (simp add: is_digit_def not_less)
  let ?v = "unat val * 10 + digit_val d"
  show ?case
  proof (cases "2 ^ 64 \<le> ?v")
    case True
    then have "\<not> dec_value ?v ds < 2 ^ 64"
      using dec_value_ge [of ?v ds] by linarith
    then show ?thesis
      using True dd overflow_test [OF d, of val] by simp
  next
    case False
    then have ov: "\<not> (val > kMaxUint64 div 10 \<or>
        (val = kMaxUint64 div 10 \<and> d > kLastDigitOfMaxUint64))"
      using overflow_test [OF d, of val] by simp
    then have "ConsumeDecimalNumber_loop val n ((d # ds) @ rest) =
        ConsumeDecimalNumber_loop (val * 10 + ucast (d - 48)) (Suc n) (ds @ rest)"
      using dd by (simp only: append_Cons ConsumeDecimalNumber_loop.simps if_False)
    then show ?thesis
      using False no_overflow_step [OF d, of val] Cons by (simp add: not_le)
  qed
qed

lemma ConsumeDecimalNumber_digits:
  assumes "\<forall>d \<in> set ds. is_digit d" "ds \<noteq> []" "rest = [] \<or> \<not> is_digit (hd rest)"
  shows "ConsumeDecimalNumber (ds @ rest) =
    (if dec_value 0 ds < 2 ^ 64 then Some (of_nat (dec_value 0 ds), rest) else None)"
  using ConsumeDecimalNumber_loop_digits [OF assms(1,3), of 0 0] assms(2)
  by (simp add: ConsumeDecimalNumber_def)

lemma ConsumeDecimalNumber_no_digit:
  assumes "input = [] \<or> \<not> is_digit (hd input)"
  shows "ConsumeDecimalNumber input = None"
  using assms by (cases input) (auto simp: ConsumeDecimalNumber_def is_digit_def not_le)

lemma ConsumeDecimalNumber_NumberToString:
  assumes "rest = [] \<or> \<not> is_digit (hd rest)"
  shows "ConsumeDecimalNumber (NumberToString num @ rest) = Some (num, rest)"
  using ConsumeDecimalNumber_digits [OF dec_digits_are_digits dec_digits_not_Nil assms, of "unat num"]
    unsigned_less [of num]
  by (simp add: NumberToString_def AppendNumberTo_def dec_value_dec_digits)

section \<open>Parsing decimal numbers\<close>

text \<open>
  \<^verbatim>\<open>ConsumeDecimalNumber\<close> on a non-empty run of digits followed by something
  else returns exactly the number written and the rest, and fails exactly when that number does not
  fit in 64 bits: the overflow test never lets a wrapped value through. It fails when there is no
  digit, and it inverts \<^verbatim>\<open>NumberToString\<close>.
\<close>

theorem decimal_numbers:
  assumes "\<forall>d \<in> set ds. is_digit d" and "rest = [] \<or> \<not> is_digit (hd rest)"
  shows "ConsumeDecimalNumber (ds @ rest) =
      (if ds \<noteq> [] \<and> dec_value 0 ds < 2 ^ 64 then Some (of_nat (dec_value 0 ds), rest) else None) \<and>
    ConsumeDecimalNumber (NumberToString num @ rest) = Some (num, rest)"
  using ConsumeDecimalNumber_digits [OF assms(1) _ assms(2)] ConsumeDecimalNumber_no_digit [OF assms(2)]
    ConsumeDecimalNumber_NumberToString [OF assms(2)]
  by (cases "ds = []") simp_all

theorem decimal_numbers_witness:
  "ConsumeDecimalNumber ([52, 50] @ [46]) = Some (42, [46]) \<and>
   ConsumeDecimalNumber (NumberToString 7 @ [46]) = Some (7, [46])"
  using decimal_numbers [of "[52, 50]" "[46]" 7] by (simp add: is_digit_def digit_val_def)

end
