(* ===== verification/Status.thy ===== *)
theory Status
  imports Coding Logging
begin

text \<open>
  \<^verbatim>\<open>include/leveldb/status.h\<close> and \<^verbatim>\<open>util/status.cc\<close>: the result of every fallible
  operation.  The state of an error is the heap array of the code, byte by
  byte: the length of the message, the code, the message.  A null state is
  success.  The length is copied in and out in the machine's byte order, which
  is little-endian on every platform the application is built for.
\<close>

datatype Code = kOk | kNotFound | kCorruption | kNotSupported | kInvalidArgument | kIOError

primrec Code_value :: "Code \<Rightarrow> byte" where
  "Code_value kOk = 0"
| "Code_value kNotFound = 1"
| "Code_value kCorruption = 2"
| "Code_value kNotSupported = 3"
| "Code_value kInvalidArgument = 4"
| "Code_value kIOError = 5"

record Status =
  status_state :: "bytes option"

definition Status_OK :: Status where
  "Status_OK = \<lparr>status_state = None\<rparr>"

definition Status_make :: "Code \<Rightarrow> bytes \<Rightarrow> bytes \<Rightarrow> Status" where
  "Status_make code msg msg2 =
     (let len1 = of_nat (length msg) :: u32;
          len2 = of_nat (length msg2) :: u32;
          size = len1 + (if len2 \<noteq> 0 then 2 + len2 else 0)
      in \<lparr>status_state = Some (EncodeFixed32 size @ [Code_value code] @ take (unat len1) msg @
            (if len2 \<noteq> 0 then lit '': '' @ take (unat len2) msg2 else []))\<rparr>)"

definition Status_NotFound :: "bytes \<Rightarrow> bytes \<Rightarrow> Status" where
  "Status_NotFound msg msg2 = Status_make kNotFound msg msg2"

definition Status_Corruption :: "bytes \<Rightarrow> bytes \<Rightarrow> Status" where
  "Status_Corruption msg msg2 = Status_make kCorruption msg msg2"

definition Status_NotSupported :: "bytes \<Rightarrow> bytes \<Rightarrow> Status" where
  "Status_NotSupported msg msg2 = Status_make kNotSupported msg msg2"

definition Status_InvalidArgument :: "bytes \<Rightarrow> bytes \<Rightarrow> Status" where
  "Status_InvalidArgument msg msg2 = Status_make kInvalidArgument msg msg2"

definition Status_IOError :: "bytes \<Rightarrow> bytes \<Rightarrow> Status" where
  "Status_IOError msg msg2 = Status_make kIOError msg msg2"

text \<open>\<^verbatim>\<open>code()\<close>, as the number stored in the fifth byte.\<close>

definition Status_code :: "Status \<Rightarrow> byte" where
  "Status_code s = (case status_state s of None \<Rightarrow> Code_value kOk | Some st \<Rightarrow> st ! 4)"

definition Status_ok :: "Status \<Rightarrow> bool" where
  "Status_ok s \<longleftrightarrow> status_state s = None"

definition Status_IsNotFound :: "Status \<Rightarrow> bool" where
  "Status_IsNotFound s \<longleftrightarrow> Status_code s = Code_value kNotFound"

definition Status_IsCorruption :: "Status \<Rightarrow> bool" where
  "Status_IsCorruption s \<longleftrightarrow> Status_code s = Code_value kCorruption"

definition Status_IsIOError :: "Status \<Rightarrow> bool" where
  "Status_IsIOError s \<longleftrightarrow> Status_code s = Code_value kIOError"

definition Status_IsNotSupportedError :: "Status \<Rightarrow> bool" where
  "Status_IsNotSupportedError s \<longleftrightarrow> Status_code s = Code_value kNotSupported"

definition Status_IsInvalidArgument :: "Status \<Rightarrow> bool" where
  "Status_IsInvalidArgument s \<longleftrightarrow> Status_code s = Code_value kInvalidArgument"

definition Status_CopyState :: "bytes \<Rightarrow> bytes" where
  "Status_CopyState st = take (unat (DecodeFixed32 st) + 5) st"

definition Status_copy :: "Status \<Rightarrow> Status" where
  "Status_copy rhs = \<lparr>status_state = map_option Status_CopyState (status_state rhs)\<rparr>"

definition Status_type_string :: "byte \<Rightarrow> bytes" where
  "Status_type_string c =
     (if c = Code_value kOk then lit ''OK''
      else if c = Code_value kNotFound then lit ''NotFound: ''
      else if c = Code_value kCorruption then lit ''Corruption: ''
      else if c = Code_value kNotSupported then lit ''Not implemented: ''
      else if c = Code_value kInvalidArgument then lit ''Invalid argument: ''
      else if c = Code_value kIOError then lit ''IO error: ''
      else lit ''Unknown code('' @
             (if sint c < 0 then lit ''-'' @ dec_digits (nat (- sint c)) else dec_digits (unat c)) @
             lit ''): '')"

definition Status_ToString :: "Status \<Rightarrow> bytes" where
  "Status_ToString s =
     (case status_state s of
        None \<Rightarrow> lit ''OK''
      | Some st \<Rightarrow> Status_type_string (Status_code s) @ take (unat (DecodeFixed32 st)) (drop 5 st))"

section \<open>Reading a status back\<close>

lemma Status_ok_simps [simp]:
  "Status_ok Status_OK"
  "\<not> Status_ok (Status_make c m m2)"
  "\<not> Status_ok (Status_NotFound m m2)"
  "\<not> Status_ok (Status_Corruption m m2)"
  "\<not> Status_ok (Status_NotSupported m m2)"
  "\<not> Status_ok (Status_InvalidArgument m m2)"
  "\<not> Status_ok (Status_IOError m m2)"
  by (simp_all add: Status_ok_def Status_OK_def Status_make_def Let_def Status_NotFound_def
      Status_Corruption_def Status_NotSupported_def Status_InvalidArgument_def Status_IOError_def)

lemma Status_ok_iff: "Status_ok s \<longleftrightarrow> s = Status_OK"
  by (cases s) (simp add: Status_ok_def Status_OK_def)

lemma Status_code_make [simp]: "Status_code (Status_make c m m2) = Code_value c"
  by (simp add: Status_code_def Status_make_def Let_def nth_append)

lemma Status_code_OK [simp]: "Status_code Status_OK = Code_value kOk"
  by (simp add: Status_code_def Status_OK_def)

lemma Code_value_inject [simp]: "Code_value c = Code_value d \<longleftrightarrow> c = d"
  by (cases c; cases d) simp_all

lemmas Status_kinds = Status_NotFound_def Status_Corruption_def Status_NotSupported_def
  Status_InvalidArgument_def Status_IOError_def

lemmas Status_tests = Status_IsNotFound_def Status_IsCorruption_def Status_IsIOError_def
  Status_IsNotSupportedError_def Status_IsInvalidArgument_def

lemma Status_IsNotFound_NotFound [simp]: "Status_IsNotFound (Status_NotFound m m2)"
  by (simp add: Status_tests Status_kinds del: Code_value.simps)

lemma Status_IsCorruption_Corruption [simp]: "Status_IsCorruption (Status_Corruption m m2)"
  by (simp add: Status_tests Status_kinds del: Code_value.simps)

lemma Status_not_IsNotFound [simp]: "\<not> Status_IsNotFound Status_OK"
  "\<not> Status_IsNotFound (Status_Corruption m m2)"
  by (simp_all add: Status_tests Status_kinds del: Code_value.simps)

text \<open>The message a status was made with.\<close>

definition Status_message :: "bytes \<Rightarrow> bytes \<Rightarrow> bytes" where
  "Status_message msg msg2 = msg @ (if msg2 \<noteq> [] then lit '': '' @ msg2 else [])"

definition message_size_ok :: "bytes \<Rightarrow> bytes \<Rightarrow> bool" where
  "message_size_ok msg msg2 \<longleftrightarrow> length msg + length msg2 + 7 < 2 ^ 32"

lemma of_nat_u32_eq_0: "n < 2 ^ 32 \<Longrightarrow> (of_nat n = (0::u32)) \<longleftrightarrow> n = 0"
  using unat_of_nat_u32 [of n] by (auto simp: unat_eq_0 [symmetric])

lemma Status_make_state:
  assumes "message_size_ok msg msg2"
  shows "status_state (Status_make c msg msg2) =
    Some (EncodeFixed32 (of_nat (length (Status_message msg msg2))) @ [Code_value c] @
          Status_message msg msg2)"
  using assms
  by (simp add: message_size_ok_def Status_make_def Status_message_def Let_def
      unat_of_nat_u32 of_nat_u32_eq_0)

lemma Status_ToString_make:
  assumes "message_size_ok msg msg2"
  shows "Status_ToString (Status_make c msg msg2) =
    Status_type_string (Code_value c) @ Status_message msg msg2"
proof -
  have "length (Status_message msg msg2) < 2 ^ 32"
    using assms by (simp add: message_size_ok_def Status_message_def)
  then show ?thesis
    by (simp add: Status_ToString_def Status_make_state [OF assms] unat_of_nat_u32
        del: append.simps(2))
qed

lemma Status_copy_make:
  assumes "message_size_ok msg msg2"
  shows "Status_copy (Status_make c msg msg2) = Status_make c msg msg2"
proof -
  have "length (Status_message msg msg2) < 2 ^ 32"
    using assms by (simp add: message_size_ok_def Status_message_def)
  then have "status_state (Status_copy (Status_make c msg msg2)) = status_state (Status_make c msg msg2)"
    by (simp add: Status_copy_def Status_CopyState_def Status_make_state [OF assms]
        unat_of_nat_u32)
  then show ?thesis by simp
qed

section \<open>What a status reports\<close>

text \<open>
  A status made by a constructor of an error code is not ok, carries that code,
  prints the name of the code followed by its message (the second part after a colon, when there is
  one), and a copy of it is the same status.
\<close>

theorem status_contract:
  assumes "message_size_ok msg msg2"
  shows "\<not> Status_ok (Status_make c msg msg2) \<and>
    Status_code (Status_make c msg msg2) = Code_value c \<and>
    Status_ToString (Status_make c msg msg2) = Status_type_string (Code_value c) @ Status_message msg msg2 \<and>
    Status_copy (Status_make c msg msg2) = Status_make c msg msg2"
  using Status_ToString_make [OF assms] Status_copy_make [OF assms] by simp

theorem status_contract_witness:
  "Status_ToString (Status_make kNotFound (lit ''k'') (lit ''e'')) = lit ''NotFound: k: e''"
  using status_contract [of "lit ''k''" "lit ''e''" kNotFound]
  by (simp add: message_size_ok_def Status_type_string_def Status_message_def lit_def)

end
