(* ===== verification/Env_Files.thy ===== *)
theory Env_Files
  imports Slice Status "HOL-Library.Sublist"
begin

text \<open>
  \<^verbatim>\<open>include/leveldb/env.h\<close> and \<^verbatim>\<open>util/env_posix.cc\<close>: the file interfaces the engine writes and reads
  through, the contracts of the two sequential ones as locales, and their POSIX implementations.

  The operating system is outside the sources.  A file descriptor is the file's bytes, an offset,
  and the outcomes the kernel will give to the coming \<^verbatim>\<open>write\<close>, \<^verbatim>\<open>read\<close> and \<^verbatim>\<open>fsync\<close> calls, so every
  sequence of partial transfers, interrupts and failures is one of the inputs.
\<close>

section \<open>The interfaces\<close>

record 'f WritableFile =
  wf_Append :: "bytes \<Rightarrow> 'f \<Rightarrow> Status \<times> 'f"
  wf_Flush :: "'f \<Rightarrow> Status \<times> 'f"

record 'f SequentialFile =
  sf_Read :: "nat \<Rightarrow> 'f \<Rightarrow> Status \<times> bytes \<times> 'f"
  sf_Skip :: "nat \<Rightarrow> 'f \<Rightarrow> Status \<times> 'f"

text \<open>
  A writable file promises that what it accepted is in its contents, that a flush makes them
  durable, and that even after a failure the durable bytes are a prefix of what was given to it.
\<close>

locale writable_file =
  fixes fo :: "'f WritableFile"
    and contents durable :: "'f \<Rightarrow> bytes"
    and ok :: "'f \<Rightarrow> bool"
  assumes append_ok: "ok f \<Longrightarrow> wf_Append fo bs f = (s, f') \<Longrightarrow> Status_ok s \<Longrightarrow> contents f' = contents f @ bs"
    and append_inv: "ok f \<Longrightarrow> wf_Append fo bs f = (s, f') \<Longrightarrow> ok f'"
    and append_durable: "ok f \<Longrightarrow> wf_Append fo bs f = (s, f') \<Longrightarrow> prefix (durable f') (contents f @ bs)"
    and flush_ok: "ok f \<Longrightarrow> wf_Flush fo f = (s, f') \<Longrightarrow> Status_ok s \<Longrightarrow> contents f' = contents f \<and> durable f' = contents f"
    and flush_inv: "ok f \<Longrightarrow> wf_Flush fo f = (s, f') \<Longrightarrow> ok f'"
    and flush_durable: "ok f \<Longrightarrow> wf_Flush fo f = (s, f') \<Longrightarrow> prefix (durable f') (contents f)"

text \<open>A sequential file gives its bytes in order; fewer than asked for only at its end.\<close>

locale sequential_file =
  fixes sf :: "'f SequentialFile"
    and remaining :: "'f \<Rightarrow> bytes"
    and ok :: "'f \<Rightarrow> bool"
  assumes read_ok: "ok f \<Longrightarrow> \<exists>f'. sf_Read sf n f = (Status_OK, take n (remaining f), f') \<and>
        ok f' \<and> remaining f' = drop n (remaining f)"
    and skip_ok: "ok f \<Longrightarrow> \<exists>f'. sf_Skip sf n f = (Status_OK, f') \<and> ok f' \<and> remaining f' = drop n (remaining f)"

section \<open>System calls\<close>

text \<open>\<open>Failed enoent msg\<close>: the call fails, \<open>enoent\<close> tells if \<^verbatim>\<open>errno\<close> is \<^verbatim>\<open>ENOENT\<close>, \<open>msg\<close> is \<^verbatim>\<open>strerror\<close>.\<close>

datatype outcome = Done nat | Interrupted | Failed bool bytes

record fd =
  fd_data :: bytes
  fd_offset :: nat
  fd_outcomes :: "outcome list"

datatype sys_result = Transferred bytes | EINTR | Errno bool bytes

text \<open>\<^verbatim>\<open>write\<close> at the end of the file: some prefix of the data, all of it if nothing else is planned.\<close>

definition sys_write :: "bytes \<Rightarrow> fd \<Rightarrow> sys_result \<times> fd" where
  "sys_write data f =
     (case fd_outcomes f of
        [] \<Rightarrow> (Transferred data, f\<lparr>fd_data := fd_data f @ data\<rparr>)
      | Done n # os \<Rightarrow>
          (Transferred (take n data), f\<lparr>fd_data := fd_data f @ take n data, fd_outcomes := os\<rparr>)
      | Interrupted # os \<Rightarrow> (EINTR, f\<lparr>fd_outcomes := os\<rparr>)
      | Failed e msg # os \<Rightarrow> (Errno e msg, f\<lparr>fd_outcomes := os\<rparr>))"

definition sys_read :: "nat \<Rightarrow> fd \<Rightarrow> sys_result \<times> fd" where
  "sys_read n f =
     (let rest = drop (fd_offset f) (fd_data f) in
      case fd_outcomes f of
        [] \<Rightarrow> (Transferred (take n rest), f\<lparr>fd_offset := fd_offset f + length (take n rest)\<rparr>)
      | Done k # os \<Rightarrow>
          (Transferred (take (min k n) rest),
           f\<lparr>fd_offset := fd_offset f + length (take (min k n) rest), fd_outcomes := os\<rparr>)
      | Interrupted # os \<Rightarrow> (EINTR, f\<lparr>fd_outcomes := os\<rparr>)
      | Failed e msg # os \<Rightarrow> (Errno e msg, f\<lparr>fd_outcomes := os\<rparr>))"

definition PosixError :: "bytes \<Rightarrow> bool \<Rightarrow> bytes \<Rightarrow> Status" where
  "PosixError context enoent msg =
     (if enoent then Status_NotFound context msg else Status_IOError context msg)"

section \<open>PosixWritableFile\<close>

definition kWritableFileBufferSize :: nat where
  "kWritableFileBufferSize = 65536"

text \<open>\<open>pw_buf\<close> is \<^verbatim>\<open>buf_[0, pos_ - 1]\<close>; a negative \<^verbatim>\<open>fd_\<close> after \<^verbatim>\<open>Close\<close> is \<open>pw_open = False\<close>.\<close>

record PosixWritableFile =
  pw_buf :: bytes
  pw_fd :: fd
  pw_open :: bool
  pw_is_manifest :: bool
  pw_filename :: bytes
  pw_dirname :: bytes

definition rfind_slash :: "bytes \<Rightarrow> nat option" where
  "rfind_slash filename =
     (let is = filter (\<lambda>i. filename ! i = 47) [0..<length filename]
      in if is = [] then None else Some (last is))"

definition Dirname :: "bytes \<Rightarrow> bytes" where
  "Dirname filename =
     (case rfind_slash filename of None \<Rightarrow> lit ''.'' | Some p \<Rightarrow> take p filename)"

definition Basename :: "bytes \<Rightarrow> bytes" where
  "Basename filename =
     (case rfind_slash filename of None \<Rightarrow> filename | Some p \<Rightarrow> drop (p + 1) filename)"

definition IsManifest :: "bytes \<Rightarrow> bool" where
  "IsManifest filename = Slice_starts_with (Basename filename) (lit ''MANIFEST'')"

definition PosixWritableFile_make :: "bytes \<Rightarrow> fd \<Rightarrow> PosixWritableFile" where
  "PosixWritableFile_make filename f =
     \<lparr>pw_buf = [], pw_fd = f, pw_open = True, pw_is_manifest = IsManifest filename,
      pw_filename = filename, pw_dirname = Dirname filename\<rparr>"

text \<open>The loop of \<^verbatim>\<open>WriteUnbuffered\<close>; every call to \<^verbatim>\<open>write\<close> uses up an outcome or the data.\<close>

function WriteUnbuffered_loop :: "bytes \<Rightarrow> bytes \<Rightarrow> fd \<Rightarrow> Status \<times> fd" where
  "WriteUnbuffered_loop filename data f =
     (if data = [] then (Status_OK, f)
      else case sys_write data f of
             (EINTR, f) \<Rightarrow> WriteUnbuffered_loop filename data f
           | (Errno e msg, f) \<Rightarrow> (PosixError filename e msg, f)
           | (Transferred bs, f) \<Rightarrow> WriteUnbuffered_loop filename (drop (length bs) data) f)"
  by auto
termination
  by (relation "measure (\<lambda>(_, data, f). length data + length (fd_outcomes f))")
     (auto simp: sys_write_def split: list.splits outcome.splits)

declare WriteUnbuffered_loop.simps [simp del]

definition WriteUnbuffered :: "bytes \<Rightarrow> PosixWritableFile \<Rightarrow> Status \<times> PosixWritableFile" where
  "WriteUnbuffered data w =
     (let (s, f) = WriteUnbuffered_loop (pw_filename w) data (pw_fd w) in (s, w\<lparr>pw_fd := f\<rparr>))"

definition FlushBuffer :: "PosixWritableFile \<Rightarrow> Status \<times> PosixWritableFile" where
  "FlushBuffer w = (let (status, w) = WriteUnbuffered (pw_buf w) w in (status, w\<lparr>pw_buf := []\<rparr>))"

definition PosixWritableFile_Append :: "bytes \<Rightarrow> PosixWritableFile \<Rightarrow> Status \<times> PosixWritableFile" where
  "PosixWritableFile_Append data w =
     (let copy_size = min (length data) (kWritableFileBufferSize - length (pw_buf w));
          w = w\<lparr>pw_buf := pw_buf w @ take copy_size data\<rparr>;
          write_data = drop copy_size data
      in if write_data = [] then (Status_OK, w)
         else (let (status, w) = FlushBuffer w
               in if \<not> Status_ok status then (status, w)
                  else if length write_data < kWritableFileBufferSize
                  then (Status_OK, w\<lparr>pw_buf := write_data\<rparr>)
                  else WriteUnbuffered write_data w))"

definition PosixWritableFile_Flush :: "PosixWritableFile \<Rightarrow> Status \<times> PosixWritableFile" where
  "PosixWritableFile_Flush w = FlushBuffer w"

text \<open>\<open>close_error\<close> is what \<^verbatim>\<open>close\<close> fails with, if it does.\<close>

definition PosixWritableFile_Close ::
    "(bool \<times> bytes) option \<Rightarrow> PosixWritableFile \<Rightarrow> Status \<times> PosixWritableFile" where
  "PosixWritableFile_Close close_error w =
     (let (status, w) = FlushBuffer w;
          status = (case close_error of
                      Some (e, msg) \<Rightarrow> if Status_ok status then PosixError (pw_filename w) e msg else status
                    | None \<Rightarrow> status)
      in (status, w\<lparr>pw_open := False\<rparr>))"

text \<open>
  \<open>fsync\<close> with the error it returns, if any.  On the platforms with \<^verbatim>\<open>F_FULLFSYNC\<close> that call is tried
  first: \<open>full\<close> says whether it succeeds.
\<close>

definition SyncFd :: "bool \<Rightarrow> (bool \<times> bytes) option \<Rightarrow> bytes \<Rightarrow> Status" where
  "SyncFd full sync_error fd_path =
     (if full then Status_OK
      else case sync_error of None \<Rightarrow> Status_OK | Some (e, msg) \<Rightarrow> PosixError fd_path e msg)"

text \<open>\<open>open_error\<close>: what opening the directory fails with, if it does.\<close>

definition SyncDirIfManifest ::
    "(bool \<times> bytes) option \<Rightarrow> bool \<Rightarrow> (bool \<times> bytes) option \<Rightarrow> PosixWritableFile \<Rightarrow> Status" where
  "SyncDirIfManifest open_error full sync_error w =
     (if \<not> pw_is_manifest w then Status_OK
      else case open_error of
             Some (e, msg) \<Rightarrow> PosixError (pw_dirname w) e msg
           | None \<Rightarrow> SyncFd full sync_error (pw_dirname w))"

definition PosixWritableFile_Sync ::
    "Status \<Rightarrow> Status \<Rightarrow> PosixWritableFile \<Rightarrow> Status \<times> PosixWritableFile" where
  "PosixWritableFile_Sync dir_status fd_status w =
     (if \<not> Status_ok dir_status then (dir_status, w)
      else
        (let (status, w) = FlushBuffer w
         in if \<not> Status_ok status then (status, w) else (fd_status, w)))"

definition PosixWritable :: "PosixWritableFile WritableFile" where
  "PosixWritable = \<lparr>wf_Append = PosixWritableFile_Append, wf_Flush = PosixWritableFile_Flush\<rparr>"

section \<open>PosixSequentialFile\<close>

record PosixSequentialFile =
  ps_fd :: fd
  ps_filename :: bytes

text \<open>An error leaves \<^verbatim>\<open>*result\<close> as it was, which the caller cleared.\<close>

function PosixSequentialFile_Read_loop :: "bytes \<Rightarrow> nat \<Rightarrow> fd \<Rightarrow> Status \<times> bytes \<times> fd" where
  "PosixSequentialFile_Read_loop filename n f =
     (case sys_read n f of
        (EINTR, f') \<Rightarrow> PosixSequentialFile_Read_loop filename n f'
      | (Errno e msg, f') \<Rightarrow> (PosixError filename e msg, [], f')
      | (Transferred bs, f') \<Rightarrow> (Status_OK, bs, f'))"
  by auto
termination
  by (relation "measure (\<lambda>(_, _, f). length (fd_outcomes f))")
     (auto simp: sys_read_def Let_def split: list.splits outcome.splits)

declare PosixSequentialFile_Read_loop.simps [simp del]

definition PosixSequentialFile_Read :: "nat \<Rightarrow> PosixSequentialFile \<Rightarrow> Status \<times> bytes \<times> PosixSequentialFile" where
  "PosixSequentialFile_Read n p =
     (let (s, bs, f) = PosixSequentialFile_Read_loop (ps_filename p) n (ps_fd p) in (s, bs, p\<lparr>ps_fd := f\<rparr>))"

text \<open>\<^verbatim>\<open>lseek\<close> moves the offset, past the end of the file too.\<close>

definition PosixSequentialFile_Skip ::
    "(bool \<times> bytes) option \<Rightarrow> nat \<Rightarrow> PosixSequentialFile \<Rightarrow> Status \<times> PosixSequentialFile" where
  "PosixSequentialFile_Skip seek_error n p =
     (case seek_error of
        Some (e, msg) \<Rightarrow> (PosixError (ps_filename p) e msg, p)
      | None \<Rightarrow> (Status_OK, p\<lparr>ps_fd := (ps_fd p)\<lparr>fd_offset := fd_offset (ps_fd p) + n\<rparr>\<rparr>))"

definition PosixSequential :: "PosixSequentialFile SequentialFile" where
  "PosixSequential = \<lparr>sf_Read = PosixSequentialFile_Read, sf_Skip = PosixSequentialFile_Skip None\<rparr>"

section \<open>The POSIX files keep the contracts\<close>

lemma not_ok_PosixError [simp]: "\<not> Status_ok (PosixError c e msg)"
  by (simp add: PosixError_def)

text \<open>Whatever the kernel does, a prefix of the data is written, and all of it on success.\<close>

lemma WriteUnbuffered_loop_writes:
  "WriteUnbuffered_loop filename data f = (s, f') \<Longrightarrow>
     \<exists>pre. prefix pre data \<and> fd_data f' = fd_data f @ pre \<and> (Status_ok s \<longrightarrow> pre = data)"
proof (induction filename data f arbitrary: f' rule: WriteUnbuffered_loop.induct)
  case (1 filename data f)
  show ?case
  proof (cases "data = []")
    case True
    then show ?thesis using "1.prems" by (simp add: WriteUnbuffered_loop.simps)
  next
    case False
    obtain r f1 where w: "sys_write data f = (r, f1)" by (metis surj_pair)
    show ?thesis
    proof (cases r)
      case (Transferred bs)
      then have bs: "bs = take (length bs) data" "fd_data f1 = fd_data f @ bs"
        using w by (auto simp: sys_write_def min_def split: list.splits outcome.splits)
      have "WriteUnbuffered_loop filename (drop (length bs) data) f1 = (s, f')"
        using "1.prems" False w Transferred by (simp add: WriteUnbuffered_loop.simps [of filename data f])
      from "1.IH"(1) [OF False w [symmetric] Transferred this] obtain pre where
        pre: "prefix pre (drop (length bs) data)" "fd_data f' = fd_data f1 @ pre"
          "Status_ok s \<longrightarrow> pre = drop (length bs) data" by blast
      have "prefix (bs @ pre) data" using pre(1) bs(1) by (metis append_take_drop_id same_prefix_prefix)
      moreover have "Status_ok s \<longrightarrow> bs @ pre = data" using pre(3) bs(1) by (metis append_take_drop_id)
      ultimately show ?thesis using pre(2) bs(2) by (intro exI [of _ "bs @ pre"]) simp
    next
      case EINTR
      then have "fd_data f1 = fd_data f"
        using w by (auto simp: sys_write_def split: list.splits outcome.splits)
      moreover have "WriteUnbuffered_loop filename data f1 = (s, f')"
        using "1.prems" False w EINTR by (simp add: WriteUnbuffered_loop.simps [of filename data f])
      ultimately show ?thesis using "1.IH"(2) [OF False w [symmetric] EINTR] by simp
    next
      case (Errno e msg)
      then have "fd_data f1 = fd_data f"
        using w by (auto simp: sys_write_def split: list.splits outcome.splits)
      moreover have "s = PosixError filename e msg" "f' = f1"
        using "1.prems" False w Errno by (simp_all add: WriteUnbuffered_loop.simps [of filename data f])
      ultimately show ?thesis by (intro exI [of _ "[]"]) simp
    qed
  qed
qed

definition pw_contents :: "PosixWritableFile \<Rightarrow> bytes" where
  "pw_contents w = fd_data (pw_fd w) @ pw_buf w"

definition pw_durable :: "PosixWritableFile \<Rightarrow> bytes" where
  "pw_durable w = fd_data (pw_fd w)"

definition pw_ok :: "PosixWritableFile \<Rightarrow> bool" where
  "pw_ok w \<longleftrightarrow> length (pw_buf w) \<le> kWritableFileBufferSize"

lemma WriteUnbuffered_writes:
  assumes "WriteUnbuffered data w = (s, w')"
  shows "\<exists>pre. prefix pre data \<and> pw_durable w' = pw_durable w @ pre \<and> (Status_ok s \<longrightarrow> pre = data)"
    and "pw_buf w' = pw_buf w"
proof -
  obtain f where f: "WriteUnbuffered_loop (pw_filename w) data (pw_fd w) = (s, f)" "w' = w\<lparr>pw_fd := f\<rparr>"
    using assms by (auto simp: WriteUnbuffered_def split: prod.splits)
  from WriteUnbuffered_loop_writes [OF f(1)] f(2)
  show "\<exists>pre. prefix pre data \<and> pw_durable w' = pw_durable w @ pre \<and> (Status_ok s \<longrightarrow> pre = data)"
    by (simp add: pw_durable_def)
  show "pw_buf w' = pw_buf w" using f(2) by simp
qed

lemma FlushBuffer_flushes:
  assumes "FlushBuffer w = (s, w')"
  shows "pw_buf w' = []" "prefix (pw_durable w') (pw_contents w)" "Status_ok s \<Longrightarrow> pw_durable w' = pw_contents w"
proof -
  obtain w1 where w1: "WriteUnbuffered (pw_buf w) w = (s, w1)" "w' = w1\<lparr>pw_buf := []\<rparr>"
    using assms by (auto simp: FlushBuffer_def split: prod.splits)
  obtain pre where pre: "prefix pre (pw_buf w)" "pw_durable w1 = pw_durable w @ pre" "Status_ok s \<longrightarrow> pre = pw_buf w"
    using WriteUnbuffered_writes(1) [OF w1(1)] by blast
  show "pw_buf w' = []" using w1(2) by simp
  have d: "pw_durable w' = pw_durable w @ pre" using pre(2) w1(2) by (simp add: pw_durable_def)
  show "prefix (pw_durable w') (pw_contents w)"
    unfolding d using pre(1) by (simp add: pw_contents_def pw_durable_def)
  show "Status_ok s \<Longrightarrow> pw_durable w' = pw_contents w"
    unfolding d using pre(3) by (simp add: pw_contents_def pw_durable_def)
qed

lemma Append_cases:
  assumes "PosixWritableFile_Append bs w = (s, w')" and ok: "pw_ok w"
  shows "pw_ok w'" "Status_ok s \<Longrightarrow> pw_contents w' = pw_contents w @ bs" "prefix (pw_durable w') (pw_contents w @ bs)"
proof -
  define n where "n = min (length bs) (kWritableFileBufferSize - length (pw_buf w))"
  define w1 where "w1 = w\<lparr>pw_buf := pw_buf w @ take n bs\<rparr>"
  have c1: "pw_contents w1 @ drop n bs = pw_contents w @ bs" "pw_durable w1 = pw_durable w" "pw_ok w1"
    using ok by (auto simp: w1_def pw_contents_def pw_durable_def pw_ok_def n_def)
  obtain s2 w2 where f: "FlushBuffer w1 = (s2, w2)" by (metis surj_pair)
  note fl = FlushBuffer_flushes [OF f]
  have app: "PosixWritableFile_Append bs w = (if drop n bs = [] then (Status_OK, w1) else if \<not> Status_ok s2 then (s2, w2)
      else if length (drop n bs) < kWritableFileBufferSize then (Status_OK, w2\<lparr>pw_buf := drop n bs\<rparr>)
      else WriteUnbuffered (drop n bs) w2)"
    unfolding PosixWritableFile_Append_def Let_def n_def [symmetric] w1_def [symmetric] f prod.case ..
  consider "drop n bs = []" "s = Status_OK" "w' = w1"
    | "\<not> Status_ok s2" "s = s2" "w' = w2"
    | "Status_ok s2" "length (drop n bs) < kWritableFileBufferSize" "s = Status_OK" "w' = w2\<lparr>pw_buf := drop n bs\<rparr>"
    | "Status_ok s2" "WriteUnbuffered (drop n bs) w2 = (s, w')"
    using app assms(1) by (auto split: if_splits)
  then have "pw_ok w' \<and> (Status_ok s \<longrightarrow> pw_contents w' = pw_contents w @ bs) \<and> prefix (pw_durable w') (pw_contents w @ bs)"
  proof cases
    case 1
    then show ?thesis using c1 by (simp add: pw_contents_def pw_durable_def)
  next
    case 2
    have "prefix (pw_durable w2) (pw_contents w @ bs)"
      using fl(2) unfolding c1(1) [symmetric] by (rule prefix_prefix)
    with 2 fl(1) show ?thesis by (simp add: pw_ok_def)
  next
    case 3
    have "pw_durable w' = pw_contents w1" using 3 fl(3) by (simp add: pw_durable_def)
    then show ?thesis
      using 3 unfolding c1(1) [symmetric] by (simp add: pw_contents_def pw_durable_def pw_ok_def)
  next
    case 4
    from WriteUnbuffered_writes [OF 4(2)] obtain pre where
      pre: "prefix pre (drop n bs)" "pw_durable w' = pw_durable w2 @ pre" "Status_ok s \<longrightarrow> pre = drop n bs" "pw_buf w' = []"
      using fl(1) by auto
    have d: "pw_durable w' = pw_contents w1 @ pre" using pre(2) fl(3) 4(1) by simp
    have "prefix (pw_durable w') (pw_contents w1 @ drop n bs)" unfolding d using pre(1) by simp
    moreover have "pw_contents w' = pw_durable w'" using pre(4) by (simp add: pw_contents_def pw_durable_def)
    ultimately show ?thesis unfolding c1(1) [symmetric] using d pre(3,4) by (simp add: pw_ok_def)
  qed
  then show "pw_ok w'" "Status_ok s \<Longrightarrow> pw_contents w' = pw_contents w @ bs" "prefix (pw_durable w') (pw_contents w @ bs)"
    by simp_all
qed

interpretation posix_writable: writable_file PosixWritable pw_contents pw_durable pw_ok
proof unfold_locales
  fix f f' :: PosixWritableFile and bs s
  assume ok: "pw_ok f"
  {
    assume "wf_Append PosixWritable bs f = (s, f')"
    then have a: "PosixWritableFile_Append bs f = (s, f')" by (simp add: PosixWritable_def)
    show "Status_ok s \<Longrightarrow> pw_contents f' = pw_contents f @ bs" "pw_ok f'" "prefix (pw_durable f') (pw_contents f @ bs)"
      using Append_cases [OF a ok] by simp_all
  next
    assume "wf_Flush PosixWritable f = (s, f')"
    then have a: "FlushBuffer f = (s, f')" by (simp add: PosixWritable_def PosixWritableFile_Flush_def)
    note fl = FlushBuffer_flushes [OF a]
    show "Status_ok s \<Longrightarrow> pw_contents f' = pw_contents f \<and> pw_durable f' = pw_contents f"
      using fl(1,3) by (simp add: pw_contents_def pw_durable_def)
    show "pw_ok f'" "prefix (pw_durable f') (pw_contents f)" using fl by (simp_all add: pw_ok_def)
  }
qed

definition ps_remaining :: "PosixSequentialFile \<Rightarrow> bytes" where
  "ps_remaining p = drop (fd_offset (ps_fd p)) (fd_data (ps_fd p))"

text \<open>On a regular file the reads are only ever interrupted.\<close>

definition ps_ok :: "PosixSequentialFile \<Rightarrow> bool" where
  "ps_ok p \<longleftrightarrow> (\<forall>x\<in>set (fd_outcomes (ps_fd p)). x = Interrupted)"

lemma drop_after_take: "drop (i + length (take n (drop i xs))) xs = drop n (drop i xs)"
  by (metis add.commute append_eq_conv_conj append_take_drop_id drop_drop)

lemma Read_loop_reads:
  "\<forall>x\<in>set (fd_outcomes f). x = Interrupted \<Longrightarrow>
     \<exists>f'. PosixSequentialFile_Read_loop filename n f = (Status_OK, take n (drop (fd_offset f) (fd_data f)), f') \<and>
       fd_data f' = fd_data f \<and> drop (fd_offset f') (fd_data f') = drop n (drop (fd_offset f) (fd_data f)) \<and>
       (\<forall>x\<in>set (fd_outcomes f'). x = Interrupted)"
proof (induction "fd_outcomes f" arbitrary: f)
  case Nil
  then show ?case
    by (subst PosixSequentialFile_Read_loop.simps)
       (simp add: sys_read_def Let_def drop_after_take del: length_take drop_drop flip: Nil.hyps)
next
  case (Cons x os)
  have os: "\<forall>y\<in>set (fd_outcomes (f\<lparr>fd_outcomes := os\<rparr>)). y = Interrupted" "x = Interrupted"
    using Cons.prems unfolding Cons.hyps(2) [symmetric] by simp_all
  have "sys_read n f = (EINTR, f\<lparr>fd_outcomes := os\<rparr>)"
    unfolding sys_read_def Let_def Cons.hyps(2) [symmetric] os(2) by simp
  then have "PosixSequentialFile_Read_loop filename n f = PosixSequentialFile_Read_loop filename n (f\<lparr>fd_outcomes := os\<rparr>)"
    by (subst PosixSequentialFile_Read_loop.simps) simp
  with Cons.hyps(1) [of "f\<lparr>fd_outcomes := os\<rparr>", OF _ os(1)] show ?case by simp
qed

interpretation posix_sequential: sequential_file PosixSequential ps_remaining ps_ok
proof unfold_locales
  show "\<exists>f'. sf_Read PosixSequential n f = (Status_OK, take n (ps_remaining f), f') \<and>
      ps_ok f' \<and> ps_remaining f' = drop n (ps_remaining f)" if "ps_ok f" for f n
    using Read_loop_reads [of "ps_fd f" "ps_filename f" n] that
    by (auto simp: PosixSequential_def PosixSequentialFile_Read_def ps_remaining_def ps_ok_def)
  show "\<exists>f'. sf_Skip PosixSequential n f = (Status_OK, f') \<and> ps_ok f' \<and> ps_remaining f' = drop n (ps_remaining f)"
    if "ps_ok f" for f n
    using that by (simp add: PosixSequential_def PosixSequentialFile_Skip_def ps_remaining_def ps_ok_def add.commute)
qed

section \<open>Sequences of appends\<close>

text \<open>A client that appends piece after piece and stops at the first error.\<close>

fun append_pieces :: "'f WritableFile \<Rightarrow> bytes list \<Rightarrow> 'f \<Rightarrow> Status \<times> 'f" where
  "append_pieces fo [] f = (Status_OK, f)"
| "append_pieces fo (p # ps) f =
     (let (s, f) = wf_Append fo p f in if Status_ok s then append_pieces fo ps f else (s, f))"

context writable_file
begin

lemma append_pieces_contents:
  "ok f \<Longrightarrow> append_pieces fo ps f = (s, f') \<Longrightarrow>
     ok f' \<and> (Status_ok s \<longrightarrow> contents f' = contents f @ concat ps) \<and>
     (ps \<noteq> [] \<longrightarrow> prefix (durable f') (contents f @ concat ps))"
proof (induction ps arbitrary: f)
  case (Cons p ps)
  obtain s1 f1 where a: "wf_Append fo p f = (s1, f1)" by (metis surj_pair)
  note laws = append_inv [OF Cons.prems(1) a] append_ok [OF Cons.prems(1) a] append_durable [OF Cons.prems(1) a]
  show ?case
  proof (cases "Status_ok s1")
    case True
    then have r: "append_pieces fo ps f1 = (s, f')" using Cons.prems(2) a by simp
    show ?thesis
    proof (cases "ps = []")
      case True
      with r \<open>Status_ok s1\<close> laws show ?thesis by simp
    next
      case False
      with Cons.IH [OF laws(1) r] laws(2) [OF True] show ?thesis by simp
    qed
  next
    case False
    then have "s = s1" "f' = f1" using Cons.prems(2) a by simp_all
    with False laws show ?thesis by (simp add: prefix_prefix flip: append_assoc)
  qed
qed simp

end

text \<open>
  C13. Whatever the kernel does with the system calls (partial writes, interruptions,
  failures), after a sequence of appends to a POSIX file the bytes in the file are a prefix of what
  was in it and its buffer followed by the appended pieces; when all of them and a flush succeed
  the file holds exactly these bytes, in order.
\<close>

theorem posix_appends:
  assumes "length (pw_buf w) \<le> kWritableFileBufferSize" and "ps \<noteq> []"
    and "append_pieces PosixWritable ps w = (s, w1)" and "PosixWritableFile_Flush w1 = (s2, w2)"
  shows "prefix (fd_data (pw_fd w1)) (fd_data (pw_fd w) @ pw_buf w @ concat ps) \<and>
    (Status_ok s \<and> Status_ok s2 \<longrightarrow> fd_data (pw_fd w2) = fd_data (pw_fd w) @ pw_buf w @ concat ps)"
proof -
  have ok: "pw_ok w" using assms(1) by (simp add: pw_ok_def)
  note c = posix_writable.append_pieces_contents [OF ok assms(3)]
  have fl: "wf_Flush PosixWritable w1 = (s2, w2)" using assms(4) by (simp add: PosixWritable_def)
  show ?thesis
    using c assms(2) posix_writable.flush_ok [OF _ fl] by (simp add: pw_contents_def pw_durable_def)
qed

theorem posix_appends_witness:
  "let w = PosixWritableFile_make (lit ''f'') \<lparr>fd_data = [], fd_offset = 0, fd_outcomes = [Interrupted, Done 1]\<rparr>;
       (s, w1) = append_pieces PosixWritable [[1], [2, 3]] w; (s2, w2) = PosixWritableFile_Flush w1
   in fd_data (pw_fd w2) = [1, 2, 3]"
  using posix_appends [of "PosixWritableFile_make (lit ''f'') \<lparr>fd_data = [], fd_offset = 0, fd_outcomes = [Interrupted, Done 1]\<rparr>"
      "[[1], [2, 3]]"]
  by (simp add: PosixWritableFile_make_def PosixWritable_def PosixWritableFile_Append_def kWritableFileBufferSize_def
      PosixWritableFile_Flush_def FlushBuffer_def WriteUnbuffered_def WriteUnbuffered_loop.simps sys_write_def)

end
