(* ===== verification/Crc32c.thy ===== *)
theory Crc32c
  imports Coding Crc32c_Tables
begin

unbundle bit_operations_syntax

text \<open>
  \<^verbatim>\<open>util/crc32c.h\<close> and \<^verbatim>\<open>util/crc32c.cc\<close>: the checksum of every log record and
  table block.  The source processes bytes up to the first aligned address,
  then sixteen bytes at a time in four interleaved strides, then words, then
  the remaining bytes, all by table lookup.  The reference is the bitwise
  definition of the Castagnoli polynomial; the theory proves the two equal at
  every alignment of the buffer, which includes that the five tables are right.
\<close>

section \<open>The code\<close>

definition kMaskDelta :: u32 where
  "kMaskDelta = 0xa282ead8"

definition Mask :: "u32 \<Rightarrow> u32" where
  "Mask crc = (drop_bit 15 crc OR push_bit 17 crc) + kMaskDelta"

definition Unmask :: "u32 \<Rightarrow> u32" where
  "Unmask masked_crc =
     (let rot = masked_crc - kMaskDelta in drop_bit 17 rot OR push_bit 15 rot)"

definition kCRC32Xor :: u32 where
  "kCRC32Xor = 0xffffffff"

definition ReadUint32LE :: "bytes \<Rightarrow> u32" where
  "ReadUint32LE buffer = DecodeFixed32 buffer"

text \<open>The smallest address not below \<open>pointer\<close> that is aligned to \<open>N\<close> bytes.\<close>

definition RoundUp :: "u64 \<Rightarrow> u64 \<Rightarrow> u64" where
  "RoundUp N pointer = (pointer + (N - 1)) AND NOT (N - 1)"

text \<open>
  \<^verbatim>\<open>port::AcceleratedCRC32C\<close> in a build without the crc32c library, which is
  the build of this application; \<^verbatim>\<open>CanAccelerateCRC32C\<close> and \<^verbatim>\<open>Extend\<close> take the
  function as an argument.
\<close>

definition AcceleratedCRC32C :: "u32 \<Rightarrow> bytes \<Rightarrow> u32" where
  "AcceleratedCRC32C crc buf = 0"

definition CanAccelerateCRC32C :: "(u32 \<Rightarrow> bytes \<Rightarrow> u32) \<Rightarrow> bool" where
  "CanAccelerateCRC32C accelerated \<longleftrightarrow> accelerated 0 (lit ''TestCRCBuffer'') = 0xdcbc59fa"

definition STEP1 :: "u32 \<Rightarrow> byte \<Rightarrow> u32" where
  "STEP1 l b = kByteExtensionTable ! unat ((l AND 0xff) XOR ucast b) XOR drop_bit 8 l"

text \<open>One stride: \<open>p\<close> is already moved to the word of the stride.\<close>

definition STEP4 :: "u32 \<Rightarrow> bytes \<Rightarrow> u32" where
  "STEP4 crc p =
     ReadUint32LE p XOR kStrideExtensionTable3 ! unat (crc AND 0xff) XOR
     kStrideExtensionTable2 ! unat (drop_bit 8 crc AND 0xff) XOR
     kStrideExtensionTable1 ! unat (drop_bit 16 crc AND 0xff) XOR
     kStrideExtensionTable0 ! unat (drop_bit 24 crc)"

type_synonym strides = "u32 \<times> u32 \<times> u32 \<times> u32"

definition STEP16 :: "strides \<Rightarrow> bytes \<Rightarrow> strides \<times> bytes" where
  "STEP16 = (\<lambda>(crc0, crc1, crc2, crc3) p.
     ((STEP4 crc0 (drop (0 * 4) p), STEP4 crc1 (drop (1 * 4) p), STEP4 crc2 (drop (2 * 4) p),
       STEP4 crc3 (drop (3 * 4) p)), drop 16 p))"

definition byte_step :: "u32 \<Rightarrow> u32" where
  "byte_step w = drop_bit 8 w XOR kByteExtensionTable ! unat (w AND 0xff)"

text \<open>\<open>STEP4W\<close>: fold one word into the result, four byte steps.\<close>

definition STEP4W :: "u32 \<Rightarrow> u32 \<Rightarrow> u32" where
  "STEP4W l w = (byte_step ^^ 4) (w XOR l)"

function swath_loop :: "strides \<Rightarrow> bytes \<Rightarrow> strides \<times> bytes" where
  "swath_loop crcs p =
     (if length p \<ge> 16 then (let (crcs, p) = STEP16 crcs p in swath_loop crcs p)
      else (crcs, p))"
  by pat_completeness auto
termination
  by (relation "measure (\<lambda>(crcs, p). length p)") (auto simp: STEP16_def split: prod.splits)

declare swath_loop.simps [simp del]

function word_loop :: "strides \<Rightarrow> bytes \<Rightarrow> strides \<times> bytes" where
  "word_loop crcs p =
     (if length p \<ge> 4 then
        (let (crc0, crc1, crc2, crc3) = crcs
         in word_loop (crc1, crc2, crc3, STEP4 crc0 p) (drop 4 p))
      else (crcs, p))"
  by pat_completeness auto
termination
  by (relation "measure (\<lambda>(crcs, p). length p)") auto

declare word_loop.simps [simp del]

definition combine_strides :: "strides \<Rightarrow> u32" where
  "combine_strides = (\<lambda>(crc0, crc1, crc2, crc3).
     STEP4W (STEP4W (STEP4W (STEP4W 0 crc0) crc1) crc2) crc3)"

definition stride_phase :: "u32 \<Rightarrow> bytes \<Rightarrow> u32 \<times> bytes" where
  "stride_phase l p =
     (if length p \<ge> 16 then
        (let crc0 = ReadUint32LE (drop (0 * 4) p) XOR l;
             crc1 = ReadUint32LE (drop (1 * 4) p);
             crc2 = ReadUint32LE (drop (2 * 4) p);
             crc3 = ReadUint32LE (drop (3 * 4) p);
             (crcs, p) = swath_loop (crc0, crc1, crc2, crc3) (drop 16 p);
             (crcs, p) = word_loop crcs p
         in (combine_strides crcs, p))
      else (l, p))"

definition align_phase :: "u64 \<Rightarrow> u32 \<Rightarrow> bytes \<Rightarrow> u32 \<times> bytes" where
  "align_phase addr l p =
     (let skip = unat (RoundUp 4 addr - addr)
      in if skip \<le> length p then (foldl STEP1 l (take skip p), drop skip p) else (l, p))"

definition Extend :: "(u32 \<Rightarrow> bytes \<Rightarrow> u32) \<Rightarrow> u64 \<Rightarrow> u32 \<Rightarrow> bytes \<Rightarrow> u32" where
  "Extend accelerated addr crc data =
     (if CanAccelerateCRC32C accelerated then accelerated crc data
      else
        (let l = crc XOR kCRC32Xor;
             (l, p) = align_phase addr l data;
             (l, p) = stride_phase l p;
             l = foldl STEP1 l p
         in l XOR kCRC32Xor))"

text \<open>
  The checksum as the rest of the engine calls it.  The address of the buffer
  is fixed to an aligned one here; the result does not depend on it.
\<close>

definition crc32c_Extend :: "u32 \<Rightarrow> bytes \<Rightarrow> u32" where
  "crc32c_Extend crc data = Extend AcceleratedCRC32C 0 crc data"

definition crc32c_Value :: "bytes \<Rightarrow> u32" where
  "crc32c_Value data = crc32c_Extend 0 data"

section \<open>The reference\<close>

text \<open>One bit of the reflected Castagnoli polynomial.\<close>

definition crc_bit :: "u32 \<Rightarrow> u32" where
  "crc_bit x = drop_bit 1 x XOR (if bit x 0 then 0x82f63b78 else 0)"

definition crc_byte :: "u32 \<Rightarrow> byte \<Rightarrow> u32" where
  "crc_byte l b = (crc_bit ^^ 8) (l XOR ucast b)"

definition crc32c_spec :: "u32 \<Rightarrow> bytes \<Rightarrow> u32" where
  "crc32c_spec crc data = foldl crc_byte (crc XOR kCRC32Xor) data XOR kCRC32Xor"

section \<open>Linearity\<close>

definition linear :: "(u32 \<Rightarrow> u32) \<Rightarrow> bool" where
  "linear f \<longleftrightarrow> (\<forall>x y. f (x XOR y) = f x XOR f y)"

lemma linearD: "linear f \<Longrightarrow> f (x XOR y) = f x XOR f y"
  by (simp add: linear_def)

lemma linear_zero: "linear f \<Longrightarrow> f 0 = 0"
  using linearD [of f 0 0] by simp

lemma linear_crc_bit: "linear crc_bit"
  unfolding linear_def crc_bit_def
  by (auto simp: drop_bit_xor bit_xor_iff xor.assoc xor.left_commute xor.commute)

lemma linear_drop_bit: "linear (drop_bit n)"
  by (simp add: linear_def)

lemma linear_push_bit: "linear (push_bit n)"
  by (simp add: linear_def)

lemma linear_compose: "linear f \<Longrightarrow> linear g \<Longrightarrow> linear (\<lambda>x. f (g x))"
  by (simp add: linear_def)

lemma linear_funpow: "linear f \<Longrightarrow> linear (f ^^ n)"
  by (induction n) (auto simp: linear_def)

text \<open>Eight bit steps on the upper bytes only shift.\<close>

lemma crc_bit_even: "\<not> bit x 0 \<Longrightarrow> crc_bit x = drop_bit 1 x"
  by (simp add: crc_bit_def)

lemma crc_bit_funpow_high:
  "k \<le> 8 \<Longrightarrow> (crc_bit ^^ k) (push_bit 8 (drop_bit 8 x)) = push_bit (8 - k) (drop_bit 8 x)"
proof (induction k)
  case (Suc k)
  let ?y = "push_bit (8 - k) (drop_bit 8 x)"
  have "\<not> bit ?y 0" using Suc.prems by (simp add: bit_simps)
  moreover have "drop_bit 1 ?y = push_bit (8 - Suc k) (drop_bit 8 x)"
    by (rule bit_word_eqI)
       (use Suc.prems in \<open>auto simp: bit_simps Suc_diff_le dest: bit_imp_le_length\<close>)
  ultimately show ?case
    using Suc by (simp add: crc_bit_even)
qed simp

lemma split_low_byte: "(x AND 0xff) XOR push_bit 8 (drop_bit 8 x) = x" for x :: u32
proof -
  have *: "0xff = (mask 8 :: u32)" by (simp add: mask_eq_exp_minus_1)
  show ?thesis
    unfolding * by (rule bit_word_eqI) (auto simp: bit_simps)
qed

lemma crc_bit_funpow_8: "(crc_bit ^^ 8) x = (crc_bit ^^ 8) (x AND 0xff) XOR drop_bit 8 x"
proof -
  have "(crc_bit ^^ 8) x = (crc_bit ^^ 8) ((x AND 0xff) XOR push_bit 8 (drop_bit 8 x))"
    by (simp only: split_low_byte)
  also have "\<dots> = (crc_bit ^^ 8) (x AND 0xff) XOR (crc_bit ^^ 8) (push_bit 8 (drop_bit 8 x))"
    by (rule linearD) (rule linear_funpow [OF linear_crc_bit])
  also have "(crc_bit ^^ 8) (push_bit 8 (drop_bit 8 x)) = drop_bit 8 x"
    using crc_bit_funpow_high [of 8 x] by simp
  finally show ?thesis .
qed

section \<open>The tables\<close>

text \<open>
  A linear function on the numbers below \<open>2 ^ n\<close> is given by its values at
  the powers of two; the table of all its values is built by doubling.
\<close>

definition lin_table :: "u32 list \<Rightarrow> u32 list" where
  "lin_table basis = foldl (\<lambda>t b. t @ map (\<lambda>x. x XOR b) t) [0] basis"

lemma of_nat_exp_add:
  assumes "i < 2 ^ n" "n < 32"
  shows "(of_nat (2 ^ n + i) :: u32) = of_nat i XOR 2 ^ n"
proof -
  have "\<not> bit (of_nat i :: u32) n"
    using assms by (simp add: bit_simps) (metis assms(1) bit_take_bit_iff nat_less_le
        take_bit_nat_eq_self order_less_irrefl)
  then have "of_nat i AND (2 ^ n :: u32) = 0"
    by (intro bit_word_eqI) (auto simp: bit_simps)
  then show ?thesis
    by (simp add: disjunctive_add_eq_xor add.commute)
qed

lemma lin_table_linear:
  assumes "linear f" "n \<le> 32"
  shows "lin_table (map (\<lambda>j. f (2 ^ j)) [0..<n]) = map (\<lambda>i. f (of_nat i)) [0..<2 ^ n]"
  using assms(2)
proof (induction n)
  case 0
  then show ?case using linear_zero [OF assms(1)] by (simp add: lin_table_def)
next
  case (Suc n)
  let ?t = "map (\<lambda>i. f (of_nat i)) [0..<2 ^ n]"
  have "lin_table (map (\<lambda>j. f (2 ^ j)) [0..<Suc n]) = ?t @ map (\<lambda>x. x XOR f (2 ^ n)) ?t"
    using Suc by (simp add: lin_table_def)
  also have "map (\<lambda>x. x XOR f (2 ^ n)) ?t = map (\<lambda>i. f (of_nat (2 ^ n + i))) [0..<2 ^ n]"
    using Suc.prems by (simp add: of_nat_exp_add linearD [OF assms(1)] del: of_nat_add)
  also have "\<dots> = map (\<lambda>i. f (of_nat i)) [2 ^ n..<2 ^ n + 2 ^ n]"
    by (simp add: map_add_upt [symmetric] add.commute del: of_nat_add map_add_upt)
  finally show ?case
    by (simp add: mult_2 upt_add_eq_append [symmetric] flip: map_append)
qed

definition shift16 :: "nat \<Rightarrow> u32 \<Rightarrow> u32" where
  "shift16 k x = (crc_bit ^^ 128) (push_bit k x)"

lemma linear_shift16: "linear (shift16 k)"
  unfolding shift16_def
  by (rule linear_compose [OF linear_funpow [OF linear_crc_bit] linear_push_bit])

text \<open>
  All the values the tables are made of lie on the orbit of \<open>1\<close> under the bit
  step, since a bit step moves a power of two to the one below it.  The orbit
  is written out, and each element checked against the one before it.
\<close>

definition crc_orbit :: "u32 list" where
  "crc_orbit = [
    0x1, 0x82f63b78, 0x417b1dbc, 0x20bd8ede, 0x105ec76f, 0x8ad958cf,
    0xc79a971f, 0xe13b70f7, 0xf26b8303, 0xfbc3faf9, 0xff17c604, 0x7f8be302,
    0x3fc5f181, 0x9d14c3b8, 0x4e8a61dc, 0x274530ee, 0x13a29877, 0x8b277743,
    0xc76580d9, 0xe144fb14, 0x70a27d8a, 0x38513ec5, 0x9edea41a, 0x4f6f520d,
    0xa541927e, 0x52a0c93f, 0xaba65fe7, 0xd725148b, 0xe964b13d, 0xf64463e6,
    0x7b2231f3, 0xbf672381, 0xdd45aab8, 0x6ea2d55c, 0x37516aae, 0x1ba8b557,
    0x8f2261d3, 0xc5670b91, 0xe045beb0, 0x7022df58, 0x38116fac, 0x1c08b7d6,
    0xe045beb, 0x85f4168d, 0xc00c303e, 0x6006181f, 0xb2f53777, 0xdb8ca0c3,
    0xef306b19, 0xf56e0ef4, 0x7ab7077a, 0x3d5b83bd, 0x9c5bfaa6, 0x4e2dfd53,
    0xa5e0c5d1, 0xd0065990, 0x68032cc8, 0x34019664, 0x1a00cb32, 0xd006599,
    0x847609b4, 0x423b04da, 0x211d826d, 0x9278fa4e, 0x493c7d27, 0xa66805eb,
    0xd1c2398d, 0xea1727be, 0x750b93df, 0xb873f297, 0xdecfc233, 0xed91da61,
    0xf43ed648, 0x7a1f6b24, 0x3d0fb592, 0x1e87dac9, 0x8db5d61c, 0x46daeb0e,
    0x236d7587, 0x934081bb, 0xcb567ba5, 0xe75d06aa, 0x73ae8355, 0xbb217ad2,
    0x5d90bd69, 0xac3e65cc, 0x561f32e6, 0x2b0f9973, 0x9771f7c1, 0xc94ec098,
    0x64a7604c, 0x3253b026, 0x1929d813, 0x8e62d771, 0xc5c750c0, 0x62e3a860,
    0x3171d430, 0x18b8ea18, 0xc5c750c, 0x62e3a86, 0x3171d43, 0x837db5d9,
    0xc348e194, 0x61a470ca, 0x30d23865, 0x9a9f274a, 0x4d4f93a5, 0xa451f2aa,
    0x5228f955, 0xabe247d2, 0x55f123e9, 0xa80eaa8c, 0x54075546, 0x2a03aaa3,
    0x97f7ee29, 0xc90dcc6c, 0x6486e636, 0x3243731b, 0x9bd782f5, 0xcf1dfa02,
    0x678efd01, 0xb13145f8, 0x5898a2fc, 0x2c4c517e, 0x162628bf, 0x89e52f27,
    0xc604aceb, 0xe1f46d0d, 0xf20c0dfe]"

fun orbit_ok :: "u32 list \<Rightarrow> bool" where
  "orbit_ok (x # y # xs) = (crc_bit x = y \<and> orbit_ok (y # xs))"
| "orbit_ok _ = True"

lemma unat_numeral_u32: "(numeral n :: nat) < 2 ^ 32 \<Longrightarrow> unat (numeral n :: u32) = numeral n"
  using unat_of_nat_u32 [of "numeral n"] by (simp only: of_nat_numeral)

lemma drop_bit_1_numeral:
  assumes "(numeral m :: nat) div 2 = numeral n" "(numeral m :: nat) < 2 ^ 32"
  shows "drop_bit 1 (numeral m :: u32) = numeral n"
proof -
  have "(numeral n :: nat) < 2 ^ 32" using assms by linarith
  then have "unat (drop_bit 1 (numeral m :: u32)) = unat (numeral n :: u32)"
    using assms by (simp only: unat_drop_bit unat_numeral_u32) simp
  then show ?thesis by (simp only: word_unat_eq_iff)
qed

lemma crc_bit_numeral:
  "(numeral n :: nat) < 2 ^ 31 \<Longrightarrow> crc_bit (numeral (Num.Bit0 n)) = numeral n"
  "(numeral n :: nat) < 2 ^ 31 \<Longrightarrow> crc_bit (numeral (Num.Bit1 n)) = numeral n XOR 0x82f63b78"
  "crc_bit 1 = 0x82f63b78"
  using drop_bit_1_numeral [of "Num.Bit0 n" n] drop_bit_1_numeral [of "Num.Bit1 n" n]
  by (simp_all add: crc_bit_def)

lemma orbit_ok_crc_orbit: "orbit_ok crc_orbit"
  by (simp add: crc_bit_numeral crc_orbit_def)

lemma orbit_ok_nth: "orbit_ok xs \<Longrightarrow> i < length xs \<Longrightarrow> xs ! i = (crc_bit ^^ i) (xs ! 0)"
proof (induction xs arbitrary: i rule: orbit_ok.induct)
  case (1 x y xs)
  show ?case
  proof (cases i)
    case (Suc j)
    with 1 have "(y # xs) ! j = (crc_bit ^^ j) (crc_bit x)" by simp
    with Suc show ?thesis by (simp add: funpow_swap1)
  qed simp
qed (auto simp: less_Suc_eq)

lemma crc_orbit_nth: "i < 129 \<Longrightarrow> (crc_bit ^^ i) 1 = crc_orbit ! i"
  using orbit_ok_nth [OF orbit_ok_crc_orbit, of i] by (simp add: crc_orbit_def)

lemma crc_bit_exp: "n < 31 \<Longrightarrow> crc_bit (2 ^ Suc n) = 2 ^ n"
  by (subst crc_bit_even) (auto simp: bit_simps intro!: bit_word_eqI)

lemma crc_bit_funpow_exp: "k < 32 \<Longrightarrow> k \<le> m \<Longrightarrow> (crc_bit ^^ m) (2 ^ k) = (crc_bit ^^ (m - k)) 1"
proof (induction k arbitrary: m)
  case (Suc k)
  then obtain m' where m: "m = Suc m'" by (cases m) auto
  with Suc show ?case by (simp add: funpow_swap1 crc_bit_exp del: power_Suc)
qed simp

lemma kByteExtensionTable_basis:
  "kByteExtensionTable = lin_table (map (\<lambda>j. crc_orbit ! (8 - j)) [0, 1, 2, 3, 4, 5, 6, 7])"
  by (simp add: lin_table_def kByteExtensionTable_def crc_orbit_def)

lemma kStrideExtensionTable_basis:
  "kStrideExtensionTable3 = lin_table (map (\<lambda>j. crc_orbit ! (128 - 0 - j)) [0, 1, 2, 3, 4, 5, 6, 7])"
  "kStrideExtensionTable2 = lin_table (map (\<lambda>j. crc_orbit ! (128 - 8 - j)) [0, 1, 2, 3, 4, 5, 6, 7])"
  "kStrideExtensionTable1 = lin_table (map (\<lambda>j. crc_orbit ! (128 - 16 - j)) [0, 1, 2, 3, 4, 5, 6, 7])"
  "kStrideExtensionTable0 = lin_table (map (\<lambda>j. crc_orbit ! (128 - 24 - j)) [0, 1, 2, 3, 4, 5, 6, 7])"
     apply (simp add: lin_table_def kStrideExtensionTable3_def crc_orbit_def)
    apply (simp add: lin_table_def kStrideExtensionTable2_def crc_orbit_def)
   apply (simp add: lin_table_def kStrideExtensionTable1_def crc_orbit_def)
  apply (simp add: lin_table_def kStrideExtensionTable0_def crc_orbit_def)
  done

lemma upto_8: "[0..<8] = [0::nat, 1, 2, 3, 4, 5, 6, 7]"
  by (simp add: upt_rec)

text \<open>Every table is the table of a linear function.\<close>

lemma lin_table_byte:
  assumes "linear f" "\<And>j. j < 8 \<Longrightarrow> f (2 ^ j) = crc_orbit ! (m - j)" "b < 256"
  shows "lin_table (map (\<lambda>j. crc_orbit ! (m - j)) [0, 1, 2, 3, 4, 5, 6, 7]) ! b = f (of_nat b)"
proof -
  have "map (\<lambda>j. crc_orbit ! (m - j)) [0..<8] = map (\<lambda>j. f (2 ^ j)) [0..<8]"
    using assms(2) by simp
  then show ?thesis
    using lin_table_linear [OF assms(1), of 8] assms(3) by (simp add: upto_8)
qed

lemma kByteExtensionTable_nth: "b < 256 \<Longrightarrow> kByteExtensionTable ! b = (crc_bit ^^ 8) (of_nat b)"
  unfolding kByteExtensionTable_basis
  by (rule lin_table_byte)
     (simp_all add: linear_funpow linear_crc_bit crc_bit_funpow_exp crc_orbit_nth)

lemma shift16_exp: "j < 8 \<Longrightarrow> k \<le> 24 \<Longrightarrow> shift16 k (2 ^ j) = crc_orbit ! (128 - k - j)"
  using crc_bit_funpow_exp [of "j + k" 128] crc_orbit_nth [of "128 - (j + k)"]
  by (simp add: shift16_def push_bit_eq_mult power_add diff_diff_left add.commute)

lemma kStrideExtensionTable_nth:
  assumes "b < 256"
  shows "kStrideExtensionTable3 ! b = shift16 0 (of_nat b)"
    "kStrideExtensionTable2 ! b = shift16 8 (of_nat b)"
    "kStrideExtensionTable1 ! b = shift16 16 (of_nat b)"
    "kStrideExtensionTable0 ! b = shift16 24 (of_nat b)"
  unfolding kStrideExtensionTable_basis
  by (rule lin_table_byte [OF linear_shift16 shift16_exp assms]; simp)+

section \<open>Each step of the code is a power of the bit step\<close>

lemma unat_and_ff_less: "unat (x AND 0xff :: u32) < 256"
proof -
  have "unat (x AND 0xff) \<le> unat (0xff :: u32)"
    by (rule word_and_le1 [THEN word_le_nat_alt [THEN iffD1]])
  then show ?thesis by simp
qed

lemma byte_step_eq: "byte_step = crc_bit ^^ 8"
proof
  show "byte_step x = (crc_bit ^^ 8) x" for x
    using kByteExtensionTable_nth [OF unat_and_ff_less, of x] crc_bit_funpow_8 [of x]
    by (simp add: byte_step_def xor.commute)
qed

lemma xor_byte_low: "(l XOR ucast b) AND 0xff = (l AND 0xff) XOR ucast (b :: byte)" for l :: u32
proof -
  have *: "0xff = (mask 8 :: u32)" by (simp add: mask_eq_exp_minus_1)
  show ?thesis
    unfolding * by (rule bit_word_eqI) (auto simp: bit_simps dest: bit_imp_le_length)
qed

lemma drop_bit_8_byte [simp]: "drop_bit 8 (ucast (b :: byte) :: u32) = 0"
  by (rule bit_word_eqI) (auto simp: bit_simps dest: bit_imp_le_length)

lemma STEP1_eq: "STEP1 l b = crc_byte l b"
  using byte_step_eq
  by (simp add: STEP1_def crc_byte_def xor_byte_low byte_step_def xor.commute
      flip: byte_step_eq)

lemma split_word:
  "x = (x AND 0xff) XOR push_bit 8 (drop_bit 8 x AND 0xff) XOR
       push_bit 16 (drop_bit 16 x AND 0xff) XOR push_bit 24 (drop_bit 24 x)" for x :: u32
proof -
  have *: "0xff = (mask 8 :: u32)" by (simp add: mask_eq_exp_minus_1)
  show ?thesis
    unfolding * by (rule bit_word_eqI) (auto simp: bit_simps)
qed

lemma unat_drop_bit_24_less: "unat (drop_bit 24 (x :: u32)) < 256"
  using unat_u32_less [of x] unfolding unat_drop_bit by simp

lemma STEP4_eq: "STEP4 crc p = ReadUint32LE p XOR (crc_bit ^^ 128) crc"
proof -
  let ?R = "crc_bit ^^ 128"
  have lin: "linear ?R" by (rule linear_funpow [OF linear_crc_bit])
  have "?R crc = ?R ((crc AND 0xff) XOR push_bit 8 (drop_bit 8 crc AND 0xff) XOR
      push_bit 16 (drop_bit 16 crc AND 0xff) XOR push_bit 24 (drop_bit 24 crc))"
    using split_word [of crc] by simp
  also have "\<dots> = ?R (crc AND 0xff) XOR ?R (push_bit 8 (drop_bit 8 crc AND 0xff)) XOR
      ?R (push_bit 16 (drop_bit 16 crc AND 0xff)) XOR ?R (push_bit 24 (drop_bit 24 crc))"
    by (simp only: linearD [OF lin])
  also have "\<dots> = kStrideExtensionTable3 ! unat (crc AND 0xff) XOR
      kStrideExtensionTable2 ! unat (drop_bit 8 crc AND 0xff) XOR
      kStrideExtensionTable1 ! unat (drop_bit 16 crc AND 0xff) XOR
      kStrideExtensionTable0 ! unat (drop_bit 24 crc)"
    by (simp add: kStrideExtensionTable_nth unat_and_ff_less unat_drop_bit_24_less shift16_def)
  finally show ?thesis by (simp add: STEP4_def)
qed

section \<open>Words\<close>

text \<open>
  \<open>word_step\<close> moves the remainder four bytes ahead.  Four steps of the bytewise
  reference are one \<open>word_step\<close> of the remainder combined with the word.
\<close>

definition word_step :: "u32 \<Rightarrow> u32" where
  "word_step = byte_step ^^ 4"

lemma linear_byte_step: "linear byte_step"
  unfolding byte_step_eq by (rule linear_funpow [OF linear_crc_bit])

lemma linear_word_step: "linear word_step"
  unfolding word_step_def by (rule linear_funpow [OF linear_byte_step])

lemma crc_byte_eq: "crc_byte l b = byte_step (l XOR ucast b)"
  by (simp add: crc_byte_def byte_step_eq)

lemma STEP4W_eq: "STEP4W l w = word_step (w XOR l)"
  by (simp add: STEP4W_def word_step_def)

lemma STEP4_eq_word_step:
  "STEP4 crc p = ReadUint32LE p XOR word_step (word_step (word_step (word_step crc)))"
proof -
  have "crc_bit ^^ 128 = (crc_bit ^^ 8) ^^ 16" by (simp add: funpow_mult)
  also have "\<dots> = (byte_step ^^ 4) ^^ 4" by (simp add: funpow_mult byte_step_eq)
  finally have "(crc_bit ^^ 128) crc = ((byte_step ^^ 4) ^^ 4) crc" by simp
  also have "\<dots> = word_step (word_step (word_step (word_step crc)))"
    unfolding word_step_def by (simp add: eval_nat_numeral(2,3))
  finally show ?thesis by (simp add: STEP4_eq)
qed

lemma byte_step_high:
  assumes "k \<le> 16"
  shows "byte_step (push_bit (8 + k) (ucast (b :: byte))) = push_bit k (ucast b)"
proof -
  let ?x = "push_bit (8 + k) (ucast b) :: u32"
  have "push_bit 8 (drop_bit 8 ?x) = ?x"
    by (rule bit_word_eqI) (auto simp: bit_simps)
  moreover have "drop_bit 8 ?x = push_bit k (ucast b)"
    by (rule bit_word_eqI) (use assms in \<open>auto simp: bit_simps dest: bit_imp_le_length\<close>)
  ultimately show ?thesis
    using crc_bit_funpow_high [of 8 ?x] by (simp add: byte_step_eq)
qed

lemma DecodeFixed32_xor:
  "DecodeFixed32 (b0 # b1 # b2 # b3 # p) =
     ucast b0 XOR push_bit 8 (ucast b1) XOR push_bit 16 (ucast b2) XOR push_bit 24 (ucast b3)"
  by (rule bit_word_eqI)
     (auto simp: DecodeFixed32_def bit_simps dest: bit_imp_le_length)

lemma crc_word:
  "foldl crc_byte l (b0 # b1 # b2 # b3 # p) =
   foldl crc_byte (word_step (ReadUint32LE (b0 # b1 # b2 # b3 # p) XOR l)) p"
proof -
  note lin = linearD [OF linear_byte_step]
  have "word_step x = byte_step (byte_step (byte_step (byte_step x)))" for x
    by (simp add: word_step_def eval_nat_numeral(2,3))
  moreover have "byte_step (push_bit 8 (ucast b)) = ucast b"
      "byte_step (push_bit 16 (ucast b)) = push_bit 8 (ucast b)"
      "byte_step (push_bit 24 (ucast b)) = push_bit 16 (ucast b)" for b :: byte
    using byte_step_high [of 0 b] byte_step_high [of 8 b] byte_step_high [of 16 b] by simp_all
  ultimately show ?thesis
    by (simp add: crc_byte_eq ReadUint32LE_def DecodeFixed32_xor lin xor.assoc xor.commute
        xor.left_commute)
qed

lemma crc_word_drop:
  assumes "length p \<ge> 4"
  shows "foldl crc_byte l p = foldl crc_byte (word_step (ReadUint32LE p XOR l)) (drop 4 p)"
proof -
  obtain b0 b1 b2 b3 q where "p = b0 # b1 # b2 # b3 # q"
    using assms by (auto simp: Suc_le_length_iff numeral_eq_Suc)
  then show ?thesis by (simp only: crc_word drop_Suc_Cons numeral_eq_Suc drop_0 pred_numeral_simps) simp
qed

section \<open>The strides\<close>

lemma combine_strides_eq:
  "combine_strides (c0, c1, c2, c3) =
     word_step (c3 XOR word_step (c2 XOR word_step (c1 XOR word_step c0)))"
  by (simp add: combine_strides_def STEP4W_eq)

text \<open>Rotating the strides is one word of the reference.\<close>

lemma combine_rotate:
  "combine_strides (c1, c2, c3, STEP4 c0 p) =
     word_step (ReadUint32LE p XOR combine_strides (c0, c1, c2, c3))"
  by (simp add: combine_strides_eq STEP4_eq_word_step linearD [OF linear_word_step] xor.assoc
      xor.commute xor.left_commute)

lemma fold_rotate:
  assumes "length p \<ge> 4"
  shows "foldl crc_byte (combine_strides (c1, c2, c3, STEP4 c0 p)) (drop 4 p) =
         foldl crc_byte (combine_strides (c0, c1, c2, c3)) p"
  using crc_word_drop [OF assms] by (simp add: combine_rotate)

lemma word_loop_fold:
  "foldl crc_byte (combine_strides (fst (word_loop crcs p))) (snd (word_loop crcs p)) =
   foldl crc_byte (combine_strides crcs) p"
proof (induction crcs p rule: word_loop.induct)
  case (1 crcs p)
  obtain c0 c1 c2 c3 where crcs: "crcs = (c0, c1, c2, c3)" by (cases crcs)
  show ?case
    using 1 fold_rotate [of p c1 c2 c3 c0] crcs
    by (subst (1 2) word_loop.simps) (auto simp: crcs)
qed

lemma STEP16_fold:
  assumes "length p \<ge> 16"
  shows "foldl crc_byte (combine_strides (fst (STEP16 crcs p))) (snd (STEP16 crcs p)) =
         foldl crc_byte (combine_strides crcs) p"
proof -
  obtain c0 c1 c2 c3 where crcs: "crcs = (c0, c1, c2, c3)" by (cases crcs)
  let ?p1 = "drop 4 p" let ?p2 = "drop 4 ?p1" let ?p3 = "drop 4 ?p2"
  let ?d0 = "STEP4 c0 p" let ?d1 = "STEP4 c1 ?p1" let ?d2 = "STEP4 c2 ?p2" let ?d3 = "STEP4 c3 ?p3"
  have "foldl crc_byte (combine_strides crcs) p =
      foldl crc_byte (combine_strides (c1, c2, c3, ?d0)) ?p1"
    using fold_rotate [of p c1 c2 c3 c0] assms crcs by simp
  also have "\<dots> = foldl crc_byte (combine_strides (c2, c3, ?d0, ?d1)) ?p2"
    using fold_rotate [of ?p1 c2 c3 ?d0 c1] assms by simp
  also have "\<dots> = foldl crc_byte (combine_strides (c3, ?d0, ?d1, ?d2)) ?p3"
    using fold_rotate [of ?p2 c3 ?d0 ?d1 c2] assms by simp
  also have "\<dots> = foldl crc_byte (combine_strides (?d0, ?d1, ?d2, ?d3)) (drop 4 ?p3)"
    using fold_rotate [of ?p3 ?d0 ?d1 ?d2 c3] assms by simp
  finally show ?thesis
    by (simp add: STEP16_def crcs)
qed

lemma swath_loop_fold:
  "foldl crc_byte (combine_strides (fst (swath_loop crcs p))) (snd (swath_loop crcs p)) =
   foldl crc_byte (combine_strides crcs) p"
proof (induction crcs p rule: swath_loop.induct)
  case (1 crcs p)
  obtain crcs' p' where step: "STEP16 crcs p = (crcs', p')" by fastforce
  show ?case
    using 1 STEP16_fold [of p crcs] step
    by (subst (1 2) swath_loop.simps) auto
qed

lemma load_strides_fold:
  assumes "length p \<ge> 16"
  shows "foldl crc_byte (combine_strides (ReadUint32LE p XOR l, ReadUint32LE (drop 4 p),
            ReadUint32LE (drop 8 p), ReadUint32LE (drop 12 p))) (drop 16 p) = foldl crc_byte l p"
proof -
  have "foldl crc_byte l p = foldl crc_byte (word_step (ReadUint32LE p XOR l)) (drop 4 p)"
    using assms by (intro crc_word_drop) simp
  moreover have "foldl crc_byte m (drop 4 p) =
      foldl crc_byte (word_step (ReadUint32LE (drop 4 p) XOR m)) (drop 8 p)" for m
    using assms crc_word_drop [of "drop 4 p" m] by simp
  moreover have "foldl crc_byte m (drop 8 p) =
      foldl crc_byte (word_step (ReadUint32LE (drop 8 p) XOR m)) (drop 12 p)" for m
    using assms crc_word_drop [of "drop 8 p" m] by simp
  moreover have "foldl crc_byte m (drop 12 p) =
      foldl crc_byte (word_step (ReadUint32LE (drop 12 p) XOR m)) (drop 16 p)" for m
    using assms crc_word_drop [of "drop 12 p" m] by simp
  ultimately show ?thesis
    by (simp only: combine_strides_eq)
qed

lemma stride_phase_fold:
  "foldl crc_byte (fst (stride_phase l p)) (snd (stride_phase l p)) = foldl crc_byte l p"
  using load_strides_fold [of p l]
  by (simp add: stride_phase_def case_prod_unfold Let_def word_loop_fold swath_loop_fold)

lemma STEP1_fold: "foldl STEP1 l p = foldl crc_byte l p"
  by (simp add: STEP1_eq cong: foldl_cong)

lemma align_phase_fold:
  "foldl crc_byte (fst (align_phase addr l p)) (snd (align_phase addr l p)) = foldl crc_byte l p"
  by (simp add: align_phase_def Let_def STEP1_fold flip: foldl_append)

section \<open>The code computes the reference checksum\<close>

lemma not_CanAccelerateCRC32C: "\<not> CanAccelerateCRC32C AcceleratedCRC32C"
  by (simp add: CanAccelerateCRC32C_def AcceleratedCRC32C_def)

lemma Extend_eq_spec:
  assumes "\<not> CanAccelerateCRC32C accelerated"
  shows "Extend accelerated addr crc data = crc32c_spec crc data"
  using assms align_phase_fold [of addr "crc XOR kCRC32Xor" data]
    stride_phase_fold [of "fst (align_phase addr (crc XOR kCRC32Xor) data)"
      "snd (align_phase addr (crc XOR kCRC32Xor) data)"]
  by (simp add: Extend_def crc32c_spec_def case_prod_unfold Let_def STEP1_fold)

lemma crc32c_Extend_eq_spec: "crc32c_Extend crc data = crc32c_spec crc data"
  by (simp add: crc32c_Extend_def Extend_eq_spec not_CanAccelerateCRC32C)

lemma crc32c_Extend_append:
  "crc32c_Extend crc (xs @ ys) = crc32c_Extend (crc32c_Extend crc xs) ys"
  by (simp add: crc32c_Extend_eq_spec crc32c_spec_def xor.assoc)

lemma rotate_back: "drop_bit 17 (push_bit 17 x) OR push_bit 15 (drop_bit 15 x) = x" for x :: u32
proof (rule bit_word_eqI)
  fix n
  assume "n < LENGTH(32)"
  then show "bit (drop_bit 17 (push_bit 17 x) OR push_bit 15 (drop_bit 15 x)) n = bit x n"
    by (cases "15 \<le> n") (auto simp: bit_simps)
qed

lemma Unmask_Mask [simp]: "Unmask (Mask crc) = crc"
  by (simp add: Unmask_def Mask_def rotate_back)

text \<open>
  What the log and the table format rely on: checksums of concatenations
  chain, and masking loses nothing.
\<close>

locale checksum =
  fixes extend :: "u32 \<Rightarrow> bytes \<Rightarrow> u32"
    and mask :: "u32 \<Rightarrow> u32"
    and unmask :: "u32 \<Rightarrow> u32"
  assumes extend_append: "extend crc (xs @ ys) = extend (extend crc xs) ys"
    and unmask_mask: "unmask (mask crc) = crc"
begin

lemma stored_matches: "unmask (mask (extend (extend 0 xs) ys)) = extend 0 (xs @ ys)"
  by (simp add: extend_append unmask_mask)

lemma mask_inject: "mask c = mask d \<Longrightarrow> c = d"
  by (metis unmask_mask)

end

interpretation crc: checksum crc32c_Extend Mask Unmask
  by unfold_locales (simp_all add: crc32c_Extend_append)

section \<open>The checksum is CRC-32C\<close>

text \<open>
  C8. Wherever the data lies in memory, the portable implementation with its alignment
  loop, four interleaved strides of 16-byte swaths and table look-ups computes the bit-by-bit
  definition of CRC-32C with the Castagnoli polynomial; extending a checksum by two pieces is
  extending it by their concatenation; and unmasking a masked checksum returns it.
\<close>

theorem crc_correct:
  "Extend AcceleratedCRC32C addr crc data = crc32c_spec crc data \<and>
   Extend AcceleratedCRC32C addr (Extend AcceleratedCRC32C addr' crc data) data' = crc32c_spec crc (data @ data') \<and>
   Unmask (Mask crc) = crc"
  using crc32c_Extend_append [of crc data data']
  by (simp add: Extend_eq_spec [OF not_CanAccelerateCRC32C] crc32c_Extend_eq_spec)

end
