(* ===== verification/Log_Writer.thy ===== *)
theory Log_Writer
  imports Env_Files Crc32c Coding
begin

unbundle bit_operations_syntax

text \<open>
  \<^verbatim>\<open>db/log_format.h\<close>, \<^verbatim>\<open>db/log_writer.h\<close> and \<^verbatim>\<open>db/log_writer.cc\<close>: the write-ahead log.  A record is split
  into physical records that do not cross the 32 KiB blocks of the file.
\<close>

section \<open>Format\<close>

datatype RecordType = kZeroType | kFullType | kFirstType | kMiddleType | kLastType

primrec RecordType_value :: "RecordType \<Rightarrow> nat" where
  "RecordType_value kZeroType = 0"
| "RecordType_value kFullType = 1"
| "RecordType_value kFirstType = 2"
| "RecordType_value kMiddleType = 3"
| "RecordType_value kLastType = 4"

definition kMaxRecordType :: nat where
  "kMaxRecordType = RecordType_value kLastType"

definition log_kBlockSize :: nat where
  "log_kBlockSize = 32768"

definition kHeaderSize :: nat where
  "kHeaderSize = 4 + 2 + 1"

section \<open>The writer\<close>

record 'f Writer =
  w_dest :: 'f
  w_block_offset :: nat
  w_type_crc :: "u32 list"

definition InitTypeCrc :: "u32 list" where
  "InitTypeCrc = map (\<lambda>i. crc32c_Value [of_nat i]) [0..<kMaxRecordType + 1]"

definition Writer_make :: "'f \<Rightarrow> 'f Writer" where
  "Writer_make dest = \<lparr>w_dest = dest, w_block_offset = 0, w_type_crc = InitTypeCrc\<rparr>"

definition Writer_make_at :: "'f \<Rightarrow> nat \<Rightarrow> 'f Writer" where
  "Writer_make_at dest dest_length =
     \<lparr>w_dest = dest, w_block_offset = dest_length mod log_kBlockSize, w_type_crc = InitTypeCrc\<rparr>"

definition log_header :: "u32 list \<Rightarrow> RecordType \<Rightarrow> bytes \<Rightarrow> bytes" where
  "log_header type_crc t data =
     (let len = length data;
          crc = Mask (crc32c_Extend (type_crc ! RecordType_value t) data)
      in EncodeFixed32 crc @ [of_nat len AND 0xff, of_nat (len div 256), of_nat (RecordType_value t)])"

definition EmitPhysicalRecord ::
    "'f WritableFile \<Rightarrow> RecordType \<Rightarrow> bytes \<Rightarrow> 'f Writer \<Rightarrow> Status \<times> 'f Writer" where
  "EmitPhysicalRecord fo t data w =
     (let buf = log_header (w_type_crc w) t data;
          (s, dest) = wf_Append fo buf (w_dest w);
          (s, dest) = (if Status_ok s then
                         (let (s, dest) = wf_Append fo data dest
                          in if Status_ok s then wf_Flush fo dest else (s, dest))
                       else (s, dest))
      in (s, w\<lparr>w_dest := dest, w_block_offset := w_block_offset w + (kHeaderSize + length data)\<rparr>))"

definition switch_block :: "'f WritableFile \<Rightarrow> 'f Writer \<Rightarrow> 'f Writer" where
  "switch_block fo w =
     (let leftover = log_kBlockSize - w_block_offset w
      in if leftover < kHeaderSize then
           (let w = (if leftover > 0
                     then w\<lparr>w_dest := snd (wf_Append fo (replicate leftover 0) (w_dest w))\<rparr>
                     else w)
            in w\<lparr>w_block_offset := 0\<rparr>)
         else w)"

definition fragment_type :: "bool \<Rightarrow> bool \<Rightarrow> RecordType" where
  "fragment_type begins ends =
     (if begins \<and> ends then kFullType
      else if begins then kFirstType
      else if ends then kLastType
      else kMiddleType)"

definition block_full :: "nat \<Rightarrow> nat" where
  "block_full offset = (if offset = log_kBlockSize - kHeaderSize then 1 else 0)"

lemma switch_block_offset:
  "w_block_offset (switch_block fo w) =
     (if log_kBlockSize - w_block_offset w < kHeaderSize then 0 else w_block_offset w)"
  by (simp add: switch_block_def Let_def)

lemma Emit_offset:
  "EmitPhysicalRecord fo t data w = (s, w') \<Longrightarrow>
     w_block_offset w' = w_block_offset w + (kHeaderSize + length data)"
  by (auto simp: EmitPhysicalRecord_def Let_def split: prod.splits)

text \<open>The body of the loop of \<^verbatim>\<open>AddRecord\<close> on the bytes that are left.\<close>

function AddRecord_loop :: "'f WritableFile \<Rightarrow> bool \<Rightarrow> bytes \<Rightarrow> 'f Writer \<Rightarrow> Status \<times> 'f Writer" where
  "AddRecord_loop fo begins data w =
     (let w = switch_block fo w;
          left = length data;
          avail = log_kBlockSize - w_block_offset w - kHeaderSize;
          fragment_length = (if left < avail then left else avail);
          ends = (left = fragment_length);
          (s, w) = EmitPhysicalRecord fo (fragment_type begins ends) (take fragment_length data) w;
          data = drop fragment_length data
      in if Status_ok s \<and> data \<noteq> [] then AddRecord_loop fo False data w else (s, w))"
  by auto

termination
proof (relation "measure (\<lambda>(_, _, data, w). 2 * length data + block_full (w_block_offset w))")
  show "wf (measure (\<lambda>(_, _, data, w). 2 * length data + block_full (w_block_offset w)))" by simp
qed (auto dest!: Emit_offset [OF sym]
      simp: switch_block_offset block_full_def log_kBlockSize_def kHeaderSize_def split: if_splits)

declare AddRecord_loop.simps [simp del]

definition AddRecord :: "'f WritableFile \<Rightarrow> bytes \<Rightarrow> 'f Writer \<Rightarrow> Status \<times> 'f Writer" where
  "AddRecord fo data w = AddRecord_loop fo True data w"

section \<open>The layout of a log\<close>

text \<open>
  The specification: the physical records a record is split into, and their bytes from an offset
  in a block on.
\<close>

type_synonym phys = "RecordType \<times> bytes"

definition start_offset :: "nat \<Rightarrow> nat" where
  "start_offset bo = (if log_kBlockSize - bo < kHeaderSize then 0 else bo)"

definition padding :: "nat \<Rightarrow> bytes" where
  "padding bo = (if log_kBlockSize - bo < kHeaderSize then replicate (log_kBlockSize - bo) 0 else [])"

definition phys_bytes :: "phys \<Rightarrow> bytes" where
  "phys_bytes r = log_header InitTypeCrc (fst r) (snd r) @ snd r"

definition next_offset :: "nat \<Rightarrow> phys \<Rightarrow> nat" where
  "next_offset bo r = start_offset bo + kHeaderSize + length (snd r)"

primrec layout :: "nat \<Rightarrow> phys list \<Rightarrow> bytes" where
  "layout bo [] = []"
| "layout bo (r # rs) = padding bo @ phys_bytes r @ layout (next_offset bo r) rs"

function fragments :: "bool \<Rightarrow> nat \<Rightarrow> bytes \<Rightarrow> phys list" where
  "fragments begins bo data =
     (let avail = log_kBlockSize - start_offset bo - kHeaderSize;
          n = min (length data) avail
      in if drop n data = [] then [(fragment_type begins True, data)]
         else (fragment_type begins False, take n data) #
              fragments False (start_offset bo + kHeaderSize + n) (drop n data))"
  by auto
termination
  by (relation "measure (\<lambda>(_, bo, data). 2 * length data + block_full bo)")
     (auto simp: start_offset_def block_full_def log_kBlockSize_def kHeaderSize_def split: if_splits)

declare fragments.simps [simp del]

definition end_offset :: "nat \<Rightarrow> phys list \<Rightarrow> nat" where
  "end_offset bo rs = foldl next_offset bo rs"

lemma end_offset_simps [simp]:
  "end_offset bo [] = bo" "end_offset bo (r # rs) = end_offset (next_offset bo r) rs"
  by (simp_all add: end_offset_def)

lemma layout_append: "layout bo (rs @ rs') = layout bo rs @ layout (end_offset bo rs) rs'"
  by (induction rs arbitrary: bo) simp_all

lemma end_offset_append: "end_offset bo (rs @ rs') = end_offset (end_offset bo rs) rs'"
  by (simp add: end_offset_def)

text \<open>All records of a log, each split from the offset where the one before it ended.\<close>

primrec log_phys :: "nat \<Rightarrow> bytes list \<Rightarrow> phys list" where
  "log_phys bo [] = []"
| "log_phys bo (r # rs) = (let ps = fragments True bo r in ps @ log_phys (end_offset bo ps) rs)"

definition log_bytes :: "bytes list \<Rightarrow> bytes" where
  "log_bytes rs = layout 0 (log_phys 0 rs)"

lemma log_phys_append: "log_phys bo (rs @ rs') = log_phys bo rs @ log_phys (end_offset bo (log_phys bo rs)) rs'"
  by (induction rs arbitrary: bo) (simp_all add: Let_def end_offset_append)

section \<open>The writer writes the layout\<close>

text \<open>
  \<^verbatim>\<open>AddRecord\<close> ignores the status of the append that fills a block's trailer, so it relies on files
  that take a few bytes without failing right after a flush.
\<close>

locale buffered_file = writable_file +
  assumes small_append: "ok f \<Longrightarrow> durable f = contents f \<Longrightarrow> length bs < kHeaderSize \<Longrightarrow>
    fst (wf_Append fo bs f) = Status_OK"
begin

definition writer_ok :: "'a Writer \<Rightarrow> bool" where
  "writer_ok w \<longleftrightarrow> ok (w_dest w) \<and> durable (w_dest w) = contents (w_dest w) \<and> w_type_crc w = InitTypeCrc"

lemma switch_block_pads:
  assumes "writer_ok w"
  shows "ok (w_dest (switch_block fo w))"
    "contents (w_dest (switch_block fo w)) = contents (w_dest w) @ padding (w_block_offset w)"
    "w_block_offset (switch_block fo w) = start_offset (w_block_offset w)"
    "w_type_crc (switch_block fo w) = InitTypeCrc"
proof -
  let ?bo = "w_block_offset w"
  let ?pad = "replicate (log_kBlockSize - ?bo) 0 :: bytes"
  obtain s d where a: "wf_Append fo ?pad (w_dest w) = (s, d)" by (metis surj_pair)
  have ok: "ok (w_dest w)" and du: "durable (w_dest w) = contents (w_dest w)" and cr: "w_type_crc w = InitTypeCrc"
    using assms by (auto simp: writer_ok_def)
  have pad: "ok d \<and> contents d = contents (w_dest w) @ ?pad" if "log_kBlockSize - ?bo < kHeaderSize"
    using small_append [OF ok du, of ?pad] that append_ok [OF ok a] append_inv [OF ok a] a by simp
  show "ok (w_dest (switch_block fo w))"
      "contents (w_dest (switch_block fo w)) = contents (w_dest w) @ padding ?bo"
    using pad ok a by (simp_all add: switch_block_def Let_def padding_def)
  show "w_block_offset (switch_block fo w) = start_offset ?bo"
    by (simp add: switch_block_offset start_offset_def)
  show "w_type_crc (switch_block fo w) = InitTypeCrc" using cr by (simp add: switch_block_def Let_def)
qed

lemma Emit_writes:
  assumes ok: "ok (w_dest w)" and cr: "w_type_crc w = InitTypeCrc"
    and e: "EmitPhysicalRecord fo t data w = (s, w')"
  shows "prefix (durable (w_dest w')) (contents (w_dest w) @ phys_bytes (t, data))"
    "Status_ok s \<Longrightarrow> contents (w_dest w') = contents (w_dest w) @ phys_bytes (t, data) \<and> writer_ok w'"
proof -
  let ?h = "log_header InitTypeCrc t data" and ?c = "contents (w_dest w)"
  obtain s1 d1 where a1: "wf_Append fo ?h (w_dest w) = (s1, d1)" by (metis surj_pair)
  obtain s2 d2 where a2: "wf_Append fo data d1 = (s2, d2)" by (metis surj_pair)
  obtain s3 d3 where a3: "wf_Flush fo d2 = (s3, d3)" by (metis surj_pair)
  have w': "w' = w\<lparr>w_dest := (if Status_ok s1 then if Status_ok s2 then d3 else d2 else d1),
      w_block_offset := w_block_offset w + (kHeaderSize + length data)\<rparr>"
    and s: "s = (if Status_ok s1 then if Status_ok s2 then s3 else s2 else s1)"
    using e a1 a2 a3 cr by (auto simp: EmitPhysicalRecord_def Let_def split: if_splits)
  have ok1: "ok d1" by (rule append_inv [OF ok a1])
  have ok2: "ok d2" by (rule append_inv [OF ok1 a2])
  have p: "phys_bytes (t, data) = ?h @ data" by (simp add: phys_bytes_def)
  have c1: "contents d1 = ?c @ ?h" if "Status_ok s1" using append_ok [OF ok a1 that] .
  have c2: "contents d2 = ?c @ ?h @ data" if "Status_ok s1" "Status_ok s2"
    using append_ok [OF ok1 a2 that(2)] c1 [OF that(1)] by simp
  have "prefix (durable d1) (?c @ ?h @ data)"
    using prefix_prefix [OF append_durable [OF ok a1], of data] by simp
  moreover have "prefix (durable d2) (?c @ ?h @ data)" if "Status_ok s1"
    using append_durable [OF ok1 a2] c1 [OF that] by simp
  moreover have "prefix (durable d3) (?c @ ?h @ data)" if "Status_ok s1" "Status_ok s2"
    using flush_durable [OF ok2 a3] c2 [OF that] by simp
  ultimately show "prefix (durable (w_dest w')) (?c @ phys_bytes (t, data))" unfolding w' p by simp
  show "contents (w_dest w') = ?c @ phys_bytes (t, data) \<and> writer_ok w'" if "Status_ok s"
  proof -
    have o: "Status_ok s1" "Status_ok s2" "Status_ok s3" using that s by (auto split: if_splits)
    show ?thesis
      using flush_ok [OF ok2 a3 o(3)] flush_inv [OF ok2 a3] c2 [OF o(1,2)] o cr
      unfolding w' p writer_ok_def by simp
  qed
qed

lemma AddRecord_loop_writes:
  "writer_ok w \<Longrightarrow> AddRecord_loop fo begins data w = (s, w') \<Longrightarrow>
     prefix (durable (w_dest w')) (contents (w_dest w) @ layout (w_block_offset w) (fragments begins (w_block_offset w) data)) \<and>
     (Status_ok s \<longrightarrow> writer_ok w' \<and>
        contents (w_dest w') = contents (w_dest w) @ layout (w_block_offset w) (fragments begins (w_block_offset w) data) \<and>
        w_block_offset w' = end_offset (w_block_offset w) (fragments begins (w_block_offset w) data))"
proof (induction begins "w_block_offset w" data arbitrary: w w' s rule: fragments.induct)
  case (1 begins data)
  let ?bo = "w_block_offset w"
  define n where "n = min (length data) (log_kBlockSize - start_offset ?bo - kHeaderSize)"
  define w1 where "w1 = switch_block fo w"
  note sw = switch_block_pads [OF "1.prems"(1), folded w1_def]
  define ends where "ends = (drop n data = [])"
  have n_eq: "(if length data < log_kBlockSize - w_block_offset w1 - kHeaderSize then length data
      else log_kBlockSize - w_block_offset w1 - kHeaderSize) = n"
    unfolding n_def sw(3) by (simp add: min_def)
  have ends_eq: "(length data = n) = ends" unfolding ends_def n_def by auto
  obtain s1 w2 where e: "EmitPhysicalRecord fo (fragment_type begins ends) (take n data) w1 = (s1, w2)"
    by (metis surj_pair)
  have loop: "AddRecord_loop fo begins data w =
      (if Status_ok s1 \<and> drop n data \<noteq> [] then AddRecord_loop fo False (drop n data) w2 else (s1, w2))"
    by (subst AddRecord_loop.simps) (simp only: Let_def w1_def [symmetric] n_eq ends_eq e prod.case)
  note em = Emit_writes [OF sw(1) sw(4) e]
  have bo2: "w_block_offset w2 = start_offset ?bo + kHeaderSize + n"
    using Emit_offset [OF e] sw(3) by (simp add: n_def)
  let ?r = "(fragment_type begins ends, take n data)"
  have c1: "contents (w_dest w1) @ phys_bytes ?r = contents (w_dest w) @ padding ?bo @ phys_bytes ?r"
    using sw(2) by simp
  show ?case
  proof (cases ends)
    case True
    then have all: "take n data = data" unfolding ends_def by simp
    have frag: "fragments begins ?bo data = [?r]"
      unfolding all using True
      by (subst fragments.simps) (simp only: Let_def n_def [symmetric] ends_def [symmetric] if_True)
    have "s = s1" "w' = w2" using "1.prems"(2) True loop by (simp_all add: ends_def)
    then show ?thesis
      using em bo2 unfolding c1 frag by (simp add: next_offset_def all n_def)
  next
    case False
    then have frag: "fragments begins ?bo data = ?r # fragments False (w_block_offset w2) (drop n data)"
      unfolding bo2 using False
      by (subst fragments.simps) (simp only: Let_def n_def [symmetric] ends_def [symmetric] if_False)
    have no: "next_offset ?bo ?r = w_block_offset w2" unfolding bo2 by (simp add: next_offset_def n_def)
    let ?rest = "layout (w_block_offset w2) (fragments False (w_block_offset w2) (drop n data))"
    have lay: "layout ?bo (fragments begins ?bo data) = padding ?bo @ phys_bytes ?r @ ?rest"
      unfolding frag by (simp add: no)
    show ?thesis
    proof (cases "Status_ok s1")
      case True
      then have "AddRecord_loop fo False (drop n data) w2 = (s, w')"
        using "1.prems"(2) False loop by (simp add: ends_def)
      moreover have ne: "drop n data \<noteq> []" using False by (simp add: ends_def)
      ultimately have IH: "prefix (durable (w_dest w')) (contents (w_dest w2) @ ?rest) \<and>
         (Status_ok s \<longrightarrow> writer_ok w' \<and> contents (w_dest w') = contents (w_dest w2) @ ?rest \<and>
          w_block_offset w' = end_offset (w_block_offset w2) (fragments False (w_block_offset w2) (drop n data)))"
        using "1.hyps" [OF refl n_def ne bo2 [symmetric]] em(2) [OF True] by blast
      show ?thesis
        using IH em(2) [OF True] unfolding lay frag using c1 no by simp
    next
      case f: False
      then have "s = s1" "w' = w2" using "1.prems"(2) loop by simp_all
      moreover have "prefix (durable (w_dest w2)) (contents (w_dest w) @ padding ?bo @ phys_bytes ?r @ ?rest)"
        using prefix_prefix [OF em(1), of ?rest] c1 by simp
      ultimately show ?thesis using f unfolding lay by simp
    qed
  qed
qed

lemma AddRecord_writes:
  assumes "writer_ok w" "AddRecord fo data w = (s, w')"
  defines "ps \<equiv> fragments True (w_block_offset w) data"
  shows "prefix (durable (w_dest w')) (contents (w_dest w) @ layout (w_block_offset w) ps)"
    and "Status_ok s \<Longrightarrow> writer_ok w'"
    and "Status_ok s \<Longrightarrow> contents (w_dest w') = contents (w_dest w) @ layout (w_block_offset w) ps"
    and "Status_ok s \<Longrightarrow> w_block_offset w' = end_offset (w_block_offset w) ps"
  using AddRecord_loop_writes [OF assms(1)] assms(2) unfolding AddRecord_def ps_def by blast+

end

text \<open>Adding records until one fails.\<close>

primrec AddRecords :: "'f WritableFile \<Rightarrow> bytes list \<Rightarrow> 'f Writer \<Rightarrow> Status \<times> 'f Writer" where
  "AddRecords fo [] w = (Status_OK, w)"
| "AddRecords fo (r # rs) w =
     (let (s, w) = AddRecord fo r w in if Status_ok s then AddRecords fo rs w else (s, w))"

context buffered_file
begin

lemma AddRecords_writes:
  "writer_ok w \<Longrightarrow> AddRecords fo rs w = (s, w') \<Longrightarrow>
     prefix (durable (w_dest w')) (contents (w_dest w) @ layout (w_block_offset w) (log_phys (w_block_offset w) rs)) \<and>
     (Status_ok s \<longrightarrow>
       durable (w_dest w') = contents (w_dest w) @ layout (w_block_offset w) (log_phys (w_block_offset w) rs))"
proof (induction rs arbitrary: w)
  case Nil
  then show ?case by (simp add: writer_ok_def)
next
  case (Cons r rs)
  let ?ps = "fragments True (w_block_offset w) r"
  obtain s1 w1 where a: "AddRecord fo r w = (s1, w1)" by (metis surj_pair)
  note add = AddRecord_writes [OF Cons.prems(1) a]
  have lay: "layout (w_block_offset w) (log_phys (w_block_offset w) (r # rs)) =
      layout (w_block_offset w) ?ps @ layout (end_offset (w_block_offset w) ?ps) (log_phys (end_offset (w_block_offset w) ?ps) rs)"
    by (simp add: Let_def layout_append)
  show ?case
  proof (cases "Status_ok s1")
    case True
    then have "AddRecords fo rs w1 = (s, w')" using Cons.prems(2) a by simp
    from Cons.IH [OF add(2) [OF True] this] show ?thesis
      unfolding lay add(3) [OF True] add(4) [OF True] by simp
  next
    case False
    then have "s = s1" "w' = w1" using Cons.prems(2) a by simp_all
    with False show ?thesis unfolding lay using prefix_prefix [OF add(1)] by simp
  qed
qed

end

interpretation posix_log: buffered_file PosixWritable pw_contents pw_durable pw_ok
proof unfold_locales
  fix f :: PosixWritableFile and bs :: bytes
  assume "pw_durable f = pw_contents f" "length bs < kHeaderSize"
  then have "pw_buf f = []" "length bs < kWritableFileBufferSize"
    by (simp_all add: pw_durable_def pw_contents_def kHeaderSize_def kWritableFileBufferSize_def)
  then show "fst (wf_Append PosixWritable bs f) = Status_OK"
    by (simp add: PosixWritable_def PosixWritableFile_Append_def Let_def)
qed

section \<open>Physical records stay inside their blocks\<close>

primrec phys_fit :: "nat \<Rightarrow> phys list \<Rightarrow> bool" where
  "phys_fit bo [] \<longleftrightarrow> True"
| "phys_fit bo (r # rs) \<longleftrightarrow> next_offset bo r \<le> log_kBlockSize \<and> phys_fit (next_offset bo r) rs"

lemma phys_fit_append: "phys_fit bo (rs @ rs') \<longleftrightarrow> phys_fit bo rs \<and> phys_fit (end_offset bo rs) rs'"
  by (induction rs arbitrary: bo) auto

lemma start_offset_le: "start_offset bo + kHeaderSize \<le> log_kBlockSize"
  by (auto simp: start_offset_def log_kBlockSize_def kHeaderSize_def)

lemma phys_fit_fragments: "phys_fit bo (fragments begins bo data)"
proof (induction begins bo data rule: fragments.induct)
  case (1 begins bo data)
  let ?n = "min (length data) (log_kBlockSize - start_offset bo - kHeaderSize)"
  show ?case
  proof (cases "drop ?n data = []")
    case True
    then show ?thesis
      using start_offset_le [of bo] by (subst fragments.simps) (simp add: Let_def next_offset_def)
  next
    case False
    have "phys_fit (start_offset bo + kHeaderSize + ?n)
        (fragments False (start_offset bo + kHeaderSize + ?n) (drop ?n data))"
      by (rule "1.IH" [OF refl refl False])
    moreover have "start_offset bo + kHeaderSize + ?n \<le> log_kBlockSize"
      using start_offset_le [of bo] by simp
    ultimately show ?thesis
      using False by (subst fragments.simps) (simp add: Let_def next_offset_def)
  qed
qed

lemma phys_fit_log: "phys_fit bo (log_phys bo rs)"
  by (induction rs arbitrary: bo) (simp_all add: Let_def phys_fit_append phys_fit_fragments)

text \<open>
  The shape of the fragments of one record: a full record, or a first, some middle and a last one,
  whose data is that of the record.
\<close>

inductive tail_fragments :: "phys list \<Rightarrow> bytes \<Rightarrow> bool" where
  last_fragment: "tail_fragments [(kLastType, p)] p"
| middle_fragment: "tail_fragments ps q \<Longrightarrow> tail_fragments ((kMiddleType, p) # ps) (p @ q)"

lemma tail_fragments_fragments: "tail_fragments (fragments False bo data) data"
proof (induction False bo data rule: fragments.induct)
  case (1 bo data)
  let ?n = "min (length data) (log_kBlockSize - start_offset bo - kHeaderSize)"
  show ?case
  proof (cases "drop ?n data = []")
    case True
    then show ?thesis
      by (subst fragments.simps) (simp add: Let_def fragment_type_def tail_fragments.intros)
  next
    case False
    have "tail_fragments ((kMiddleType, take ?n data) #
        fragments False (start_offset bo + kHeaderSize + ?n) (drop ?n data)) (take ?n data @ drop ?n data)"
      by (intro middle_fragment "1.hyps" [OF refl refl False])
    then show ?thesis
      using False by (subst fragments.simps) (simp only: Let_def fragment_type_def append_take_drop_id if_False simp_thms)
  qed
qed

lemma fragments_cases:
  obtains (full) "fragments True bo data = [(kFullType, data)]"
  | (split) p ps q where "fragments True bo data = (kFirstType, p) # ps" "tail_fragments ps q" "data = p @ q"
proof -
  let ?n = "min (length data) (log_kBlockSize - start_offset bo - kHeaderSize)"
  show ?thesis
  proof (cases "drop ?n data = []")
    case True
    then have "fragments True bo data = [(kFullType, data)]"
      by (subst fragments.simps) (simp add: Let_def fragment_type_def)
    then show ?thesis by (rule full)
  next
    case False
    have "fragments True bo data = (kFirstType, take ?n data) #
        fragments False (start_offset bo + kHeaderSize + ?n) (drop ?n data)"
      using False by (subst fragments.simps) (simp only: Let_def fragment_type_def if_False if_True simp_thms)
    then show ?thesis
      using split [OF _ tail_fragments_fragments] append_take_drop_id by metis
  qed
qed

end
