(* ===== verification/Log_Reader.thy ===== *)
theory Log_Reader
  imports Log_Writer Logging
begin

unbundle bit_operations_syntax

text \<open>
  \<^verbatim>\<open>db/log_reader.h\<close> and \<^verbatim>\<open>db/log_reader.cc\<close>: reading a log back, resynchronising after errors, and
  the proof that it recovers what \<^verbatim>\<open>db/log_writer.cc\<close> wrote, also when the writer died.
\<close>

section \<open>The reader\<close>

text \<open>
  The reporter is the list of the drops reported to it; \<open>r_has_reporter\<close> is \<^verbatim>\<open>reporter_ != nullptr\<close>.
  Offsets are 64-bit words, as in the code, since their differences may wrap.
\<close>

record 'f Reader =
  r_file :: 'f
  r_has_reporter :: bool
  r_reports :: "(u64 \<times> Status) list"
  r_checksum :: bool
  r_buffer :: bytes
  r_eof :: bool
  r_last_record_offset :: u64
  r_end_of_buffer_offset :: u64
  r_initial_offset :: u64
  r_resyncing :: bool

definition Reader_make :: "'f \<Rightarrow> bool \<Rightarrow> bool \<Rightarrow> u64 \<Rightarrow> 'f Reader" where
  "Reader_make file has_reporter verify initial_offset =
     \<lparr>r_file = file, r_has_reporter = has_reporter, r_reports = [], r_checksum = verify,
      r_buffer = [], r_eof = False, r_last_record_offset = 0, r_end_of_buffer_offset = 0,
      r_initial_offset = initial_offset, r_resyncing = (initial_offset > 0)\<rparr>"

definition kEof :: u32 where
  "kEof = of_nat (kMaxRecordType + 1)"

definition kBadRecord :: u32 where
  "kBadRecord = of_nat (kMaxRecordType + 2)"

definition ReportDrop :: "u64 \<Rightarrow> Status \<Rightarrow> 'f Reader \<Rightarrow> 'f Reader" where
  "ReportDrop bytes reason r =
     (if r_has_reporter r \<and>
         r_end_of_buffer_offset r - of_nat (length (r_buffer r)) - bytes \<ge> r_initial_offset r
      then r\<lparr>r_reports := r_reports r @ [(bytes, reason)]\<rparr>
      else r)"

definition ReportCorruption :: "u64 \<Rightarrow> bytes \<Rightarrow> 'f Reader \<Rightarrow> 'f Reader" where
  "ReportCorruption bytes reason r = ReportDrop bytes (Status_Corruption reason []) r"

definition SkipToInitialBlock :: "'f SequentialFile \<Rightarrow> 'f Reader \<Rightarrow> bool \<times> 'f Reader" where
  "SkipToInitialBlock sf r =
     (let offset_in_block = r_initial_offset r mod of_nat log_kBlockSize;
          block_start_location = r_initial_offset r - offset_in_block;
          block_start_location =
            (if offset_in_block > of_nat (log_kBlockSize - 6)
             then block_start_location + of_nat log_kBlockSize else block_start_location);
          r = r\<lparr>r_end_of_buffer_offset := block_start_location\<rparr>
      in if block_start_location > 0 then
           (let (skip_status, file) = sf_Skip sf (unat block_start_location) (r_file r);
                r = r\<lparr>r_file := file\<rparr>
            in if \<not> Status_ok skip_status
               then (False, ReportDrop block_start_location skip_status r)
               else (True, r))
         else (True, r))"

text \<open>
  One physical record from a buffer with a whole header.  The fragment \<open>result\<close> is only replaced
  where the code assigns it.
\<close>

definition parse_physical :: "bytes \<Rightarrow> 'f Reader \<Rightarrow> u32 \<times> bytes \<times> 'f Reader" where
  "parse_physical result r =
     (let header = r_buffer r;
          a = ucast (header ! 4) AND 0xff :: u32;
          b = ucast (header ! 5) AND 0xff :: u32;
          t = scast (header ! 6) :: u32;
          len = a OR push_bit 8 b
      in if kHeaderSize + unat len > length (r_buffer r) then
           (let drop_size = length (r_buffer r);
                r = r\<lparr>r_buffer := []\<rparr>
            in if \<not> r_eof r
               then (kBadRecord, result, ReportCorruption (of_nat drop_size) (lit ''bad record length'') r)
               else (kEof, result, r))
         else if t = of_nat (RecordType_value kZeroType) \<and> len = 0 then
           (kBadRecord, result, r\<lparr>r_buffer := []\<rparr>)
         else if r_checksum r \<and>
                 crc32c_Value (take (1 + unat len) (drop 6 header)) \<noteq> Unmask (DecodeFixed32 header) then
           (let drop_size = length (r_buffer r)
            in (kBadRecord, result,
                ReportCorruption (of_nat drop_size) (lit ''checksum mismatch'') (r\<lparr>r_buffer := []\<rparr>)))
         else
           (let r = r\<lparr>r_buffer := drop (kHeaderSize + unat len) (r_buffer r)\<rparr>
            in if r_end_of_buffer_offset r - of_nat (length (r_buffer r)) - of_nat kHeaderSize - ucast len
                  < r_initial_offset r
               then (kBadRecord, [], r)
               else (t, take (unat len) (drop kHeaderSize header), r)))"

function ReadPhysicalRecord ::
    "'f SequentialFile \<Rightarrow> bytes \<Rightarrow> 'f Reader \<Rightarrow> u32 \<times> bytes \<times> 'f Reader" where
  "ReadPhysicalRecord sf result r =
     (if length (r_buffer r) < kHeaderSize then
        (if \<not> r_eof r then
           (let (status, data, file) = sf_Read sf log_kBlockSize (r_file r);
                r1 = r\<lparr>r_file := file, r_buffer := data,
                       r_end_of_buffer_offset := r_end_of_buffer_offset r + of_nat (length data)\<rparr>
            in if \<not> Status_ok status then
                 (let r1 = r1\<lparr>r_buffer := []\<rparr>;
                      r1 = ReportDrop (of_nat log_kBlockSize) status r1
                  in (kEof, result, r1\<lparr>r_eof := True\<rparr>))
               else if length data < log_kBlockSize
               then ReadPhysicalRecord sf result (r1\<lparr>r_eof := True\<rparr>)
               else ReadPhysicalRecord sf result r1)
         else (kEof, result, r\<lparr>r_buffer := []\<rparr>))
      else parse_physical result r)"
  by auto
termination
  by (relation "measure (\<lambda>(_, _, r). if length (r_buffer r) < kHeaderSize then if r_eof r then 1 else 2 else 0 :: nat)")
     (auto simp: kHeaderSize_def log_kBlockSize_def)

declare ReadPhysicalRecord.simps [simp del]

record 'f ReadState =
  rs_reader :: "'f Reader"
  rs_fragment :: bytes
  rs_scratch :: bytes
  rs_in_fragmented :: bool
  rs_prospective :: u64

text \<open>
  The switch over the type of the physical record just read: the result of a \<^verbatim>\<open>return\<close> (\<^term>\<open>Inl\<close>,
  \<^term>\<open>None\<close> for \<^verbatim>\<open>false\<close>), or the state the loop goes on with.
\<close>

definition dispatch :: "u32 \<Rightarrow> u64 \<Rightarrow> 'f ReadState \<Rightarrow> (bytes option \<times> 'f Reader) + 'f ReadState" where
  "dispatch record_type physical_record_offset st =
     (let r = rs_reader st; fragment = rs_fragment st; scratch = rs_scratch st;
          inf = rs_in_fragmented st
      in if record_type = of_nat (RecordType_value kFullType) then
           (let r = (if inf \<and> scratch \<noteq> []
                     then ReportCorruption (of_nat (length scratch)) (lit ''partial record without end(1)'') r
                     else r)
            in Inl (Some fragment, r\<lparr>r_last_record_offset := physical_record_offset\<rparr>))
         else if record_type = of_nat (RecordType_value kFirstType) then
           (let r = (if inf \<and> scratch \<noteq> []
                     then ReportCorruption (of_nat (length scratch)) (lit ''partial record without end(2)'') r
                     else r)
            in Inr (st\<lparr>rs_reader := r, rs_prospective := physical_record_offset, rs_scratch := fragment,
                       rs_in_fragmented := True\<rparr>))
         else if record_type = of_nat (RecordType_value kMiddleType) then
           (if \<not> inf
            then Inr (st\<lparr>rs_reader := ReportCorruption (of_nat (length fragment))
                           (lit ''missing start of fragmented record(1)'') r\<rparr>)
            else Inr (st\<lparr>rs_scratch := scratch @ fragment\<rparr>))
         else if record_type = of_nat (RecordType_value kLastType) then
           (if \<not> inf
            then Inr (st\<lparr>rs_reader := ReportCorruption (of_nat (length fragment))
                           (lit ''missing start of fragmented record(2)'') r\<rparr>)
            else Inl (Some (scratch @ fragment), r\<lparr>r_last_record_offset := rs_prospective st\<rparr>))
         else if record_type = kEof then Inl (None, r)
         else if record_type = kBadRecord then
           (if inf
            then Inr (st\<lparr>rs_reader := ReportCorruption (of_nat (length scratch))
                           (lit ''error in middle of record'') r,
                         rs_in_fragmented := False, rs_scratch := []\<rparr>)
            else Inr st)
         else
           Inr (st\<lparr>rs_reader := ReportCorruption
                     (of_nat (length fragment + (if inf then length scratch else 0)))
                     (take 39 (lit ''unknown record type '' @ NumberToString (ucast record_type))) r,
                   rs_in_fragmented := False, rs_scratch := []\<rparr>))"

partial_function (option) ReadRecord_loop ::
    "'f SequentialFile \<Rightarrow> 'f ReadState \<Rightarrow> (bytes option \<times> 'f Reader) option" where
  "ReadRecord_loop sf st =
     (let (record_type, fragment, r) = ReadPhysicalRecord sf (rs_fragment st) (rs_reader st);
          physical_record_offset = r_end_of_buffer_offset r - of_nat (length (r_buffer r)) -
            of_nat kHeaderSize - of_nat (length fragment);
          resyncing = r_resyncing r;
          skip = (resyncing \<and> (record_type = of_nat (RecordType_value kMiddleType) \<or>
                               record_type = of_nat (RecordType_value kLastType)));
          r = (if resyncing \<and> record_type \<noteq> of_nat (RecordType_value kMiddleType)
               then r\<lparr>r_resyncing := False\<rparr> else r);
          st = st\<lparr>rs_reader := r, rs_fragment := fragment\<rparr>
      in if skip then ReadRecord_loop sf st
         else (case dispatch record_type physical_record_offset st of
                 Inl res \<Rightarrow> Some res
               | Inr st \<Rightarrow> ReadRecord_loop sf st))"

definition ReadRecord :: "'f SequentialFile \<Rightarrow> 'f Reader \<Rightarrow> (bytes option \<times> 'f Reader) option" where
  "ReadRecord sf r =
     (let (go_on, r) = (if r_last_record_offset r < r_initial_offset r
                        then SkipToInitialBlock sf r else (True, r))
      in if \<not> go_on then Some (None, r)
         else ReadRecord_loop sf \<lparr>rs_reader = r, rs_fragment = [], rs_scratch = [],
                                  rs_in_fragmented = False, rs_prospective = 0\<rparr>)"

definition LastRecordOffset :: "'f Reader \<Rightarrow> u64" where
  "LastRecordOffset r = r_last_record_offset r"

section \<open>Reading one physical record\<close>

lemma length_log_header [simp]: "length (log_header crcs t p) = kHeaderSize"
  by (simp add: log_header_def kHeaderSize_def Let_def)

lemma length_phys_bytes [simp]: "length (phys_bytes (t, p)) = kHeaderSize + length p"
  by (simp add: phys_bytes_def)

lemma header_length:
  assumes "n < 65536"
  shows "unat ((ucast (of_nat n AND 0xff :: byte) AND 0xff :: u32) OR push_bit 8 (ucast (of_nat (n div 256) :: byte) AND 0xff)) = n"
proof -
  have m: "(0xff :: byte) = - 1" "\<And>b :: byte. ucast b AND 0xff = (ucast b :: u32)"
  proof -
    show "(0xff :: byte) = - 1" by simp
    fix b :: byte
    have "(0xff :: u32) = mask 8" by (simp add: mask_eq_exp_minus_1)
    then have "ucast b AND 0xff = take_bit 8 (ucast b :: u32)" by (simp only: take_bit_eq_mask)
    then show "ucast b AND 0xff = (ucast b :: u32)"
      using unat_byte_less [of b]
      by (simp add: word_unat_eq_iff unsigned_take_bit_eq unsigned_ucast_eq take_bit_nat_eq_self)
  qed
  let ?a = "ucast (of_nat n :: byte) :: u32" and ?b = "ucast (of_nat (n div 256) :: byte) :: u32"
  have a: "unat ?a = n mod 256" and b: "unat ?b = n div 256"
    using assms by (simp_all add: unsigned_ucast_eq unsigned_of_nat take_bit_eq_mod)
  have "?a OR push_bit 8 ?b = ?a + push_bit 8 ?b"
    by (rule disjunctive_add [symmetric]) (auto simp: bit_simps dest: bit_imp_le_length)
  moreover have "unat (push_bit 8 ?b) = 256 * (n div 256)"
    using assms b by (simp add: push_bit_eq_mult unat_word_ariths)
  ultimately have "unat (?a OR push_bit 8 ?b) = n"
    using a assms by (simp add: unat_word_ariths)
  then show ?thesis unfolding m(2) unfolding m(1) by simp
qed

lemma header_type: "scast (of_nat (RecordType_value t) :: byte) = (of_nat (RecordType_value t) :: u32)"
  by (cases t) simp_all

lemma type_crc: "InitTypeCrc ! RecordType_value t = crc32c_Value [of_nat (RecordType_value t)]"
proof -
  have "RecordType_value t < kMaxRecordType + 1" by (cases t) (simp_all add: kMaxRecordType_def)
  then show ?thesis unfolding InitTypeCrc_def by (subst nth_map) (simp_all del: upt_Suc)
qed

lemma header_crc:
  "crc32c_Value (of_nat (RecordType_value t) # p) = Unmask (DecodeFixed32 (log_header InitTypeCrc t p @ rest))"
  unfolding log_header_def Let_def type_crc crc32c_Value_def
  using crc.stored_matches [of "[of_nat (RecordType_value t)]" p] by simp

text \<open>A reader that has \<open>R\<close> left of its file and stands at offset \<open>bo\<close> of a block.\<close>

context sequential_file
begin

definition reader_at :: "bytes \<Rightarrow> nat \<Rightarrow> 'f Reader \<Rightarrow> bool" where
  "reader_at R bo r \<longleftrightarrow>
     bo \<le> log_kBlockSize \<and> r_buffer r = take (log_kBlockSize - bo) R \<and>
     remaining (r_file r) = drop (log_kBlockSize - bo) R \<and> ok (r_file r) \<and>
     (r_eof r \<longleftrightarrow> length R < log_kBlockSize - bo) \<and> r_initial_offset r = 0 \<and> \<not> r_resyncing r"

lemma parse_physical_full:
  assumes at: "reader_at (phys_bytes (t, p) @ R) bo r"
    and fit: "bo + kHeaderSize + length p \<le> log_kBlockSize" and t: "t \<noteq> kZeroType"
  shows "\<exists>r'. parse_physical res r = (of_nat (RecordType_value t), p, r') \<and>
    reader_at R (bo + kHeaderSize + length p) r' \<and> r_reports r' = r_reports r"
proof -
  let ?h = "log_header InitTypeCrc t p"
  define k where "k = log_kBlockSize - bo - kHeaderSize - length p"
  have k: "log_kBlockSize - bo = kHeaderSize + length p + k" using fit by (simp add: k_def)
  have k': "log_kBlockSize - (bo + kHeaderSize + length p) = k" by (simp add: k_def)
  have buf: "r_buffer r = ?h @ p @ take k R"
    using at unfolding reader_at_def k by (simp add: phys_bytes_def)
  have len: "unat ((ucast (r_buffer r ! 4) AND 0xff :: u32) OR push_bit 8 (ucast (r_buffer r ! 5) AND 0xff)) = length p"
    using header_length [of "length p"] fit unfolding buf
    by (simp add: log_header_def Let_def nth_append log_kBlockSize_def)
  have ty: "scast (r_buffer r ! 6) = (of_nat (RecordType_value t) :: u32)"
    unfolding buf using header_type [of t] by (simp add: log_header_def Let_def nth_append)
  have "r_buffer r ! 6 = of_nat (RecordType_value t)"
    unfolding buf by (simp add: log_header_def Let_def nth_append)
  moreover have "drop 6 (r_buffer r) = of_nat (RecordType_value t) # p @ take k R"
    unfolding buf by (simp add: log_header_def Let_def)
  ultimately have crc: "crc32c_Value (take (1 + length p) (drop 6 (r_buffer r))) = Unmask (DecodeFixed32 (r_buffer r))"
    using header_crc [of t p "p @ take k R"] unfolding buf by simp
  have nz: "(of_nat (RecordType_value t) :: u32) \<noteq> 0" using t by (cases t) simp_all
  have parts: "\<not> kHeaderSize + length p > length (r_buffer r)"
      "drop (kHeaderSize + length p) (r_buffer r) = take k R" "take (length p) (drop kHeaderSize (r_buffer r)) = p"
    unfolding buf by simp_all
  have init: "r_initial_offset r = 0" using at by (simp add: reader_at_def)
  let ?r' = "r\<lparr>r_buffer := take k R\<rparr>"
  have "parse_physical res r = (of_nat (RecordType_value t), p, ?r')"
    unfolding parse_physical_def Let_def len ty crc using nz parts init by simp
  moreover have "reader_at R (bo + kHeaderSize + length p) ?r'"
    using at fit k unfolding reader_at_def k' by (auto simp: phys_bytes_def)
  ultimately show ?thesis by auto
qed

text \<open>With less than a header in the buffer and more in the file, the next block is read.\<close>

lemma ReadPhysicalRecord_next_block:
  assumes at: "reader_at R bo r" and small: "log_kBlockSize - bo < kHeaderSize" and more: "\<not> length R < log_kBlockSize - bo"
  shows "\<exists>r'. ReadPhysicalRecord sf res r = ReadPhysicalRecord sf res r' \<and>
    reader_at (drop (log_kBlockSize - bo) R) 0 r' \<and> r_reports r' = r_reports r"
proof -
  let ?R = "drop (log_kBlockSize - bo) R"
  have r: "ok (r_file r)" "remaining (r_file r) = ?R" "\<not> r_eof r" "length (r_buffer r) < kHeaderSize"
    using at small more unfolding reader_at_def by auto
  obtain f where f: "sf_Read sf log_kBlockSize (r_file r) = (Status_OK, take log_kBlockSize ?R, f)"
      "ok f" "remaining f = drop log_kBlockSize ?R"
    using read_ok [OF r(1), of log_kBlockSize] unfolding r(2) by blast
  let ?r1 = "r\<lparr>r_file := f, r_buffer := take log_kBlockSize ?R,
      r_end_of_buffer_offset := r_end_of_buffer_offset r + of_nat (length (take log_kBlockSize ?R))\<rparr>"
  let ?r' = "if length (take log_kBlockSize ?R) < log_kBlockSize then ?r1\<lparr>r_eof := True\<rparr> else ?r1"
  have "ReadPhysicalRecord sf res r = ReadPhysicalRecord sf res ?r'"
    using r(3,4) by (subst ReadPhysicalRecord.simps) (simp only: f(1) Let_def prod.case Status_ok_simps simp_thms if_True if_False split: if_split, blast)
  moreover have "reader_at ?R 0 ?r'"
    using at f r(3) unfolding reader_at_def by auto
  ultimately show ?thesis by (intro exI [of _ ?r']) auto
qed

lemma ReadPhysicalRecord_parse:
  "\<not> length (r_buffer r) < kHeaderSize \<Longrightarrow> ReadPhysicalRecord sf res r = parse_physical res r"
  by (subst ReadPhysicalRecord.simps) simp

lemma ReadPhysicalRecord_full:
  assumes at: "reader_at (padding bo @ phys_bytes (t, p) @ R) bo r"
    and fit: "next_offset bo (t, p) \<le> log_kBlockSize" and t: "t \<noteq> kZeroType"
  shows "\<exists>r'. ReadPhysicalRecord sf res r = (of_nat (RecordType_value t), p, r') \<and>
    reader_at R (next_offset bo (t, p)) r' \<and> r_reports r' = r_reports r"
proof -
  obtain r1 where r1: "ReadPhysicalRecord sf res r = ReadPhysicalRecord sf res r1"
      "reader_at (phys_bytes (t, p) @ R) (start_offset bo) r1" "r_reports r1 = r_reports r"
  proof (cases "log_kBlockSize - bo < kHeaderSize")
    case True
    then have "padding bo = replicate (log_kBlockSize - bo) 0" "start_offset bo = 0"
      by (simp_all add: padding_def start_offset_def)
    with ReadPhysicalRecord_next_block [OF at True] that show ?thesis by auto
  next
    case False
    then show ?thesis using that [of r] at by (simp add: padding_def start_offset_def)
  qed
  have no: "start_offset bo + kHeaderSize + length p = next_offset bo (t, p)" by (simp add: next_offset_def)
  have "\<not> length (r_buffer r1) < kHeaderSize"
    using r1(2) fit unfolding reader_at_def no [symmetric] by simp
  then have "ReadPhysicalRecord sf res r = parse_physical res r1"
    unfolding r1(1) by (rule ReadPhysicalRecord_parse)
  with parse_physical_full [OF r1(2) fit [folded no] t, of res] r1(3) show ?thesis unfolding no by auto
qed

text \<open>A log cut off inside a physical record looks like the end of the file.\<close>

lemma ReadPhysicalRecord_short:
  assumes at: "reader_at R bo r" and cut: "R @ Z = phys_bytes (t, p)" "Z \<noteq> []"
    and fit: "bo + kHeaderSize + length p \<le> log_kBlockSize"
  shows "\<exists>r'. ReadPhysicalRecord sf res r = (kEof, res, r') \<and> r_reports r' = r_reports r"
proof -
  have "length (R @ Z) = kHeaderSize + length p" unfolding cut(1) by simp
  moreover have "0 < length Z" using cut(2) by simp
  ultimately have short: "length R < kHeaderSize + length p" unfolding length_append by linarith
  have eof: "r_eof r" and buf: "r_buffer r = R"
    using at fit short unfolding reader_at_def by auto
  show ?thesis
  proof (cases "length R < kHeaderSize")
    case True
    then show ?thesis by (subst ReadPhysicalRecord.simps) (simp add: eof buf)
  next
    case False
    have "take kHeaderSize (R @ Z) = take kHeaderSize (phys_bytes (t, p))" unfolding cut(1) ..
    then have "take kHeaderSize R = log_header InitTypeCrc t p" using False by (simp add: phys_bytes_def)
    then obtain q where R: "R = log_header InitTypeCrc t p @ q" by (metis append_take_drop_id)
    have "unat ((ucast (r_buffer r ! 4) AND 0xff :: u32) OR push_bit 8 (ucast (r_buffer r ! 5) AND 0xff)) = length p"
      using header_length [of "length p"] fit unfolding buf R
      by (simp add: log_header_def Let_def nth_append log_kBlockSize_def)
    then have "parse_physical res r = (kEof, res, r\<lparr>r_buffer := []\<rparr>)"
      unfolding parse_physical_def Let_def using short eof by (simp add: buf)
    then show ?thesis using ReadPhysicalRecord_parse [of r res] False buf by auto
  qed
qed

lemma ReadPhysicalRecord_cut:
  assumes at: "reader_at R bo r" and cut: "R @ Z = padding bo @ phys_bytes (t, p)" "Z \<noteq> []"
    and fit: "next_offset bo (t, p) \<le> log_kBlockSize"
  shows "\<exists>r'. ReadPhysicalRecord sf res r = (kEof, res, r') \<and> r_reports r' = r_reports r"
proof (cases "log_kBlockSize - bo < kHeaderSize")
  case True
  then have pad: "padding bo = replicate (log_kBlockSize - bo) 0" "start_offset bo = 0"
    by (simp_all add: padding_def start_offset_def)
  show ?thesis
  proof (cases "length R < log_kBlockSize - bo")
    case short: True
    then have "r_eof r" "length (r_buffer r) < kHeaderSize" using at True unfolding reader_at_def by auto
    then show ?thesis by (subst ReadPhysicalRecord.simps) simp
  next
    case False
    obtain r1 where r1: "ReadPhysicalRecord sf res r = ReadPhysicalRecord sf res r1"
        "reader_at (drop (log_kBlockSize - bo) R) 0 r1" "r_reports r1 = r_reports r"
      using ReadPhysicalRecord_next_block [OF at True False] by blast
    have "drop (log_kBlockSize - bo) (R @ Z) = phys_bytes (t, p)" unfolding cut(1) pad(1) by simp
    then have "drop (log_kBlockSize - bo) R @ Z = phys_bytes (t, p)" using False by simp
    from ReadPhysicalRecord_short [OF r1(2) this cut(2)] fit show ?thesis
      unfolding r1(1) using r1(3) by (simp add: next_offset_def pad)
  qed
next
  case False
  then have "padding bo = []" "start_offset bo = bo" by (simp_all add: padding_def start_offset_def)
  with ReadPhysicalRecord_short [OF at _ cut(2)] cut(1) fit show ?thesis by (simp add: next_offset_def)
qed

section \<open>Reading a record\<close>

lemma RecordType_u32 [simp]:
  "(of_nat (RecordType_value t) :: u32) = of_nat (RecordType_value t') \<longleftrightarrow> t = t'"
  "(of_nat (RecordType_value t) :: u32) \<noteq> kEof" "kEof \<noteq> of_nat (RecordType_value t)"
  by (cases t; cases t'; simp add: kEof_def kMaxRecordType_def)+

lemma reader_at_not_resyncing: "reader_at R bo r \<Longrightarrow> \<not> r_resyncing r"
  by (simp add: reader_at_def)

lemma reader_at_last [simp]: "reader_at R bo (r\<lparr>r_last_record_offset := x\<rparr>) = reader_at R bo r"
  by (simp add: reader_at_def)

text \<open>One round of the loop, for a record that is there and for one that is cut off.\<close>

lemma ReadRecord_loop_step:
  assumes "ReadPhysicalRecord sf (rs_fragment st) (rs_reader st) = (t, p, r)" "\<not> r_resyncing r"
  shows "\<exists>off. ReadRecord_loop sf st =
    (case dispatch t off (st\<lparr>rs_reader := r, rs_fragment := p\<rparr>) of Inl res \<Rightarrow> Some res | Inr st \<Rightarrow> ReadRecord_loop sf st)"
  using assms by (subst ReadRecord_loop.simps) (simp add: Let_def, blast)

lemma kEof_resyncing:
  assumes "ReadPhysicalRecord sf (rs_fragment st) (rs_reader st) = (kEof, p, r)"
  shows "\<exists>r'. ReadRecord_loop sf st = Some (None, r') \<and> r_reports r' = r_reports r"
  using assms
  by (subst ReadRecord_loop.simps) (simp add: Let_def dispatch_def del: RecordType_value.simps)

lemma ReadRecord_loop_tail:
  "tail_fragments ps q \<Longrightarrow> reader_at (layout bo ps @ R) bo (rs_reader st) \<Longrightarrow> phys_fit bo ps \<Longrightarrow>
   rs_in_fragmented st \<Longrightarrow>
   \<exists>r'. ReadRecord_loop sf st = Some (Some (rs_scratch st @ q), r') \<and>
     reader_at R (end_offset bo ps) r' \<and> r_reports r' = r_reports (rs_reader st)"
proof (induction ps q arbitrary: bo st rule: tail_fragments.induct)
  case (last_fragment p)
  obtain r where r: "ReadPhysicalRecord sf (rs_fragment st) (rs_reader st) = (of_nat (RecordType_value kLastType), p, r)"
      "reader_at R (next_offset bo (kLastType, p)) r" "r_reports r = r_reports (rs_reader st)"
    using ReadPhysicalRecord_full [of bo kLastType p R "rs_reader st" "rs_fragment st"] last_fragment.prems by auto
  from ReadRecord_loop_step [OF r(1) reader_at_not_resyncing [OF r(2)]] last_fragment.prems(3) r(2,3)
  show ?case by (auto simp: dispatch_def Let_def simp del: RecordType_value.simps)
next
  case (middle_fragment ps q p)
  obtain r where r: "ReadPhysicalRecord sf (rs_fragment st) (rs_reader st) = (of_nat (RecordType_value kMiddleType), p, r)"
      "reader_at (layout (next_offset bo (kMiddleType, p)) ps @ R) (next_offset bo (kMiddleType, p)) r"
      "r_reports r = r_reports (rs_reader st)"
    using ReadPhysicalRecord_full [of bo kMiddleType p _ "rs_reader st" "rs_fragment st"] middle_fragment.prems by auto
  let ?st = "st\<lparr>rs_reader := r, rs_fragment := p, rs_scratch := rs_scratch st @ p\<rparr>"
  have "ReadRecord_loop sf st = ReadRecord_loop sf ?st"
    using ReadRecord_loop_step [OF r(1) reader_at_not_resyncing [OF r(2)]] middle_fragment.prems(3)
    by (auto simp: dispatch_def Let_def simp del: RecordType_value.simps)
  with middle_fragment.IH [of "next_offset bo (kMiddleType, p)" ?st] middle_fragment.prems r(2,3)
  show ?case by auto
qed

lemma ReadRecord_not_skipping:
  assumes "reader_at R bo r"
  shows "ReadRecord sf r = ReadRecord_loop sf \<lparr>rs_reader = r, rs_fragment = [], rs_scratch = [],
    rs_in_fragmented = False, rs_prospective = 0\<rparr>"
  using assms by (simp add: ReadRecord_def reader_at_def)

lemma ReadRecord_full:
  assumes at: "reader_at (layout bo (fragments True bo data) @ R) bo r"
  shows "\<exists>r'. ReadRecord sf r = Some (Some data, r') \<and>
    reader_at R (end_offset bo (fragments True bo data)) r' \<and> r_reports r' = r_reports r"
proof -
  define st where "st = \<lparr>rs_reader = r, rs_fragment = [], rs_scratch = [], rs_in_fragmented = False, rs_prospective = 0\<rparr>"
  have run: "ReadRecord sf r = ReadRecord_loop sf st" unfolding st_def by (rule ReadRecord_not_skipping [OF at])
  have fit: "phys_fit bo (fragments True bo data)" by (rule phys_fit_fragments)
  show ?thesis
  proof (cases rule: fragments_cases [of bo data])
    case full
    obtain r1 where r1: "ReadPhysicalRecord sf (rs_fragment st) (rs_reader st) = (of_nat (RecordType_value kFullType), data, r1)"
        "reader_at R (next_offset bo (kFullType, data)) r1" "r_reports r1 = r_reports r"
      using ReadPhysicalRecord_full [of bo kFullType data R r "rs_fragment st"] at fit unfolding full by (auto simp: st_def)
    from ReadRecord_loop_step [OF r1(1) reader_at_not_resyncing [OF r1(2)]] r1(2,3)
    show ?thesis unfolding run full by (auto simp: st_def dispatch_def Let_def simp del: RecordType_value.simps)
  next
    case (split p ps q)
    let ?bo = "next_offset bo (kFirstType, p)"
    obtain r1 where r1: "ReadPhysicalRecord sf (rs_fragment st) (rs_reader st) = (of_nat (RecordType_value kFirstType), p, r1)"
        "reader_at (layout ?bo ps @ R) ?bo r1" "r_reports r1 = r_reports r"
      using ReadPhysicalRecord_full [of bo kFirstType p _ r "rs_fragment st"] at fit unfolding split(1) by (auto simp: st_def)
    obtain off where "ReadRecord_loop sf st = ReadRecord_loop sf (st\<lparr>rs_reader := r1, rs_fragment := p,
        rs_prospective := off, rs_scratch := p, rs_in_fragmented := True\<rparr>)"
      using ReadRecord_loop_step [OF r1(1) reader_at_not_resyncing [OF r1(2)]]
      by (auto simp: st_def dispatch_def Let_def simp del: RecordType_value.simps)
    with ReadRecord_loop_tail [OF split(2), of ?bo R "st\<lparr>rs_reader := r1, rs_fragment := p,
        rs_prospective := off, rs_scratch := p, rs_in_fragmented := True\<rparr>"] fit r1(2,3)
    show ?thesis unfolding run split(1) by (simp add: split(1,3))
  qed
qed

text \<open>A record that is cut off anywhere is not returned, and nothing is reported for it.\<close>

lemma layout_not_Nil: "ps \<noteq> [] \<Longrightarrow> layout bo ps \<noteq> []"
  by (cases ps) (auto simp: phys_bytes_def log_header_def Let_def)

lemma ReadRecord_loop_cut:
  "reader_at R bo (rs_reader st) \<Longrightarrow> R @ Z = layout bo ps \<Longrightarrow> Z \<noteq> [] \<Longrightarrow> phys_fit bo ps \<Longrightarrow>
   (tail_fragments ps q \<and> rs_in_fragmented st) \<Longrightarrow>
   \<exists>r'. ReadRecord_loop sf st = Some (None, r') \<and> r_reports r' = r_reports (rs_reader st)"
proof (induction ps arbitrary: R bo st q)
  case Nil
  then show ?case by simp
next
  case (Cons tp ps)
  obtain t p where tp: "tp = (t, p)" by (cases tp)
  show ?case
  proof (cases "prefix (padding bo @ phys_bytes tp) R")
    case False
    have "prefix (padding bo @ phys_bytes tp) (R @ Z)" using Cons.prems(2) by (simp add: prefixI)
    moreover have "prefix R (R @ Z)" by simp
    ultimately have "prefix R (padding bo @ phys_bytes tp)" using False prefix_same_cases by blast
    then obtain Y where Y: "R @ Y = padding bo @ phys_bytes (t, p)" "Y \<noteq> []"
      using False tp by (auto elim!: prefixE)
    from ReadPhysicalRecord_cut [OF Cons.prems(1) Y] Cons.prems(4) tp obtain r' where
      "ReadPhysicalRecord sf (rs_fragment st) (rs_reader st) = (kEof, rs_fragment st, r')" "r_reports r' = r_reports (rs_reader st)"
      by auto
    with kEof_resyncing show ?thesis by fastforce
  next
    case True
    then obtain R' where R': "R = padding bo @ phys_bytes tp @ R'" by (auto elim!: prefixE)
    then have rest: "R' @ Z = layout (next_offset bo tp) ps" using Cons.prems(2) by simp
    have ne: "ps \<noteq> []" using rest Cons.prems(3) by auto
    from Cons.prems(5) ne obtain q' where mid: "t = kMiddleType" "tail_fragments ps q'"
      by (auto simp: tp elim: tail_fragments.cases)
    obtain r where r: "ReadPhysicalRecord sf (rs_fragment st) (rs_reader st) = (of_nat (RecordType_value kMiddleType), p, r)"
        "reader_at R' (next_offset bo tp) r" "r_reports r = r_reports (rs_reader st)"
      using ReadPhysicalRecord_full [of bo t p R' "rs_reader st" "rs_fragment st"] Cons.prems R' unfolding tp mid(1) by auto
    let ?st = "st\<lparr>rs_reader := r, rs_fragment := p, rs_scratch := rs_scratch st @ p\<rparr>"
    have "ReadRecord_loop sf st = ReadRecord_loop sf ?st"
      using ReadRecord_loop_step [OF r(1) reader_at_not_resyncing [OF r(2)]] Cons.prems(5)
      by (auto simp: dispatch_def Let_def simp del: RecordType_value.simps)
    with Cons.IH [of R' "next_offset bo tp" ?st q'] rest Cons.prems r(2,3) mid(2) show ?thesis by auto
  qed
qed

lemma ReadRecord_cut:
  assumes at: "reader_at R bo r" and cut: "R @ Z = layout bo (fragments True bo data)" "Z \<noteq> []"
  shows "\<exists>r'. ReadRecord sf r = Some (None, r') \<and> r_reports r' = r_reports r"
proof -
  define st where "st = \<lparr>rs_reader = r, rs_fragment = [], rs_scratch = [], rs_in_fragmented = False, rs_prospective = 0\<rparr>"
  have run: "ReadRecord sf r = ReadRecord_loop sf st" unfolding st_def by (rule ReadRecord_not_skipping [OF at])
  have fit: "phys_fit bo (fragments True bo data)" by (rule phys_fit_fragments)
  obtain t p ps where ps: "fragments True bo data = (t, p) # ps" "ps \<noteq> [] \<Longrightarrow> t = kFirstType \<and> (\<exists>q. tail_fragments ps q)"
    by (cases rule: fragments_cases [of bo data]) auto
  show ?thesis
  proof (cases "prefix (padding bo @ phys_bytes (t, p)) R")
    case False
    have "prefix (padding bo @ phys_bytes (t, p)) (R @ Z)" using cut(1) ps by (simp add: prefixI)
    moreover have "prefix R (R @ Z)" by simp
    ultimately have "prefix R (padding bo @ phys_bytes (t, p))" using False prefix_same_cases by blast
    then obtain Y where Y: "R @ Y = padding bo @ phys_bytes (t, p)" "Y \<noteq> []"
      using False by (auto elim!: prefixE)
    from ReadPhysicalRecord_cut [OF at Y] fit ps obtain r' where
      "ReadPhysicalRecord sf (rs_fragment st) (rs_reader st) = (kEof, rs_fragment st, r')" "r_reports r' = r_reports r"
      by (auto simp: st_def)
    with kEof_resyncing show ?thesis unfolding run by fastforce
  next
    case True
    then obtain R' where R': "R = padding bo @ phys_bytes (t, p) @ R'" by (auto elim!: prefixE)
    let ?bo = "next_offset bo (t, p)"
    have rest: "R' @ Z = layout ?bo ps" using cut(1) R' ps by simp
    have "ps \<noteq> []" using rest cut(2) by auto
    then obtain q where first: "t = kFirstType" "tail_fragments ps q" using ps(2) by blast
    obtain r1 where r1: "ReadPhysicalRecord sf (rs_fragment st) (rs_reader st) = (of_nat (RecordType_value kFirstType), p, r1)"
        "reader_at R' ?bo r1" "r_reports r1 = r_reports r"
      using ReadPhysicalRecord_full [of bo t p R' r "rs_fragment st"] at fit R' unfolding ps(1) first(1) by (auto simp: st_def)
    obtain off where "ReadRecord_loop sf st = ReadRecord_loop sf (st\<lparr>rs_reader := r1, rs_fragment := p,
        rs_prospective := off, rs_scratch := p, rs_in_fragmented := True\<rparr>)"
      using ReadRecord_loop_step [OF r1(1) reader_at_not_resyncing [OF r1(2)]]
      by (auto simp: st_def dispatch_def Let_def simp del: RecordType_value.simps)
    with ReadRecord_loop_cut [of R' ?bo "st\<lparr>rs_reader := r1, rs_fragment := p,
        rs_prospective := off, rs_scratch := p, rs_in_fragmented := True\<rparr>" Z ps q] rest cut(2) fit r1(2,3) first(2)
    show ?thesis unfolding run ps(1) by (simp add: ps(1))
  qed
qed

end

section \<open>Reading a log\<close>

text \<open>Up to \<open>n\<close> calls of \<^verbatim>\<open>ReadRecord\<close>, until one returns false.\<close>

primrec ReadRecords :: "'f SequentialFile \<Rightarrow> nat \<Rightarrow> 'f Reader \<Rightarrow> (bytes list \<times> 'f Reader) option" where
  "ReadRecords sf 0 r = Some ([], r)"
| "ReadRecords sf (Suc n) r =
     (case ReadRecord sf r of
        None \<Rightarrow> None
      | Some (None, r) \<Rightarrow> Some ([], r)
      | Some (Some rec, r) \<Rightarrow> map_option (\<lambda>(recs, r). (rec # recs, r)) (ReadRecords sf n r))"

lemma fragments_not_Nil: "fragments begins bo data \<noteq> []"
  by (subst fragments.simps) (simp add: Let_def)

lemma block_boundary:
  "padding log_kBlockSize = padding 0" "start_offset log_kBlockSize = start_offset 0"
  by (simp_all add: padding_def start_offset_def log_kBlockSize_def kHeaderSize_def)

lemma fragments_boundary: "fragments begins log_kBlockSize data = fragments begins 0 data"
  by (subst (1 2) fragments.simps) (simp only: Let_def block_boundary)

lemma layout_boundary: "layout log_kBlockSize ps = layout 0 ps"
  by (cases ps) (simp_all add: block_boundary next_offset_def)

lemma end_offset_boundary: "ps \<noteq> [] \<Longrightarrow> end_offset log_kBlockSize ps = end_offset 0 ps"
  by (cases ps) (simp_all add: block_boundary next_offset_def)

lemma log_phys_boundary: "log_phys log_kBlockSize rs = log_phys 0 rs"
  by (cases rs) (simp_all add: fragments_boundary end_offset_boundary fragments_not_Nil Let_def)

text \<open>Which records of a log are complete in a prefix of its bytes.\<close>

definition complete :: "nat \<Rightarrow> bytes list \<Rightarrow> bytes \<Rightarrow> bytes list \<Rightarrow> bool" where
  "complete bo rs R rs' \<longleftrightarrow>
     prefix rs' rs \<and> prefix (layout bo (log_phys bo rs')) R \<and>
     (length rs' < length rs \<longrightarrow> \<not> prefix (layout bo (log_phys bo (take (Suc (length rs')) rs))) R)"

context sequential_file
begin

lemma ReadRecords_log:
  "reader_at R bo r \<Longrightarrow> prefix R (layout bo (log_phys bo rs)) \<Longrightarrow>
     \<exists>rs' r'. ReadRecords sf (Suc (length rs)) r = Some (rs', r') \<and> complete bo rs R rs' \<and> r_reports r' = r_reports r"
proof (induction rs arbitrary: R bo r)
  case Nil
  then have R: "R = []" by simp
  have "R @ layout bo (fragments True bo []) = layout bo (fragments True bo [])" unfolding R by simp
  from ReadRecord_cut [OF Nil.prems(1) this layout_not_Nil [OF fragments_not_Nil]]
  show ?case by (auto simp: complete_def)
next
  case (Cons d rs)
  let ?ps = "fragments True bo d" and ?bo = "end_offset bo (fragments True bo d)"
  let ?L1 = "layout bo (fragments True bo d)" and ?L2 = "layout ?bo (log_phys ?bo rs)"
  have lay: "layout bo (log_phys bo (d # xs)) = ?L1 @ layout ?bo (log_phys ?bo xs)" for xs
    by (simp add: Let_def layout_append)
  have pre: "prefix R (?L1 @ ?L2)" using Cons.prems(2) unfolding lay .
  show ?case
  proof (cases "prefix ?L1 R")
    case True
    then obtain R' where R': "R = ?L1 @ R'" by (auto elim!: prefixE)
    then have pre': "prefix R' ?L2" using pre by simp
    obtain r1 where r1: "ReadRecord sf r = Some (Some d, r1)" "reader_at R' ?bo r1" "r_reports r1 = r_reports r"
      using ReadRecord_full [of bo d R' r] Cons.prems(1) R' by auto
    from Cons.IH [OF r1(2) pre'] obtain rs' r' where
      IH: "ReadRecords sf (Suc (length rs)) r1 = Some (rs', r')" "complete ?bo rs R' rs'" "r_reports r' = r_reports r1"
      by blast
    have "complete bo (d # rs) R (d # rs')"
      using IH(2) unfolding complete_def R' by (simp add: lay del: log_phys.simps)
    then show ?thesis
      using IH r1 by (intro exI [of _ "d # rs'"] exI [of _ r']) simp
  next
    case False
    have "prefix ?L1 (?L1 @ ?L2)" by simp
    then have "prefix R ?L1" using pre False prefix_same_cases by blast
    then obtain Z where "R @ Z = ?L1" "Z \<noteq> []" using False by (auto elim!: prefixE)
    moreover have "complete bo (d # rs) R []"
      using False append_prefixD [of ?L1] unfolding complete_def by (auto simp: Let_def)
    ultimately show ?thesis using ReadRecord_cut [OF Cons.prems(1)] by fastforce
  qed
qed

lemma ReadRecords_start:
  assumes f: "ok f" and pre: "prefix (remaining f) (log_bytes rs)"
  shows "\<exists>rs' r'. ReadRecords sf (Suc (length rs)) (Reader_make f reporter verify 0) = Some (rs', r') \<and>
    complete 0 rs (remaining f) rs' \<and> r_reports r' = []"
proof -
  have "reader_at (remaining f) log_kBlockSize (Reader_make f reporter verify 0)"
    using f by (simp add: reader_at_def Reader_make_def)
  moreover have "prefix (remaining f) (layout log_kBlockSize (log_phys log_kBlockSize rs))"
    using pre by (simp add: log_bytes_def layout_boundary log_phys_boundary)
  ultimately obtain rs' r' where
    "ReadRecords sf (Suc (length rs)) (Reader_make f reporter verify 0) = Some (rs', r')"
    "complete log_kBlockSize rs (remaining f) rs'" "r_reports r' = r_reports (Reader_make f reporter verify 0)"
    using ReadRecords_log by blast
  then show ?thesis by (simp add: complete_def layout_boundary log_phys_boundary Reader_make_def)
qed

end

lemma complete_all:
  assumes "complete 0 rs (log_bytes rs) rs'"
  shows "rs' = rs"
proof (rule ccontr)
  assume "rs' \<noteq> rs"
  then have less: "length rs' < length rs"
    using assms unfolding complete_def by (auto elim!: prefixE)
  have "log_bytes rs = layout 0 (log_phys 0 (take (Suc (length rs')) rs @ drop (Suc (length rs')) rs))"
    by (simp add: log_bytes_def)
  then have "prefix (layout 0 (log_phys 0 (take (Suc (length rs')) rs))) (log_bytes rs)"
    unfolding log_phys_append layout_append by simp
  with assms less show False unfolding complete_def by blast
qed

section \<open>Properties\<close>

definition new_log :: "bytes \<Rightarrow> outcome list \<Rightarrow> PosixWritableFile Writer" where
  "new_log name os = Writer_make (PosixWritableFile_make name \<lparr>fd_data = [], fd_offset = 0, fd_outcomes = os\<rparr>)"

definition log_reader :: "bytes \<Rightarrow> nat \<Rightarrow> bytes \<Rightarrow> PosixSequentialFile Reader" where
  "log_reader name interrupts data =
     Reader_make \<lparr>ps_fd = \<lparr>fd_data = data, fd_offset = 0, fd_outcomes = replicate interrupts Interrupted\<rparr>,
                  ps_filename = name\<rparr> True True 0"

lemma new_log_writes:
  assumes "AddRecords PosixWritable rs (new_log name os) = (s, w)"
  shows "prefix (pw_durable (w_dest w)) (log_bytes rs)" "Status_ok s \<Longrightarrow> pw_durable (w_dest w) = log_bytes rs"
proof -
  have "posix_log.writer_ok (new_log name os)"
    by (simp add: posix_log.writer_ok_def new_log_def Writer_make_def PosixWritableFile_make_def pw_ok_def
        pw_durable_def pw_contents_def)
  from posix_log.AddRecords_writes [OF this assms]
  show "prefix (pw_durable (w_dest w)) (log_bytes rs)" "Status_ok s \<Longrightarrow> pw_durable (w_dest w) = log_bytes rs"
    by (simp_all add: log_bytes_def new_log_def Writer_make_def PosixWritableFile_make_def pw_contents_def)
qed

lemma log_reader_reads:
  assumes "prefix D (log_bytes rs)"
  shows "\<exists>rs' r. ReadRecords PosixSequential (Suc (length rs)) (log_reader name n D) = Some (rs', r) \<and>
    complete 0 rs D rs' \<and> r_reports r = []"
proof -
  let ?f = "\<lparr>ps_fd = \<lparr>fd_data = D, fd_offset = 0, fd_outcomes = replicate n Interrupted\<rparr>, ps_filename = name\<rparr>"
  have f: "ps_ok ?f" "ps_remaining ?f = D" by (simp_all add: ps_ok_def ps_remaining_def)
  show ?thesis
    using posix_sequential.ReadRecords_start [OF f(1), of rs] assms unfolding log_reader_def f(2) by blast
qed

text \<open>
  C1. Writing records of any sizes to a new log and reading it back gives exactly these
  records and no corruption report, whatever partial writes and interrupts the operating system
  answers the writer with, as long as \<open>AddRecord\<close> reports success.
\<close>
theorem log_roundtrip:
  assumes "AddRecords PosixWritable rs (new_log name os) = (s, w)" and "Status_ok s"
  shows "\<exists>r. ReadRecords PosixSequential (Suc (length rs)) (log_reader name n (pw_durable (w_dest w))) = Some (rs, r) \<and>
    r_reports r = []"
proof -
  have d: "pw_durable (w_dest w) = log_bytes rs" by (rule new_log_writes(2) [OF assms])
  show ?thesis
    using log_reader_reads [of "log_bytes rs" rs name n] complete_all unfolding d by blast
qed

lemmas log_eval = AddRecord_def AddRecord_loop.simps switch_block_def EmitPhysicalRecord_def new_log_def
  Writer_make_def PosixWritableFile_make_def PosixWritable_def PosixWritableFile_Append_def
  PosixWritableFile_Flush_def FlushBuffer_def WriteUnbuffered_def WriteUnbuffered_loop.simps sys_write_def
  log_kBlockSize_def kHeaderSize_def kWritableFileBufferSize_def Let_def

text \<open>One record, written with a partial write and an interrupt.\<close>
theorem log_roundtrip_witness:
  "\<exists>w r. AddRecords PosixWritable [[1, 2]] (new_log [] [Done 3, Interrupted]) = (Status_OK, w) \<and>
     ReadRecords PosixSequential 2 (log_reader [] 1 (pw_durable (w_dest w))) = Some ([[1, 2]], r) \<and> r_reports r = []"
proof -
  obtain w where w: "AddRecords PosixWritable [[1, 2]] (new_log [] [Done 3, Interrupted]) = (Status_OK, w)"
    by (simp add: log_eval)
  from log_roundtrip [OF w, of 1] show ?thesis using w by (auto simp: numeral_2_eq_2)
qed

text \<open>
  C2. Whenever the writer stops (a write fails, or the machine dies and only a prefix
  \<open>D\<close> of what was written survives), reading \<open>D\<close> terminates and gives exactly the records
  whose last byte is in \<open>D\<close>, in order; the torn record at the end is dropped without a report.
\<close>
theorem log_crash:
  assumes "AddRecords PosixWritable rs (new_log name os) = (s, w)" and "prefix D (pw_durable (w_dest w))"
  shows "\<exists>rs' r. ReadRecords PosixSequential (Suc (length rs)) (log_reader name n D) = Some (rs', r) \<and>
    prefix rs' rs \<and> prefix (log_bytes rs') D \<and>
    (length rs' < length rs \<longrightarrow> \<not> prefix (log_bytes (take (Suc (length rs')) rs)) D) \<and> r_reports r = []"
proof -
  have "prefix D (log_bytes rs)" using new_log_writes(1) [OF assms(1)] assms(2) by (rule prefix_order.trans [rotated])
  from log_reader_reads [OF this, of name n] show ?thesis unfolding complete_def log_bytes_def by blast
qed

text \<open>A write that fails after three bytes: nothing of the record is read back.\<close>
theorem log_crash_witness:
  "\<exists>s w rs' r. AddRecords PosixWritable [[1, 2]] (new_log [] [Done 3, Failed False []]) = (s, w) \<and>
     ReadRecords PosixSequential 2 (log_reader [] 0 (pw_durable (w_dest w))) = Some (rs', r) \<and>
     prefix rs' [[1, 2]] \<and> r_reports r = []"
proof -
  obtain s w where w: "AddRecords PosixWritable [[1, 2]] (new_log [] [Done 3, Failed False []]) = (s, w)"
    by (metis surj_pair)
  from log_crash [OF w, of "pw_durable (w_dest w)" 0] show ?thesis using w by (auto simp: numeral_2_eq_2)
qed

end
