(* ===== verification/Comparator.thy ===== *)
theory Comparator
  imports Slice
begin

text \<open>
  \<^verbatim>\<open>include/leveldb/comparator.h\<close> and \<^verbatim>\<open>util/comparator.cc\<close>: the abstract class
  every ordered structure of the engine is parametrised with, its contract as
  two locales, and the built-in bytewise comparator.
\<close>

section \<open>The abstract class and its contract\<close>

record Comparator =
  Compare :: "bytes \<Rightarrow> bytes \<Rightarrow> int"
  FindShortestSeparator :: "bytes \<Rightarrow> bytes \<Rightarrow> bytes"
  FindShortSuccessor :: "bytes \<Rightarrow> bytes"

text \<open>
  A three-way comparison is a total preorder.  Keys that compare equal need
  not be equal: a user's comparator may ignore parts of a key.
\<close>

locale three_way =
  fixes cmp :: "'k \<Rightarrow> 'k \<Rightarrow> int"
  assumes cmp_flip: "cmp a b < 0 \<longleftrightarrow> 0 < cmp b a"
    and cmp_trans: "cmp a b \<le> 0 \<Longrightarrow> cmp b c \<le> 0 \<Longrightarrow> cmp a c \<le> 0"
begin

lemma cmp_refl [simp]: "cmp a a = 0"
  using cmp_flip [of a a] by linarith

lemma cmp_flip_gt: "0 < cmp a b \<longleftrightarrow> cmp b a < 0"
  using cmp_flip by blast

lemma cmp_flip_le: "cmp a b \<le> 0 \<longleftrightarrow> 0 \<le> cmp b a"
  using cmp_flip [of b a] by linarith

lemma cmp_flip_ge: "0 \<le> cmp a b \<longleftrightarrow> cmp b a \<le> 0"
  using cmp_flip [of a b] by linarith

lemma cmp_flip_eq: "cmp a b = 0 \<longleftrightarrow> cmp b a = 0"
  using cmp_flip_le [of a b] cmp_flip_ge [of a b] by linarith

lemma cmp_less_le_trans:
  assumes "cmp a b < 0" "cmp b c \<le> 0"
  shows "cmp a c < 0"
proof (rule ccontr)
  assume "\<not> cmp a c < 0"
  then have "cmp c a \<le> 0" by (simp add: not_less cmp_flip_ge)
  with assms(2) have "cmp b a \<le> 0" by (rule cmp_trans)
  with assms(1) show False by (simp add: cmp_flip)
qed

lemma cmp_le_less_trans:
  assumes "cmp a b \<le> 0" "cmp b c < 0"
  shows "cmp a c < 0"
proof (rule ccontr)
  assume "\<not> cmp a c < 0"
  then have "cmp c a \<le> 0" by (simp add: not_less cmp_flip_ge)
  then have "cmp c b \<le> 0" using assms(1) by (rule cmp_trans)
  with assms(2) show False by (simp add: cmp_flip)
qed

lemma cmp_less_trans: "cmp a b < 0 \<Longrightarrow> cmp b c < 0 \<Longrightarrow> cmp a c < 0"
  using cmp_less_le_trans [of a b c] by simp

lemma cmp_eq_left: "cmp a b = 0 \<Longrightarrow> cmp a c \<le> 0 \<longleftrightarrow> cmp b c \<le> 0"
  using cmp_trans [of a b c] cmp_trans [of b a c] cmp_flip_eq [of a b] by auto

end

text \<open>
  The whole contract of the class, with the two key-shortening methods.  The header says what the
  separator is for \<open>start < limit\<close>; the internal comparator also calls it for user keys
  that compare equal and needs that the result does not move above them (\<open>separator_same\<close>).
\<close>

locale key_comparator = three_way "Compare c" for c :: Comparator +
  assumes separator_ge: "Compare c start (FindShortestSeparator c start limit) \<le> 0"
    and separator_less: "Compare c start limit < 0 \<Longrightarrow>
          Compare c (FindShortestSeparator c start limit) limit < 0"
    and separator_same: "Compare c start limit = 0 \<Longrightarrow>
          Compare c (FindShortestSeparator c start limit) limit \<le> 0"
    and successor_ge: "Compare c key (FindShortSuccessor c key) \<le> 0"

section \<open>The bytewise comparator\<close>

text \<open>The length of the common prefix: the first loop of the separator.\<close>

fun diff_index :: "bytes \<Rightarrow> bytes \<Rightarrow> nat" where
  "diff_index (s # start) (l # limit) = (if s = l then Suc (diff_index start limit) else 0)"
| "diff_index _ _ = 0"

definition Bytewise_FindShortestSeparator :: "bytes \<Rightarrow> bytes \<Rightarrow> bytes" where
  "Bytewise_FindShortestSeparator start limit =
     (let min_length = min (length start) (length limit);
          i = diff_index start limit
      in if i \<ge> min_length then start
         else (let diff_byte = start ! i
               in if diff_byte < 0xff \<and> unat diff_byte + 1 < unat (limit ! i)
                  then take (i + 1) (start[i := diff_byte + 1])
                  else start))"

fun Bytewise_FindShortSuccessor :: "bytes \<Rightarrow> bytes" where
  "Bytewise_FindShortSuccessor [] = []"
| "Bytewise_FindShortSuccessor (byte # key) =
     (if byte \<noteq> 0xff then [byte + 1] else byte # Bytewise_FindShortSuccessor key)"

definition BytewiseComparator :: Comparator where
  "BytewiseComparator =
     \<lparr>Compare = Slice_compare, FindShortestSeparator = Bytewise_FindShortestSeparator,
      FindShortSuccessor = Bytewise_FindShortSuccessor\<rparr>"

lemma BytewiseComparator_simps [simp]:
  "Compare BytewiseComparator = Slice_compare"
  "FindShortestSeparator BytewiseComparator = Bytewise_FindShortestSeparator"
  "FindShortSuccessor BytewiseComparator = Bytewise_FindShortSuccessor"
  by (simp_all add: BytewiseComparator_def)

lemma separator_Cons_eq:
  "Bytewise_FindShortestSeparator (s # start) (s # limit) =
     s # Bytewise_FindShortestSeparator start limit"
  by (simp add: Bytewise_FindShortestSeparator_def Let_def)

lemma separator_Cons_neq:
  "s \<noteq> l \<Longrightarrow> Bytewise_FindShortestSeparator (s # start) (l # limit) =
     (if s < 0xff \<and> unat s + 1 < unat l then [s + 1] else s # start)"
  by (simp add: Bytewise_FindShortestSeparator_def)

lemma separator_Nil [simp]:
  "Bytewise_FindShortestSeparator [] limit = []"
  "Bytewise_FindShortestSeparator start [] = start"
  by (simp_all add: Bytewise_FindShortestSeparator_def)

lemma byte_inc:
  fixes s :: byte
  assumes "s \<noteq> 0xff"
  shows "unat (s + 1) = unat s + 1" "s < s + 1"
proof -
  have "unat s < 255"
    using assms unat_byte_less [of s] by (simp add: word_unat_eq_iff)
  then show "unat (s + 1) = unat s + 1"
    by (simp add: unat_word_ariths)
  then show "s < s + 1" by (simp add: word_less_nat_alt)
qed

lemma bytewise_separator_ge:
  "start = Bytewise_FindShortestSeparator start limit \<or>
   bytes_less start (Bytewise_FindShortestSeparator start limit)"
proof (induction start limit rule: diff_index.induct)
  case (1 s start l limit)
  show ?case
  proof (cases "s = l")
    case True
    with 1 show ?thesis by (auto simp: separator_Cons_eq)
  next
    case False
    then show ?thesis
      using byte_inc [of s] by (auto simp: separator_Cons_neq)
  qed
qed auto

lemma bytewise_separator_less:
  "bytes_less start limit \<Longrightarrow> bytes_less (Bytewise_FindShortestSeparator start limit) limit"
proof (induction start limit rule: diff_index.induct)
  case (1 s start l limit)
  show ?case
  proof (cases "s = l")
    case True
    with 1 show ?thesis by (auto simp: separator_Cons_eq)
  next
    case False
    with 1 show ?thesis
      using byte_inc(1) [of s] by (cases "s = 0xff") (auto simp: separator_Cons_neq word_less_nat_alt)
  qed
qed auto

lemma bytewise_successor_ge:
  "key = Bytewise_FindShortSuccessor key \<or> bytes_less key (Bytewise_FindShortSuccessor key)"
  by (induction key) (auto simp: byte_inc)

lemma bytewise_separator_length: "length (Bytewise_FindShortestSeparator start limit) \<le> length start"
  by (auto simp: Bytewise_FindShortestSeparator_def Let_def)

lemma separator_self [simp]: "Bytewise_FindShortestSeparator start start = start"
  by (induction start) (simp_all add: separator_Cons_eq)

interpretation bytewise: key_comparator BytewiseComparator
proof unfold_locales
  show "Compare BytewiseComparator a b < 0 \<longleftrightarrow> 0 < Compare BytewiseComparator b a" for a b
    by (simp add: Slice_compare_less Slice_compare_greater)
  show "Compare BytewiseComparator a b \<le> 0 \<Longrightarrow> Compare BytewiseComparator b c \<le> 0 \<Longrightarrow>
      Compare BytewiseComparator a c \<le> 0" for a b c
    unfolding BytewiseComparator_simps Slice_compare_le using bytes_less_trans by blast
  show "Compare BytewiseComparator start (FindShortestSeparator BytewiseComparator start limit) \<le> 0"
    for start limit
    using bytewise_separator_ge [of start limit] by (auto simp: Slice_compare_le)
  show "Compare BytewiseComparator start limit < 0 \<Longrightarrow>
      Compare BytewiseComparator (FindShortestSeparator BytewiseComparator start limit) limit < 0"
    for start limit
    using bytewise_separator_less [of start limit] by (simp add: Slice_compare_less)
  show "Compare BytewiseComparator start limit = 0 \<Longrightarrow>
      Compare BytewiseComparator (FindShortestSeparator BytewiseComparator start limit) limit \<le> 0"
    for start limit
    by (simp add: Slice_compare_le)
  show "Compare BytewiseComparator key (FindShortSuccessor BytewiseComparator key) \<le> 0" for key
    using bytewise_successor_ge [of key] by (auto simp: Slice_compare_le)
qed

section \<open>The bytewise order\<close>



end
