(* ===== verification/Bloom.thy ===== *)
theory Bloom
  imports Coding
begin

unbundle bit_operations_syntax

text \<open>
  \<^verbatim>\<open>util/hash.cc\<close>, \<^verbatim>\<open>util/bloom.cc\<close> and the contract of a filter policy
  (\<^verbatim>\<open>include/leveldb/filter_policy.h\<close>).
\<close>

section \<open>Hash\<close>

text \<open>Four bytes at a time; what is left over is handled by the fall-through switch.\<close>

definition hash_m :: u32 where
  "hash_m = 0xc6a4a793"

fun Hash_loop :: "u32 \<Rightarrow> bytes \<Rightarrow> u32 \<times> bytes" where
  "Hash_loop h (b0 # b1 # b2 # b3 # data) =
     (let w = DecodeFixed32 [b0, b1, b2, b3];
          h = h + w;
          h = h * hash_m;
          h = h XOR drop_bit 16 h
      in Hash_loop h data)"
| "Hash_loop h data = (h, data)"

definition Hash_tail :: "u32 \<Rightarrow> bytes \<Rightarrow> u32" where
  "Hash_tail h data =
     (let n = length data;
          h = (if n = 3 then h + push_bit 16 (ucast (data ! 2)) else h);
          h = (if n = 3 \<or> n = 2 then h + push_bit 8 (ucast (data ! 1)) else h)
      in if n = 3 \<or> n = 2 \<or> n = 1 then
           (let h = h + ucast (data ! 0);
                h = h * hash_m
            in h XOR drop_bit 24 h)
         else h)"

definition Hash :: "bytes \<Rightarrow> u32 \<Rightarrow> u32" where
  "Hash data seed =
     (let h = seed XOR (of_nat (length data) * hash_m);
          (h, data) = Hash_loop h data
      in Hash_tail h data)"

section \<open>The Bloom filter\<close>

definition BloomHash :: "bytes \<Rightarrow> u32" where
  "BloomHash key = Hash key 0xbc9f1d34"

text \<open>
  \<^verbatim>\<open>static_cast<size_t>(bits_per_key * 0.69)\<close>, then the two clamps.  The product
  of a double and a number below 44 is never within rounding distance of an
  integer, and from 44 on the second clamp applies, so the truncated product
  is the integer division.
\<close>

definition BloomFilterPolicy_k :: "nat \<Rightarrow> nat" where
  "BloomFilterPolicy_k bits_per_key =
     (let k = bits_per_key * 69 div 100;
          k = (if k < 1 then 1 else k)
      in if k > 30 then 30 else k)"

definition bloom_delta :: "u32 \<Rightarrow> u32" where
  "bloom_delta h = drop_bit 17 h OR push_bit 15 h"

definition set_bit_at :: "bytes \<Rightarrow> nat \<Rightarrow> bytes" where
  "set_bit_at array bitpos =
     array[bitpos div 8 := array ! (bitpos div 8) OR push_bit (bitpos mod 8) 1]"

definition test_bit_at :: "bytes \<Rightarrow> nat \<Rightarrow> bool" where
  "test_bit_at array bitpos \<longleftrightarrow> array ! (bitpos div 8) AND push_bit (bitpos mod 8) 1 \<noteq> 0"

fun set_probes :: "nat \<Rightarrow> nat \<Rightarrow> u32 \<Rightarrow> u32 \<Rightarrow> bytes \<Rightarrow> bytes" where
  "set_probes 0 bits h delta array = array"
| "set_probes (Suc j) bits h delta array =
     (let bitpos = unat h mod bits
      in set_probes j bits (h + delta) delta (set_bit_at array bitpos))"

fun test_probes :: "nat \<Rightarrow> nat \<Rightarrow> u32 \<Rightarrow> u32 \<Rightarrow> bytes \<Rightarrow> bool" where
  "test_probes 0 bits h delta array = True"
| "test_probes (Suc j) bits h delta array =
     (let bitpos = unat h mod bits
      in if \<not> test_bit_at array bitpos then False
         else test_probes j bits (h + delta) delta array)"

definition add_key :: "nat \<Rightarrow> nat \<Rightarrow> bytes \<Rightarrow> bytes \<Rightarrow> bytes" where
  "add_key k bits array key =
     (let h = BloomHash key in set_probes k bits h (bloom_delta h) array)"

definition BloomFilterPolicy_CreateFilter :: "nat \<Rightarrow> bytes list \<Rightarrow> bytes \<Rightarrow> bytes" where
  "BloomFilterPolicy_CreateFilter bits_per_key keys dst =
     (let bits = length keys * bits_per_key;
          bits = (if bits < 64 then 64 else bits);
          bytes = (bits + 7) div 8;
          bits = bytes * 8;
          k = BloomFilterPolicy_k bits_per_key
      in dst @ foldl (add_key k bits) (replicate bytes 0) keys @ [of_nat k])"

text \<open>A negative \<^verbatim>\<open>char\<close> becomes a huge \<^verbatim>\<open>size_t\<close>, above 30 like its unsigned value.\<close>

definition BloomFilterPolicy_KeyMayMatch :: "bytes \<Rightarrow> bytes \<Rightarrow> bool" where
  "BloomFilterPolicy_KeyMayMatch key bloom_filter =
     (let len = length bloom_filter in
      if len < 2 then False
      else
        (let array = bloom_filter;
             bits = (len - 1) * 8;
             k = unat (array ! (len - 1))
         in if k > 30 then True
            else (let h = BloomHash key in test_probes k bits h (bloom_delta h) array)))"

section \<open>Bits of the array\<close>

lemma length_set_bit_at [simp]: "length (set_bit_at array pos) = length array"
  by (simp add: set_bit_at_def)

lemma bit_mask_byte: "m < 8 \<Longrightarrow> (x :: byte) AND push_bit m 1 \<noteq> 0 \<longleftrightarrow> bit x m"
  by (metis and_exp_eq_0_iff_not_bit push_bit_of_1)

lemma test_bit_at_iff: "test_bit_at array pos \<longleftrightarrow> bit (array ! (pos div 8)) (pos mod 8)"
  unfolding test_bit_at_def by (rule bit_mask_byte) simp

lemma test_set_same:
  "pos < 8 * length array \<Longrightarrow> test_bit_at (set_bit_at array pos) pos"
  by (auto simp: test_bit_at_iff set_bit_at_def bit_simps)

lemma test_set_mono:
  "test_bit_at array pos \<Longrightarrow> test_bit_at (set_bit_at array pos') pos"
  by (cases "pos' div 8 = pos div 8"; cases "pos' div 8 < length array")
     (auto simp: test_bit_at_iff set_bit_at_def bit_simps list_update_beyond)

lemma length_set_probes [simp]: "length (set_probes j bits h delta array) = length array"
  by (induction j bits h delta array rule: set_probes.induct) (auto simp: Let_def)

lemma test_set_probes_mono:
  "test_bit_at array pos \<Longrightarrow> test_bit_at (set_probes j bits h delta array) pos"
  by (induction j bits h delta array rule: set_probes.induct) (auto simp: Let_def test_set_mono)

lemma test_probes_set_probes_mono:
  "test_probes j bits h delta array \<Longrightarrow>
     test_probes j bits h delta (set_probes j' bits' h' delta' array)"
  by (induction j bits h delta array rule: test_probes.induct)
     (auto simp: Let_def test_set_probes_mono split: if_splits)

lemma test_probes_set_probes:
  assumes "bits = 8 * length array" "0 < bits"
  shows "test_probes j bits h delta (set_probes j bits h delta array)"
  using assms
proof (induction j arbitrary: h array)
  case (Suc j)
  let ?pos = "unat h mod bits"
  have "test_bit_at (set_bit_at array ?pos) ?pos"
    using Suc.prems by (intro test_set_same) simp
  then show ?case
    using Suc.IH [of "set_bit_at array ?pos" "h + delta"] Suc.prems
    by (simp add: Let_def test_set_probes_mono)
qed simp

section \<open>A key that was added always matches\<close>

lemma length_add_keys [simp]: "length (foldl (add_key k bits) array keys) = length array"
  by (induction keys arbitrary: array) (auto simp: add_key_def Let_def)

lemma test_probes_add_keys_mono:
  "test_probes j bits h delta array \<Longrightarrow>
     test_probes j bits h delta (foldl (add_key k bits') array keys)"
  by (induction keys arbitrary: array)
     (auto simp: add_key_def Let_def test_probes_set_probes_mono)

lemma test_probes_add_keys:
  assumes "key \<in> set keys" "bits = 8 * length array" "0 < bits"
  shows "test_probes k bits (BloomHash key) (bloom_delta (BloomHash key))
           (foldl (add_key k bits) array keys)"
  using assms
proof (induction keys arbitrary: array)
  case (Cons x keys)
  let ?array = "add_key k bits array x"
  have len: "length ?array = length array" by (simp add: add_key_def Let_def)
  show ?case
  proof (cases "x = key")
    case True
    with Cons.prems have "test_probes k bits (BloomHash key) (bloom_delta (BloomHash key)) ?array"
      by (simp add: add_key_def Let_def test_probes_set_probes)
    then show ?thesis by (simp add: test_probes_add_keys_mono)
  next
    case False
    with Cons.prems len show ?thesis
      using Cons.IH [of ?array] by simp
  qed
qed simp

lemma test_bit_at_append:
  "pos < 8 * length array \<Longrightarrow> test_bit_at (array @ extra) pos = test_bit_at array pos"
  by (simp add: test_bit_at_iff nth_append less_mult_imp_div_less mult.commute)

lemma test_probes_append:
  "bits = 8 * length array \<Longrightarrow> 0 < bits \<Longrightarrow>
     test_probes j bits h delta (array @ extra) = test_probes j bits h delta array"
  by (induction j bits h delta array rule: test_probes.induct)
     (simp_all add: Let_def test_bit_at_append)

lemma BloomFilterPolicy_k_bounds: "1 \<le> BloomFilterPolicy_k b" "BloomFilterPolicy_k b \<le> 30"
  by (simp_all add: BloomFilterPolicy_k_def Let_def)

lemma unat_bloom_k: "unat (of_nat (BloomFilterPolicy_k b) :: byte) = BloomFilterPolicy_k b"
  using BloomFilterPolicy_k_bounds(2) [of b]
  by (simp add: unat_of_nat take_bit_nat_eq_self)

text \<open>The size computation, named so that the proofs need not repeat it.\<close>

definition bloom_bytes :: "nat \<Rightarrow> nat \<Rightarrow> nat" where
  "bloom_bytes bits_per_key n =
     (let bits = n * bits_per_key in ((if bits < 64 then 64 else bits) + 7) div 8)"

lemma bloom_bytes_ge: "8 \<le> bloom_bytes b n"
  by (auto simp: bloom_bytes_def Let_def)

lemma CreateFilter_eq:
  "BloomFilterPolicy_CreateFilter b keys dst =
     dst @ foldl (add_key (BloomFilterPolicy_k b) (8 * bloom_bytes b (length keys)))
             (replicate (bloom_bytes b (length keys)) 0) keys @ [of_nat (BloomFilterPolicy_k b)]"
  by (simp add: BloomFilterPolicy_CreateFilter_def bloom_bytes_def Let_def mult.commute)

lemma bloom_no_false_negative:
  assumes "key \<in> set keys"
  shows "BloomFilterPolicy_KeyMayMatch key (BloomFilterPolicy_CreateFilter b keys [])"
proof -
  let ?n = "bloom_bytes b (length keys)" and ?k = "BloomFilterPolicy_k b"
  let ?array = "foldl (add_key ?k (8 * ?n)) (replicate ?n 0) keys"
  have "test_probes ?k (8 * ?n) (BloomHash key) (bloom_delta (BloomHash key)) ?array"
    using assms bloom_bytes_ge [of b "length keys"] by (intro test_probes_add_keys) auto
  then have "test_probes ?k (8 * ?n) (BloomHash key) (bloom_delta (BloomHash key))
      (?array @ [of_nat ?k])"
    using bloom_bytes_ge [of b "length keys"] by (subst test_probes_append) auto
  then show ?thesis
    using bloom_bytes_ge [of b "length keys"] BloomFilterPolicy_k_bounds(2) [of b]
    by (simp add: BloomFilterPolicy_KeyMayMatch_def CreateFilter_eq Let_def unat_bloom_k
        nth_append mult.commute)
qed

section \<open>The contract of a filter policy\<close>

text \<open>
  \<^verbatim>\<open>include/leveldb/filter_policy.h\<close>: a filter is appended to the destination,
  and a match must be reported for every key that was in the list.
\<close>

locale filter_policy =
  fixes create :: "bytes list \<Rightarrow> bytes \<Rightarrow> bytes"
    and may_match :: "bytes \<Rightarrow> bytes \<Rightarrow> bool"
  assumes create_appends: "create keys dst = dst @ create keys []"
    and no_false_negative: "key \<in> set keys \<Longrightarrow> may_match key (create keys [])"
begin

lemma may_match_appended:
  "key \<in> set keys \<Longrightarrow> may_match key (drop (length dst) (create keys dst))"
  by (subst create_appends) (simp add: no_false_negative)

end

interpretation bloom: filter_policy "BloomFilterPolicy_CreateFilter bits_per_key"
  BloomFilterPolicy_KeyMayMatch for bits_per_key
  by unfold_locales (simp add: CreateFilter_eq, rule bloom_no_false_negative)

section \<open>Filters have no false negatives\<close>

text \<open>
  C12. For any number of bits per key, the filter that \<^verbatim>\<open>CreateFilter\<close> appends for a list
  of keys matches every one of them; and for an empty filter or one too short \<^verbatim>\<open>KeyMayMatch\<close> says no,
  while for one with a reserved number of probes it says yes.
\<close>

theorem bloom_sound:
  assumes "key \<in> set keys"
  shows "BloomFilterPolicy_KeyMayMatch key (drop (length dst) (BloomFilterPolicy_CreateFilter b keys dst)) \<and>
    take (length dst) (BloomFilterPolicy_CreateFilter b keys dst) = dst \<and>
    (length f < 2 \<longrightarrow> \<not> BloomFilterPolicy_KeyMayMatch key f) \<and>
    (2 \<le> length f \<and> last f > 30 \<longrightarrow> BloomFilterPolicy_KeyMayMatch key f)"
proof (intro conjI impI)
  show "take (length dst) (BloomFilterPolicy_CreateFilter b keys dst) = dst"
    by (simp add: CreateFilter_eq)
  show "BloomFilterPolicy_KeyMayMatch key f" if "2 \<le> length f \<and> last f > 30"
  proof -
    have "f \<noteq> []" using that by auto
    with that show ?thesis
      by (simp add: BloomFilterPolicy_KeyMayMatch_def Let_def word_less_nat_alt last_conv_nth)
  qed
qed (use bloom.may_match_appended [OF assms] in \<open>simp_all add: BloomFilterPolicy_KeyMayMatch_def\<close>)

theorem bloom_sound_witness:
  "BloomFilterPolicy_KeyMayMatch [1, 2] (drop 1 (BloomFilterPolicy_CreateFilter 10 [[3], [1, 2]] [7]))"
  using bloom_sound [of "[1, 2]" "[[3], [1, 2]]" "[7]" 10] by simp

end
