(* ===== verification/Dbformat.thy ===== *)
theory Dbformat
  imports Coding Logging Comparator Bloom
begin

unbundle bit_operations_syntax

text \<open>
  \<^verbatim>\<open>db/dbformat.h\<close> and \<^verbatim>\<open>db/dbformat.cc\<close>: internal keys (a user key, a sequence
  number and a type), their order, and the keys used for lookups.
\<close>

section \<open>Constants\<close>

definition kNumLevels :: nat where "kNumLevels = 7"
definition kL0_CompactionTrigger :: nat where "kL0_CompactionTrigger = 4"
definition kL0_SlowdownWritesTrigger :: nat where "kL0_SlowdownWritesTrigger = 8"
definition kL0_StopWritesTrigger :: nat where "kL0_StopWritesTrigger = 12"
definition kMaxMemCompactLevel :: nat where "kMaxMemCompactLevel = 2"
definition kReadBytesPeriod :: nat where "kReadBytesPeriod = 1048576"

section \<open>Internal keys\<close>

datatype ValueType = kTypeDeletion | kTypeValue

primrec ValueType_value :: "ValueType \<Rightarrow> byte" where
  "ValueType_value kTypeDeletion = 0x0"
| "ValueType_value kTypeValue = 0x1"

text \<open>\<^verbatim>\<open>static_cast<ValueType>(c)\<close> for the values the enumeration has.\<close>

definition ValueType_of :: "byte \<Rightarrow> ValueType" where
  "ValueType_of c = (if c = 0 then kTypeDeletion else kTypeValue)"

definition kValueTypeForSeek :: ValueType where
  "kValueTypeForSeek = kTypeValue"

type_synonym SequenceNumber = u64

definition kMaxSequenceNumber :: SequenceNumber where
  "kMaxSequenceNumber = push_bit 56 1 - 1"

record ParsedInternalKey =
  pk_user_key :: bytes
  pk_sequence :: SequenceNumber
  pk_type :: ValueType

definition PackSequenceAndType :: "u64 \<Rightarrow> ValueType \<Rightarrow> u64" where
  "PackSequenceAndType seq t = push_bit 8 seq OR ucast (ValueType_value t)"

definition InternalKeyEncodingLength :: "ParsedInternalKey \<Rightarrow> nat" where
  "InternalKeyEncodingLength key = length (pk_user_key key) + 8"

definition AppendInternalKey :: "bytes \<Rightarrow> ParsedInternalKey \<Rightarrow> bytes" where
  "AppendInternalKey result key =
     PutFixed64 (result @ pk_user_key key) (PackSequenceAndType (pk_sequence key) (pk_type key))"

definition ExtractUserKey :: "bytes \<Rightarrow> bytes" where
  "ExtractUserKey internal_key = take (length internal_key - 8) internal_key"

text \<open>\<^verbatim>\<open>DecodeFixed64(key.data() + key.size() - 8)\<close>.\<close>

definition ExtractTag :: "bytes \<Rightarrow> u64" where
  "ExtractTag internal_key = DecodeFixed64 (drop (length internal_key - 8) internal_key)"

definition ParseInternalKey :: "bytes \<Rightarrow> ParsedInternalKey option" where
  "ParseInternalKey internal_key =
     (let n = length internal_key in
      if n < 8 then None
      else
        (let num = DecodeFixed64 (drop (n - 8) internal_key);
             c = ucast (num AND 0xff) :: byte;
             result = \<lparr>pk_user_key = take (n - 8) internal_key, pk_sequence = drop_bit 8 num,
                       pk_type = ValueType_of c\<rparr>
         in if c \<le> ValueType_value kTypeValue then Some result else None))"

definition ParsedInternalKey_DebugString :: "ParsedInternalKey \<Rightarrow> bytes" where
  "ParsedInternalKey_DebugString key =
     lit [CHR 0x27] @ EscapeString (pk_user_key key) @ lit [CHR 0x27] @ lit '' @ '' @
     NumberToString (pk_sequence key) @ lit '' : '' @
     NumberToString (ucast (ValueType_value (pk_type key)))"

record InternalKey =
  ik_rep :: bytes

definition InternalKey_make :: "bytes \<Rightarrow> SequenceNumber \<Rightarrow> ValueType \<Rightarrow> InternalKey" where
  "InternalKey_make uk s t =
     \<lparr>ik_rep = AppendInternalKey [] \<lparr>pk_user_key = uk, pk_sequence = s, pk_type = t\<rparr>\<rparr>"

definition InternalKey_DecodeFrom :: "bytes \<Rightarrow> bool \<times> InternalKey" where
  "InternalKey_DecodeFrom s = (s \<noteq> [], \<lparr>ik_rep = s\<rparr>)"

definition InternalKey_Encode :: "InternalKey \<Rightarrow> bytes" where
  "InternalKey_Encode k = ik_rep k"

definition InternalKey_user_key :: "InternalKey \<Rightarrow> bytes" where
  "InternalKey_user_key k = ExtractUserKey (ik_rep k)"

definition InternalKey_SetFrom :: "ParsedInternalKey \<Rightarrow> InternalKey" where
  "InternalKey_SetFrom p = \<lparr>ik_rep = AppendInternalKey [] p\<rparr>"

definition InternalKey_Clear :: "InternalKey \<Rightarrow> InternalKey" where
  "InternalKey_Clear k = k\<lparr>ik_rep := []\<rparr>"

definition InternalKey_DebugString :: "InternalKey \<Rightarrow> bytes" where
  "InternalKey_DebugString k =
     (case ParseInternalKey (ik_rep k) of
        Some parsed \<Rightarrow> ParsedInternalKey_DebugString parsed
      | None \<Rightarrow> lit ''(bad)'' @ EscapeString (ik_rep k))"

section \<open>The order of internal keys\<close>

definition InternalKeyComparator_Compare :: "Comparator \<Rightarrow> bytes \<Rightarrow> bytes \<Rightarrow> int" where
  "InternalKeyComparator_Compare user_comparator akey bkey =
     (let r = Compare user_comparator (ExtractUserKey akey) (ExtractUserKey bkey)
      in if r = 0 then
           (let anum = ExtractTag akey; bnum = ExtractTag bkey
            in if anum > bnum then - 1 else if anum < bnum then 1 else r)
         else r)"

definition InternalKeyComparator_FindShortestSeparator ::
    "Comparator \<Rightarrow> bytes \<Rightarrow> bytes \<Rightarrow> bytes" where
  "InternalKeyComparator_FindShortestSeparator user_comparator start limit =
     (let user_start = ExtractUserKey start;
          user_limit = ExtractUserKey limit;
          tmp = FindShortestSeparator user_comparator user_start user_limit
      in if length tmp < length user_start \<and> Compare user_comparator user_start tmp < 0
         then PutFixed64 tmp (PackSequenceAndType kMaxSequenceNumber kValueTypeForSeek)
         else start)"

definition InternalKeyComparator_FindShortSuccessor :: "Comparator \<Rightarrow> bytes \<Rightarrow> bytes" where
  "InternalKeyComparator_FindShortSuccessor user_comparator key =
     (let ukey = ExtractUserKey key;
          tmp = FindShortSuccessor user_comparator ukey
      in if length tmp < length ukey \<and> Compare user_comparator ukey tmp < 0
         then PutFixed64 tmp (PackSequenceAndType kMaxSequenceNumber kValueTypeForSeek)
         else key)"

definition InternalKeyComparator :: "Comparator \<Rightarrow> Comparator" where
  "InternalKeyComparator c =
     \<lparr>Compare = InternalKeyComparator_Compare c,
      FindShortestSeparator = InternalKeyComparator_FindShortestSeparator c,
      FindShortSuccessor = InternalKeyComparator_FindShortSuccessor c\<rparr>"

section \<open>The filter policy on user keys\<close>

definition InternalFilterPolicy_CreateFilter ::
    "(bytes list \<Rightarrow> bytes \<Rightarrow> bytes) \<Rightarrow> bytes list \<Rightarrow> bytes \<Rightarrow> bytes" where
  "InternalFilterPolicy_CreateFilter create keys dst = create (map ExtractUserKey keys) dst"

definition InternalFilterPolicy_KeyMayMatch ::
    "(bytes \<Rightarrow> bytes \<Rightarrow> bool) \<Rightarrow> bytes \<Rightarrow> bytes \<Rightarrow> bool" where
  "InternalFilterPolicy_KeyMayMatch may_match key f = may_match (ExtractUserKey key) f"

section \<open>Lookup keys\<close>

text \<open>
  \<open>lk_start\<close> is the array from \<^verbatim>\<open>start_\<close> to \<^verbatim>\<open>end_\<close>, \<open>lk_kstart\<close> the offset of \<^verbatim>\<open>kstart_\<close> in it, and
  \<open>lk_on_heap\<close> tells whether the array was allocated (the destructor then frees it) or is the
  member \<^verbatim>\<open>space_\<close>.
\<close>

record LookupKey =
  lk_start :: bytes
  lk_kstart :: nat
  lk_on_heap :: bool

definition LookupKey_space :: nat where
  "LookupKey_space = 200"

definition LookupKey_make :: "bytes \<Rightarrow> SequenceNumber \<Rightarrow> LookupKey" where
  "LookupKey_make ukey s =
     (let usize = length ukey;
          needed = usize + 13;
          klength = EncodeVarint32 (of_nat usize + 8)
      in \<lparr>lk_start = klength @ ukey @ EncodeFixed64 (PackSequenceAndType s kValueTypeForSeek),
          lk_kstart = length klength,
          lk_on_heap = (\<not> needed \<le> LookupKey_space)\<rparr>)"

definition LookupKey_memtable_key :: "LookupKey \<Rightarrow> bytes" where
  "LookupKey_memtable_key k = lk_start k"

definition LookupKey_internal_key :: "LookupKey \<Rightarrow> bytes" where
  "LookupKey_internal_key k = drop (lk_kstart k) (lk_start k)"

definition LookupKey_user_key :: "LookupKey \<Rightarrow> bytes" where
  "LookupKey_user_key k = take (length (lk_start k) - lk_kstart k - 8) (drop (lk_kstart k) (lk_start k))"

section \<open>Packing\<close>

lemma kMaxSequenceNumber_eq: "kMaxSequenceNumber = 0xffffffffffffff"
  by (simp add: kMaxSequenceNumber_def)

lemma seq_ok_iff: "s \<le> kMaxSequenceNumber \<longleftrightarrow> unat s < 2 ^ 56"
  by (simp add: kMaxSequenceNumber_eq word_le_nat_alt) linarith

lemma seq_ok_iff_take_bit: "s \<le> kMaxSequenceNumber \<longleftrightarrow> take_bit 56 s = s"
  unfolding seq_ok_iff by (simp add: word_unat_eq_iff unsigned_take_bit_eq take_bit_nat_eq_self_iff)

lemma ValueType_value_bits: "bit (ValueType_value t) n \<longleftrightarrow> t = kTypeValue \<and> n = 0"
  by (cases t) (simp_all add: bit_1_iff)

lemma bit_ValueType_value: "bit (ucast (ValueType_value t) :: u64) n \<longleftrightarrow> t = kTypeValue \<and> n = 0"
  by (cases t) (simp_all add: bit_1_iff)

lemma seq_high_bits: "s \<le> kMaxSequenceNumber \<Longrightarrow> 56 \<le> n \<Longrightarrow> \<not> bit s n"
  unfolding seq_ok_iff_take_bit by (metis bit_take_bit_iff not_less)

lemma bit_u64_255: "bit (0xff :: u64) n \<longleftrightarrow> n < 8"
proof -
  have "(0xff :: u64) = mask 8" by (simp add: mask_eq_exp_minus_1)
  then show ?thesis using bit_mask_iff [where 'a = u64, of 8 n] by (simp only:) auto
qed

lemma Pack_low: "ucast (PackSequenceAndType s t AND 0xff) = ValueType_value t"
  by (rule bit_word_eqI)
     (auto simp: PackSequenceAndType_def bit_simps bit_u64_255 bit_ValueType_value ValueType_value_bits)

lemma Pack_high: "s \<le> kMaxSequenceNumber \<Longrightarrow> drop_bit 8 (PackSequenceAndType s t) = s"
  by (rule bit_word_eqI)
     (use seq_high_bits [of s] in
       \<open>auto simp: PackSequenceAndType_def bit_simps ValueType_value_bits not_less [symmetric]\<close>)

lemma unat_Pack:
  assumes "s \<le> kMaxSequenceNumber"
  shows "unat (PackSequenceAndType s t) = 256 * unat s + unat (ValueType_value t)"
proof -
  have "PackSequenceAndType s t = push_bit 8 s + ucast (ValueType_value t)"
    unfolding PackSequenceAndType_def
    by (rule disjunctive_add [symmetric]) (auto simp: bit_simps ValueType_value_bits)
  moreover have "unat (push_bit 8 s) = 256 * unat s"
    using assms unfolding seq_ok_iff
    by (simp add: push_bit_eq_mult unat_word_ariths)
  ultimately show ?thesis
    using assms unfolding seq_ok_iff by (cases t) (simp_all add: unat_word_ariths)
qed

lemma Pack_less_iff:
  assumes "s \<le> kMaxSequenceNumber" "s' \<le> kMaxSequenceNumber"
  shows "PackSequenceAndType s t < PackSequenceAndType s' t' \<longleftrightarrow>
    s < s' \<or> s = s' \<and> ValueType_value t < ValueType_value t'"
  using assms by (cases t; cases t')
    (simp_all add: word_less_nat_alt unat_Pack word_unat_eq_iff, linarith+)

lemma ValueType_of_value [simp]: "ValueType_of (ValueType_value t) = t"
  by (cases t) (simp_all add: ValueType_of_def)

lemma ValueType_value_le [simp]: "ValueType_value t \<le> 1"
  by (cases t) simp_all

section \<open>Encoding and parsing of internal keys\<close>

lemma AppendInternalKey_eq:
  "AppendInternalKey result k =
     result @ pk_user_key k @ EncodeFixed64 (PackSequenceAndType (pk_sequence k) (pk_type k))"
  by (simp add: AppendInternalKey_def PutFixed64_def)

lemma ExtractUserKey_append [simp]: "ExtractUserKey (uk @ EncodeFixed64 v) = uk"
  by (simp add: ExtractUserKey_def)

lemma ExtractTag_append [simp]: "ExtractTag (uk @ EncodeFixed64 v) = v"
  by (simp add: ExtractTag_def)

lemma ParseInternalKey_Append:
  assumes "pk_sequence k \<le> kMaxSequenceNumber"
  shows "ParseInternalKey (AppendInternalKey [] k) = Some k"
  using assms by (simp add: ParseInternalKey_def AppendInternalKey_eq Let_def Pack_low Pack_high)

lemma Parse_length: "ParseInternalKey s = Some k \<Longrightarrow> 8 \<le> length s"
  by (auto simp: ParseInternalKey_def Let_def split: if_splits)

lemma Parse_user_key: "ParseInternalKey s = Some k \<Longrightarrow> pk_user_key k = ExtractUserKey s"
  by (auto simp: ParseInternalKey_def ExtractUserKey_def Let_def split: if_splits)

lemma drop_bit_8_ok: "drop_bit 8 v \<le> kMaxSequenceNumber"
  unfolding seq_ok_iff unat_drop_bit using unat_u64_less [of v] by simp

lemma Pack_unpack:
  assumes "ucast (num AND 0xff) \<le> (1 :: byte)"
  shows "PackSequenceAndType (drop_bit 8 num) (ValueType_of (ucast (num AND 0xff))) = num"
proof (rule bit_word_eqI)
  fix n assume n: "n < LENGTH(64)"
  define c where "c = (ucast (num AND 0xff) :: byte)"
  have "c = 0 \<or> c = 1" using assms unfolding c_def [symmetric]
    by (metis One_nat_def le_SucE le_zero_eq unat_1 unat_eq_zero word_le_nat_alt word_unat_eq_iff)
  then have v: "ValueType_value (ValueType_of c) = c" by (auto simp: ValueType_of_def)
  have "bit c n \<longleftrightarrow> n < 8 \<and> bit num n"
    unfolding c_def by (auto simp: bit_ucast_iff bit_and_iff bit_u64_255 simp del: bit_numeral_word_iff)
  then have "bit (ucast (ValueType_value (ValueType_of c)) :: u64) n \<longleftrightarrow> n < 8 \<and> bit num n"
    using n unfolding v by (auto simp: bit_simps)
  then show "bit (PackSequenceAndType (drop_bit 8 num) (ValueType_of (ucast (num AND 0xff)))) n
      \<longleftrightarrow> bit num n"
    unfolding c_def [symmetric] PackSequenceAndType_def using n by (auto simp: bit_simps)
qed

lemma Append_ParseInternalKey:
  assumes "ParseInternalKey s = Some k"
  shows "AppendInternalKey [] k = s" "pk_sequence k \<le> kMaxSequenceNumber"
proof -
  define num where "num = DecodeFixed64 (drop (length s - 8) s)"
  from assms have n: "8 \<le> length s" and c: "ucast (num AND 0xff) \<le> (1 :: byte)"
    and k: "k = \<lparr>pk_user_key = take (length s - 8) s, pk_sequence = drop_bit 8 num,
                 pk_type = ValueType_of (ucast (num AND 0xff))\<rparr>"
    by (auto simp: ParseInternalKey_def Let_def num_def split: if_splits)
  have "EncodeFixed64 num = drop (length s - 8) s"
    unfolding num_def using n by (intro EncodeFixed64_DecodeFixed64) simp
  then show "AppendInternalKey [] k = s"
    using Pack_unpack [OF c] by (simp add: AppendInternalKey_eq k)
  show "pk_sequence k \<le> kMaxSequenceNumber" by (simp add: k drop_bit_8_ok)
qed

section \<open>The internal comparator keeps the contract\<close>

lemma InternalKeyComparator_simps [simp]:
  "Compare (InternalKeyComparator c) = InternalKeyComparator_Compare c"
  "FindShortestSeparator (InternalKeyComparator c) = InternalKeyComparator_FindShortestSeparator c"
  "FindShortSuccessor (InternalKeyComparator c) = InternalKeyComparator_FindShortSuccessor c"
  by (simp_all add: InternalKeyComparator_def)

context three_way
begin

text \<open>A comparison refined by a decreasing number is again a three-way comparison.\<close>

definition tagged :: "('a \<Rightarrow> 'k) \<Rightarrow> ('a \<Rightarrow> u64) \<Rightarrow> 'a \<Rightarrow> 'a \<Rightarrow> int" where
  "tagged key tag a b =
     (if cmp (key a) (key b) = 0
      then if tag a > tag b then - 1 else if tag a < tag b then 1 else 0
      else cmp (key a) (key b))"

lemma tagged_le:
  "tagged key tag a b \<le> 0 \<longleftrightarrow>
     cmp (key a) (key b) < 0 \<or> cmp (key a) (key b) = 0 \<and> tag b \<le> tag a"
  by (auto simp: tagged_def)

lemma three_way_tagged: "three_way (tagged key tag)"
proof unfold_locales
  show "tagged key tag a b < 0 \<longleftrightarrow> 0 < tagged key tag b a" for a b
    using cmp_flip [of "key a" "key b"] cmp_flip_eq [of "key a" "key b"]
    by (auto simp: tagged_def)
  show "tagged key tag a b \<le> 0 \<Longrightarrow> tagged key tag b c \<le> 0 \<Longrightarrow> tagged key tag a c \<le> 0" for a b c
    unfolding tagged_le
    using cmp_less_le_trans [of "key a" "key b" "key c"] cmp_le_less_trans [of "key a" "key b" "key c"]
      cmp_trans [of "key a" "key b" "key c"]
    by (metis le_less linorder_not_le order_trans)
qed

end

context key_comparator
begin

lemma internal_three_way: "three_way (InternalKeyComparator_Compare c)"
proof -
  have "InternalKeyComparator_Compare c = tagged ExtractUserKey ExtractTag"
    by (intro ext) (auto simp: InternalKeyComparator_Compare_def tagged_def Let_def)
  with three_way_tagged show ?thesis by simp
qed

lemma internal_compare_user:
  assumes "Compare c (ExtractUserKey a) (ExtractUserKey b) < 0"
  shows "InternalKeyComparator_Compare c a b < 0"
  using assms by (simp add: InternalKeyComparator_Compare_def)

lemma internal_compare_le_user:
  assumes "InternalKeyComparator_Compare c a b \<le> 0"
  shows "Compare c (ExtractUserKey a) (ExtractUserKey b) \<le> 0"
  using assms by (auto simp: InternalKeyComparator_Compare_def Let_def split: if_splits)

lemma internal_separator_cases:
  obtains (shorter) "InternalKeyComparator_FindShortestSeparator c start limit =
      FindShortestSeparator c (ExtractUserKey start) (ExtractUserKey limit) @
      EncodeFixed64 (PackSequenceAndType kMaxSequenceNumber kValueTypeForSeek)"
    "Compare c (ExtractUserKey start)
       (FindShortestSeparator c (ExtractUserKey start) (ExtractUserKey limit)) < 0"
  | (same) "InternalKeyComparator_FindShortestSeparator c start limit = start"
  unfolding InternalKeyComparator_FindShortestSeparator_def PutFixed64_def Let_def by meson

lemma internal_separator_ge:
  "InternalKeyComparator_Compare c start (InternalKeyComparator_FindShortestSeparator c start limit) \<le> 0"
proof (cases rule: internal_separator_cases [of start limit])
  case shorter
  then show ?thesis
    using internal_compare_user [of start "InternalKeyComparator_FindShortestSeparator c start limit"]
    by simp
next
  case same
  then show ?thesis using three_way.cmp_refl [OF internal_three_way] by simp
qed

lemma internal_separator_less:
  assumes less: "InternalKeyComparator_Compare c start limit < 0"
  shows "InternalKeyComparator_Compare c
     (InternalKeyComparator_FindShortestSeparator c start limit) limit < 0"
proof (cases rule: internal_separator_cases [of start limit])
  case shorter
  let ?us = "ExtractUserKey start" and ?ul = "ExtractUserKey limit"
  have "Compare c ?us ?ul \<noteq> 0"
    using separator_same [of ?us ?ul] shorter(2) cmp_less_le_trans [of ?us _ ?ul] by fastforce
  then have "Compare c ?us ?ul < 0"
    using internal_compare_le_user [of start limit] less by simp
  then have "Compare c (FindShortestSeparator c ?us ?ul) ?ul < 0" by (rule separator_less)
  then show ?thesis
    unfolding shorter(1) by (intro internal_compare_user) simp
next
  case same
  then show ?thesis using less by simp
qed

lemma internal_separator_same:
  assumes eq: "InternalKeyComparator_Compare c start limit = 0"
  shows "InternalKeyComparator_Compare c
     (InternalKeyComparator_FindShortestSeparator c start limit) limit \<le> 0"
proof (cases rule: internal_separator_cases [of start limit])
  case shorter
  let ?us = "ExtractUserKey start" and ?ul = "ExtractUserKey limit"
  have "Compare c ?us ?ul = 0"
    using eq by (auto simp: InternalKeyComparator_Compare_def Let_def split: if_splits)
  then have False
    using separator_same [of ?us ?ul] shorter(2) cmp_less_le_trans [of ?us _ ?ul] by fastforce
  then show ?thesis ..
next
  case same
  then show ?thesis using eq by simp
qed

lemma internal_successor_ge:
  "InternalKeyComparator_Compare c key (InternalKeyComparator_FindShortSuccessor c key) \<le> 0"
  using three_way.cmp_refl [OF internal_three_way]
  by (auto simp: InternalKeyComparator_FindShortSuccessor_def PutFixed64_def Let_def
      intro!: internal_compare_user less_imp_le)

lemma internal_key_comparator: "key_comparator (InternalKeyComparator c)"
  using internal_three_way internal_separator_ge internal_separator_less internal_separator_same
    internal_successor_ge
  by (intro key_comparator.intro key_comparator_axioms.intro) simp_all

end

text \<open>The comparator the engine runs with by default.\<close>

interpretation internal_bytewise: key_comparator "InternalKeyComparator BytewiseComparator"
  by (rule bytewise.internal_key_comparator)

text \<open>A policy on user keys gives one on internal keys.\<close>

context filter_policy
begin

lemma internal_filter_policy:
  "filter_policy (InternalFilterPolicy_CreateFilter create) (InternalFilterPolicy_KeyMayMatch may_match)"
proof unfold_locales
  show "InternalFilterPolicy_CreateFilter create keys dst =
      dst @ InternalFilterPolicy_CreateFilter create keys []" for keys dst
    unfolding InternalFilterPolicy_CreateFilter_def by (rule create_appends)
  show "key \<in> set keys \<Longrightarrow> InternalFilterPolicy_KeyMayMatch may_match key
      (InternalFilterPolicy_CreateFilter create keys [])" for key keys
    unfolding InternalFilterPolicy_CreateFilter_def InternalFilterPolicy_KeyMayMatch_def
    by (intro no_false_negative) simp
qed

end

interpretation internal_bloom: filter_policy
  "InternalFilterPolicy_CreateFilter (BloomFilterPolicy_CreateFilter bits_per_key)"
  "InternalFilterPolicy_KeyMayMatch BloomFilterPolicy_KeyMayMatch" for bits_per_key
  by (rule bloom.internal_filter_policy)

section \<open>Lookup keys\<close>

lemma LookupKey_internal_key_make:
  "LookupKey_internal_key (LookupKey_make uk s) =
     AppendInternalKey [] \<lparr>pk_user_key = uk, pk_sequence = s, pk_type = kValueTypeForSeek\<rparr>"
  by (simp add: LookupKey_internal_key_def LookupKey_make_def Let_def AppendInternalKey_eq)

lemma LookupKey_user_key_make: "LookupKey_user_key (LookupKey_make uk s) = uk"
  by (simp add: LookupKey_user_key_def LookupKey_make_def Let_def)

text \<open>The memtable key is the internal key as a length-prefixed string, if its length fits 32 bits.\<close>

lemma LookupKey_memtable_key_make:
  assumes "length uk + 8 < 2 ^ 32"
  shows "LookupKey_memtable_key (LookupKey_make uk s) =
     PutLengthPrefixedSlice [] (LookupKey_internal_key (LookupKey_make uk s))"
  by (simp add: LookupKey_memtable_key_def LookupKey_internal_key_def LookupKey_make_def Let_def
      PutLengthPrefixedSlice_def PutVarint32_def)

text \<open>The array is large enough: the estimate covers what is written into it.\<close>

lemma LookupKey_fits:
  "length (lk_start (LookupKey_make uk s)) \<le> length uk + 13"
  "\<not> lk_on_heap (LookupKey_make uk s) \<Longrightarrow> length (lk_start (LookupKey_make uk s)) \<le> LookupKey_space"
  using length_EncodeVarint32_bounds(2) [of "of_nat (length uk) + 8"]
  by (simp_all add: LookupKey_make_def Let_def)

section \<open>Properties\<close>

text \<open>
  Encoding and parsing of internal keys are inverse to each other: an
  encoded key with a sequence number below \<open>2 ^ 56\<close> parses to itself, and whatever
  \<open>ParseInternalKey\<close> accepts is the encoding of what it returns.
\<close>
theorem internal_key_roundtrip:
  "(pk_sequence k \<le> kMaxSequenceNumber \<longrightarrow> ParseInternalKey (AppendInternalKey [] k) = Some k) \<and>
   (ParseInternalKey s = Some k \<longrightarrow> AppendInternalKey [] k = s \<and> pk_sequence k \<le> kMaxSequenceNumber)"
  using ParseInternalKey_Append Append_ParseInternalKey by blast

theorem internal_key_roundtrip_witness:
  "ParseInternalKey [97, 1, 2, 0, 0, 0, 0, 0, 0] =
     Some \<lparr>pk_user_key = [97], pk_sequence = 2, pk_type = kTypeValue\<rparr> \<and>
   AppendInternalKey [] \<lparr>pk_user_key = [97], pk_sequence = 2, pk_type = kTypeValue\<rparr>
     = [97, 1, 2, 0, 0, 0, 0, 0, 0]"
proof -
  let ?k = "\<lparr>pk_user_key = [97], pk_sequence = 2, pk_type = kTypeValue\<rparr>"
  have e: "AppendInternalKey [] ?k = [97, 1, 2, 0, 0, 0, 0, 0, 0]"
    by (simp add: AppendInternalKey_eq PackSequenceAndType_def EncodeFixed64_def)
  moreover have "pk_sequence ?k \<le> kMaxSequenceNumber" by (simp add: kMaxSequenceNumber_eq)
  ultimately show ?thesis
    using internal_key_roundtrip [of ?k "[97, 1, 2, 0, 0, 0, 0, 0, 0]"] by simp
qed



text \<open>
  C11. On top of a user comparator that keeps its contract (here the bytewise one),
  the separator the internal comparator puts into an index block lies between its two keys, and
  the short successor is not below its key.
\<close>
theorem internal_separator:
  assumes "Compare (InternalKeyComparator BytewiseComparator) start limit < 0"
  shows "Compare (InternalKeyComparator BytewiseComparator) start
        (FindShortestSeparator (InternalKeyComparator BytewiseComparator) start limit) \<le> 0 \<and>
    Compare (InternalKeyComparator BytewiseComparator)
        (FindShortestSeparator (InternalKeyComparator BytewiseComparator) start limit) limit < 0 \<and>
    Compare (InternalKeyComparator BytewiseComparator) start
        (FindShortSuccessor (InternalKeyComparator BytewiseComparator) start) \<le> 0"
  using assms internal_bytewise.separator_ge internal_bytewise.separator_less
    internal_bytewise.successor_ge by blast

theorem internal_separator_witness:
  "Compare (InternalKeyComparator BytewiseComparator)
     (FindShortestSeparator (InternalKeyComparator BytewiseComparator)
        ([97, 98, 99] @ EncodeFixed64 5) ([97, 105] @ EncodeFixed64 5))
     ([97, 105] @ EncodeFixed64 5) < 0"
proof -
  have "Compare (InternalKeyComparator BytewiseComparator)
      ([97, 98, 99] @ EncodeFixed64 5) ([97, 105] @ EncodeFixed64 5) < 0"
    unfolding InternalKeyComparator_simps
    by (rule bytewise.internal_compare_user)
       (simp add: Slice_compare_less ExtractUserKey_append del: append_Cons)
  from internal_separator [OF this] show ?thesis by blast
qed

end
