(* ===== verification/Random_Gen.thy ===== *)
theory Random_Gen
  imports Prelude
begin

unbundle bit_operations_syntax

text \<open>
  \<^verbatim>\<open>util/random.h\<close>: the generator that chooses the heights of skip-list nodes.
  A method that changes the seed returns the result and the new state.
\<close>

record Random =
  seed :: u32

definition random_M :: u32 where
  "random_M = 2147483647"

definition Random_make :: "u32 \<Rightarrow> Random" where
  "Random_make s =
     (let sd = s AND 0x7fffffff
      in if sd = 0 \<or> sd = 2147483647 then \<lparr>seed = 1\<rparr> else \<lparr>seed = sd\<rparr>)"

definition Random_Next :: "Random \<Rightarrow> u32 \<times> Random" where
  "Random_Next r =
     (let product = (ucast (seed r) :: u64) * 16807;
          s = ucast (drop_bit 31 product + (product AND ucast random_M)) :: u32;
          s = (if s > random_M then s - random_M else s)
      in (s, r\<lparr>seed := s\<rparr>))"

definition Random_Uniform :: "Random \<Rightarrow> nat \<Rightarrow> nat \<times> Random" where
  "Random_Uniform r n = (let (x, r) = Random_Next r in (unat x mod n, r))"

definition Random_OneIn :: "Random \<Rightarrow> nat \<Rightarrow> bool \<times> Random" where
  "Random_OneIn r n = (let (x, r) = Random_Next r in (unat x mod n = 0, r))"

definition Random_Skewed :: "Random \<Rightarrow> nat \<Rightarrow> nat \<times> Random" where
  "Random_Skewed r max_log =
     (let (base, r) = Random_Uniform r (max_log + 1) in Random_Uniform r (2 ^ base))"

section \<open>The seed stays in the range of the generator\<close>

definition random_ok :: "Random \<Rightarrow> bool" where
  "random_ok r \<longleftrightarrow> 1 \<le> unat (seed r) \<and> unat (seed r) < 2147483647"

lemma unat_and_mask31: "unat (x AND 0x7fffffff :: u32) = unat x mod 2 ^ 31"
proof -
  have m: "x AND 0x7fffffff = take_bit 31 x"
    by (simp add: take_bit_eq_mask mask_eq_exp_minus_1)
  show ?thesis
    unfolding m unsigned_take_bit_eq by (rule take_bit_eq_mod)
qed

lemma random_ok_make: "random_ok (Random_make s)"
proof -
  have "unat (s AND 0x7fffffff) < 2147483648"
    unfolding unat_and_mask31 by simp
  then show ?thesis
    by (auto simp: Random_make_def random_ok_def Let_def word_unat_eq_iff)
qed

text \<open>
  The reduction by shifting computes the remainder modulo \<open>2 ^ 31 - 1\<close>, in a
  range where neither sum wraps around.
\<close>

lemma mod_mersenne:
  fixes p M :: nat
  assumes "M = 2 ^ 31 - 1" "p = x * 16807" "1 \<le> x" "x < M"
  shows "(let s = p div 2 ^ 31 + p mod 2 ^ 31 in (if s > M then s - M else s)) = p mod M"
    and "p mod M \<noteq> 0"
proof -
  let ?s = "p div 2 ^ 31 + p mod 2 ^ 31"
  have p: "p = M * (p div 2 ^ 31) + ?s"
    using assms(1) by (simp add: algebra_simps)
  have nd: "p mod M \<noteq> 0"
  proof
    assume "p mod M = 0"
    then have "M dvd x * 16807" using assms(2) by auto
    moreover have "coprime M 16807" using assms(1) by (simp add: coprime_iff_gcd_eq_1 gcd_non_0_nat)
    ultimately have "M dvd x" by (simp add: coprime_dvd_mult_left_iff)
    with assms(3,4) show False by (auto dest: dvd_imp_le)
  qed
  have "p div 2 ^ 31 < 16807"
    using assms by (simp add: div_less_iff_less_mult)
  moreover have "p mod 2 ^ 31 < 2 ^ 31" by simp
  ultimately have bound: "?s < 2 * M"
    using assms(1) by simp
  have s: "p mod M = ?s mod M"
    using p by (metis mod_mult_self4)
  then have "?s \<noteq> M" using nd by auto
  have "?s mod M = ?s - M" if "?s > M"
    using that bound by (simp only: le_mod_geq less_imp_le mod_less less_diff_conv2 mult_2)
  moreover have "?s mod M = ?s" if "\<not> ?s > M"
    using that \<open>?s \<noteq> M\<close> by (intro mod_less) linarith
  ultimately show "(let s = ?s in (if s > M then s - M else s)) = p mod M"
    unfolding Let_def s by presburger
  show "p mod M \<noteq> 0" by (rule nd)
qed

lemma unat_product: "unat ((ucast (s :: u32) :: u64) * 16807) = unat s * 16807"
proof -
  have "unat s * 16807 < 2 ^ 64"
    using unat_u32_less [of s] by simp
  then show ?thesis
    by (simp add: unat_word_ariths unsigned_ucast_eq take_bit_nat_eq_self)
qed

lemma Random_Next_mod:
  assumes "random_ok r"
  shows "unat (fst (Random_Next r)) = unat (seed r) * 16807 mod (2 ^ 31 - 1)"
    and "random_ok (snd (Random_Next r))"
    and "seed (snd (Random_Next r)) = fst (Random_Next r)"
proof -
  define p where "p = unat (seed r) * 16807"
  define q where "q = (ucast (seed r) :: u64) * 16807"
  have q: "unat q = p" unfolding p_def q_def by (rule unat_product)
  have pb: "p < 2147483647 * 16807" using assms unfolding p_def random_ok_def by simp
  have and31: "unat (q AND ucast random_M) = p mod 2 ^ 31"
  proof -
    have m: "q AND ucast random_M = take_bit 31 q"
      by (simp add: take_bit_eq_mask mask_eq_exp_minus_1 random_M_def)
    show ?thesis unfolding m unsigned_take_bit_eq q by (rule take_bit_eq_mod)
  qed
  have d31: "unat (drop_bit 31 q) = p div 2 ^ 31"
    using unat_drop_bit [of 31 q] q by simp
  let ?t = "p div 2 ^ 31 + p mod 2 ^ 31"
  have "p div 2 ^ 31 < 16807" using pb by (simp add: div_less_iff_less_mult)
  moreover have "p mod 2 ^ 31 < 2 ^ 31" by simp
  ultimately have tb: "?t < 2 ^ 32" by simp
  then have u64: "unat (drop_bit 31 q + (q AND ucast random_M)) = ?t"
    by (simp add: unat_word_ariths and31 d31)
  define s where "s = (ucast (drop_bit 31 q + (q AND ucast random_M)) :: u32)"
  have s: "unat s = ?t"
    unfolding s_def using tb u64 by (simp add: unsigned_ucast_eq take_bit_nat_eq_self)
  have "unat (if s > random_M then s - random_M else s)
      = (let s = ?t in if s > 2147483647 then s - 2147483647 else s)"
    using s by (simp add: random_M_def word_less_nat_alt unat_sub_if' Let_def)
  also have "\<dots> = p mod 2147483647"
    using mod_mersenne(1) [of 2147483647 p "unat (seed r)"] assms
    unfolding p_def random_ok_def by simp
  finally have res: "unat (fst (Random_Next r)) = p mod 2147483647"
    unfolding Random_Next_def q_def [symmetric] s_def [symmetric] Let_def by simp
  then show "unat (fst (Random_Next r)) = unat (seed r) * 16807 mod (2 ^ 31 - 1)"
    unfolding p_def by simp
  show sd: "seed (snd (Random_Next r)) = fst (Random_Next r)"
    by (simp add: Random_Next_def Let_def)
  have "p mod 2147483647 \<noteq> 0"
    using mod_mersenne(2) [of 2147483647 p "unat (seed r)"] assms
    unfolding p_def random_ok_def by simp
  then show "random_ok (snd (Random_Next r))"
    unfolding random_ok_def sd res by simp
qed

lemma random_ok_Uniform: "random_ok r \<Longrightarrow> random_ok (snd (Random_Uniform r n))"
  using Random_Next_mod(2) [of r] by (auto simp: Random_Uniform_def split: prod.split)

lemma random_ok_OneIn: "random_ok r \<Longrightarrow> random_ok (snd (Random_OneIn r n))"
  using Random_Next_mod(2) [of r] by (auto simp: Random_OneIn_def split: prod.split)

lemma Random_Skewed_less: "fst (Random_Skewed r max_log) < 2 ^ max_log"
proof -
  obtain base r' where b: "Random_Uniform r (max_log + 1) = (base, r')"
    by (metis surj_pair)
  then have "base \<le> max_log"
    by (auto simp: Random_Uniform_def split: prod.splits)
  moreover have "fst (Random_Uniform r' (2 ^ base)) < 2 ^ base"
    by (auto simp: Random_Uniform_def split: prod.splits)
  ultimately show ?thesis
    unfolding Random_Skewed_def b
    by simp (meson less_le_trans one_le_numeral power_increasing)
qed

section \<open>The generator\<close>

text \<open>
  From any seed the generator starts in the range 1 to \<open>2 ^ 31 - 2\<close>, and every
  step multiplies the state by 16807 modulo \<open>2 ^ 31 - 1\<close>, although it is computed without a division
  in 64-bit arithmetic; the state never becomes 0, so the sequence never sticks.
\<close>

theorem lehmer_generator:
  assumes "random_ok r"
  shows "random_ok (Random_make s) \<and>
    unat (fst (Random_Next r)) = unat (seed r) * 16807 mod (2 ^ 31 - 1) \<and>
    seed (snd (Random_Next r)) = fst (Random_Next r) \<and> random_ok (snd (Random_Next r)) \<and>
    fst (Random_Skewed r m) < 2 ^ m"
  using Random_Next_mod [OF assms] random_ok_make Random_Skewed_less by simp

theorem lehmer_generator_witness:
  "random_ok (Random_make 301) \<and> unat (fst (Random_Next \<lparr>seed = 1\<rparr>)) = 16807"
  using lehmer_generator [of "\<lparr>seed = 1\<rparr>" 301 0] by (simp add: random_ok_def)

end
