(* ===== verification/Arena.thy ===== *)
theory Arena
  imports Prelude
begin

unbundle bit_operations_syntax

text \<open>
  \<^verbatim>\<open>util/arena.h\<close> and \<^verbatim>\<open>util/arena.cc\<close>: the allocator behind the memtable.

  Addresses and sizes are natural numbers, which is exact as long as every block lies in the
  address space (no sum of a pointer and a size wraps around inside a live block).  The C++ heap
  is the list of its live \<open>new char[n]\<close> blocks; where the runtime places a block is the parameter
  \<open>place\<close>, of which \<open>allocator_ok\<close> states what \<^verbatim>\<open>operator new[]\<close> documents: the block is aligned
  for every fundamental type and overlaps no live block.
\<close>

type_synonym addr = nat
type_synonym region = "addr \<times> nat"
type_synonym heap = "region list"
type_synonym placement = "heap \<Rightarrow> nat \<Rightarrow> addr"

definition new_char :: "placement \<Rightarrow> nat \<Rightarrow> heap \<Rightarrow> addr \<times> heap" where
  "new_char place n h = (let p = place h n in (p, (p, n) # h))"

definition delete_char :: "addr \<Rightarrow> heap \<Rightarrow> heap" where
  "delete_char p h = filter (\<lambda>b. fst b \<noteq> p) h"

record Arena =
  alloc_ptr :: addr
  alloc_bytes_remaining :: nat
  blocks :: "addr list"
  memory_usage :: nat

definition kBlockSize :: nat where
  "kBlockSize = 4096"

definition sizeof_char_ptr :: nat where
  "sizeof_char_ptr = 8"

definition Arena_make :: Arena where
  "Arena_make = \<lparr>alloc_ptr = 0, alloc_bytes_remaining = 0, blocks = [], memory_usage = 0\<rparr>"

definition Arena_destroy :: "Arena \<Rightarrow> heap \<Rightarrow> heap" where
  "Arena_destroy a h = fold delete_char (blocks a) h"

definition MemoryUsage :: "Arena \<Rightarrow> nat" where
  "MemoryUsage a = memory_usage a"

definition AllocateNewBlock :: "placement \<Rightarrow> nat \<Rightarrow> Arena \<times> heap \<Rightarrow> addr \<times> Arena \<times> heap" where
  "AllocateNewBlock place block_bytes s =
     (let (a, h) = s;
          (result, h) = new_char place block_bytes h
      in (result,
          a\<lparr>blocks := blocks a @ [result],
            memory_usage := memory_usage a + (block_bytes + sizeof_char_ptr)\<rparr>, h))"

definition AllocateFallback :: "placement \<Rightarrow> nat \<Rightarrow> Arena \<times> heap \<Rightarrow> addr \<times> Arena \<times> heap" where
  "AllocateFallback place bytes s =
     (if bytes > kBlockSize div 4 then AllocateNewBlock place bytes s
      else
        let (p, a, h) = AllocateNewBlock place kBlockSize s;
            a = a\<lparr>alloc_ptr := p, alloc_bytes_remaining := kBlockSize\<rparr>;
            result = alloc_ptr a;
            a = a\<lparr>alloc_ptr := alloc_ptr a + bytes,
                  alloc_bytes_remaining := alloc_bytes_remaining a - bytes\<rparr>
        in (result, a, h))"

definition Allocate :: "placement \<Rightarrow> nat \<Rightarrow> Arena \<times> heap \<Rightarrow> addr \<times> Arena \<times> heap" where
  "Allocate place bytes s =
     (let (a, h) = s
      in if bytes \<le> alloc_bytes_remaining a
         then (alloc_ptr a,
               a\<lparr>alloc_ptr := alloc_ptr a + bytes,
                 alloc_bytes_remaining := alloc_bytes_remaining a - bytes\<rparr>, h)
         else AllocateFallback place bytes s)"

definition arena_align :: nat where
  "arena_align = (if sizeof_char_ptr > 8 then sizeof_char_ptr else 8)"

definition AllocateAligned :: "placement \<Rightarrow> nat \<Rightarrow> Arena \<times> heap \<Rightarrow> addr \<times> Arena \<times> heap" where
  "AllocateAligned place bytes s =
     (let (a, h) = s;
          current_mod = alloc_ptr a AND (arena_align - 1);
          slop = (if current_mod = 0 then 0 else arena_align - current_mod);
          needed = bytes + slop
      in if needed \<le> alloc_bytes_remaining a
         then (alloc_ptr a + slop,
               a\<lparr>alloc_ptr := alloc_ptr a + needed,
                 alloc_bytes_remaining := alloc_bytes_remaining a - needed\<rparr>, h)
         else AllocateFallback place bytes s)"

section \<open>What the runtime's allocator promises\<close>

definition separate :: "region \<Rightarrow> region \<Rightarrow> bool" where
  "separate r s \<longleftrightarrow> fst r + snd r \<le> fst s \<or> fst s + snd s \<le> fst r"

definition inside :: "region \<Rightarrow> region \<Rightarrow> bool" where
  "inside r b \<longleftrightarrow> fst b \<le> fst r \<and> fst r + snd r \<le> fst b + snd b"

definition allocator_ok :: "placement \<Rightarrow> bool" where
  "allocator_ok place \<longleftrightarrow>
     (\<forall>h n. place h n mod 8 = 0 \<and> (\<forall>b\<in>set h. separate (place h n, n) b \<and> place h n \<noteq> fst b))"

text \<open>A bump allocator, the placement at which the hypotheses below are witnessed.\<close>

definition bump :: placement where
  "bump h n = 8 * (fold (\<lambda>b m. max m (fst b + snd b + 8)) h 8 div 8)"

lemma fold_max_ge:
  "m \<le> fold (\<lambda>b m. max m (f b)) h m" "b \<in> set h \<Longrightarrow> f b \<le> fold (\<lambda>b m. max m (f b)) h (m :: nat)"
proof -
  show ge: "m \<le> fold (\<lambda>b m. max m (f b)) h m" for m h
    by (induction h arbitrary: m) (auto intro: order_trans [OF max.cobounded1])
  show "b \<in> set h \<Longrightarrow> f b \<le> fold (\<lambda>b m. max m (f b)) h m"
  proof (induction h arbitrary: m)
    case (Cons a h)
    have "f a \<le> fold (\<lambda>b m. max m (f b)) h (max m (f a))"
      by (rule order_trans [OF max.cobounded2 ge])
    with Cons show ?case by auto
  qed simp
qed

lemma allocator_ok_bump: "allocator_ok bump"
proof -
  have "fst b + snd b < bump h n" if "b \<in> set h" for b h n
    using fold_max_ge(2) [OF that, of "\<lambda>b. fst b + snd b + 8" 8] unfolding bump_def by linarith
  then show ?thesis
    unfolding allocator_ok_def separate_def by (fastforce simp: bump_def)
qed

section \<open>The regions handed out\<close>

text \<open>
  A request and the run of a sequence of requests.  The run returns, newest first, the region
  given to each request.
\<close>

datatype request = Plain nat | Aligned nat

primrec request_size :: "request \<Rightarrow> nat" where
  "request_size (Plain n) = n"
| "request_size (Aligned n) = n"

primrec serve :: "placement \<Rightarrow> request \<Rightarrow> Arena \<times> heap \<Rightarrow> addr \<times> Arena \<times> heap" where
  "serve place (Plain n) s = Allocate place n s"
| "serve place (Aligned n) s = AllocateAligned place n s"

primrec serve_all :: "placement \<Rightarrow> request list \<Rightarrow> Arena \<times> heap \<Rightarrow> region list \<times> Arena \<times> heap" where
  "serve_all place [] s = ([], s)"
| "serve_all place (r # rs) s =
     (let (p, s) = serve place r s; (out, s) = serve_all place rs s
      in ((p, request_size r) # out, s))"

text \<open>
  The invariant: \<open>given\<close> are the regions handed out so far.  The blocks of the arena are live, the
  free tail of the current block lies in a block of the arena and meets no given region, and every
  given region lies in a block of the arena.
\<close>

definition arena_blocks :: "Arena \<Rightarrow> heap \<Rightarrow> region set" where
  "arena_blocks a h = {b \<in> set h. fst b \<in> set (blocks a)}"

definition arena_inv :: "region list \<Rightarrow> Arena \<Rightarrow> heap \<Rightarrow> bool" where
  "arena_inv given a h \<longleftrightarrow>
     (alloc_bytes_remaining a > 0 \<longrightarrow>
        (\<exists>b\<in>arena_blocks a h. inside (alloc_ptr a, alloc_bytes_remaining a) b)) \<and>
     (\<forall>g\<in>set given. (\<exists>b\<in>arena_blocks a h. inside g b) \<and>
        (alloc_bytes_remaining a > 0 \<longrightarrow> separate g (alloc_ptr a, alloc_bytes_remaining a))) \<and>
     sorted_wrt separate given"

lemma arena_inv_make: "arena_inv [] Arena_make h"
  by (simp add: arena_inv_def Arena_make_def)

lemma inside_refl: "inside r r"
  by (simp add: inside_def)

lemma separate_inside: "separate c b \<Longrightarrow> inside g b \<Longrightarrow> separate c g"
  by (auto simp: separate_def inside_def)

lemma separate_sym: "separate c b \<Longrightarrow> separate b c"
  by (auto simp: separate_def)

lemma inside_trans: "inside a b \<Longrightarrow> inside b c \<Longrightarrow> inside a c"
  by (auto simp: inside_def)

text \<open>Carving a region out of the free tail of the current block.\<close>

lemma arena_inv_carve:
  assumes inv: "arena_inv given a h"
    and n: "0 < n" "skip + n \<le> alloc_bytes_remaining a"
    and a': "a' = a\<lparr>alloc_ptr := alloc_ptr a + (skip + n),
                     alloc_bytes_remaining := alloc_bytes_remaining a - (skip + n)\<rparr>"
  shows "arena_inv ((alloc_ptr a + skip, n) # given) a' h"
proof -
  let ?tail = "(alloc_ptr a, alloc_bytes_remaining a)" and ?r = "(alloc_ptr a + skip, n)"
  let ?tail' = "(alloc_ptr a', alloc_bytes_remaining a')"
  have r: "inside ?r ?tail" "inside ?tail' ?tail" "separate ?r ?tail'"
    using n by (auto simp: inside_def separate_def a')
  have b: "arena_blocks a' h = arena_blocks a h" by (simp add: arena_blocks_def a')
  have pos: "alloc_bytes_remaining a > 0" using n by simp
  show ?thesis
    unfolding arena_inv_def b
    using inv pos r unfolding arena_inv_def
    by (auto intro: inside_trans separate_inside separate_sym)
qed

lemma arena_blocks_new:
  assumes "AllocateNewBlock place n (a, h) = (p, a', h')"
  shows "h' = (p, n) # h" "p = place h n" "alloc_ptr a' = alloc_ptr a"
    "alloc_bytes_remaining a' = alloc_bytes_remaining a" "blocks a' = blocks a @ [p]"
    "memory_usage a' = memory_usage a + (n + 8)"
  using assms
  by (auto simp: AllocateNewBlock_def new_char_def Let_def sizeof_char_ptr_def)

text \<open>A fresh block keeps the invariant, and meets nothing handed out before.\<close>

lemma arena_inv_new_block:
  assumes ok: "allocator_ok place" and inv: "arena_inv given a h"
    and new: "AllocateNewBlock place n (a, h) = (p, a', h')"
  shows "arena_inv given a' h'" "(p, n) \<in> arena_blocks a' h'" "p mod 8 = 0"
    "\<forall>g\<in>set given. separate (p, n) g"
    "alloc_bytes_remaining a > 0 \<Longrightarrow> separate (p, n) (alloc_ptr a, alloc_bytes_remaining a)"
proof -
  note nb = arena_blocks_new [OF new]
  have sep: "separate (p, n) b" if "b \<in> arena_blocks a h" for b
    using that ok nb(2) by (auto simp: allocator_ok_def arena_blocks_def)
  have sub: "arena_blocks a h \<subseteq> arena_blocks a' h'"
    using nb by (auto simp: arena_blocks_def)
  show "arena_inv given a' h'"
    using inv sub unfolding arena_inv_def nb(3,4) by blast
  show "(p, n) \<in> arena_blocks a' h'" using nb by (simp add: arena_blocks_def)
  show "p mod 8 = 0" using ok nb(2) by (simp add: allocator_ok_def)
  show "\<forall>g\<in>set given. separate (p, n) g"
    using inv sep unfolding arena_inv_def by (meson separate_inside)
  show "alloc_bytes_remaining a > 0 \<Longrightarrow> separate (p, n) (alloc_ptr a, alloc_bytes_remaining a)"
    using inv sep unfolding arena_inv_def by (meson separate_inside)
qed

lemma arena_inv_fallback:
  assumes ok: "allocator_ok place" and inv: "arena_inv given a h" and n: "0 < n"
    and f: "AllocateFallback place n (a, h) = (p, a', h')"
  shows "arena_inv ((p, n) # given) a' h' \<and> p mod 8 = 0"
proof (cases "n > kBlockSize div 4")
  case True
  with f have new: "AllocateNewBlock place n (a, h) = (p, a', h')"
    by (simp add: AllocateFallback_def)
  note nb = arena_inv_new_block [OF ok inv new] and fields = arena_blocks_new [OF new]
  show ?thesis
    using nb(1-4) nb(5) inside_refl fields(3,4) unfolding arena_inv_def by auto
next
  case False
  obtain q a1 h1 where new: "AllocateNewBlock place kBlockSize (a, h) = (q, a1, h1)"
    by (metis prod_cases3)
  note nb = arena_inv_new_block [OF ok inv new]
  let ?a2 = "a1\<lparr>alloc_ptr := q, alloc_bytes_remaining := kBlockSize\<rparr>"
  have "arena_inv given ?a2 h1"
    using nb(1,2,4) inside_refl [of "(q, kBlockSize)"] unfolding arena_inv_def arena_blocks_def
    by (auto intro: separate_sym)
  moreover have "n \<le> kBlockSize" using False by (simp add: kBlockSize_def)
  ultimately have "arena_inv ((q, n) # given)
      (a1\<lparr>alloc_ptr := q + n, alloc_bytes_remaining := kBlockSize - n\<rparr>) h1"
    using arena_inv_carve [of given ?a2 h1 n 0] n by simp
  with False f new nb(3) show ?thesis
    by (auto simp: AllocateFallback_def)
qed

lemma and_7_mod: "(x :: nat) AND 7 = x mod 8"
proof -
  have "(7 :: nat) = mask 3" by (simp add: mask_eq_exp_minus_1)
  then have "x AND 7 = take_bit 3 x" by (simp only: take_bit_eq_mask)
  then show ?thesis by (simp add: take_bit_eq_mod)
qed

lemma arena_inv_serve:
  assumes ok: "allocator_ok place" and inv: "arena_inv given a h" and n: "0 < request_size r"
    and s: "serve place r (a, h) = (p, a', h')"
  shows "arena_inv ((p, request_size r) # given) a' h' \<and> (\<forall>m. r = Aligned m \<longrightarrow> p mod 8 = 0)"
proof (cases r)
  case (Plain m)
  show ?thesis
  proof (cases "m \<le> alloc_bytes_remaining a")
    case True
    then show ?thesis
      using arena_inv_carve [OF inv, of m 0] s n Plain by (auto simp: Allocate_def)
  next
    case False
    then show ?thesis
      using arena_inv_fallback [OF ok inv] s n Plain by (auto simp: Allocate_def)
  qed
next
  case (Aligned m)
  define slop where "slop = (if alloc_ptr a mod 8 = 0 then 0 else 8 - alloc_ptr a mod 8)"
  have al: "AllocateAligned place m (a, h) =
      (if m + slop \<le> alloc_bytes_remaining a
       then (alloc_ptr a + slop, a\<lparr>alloc_ptr := alloc_ptr a + (m + slop),
               alloc_bytes_remaining := alloc_bytes_remaining a - (m + slop)\<rparr>, h)
       else AllocateFallback place m (a, h))"
    by (simp add: AllocateAligned_def arena_align_def sizeof_char_ptr_def and_7_mod slop_def Let_def)
  have "(alloc_ptr a + slop) mod 8 = 0" unfolding slop_def by presburger
  then show ?thesis
    using arena_inv_carve [OF inv, of m slop] arena_inv_fallback [OF ok inv, of m] s n Aligned al
    by (auto simp: add.commute split: if_splits)
qed

lemma arena_inv_serve_all:
  assumes "allocator_ok place"
  shows "arena_inv given a h \<Longrightarrow> \<forall>r\<in>set rs. 0 < request_size r \<Longrightarrow>
    serve_all place rs (a, h) = (out, a', h') \<Longrightarrow>
    arena_inv (rev out @ given) a' h' \<and> map snd out = map request_size rs \<and>
    (\<forall>i m. i < length rs \<longrightarrow> rs ! i = Aligned m \<longrightarrow> fst (out ! i) mod 8 = 0)"
proof (induction rs arbitrary: given a h out)
  case Nil
  then show ?case by simp
next
  case (Cons r rs)
  obtain p a1 h1 where s: "serve place r (a, h) = (p, a1, h1)" by (metis prod_cases3)
  obtain out' where rest: "serve_all place rs (a1, h1) = (out', a', h')"
      and out: "out = (p, request_size r) # out'"
    using Cons.prems(3) s by (auto split: prod.splits)
  have step: "arena_inv ((p, request_size r) # given) a1 h1"
      "\<And>m. r = Aligned m \<Longrightarrow> p mod 8 = 0"
    using arena_inv_serve [OF assms Cons.prems(1) _ s] Cons.prems(2) by auto
  show ?case
    using Cons.IH [OF step(1) _ rest] Cons.prems(2) step(2) out
    by (auto simp: nth_Cons split: nat.splits)
qed

section \<open>The accounting of memory\<close>

definition arena_usage_ok :: "Arena \<Rightarrow> heap \<Rightarrow> heap \<Rightarrow> bool" where
  "arena_usage_ok a h0 h \<longleftrightarrow>
     (\<exists>own. h = own @ h0 \<and> rev (map fst own) = blocks a \<and>
        memory_usage a = (\<Sum>b\<leftarrow>own. snd b + 8) \<and>
        (\<forall>b\<in>set own. \<forall>c\<in>set h0. fst b \<noteq> fst c))"

lemma usage_new_block:
  assumes ok: "allocator_ok place" and inv: "arena_usage_ok a h0 h"
    and new: "AllocateNewBlock place n (a, h) = (p, a', h')"
  shows "arena_usage_ok a' h0 h'"
proof -
  note nb = arena_blocks_new [OF new]
  obtain own where own: "h = own @ h0" "rev (map fst own) = blocks a"
      "memory_usage a = (\<Sum>b\<leftarrow>own. snd b + 8)" "\<forall>b\<in>set own. \<forall>c\<in>set h0. fst b \<noteq> fst c"
    using inv unfolding arena_usage_ok_def by blast
  have "\<forall>c\<in>set h0. p \<noteq> fst c" using ok own(1) nb(2) by (auto simp: allocator_ok_def)
  then show ?thesis
    unfolding arena_usage_ok_def using nb own by (intro exI [of _ "(p, n) # own"]) auto
qed

lemma usage_fields:
  "arena_usage_ok (a\<lparr>alloc_ptr := x, alloc_bytes_remaining := y\<rparr>) h0 h = arena_usage_ok a h0 h"
  by (simp add: arena_usage_ok_def)

lemma usage_fallback:
  assumes "allocator_ok place" "arena_usage_ok a h0 h"
    and "AllocateFallback place n (a, h) = (p, a', h')"
  shows "arena_usage_ok a' h0 h'"
  using assms usage_new_block [OF assms(1,2)] usage_fields
  by (auto simp: AllocateFallback_def Let_def split: if_splits prod.splits)

lemma usage_serve:
  assumes "allocator_ok place" "arena_usage_ok a h0 h" "serve place r (a, h) = (p, a', h')"
  shows "arena_usage_ok a' h0 h'"
  using assms usage_fallback [OF assms(1,2)] usage_fields
  by (cases r) (auto simp: Allocate_def AllocateAligned_def Let_def split: if_splits)

lemma usage_serve_all:
  assumes "allocator_ok place"
  shows "arena_usage_ok a h0 h \<Longrightarrow> serve_all place rs (a, h) = (out, a', h') \<Longrightarrow>
    arena_usage_ok a' h0 h'"
proof (induction rs arbitrary: a h out)
  case (Cons r rs)
  obtain p a1 h1 where s: "serve place r (a, h) = (p, a1, h1)" by (metis prod_cases3)
  then show ?case
    using Cons.IH [OF usage_serve [OF assms Cons.prems(1) s]] Cons.prems(2)
    by (auto split: prod.splits)
qed simp

lemma fold_delete_char: "fold delete_char ps h = filter (\<lambda>b. fst b \<notin> set ps) h"
  by (induction ps arbitrary: h) (auto simp: delete_char_def intro: filter_cong)

lemma usage_destroy:
  assumes "arena_usage_ok a h0 h"
  shows "Arena_destroy a h = h0"
proof -
  obtain own where own: "h = own @ h0" "rev (map fst own) = blocks a"
      "\<forall>b\<in>set own. \<forall>c\<in>set h0. fst b \<noteq> fst c"
    using assms unfolding arena_usage_ok_def by blast
  have "set (blocks a) = fst ` set own" using own(2) [symmetric] by simp
  with own show ?thesis
    unfolding Arena_destroy_def fold_delete_char by (fastforce simp: filter_id_conv filter_empty_conv)
qed

section \<open>Properties\<close>

lemmas arena_eval = Allocate_def AllocateAligned_def AllocateFallback_def AllocateNewBlock_def
  new_char_def Arena_make_def kBlockSize_def sizeof_char_ptr_def arena_align_def and_7_mod bump_def Let_def

lemma sorted_wrt_rev_separate: "sorted_wrt separate (rev xs) = sorted_wrt separate xs"
  unfolding sorted_wrt_rev using separate_sym sorted_wrt_mono_rel by metis



text \<open>
  After any sequence of requests \<open>MemoryUsage\<close> is the total size of the blocks
  the arena took from the heap plus one pointer for each, those blocks are exactly what was
  added to the heap, and the destructor gives all of them back.
\<close>
theorem arena_accounting:
  assumes "allocator_ok place"
  shows "case serve_all place rs (Arena_make, h0) of (out, a, h) \<Rightarrow>
    \<exists>own. h = own @ h0 \<and> blocks a = rev (map fst own) \<and>
      MemoryUsage a = (\<Sum>b\<leftarrow>own. snd b + 8) \<and> Arena_destroy a h = h0"
proof -
  obtain out a h where s: "serve_all place rs (Arena_make, h0) = (out, a, h)"
    by (metis prod_cases3)
  have "arena_usage_ok Arena_make h0 h0"
    by (simp add: arena_usage_ok_def Arena_make_def)
  from usage_serve_all [OF assms this s] have u: "arena_usage_ok a h0 h" .
  show ?thesis
    using u usage_destroy [OF u] unfolding s arena_usage_ok_def MemoryUsage_def by auto
qed

theorem arena_accounting_witness:
  "case serve_all bump [Aligned 40] (Arena_make, [(800, 16)]) of (out, a, h) \<Rightarrow>
     MemoryUsage a = 4104 \<and> Arena_destroy a h = [(800, 16)]"
proof -
  have s: "serve_all bump [Aligned 40] (Arena_make, [(800, 16)]) =
      ([(824, 40)], \<lparr>alloc_ptr = 864, alloc_bytes_remaining = 4056, blocks = [824], memory_usage = 4104\<rparr>,
       [(824, 4096), (800, 16)])"
    by (simp add: arena_eval)
  show ?thesis
    using arena_accounting [OF allocator_ok_bump, of "[(800, 16)]" "[Aligned 40]"]
    unfolding s by auto
qed

end
