(* ===== verification/Skiplist.thy ===== *)
theory Skiplist
  imports Comparator Random_Gen Arena "HOL-Library.Multiset"
begin

text \<open>
  \<^verbatim>\<open>db/skiplist.h\<close>: the skip list of the memtable.

  Nodes live in a store and are never moved or removed: a \<^verbatim>\<open>Node*\<close> is an index into the store, index
  0 is \<^verbatim>\<open>head_\<close> and \<^term>\<open>None\<close> is \<^verbatim>\<open>nullptr\<close>.  Every node records the arena address it was placed
  at; \<open>place\<close> and the pair \<open>mem\<close> of arena and heap are those of theory Arena.  The searches loop
  until they return, so they are partial functions whose termination is proved.
\<close>

section \<open>Nodes\<close>

definition kMaxHeight :: nat where
  "kMaxHeight = 12"

record 'k Node =
  node_key :: 'k
  node_next :: "nat option list"
  node_addr :: addr

record 'k SkipList =
  sl_nodes :: "'k Node list"
  sl_max_height :: nat
  sl_rnd :: Random

definition head_node :: nat where
  "head_node = 0"

definition GetMaxHeight :: "'k SkipList \<Rightarrow> nat" where
  "GetMaxHeight sl = sl_max_height sl"

definition Node_Next :: "'k Node list \<Rightarrow> nat \<Rightarrow> nat \<Rightarrow> nat option" where
  "Node_Next nodes x n = node_next (nodes ! x) ! n"

definition Node_SetNext :: "nat \<Rightarrow> nat \<Rightarrow> nat option \<Rightarrow> 'k Node list \<Rightarrow> 'k Node list" where
  "Node_SetNext x n y nodes =
     nodes[x := (nodes ! x)\<lparr>node_next := (node_next (nodes ! x))[n := y]\<rparr>]"

text \<open>
  \<^verbatim>\<open>sizeof(Node)\<close> with a pointer as key is 16.  The links of a new node are not initialised; every
  caller sets all of them before it publishes the node.
\<close>

definition sizeof_Node :: nat where
  "sizeof_Node = 16"

definition NewNode ::
    "placement \<Rightarrow> 'k \<Rightarrow> nat \<Rightarrow> 'k Node list \<Rightarrow> Arena \<times> heap \<Rightarrow> nat \<times> 'k Node list \<times> Arena \<times> heap" where
  "NewNode place key height nodes mem =
     (let (node_memory, mem) = AllocateAligned place (sizeof_Node + 8 * (height - 1)) mem
      in (length nodes,
          nodes @ [\<lparr>node_key = key, node_next = replicate height None, node_addr = node_memory\<rparr>],
          mem))"

section \<open>Searching\<close>

definition kBranching :: nat where
  "kBranching = 4"

function RandomHeight_loop :: "nat \<Rightarrow> Random \<Rightarrow> nat \<times> Random" where
  "RandomHeight_loop height rnd =
     (if height < kMaxHeight then
        (let (x, rnd) = Random_Next rnd
         in if unat x mod kBranching = 0 then RandomHeight_loop (height + 1) rnd else (height, rnd))
      else (height, rnd))"
  by auto
termination
  by (relation "measure (\<lambda>(height, _). kMaxHeight - height)") auto

declare RandomHeight_loop.simps [simp del]

definition RandomHeight :: "Random \<Rightarrow> nat \<times> Random" where
  "RandomHeight rnd = RandomHeight_loop 1 rnd"

definition Equal :: "('k \<Rightarrow> 'k \<Rightarrow> int) \<Rightarrow> 'k \<Rightarrow> 'k \<Rightarrow> bool" where
  "Equal cmp a b \<longleftrightarrow> cmp a b = 0"

definition KeyIsAfterNode :: "('k \<Rightarrow> 'k \<Rightarrow> int) \<Rightarrow> 'k Node list \<Rightarrow> 'k \<Rightarrow> nat option \<Rightarrow> bool" where
  "KeyIsAfterNode cmp nodes key n =
     (case n of None \<Rightarrow> False | Some x \<Rightarrow> cmp (node_key (nodes ! x)) key < 0)"

text \<open>
  \<open>prev\<close> is \<^term>\<open>None\<close> for a null argument, else the array, whose entries are \<^term>\<open>None\<close> while they
  are not initialised.
\<close>

partial_function (option) FindGreaterOrEqual_loop ::
    "('k \<Rightarrow> 'k \<Rightarrow> int) \<Rightarrow> 'k Node list \<Rightarrow> 'k \<Rightarrow> nat \<Rightarrow> nat \<Rightarrow> nat option list option \<Rightarrow>
     (nat option \<times> nat option list option) option" where
  "FindGreaterOrEqual_loop cmp nodes key x level prev =
     (let nxt = Node_Next nodes x level
      in if KeyIsAfterNode cmp nodes key nxt
         then FindGreaterOrEqual_loop cmp nodes key (the nxt) level prev
         else
           (let prev = map_option (\<lambda>p. p[level := Some x]) prev
            in if level = 0 then Some (nxt, prev)
               else FindGreaterOrEqual_loop cmp nodes key x (level - 1) prev))"

definition FindGreaterOrEqual ::
    "('k \<Rightarrow> 'k \<Rightarrow> int) \<Rightarrow> 'k SkipList \<Rightarrow> 'k \<Rightarrow> nat option list option \<Rightarrow>
     (nat option \<times> nat option list option) option" where
  "FindGreaterOrEqual cmp sl key prev =
     FindGreaterOrEqual_loop cmp (sl_nodes sl) key head_node (GetMaxHeight sl - 1) prev"

partial_function (option) FindLessThan_loop ::
    "('k \<Rightarrow> 'k \<Rightarrow> int) \<Rightarrow> 'k Node list \<Rightarrow> 'k \<Rightarrow> nat \<Rightarrow> nat \<Rightarrow> nat option" where
  "FindLessThan_loop cmp nodes key x level =
     (let nxt = Node_Next nodes x level
      in if nxt = None \<or> cmp (node_key (nodes ! the nxt)) key \<ge> 0
         then if level = 0 then Some x else FindLessThan_loop cmp nodes key x (level - 1)
         else FindLessThan_loop cmp nodes key (the nxt) level)"

definition FindLessThan :: "('k \<Rightarrow> 'k \<Rightarrow> int) \<Rightarrow> 'k SkipList \<Rightarrow> 'k \<Rightarrow> nat option" where
  "FindLessThan cmp sl key =
     FindLessThan_loop cmp (sl_nodes sl) key head_node (GetMaxHeight sl - 1)"

partial_function (option) FindLast_loop :: "'k Node list \<Rightarrow> nat \<Rightarrow> nat \<Rightarrow> nat option" where
  "FindLast_loop nodes x level =
     (let nxt = Node_Next nodes x level
      in if nxt = None
         then if level = 0 then Some x else FindLast_loop nodes x (level - 1)
         else FindLast_loop nodes (the nxt) level)"

definition FindLast :: "'k SkipList \<Rightarrow> nat option" where
  "FindLast sl = FindLast_loop (sl_nodes sl) head_node (GetMaxHeight sl - 1)"

section \<open>The list\<close>

definition SkipList_make :: "placement \<Rightarrow> 'k \<Rightarrow> Arena \<times> heap \<Rightarrow> 'k SkipList \<times> Arena \<times> heap" where
  "SkipList_make place any_key mem =
     (let (head, nodes, mem) = NewNode place any_key kMaxHeight [] mem;
          nodes = foldl (\<lambda>nodes i. Node_SetNext head i None nodes) nodes [0..<kMaxHeight]
      in (\<lparr>sl_nodes = nodes, sl_max_height = 1, sl_rnd = Random_make 0xdeadbeef\<rparr>, mem))"

definition link_level :: "nat option list \<Rightarrow> nat \<Rightarrow> 'k Node list \<Rightarrow> nat \<Rightarrow> 'k Node list" where
  "link_level prev x nodes i =
     (let p = the (prev ! i);
          nodes = Node_SetNext x i (Node_Next nodes p i) nodes
      in Node_SetNext p i (Some x) nodes)"

definition extend_prev :: "nat \<Rightarrow> nat \<Rightarrow> nat option list \<Rightarrow> nat option list" where
  "extend_prev max_height height prev =
     (if height > max_height
      then foldl (\<lambda>prev i. prev[i := Some head_node]) prev [max_height..<height]
      else prev)"

text \<open>The result is \<^term>\<open>None\<close> only if the search does not return.\<close>

definition SkipList_Insert ::
    "placement \<Rightarrow> ('k \<Rightarrow> 'k \<Rightarrow> int) \<Rightarrow> 'k \<Rightarrow> 'k SkipList \<times> Arena \<times> heap \<Rightarrow>
     ('k SkipList \<times> Arena \<times> heap) option" where
  "SkipList_Insert place cmp key s =
     (let (sl, mem) = s in
      case FindGreaterOrEqual cmp sl key (Some (replicate kMaxHeight None)) of
        None \<Rightarrow> None
      | Some (_, prev) \<Rightarrow>
         (let prev = the prev;
              (height, rnd) = RandomHeight (sl_rnd sl);
              max_height = GetMaxHeight sl;
              prev = extend_prev max_height height prev;
              max_height = (if height > max_height then height else max_height);
              (x, nodes, mem) = NewNode place key height (sl_nodes sl) mem;
              nodes = foldl (link_level prev x) nodes [0..<height]
          in Some (\<lparr>sl_nodes = nodes, sl_max_height = max_height, sl_rnd = rnd\<rparr>, mem)))"

definition SkipList_Contains :: "('k \<Rightarrow> 'k \<Rightarrow> int) \<Rightarrow> 'k SkipList \<Rightarrow> 'k \<Rightarrow> bool option" where
  "SkipList_Contains cmp sl key =
     (case FindGreaterOrEqual cmp sl key None of
        None \<Rightarrow> None
      | Some (x, _) \<Rightarrow>
          (case x of
             Some n \<Rightarrow> if Equal cmp key (node_key (sl_nodes sl ! n)) then Some True else Some False
           | None \<Rightarrow> Some False))"

section \<open>Iterators\<close>

text \<open>An iterator is its \<^verbatim>\<open>node_\<close>.\<close>

type_synonym sl_iterator = "nat option"

definition Iterator_make :: sl_iterator where
  "Iterator_make = None"

definition Iterator_Valid :: "sl_iterator \<Rightarrow> bool" where
  "Iterator_Valid it \<longleftrightarrow> it \<noteq> None"

definition Iterator_key :: "'k SkipList \<Rightarrow> sl_iterator \<Rightarrow> 'k" where
  "Iterator_key sl it = node_key (sl_nodes sl ! the it)"

definition Iterator_Next :: "'k SkipList \<Rightarrow> sl_iterator \<Rightarrow> sl_iterator" where
  "Iterator_Next sl it = Node_Next (sl_nodes sl) (the it) 0"

definition Iterator_Prev :: "('k \<Rightarrow> 'k \<Rightarrow> int) \<Rightarrow> 'k SkipList \<Rightarrow> sl_iterator \<Rightarrow> sl_iterator option" where
  "Iterator_Prev cmp sl it =
     map_option (\<lambda>n. if n = head_node then None else Some n)
       (FindLessThan cmp sl (node_key (sl_nodes sl ! the it)))"

definition Iterator_Seek :: "('k \<Rightarrow> 'k \<Rightarrow> int) \<Rightarrow> 'k SkipList \<Rightarrow> 'k \<Rightarrow> sl_iterator option" where
  "Iterator_Seek cmp sl target = map_option fst (FindGreaterOrEqual cmp sl target None)"

definition Iterator_SeekToFirst :: "'k SkipList \<Rightarrow> sl_iterator" where
  "Iterator_SeekToFirst sl = Node_Next (sl_nodes sl) head_node 0"

definition Iterator_SeekToLast :: "'k SkipList \<Rightarrow> sl_iterator option" where
  "Iterator_SeekToLast sl =
     map_option (\<lambda>n. if n = head_node then None else Some n) (FindLast sl)"

section \<open>Linked levels\<close>

text \<open>\<open>linked nx x ys\<close>: from \<open>x\<close> on, the links \<open>nx\<close> go through \<open>ys\<close> and end.\<close>

primrec linked :: "(nat \<Rightarrow> nat option) \<Rightarrow> nat \<Rightarrow> nat list \<Rightarrow> bool" where
  "linked nx x [] \<longleftrightarrow> nx x = None"
| "linked nx x (y # ys) \<longleftrightarrow> nx x = Some y \<and> linked nx y ys"

definition hd_opt :: "'a list \<Rightarrow> 'a option" where
  "hd_opt xs = (case xs of [] \<Rightarrow> None | x # _ \<Rightarrow> Some x)"

lemma hd_opt_simps [simp]: "hd_opt [] = None" "hd_opt (x # xs) = Some x"
  by (simp_all add: hd_opt_def)

lemma hd_opt_map: "hd_opt (map f xs) = map_option f (hd_opt xs)"
  by (cases xs) simp_all

lemma linked_hd: "linked nx x ys \<Longrightarrow> nx x = hd_opt ys"
  by (cases ys) simp_all

lemma linked_append: "linked nx x (ys @ z # zs) \<Longrightarrow> linked nx z zs"
  by (induction ys arbitrary: x) auto

lemma linked_cong:
  "(\<And>y. y \<in> insert x (set ys) \<Longrightarrow> nx y = nx' y) \<Longrightarrow> linked nx x ys \<longleftrightarrow> linked nx' x ys"
  by (induction ys arbitrary: x) auto

text \<open>Splicing \<open>z\<close> in after the last element of \<open>as\<close>.\<close>

lemma linked_splice:
  assumes "linked nx x (as @ bs)" "distinct (x # as @ bs)" "z \<notin> set (x # as @ bs)"
  shows "linked (nx(z := nx (last (x # as)), last (x # as) := Some z)) x (as @ z # bs)"
  using assms
proof (induction as arbitrary: x)
  case Nil
  have "linked (nx(z := nx x, x := Some z)) z bs"
    using Nil by (cases bs) (auto intro: linked_cong [THEN iffD1])
  then show ?case by (simp add: fun_upd_def)
next
  case (Cons a as)
  have "nx x = Some a" using Cons.prems by simp
  moreover have "x \<noteq> last (a # as)" "x \<noteq> z"
    using Cons.prems(2,3) by (metis append_Cons distinct.simps(2) in_set_conv_decomp last_in_set
        list.distinct(1) list.set_intros(2) append_is_Nil_conv Un_iff set_append, simp)
  ultimately show ?case using Cons by simp
qed

section \<open>Searching down the levels\<close>

text \<open>
  The three searches are the same walk: along a level while the next node satisfies \<open>P\<close>, then
  one level down.  \<open>f\<close> is such a search, with an accumulator \<open>acc\<close>.
\<close>

definition is_search ::
    "(nat \<Rightarrow> nat \<Rightarrow> nat option) \<Rightarrow> (nat \<Rightarrow> bool) \<Rightarrow> (nat \<Rightarrow> nat \<Rightarrow> 'acc \<Rightarrow> 'acc) \<Rightarrow> (nat \<Rightarrow> 'acc \<Rightarrow> 'r) \<Rightarrow>
     (nat \<Rightarrow> nat \<Rightarrow> 'acc \<Rightarrow> 'r option) \<Rightarrow> bool" where
  "is_search nx P upd r f \<longleftrightarrow>
     (\<forall>x level acc. f x level acc =
        (if \<exists>y. nx level x = Some y \<and> P y then f (the (nx level x)) level acc
         else if level = 0 then Some (r x acc) else f x (level - 1) (upd x level acc)))"

lemma is_search_unfold:
  "is_search nx P upd r f \<Longrightarrow> f x level acc =
     (if \<exists>y. nx level x = Some y \<and> P y then f (the (nx level x)) level acc
      else if level = 0 then Some (r x acc) else f x (level - 1) (upd x level acc))"
  unfolding is_search_def by blast

lemma search_level:
  assumes f: "is_search nx P upd r f"
  shows "linked (nx level) x ys \<Longrightarrow>
    f x level acc = (let y = last (x # takeWhile P ys)
      in if level = 0 then Some (r y acc) else f y (level - 1) (upd y level acc))"
proof (induction ys arbitrary: x)
  case Nil
  then show ?case by (subst is_search_unfold [OF f]) simp
next
  case (Cons y ys)
  then show ?case by (subst is_search_unfold [OF f]) simp
qed

text \<open>
  Levels \<open>0..h\<close> as the search needs them: linked from the head, each contained in the one
  below, and \<open>P\<close> holding on a prefix.
\<close>

definition searchable :: "(nat \<Rightarrow> nat \<Rightarrow> nat option) \<Rightarrow> (nat \<Rightarrow> bool) \<Rightarrow> (nat \<Rightarrow> nat list) \<Rightarrow> nat \<Rightarrow> bool" where
  "searchable nx P L h \<longleftrightarrow>
     (\<forall>l\<le>h. linked (nx l) head_node (L l) \<and> takeWhile P (L l) = filter P (L l) \<and> distinct (L l)) \<and>
     (\<forall>l<h. set (L (Suc l)) \<subseteq> set (L l))"

definition before :: "(nat \<Rightarrow> bool) \<Rightarrow> nat list \<Rightarrow> nat" where
  "before P ys = last (head_node # filter P ys)"

definition search_start :: "(nat \<Rightarrow> bool) \<Rightarrow> nat list \<Rightarrow> nat \<Rightarrow> bool" where
  "search_start P ys x \<longleftrightarrow> x = head_node \<or> x \<in> set ys \<and> P x"

lemma search_start_before: "search_start P ys (before P ys)"
proof (cases "filter P ys = []")
  case True
  then show ?thesis by (simp add: search_start_def before_def)
next
  case False
  then have "last (filter P ys) \<in> set (filter P ys)" by (rule last_in_set)
  with False show ?thesis by (auto simp: search_start_def before_def)
qed

lemma search_start_mono: "search_start P ys x \<Longrightarrow> set ys \<subseteq> set zs \<Longrightarrow> search_start P zs x"
  by (auto simp: search_start_def)

text \<open>Wherever a search enters a level, it leaves it at the same node.\<close>

lemma search_enter:
  assumes link: "linked nx head_node ys" and tw: "takeWhile P ys = filter P ys"
    and dist: "distinct ys" and start: "search_start P ys x"
  shows "\<exists>zs. linked nx x zs \<and> last (x # takeWhile P zs) = before P ys"
proof (cases "x = head_node")
  case True
  then show ?thesis using link tw by (intro exI [of _ ys]) (simp add: before_def)
next
  case False
  then obtain pre zs where ys: "ys = pre @ x # zs" and Px: "P x"
    using start by (auto simp: search_start_def dest: split_list)
  have x: "x \<in> set (takeWhile P ys)" unfolding tw using ys Px by simp
  have pre: "\<forall>y\<in>set pre. P y"
  proof (rule ccontr)
    assume "\<not> (\<forall>y\<in>set pre. P y)"
    then have "takeWhile P ys = takeWhile P pre" unfolding ys by (auto intro: takeWhile_append1)
    then show False using x dist ys by (auto dest: set_takeWhileD)
  qed
  then have t: "takeWhile P ys = pre @ x # takeWhile P zs" using ys Px by simp
  have "last (x # takeWhile P zs) = before P ys"
    unfolding before_def tw [symmetric] t by simp
  then show ?thesis
    using linked_append [OF link [unfolded ys]] by blast
qed

primrec descend :: "(nat \<Rightarrow> nat \<Rightarrow> 'acc \<Rightarrow> 'acc) \<Rightarrow> (nat \<Rightarrow> nat) \<Rightarrow> nat \<Rightarrow> 'acc \<Rightarrow> 'acc" where
  "descend upd pos 0 acc = acc"
| "descend upd pos (Suc l) acc = descend upd pos l (upd (pos (Suc l)) (Suc l) acc)"

lemma search_down:
  assumes f: "is_search nx P upd r f"
  shows "searchable nx P L level \<Longrightarrow> search_start P (L level) x \<Longrightarrow>
    f x level acc = Some (r (before P (L 0)) (descend upd (\<lambda>l. before P (L l)) level acc))"
proof (induction level arbitrary: x acc)
  case 0
  then have "\<exists>zs. linked (nx 0) x zs \<and> last (x # takeWhile P zs) = before P (L 0)"
    unfolding searchable_def by (intro search_enter) auto
  then obtain zs where zs: "linked (nx 0) x zs" "last (x # takeWhile P zs) = before P (L 0)" by auto
  then show ?case by (simp add: search_level [OF f zs(1)] Let_def)
next
  case (Suc l)
  then have "\<exists>zs. linked (nx (Suc l)) x zs \<and> last (x # takeWhile P zs) = before P (L (Suc l))"
    unfolding searchable_def by (intro search_enter) auto
  then obtain zs where
    zs: "linked (nx (Suc l)) x zs" "last (x # takeWhile P zs) = before P (L (Suc l))" by auto
  have sub: "searchable nx P L l" "set (L (Suc l)) \<subseteq> set (L l)"
    using Suc.prems(1) unfolding searchable_def by auto
  show ?case
    using Suc.IH [OF sub(1) search_start_mono [OF search_start_before sub(2)]]
    by (simp only: search_level [OF f zs(1)] zs(2) Let_def) simp
qed

definition below :: "('k \<Rightarrow> 'k \<Rightarrow> int) \<Rightarrow> 'k Node list \<Rightarrow> 'k \<Rightarrow> nat \<Rightarrow> bool" where
  "below cmp nodes key n \<longleftrightarrow> cmp (node_key (nodes ! n)) key < 0"

lemma FindGreaterOrEqual_is_search:
  "is_search (\<lambda>level x. Node_Next nodes x level) (below cmp nodes key)
     (\<lambda>x level. map_option (\<lambda>p. p[level := Some x]))
     (\<lambda>x prev. (Node_Next nodes x 0, map_option (\<lambda>p. p[0 := Some x]) prev))
     (FindGreaterOrEqual_loop cmp nodes key)"
  unfolding is_search_def
  by (intro allI, subst FindGreaterOrEqual_loop.simps)
     (auto simp: KeyIsAfterNode_def below_def Let_def split: option.splits)

lemma FindLessThan_is_search:
  "is_search (\<lambda>level x. Node_Next nodes x level) (below cmp nodes key)
     (\<lambda>x level u. u) (\<lambda>x u. x) (\<lambda>x level u :: unit. FindLessThan_loop cmp nodes key x level)"
  unfolding is_search_def
  by (intro allI, subst FindLessThan_loop.simps) (auto simp: below_def Let_def)

lemma FindLast_is_search:
  "is_search (\<lambda>level x. Node_Next nodes x level) (\<lambda>n. True)
     (\<lambda>x level u. u) (\<lambda>x u. x) (\<lambda>x level u :: unit. FindLast_loop nodes x level)"
  unfolding is_search_def
  by (intro allI, subst FindLast_loop.simps) (auto simp: Let_def)

lemma nth_descend_prev:
  "length p = n \<Longrightarrow> level < n \<Longrightarrow>
     \<exists>q. descend (\<lambda>x level. map_option (\<lambda>p. p[level := Some x])) pos level (Some p) = Some q \<and>
       length q = n \<and> (\<forall>l<n. q ! l = (if 0 < l \<and> l \<le> level then Some (pos l) else p ! l))"
proof (induction level arbitrary: p)
  case (Suc level)
  then have "length (p[Suc level := Some (pos (Suc level))]) = n" "level < n" by simp_all
  from Suc.IH [OF this] obtain q where
    q: "descend (\<lambda>x level. map_option (\<lambda>p. p[level := Some x])) pos (Suc level) (Some p) = Some q"
      "length q = n"
      "\<And>l. l < n \<Longrightarrow> q ! l = (if 0 < l \<and> l \<le> level then Some (pos l)
         else p[Suc level := Some (pos (Suc level))] ! l)" by auto
  have "q ! l = (if 0 < l \<and> l \<le> Suc level then Some (pos l) else p ! l)" if "l < n" for l
    using q(3) [OF that] Suc.prems that by (auto simp: nth_list_update le_Suc_eq)
  with q(1,2) show ?case by blast
qed simp

lemma descend_None: "descend (\<lambda>x level. map_option (\<lambda>p. p[level := Some x])) pos level None = None"
  by (induction level) simp_all

section \<open>The invariant\<close>

text \<open>
  \<open>L l\<close> is the list of nodes linked at level \<open>l\<close>.  The levels are sorted strictly by key, each is
  contained in the one below, and their nodes are tall enough to be linked there.
\<close>

definition node_less :: "('k \<Rightarrow> 'k \<Rightarrow> int) \<Rightarrow> 'k Node list \<Rightarrow> nat \<Rightarrow> nat \<Rightarrow> bool" where
  "node_less cmp nodes a b \<longleftrightarrow> cmp (node_key (nodes ! a)) (node_key (nodes ! b)) < 0"

definition levels_ok :: "('k \<Rightarrow> 'k \<Rightarrow> int) \<Rightarrow> 'k Node list \<Rightarrow> (nat \<Rightarrow> nat list) \<Rightarrow> bool" where
  "levels_ok cmp nodes L \<longleftrightarrow>
     nodes \<noteq> [] \<and> length (node_next (nodes ! head_node)) = kMaxHeight \<and>
     (\<forall>l<kMaxHeight. linked (\<lambda>x. Node_Next nodes x l) head_node (L l) \<and>
        sorted_wrt (node_less cmp nodes) (L l) \<and>
        (\<forall>x\<in>set (L l). head_node < x \<and> x < length nodes \<and> l < length (node_next (nodes ! x)))) \<and>
     (\<forall>l. Suc l < kMaxHeight \<longrightarrow> set (L (Suc l)) \<subseteq> set (L l))"

definition sl_inv :: "('k \<Rightarrow> 'k \<Rightarrow> int) \<Rightarrow> 'k SkipList \<Rightarrow> (nat \<Rightarrow> nat list) \<Rightarrow> bool" where
  "sl_inv cmp sl L \<longleftrightarrow>
     levels_ok cmp (sl_nodes sl) L \<and> 1 \<le> sl_max_height sl \<and> sl_max_height sl \<le> kMaxHeight \<and>
     (\<forall>l. sl_max_height sl \<le> l \<longrightarrow> l < kMaxHeight \<longrightarrow> L l = []) \<and>
     set (L 0) = {1..<length (sl_nodes sl)} \<and> random_ok (sl_rnd sl)"

definition sl_keys :: "'k SkipList \<Rightarrow> (nat \<Rightarrow> nat list) \<Rightarrow> 'k list" where
  "sl_keys sl L = map (\<lambda>n. node_key (sl_nodes sl ! n)) (L 0)"

lemma takeWhile_eq_filter_sorted:
  assumes "sorted_wrt R xs" "\<And>x y. R x y \<Longrightarrow> P y \<Longrightarrow> P x"
  shows "takeWhile P xs = filter P xs" "dropWhile P xs = filter (\<lambda>x. \<not> P x) xs"
proof -
  show "takeWhile P xs = filter P xs"
    using assms(1) by (induction xs) (use assms(2) in \<open>auto intro!: filter_False [symmetric]\<close>)
  show "dropWhile P xs = filter (\<lambda>x. \<not> P x) xs"
    using assms(1)
  proof (induction xs)
    case (Cons x xs)
    then show ?case using assms(2) by (auto intro!: filter_True [symmetric])
  qed simp
qed

context three_way
begin

lemma node_less_below:
  "node_less cmp nodes x y \<Longrightarrow> below cmp nodes key y \<Longrightarrow> below cmp nodes key x"
  unfolding node_less_def below_def by (rule cmp_less_trans)

lemma sorted_nodes_distinct: "sorted_wrt (node_less cmp nodes) xs \<Longrightarrow> distinct xs"
  by (induction xs) (auto simp: node_less_def)

lemma searchable_below:
  assumes "levels_ok cmp nodes L" "h < kMaxHeight"
  shows "searchable (\<lambda>level x. Node_Next nodes x level) (below cmp nodes key) L h"
proof -
  have "takeWhile (below cmp nodes key) (L l) = filter (below cmp nodes key) (L l)"
      "distinct (L l)" if "l \<le> h" for l
  proof -
    have s: "sorted_wrt (node_less cmp nodes) (L l)" using assms that unfolding levels_ok_def by simp
    show "takeWhile (below cmp nodes key) (L l) = filter (below cmp nodes key) (L l)"
      by (rule takeWhile_eq_filter_sorted(1) [OF s]) (rule node_less_below)
    show "distinct (L l)" using s by (rule sorted_nodes_distinct)
  qed
  then show ?thesis using assms unfolding searchable_def levels_ok_def by auto
qed

lemma searchable_all:
  assumes "levels_ok cmp nodes L" "h < kMaxHeight"
  shows "searchable (\<lambda>level x. Node_Next nodes x level) (\<lambda>n. True) L h"
  using searchable_below [OF assms] unfolding searchable_def by (auto simp: takeWhile_eq_all_conv)

text \<open>The link out of the last node below the key leads to the first one that is not.\<close>

lemma linked_before:
  assumes "linked nx head_node ys" "takeWhile P ys = filter P ys"
  shows "nx (before P ys) = hd_opt (dropWhile P ys)"
proof -
  have "linked nx x zs \<Longrightarrow> nx (last (x # takeWhile P zs)) = hd_opt (dropWhile P zs)" for x zs
    by (induction zs arbitrary: x) auto
  with assms show ?thesis unfolding before_def by metis
qed

lemma FindGreaterOrEqual_loop_eq:
  assumes ok: "levels_ok cmp nodes L" and h: "level < kMaxHeight"
    and start: "search_start (below cmp nodes key) (L level) x"
  defines "P \<equiv> below cmp nodes key"
  shows "FindGreaterOrEqual_loop cmp nodes key x level None =
      Some (hd_opt (filter (\<lambda>n. \<not> P n) (L 0)), None)"
    and "length p = kMaxHeight \<Longrightarrow> \<exists>q.
      FindGreaterOrEqual_loop cmp nodes key x level (Some p) =
        Some (hd_opt (filter (\<lambda>n. \<not> P n) (L 0)), Some q) \<and> length q = kMaxHeight \<and>
      (\<forall>l<kMaxHeight. q ! l = (if l \<le> level then Some (before P (L l)) else p ! l))"
proof -
  have h0: "0 < kMaxHeight" by (simp add: kMaxHeight_def)
  have lev0: "linked (\<lambda>x. Node_Next nodes x 0) head_node (L 0)" "sorted_wrt (node_less cmp nodes) (L 0)"
    using ok h0 unfolding levels_ok_def by auto
  note tw = takeWhile_eq_filter_sorted [OF lev0(2), of P]
  have tw: "takeWhile P (L 0) = filter P (L 0)" "dropWhile P (L 0) = filter (\<lambda>n. \<not> P n) (L 0)"
    using tw node_less_below unfolding P_def by blast+
  have nxt: "Node_Next nodes (before P (L 0)) 0 = hd_opt (filter (\<lambda>n. \<not> P n) (L 0))"
    using linked_before [OF lev0(1) tw(1)] tw(2) by simp
  note run = search_down [OF FindGreaterOrEqual_is_search searchable_below [OF ok h] start]
  show "FindGreaterOrEqual_loop cmp nodes key x level None =
      Some (hd_opt (filter (\<lambda>n. \<not> P n) (L 0)), None)"
    unfolding run descend_None using nxt by (simp add: P_def)
  assume p: "length p = kMaxHeight"
  from nth_descend_prev [OF p h, of "\<lambda>l. before P (L l)"] obtain q where
    q: "descend (\<lambda>x level. map_option (\<lambda>p. p[level := Some x])) (\<lambda>l. before P (L l)) level (Some p) = Some q"
      "length q = kMaxHeight"
      "\<forall>l<kMaxHeight. q ! l = (if 0 < l \<and> l \<le> level then Some (before P (L l)) else p ! l)"
    by blast
  show "\<exists>q. FindGreaterOrEqual_loop cmp nodes key x level (Some p) =
        Some (hd_opt (filter (\<lambda>n. \<not> P n) (L 0)), Some q) \<and> length q = kMaxHeight \<and>
      (\<forall>l<kMaxHeight. q ! l = (if l \<le> level then Some (before P (L l)) else p ! l))"
    unfolding run using q nxt
    by (intro exI [of _ "q[0 := Some (before P (L 0))]"]) (auto simp: P_def nth_list_update)
qed

lemma FindLessThan_loop_eq:
  assumes "levels_ok cmp nodes L" "level < kMaxHeight"
  shows "FindLessThan_loop cmp nodes key head_node level =
      Some (before (below cmp nodes key) (L 0))"
  using search_down [OF FindLessThan_is_search searchable_below [OF assms]]
  by (simp add: search_start_def)

lemma FindLast_loop_eq:
  assumes "levels_ok cmp nodes L" "level < kMaxHeight"
  shows "FindLast_loop nodes head_node level = Some (last (head_node # L 0))"
  using search_down [OF FindLast_is_search searchable_all [OF assms]]
  by (simp add: search_start_def before_def)

end

section \<open>Linking a node\<close>

lemma SetNext_frame [simp]:
  "length (Node_SetNext x n y nodes) = length nodes"
  "node_key (Node_SetNext x n y nodes ! z) = node_key (nodes ! z)"
  "node_addr (Node_SetNext x n y nodes ! z) = node_addr (nodes ! z)"
  "length (node_next (Node_SetNext x n y nodes ! z)) = length (node_next (nodes ! z))"
  by (cases "x < length nodes"; cases "z = x"; simp add: Node_SetNext_def list_update_beyond)+

lemma Next_SetNext:
  assumes "x < length nodes" "n < length (node_next (nodes ! x))"
  shows "(\<lambda>z. Node_Next (Node_SetNext x n y nodes) z l) =
    (if l = n then (\<lambda>z. Node_Next nodes z l)(x := y) else (\<lambda>z. Node_Next nodes z l))"
  using assms by (auto simp: Node_Next_def Node_SetNext_def nth_list_update fun_eq_iff)

definition linkable :: "nat option list \<Rightarrow> nat \<Rightarrow> 'k Node list \<Rightarrow> nat \<Rightarrow> bool" where
  "linkable prev x nodes l \<longleftrightarrow>
     (let p = the (prev ! l) in p < length nodes \<and> l < length (node_next (nodes ! p)) \<and>
       x < length nodes \<and> l < length (node_next (nodes ! x)))"

lemma link_level_frame [simp]:
  "length (link_level prev x nodes i) = length nodes"
  "node_key (link_level prev x nodes i ! z) = node_key (nodes ! z)"
  "node_addr (link_level prev x nodes i ! z) = node_addr (nodes ! z)"
  "length (node_next (link_level prev x nodes i ! z)) = length (node_next (nodes ! z))"
  by (simp_all add: link_level_def Let_def)

lemma foldl_link_frame [simp]:
  "length (foldl (link_level prev x) nodes is) = length nodes"
  "node_key (foldl (link_level prev x) nodes is ! z) = node_key (nodes ! z)"
  "node_addr (foldl (link_level prev x) nodes is ! z) = node_addr (nodes ! z)"
  "length (node_next (foldl (link_level prev x) nodes is ! z)) = length (node_next (nodes ! z))"
  by (induction "is" arbitrary: nodes) simp_all

lemma link_level_next:
  assumes "linkable prev x nodes i"
  shows "(\<lambda>z. Node_Next (link_level prev x nodes i) z l) =
    (if l = i then (\<lambda>z. Node_Next nodes z l)(x := Node_Next nodes (the (prev ! l)) l, the (prev ! l) := Some x)
     else (\<lambda>z. Node_Next nodes z l))"
  using assms unfolding linkable_def link_level_def Let_def by (simp add: Next_SetNext)

lemma foldl_link_next:
  assumes "\<forall>l<k. linkable prev x nodes l"
  shows "(\<lambda>z. Node_Next (foldl (link_level prev x) nodes [0..<k]) z l) =
    (if l < k then (\<lambda>z. Node_Next nodes z l)(x := Node_Next nodes (the (prev ! l)) l, the (prev ! l) := Some x)
     else (\<lambda>z. Node_Next nodes z l))"
  using assms
proof (induction k arbitrary: l)
  case (Suc k)
  let ?n = "foldl (link_level prev x) nodes [0..<k]"
  have "linkable prev x ?n k"
    using Suc.prems unfolding linkable_def Let_def by auto
  from link_level_next [OF this, of l] Suc.IH Suc.prems
  have step: "(\<lambda>z. Node_Next (link_level prev x ?n k) z l) =
      (if l = k then (\<lambda>z. Node_Next nodes z l)(x := Node_Next ?n (the (prev ! l)) l, the (prev ! l) := Some x)
       else (\<lambda>z. Node_Next ?n z l))"
    by auto
  have "Node_Next ?n z k = Node_Next nodes z k" for z
    using fun_cong [OF Suc.IH [of k], of z] Suc.prems by auto
  with step Suc.IH Suc.prems show ?case by (auto simp: less_Suc_eq)
qed simp

definition new_node :: "'k \<Rightarrow> nat \<Rightarrow> addr \<Rightarrow> 'k Node" where
  "new_node key height a = \<lparr>node_key = key, node_next = replicate height None, node_addr = a\<rparr>"

text \<open>The levels when the new node \<open>x\<close> is linked in the lowest \<open>k\<close> of them.\<close>

definition splice_levels :: "(nat \<Rightarrow> bool) \<Rightarrow> nat \<Rightarrow> nat \<Rightarrow> (nat \<Rightarrow> nat list) \<Rightarrow> nat \<Rightarrow> nat list" where
  "splice_levels P x k L l =
     (if l < k then filter P (L l) @ x # filter (\<lambda>n. \<not> P n) (L l) else L l)"

context three_way
begin

lemma before_bounds:
  assumes "levels_ok cmp nodes L" "l < kMaxHeight"
  shows "before P (L l) < length nodes" "l < length (node_next (nodes ! before P (L l)))"
  using search_start_before [of P "L l"] assms unfolding search_start_def levels_ok_def
  by (auto simp: head_node_def)

lemma level_split:
  assumes "levels_ok cmp nodes L" "l < kMaxHeight"
  shows "filter (below cmp nodes key) (L l) @ filter (\<lambda>n. \<not> below cmp nodes key n) (L l) = L l"
proof -
  have "sorted_wrt (node_less cmp nodes) (L l)" using assms unfolding levels_ok_def by simp
  from takeWhile_eq_filter_sorted [OF this, of "below cmp nodes key"] node_less_below
  show ?thesis using takeWhile_dropWhile_id [of "below cmp nodes key" "L l"] by metis
qed

lemma levels_ok_append:
  assumes "levels_ok cmp nodes L"
  shows "levels_ok cmp (nodes @ [n]) L"
proof -
  have "linked (\<lambda>x. Node_Next (nodes @ [n]) x l) head_node (L l) = linked (\<lambda>x. Node_Next nodes x l) head_node (L l)"
    if "l < kMaxHeight" for l
    using that assms unfolding levels_ok_def
    by (intro linked_cong) (auto simp: Node_Next_def nth_append head_node_def)
  moreover have "sorted_wrt (node_less cmp (nodes @ [n])) (L l)" if "l < kMaxHeight" for l
    using that assms unfolding levels_ok_def
    by (auto simp: node_less_def nth_append elim!: sorted_wrt_mono_rel [rotated])
  ultimately show ?thesis
    using assms unfolding levels_ok_def by (auto simp: nth_append head_node_def intro: less_SucI)
qed

lemma splice_sorted:
  assumes ok: "levels_ok cmp nodes L" and l: "l < kMaxHeight"
    and fresh: "\<forall>n\<in>set (L 0). cmp (node_key (nodes ! n)) key \<noteq> 0" and sub: "set (L l) \<subseteq> set (L 0)"
    and nodes'_def: "nodes' = nodes @ [new_node key height a]"
  defines "P \<equiv> below cmp nodes key"
  shows "sorted_wrt (node_less cmp nodes') (filter P (L l) @ length nodes # filter (\<lambda>n. \<not> P n) (L l))"
proof -
  have lt: "x < length nodes" if "x \<in> set (L l)" for x
    using ok l that unfolding levels_ok_def by blast
  have new: "node_key (nodes' ! length nodes) = key" and old: "\<And>x. x \<in> set (L l) \<Longrightarrow> nodes' ! x = nodes ! x"
    unfolding nodes'_def using lt by (auto simp: new_node_def nth_append)
  have s: "sorted_wrt (node_less cmp nodes') (L l)"
    using levels_ok_append [OF ok] l unfolding levels_ok_def nodes'_def by blast
  have A: "node_less cmp nodes' x (length nodes)" if "x \<in> set (filter P (L l))" for x
    using that new old unfolding node_less_def P_def below_def by simp
  have B: "node_less cmp nodes' (length nodes) x" if x: "x \<in> set (filter (\<lambda>n. \<not> P n) (L l))" for x
  proof -
    have "cmp (node_key (nodes ! x)) key > 0"
      using x fresh sub unfolding P_def below_def by force
    then show ?thesis using x new old unfolding node_less_def by (simp add: cmp_flip)
  qed
  have AB: "node_less cmp nodes' x y"
    if "x \<in> set (filter P (L l))" "y \<in> set (filter (\<lambda>n. \<not> P n) (L l))" for x y
    using A [OF that(1)] B [OF that(2)] unfolding node_less_def by (rule cmp_less_trans)
  show ?thesis
    unfolding sorted_wrt_append using s A B AB by (auto simp: sorted_wrt_filter)
qed

text \<open>Whatever number of levels is linked so far, the levels are in order.\<close>

lemma levels_ok_splice:
  assumes ok: "levels_ok cmp nodes L" and k: "k \<le> height" "height \<le> kMaxHeight"
    and fresh: "\<forall>n\<in>set (L 0). cmp (node_key (nodes ! n)) key \<noteq> 0"
    and prev: "\<forall>l<height. prev ! l = Some (before (below cmp nodes key) (L l))"
  shows "levels_ok cmp
    (foldl (link_level prev (length nodes)) (nodes @ [new_node key height a]) [0..<k])
    (splice_levels (below cmp nodes key) (length nodes) k L)"
    (is "levels_ok cmp ?nodes' ?L'")
proof -
  let ?P = "below cmp nodes key" and ?x = "length nodes" and ?n1 = "nodes @ [new_node key height a]"
  have ok1: "levels_ok cmp ?n1 L" by (rule levels_ok_append [OF ok])
  have sub: "set (L l) \<subseteq> set (L 0)" if "l < kMaxHeight" for l
    using that
  proof (induction l)
    case (Suc l)
    then show ?case using ok unfolding levels_ok_def by (meson Suc_lessD order_trans)
  qed simp
  have lk: "linkable prev ?x ?n1 l" if "l < k" for l
    using before_bounds [OF ok, of l ?P] that k prev
    by (simp add: linkable_def Let_def nth_append new_node_def)
  have mem: "set (?L' l) \<subseteq> insert ?x (set (L l))" "l < k \<Longrightarrow> set (?L' l) = insert ?x (set (L l))" for l
    by (auto simp: splice_levels_def)
  have nx: "(\<lambda>z. Node_Next ?nodes' z l) = (if l < k then
      (\<lambda>z. Node_Next ?n1 z l)(?x := Node_Next ?n1 (before ?P (L l)) l, before ?P (L l) := Some ?x)
      else (\<lambda>z. Node_Next ?n1 z l))" for l
    using foldl_link_next [of k prev ?x ?n1 l] lk prev k by auto
  have linked: "linked (\<lambda>z. Node_Next ?nodes' z l) head_node (?L' l)" if l: "l < kMaxHeight" for l
  proof -
    have link1: "linked (\<lambda>z. Node_Next ?n1 z l) head_node (L l)" using ok1 l unfolding levels_ok_def by blast
    have dist: "distinct (head_node # L l)" "?x \<notin> set (head_node # L l)"
      using ok l sorted_nodes_distinct unfolding levels_ok_def by (fastforce simp: head_node_def)+
    show ?thesis
      using link1 dist level_split [OF ok l, of key]
        linked_splice [of "\<lambda>z. Node_Next ?n1 z l" head_node "filter ?P (L l)" "filter (\<lambda>n. \<not> ?P n) (L l)" ?x]
      unfolding nx splice_levels_def before_def by auto
  qed
  have sorted: "sorted_wrt (node_less cmp ?nodes') (?L' l)" if l: "l < kMaxHeight" for l
  proof -
    have "node_less cmp ?nodes' = node_less cmp ?n1" by (intro ext) (simp add: node_less_def)
    then show ?thesis
      using splice_sorted [OF ok l fresh sub [OF l] refl] ok1 l
      unfolding splice_levels_def levels_ok_def by auto
  qed
  have bounds: "head_node < x \<and> x < length ?nodes' \<and> l < length (node_next (?nodes' ! x))"
    if "l < kMaxHeight" "x \<in> set (?L' l)" for x l
  proof (cases "x = ?x")
    case True
    then have "l < k" using that ok unfolding splice_levels_def levels_ok_def by (auto split: if_splits)
    then show ?thesis using True k ok by (auto simp: new_node_def head_node_def levels_ok_def)
  next
    case False
    then have "x \<in> set (L l)" using mem(1) [of l] that(2) by auto
    then show ?thesis using ok1 that(1) unfolding levels_ok_def by simp
  qed
  have incl: "set (?L' (Suc l)) \<subseteq> set (?L' l)" if "Suc l < kMaxHeight" for l
    using ok that mem [of l] mem [of "Suc l"] unfolding levels_ok_def splice_levels_def by (auto split: if_splits)
  have "length ?nodes' = Suc (length nodes)"
      and hd: "length (node_next (?nodes' ! head_node)) = kMaxHeight"
    using ok1 unfolding levels_ok_def by simp_all
  then have "?nodes' \<noteq> []" by (metis Zero_not_Suc list.size(3))
  then show ?thesis
    using linked sorted bounds incl hd unfolding levels_ok_def by blast
qed

end

section \<open>Construction\<close>

lemma RandomHeight_loop_bounds:
  "random_ok rnd \<Longrightarrow> h \<le> kMaxHeight \<Longrightarrow> RandomHeight_loop h rnd = (height, rnd') \<Longrightarrow>
     h \<le> height \<and> height \<le> kMaxHeight \<and> random_ok rnd'"
proof (induction h rnd arbitrary: height rnd' rule: RandomHeight_loop.induct)
  case (1 h rnd)
  obtain x rnd1 where n: "Random_Next rnd = (x, rnd1)" by (metis surj_pair)
  have "random_ok rnd1" using Random_Next_mod(2) [OF "1.prems"(1)] n by simp
  note rok = this
  have eq: "(height, rnd') = (if h < kMaxHeight then
      if unat x mod kBranching = 0 then RandomHeight_loop (h + 1) rnd1 else (h, rnd1) else (h, rnd))"
    unfolding "1.prems"(3) [symmetric] by (subst RandomHeight_loop.simps) (simp add: n)
  show ?case
  proof (cases "h < kMaxHeight \<and> unat x mod kBranching = 0")
    case True
    then have "RandomHeight_loop (h + 1) rnd1 = (height, rnd')" using eq by simp
    with "1.IH" [OF _ n [symmetric] refl _ rok _ this] True show ?thesis by simp
  next
    case False
    then show ?thesis using eq rok "1.prems" by (simp split: if_splits)
  qed
qed

lemma RandomHeight_bounds:
  assumes "random_ok rnd" "RandomHeight rnd = (height, rnd')"
  shows "1 \<le> height" "height \<le> kMaxHeight" "random_ok rnd'"
  using RandomHeight_loop_bounds [of rnd 1 height rnd'] assms
  by (simp_all add: RandomHeight_def kMaxHeight_def)

lemma NewNode_eq:
  "NewNode place key height nodes mem =
     (length nodes, nodes @ [new_node key height (fst (AllocateAligned place (sizeof_Node + 8 * (height - 1)) mem))],
      snd (AllocateAligned place (sizeof_Node + 8 * (height - 1)) mem))"
  by (simp add: NewNode_def new_node_def split: prod.split)

lemma make_nodes:
  "sl_nodes (fst (SkipList_make place k mem)) =
     [new_node k kMaxHeight (fst (AllocateAligned place 104 mem))]"
proof -
  have "foldl (\<lambda>nodes i. Node_SetNext 0 i None nodes) [new_node k kMaxHeight a] is = [new_node k kMaxHeight a]"
    for "is" and k :: 'a and a
  proof (induction "is")
    case (Cons i "is")
    have "(replicate kMaxHeight None)[i := None] = replicate kMaxHeight None"
      by (metis list_update_id nth_replicate list_update_beyond length_replicate not_less)
    then have "Node_SetNext 0 i None [new_node k kMaxHeight a] = [new_node k kMaxHeight a]"
      by (simp add: Node_SetNext_def new_node_def)
    then show ?case using Cons by simp
  qed simp
  then show ?thesis
    by (simp add: SkipList_make_def NewNode_eq sizeof_Node_def kMaxHeight_def)
qed

lemma make_fields:
  "sl_max_height (fst (SkipList_make place k mem)) = 1"
  "sl_rnd (fst (SkipList_make place k mem)) = Random_make 0xdeadbeef"
  by (simp_all add: SkipList_make_def split: prod.split)

lemma sl_inv_make: "sl_inv cmp (fst (SkipList_make place k mem)) (\<lambda>_. [])"
  by (auto simp: sl_inv_def levels_ok_def make_nodes make_fields random_ok_make new_node_def
      head_node_def Node_Next_def kMaxHeight_def)

lemma foldl_update_const:
  "length p = n \<Longrightarrow> length (foldl (\<lambda>p i. p[i := v]) p [m..<h]) = n \<and>
     (\<forall>l<n. foldl (\<lambda>p i. p[i := v]) p [m..<h] ! l = (if m \<le> l \<and> l < h then v else p ! l))"
proof (induction h)
  case (Suc h)
  show ?case
  proof (cases "m \<le> h")
    case True
    then show ?thesis using Suc by (auto simp: nth_list_update less_Suc_eq)
  next
    case False
    then show ?thesis using Suc by auto
  qed
qed simp

section \<open>Insertion and lookup\<close>

context three_way
begin

lemma FindGreaterOrEqual_eq:
  assumes inv: "sl_inv cmp sl L" and P_def: "P = below cmp (sl_nodes sl) key"
  shows "FindGreaterOrEqual cmp sl key None = Some (hd_opt (filter (\<lambda>n. \<not> P n) (L 0)), None)"
    and "\<exists>q. FindGreaterOrEqual cmp sl key (Some (replicate kMaxHeight None)) =
        Some (hd_opt (filter (\<lambda>n. \<not> P n) (L 0)), Some q) \<and> length q = kMaxHeight \<and>
      (\<forall>l < sl_max_height sl. q ! l = Some (before P (L l)))"
proof -
  have h: "GetMaxHeight sl - 1 < kMaxHeight" and ok: "levels_ok cmp (sl_nodes sl) L"
    using inv by (auto simp: sl_inv_def GetMaxHeight_def)
  have start: "search_start (below cmp (sl_nodes sl) key) (L (GetMaxHeight sl - 1)) head_node"
    by (simp add: search_start_def)
  note loop = FindGreaterOrEqual_loop_eq [OF ok h start]
  show "FindGreaterOrEqual cmp sl key None = Some (hd_opt (filter (\<lambda>n. \<not> P n) (L 0)), None)"
    unfolding FindGreaterOrEqual_def P_def by (rule loop(1))
  from loop(2) [of "replicate kMaxHeight None"]
  show "\<exists>q. FindGreaterOrEqual cmp sl key (Some (replicate kMaxHeight None)) =
        Some (hd_opt (filter (\<lambda>n. \<not> P n) (L 0)), Some q) \<and> length q = kMaxHeight \<and>
      (\<forall>l < sl_max_height sl. q ! l = Some (before P (L l)))"
    unfolding FindGreaterOrEqual_def P_def
    using inv by (auto simp: sl_inv_def GetMaxHeight_def)
qed

lemma extend_prev_ok:
  assumes inv: "sl_inv cmp sl L" and q: "length q = kMaxHeight"
      "\<forall>l < sl_max_height sl. q ! l = Some (before P (L l))" and h: "height \<le> kMaxHeight"
  shows "\<forall>l<height. extend_prev (sl_max_height sl) height q ! l = Some (before P (L l))"
proof (intro allI impI)
  fix l assume l: "l < height"
  then have lk: "l < kMaxHeight" using h by simp
  show "extend_prev (sl_max_height sl) height q ! l = Some (before P (L l))"
  proof (cases "l < sl_max_height sl")
    case True
    then show ?thesis
      using q(2) foldl_update_const [OF q(1)] lk unfolding extend_prev_def by simp
  next
    case False
    then have "L l = []" using inv lk unfolding sl_inv_def by simp
    with False show ?thesis
      using l foldl_update_const [OF q(1)] lk unfolding extend_prev_def by (simp add: before_def)
  qed
qed

lemma SkipList_Insert_ok:
  assumes inv: "sl_inv cmp sl L" and fresh: "\<forall>k\<in>set (sl_keys sl L). cmp k key \<noteq> 0"
  shows "\<exists>sl' L' mem'. SkipList_Insert place cmp key (sl, mem) = Some (sl', mem') \<and> sl_inv cmp sl' L' \<and>
    sl_keys sl' L' = filter (\<lambda>k. cmp k key < 0) (sl_keys sl L) @ key # filter (\<lambda>k. \<not> cmp k key < 0) (sl_keys sl L)"
proof -
  let ?nodes = "sl_nodes sl" and ?x = "length (sl_nodes sl)"
  let ?P = "below cmp ?nodes key"
  obtain q where fge: "FindGreaterOrEqual cmp sl key (Some (replicate kMaxHeight None)) =
        Some (hd_opt (filter (\<lambda>n. \<not> ?P n) (L 0)), Some q)" "length q = kMaxHeight"
      "\<forall>l < sl_max_height sl. q ! l = Some (before ?P (L l))"
    using FindGreaterOrEqual_eq(2) [OF inv refl] by blast
  obtain height rnd where rh: "RandomHeight (sl_rnd sl) = (height, rnd)" by (metis surj_pair)
  have ok: "levels_ok cmp ?nodes L" and rok: "random_ok (sl_rnd sl)"
      and mh: "1 \<le> sl_max_height sl" "sl_max_height sl \<le> kMaxHeight"
      and empty: "\<And>l. sl_max_height sl \<le> l \<Longrightarrow> l < kMaxHeight \<Longrightarrow> L l = []"
      and all: "set (L 0) = {1..<?x}"
    using inv by (auto simp: sl_inv_def)
  note h = RandomHeight_bounds [OF rok rh]
  define prev where "prev = extend_prev (sl_max_height sl) height q"
  have prev: "\<forall>l<height. prev ! l = Some (before ?P (L l))"
    unfolding prev_def by (rule extend_prev_ok [OF inv fge(2,3) h(2)])
  have fr: "\<forall>n\<in>set (L 0). cmp (node_key (?nodes ! n)) key \<noteq> 0"
    using fresh by (simp add: sl_keys_def)
  define alloc where "alloc = AllocateAligned place (sizeof_Node + 8 * (height - 1)) mem"
  let ?new = "new_node key height (fst alloc)"
  let ?nodes' = "foldl (link_level prev ?x) (?nodes @ [?new]) [0..<height]"
  let ?L' = "splice_levels ?P ?x height L"
  let ?sl' = "\<lparr>sl_nodes = ?nodes', sl_max_height = max height (sl_max_height sl), sl_rnd = rnd\<rparr>"
  have ok': "levels_ok cmp ?nodes' ?L'"
    by (rule levels_ok_splice [OF ok order_refl h(2) fr prev])
  have ins: "SkipList_Insert place cmp key (sl, mem) = Some (?sl', snd alloc)"
    by (simp add: SkipList_Insert_def fge(1) rh NewNode_eq alloc_def GetMaxHeight_def prev_def [symmetric] max_def)
  have "set (?L' 0) = {1..<length ?nodes'}"
    using h(1) all ok unfolding splice_levels_def levels_ok_def by (auto simp: Suc_le_eq)
  then have inv': "sl_inv cmp ?sl' ?L'"
    using ok' h mh empty unfolding sl_inv_def by (auto simp: splice_levels_def)
  have lt: "n < ?x" if "n \<in> set (L 0)" for n using all that by auto
  have old: "map (\<lambda>n. node_key (?nodes' ! n)) (filter Q (L 0)) = map (\<lambda>n. node_key (?nodes ! n)) (filter Q (L 0))" for Q
    using lt by (auto simp: nth_append)
  have new: "node_key (?nodes' ! ?x) = key" by (simp add: new_node_def)
  have "sl_keys ?sl' ?L' = map (\<lambda>n. node_key (?nodes ! n)) (filter ?P (L 0)) @ key #
      map (\<lambda>n. node_key (?nodes ! n)) (filter (\<lambda>n. \<not> ?P n) (L 0))"
    unfolding sl_keys_def splice_levels_def SkipList.simps using h(1) old new by simp
  then have "sl_keys ?sl' ?L' = filter (\<lambda>k. cmp k key < 0) (sl_keys sl L) @ key #
      filter (\<lambda>k. \<not> cmp k key < 0) (sl_keys sl L)"
    unfolding sl_keys_def filter_map o_def below_def .
  with ins inv' show ?thesis by blast
qed

lemma sl_keys_sorted: "sl_inv cmp sl L \<Longrightarrow> sorted_wrt (\<lambda>a b. cmp a b < 0) (sl_keys sl L)"
  by (simp add: sl_inv_def levels_ok_def sl_keys_def sorted_wrt_map node_less_def [abs_def] kMaxHeight_def)

lemma SkipList_Contains_eq:
  assumes inv: "sl_inv cmp sl L"
  shows "SkipList_Contains cmp sl key = Some (\<exists>k\<in>set (sl_keys sl L). cmp k key = 0)"
proof -
  let ?key = "\<lambda>n. node_key (sl_nodes sl ! n)"
  let ?ge = "filter (\<lambda>n. \<not> below cmp (sl_nodes sl) key n) (L 0)"
  have mem: "(\<exists>k\<in>set (sl_keys sl L). cmp k key = 0) \<longleftrightarrow> (\<exists>n\<in>set ?ge. cmp (?key n) key = 0)"
    by (auto simp: sl_keys_def below_def)
  have sorted: "sorted_wrt (node_less cmp (sl_nodes sl)) ?ge"
    using inv unfolding sl_inv_def levels_ok_def by (intro sorted_wrt_filter) (simp add: kMaxHeight_def)
  note fge = FindGreaterOrEqual_eq(1) [OF inv refl, of key]
  show ?thesis
  proof (cases ?ge)
    case Nil
    then show ?thesis unfolding mem by (simp add: SkipList_Contains_def fge)
  next
    case (Cons n rest)
    have "n \<in> set ?ge" using Cons by simp
    then have ge: "cmp (?key n) key \<ge> 0" by (simp add: below_def)
    have "cmp (?key m) key > 0" if "m \<in> set rest" for m
    proof -
      have "cmp (?key n) (?key m) < 0" using sorted Cons that by (simp add: node_less_def)
      moreover have "cmp key (?key n) \<le> 0" using ge by (simp add: cmp_flip_ge)
      ultimately have "cmp key (?key m) < 0" by (rule cmp_le_less_trans [rotated])
      then show ?thesis by (simp add: cmp_flip)
    qed
    then have "(\<exists>m\<in>set ?ge. cmp (?key m) key = 0) \<longleftrightarrow> cmp key (?key n) = 0"
      unfolding Cons using cmp_flip_eq [of key "?key n"] by fastforce
    then show ?thesis
      unfolding mem by (simp add: SkipList_Contains_def fge Cons Equal_def)
  qed
qed

lemma Iterator_Seek_eq:
  assumes inv: "sl_inv cmp sl L"
  shows "\<exists>it. Iterator_Seek cmp sl target = Some it \<and>
    map_option (\<lambda>n. node_key (sl_nodes sl ! n)) it = hd_opt (filter (\<lambda>k. \<not> cmp k target < 0) (sl_keys sl L))"
  by (simp add: Iterator_Seek_def FindGreaterOrEqual_eq(1) [OF inv refl] sl_keys_def filter_map
      hd_opt_map o_def below_def)

lemma Iterator_Next_eq:
  assumes "sl_inv cmp sl L" "i < length (L 0)"
  shows "Iterator_Next sl (Some (L 0 ! i)) = hd_opt (drop (Suc i) (L 0))"
proof -
  have "linked (\<lambda>x. Node_Next (sl_nodes sl) x 0) head_node (L 0)"
    using assms unfolding sl_inv_def levels_ok_def by (simp add: kMaxHeight_def)
  then have "linked (\<lambda>x. Node_Next (sl_nodes sl) x 0) (L 0 ! i) (drop (Suc i) (L 0))"
    using assms(2) linked_append by (metis id_take_nth_drop)
  then show ?thesis using linked_hd by (fastforce simp: Iterator_Next_def)
qed

lemma Iterator_SeekToFirst_eq: "sl_inv cmp sl L \<Longrightarrow> Iterator_SeekToFirst sl = hd_opt (L 0)"
  using linked_hd unfolding sl_inv_def levels_ok_def Iterator_SeekToFirst_def
  by (fastforce simp: kMaxHeight_def)

lemma Iterator_SeekToLast_eq:
  assumes inv: "sl_inv cmp sl L"
  shows "Iterator_SeekToLast sl = Some (hd_opt (rev (L 0)))"
proof -
  have "FindLast sl = Some (last (head_node # L 0))"
    unfolding FindLast_def using inv unfolding sl_inv_def GetMaxHeight_def
    by (intro FindLast_loop_eq) auto
  moreover have "head_node \<notin> set (L 0)" using inv unfolding sl_inv_def by (auto simp: head_node_def)
  ultimately show ?thesis
    by (cases "L 0" rule: rev_cases) (auto simp: Iterator_SeekToLast_def)
qed

lemma Iterator_Prev_eq:
  assumes inv: "sl_inv cmp sl L" and i: "i < length (L 0)"
  shows "Iterator_Prev cmp sl (Some (L 0 ! i)) = Some (hd_opt (rev (take i (L 0))))"
proof -
  let ?P = "below cmp (sl_nodes sl) (node_key (sl_nodes sl ! (L 0 ! i)))"
  have ok: "levels_ok cmp (sl_nodes sl) L" and h: "sl_max_height sl - 1 < kMaxHeight"
      and pos: "head_node \<notin> set (L 0)"
    using inv unfolding sl_inv_def by (auto simp: head_node_def)
  have s: "sorted_wrt (node_less cmp (sl_nodes sl)) (L 0)"
    using ok unfolding levels_ok_def by (simp add: kMaxHeight_def)
  have split: "L 0 = take i (L 0) @ L 0 ! i # drop (Suc i) (L 0)" using i by (rule id_take_nth_drop)
  have s': "sorted_wrt (node_less cmp (sl_nodes sl)) (take i (L 0) @ L 0 ! i # drop (Suc i) (L 0))"
    using s split by simp
  have lt: "?P n" if "n \<in> set (take i (L 0))" for n
    using s' that unfolding sorted_wrt_append below_def node_less_def by simp
  have ge: "\<not> ?P n" if "n \<in> set (L 0 ! i # drop (Suc i) (L 0))" for n
  proof (cases "n = L 0 ! i")
    case True
    then show ?thesis by (simp add: below_def)
  next
    case False
    then have "node_less cmp (sl_nodes sl) (L 0 ! i) n"
      using that s' unfolding sorted_wrt_append by simp
    then show ?thesis by (simp add: node_less_def below_def cmp_flip not_less less_imp_le)
  qed
  have "filter ?P (L 0) = take i (L 0)"
    unfolding arg_cong [OF split, of "filter ?P"] filter_append using lt ge
    by (simp add: filter_empty_conv)
  then have "FindLessThan cmp sl (node_key (sl_nodes sl ! (L 0 ! i))) = Some (last (head_node # take i (L 0)))"
    using FindLessThan_loop_eq [OF ok h] by (simp add: FindLessThan_def GetMaxHeight_def before_def)
  moreover have "head_node \<notin> set (take i (L 0))" using pos by (meson in_set_takeD)
  ultimately show ?thesis
    by (cases "take i (L 0)" rule: rev_cases) (auto simp: Iterator_Prev_def)
qed

end

section \<open>Runs\<close>

primrec insert_all ::
    "placement \<Rightarrow> ('k \<Rightarrow> 'k \<Rightarrow> int) \<Rightarrow> 'k list \<Rightarrow> 'k SkipList \<times> Arena \<times> heap \<Rightarrow>
     ('k SkipList \<times> Arena \<times> heap) option" where
  "insert_all place cmp [] s = Some s"
| "insert_all place cmp (k # ks) s =
     (case SkipList_Insert place cmp k s of None \<Rightarrow> None | Some s \<Rightarrow> insert_all place cmp ks s)"

text \<open>Reading the list with an iterator, at most \<open>n\<close> entries, forwards and backwards.\<close>

primrec traverse :: "'k SkipList \<Rightarrow> nat \<Rightarrow> sl_iterator \<Rightarrow> 'k list" where
  "traverse sl 0 it = []"
| "traverse sl (Suc n) it =
     (if Iterator_Valid it then Iterator_key sl it # traverse sl n (Iterator_Next sl it) else [])"

primrec traverse_back :: "('k \<Rightarrow> 'k \<Rightarrow> int) \<Rightarrow> 'k SkipList \<Rightarrow> nat \<Rightarrow> sl_iterator \<Rightarrow> 'k list option" where
  "traverse_back cmp sl 0 it = Some []"
| "traverse_back cmp sl (Suc n) it =
     (if Iterator_Valid it
      then (case Iterator_Prev cmp sl it of
              None \<Rightarrow> None
            | Some it' \<Rightarrow> map_option ((#) (Iterator_key sl it)) (traverse_back cmp sl n it'))
      else Some [])"

context three_way
begin

lemma traverse_from:
  assumes inv: "sl_inv cmp sl L"
  shows "length (L 0) - i \<le> n \<Longrightarrow> i \<le> length (L 0) \<Longrightarrow>
    traverse sl n (hd_opt (drop i (L 0))) = drop i (sl_keys sl L)"
proof (induction n arbitrary: i)
  case 0
  then show ?case by (simp add: sl_keys_def)
next
  case (Suc n)
  show ?case
  proof (cases "i < length (L 0)")
    case True
    have "drop i (L 0) = L 0 ! i # drop (Suc i) (L 0)" using True by (rule Cons_nth_drop_Suc [symmetric])
    moreover have "drop i (sl_keys sl L) = node_key (sl_nodes sl ! (L 0 ! i)) # drop (Suc i) (sl_keys sl L)"
      using True by (simp add: sl_keys_def drop_map flip: Cons_nth_drop_Suc)
    ultimately show ?thesis
      using Suc.IH [of "Suc i"] Suc.prems True Iterator_Next_eq [OF inv True]
      by (simp add: Iterator_Valid_def Iterator_key_def)
  next
    case False
    then show ?thesis by (simp add: Iterator_Valid_def sl_keys_def)
  qed
qed

lemma traverse_back_from:
  assumes inv: "sl_inv cmp sl L"
  shows "i \<le> n \<Longrightarrow> i \<le> length (L 0) \<Longrightarrow>
    traverse_back cmp sl n (hd_opt (rev (take i (L 0)))) = Some (rev (take i (sl_keys sl L)))"
proof (induction n arbitrary: i)
  case 0
  then show ?case by simp
next
  case (Suc n)
  show ?case
  proof (cases i)
    case 0
    then show ?thesis by (simp add: Iterator_Valid_def)
  next
    case (Suc j)
    then have j: "j < length (L 0)" using Suc.prems by simp
    then have "take i (L 0) = take j (L 0) @ [L 0 ! j]"
        "take i (sl_keys sl L) = take j (sl_keys sl L) @ [node_key (sl_nodes sl ! (L 0 ! j))]"
      using Suc by (simp_all add: take_Suc_conv_app_nth sl_keys_def)
    then show ?thesis
      using Suc.IH [of j] Suc.prems Suc j Iterator_Prev_eq [OF inv j]
      by (simp add: Iterator_Valid_def Iterator_key_def)
  qed
qed

lemma insert_all_ok:
  "sl_inv cmp sl L \<Longrightarrow> sorted_wrt (\<lambda>a b. cmp a b \<noteq> 0) ks \<Longrightarrow>
   \<forall>k\<in>set (sl_keys sl L). \<forall>k'\<in>set ks. cmp k k' \<noteq> 0 \<Longrightarrow>
   \<exists>sl' L' mem'. insert_all place cmp ks (sl, mem) = Some (sl', mem') \<and> sl_inv cmp sl' L' \<and>
     mset (sl_keys sl' L') = mset (sl_keys sl L) + mset ks"
proof (induction ks arbitrary: sl L mem)
  case Nil
  then show ?case by auto
next
  case (Cons k ks)
  obtain sl1 L1 mem1 where
    ins: "SkipList_Insert place cmp k (sl, mem) = Some (sl1, mem1)" "sl_inv cmp sl1 L1"
      "sl_keys sl1 L1 = filter (\<lambda>j. cmp j k < 0) (sl_keys sl L) @ k # filter (\<lambda>j. \<not> cmp j k < 0) (sl_keys sl L)"
    using SkipList_Insert_ok [OF Cons.prems(1), of k] Cons.prems(3) by (metis list.set_intros(1))
  have "mset (sl_keys sl1 L1) = mset (sl_keys sl L) + {#k#}"
    unfolding ins(3) by (simp add: mset_filter flip: multiset_partition)
  moreover have "\<forall>j\<in>set (sl_keys sl1 L1). \<forall>k'\<in>set ks. cmp j k' \<noteq> 0"
    unfolding ins(3) using Cons.prems(2,3) by auto
  ultimately show ?case
    using Cons.IH [OF ins(2), of mem1] Cons.prems(2) ins(1) by auto
qed

lemma run_correct:
  assumes "sorted_wrt (\<lambda>a b. cmp a b \<noteq> 0) ks"
  shows "\<exists>sl mem' out it.
    insert_all place cmp ks (SkipList_make place any_key mem) = Some (sl, mem') \<and>
    traverse sl (length ks) (Iterator_SeekToFirst sl) = out \<and>
    mset out = mset ks \<and> sorted_wrt (\<lambda>a b. cmp a b < 0) out \<and>
    Iterator_SeekToLast sl = Some it \<and> traverse_back cmp sl (length ks) it = Some (rev out) \<and>
    (\<forall>key. SkipList_Contains cmp sl key = Some (\<exists>k\<in>set ks. cmp k key = 0)) \<and>
    (\<forall>key. map_option (map_option (\<lambda>n. Iterator_key sl (Some n))) (Iterator_Seek cmp sl key) =
       Some (hd_opt (filter (\<lambda>k. \<not> cmp k key < 0) out)))"
proof -
  obtain sl0 mem0 where mk: "SkipList_make place any_key mem = (sl0, mem0)" by (metis surj_pair)
  have inv0: "sl_inv cmp sl0 (\<lambda>_. [])" using sl_inv_make [of cmp place any_key mem] mk by simp
  obtain sl L mem' where run: "insert_all place cmp ks (sl0, mem0) = Some (sl, mem')"
      and inv: "sl_inv cmp sl L" and keys: "mset (sl_keys sl L) = mset ks"
    using insert_all_ok [OF inv0 assms, of place mem0] by (auto simp: sl_keys_def)
  have len: "length (L 0) = length ks" using arg_cong [OF keys, of size] by (simp add: sl_keys_def)
  have set: "set (sl_keys sl L) = set ks" by (rule mset_eq_setD [OF keys])
  have fwd: "traverse sl (length ks) (Iterator_SeekToFirst sl) = sl_keys sl L"
    using traverse_from [OF inv, of 0] len Iterator_SeekToFirst_eq [OF inv] by simp
  have bwd: "traverse_back cmp sl (length ks) (hd_opt (rev (L 0))) = Some (rev (sl_keys sl L))"
    using traverse_back_from [OF inv, of "length ks" "length ks"] len by (simp add: sl_keys_def)
  have seek: "map_option (map_option (\<lambda>n. Iterator_key sl (Some n))) (Iterator_Seek cmp sl key) =
       Some (hd_opt (filter (\<lambda>k. \<not> cmp k key < 0) (sl_keys sl L)))" for key
    using Iterator_Seek_eq [OF inv, of key] by (auto simp: Iterator_key_def)
  show ?thesis
    unfolding mk
    using run fwd bwd seek keys sl_keys_sorted [OF inv] SkipList_Contains_eq [OF inv]
      Iterator_SeekToLast_eq [OF inv] unfolding set by blast
qed

end

section \<open>Properties\<close>

text \<open>
  C4. Whatever the random heights, inserting keys no two of which compare equal
  into a new skip list terminates, and the list is then the sorted set of these keys: a forward
  traversal from \<open>SeekToFirst\<close> gives each of them once in increasing order, a backward one from
  \<open>SeekToLast\<close> gives the reverse, \<open>Contains\<close> answers membership up to the comparator, and \<open>Seek\<close>
  stops at the first key that is not below its target.
\<close>
theorem skiplist_correct:
  assumes "three_way cmp" and "sorted_wrt (\<lambda>a b. cmp a b \<noteq> 0) ks"
  shows "\<exists>sl mem' out it.
    insert_all place cmp ks (SkipList_make place any_key mem) = Some (sl, mem') \<and>
    traverse sl (length ks) (Iterator_SeekToFirst sl) = out \<and>
    mset out = mset ks \<and> sorted_wrt (\<lambda>a b. cmp a b < 0) out \<and>
    Iterator_SeekToLast sl = Some it \<and> traverse_back cmp sl (length ks) it = Some (rev out) \<and>
    (\<forall>key. SkipList_Contains cmp sl key = Some (\<exists>k\<in>set ks. cmp k key = 0)) \<and>
    (\<forall>key. map_option (map_option (\<lambda>n. Iterator_key sl (Some n))) (Iterator_Seek cmp sl key) =
       Some (hd_opt (filter (\<lambda>k. \<not> cmp k key < 0) out)))"
  by (rule three_way.run_correct [OF assms])

text \<open>The property at three byte strings under the bytewise order.\<close>
theorem skiplist_correct_witness:
  "\<exists>sl mem'. insert_all bump Slice_compare [[2], [1], [7]] (SkipList_make bump [] (Arena_make, [])) = Some (sl, mem') \<and>
     sorted_wrt bytes_less (traverse sl 3 (Iterator_SeekToFirst sl)) \<and>
     set (traverse sl 3 (Iterator_SeekToFirst sl)) = {[1], [2], [7]} \<and>
     SkipList_Contains Slice_compare sl [7] = Some True \<and> SkipList_Contains Slice_compare sl [3] = Some False"
proof -
  have "three_way Slice_compare" using bytewise.three_way_axioms by simp
  from skiplist_correct [OF this, of "[[2], [1], [7]]" bump "[]" "(Arena_make, [])"]
  obtain sl mem' out where *:
    "insert_all bump Slice_compare [[2], [1], [7]] (SkipList_make bump [] (Arena_make, [])) = Some (sl, mem')"
    "traverse sl (length [[2], [1], [7 :: byte]]) (Iterator_SeekToFirst sl) = out"
    "mset out = mset [[2], [1], [7]]" "sorted_wrt (\<lambda>a b. Slice_compare a b < 0) out"
    "\<forall>key. SkipList_Contains Slice_compare sl key = Some (\<exists>k\<in>set [[2], [1], [7]]. Slice_compare k key = 0)"
    by auto
  have "set out = {[1], [2], [7]}" using mset_eq_setD [OF *(3)] by auto
  with * show ?thesis by (auto simp: Slice_compare_less numeral_3_eq_3)
qed

end
