(* ===== verification/Memtable.thy ===== *)
theory Memtable
  imports Dbformat Skiplist Status
begin

unbundle bit_operations_syntax

text \<open>
  \<^verbatim>\<open>db/memtable.h\<close> and \<^verbatim>\<open>db/memtable.cc\<close>: the memtable, a skip list of encoded entries.

  The keys of the skip list are the entries' bytes in the arena, which nothing changes after they
  are written.  \<open>c\<close> is the user comparator inside the \<^verbatim>\<open>InternalKeyComparator\<close>; \<open>place\<close> and the heap
  are those of theory Arena.
\<close>

section \<open>Entries\<close>

text \<open>
  The file's own \<^verbatim>\<open>GetLengthPrefixedSlice\<close>: at most five bytes are looked at for the length, which
  is assumed well-formed.  The result is the slice and the bytes after it.
\<close>

definition MemTable_GetLengthPrefixedSlice :: "bytes \<Rightarrow> bytes \<times> bytes" where
  "MemTable_GetLengthPrefixedSlice data =
     (case GetVarint32Ptr (take 5 data) of
        Some (len, r) \<Rightarrow>
          (let p = drop (length (take 5 data) - length r) data
           in (take (unat len) p, drop (unat len) p))
      | None \<Rightarrow> ([], []))"

definition MemTable_KeyComparator :: "Comparator \<Rightarrow> bytes \<Rightarrow> bytes \<Rightarrow> int" where
  "MemTable_KeyComparator c aptr bptr =
     (let a = fst (MemTable_GetLengthPrefixedSlice aptr);
          b = fst (MemTable_GetLengthPrefixedSlice bptr)
      in Compare (InternalKeyComparator c) a b)"

definition EncodeKey :: "bytes \<Rightarrow> bytes" where
  "EncodeKey target = PutVarint32 [] (of_nat (length target)) @ target"

section \<open>The table\<close>

record MemTable =
  mt_refs :: int
  mt_arena :: Arena
  mt_table :: "bytes SkipList"

text \<open>The head's key \<^verbatim>\<open>0 /* any key will do */\<close> is a null pointer, which nothing reads.\<close>

definition MemTable_make :: "placement \<Rightarrow> heap \<Rightarrow> MemTable \<times> heap" where
  "MemTable_make place h =
     (let (table, arena, h) = SkipList_make place [] (Arena_make, h)
      in (\<lparr>mt_refs = 0, mt_arena = arena, mt_table = table\<rparr>, h))"

definition MemTable_Ref :: "MemTable \<Rightarrow> MemTable" where
  "MemTable_Ref mt = mt\<lparr>mt_refs := mt_refs mt + 1\<rparr>"

text \<open>\<^term>\<open>None\<close> when the table has been deleted; its arena then gives its blocks back.\<close>

definition MemTable_Unref :: "MemTable \<Rightarrow> heap \<Rightarrow> MemTable option \<times> heap" where
  "MemTable_Unref mt h =
     (let mt = mt\<lparr>mt_refs := mt_refs mt - 1\<rparr>
      in if mt_refs mt \<le> 0 then (None, Arena_destroy (mt_arena mt) h) else (Some mt, h))"

definition MemTable_ApproximateMemoryUsage :: "MemTable \<Rightarrow> nat" where
  "MemTable_ApproximateMemoryUsage mt = MemoryUsage (mt_arena mt)"

definition MemTable_encoded_len :: "bytes \<Rightarrow> bytes \<Rightarrow> nat" where
  "MemTable_encoded_len key value =
     (let key_size = length key;
          val_size = length value;
          internal_key_size = key_size + 8
      in VarintLength (of_nat internal_key_size) + internal_key_size +
         VarintLength (of_nat val_size) + val_size)"

definition MemTable_entry :: "SequenceNumber \<Rightarrow> ValueType \<Rightarrow> bytes \<Rightarrow> bytes \<Rightarrow> bytes" where
  "MemTable_entry s t key value =
     EncodeVarint32 (of_nat (length key + 8)) @ key @
     EncodeFixed64 (push_bit 8 s OR ucast (ValueType_value t)) @
     EncodeVarint32 (of_nat (length value)) @ value"

definition MemTable_Add ::
    "placement \<Rightarrow> Comparator \<Rightarrow> SequenceNumber \<Rightarrow> ValueType \<Rightarrow> bytes \<Rightarrow> bytes \<Rightarrow> MemTable \<times> heap \<Rightarrow>
     (MemTable \<times> heap) option" where
  "MemTable_Add place c s t key value mth =
     (let (mt, h) = mth;
          (buf, arena, h) = Allocate place (MemTable_encoded_len key value) (mt_arena mt, h)
      in case SkipList_Insert place (MemTable_KeyComparator c) (MemTable_entry s t key value)
                (mt_table mt, arena, h) of
           None \<Rightarrow> None
         | Some (table, arena, h) \<Rightarrow> Some (mt\<lparr>mt_arena := arena, mt_table := table\<rparr>, h))"

text \<open>The result, with \<open>value\<close> and \<open>s\<close> as the call leaves \<^verbatim>\<open>*value\<close> and \<^verbatim>\<open>*s\<close>.\<close>

definition MemTable_Get ::
    "Comparator \<Rightarrow> MemTable \<Rightarrow> LookupKey \<Rightarrow> bytes \<Rightarrow> Status \<Rightarrow> (bool \<times> bytes \<times> Status) option" where
  "MemTable_Get c mt key value s =
     (let memkey = LookupKey_memtable_key key in
      case Iterator_Seek (MemTable_KeyComparator c) (mt_table mt) memkey of
        None \<Rightarrow> None
      | Some iter \<Rightarrow>
          Some (if Iterator_Valid iter then
            (let entry = Iterator_key (mt_table mt) iter;
                 (key_length, key_ptr) =
                   (case GetVarint32Ptr (take 5 entry) of
                      Some (len, r) \<Rightarrow> (unat len, drop (length (take 5 entry) - length r) entry)
                    | None \<Rightarrow> (0, []))
             in if Compare c (take (key_length - 8) key_ptr) (LookupKey_user_key key) = 0 then
                  (let tag = DecodeFixed64 (drop (key_length - 8) key_ptr) in
                   if tag AND 0xff = ucast (ValueType_value kTypeValue)
                   then (True, fst (MemTable_GetLengthPrefixedSlice (drop key_length key_ptr)), s)
                   else if tag AND 0xff = ucast (ValueType_value kTypeDeletion)
                   then (True, value, Status_NotFound [] [])
                   else (False, value, s))
                else (False, value, s))
           else (False, value, s)))"

section \<open>The iterator\<close>

definition MemTableIterator_Valid :: "sl_iterator \<Rightarrow> bool" where
  "MemTableIterator_Valid it = Iterator_Valid it"

definition MemTableIterator_Seek :: "Comparator \<Rightarrow> MemTable \<Rightarrow> bytes \<Rightarrow> sl_iterator option" where
  "MemTableIterator_Seek c mt k = Iterator_Seek (MemTable_KeyComparator c) (mt_table mt) (EncodeKey k)"

definition MemTableIterator_SeekToFirst :: "MemTable \<Rightarrow> sl_iterator" where
  "MemTableIterator_SeekToFirst mt = Iterator_SeekToFirst (mt_table mt)"

definition MemTableIterator_SeekToLast :: "MemTable \<Rightarrow> sl_iterator option" where
  "MemTableIterator_SeekToLast mt = Iterator_SeekToLast (mt_table mt)"

definition MemTableIterator_Next :: "MemTable \<Rightarrow> sl_iterator \<Rightarrow> sl_iterator" where
  "MemTableIterator_Next mt it = Iterator_Next (mt_table mt) it"

definition MemTableIterator_Prev :: "Comparator \<Rightarrow> MemTable \<Rightarrow> sl_iterator \<Rightarrow> sl_iterator option" where
  "MemTableIterator_Prev c mt it = Iterator_Prev (MemTable_KeyComparator c) (mt_table mt) it"

definition MemTableIterator_key :: "MemTable \<Rightarrow> sl_iterator \<Rightarrow> bytes" where
  "MemTableIterator_key mt it = fst (MemTable_GetLengthPrefixedSlice (Iterator_key (mt_table mt) it))"

definition MemTableIterator_value :: "MemTable \<Rightarrow> sl_iterator \<Rightarrow> bytes" where
  "MemTableIterator_value mt it =
     (let after_key = snd (MemTable_GetLengthPrefixedSlice (Iterator_key (mt_table mt) it))
      in fst (MemTable_GetLengthPrefixedSlice after_key))"

section \<open>Decoding entries\<close>

lemma GetVarint32Ptr_take5:
  "\<exists>r. GetVarint32Ptr (take 5 (EncodeVarint32 v @ rest)) = Some (v, r) \<and>
     length (take 5 (EncodeVarint32 v @ rest)) - length r = length (EncodeVarint32 v)"
proof -
  have "take 5 (EncodeVarint32 v @ rest) = EncodeVarint32 v @ take (5 - length (EncodeVarint32 v)) rest"
    using length_EncodeVarint32_bounds(2) [of v] by simp
  then show ?thesis by simp
qed

lemma mt_slice_encoded:
  assumes "length s < 2 ^ 32"
  shows "MemTable_GetLengthPrefixedSlice (EncodeVarint32 (of_nat (length s)) @ s @ rest) = (s, rest)"
  using GetVarint32Ptr_take5 [of "of_nat (length s)" "s @ rest"] assms
  by (auto simp: MemTable_GetLengthPrefixedSlice_def unat_of_nat_u32)

lemma MemTable_entry_eq:
  "MemTable_entry s t key value =
     EncodeVarint32 (of_nat (length (AppendInternalKey [] \<lparr>pk_user_key = key, pk_sequence = s, pk_type = t\<rparr>))) @
     AppendInternalKey [] \<lparr>pk_user_key = key, pk_sequence = s, pk_type = t\<rparr> @
     EncodeVarint32 (of_nat (length value)) @ value"
  by (simp add: MemTable_entry_def AppendInternalKey_eq PackSequenceAndType_def)

text \<open>The buffer has exactly the length of the entry, as the assertion in \<^verbatim>\<open>Add\<close> says.\<close>

lemma length_MemTable_entry:
  assumes "length key + 8 < 2 ^ 32" "length value < 2 ^ 32"
  shows "length (MemTable_entry s t key value) = MemTable_encoded_len key value"
proof -
  have u: "ucast (of_nat n :: u32) = (of_nat n :: u64)" if "n < 2 ^ 32" for n
    using that by (simp add: word_unat_eq_iff unsigned_ucast_eq unsigned_of_nat take_bit_nat_eq_self)
  show ?thesis
    using u [OF assms(1)] u [OF assms(2)]
    by (simp add: MemTable_entry_def MemTable_encoded_len_def Let_def length_EncodeVarint32)
qed

section \<open>The contents of a memtable\<close>

record Entry =
  e_seq :: SequenceNumber
  e_type :: ValueType
  e_key :: bytes
  e_value :: bytes

definition entry_ok :: "Entry \<Rightarrow> bool" where
  "entry_ok e \<longleftrightarrow> e_seq e \<le> kMaxSequenceNumber \<and> length (e_key e) + 8 < 2 ^ 32 \<and> length (e_value e) < 2 ^ 32"

definition entry_internal :: "Entry \<Rightarrow> bytes" where
  "entry_internal e = AppendInternalKey [] \<lparr>pk_user_key = e_key e, pk_sequence = e_seq e, pk_type = e_type e\<rparr>"

definition entry_bytes :: "Entry \<Rightarrow> bytes" where
  "entry_bytes e = MemTable_entry (e_seq e) (e_type e) (e_key e) (e_value e)"

lemma entry_slice:
  assumes "entry_ok e"
  shows "MemTable_GetLengthPrefixedSlice (entry_bytes e) =
    (entry_internal e, EncodeVarint32 (of_nat (length (e_value e))) @ e_value e)"
proof -
  have "length (entry_internal e) < 2 ^ 32"
    using assms by (simp add: entry_ok_def entry_internal_def AppendInternalKey_eq)
  from mt_slice_encoded [OF this] show ?thesis
    by (simp add: entry_bytes_def MemTable_entry_eq entry_internal_def)
qed

lemma entry_value_slice:
  assumes "entry_ok e"
  shows "MemTable_GetLengthPrefixedSlice (EncodeVarint32 (of_nat (length (e_value e))) @ e_value e) = (e_value e, [])"
  using mt_slice_encoded [of "e_value e" "[]"] assms by (simp add: entry_ok_def)

lemma lookup_slice:
  assumes "length uk + 8 < 2 ^ 32"
  shows "fst (MemTable_GetLengthPrefixedSlice (LookupKey_memtable_key (LookupKey_make uk snap))) =
    AppendInternalKey [] \<lparr>pk_user_key = uk, pk_sequence = snap, pk_type = kTypeValue\<rparr>"
proof -
  let ?ik = "AppendInternalKey [] \<lparr>pk_user_key = uk, pk_sequence = snap, pk_type = kTypeValue\<rparr>"
  have "length ?ik < 2 ^ 32" using assms by (simp add: AppendInternalKey_eq)
  moreover have "LookupKey_memtable_key (LookupKey_make uk snap) = EncodeVarint32 (of_nat (length ?ik)) @ ?ik"
    by (simp add: LookupKey_memtable_key_def LookupKey_make_def Let_def AppendInternalKey_eq kValueTypeForSeek_def add.commute)
  ultimately show ?thesis using mt_slice_encoded [of ?ik "[]"] by simp
qed

text \<open>How entries compare, with each other and with a lookup key.\<close>

definition same_key :: "Comparator \<Rightarrow> Entry \<Rightarrow> bytes \<Rightarrow> bool" where
  "same_key c e uk \<longleftrightarrow> Compare c (e_key e) uk = 0"

lemma compare_entries:
  assumes "entry_ok a" "entry_ok b"
  shows "MemTable_KeyComparator c (entry_bytes a) (entry_bytes b) =
    InternalKeyComparator_Compare c (entry_internal a) (entry_internal b)"
  using assms by (simp add: MemTable_KeyComparator_def entry_slice)

lemma internal_compare_entries:
  assumes "entry_ok a" "entry_ok b"
  shows "InternalKeyComparator_Compare c (entry_internal a) (entry_internal b) =
    (if Compare c (e_key a) (e_key b) = 0
     then if e_seq b < e_seq a \<or> e_seq a = e_seq b \<and> ValueType_value (e_type b) < ValueType_value (e_type a) then - 1
          else if e_seq a < e_seq b \<or> e_seq a = e_seq b \<and> ValueType_value (e_type a) < ValueType_value (e_type b) then 1
          else 0
     else Compare c (e_key a) (e_key b))"
proof -
  have p: "PackSequenceAndType (e_seq a) (e_type a) < PackSequenceAndType (e_seq b) (e_type b) \<longleftrightarrow>
      e_seq a < e_seq b \<or> e_seq a = e_seq b \<and> ValueType_value (e_type a) < ValueType_value (e_type b)"
    "PackSequenceAndType (e_seq b) (e_type b) < PackSequenceAndType (e_seq a) (e_type a) \<longleftrightarrow>
      e_seq b < e_seq a \<or> e_seq a = e_seq b \<and> ValueType_value (e_type b) < ValueType_value (e_type a)"
    using assms by (auto simp: Pack_less_iff entry_ok_def)
  have "InternalKeyComparator_Compare c (entry_internal a) (entry_internal b) =
      (if Compare c (e_key a) (e_key b) = 0
       then if PackSequenceAndType (e_seq b) (e_type b) < PackSequenceAndType (e_seq a) (e_type a) then - 1
            else if PackSequenceAndType (e_seq a) (e_type a) < PackSequenceAndType (e_seq b) (e_type b) then 1
            else 0
       else Compare c (e_key a) (e_key b))"
    by (simp add: InternalKeyComparator_Compare_def entry_internal_def AppendInternalKey_eq Let_def)
  then show ?thesis unfolding p .
qed

lemma compare_lookup:
  assumes "entry_ok e" "length uk + 8 < 2 ^ 32" "snap \<le> kMaxSequenceNumber"
  shows "MemTable_KeyComparator c (entry_bytes e) (LookupKey_memtable_key (LookupKey_make uk snap)) < 0 \<longleftrightarrow>
    Compare c (e_key e) uk < 0 \<or> Compare c (e_key e) uk = 0 \<and> snap < e_seq e"
proof -
  have p: "PackSequenceAndType snap kTypeValue < PackSequenceAndType (e_seq e) (e_type e) \<longleftrightarrow> snap < e_seq e"
    using assms Pack_less_iff [of snap "e_seq e" kTypeValue "e_type e"]
    by (cases "e_type e") (auto simp: entry_ok_def)
  show ?thesis
    using p by (auto simp: MemTable_KeyComparator_def entry_slice [OF assms(1)] lookup_slice [OF assms(2)]
        InternalKeyComparator_Compare_def entry_internal_def AppendInternalKey_eq Let_def)
qed

section \<open>What a lookup returns\<close>

text \<open>The abstract memtable: the entries added, of which a lookup sees the newest that is visible.\<close>

definition visible :: "Comparator \<Rightarrow> bytes \<Rightarrow> SequenceNumber \<Rightarrow> Entry \<Rightarrow> bool" where
  "visible c uk snap e \<longleftrightarrow> Compare c (e_key e) uk = 0 \<and> e_seq e \<le> snap"

definition newer :: "Entry \<Rightarrow> Entry option \<Rightarrow> Entry option" where
  "newer e acc = (case acc of None \<Rightarrow> Some e | Some a \<Rightarrow> if e_seq a < e_seq e then Some e else Some a)"

definition newest :: "Entry list \<Rightarrow> Entry option" where
  "newest es = fold newer es None"

definition spec_get :: "Comparator \<Rightarrow> Entry list \<Rightarrow> bytes \<Rightarrow> SequenceNumber \<Rightarrow> bytes \<Rightarrow> Status \<Rightarrow> bool \<times> bytes \<times> Status" where
  "spec_get c es uk snap value s =
     (case newest (filter (visible c uk snap) es) of
        None \<Rightarrow> (False, value, s)
      | Some e \<Rightarrow> (case e_type e of
            kTypeValue \<Rightarrow> (True, e_value e, s)
          | kTypeDeletion \<Rightarrow> (True, value, Status_NotFound [] [])))"

lemma fold_newer:
  "fold newer es (Some a) = Some e \<Longrightarrow> e \<in> insert a (set es) \<and> (\<forall>b\<in>insert a (set es). e_seq b \<le> e_seq e)"
proof (induction es arbitrary: a)
  case (Cons b es)
  show ?case
  proof (cases "e_seq a < e_seq b")
    case True
    with Cons.IH [of b] Cons.prems show ?thesis by (auto simp: newer_def)
  next
    case False
    with Cons.IH [of a] Cons.prems show ?thesis by (auto simp: newer_def)
  qed
qed simp

lemma fold_newer_Some: "\<exists>e. fold newer es (Some a) = Some e"
  by (induction es arbitrary: a) (auto simp: newer_def)

lemma newest_cases:
  "newest es = None \<and> es = [] \<or> (\<exists>e. newest es = Some e \<and> e \<in> set es \<and> (\<forall>b\<in>set es. e_seq b \<le> e_seq e))"
proof (cases es)
  case Nil
  then show ?thesis by (simp add: newest_def)
next
  case (Cons a es')
  obtain e where e: "fold newer es' (Some a) = Some e" using fold_newer_Some by blast
  from fold_newer [OF e] e Cons show ?thesis by (auto simp: newest_def newer_def)
qed

text \<open>Entries with different internal keys, as different sequence numbers make them.\<close>

definition distinct_entries :: "Comparator \<Rightarrow> Entry list \<Rightarrow> bool" where
  "distinct_entries c es \<longleftrightarrow> sorted_wrt (\<lambda>a b. \<not> (Compare c (e_key a) (e_key b) = 0 \<and> e_seq a = e_seq b)) es"

definition mt_inv :: "Comparator \<Rightarrow> MemTable \<Rightarrow> Entry list \<Rightarrow> bool" where
  "mt_inv c mt es \<longleftrightarrow>
     (\<exists>L sorted_es. sl_inv (MemTable_KeyComparator c) (mt_table mt) L \<and>
        sl_keys (mt_table mt) L = map entry_bytes sorted_es \<and> mset sorted_es = mset es \<and>
        (\<forall>e\<in>set es. entry_ok e))"

lemma entry_key_ptr:
  assumes "entry_ok e"
  shows "(case GetVarint32Ptr (take 5 (entry_bytes e)) of
      Some (len, r) \<Rightarrow> (unat len, drop (length (take 5 (entry_bytes e)) - length r) (entry_bytes e))
    | None \<Rightarrow> (0, [])) =
    (length (e_key e) + 8,
     e_key e @ EncodeFixed64 (PackSequenceAndType (e_seq e) (e_type e)) @
       EncodeVarint32 (of_nat (length (e_value e))) @ e_value e)"
proof -
  have b: "entry_bytes e = EncodeVarint32 (of_nat (length (e_key e) + 8)) @ e_key e @
      EncodeFixed64 (PackSequenceAndType (e_seq e) (e_type e)) @ EncodeVarint32 (of_nat (length (e_value e))) @ e_value e"
    by (simp add: entry_bytes_def MemTable_entry_def PackSequenceAndType_def)
  have "unat (of_nat (length (e_key e) + 8) :: u32) = length (e_key e) + 8"
    using assms unfolding entry_ok_def by (intro unat_of_nat_u32) simp
  then show ?thesis
    using GetVarint32Ptr_take5 [of "of_nat (length (e_key e) + 8)" "e_key e @
      EncodeFixed64 (PackSequenceAndType (e_seq e) (e_type e)) @ EncodeVarint32 (of_nat (length (e_value e))) @ e_value e"]
    unfolding b by (auto simp del: of_nat_add)
qed

lemma Pack_low_u64: "PackSequenceAndType s t AND 0xff = ucast (ValueType_value t)"
proof (rule bit_word_eqI)
  fix n assume "n < LENGTH(64)"
  show "bit (PackSequenceAndType s t AND 0xff) n \<longleftrightarrow> bit (ucast (ValueType_value t) :: u64) n"
    by (auto simp: PackSequenceAndType_def bit_and_iff bit_or_iff bit_push_bit_iff bit_u64_255
        bit_ValueType_value simp del: bit_numeral_word_iff)
qed

text \<open>What \<^verbatim>\<open>Get\<close> does with the entry it stops at.\<close>

lemma MemTable_Get_entry:
  assumes seek: "Iterator_Seek (MemTable_KeyComparator c) (mt_table mt) (LookupKey_memtable_key (LookupKey_make uk snap)) = Some (Some n)"
    and key: "Iterator_key (mt_table mt) (Some n) = entry_bytes e" and e: "entry_ok e"
  shows "MemTable_Get c mt (LookupKey_make uk snap) value s =
    Some (if Compare c (e_key e) uk = 0
          then case e_type e of kTypeValue \<Rightarrow> (True, e_value e, s) | kTypeDeletion \<Rightarrow> (True, value, Status_NotFound [] [])
          else (False, value, s))"
  unfolding MemTable_Get_def Let_def seek option.simps key entry_key_ptr [OF e]
  using entry_value_slice [OF e]
  by (cases "e_type e") (simp_all add: Iterator_Valid_def LookupKey_user_key_make Pack_low_u64)

context key_comparator
begin

lemma memtable_three_way: "three_way (MemTable_KeyComparator c)"
  using internal_three_way unfolding three_way_def MemTable_KeyComparator_def Let_def
    InternalKeyComparator_simps by blast

lemma mt_inv_make: "mt_inv c (fst (MemTable_make place h)) []"
proof -
  have "sl_inv (MemTable_KeyComparator c) (mt_table (fst (MemTable_make place h))) (\<lambda>_. [])"
    using sl_inv_make [of "MemTable_KeyComparator c" place "[]" "(Arena_make, h)"]
    by (auto simp: MemTable_make_def split: prod.splits)
  then show ?thesis unfolding mt_inv_def by (intro exI [of _ "\<lambda>_. []"] exI [of _ "[]"]) (simp add: sl_keys_def)
qed

lemma compare_entries_eq_0:
  assumes "entry_ok a" "entry_ok b" "MemTable_KeyComparator c (entry_bytes a) (entry_bytes b) = 0"
  shows "Compare c (e_key a) (e_key b) = 0 \<and> e_seq a = e_seq b"
  using assms(3) unfolding compare_entries [OF assms(1,2)] internal_compare_entries [OF assms(1,2)]
  by (auto split: if_splits)

lemma mt_inv_Add:
  assumes inv: "mt_inv c mt es" and e: "entry_ok e"
    and new: "\<forall>a\<in>set es. \<not> (Compare c (e_key a) (e_key e) = 0 \<and> e_seq a = e_seq e)"
  shows "\<exists>mt' h'. MemTable_Add place c (e_seq e) (e_type e) (e_key e) (e_value e) (mt, h) = Some (mt', h') \<and>
    mt_inv c mt' (es @ [e])"
proof -
  let ?cmp = "MemTable_KeyComparator c"
  obtain L ses where L: "sl_inv ?cmp (mt_table mt) L" "sl_keys (mt_table mt) L = map entry_bytes ses"
      "mset ses = mset es" "\<forall>e\<in>set es. entry_ok e"
    using inv unfolding mt_inv_def by blast
  have set: "set ses = set es" by (rule mset_eq_setD [OF L(3)])
  have fresh: "\<forall>k\<in>set (sl_keys (mt_table mt) L). ?cmp k (entry_bytes e) \<noteq> 0"
    using L(2,4) set new e compare_entries_eq_0 by auto
  obtain buf arena h1 where al: "Allocate place (MemTable_encoded_len (e_key e) (e_value e)) (mt_arena mt, h) = (buf, arena, h1)"
    by (metis prod_cases3)
  obtain sl' L' arena' h' where ins:
      "SkipList_Insert place ?cmp (entry_bytes e) (mt_table mt, arena, h1) = Some (sl', arena', h')" "sl_inv ?cmp sl' L'"
      "sl_keys sl' L' = filter (\<lambda>k. ?cmp k (entry_bytes e) < 0) (sl_keys (mt_table mt) L) @ entry_bytes e #
         filter (\<lambda>k. \<not> ?cmp k (entry_bytes e) < 0) (sl_keys (mt_table mt) L)"
    using three_way.SkipList_Insert_ok [OF memtable_three_way L(1) fresh, of place "(arena, h1)"] by auto
  let ?lt = "\<lambda>x. ?cmp (entry_bytes x) (entry_bytes e) < 0"
  let ?ses' = "filter ?lt ses @ e # filter (\<lambda>x. \<not> ?lt x) ses"
  have "sl_keys sl' L' = map entry_bytes ?ses'"
    unfolding ins(3) L(2) by (simp add: filter_map o_def)
  moreover have "mset ?ses' = mset (es @ [e])"
    using L(3) by (simp add: mset_filter flip: multiset_partition)
  ultimately have "mt_inv c (mt\<lparr>mt_arena := arena', mt_table := sl'\<rparr>) (es @ [e])"
    unfolding mt_inv_def using ins(2) L(4) e by (intro exI [of _ L'] exI [of _ ?ses']) simp
  then show ?thesis
    using ins(1) al by (simp add: MemTable_Add_def entry_bytes_def)
qed

lemma distinct_entriesD:
  "distinct_entries c es \<Longrightarrow> a \<in> set es \<Longrightarrow> b \<in> set es \<Longrightarrow> a \<noteq> b \<Longrightarrow>
     \<not> (Compare c (e_key a) (e_key b) = 0 \<and> e_seq a = e_seq b)"
  unfolding distinct_entries_def
  by (induction es) (use cmp_flip_eq in \<open>auto dest: sym\<close>)

text \<open>The first entry not below a lookup key is the newest visible one, if there is a visible one.\<close>

lemma first_not_below:
  assumes sorted: "sorted_wrt (\<lambda>a b. MemTable_KeyComparator c (entry_bytes a) (entry_bytes b) < 0) ses"
    and ok: "\<forall>e\<in>set ses. entry_ok e" and dist: "distinct_entries c es" and set: "set ses = set es"
    and G: "filter (\<lambda>e. \<not> (Compare c (e_key e) uk < 0 \<or> Compare c (e_key e) uk = 0 \<and> snap < e_seq e)) ses = e0 # rest"
      (is "filter ?G ses = _")
  shows "newest (filter (visible c uk snap) es) = (if Compare c (e_key e0) uk = 0 then Some e0 else None)"
proof -
  have G_set: "set (filter ?G ses) = insert e0 (set rest)" unfolding G by simp
  then have e0: "e0 \<in> set ses" "?G e0" by auto
  have in_G: "e \<in> insert e0 (set rest)" if "e \<in> set ses" "?G e" for e
    using G_set that by auto
  have vis_G: "?G e" if "visible c uk snap e" for e using that by (auto simp: visible_def)
  have less: "MemTable_KeyComparator c (entry_bytes e0) (entry_bytes e) < 0" if "e \<in> set rest" for e
    using sorted_wrt_filter [OF sorted, of ?G] that unfolding G by simp
  have after: "Compare c (e_key e0) (e_key e) \<le> 0 \<and> (Compare c (e_key e0) (e_key e) = 0 \<longrightarrow> e_seq e \<le> e_seq e0)"
    if "e \<in> set ses" "visible c uk snap e" for e
  proof (cases "e = e0")
    case False
    then have "e \<in> set rest" using in_G [OF that(1) vis_G [OF that(2)]] by simp
    from less [OF this] show ?thesis
      unfolding compare_entries [OF bspec [OF ok e0(1)] bspec [OF ok that(1)]]
        internal_compare_entries [OF bspec [OF ok e0(1)] bspec [OF ok that(1)]]
      by (auto split: if_splits)
  qed simp
  show ?thesis
  proof (cases "Compare c (e_key e0) uk = 0")
    case True
    then have v0: "e0 \<in> set (filter (visible c uk snap) es)" using e0 set by (auto simp: visible_def)
    then obtain e where e: "newest (filter (visible c uk snap) es) = Some e"
        "e \<in> set (filter (visible c uk snap) es)" "e_seq e0 \<le> e_seq e"
      using newest_cases [of "filter (visible c uk snap) es"] by (metis empty_iff list.set(1))
    have same: "Compare c (e_key e0) (e_key e) = 0"
      using True e(2) cmp_flip_eq [of "e_key e" uk] cmp_trans [of "e_key e0" uk "e_key e"]
        cmp_trans [of "e_key e" uk "e_key e0"] cmp_flip_eq [of "e_key e0" uk] cmp_flip_le [of "e_key e0" "e_key e"]
        cmp_flip_le [of "e_key e" "e_key e0"]
      by (auto simp: visible_def)
    then have "e_seq e = e_seq e0" using after [of e] e set by auto
    then have "e = e0"
      using distinct_entriesD [OF dist, of e0 e] same e(2) e0(1) set by auto
    with e(1) True show ?thesis by simp
  next
    case False
    then have gt: "0 < Compare c (e_key e0) uk" using e0(2) by auto
    have "filter (visible c uk snap) es = []"
    proof (rule ccontr)
      assume "filter (visible c uk snap) es \<noteq> []"
      then obtain e where e: "e \<in> set ses" "visible c uk snap e"
        using set by (auto simp: filter_empty_conv)
      then have "Compare c (e_key e0) uk \<le> 0"
        using after [OF e] cmp_trans [of "e_key e0" "e_key e" uk] by (auto simp: visible_def)
      with gt show False by simp
    qed
    with False show ?thesis by (simp add: newest_def)
  qed
qed

lemma MemTable_Get_eq:
  assumes inv: "mt_inv c mt es" and dist: "distinct_entries c es"
    and uk: "length uk + 8 < 2 ^ 32" and snap: "snap \<le> kMaxSequenceNumber"
  shows "MemTable_Get c mt (LookupKey_make uk snap) value s = Some (spec_get c es uk snap value s)"
proof -
  let ?cmp = "MemTable_KeyComparator c" and ?target = "LookupKey_memtable_key (LookupKey_make uk snap)"
  obtain L ses where L: "sl_inv ?cmp (mt_table mt) L" "sl_keys (mt_table mt) L = map entry_bytes ses"
      "mset ses = mset es" "\<forall>e\<in>set es. entry_ok e"
    using inv unfolding mt_inv_def by blast
  have set: "set ses = set es" by (rule mset_eq_setD [OF L(3)])
  have ok: "\<forall>e\<in>set ses. entry_ok e" using L(4) set by simp
  have sorted: "sorted_wrt (\<lambda>a b. ?cmp (entry_bytes a) (entry_bytes b) < 0) ses"
    using three_way.sl_keys_sorted [OF memtable_three_way L(1)] unfolding L(2) sorted_wrt_map .
  let ?G = "\<lambda>e. \<not> (Compare c (e_key e) uk < 0 \<or> Compare c (e_key e) uk = 0 \<and> snap < e_seq e)"
  have "filter (\<lambda>k. \<not> ?cmp k ?target < 0) (map entry_bytes ses) = map entry_bytes (filter ?G ses)"
    unfolding filter_map o_def using ok compare_lookup [OF _ uk snap]
    by (intro arg_cong [where f = "map entry_bytes"] filter_cong refl) simp
  then obtain it where it: "Iterator_Seek ?cmp (mt_table mt) ?target = Some it"
      "map_option (\<lambda>n. node_key (sl_nodes (mt_table mt) ! n)) it = hd_opt (map entry_bytes (filter ?G ses))"
    using three_way.Iterator_Seek_eq [OF memtable_three_way L(1), of ?target] unfolding L(2) by auto
  show ?thesis
  proof (cases "filter ?G ses")
    case Nil
    then have "it = None" using it(2) by simp
    then have "MemTable_Get c mt (LookupKey_make uk snap) value s = Some (False, value, s)"
      using it(1) by (simp add: MemTable_Get_def Iterator_Valid_def Let_def)
    moreover have "filter (visible c uk snap) es = []"
      using Nil set unfolding filter_empty_conv by (auto simp: visible_def)
    ultimately show ?thesis by (simp add: spec_get_def newest_def)
  next
    case (Cons e0 rest)
    then obtain n where n: "it = Some n" "Iterator_key (mt_table mt) (Some n) = entry_bytes e0"
      using it(2) by (auto simp: Iterator_key_def)
    have "e0 \<in> set (filter ?G ses)" unfolding Cons by simp
    then have e0: "entry_ok e0" using ok by simp
    show ?thesis
      unfolding spec_get_def first_not_below [OF sorted ok dist set Cons]
      using MemTable_Get_entry [OF it(1) [unfolded n(1)] n(2) e0] by simp
  qed
qed

end

section \<open>Properties\<close>

primrec add_all :: "placement \<Rightarrow> Comparator \<Rightarrow> Entry list \<Rightarrow> MemTable \<times> heap \<Rightarrow> (MemTable \<times> heap) option" where
  "add_all place c [] s = Some s"
| "add_all place c (e # es) s =
     (case MemTable_Add place c (e_seq e) (e_type e) (e_key e) (e_value e) s of
        None \<Rightarrow> None | Some s \<Rightarrow> add_all place c es s)"

context key_comparator
begin

lemma add_all_ok:
  "mt_inv c mt es0 \<Longrightarrow> distinct_entries c (es0 @ es) \<Longrightarrow> \<forall>e\<in>set es. entry_ok e \<Longrightarrow>
     \<exists>mt' h'. add_all place c es (mt, h) = Some (mt', h') \<and> mt_inv c mt' (es0 @ es)"
proof (induction es arbitrary: mt h es0)
  case (Cons e es)
  have "\<forall>a\<in>set es0. \<not> (Compare c (e_key a) (e_key e) = 0 \<and> e_seq a = e_seq e)"
    using Cons.prems(2) unfolding distinct_entries_def by (simp add: sorted_wrt_append)
  with mt_inv_Add [OF Cons.prems(1)] Cons.prems(3) obtain mt1 h1 where
    "MemTable_Add place c (e_seq e) (e_type e) (e_key e) (e_value e) (mt, h) = Some (mt1, h1)" "mt_inv c mt1 (es0 @ [e])"
    by (metis list.set_intros(1))
  with Cons.IH [of mt1 "es0 @ [e]" h1] Cons.prems show ?case by simp
qed simp

lemma memtable_correct:
  assumes "distinct_entries c es" "\<forall>e\<in>set es. entry_ok e"
  shows "\<exists>mt h'. add_all place c es (MemTable_make place h) = Some (mt, h') \<and>
    (\<forall>uk snap value s. length uk + 8 < 2 ^ 32 \<longrightarrow> snap \<le> kMaxSequenceNumber \<longrightarrow>
       MemTable_Get c mt (LookupKey_make uk snap) value s = Some (spec_get c es uk snap value s))"
proof -
  obtain mt0 h0 where mk: "MemTable_make place h = (mt0, h0)" by (metis surj_pair)
  have "mt_inv c mt0 []" using mt_inv_make [of place h] mk by simp
  from add_all_ok [OF this, of es place h0] assms obtain mt h' where
    "add_all place c es (mt0, h0) = Some (mt, h')" "mt_inv c mt es" by auto
  with MemTable_Get_eq [OF _ assms(1)] show ?thesis unfolding mk by blast
qed

end

text \<open>
  C3. After any sequence of \<open>Add\<close> calls with different sequence numbers for equal user
  keys, \<open>Get\<close> at a snapshot answers with the entry of that user key that has the largest sequence
  number not above the snapshot: its value, or \<open>NotFound\<close> for a deletion, and \<open>false\<close> without
  touching its outputs if there is none.
\<close>
theorem memtable_get:
  assumes "key_comparator c" "distinct_entries c es" "\<forall>e\<in>set es. entry_ok e"
  shows "\<exists>mt h'. add_all place c es (MemTable_make place h) = Some (mt, h') \<and>
    (\<forall>uk snap value s. length uk + 8 < 2 ^ 32 \<longrightarrow> snap \<le> kMaxSequenceNumber \<longrightarrow>
       MemTable_Get c mt (LookupKey_make uk snap) value s = Some (spec_get c es uk snap value s))"
  by (rule key_comparator.memtable_correct [OF assms])

text \<open>A value, then a deletion of the same key, read at snapshots before and after the deletion.\<close>
theorem memtable_get_witness:
  "\<exists>mt h'. add_all bump BytewiseComparator
      [\<lparr>e_seq = 1, e_type = kTypeValue, e_key = [97], e_value = [5]\<rparr>,
       \<lparr>e_seq = 2, e_type = kTypeDeletion, e_key = [97], e_value = []\<rparr>] (MemTable_make bump []) = Some (mt, h') \<and>
    MemTable_Get BytewiseComparator mt (LookupKey_make [97] 1) [] Status_OK = Some (True, [5], Status_OK) \<and>
    MemTable_Get BytewiseComparator mt (LookupKey_make [97] 9) [] Status_OK = Some (True, [], Status_NotFound [] []) \<and>
    MemTable_Get BytewiseComparator mt (LookupKey_make [98] 9) [] Status_OK = Some (False, [], Status_OK)"
proof -
  let ?es = "[\<lparr>e_seq = 1, e_type = kTypeValue, e_key = [97], e_value = [5]\<rparr>,
       \<lparr>e_seq = 2, e_type = kTypeDeletion, e_key = [97], e_value = []\<rparr>]"
  have d: "distinct_entries BytewiseComparator ?es" by (simp add: distinct_entries_def)
  have ok: "\<forall>e\<in>set ?es. entry_ok e" by (simp add: entry_ok_def kMaxSequenceNumber_eq)
  from memtable_get [OF bytewise.key_comparator_axioms d ok, of bump "[]"]
  obtain mt h' where mt: "add_all bump BytewiseComparator ?es (MemTable_make bump []) = Some (mt, h')"
    "\<forall>uk snap value s. length uk + 8 < 2 ^ 32 \<longrightarrow> snap \<le> kMaxSequenceNumber \<longrightarrow>
       MemTable_Get BytewiseComparator mt (LookupKey_make uk snap) value s = Some (spec_get BytewiseComparator ?es uk snap value s)"
    by blast
  have "MemTable_Get BytewiseComparator mt (LookupKey_make [97] 1) [] Status_OK = Some (True, [5], Status_OK)"
    "MemTable_Get BytewiseComparator mt (LookupKey_make [97] 9) [] Status_OK = Some (True, [], Status_NotFound [] [])"
    "MemTable_Get BytewiseComparator mt (LookupKey_make [98] 9) [] Status_OK = Some (False, [], Status_OK)"
    by (simp_all add: mt(2) spec_get_def visible_def newest_def newer_def kMaxSequenceNumber_eq word_le_nat_alt)
  with mt(1) show ?thesis by blast
qed

end
