(* ===== verification/Write_Batch.thy ===== *)
theory Write_Batch
  imports Memtable
begin

text \<open>
  \<^verbatim>\<open>db/write_batch.cc\<close>, \<^verbatim>\<open>db/write_batch_internal.h\<close> and \<^verbatim>\<open>include/leveldb/write_batch.h\<close>: batches of
  updates, their encoding, and their insertion into a memtable.
\<close>

section \<open>The batch\<close>

record WriteBatch =
  wb_rep :: bytes

definition kHeader :: nat where
  "kHeader = 12"

definition WriteBatch_Clear :: "WriteBatch \<Rightarrow> WriteBatch" where
  "WriteBatch_Clear b = b\<lparr>wb_rep := replicate kHeader 0\<rparr>"

definition WriteBatch_make :: WriteBatch where
  "WriteBatch_make = WriteBatch_Clear \<lparr>wb_rep = []\<rparr>"

definition WriteBatch_ApproximateSize :: "WriteBatch \<Rightarrow> nat" where
  "WriteBatch_ApproximateSize b = length (wb_rep b)"

text \<open>\<^verbatim>\<open>Count\<close> and \<^verbatim>\<open>SetCount\<close> have type \<^verbatim>\<open>int\<close>, the header has an unsigned 32-bit number.\<close>

definition WriteBatchInternal_Count :: "WriteBatch \<Rightarrow> int" where
  "WriteBatchInternal_Count b = sint (DecodeFixed32 (drop 8 (wb_rep b)))"

definition WriteBatchInternal_SetCount :: "WriteBatch \<Rightarrow> int \<Rightarrow> WriteBatch" where
  "WriteBatchInternal_SetCount b n = b\<lparr>wb_rep := overwrite 8 (EncodeFixed32 (of_int n)) (wb_rep b)\<rparr>"

definition WriteBatchInternal_Sequence :: "WriteBatch \<Rightarrow> SequenceNumber" where
  "WriteBatchInternal_Sequence b = DecodeFixed64 (wb_rep b)"

definition WriteBatchInternal_SetSequence :: "WriteBatch \<Rightarrow> SequenceNumber \<Rightarrow> WriteBatch" where
  "WriteBatchInternal_SetSequence b seq = b\<lparr>wb_rep := overwrite 0 (EncodeFixed64 seq) (wb_rep b)\<rparr>"

definition WriteBatchInternal_Contents :: "WriteBatch \<Rightarrow> bytes" where
  "WriteBatchInternal_Contents b = wb_rep b"

definition WriteBatchInternal_ByteSize :: "WriteBatch \<Rightarrow> nat" where
  "WriteBatchInternal_ByteSize b = length (wb_rep b)"

definition WriteBatchInternal_SetContents :: "WriteBatch \<Rightarrow> bytes \<Rightarrow> WriteBatch" where
  "WriteBatchInternal_SetContents b contents = b\<lparr>wb_rep := contents\<rparr>"

definition WriteBatch_Put :: "WriteBatch \<Rightarrow> bytes \<Rightarrow> bytes \<Rightarrow> WriteBatch" where
  "WriteBatch_Put b key value =
     (let b = WriteBatchInternal_SetCount b (WriteBatchInternal_Count b + 1);
          b = b\<lparr>wb_rep := wb_rep b @ [ValueType_value kTypeValue]\<rparr>;
          b = b\<lparr>wb_rep := PutLengthPrefixedSlice (wb_rep b) key\<rparr>
      in b\<lparr>wb_rep := PutLengthPrefixedSlice (wb_rep b) value\<rparr>)"

definition WriteBatch_Delete :: "WriteBatch \<Rightarrow> bytes \<Rightarrow> WriteBatch" where
  "WriteBatch_Delete b key =
     (let b = WriteBatchInternal_SetCount b (WriteBatchInternal_Count b + 1);
          b = b\<lparr>wb_rep := wb_rep b @ [ValueType_value kTypeDeletion]\<rparr>
      in b\<lparr>wb_rep := PutLengthPrefixedSlice (wb_rep b) key\<rparr>)"

definition WriteBatchInternal_Append :: "WriteBatch \<Rightarrow> WriteBatch \<Rightarrow> WriteBatch" where
  "WriteBatchInternal_Append dst src =
     (let dst = WriteBatchInternal_SetCount dst (WriteBatchInternal_Count dst + WriteBatchInternal_Count src)
      in dst\<lparr>wb_rep := wb_rep dst @ drop kHeader (wb_rep src)\<rparr>)"

definition WriteBatch_Append :: "WriteBatch \<Rightarrow> WriteBatch \<Rightarrow> WriteBatch" where
  "WriteBatch_Append b source = WriteBatchInternal_Append b source"

section \<open>Iteration\<close>

text \<open>A handler: its state and what \<^verbatim>\<open>Put\<close> and \<^verbatim>\<open>Delete\<close> do to it.\<close>

record 'h Handler =
  h_Put :: "bytes \<Rightarrow> bytes \<Rightarrow> 'h \<Rightarrow> 'h"
  h_Delete :: "bytes \<Rightarrow> 'h \<Rightarrow> 'h"

text \<open>The loop ends with the status of an early return (\<^term>\<open>Inl\<close>) or with \<^verbatim>\<open>found\<close>.\<close>

function Iterate_loop :: "'h Handler \<Rightarrow> bytes \<Rightarrow> int \<Rightarrow> 'h \<Rightarrow> (Status + int) \<times> 'h" where
  "Iterate_loop handler [] found h = (Inr found, h)"
| "Iterate_loop handler (tag # input) found h =
     (let found = found + 1 in
      if tag = ValueType_value kTypeValue then
        (case GetLengthPrefixedSlice input of
           Some (key, input1) \<Rightarrow>
             (case GetLengthPrefixedSlice input1 of
                Some (value, input2) \<Rightarrow> Iterate_loop handler input2 found (h_Put handler key value h)
              | None \<Rightarrow> (Inl (Status_Corruption (lit ''bad WriteBatch Put'') []), h))
         | None \<Rightarrow> (Inl (Status_Corruption (lit ''bad WriteBatch Put'') []), h))
      else if tag = ValueType_value kTypeDeletion then
        (case GetLengthPrefixedSlice input of
           Some (key, input1) \<Rightarrow> Iterate_loop handler input1 found (h_Delete handler key h)
         | None \<Rightarrow> (Inl (Status_Corruption (lit ''bad WriteBatch Delete'') []), h))
      else (Inl (Status_Corruption (lit ''unknown WriteBatch tag'') []), h))"
  by pat_completeness auto
termination
  by (relation "measure (\<lambda>(_, input, _). length input)")
     (auto dest!: GetLengthPrefixedSlice_shorter)

declare Iterate_loop.simps(2) [simp del]

definition WriteBatch_Iterate :: "'h Handler \<Rightarrow> WriteBatch \<Rightarrow> 'h \<Rightarrow> Status \<times> 'h" where
  "WriteBatch_Iterate handler b h =
     (let input = wb_rep b in
      if length input < kHeader
      then (Status_Corruption (lit ''malformed WriteBatch (too small)'') [], h)
      else
        (case Iterate_loop handler (drop kHeader input) 0 h of
           (Inl s, h) \<Rightarrow> (s, h)
         | (Inr found, h) \<Rightarrow>
             (if found \<noteq> WriteBatchInternal_Count b
              then (Status_Corruption (lit ''WriteBatch has wrong count'') [], h)
              else (Status_OK, h))))"

text \<open>The inserter: the next sequence number and the memtable with its heap.\<close>

type_synonym inserter = "SequenceNumber \<times> (MemTable \<times> heap) option"

definition MemTableInserter_add ::
    "placement \<Rightarrow> Comparator \<Rightarrow> ValueType \<Rightarrow> bytes \<Rightarrow> bytes \<Rightarrow> inserter \<Rightarrow> inserter" where
  "MemTableInserter_add place c t key value st =
     (let (seq, mem) = st
      in (seq + 1, case mem of None \<Rightarrow> None | Some m \<Rightarrow> MemTable_Add place c seq t key value m))"

definition MemTableInserter :: "placement \<Rightarrow> Comparator \<Rightarrow> inserter Handler" where
  "MemTableInserter place c =
     \<lparr>h_Put = MemTableInserter_add place c kTypeValue,
      h_Delete = (\<lambda>key. MemTableInserter_add place c kTypeDeletion key [])\<rparr>"

definition WriteBatchInternal_InsertInto ::
    "placement \<Rightarrow> Comparator \<Rightarrow> WriteBatch \<Rightarrow> MemTable \<times> heap \<Rightarrow> Status \<times> (MemTable \<times> heap) option" where
  "WriteBatchInternal_InsertInto place c b mem =
     (let (s, (_, mem)) = WriteBatch_Iterate (MemTableInserter place c) b
                            (WriteBatchInternal_Sequence b, Some mem)
      in (s, mem))"

section \<open>Batches as lists of operations\<close>

datatype BatchOp = BPut bytes bytes | BDelete bytes

primrec op_ok :: "BatchOp \<Rightarrow> bool" where
  "op_ok (BPut k v) \<longleftrightarrow> slice_size_ok k \<and> slice_size_ok v"
| "op_ok (BDelete k) \<longleftrightarrow> slice_size_ok k"

primrec op_bytes :: "BatchOp \<Rightarrow> bytes" where
  "op_bytes (BPut k v) = 1 # PutLengthPrefixedSlice [] k @ PutLengthPrefixedSlice [] v"
| "op_bytes (BDelete k) = 0 # PutLengthPrefixedSlice [] k"

primrec issue :: "WriteBatch \<Rightarrow> BatchOp \<Rightarrow> WriteBatch" where
  "issue b (BPut k v) = WriteBatch_Put b k v"
| "issue b (BDelete k) = WriteBatch_Delete b k"

primrec handle :: "'h Handler \<Rightarrow> BatchOp \<Rightarrow> 'h \<Rightarrow> 'h" where
  "handle handler (BPut k v) h = h_Put handler k v h"
| "handle handler (BDelete k) h = h_Delete handler k h"

text \<open>\<open>batch_repr b seq ops\<close>: the batch holds the operations \<open>ops\<close> from sequence number \<open>seq\<close> on.\<close>

definition batch_repr :: "WriteBatch \<Rightarrow> SequenceNumber \<Rightarrow> BatchOp list \<Rightarrow> bool" where
  "batch_repr b seq ops \<longleftrightarrow>
     wb_rep b = EncodeFixed64 seq @ EncodeFixed32 (of_nat (length ops)) @ concat (map op_bytes ops) \<and>
     (\<forall>op\<in>set ops. op_ok op) \<and> length ops < 2 ^ 31"

lemma batch_repr_make: "batch_repr WriteBatch_make 0 []"
proof -
  have "replicate 12 (0 :: byte) = [0, 0, 0, 0, 0, 0, 0, 0] @ [0, 0, 0, 0]"
    by (simp add: numeral_eq_Suc)
  moreover have "EncodeFixed64 0 = [0, 0, 0, 0, 0, 0, 0, 0]" "EncodeFixed32 0 = [0, 0, 0, 0]"
    by (simp_all add: EncodeFixed64_def EncodeFixed32_def)
  ultimately show ?thesis
    by (simp add: batch_repr_def WriteBatch_make_def WriteBatch_Clear_def kHeader_def)
qed

lemma sint_of_nat_small: "n < 2 ^ 31 \<Longrightarrow> sint (of_nat n :: u32) = int n"
  by (simp add: signed_of_nat signed_take_bit_int_eq_self)

lemma batch_Count: "batch_repr b seq ops \<Longrightarrow> WriteBatchInternal_Count b = int (length ops)"
  by (simp add: batch_repr_def WriteBatchInternal_Count_def sint_of_nat_small)

lemma batch_Sequence: "batch_repr b seq ops \<Longrightarrow> WriteBatchInternal_Sequence b = seq"
  by (simp add: batch_repr_def WriteBatchInternal_Sequence_def)

lemma batch_repr_SetSequence:
  "batch_repr b seq ops \<Longrightarrow> batch_repr (WriteBatchInternal_SetSequence b seq') seq' ops"
  by (simp add: batch_repr_def WriteBatchInternal_SetSequence_def overwrite_def)

lemma SetCount_repr:
  assumes "batch_repr b seq ops"
  shows "wb_rep (WriteBatchInternal_SetCount b (int n)) =
    EncodeFixed64 seq @ EncodeFixed32 (of_nat n) @ concat (map op_bytes ops)"
  using assms by (simp add: batch_repr_def WriteBatchInternal_SetCount_def overwrite_def)

lemma batch_repr_issue:
  assumes b: "batch_repr b seq ops" and ok: "op_ok op" and n: "Suc (length ops) < 2 ^ 31"
  shows "batch_repr (issue b op) seq (ops @ [op])"
proof -
  have c: "WriteBatchInternal_Count b + 1 = int (Suc (length ops))" using batch_Count [OF b] by simp
  note set = SetCount_repr [OF b, of "Suc (length ops)"]
  have "wb_rep (issue b op) = EncodeFixed64 seq @ EncodeFixed32 (of_nat (Suc (length ops))) @
      concat (map op_bytes ops) @ op_bytes op"
    by (cases op) (simp_all only: issue.simps WriteBatch_Put_def WriteBatch_Delete_def Let_def c set
        WriteBatch.simps op_bytes.simps, simp_all add: set PutLengthPrefixedSlice_def PutVarint32_def)
  then show ?thesis using b ok n by (simp add: batch_repr_def)
qed

lemma batch_repr_Append:
  assumes b: "batch_repr b seq ops" and b': "batch_repr b' seq' ops'" and n: "length ops + length ops' < 2 ^ 31"
  shows "batch_repr (WriteBatch_Append b b') seq (ops @ ops')"
proof -
  have c: "WriteBatchInternal_Count b + WriteBatchInternal_Count b' = int (length ops + length ops')"
    using batch_Count [OF b] batch_Count [OF b'] by simp
  have "drop kHeader (wb_rep b') = concat (map op_bytes ops')"
    using b' by (simp add: batch_repr_def kHeader_def)
  then show ?thesis
    using b b' n SetCount_repr [OF b, of "length ops + length ops'"]
    by (auto simp: batch_repr_def WriteBatch_Append_def WriteBatchInternal_Append_def Let_def c)
qed

lemma batch_repr_issue_all:
  "batch_repr b seq ops0 \<Longrightarrow> \<forall>op\<in>set ops. op_ok op \<Longrightarrow> length ops0 + length ops < 2 ^ 31 \<Longrightarrow>
     batch_repr (foldl issue b ops) seq (ops0 @ ops)"
proof (induction ops arbitrary: b ops0)
  case (Cons op ops)
  then have "batch_repr (issue b op) seq (ops0 @ [op])" by (intro batch_repr_issue) simp_all
  from Cons.IH [OF this] Cons.prems show ?case by simp
qed simp

text \<open>The loop applies the handler to the operations in their order.\<close>

lemma Iterate_loop_ops:
  "\<forall>op\<in>set ops. op_ok op \<Longrightarrow>
     Iterate_loop handler (concat (map op_bytes ops)) found h =
       (Inr (found + int (length ops)), fold (handle handler) ops h)"
proof (induction ops arbitrary: found h)
  case (Cons op ops)
  have "Iterate_loop handler (op_bytes op @ concat (map op_bytes ops)) found h =
      Iterate_loop handler (concat (map op_bytes ops)) (found + 1) (handle handler op h)"
    using Cons.prems by (cases op) (simp_all add: Iterate_loop.simps(2))
  then show ?case using Cons by simp
qed simp

lemma Iterate_ops:
  assumes "batch_repr b seq ops"
  shows "WriteBatch_Iterate handler b h = (Status_OK, fold (handle handler) ops h)"
proof -
  have "drop kHeader (wb_rep b) = concat (map op_bytes ops)" "\<not> length (wb_rep b) < kHeader"
    using assms by (simp_all add: batch_repr_def kHeader_def)
  then show ?thesis
    using assms batch_Count [OF assms] Iterate_loop_ops [of ops handler 0 h]
    by (simp add: WriteBatch_Iterate_def Let_def batch_repr_def)
qed

section \<open>Insertion into a memtable\<close>

text \<open>The entries of a batch: consecutive sequence numbers in the order of the operations.\<close>

primrec op_entry :: "SequenceNumber \<Rightarrow> BatchOp \<Rightarrow> Entry" where
  "op_entry seq (BPut k v) = \<lparr>e_seq = seq, e_type = kTypeValue, e_key = k, e_value = v\<rparr>"
| "op_entry seq (BDelete k) = \<lparr>e_seq = seq, e_type = kTypeDeletion, e_key = k, e_value = []\<rparr>"

primrec op_key :: "BatchOp \<Rightarrow> bytes" where
  "op_key (BPut k v) = k"
| "op_key (BDelete k) = k"

primrec batch_entries :: "SequenceNumber \<Rightarrow> BatchOp list \<Rightarrow> Entry list" where
  "batch_entries seq [] = []"
| "batch_entries seq (op # ops) = op_entry seq op # batch_entries (seq + 1) ops"

lemma op_entry_fields [simp]: "e_seq (op_entry seq op) = seq" "e_key (op_entry seq op) = op_key op"
  by (cases op; simp)+

lemma inserter_none: "snd (fold (handle (MemTableInserter place c)) ops (seq, None)) = None"
proof (induction ops arbitrary: seq)
  case (Cons op ops)
  have "handle (MemTableInserter place c) op (seq, None) = (seq + 1, None)"
    by (cases op) (simp_all add: MemTableInserter_def MemTableInserter_add_def)
  then show ?case using Cons by simp
qed simp

lemma inserter_adds_all:
  "snd (fold (handle (MemTableInserter place c)) ops (seq, Some m)) = add_all place c (batch_entries seq ops) m"
proof (induction ops arbitrary: seq m)
  case (Cons op ops)
  have "handle (MemTableInserter place c) op (seq, Some m) =
      (seq + 1, MemTable_Add place c seq (e_type (op_entry seq op)) (op_key op) (e_value (op_entry seq op)) m)"
    by (cases op) (simp_all add: MemTableInserter_def MemTableInserter_add_def)
  then show ?case using Cons inserter_none by (simp split: option.split)
qed simp

lemma InsertInto_eq:
  assumes "batch_repr b seq ops"
  shows "WriteBatchInternal_InsertInto place c b m = (Status_OK, add_all place c (batch_entries seq ops) m)"
  unfolding WriteBatchInternal_InsertInto_def Iterate_ops [OF assms] batch_Sequence [OF assms]
  using inserter_adds_all [of place c ops seq m]
  by (cases "fold (handle (MemTableInserter place c)) ops (seq, Some m)") simp

lemma batch_entries_nth:
  "j < length ops \<Longrightarrow> batch_entries seq ops ! j = op_entry (seq + of_nat j) (ops ! j)"
  by (induction ops arbitrary: seq j) (auto simp: nth_Cons algebra_simps split: nat.split)

lemma length_batch_entries [simp]: "length (batch_entries seq ops) = length ops"
  by (induction ops arbitrary: seq) simp_all

lemma batch_entries_append:
  "batch_entries seq (ops @ ops') = batch_entries seq ops @ batch_entries (seq + of_nat (length ops)) ops'"
  by (induction ops arbitrary: seq) (simp_all add: algebra_simps)

lemma unat_seq_add:
  assumes "unat seq + n < 2 ^ 56" "j \<le> n"
  shows "unat (seq + of_nat j :: u64) = unat seq + j"
  using assms by (simp add: unat_word_ariths unat_of_nat take_bit_nat_eq_self)

lemma batch_entries_seqs:
  assumes "unat seq + length ops < 2 ^ 56"
  shows "sorted_wrt (\<lambda>a b. e_seq a < e_seq b) (batch_entries seq ops)"
proof -
  have "e_seq (batch_entries seq ops ! i) < e_seq (batch_entries seq ops ! j)"
    if "i < j" "j < length ops" for i j
    using that unat_seq_add [OF assms, of i] unat_seq_add [OF assms, of j]
    by (simp add: batch_entries_nth word_less_nat_alt)
  then show ?thesis by (simp add: sorted_wrt_iff_nth_less)
qed

lemma batch_entries_ok:
  assumes "unat seq + length ops < 2 ^ 56"
    and "\<forall>op\<in>set ops. op_ok op \<and> length (op_key op) + 8 < 2 ^ 32"
  shows "\<forall>e\<in>set (batch_entries seq ops). entry_ok e"
proof
  fix e assume "e \<in> set (batch_entries seq ops)"
  then obtain j where j: "j < length ops" "e = op_entry (seq + of_nat j) (ops ! j)"
    by (auto simp: in_set_conv_nth batch_entries_nth)
  have "seq + of_nat j \<le> kMaxSequenceNumber"
    unfolding seq_ok_iff using unat_seq_add [OF assms(1), of j] j(1) assms(1) by simp
  moreover have "op_ok (ops ! j)" "length (op_key (ops ! j)) + 8 < 2 ^ 32" using assms(2) j(1) by auto
  ultimately show "entry_ok e"
    unfolding j(2) by (cases "ops ! j") (simp_all add: entry_ok_def slice_size_ok_def)
qed

lemma batch_entries_distinct:
  assumes "unat seq + length ops < 2 ^ 56"
  shows "distinct_entries c (batch_entries seq ops)"
  unfolding distinct_entries_def
  by (rule sorted_wrt_mono_rel [OF _ batch_entries_seqs [OF assms]]) auto

section \<open>The last update of a key wins\<close>

text \<open>The abstract effect of operations: for every key its last value, or that it was deleted.\<close>

primrec apply_op :: "(bytes \<Rightarrow> bytes option option) \<Rightarrow> BatchOp \<Rightarrow> bytes \<Rightarrow> bytes option option" where
  "apply_op m (BPut k v) = m(k := Some (Some v))"
| "apply_op m (BDelete k) = m(k := Some None)"

definition get_answer :: "bytes option option \<Rightarrow> bytes \<Rightarrow> Status \<Rightarrow> bool \<times> bytes \<times> Status" where
  "get_answer r value s =
     (case r of
        None \<Rightarrow> (False, value, s)
      | Some None \<Rightarrow> (True, value, Status_NotFound [] [])
      | Some (Some v) \<Rightarrow> (True, v, s))"

lemma newest_snoc:
  assumes "\<forall>a\<in>set es. e_seq a < e_seq e"
  shows "newest (es @ [e]) = Some e"
  using newest_cases [of es] assms unfolding newest_def by (auto simp: newer_def)

lemma visible_batch:
  assumes "unat seq + length ops < 2 ^ 56" "0 < i" "i \<le> length ops"
  shows "filter (visible BytewiseComparator uk (seq + of_nat (i - 1))) (batch_entries seq ops) =
    filter (\<lambda>e. e_key e = uk) (batch_entries seq (take i ops))"
proof -
  let ?snap = "seq + of_nat (i - 1)"
  have split: "batch_entries seq ops = batch_entries seq (take i ops) @ batch_entries (seq + of_nat i) (drop i ops)"
    using batch_entries_append [of seq "take i ops" "drop i ops"] assms(3) by (simp add: min_absorb2)
  have early: "e_seq e \<le> ?snap" if e: "e \<in> set (batch_entries seq (take i ops))" for e
  proof -
    obtain j where "j < i" "e = op_entry (seq + of_nat j) (take i ops ! j)"
      using e by (auto simp: in_set_conv_nth batch_entries_nth)
    then show ?thesis
      using unat_seq_add [OF assms(1), of j] unat_seq_add [OF assms(1), of "i - 1"] assms(3)
      by (simp add: word_le_nat_alt)
  qed
  have late: "\<not> e_seq e \<le> ?snap" if e: "e \<in> set (batch_entries (seq + of_nat i) (drop i ops))" for e
  proof -
    obtain j where j: "j < length ops - i" "e = op_entry (seq + of_nat i + of_nat j) (drop i ops ! j)"
      using e by (auto simp: in_set_conv_nth batch_entries_nth)
    have "e_seq e = seq + of_nat (i + j)" using j(2) by (simp add: add.assoc)
    then have "unat (e_seq e) = unat seq + (i + j)"
      using unat_seq_add [OF assms(1), of "i + j"] j(1) by (simp only:)
    moreover have "unat ?snap = unat seq + (i - 1)"
      using assms(3) by (intro unat_seq_add [OF assms(1)]) simp
    ultimately show ?thesis using assms(2) unfolding word_le_nat_alt by linarith
  qed
  have "filter (visible BytewiseComparator uk ?snap) (batch_entries (seq + of_nat i) (drop i ops)) = []"
    using late by (auto simp: filter_empty_conv visible_def)
  moreover have "filter (visible BytewiseComparator uk ?snap) (batch_entries seq (take i ops)) =
      filter (\<lambda>e. e_key e = uk) (batch_entries seq (take i ops))"
    using early by (intro filter_cong) (auto simp: visible_def)
  ultimately show ?thesis unfolding split by simp
qed

lemma newest_batch:
  assumes "unat seq + length ops < 2 ^ 56"
  shows "(case newest (filter (\<lambda>e. e_key e = uk) (batch_entries seq ops)) of
        None \<Rightarrow> (False, value, s)
      | Some e \<Rightarrow> (case e_type e of
            kTypeValue \<Rightarrow> (True, e_value e, s)
          | kTypeDeletion \<Rightarrow> (True, value, Status_NotFound [] []))) =
    get_answer (foldl apply_op (\<lambda>_. None) ops uk) value s"
  using assms
proof (induction ops rule: rev_induct)
  case Nil
  then show ?case by (simp add: newest_def get_answer_def)
next
  case (snoc op ops)
  let ?e = "op_entry (seq + of_nat (length ops)) op"
  have es: "batch_entries seq (ops @ [op]) = batch_entries seq ops @ [?e]"
    by (simp add: batch_entries_append)
  have later: "\<forall>a\<in>set (filter (\<lambda>e. e_key e = uk) (batch_entries seq ops)). e_seq a < e_seq ?e"
    using batch_entries_seqs [OF snoc.prems] unfolding es sorted_wrt_append by simp
  show ?case
  proof (cases "op_key op = uk")
    case True
    then have "newest (filter (\<lambda>e. e_key e = uk) (batch_entries seq (ops @ [op]))) = Some ?e"
      unfolding es using newest_snoc [OF later] by simp
    then show ?thesis using True by (cases op) (simp_all add: get_answer_def)
  next
    case False
    then have "filter (\<lambda>e. e_key e = uk) (batch_entries seq (ops @ [op])) =
        filter (\<lambda>e. e_key e = uk) (batch_entries seq ops)"
      unfolding es by simp
    with False snoc show ?thesis by (cases op) auto
  qed
qed

section \<open>Properties\<close>

text \<open>
  C7. Issuing operations on a cleared batch and appending a second batch gives a
  batch that holds exactly these operations in order: its count is their number, and \<open>Iterate\<close>
  succeeds and hands each of them once, in order, to the handler.
\<close>
theorem batch_operations:
  assumes "\<forall>op\<in>set (ops @ ops'). op_ok op" and "length ops + length ops' < 2 ^ 31"
  shows "let b = WriteBatch_Append (foldl issue WriteBatch_make ops) (foldl issue WriteBatch_make ops') in
    WriteBatchInternal_Count b = int (length ops + length ops') \<and>
    WriteBatch_Iterate handler b h = (Status_OK, fold (handle handler) (ops @ ops') h)"
proof -
  have "batch_repr (foldl issue WriteBatch_make ops) 0 ops" "batch_repr (foldl issue WriteBatch_make ops') 0 ops'"
    using batch_repr_issue_all [OF batch_repr_make] assms by auto
  from batch_repr_Append [OF this assms(2)] show ?thesis
    by (simp add: Let_def batch_Count Iterate_ops)
qed

theorem batch_operations_witness:
  "WriteBatch_Iterate \<lparr>h_Put = \<lambda>k v log. log @ [(k, Some v)], h_Delete = \<lambda>k log. log @ [(k, None)]\<rparr>
     (WriteBatch_Append (WriteBatch_Put WriteBatch_make [1] [2]) (WriteBatch_Delete WriteBatch_make [1])) [] =
   (Status_OK, [([1], Some [2]), ([1], None)])"
  using batch_operations [of "[BPut [1] [2]]" "[BDelete [1]]"
      "\<lparr>h_Put = \<lambda>k v log. log @ [(k, Some v)], h_Delete = \<lambda>k log. log @ [(k, None)]\<rparr>" "[]"]
  by (simp add: slice_size_ok_def Let_def)

text \<open>
  C6. A batch inserted into a fresh memtable at sequence number \<open>seq\<close> is seen by
  readers operation by operation: a \<open>Get\<close> at the snapshot of its first \<open>i\<close> operations returns for
  every key what the last of these operations on that key said.
\<close>
theorem batch_last_write_wins:
  assumes "\<forall>op\<in>set ops. op_ok op \<and> length (op_key op) + 8 < 2 ^ 32"
    and "length ops < 2 ^ 31" and "unat seq + length ops < 2 ^ 56"
  shows "\<exists>mt h'. WriteBatchInternal_InsertInto place BytewiseComparator
        (WriteBatchInternal_SetSequence (foldl issue WriteBatch_make ops) seq) (MemTable_make place h)
      = (Status_OK, Some (mt, h')) \<and>
    (\<forall>uk i value s. length uk + 8 < 2 ^ 32 \<longrightarrow> 0 < i \<longrightarrow> i \<le> length ops \<longrightarrow>
       MemTable_Get BytewiseComparator mt (LookupKey_make uk (seq + of_nat (i - 1))) value s =
         Some (get_answer (foldl apply_op (\<lambda>_. None) (take i ops) uk) value s))"
proof -
  have "batch_repr (foldl issue WriteBatch_make ops) 0 ops"
    using batch_repr_issue_all [OF batch_repr_make, of ops] assms(1,2) by auto
  note ins = InsertInto_eq [OF batch_repr_SetSequence [OF this, of seq], of place BytewiseComparator]
  obtain mt h' where mt: "add_all place BytewiseComparator (batch_entries seq ops) (MemTable_make place h) = Some (mt, h')"
    "\<And>uk snap value s. length uk + 8 < 2 ^ 32 \<Longrightarrow> snap \<le> kMaxSequenceNumber \<Longrightarrow>
       MemTable_Get BytewiseComparator mt (LookupKey_make uk snap) value s =
         Some (spec_get BytewiseComparator (batch_entries seq ops) uk snap value s)"
    using bytewise.memtable_correct [OF batch_entries_distinct [OF assms(3)] batch_entries_ok [OF assms(3,1)]]
    by metis
  have get: "MemTable_Get BytewiseComparator mt (LookupKey_make uk (seq + of_nat (i - 1))) value s =
      Some (get_answer (foldl apply_op (\<lambda>_. None) (take i ops) uk) value s)"
    if "length uk + 8 < 2 ^ 32" "0 < i" "i \<le> length ops" for uk i "value" s
  proof -
    have snap: "seq + of_nat (i - 1) \<le> kMaxSequenceNumber"
      unfolding seq_ok_iff using unat_seq_add [OF assms(3), of "i - 1"] that assms(3) by simp
    have "spec_get BytewiseComparator (batch_entries seq ops) uk (seq + of_nat (i - 1)) value s =
        get_answer (foldl apply_op (\<lambda>_. None) (take i ops) uk) value s"
      unfolding spec_get_def visible_batch [OF assms(3) that(2,3)]
      using assms(3) by (intro newest_batch) simp
    then show ?thesis unfolding mt(2) [OF that(1) snap] by simp
  qed
  show ?thesis unfolding ins using mt(1) get by blast
qed

theorem batch_last_write_wins_witness:
  "\<exists>mt h'. WriteBatchInternal_InsertInto bump BytewiseComparator
       (WriteBatchInternal_SetSequence (foldl issue WriteBatch_make [BPut [1] [2], BDelete [1], BPut [1] [3]]) 7)
       (MemTable_make bump []) = (Status_OK, Some (mt, h')) \<and>
    MemTable_Get BytewiseComparator mt (LookupKey_make [1] (7 + of_nat (2 - 1))) [] Status_OK =
      Some (True, [], Status_NotFound [] []) \<and>
    MemTable_Get BytewiseComparator mt (LookupKey_make [1] (7 + of_nat (3 - 1))) [] Status_OK =
      Some (True, [3], Status_OK)"
proof -
  let ?ops = "[BPut [1] [2], BDelete [1], BPut [1] [3]]"
  have "\<forall>op\<in>set ?ops. op_ok op \<and> length (op_key op) + 8 < 2 ^ 32"
    by (simp add: slice_size_ok_def)
  from batch_last_write_wins [OF this, of 7 bump "[]"]
  obtain mt h' where
    ins: "WriteBatchInternal_InsertInto bump BytewiseComparator
       (WriteBatchInternal_SetSequence (foldl issue WriteBatch_make ?ops) 7) (MemTable_make bump []) = (Status_OK, Some (mt, h'))"
    and get: "\<forall>uk i value s. length uk + 8 < 2 ^ 32 \<longrightarrow> 0 < i \<longrightarrow> i \<le> length ?ops \<longrightarrow>
       MemTable_Get BytewiseComparator mt (LookupKey_make uk (7 + of_nat (i - 1))) value s =
         Some (get_answer (foldl apply_op (\<lambda>_. None) (take i ?ops) uk) value s)"
    by auto
  have "MemTable_Get BytewiseComparator mt (LookupKey_make [1] (7 + of_nat (2 - 1))) [] Status_OK =
      Some (True, [], Status_NotFound [] [])"
    using get [rule_format, of "[1]" 2 "[]" Status_OK] by (simp add: get_answer_def)
  moreover have "MemTable_Get BytewiseComparator mt (LookupKey_make [1] (7 + of_nat (3 - 1))) [] Status_OK =
      Some (True, [3], Status_OK)"
    using get [rule_format, of "[1]" 3 "[]" Status_OK] by (simp add: get_answer_def)
  ultimately show ?thesis using ins by blast
qed

end
