(* ===== verification/Skiplist_Readers.thy ===== *)
theory Skiplist_Readers
  imports Skiplist
begin

text \<open>
  \<^verbatim>\<open>db/skiplist.h\<close> allows reads without a lock during an insertion.  Here the loop of \<^verbatim>\<open>Insert\<close> and the loop
  of \<^verbatim>\<open>FindGreaterOrEqual\<close> are step relations over the shared node store, one atomic load or store
  at a time, and interleaved in every possible way.
\<close>

section \<open>Steps\<close>

datatype reader = Searching nat nat | Found "nat option"

text \<open>One iteration of the loop of \<^verbatim>\<open>FindGreaterOrEqual\<close>; it has one load, of \<^verbatim>\<open>x->Next(level)\<close>.\<close>

definition reader_step :: "('k \<Rightarrow> 'k \<Rightarrow> int) \<Rightarrow> 'k \<Rightarrow> 'k Node list \<Rightarrow> nat \<Rightarrow> nat \<Rightarrow> reader" where
  "reader_step cmp key nodes x level =
     (let nxt = Node_Next nodes x level
      in if KeyIsAfterNode cmp nodes key nxt then Searching (the nxt) level
         else if level = 0 then Found nxt
         else Searching x (level - 1))"

text \<open>
  The linking loop: at \<open>(i, False)\<close> the link of the new node \<open>x\<close> at level \<open>i\<close> is to be set, at
  \<open>(i, True)\<close> the node is to be published at that level.
\<close>

definition writer_step ::
    "nat option list \<Rightarrow> nat \<Rightarrow> 'k Node list \<Rightarrow> nat \<times> bool \<Rightarrow> 'k Node list \<times> nat \<times> bool" where
  "writer_step prev x nodes pc =
     (case pc of
        (i, False) \<Rightarrow> (Node_SetNext x i (Node_Next nodes (the (prev ! i)) i) nodes, i, True)
      | (i, True) \<Rightarrow> (Node_SetNext (the (prev ! i)) i (Some x) nodes, Suc i, False))"

inductive interleaved ::
    "('k \<Rightarrow> 'k \<Rightarrow> int) \<Rightarrow> 'k \<Rightarrow> nat option list \<Rightarrow> nat \<Rightarrow> nat \<Rightarrow>
     'k Node list \<times> (nat \<times> bool) \<times> reader \<Rightarrow> 'k Node list \<times> (nat \<times> bool) \<times> reader \<Rightarrow> bool"
  for cmp key prev x height where
  load: "interleaved cmp key prev x height (nodes, pc, Searching n level)
           (nodes, pc, reader_step cmp key nodes n level)"
| store: "fst pc < height \<Longrightarrow> writer_step prev x nodes pc = (nodes', pc') \<Longrightarrow>
           interleaved cmp key prev x height (nodes, pc, r) (nodes', pc', r)"

inductive_cases interleaved_cases: "interleaved cmp key prev x height (nodes, pc, r) s"

text \<open>Two writer steps are one round of the loop of \<^verbatim>\<open>Insert\<close>.\<close>

lemma writer_round:
  "writer_step prev x nodes (i, False) = (nodes1, pc1) \<Longrightarrow>
   writer_step prev x nodes1 pc1 = (nodes2, pc2) \<Longrightarrow>
   nodes2 = link_level prev x nodes i \<and> pc2 = (Suc i, False)"
  by (auto simp: writer_step_def link_level_def Let_def)

section \<open>The invariant of an interleaving\<close>

text \<open>The store when the writer is at \<open>pc\<close>; \<open>nodes1\<close> is the store with the unlinked new node.\<close>

definition store_at :: "nat option list \<Rightarrow> nat \<Rightarrow> 'k Node list \<Rightarrow> nat \<times> bool \<Rightarrow> 'k Node list" where
  "store_at prev x nodes1 pc =
     (let nodes = foldl (link_level prev x) nodes1 [0..<fst pc]
      in if snd pc then Node_SetNext x (fst pc) (Node_Next nodes (the (prev ! fst pc)) (fst pc)) nodes
         else nodes)"

lemma store_at_step:
  assumes "writer_step prev x (store_at prev x nodes1 pc) pc = (nodes', pc')"
  shows "nodes' = store_at prev x nodes1 pc'"
  using assms by (cases pc; cases "snd pc")
    (auto simp: writer_step_def store_at_def link_level_def Let_def)

lemma store_at_frame [simp]:
  "length (store_at prev x nodes1 pc) = length nodes1"
  "node_key (store_at prev x nodes1 pc ! z) = node_key (nodes1 ! z)"
  "length (node_next (store_at prev x nodes1 pc ! z)) = length (node_next (nodes1 ! z))"
  by (simp_all add: store_at_def Let_def)

definition reader_ok :: "('k \<Rightarrow> 'k \<Rightarrow> int) \<Rightarrow> 'k \<Rightarrow> 'k Node list \<Rightarrow> (nat \<Rightarrow> nat list) \<Rightarrow> reader \<Rightarrow> bool" where
  "reader_ok cmp key nodes L r =
     (case r of
        Searching n level \<Rightarrow> level < kMaxHeight \<and> search_start (below cmp nodes key) (L level) n
      | Found res \<Rightarrow> True)"

context three_way
begin

lemma levels_ok_store_at:
  assumes ok: "levels_ok cmp nodes L" and pc: "fst pc \<le> height" "snd pc \<Longrightarrow> fst pc < height"
    and h: "height \<le> kMaxHeight"
    and fresh: "\<forall>n\<in>set (L 0). cmp (node_key (nodes ! n)) wkey \<noteq> 0"
    and prev: "\<forall>l<height. prev ! l = Some (before (below cmp nodes wkey) (L l))"
  shows "levels_ok cmp (store_at prev (length nodes) (nodes @ [new_node wkey height a]) pc)
    (splice_levels (below cmp nodes wkey) (length nodes) (fst pc) L)"
proof -
  let ?x = "length nodes" and ?n = "foldl (link_level prev (length nodes)) (nodes @ [new_node wkey height a]) [0..<fst pc]"
  let ?L = "splice_levels (below cmp nodes wkey) (length nodes) (fst pc) L"
  have ok': "levels_ok cmp ?n ?L" by (rule levels_ok_splice [OF ok pc(1) h fresh prev])
  show ?thesis
  proof (cases "snd pc")
    case False
    with ok' show ?thesis by (simp add: store_at_def)
  next
    case True
    let ?m = "Node_SetNext ?x (fst pc) (Node_Next ?n (the (prev ! fst pc)) (fst pc)) ?n"
    have nx: "(\<lambda>z. Node_Next ?m z l) = (if l = fst pc
        then (\<lambda>z. Node_Next ?n z l)(?x := Node_Next ?n (the (prev ! fst pc)) (fst pc)) else (\<lambda>z. Node_Next ?n z l))" for l
      using pc(2) [OF True] by (intro Next_SetNext) (simp_all add: new_node_def)
    have "?x \<notin> insert head_node (set (?L (fst pc)))"
    proof -
      have "?L (fst pc) = L (fst pc)" by (simp add: splice_levels_def)
      moreover have "fst pc < kMaxHeight" using pc(2) [OF True] h by simp
      then have "\<forall>n\<in>set (L (fst pc)). n < ?x" "nodes \<noteq> []"
        using ok unfolding levels_ok_def by blast+
      ultimately show ?thesis by (auto simp: head_node_def)
    qed
    then have eq: "linked (\<lambda>z. Node_Next ?m z l) head_node (?L l) = linked (\<lambda>z. Node_Next ?n z l) head_node (?L l)" for l
      unfolding nx by (intro linked_cong) auto
    have "linked (\<lambda>z. Node_Next ?m z l) head_node (?L l)" if "l < kMaxHeight" for l
      unfolding eq using ok' that unfolding levels_ok_def by blast
    moreover have "node_less cmp ?m = node_less cmp ?n" by (intro ext) (simp add: node_less_def)
    moreover have "length ?m = length ?n" by simp
    moreover have "?m \<noteq> []"
      using \<open>length ?m = length ?n\<close> ok' unfolding levels_ok_def by (metis length_0_conv)
    ultimately have "levels_ok cmp ?m ?L" using ok' unfolding levels_ok_def by simp
    with True show ?thesis by (simp add: store_at_def Let_def)
  qed
qed

lemma linked_next_in: "linked nx x ys \<Longrightarrow> z \<in> insert x (set ys) \<Longrightarrow> nx z = Some y \<Longrightarrow> y \<in> set ys"
  by (induction ys arbitrary: x) auto

text \<open>A reader on levels in order stays on track, and stops at the first node not below its key.\<close>

lemma reader_step_ok:
  assumes ok: "levels_ok cmp nodes L" and r: "reader_ok cmp key nodes L (Searching n level)"
  shows "reader_ok cmp key nodes L (reader_step cmp key nodes n level) \<and>
    (\<forall>res. reader_step cmp key nodes n level = Found res \<longrightarrow>
       res = hd_opt (filter (\<lambda>m. \<not> below cmp nodes key m) (L 0)))"
proof -
  let ?P = "below cmp nodes key" and ?nx = "\<lambda>z. Node_Next nodes z level"
  have level: "level < kMaxHeight" and start: "search_start ?P (L level) n"
    using r by (auto simp: reader_ok_def)
  have link: "linked ?nx head_node (L level)" and s: "sorted_wrt (node_less cmp nodes) (L level)"
    using ok level unfolding levels_ok_def by auto
  have tw: "takeWhile ?P (L level) = filter ?P (L level)" "dropWhile ?P (L level) = filter (\<lambda>m. \<not> ?P m) (L level)"
    by (rule takeWhile_eq_filter_sorted [OF s], rule node_less_below, assumption+)+
  obtain zs where zs: "linked ?nx n zs" "last (n # takeWhile ?P zs) = before ?P (L level)"
    using search_enter [OF link tw(1) sorted_nodes_distinct [OF s] start] by blast
  show ?thesis
  proof (cases "KeyIsAfterNode cmp nodes key (?nx n)")
    case True
    then obtain y where y: "?nx n = Some y" "?P y"
      by (auto simp: KeyIsAfterNode_def below_def split: option.splits)
    have "n \<in> insert head_node (set (L level))" using start by (auto simp: search_start_def)
    then have "y \<in> set (L level)" using linked_next_in [OF link] y(1) by blast
    with True y level show ?thesis
      by (simp add: reader_step_def Let_def reader_ok_def search_start_def)
  next
    case False
    then have "takeWhile ?P zs = []"
      using zs(1) by (cases zs) (auto simp: KeyIsAfterNode_def below_def)
    then have n: "n = before ?P (L level)" using zs(2) by simp
    then have nxt: "?nx n = hd_opt (filter (\<lambda>m. \<not> ?P m) (L level))"
      using linked_before [OF link tw(1)] tw(2) by simp
    have sub: "set (L level) \<subseteq> set (L (level - 1))" if "level \<noteq> 0"
      using ok level that unfolding levels_ok_def by (cases level) auto
    show ?thesis
      using False nxt level search_start_mono [OF start sub]
      by (auto simp: reader_step_def Let_def reader_ok_def)
  qed
qed

lemma before_Cons_head: "search_start P ys head_node"
  by (simp add: search_start_def)

text \<open>
  Along an interleaving the store is the one of the program counter, the reader stays on track,
  and a result it has is the answer for the levels at some program counter it passed.
\<close>

lemma interleaved_inv:
  assumes ok: "levels_ok cmp nodes L" and h: "height \<le> kMaxHeight"
    and fresh: "\<forall>n\<in>set (L 0). cmp (node_key (nodes ! n)) wkey \<noteq> 0"
    and prev: "\<forall>l<height. prev ! l = Some (before (below cmp nodes wkey) (L l))"
  defines "x \<equiv> length nodes" and "LL \<equiv> splice_levels (below cmp nodes wkey) (length nodes)"
  assumes nodes1: "nodes1 = nodes @ [new_node wkey height a]"
    and run: "(interleaved cmp key prev x height)\<^sup>*\<^sup>* (store_at prev x nodes1 pc0, pc0, Searching head_node level) s"
    and pc0: "fst pc0 \<le> height" "snd pc0 \<Longrightarrow> fst pc0 < height" and level: "level < kMaxHeight"
  shows "case s of (nodes', pc, r) \<Rightarrow>
    nodes' = store_at prev x nodes1 pc \<and> fst pc0 \<le> fst pc \<and> fst pc \<le> height \<and> (snd pc \<longrightarrow> fst pc < height) \<and>
    reader_ok cmp key nodes1 (LL (fst pc) L) r \<and>
    (\<forall>res. r = Found res \<longrightarrow> (\<exists>k. fst pc0 \<le> k \<and> k \<le> fst pc \<and>
       res = hd_opt (filter (\<lambda>m. \<not> below cmp nodes1 key m) (LL k L 0))))"
  using run
proof (induction rule: rtranclp_induct)
  case base
  then show ?case using pc0 level by (simp add: reader_ok_def before_Cons_head)
next
  case (step s t)
  obtain nodes' pc r where s: "s = (nodes', pc, r)" by (metis prod_cases3)
  have st: "nodes' = store_at prev x nodes1 pc" and pc: "fst pc0 \<le> fst pc" "fst pc \<le> height" "snd pc \<Longrightarrow> fst pc < height"
    and r: "reader_ok cmp key nodes1 (LL (fst pc) L) r"
    and res: "\<And>res. r = Found res \<Longrightarrow> \<exists>k. fst pc0 \<le> k \<and> k \<le> fst pc \<and>
       res = hd_opt (filter (\<lambda>m. \<not> below cmp nodes1 key m) (LL k L 0))"
    using step.IH unfolding s by auto
  have same: "below cmp (store_at prev x nodes1 pc) key = below cmp nodes1 key" for pc
    by (intro ext) (simp add: below_def)
  have lev: "levels_ok cmp nodes' (LL (fst pc) L)"
    unfolding st LL_def x_def nodes1 by (rule levels_ok_store_at [OF ok pc(2,3) h fresh prev])
  from step.hyps(2) show ?case
    unfolding s
  proof (cases rule: interleaved_cases [consumes 1, case_names load store])
    case (load n level)
    have rn: "reader_ok cmp key nodes' (LL (fst pc) L) (Searching n level)"
      using r unfolding load(1) st by (simp add: reader_ok_def same)
    from reader_step_ok [OF lev rn]
    have "reader_ok cmp key nodes1 (LL (fst pc) L) (reader_step cmp key nodes' n level)"
      "\<And>res. reader_step cmp key nodes' n level = Found res \<Longrightarrow>
         res = hd_opt (filter (\<lambda>m. \<not> below cmp nodes1 key m) (LL (fst pc) L 0))"
      unfolding st by (auto simp: reader_ok_def same split: reader.splits)
    then show ?thesis unfolding load(2) using st pc by auto
  next
    case (store nodes'' pc'')
    have st': "nodes'' = store_at prev x nodes1 pc''"
      using store(3) unfolding st by (rule store_at_step)
    have pc'': "fst pc \<le> fst pc''" "fst pc'' \<le> height" "snd pc'' \<Longrightarrow> fst pc'' < height"
      using store(2,3) by (cases pc; cases "snd pc"; auto simp: writer_step_def)+
    have grow: "set (LL (fst pc) L l) \<subseteq> set (LL (fst pc'') L l)" for l
      using pc''(1) by (auto simp: LL_def splice_levels_def)
    have "reader_ok cmp key nodes1 (LL (fst pc'') L) r"
      using r by (cases r) (auto simp: reader_ok_def intro: search_start_mono [OF _ grow])
    moreover have "\<exists>k. fst pc0 \<le> k \<and> k \<le> fst pc'' \<and>
       y = hd_opt (filter (\<lambda>m. \<not> below cmp nodes1 key m) (LL k L 0))" if found: "r = Found y" for y
    proof -
      obtain k where k: "fst pc0 \<le> k" "k \<le> fst pc"
          "y = hd_opt (filter (\<lambda>m. \<not> below cmp nodes1 key m) (LL k L 0))"
        using res [OF found] by blast
      then show ?thesis using pc''(1) by (intro exI [of _ k]) simp
    qed
    ultimately show ?thesis unfolding store(1) using st' pc pc'' by auto
  qed
qed

end

text \<open>The keys of the lowest level once the new node is published there.\<close>

definition keys_with :: "('k \<Rightarrow> 'k \<Rightarrow> int) \<Rightarrow> 'k \<Rightarrow> 'k list \<Rightarrow> 'k list" where
  "keys_with cmp k ks = filter (\<lambda>j. cmp j k < 0) ks @ k # filter (\<lambda>j. \<not> cmp j k < 0) ks"

lemma splice_keys:
  assumes "\<forall>n\<in>set (L 0). n < length nodes"
  shows "map (\<lambda>n. node_key ((nodes @ [new_node wkey height a]) ! n))
      (splice_levels (below cmp nodes wkey) (length nodes) k L 0) =
    (if 0 < k then keys_with cmp wkey (map (\<lambda>n. node_key (nodes ! n)) (L 0))
     else map (\<lambda>n. node_key (nodes ! n)) (L 0))"
proof -
  have old: "map (\<lambda>n. node_key ((nodes @ [new_node wkey height a]) ! n)) (filter Q (L 0)) =
      map (\<lambda>n. node_key (nodes ! n)) (filter Q (L 0))" for Q
    using assms by (auto simp: nth_append)
  have new: "node_key ((nodes @ [new_node wkey height a]) ! length nodes) = wkey"
    by (simp add: new_node_def)
  show ?thesis
  proof (cases "0 < k")
    case True
    have "map (\<lambda>n. node_key ((nodes @ [new_node wkey height a]) ! n))
        (splice_levels (below cmp nodes wkey) (length nodes) k L 0) =
      map (\<lambda>n. node_key (nodes ! n)) (filter (below cmp nodes wkey) (L 0)) @ wkey #
      map (\<lambda>n. node_key (nodes ! n)) (filter (\<lambda>n. \<not> below cmp nodes wkey n) (L 0))"
      unfolding splice_levels_def using True old new by simp
    then show ?thesis using True unfolding keys_with_def filter_map o_def below_def by simp
  next
    case False
    then show ?thesis using old [of "\<lambda>_. True"] by (simp add: splice_levels_def)
  qed
qed

section \<open>Properties\<close>



end
