(* ===== verification/Posix_Env.thy ===== *)
theory Posix_Env
  imports Env_Files
begin

text \<open>
  The environment: \<^verbatim>\<open>PosixEnv\<close> of \<^verbatim>\<open>util/env_posix.cc\<close> over a file system, with its lock table and
  resource limiter, and the helpers of \<^verbatim>\<open>util/env.cc\<close> that write and read whole files.  The state
  of the operating system is the files and directories by path, the results of the system calls to
  come (the same list of outcomes that the open files use), and the file systems that a crash
  could have left behind so far.
\<close>

section \<open>The operating system\<close>

record os =
  os_files :: "bytes \<Rightarrow> bytes option"
  os_dirs :: "bytes \<Rightarrow> bool"
  os_calls :: "outcome list"
  os_past :: "(bytes \<Rightarrow> bytes option) list"

text \<open>
  A system call that transfers no data succeeds or fails as planned; \<^verbatim>\<open>EINTR\<close> is an error like any
  other for the callers below.  The error comes with whether it is \<^verbatim>\<open>ENOENT\<close> and its \<^verbatim>\<open>strerror\<close>.
\<close>

definition sys_call :: "os \<Rightarrow> (bool \<times> bytes) option \<times> os" where
  "sys_call st =
     (case os_calls st of
        [] \<Rightarrow> (None, st)
      | Done _ # cs \<Rightarrow> (None, st\<lparr>os_calls := cs\<rparr>)
      | Interrupted # cs \<Rightarrow> (Some (False, lit ''Interrupted system call''), st\<lparr>os_calls := cs\<rparr>)
      | Failed e msg # cs \<Rightarrow> (Some (e, msg), st\<lparr>os_calls := cs\<rparr>))"

definition no_such_file :: "bool \<times> bytes" where
  "no_such_file = (True, lit ''No such file or directory'')"

text \<open>A change of the files; the state before it is one a crash can leave.\<close>

definition set_file :: "bytes \<Rightarrow> bytes option \<Rightarrow> os \<Rightarrow> os" where
  "set_file path content st =
     st\<lparr>os_files := (os_files st)(path := content), os_past := os_past st @ [os_files st]\<rparr>"

definition error_status :: "bytes \<Rightarrow> (bool \<times> bytes) option \<Rightarrow> Status" where
  "error_status context err =
     (case err of None \<Rightarrow> Status_OK | Some (e, msg) \<Rightarrow> PosixError context e msg)"

section \<open>PosixEnv\<close>

definition NewSequentialFile :: "bytes \<Rightarrow> os \<Rightarrow> Status \<times> PosixSequentialFile option \<times> os" where
  "NewSequentialFile filename st =
     (case sys_call st of
        (Some (e, msg), st) \<Rightarrow> (PosixError filename e msg, None, st)
      | (None, st) \<Rightarrow>
          (case os_files st filename of
             None \<Rightarrow> (PosixError filename (fst no_such_file) (snd no_such_file), None, st)
           | Some content \<Rightarrow>
               (Status_OK,
                Some \<lparr>ps_fd = \<lparr>fd_data = content, fd_offset = 0, fd_outcomes = []\<rparr>,
                      ps_filename = filename\<rparr>, st)))"

definition NewWritableFile :: "bytes \<Rightarrow> os \<Rightarrow> Status \<times> PosixWritableFile option \<times> os" where
  "NewWritableFile filename st =
     (case sys_call st of
        (Some (e, msg), st) \<Rightarrow> (PosixError filename e msg, None, st)
      | (None, st) \<Rightarrow>
          (Status_OK,
           Some (PosixWritableFile_make filename \<lparr>fd_data = [], fd_offset = 0, fd_outcomes = []\<rparr>),
           set_file filename (Some []) st))"

definition NewAppendableFile :: "bytes \<Rightarrow> os \<Rightarrow> Status \<times> PosixWritableFile option \<times> os" where
  "NewAppendableFile filename st =
     (case sys_call st of
        (Some (e, msg), st) \<Rightarrow> (PosixError filename e msg, None, st)
      | (None, st) \<Rightarrow>
          (let content = (case os_files st filename of None \<Rightarrow> [] | Some c \<Rightarrow> c)
           in (Status_OK,
               Some (PosixWritableFile_make filename \<lparr>fd_data = content, fd_offset = 0, fd_outcomes = []\<rparr>),
               set_file filename (Some content) st)))"

definition FileExists :: "bytes \<Rightarrow> os \<Rightarrow> bool \<times> os" where
  "FileExists filename st =
     (let (err, st) = sys_call st in (err = None \<and> os_files st filename \<noteq> None, st))"

definition RemoveFile :: "bytes \<Rightarrow> os \<Rightarrow> Status \<times> os" where
  "RemoveFile filename st =
     (case sys_call st of
        (Some err, st) \<Rightarrow> (error_status filename (Some err), st)
      | (None, st) \<Rightarrow>
          (if os_files st filename = None then (error_status filename (Some no_such_file), st)
           else (Status_OK, set_file filename None st)))"

definition CreateDir :: "bytes \<Rightarrow> os \<Rightarrow> Status \<times> os" where
  "CreateDir dirname st =
     (case sys_call st of
        (Some err, st) \<Rightarrow> (error_status dirname (Some err), st)
      | (None, st) \<Rightarrow>
          (if os_dirs st dirname then (error_status dirname (Some (False, lit ''File exists'')), st)
           else (Status_OK, st\<lparr>os_dirs := (os_dirs st)(dirname := True)\<rparr>)))"

definition RemoveDir :: "bytes \<Rightarrow> os \<Rightarrow> Status \<times> os" where
  "RemoveDir dirname st =
     (case sys_call st of
        (Some err, st) \<Rightarrow> (error_status dirname (Some err), st)
      | (None, st) \<Rightarrow>
          (if \<not> os_dirs st dirname then (error_status dirname (Some no_such_file), st)
           else (Status_OK, st\<lparr>os_dirs := (os_dirs st)(dirname := False)\<rparr>)))"

definition GetFileSize :: "bytes \<Rightarrow> os \<Rightarrow> Status \<times> u64 \<times> os" where
  "GetFileSize filename st =
     (case sys_call st of
        (Some err, st) \<Rightarrow> (error_status filename (Some err), 0, st)
      | (None, st) \<Rightarrow>
          (case os_files st filename of
             None \<Rightarrow> (error_status filename (Some no_such_file), 0, st)
           | Some content \<Rightarrow> (Status_OK, of_nat (length content), st)))"

text \<open>\<^verbatim>\<open>rename\<close> replaces the target in one step.\<close>

definition RenameFile :: "bytes \<Rightarrow> bytes \<Rightarrow> os \<Rightarrow> Status \<times> os" where
  "RenameFile from to st =
     (case sys_call st of
        (Some err, st) \<Rightarrow> (error_status from (Some err), st)
      | (None, st) \<Rightarrow>
          (case os_files st from of
             None \<Rightarrow> (error_status from (Some no_such_file), st)
           | Some content \<Rightarrow>
               (Status_OK,
                st\<lparr>os_files := (os_files st)(from := None, to := Some content),
                   os_past := os_past st @ [os_files st]\<rparr>)))"

subsection \<open>Locks\<close>

text \<open>\<^verbatim>\<open>PosixLockTable\<close>: the files this process holds locked.\<close>

type_synonym lock_table = "bytes list"

definition LockTable_Insert :: "bytes \<Rightarrow> lock_table \<Rightarrow> bool \<times> lock_table" where
  "LockTable_Insert fname locked =
     (if fname \<in> set locked then (False, locked) else (True, fname # locked))"

definition LockTable_Remove :: "bytes \<Rightarrow> lock_table \<Rightarrow> lock_table" where
  "LockTable_Remove fname locked = removeAll fname locked"

definition LockFile :: "bytes \<Rightarrow> lock_table \<times> os \<Rightarrow> Status \<times> lock_table \<times> os" where
  "LockFile filename s =
     (let (locked, st) = s; (err, st) = sys_call st in
      if err \<noteq> None then (error_status filename err, locked, st)
      else
        (let st = (if os_files st filename = None then set_file filename (Some []) st else st);
             (inserted, locked) = LockTable_Insert filename locked
         in if \<not> inserted
            then (Status_IOError (lit ''lock '' @ filename) (lit ''already held by process''), locked, st)
            else
              (let (err, st) = sys_call st
               in if err \<noteq> None
                  then (error_status (lit ''lock '' @ filename) err, LockTable_Remove filename locked, st)
                  else (Status_OK, locked, st))))"

definition UnlockFile :: "bytes \<Rightarrow> lock_table \<times> os \<Rightarrow> Status \<times> lock_table \<times> os" where
  "UnlockFile filename s =
     (let (locked, st) = s; (err, st) = sys_call st in
      if err \<noteq> None then (error_status (lit ''unlock '' @ filename) err, locked, st)
      else (Status_OK, LockTable_Remove filename locked, st))"

subsection \<open>The limiter\<close>

record Limiter =
  acquires_allowed :: int

definition Limiter_Acquire :: "Limiter \<Rightarrow> bool \<times> Limiter" where
  "Limiter_Acquire l =
     (let old_acquires_allowed = acquires_allowed l;
          l1 = l\<lparr>acquires_allowed := old_acquires_allowed - 1\<rparr>
      in if old_acquires_allowed > 0 then (True, l1)
         else (False, l1\<lparr>acquires_allowed := acquires_allowed l1 + 1\<rparr>))"

definition Limiter_Release :: "Limiter \<Rightarrow> Limiter" where
  "Limiter_Release l = l\<lparr>acquires_allowed := acquires_allowed l + 1\<rparr>"

section \<open>Whole files\<close>

text \<open>
  An operation on an open writable file, with the results of its system calls taken from the state
  and what it wrote visible in the file system afterwards.
\<close>

definition on_file :: "(PosixWritableFile \<Rightarrow> Status \<times> PosixWritableFile) \<Rightarrow> PosixWritableFile \<Rightarrow> os \<Rightarrow>
    Status \<times> PosixWritableFile \<times> os" where
  "on_file act w st =
     (let (s, w) = act (w\<lparr>pw_fd := (pw_fd w)\<lparr>fd_outcomes := os_calls st\<rparr>\<rparr>);
          st = st\<lparr>os_calls := fd_outcomes (pw_fd w)\<rparr>
      in (s, w, set_file (pw_filename w) (Some (fd_data (pw_fd w))) st))"

text \<open>\<^verbatim>\<open>Sync\<close>: the directory first when the file is a manifest, then the buffer, then the file.\<close>

definition file_Sync :: "PosixWritableFile \<Rightarrow> os \<Rightarrow> Status \<times> PosixWritableFile \<times> os" where
  "file_Sync w st =
     (let (open_error, st) = (if pw_is_manifest w then sys_call st else (None, st));
          (dir_error, st) = (if pw_is_manifest w \<and> open_error = None then sys_call st else (None, st));
          dir_status = SyncDirIfManifest open_error False dir_error w;
          (status, w, st) = on_file (PosixWritableFile_Sync dir_status Status_OK) w st
      in if \<not> Status_ok status then (status, w, st)
         else (let (sync_error, st) = sys_call st in (SyncFd False sync_error (pw_filename w), w, st)))"

definition file_Close :: "PosixWritableFile \<Rightarrow> os \<Rightarrow> Status \<times> PosixWritableFile \<times> os" where
  "file_Close w st =
     (let (status, w, st) = on_file FlushBuffer w st;
          (close_error, st) = sys_call st
      in (if Status_ok status then error_status (pw_filename w) close_error else status,
          w\<lparr>pw_open := False\<rparr>, st))"

text \<open>The destructor closes a file that is still open and ignores the result.\<close>

definition file_delete :: "PosixWritableFile \<Rightarrow> os \<Rightarrow> os" where
  "file_delete w st = (if pw_open w then snd (snd (file_Close w st)) else st)"

definition DoWriteStringToFile :: "bytes \<Rightarrow> bytes \<Rightarrow> bool \<Rightarrow> os \<Rightarrow> Status \<times> os" where
  "DoWriteStringToFile data fname should_sync st =
     (case NewWritableFile fname st of
        (s, None, st) \<Rightarrow> (s, st)
      | (s, Some file, st) \<Rightarrow>
          (let (s, file, st) = on_file (PosixWritableFile_Append data) file st;
               (s, file, st) = (if Status_ok s \<and> should_sync then file_Sync file st else (s, file, st));
               (s, file, st) = (if Status_ok s then file_Close file st else (s, file, st));
               st = file_delete file st;
               st = (if \<not> Status_ok s then snd (RemoveFile fname st) else st)
           in (s, st)))"

definition WriteStringToFile :: "bytes \<Rightarrow> bytes \<Rightarrow> os \<Rightarrow> Status \<times> os" where
  "WriteStringToFile data fname st = DoWriteStringToFile data fname False st"

definition WriteStringToFileSync :: "bytes \<Rightarrow> bytes \<Rightarrow> os \<Rightarrow> Status \<times> os" where
  "WriteStringToFileSync data fname st = DoWriteStringToFile data fname True st"

text \<open>The loop of \<^verbatim>\<open>ReadFileToString\<close>: until a read returns nothing.\<close>

definition kBufferSize :: nat where
  "kBufferSize = 8192"

partial_function (option) ReadFileToString_loop ::
    "bytes \<Rightarrow> PosixSequentialFile \<Rightarrow> (Status \<times> bytes \<times> PosixSequentialFile) option" where
  "ReadFileToString_loop data file =
     (let (s, fragment, file) = PosixSequentialFile_Read kBufferSize file in
      if \<not> Status_ok s then Some (s, data, file)
      else if fragment = [] then Some (s, data @ fragment, file)
      else ReadFileToString_loop (data @ fragment) file)"

definition ReadFileToString :: "bytes \<Rightarrow> os \<Rightarrow> (Status \<times> bytes \<times> os) option" where
  "ReadFileToString fname st =
     (case NewSequentialFile fname st of
        (s, None, st) \<Rightarrow> Some (s, [], st)
      | (s, Some file, st) \<Rightarrow>
          (case ReadFileToString_loop [] (file\<lparr>ps_fd := (ps_fd file)\<lparr>fd_outcomes := os_calls st\<rparr>\<rparr>) of
             None \<Rightarrow> None
           | Some (s, data, file) \<Rightarrow> Some (s, data, st\<lparr>os_calls := fd_outcomes (ps_fd file)\<rparr>)))"

section \<open>Which files an operation touches\<close>

text \<open>
  Outside the paths of \<open>P\<close> the files are the same in the end and were in every state a crash could
  have left on the way.
\<close>

definition touches_only :: "bytes set \<Rightarrow> os \<Rightarrow> os \<Rightarrow> bool" where
  "touches_only P st st' \<longleftrightarrow>
     (\<exists>past. os_past st' = os_past st @ past \<and>
        (\<forall>fs \<in> set (past @ [os_files st']). \<forall>p. p \<notin> P \<longrightarrow> fs p = os_files st p))"

lemma touches_only_refl [simp]:
  "os_files st' = os_files st \<Longrightarrow> os_past st' = os_past st \<Longrightarrow> touches_only P st st'"
  by (simp add: touches_only_def)

lemma touches_only_trans:
  assumes "touches_only P st st1" "touches_only P st1 st2"
  shows "touches_only P st st2"
proof -
  obtain p1 p2 where p: "os_past st1 = os_past st @ p1" "os_past st2 = os_past st1 @ p2"
    and f: "\<forall>fs \<in> set (p1 @ [os_files st1]). \<forall>p. p \<notin> P \<longrightarrow> fs p = os_files st p"
      "\<forall>fs \<in> set (p2 @ [os_files st2]). \<forall>p. p \<notin> P \<longrightarrow> fs p = os_files st1 p"
    using assms unfolding touches_only_def by blast
  then show ?thesis
    unfolding touches_only_def by (intro exI [of _ "p1 @ p2"]) auto
qed

lemma touches_only_files: "touches_only P st st' \<Longrightarrow> p \<notin> P \<Longrightarrow> os_files st' p = os_files st p"
  by (auto simp: touches_only_def)

lemma sys_call_files [simp]:
  "sys_call st = (err, st') \<Longrightarrow> os_files st' = os_files st"
  "sys_call st = (err, st') \<Longrightarrow> os_past st' = os_past st"
  by (auto simp: sys_call_def split: list.splits outcome.splits)

lemma touches_sys_call: "sys_call st = (err, st') \<Longrightarrow> touches_only P st st'"
  by simp

lemma touches_set_file: "path \<in> P \<Longrightarrow> touches_only P st (set_file path content st)"
  by (auto simp: touches_only_def set_file_def)

lemma touches_NewWritableFile:
  "NewWritableFile fname st = (s, f, st') \<Longrightarrow> fname \<in> P \<Longrightarrow> touches_only P st st'"
  by (auto simp: NewWritableFile_def touches_sys_call
      intro: touches_only_trans [OF touches_sys_call touches_set_file]
      split: prod.splits option.splits)

lemma touches_RemoveFile:
  "RemoveFile fname st = (s, st') \<Longrightarrow> fname \<in> P \<Longrightarrow> touches_only P st st'"
  by (auto simp: RemoveFile_def touches_sys_call
      intro: touches_only_trans [OF touches_sys_call touches_set_file]
      split: prod.splits option.splits if_splits)

text \<open>The operations of an open file keep its name.\<close>

lemma WriteUnbuffered_name: "WriteUnbuffered data w = (s, w') \<Longrightarrow> pw_filename w' = pw_filename w"
  by (auto simp: WriteUnbuffered_def split: prod.splits)

lemma FlushBuffer_name: "FlushBuffer w = (s, w') \<Longrightarrow> pw_filename w' = pw_filename w"
  by (auto simp: FlushBuffer_def dest: WriteUnbuffered_name split: prod.splits)

lemma Append_name: "PosixWritableFile_Append data w = (s, w') \<Longrightarrow> pw_filename w' = pw_filename w"
  by (auto simp: PosixWritableFile_Append_def Let_def dest!: WriteUnbuffered_name FlushBuffer_name
      split: prod.splits if_splits)

lemma Sync_name: "PosixWritableFile_Sync ds fs w = (s, w') \<Longrightarrow> pw_filename w' = pw_filename w"
  by (auto simp: PosixWritableFile_Sync_def dest!: FlushBuffer_name split: prod.splits if_splits)

lemma on_file_run:
  assumes "on_file act w st = (s, w', st')"
  obtains w0 where "act (w\<lparr>pw_fd := (pw_fd w)\<lparr>fd_outcomes := os_calls st\<rparr>\<rparr>) = (s, w')"
    "st' = set_file (pw_filename w') (Some (fd_data (pw_fd w'))) (st\<lparr>os_calls := fd_outcomes (pw_fd w')\<rparr>)"
  using assms by (auto simp: on_file_def Let_def split: prod.splits)

lemma touches_on_file:
  assumes "on_file act w st = (s, w', st')"
    and "\<And>w s w'. act w = (s, w') \<Longrightarrow> pw_filename w' = pw_filename w" and "pw_filename w \<in> P"
  shows "touches_only P st st'" "pw_filename w' = pw_filename w"
    "os_files st' (pw_filename w) = Some (fd_data (pw_fd w'))"
proof -
  obtain w0 where a: "act (w\<lparr>pw_fd := (pw_fd w)\<lparr>fd_outcomes := os_calls st\<rparr>\<rparr>) = (s, w')"
    and st': "st' = set_file (pw_filename w') (Some (fd_data (pw_fd w'))) (st\<lparr>os_calls := fd_outcomes (pw_fd w')\<rparr>)"
    using on_file_run [OF assms(1)] by metis
  show n: "pw_filename w' = pw_filename w" using assms(2) [OF a] by simp
  show "os_files st' (pw_filename w) = Some (fd_data (pw_fd w'))"
    by (simp add: st' n set_file_def)
  show "touches_only P st st'"
    unfolding st' n
    by (rule touches_only_trans [OF touches_only_refl touches_set_file]) (use assms(3) in auto)
qed

text \<open>What a step on an open file keeps: its name and the other files.\<close>

definition file_step :: "PosixWritableFile \<Rightarrow> os \<Rightarrow> PosixWritableFile \<Rightarrow> os \<Rightarrow> bool" where
  "file_step w st w' st' \<longleftrightarrow> pw_filename w' = pw_filename w \<and> touches_only {pw_filename w} st st'"

lemma file_step_on_file:
  assumes "on_file act w st = (s, w', st')" "\<And>w s w'. act w = (s, w') \<Longrightarrow> pw_filename w' = pw_filename w"
  shows "file_step w st w' st'"
  using touches_on_file(1,2) [where P = "{pw_filename w}", OF assms] by (simp add: file_step_def)

lemma file_step_trans: "file_step w st w1 st1 \<Longrightarrow> file_step w1 st1 w2 st2 \<Longrightarrow> file_step w st w2 st2"
  unfolding file_step_def by (metis touches_only_trans)

lemma file_step_sys_call: "sys_call st = (err, st') \<Longrightarrow> file_step w st w st'"
  by (simp add: file_step_def)

lemma file_step_refl: "file_step w st w st" by (simp add: file_step_def)

lemma file_step_Sync:
  assumes "file_Sync w st = (s, w', st')"
  shows "file_step w st w' st'"
proof -
  obtain e1 st1 where 1: "(if pw_is_manifest w then sys_call st else (None, st)) = (e1, st1)"
    by (metis surj_pair)
  obtain e2 st2 where 2: "(if pw_is_manifest w \<and> e1 = None then sys_call st1 else (None, st1)) = (e2, st2)"
    by (metis surj_pair)
  obtain s3 w3 st3 where 3: "on_file (PosixWritableFile_Sync (SyncDirIfManifest e1 False e2 w) Status_OK) w st2 = (s3, w3, st3)"
    by (metis surj_pair)
  obtain e4 st4 where 4: "sys_call st3 = (e4, st4)" by (metis surj_pair)
  have "file_step w st w st2"
    using 1 2 file_step_sys_call file_step_refl file_step_trans
    by (metis (no_types, lifting) Pair_inject)
  moreover have "file_step w st2 w3 st3" by (rule file_step_on_file [OF 3 Sync_name])
  moreover have "w' = w3 \<and> (st' = st3 \<or> st' = st4)"
    using assms 1 2 3 4 by (auto simp: file_Sync_def Let_def split: if_splits)
  ultimately show ?thesis using file_step_trans file_step_sys_call [OF 4] by metis
qed

lemma file_step_Close:
  assumes "file_Close w st = (s, w', st')"
  shows "file_step w st w' st'"
proof -
  obtain s1 w1 st1 where 1: "on_file FlushBuffer w st = (s1, w1, st1)" by (metis surj_pair)
  obtain e st2 where 2: "sys_call st1 = (e, st2)" by (metis surj_pair)
  have "w' = w1\<lparr>pw_open := False\<rparr>" "st' = st2" using assms 1 2 by (auto simp: file_Close_def)
  with file_step_trans [OF file_step_on_file [OF 1 FlushBuffer_name] file_step_sys_call [OF 2]]
  show ?thesis by (simp add: file_step_def)
qed

lemma file_step_delete: "file_step w st w (file_delete w st)"
proof (cases "pw_open w")
  case True
  obtain s w' st' where c: "file_Close w st = (s, w', st')" by (metis surj_pair)
  with True file_step_Close [OF c] show ?thesis by (simp add: file_delete_def file_step_def)
qed (simp add: file_delete_def file_step_def)

section \<open>Writing and reading whole files\<close>

text \<open>What an open file has accepted, and that its buffer is within bounds, as long as all went well.\<close>

definition holds_data :: "bytes \<Rightarrow> PosixWritableFile \<Rightarrow> bool" where
  "holds_data data w \<longleftrightarrow> pw_contents w = data \<and> pw_ok w"

lemma holds_data_outcomes [simp]:
  "pw_contents (w\<lparr>pw_fd := (pw_fd w)\<lparr>fd_outcomes := os\<rparr>\<rparr>) = pw_contents w"
  "pw_ok (w\<lparr>pw_fd := (pw_fd w)\<lparr>fd_outcomes := os\<rparr>\<rparr>) = pw_ok w"
  by (simp_all add: pw_contents_def pw_ok_def)

lemma FlushBuffer_holds:
  assumes "FlushBuffer w = (s, w')" "Status_ok s"
  shows "fd_data (pw_fd w') = pw_contents w" "holds_data (pw_contents w) w'"
  using FlushBuffer_flushes [OF assms(1)] assms(2)
  by (simp_all add: holds_data_def pw_contents_def pw_durable_def pw_ok_def)

lemma on_file_Append_holds:
  assumes "on_file (PosixWritableFile_Append data) w st = (s, w', st')" "Status_ok s" "holds_data old w"
  shows "holds_data (old @ data) w'"
proof -
  have a: "PosixWritableFile_Append data (w\<lparr>pw_fd := (pw_fd w)\<lparr>fd_outcomes := os_calls st\<rparr>\<rparr>) = (s, w')"
    using on_file_run [OF assms(1)] by metis
  show ?thesis
    using Append_cases(1,2) [OF a] assms(2,3) by (simp add: holds_data_def)
qed

lemma file_Sync_holds:
  assumes "file_Sync w st = (s, w', st')" "Status_ok s"
  shows "holds_data (pw_contents w) w'"
proof -
  obtain ds st2 w3 st3 where 3: "on_file (PosixWritableFile_Sync ds Status_OK) w st2 = (Status_OK, w3, st3)" "w' = w3"
    using assms by (auto simp: file_Sync_def Let_def Status_ok_iff split: prod.splits if_splits)
  have "PosixWritableFile_Sync ds Status_OK (w\<lparr>pw_fd := (pw_fd w)\<lparr>fd_outcomes := os_calls st2\<rparr>\<rparr>) = (Status_OK, w3)"
    using on_file_run [OF 3(1)] by metis
  then obtain s1 where f: "FlushBuffer (w\<lparr>pw_fd := (pw_fd w)\<lparr>fd_outcomes := os_calls st2\<rparr>\<rparr>) = (s1, w3)" "Status_ok s1"
    by (auto simp: PosixWritableFile_Sync_def Status_ok_iff split: prod.splits if_splits)
  show ?thesis using FlushBuffer_holds(2) [OF f] 3(2) by simp
qed

lemma file_Close_content:
  assumes "file_Close w st = (s, w', st')" "Status_ok s"
  shows "os_files st' (pw_filename w) = Some (pw_contents w)" "\<not> pw_open w'"
proof -
  obtain s1 w1 st1 where 1: "on_file FlushBuffer w st = (s1, w1, st1)" by (metis surj_pair)
  obtain e st2 where 2: "sys_call st1 = (e, st2)" by (metis surj_pair)
  have r: "w' = w1\<lparr>pw_open := False\<rparr>" "st' = st2" "Status_ok s1"
    using assms 1 2 by (auto simp: file_Close_def Status_ok_iff split: if_splits)
  have f: "FlushBuffer (w\<lparr>pw_fd := (pw_fd w)\<lparr>fd_outcomes := os_calls st\<rparr>\<rparr>) = (s1, w1)"
    using on_file_run [OF 1] by metis
  show "os_files st' (pw_filename w) = Some (pw_contents w)"
    using touches_on_file(3) [where P = "{pw_filename w}", OF 1 FlushBuffer_name] FlushBuffer_holds(1) [OF f r(3)]
      2 r(2) by simp
  show "\<not> pw_open w'" using r(1) by simp
qed

text \<open>The steps of \<^verbatim>\<open>DoWriteStringToFile\<close> after the file was opened.\<close>

lemma DoWriteStringToFile_run:
  assumes "DoWriteStringToFile data fname should_sync st = (s, st')"
  obtains (unopened) st1 where "NewWritableFile fname st = (s, None, st1)" "st' = st1"
  | (opened) s0 w0 st0 s1 w1 st1 s2 w2 st2 w3 st3 where
      "NewWritableFile fname st = (s0, Some w0, st0)"
      "on_file (PosixWritableFile_Append data) w0 st0 = (s1, w1, st1)"
      "(if Status_ok s1 \<and> should_sync then file_Sync w1 st1 else (s1, w1, st1)) = (s2, w2, st2)"
      "(if Status_ok s2 then file_Close w2 st2 else (s2, w2, st2)) = (s, w3, st3)"
      "st' = (if \<not> Status_ok s then snd (RemoveFile fname (file_delete w3 st3)) else file_delete w3 st3)"
proof -
  obtain s0 f0 st0 where n: "NewWritableFile fname st = (s0, f0, st0)" by (metis surj_pair)
  show ?thesis
  proof (cases f0)
    case None
    show ?thesis by (rule unopened [of st0]) (use assms n None in \<open>simp_all add: DoWriteStringToFile_def\<close>)
  next
    case (Some w0)
    obtain s1 w1 st1 where 1: "on_file (PosixWritableFile_Append data) w0 st0 = (s1, w1, st1)" by (metis surj_pair)
    obtain s2 w2 st2 where 2: "(if Status_ok s1 \<and> should_sync then file_Sync w1 st1 else (s1, w1, st1)) = (s2, w2, st2)"
      by (metis surj_pair)
    obtain s3 w3 st3 where 3: "(if Status_ok s2 then file_Close w2 st2 else (s2, w2, st2)) = (s3, w3, st3)"
      by (metis surj_pair)
    have r: "(s, st') = (s3, if \<not> Status_ok s3 then snd (RemoveFile fname (file_delete w3 st3)) else file_delete w3 st3)"
      using assms unfolding DoWriteStringToFile_def n Some prod.case option.case Let_def 1 2 3 by auto
    show ?thesis
      by (rule opened [OF n [unfolded Some] 1 2, of w3 st3]) (use 3 r in auto)
  qed
qed

lemma touches_DoWrite:
  assumes "DoWriteStringToFile data fname should_sync st = (s, st')"
  shows "touches_only {fname} st st'"
  using assms
proof (cases rule: DoWriteStringToFile_run)
  case unopened
  then show ?thesis using touches_NewWritableFile by blast
next
  case (opened s0 w0 st0 s1 w1 st1 s2 w2 st2 w3 st3)
  have n: "pw_filename w0 = fname"
    using opened(1) by (auto simp: NewWritableFile_def PosixWritableFile_make_def split: prod.splits option.splits)
  have "file_step w1 st1 w2 st2"
    using opened(3) file_step_Sync [of w1 st1 s2 w2 st2] file_step_refl by (auto split: if_splits)
  moreover have "file_step w2 st2 w3 st3"
    using opened(4) file_step_Close [of w2 st2 s w3 st3] file_step_refl by (auto split: if_splits)
  ultimately have "file_step w1 st1 w3 (file_delete w3 st3)"
    by (rule file_step_trans [OF file_step_trans file_step_delete])
  with file_step_on_file [OF opened(2) Append_name]
  have "file_step w0 st0 w3 (file_delete w3 st3)" by (rule file_step_trans)
  then have "touches_only {fname} st (file_delete w3 st3)"
    using touches_only_trans [OF touches_NewWritableFile [OF opened(1)], of "{fname}"] n
    by (simp add: file_step_def)
  moreover obtain s4 st4 where "RemoveFile fname (file_delete w3 st3) = (s4, st4)" by (metis surj_pair)
  ultimately show ?thesis
    using opened(5) touches_RemoveFile touches_only_trans by (auto split: if_splits)
qed

lemma DoWrite_content:
  assumes "DoWriteStringToFile data fname should_sync st = (s, st')" "Status_ok s"
  shows "os_files st' fname = Some data"
  using assms(1)
proof (cases rule: DoWriteStringToFile_run)
  case unopened
  then show ?thesis using assms(2) by (auto simp: NewWritableFile_def split: prod.splits option.splits)
next
  case (opened s0 w0 st0 s1 w1 st1 s2 w2 st2 w3 st3)
  have w0: "holds_data [] w0" "pw_filename w0 = fname"
    using opened(1) by (auto simp: NewWritableFile_def PosixWritableFile_make_def holds_data_def pw_contents_def
        pw_ok_def split: prod.splits option.splits)
  have ok2: "Status_ok s2" using opened(4) assms(2) by (auto split: if_splits)
  then have ok1: "Status_ok s1" using opened(3) by (auto split: if_splits)
  have w1: "holds_data data w1" using on_file_Append_holds [OF opened(2) ok1 w0(1)] by simp
  have w2: "pw_contents w2 = data"
    using opened(3) w1 file_Sync_holds [of w1 st1 s2 w2 st2] ok2 by (auto simp: holds_data_def split: if_splits)
  have n2: "pw_filename w2 = fname"
    using opened(3) w0(2) file_step_on_file [OF opened(2) Append_name] file_step_Sync [of w1 st1 s2 w2 st2]
    by (auto simp: file_step_def split: if_splits)
  have c: "file_Close w2 st2 = (s, w3, st3)" using opened(4) ok2 by simp
  show ?thesis
    using file_Close_content [OF c assms(2)] opened(5) assms(2) w2 n2 by (simp add: file_delete_def)
qed

text \<open>Reading a file in chunks returns all of it.\<close>

lemma ReadFileToString_loop_reads:
  "ps_ok p \<Longrightarrow>
     \<exists>p'. ReadFileToString_loop data p = Some (Status_OK, data @ ps_remaining p, p')"
proof (induction "length (ps_remaining p)" arbitrary: data p rule: less_induct)
  case less
  obtain p1 where r: "PosixSequentialFile_Read kBufferSize p = (Status_OK, take kBufferSize (ps_remaining p), p1)"
    "ps_ok p1" "ps_remaining p1 = drop kBufferSize (ps_remaining p)"
    using posix_sequential.read_ok [OF less.prems, of kBufferSize] by (auto simp: PosixSequential_def)
  show ?case
  proof (cases "ps_remaining p = []")
    case True
    then show ?thesis using r by (subst ReadFileToString_loop.simps) simp
  next
    case False
    then have "length (ps_remaining p1) < length (ps_remaining p)"
      using r(3) by (simp add: kBufferSize_def)
    from less.hyps [OF this r(2), of "data @ take kBufferSize (ps_remaining p)"]
    obtain p' where "ReadFileToString_loop (data @ take kBufferSize (ps_remaining p)) p1 =
        Some (Status_OK, data @ ps_remaining p, p')"
      using r(3) by auto
    then show ?thesis
      using r(1) False by (subst ReadFileToString_loop.simps) (simp add: kBufferSize_def)
  qed
qed

lemma ReadFileToString_reads:
  assumes "sys_call st = (None, st1)" "os_files st fname = Some content" "\<forall>x\<in>set (os_calls st1). x = Interrupted"
  shows "\<exists>st'. ReadFileToString fname st = Some (Status_OK, content, st')"
proof -
  let ?p = "\<lparr>ps_fd = \<lparr>fd_data = content, fd_offset = 0, fd_outcomes = os_calls st1\<rparr>, ps_filename = fname\<rparr>"
  obtain p' where "ReadFileToString_loop [] ?p = Some (Status_OK, content, p')"
    using ReadFileToString_loop_reads [of ?p "[]"] assms(3) by (auto simp: ps_ok_def ps_remaining_def)
  then show ?thesis
    using assms(1,2) by (simp add: ReadFileToString_def NewSequentialFile_def)
qed

section \<open>When no system call fails\<close>

lemma WriteUnbuffered_loop_quiet:
  "fd_outcomes f = [] \<Longrightarrow> WriteUnbuffered_loop fname data f = (Status_OK, f\<lparr>fd_data := fd_data f @ data\<rparr>)"
  by (subst WriteUnbuffered_loop.simps) (simp add: sys_write_def WriteUnbuffered_loop.simps [of _ "[]"])

text \<open>An operation on an open file that succeeds and consumes nothing when no failure is planned.\<close>

definition quiet :: "(PosixWritableFile \<Rightarrow> Status \<times> PosixWritableFile) \<Rightarrow> bool" where
  "quiet act \<longleftrightarrow> (\<forall>w. fd_outcomes (pw_fd w) = [] \<longrightarrow> fst (act w) = Status_OK \<and> fd_outcomes (pw_fd (snd (act w))) = [])"

lemma quietD:
  "quiet act \<Longrightarrow> fd_outcomes (pw_fd w) = [] \<Longrightarrow> act w = (s, w') \<Longrightarrow> s = Status_OK \<and> fd_outcomes (pw_fd w') = []"
  unfolding quiet_def by (metis fst_conv snd_conv)

lemma quiet_WriteUnbuffered: "quiet (WriteUnbuffered data)"
  by (simp add: quiet_def WriteUnbuffered_def WriteUnbuffered_loop_quiet)

lemma quiet_FlushBuffer: "quiet FlushBuffer"
  using quiet_WriteUnbuffered by (simp add: quiet_def FlushBuffer_def case_prod_unfold Let_def)

lemma quiet_Append: "quiet (PosixWritableFile_Append data)"
  using quiet_FlushBuffer quiet_WriteUnbuffered
  by (simp add: quiet_def PosixWritableFile_Append_def case_prod_unfold Let_def)

lemma quiet_Sync: "Status_ok ds \<Longrightarrow> quiet (PosixWritableFile_Sync ds Status_OK)"
  using quiet_FlushBuffer by (simp add: quiet_def PosixWritableFile_Sync_def case_prod_unfold Let_def)

lemma sys_call_quiet [simp]: "os_calls st = [] \<Longrightarrow> sys_call st = (None, st)"
  by (simp add: sys_call_def)

lemma on_file_quiet:
  assumes "quiet act" "os_calls st = []" "on_file act w st = (s, w', st')"
  shows "s = Status_OK" "os_calls st' = []"
proof -
  have a: "act (w\<lparr>pw_fd := (pw_fd w)\<lparr>fd_outcomes := os_calls st\<rparr>\<rparr>) = (s, w')"
    "st' = set_file (pw_filename w') (Some (fd_data (pw_fd w'))) (st\<lparr>os_calls := fd_outcomes (pw_fd w')\<rparr>)"
    using on_file_run [OF assms(3)] by metis+
  have "s = Status_OK \<and> fd_outcomes (pw_fd w') = []"
    by (rule quietD [OF assms(1) _ a(1)]) (simp add: assms(2))
  with a(2) show "s = Status_OK" "os_calls st' = []" by (simp_all add: set_file_def)
qed

lemma file_Sync_quiet:
  assumes "os_calls st = []" "file_Sync w st = (s, w', st')"
  shows "s = Status_OK" "os_calls st' = []"
proof -
  obtain s1 w1 st1 where 1: "on_file (PosixWritableFile_Sync Status_OK Status_OK) w st = (s1, w1, st1)" by (metis surj_pair)
  have q: "s1 = Status_OK" "os_calls st1 = []"
    using on_file_quiet [OF quiet_Sync assms(1) 1] by simp_all
  have "SyncDirIfManifest None False None w = Status_OK" by (simp add: SyncDirIfManifest_def SyncFd_def)
  then have "file_Sync w st = (Status_OK, w1, st1)"
    using assms(1) 1 q by (cases "pw_is_manifest w") (simp_all add: file_Sync_def SyncFd_def)
  then show "s = Status_OK" "os_calls st' = []" using assms(2) q(2) by simp_all
qed

lemma file_Close_quiet:
  assumes "os_calls st = []" "file_Close w st = (s, w', st')"
  shows "s = Status_OK" "os_calls st' = []"
proof -
  obtain s1 w1 st1 where 1: "on_file FlushBuffer w st = (s1, w1, st1)" by (metis surj_pair)
  have q: "s1 = Status_OK" "os_calls st1 = []"
    using on_file_quiet [OF quiet_FlushBuffer assms(1) 1] by simp_all
  then show "s = Status_OK" "os_calls st' = []"
    using assms 1 by (auto simp: file_Close_def error_status_def)
qed

lemma DoWrite_quiet:
  assumes "os_calls st = []" "DoWriteStringToFile data fname should_sync st = (s, st')"
  shows "s = Status_OK" "os_calls st' = []"
proof -
  have "s = Status_OK \<and> os_calls st' = []"
    using assms(2)
  proof (cases rule: DoWriteStringToFile_run)
    case unopened
    then show ?thesis using assms(1) by (simp add: NewWritableFile_def)
  next
    case (opened s0 w0 st0 s1 w1 st1 s2 w2 st2 w3 st3)
    have 0: "os_calls st0 = []" using opened(1) assms(1) by (auto simp: NewWritableFile_def set_file_def)
    note 1 = on_file_quiet [OF quiet_Append 0 opened(2)]
    have 2: "s2 = Status_OK" "os_calls st2 = []"
      using opened(3) 1 file_Sync_quiet [of st1 w1 s2 w2 st2] by (auto split: if_splits)
    have c: "file_Close w2 st2 = (s, w3, st3)" using opened(4) 2(1) by simp
    have "\<not> pw_open w3" using file_Close_content(2) [OF c] file_Close_quiet [OF 2(2) c] by simp
    then show ?thesis
      using file_Close_quiet [OF 2(2) c] opened(5) by (simp add: file_delete_def)
  qed
  then show "s = Status_OK" "os_calls st' = []" by simp_all
qed

section \<open>What the environment promises\<close>

text \<open>
  C40. When writing a string to a file returns ok, with or without a sync and
  whatever partial writes happened on the way, reading the file back returns exactly that string,
  although the reads may be interrupted any number of times and come in chunks of 8192 bytes; and the
  write touched no other file, also when it failed.
\<close>

theorem whole_file_roundtrip:
  assumes "DoWriteStringToFile data fname should_sync st = (s, st')"
  shows "(Status_ok s \<and> sys_call st' = (None, st1) \<and> (\<forall>x \<in> set (os_calls st1). x = Interrupted) \<longrightarrow>
      (\<exists>st2. ReadFileToString fname st' = Some (Status_OK, data, st2))) \<and>
    (\<forall>p. p \<noteq> fname \<longrightarrow> os_files st' p = os_files st p) \<and> (os_calls st = [] \<longrightarrow> Status_ok s)"
  using DoWrite_content [OF assms] ReadFileToString_reads [of st' st1 fname data]
    touches_only_files [OF touches_DoWrite [OF assms]] DoWrite_quiet(1) [OF _ assms] by auto

theorem whole_file_roundtrip_witness:
  "case DoWriteStringToFile [1, 2] (lit ''f'') True \<lparr>os_files = \<lambda>_. None, os_dirs = \<lambda>_. True, os_calls = [], os_past = []\<rparr> of
     (s, st') \<Rightarrow> \<exists>st2. ReadFileToString (lit ''f'') st' = Some (Status_OK, [1, 2], st2)"
proof -
  let ?st = "\<lparr>os_files = \<lambda>_. None, os_dirs = \<lambda>_. True, os_calls = [], os_past = []\<rparr>"
  obtain s st' where r: "DoWriteStringToFile [1, 2] (lit ''f'') True ?st = (s, st')" by (metis surj_pair)
  with whole_file_roundtrip [OF r, of st'] DoWrite_quiet [OF _ r] show ?thesis by simp
qed

text \<open>
  The lock table keeps a database from being opened twice by one process: locking
  a file succeeds only if the process did not hold it, a second attempt fails with an I/O error and
  leaves the first lock in place, a failed system call leaves no lock behind, and unlocking releases
  exactly that file.
\<close>

theorem lock_exclusive:
  assumes "distinct locked" "LockFile f (locked, st) = (s, locked', st')"
  shows "distinct locked' \<and>
    (Status_ok s \<longrightarrow> f \<notin> set locked \<and> set locked' = insert f (set locked)) \<and>
    (\<not> Status_ok s \<longrightarrow> set locked' = set locked) \<and>
    (f \<in> set locked \<longrightarrow> \<not> Status_ok s) \<and>
    (os_calls st = [] \<and> f \<notin> set locked \<longrightarrow> Status_ok s) \<and>
    (UnlockFile f (locked', st') = (s2, locked2, st2) \<longrightarrow> Status_ok s2 \<longrightarrow> set locked2 = set locked' - {f})"
  using assms
  by (auto simp: LockFile_def UnlockFile_def LockTable_Insert_def LockTable_Remove_def Let_def error_status_def
      distinct_removeAll set_file_def split: prod.splits if_splits option.splits)

theorem lock_exclusive_witness:
  "case LockFile (lit ''LOCK'') ([], \<lparr>os_files = \<lambda>_. None, os_dirs = \<lambda>_. True, os_calls = [], os_past = []\<rparr>) of
     (s, locked, st) \<Rightarrow> Status_ok s \<and> \<not> Status_ok (fst (LockFile (lit ''LOCK'') (locked, st)))"
proof -
  let ?st = "\<lparr>os_files = \<lambda>_. None, os_dirs = \<lambda>_. True, os_calls = [], os_past = []\<rparr>"
  obtain s locked st where r: "LockFile (lit ''LOCK'') ([], ?st) = (s, locked, st)" by (metis surj_pair)
  obtain s2 locked2 st2 where r2: "LockFile (lit ''LOCK'') (locked, st) = (s2, locked2, st2)" by (metis surj_pair)
  note a = lock_exclusive [OF distinct.simps(1) [THEN iffD2, OF TrueI] r, of Status_OK "[]" ?st]
  with lock_exclusive [OF _ r2, of Status_OK "[]" ?st] r r2 show ?thesis by auto
qed

end
