(* ===== verification/Filename.thy ===== *)
theory Filename
  imports Logging Slice Posix_Env
begin

text \<open>
  \<^verbatim>\<open>db/filename.cc\<close>: the names of the files of a database, the parser that recognises them, and the
  switch of the \<^verbatim>\<open>CURRENT\<close> file to a new manifest by writing a temporary file and renaming it.
\<close>

section \<open>Names\<close>

datatype FileType = kLogFile | kDBLockFile | kTableFile | kDescriptorFile | kCurrentFile | kTempFile | kInfoLogFile

text \<open>The conversion \<^verbatim>\<open>%06llu\<close>.\<close>

definition dec6 :: "u64 \<Rightarrow> bytes" where
  "dec6 n = replicate (6 - length (dec_digits (unat n))) 48 @ dec_digits (unat n)"

text \<open>\<^verbatim>\<open>snprintf\<close> into a buffer of 100 characters, the last one for the terminator.\<close>

definition MakeFileName :: "bytes \<Rightarrow> u64 \<Rightarrow> bytes \<Rightarrow> bytes" where
  "MakeFileName dbname num suff = dbname @ take 99 (lit ''/'' @ dec6 num @ lit ''.'' @ suff)"

definition LogFileName :: "bytes \<Rightarrow> u64 \<Rightarrow> bytes" where
  "LogFileName dbname num = MakeFileName dbname num (lit ''log'')"

definition TableFileName :: "bytes \<Rightarrow> u64 \<Rightarrow> bytes" where
  "TableFileName dbname num = MakeFileName dbname num (lit ''ldb'')"

definition SSTTableFileName :: "bytes \<Rightarrow> u64 \<Rightarrow> bytes" where
  "SSTTableFileName dbname num = MakeFileName dbname num (lit ''sst'')"

definition DescriptorFileName :: "bytes \<Rightarrow> u64 \<Rightarrow> bytes" where
  "DescriptorFileName dbname num = dbname @ take 99 (lit ''/MANIFEST-'' @ dec6 num)"

definition CurrentFileName :: "bytes \<Rightarrow> bytes" where
  "CurrentFileName dbname = dbname @ lit ''/CURRENT''"

definition LockFileName :: "bytes \<Rightarrow> bytes" where
  "LockFileName dbname = dbname @ lit ''/LOCK''"

definition TempFileName :: "bytes \<Rightarrow> u64 \<Rightarrow> bytes" where
  "TempFileName dbname num = MakeFileName dbname num (lit ''dbtmp'')"

definition InfoLogFileName :: "bytes \<Rightarrow> bytes" where
  "InfoLogFileName dbname = dbname @ lit ''/LOG''"

definition OldInfoLogFileName :: "bytes \<Rightarrow> bytes" where
  "OldInfoLogFileName dbname = dbname @ lit ''/LOG.old''"

definition ParseFileName :: "bytes \<Rightarrow> (u64 \<times> FileType) option" where
  "ParseFileName filename =
     (let rest = filename in
      if Slice_eq rest (lit ''CURRENT'') then Some (0, kCurrentFile)
      else if Slice_eq rest (lit ''LOCK'') then Some (0, kDBLockFile)
      else if Slice_eq rest (lit ''LOG'') \<or> Slice_eq rest (lit ''LOG.old'') then Some (0, kInfoLogFile)
      else if Slice_starts_with rest (lit ''MANIFEST-'') then
        (case ConsumeDecimalNumber (Slice_remove_prefix rest (length (lit ''MANIFEST-''))) of
           None \<Rightarrow> None
         | Some (num, rest) \<Rightarrow> if rest \<noteq> [] then None else Some (num, kDescriptorFile))
      else
        (case ConsumeDecimalNumber rest of
           None \<Rightarrow> None
         | Some (num, suff) \<Rightarrow>
             if Slice_eq suff (lit ''.log'') then Some (num, kLogFile)
             else if Slice_eq suff (lit ''.sst'') \<or> Slice_eq suff (lit ''.ldb'') then Some (num, kTableFile)
             else if Slice_eq suff (lit ''.dbtmp'') then Some (num, kTempFile)
             else None))"

definition SetCurrentFile :: "bytes \<Rightarrow> u64 \<Rightarrow> os \<Rightarrow> Status \<times> os" where
  "SetCurrentFile dbname descriptor_number st =
     (let manifest = DescriptorFileName dbname descriptor_number;
          contents = Slice_remove_prefix manifest (length dbname + 1);
          tmp = TempFileName dbname descriptor_number;
          (s, st) = WriteStringToFileSync (contents @ lit [CHR 0x0A]) tmp st;
          (s, st) = (if Status_ok s then RenameFile tmp (CurrentFileName dbname) st else (s, st));
          st = (if \<not> Status_ok s then snd (RemoveFile tmp st) else st)
      in (s, st))"

section \<open>The names are short enough and parse back\<close>

lemma lit_append [simp]: "lit (xs @ ys) = lit xs @ lit ys"
  by (simp add: lit_def)

lemma lit_Cons: "lit (c # cs) = of_nat (of_char c) # lit cs"
  by (simp add: lit_def)

lemma length_dec_digits_bound: "n < 10 ^ k \<Longrightarrow> 0 < k \<Longrightarrow> length (dec_digits n) \<le> k"
proof (induction n arbitrary: k rule: dec_digits.induct)
  case (1 n)
  show ?case
  proof (cases "n < 10")
    case True
    then show ?thesis using "1.prems" by (simp add: dec_digits.simps [of n])
  next
    case False
    then have "k \<noteq> 1" using "1.prems" by auto
    then obtain j where k: "k = Suc j" "0 < j" using "1.prems"(2) by (cases k) auto
    then have "n div 10 < 10 ^ j" using "1.prems" by (simp add: div_less_iff_less_mult)
    then show ?thesis
      using "1.IH" False k by (simp add: dec_digits.simps [of n])
  qed
qed

lemma length_dec6: "length (dec6 n) \<le> 20"
  using length_dec_digits_bound [of "unat n" 20] unat_u64_less [of n] by (simp add: dec6_def)

lemma MakeFileName_eq:
  "length suff \<le> 70 \<Longrightarrow> MakeFileName dbname n suff = dbname @ lit ''/'' @ dec6 n @ lit ''.'' @ suff"
  using length_dec6 [of n] by (simp add: MakeFileName_def)

lemma DescriptorFileName_eq: "DescriptorFileName dbname n = dbname @ lit ''/MANIFEST-'' @ dec6 n"
  using length_dec6 [of n] by (simp add: DescriptorFileName_def)

lemmas file_names = LogFileName_def TableFileName_def SSTTableFileName_def TempFileName_def

text \<open>A non-empty run of digits that stands for a 64-bit number.\<close>

definition digits_of :: "bytes \<Rightarrow> u64 \<Rightarrow> bool" where
  "digits_of ds n \<longleftrightarrow> ds \<noteq> [] \<and> (\<forall>d \<in> set ds. is_digit d) \<and> dec_value 0 ds < 2 ^ 64 \<and> n = of_nat (dec_value 0 ds)"

lemma dec_value_zeros: "dec_value 0 (replicate k 48 @ ds) = dec_value 0 ds"
  by (induction k) (simp_all add: digit_val_def)

lemma digits_of_dec6: "digits_of (dec6 n) n"
  using dec_digits_are_digits [of "unat n"] unat_u64_less [of n]
  by (auto simp: digits_of_def dec6_def dec_value_zeros dec_value_dec_digits is_digit_def)

lemma ConsumeDecimalNumber_iff:
  "ConsumeDecimalNumber input = Some (n, rest) \<longleftrightarrow>
     (\<exists>ds. input = ds @ rest \<and> digits_of ds n \<and> (rest = [] \<or> \<not> is_digit (hd rest)))"
proof
  let ?ds = "takeWhile is_digit input" and ?rest = "dropWhile is_digit input"
  have ds: "\<forall>d \<in> set ?ds. is_digit d" by (auto dest: set_takeWhileD)
  have rest: "?rest = [] \<or> \<not> is_digit (hd ?rest)" using hd_dropWhile [of is_digit input] by blast
  assume a: "ConsumeDecimalNumber input = Some (n, rest)"
  show "\<exists>ds. input = ds @ rest \<and> digits_of ds n \<and> (rest = [] \<or> \<not> is_digit (hd rest))"
  proof (cases "?ds = []")
    case True
    then have "input = [] \<or> \<not> is_digit (hd input)" by (cases input) (auto split: if_splits)
    with a show ?thesis by (simp add: ConsumeDecimalNumber_no_digit)
  next
    case False
    have "ConsumeDecimalNumber (?ds @ ?rest) = Some (n, rest)" using a by simp
    then have "dec_value 0 ?ds < 2 ^ 64" "n = of_nat (dec_value 0 ?ds)" "rest = ?rest"
      unfolding ConsumeDecimalNumber_digits [OF ds False rest] by (auto split: if_splits)
    then show ?thesis using ds False rest by (intro exI [of _ ?ds]) (simp add: digits_of_def)
  qed
next
  assume "\<exists>ds. input = ds @ rest \<and> digits_of ds n \<and> (rest = [] \<or> \<not> is_digit (hd rest))"
  then obtain ds where ds: "input = ds @ rest" "digits_of ds n" "rest = [] \<or> \<not> is_digit (hd rest)" by blast
  then show "ConsumeDecimalNumber input = Some (n, rest)"
    using ConsumeDecimalNumber_digits [OF _ _ ds(3), of ds] by (simp add: digits_of_def)
qed

text \<open>The names a database owns, with their number and type.\<close>

definition owned_name :: "bytes \<Rightarrow> u64 \<Rightarrow> FileType \<Rightarrow> bool" where
  "owned_name f n t \<longleftrightarrow>
     n = 0 \<and> (f = lit ''CURRENT'' \<and> t = kCurrentFile \<or> f = lit ''LOCK'' \<and> t = kDBLockFile \<or>
              (f = lit ''LOG'' \<or> f = lit ''LOG.old'') \<and> t = kInfoLogFile) \<or>
     (\<exists>ds. digits_of ds n \<and>
        (f = lit ''MANIFEST-'' @ ds \<and> t = kDescriptorFile \<or> f = ds @ lit ''.log'' \<and> t = kLogFile \<or>
         (f = ds @ lit ''.sst'' \<or> f = ds @ lit ''.ldb'') \<and> t = kTableFile \<or> f = ds @ lit ''.dbtmp'' \<and> t = kTempFile))"

lemma digits_of_hd: "digits_of ds n \<Longrightarrow> \<exists>d ds'. ds = d # ds' \<and> is_digit d"
  by (cases ds) (auto simp: digits_of_def)

lemmas lit_simps = lit_def is_digit_def

lemma digits_not_lit:
  assumes "digits_of ds n"
  shows "ds @ xs \<noteq> lit ''CURRENT''" "ds @ xs \<noteq> lit ''LOCK''" "ds @ xs \<noteq> lit ''LOG''" "ds @ xs \<noteq> lit ''LOG.old''"
    "ds @ xs \<noteq> lit ''MANIFEST-'' @ ys"
  using digits_of_hd [OF assms] by (auto simp: lit_simps)

lemma manifest_not_lit:
  "lit ''MANIFEST-'' @ ds \<noteq> lit ''CURRENT''" "lit ''MANIFEST-'' @ ds \<noteq> lit ''LOCK''"
  "lit ''MANIFEST-'' @ ds \<noteq> lit ''LOG''" "lit ''MANIFEST-'' @ ds \<noteq> lit ''LOG.old''"
  by (simp_all add: lit_simps)

lemma lit_distinct:
  "lit ''LOCK'' \<noteq> lit ''CURRENT''" "lit ''LOG'' \<noteq> lit ''CURRENT''" "lit ''LOG'' \<noteq> lit ''LOCK''"
  "lit ''LOG.old'' \<noteq> lit ''CURRENT''" "lit ''LOG.old'' \<noteq> lit ''LOCK''"
  "lit ''.sst'' \<noteq> lit ''.log''" "lit ''.ldb'' \<noteq> lit ''.log''" "lit ''.dbtmp'' \<noteq> lit ''.log''"
  "lit ''.dbtmp'' \<noteq> lit ''.sst''" "lit ''.dbtmp'' \<noteq> lit ''.ldb''"
  by (simp_all add: lit_simps)

lemma suffix_not_digit:
  "\<not> is_digit (hd (lit ''.log''))" "\<not> is_digit (hd (lit ''.sst''))" "\<not> is_digit (hd (lit ''.ldb''))"
  "\<not> is_digit (hd (lit ''.dbtmp''))"
  by (simp_all add: lit_simps)

lemma owned_ParseFileName:
  assumes "owned_name f n t"
  shows "ParseFileName f = Some (n, t)"
proof -
  have d: "ParseFileName (ds @ suff) =
      (if suff = lit ''.log'' then Some (m, kLogFile) else if suff = lit ''.sst'' \<or> suff = lit ''.ldb'' then Some (m, kTableFile)
       else if suff = lit ''.dbtmp'' then Some (m, kTempFile) else None)"
    if "digits_of ds m" "\<not> is_digit (hd suff)" for ds suff m
    using that digits_not_lit [OF that(1)] ConsumeDecimalNumber_iff [of "ds @ suff" m suff]
    by (auto simp: ParseFileName_def Slice_starts_with_iff)
  have m: "ParseFileName (lit ''MANIFEST-'' @ ds) = Some (m, kDescriptorFile)" if "digits_of ds m" for ds m
    using that manifest_not_lit [of ds] ConsumeDecimalNumber_iff [of ds m "[]"]
    by (auto simp: ParseFileName_def Slice_starts_with_iff Slice_remove_prefix_def)
  show ?thesis
    using assms unfolding owned_name_def
    by (elim disjE conjE exE) (simp_all add: d m suffix_not_digit lit_distinct, simp_all add: ParseFileName_def lit_distinct)
qed

lemma ParseFileName_owned:
  assumes "ParseFileName f = Some (n, t)"
  shows "owned_name f n t"
proof -
  have l: "length (lit ''MANIFEST-'') = 9" by simp
  show ?thesis
    using assms unfolding ParseFileName_def Let_def owned_name_def
    by (auto simp: Slice_starts_with_iff Slice_remove_prefix_def ConsumeDecimalNumber_iff
        split: if_splits option.splits)
qed

lemma base_names:
  "drop (length dbname + 1) (LogFileName dbname m) = dec6 m @ lit ''.log''"
  "drop (length dbname + 1) (TableFileName dbname m) = dec6 m @ lit ''.ldb''"
  "drop (length dbname + 1) (SSTTableFileName dbname m) = dec6 m @ lit ''.sst''"
  "drop (length dbname + 1) (DescriptorFileName dbname m) = lit ''MANIFEST-'' @ dec6 m"
  "drop (length dbname + 1) (TempFileName dbname m) = dec6 m @ lit ''.dbtmp''"
  "drop (length dbname + 1) (CurrentFileName dbname) = lit ''CURRENT''"
  "drop (length dbname + 1) (LockFileName dbname) = lit ''LOCK''"
  "drop (length dbname + 1) (InfoLogFileName dbname) = lit ''LOG''"
  "drop (length dbname + 1) (OldInfoLogFileName dbname) = lit ''LOG.old''"
  by (simp_all add: file_names MakeFileName_eq DescriptorFileName_eq CurrentFileName_def LockFileName_def
      InfoLogFileName_def OldInfoLogFileName_def lit_def)


section \<open>Switching to a new manifest\<close>

lemma TempFileName_neq_Current: "TempFileName dbname n \<noteq> CurrentFileName dbname"
  by (simp add: TempFileName_def MakeFileName_eq CurrentFileName_def lit_def)

lemma RenameFile_cases:
  assumes "RenameFile from to st = (s, st')"
  shows "Status_ok s \<Longrightarrow> os_files st from \<noteq> None \<and>
      os_files st' = (os_files st)(from := None, to := os_files st from) \<and> os_past st' = os_past st @ [os_files st]"
    and "\<not> Status_ok s \<Longrightarrow> os_files st' = os_files st \<and> os_past st' = os_past st"
  using assms
  by (auto simp: RenameFile_def error_status_def split: prod.splits option.splits if_splits)

lemma SetCurrentFile_atomic:
  fixes dbname :: bytes and num :: u64 and st :: os
  defines "cur \<equiv> CurrentFileName dbname" and "tmp \<equiv> TempFileName dbname num"
  assumes "SetCurrentFile dbname num st = (s, st')"
  shows "\<exists>past. os_past st' = os_past st @ past \<and>
      (\<forall>fs \<in> set (past @ [os_files st']).
         (fs cur = os_files st cur \<or> fs cur = Some (lit ''MANIFEST-'' @ dec6 num @ lit [CHR 0x0A])) \<and>
         (\<forall>p. p \<noteq> cur \<and> p \<noteq> tmp \<longrightarrow> fs p = os_files st p)) \<and>
      (Status_ok s \<longrightarrow> os_files st' cur = Some (lit ''MANIFEST-'' @ dec6 num @ lit [CHR 0x0A]) \<and> os_files st' tmp = None) \<and>
      (\<not> Status_ok s \<longrightarrow> os_files st' cur = os_files st cur) \<and> (os_calls st = [] \<longrightarrow> Status_ok s)"
proof -
  let ?line = "lit ''MANIFEST-'' @ dec6 num @ lit [CHR 0x0A]"
  have neq: "tmp \<noteq> cur" unfolding tmp_def cur_def by (rule TempFileName_neq_Current)
  have c: "Slice_remove_prefix (DescriptorFileName dbname num) (length dbname + 1) @ lit [CHR 0x0A] = ?line"
    using base_names(4) [of dbname num] by (simp add: Slice_remove_prefix_def)
  obtain s1 st1 where w: "DoWriteStringToFile ?line tmp True st = (s1, st1)" by (metis surj_pair)
  obtain s2 st2 where r: "(if Status_ok s1 then RenameFile tmp cur st1 else (s1, st1)) = (s2, st2)" by (metis surj_pair)
  have fin: "s = s2" "st' = (if \<not> Status_ok s2 then snd (RemoveFile tmp st2) else st2)"
    using assms(3) w r
    unfolding SetCurrentFile_def Let_def c WriteStringToFileSync_def tmp_def [symmetric] cur_def [symmetric]
    by auto
  have t1: "touches_only {tmp} st st1" by (rule touches_DoWrite [OF w])
  have live: "Status_ok s" if q: "os_calls st = []"
  proof -
    have "s1 = Status_OK" "os_calls st1 = []" using DoWrite_quiet [OF q w] by simp_all
    moreover from this have "os_files st1 tmp = Some ?line" using DoWrite_content [OF w] by simp
    ultimately show ?thesis using r fin(1) by (auto simp: RenameFile_def)
  qed
  show ?thesis
  proof (cases "Status_ok s2")
    case True
    then have ok1: "Status_ok s1" using r by (auto split: if_splits)
    have st2: "os_files st2 = (os_files st1)(tmp := None, cur := os_files st1 tmp)" "os_past st2 = os_past st1 @ [os_files st1]"
      using RenameFile_cases(1) [of tmp cur st1 s2 st2] r ok1 True by simp_all
    have "os_files st1 tmp = Some ?line" by (rule DoWrite_content [OF w ok1])
    moreover obtain past where "os_past st1 = os_past st @ past"
      "\<forall>fs \<in> set (past @ [os_files st1]). \<forall>p. p \<noteq> tmp \<longrightarrow> fs p = os_files st p"
      using t1 by (auto simp: touches_only_def)
    ultimately show ?thesis
      using True fin st2 neq live by (intro exI [of _ "past @ [os_files st1]"]) auto
  next
    case False
    have "os_files st2 = os_files st1 \<and> os_past st2 = os_past st1"
      using r False RenameFile_cases(2) [of tmp cur st1 s2 st2] by (auto split: if_splits)
    moreover obtain s3 st3 where "RemoveFile tmp st2 = (s3, st3)" by (metis surj_pair)
    ultimately have "touches_only {tmp} st st'"
      using fin(2) False t1 touches_RemoveFile [of tmp st2 s3 st3 "{tmp}"]
        touches_only_trans [OF touches_only_trans [OF t1, of st2], of st'] by simp
    then obtain past where "os_past st' = os_past st @ past"
      "\<forall>fs \<in> set (past @ [os_files st']). \<forall>p. p \<noteq> tmp \<longrightarrow> fs p = os_files st p"
      by (auto simp: touches_only_def)
    then show ?thesis
      using False fin(1) neq live by (intro exI [of _ past]) auto
  qed
qed



end
