(* ===== verification/Version_Edit.thy ===== *)
theory Version_Edit
  imports Dbformat Status "HOL-Library.Product_Lexorder" "HOL-Library.Monad_Syntax"
begin

text \<open>
  \<^verbatim>\<open>db/version_edit.cc\<close>: the record of a change to the set of table files, as it is written to the
  manifest.  The set of deleted files is a \<^verbatim>\<open>std::set\<close> of pairs, kept here as the list of its elements
  in the order of the set (pairs compare lexicographically).
\<close>

section \<open>Data\<close>

record FileMetaData =
  fm_refs :: int
  fm_allowed_seeks :: int
  fm_number :: u64
  fm_file_size :: u64
  fm_smallest :: InternalKey
  fm_largest :: InternalKey

text \<open>The constructor; the number, which it leaves uninitialised, is always assigned before use.\<close>

definition FileMetaData_make :: FileMetaData where
  "FileMetaData_make =
     \<lparr>fm_refs = 0, fm_allowed_seeks = 2 ^ 30, fm_number = 0, fm_file_size = 0,
      fm_smallest = \<lparr>ik_rep = []\<rparr>, fm_largest = \<lparr>ik_rep = []\<rparr>\<rparr>"

record VersionEdit =
  ve_comparator :: bytes
  ve_log_number :: u64
  ve_prev_log_number :: u64
  ve_next_file_number :: u64
  ve_last_sequence :: SequenceNumber
  ve_has_comparator :: bool
  ve_has_log_number :: bool
  ve_has_prev_log_number :: bool
  ve_has_next_file_number :: bool
  ve_has_last_sequence :: bool
  ve_compact_pointers :: "(int \<times> InternalKey) list"
  ve_deleted_files :: "(int \<times> u64) list"
  ve_new_files :: "(int \<times> FileMetaData) list"

text \<open>\<^verbatim>\<open>enum Tag\<close>.\<close>

definition kComparator :: u32 where "kComparator = 1"
definition kLogNumber :: u32 where "kLogNumber = 2"
definition kNextFileNumber :: u32 where "kNextFileNumber = 3"
definition kLastSequence :: u32 where "kLastSequence = 4"
definition kCompactPointer :: u32 where "kCompactPointer = 5"
definition kDeletedFile :: u32 where "kDeletedFile = 6"
definition kNewFile :: u32 where "kNewFile = 7"
definition kPrevLogNumber :: u32 where "kPrevLogNumber = 9"

lemmas tag_defs = kComparator_def kLogNumber_def kNextFileNumber_def kLastSequence_def
  kCompactPointer_def kDeletedFile_def kNewFile_def kPrevLogNumber_def

text \<open>\<^verbatim>\<open>Clear\<close> resets everything but the compaction pointers.\<close>

definition VersionEdit_Clear :: "VersionEdit \<Rightarrow> VersionEdit" where
  "VersionEdit_Clear e =
     e\<lparr>ve_comparator := [], ve_log_number := 0, ve_prev_log_number := 0, ve_last_sequence := 0,
       ve_next_file_number := 0, ve_has_comparator := False, ve_has_log_number := False,
       ve_has_prev_log_number := False, ve_has_next_file_number := False,
       ve_has_last_sequence := False, ve_deleted_files := [], ve_new_files := []\<rparr>"

definition VersionEdit_make :: VersionEdit where
  "VersionEdit_make =
     \<lparr>ve_comparator = [], ve_log_number = 0, ve_prev_log_number = 0, ve_next_file_number = 0,
      ve_last_sequence = 0, ve_has_comparator = False, ve_has_log_number = False,
      ve_has_prev_log_number = False, ve_has_next_file_number = False, ve_has_last_sequence = False,
      ve_compact_pointers = [], ve_deleted_files = [], ve_new_files = []\<rparr>"

definition SetComparatorName :: "bytes \<Rightarrow> VersionEdit \<Rightarrow> VersionEdit" where
  "SetComparatorName name e = e\<lparr>ve_has_comparator := True, ve_comparator := name\<rparr>"

definition SetLogNumber :: "u64 \<Rightarrow> VersionEdit \<Rightarrow> VersionEdit" where
  "SetLogNumber num e = e\<lparr>ve_has_log_number := True, ve_log_number := num\<rparr>"

definition SetPrevLogNumber :: "u64 \<Rightarrow> VersionEdit \<Rightarrow> VersionEdit" where
  "SetPrevLogNumber num e = e\<lparr>ve_has_prev_log_number := True, ve_prev_log_number := num\<rparr>"

definition SetNextFile :: "u64 \<Rightarrow> VersionEdit \<Rightarrow> VersionEdit" where
  "SetNextFile num e = e\<lparr>ve_has_next_file_number := True, ve_next_file_number := num\<rparr>"

definition SetLastSequence :: "SequenceNumber \<Rightarrow> VersionEdit \<Rightarrow> VersionEdit" where
  "SetLastSequence seq e = e\<lparr>ve_has_last_sequence := True, ve_last_sequence := seq\<rparr>"

definition SetCompactPointer :: "int \<Rightarrow> InternalKey \<Rightarrow> VersionEdit \<Rightarrow> VersionEdit" where
  "SetCompactPointer level key e = e\<lparr>ve_compact_pointers := ve_compact_pointers e @ [(level, key)]\<rparr>"

definition AddFile :: "int \<Rightarrow> u64 \<Rightarrow> u64 \<Rightarrow> InternalKey \<Rightarrow> InternalKey \<Rightarrow> VersionEdit \<Rightarrow> VersionEdit" where
  "AddFile level file file_size smallest largest e =
     (let f = FileMetaData_make\<lparr>fm_number := file, fm_file_size := file_size, fm_smallest := smallest,
                fm_largest := largest\<rparr>
      in e\<lparr>ve_new_files := ve_new_files e @ [(level, f)]\<rparr>)"

definition VersionEdit_RemoveFile :: "int \<Rightarrow> u64 \<Rightarrow> VersionEdit \<Rightarrow> VersionEdit" where
  "VersionEdit_RemoveFile level file e = e\<lparr>ve_deleted_files := insort_insert (level, file) (ve_deleted_files e)\<rparr>"

section \<open>Encoding\<close>

definition put_compact_pointer :: "bytes \<Rightarrow> int \<times> InternalKey \<Rightarrow> bytes" where
  "put_compact_pointer dst cp =
     PutLengthPrefixedSlice (PutVarint32 (PutVarint32 dst kCompactPointer) (of_int (fst cp))) (InternalKey_Encode (snd cp))"

definition put_deleted_file :: "bytes \<Rightarrow> int \<times> u64 \<Rightarrow> bytes" where
  "put_deleted_file dst df =
     PutVarint64 (PutVarint32 (PutVarint32 dst kDeletedFile) (of_int (fst df))) (snd df)"

definition put_new_file :: "bytes \<Rightarrow> int \<times> FileMetaData \<Rightarrow> bytes" where
  "put_new_file dst nf =
     (let f = snd nf;
          dst = PutVarint32 dst kNewFile;
          dst = PutVarint32 dst (of_int (fst nf));
          dst = PutVarint64 dst (fm_number f);
          dst = PutVarint64 dst (fm_file_size f);
          dst = PutLengthPrefixedSlice dst (InternalKey_Encode (fm_smallest f))
      in PutLengthPrefixedSlice dst (InternalKey_Encode (fm_largest f)))"

definition VersionEdit_EncodeTo :: "VersionEdit \<Rightarrow> bytes \<Rightarrow> bytes" where
  "VersionEdit_EncodeTo e dst =
     (let dst = (if ve_has_comparator e
                 then PutLengthPrefixedSlice (PutVarint32 dst kComparator) (ve_comparator e) else dst);
          dst = (if ve_has_log_number e
                 then PutVarint64 (PutVarint32 dst kLogNumber) (ve_log_number e) else dst);
          dst = (if ve_has_prev_log_number e
                 then PutVarint64 (PutVarint32 dst kPrevLogNumber) (ve_prev_log_number e) else dst);
          dst = (if ve_has_next_file_number e
                 then PutVarint64 (PutVarint32 dst kNextFileNumber) (ve_next_file_number e) else dst);
          dst = (if ve_has_last_sequence e
                 then PutVarint64 (PutVarint32 dst kLastSequence) (ve_last_sequence e) else dst);
          dst = foldl put_compact_pointer dst (ve_compact_pointers e);
          dst = foldl put_deleted_file dst (ve_deleted_files e)
      in foldl put_new_file dst (ve_new_files e))"

section \<open>Decoding\<close>

definition GetInternalKey :: "bytes \<Rightarrow> (InternalKey \<times> bytes) option" where
  "GetInternalKey input =
     (case GetLengthPrefixedSlice input of
        None \<Rightarrow> None
      | Some (str, input) \<Rightarrow>
          (let (ok, dst) = InternalKey_DecodeFrom str in if ok then Some (dst, input) else None))"

definition GetLevel :: "bytes \<Rightarrow> (int \<times> bytes) option" where
  "GetLevel input =
     (case GetVarint32 input of
        None \<Rightarrow> None
      | Some (v, input) \<Rightarrow> if v < of_nat kNumLevels then Some (uint v, input) else None)"

text \<open>The value of a field: the rest of the input with the changed edit, or nothing if it is malformed.\<close>

definition get_new_file :: "bytes \<Rightarrow> VersionEdit \<Rightarrow> (bytes \<times> VersionEdit) option" where
  "get_new_file input e = do {
     (level, input) \<leftarrow> GetLevel input;
     (num, input) \<leftarrow> GetVarint64 input;
     (file_size, input) \<leftarrow> GetVarint64 input;
     (smallest, input) \<leftarrow> GetInternalKey input;
     (largest, input) \<leftarrow> GetInternalKey input;
     Some (input, e\<lparr>ve_new_files := ve_new_files e @
       [(level, FileMetaData_make\<lparr>fm_number := num, fm_file_size := file_size,
                  fm_smallest := smallest, fm_largest := largest\<rparr>)]\<rparr>)
   }"

definition or_msg :: "bytes \<Rightarrow> 'a option \<Rightarrow> bytes + 'a" where
  "or_msg msg x = (case x of None \<Rightarrow> Inl msg | Some y \<Rightarrow> Inr y)"

text \<open>The \<^verbatim>\<open>switch\<close> over the tag: the message of the error, or the rest of the input and the edit.\<close>

definition decode_field :: "u32 \<Rightarrow> bytes \<Rightarrow> VersionEdit \<Rightarrow> bytes + bytes \<times> VersionEdit" where
  "decode_field tag input e =
     (if tag = kComparator then
        or_msg (lit ''comparator name'')
          (do { (str, input) \<leftarrow> GetLengthPrefixedSlice input;
                Some (input, e\<lparr>ve_comparator := str, ve_has_comparator := True\<rparr>) })
      else if tag = kLogNumber then
        or_msg (lit ''log number'')
          (do { (n, input) \<leftarrow> GetVarint64 input;
                Some (input, e\<lparr>ve_log_number := n, ve_has_log_number := True\<rparr>) })
      else if tag = kPrevLogNumber then
        or_msg (lit ''previous log number'')
          (do { (n, input) \<leftarrow> GetVarint64 input;
                Some (input, e\<lparr>ve_prev_log_number := n, ve_has_prev_log_number := True\<rparr>) })
      else if tag = kNextFileNumber then
        or_msg (lit ''next file number'')
          (do { (n, input) \<leftarrow> GetVarint64 input;
                Some (input, e\<lparr>ve_next_file_number := n, ve_has_next_file_number := True\<rparr>) })
      else if tag = kLastSequence then
        or_msg (lit ''last sequence number'')
          (do { (n, input) \<leftarrow> GetVarint64 input;
                Some (input, e\<lparr>ve_last_sequence := n, ve_has_last_sequence := True\<rparr>) })
      else if tag = kCompactPointer then
        or_msg (lit ''compaction pointer'')
          (do { (level, input) \<leftarrow> GetLevel input;
                (key, input) \<leftarrow> GetInternalKey input;
                Some (input, e\<lparr>ve_compact_pointers := ve_compact_pointers e @ [(level, key)]\<rparr>) })
      else if tag = kDeletedFile then
        or_msg (lit ''deleted file'')
          (do { (level, input) \<leftarrow> GetLevel input;
                (n, input) \<leftarrow> GetVarint64 input;
                Some (input, e\<lparr>ve_deleted_files := insort_insert (level, n) (ve_deleted_files e)\<rparr>) })
      else if tag = kNewFile then or_msg (lit ''new-file entry'') (get_new_file input e)
      else Inl (lit ''unknown tag''))"

lemma GetVarint32_shorter: "GetVarint32 p = Some (v, q) \<Longrightarrow> length q < length p"
  using GetVarint32_consumes [of p v q] by auto

lemma GetVarint64_shorter: "GetVarint64 p = Some (v, q) \<Longrightarrow> length q < length p"
  using GetVarint64_consumes [of p v q] by auto

lemma GetLevel_shorter: "GetLevel p = Some (v, q) \<Longrightarrow> length q < length p"
  by (auto simp: GetLevel_def dest: GetVarint32_shorter split: option.splits if_splits)

lemma GetInternalKey_shorter: "GetInternalKey p = Some (v, q) \<Longrightarrow> length q < length p"
  by (auto simp: GetInternalKey_def Let_def dest: GetLengthPrefixedSlice_shorter
      split: option.splits if_splits prod.splits)

lemmas parse_shorter = GetVarint32_shorter GetVarint64_shorter GetLevel_shorter GetInternalKey_shorter
  GetLengthPrefixedSlice_shorter

lemma or_msg_Inr [simp]: "or_msg msg x = Inr y \<longleftrightarrow> x = Some y"
  by (simp add: or_msg_def split: option.splits)

lemma decode_field_shorter: "decode_field tag input e = Inr (rest, e') \<Longrightarrow> length rest < length input"
  by (fastforce simp: decode_field_def get_new_file_def bind_eq_Some_conv
      dest: parse_shorter split: if_splits)

function DecodeFrom_loop :: "bytes \<Rightarrow> VersionEdit \<Rightarrow> bytes option \<times> bytes \<times> VersionEdit" where
  "DecodeFrom_loop input e =
     (case GetVarint32 input of
        None \<Rightarrow> (None, input, e)
      | Some (tag, input) \<Rightarrow>
          (case decode_field tag input e of
             Inl msg \<Rightarrow> (Some msg, input, e)
           | Inr (input, e) \<Rightarrow> DecodeFrom_loop input e))"
  by auto
termination
  by (relation "measure (\<lambda>(input, _). length input)")
     (auto dest!: GetVarint32_shorter decode_field_shorter)

declare DecodeFrom_loop.simps [simp del]

definition VersionEdit_DecodeFrom :: "bytes \<Rightarrow> VersionEdit \<Rightarrow> Status \<times> VersionEdit" where
  "VersionEdit_DecodeFrom src e =
     (let (msg, input, e) = DecodeFrom_loop src (VersionEdit_Clear e);
          msg = (if msg = None \<and> input \<noteq> [] then Some (lit ''invalid tag'') else msg)
      in (case msg of None \<Rightarrow> Status_OK | Some m \<Rightarrow> Status_Corruption (lit ''VersionEdit'') m, e))"

definition VersionEdit_DebugString :: "VersionEdit \<Rightarrow> bytes" where
  "VersionEdit_DebugString e =
     (let nl = lit [CHR 0x0A];
          r = lit ''VersionEdit {'';
          r = (if ve_has_comparator e then r @ nl @ lit ''  Comparator: '' @ ve_comparator e else r);
          r = (if ve_has_log_number e then AppendNumberTo (r @ nl @ lit ''  LogNumber: '') (ve_log_number e) else r);
          r = (if ve_has_prev_log_number e
               then AppendNumberTo (r @ nl @ lit ''  PrevLogNumber: '') (ve_prev_log_number e) else r);
          r = (if ve_has_next_file_number e
               then AppendNumberTo (r @ nl @ lit ''  NextFile: '') (ve_next_file_number e) else r);
          r = (if ve_has_last_sequence e
               then AppendNumberTo (r @ nl @ lit ''  LastSeq: '') (ve_last_sequence e) else r);
          r = foldl (\<lambda>r (level, key). AppendNumberTo (r @ nl @ lit ''  CompactPointer: '') (of_int level) @ lit '' '' @
                       InternalKey_DebugString key) r (ve_compact_pointers e);
          r = foldl (\<lambda>r (level, num). AppendNumberTo (AppendNumberTo (r @ nl @ lit ''  RemoveFile: '') (of_int level) @ lit '' '') num)
                r (ve_deleted_files e);
          r = foldl (\<lambda>r (level, f).
                 AppendNumberTo (AppendNumberTo (AppendNumberTo (r @ nl @ lit ''  AddFile: '') (of_int level) @ lit '' '')
                   (fm_number f) @ lit '' '') (fm_file_size f) @ lit '' '' @
                 InternalKey_DebugString (fm_smallest f) @ lit '' .. '' @ InternalKey_DebugString (fm_largest f))
                r (ve_new_files e)
      in r @ nl @ lit [CHR 0x7D] @ nl)"

section \<open>Edits built by the operations of the class\<close>

datatype EditOp =
    OpComparatorName bytes | OpLogNumber u64 | OpPrevLogNumber u64 | OpNextFile u64 | OpLastSequence u64
  | OpCompactPointer int InternalKey | OpAddFile int u64 u64 InternalKey InternalKey | OpRemoveFile int u64

primrec edit_op :: "VersionEdit \<Rightarrow> EditOp \<Rightarrow> VersionEdit" where
  "edit_op e (OpComparatorName name) = SetComparatorName name e"
| "edit_op e (OpLogNumber n) = SetLogNumber n e"
| "edit_op e (OpPrevLogNumber n) = SetPrevLogNumber n e"
| "edit_op e (OpNextFile n) = SetNextFile n e"
| "edit_op e (OpLastSequence n) = SetLastSequence n e"
| "edit_op e (OpCompactPointer level key) = SetCompactPointer level key e"
| "edit_op e (OpAddFile level file file_size smallest largest) = AddFile level file file_size smallest largest e"
| "edit_op e (OpRemoveFile level file) = VersionEdit_RemoveFile level file e"

text \<open>What the format can represent: levels of the tree and keys that are not empty.\<close>

definition level_ok :: "int \<Rightarrow> bool" where
  "level_ok level \<longleftrightarrow> 0 \<le> level \<and> level < int kNumLevels"

definition key_ok :: "InternalKey \<Rightarrow> bool" where
  "key_ok key \<longleftrightarrow> ik_rep key \<noteq> [] \<and> slice_size_ok (ik_rep key)"

primrec edit_op_ok :: "EditOp \<Rightarrow> bool" where
  "edit_op_ok (OpComparatorName name) \<longleftrightarrow> slice_size_ok name"
| "edit_op_ok (OpLogNumber n) \<longleftrightarrow> True"
| "edit_op_ok (OpPrevLogNumber n) \<longleftrightarrow> True"
| "edit_op_ok (OpNextFile n) \<longleftrightarrow> True"
| "edit_op_ok (OpLastSequence n) \<longleftrightarrow> True"
| "edit_op_ok (OpCompactPointer level key) \<longleftrightarrow> level_ok level \<and> key_ok key"
| "edit_op_ok (OpAddFile level file file_size smallest largest) \<longleftrightarrow> level_ok level \<and> key_ok smallest \<and> key_ok largest"
| "edit_op_ok (OpRemoveFile level file) \<longleftrightarrow> level_ok level"

definition file_ok :: "FileMetaData \<Rightarrow> bool" where
  "file_ok f \<longleftrightarrow> fm_refs f = 0 \<and> fm_allowed_seeks f = 2 ^ 30 \<and> key_ok (fm_smallest f) \<and> key_ok (fm_largest f)"

definition edit_ok :: "VersionEdit \<Rightarrow> bool" where
  "edit_ok e \<longleftrightarrow>
     slice_size_ok (ve_comparator e) \<and>
     (\<not> ve_has_comparator e \<longrightarrow> ve_comparator e = []) \<and>
     (\<not> ve_has_log_number e \<longrightarrow> ve_log_number e = 0) \<and>
     (\<not> ve_has_prev_log_number e \<longrightarrow> ve_prev_log_number e = 0) \<and>
     (\<not> ve_has_next_file_number e \<longrightarrow> ve_next_file_number e = 0) \<and>
     (\<not> ve_has_last_sequence e \<longrightarrow> ve_last_sequence e = 0) \<and>
     (\<forall>(level, key) \<in> set (ve_compact_pointers e). level_ok level \<and> key_ok key) \<and>
     (\<forall>(level, n) \<in> set (ve_deleted_files e). level_ok level) \<and>
     sorted_wrt (<) (ve_deleted_files e) \<and>
     (\<forall>(level, f) \<in> set (ve_new_files e). level_ok level \<and> file_ok f)"

lemma edit_ok_make: "edit_ok VersionEdit_make"
  by (simp add: edit_ok_def VersionEdit_make_def slice_size_ok_def)

lemma sorted_insort_insert_wrt: "sorted_wrt (<) xs \<Longrightarrow> sorted_wrt (<) (insort_insert x xs)"
  by (metis distinct_insort_insert sorted_insort_insert strict_sorted_iff)

lemma edit_ok_op: "edit_ok e \<Longrightarrow> edit_op_ok op \<Longrightarrow> edit_ok (edit_op e op)"
  by (cases op)
     (auto simp: edit_ok_def SetComparatorName_def SetLogNumber_def SetPrevLogNumber_def SetNextFile_def
       SetLastSequence_def SetCompactPointer_def AddFile_def VersionEdit_RemoveFile_def Let_def file_ok_def
       FileMetaData_make_def sorted_insort_insert_wrt set_insort_insert)

lemma edit_ok_ops: "edit_ok e \<Longrightarrow> \<forall>op \<in> set ops. edit_op_ok op \<Longrightarrow> edit_ok (foldl edit_op e ops)"
  by (induction ops arbitrary: e) (simp_all add: edit_ok_op)

section \<open>The bytes of an edit\<close>

definition compact_pointer_bytes :: "int \<times> InternalKey \<Rightarrow> bytes" where
  "compact_pointer_bytes = put_compact_pointer []"

definition deleted_file_bytes :: "int \<times> u64 \<Rightarrow> bytes" where
  "deleted_file_bytes = put_deleted_file []"

definition new_file_bytes :: "int \<times> FileMetaData \<Rightarrow> bytes" where
  "new_file_bytes = put_new_file []"

lemma Put_append:
  "PutVarint32 dst v = dst @ EncodeVarint32 v" "PutVarint64 dst w = dst @ EncodeVarint64 w"
  by (simp_all add: PutVarint32_def PutVarint64_def)

lemma put_append:
  "put_compact_pointer dst cp = dst @ compact_pointer_bytes cp"
  "put_deleted_file dst df = dst @ deleted_file_bytes df"
  "put_new_file dst nf = dst @ new_file_bytes nf"
  by (simp_all add: compact_pointer_bytes_def deleted_file_bytes_def new_file_bytes_def put_compact_pointer_def
      put_deleted_file_def put_new_file_def Let_def Put_append PutLengthPrefixedSlice_append [of "_ @ _"])

lemma foldl_appends:
  "(\<And>dst x. f dst x = dst @ g x) \<Longrightarrow> foldl f dst xs = dst @ concat (map g xs)"
  by (induction xs arbitrary: dst) simp_all

lemmas foldl_put_append =
  foldl_appends [of put_compact_pointer, OF put_append(1)]
  foldl_appends [of put_deleted_file, OF put_append(2)]
  foldl_appends [of put_new_file, OF put_append(3)]

text \<open>One field of the encoding: its tag and its value.\<close>

definition field_bytes :: "bool \<Rightarrow> u32 \<Rightarrow> bytes \<Rightarrow> bytes" where
  "field_bytes present tag body = (if present then EncodeVarint32 tag @ body else [])"

lemma EncodeTo_eq:
  "VersionEdit_EncodeTo e dst = dst @
     field_bytes (ve_has_comparator e) kComparator (PutLengthPrefixedSlice [] (ve_comparator e)) @
     field_bytes (ve_has_log_number e) kLogNumber (EncodeVarint64 (ve_log_number e)) @
     field_bytes (ve_has_prev_log_number e) kPrevLogNumber (EncodeVarint64 (ve_prev_log_number e)) @
     field_bytes (ve_has_next_file_number e) kNextFileNumber (EncodeVarint64 (ve_next_file_number e)) @
     field_bytes (ve_has_last_sequence e) kLastSequence (EncodeVarint64 (ve_last_sequence e)) @
     concat (map compact_pointer_bytes (ve_compact_pointers e)) @
     concat (map deleted_file_bytes (ve_deleted_files e)) @
     concat (map new_file_bytes (ve_new_files e))"
  by (simp add: VersionEdit_EncodeTo_def Let_def foldl_put_append field_bytes_def Put_append
      PutLengthPrefixedSlice_append [of "_ @ _"])

section \<open>Decoding the bytes of an edit\<close>

lemma loop_field:
  assumes "decode_field tag (body @ rest) e = Inr (rest, e')"
  shows "DecodeFrom_loop (EncodeVarint32 tag @ body @ rest) e = DecodeFrom_loop rest e'"
  by (subst DecodeFrom_loop.simps) (simp add: assms)

lemma loop_field_present:
  assumes "present \<Longrightarrow> decode_field tag (body @ rest) e = Inr (rest, e')" "\<not> present \<Longrightarrow> e' = e"
  shows "DecodeFrom_loop (field_bytes present tag body @ rest) e = DecodeFrom_loop rest e'"
  using assms loop_field by (cases present) (simp_all add: field_bytes_def)

lemma GetLevel_encoded:
  assumes "level_ok level"
  shows "GetLevel (EncodeVarint32 (of_int level) @ rest) = Some (level, rest)"
proof -
  have "uint (of_int level :: u32) = level"
    using assms by (simp add: level_ok_def kNumLevels_def uint_word_of_int)
  moreover from this have "(of_int level :: u32) < of_nat kNumLevels"
    using assms by (simp add: level_ok_def kNumLevels_def word_less_def)
  ultimately show ?thesis by (simp add: GetLevel_def)
qed

lemma GetInternalKey_encoded:
  assumes "key_ok key"
  shows "GetInternalKey (PutLengthPrefixedSlice [] (InternalKey_Encode key) @ rest) = Some (key, rest)"
  using assms by (simp add: GetInternalKey_def key_ok_def InternalKey_Encode_def InternalKey_DecodeFrom_def)

lemmas decode_encoded = GetLevel_encoded GetInternalKey_encoded

lemma loop_compact_pointers:
  "\<forall>(level, key) \<in> set cps. level_ok level \<and> key_ok key \<Longrightarrow>
     DecodeFrom_loop (concat (map compact_pointer_bytes cps) @ rest) e =
     DecodeFrom_loop rest (e\<lparr>ve_compact_pointers := ve_compact_pointers e @ cps\<rparr>)"
proof (induction cps arbitrary: e)
  case (Cons cp cps)
  obtain level key where cp: "cp = (level, key)" by (metis surj_pair)
  have b: "compact_pointer_bytes cp = EncodeVarint32 kCompactPointer @ EncodeVarint32 (of_int level) @
      PutLengthPrefixedSlice [] (InternalKey_Encode key)"
    by (simp add: cp compact_pointer_bytes_def put_compact_pointer_def Put_append PutLengthPrefixedSlice_append [of "_ @ _"])
  have "DecodeFrom_loop (compact_pointer_bytes cp @ r) e =
      DecodeFrom_loop r (e\<lparr>ve_compact_pointers := ve_compact_pointers e @ [cp]\<rparr>)" for r
    using Cons.prems
    by (subst b, subst append_assoc, intro loop_field) (simp add: cp decode_field_def tag_defs decode_encoded)
  with Cons show ?case by simp
qed simp

lemma loop_deleted_files:
  "\<forall>(level, n) \<in> set dfs. level_ok level \<Longrightarrow>
     DecodeFrom_loop (concat (map deleted_file_bytes dfs) @ rest) e =
     DecodeFrom_loop rest (e\<lparr>ve_deleted_files := foldl (\<lambda>s x. insort_insert x s) (ve_deleted_files e) dfs\<rparr>)"
proof (induction dfs arbitrary: e)
  case (Cons df dfs)
  obtain level n where df: "df = (level, n)" by (metis surj_pair)
  have b: "deleted_file_bytes df = EncodeVarint32 kDeletedFile @ EncodeVarint32 (of_int level) @ EncodeVarint64 n"
    by (simp add: df deleted_file_bytes_def put_deleted_file_def Put_append)
  have "DecodeFrom_loop (deleted_file_bytes df @ r) e =
      DecodeFrom_loop r (e\<lparr>ve_deleted_files := insort_insert df (ve_deleted_files e)\<rparr>)" for r
    using Cons.prems
    by (subst b, subst append_assoc, intro loop_field) (simp add: df decode_field_def tag_defs decode_encoded)
  with Cons show ?case by simp
qed simp

lemma loop_new_files:
  "\<forall>(level, f) \<in> set nfs. level_ok level \<and> file_ok f \<Longrightarrow>
     DecodeFrom_loop (concat (map new_file_bytes nfs) @ rest) e =
     DecodeFrom_loop rest (e\<lparr>ve_new_files := ve_new_files e @ nfs\<rparr>)"
proof (induction nfs arbitrary: e)
  case (Cons nf nfs)
  obtain level f where nf: "nf = (level, f)" by (metis surj_pair)
  have b: "new_file_bytes nf = EncodeVarint32 kNewFile @ EncodeVarint32 (of_int level) @
      EncodeVarint64 (fm_number f) @ EncodeVarint64 (fm_file_size f) @
      PutLengthPrefixedSlice [] (InternalKey_Encode (fm_smallest f)) @
      PutLengthPrefixedSlice [] (InternalKey_Encode (fm_largest f))"
    by (simp add: nf new_file_bytes_def put_new_file_def Let_def Put_append PutLengthPrefixedSlice_append [of "_ @ _"])
  have f: "f = FileMetaData_make\<lparr>fm_number := fm_number f, fm_file_size := fm_file_size f,
      fm_smallest := fm_smallest f, fm_largest := fm_largest f\<rparr>"
    using Cons.prems by (simp add: nf file_ok_def FileMetaData_make_def)
  have "DecodeFrom_loop (new_file_bytes nf @ r) e =
      DecodeFrom_loop r (e\<lparr>ve_new_files := ve_new_files e @ [nf]\<rparr>)" for r
    using Cons.prems f
    by (subst b, subst append_assoc, intro loop_field)
       (simp add: nf decode_field_def tag_defs get_new_file_def decode_encoded file_ok_def)
  with Cons show ?case by simp
qed simp

lemma foldl_insort_insert_sorted:
  "sorted_wrt (<) (xs @ ys) \<Longrightarrow> foldl (\<lambda>s x. insort_insert x s) xs ys = xs @ ys"
proof (induction ys arbitrary: xs)
  case (Cons y ys)
  have y: "\<forall>x\<in>set xs. x < y" "sorted xs"
    using Cons.prems by (auto simp: sorted_wrt_append strict_sorted_iff)
  then have "insort_insert y xs = xs @ [y]"
    by (auto simp: insort_insert_key_def intro!: sorted_insort_is_snoc dest: less_imp_le)
  with Cons show ?case by simp
qed simp

lemma DecodeFrom_EncodeTo:
  assumes "edit_ok e"
  shows "VersionEdit_DecodeFrom (VersionEdit_EncodeTo e []) e0 =
    (Status_OK, e\<lparr>ve_compact_pointers := ve_compact_pointers e0 @ ve_compact_pointers e\<rparr>)"
proof -
  let ?c = "VersionEdit_Clear e0"
  let ?c1 = "?c\<lparr>ve_comparator := ve_comparator e, ve_has_comparator := ve_has_comparator e\<rparr>"
  let ?c2 = "?c1\<lparr>ve_log_number := ve_log_number e, ve_has_log_number := ve_has_log_number e\<rparr>"
  let ?c3 = "?c2\<lparr>ve_prev_log_number := ve_prev_log_number e, ve_has_prev_log_number := ve_has_prev_log_number e\<rparr>"
  let ?c4 = "?c3\<lparr>ve_next_file_number := ve_next_file_number e, ve_has_next_file_number := ve_has_next_file_number e\<rparr>"
  let ?c5 = "?c4\<lparr>ve_last_sequence := ve_last_sequence e, ve_has_last_sequence := ve_has_last_sequence e\<rparr>"
  have 1: "DecodeFrom_loop (field_bytes (ve_has_comparator e) kComparator (PutLengthPrefixedSlice [] (ve_comparator e)) @ r) ?c =
      DecodeFrom_loop r ?c1" for r
    by (rule loop_field_present)
       (use assms in \<open>simp_all add: decode_field_def tag_defs edit_ok_def VersionEdit_Clear_def\<close>)
  have 2: "DecodeFrom_loop (field_bytes (ve_has_log_number e) kLogNumber (EncodeVarint64 (ve_log_number e)) @ r) ?c1 =
      DecodeFrom_loop r ?c2" for r
    by (rule loop_field_present)
       (use assms in \<open>simp_all add: decode_field_def tag_defs edit_ok_def VersionEdit_Clear_def\<close>)
  have 3: "DecodeFrom_loop (field_bytes (ve_has_prev_log_number e) kPrevLogNumber (EncodeVarint64 (ve_prev_log_number e)) @ r) ?c2 =
      DecodeFrom_loop r ?c3" for r
    by (rule loop_field_present)
       (use assms in \<open>simp_all add: decode_field_def tag_defs edit_ok_def VersionEdit_Clear_def\<close>)
  have 4: "DecodeFrom_loop (field_bytes (ve_has_next_file_number e) kNextFileNumber (EncodeVarint64 (ve_next_file_number e)) @ r) ?c3 =
      DecodeFrom_loop r ?c4" for r
    by (rule loop_field_present)
       (use assms in \<open>simp_all add: decode_field_def tag_defs edit_ok_def VersionEdit_Clear_def\<close>)
  have 5: "DecodeFrom_loop (field_bytes (ve_has_last_sequence e) kLastSequence (EncodeVarint64 (ve_last_sequence e)) @ r) ?c4 =
      DecodeFrom_loop r ?c5" for r
    by (rule loop_field_present)
       (use assms in \<open>simp_all add: decode_field_def tag_defs edit_ok_def VersionEdit_Clear_def\<close>)
  have lists: "\<forall>(level, key) \<in> set (ve_compact_pointers e). level_ok level \<and> key_ok key"
    "\<forall>(level, n) \<in> set (ve_deleted_files e). level_ok level" "sorted_wrt (<) (ve_deleted_files e)"
    "\<forall>(level, f) \<in> set (ve_new_files e). level_ok level \<and> file_ok f"
    using assms by (simp_all add: edit_ok_def)
  have end_of_input: "DecodeFrom_loop [] x = (None, [], x)" for x
    by (subst DecodeFrom_loop.simps)
       (simp add: GetVarint32_def GetVarint32Ptr_def GetVarint32PtrFallback_def)
  note 8 = loop_new_files [OF lists(4), of "[]", unfolded append_Nil2]
  have "DecodeFrom_loop (VersionEdit_EncodeTo e []) ?c =
      (None, [], e\<lparr>ve_compact_pointers := ve_compact_pointers e0 @ ve_compact_pointers e\<rparr>)"
    unfolding EncodeTo_eq append_Nil 1 2 3 4 5 loop_compact_pointers [OF lists(1)] loop_deleted_files [OF lists(2)] 8
      end_of_input
    using foldl_insort_insert_sorted [of "[]" "ve_deleted_files e"] lists(3)
    by (simp add: VersionEdit_Clear_def)
  then show ?thesis by (simp add: VersionEdit_DecodeFrom_def)
qed

text \<open>
  C36. An edit built by any sequence of the operations of the class (with
  levels of the tree and non-empty keys) is decoded from its manifest record exactly as it was, with
  the deleted files as a set and the order of the new files and compaction pointers kept. Decoding into
  an edit that is not fresh gives the same, except that the compaction pointers it already had stay
  in front: \<^verbatim>\<open>Clear\<close> does not reset them.
\<close>

theorem version_edit_roundtrip:
  assumes "\<forall>op \<in> set ops. edit_op_ok op"
  shows "VersionEdit_DecodeFrom (VersionEdit_EncodeTo (foldl edit_op VersionEdit_make ops) []) VersionEdit_make =
      (Status_OK, foldl edit_op VersionEdit_make ops) \<and>
    VersionEdit_DecodeFrom (VersionEdit_EncodeTo (foldl edit_op VersionEdit_make ops) []) e0 =
      (Status_OK, (foldl edit_op VersionEdit_make ops)\<lparr>ve_compact_pointers :=
         ve_compact_pointers e0 @ ve_compact_pointers (foldl edit_op VersionEdit_make ops)\<rparr>)"
proof -
  have "edit_ok (foldl edit_op VersionEdit_make ops)" using edit_ok_ops [OF edit_ok_make assms] .
  from DecodeFrom_EncodeTo [OF this] show ?thesis by (simp add: VersionEdit_make_def)
qed

theorem version_edit_roundtrip_witness:
  "let ops = [OpRemoveFile 2 9, OpComparatorName [7], OpCompactPointer 1 \<lparr>ik_rep = [1]\<rparr>, OpRemoveFile 0 5, OpLogNumber 3,
              OpAddFile 1 10 200 \<lparr>ik_rep = [1]\<rparr> \<lparr>ik_rep = [2]\<rparr>];
       e = foldl edit_op VersionEdit_make ops
   in VersionEdit_DecodeFrom (VersionEdit_EncodeTo e []) VersionEdit_make = (Status_OK, e) \<and>
      ve_deleted_files e = [(0, 5), (2, 9)]"
  using version_edit_roundtrip [of "[OpRemoveFile 2 9, OpComparatorName [7], OpCompactPointer 1 \<lparr>ik_rep = [1]\<rparr>, OpRemoveFile 0 5,
      OpLogNumber 3, OpAddFile 1 10 200 \<lparr>ik_rep = [1]\<rparr> \<lparr>ik_rep = [2]\<rparr>]" VersionEdit_make]
  by (simp add: slice_size_ok_def level_ok_def key_ok_def kNumLevels_def VersionEdit_make_def
      SetComparatorName_def SetLogNumber_def SetCompactPointer_def AddFile_def VersionEdit_RemoveFile_def Let_def
      insort_insert_key_def)

text \<open>
  C37. Decoding terminates on every input with ok or with a corruption status, and
  what follows a complete edit decides it: nothing gives ok, a byte string that is no variable-length
  number an invalid tag, and an unknown tag the message that says so.
\<close>

theorem version_edit_errors:
  "(let s = fst (VersionEdit_DecodeFrom src e0) in Status_ok s \<or> Status_IsCorruption s) \<and>
   (src \<noteq> [] \<and> GetVarint32 src = None \<longrightarrow>
      fst (VersionEdit_DecodeFrom src e0) = Status_Corruption (lit ''VersionEdit'') (lit ''invalid tag'')) \<and>
   (9 < tag \<or> tag = 0 \<or> tag = 8 \<longrightarrow>
      fst (VersionEdit_DecodeFrom (EncodeVarint32 tag @ rest) e0) = Status_Corruption (lit ''VersionEdit'') (lit ''unknown tag''))"
proof (intro conjI impI)
  show "let s = fst (VersionEdit_DecodeFrom src e0) in Status_ok s \<or> Status_IsCorruption s"
    by (simp add: VersionEdit_DecodeFrom_def Let_def case_prod_unfold split: option.split)
  show "fst (VersionEdit_DecodeFrom src e0) = Status_Corruption (lit ''VersionEdit'') (lit ''invalid tag'')"
    if "src \<noteq> [] \<and> GetVarint32 src = None"
    using that by (simp add: VersionEdit_DecodeFrom_def DecodeFrom_loop.simps [of src])
  show "fst (VersionEdit_DecodeFrom (EncodeVarint32 tag @ rest) e0) = Status_Corruption (lit ''VersionEdit'') (lit ''unknown tag'')"
    if "9 < tag \<or> tag = 0 \<or> tag = 8"
    using that by (auto simp: VersionEdit_DecodeFrom_def DecodeFrom_loop.simps [of "EncodeVarint32 tag @ rest"]
        decode_field_def tag_defs)
qed

theorem version_edit_errors_witness:
  "fst (VersionEdit_DecodeFrom (EncodeVarint32 8 @ [1]) VersionEdit_make) = Status_Corruption (lit ''VersionEdit'') (lit ''unknown tag'')"
  using version_edit_errors [of "[]" VersionEdit_make 8 "[1]"] by simp

end
