(* ===== verification/Iterators.thy ===== *)
theory Iterators
  imports Comparator Status
begin

text \<open>
  \<^verbatim>\<open>include/leveldb/iterator.h\<close>, \<^verbatim>\<open>table/iterator.cc\<close> and \<^verbatim>\<open>table/iterator_wrapper.h\<close>: the interface of
  every ordered source of key/value pairs, its contract as a locale, the empty iterator, the cache
  around an iterator and the list of cleanup functions.  A method that moves an iterator returns its
  new state, or nothing if it does not return.
\<close>

section \<open>The interface\<close>

record 'i Iterator =
  it_Valid :: "'i \<Rightarrow> bool"
  it_SeekToFirst :: "'i \<Rightarrow> 'i option"
  it_SeekToLast :: "'i \<Rightarrow> 'i option"
  it_Seek :: "bytes \<Rightarrow> 'i \<Rightarrow> 'i option"
  it_Next :: "'i \<Rightarrow> 'i option"
  it_Prev :: "'i \<Rightarrow> 'i option"
  it_key :: "'i \<Rightarrow> bytes"
  it_value :: "'i \<Rightarrow> bytes"
  it_status :: "'i \<Rightarrow> Status"

type_synonym kv = "bytes \<times> bytes"

text \<open>Strictly ascending keys, and the index of the first key at or past a target.\<close>

definition ascending :: "(bytes \<Rightarrow> bytes \<Rightarrow> int) \<Rightarrow> kv list \<Rightarrow> bool" where
  "ascending cmp kvs = sorted_wrt (\<lambda>a b. cmp (fst a) (fst b) < 0) kvs"

definition lower_bound :: "(bytes \<Rightarrow> bytes \<Rightarrow> int) \<Rightarrow> bytes \<Rightarrow> kv list \<Rightarrow> nat" where
  "lower_bound cmp target kvs = length (takeWhile (\<lambda>kv. cmp (fst kv) target < 0) kvs)"

lemma lower_bound_le: "lower_bound cmp target kvs \<le> length kvs"
  by (simp add: lower_bound_def length_takeWhile_le)

lemma lower_bound_below: "n < lower_bound cmp target kvs \<Longrightarrow> cmp (fst (kvs ! n)) target < 0"
  unfolding lower_bound_def by (metis (mono_tags, lifting) nth_mem set_takeWhileD takeWhile_nth)

lemma lower_bound_at:
  "lower_bound cmp target kvs < length kvs \<Longrightarrow> \<not> cmp (fst (kvs ! lower_bound cmp target kvs)) target < 0"
  unfolding lower_bound_def by (rule nth_length_takeWhile)

lemma lower_bound_eqI:
  assumes "n \<le> length kvs" "\<And>i. i < n \<Longrightarrow> cmp (fst (kvs ! i)) target < 0"
    and "n < length kvs \<Longrightarrow> \<not> cmp (fst (kvs ! n)) target < 0"
  shows "lower_bound cmp target kvs = n"
proof (rule antisym)
  show "lower_bound cmp target kvs \<le> n"
  proof (rule ccontr)
    assume "\<not> lower_bound cmp target kvs \<le> n"
    then have "n < lower_bound cmp target kvs" by simp
    then have "cmp (fst (kvs ! n)) target < 0" "n < length kvs"
      using lower_bound_below lower_bound_le [of cmp target kvs] by (blast, simp)
    with assms(3) show False by simp
  qed
  show "n \<le> lower_bound cmp target kvs"
  proof (rule ccontr)
    assume "\<not> n \<le> lower_bound cmp target kvs"
    then have "lower_bound cmp target kvs < n" by simp
    with assms(1,2) lower_bound_at [of cmp target kvs] show False by fastforce
  qed
qed

lemma ascending_nth: "ascending cmp kvs \<Longrightarrow> i < j \<Longrightarrow> j < length kvs \<Longrightarrow> cmp (fst (kvs ! i)) (fst (kvs ! j)) < 0"
  by (simp add: ascending_def sorted_wrt_iff_nth_less)

section \<open>The contract\<close>

text \<open>
  An iterator over a list of pairs: \<open>pos i n\<close> says that it stands at the \<open>n\<close>th pair, the length of
  the list standing for an invalid iterator.  Some iterators can only seek keys up to a length, since
  they write it in 32 bits: the contract bounds the targets by \<open>lim\<close>.
\<close>

locale bounded_iterator =
  fixes it :: "'i Iterator"
    and cmp :: "bytes \<Rightarrow> bytes \<Rightarrow> int"
    and kvs :: "kv list"
    and pos :: "'i \<Rightarrow> nat \<Rightarrow> bool"
    and lim :: nat
  assumes pos_le: "pos i n \<Longrightarrow> n \<le> length kvs"
    and valid_iff: "pos i n \<Longrightarrow> it_Valid it i \<longleftrightarrow> n < length kvs"
    and key_at: "pos i n \<Longrightarrow> n < length kvs \<Longrightarrow> it_key it i = fst (kvs ! n)"
    and value_at: "pos i n \<Longrightarrow> n < length kvs \<Longrightarrow> it_value it i = snd (kvs ! n)"
    and status_at: "pos i n \<Longrightarrow> it_status it i = Status_OK"
    and seek_first: "pos i n \<Longrightarrow> \<exists>i'. it_SeekToFirst it i = Some i' \<and> pos i' 0"
    and seek_last: "pos i n \<Longrightarrow> \<exists>i'. it_SeekToLast it i = Some i' \<and> pos i' (length kvs - 1)"
    and seek: "pos i n \<Longrightarrow> length target < lim \<Longrightarrow> \<exists>i'. it_Seek it target i = Some i' \<and> pos i' (lower_bound cmp target kvs)"
    and next_at: "pos i n \<Longrightarrow> n < length kvs \<Longrightarrow> \<exists>i'. it_Next it i = Some i' \<and> pos i' (Suc n)"
    and prev_at: "pos i n \<Longrightarrow> n < length kvs \<Longrightarrow>
          \<exists>i'. it_Prev it i = Some i' \<and> pos i' (if n = 0 then length kvs else n - 1)"

text \<open>A client that reads on until the iterator is no longer valid, at most \<open>fuel\<close> pairs.\<close>

primrec scan :: "nat \<Rightarrow> 'i Iterator \<Rightarrow> 'i \<Rightarrow> kv list option" where
  "scan 0 it i = Some []"
| "scan (Suc fuel) it i =
     (if \<not> it_Valid it i then Some []
      else case it_Next it i of
             None \<Rightarrow> None
           | Some i' \<Rightarrow> map_option ((#) (it_key it i, it_value it i)) (scan fuel it i'))"

primrec scan_back :: "nat \<Rightarrow> 'i Iterator \<Rightarrow> 'i \<Rightarrow> kv list option" where
  "scan_back 0 it i = Some []"
| "scan_back (Suc fuel) it i =
     (if \<not> it_Valid it i then Some []
      else case it_Prev it i of
             None \<Rightarrow> None
           | Some i' \<Rightarrow> map_option ((#) (it_key it i, it_value it i)) (scan_back fuel it i'))"

context bounded_iterator
begin

lemma scan_from: "pos i n \<Longrightarrow> length kvs \<le> n + fuel \<Longrightarrow> scan fuel it i = Some (drop n kvs)"
proof (induction fuel arbitrary: i n)
  case 0
  then show ?case using pos_le by simp
next
  case (Suc fuel)
  show ?case
  proof (cases "n < length kvs")
    case True
    obtain i' where n: "it_Next it i = Some i'" "pos i' (Suc n)" using next_at [OF Suc.prems(1) True] by blast
    have "scan fuel it i' = Some (drop (Suc n) kvs)" using Suc.IH [OF n(2)] Suc.prems(2) by simp
    then show ?thesis
      using True n(1) valid_iff [OF Suc.prems(1)] key_at [OF Suc.prems(1)] value_at [OF Suc.prems(1)]
      by (simp add: Cons_nth_drop_Suc)
  next
    case False
    then show ?thesis using valid_iff [OF Suc.prems(1)] by simp
  qed
qed

lemma scan_back_from:
  "pos i n \<Longrightarrow> n < length kvs \<Longrightarrow> n < fuel \<Longrightarrow> scan_back fuel it i = Some (rev (take (Suc n) kvs))"
proof (induction fuel arbitrary: i n)
  case (Suc fuel)
  obtain i' where p: "it_Prev it i = Some i'" "pos i' (if n = 0 then length kvs else n - 1)"
    using prev_at [OF Suc.prems(1,2)] by blast
  have "scan_back fuel it i' = Some (rev (take n kvs))"
  proof (cases "n = 0")
    case True
    with p(2) have "\<not> it_Valid it i'" using valid_iff by force
    with True show ?thesis by (cases fuel) simp_all
  next
    case False
    with p(2) Suc.IH [of i' "n - 1"] Suc.prems(2,3) show ?thesis by simp
  qed
  then show ?case
    using p(1) Suc.prems(2) valid_iff [OF Suc.prems(1)] key_at [OF Suc.prems(1)] value_at [OF Suc.prems(1)]
    by (simp add: take_Suc_conv_app_nth)
qed simp

lemma scan_all:
  assumes "pos i n"
  shows "\<exists>i'. it_SeekToFirst it i = Some i' \<and> scan (length kvs) it i' = Some kvs"
  using seek_first [OF assms] scan_from by fastforce

lemma scan_back_all:
  assumes "pos i n" "kvs \<noteq> []"
  shows "\<exists>i'. it_SeekToLast it i = Some i' \<and> scan_back (length kvs) it i' = Some (rev kvs)"
  using seek_last [OF assms(1)] scan_back_from [of _ "length kvs - 1" "length kvs"] assms(2) by fastforce

text \<open>Seeking and then scanning gives what is at or past the target.\<close>

lemma seek_scan:
  assumes "pos i n" "length target < lim"
  shows "\<exists>i'. it_Seek it target i = Some i' \<and>
    scan (length kvs) it i' = Some (dropWhile (\<lambda>kv. cmp (fst kv) target < 0) kvs)"
proof -
  obtain i' where i': "it_Seek it target i = Some i'" "pos i' (lower_bound cmp target kvs)"
    using seek [OF assms] by blast
  have "scan (length kvs) it i' = Some (drop (lower_bound cmp target kvs) kvs)"
    by (rule scan_from [OF i'(2)]) simp
  with i'(1) show ?thesis by (simp add: lower_bound_def dropWhile_eq_drop)
qed

end

section \<open>The contract without a bound\<close>

locale ordered_iterator =
  fixes it :: "'i Iterator"
    and cmp :: "bytes \<Rightarrow> bytes \<Rightarrow> int"
    and kvs :: "kv list"
    and pos :: "'i \<Rightarrow> nat \<Rightarrow> bool"
  assumes pos_le: "pos i n \<Longrightarrow> n \<le> length kvs"
    and valid_iff: "pos i n \<Longrightarrow> it_Valid it i \<longleftrightarrow> n < length kvs"
    and key_at: "pos i n \<Longrightarrow> n < length kvs \<Longrightarrow> it_key it i = fst (kvs ! n)"
    and value_at: "pos i n \<Longrightarrow> n < length kvs \<Longrightarrow> it_value it i = snd (kvs ! n)"
    and status_at: "pos i n \<Longrightarrow> it_status it i = Status_OK"
    and seek_first: "pos i n \<Longrightarrow> \<exists>i'. it_SeekToFirst it i = Some i' \<and> pos i' 0"
    and seek_last: "pos i n \<Longrightarrow> \<exists>i'. it_SeekToLast it i = Some i' \<and> pos i' (length kvs - 1)"
    and seek: "pos i n \<Longrightarrow> \<exists>i'. it_Seek it target i = Some i' \<and> pos i' (lower_bound cmp target kvs)"
    and next_at: "pos i n \<Longrightarrow> n < length kvs \<Longrightarrow> \<exists>i'. it_Next it i = Some i' \<and> pos i' (Suc n)"
    and prev_at: "pos i n \<Longrightarrow> n < length kvs \<Longrightarrow>
          \<exists>i'. it_Prev it i = Some i' \<and> pos i' (if n = 0 then length kvs else n - 1)"

begin

lemma bounded: "bounded_iterator it cmp kvs pos lim"
  by unfold_locales
    ((erule pos_le valid_iff key_at value_at status_at seek_first seek_last seek next_at prev_at, assumption?)+)

lemmas scan_all = bounded_iterator.scan_all [OF bounded [of 0]]
lemmas scan_back_all = bounded_iterator.scan_back_all [OF bounded [of 0]]
lemmas seek_scan = bounded_iterator.seek_scan [OF bounded [of "Suc (length target)" for target], OF _ lessI]

end

lemma ordered_iteratorI_bounded:
  assumes "\<And>lim. bounded_iterator it cmp kvs pos lim"
  shows "ordered_iterator it cmp kvs pos"
proof
  note B = assms
  show "\<exists>i'. it_Seek it target i = Some i' \<and> pos i' (lower_bound cmp target kvs)" if "pos i n" for i n target
    using bounded_iterator.seek [OF B that, of target "Suc (length target)"] by simp
qed (use assms [of 0] in \<open>auto dest: bounded_iterator.pos_le bounded_iterator.valid_iff bounded_iterator.key_at
      bounded_iterator.value_at bounded_iterator.status_at bounded_iterator.seek_first bounded_iterator.seek_last
      bounded_iterator.next_at bounded_iterator.prev_at\<close>)

section \<open>The empty iterator\<close>

definition EmptyIterator :: "Status Iterator" where
  "EmptyIterator =
     \<lparr>it_Valid = \<lambda>_. False, it_SeekToFirst = Some, it_SeekToLast = Some, it_Seek = \<lambda>_. Some,
      it_Next = Some, it_Prev = Some, it_key = \<lambda>_. [], it_value = \<lambda>_. [], it_status = \<lambda>s. s\<rparr>"

definition NewEmptyIterator :: Status where
  "NewEmptyIterator = Status_OK"

definition NewErrorIterator :: "Status \<Rightarrow> Status" where
  "NewErrorIterator status = status"

interpretation empty_iterator: ordered_iterator EmptyIterator cmp "[]" "\<lambda>s n. s = NewEmptyIterator \<and> n = 0" for cmp
  by unfold_locales (simp_all add: EmptyIterator_def NewEmptyIterator_def lower_bound_def)

section \<open>The iterator over a list\<close>

text \<open>The smallest iterator with the contract: a list and an index.\<close>

definition ListIterator :: "(bytes \<Rightarrow> bytes \<Rightarrow> int) \<Rightarrow> (kv list \<times> nat) Iterator" where
  "ListIterator cmp =
     \<lparr>it_Valid = (\<lambda>(kvs, n). n < length kvs),
      it_SeekToFirst = (\<lambda>(kvs, n). Some (kvs, 0)),
      it_SeekToLast = (\<lambda>(kvs, n). Some (kvs, length kvs - 1)),
      it_Seek = (\<lambda>target (kvs, n). Some (kvs, lower_bound cmp target kvs)),
      it_Next = (\<lambda>(kvs, n). Some (kvs, Suc n)),
      it_Prev = (\<lambda>(kvs, n). Some (kvs, if n = 0 then length kvs else n - 1)),
      it_key = (\<lambda>(kvs, n). fst (kvs ! n)),
      it_value = (\<lambda>(kvs, n). snd (kvs ! n)),
      it_status = (\<lambda>_. Status_OK)\<rparr>"

definition list_pos :: "kv list \<Rightarrow> kv list \<times> nat \<Rightarrow> nat \<Rightarrow> bool" where
  "list_pos kvs i n \<longleftrightarrow> i = (kvs, n) \<and> n \<le> length kvs"

interpretation list_iterator: ordered_iterator "ListIterator cmp" cmp kvs "list_pos kvs" for cmp kvs
  by unfold_locales (auto simp: ListIterator_def list_pos_def lower_bound_le)

section \<open>Iterators of two kinds\<close>

text \<open>
  A pointer to an iterator is a pointer to one of its subclasses: the methods of the sum are those of
  the object.
\<close>

definition either_move :: "('a \<Rightarrow> 'a option) \<Rightarrow> ('b \<Rightarrow> 'b option) \<Rightarrow> 'a + 'b \<Rightarrow> ('a + 'b) option" where
  "either_move f g i = (case i of Inl a \<Rightarrow> map_option Inl (f a) | Inr b \<Rightarrow> map_option Inr (g b))"

definition either_Iterator :: "'a Iterator \<Rightarrow> 'b Iterator \<Rightarrow> ('a + 'b) Iterator" where
  "either_Iterator x y =
     \<lparr>it_Valid = case_sum (it_Valid x) (it_Valid y),
      it_SeekToFirst = either_move (it_SeekToFirst x) (it_SeekToFirst y),
      it_SeekToLast = either_move (it_SeekToLast x) (it_SeekToLast y),
      it_Seek = (\<lambda>k. either_move (it_Seek x k) (it_Seek y k)),
      it_Next = either_move (it_Next x) (it_Next y),
      it_Prev = either_move (it_Prev x) (it_Prev y),
      it_key = case_sum (it_key x) (it_key y),
      it_value = case_sum (it_value x) (it_value y),
      it_status = case_sum (it_status x) (it_status y)\<rparr>"

definition right_pos :: "('b \<Rightarrow> nat \<Rightarrow> bool) \<Rightarrow> 'a + 'b \<Rightarrow> nat \<Rightarrow> bool" where
  "right_pos pos i n = (case i of Inl _ \<Rightarrow> False | Inr b \<Rightarrow> pos b n)"

definition left_pos :: "('a \<Rightarrow> nat \<Rightarrow> bool) \<Rightarrow> 'a + 'b \<Rightarrow> nat \<Rightarrow> bool" where
  "left_pos pos i n = (case i of Inl a \<Rightarrow> pos a n | Inr _ \<Rightarrow> False)"

lemma left_move:
  "\<exists>i'. f a = Some i' \<and> pos i' n \<Longrightarrow> \<exists>i'. either_move f g (Inl a) = Some i' \<and> left_pos pos i' n"
  by (auto simp: either_move_def left_pos_def)

lemma right_move:
  "\<exists>i'. g b = Some i' \<and> pos i' n \<Longrightarrow> \<exists>i'. either_move f g (Inr b) = Some i' \<and> right_pos pos i' n"
  by (auto simp: either_move_def right_pos_def)

context bounded_iterator
begin

lemma right_contract: "bounded_iterator (either_Iterator x it) cmp kvs (right_pos pos) lim"
proof unfold_locales
  fix i :: "'a + 'i" and n target
  assume "right_pos pos i n"
  then obtain b where i: "i = Inr b" and p: "pos b n" by (auto simp: right_pos_def split: sum.splits)
  note d = either_Iterator_def i Iterator.simps sum.case
  show "n \<le> length kvs" by (rule pos_le [OF p])
  show "it_Valid (either_Iterator x it) i = (n < length kvs)" unfolding d by (rule valid_iff [OF p])
  show "it_status (either_Iterator x it) i = Status_OK" unfolding d by (rule status_at [OF p])
  show "\<exists>i'. it_SeekToFirst (either_Iterator x it) i = Some i' \<and> right_pos pos i' 0"
    unfolding d by (rule right_move) (rule seek_first [OF p])
  show "\<exists>i'. it_SeekToLast (either_Iterator x it) i = Some i' \<and> right_pos pos i' (length kvs - 1)"
    unfolding d by (rule right_move) (rule seek_last [OF p])
  show "\<exists>i'. it_Seek (either_Iterator x it) target i = Some i' \<and> right_pos pos i' (lower_bound cmp target kvs)"
    if "length target < lim" unfolding d by (rule right_move) (rule seek [OF p that])
  assume n: "n < length kvs"
  show "it_key (either_Iterator x it) i = fst (kvs ! n)" unfolding d by (rule key_at [OF p n])
  show "it_value (either_Iterator x it) i = snd (kvs ! n)" unfolding d by (rule value_at [OF p n])
  show "\<exists>i'. it_Next (either_Iterator x it) i = Some i' \<and> right_pos pos i' (Suc n)"
    unfolding d by (rule right_move) (rule next_at [OF p n])
  show "\<exists>i'. it_Prev (either_Iterator x it) i = Some i' \<and> right_pos pos i' (if n = 0 then length kvs else n - 1)"
    unfolding d by (rule right_move) (rule prev_at [OF p n])
qed

lemma left_contract: "bounded_iterator (either_Iterator it x) cmp kvs (left_pos pos) lim"
proof unfold_locales
  fix i :: "'i + 'a" and n target
  assume "left_pos pos i n"
  then obtain b where i: "i = Inl b" and p: "pos b n" by (auto simp: left_pos_def split: sum.splits)
  note d = either_Iterator_def i Iterator.simps sum.case
  show "n \<le> length kvs" by (rule pos_le [OF p])
  show "it_Valid (either_Iterator it x) i = (n < length kvs)" unfolding d by (rule valid_iff [OF p])
  show "it_status (either_Iterator it x) i = Status_OK" unfolding d by (rule status_at [OF p])
  show "\<exists>i'. it_SeekToFirst (either_Iterator it x) i = Some i' \<and> left_pos pos i' 0"
    unfolding d by (rule left_move) (rule seek_first [OF p])
  show "\<exists>i'. it_SeekToLast (either_Iterator it x) i = Some i' \<and> left_pos pos i' (length kvs - 1)"
    unfolding d by (rule left_move) (rule seek_last [OF p])
  show "\<exists>i'. it_Seek (either_Iterator it x) target i = Some i' \<and> left_pos pos i' (lower_bound cmp target kvs)"
    if "length target < lim" unfolding d by (rule left_move) (rule seek [OF p that])
  assume n: "n < length kvs"
  show "it_key (either_Iterator it x) i = fst (kvs ! n)" unfolding d by (rule key_at [OF p n])
  show "it_value (either_Iterator it x) i = snd (kvs ! n)" unfolding d by (rule value_at [OF p n])
  show "\<exists>i'. it_Next (either_Iterator it x) i = Some i' \<and> left_pos pos i' (Suc n)"
    unfolding d by (rule left_move) (rule next_at [OF p n])
  show "\<exists>i'. it_Prev (either_Iterator it x) i = Some i' \<and> left_pos pos i' (if n = 0 then length kvs else n - 1)"
    unfolding d by (rule left_move) (rule prev_at [OF p n])
qed

end

context ordered_iterator
begin

lemma right_contract: "ordered_iterator (either_Iterator x it) cmp kvs (right_pos pos)"
  by (rule ordered_iteratorI_bounded) (rule bounded_iterator.right_contract [OF bounded])

lemma left_contract: "ordered_iterator (either_Iterator it x) cmp kvs (left_pos pos)"
  by (rule ordered_iteratorI_bounded) (rule bounded_iterator.left_contract [OF bounded])

end

text \<open>To prove the contract a position may be assumed, with all that it says.\<close>

lemma ordered_iteratorI:
  assumes "\<And>i n. pos i n \<Longrightarrow> ordered_iterator it cmp kvs pos"
  shows "ordered_iterator it cmp kvs pos"
proof (cases "\<exists>i n. pos i n")
  case True
  then show ?thesis using assms by blast
next
  case False
  then show ?thesis by unfold_locales auto
qed

section \<open>The wrapper that caches validity and key\<close>

record 'i Wrapper =
  iw_iter :: 'i
  iw_valid :: bool
  iw_key :: bytes

definition Wrapper_Update :: "'i Iterator \<Rightarrow> 'i Wrapper \<Rightarrow> 'i Wrapper" where
  "Wrapper_Update it w =
     (let w = w\<lparr>iw_valid := it_Valid it (iw_iter w)\<rparr>
      in if iw_valid w then w\<lparr>iw_key := it_key it (iw_iter w)\<rparr> else w)"

definition Wrapper_Set :: "'i Iterator \<Rightarrow> 'i \<Rightarrow> 'i Wrapper" where
  "Wrapper_Set it i = Wrapper_Update it \<lparr>iw_iter = i, iw_valid = False, iw_key = []\<rparr>"

definition wrapper_move :: "'i Iterator \<Rightarrow> ('i \<Rightarrow> 'i option) \<Rightarrow> 'i Wrapper \<Rightarrow> 'i Wrapper option" where
  "wrapper_move it move w = map_option (\<lambda>i. Wrapper_Update it (w\<lparr>iw_iter := i\<rparr>)) (move (iw_iter w))"

definition IteratorWrapper :: "'i Iterator \<Rightarrow> 'i Wrapper Iterator" where
  "IteratorWrapper it =
     \<lparr>it_Valid = iw_valid,
      it_SeekToFirst = wrapper_move it (it_SeekToFirst it),
      it_SeekToLast = wrapper_move it (it_SeekToLast it),
      it_Seek = (\<lambda>k. wrapper_move it (it_Seek it k)),
      it_Next = wrapper_move it (it_Next it),
      it_Prev = wrapper_move it (it_Prev it),
      it_key = iw_key,
      it_value = (\<lambda>w. it_value it (iw_iter w)),
      it_status = (\<lambda>w. it_status it (iw_iter w))\<rparr>"

text \<open>The cache agrees with the iterator.\<close>

definition wrapper_pos :: "'i Iterator \<Rightarrow> ('i \<Rightarrow> nat \<Rightarrow> bool) \<Rightarrow> 'i Wrapper \<Rightarrow> nat \<Rightarrow> bool" where
  "wrapper_pos it pos w n \<longleftrightarrow>
     pos (iw_iter w) n \<and> iw_valid w = it_Valid it (iw_iter w) \<and>
     (iw_valid w \<longrightarrow> iw_key w = it_key it (iw_iter w))"

lemma wrapper_pos_Update: "pos (iw_iter w) n \<Longrightarrow> wrapper_pos it pos (Wrapper_Update it w) n"
  by (simp add: wrapper_pos_def Wrapper_Update_def Let_def)

lemma wrapper_pos_Set: "pos i n \<Longrightarrow> wrapper_pos it pos (Wrapper_Set it i) n"
  unfolding Wrapper_Set_def by (rule wrapper_pos_Update) simp

lemma wrapper_move_pos:
  assumes "\<exists>i'. move (iw_iter w) = Some i' \<and> pos i' n"
  shows "\<exists>w'. wrapper_move it move w = Some w' \<and> wrapper_pos it pos w' n"
  using assms wrapper_pos_Update [of pos "w\<lparr>iw_iter := _\<rparr>" n it] by (auto simp: wrapper_move_def)

context bounded_iterator
begin

lemma wrapper_contract: "bounded_iterator (IteratorWrapper it) cmp kvs (wrapper_pos it pos) lim"
proof unfold_locales
  fix w :: "'i Wrapper" and n target
  assume w: "wrapper_pos it pos w n"
  then have p: "pos (iw_iter w) n" by (simp add: wrapper_pos_def)
  show "n \<le> length kvs" by (rule pos_le [OF p])
  show v: "it_Valid (IteratorWrapper it) w = (n < length kvs)"
    using w valid_iff [OF p] by (simp add: IteratorWrapper_def wrapper_pos_def)
  show "it_status (IteratorWrapper it) w = Status_OK"
    using status_at [OF p] by (simp add: IteratorWrapper_def)
  show "\<exists>i'. it_SeekToFirst (IteratorWrapper it) w = Some i' \<and> wrapper_pos it pos i' 0"
    unfolding IteratorWrapper_def Iterator.simps by (rule wrapper_move_pos) (rule seek_first [OF p])
  show "\<exists>i'. it_SeekToLast (IteratorWrapper it) w = Some i' \<and> wrapper_pos it pos i' (length kvs - 1)"
    unfolding IteratorWrapper_def Iterator.simps by (rule wrapper_move_pos) (rule seek_last [OF p])
  show "\<exists>i'. it_Seek (IteratorWrapper it) target w = Some i' \<and> wrapper_pos it pos i' (lower_bound cmp target kvs)"
    if "length target < lim"
    unfolding IteratorWrapper_def Iterator.simps by (rule wrapper_move_pos) (rule seek [OF p that])
  assume n: "n < length kvs"
  show "it_key (IteratorWrapper it) w = fst (kvs ! n)" "it_value (IteratorWrapper it) w = snd (kvs ! n)"
    using w v n key_at [OF p n] value_at [OF p n] by (simp_all add: IteratorWrapper_def wrapper_pos_def)
  show "\<exists>i'. it_Next (IteratorWrapper it) w = Some i' \<and> wrapper_pos it pos i' (Suc n)"
    unfolding IteratorWrapper_def Iterator.simps by (rule wrapper_move_pos) (rule next_at [OF p n])
  show "\<exists>i'. it_Prev (IteratorWrapper it) w = Some i' \<and>
      wrapper_pos it pos i' (if n = 0 then length kvs else n - 1)"
    unfolding IteratorWrapper_def Iterator.simps by (rule wrapper_move_pos) (rule prev_at [OF p n])
qed

end

context ordered_iterator
begin

lemma wrapper_contract: "ordered_iterator (IteratorWrapper it) cmp kvs (wrapper_pos it pos)"
  by (rule ordered_iteratorI_bounded) (rule bounded_iterator.wrapper_contract [OF bounded])

end

section \<open>Cleanup functions\<close>

text \<open>The head node is inlined in the iterator; the others form a list behind it.\<close>

record 'a Cleanup =
  cleanup_head :: "'a option"
  cleanup_next :: "'a list"

definition Iterator_cleanup_make :: "'a Cleanup" where
  "Iterator_cleanup_make = \<lparr>cleanup_head = None, cleanup_next = []\<rparr>"

definition RegisterCleanup :: "'a \<Rightarrow> 'a Cleanup \<Rightarrow> 'a Cleanup" where
  "RegisterCleanup f c =
     (if cleanup_head c = None then c\<lparr>cleanup_head := Some f\<rparr>
      else c\<lparr>cleanup_next := f # cleanup_next c\<rparr>)"

text \<open>The destructor: the functions in the order it runs them.\<close>

definition Iterator_destroy :: "'a Cleanup \<Rightarrow> 'a list" where
  "Iterator_destroy c = (case cleanup_head c of None \<Rightarrow> [] | Some f \<Rightarrow> f # cleanup_next c)"

lemma Iterator_destroy_registered:
  "Iterator_destroy (fold RegisterCleanup fs Iterator_cleanup_make) =
     (case fs of [] \<Rightarrow> [] | f # gs \<Rightarrow> f # rev gs)"
proof -
  have "Iterator_destroy (fold RegisterCleanup gs \<lparr>cleanup_head = Some f, cleanup_next = hs\<rparr>) = f # rev gs @ hs"
    for f :: 'a and gs hs
    by (induction gs arbitrary: hs) (simp_all add: RegisterCleanup_def Iterator_destroy_def)
  then show ?thesis
    by (cases fs) (simp_all add: Iterator_cleanup_make_def RegisterCleanup_def Iterator_destroy_def)
qed

end
