(* ===== verification/Block.thy ===== *)
theory Block
  imports Coding Iterators
begin

text \<open>
  \<^verbatim>\<open>table/block_builder.cc\<close> and \<^verbatim>\<open>table/block.cc\<close>: blocks of key/value pairs with prefix-compressed keys
  and an array of restart points, and the iterator over them.  Offsets are natural numbers; blocks
  are smaller than \<open>2 ^ 32\<close> bytes, so that the 32-bit offsets of the code do not wrap.  The lengths
  inside an entry keep their width.
\<close>

section \<open>Building a block\<close>

record BlockBuilder =
  bb_buffer :: bytes
  bb_restarts :: "u32 list"
  bb_counter :: nat
  bb_finished :: bool
  bb_last_key :: bytes

definition BlockBuilder_make :: BlockBuilder where
  "BlockBuilder_make =
     \<lparr>bb_buffer = [], bb_restarts = [0], bb_counter = 0, bb_finished = False, bb_last_key = []\<rparr>"

definition BlockBuilder_Reset :: "BlockBuilder \<Rightarrow> BlockBuilder" where
  "BlockBuilder_Reset b =
     b\<lparr>bb_buffer := [], bb_restarts := [0], bb_counter := 0, bb_finished := False, bb_last_key := []\<rparr>"

definition BlockBuilder_CurrentSizeEstimate :: "BlockBuilder \<Rightarrow> nat" where
  "BlockBuilder_CurrentSizeEstimate b = length (bb_buffer b) + length (bb_restarts b) * 4 + 4"

definition BlockBuilder_empty :: "BlockBuilder \<Rightarrow> bool" where
  "BlockBuilder_empty b \<longleftrightarrow> bb_buffer b = []"

definition BlockBuilder_Finish :: "BlockBuilder \<Rightarrow> bytes \<times> BlockBuilder" where
  "BlockBuilder_Finish b =
     (let buffer = foldl PutFixed32 (bb_buffer b) (bb_restarts b);
          buffer = PutFixed32 buffer (of_nat (length (bb_restarts b)))
      in (buffer, b\<lparr>bb_buffer := buffer, bb_finished := True\<rparr>))"

text \<open>The loop that finds how much of the last key the next one shares.\<close>

fun shared_prefix :: "bytes \<Rightarrow> bytes \<Rightarrow> nat" where
  "shared_prefix (a # as) (b # bs) = (if a = b then Suc (shared_prefix as bs) else 0)"
| "shared_prefix _ _ = 0"

text \<open>\<open>interval\<close> is \<^verbatim>\<open>options_->block_restart_interval\<close>.\<close>

definition BlockBuilder_Add :: "nat \<Rightarrow> bytes \<Rightarrow> bytes \<Rightarrow> BlockBuilder \<Rightarrow> BlockBuilder" where
  "BlockBuilder_Add interval key value b =
     (let (shared, restarts, counter) =
            (if bb_counter b < interval
             then (shared_prefix (bb_last_key b) key, bb_restarts b, bb_counter b)
             else (0, bb_restarts b @ [of_nat (length (bb_buffer b))], 0));
          non_shared = length key - shared;
          buffer = PutVarint32 (bb_buffer b) (of_nat shared);
          buffer = PutVarint32 buffer (of_nat non_shared);
          buffer = PutVarint32 buffer (of_nat (length value));
          buffer = buffer @ drop shared key;
          buffer = buffer @ value
      in b\<lparr>bb_buffer := buffer, bb_restarts := restarts, bb_counter := counter + 1,
           bb_last_key := take shared (bb_last_key b) @ drop shared key\<rparr>)"

section \<open>Reading a block\<close>

record Block =
  blk_data :: bytes
  blk_size :: nat
  blk_restart_offset :: nat

definition NumRestarts :: "bytes \<Rightarrow> nat \<Rightarrow> nat" where
  "NumRestarts data sz = unat (DecodeFixed32 (drop (sz - 4) data))"

definition Block_make :: "bytes \<Rightarrow> Block" where
  "Block_make contents =
     (let sz = length contents in
      if sz < 4 then \<lparr>blk_data = contents, blk_size = 0, blk_restart_offset = 0\<rparr>
      else
        (let max_restarts_allowed = (sz - 4) div 4 in
         if NumRestarts contents sz > max_restarts_allowed
         then \<lparr>blk_data = contents, blk_size = 0, blk_restart_offset = 0\<rparr>
         else \<lparr>blk_data = contents, blk_size = sz,
                blk_restart_offset = sz - (1 + NumRestarts contents sz) * 4\<rparr>))"

text \<open>
  \<^verbatim>\<open>DecodeEntry\<close> on the bytes between \<^verbatim>\<open>p\<close> and \<^verbatim>\<open>limit\<close>: the three lengths and the bytes after them.
  The test of the lengths against the limit adds them in 32 bits.
\<close>

definition DecodeEntry :: "bytes \<Rightarrow> (u32 \<times> u32 \<times> u32 \<times> bytes) option" where
  "DecodeEntry p =
     (if length p < 3 then None
      else
        (let shared = ucast (p ! 0) :: u32; non_shared = ucast (p ! 1) :: u32; value_length = ucast (p ! 2) :: u32;
             parsed =
               (if (shared OR non_shared OR value_length) < 128
                then Some (shared, non_shared, value_length, drop 3 p)
                else
                  (case GetVarint32Ptr p of None \<Rightarrow> None
                   | Some (shared, p) \<Rightarrow>
                      (case GetVarint32Ptr p of None \<Rightarrow> None
                       | Some (non_shared, p) \<Rightarrow>
                          (case GetVarint32Ptr p of None \<Rightarrow> None
                           | Some (value_length, p) \<Rightarrow> Some (shared, non_shared, value_length, p)))))
         in case parsed of
              None \<Rightarrow> None
            | Some (shared, non_shared, value_length, p) \<Rightarrow>
                if of_nat (length p) < non_shared + value_length then None
                else Some (shared, non_shared, value_length, p)))"

text \<open>
  The state of \<^verbatim>\<open>Block::Iter\<close>; the slice \<^verbatim>\<open>value_\<close> is the offset and the length of the value in the block.
\<close>

record BlockIter =
  bi_data :: bytes
  bi_restarts :: nat
  bi_num_restarts :: nat
  bi_current :: nat
  bi_restart_index :: nat
  bi_key :: bytes
  bi_value_off :: nat
  bi_value_len :: nat
  bi_status :: Status

definition BlockIter_make :: "bytes \<Rightarrow> nat \<Rightarrow> nat \<Rightarrow> BlockIter" where
  "BlockIter_make data restarts num_restarts =
     \<lparr>bi_data = data, bi_restarts = restarts, bi_num_restarts = num_restarts, bi_current = restarts,
      bi_restart_index = num_restarts, bi_key = [], bi_value_off = 0, bi_value_len = 0, bi_status = Status_OK\<rparr>"

definition NextEntryOffset :: "BlockIter \<Rightarrow> nat" where
  "NextEntryOffset i = bi_value_off i + bi_value_len i"

definition GetRestartPoint :: "BlockIter \<Rightarrow> nat \<Rightarrow> nat" where
  "GetRestartPoint i index = unat (DecodeFixed32 (drop (bi_restarts i + index * 4) (bi_data i)))"

definition SeekToRestartPoint :: "nat \<Rightarrow> BlockIter \<Rightarrow> BlockIter" where
  "SeekToRestartPoint index i =
     i\<lparr>bi_key := [], bi_restart_index := index, bi_value_off := GetRestartPoint i index, bi_value_len := 0\<rparr>"

definition BlockIter_Valid :: "BlockIter \<Rightarrow> bool" where
  "BlockIter_Valid i \<longleftrightarrow> bi_current i < bi_restarts i"

definition BlockIter_value :: "BlockIter \<Rightarrow> bytes" where
  "BlockIter_value i = take (bi_value_len i) (drop (bi_value_off i) (bi_data i))"

definition CorruptionError :: "BlockIter \<Rightarrow> BlockIter" where
  "CorruptionError i =
     i\<lparr>bi_current := bi_restarts i, bi_restart_index := bi_num_restarts i,
       bi_status := Status_Corruption (lit ''bad entry in block'') [], bi_key := [],
       bi_value_off := 0, bi_value_len := 0\<rparr>"

text \<open>The loop that moves the restart index forward to the block the current entry is in.\<close>

function advance_restart_index :: "BlockIter \<Rightarrow> nat \<Rightarrow> nat" where
  "advance_restart_index i index =
     (if index + 1 < bi_num_restarts i \<and> GetRestartPoint i (index + 1) < bi_current i
      then advance_restart_index i (index + 1) else index)"
  by auto
termination
  by (relation "measure (\<lambda>(i, index). bi_num_restarts i - index)") auto

declare advance_restart_index.simps [simp del]

definition ParseNextKey :: "BlockIter \<Rightarrow> bool \<times> BlockIter" where
  "ParseNextKey i =
     (let i = i\<lparr>bi_current := NextEntryOffset i\<rparr> in
      if bi_current i \<ge> bi_restarts i
      then (False, i\<lparr>bi_current := bi_restarts i, bi_restart_index := bi_num_restarts i\<rparr>)
      else
        (case DecodeEntry (drop (bi_current i) (take (bi_restarts i) (bi_data i))) of
           None \<Rightarrow> (False, CorruptionError i)
         | Some (shared, non_shared, value_length, p) \<Rightarrow>
             if length (bi_key i) < unat shared then (False, CorruptionError i)
             else
               (let i = i\<lparr>bi_key := take (unat shared) (bi_key i) @ take (unat non_shared) p,
                          bi_value_off := bi_restarts i - length p + unat non_shared,
                          bi_value_len := unat value_length\<rparr>
                in (True, i\<lparr>bi_restart_index := advance_restart_index i (bi_restart_index i)\<rparr>))))"

definition BlockIter_Next :: "BlockIter \<Rightarrow> BlockIter" where
  "BlockIter_Next i = snd (ParseNextKey i)"

text \<open>The loops \<^verbatim>\<open>while (ParseNextKey() && NextEntryOffset() < limit)\<close> of \<^verbatim>\<open>Prev\<close> and \<^verbatim>\<open>SeekToLast\<close>.\<close>

lemma DecodeEntry_shorter: "DecodeEntry p = Some (s, n, v, q) \<Longrightarrow> length q + 3 \<le> length p"
proof -
  have s: "length r < length p" if "GetVarint32Ptr p = Some (x, r)" for p r x
    using GetVarint32_consumes [of p x r] that by (auto simp: GetVarint32_def)
  assume "DecodeEntry p = Some (s, n, v, q)"
  then show ?thesis
    by (fastforce simp: DecodeEntry_def Let_def dest: s split: if_splits option.splits)
qed

lemma ParseNextKey_advances:
  assumes "ParseNextKey i = (True, i')"
  shows "NextEntryOffset i < bi_restarts i" "bi_restarts i' = bi_restarts i" "NextEntryOffset i < NextEntryOffset i'"
proof -
  let ?p = "drop (NextEntryOffset i) (take (bi_restarts i) (bi_data i))"
  obtain s n v q where d: "DecodeEntry ?p = Some (s, n, v, q)"
    and i': "NextEntryOffset i' = bi_restarts i - length q + unat n + unat v" "bi_restarts i' = bi_restarts i"
    and lt: "NextEntryOffset i < bi_restarts i"
    using assms by (auto simp: ParseNextKey_def Let_def NextEntryOffset_def split: if_splits option.splits)
  show "NextEntryOffset i < bi_restarts i" "bi_restarts i' = bi_restarts i" by (fact lt, fact i'(2))
  have "length ?p \<le> bi_restarts i - NextEntryOffset i" by simp
  with DecodeEntry_shorter [OF d] lt i'(1) show "NextEntryOffset i < NextEntryOffset i'" by linarith
qed

lemma ParseNextKey_measure:
  assumes "(True, i') = ParseNextKey i"
  shows "bi_restarts i' - NextEntryOffset i' < bi_restarts i - NextEntryOffset i"
  using ParseNextKey_advances [OF assms [symmetric]] by linarith

function parse_until :: "nat \<Rightarrow> BlockIter \<Rightarrow> BlockIter" where
  "parse_until limit i =
     (let (more, i) = ParseNextKey i
      in if more \<and> NextEntryOffset i < limit then parse_until limit i else i)"
  by auto
termination
  by (relation "measure (\<lambda>(_, i). bi_restarts i - NextEntryOffset i)")
     (auto intro!: ParseNextKey_measure)

declare parse_until.simps [simp del]

text \<open>The scan backwards over the restart points: the index to start from, if there is one.\<close>

fun restart_before :: "BlockIter \<Rightarrow> nat \<Rightarrow> nat \<Rightarrow> nat option" where
  "restart_before i original index =
     (if GetRestartPoint i index \<ge> original
      then (if index = 0 then None else restart_before i original (index - 1))
      else Some index)"

declare restart_before.simps [simp del]

definition BlockIter_Prev :: "BlockIter \<Rightarrow> BlockIter" where
  "BlockIter_Prev i =
     (let original = bi_current i in
      case restart_before i original (bi_restart_index i) of
        None \<Rightarrow> i\<lparr>bi_current := bi_restarts i, bi_restart_index := bi_num_restarts i\<rparr>
      | Some index \<Rightarrow> parse_until original (SeekToRestartPoint index i))"

text \<open>The binary search in the restart array; nothing when an entry at a restart point is corrupt.\<close>

function binary_seek :: "Comparator \<Rightarrow> bytes \<Rightarrow> BlockIter \<Rightarrow> nat \<Rightarrow> nat \<Rightarrow> nat option" where
  "binary_seek c target i left right =
     (if left < right then
        (let mid = (left + right + 1) div 2;
             region_offset = GetRestartPoint i mid
         in case DecodeEntry (drop region_offset (take (bi_restarts i) (bi_data i))) of
              None \<Rightarrow> None
            | Some (shared, non_shared, value_length, key_ptr) \<Rightarrow>
                if shared \<noteq> 0 then None
                else (let mid_key = take (unat non_shared) key_ptr in
                      if Compare c mid_key target < 0 then binary_seek c target i mid right
                      else binary_seek c target i left (mid - 1)))
      else Some left)"
  by auto
termination
  by (relation "measure (\<lambda>(_, _, _, left, right). right - left)") auto

declare binary_seek.simps [simp del]

function linear_seek :: "Comparator \<Rightarrow> bytes \<Rightarrow> BlockIter \<Rightarrow> BlockIter" where
  "linear_seek c target i =
     (let (more, i) = ParseNextKey i
      in if \<not> more then i
         else if Compare c (bi_key i) target \<ge> 0 then i
         else linear_seek c target i)"
  by auto
termination
  by (relation "measure (\<lambda>(_, _, i). bi_restarts i - NextEntryOffset i)")
     (auto intro!: ParseNextKey_measure)

declare linear_seek.simps [simp del]

definition BlockIter_Seek :: "Comparator \<Rightarrow> bytes \<Rightarrow> BlockIter \<Rightarrow> BlockIter" where
  "BlockIter_Seek c target i =
     (case binary_seek c target i 0 (bi_num_restarts i - 1) of
        None \<Rightarrow> CorruptionError i
      | Some left \<Rightarrow> linear_seek c target (SeekToRestartPoint left i))"

definition BlockIter_SeekToFirst :: "BlockIter \<Rightarrow> BlockIter" where
  "BlockIter_SeekToFirst i = snd (ParseNextKey (SeekToRestartPoint 0 i))"

definition BlockIter_SeekToLast :: "BlockIter \<Rightarrow> BlockIter" where
  "BlockIter_SeekToLast i = parse_until (bi_restarts i) (SeekToRestartPoint (bi_num_restarts i - 1) i)"

definition BlockIterator :: "Comparator \<Rightarrow> BlockIter Iterator" where
  "BlockIterator c =
     \<lparr>it_Valid = BlockIter_Valid,
      it_SeekToFirst = Some \<circ> BlockIter_SeekToFirst,
      it_SeekToLast = Some \<circ> BlockIter_SeekToLast,
      it_Seek = (\<lambda>target. Some \<circ> BlockIter_Seek c target),
      it_Next = Some \<circ> BlockIter_Next,
      it_Prev = Some \<circ> BlockIter_Prev,
      it_key = bi_key,
      it_value = BlockIter_value,
      it_status = bi_status\<rparr>"

text \<open>\<^verbatim>\<open>Block::NewIterator\<close>: an error, an empty iterator, or an iterator over the entries.\<close>

definition Block_NewIterator :: "Block \<Rightarrow> Status + BlockIter" where
  "Block_NewIterator b =
     (if blk_size b < 4 then Inl (NewErrorIterator (Status_Corruption (lit ''bad block contents'') []))
      else
        (let num_restarts = NumRestarts (blk_data b) (blk_size b) in
         if num_restarts = 0 then Inl NewEmptyIterator
         else Inr (BlockIter_make (blk_data b) (blk_restart_offset b) num_restarts)))"

end
