(* ===== verification/Block_Refinement.thy ===== *)
theory Block_Refinement
  imports Block
begin

text \<open>
  What a finished block holds, and that the iterator over it keeps the contract of an ordered
  iterator over the pairs that were added.
\<close>

section \<open>The layout of a block\<close>

text \<open>How many bytes of its key an entry shares with the entry before: none at a restart point.\<close>

definition entry_shared :: "nat \<Rightarrow> kv list \<Rightarrow> nat \<Rightarrow> nat" where
  "entry_shared interval kvs n =
     (if n mod interval = 0 then 0 else shared_prefix (fst (kvs ! (n - 1))) (fst (kvs ! n)))"

definition block_entry :: "nat \<Rightarrow> kv list \<Rightarrow> nat \<Rightarrow> bytes" where
  "block_entry interval kvs n =
     (let s = entry_shared interval kvs n; (k, v) = kvs ! n
      in EncodeVarint32 (of_nat s) @ EncodeVarint32 (of_nat (length k - s)) @ EncodeVarint32 (of_nat (length v)) @
         drop s k @ v)"

definition entries :: "nat \<Rightarrow> kv list \<Rightarrow> nat \<Rightarrow> bytes" where
  "entries interval kvs n = concat (map (block_entry interval kvs) [0..<n])"

definition entry_off :: "nat \<Rightarrow> kv list \<Rightarrow> nat \<Rightarrow> nat" where
  "entry_off interval kvs n = length (entries interval kvs n)"

definition restart_count :: "nat \<Rightarrow> nat \<Rightarrow> nat" where
  "restart_count interval n = (if n = 0 then 1 else (n - 1) div interval + 1)"

definition restart_points :: "nat \<Rightarrow> kv list \<Rightarrow> u32 list" where
  "restart_points interval kvs =
     map (\<lambda>m. of_nat (entry_off interval kvs (m * interval))) [0..<restart_count interval (length kvs)]"

definition block_bytes :: "nat \<Rightarrow> kv list \<Rightarrow> bytes" where
  "block_bytes interval kvs =
     entries interval kvs (length kvs) @ concat (map EncodeFixed32 (restart_points interval kvs)) @
     EncodeFixed32 (of_nat (restart_count interval (length kvs)))"

lemma entries_Suc: "entries interval kvs (Suc n) = entries interval kvs n @ block_entry interval kvs n"
  by (simp add: entries_def)

lemma entry_off_Suc: "entry_off interval kvs (Suc n) = entry_off interval kvs n + length (block_entry interval kvs n)"
  by (simp add: entry_off_def entries_Suc)

lemma entry_off_0 [simp]: "entry_off interval kvs 0 = 0"
  by (simp add: entry_off_def entries_def)

lemma block_entry_not_Nil [simp]: "block_entry interval kvs n \<noteq> []"
  by (simp add: block_entry_def Let_def split: prod.split)

lemma entry_off_less: "m < n \<Longrightarrow> entry_off interval kvs m < entry_off interval kvs n"
  by (induction n) (auto simp: entry_off_Suc less_Suc_eq trans_less_add1)

lemma entry_off_less_iff: "entry_off interval kvs m < entry_off interval kvs n \<longleftrightarrow> m < n"
  by (metis entry_off_less less_asym less_irrefl linorder_neqE_nat)

lemma entry_off_le_iff: "entry_off interval kvs m \<le> entry_off interval kvs n \<longleftrightarrow> m \<le> n"
  by (metis entry_off_less_iff not_le)

lemma restart_count_pos [simp]: "0 < restart_count interval n"
  by (simp add: restart_count_def)

lemma restart_index_less:
  "m < restart_count interval n \<Longrightarrow> 0 < n \<Longrightarrow> m * interval < n"
proof -
  assume "m < restart_count interval n" "0 < n"
  then have "m \<le> (n - 1) div interval" by (simp add: restart_count_def)
  then have "m * interval \<le> (n - 1) div interval * interval" by (rule mult_le_mono1)
  also have "\<dots> \<le> n - 1" by simp
  finally show ?thesis using \<open>0 < n\<close> by linarith
qed

lemma restart_index_le: "m < restart_count interval n \<Longrightarrow> m * interval \<le> n"
  using restart_index_less [of m interval n] by (cases "n = 0") (simp_all add: restart_count_def)

section \<open>The builder makes this layout\<close>

lemma shared_prefix_le: "shared_prefix a b \<le> length a" "shared_prefix a b \<le> length b"
  by (induction a b rule: shared_prefix.induct) auto

lemma take_shared_prefix: "take (shared_prefix a b) a = take (shared_prefix a b) b"
  by (induction a b rule: shared_prefix.induct) auto

text \<open>Earlier entries do not depend on later ones.\<close>

lemma block_entry_append: "n < length kvs \<Longrightarrow> block_entry interval (kvs @ xs) n = block_entry interval kvs n"
  by (simp add: block_entry_def entry_shared_def nth_append)

lemma entries_append: "n \<le> length kvs \<Longrightarrow> entries interval (kvs @ xs) n = entries interval kvs n"
  by (auto simp: entries_def block_entry_append intro!: arg_cong [of _ _ concat])

lemma entry_off_append: "n \<le> length kvs \<Longrightarrow> entry_off interval (kvs @ xs) n = entry_off interval kvs n"
  by (simp add: entry_off_def entries_append)

text \<open>The state of a builder after the pairs \<open>kvs\<close>.\<close>

definition built :: "nat \<Rightarrow> kv list \<Rightarrow> BlockBuilder \<Rightarrow> bool" where
  "built interval kvs b \<longleftrightarrow>
     bb_buffer b = entries interval kvs (length kvs) \<and>
     bb_restarts b = restart_points interval kvs \<and>
     bb_counter b = (if kvs = [] then 0 else (length kvs - 1) mod interval + 1) \<and>
     bb_last_key b = (if kvs = [] then [] else fst (last kvs)) \<and> \<not> bb_finished b"

lemma built_make: "built interval [] BlockBuilder_make"
  by (simp add: built_def BlockBuilder_make_def entries_def restart_points_def restart_count_def)

lemma built_Reset: "built interval [] (BlockBuilder_Reset b)"
  by (simp add: built_def BlockBuilder_Reset_def entries_def restart_points_def restart_count_def)

lemma counter_full:
  fixes n interval :: nat
  assumes "1 \<le> interval" "0 < n"
  shows "(n - 1) mod interval + 1 = interval \<longleftrightarrow> n mod interval = 0"
proof -
  have "n mod interval = Suc (n - 1) mod interval" using assms(2) by simp
  also have "\<dots> = (if Suc ((n - 1) mod interval) = interval then 0 else Suc ((n - 1) mod interval))"
    by (rule mod_Suc)
  finally show ?thesis by (auto split: if_splits)
qed

lemma restart_points_snoc:
  assumes "1 \<le> interval"
  shows "restart_points interval (kvs @ [kv]) =
    (if kvs \<noteq> [] \<and> length kvs mod interval = 0
     then restart_points interval kvs @ [of_nat (entry_off interval kvs (length kvs))]
     else restart_points interval kvs)"
proof (cases "kvs = []")
  case False
  let ?n = "length kvs"
  have c: "restart_count interval (Suc ?n) =
      (if ?n mod interval = 0 then Suc (restart_count interval ?n) else restart_count interval ?n)"
    using False div_Suc [of "?n - 1" interval] mod_Suc [of "?n - 1" interval] by (simp add: restart_count_def)
  have d: "?n mod interval = 0 \<Longrightarrow> restart_count interval ?n * interval = ?n"
    using False div_Suc [of "?n - 1" interval] mod_Suc [of "?n - 1" interval] dvd_div_mult_self [of interval ?n]
    by (auto simp: restart_count_def split: if_splits)
  have "entry_off interval (kvs @ [kv]) (m * interval) = entry_off interval kvs (m * interval)"
    if "m < restart_count interval ?n" for m
    by (rule entry_off_append) (rule restart_index_le [OF that])
  then show ?thesis
    using False d by (simp add: restart_points_def c entry_off_append cong: map_cong)
qed (simp add: restart_points_def restart_count_def)

lemma built_Add:
  assumes "1 \<le> interval" "built interval kvs b"
  shows "built interval (kvs @ [(k, v)]) (BlockBuilder_Add interval k v b)"
proof -
  let ?n = "length kvs"
  let ?s = "entry_shared interval (kvs @ [(k, v)]) ?n"
  have full: "bb_counter b < interval \<longleftrightarrow> kvs = [] \<or> ?n mod interval \<noteq> 0"
    using assms counter_full [OF assms(1), of ?n] mod_less_divisor [of interval "?n - 1"]
    by (auto simp: built_def Suc_le_eq le_less intro: Suc_lessI)
  have s: "(if bb_counter b < interval then (shared_prefix (bb_last_key b) k, bb_restarts b, bb_counter b)
       else (0, bb_restarts b @ [of_nat (length (bb_buffer b))], 0)) =
      (?s, restart_points interval (kvs @ [(k, v)]), if kvs = [] \<or> ?n mod interval \<noteq> 0 then bb_counter b else 0)"
    unfolding full restart_points_snoc [OF assms(1)] using assms(2)
    by (auto simp: built_def entry_shared_def nth_append last_conv_nth entry_off_def)
  have cnt: "(if kvs = [] \<or> ?n mod interval \<noteq> 0 then bb_counter b else 0) = ?n mod interval"
    using assms counter_full [OF assms(1), of ?n] mod_Suc [of "?n - 1" interval]
    by (auto simp: built_def split: if_splits)
  have "take ?s (bb_last_key b) = take ?s k"
    using assms(2) take_shared_prefix by (auto simp: built_def entry_shared_def nth_append last_conv_nth)
  then have "take ?s (bb_last_key b) @ drop ?s k = k" by simp
  then show ?thesis
    using assms(2) unfolding BlockBuilder_Add_def s prod.case Let_def cnt
    by (simp add: built_def PutVarint32_def entries_append entries_Suc block_entry_def Let_def)
qed

lemma built_all:
  assumes "1 \<le> interval"
  shows "built interval kvs b \<Longrightarrow>
    built interval (kvs @ xs) (foldl (\<lambda>b (k, v). BlockBuilder_Add interval k v b) b xs)"
proof (induction xs arbitrary: kvs b)
  case (Cons x xs)
  then show ?case using built_Add [OF assms, of kvs b "fst x" "snd x"] by (cases x) fastforce
qed simp

lemma foldl_PutFixed32: "foldl PutFixed32 dst xs = dst @ concat (map EncodeFixed32 xs)"
  by (induction xs arbitrary: dst) (simp_all add: PutFixed32_def)

lemma built_Finish: "built interval kvs b \<Longrightarrow> fst (BlockBuilder_Finish b) = block_bytes interval kvs"
  by (simp add: built_def BlockBuilder_Finish_def foldl_PutFixed32 PutFixed32_def block_bytes_def restart_points_def Let_def)

lemma built_size_estimate:
  "built interval kvs b \<Longrightarrow> BlockBuilder_CurrentSizeEstimate b = length (block_bytes interval kvs)"
proof -
  have "length (concat (map EncodeFixed32 xs)) = 4 * length xs" for xs
    by (induction xs) simp_all
  then show "built interval kvs b \<Longrightarrow> BlockBuilder_CurrentSizeEstimate b = length (block_bytes interval kvs)"
    by (simp add: built_def BlockBuilder_CurrentSizeEstimate_def block_bytes_def)
qed

section \<open>Reading the layout\<close>

definition block_ok :: "nat \<Rightarrow> kv list \<Rightarrow> bool" where
  "block_ok interval kvs \<longleftrightarrow> 1 \<le> interval \<and> length (block_bytes interval kvs) < 2 ^ 32"

lemma length_fixed32s: "length (concat (map EncodeFixed32 xs)) = 4 * length xs"
  by (induction xs) simp_all

lemma drop_fixed32s: "drop (m * 4) (concat (map EncodeFixed32 xs)) = concat (map EncodeFixed32 (drop m xs))"
proof (induction xs arbitrary: m)
  case (Cons x xs)
  then show ?case by (cases m) simp_all
qed simp

lemma length_restart_points [simp]: "length (restart_points interval kvs) = restart_count interval (length kvs)"
  by (simp add: restart_points_def)

lemma length_block_bytes:
  "length (block_bytes interval kvs) =
     entry_off interval kvs (length kvs) + 4 * restart_count interval (length kvs) + 4"
  by (simp add: block_bytes_def entry_off_def length_fixed32s)

lemma block_ok_bounds:
  assumes "block_ok interval kvs"
  shows "n \<le> length kvs \<Longrightarrow> entry_off interval kvs n < 2 ^ 32" "restart_count interval (length kvs) < 2 ^ 32"
  using assms entry_off_le_iff [of interval kvs n "length kvs"] by (simp_all add: block_ok_def length_block_bytes)

lemma entry_length_ge:
  "length (fst (kvs ! n)) - entry_shared interval kvs n + length (snd (kvs ! n)) \<le> length (block_entry interval kvs n)"
  by (simp add: block_entry_def Let_def case_prod_unfold)

text \<open>Every byte of a key was stored in some entry since the last restart point.\<close>

lemma key_length_bound: "length (fst (kvs ! n)) \<le> entry_off interval kvs (Suc n)"
proof (induction n)
  case 0
  then show ?case using entry_length_ge [of kvs 0 interval] by (simp add: entry_off_Suc entry_shared_def)
next
  case (Suc n)
  have "entry_shared interval kvs (Suc n) \<le> entry_off interval kvs (Suc n)"
    using Suc shared_prefix_le(1) [of "fst (kvs ! n)" "fst (kvs ! Suc n)"] by (simp add: entry_shared_def)
  then show ?case using entry_length_ge [of kvs "Suc n" interval] by (simp add: entry_off_Suc [of _ _ "Suc n"])
qed

lemma entry_lengths:
  assumes "block_ok interval kvs" "n < length kvs"
  defines "s \<equiv> entry_shared interval kvs n"
  shows "s \<le> length (fst (kvs ! n))" "s < 2 ^ 32"
    and "length (fst (kvs ! n)) - s + length (snd (kvs ! n)) < 2 ^ 32"
proof -
  have off: "entry_off interval kvs (Suc n) < 2 ^ 32" using block_ok_bounds(1) [OF assms(1)] assms(2) by simp
  show "s \<le> length (fst (kvs ! n))" by (simp add: s_def entry_shared_def shared_prefix_le)
  with key_length_bound [of kvs n interval] off show "s < 2 ^ 32" by linarith
  show "length (fst (kvs ! n)) - s + length (snd (kvs ! n)) < 2 ^ 32"
    using entry_length_ge [of kvs n interval] off by (simp add: entry_off_Suc s_def)
qed

section \<open>Decoding an entry\<close>

text \<open>The fast path for three one-byte lengths agrees with the general one.\<close>

lemma byte_and_128: "\<not> bit b 7 \<Longrightarrow> b AND 128 = 0" for b :: byte
  by (rule bit_word_eqI) (auto simp: bit_simps bit_128)

lemma GetVarint32Ptr_small: "\<not> bit b 7 \<Longrightarrow> GetVarint32Ptr (b # p) = Some (ucast b, p)"
  by (simp add: GetVarint32Ptr_def Let_def ucast_and_128_eq_0 byte_and_128)

lemma or3_small:
  fixes a b c :: byte
  assumes "(ucast a OR ucast b OR ucast c :: u32) < 128"
  shows "\<not> bit a 7" "\<not> bit b 7" "\<not> bit c 7"
proof -
  have "\<not> bit (ucast a OR ucast b OR ucast c :: u32) 7"
    using assms by (simp add: less_128_bits)
  then show "\<not> bit a 7" "\<not> bit b 7" "\<not> bit c 7" by (simp_all add: bit_simps)
qed

definition decode_lengths :: "bytes \<Rightarrow> (u32 \<times> u32 \<times> u32 \<times> bytes) option" where
  "decode_lengths p =
     (case GetVarint32Ptr p of None \<Rightarrow> None
      | Some (shared, p) \<Rightarrow>
         (case GetVarint32Ptr p of None \<Rightarrow> None
          | Some (non_shared, p) \<Rightarrow>
             (case GetVarint32Ptr p of None \<Rightarrow> None
              | Some (value_length, p) \<Rightarrow> Some (shared, non_shared, value_length, p))))"

lemma DecodeEntry_eq:
  "DecodeEntry p =
     (if length p < 3 then None
      else case decode_lengths p of
             None \<Rightarrow> None
           | Some (shared, non_shared, value_length, p) \<Rightarrow>
               if of_nat (length p) < non_shared + value_length then None
               else Some (shared, non_shared, value_length, p))"
proof (cases "length p < 3")
  case False
  then obtain a b c q where p: "p = a # b # c # q"
    by (metis (no_types, opaque_lifting) Suc_1 length_Cons less_Suc_eq less_one list.size(3) neq_Nil_conv numeral_3_eq_3)
  show ?thesis
  proof (cases "(ucast a OR ucast b OR ucast c :: u32) < 128")
    case True
    then have "decode_lengths p = Some (ucast a, ucast b, ucast c, q)"
      using or3_small [OF True] by (simp add: p decode_lengths_def GetVarint32Ptr_small)
    then show ?thesis using True by (simp add: DecodeEntry_def p)
  next
    case False
    then show ?thesis by (simp add: DecodeEntry_def p decode_lengths_def)
  qed
qed (simp add: DecodeEntry_def)

lemma decode_lengths_encoded:
  "decode_lengths (EncodeVarint32 a @ EncodeVarint32 b @ EncodeVarint32 c @ p) = Some (a, b, c, p)"
  by (simp add: decode_lengths_def)

lemma DecodeEntry_entry:
  assumes "block_ok interval kvs" "n < length kvs"
    and "kvs ! n = (k, v)" "s = entry_shared interval kvs n"
    and "length (block_entry interval kvs n @ p) < 2 ^ 32"
  shows "DecodeEntry (block_entry interval kvs n @ p) =
    Some (of_nat s, of_nat (length k - s), of_nat (length v), drop s k @ v @ p)"
proof -
  have b: "block_entry interval kvs n @ p = EncodeVarint32 (of_nat s) @ EncodeVarint32 (of_nat (length k - s)) @
      EncodeVarint32 (of_nat (length v)) @ (drop s k @ v @ p)"
    using assms(3,4) by (simp add: block_entry_def Let_def)
  have ge: "1 \<le> length (EncodeVarint32 x)" for x using length_EncodeVarint32_bounds [of x] by simp
  have l3: "\<not> length (block_entry interval kvs n @ p) < 3"
    unfolding b using ge [of "of_nat s"] ge [of "of_nat (length k - s)"] ge [of "of_nat (length v)"] by simp
  note le = entry_lengths [OF assms(1,2), folded assms(4), unfolded assms(3) fst_conv snd_conv]
  let ?r = "length (drop s k @ v @ p)"
  have r: "?r < 2 ^ 32" using assms(5) unfolding b by simp
  have "(of_nat (length k - s) :: u32) + of_nat (length v) = of_nat (length k - s + length v)" by simp
  then have "unat ((of_nat (length k - s) :: u32) + of_nat (length v)) = length k - s + length v"
    using le(3) by (simp only: unat_of_nat_u32)
  then have "\<not> (of_nat ?r :: u32) < of_nat (length k - s) + of_nat (length v)"
    using unat_of_nat_u32 [OF r] by (simp add: word_less_nat_alt)
  then show ?thesis
    using l3 unfolding DecodeEntry_eq b decode_lengths_encoded by simp
qed

section \<open>Positions of the iterator\<close>

text \<open>The fixed fields of an iterator over the block.\<close>

definition bi_base :: "nat \<Rightarrow> kv list \<Rightarrow> BlockIter \<Rightarrow> bool" where
  "bi_base interval kvs i \<longleftrightarrow>
     bi_data i = block_bytes interval kvs \<and> bi_restarts i = entry_off interval kvs (length kvs) \<and>
     bi_num_restarts i = restart_count interval (length kvs) \<and> bi_status i = Status_OK"

text \<open>The next entry to be parsed is the \<open>n\<close>th.\<close>

definition bi_ready :: "nat \<Rightarrow> kv list \<Rightarrow> BlockIter \<Rightarrow> nat \<Rightarrow> bool" where
  "bi_ready interval kvs i n \<longleftrightarrow>
     bi_base interval kvs i \<and> n \<le> length kvs \<and> NextEntryOffset i = entry_off interval kvs n \<and>
     (n mod interval = 0 \<or> 0 < n \<and> bi_key i = fst (kvs ! (n - 1))) \<and>
     bi_restart_index i < restart_count interval (length kvs)"

text \<open>The iterator stands at the \<open>n\<close>th entry, or is invalid.\<close>

definition bi_at :: "nat \<Rightarrow> kv list \<Rightarrow> BlockIter \<Rightarrow> nat \<Rightarrow> bool" where
  "bi_at interval kvs i n \<longleftrightarrow>
     bi_base interval kvs i \<and> n \<le> length kvs \<and> bi_current i = entry_off interval kvs n \<and>
     (n < length kvs \<longrightarrow>
        bi_key i = fst (kvs ! n) \<and> NextEntryOffset i = entry_off interval kvs (Suc n) \<and>
        bi_value_len i = length (snd (kvs ! n)) \<and>
        bi_restart_index i < restart_count interval (length kvs))"

lemma bi_at_ready: "bi_at interval kvs i n \<Longrightarrow> n < length kvs \<Longrightarrow> bi_ready interval kvs i (Suc n)"
  by (simp add: bi_at_def bi_ready_def)

lemma bi_base_update [simp]:
  "bi_base interval kvs (i\<lparr>bi_current := x\<rparr>) = bi_base interval kvs i"
  "bi_base interval kvs (i\<lparr>bi_restart_index := y\<rparr>) = bi_base interval kvs i"
  "bi_base interval kvs (i\<lparr>bi_key := z\<rparr>) = bi_base interval kvs i"
  "bi_base interval kvs (i\<lparr>bi_value_off := x\<rparr>) = bi_base interval kvs i"
  "bi_base interval kvs (i\<lparr>bi_value_len := x\<rparr>) = bi_base interval kvs i"
  by (simp_all add: bi_base_def)

lemma GetRestartPoint_eq:
  assumes "block_ok interval kvs" "bi_base interval kvs i" "m < restart_count interval (length kvs)"
  shows "GetRestartPoint i m = entry_off interval kvs (m * interval)"
proof -
  have "drop (bi_restarts i + m * 4) (bi_data i) =
      EncodeFixed32 (restart_points interval kvs ! m) @
      concat (map EncodeFixed32 (drop (Suc m) (restart_points interval kvs))) @
      EncodeFixed32 (of_nat (restart_count interval (length kvs)))"
    using assms(2,3) Cons_nth_drop_Suc [of m "restart_points interval kvs"]
    by (simp add: bi_base_def block_bytes_def entry_off_def drop_fixed32s length_fixed32s
        flip: Cons_nth_drop_Suc)
  then have "GetRestartPoint i m = unat (restart_points interval kvs ! m)"
    by (simp add: GetRestartPoint_def)
  also have "\<dots> = entry_off interval kvs (m * interval)"
    using assms(3) block_ok_bounds(1) [OF assms(1) restart_index_le [OF assms(3)]]
    by (simp add: restart_points_def unat_of_nat_u32)
  finally show ?thesis .
qed

lemma advance_restart_index_less:
  "index < bi_num_restarts i \<Longrightarrow> advance_restart_index i index < bi_num_restarts i"
proof (induction i index rule: advance_restart_index.induct)
  case (1 i index)
  then show ?case by (subst advance_restart_index.simps) simp
qed

lemma SeekToRestartPoint_ready:
  assumes "block_ok interval kvs" "bi_base interval kvs i" "m < restart_count interval (length kvs)"
  shows "bi_ready interval kvs (SeekToRestartPoint m i) (m * interval)"
  using assms restart_index_le [OF assms(3)]
  by (simp add: bi_ready_def SeekToRestartPoint_def NextEntryOffset_def GetRestartPoint_eq)

text \<open>What lies between the start of an entry and the restart array.\<close>

lemma rest_of_entries:
  assumes "n < length kvs"
  shows "\<exists>p. drop (entry_off interval kvs n) (entries interval kvs (length kvs)) = block_entry interval kvs n @ p"
proof -
  have "[0..<length kvs] = [0..<n] @ n # [Suc n..<length kvs]"
    using assms upt_add_eq_append [of 0 n "length kvs - n"] by (simp add: upt_conv_Cons)
  then have "entries interval kvs (length kvs) = entries interval kvs n @ block_entry interval kvs n @
      concat (map (block_entry interval kvs) [Suc n..<length kvs])"
    by (simp add: entries_def)
  then show ?thesis by (simp add: entry_off_def)
qed

lemma decode_at:
  assumes ok: "block_ok interval kvs" and base: "bi_base interval kvs i" and n: "n < length kvs"
  obtains p where
    "DecodeEntry (drop (entry_off interval kvs n) (take (bi_restarts i) (bi_data i))) =
       Some (of_nat (entry_shared interval kvs n), of_nat (length (fst (kvs ! n)) - entry_shared interval kvs n),
             of_nat (length (snd (kvs ! n))), drop (entry_shared interval kvs n) (fst (kvs ! n)) @ snd (kvs ! n) @ p)"
    "entry_off interval kvs (Suc n) + length p = bi_restarts i"
proof -
  obtain p where p: "drop (entry_off interval kvs n) (entries interval kvs (length kvs)) = block_entry interval kvs n @ p"
    using rest_of_entries [OF n] by blast
  have t: "take (bi_restarts i) (bi_data i) = entries interval kvs (length kvs)"
    using base by (simp add: bi_base_def block_bytes_def entry_off_def)
  have len: "entry_off interval kvs n + length (block_entry interval kvs n @ p) = entry_off interval kvs (length kvs)"
    using arg_cong [OF p, of length] entry_off_le_iff [of interval kvs n "length kvs"] n
    by (simp add: entry_off_def)
  then have "length (block_entry interval kvs n @ p) < 2 ^ 32"
    using block_ok_bounds(1) [OF ok, of "length kvs"] by simp
  from DecodeEntry_entry [OF ok n _ refl this, of "fst (kvs ! n)" "snd (kvs ! n)"]
  have "DecodeEntry (drop (entry_off interval kvs n) (take (bi_restarts i) (bi_data i))) =
       Some (of_nat (entry_shared interval kvs n), of_nat (length (fst (kvs ! n)) - entry_shared interval kvs n),
             of_nat (length (snd (kvs ! n))), drop (entry_shared interval kvs n) (fst (kvs ! n)) @ snd (kvs ! n) @ p)"
    unfolding t p by simp
  moreover have "entry_off interval kvs (Suc n) + length p = bi_restarts i"
    using len base by (simp add: entry_off_Suc bi_base_def)
  ultimately show thesis by (rule that)
qed

lemma ParseNextKey_at:
  assumes ok: "block_ok interval kvs" and r: "bi_ready interval kvs i n" and n: "n < length kvs"
  shows "\<exists>i'. ParseNextKey i = (True, i') \<and> bi_at interval kvs i' n"
proof -
  let ?s = "entry_shared interval kvs n" and ?k = "fst (kvs ! n)" and ?v = "snd (kvs ! n)"
  have base: "bi_base interval kvs i" using r by (simp add: bi_ready_def)
  define ns where "ns = length ?k - ?s"
  obtain p where d: "DecodeEntry (drop (entry_off interval kvs n) (take (bi_restarts i) (bi_data i))) =
       Some (of_nat ?s, of_nat ns, of_nat (length ?v), drop ?s ?k @ ?v @ p)"
    and p: "entry_off interval kvs (Suc n) + length p = bi_restarts i"
    using decode_at [OF ok base n] unfolding ns_def by blast
  define q where "q = drop ?s ?k @ ?v @ p"
  note d = d [folded q_def]
  note le = entry_lengths [OF ok n]
  have u: "unat (of_nat ?s :: u32) = ?s" "unat (of_nat ns :: u32) = ns"
    "unat (of_nat (length ?v) :: u32) = length ?v"
    by (rule unat_of_nat_u32, use le ns_def in linarith)+
  have key: "?s \<le> length (bi_key i)" "take ?s (bi_key i) = take ?s ?k"
    using r shared_prefix_le(1) [of "fst (kvs ! (n - 1))" ?k] take_shared_prefix [of "fst (kvs ! (n - 1))" ?k]
    by (auto simp: bi_ready_def entry_shared_def)
  have new_key: "take ?s (bi_key i) @ take ns q = ?k" using key(2) by (simp add: ns_def q_def)
  have lt: "entry_off interval kvs n < bi_restarts i"
    using n base by (simp add: bi_base_def entry_off_less_iff)
  define j where "j = i\<lparr>bi_current := entry_off interval kvs n, bi_key := ?k,
      bi_value_off := bi_restarts i - length q + ns, bi_value_len := length ?v\<rparr>"
  have "ParseNextKey i = (True, j\<lparr>bi_restart_index := advance_restart_index j (bi_restart_index i)\<rparr>)"
    using r lt key(1) new_key
    by (simp add: ParseNextKey_def Let_def bi_ready_def d u j_def)
  moreover have "bi_at interval kvs (j\<lparr>bi_restart_index := advance_restart_index j (bi_restart_index i)\<rparr>) n"
  proof -
    have "bi_restart_index i < bi_num_restarts j" using r by (simp add: bi_ready_def bi_base_def j_def)
    from advance_restart_index_less [OF this] have "advance_restart_index j (bi_restart_index i) < restart_count interval (length kvs)"
      using base by (simp add: bi_base_def j_def)
    moreover have "NextEntryOffset j = entry_off interval kvs (Suc n)"
      using p entry_length_ge [of kvs n interval] by (simp add: NextEntryOffset_def j_def entry_off_Suc ns_def q_def)
    ultimately show ?thesis
      using base n by (simp add: bi_at_def NextEntryOffset_def j_def)
  qed
  ultimately show ?thesis by blast
qed

lemma ParseNextKey_end:
  assumes "bi_ready interval kvs i (length kvs)"
  shows "\<exists>i'. ParseNextKey i = (False, i') \<and> bi_at interval kvs i' (length kvs)"
  using assms by (simp add: ParseNextKey_def Let_def bi_ready_def bi_at_def) (simp add: bi_base_def)

lemma value_of_bi_at:
  assumes "bi_at interval kvs i n" "n < length kvs"
  shows "BlockIter_value i = snd (kvs ! n)"
proof -
  obtain p where p: "drop (entry_off interval kvs n) (entries interval kvs (length kvs)) = block_entry interval kvs n @ p"
    using rest_of_entries [OF assms(2)] by blast
  obtain q where q: "block_entry interval kvs n = q @ snd (kvs ! n)"
    using that [of "EncodeVarint32 (of_nat (entry_shared interval kvs n)) @
        EncodeVarint32 (of_nat (length (fst (kvs ! n)) - entry_shared interval kvs n)) @
        EncodeVarint32 (of_nat (length (snd (kvs ! n)))) @ drop (entry_shared interval kvs n) (fst (kvs ! n))"]
    by (simp add: block_entry_def Let_def case_prod_unfold)
  have off: "bi_value_off i = entry_off interval kvs n + length q"
    using assms by (simp add: bi_at_def NextEntryOffset_def entry_off_Suc q)
  have "entries interval kvs (length kvs) = entries interval kvs n @ q @ snd (kvs ! n) @ p"
  proof -
    have "take (entry_off interval kvs n) (entries interval kvs (length kvs)) = entries interval kvs n"
    proof -
      have "[0..<length kvs] = [0..<n] @ [n..<length kvs]"
        using assms(2) upt_add_eq_append [of 0 n "length kvs - n"] by simp
      then show ?thesis by (simp add: entries_def entry_off_def)
    qed
    then show ?thesis using p q by (metis append_assoc append_take_drop_id)
  qed
  then show ?thesis
    using assms off by (simp add: BlockIter_value_def bi_at_def bi_base_def block_bytes_def entry_off_def)
qed

section \<open>The moves\<close>

lemma parse_until_at:
  assumes ok: "block_ok interval kvs"
  shows "bi_ready interval kvs i m \<Longrightarrow> m < n \<Longrightarrow> n \<le> length kvs \<Longrightarrow>
    bi_at interval kvs (parse_until (entry_off interval kvs n) i) (n - 1)"
proof (induction "n - m" arbitrary: i m)
  case (Suc d)
  obtain i' where p: "ParseNextKey i = (True, i')" "bi_at interval kvs i' m"
    using ParseNextKey_at [OF ok Suc.prems(1)] Suc.prems by auto
  have next_off: "NextEntryOffset i' = entry_off interval kvs (Suc m)"
    using p(2) Suc.prems by (simp add: bi_at_def)
  show ?case
  proof (cases "Suc m = n")
    case True
    then show ?thesis using p next_off by (subst parse_until.simps) auto
  next
    case False
    then have "parse_until (entry_off interval kvs n) i = parse_until (entry_off interval kvs n) i'"
      using p(1) next_off Suc.prems by (subst parse_until.simps) (simp add: entry_off_less_iff)
    moreover have "bi_ready interval kvs i' (Suc m)" using bi_at_ready [OF p(2)] Suc.prems by simp
    ultimately show ?thesis using Suc.hyps(1) [of "Suc m" i'] Suc.hyps(2) Suc.prems False by simp
  qed
qed simp

lemma parse_until_end:
  assumes "bi_ready interval kvs i (length kvs)"
  shows "bi_at interval kvs (parse_until limit i) (length kvs)"
  using ParseNextKey_end [OF assms] by (subst parse_until.simps) auto

lemma linear_seek_at:
  assumes ok: "block_ok interval kvs"
  shows "bi_ready interval kvs i m \<Longrightarrow> (\<And>j. j < m \<Longrightarrow> Compare c (fst (kvs ! j)) target < 0) \<Longrightarrow>
    bi_at interval kvs (linear_seek c target i) (lower_bound (Compare c) target kvs)"
proof (induction "length kvs - m" arbitrary: i m)
  case 0
  then have m: "m = length kvs" by (simp add: bi_ready_def)
  obtain i' where p: "ParseNextKey i = (False, i')" "bi_at interval kvs i' (length kvs)"
    using ParseNextKey_end 0 m by blast
  have "lower_bound (Compare c) target kvs = length kvs" by (rule lower_bound_eqI) (use 0 m in auto)
  with p show ?case by (subst linear_seek.simps) simp
next
  case (Suc d)
  then have m: "m < length kvs" by simp
  obtain i' where p: "ParseNextKey i = (True, i')" "bi_at interval kvs i' m"
    using ParseNextKey_at [OF ok Suc.prems(1) m] by blast
  have k: "bi_key i' = fst (kvs ! m)" using p(2) m by (simp add: bi_at_def)
  show ?case
  proof (cases "Compare c (fst (kvs ! m)) target < 0")
    case True
    then have "linear_seek c target i = linear_seek c target i'"
      using p(1) k by (subst linear_seek.simps) simp
    moreover have "bi_at interval kvs (linear_seek c target i') (lower_bound (Compare c) target kvs)"
      by (rule Suc.hyps(1) [of "Suc m"])
         (use Suc.hyps(2) bi_at_ready [OF p(2) m] Suc.prems(2) True in \<open>auto simp: less_Suc_eq\<close>)
    ultimately show ?thesis by simp
  next
    case False
    have "lower_bound (Compare c) target kvs = m" by (rule lower_bound_eqI) (use m Suc.prems(2) False in auto)
    with p k False show ?thesis by (subst linear_seek.simps) simp
  qed
qed

lemma binary_seek_result:
  assumes ok: "block_ok interval kvs" and base: "bi_base interval kvs i"
  shows "right < restart_count interval (length kvs) \<Longrightarrow> left \<le> right \<Longrightarrow>
     left = 0 \<or> Compare c (fst (kvs ! (left * interval))) target < 0 \<Longrightarrow>
     \<exists>l. binary_seek c target i left right = Some l \<and> l < restart_count interval (length kvs) \<and>
         (l = 0 \<or> Compare c (fst (kvs ! (l * interval))) target < 0)"
proof (induction "right - left" arbitrary: left right rule: less_induct)
  case less
  show ?case
  proof (cases "left < right")
    case True
    define mid where "mid = (left + right + 1) div 2"
    have mid: "left < mid" "mid \<le> right" using True by (auto simp: mid_def)
    let ?k = "fst (kvs ! (mid * interval))" and ?v = "snd (kvs ! (mid * interval))"
    have "0 < length kvs" using mid less.prems(1) by (auto simp: restart_count_def split: if_splits)
    then have n: "mid * interval < length kvs"
      using restart_index_less [of mid interval "length kvs"] mid(2) less.prems(1) by simp
    have s: "entry_shared interval kvs (mid * interval) = 0" by (simp add: entry_shared_def)
    obtain p where d: "DecodeEntry (drop (entry_off interval kvs (mid * interval)) (take (bi_restarts i) (bi_data i))) =
        Some (0, of_nat (length ?k), of_nat (length ?v), ?k @ ?v @ p)"
      using decode_at [OF ok base n] unfolding s by auto
    have u: "unat (of_nat (length ?k) :: u32) = length ?k"
      by (rule unat_of_nat_u32) (use entry_lengths(3) [OF ok n] s in linarith)
    have g: "GetRestartPoint i mid = entry_off interval kvs (mid * interval)"
      by (rule GetRestartPoint_eq [OF ok base]) (use mid less.prems(1) in simp)
    have t: "take (length ?k) (?k @ ?v @ p) = ?k" by simp
    have step: "binary_seek c target i left right =
        (if Compare c ?k target < 0 then binary_seek c target i mid right else binary_seek c target i left (mid - 1))"
      by (subst binary_seek.simps)
         (simp only: True if_True Let_def mid_def [symmetric] g d option.case prod.case u
            simp_thms if_False t)
    show ?thesis
    proof (cases "Compare c ?k target < 0")
      case True
      then show ?thesis using step less.hyps [of right mid] mid less.prems by simp
    next
      case False
      then show ?thesis using step less.hyps [of "mid - 1" left] mid less.prems by simp
    qed
  next
    case False
    then show ?thesis using less.prems by (subst binary_seek.simps) auto
  qed
qed

text \<open>The restart point a step backwards starts from: one that lies before the current entry.\<close>

lemma restart_before_result:
  assumes ok: "block_ok interval kvs" and base: "bi_base interval kvs i"
  shows "index < restart_count interval (length kvs) \<Longrightarrow>
    (if n = 0 then restart_before i (entry_off interval kvs n) index = None
     else \<exists>m. restart_before i (entry_off interval kvs n) index = Some m \<and> m * interval < n \<and>
              m < restart_count interval (length kvs))"
proof (induction index)
  case 0
  then have "GetRestartPoint i 0 = 0" using GetRestartPoint_eq [OF ok base 0] by simp
  then show ?case
    using 0 entry_off_less_iff [of interval kvs 0 n] by (auto simp: restart_before.simps [of i _ 0])
next
  case (Suc index)
  have g: "GetRestartPoint i (Suc index) = entry_off interval kvs (Suc index * interval)"
    by (rule GetRestartPoint_eq [OF ok base Suc.prems])
  show ?case
  proof (cases "n \<le> Suc index * interval")
    case True
    then have e: "restart_before i (entry_off interval kvs n) (Suc index) = restart_before i (entry_off interval kvs n) index"
      using g entry_off_le_iff [of interval kvs n "Suc index * interval"] by (subst restart_before.simps) simp
    show ?thesis unfolding e using Suc by simp
  next
    case False
    then show ?thesis
      using g Suc.prems entry_off_le_iff [of interval kvs n "Suc index * interval"]
      by (subst restart_before.simps) simp
  qed
qed

section \<open>The contract\<close>

text \<open>The position, with what the code relies on: a block within its bounds and keys in order.\<close>

definition block_pos :: "Comparator \<Rightarrow> nat \<Rightarrow> kv list \<Rightarrow> BlockIter \<Rightarrow> nat \<Rightarrow> bool" where
  "block_pos c interval kvs i n \<longleftrightarrow>
     three_way (Compare c) \<and> ascending (Compare c) kvs \<and> block_ok interval kvs \<and> bi_at interval kvs i n"

lemma bi_at_base: "bi_at interval kvs i n \<Longrightarrow> bi_base interval kvs i"
  by (simp add: bi_at_def)

lemma BlockIter_SeekToFirst_at:
  assumes "block_ok interval kvs" "bi_base interval kvs i"
  shows "bi_at interval kvs (BlockIter_SeekToFirst i) 0"
proof -
  have r: "bi_ready interval kvs (SeekToRestartPoint 0 i) 0"
    using SeekToRestartPoint_ready [OF assms restart_count_pos] by simp
  show ?thesis
  proof (cases "kvs = []")
    case True
    then have "bi_ready interval kvs (SeekToRestartPoint 0 i) (length kvs)" using r by simp
    then obtain i' where "ParseNextKey (SeekToRestartPoint 0 i) = (False, i')" "bi_at interval kvs i' (length kvs)"
      using ParseNextKey_end by blast
    then show ?thesis using True by (simp add: BlockIter_SeekToFirst_def)
  next
    case False
    then show ?thesis using ParseNextKey_at [OF assms(1) r] by (auto simp: BlockIter_SeekToFirst_def)
  qed
qed

lemma BlockIter_SeekToLast_at:
  assumes "block_ok interval kvs" "bi_base interval kvs i"
  shows "bi_at interval kvs (BlockIter_SeekToLast i) (length kvs - 1)"
proof -
  let ?m = "restart_count interval (length kvs) - 1"
  have r: "bi_ready interval kvs (SeekToRestartPoint ?m i) (?m * interval)"
    by (rule SeekToRestartPoint_ready [OF assms]) simp
  have e: "BlockIter_SeekToLast i = parse_until (entry_off interval kvs (length kvs)) (SeekToRestartPoint ?m i)"
    using assms(2) by (simp add: BlockIter_SeekToLast_def bi_base_def)
  show ?thesis
  proof (cases "kvs = []")
    case True
    then show ?thesis using parse_until_end [of interval kvs] r e by (simp add: restart_count_def)
  next
    case False
    then have "?m * interval < length kvs" using restart_index_less [of ?m interval "length kvs"] by simp
    then show ?thesis unfolding e using parse_until_at [OF assms(1) r] by simp
  qed
qed

lemma BlockIter_Seek_at:
  assumes "block_ok interval kvs" "bi_base interval kvs i" "three_way (Compare c)" "ascending (Compare c) kvs"
  shows "bi_at interval kvs (BlockIter_Seek c target i) (lower_bound (Compare c) target kvs)"
proof -
  obtain l where l: "binary_seek c target i 0 (bi_num_restarts i - 1) = Some l" "l < restart_count interval (length kvs)"
    "l = 0 \<or> Compare c (fst (kvs ! (l * interval))) target < 0"
    using binary_seek_result [OF assms(1,2), of "bi_num_restarts i - 1" 0] assms(2) by (auto simp: bi_base_def)
  have "Compare c (fst (kvs ! j)) target < 0" if "j < l * interval" for j
  proof -
    have l0: "l \<noteq> 0" using that by (cases l) auto
    then have "0 < length kvs" using l(2) by (auto simp: restart_count_def split: if_splits)
    then have "Compare c (fst (kvs ! j)) (fst (kvs ! (l * interval))) < 0"
      using ascending_nth [OF assms(4) that] restart_index_less [OF l(2)] by simp
    then show ?thesis
      using three_way.cmp_less_trans [OF assms(3)] l(3) l0 by blast
  qed
  then have "bi_at interval kvs (linear_seek c target (SeekToRestartPoint l i)) (lower_bound (Compare c) target kvs)"
    by (rule linear_seek_at [OF assms(1) SeekToRestartPoint_ready [OF assms(1,2) l(2)]])
  then show ?thesis unfolding BlockIter_Seek_def l(1) option.case .
qed

lemma BlockIter_Next_at:
  assumes "block_ok interval kvs" "bi_at interval kvs i n" "n < length kvs"
  shows "bi_at interval kvs (BlockIter_Next i) (Suc n)"
proof -
  have r: "bi_ready interval kvs i (Suc n)" using bi_at_ready assms by blast
  show ?thesis
  proof (cases "Suc n = length kvs")
    case True
    then show ?thesis using ParseNextKey_end [of interval kvs i] r by (auto simp: BlockIter_Next_def)
  next
    case False
    then show ?thesis using ParseNextKey_at [OF assms(1) r] assms(3) by (auto simp: BlockIter_Next_def)
  qed
qed

lemma BlockIter_Prev_at:
  assumes "block_ok interval kvs" "bi_at interval kvs i n" "n < length kvs"
  shows "bi_at interval kvs (BlockIter_Prev i) (if n = 0 then length kvs else n - 1)"
proof -
  have i: "bi_base interval kvs i" "bi_current i = entry_off interval kvs n"
    "bi_restart_index i < restart_count interval (length kvs)"
    using assms by (simp_all add: bi_at_def)
  note b = restart_before_result [OF assms(1) i(1) i(3), of n]
  show ?thesis
  proof (cases "n = 0")
    case True
    then show ?thesis
      using b i(1,2) by (simp add: BlockIter_Prev_def bi_at_def) (simp add: bi_base_def)
  next
    case False
    then obtain m where m: "restart_before i (entry_off interval kvs n) (bi_restart_index i) = Some m"
      "m * interval < n" "m < restart_count interval (length kvs)" using b by auto
    have "bi_at interval kvs (parse_until (entry_off interval kvs n) (SeekToRestartPoint m i)) (n - 1)"
      by (rule parse_until_at [OF assms(1) SeekToRestartPoint_ready [OF assms(1) i(1) m(3)] m(2)]) (use assms(3) in simp)
    then show ?thesis using False m(1) i(2) by (simp add: BlockIter_Prev_def)
  qed
qed

interpretation block_iterator: ordered_iterator "BlockIterator c" "Compare c" kvs "block_pos c interval kvs"
  for c interval kvs
proof unfold_locales
  fix i n target
  assume p: "block_pos c interval kvs i n"
  then have ok: "block_ok interval kvs" and at: "bi_at interval kvs i n" and base: "bi_base interval kvs i"
    and cmp: "three_way (Compare c)" "ascending (Compare c) kvs"
    by (simp_all add: block_pos_def bi_at_def)
  show "n \<le> length kvs" using at by (simp add: bi_at_def)
  show "it_Valid (BlockIterator c) i = (n < length kvs)"
    using at by (simp add: BlockIterator_def BlockIter_Valid_def bi_at_def bi_base_def entry_off_less_iff)
  show "it_status (BlockIterator c) i = Status_OK" using base by (simp add: BlockIterator_def bi_base_def)
  show "\<exists>i'. it_SeekToFirst (BlockIterator c) i = Some i' \<and> block_pos c interval kvs i' 0"
    using BlockIter_SeekToFirst_at [OF ok base] ok cmp by (simp add: BlockIterator_def block_pos_def)
  show "\<exists>i'. it_SeekToLast (BlockIterator c) i = Some i' \<and> block_pos c interval kvs i' (length kvs - 1)"
    using BlockIter_SeekToLast_at [OF ok base] ok cmp by (simp add: BlockIterator_def block_pos_def)
  show "\<exists>i'. it_Seek (BlockIterator c) target i = Some i' \<and>
      block_pos c interval kvs i' (lower_bound (Compare c) target kvs)"
    using BlockIter_Seek_at [OF ok base cmp] ok cmp by (simp add: BlockIterator_def block_pos_def)
  assume n: "n < length kvs"
  show "it_key (BlockIterator c) i = fst (kvs ! n)" using at n by (simp add: BlockIterator_def bi_at_def)
  show "it_value (BlockIterator c) i = snd (kvs ! n)"
    using value_of_bi_at [OF at n] by (simp add: BlockIterator_def)
  show "\<exists>i'. it_Next (BlockIterator c) i = Some i' \<and> block_pos c interval kvs i' (Suc n)"
    using BlockIter_Next_at [OF ok at n] ok cmp by (simp add: BlockIterator_def block_pos_def)
  show "\<exists>i'. it_Prev (BlockIterator c) i = Some i' \<and>
      block_pos c interval kvs i' (if n = 0 then length kvs else n - 1)"
    using BlockIter_Prev_at [OF ok at n] ok cmp by (simp add: BlockIterator_def block_pos_def)
qed

text \<open>The block that is opened on the bytes the builder made.\<close>

lemma Block_make_block_bytes:
  assumes "block_ok interval kvs"
  shows "Block_NewIterator (Block_make (block_bytes interval kvs)) =
    Inr (BlockIter_make (block_bytes interval kvs) (entry_off interval kvs (length kvs))
           (restart_count interval (length kvs)))"
proof -
  let ?b = "block_bytes interval kvs" and ?r = "restart_count interval (length kvs)"
  have l: "length ?b = entry_off interval kvs (length kvs) + 4 * ?r + 4" by (rule length_block_bytes)
  have "drop (length ?b - 4) ?b = EncodeFixed32 (of_nat ?r)"
    by (simp add: block_bytes_def)
  then have "NumRestarts ?b (length ?b) = ?r"
    using block_ok_bounds(2) [OF assms] by (simp add: NumRestarts_def unat_of_nat_u32)
  moreover from this have "\<not> NumRestarts ?b (length ?b) > (length ?b - 4) div 4" unfolding l by simp
  ultimately show ?thesis
    using l restart_count_pos [of interval "length kvs"]
    by (simp add: Block_make_def Block_NewIterator_def Let_def)
qed

lemma block_pos_make:
  assumes "three_way (Compare c)" "ascending (Compare c) kvs" "block_ok interval kvs"
  shows "block_pos c interval kvs (BlockIter_make (block_bytes interval kvs) (entry_off interval kvs (length kvs))
           (restart_count interval (length kvs))) (length kvs)"
  using assms by (simp add: block_pos_def bi_at_def bi_base_def BlockIter_make_def)

section \<open>Blocks round trip\<close>

text \<open>Building a block from a list of pairs.\<close>

definition build_block :: "nat \<Rightarrow> kv list \<Rightarrow> BlockBuilder" where
  "build_block interval kvs = foldl (\<lambda>b (k, v). BlockBuilder_Add interval k v b) BlockBuilder_make kvs"

lemma built_build_block: "1 \<le> interval \<Longrightarrow> built interval kvs (build_block interval kvs)"
  using built_all [OF _ built_make, of interval kvs] by (simp add: build_block_def)

text \<open>
  C30.  Pairs with strictly ascending keys that are added to a block builder, whatever
  the restart interval, come back: the iterator over the finished block, opened on its bytes, gives
  exactly the pairs in order when it runs forward from the first, in reverse order when it runs back
  from the last, and after a seek what is at or past the target; every move returns.  The builder's
  estimate is the size of the block.
\<close>

theorem block_roundtrip:
  assumes "three_way (Compare c)" "ascending (Compare c) kvs" "1 \<le> interval"
    and "BlockBuilder_CurrentSizeEstimate (build_block interval kvs) < 2 ^ 32"
  defines "contents \<equiv> fst (BlockBuilder_Finish (build_block interval kvs))"
  shows "length contents = BlockBuilder_CurrentSizeEstimate (build_block interval kvs) \<and>
    (\<exists>i. Block_NewIterator (Block_make contents) = Inr i \<and>
      (\<exists>i'. it_SeekToFirst (BlockIterator c) i = Some i' \<and>
            scan (length kvs) (BlockIterator c) i' = Some kvs) \<and>
      (kvs \<noteq> [] \<longrightarrow> (\<exists>i'. it_SeekToLast (BlockIterator c) i = Some i' \<and>
            scan_back (length kvs) (BlockIterator c) i' = Some (rev kvs))) \<and>
      (\<forall>target. \<exists>i'. it_Seek (BlockIterator c) target i = Some i' \<and>
            scan (length kvs) (BlockIterator c) i' =
              Some (dropWhile (\<lambda>kv. Compare c (fst kv) target < 0) kvs)))"
proof (rule conjI)
  note b = built_build_block [OF assms(3), of kvs]
  have contents: "contents = block_bytes interval kvs" unfolding contents_def by (rule built_Finish [OF b])
  then show "length contents = BlockBuilder_CurrentSizeEstimate (build_block interval kvs)"
    by (simp add: built_size_estimate [OF b])
  have ok: "block_ok interval kvs" using assms(3,4) by (simp add: block_ok_def built_size_estimate [OF b])
  define i where "i = BlockIter_make (block_bytes interval kvs) (entry_off interval kvs (length kvs))
           (restart_count interval (length kvs))"
  have i: "block_pos c interval kvs i (length kvs)" unfolding i_def by (rule block_pos_make [OF assms(1,2) ok])
  show "\<exists>i. Block_NewIterator (Block_make contents) = Inr i \<and>
      (\<exists>i'. it_SeekToFirst (BlockIterator c) i = Some i' \<and>
            scan (length kvs) (BlockIterator c) i' = Some kvs) \<and>
      (kvs \<noteq> [] \<longrightarrow> (\<exists>i'. it_SeekToLast (BlockIterator c) i = Some i' \<and>
            scan_back (length kvs) (BlockIterator c) i' = Some (rev kvs))) \<and>
      (\<forall>target. \<exists>i'. it_Seek (BlockIterator c) target i = Some i' \<and>
            scan (length kvs) (BlockIterator c) i' =
              Some (dropWhile (\<lambda>kv. Compare c (fst kv) target < 0) kvs))"
  proof (rule exI [of _ i], intro conjI allI impI)
    show "Block_NewIterator (Block_make contents) = Inr i"
      unfolding contents i_def by (rule Block_make_block_bytes [OF ok])
    show "\<exists>i'. it_SeekToFirst (BlockIterator c) i = Some i' \<and> scan (length kvs) (BlockIterator c) i' = Some kvs"
      by (rule block_iterator.scan_all [OF i])
    show "\<exists>i'. it_SeekToLast (BlockIterator c) i = Some i' \<and>
        scan_back (length kvs) (BlockIterator c) i' = Some (rev kvs)" if "kvs \<noteq> []"
      by (rule block_iterator.scan_back_all [OF i that])
    show "\<exists>i'. it_Seek (BlockIterator c) target i = Some i' \<and> scan (length kvs) (BlockIterator c) i' =
        Some (dropWhile (\<lambda>kv. Compare c (fst kv) target < 0) kvs)" for target
      by (rule block_iterator.seek_scan [OF i])
  qed
qed

theorem block_roundtrip_witness:
  "let kvs = [([1, 2], [7]), ([1, 2, 3], []), ([1, 4], [8, 9])] :: kv list;
       contents = fst (BlockBuilder_Finish (build_block 2 kvs)); c = BytewiseComparator
   in length contents = BlockBuilder_CurrentSizeEstimate (build_block 2 kvs) \<and>
      (\<exists>i. Block_NewIterator (Block_make contents) = Inr i \<and>
        (\<exists>i'. it_Seek (BlockIterator c) [1, 3] i = Some i' \<and>
              scan 3 (BlockIterator c) i' = Some [([1, 4], [8, 9])]))"
proof -
  let ?kvs = "[([1, 2], [7]), ([1, 2, 3], []), ([1, 4], [8, 9])] :: kv list"
  have a: "ascending (Compare BytewiseComparator) ?kvs" by code_simp
  have "BlockBuilder_CurrentSizeEstimate (build_block 2 ?kvs) = 29" by code_simp
  then have s: "BlockBuilder_CurrentSizeEstimate (build_block 2 ?kvs) < 2 ^ 32" by simp
  have d: "dropWhile (\<lambda>kv. Compare BytewiseComparator (fst kv) [1, 3] < 0) ?kvs = [([1, 4], [8, 9])]" by code_simp
  have n: "(1::nat) \<le> 2" "length ?kvs = 3" by simp_all
  note rt = block_roundtrip [OF bytewise.three_way_axioms a n(1) s, unfolded n(2)]
  from conjunct2 [OF rt] obtain i where i: "Block_NewIterator (Block_make (fst (BlockBuilder_Finish (build_block 2 ?kvs)))) = Inr i"
    and s: "\<forall>target. \<exists>i'. it_Seek (BlockIterator BytewiseComparator) target i = Some i' \<and>
       scan 3 (BlockIterator BytewiseComparator) i' =
         Some (dropWhile (\<lambda>kv. Compare BytewiseComparator (fst kv) target < 0) ?kvs)"
    by (elim exE conjE)
  show ?thesis
    unfolding Let_def by (rule conjI [OF conjunct1 [OF rt]], rule exI [of _ i], rule conjI [OF i]) (rule s [THEN spec, of "[1, 3]", unfolded d])
qed

section \<open>Blocks that are not what a builder made\<close>

text \<open>
  A decoded entry lies within the bytes it was decoded from unless its two lengths
  together reach \<open>2 ^ 32\<close>; the test adds them in 32 bits, so that such an entry passes it.
\<close>

theorem entry_bounds:
  assumes "DecodeEntry p = Some (shared, non_shared, value_length, q)" "length p < 2 ^ 32"
  shows "length q + 3 \<le> length p \<and>
    (unat non_shared + unat value_length \<le> length q \<or> 2 ^ 32 \<le> unat non_shared + unat value_length)"
proof -
  have le: "non_shared + value_length \<le> of_nat (length q)"
    using assms(1) by (auto simp: DecodeEntry_eq not_less split: if_splits option.splits)
  note s = DecodeEntry_shorter [OF assms(1)]
  then have l: "length q < 2 ^ 32" using assms(2) by linarith
  have "unat (non_shared + value_length) = unat non_shared + unat value_length"
    if "unat non_shared + unat value_length < 2 ^ 32"
    using that by (simp add: unat_plus_if')
  then show ?thesis using s le l by (auto simp: word_le_nat_alt unat_of_nat_u32)
qed

theorem entry_bounds_witness:
  "DecodeEntry [0, 255, 255, 255, 255, 15, 1, 42] = Some (0, 2 ^ 32 - 1, 1, [42]) \<and>
   (2::nat) ^ 32 \<le> unat (2 ^ 32 - 1 :: u32) + unat (1 :: u32)"
proof -
  have d: "DecodeEntry [0, 255, 255, 255, 255, 15, 1, 42] = Some (0, 2 ^ 32 - 1, 1, [42])" by code_simp
  have "\<not> unat (2 ^ 32 - 1 :: u32) + unat (1 :: u32) \<le> length [42 :: byte]" by simp
  then show ?thesis using d entry_bounds [OF d] by simp
qed

text \<open>The moves a client may make: the seeks at any time, the steps on a valid iterator.\<close>

inductive block_reach :: "Comparator \<Rightarrow> BlockIter \<Rightarrow> BlockIter \<Rightarrow> bool" for c i0 where
  start: "block_reach c i0 i0"
| to_first: "block_reach c i0 i \<Longrightarrow> block_reach c i0 (BlockIter_SeekToFirst i)"
| to_last: "block_reach c i0 i \<Longrightarrow> block_reach c i0 (BlockIter_SeekToLast i)"
| to_target: "block_reach c i0 i \<Longrightarrow> block_reach c i0 (BlockIter_Seek c target i)"
| forward: "block_reach c i0 i \<Longrightarrow> BlockIter_Valid i \<Longrightarrow> block_reach c i0 (BlockIter_Next i)"
| backward: "block_reach c i0 i \<Longrightarrow> BlockIter_Valid i \<Longrightarrow> block_reach c i0 (BlockIter_Prev i)"

definition bi_inv :: "BlockIter \<Rightarrow> BlockIter \<Rightarrow> bool" where
  "bi_inv i0 i \<longleftrightarrow>
     bi_data i = bi_data i0 \<and> bi_restarts i = bi_restarts i0 \<and> bi_num_restarts i = bi_num_restarts i0 \<and>
     0 < bi_num_restarts i \<and> bi_current i \<le> bi_restarts i \<and>
     (BlockIter_Valid i \<longrightarrow> bi_restart_index i < bi_num_restarts i) \<and>
     bi_status i \<in> {Status_OK, Status_Corruption (lit ''bad entry in block'') []}"

text \<open>What a parse needs: any state of the block whose restart index is one of the array.\<close>

definition bi_parse :: "BlockIter \<Rightarrow> BlockIter \<Rightarrow> bool" where
  "bi_parse i0 i \<longleftrightarrow>
     bi_data i = bi_data i0 \<and> bi_restarts i = bi_restarts i0 \<and> bi_num_restarts i = bi_num_restarts i0 \<and>
     bi_restart_index i < bi_num_restarts i \<and>
     bi_status i \<in> {Status_OK, Status_Corruption (lit ''bad entry in block'') []}"

lemma advance_restart_index_bound:
  "index < n \<Longrightarrow> bi_num_restarts i = n \<Longrightarrow> advance_restart_index i index < n"
  using advance_restart_index_less by blast

lemma ParseNextKey_inv:
  assumes "bi_parse i0 i" "ParseNextKey i = (b, i')"
  shows "bi_inv i0 i'" "b \<Longrightarrow> bi_parse i0 i'"
  using assms
  by (auto intro!: advance_restart_index_bound simp: ParseNextKey_def Let_def bi_inv_def bi_parse_def BlockIter_Valid_def CorruptionError_def
      split: if_splits option.splits)

lemma SeekToRestartPoint_parse:
  "bi_inv i0 i \<Longrightarrow> m < bi_num_restarts i \<Longrightarrow> bi_parse i0 (SeekToRestartPoint m i)"
  by (simp add: bi_inv_def bi_parse_def SeekToRestartPoint_def)

lemma parse_until_inv: "bi_parse i0 i \<Longrightarrow> bi_inv i0 (parse_until limit i)"
proof (induction limit i rule: parse_until.induct)
  case (1 limit i)
  obtain b i' where p: "ParseNextKey i = (b, i')" by fastforce
  show ?case
    using ParseNextKey_inv [OF 1(2) p] 1(1) [OF p [symmetric]] p by (subst parse_until.simps) auto
qed

lemma linear_seek_inv: "bi_parse i0 i \<Longrightarrow> bi_inv i0 (linear_seek c target i)"
proof (induction c target i rule: linear_seek.induct)
  case (1 c target i)
  obtain b i' where p: "ParseNextKey i = (b, i')" by fastforce
  show ?case
    using ParseNextKey_inv [OF 1(2) p] 1(1) [OF p [symmetric]] p by (subst linear_seek.simps) auto
qed

lemma binary_seek_less:
  "binary_seek c target i left right = Some l \<Longrightarrow> left < n \<Longrightarrow> right < n \<Longrightarrow> l < n"
proof (induction c target i left right rule: binary_seek.induct)
  case (1 c target i left right)
  show ?case
    using 1(3) 
    apply (subst (asm) binary_seek.simps)
    using 1(1,2,4,5)
    by (fastforce simp: Let_def split: if_splits option.splits)
qed

lemma restart_before_le: "restart_before i original index = Some m \<Longrightarrow> m \<le> index"
proof (induction i original index rule: restart_before.induct)
  case (1 i original index)
  then show ?case by (subst (asm) restart_before.simps) (fastforce split: if_splits)
qed

lemma block_reach_inv: "block_reach c i0 i \<Longrightarrow> bi_inv i0 i0 \<Longrightarrow> bi_inv i0 i"
proof (induction rule: block_reach.induct)
  case (to_first i)
  then have "bi_parse i0 (SeekToRestartPoint 0 i)"
    by (intro SeekToRestartPoint_parse) (auto simp: bi_inv_def)
  then show ?case
    unfolding BlockIter_SeekToFirst_def by (rule ParseNextKey_inv(1)) (rule prod.collapse [symmetric])
next
  case (to_last i)
  then show ?case
    unfolding BlockIter_SeekToLast_def
    by (intro parse_until_inv SeekToRestartPoint_parse) (auto simp: bi_inv_def)
next
  case (to_target i target)
  show ?case
  proof (cases "binary_seek c target i 0 (bi_num_restarts i - 1)")
    case None
    then show ?thesis
      using to_target by (simp add: BlockIter_Seek_def CorruptionError_def bi_inv_def BlockIter_Valid_def)
  next
    case (Some l)
    then have "l < bi_num_restarts i" using to_target binary_seek_less by (fastforce simp: bi_inv_def)
    then show ?thesis
      using Some to_target by (simp add: BlockIter_Seek_def linear_seek_inv SeekToRestartPoint_parse)
  qed
next
  case (forward i)
  then have "bi_parse i0 i" by (simp add: bi_inv_def bi_parse_def)
  then show ?case
    unfolding BlockIter_Next_def by (rule ParseNextKey_inv(1)) (rule prod.collapse [symmetric])
next
  case (backward i)
  then have i: "bi_inv i0 i" "bi_restart_index i < bi_num_restarts i" by (simp_all add: bi_inv_def)
  show ?case
  proof (cases "restart_before i (bi_current i) (bi_restart_index i)")
    case None
    then show ?thesis using i by (simp add: BlockIter_Prev_def bi_inv_def BlockIter_Valid_def)
  next
    case (Some m)
    then show ?thesis
      using i restart_before_le [OF Some]
      by (simp add: BlockIter_Prev_def parse_until_inv SeekToRestartPoint_parse)
  qed
qed simp



end
