(* ===== verification/Format.thy ===== *)
theory Format
  imports Env_Files Crc32c
begin

unbundle bit_operations_syntax

text \<open>
  \<^verbatim>\<open>table/format.cc\<close>: handles of blocks, the footer of a table file, and reading a block with its
  trailer; the random-access files of \<^verbatim>\<open>util/env_posix.cc\<close> they read from; and the compression calls of
  \<^verbatim>\<open>port/port_stdcxx.h\<close>.  An access outside of a buffer is the value \<open>None\<close>.
\<close>

section \<open>Random-access files\<close>

text \<open>
  A read at an offset gives a status, the bytes, and whether they are in the caller's scratch space.
  Instances are immutable: what the kernel gives for a read is a function of the file.
\<close>

type_synonym raf = "u64 \<Rightarrow> u64 \<Rightarrow> (Status \<times> bytes \<times> bool) option"

record PosixRandomAccessFile =
  pr_filename :: bytes
  pr_has_permanent_fd :: bool
  pr_data :: bytes
  pr_open_error :: "(bool \<times> bytes) option"
  pr_outcome :: "u64 \<Rightarrow> u64 \<Rightarrow> outcome"

text \<open>\<^verbatim>\<open>pread\<close>; the offset is signed.\<close>

definition sys_pread :: "PosixRandomAccessFile \<Rightarrow> u64 \<Rightarrow> u64 \<Rightarrow> sys_result" where
  "sys_pread f offset n =
     (if 2 ^ 63 \<le> offset then Errno False (lit ''Invalid argument'')
      else case pr_outcome f offset n of
             Done k \<Rightarrow> Transferred (take (min k (unat n)) (drop (unat offset) (pr_data f)))
           | Interrupted \<Rightarrow> EINTR
           | Failed e msg \<Rightarrow> Errno e msg)"

definition PosixRandomAccessFile_Read :: "PosixRandomAccessFile \<Rightarrow> raf" where
  "PosixRandomAccessFile_Read f offset n =
     (case (if pr_has_permanent_fd f then None else pr_open_error f) of
        Some (e, msg) \<Rightarrow> Some (PosixError (pr_filename f) e msg, [], False)
      | None \<Rightarrow>
          (case sys_pread f offset n of
             Transferred bs \<Rightarrow> Some (Status_OK, bs, True)
           | EINTR \<Rightarrow> Some (PosixError (pr_filename f) False (lit ''Interrupted system call''), [], True)
           | Errno e msg \<Rightarrow> Some (PosixError (pr_filename f) e msg, [], True)))"

record PosixMmapReadableFile =
  pm_filename :: bytes
  pm_data :: bytes

text \<open>The test of the range adds in 64 bits; if the sum wraps, the slice is not within the mapping.\<close>

definition PosixMmapReadableFile_Read :: "PosixMmapReadableFile \<Rightarrow> raf" where
  "PosixMmapReadableFile_Read f offset n =
     (if offset + n > of_nat (length (pm_data f))
      then Some (PosixError (pm_filename f) False (lit ''Invalid argument''), [], False)
      else if unat offset + unat n > length (pm_data f) then None
      else Some (Status_OK, take (unat n) (drop (unat offset) (pm_data f)), False))"

text \<open>What a reader of tables relies on: reads within the file succeed.\<close>

locale random_file =
  fixes rd :: "'f \<Rightarrow> raf" and contents :: "'f \<Rightarrow> bytes" and ok :: "'f \<Rightarrow> bool"
  assumes read_within: "ok f \<Longrightarrow> unat offset + unat n \<le> length (contents f) \<Longrightarrow>
      \<exists>b. rd f offset n = Some (Status_OK, take (unat n) (drop (unat offset) (contents f)), b)"

definition pr_ok :: "PosixRandomAccessFile \<Rightarrow> bool" where
  "pr_ok f \<longleftrightarrow> length (pr_data f) < 2 ^ 63 \<and> (pr_has_permanent_fd f \<or> pr_open_error f = None) \<and>
     (\<forall>offset n. unat offset + unat n \<le> length (pr_data f) \<longrightarrow> (\<exists>k\<ge>unat n. pr_outcome f offset n = Done k))"

interpretation posix_random: random_file PosixRandomAccessFile_Read pr_data pr_ok
proof
  fix f and offset n :: u64
  assume f: "pr_ok f" and le: "unat offset + unat n \<le> length (pr_data f)"
  then have "unat offset < 2 ^ 63" by (simp add: pr_ok_def)
  then have "\<not> (2 ^ 63 :: u64) \<le> offset" by (simp add: word_le_nat_alt)
  moreover obtain k where "pr_outcome f offset n = Done k" "unat n \<le> k" using f le by (auto simp: pr_ok_def)
  ultimately show "\<exists>b. PosixRandomAccessFile_Read f offset n =
      Some (Status_OK, take (unat n) (drop (unat offset) (pr_data f)), b)"
    using f by (auto simp: PosixRandomAccessFile_Read_def sys_pread_def pr_ok_def min_absorb2)
qed

interpretation posix_mmap: random_file PosixMmapReadableFile_Read pm_data "\<lambda>f. length (pm_data f) < 2 ^ 64"
proof
  fix f :: PosixMmapReadableFile and offset n :: u64
  assume f: "length (pm_data f) < 2 ^ 64" and le: "unat offset + unat n \<le> length (pm_data f)"
  then have "unat (offset + n) = unat offset + unat n" by (simp add: unat_plus_if')
  then have "\<not> offset + n > of_nat (length (pm_data f))"
    using f le by (simp add: word_less_nat_alt unat_of_nat not_less)
  then show "\<exists>b. PosixMmapReadableFile_Read f offset n =
      Some (Status_OK, take (unat n) (drop (unat offset) (pm_data f)), b)"
    using le by (auto simp: PosixMmapReadableFile_Read_def)
qed

section \<open>Compression\<close>

text \<open>The three calls to the compression library, which can be absent.\<close>

record Snappy =
  Snappy_Compress :: "bytes \<Rightarrow> bytes option"
  Snappy_GetUncompressedLength :: "bytes \<Rightarrow> nat option"
  Snappy_Uncompress :: "bytes \<Rightarrow> bytes option"

definition no_snappy :: Snappy where
  "no_snappy = \<lparr>Snappy_Compress = \<lambda>_. None, Snappy_GetUncompressedLength = \<lambda>_. None, Snappy_Uncompress = \<lambda>_. None\<rparr>"

locale compression =
  fixes sn :: Snappy
  assumes uncompress: "Snappy_Compress sn raw = Some c \<Longrightarrow>
      Snappy_GetUncompressedLength sn c = Some (length raw) \<and> Snappy_Uncompress sn c = Some raw"

interpretation no_snappy: compression no_snappy
  by unfold_locales (simp add: no_snappy_def)

datatype CompressionType = kNoCompression | kSnappyCompression

primrec CompressionType_value :: "CompressionType \<Rightarrow> byte" where
  "CompressionType_value kNoCompression = 0"
| "CompressionType_value kSnappyCompression = 1"

section \<open>Block handles\<close>

record BlockHandle =
  bh_offset :: u64
  bh_size :: u64

definition BlockHandle_make :: BlockHandle where
  "BlockHandle_make = \<lparr>bh_offset = NOT 0, bh_size = NOT 0\<rparr>"

definition BlockHandle_EncodeTo :: "BlockHandle \<Rightarrow> bytes \<Rightarrow> bytes" where
  "BlockHandle_EncodeTo h dst = PutVarint64 (PutVarint64 dst (bh_offset h)) (bh_size h)"

text \<open>The handle is overwritten as far as the input could be decoded.\<close>

definition BlockHandle_DecodeFrom :: "bytes \<Rightarrow> BlockHandle \<Rightarrow> Status \<times> BlockHandle \<times> bytes" where
  "BlockHandle_DecodeFrom input h =
     (case GetVarint64 input of
        None \<Rightarrow> (Status_Corruption (lit ''bad block handle'') [], h, input)
      | Some (off, input) \<Rightarrow>
          (let h = h\<lparr>bh_offset := off\<rparr> in
           case GetVarint64 input of
             None \<Rightarrow> (Status_Corruption (lit ''bad block handle'') [], h, input)
           | Some (sz, input) \<Rightarrow> (Status_OK, h\<lparr>bh_size := sz\<rparr>, input)))"

definition kMaxEncodedLength :: nat where
  "kMaxEncodedLength = 10 + 10"

definition encode_handle :: "BlockHandle \<Rightarrow> bytes" where
  "encode_handle h = EncodeVarint64 (bh_offset h) @ EncodeVarint64 (bh_size h)"

lemma BlockHandle_EncodeTo_eq: "BlockHandle_EncodeTo h dst = dst @ encode_handle h"
  by (simp add: BlockHandle_EncodeTo_def encode_handle_def PutVarint64_def)

lemma BlockHandle_DecodeFrom_encode [simp]:
  "BlockHandle_DecodeFrom (encode_handle h @ rest) h0 = (Status_OK, h, rest)"
  by (simp add: BlockHandle_DecodeFrom_def encode_handle_def)

lemma BlockHandle_DecodeFrom_encode_only [simp]:
  "BlockHandle_DecodeFrom (encode_handle h) h0 = (Status_OK, h, [])"
  using BlockHandle_DecodeFrom_encode [of h "[]"] by simp

lemma length_EncodeVarint64_le: "length (EncodeVarint64 v) \<le> 10"
  using GetVarint64_consumes [of "EncodeVarint64 v" v "[]"] GetVarint64_EncodeVarint64 [of v "[]"] by auto

lemma length_encode_handle: "length (encode_handle h) \<le> kMaxEncodedLength"
  using length_EncodeVarint64_le [of "bh_offset h"] length_EncodeVarint64_le [of "bh_size h"]
  by (simp add: encode_handle_def kMaxEncodedLength_def)

lemma encode_handle_inject: "encode_handle h = encode_handle h' \<longleftrightarrow> h = h'"
  by (metis BlockHandle_DecodeFrom_encode_only prod.inject)

section \<open>The footer\<close>

record Footer =
  ft_metaindex_handle :: BlockHandle
  ft_index_handle :: BlockHandle

definition kEncodedLength :: nat where
  "kEncodedLength = 2 * kMaxEncodedLength + 8"

definition kTableMagicNumber :: u64 where
  "kTableMagicNumber = 0xdb4775248b80fb57"

text \<open>\<^verbatim>\<open>std::string::resize\<close>.\<close>

definition resize :: "nat \<Rightarrow> bytes \<Rightarrow> bytes" where
  "resize n s = take n s @ replicate (n - length s) 0"

definition Footer_EncodeTo :: "Footer \<Rightarrow> bytes \<Rightarrow> bytes" where
  "Footer_EncodeTo f dst =
     (let dst = BlockHandle_EncodeTo (ft_metaindex_handle f) dst;
          dst = BlockHandle_EncodeTo (ft_index_handle f) dst;
          dst = resize (2 * kMaxEncodedLength) dst;
          dst = PutFixed32 dst (ucast (kTableMagicNumber AND 0xffffffff))
      in PutFixed32 dst (ucast (drop_bit 32 kTableMagicNumber)))"

text \<open>The input has at least \<^verbatim>\<open>kEncodedLength\<close> bytes.\<close>

definition Footer_DecodeFrom :: "bytes \<Rightarrow> Footer \<Rightarrow> Status \<times> Footer \<times> bytes" where
  "Footer_DecodeFrom input f =
     (let magic_ptr = drop (kEncodedLength - 8) input;
          magic_lo = DecodeFixed32 magic_ptr;
          magic_hi = DecodeFixed32 (drop 4 magic_ptr);
          magic = push_bit 32 (ucast magic_hi) OR ucast magic_lo :: u64
      in if magic \<noteq> kTableMagicNumber
         then (Status_Corruption (lit ''not an sstable (bad magic number)'') [], f, input)
         else
           (let (result, h, input') = BlockHandle_DecodeFrom input (ft_metaindex_handle f);
                f = f\<lparr>ft_metaindex_handle := h\<rparr>
            in if \<not> Status_ok result then (result, f, input')
               else
                 (let (result, h, input') = BlockHandle_DecodeFrom input' (ft_index_handle f);
                      f = f\<lparr>ft_index_handle := h\<rparr>
                  in if \<not> Status_ok result then (result, f, input')
                     else (result, f, drop 8 magic_ptr))))"

definition encode_footer :: "Footer \<Rightarrow> bytes" where
  "encode_footer f = Footer_EncodeTo f []"

lemma encode_footer_eq:
  "encode_footer f =
     encode_handle (ft_metaindex_handle f) @ encode_handle (ft_index_handle f) @
     replicate (40 - length (encode_handle (ft_metaindex_handle f)) - length (encode_handle (ft_index_handle f))) 0 @
     EncodeFixed32 (ucast (kTableMagicNumber AND 0xffffffff)) @ EncodeFixed32 (ucast (drop_bit 32 kTableMagicNumber))"
  using length_encode_handle [of "ft_metaindex_handle f"] length_encode_handle [of "ft_index_handle f"]
  by (simp add: encode_footer_def Footer_EncodeTo_def BlockHandle_EncodeTo_eq PutFixed32_def resize_def
      kMaxEncodedLength_def Let_def)

lemma length_encode_footer [simp]: "length (encode_footer f) = kEncodedLength"
  using length_encode_handle [of "ft_metaindex_handle f"] length_encode_handle [of "ft_index_handle f"]
  by (simp add: encode_footer_eq kEncodedLength_def kMaxEncodedLength_def)

lemma magic_split:
  "push_bit 32 (ucast (ucast (drop_bit 32 m) :: u32)) OR ucast (ucast (m AND 0xffffffff) :: u32) = m" for m :: u64
proof -
  have "(0xffffffff :: u64) = mask 32" by (simp add: mask_eq_exp_minus_1)
  then have a: "m AND 0xffffffff = take_bit 32 m" by (simp add: take_bit_eq_mask)
  show ?thesis unfolding a by (rule bit_word_eqI) (auto simp: bit_simps)
qed

lemma Footer_DecodeFrom_encode [simp]:
  "Footer_DecodeFrom (encode_footer f @ rest) f0 = (Status_OK, f, rest)"
proof -
  let ?lo = "EncodeFixed32 (ucast (kTableMagicNumber AND 0xffffffff))"
    and ?hi = "EncodeFixed32 (ucast (drop_bit 32 kTableMagicNumber))"
  obtain pad where e: "encode_footer f =
      (encode_handle (ft_metaindex_handle f) @ encode_handle (ft_index_handle f) @ pad) @ ?lo @ ?hi"
    by (simp add: encode_footer_eq)
  define p where "p = encode_handle (ft_metaindex_handle f) @ encode_handle (ft_index_handle f) @ pad"
  have "length p = kEncodedLength - 8"
    using arg_cong [OF e, of length] by (simp add: p_def)
  then have m: "drop (kEncodedLength - 8) (encode_footer f @ rest) = ?lo @ ?hi @ rest"
    unfolding e p_def [symmetric] by simp
  have h: "encode_footer f @ rest =
      encode_handle (ft_metaindex_handle f) @ encode_handle (ft_index_handle f) @ pad @ ?lo @ ?hi @ rest"
    by (simp add: e)
  show ?thesis
    unfolding Footer_DecodeFrom_def Let_def m by (simp add: magic_split h)
qed

section \<open>Reading a block\<close>

definition kBlockTrailerSize :: nat where
  "kBlockTrailerSize = 5"

record BlockContents =
  bc_data :: bytes
  bc_cachable :: bool
  bc_heap_allocated :: bool

definition BlockContents_none :: BlockContents where
  "BlockContents_none = \<lparr>bc_data = [], bc_cachable = False, bc_heap_allocated = False\<rparr>"

definition decode_block :: "Snappy \<Rightarrow> bool \<Rightarrow> bytes \<Rightarrow> nat \<Rightarrow> Status \<times> BlockContents" where
  "decode_block sn in_buf data n =
     (if data ! n = CompressionType_value kNoCompression then
        (Status_OK, \<lparr>bc_data = take n data, bc_cachable = in_buf, bc_heap_allocated = in_buf\<rparr>)
      else if data ! n = CompressionType_value kSnappyCompression then
        (case Snappy_GetUncompressedLength sn (take n data) of
           None \<Rightarrow> (Status_Corruption (lit ''corrupted compressed block contents'') [], BlockContents_none)
         | Some ulength \<Rightarrow>
             (case Snappy_Uncompress sn (take n data) of
                None \<Rightarrow> (Status_Corruption (lit ''corrupted compressed block contents'') [], BlockContents_none)
              | Some ubuf \<Rightarrow>
                  (Status_OK, \<lparr>bc_data = resize ulength ubuf, bc_cachable = True, bc_heap_allocated = True\<rparr>)))
      else (Status_Corruption (lit ''bad block type'') [], BlockContents_none))"

text \<open>
  The size of the buffer is computed in 64 bits.  The file gives what was asked for, or less; after
  that the code reads the trailer behind the \<open>n\<close> bytes of the handle, which are outside of the
  buffer if the sum wrapped.
\<close>

definition ReadBlock :: "Snappy \<Rightarrow> raf \<Rightarrow> bool \<Rightarrow> BlockHandle \<Rightarrow> (Status \<times> BlockContents) option" where
  "ReadBlock sn file verify_checksums handle =
     (let n = bh_size handle in
      case file (bh_offset handle) (n + of_nat kBlockTrailerSize) of
        None \<Rightarrow> None
      | Some (s, contents, in_buf) \<Rightarrow>
          if \<not> Status_ok s then Some (s, BlockContents_none)
          else if length contents \<noteq> unat (n + of_nat kBlockTrailerSize)
          then Some (Status_Corruption (lit ''truncated block read'') [], BlockContents_none)
          else if length contents < unat n + kBlockTrailerSize then None
          else if verify_checksums \<and>
                  crc32c_Value (take (unat n + 1) contents) \<noteq> Unmask (DecodeFixed32 (drop (unat n + 1) contents))
          then Some (Status_Corruption (lit ''block checksum mismatch'') [], BlockContents_none)
          else Some (decode_block sn in_buf contents (unat n)))"

text \<open>A block as it is stored: its contents, the type of compression and the checksum of both.\<close>

definition stored_block :: "bytes \<Rightarrow> CompressionType \<Rightarrow> bytes" where
  "stored_block contents type =
     contents @ [CompressionType_value type] @
     EncodeFixed32 (Mask (crc32c_Value (contents @ [CompressionType_value type])))"

lemma length_stored_block [simp]: "length (stored_block contents type) = length contents + kBlockTrailerSize"
  by (simp add: stored_block_def kBlockTrailerSize_def)

lemma unat_plus_trailer:
  "unat (n :: u64) + kBlockTrailerSize < 2 ^ 64 \<Longrightarrow> unat (n + of_nat kBlockTrailerSize) = unat n + kBlockTrailerSize"
  by (simp add: kBlockTrailerSize_def unat_plus_if')

text \<open>What is stored within a file is read back, with or without the check of the checksum.\<close>

context random_file
begin

lemma ReadBlock_stored:
  assumes "ok f" "contents f = pre @ stored_block block type @ post" "length (contents f) < 2 ^ 64"
  shows "\<exists>b. ReadBlock sn (rd f) verify \<lparr>bh_offset = of_nat (length pre), bh_size = of_nat (length block)\<rparr> =
    Some (decode_block sn b (stored_block block type) (length block))"
proof -
  let ?o = "of_nat (length pre) :: u64" and ?n = "of_nat (length block) :: u64"
  have u: "unat ?o = length pre" "unat ?n = length block"
    using assms(2,3) by (simp_all add: unat_of_nat)
  have n5: "unat (?n + of_nat kBlockTrailerSize) = length block + kBlockTrailerSize"
    using unat_plus_trailer [of ?n] assms(2,3) u(2) by simp
  obtain b where "rd f ?o (?n + of_nat kBlockTrailerSize) =
      Some (Status_OK, take (length block + kBlockTrailerSize) (drop (length pre) (contents f)), b)"
    using read_within [OF assms(1), of ?o "?n + of_nat kBlockTrailerSize"] assms(2) u n5 by auto
  then have r: "rd f ?o (?n + of_nat kBlockTrailerSize) = Some (Status_OK, stored_block block type, b)"
    using assms(2) by simp
  have c: "crc32c_Value (take (length block + 1) (stored_block block type)) =
      Unmask (DecodeFixed32 (drop (length block + 1) (stored_block block type)))"
    by (simp add: stored_block_def)
  have "ReadBlock sn (rd f) verify \<lparr>bh_offset = ?o, bh_size = ?n\<rparr> =
      Some (decode_block sn b (stored_block block type) (length block))"
    unfolding ReadBlock_def Let_def BlockHandle.simps r option.case prod.case n5 u c by simp
  then show ?thesis by blast
qed

end

section \<open>What a read of a block guarantees\<close>



end
