(* ===== verification/Filter_Block.thy ===== *)
theory Filter_Block
  imports Bloom
begin

text \<open>
  \<^verbatim>\<open>table/filter_block.cc\<close>: one block with a filter for every 2 KB of data, its builder and its reader.
  The policy's two methods are arguments; their contract is the locale \<open>filter_policy\<close>.
\<close>

section \<open>The builder\<close>

definition kFilterBaseLg :: nat where
  "kFilterBaseLg = 11"

definition kFilterBase :: nat where
  "kFilterBase = 2 ^ kFilterBaseLg"

record FilterBlockBuilder =
  fb_keys :: bytes
  fb_start :: "nat list"
  fb_result :: bytes
  fb_filter_offsets :: "u32 list"

definition FilterBlockBuilder_make :: FilterBlockBuilder where
  "FilterBlockBuilder_make = \<lparr>fb_keys = [], fb_start = [], fb_result = [], fb_filter_offsets = []\<rparr>"

definition AddKey :: "bytes \<Rightarrow> FilterBlockBuilder \<Rightarrow> FilterBlockBuilder" where
  "AddKey k b = b\<lparr>fb_start := fb_start b @ [length (fb_keys b)], fb_keys := fb_keys b @ k\<rparr>"

definition GenerateFilter :: "(bytes list \<Rightarrow> bytes \<Rightarrow> bytes) \<Rightarrow> FilterBlockBuilder \<Rightarrow> FilterBlockBuilder" where
  "GenerateFilter create b =
     (let num_keys = length (fb_start b) in
      if num_keys = 0
      then b\<lparr>fb_filter_offsets := fb_filter_offsets b @ [of_nat (length (fb_result b))]\<rparr>
      else
        (let start = fb_start b @ [length (fb_keys b)];
             tmp_keys = map (\<lambda>i. take (start ! (i + 1) - start ! i) (drop (start ! i) (fb_keys b))) [0..<num_keys]
         in \<lparr>fb_keys = [], fb_start = [], fb_result = create tmp_keys (fb_result b),
             fb_filter_offsets = fb_filter_offsets b @ [of_nat (length (fb_result b))]\<rparr>))"

lemma GenerateFilter_offsets:
  "length (fb_filter_offsets (GenerateFilter create b)) = Suc (length (fb_filter_offsets b))"
  by (simp add: GenerateFilter_def Let_def)

function StartBlock_loop :: "(bytes list \<Rightarrow> bytes \<Rightarrow> bytes) \<Rightarrow> nat \<Rightarrow> FilterBlockBuilder \<Rightarrow> FilterBlockBuilder" where
  "StartBlock_loop create filter_index b =
     (if filter_index > length (fb_filter_offsets b)
      then StartBlock_loop create filter_index (GenerateFilter create b) else b)"
  by auto
termination
  by (relation "measure (\<lambda>(_, n, b). n - length (fb_filter_offsets b))") (auto simp: GenerateFilter_offsets)

declare StartBlock_loop.simps [simp del]

definition StartBlock :: "(bytes list \<Rightarrow> bytes \<Rightarrow> bytes) \<Rightarrow> u64 \<Rightarrow> FilterBlockBuilder \<Rightarrow> FilterBlockBuilder" where
  "StartBlock create block_offset b = StartBlock_loop create (unat block_offset div kFilterBase) b"

definition FilterBlockBuilder_Finish ::
    "(bytes list \<Rightarrow> bytes \<Rightarrow> bytes) \<Rightarrow> FilterBlockBuilder \<Rightarrow> bytes \<times> FilterBlockBuilder" where
  "FilterBlockBuilder_Finish create b =
     (let b = (if fb_start b \<noteq> [] then GenerateFilter create b else b);
          array_offset = of_nat (length (fb_result b)) :: u32;
          result = foldl PutFixed32 (fb_result b) (fb_filter_offsets b);
          result = PutFixed32 result array_offset;
          result = result @ [of_nat kFilterBaseLg]
      in (result, b\<lparr>fb_result := result\<rparr>))"

section \<open>The reader\<close>

record FilterBlockReader =
  fr_data :: bytes
  fr_offset :: nat
  fr_num :: nat
  fr_base_lg :: byte

definition FilterBlockReader_make :: "bytes \<Rightarrow> FilterBlockReader" where
  "FilterBlockReader_make contents =
     (let n = length contents;
          r = \<lparr>fr_data = [], fr_offset = 0, fr_num = 0, fr_base_lg = 0\<rparr>
      in if n < 5 then r
         else
           (let r = r\<lparr>fr_base_lg := contents ! (n - 1)\<rparr>;
                last_word = unat (DecodeFixed32 (drop (n - 5) contents))
            in if last_word > n - 5 then r
               else r\<lparr>fr_data := contents, fr_offset := last_word, fr_num := (n - 5 - last_word) div 4\<rparr>))"

text \<open>A shift by 64 or more, which a stored parameter can ask for, is undefined: \<open>None\<close>.\<close>

definition FilterBlockReader_KeyMayMatch ::
    "(bytes \<Rightarrow> bytes \<Rightarrow> bool) \<Rightarrow> FilterBlockReader \<Rightarrow> u64 \<Rightarrow> bytes \<Rightarrow> bool option" where
  "FilterBlockReader_KeyMayMatch may_match r block_offset key =
     (if 64 \<le> unat (fr_base_lg r) then None
      else
        (let index = unat (drop_bit (unat (fr_base_lg r)) block_offset) in
         if index < fr_num r then
           (let start = unat (DecodeFixed32 (drop (fr_offset r + index * 4) (fr_data r)));
                limit = unat (DecodeFixed32 (drop (fr_offset r + index * 4 + 4) (fr_data r)))
            in if start \<le> limit \<and> limit \<le> fr_offset r
               then Some (may_match key (take (limit - start) (drop start (fr_data r))))
               else if start = limit then Some False
               else Some True)
         else Some True))"

section \<open>What the builder made\<close>

text \<open>
  \<open>fs\<close> are the lists of keys of the filters so far, \<open>pend\<close> the keys waiting for the next one.  Keys are
  kept as one string with the positions at which they start.
\<close>

definition starts :: "bytes list \<Rightarrow> nat list" where
  "starts ks = map (\<lambda>j. length (concat (take j ks))) [0..<length ks]"

lemma starts_snoc: "starts (ks @ [k]) = starts ks @ [length (concat ks)]"
  by (simp add: starts_def)

lemma unflatten:
  "map (\<lambda>i. take ((starts ks @ [length (concat ks)]) ! (i + 1) - (starts ks @ [length (concat ks)]) ! i)
              (drop ((starts ks @ [length (concat ks)]) ! i) (concat ks))) [0..<length ks] = ks"
proof (rule nth_equalityI)
  fix i assume "i < length (map (\<lambda>i. take ((starts ks @ [length (concat ks)]) ! (i + 1) -
      (starts ks @ [length (concat ks)]) ! i) (drop ((starts ks @ [length (concat ks)]) ! i) (concat ks))) [0..<length ks])"
  then have i: "i < length ks" by simp
  have s: "(starts ks @ [length (concat ks)]) ! j = length (concat (take j ks))" if "j \<le> length ks" for j
    using that by (cases "j = length ks") (simp_all add: starts_def nth_append)
  have e: "map (\<lambda>i. take ((starts ks @ [length (concat ks)]) ! (i + 1) - (starts ks @ [length (concat ks)]) ! i)
      (drop ((starts ks @ [length (concat ks)]) ! i) (concat ks))) [0..<length ks] ! i =
      take (length (concat (take (Suc i) ks)) - length (concat (take i ks)))
        (drop (length (concat (take i ks))) (concat ks))"
    using i s [of i] s [of "Suc i"] by simp
  have c: "concat ks = concat (take i ks) @ ks ! i @ concat (drop (Suc i) ks)"
    using arg_cong [OF id_take_nth_drop [OF i], of concat] by simp
  show "map (\<lambda>i. take ((starts ks @ [length (concat ks)]) ! (i + 1) - (starts ks @ [length (concat ks)]) ! i)
      (drop ((starts ks @ [length (concat ks)]) ! i) (concat ks))) [0..<length ks] ! i = ks ! i"
    unfolding e by (subst c) (simp add: take_Suc_conv_app_nth i)
qed simp

definition filter_of :: "(bytes list \<Rightarrow> bytes \<Rightarrow> bytes) \<Rightarrow> bytes list \<Rightarrow> bytes" where
  "filter_of create ks = (if ks = [] then [] else create ks [])"

definition fb_rep :: "(bytes list \<Rightarrow> bytes \<Rightarrow> bytes) \<Rightarrow> FilterBlockBuilder \<Rightarrow> bytes list list \<Rightarrow> bytes list \<Rightarrow> bool" where
  "fb_rep create b fs pend \<longleftrightarrow>
     fb_result b = concat (map (filter_of create) fs) \<and>
     fb_filter_offsets b = map of_nat (starts (map (filter_of create) fs)) \<and>
     fb_keys b = concat pend \<and> fb_start b = starts pend"

lemma fb_rep_make: "fb_rep create FilterBlockBuilder_make [] []"
  by (simp add: fb_rep_def FilterBlockBuilder_make_def starts_def)

lemma fb_rep_AddKey: "fb_rep create b fs pend \<Longrightarrow> fb_rep create (AddKey k b) fs (pend @ [k])"
  by (simp add: fb_rep_def AddKey_def starts_snoc)

lemma fb_rep_AddKeys: "fb_rep create b fs pend \<Longrightarrow> fb_rep create (foldl (\<lambda>b k. AddKey k b) b ks) fs (pend @ ks)"
proof (induction ks arbitrary: b pend)
  case (Cons k ks)
  then show ?case using fb_rep_AddKey [OF Cons.prems, of k] by fastforce
qed simp

lemma length_starts [simp]: "length (starts ks) = length ks"
  by (simp add: starts_def)

text \<open>The filters a start of a block at filter index \<open>n\<close> makes.\<close>

definition fill :: "nat \<Rightarrow> bytes list list \<Rightarrow> bytes list \<Rightarrow> bytes list list" where
  "fill n fs pend = (if n \<le> length fs then fs else fs @ [pend] @ replicate (n - length fs - 1) [])"

definition read_filters :: "bytes list \<Rightarrow> bytes" where
  "read_filters filters =
     concat filters @ concat (map (EncodeFixed32 \<circ> of_nat) (starts filters)) @
     EncodeFixed32 (of_nat (length (concat filters))) @ [of_nat kFilterBaseLg]"

context filter_policy
begin

lemma fb_rep_GenerateFilter:
  assumes "fb_rep create b fs pend"
  shows "fb_rep create (GenerateFilter create b) (fs @ [pend]) []"
proof (cases "pend = []")
  case True
  with assms show ?thesis
    by (simp add: fb_rep_def GenerateFilter_def filter_of_def starts_snoc)
next
  case False
  then have n: "length (fb_start b) \<noteq> 0" using assms by (simp add: fb_rep_def)
  have t: "map (\<lambda>i. take ((fb_start b @ [length (fb_keys b)]) ! (i + 1) - (fb_start b @ [length (fb_keys b)]) ! i)
      (drop ((fb_start b @ [length (fb_keys b)]) ! i) (fb_keys b))) [0..<length (fb_start b)] = pend"
    using assms unflatten [of pend] by (simp add: fb_rep_def)
  show ?thesis
    unfolding GenerateFilter_def Let_def t using assms n False create_appends [of pend "fb_result b"]
    by (simp add: fb_rep_def filter_of_def starts_snoc) (simp add: starts_def)
qed

lemma fb_rep_StartBlock_loop:
  "fb_rep create b fs pend \<Longrightarrow>
     fb_rep create (StartBlock_loop create n b) (fill n fs pend) (if n \<le> length fs then pend else [])"
proof (induction "n - length fs" arbitrary: b fs pend)
  case 0
  then have "length (fb_filter_offsets b) = length fs" by (simp add: fb_rep_def)
  with 0 show ?case by (subst StartBlock_loop.simps) (simp add: fill_def)
next
  case (Suc d)
  then have l: "length (fb_filter_offsets b) = length fs" by (simp add: fb_rep_def)
  have e: "StartBlock_loop create n b = StartBlock_loop create n (GenerateFilter create b)"
    using Suc(2) l by (subst StartBlock_loop.simps) simp
  have f: "fill n (fs @ [pend]) [] = fill n fs pend"
    using Suc(2) by (cases "n = Suc (length fs)")
      (auto simp: fill_def replicate_append_same simp flip: replicate_Suc intro!: arg_cong2 [of _ _ _ _ replicate])
  show ?case
    using Suc(1) [of "fs @ [pend]" "GenerateFilter create b" "[]"] Suc(2) fb_rep_GenerateFilter [OF Suc(3)]
    unfolding e f by auto
qed

lemma fb_rep_Finish:
  assumes "fb_rep create b fs pend"
  shows "fst (FilterBlockBuilder_Finish create b) =
    read_filters (map (filter_of create) (if pend = [] then fs else fs @ [pend]))"
proof -
  have fl: "foldl PutFixed32 dst xs = dst @ concat (map EncodeFixed32 xs)" for dst xs
    by (induction xs arbitrary: dst) (simp_all add: PutFixed32_def)
  have s: "fb_start b = [] \<longleftrightarrow> pend = []" using assms by (simp add: fb_rep_def starts_def)
  show ?thesis
  proof (cases "pend = []")
    case True
    then show ?thesis
      using assms s by (simp add: FilterBlockBuilder_Finish_def Let_def fl PutFixed32_def fb_rep_def read_filters_def comp_def)
  next
    case False
    then show ?thesis
      using fb_rep_GenerateFilter [OF assms] s
      by (simp add: FilterBlockBuilder_Finish_def Let_def fl PutFixed32_def fb_rep_def read_filters_def comp_def)
  qed
qed

end

section \<open>Reading it\<close>

lemma fixed32_nth:
  "j < length xs \<Longrightarrow> DecodeFixed32 (drop (j * 4) (concat (map EncodeFixed32 xs) @ rest)) = xs ! j"
proof (induction xs arbitrary: j)
  case (Cons x xs)
  then show ?case by (cases j) simp_all
qed simp

lemma KeyMayMatch_read_filters:
  assumes "length (concat filters) < 2 ^ 32" "unat block_offset div kFilterBase = n" "n < length filters"
  shows "FilterBlockReader_KeyMayMatch may_match (FilterBlockReader_make (read_filters filters)) block_offset key =
    Some (may_match key (filters ! n))"
proof -
  let ?c = "concat filters" and ?w = "map of_nat (starts filters) @ [of_nat (length (concat filters))] :: u32 list"
  let ?d = "read_filters filters"
  have d: "?d = ?c @ concat (map EncodeFixed32 ?w) @ [of_nat kFilterBaseLg]"
    by (simp add: read_filters_def comp_def)
  have len: "length ?d = length ?c + 4 * length filters + 5"
  proof -
    have "length (concat (map (EncodeFixed32 \<circ> g) xs)) = 4 * length xs" for g :: "nat \<Rightarrow> u32" and xs
      by (induction xs) simp_all
    then show ?thesis unfolding d by simp
  qed
  have last: "DecodeFixed32 (drop (length ?d - 5) ?d) = of_nat (length ?c)"
  proof -
    have "length ?d - 5 = length ?c + length filters * 4" using len by simp
    then have "drop (length ?d - 5) ?d =
        drop (length filters * 4) (concat (map EncodeFixed32 ?w) @ [of_nat kFilterBaseLg])"
      unfolding d by (simp add: drop_append)
    then show ?thesis using fixed32_nth [of "length filters" ?w "[of_nat kFilterBaseLg]"] by (simp add: nth_append)
  qed
  have lg: "?d ! (length ?d - 1) = 11"
    by (simp add: read_filters_def kFilterBaseLg_def nth_append)
  have r: "FilterBlockReader_make ?d =
      \<lparr>fr_data = ?d, fr_offset = length ?c, fr_num = length filters, fr_base_lg = 11\<rparr>"
    unfolding FilterBlockReader_make_def Let_def last lg using len assms(1)
    by (simp add: unat_of_nat_u32)
  have w: "unat (DecodeFixed32 (drop (length ?c + j * 4) ?d)) = length (concat (take j filters))"
    if "j \<le> length filters" for j
  proof -
    have "drop (length ?c + j * 4) ?d = drop (j * 4) (concat (map EncodeFixed32 ?w) @ [of_nat kFilterBaseLg])"
      unfolding d by (simp add: drop_append)
    then have "DecodeFixed32 (drop (length ?c + j * 4) ?d) = of_nat (length (concat (take j filters)))"
      using that fixed32_nth [of j ?w "[of_nat kFilterBaseLg]"]
      by (cases "j = length filters") (simp_all add: nth_append starts_def)
    moreover have "length (concat (take j filters)) \<le> length ?c"
      by (metis append_take_drop_id concat_append le_add1 length_append)
    ultimately show ?thesis using assms(1) by (simp add: unat_of_nat_u32)
  qed
  have idx: "unat (drop_bit 11 block_offset) = n"
    using assms(2) by (simp add: unat_drop_bit kFilterBase_def kFilterBaseLg_def)
  have c: "?c = concat (take n filters) @ filters ! n @ concat (drop (Suc n) filters)"
    using arg_cong [OF id_take_nth_drop [OF assms(3)], of concat] by simp
  have lim: "length (concat (take (Suc n) filters)) = length (concat (take n filters)) + length (filters ! n)"
    using assms(3) by (simp add: take_Suc_conv_app_nth)
  have le: "length (concat (take n filters)) + length (filters ! n) \<le> length ?c"
    using arg_cong [OF c, of length] by simp
  have "take (length (filters ! n)) (drop (length (concat (take n filters))) ?d) = filters ! n"
    unfolding d by (subst c) simp
  then show ?thesis
    unfolding FilterBlockReader_KeyMayMatch_def r FilterBlockReader.simps Let_def
    using w [of n] w [of "Suc n"] idx assms(3) lim le by (simp add: add.assoc add.commute [of 4])
qed

section \<open>No false negatives\<close>

text \<open>The calls of a table builder: \<^verbatim>\<open>(StartBlock AddKey*)*\<close>.\<close>

definition add_blocks ::
    "(bytes list \<Rightarrow> bytes \<Rightarrow> bytes) \<Rightarrow> (u64 \<times> bytes list) list \<Rightarrow> FilterBlockBuilder \<Rightarrow> FilterBlockBuilder" where
  "add_blocks create blocks b =
     foldl (\<lambda>b (off, keys). foldl (\<lambda>b k. AddKey k b) (StartBlock create off b) keys) b blocks"

text \<open>Every key of a block is in the filter for the block's offset, or waits for it.\<close>

definition covers :: "(nat \<times> bytes) set \<Rightarrow> bytes list list \<Rightarrow> bytes list \<Rightarrow> bool" where
  "covers D fs pend \<longleftrightarrow>
     (\<forall>(n, k) \<in> D. n < length fs \<and> k \<in> set (fs ! n) \<or> n = length fs \<and> k \<in> set pend)"

lemma covers_fill:
  assumes "covers D fs pend" "length fs \<le> n"
  shows "length (fill n fs pend) = n"
    and "covers (D \<union> {n} \<times> set ks) (fill n fs pend) ((if n \<le> length fs then pend else []) @ ks)"
proof -
  show l: "length (fill n fs pend) = n" using assms(2) by (auto simp: fill_def)
  have "m < n \<and> k \<in> set (fill n fs pend ! m) \<or> m = n \<and> k \<in> set ((if n \<le> length fs then pend else []) @ ks)"
    if "(m, k) \<in> D" for m k
    using assms that by (cases "n \<le> length fs") (fastforce simp: covers_def fill_def nth_append)+
  then show "covers (D \<union> {n} \<times> set ks) (fill n fs pend) ((if n \<le> length fs then pend else []) @ ks)"
    by (auto simp: covers_def l)
qed

definition block_keys :: "(u64 \<times> bytes list) list \<Rightarrow> (nat \<times> bytes) set" where
  "block_keys blocks = (\<Union>(off, keys) \<in> set blocks. {unat off div kFilterBase} \<times> set keys)"

lemma block_keys_Cons: "block_keys ((off, ks) # bs) = {unat off div kFilterBase} \<times> set ks \<union> block_keys bs"
  by (simp add: block_keys_def)

context filter_policy
begin

lemma fb_rep_add_blocks:
  assumes "fb_rep create b fs pend" "covers D fs pend" "sorted (map fst blocks)"
    and "\<forall>off \<in> set (map fst blocks). length fs \<le> unat off div kFilterBase"
  shows "\<exists>fs' pend'. fb_rep create (add_blocks create blocks b) fs' pend' \<and>
    covers (D \<union> block_keys blocks) fs' pend'"
  using assms
proof (induction blocks arbitrary: b fs pend D)
  case Nil
  then show ?case by (auto simp: add_blocks_def block_keys_def)
next
  case (Cons blk blocks)
  obtain off keys where blk: "blk = (off, keys)" by (cases blk)
  let ?n = "unat off div kFilterBase"
  let ?fs = "fill ?n fs pend" and ?pend = "(if ?n \<le> length fs then pend else []) @ keys"
  have n: "length fs \<le> ?n" using Cons.prems(4) blk by simp
  note c = covers_fill [OF Cons.prems(2) n]
  have "fb_rep create (foldl (\<lambda>b k. AddKey k b) (StartBlock create off b) keys) ?fs ?pend"
    unfolding StartBlock_def by (rule fb_rep_AddKeys [OF fb_rep_StartBlock_loop [OF Cons.prems(1)]])
  moreover have "\<forall>off' \<in> set (map fst blocks). length ?fs \<le> unat off' div kFilterBase"
    using Cons.prems(3) c(1) by (auto simp: blk word_le_nat_alt intro: div_le_mono)
  ultimately show ?case
    using Cons.IH [OF _ c(2) [of keys]] Cons.prems(3)
    by (simp add: add_blocks_def blk block_keys_Cons Un_assoc)
qed

lemma add_blocks_no_false_negative:
  assumes "sorted (map fst blocks)" "(off, keys) \<in> set blocks" "key \<in> set keys"
    and "length (fst (FilterBlockBuilder_Finish create (add_blocks create blocks FilterBlockBuilder_make))) < 2 ^ 32"
  shows "FilterBlockReader_KeyMayMatch may_match (FilterBlockReader_make
      (fst (FilterBlockBuilder_Finish create (add_blocks create blocks FilterBlockBuilder_make)))) off key = Some True"
proof -
  let ?n = "unat off div kFilterBase"
  obtain fs pend where r: "fb_rep create (add_blocks create blocks FilterBlockBuilder_make) fs pend"
    and c: "covers (block_keys blocks) fs pend"
    using fb_rep_add_blocks [OF fb_rep_make, of "{}" blocks] assms(1) by (auto simp: covers_def)
  let ?fs = "if pend = [] then fs else fs @ [pend]"
  have "(?n, key) \<in> block_keys blocks" using assms(2,3) by (force simp: block_keys_def)
  then have k: "?n < length ?fs" "key \<in> set (?fs ! ?n)"
    using c by (auto simp: covers_def nth_append split: if_splits)
  then have "may_match key (map (filter_of create) ?fs ! ?n)"
    using no_false_negative by (auto simp: filter_of_def)
  moreover have "length (concat (map (filter_of create) ?fs)) < 2 ^ 32"
    using assms(4) unfolding fb_rep_Finish [OF r] by (simp add: read_filters_def)
  ultimately show ?thesis
    unfolding fb_rep_Finish [OF r] using KeyMayMatch_read_filters [of "map (filter_of create) ?fs" off ?n] k(1) by simp
qed

end

text \<open>
  C33.  In the filter block of a table with a Bloom filter policy, for blocks at
  ascending offsets, every key that was added while a block was being built may match when it is looked
  up with that block's offset: a reader never skips a block that holds the key.
\<close>

theorem filter_block_sound:
  fixes bits :: nat
  assumes "sorted (map fst blocks)" "(off, keys) \<in> set blocks" "key \<in> set keys"
  defines "contents \<equiv> fst (FilterBlockBuilder_Finish (BloomFilterPolicy_CreateFilter bits)
      (add_blocks (BloomFilterPolicy_CreateFilter bits) blocks FilterBlockBuilder_make))"
  assumes "length contents < 2 ^ 32"
  shows "FilterBlockReader_KeyMayMatch BloomFilterPolicy_KeyMayMatch (FilterBlockReader_make contents) off key = Some True"
  using bloom.add_blocks_no_false_negative assms unfolding contents_def by blast

theorem filter_block_sound_witness:
  "FilterBlockReader_KeyMayMatch BloomFilterPolicy_KeyMayMatch (FilterBlockReader_make
     (fst (FilterBlockBuilder_Finish (BloomFilterPolicy_CreateFilter 10)
        (add_blocks (BloomFilterPolicy_CreateFilter 10) [(0, [[1], [2]]), (5000, [[3]])] FilterBlockBuilder_make))))
     5000 [3] = Some True"
proof -
  have "length (fst (FilterBlockBuilder_Finish (BloomFilterPolicy_CreateFilter 10)
        (add_blocks (BloomFilterPolicy_CreateFilter 10) [(0, [[1], [2]]), (5000, [[3]])] FilterBlockBuilder_make))) = 35"
    by (simp add: add_blocks_def StartBlock_def kFilterBase_def kFilterBaseLg_def StartBlock_loop.simps AddKey_def
        FilterBlockBuilder_make_def FilterBlockBuilder_Finish_def GenerateFilter_def CreateFilter_eq bloom_bytes_def
        PutFixed32_def Let_def add_key_def)
  then show ?thesis
    using filter_block_sound [of "[(0, [[1], [2]]), (5000, [[3]])]" 5000 "[[3]]" "[3]" 10] by simp
qed

end
