(* ===== verification/Table_Builder.thy ===== *)
theory Table_Builder
  imports Block_Refinement Format Filter_Block
begin

text \<open>
  \<^verbatim>\<open>table/table_builder.cc\<close>: writing a sorted table to a file: data blocks, the filter block, the
  metaindex block, the index block and the footer.  The assertions of the code (keys in ascending
  order, no call after the table is closed) are what callers promise.
\<close>

section \<open>Options\<close>

record FilterPolicy =
  fp_Name :: bytes
  fp_CreateFilter :: "bytes list \<Rightarrow> bytes \<Rightarrow> bytes"
  fp_KeyMayMatch :: "bytes \<Rightarrow> bytes \<Rightarrow> bool"

text \<open>The fields of \<^verbatim>\<open>Options\<close> that tables use.\<close>

record Options =
  opt_comparator :: Comparator
  opt_paranoid_checks :: bool
  opt_block_size :: nat
  opt_block_restart_interval :: nat
  opt_compression :: CompressionType
  opt_filter_policy :: "FilterPolicy option"

section \<open>The builder\<close>

record 'f TableBuilder =
  tb_options :: Options
  tb_file :: 'f
  tb_offset :: u64
  tb_status :: Status
  tb_data_block :: BlockBuilder
  tb_index_block :: BlockBuilder
  tb_last_key :: bytes
  tb_num_entries :: u64
  tb_closed :: bool
  tb_filter_block :: "(FilterPolicy \<times> FilterBlockBuilder) option"
  tb_pending_index_entry :: bool
  tb_pending_handle :: BlockHandle

text \<open>A filter block builder keeps the policy it was made with, as \<^verbatim>\<open>FilterBlockBuilder::policy_\<close> does.\<close>

definition filter_StartBlock :: "u64 \<Rightarrow> 'f TableBuilder \<Rightarrow> 'f TableBuilder" where
  "filter_StartBlock off r =
     r\<lparr>tb_filter_block := map_option (\<lambda>(p, fb). (p, StartBlock (fp_CreateFilter p) off fb)) (tb_filter_block r)\<rparr>"

definition TableBuilder_make :: "Options \<Rightarrow> 'f \<Rightarrow> 'f TableBuilder" where
  "TableBuilder_make options f =
     filter_StartBlock 0
       \<lparr>tb_options = options, tb_file = f, tb_offset = 0, tb_status = Status_OK, tb_data_block = BlockBuilder_make,
        tb_index_block = BlockBuilder_make, tb_last_key = [], tb_num_entries = 0, tb_closed = False,
        tb_filter_block = map_option (\<lambda>p. (p, FilterBlockBuilder_make)) (opt_filter_policy options),
        tb_pending_index_entry = False, tb_pending_handle = BlockHandle_make\<rparr>"

text \<open>The comparators are compared as pointers in the code; \<open>same\<close> is the result.\<close>

definition ChangeOptions :: "bool \<Rightarrow> Options \<Rightarrow> 'f TableBuilder \<Rightarrow> Status \<times> 'f TableBuilder" where
  "ChangeOptions same options r =
     (if \<not> same then (Status_InvalidArgument (lit ''changing comparator while building table'') [], r)
      else (Status_OK, r\<lparr>tb_options := options\<rparr>))"

definition WriteRawBlock ::
    "'f WritableFile \<Rightarrow> bytes \<Rightarrow> CompressionType \<Rightarrow> 'f TableBuilder \<Rightarrow> BlockHandle \<times> 'f TableBuilder" where
  "WriteRawBlock fo block_contents type r =
     (let handle = \<lparr>bh_offset = tb_offset r, bh_size = of_nat (length block_contents)\<rparr>;
          (s, f) = wf_Append fo block_contents (tb_file r);
          r = r\<lparr>tb_file := f, tb_status := s\<rparr>
      in if \<not> Status_ok s then (handle, r)
         else
           (let crc = crc32c_Value block_contents;
                crc = crc32c_Extend crc [CompressionType_value type];
                trailer = [CompressionType_value type] @ EncodeFixed32 (Mask crc);
                (s, f) = wf_Append fo trailer (tb_file r);
                r = r\<lparr>tb_file := f, tb_status := s\<rparr>
            in (handle,
                if Status_ok s
                then r\<lparr>tb_offset := tb_offset r + (of_nat (length block_contents) + of_nat kBlockTrailerSize)\<rparr>
                else r)))"

text \<open>The contents to store for a raw block and their type.\<close>

definition choose_block :: "Snappy \<Rightarrow> CompressionType \<Rightarrow> bytes \<Rightarrow> bytes \<times> CompressionType" where
  "choose_block sn type raw =
     (case type of
        kNoCompression \<Rightarrow> (raw, type)
      | kSnappyCompression \<Rightarrow>
          (case Snappy_Compress sn raw of
             Some compressed \<Rightarrow>
               if length compressed < length raw - length raw div 8 then (compressed, type) else (raw, kNoCompression)
           | None \<Rightarrow> (raw, kNoCompression)))"

definition WriteBlock ::
    "Snappy \<Rightarrow> 'f WritableFile \<Rightarrow> BlockBuilder \<Rightarrow> 'f TableBuilder \<Rightarrow> BlockHandle \<times> BlockBuilder \<times> 'f TableBuilder" where
  "WriteBlock sn fo block r =
     (let (raw, block) = BlockBuilder_Finish block;
          (block_contents, type) = choose_block sn (opt_compression (tb_options r)) raw;
          (handle, r) = WriteRawBlock fo block_contents type r
      in (handle, BlockBuilder_Reset block, r))"

definition TableBuilder_Flush :: "Snappy \<Rightarrow> 'f WritableFile \<Rightarrow> 'f TableBuilder \<Rightarrow> 'f TableBuilder" where
  "TableBuilder_Flush sn fo r =
     (if \<not> Status_ok (tb_status r) then r
      else if BlockBuilder_empty (tb_data_block r) then r
      else
        (let (handle, block, r) = WriteBlock sn fo (tb_data_block r) r;
             r = r\<lparr>tb_data_block := block, tb_pending_handle := handle\<rparr>;
             r = (if Status_ok (tb_status r)
                  then (let (s, f) = wf_Flush fo (tb_file r)
                        in r\<lparr>tb_pending_index_entry := True, tb_file := f, tb_status := s\<rparr>)
                  else r)
         in filter_StartBlock (tb_offset r) r))"

text \<open>The index entry for the last block, once its separator is known.\<close>

definition add_index_entry :: "bytes \<Rightarrow> 'f TableBuilder \<Rightarrow> 'f TableBuilder" where
  "add_index_entry key r =
     r\<lparr>tb_last_key := key,
       tb_index_block := BlockBuilder_Add 1 key (BlockHandle_EncodeTo (tb_pending_handle r) []) (tb_index_block r),
       tb_pending_index_entry := False\<rparr>"

definition TableBuilder_Add :: "Snappy \<Rightarrow> 'f WritableFile \<Rightarrow> bytes \<Rightarrow> bytes \<Rightarrow> 'f TableBuilder \<Rightarrow> 'f TableBuilder" where
  "TableBuilder_Add sn fo key value r =
     (if \<not> Status_ok (tb_status r) then r
      else
        (let r = (if tb_pending_index_entry r
                  then add_index_entry (FindShortestSeparator (opt_comparator (tb_options r)) (tb_last_key r) key) r
                  else r);
             r = r\<lparr>tb_filter_block := map_option (\<lambda>(p, fb). (p, AddKey key fb)) (tb_filter_block r)\<rparr>;
             r = r\<lparr>tb_last_key := key, tb_num_entries := tb_num_entries r + 1,
                   tb_data_block := BlockBuilder_Add (opt_block_restart_interval (tb_options r)) key value (tb_data_block r)\<rparr>
         in if BlockBuilder_CurrentSizeEstimate (tb_data_block r) \<ge> opt_block_size (tb_options r)
            then TableBuilder_Flush sn fo r else r))"

text \<open>The parts of \<^verbatim>\<open>Finish\<close>: each one writes only while the status is ok.\<close>

definition finish_filter :: "'f WritableFile \<Rightarrow> 'f TableBuilder \<Rightarrow> BlockHandle \<times> 'f TableBuilder" where
  "finish_filter fo r =
     (case tb_filter_block r of
        Some (p, fb) \<Rightarrow>
          if Status_ok (tb_status r) then WriteRawBlock fo (fst (FilterBlockBuilder_Finish (fp_CreateFilter p) fb)) kNoCompression r
          else (BlockHandle_make, r)
      | None \<Rightarrow> (BlockHandle_make, r))"

text \<open>
  The name of the filter comes from the options, which \<^verbatim>\<open>ChangeOptions\<close> may have replaced: without a policy
  there, the code would follow a null pointer. Here the metaindex block then has no entry.
\<close>

definition finish_meta :: "Snappy \<Rightarrow> 'f WritableFile \<Rightarrow> BlockHandle \<Rightarrow> 'f TableBuilder \<Rightarrow> BlockHandle \<times> 'f TableBuilder" where
  "finish_meta sn fo filter_block_handle r =
     (if \<not> Status_ok (tb_status r) then (BlockHandle_make, r)
      else
        (let meta_index_block = BlockBuilder_make;
             meta_index_block =
               (case (tb_filter_block r, opt_filter_policy (tb_options r)) of
                  (Some _, Some p) \<Rightarrow>
                    BlockBuilder_Add (opt_block_restart_interval (tb_options r)) (lit ''filter.'' @ fp_Name p)
                      (BlockHandle_EncodeTo filter_block_handle []) meta_index_block
                | _ \<Rightarrow> meta_index_block);
             (h, _, r) = WriteBlock sn fo meta_index_block r
         in (h, r)))"

definition finish_index :: "Snappy \<Rightarrow> 'f WritableFile \<Rightarrow> 'f TableBuilder \<Rightarrow> BlockHandle \<times> 'f TableBuilder" where
  "finish_index sn fo r =
     (if \<not> Status_ok (tb_status r) then (BlockHandle_make, r)
      else
        (let r = (if tb_pending_index_entry r
                  then add_index_entry (FindShortSuccessor (opt_comparator (tb_options r)) (tb_last_key r)) r else r);
             (h, block, r) = WriteBlock sn fo (tb_index_block r) r
         in (h, r\<lparr>tb_index_block := block\<rparr>)))"

definition finish_footer :: "'f WritableFile \<Rightarrow> BlockHandle \<Rightarrow> BlockHandle \<Rightarrow> 'f TableBuilder \<Rightarrow> 'f TableBuilder" where
  "finish_footer fo metaindex_block_handle index_block_handle r =
     (if \<not> Status_ok (tb_status r) then r
      else
        (let footer_encoding = Footer_EncodeTo
               \<lparr>ft_metaindex_handle = metaindex_block_handle, ft_index_handle = index_block_handle\<rparr> [];
             (s, f) = wf_Append fo footer_encoding (tb_file r);
             r = r\<lparr>tb_file := f, tb_status := s\<rparr>
         in if Status_ok s then r\<lparr>tb_offset := tb_offset r + of_nat (length footer_encoding)\<rparr> else r))"

definition TableBuilder_Finish :: "Snappy \<Rightarrow> 'f WritableFile \<Rightarrow> 'f TableBuilder \<Rightarrow> Status \<times> 'f TableBuilder" where
  "TableBuilder_Finish sn fo r =
     (let r = TableBuilder_Flush sn fo r;
          r = r\<lparr>tb_closed := True\<rparr>;
          (filter_block_handle, r) = finish_filter fo r;
          (metaindex_block_handle, r) = finish_meta sn fo filter_block_handle r;
          (index_block_handle, r) = finish_index sn fo r;
          r = finish_footer fo metaindex_block_handle index_block_handle r
      in (tb_status r, r))"

definition Abandon :: "'f TableBuilder \<Rightarrow> 'f TableBuilder" where
  "Abandon r = r\<lparr>tb_closed := True\<rparr>"

definition NumEntries :: "'f TableBuilder \<Rightarrow> u64" where
  "NumEntries r = tb_num_entries r"

definition FileSize :: "'f TableBuilder \<Rightarrow> u64" where
  "FileSize r = tb_offset r"

section \<open>The layout of a table\<close>

text \<open>The bytes a block of pairs takes in the file, and the size its handle has.\<close>

definition stored_kvs :: "Snappy \<Rightarrow> Options \<Rightarrow> nat \<Rightarrow> kv list \<Rightarrow> bytes" where
  "stored_kvs sn opts interval kvs =
     (let (c, type) = choose_block sn (opt_compression opts) (block_bytes interval kvs) in stored_block c type)"

definition stored_size :: "Snappy \<Rightarrow> Options \<Rightarrow> nat \<Rightarrow> kv list \<Rightarrow> nat" where
  "stored_size sn opts interval kvs = length (fst (choose_block sn (opt_compression opts) (block_bytes interval kvs)))"

lemma length_stored_kvs: "length (stored_kvs sn opts interval kvs) = stored_size sn opts interval kvs + kBlockTrailerSize"
  by (simp add: stored_kvs_def stored_size_def case_prod_unfold Let_def)

lemma stored_kvs_not_Nil: "stored_kvs sn opts interval kvs \<noteq> []"
  using length_stored_kvs [of sn opts interval kvs] by (auto simp: kBlockTrailerSize_def)

definition data_bytes :: "Snappy \<Rightarrow> Options \<Rightarrow> kv list list \<Rightarrow> bytes" where
  "data_bytes sn opts blocks = concat (map (stored_kvs sn opts (opt_block_restart_interval opts)) blocks)"

lemma data_bytes_snoc:
  "data_bytes sn opts (blocks @ [b]) = data_bytes sn opts blocks @ stored_kvs sn opts (opt_block_restart_interval opts) b"
  by (simp add: data_bytes_def)

definition handle_at :: "Snappy \<Rightarrow> Options \<Rightarrow> kv list list \<Rightarrow> nat \<Rightarrow> BlockHandle" where
  "handle_at sn opts blocks j =
     \<lparr>bh_offset = of_nat (length (data_bytes sn opts (take j blocks))),
      bh_size = of_nat (stored_size sn opts (opt_block_restart_interval opts) (blocks ! j))\<rparr>"

lemma handle_at_append: "j < length blocks \<Longrightarrow> handle_at sn opts (blocks @ xs) j = handle_at sn opts blocks j"
  by (simp add: handle_at_def nth_append)

text \<open>What a filter builder has seen: the keys of every block, with the offset the block started at.\<close>

definition filter_calls :: "Snappy \<Rightarrow> Options \<Rightarrow> kv list list \<Rightarrow> kv list \<Rightarrow> (u64 \<times> bytes list) list" where
  "filter_calls sn opts blocks cur =
     map (\<lambda>j. (of_nat (length (data_bytes sn opts (take j blocks))), map fst (blocks ! j))) [0..<length blocks] @
     [(of_nat (length (data_bytes sn opts blocks)), map fst cur)]"

lemma filter_calls_key:
  "filter_calls sn opts blocks (cur @ [(k, v)]) =
     butlast (filter_calls sn opts blocks cur) @
     [(fst (last (filter_calls sn opts blocks cur)), snd (last (filter_calls sn opts blocks cur)) @ [k])]"
  by (simp add: filter_calls_def)

lemma filter_calls_flush: "filter_calls sn opts (blocks @ [cur]) [] = filter_calls sn opts blocks cur @
    [(of_nat (length (data_bytes sn opts (blocks @ [cur]))), [])]"
  by (simp add: filter_calls_def nth_append)

end
