(* ===== verification/Two_Level.thy ===== *)
theory Two_Level
  imports Iterators "HOL-Library.Monad_Syntax"
begin

text \<open>
  \<^verbatim>\<open>table/two_level_iterator.cc\<close>: an iterator over the concatenation of the sources that an index
  iterator's values lead to.  The index iterator, the iterators over the sources and the function
  that opens one are arguments.
\<close>

section \<open>The iterator\<close>

text \<open>\<open>tl_data\<close> is empty when the pointer of \<^verbatim>\<open>data_iter_\<close> is null.\<close>

record ('x, 'd) TwoLevel =
  tl_index :: "'x Wrapper"
  tl_data :: "'d Wrapper option"
  tl_handle :: bytes
  tl_status :: Status

definition TwoLevel_make :: "'x Iterator \<Rightarrow> 'x \<Rightarrow> ('x, 'd) TwoLevel" where
  "TwoLevel_make ix i = \<lparr>tl_index = Wrapper_Set ix i, tl_data = None, tl_handle = [], tl_status = Status_OK\<rparr>"

definition SaveError :: "Status \<Rightarrow> ('x, 'd) TwoLevel \<Rightarrow> ('x, 'd) TwoLevel" where
  "SaveError s t = (if Status_ok (tl_status t) \<and> \<not> Status_ok s then t\<lparr>tl_status := s\<rparr> else t)"

definition SetDataIterator :: "'d Iterator \<Rightarrow> 'd option \<Rightarrow> ('x, 'd) TwoLevel \<Rightarrow> ('x, 'd) TwoLevel" where
  "SetDataIterator dt d t =
     (let t = (case tl_data t of None \<Rightarrow> t | Some w \<Rightarrow> SaveError (it_status (IteratorWrapper dt) w) t)
      in t\<lparr>tl_data := map_option (Wrapper_Set dt) d\<rparr>)"

definition InitDataBlock ::
    "'x Iterator \<Rightarrow> 'd Iterator \<Rightarrow> (bytes \<Rightarrow> 'd option) \<Rightarrow> ('x, 'd) TwoLevel \<Rightarrow> ('x, 'd) TwoLevel option" where
  "InitDataBlock ix dt block_function t =
     (if \<not> iw_valid (tl_index t) then Some (SetDataIterator dt None t)
      else
        (let handle = it_value (IteratorWrapper ix) (tl_index t) in
         if tl_data t \<noteq> None \<and> Slice_compare handle (tl_handle t) = 0 then Some t
         else do {
           d \<leftarrow> block_function handle;
           Some (SetDataIterator dt (Some d) (t\<lparr>tl_handle := handle\<rparr>))
         }))"

definition data_move ::
    "('d Wrapper \<Rightarrow> 'd Wrapper option) \<Rightarrow> ('x, 'd) TwoLevel \<Rightarrow> ('x, 'd) TwoLevel option" where
  "data_move move t =
     (case tl_data t of
        None \<Rightarrow> Some t
      | Some w \<Rightarrow> do { w \<leftarrow> move w; Some (t\<lparr>tl_data := Some w\<rparr>) })"

definition index_move ::
    "('x Wrapper \<Rightarrow> 'x Wrapper option) \<Rightarrow> ('x, 'd) TwoLevel \<Rightarrow> ('x, 'd) TwoLevel option" where
  "index_move move t = do { w \<leftarrow> move (tl_index t); Some (t\<lparr>tl_index := w\<rparr>) }"

definition data_Valid :: "('x, 'd) TwoLevel \<Rightarrow> bool" where
  "data_Valid t = (case tl_data t of None \<Rightarrow> False | Some w \<Rightarrow> iw_valid w)"

partial_function (option) SkipEmptyDataBlocksForward ::
    "'x Iterator \<Rightarrow> 'd Iterator \<Rightarrow> (bytes \<Rightarrow> 'd option) \<Rightarrow> ('x, 'd) TwoLevel \<Rightarrow> ('x, 'd) TwoLevel option" where
  "SkipEmptyDataBlocksForward ix dt bf t =
     (if data_Valid t then Some t
      else if \<not> iw_valid (tl_index t) then Some (SetDataIterator dt None t)
      else do {
        t \<leftarrow> index_move (it_Next (IteratorWrapper ix)) t;
        t \<leftarrow> InitDataBlock ix dt bf t;
        t \<leftarrow> data_move (it_SeekToFirst (IteratorWrapper dt)) t;
        SkipEmptyDataBlocksForward ix dt bf t
      })"

partial_function (option) SkipEmptyDataBlocksBackward ::
    "'x Iterator \<Rightarrow> 'd Iterator \<Rightarrow> (bytes \<Rightarrow> 'd option) \<Rightarrow> ('x, 'd) TwoLevel \<Rightarrow> ('x, 'd) TwoLevel option" where
  "SkipEmptyDataBlocksBackward ix dt bf t =
     (if data_Valid t then Some t
      else if \<not> iw_valid (tl_index t) then Some (SetDataIterator dt None t)
      else do {
        t \<leftarrow> index_move (it_Prev (IteratorWrapper ix)) t;
        t \<leftarrow> InitDataBlock ix dt bf t;
        t \<leftarrow> data_move (it_SeekToLast (IteratorWrapper dt)) t;
        SkipEmptyDataBlocksBackward ix dt bf t
      })"

definition TwoLevel_Seek ::
    "'x Iterator \<Rightarrow> 'd Iterator \<Rightarrow> (bytes \<Rightarrow> 'd option) \<Rightarrow> bytes \<Rightarrow> ('x, 'd) TwoLevel \<Rightarrow> ('x, 'd) TwoLevel option" where
  "TwoLevel_Seek ix dt bf target t =
     do {
       t \<leftarrow> index_move (it_Seek (IteratorWrapper ix) target) t;
       t \<leftarrow> InitDataBlock ix dt bf t;
       t \<leftarrow> data_move (it_Seek (IteratorWrapper dt) target) t;
       SkipEmptyDataBlocksForward ix dt bf t
     }"

definition TwoLevel_SeekToFirst ::
    "'x Iterator \<Rightarrow> 'd Iterator \<Rightarrow> (bytes \<Rightarrow> 'd option) \<Rightarrow> ('x, 'd) TwoLevel \<Rightarrow> ('x, 'd) TwoLevel option" where
  "TwoLevel_SeekToFirst ix dt bf t =
     do {
       t \<leftarrow> index_move (it_SeekToFirst (IteratorWrapper ix)) t;
       t \<leftarrow> InitDataBlock ix dt bf t;
       t \<leftarrow> data_move (it_SeekToFirst (IteratorWrapper dt)) t;
       SkipEmptyDataBlocksForward ix dt bf t
     }"

definition TwoLevel_SeekToLast ::
    "'x Iterator \<Rightarrow> 'd Iterator \<Rightarrow> (bytes \<Rightarrow> 'd option) \<Rightarrow> ('x, 'd) TwoLevel \<Rightarrow> ('x, 'd) TwoLevel option" where
  "TwoLevel_SeekToLast ix dt bf t =
     do {
       t \<leftarrow> index_move (it_SeekToLast (IteratorWrapper ix)) t;
       t \<leftarrow> InitDataBlock ix dt bf t;
       t \<leftarrow> data_move (it_SeekToLast (IteratorWrapper dt)) t;
       SkipEmptyDataBlocksBackward ix dt bf t
     }"

definition TwoLevel_Next ::
    "'x Iterator \<Rightarrow> 'd Iterator \<Rightarrow> (bytes \<Rightarrow> 'd option) \<Rightarrow> ('x, 'd) TwoLevel \<Rightarrow> ('x, 'd) TwoLevel option" where
  "TwoLevel_Next ix dt bf t =
     do { t \<leftarrow> data_move (it_Next (IteratorWrapper dt)) t; SkipEmptyDataBlocksForward ix dt bf t }"

definition TwoLevel_Prev ::
    "'x Iterator \<Rightarrow> 'd Iterator \<Rightarrow> (bytes \<Rightarrow> 'd option) \<Rightarrow> ('x, 'd) TwoLevel \<Rightarrow> ('x, 'd) TwoLevel option" where
  "TwoLevel_Prev ix dt bf t =
     do { t \<leftarrow> data_move (it_Prev (IteratorWrapper dt)) t; SkipEmptyDataBlocksBackward ix dt bf t }"

definition TwoLevel_status :: "'x Iterator \<Rightarrow> 'd Iterator \<Rightarrow> ('x, 'd) TwoLevel \<Rightarrow> Status" where
  "TwoLevel_status ix dt t =
     (if \<not> Status_ok (it_status (IteratorWrapper ix) (tl_index t)) then it_status (IteratorWrapper ix) (tl_index t)
      else case tl_data t of
             None \<Rightarrow> tl_status t
           | Some w \<Rightarrow> if \<not> Status_ok (it_status (IteratorWrapper dt) w) then it_status (IteratorWrapper dt) w
                       else tl_status t)"

definition TwoLevelIterator :: "'x Iterator \<Rightarrow> 'd Iterator \<Rightarrow> (bytes \<Rightarrow> 'd option) \<Rightarrow> ('x, 'd) TwoLevel Iterator" where
  "TwoLevelIterator ix dt bf =
     \<lparr>it_Valid = data_Valid,
      it_SeekToFirst = TwoLevel_SeekToFirst ix dt bf,
      it_SeekToLast = TwoLevel_SeekToLast ix dt bf,
      it_Seek = TwoLevel_Seek ix dt bf,
      it_Next = TwoLevel_Next ix dt bf,
      it_Prev = TwoLevel_Prev ix dt bf,
      it_key = (\<lambda>t. case tl_data t of None \<Rightarrow> [] | Some w \<Rightarrow> it_key (IteratorWrapper dt) w),
      it_value = (\<lambda>t. case tl_data t of None \<Rightarrow> [] | Some w \<Rightarrow> it_value (IteratorWrapper dt) w),
      it_status = TwoLevel_status ix dt\<rparr>"

section \<open>What it relies on\<close>

text \<open>
  The index has one entry for every source, whose value opens it; the key of an entry is at or past all
  keys of its source and before those of the next ones.
\<close>

definition separates :: "(bytes \<Rightarrow> bytes \<Rightarrow> int) \<Rightarrow> kv list \<Rightarrow> kv list list \<Rightarrow> bool" where
  "separates cmp ikvs blocks \<longleftrightarrow>
     length ikvs = length blocks \<and>
     (\<forall>j<length blocks. \<forall>kv\<in>set (blocks ! j). cmp (fst kv) (fst (ikvs ! j)) \<le> 0) \<and>
     (\<forall>j<length blocks. \<forall>j'<length blocks. j < j' \<longrightarrow>
        (\<forall>kv\<in>set (blocks ! j'). cmp (fst (ikvs ! j)) (fst kv) < 0))"

definition two_level_ok ::
    "'x Iterator \<Rightarrow> 'd Iterator \<Rightarrow> (bytes \<Rightarrow> 'd option) \<Rightarrow> (bytes \<Rightarrow> bytes \<Rightarrow> int) \<Rightarrow> kv list \<Rightarrow> kv list list \<Rightarrow>
     ('x \<Rightarrow> nat \<Rightarrow> bool) \<Rightarrow> (nat \<Rightarrow> 'd \<Rightarrow> nat \<Rightarrow> bool) \<Rightarrow> bool" where
  "two_level_ok ix dt bf cmp ikvs blocks ipos dpos \<longleftrightarrow>
     three_way cmp \<and> separates cmp ikvs blocks \<and> distinct (map snd ikvs) \<and>
     ordered_iterator ix cmp ikvs ipos \<and>
     (\<forall>j<length blocks. ordered_iterator dt cmp (blocks ! j) (dpos j) \<and>
        (\<exists>d m. bf (snd (ikvs ! j)) = Some d \<and> dpos j d m))"

text \<open>The offset of a source in the concatenation.\<close>

definition boff :: "kv list list \<Rightarrow> nat \<Rightarrow> nat" where
  "boff blocks j = length (concat (take j blocks))"

lemma boff_0 [simp]: "boff blocks 0 = 0"
  by (simp add: boff_def)

lemma boff_Suc: "j < length blocks \<Longrightarrow> boff blocks (Suc j) = boff blocks j + length (blocks ! j)"
  by (simp add: boff_def take_Suc_conv_app_nth)

lemma boff_length: "boff blocks (length blocks) = length (concat blocks)"
  by (simp add: boff_def)

lemma concat_split_nth: "j < length blocks \<Longrightarrow> concat blocks = concat (take j blocks) @ blocks ! j @ concat (drop (Suc j) blocks)"
  using arg_cong [OF id_take_nth_drop [of j blocks], of concat] by simp

lemma boff_bound: "j < length blocks \<Longrightarrow> m \<le> length (blocks ! j) \<Longrightarrow> boff blocks j + m \<le> length (concat blocks)"
  using arg_cong [OF concat_split_nth [of j blocks], of length] by (simp add: boff_def)

lemma boff_bound_less: "j < length blocks \<Longrightarrow> m < length (blocks ! j) \<Longrightarrow> boff blocks j + m < length (concat blocks)"
  using arg_cong [OF concat_split_nth [of j blocks], of length] by (simp add: boff_def)

lemma concat_boff: "j < length blocks \<Longrightarrow> m < length (blocks ! j) \<Longrightarrow> concat blocks ! (boff blocks j + m) = blocks ! j ! m"
  by (subst concat_split_nth [of j blocks]) (simp_all add: boff_def nth_append)

section \<open>Positions\<close>

text \<open>The index is at entry \<open>j\<close> and the data iterator at position \<open>m\<close> of its source.\<close>

definition tl_at ::
    "'x Iterator \<Rightarrow> 'd Iterator \<Rightarrow> kv list \<Rightarrow> kv list list \<Rightarrow> ('x \<Rightarrow> nat \<Rightarrow> bool) \<Rightarrow> (nat \<Rightarrow> 'd \<Rightarrow> nat \<Rightarrow> bool) \<Rightarrow>
     ('x, 'd) TwoLevel \<Rightarrow> nat \<Rightarrow> nat \<Rightarrow> bool" where
  "tl_at ix dt ikvs blocks ipos dpos t j m \<longleftrightarrow>
     j < length blocks \<and> m \<le> length (blocks ! j) \<and> wrapper_pos ix ipos (tl_index t) j \<and>
     (\<exists>w. tl_data t = Some w \<and> wrapper_pos dt (dpos j) w m) \<and> tl_handle t = snd (ikvs ! j) \<and> tl_status t = Status_OK"

text \<open>Between moves: at a pair, or without a data iterator.\<close>

definition tl_pos ::
    "'x Iterator \<Rightarrow> 'd Iterator \<Rightarrow> kv list \<Rightarrow> kv list list \<Rightarrow> ('x \<Rightarrow> nat \<Rightarrow> bool) \<Rightarrow> (nat \<Rightarrow> 'd \<Rightarrow> nat \<Rightarrow> bool) \<Rightarrow>
     ('x, 'd) TwoLevel \<Rightarrow> nat \<Rightarrow> bool" where
  "tl_pos ix dt ikvs blocks ipos dpos t n \<longleftrightarrow>
     (\<exists>j m. tl_at ix dt ikvs blocks ipos dpos t j m \<and> m < length (blocks ! j) \<and> n = boff blocks j + m) \<or>
     n = length (concat blocks) \<and> tl_data t = None \<and> (\<exists>j. wrapper_pos ix ipos (tl_index t) j) \<and> tl_status t = Status_OK"

lemma tl_posI:
  "tl_at ix dt ikvs blocks ipos dpos t j m \<Longrightarrow> m < length (blocks ! j) \<Longrightarrow> n = boff blocks j + m \<Longrightarrow>
   tl_pos ix dt ikvs blocks ipos dpos t n"
  unfolding tl_pos_def by blast

text \<open>Before the data iterator is brought in line with the index.\<close>

definition tl_mid ::
    "'x Iterator \<Rightarrow> 'd Iterator \<Rightarrow> kv list \<Rightarrow> kv list list \<Rightarrow> ('x \<Rightarrow> nat \<Rightarrow> bool) \<Rightarrow> (nat \<Rightarrow> 'd \<Rightarrow> nat \<Rightarrow> bool) \<Rightarrow>
     ('x, 'd) TwoLevel \<Rightarrow> nat \<Rightarrow> bool" where
  "tl_mid ix dt ikvs blocks ipos dpos t j \<longleftrightarrow>
     wrapper_pos ix ipos (tl_index t) j \<and> tl_status t = Status_OK \<and>
     (\<forall>w. tl_data t = Some w \<longrightarrow>
        (\<exists>k m. k < length blocks \<and> wrapper_pos dt (dpos k) w m \<and> tl_handle t = snd (ikvs ! k)))"

lemma tl_pos_mid: "tl_pos ix dt ikvs blocks ipos dpos t n \<Longrightarrow> \<exists>j. tl_mid ix dt ikvs blocks ipos dpos t j"
  unfolding tl_pos_def tl_at_def tl_mid_def by fastforce

lemma tl_at_mid: "tl_at ix dt ikvs blocks ipos dpos t j m \<Longrightarrow> tl_mid ix dt ikvs blocks ipos dpos t j"
  unfolding tl_at_def tl_mid_def by fastforce

lemma index_move_ok:
  assumes "tl_mid ix dt ikvs blocks ipos dpos t j" "\<exists>w'. move (tl_index t) = Some w' \<and> wrapper_pos ix ipos w' j'"
  shows "\<exists>t'. index_move move t = Some t' \<and> tl_mid ix dt ikvs blocks ipos dpos t' j'"
  using assms by (auto simp: index_move_def tl_mid_def)

lemma data_move_ok:
  assumes "tl_at ix dt ikvs blocks ipos dpos t j m" "m' \<le> length (blocks ! j)"
    and "\<And>w. wrapper_pos dt (dpos j) w m \<Longrightarrow> \<exists>w'. move w = Some w' \<and> wrapper_pos dt (dpos j) w' m'"
  shows "\<exists>t'. data_move move t = Some t' \<and> tl_at ix dt ikvs blocks ipos dpos t' j m'"
proof -
  obtain w where w: "tl_data t = Some w" "wrapper_pos dt (dpos j) w m" using assms(1) by (auto simp: tl_at_def)
  obtain w' where "move w = Some w'" "wrapper_pos dt (dpos j) w' m'" using assms(3) [OF w(2)] by blast
  then show ?thesis using w assms(1,2) by (auto simp: data_move_def tl_at_def)
qed

lemma two_level_okD:
  assumes "two_level_ok ix dt bf cmp ikvs blocks ipos dpos"
  shows "three_way cmp" "separates cmp ikvs blocks" "length ikvs = length blocks" "distinct (map snd ikvs)"
    "ordered_iterator (IteratorWrapper ix) cmp ikvs (wrapper_pos ix ipos)"
    "j < length blocks \<Longrightarrow> ordered_iterator (IteratorWrapper dt) cmp (blocks ! j) (wrapper_pos dt (dpos j))"
    "j < length blocks \<Longrightarrow> \<exists>d m. bf (snd (ikvs ! j)) = Some d \<and> dpos j d m"
  using assms by (auto simp: two_level_ok_def separates_def intro: ordered_iterator.wrapper_contract)

lemma SetDataIterator_ok:
  assumes ok: "two_level_ok ix dt bf cmp ikvs blocks ipos dpos" and mid: "tl_mid ix dt ikvs blocks ipos dpos t j"
  shows "SetDataIterator dt d t = t\<lparr>tl_data := map_option (Wrapper_Set dt) d\<rparr>"
    "SetDataIterator dt d (t\<lparr>tl_handle := h\<rparr>) = t\<lparr>tl_handle := h, tl_data := map_option (Wrapper_Set dt) d\<rparr>"
proof -
  have "it_status (IteratorWrapper dt) w = Status_OK" if "tl_data t = Some w" for w
    using mid that two_level_okD(6) [OF ok] by (auto simp: tl_mid_def dest: ordered_iterator.status_at)
  then show "SetDataIterator dt d t = t\<lparr>tl_data := map_option (Wrapper_Set dt) d\<rparr>"
    "SetDataIterator dt d (t\<lparr>tl_handle := h\<rparr>) = t\<lparr>tl_handle := h, tl_data := map_option (Wrapper_Set dt) d\<rparr>"
    by (auto simp: SetDataIterator_def SaveError_def Let_def split: option.splits)
qed

lemma InitDataBlock_ok:
  assumes ok: "two_level_ok ix dt bf cmp ikvs blocks ipos dpos" and mid: "tl_mid ix dt ikvs blocks ipos dpos t j"
  shows "\<exists>t'. InitDataBlock ix dt bf t = Some t' \<and> tl_mid ix dt ikvs blocks ipos dpos t' j \<and>
    (if j < length blocks then \<exists>m. tl_at ix dt ikvs blocks ipos dpos t' j m else tl_data t' = None)"
proof -
  note D = two_level_okD [OF ok]
  have w: "wrapper_pos ix ipos (tl_index t) j" using mid by (simp add: tl_mid_def)
  have v: "iw_valid (tl_index t) \<longleftrightarrow> j < length blocks"
    using ordered_iterator.valid_iff [OF D(5) w] D(3) by (simp add: IteratorWrapper_def)
  show ?thesis
  proof (cases "j < length blocks")
    case False
    then show ?thesis
      using v mid SetDataIterator_ok(1) [OF ok mid, of None] by (simp add: InitDataBlock_def tl_mid_def)
  next
    case True
    have h: "it_value (IteratorWrapper ix) (tl_index t) = snd (ikvs ! j)"
      using ordered_iterator.value_at [OF D(5) w] True D(3) by simp
    show ?thesis
    proof (cases "tl_data t \<noteq> None \<and> snd (ikvs ! j) = tl_handle t")
      case same: True
      then obtain w' k m where k: "tl_data t = Some w'" "k < length blocks" "wrapper_pos dt (dpos k) w' m"
        "tl_handle t = snd (ikvs ! k)" using mid by (auto simp: tl_mid_def)
      have "k = j" using D(3,4) True k(2,4) same by (metis (no_types, lifting) length_map nth_eq_iff_index_eq nth_map)
      moreover have "m \<le> length (blocks ! k)" using ordered_iterator.pos_le [OF D(6) [OF k(2)] k(3)] .
      ultimately have "tl_at ix dt ikvs blocks ipos dpos t j m" using k w mid by (simp add: tl_at_def tl_mid_def)
      moreover have "InitDataBlock ix dt bf t = Some t" using same v True h by (simp add: InitDataBlock_def Let_def)
      ultimately show ?thesis using mid True by auto
    next
      case False
      obtain d m where d: "bf (snd (ikvs ! j)) = Some d" "dpos j d m" using D(7) [OF True] by blast
      let ?t = "t\<lparr>tl_handle := snd (ikvs ! j), tl_data := Some (Wrapper_Set dt d)\<rparr>"
      have p: "wrapper_pos dt (dpos j) (Wrapper_Set dt d) m" by (rule wrapper_pos_Set [of "dpos j", OF d(2)])
      have "SetDataIterator dt (Some d) (t\<lparr>tl_handle := snd (ikvs ! j)\<rparr>) = ?t"
        using SetDataIterator_ok(2) [OF ok mid, of "Some d"] by simp
      then have i: "InitDataBlock ix dt bf t = Some ?t"
        using False v True h d(1) by (auto simp: InitDataBlock_def Let_def)
      have "m \<le> length (blocks ! j)" using ordered_iterator.pos_le [OF D(6) [OF True] p] .
      then have "tl_at ix dt ikvs blocks ipos dpos ?t j m" using p w mid True by (simp add: tl_at_def tl_mid_def)
      then show ?thesis using i True tl_at_mid by fastforce
    qed
  qed
qed

text \<open>One round of the loops and the start of a seek: move the index, open the source, move in it.\<close>

definition enter :: "'x Iterator \<Rightarrow> 'd Iterator \<Rightarrow> (bytes \<Rightarrow> 'd option) \<Rightarrow> ('x Wrapper \<Rightarrow> 'x Wrapper option) \<Rightarrow>
    ('d Wrapper \<Rightarrow> 'd Wrapper option) \<Rightarrow> ('x, 'd) TwoLevel \<Rightarrow> ('x, 'd) TwoLevel option" where
  "enter ix dt bf imove dmove t =
     do { t \<leftarrow> index_move imove t; t \<leftarrow> InitDataBlock ix dt bf t; data_move dmove t }"

lemma enter_ok:
  assumes ok: "two_level_ok ix dt bf cmp ikvs blocks ipos dpos" and mid: "tl_mid ix dt ikvs blocks ipos dpos t j0"
    and i: "\<exists>w'. imove (tl_index t) = Some w' \<and> wrapper_pos ix ipos w' j"
    and d: "\<And>w m. j < length blocks \<Longrightarrow> wrapper_pos dt (dpos j) w m \<Longrightarrow>
        \<exists>w'. dmove w = Some w' \<and> wrapper_pos dt (dpos j) w' m'"
    and m': "j < length blocks \<Longrightarrow> m' \<le> length (blocks ! j)"
  shows "\<exists>t'. enter ix dt bf imove dmove t = Some t' \<and>
    (if j < length blocks then tl_at ix dt ikvs blocks ipos dpos t' j m'
     else tl_mid ix dt ikvs blocks ipos dpos t' j \<and> tl_data t' = None)"
proof -
  obtain t1 where t1: "index_move imove t = Some t1" "tl_mid ix dt ikvs blocks ipos dpos t1 j"
    using index_move_ok [of ix dt ikvs blocks ipos dpos t j0 imove j, OF mid i] by blast
  obtain t2 where t2: "InitDataBlock ix dt bf t1 = Some t2" "tl_mid ix dt ikvs blocks ipos dpos t2 j"
    "if j < length blocks then \<exists>m. tl_at ix dt ikvs blocks ipos dpos t2 j m else tl_data t2 = None"
    using InitDataBlock_ok [OF ok t1(2)] by blast
  show ?thesis
  proof (cases "j < length blocks")
    case True
    then obtain m where "tl_at ix dt ikvs blocks ipos dpos t2 j m" using t2(3) by auto
    from data_move_ok [OF this m' [OF True] d [OF True]] show ?thesis using True t1(1) t2(1) by (simp add: enter_def)
  next
    case False
    then show ?thesis using t1(1) t2 by (simp add: enter_def data_move_def)
  qed
qed

lemma data_Valid_at:
  assumes ok: "two_level_ok ix dt bf cmp ikvs blocks ipos dpos" and "tl_at ix dt ikvs blocks ipos dpos t j m"
  shows "data_Valid t \<longleftrightarrow> m < length (blocks ! j)"
proof -
  obtain w where w: "tl_data t = Some w" "wrapper_pos dt (dpos j) w m" "j < length blocks"
    using assms(2) by (auto simp: tl_at_def)
  have "it_Valid (IteratorWrapper dt) w \<longleftrightarrow> m < length (blocks ! j)"
    by (rule ordered_iterator.valid_iff [OF two_level_okD(6) [OF ok w(3)] w(2)])
  then show ?thesis using w(1) by (simp add: data_Valid_def IteratorWrapper_def)
qed

lemma index_valid_at:
  assumes ok: "two_level_ok ix dt bf cmp ikvs blocks ipos dpos" and "tl_mid ix dt ikvs blocks ipos dpos t j"
  shows "iw_valid (tl_index t) \<longleftrightarrow> j < length blocks"
  using ordered_iterator.valid_iff [OF two_level_okD(5) [OF ok], of "tl_index t" j] two_level_okD(3) [OF ok] assms(2)
  by (simp add: tl_mid_def IteratorWrapper_def)

text \<open>Without a source to go to the loops stop.\<close>

lemma skip_end:
  assumes ok: "two_level_ok ix dt bf cmp ikvs blocks ipos dpos" and mid: "tl_mid ix dt ikvs blocks ipos dpos t j"
    and "tl_data t = None" "\<not> j < length blocks"
  shows "\<exists>t'. SkipEmptyDataBlocksForward ix dt bf t = Some t' \<and> tl_pos ix dt ikvs blocks ipos dpos t' (length (concat blocks))"
    "\<exists>t'. SkipEmptyDataBlocksBackward ix dt bf t = Some t' \<and> tl_pos ix dt ikvs blocks ipos dpos t' (length (concat blocks))"
proof -
  have v: "\<not> data_Valid t" "\<not> iw_valid (tl_index t)"
    using assms(3,4) index_valid_at [OF ok mid] by (simp_all add: data_Valid_def)
  let ?t = "t\<lparr>tl_data := None\<rparr>"
  have s: "SetDataIterator dt None t = ?t" using SetDataIterator_ok(1) [OF ok mid, of None] by simp
  have p: "tl_pos ix dt ikvs blocks ipos dpos ?t (length (concat blocks))"
    using mid by (auto simp: tl_pos_def tl_mid_def)
  show "\<exists>t'. SkipEmptyDataBlocksForward ix dt bf t = Some t' \<and> tl_pos ix dt ikvs blocks ipos dpos t' (length (concat blocks))"
    using v p s by (subst SkipEmptyDataBlocksForward.simps) simp
  show "\<exists>t'. SkipEmptyDataBlocksBackward ix dt bf t = Some t' \<and> tl_pos ix dt ikvs blocks ipos dpos t' (length (concat blocks))"
    using v p s by (subst SkipEmptyDataBlocksBackward.simps) simp
qed

lemma skip_forward_at:
  assumes ok: "two_level_ok ix dt bf cmp ikvs blocks ipos dpos"
  shows "tl_at ix dt ikvs blocks ipos dpos t j m \<Longrightarrow>
    \<exists>t'. SkipEmptyDataBlocksForward ix dt bf t = Some t' \<and> tl_pos ix dt ikvs blocks ipos dpos t' (boff blocks j + m)"
proof (induction "length blocks - j" arbitrary: t j m rule: less_induct)
  case less
  note D = two_level_okD [OF ok] and at = less.prems and mid = tl_at_mid [OF less.prems]
  have j: "j < length blocks" "m \<le> length (blocks ! j)" using at by (simp_all add: tl_at_def)
  show ?case
  proof (cases "m < length (blocks ! j)")
    case True
    then have "SkipEmptyDataBlocksForward ix dt bf t = Some t"
      using data_Valid_at [OF ok at] by (subst SkipEmptyDataBlocksForward.simps) simp
    then show ?thesis using True at by (auto simp: tl_pos_def)
  next
    case False
    have off: "boff blocks (Suc j) = boff blocks j + m" using False j boff_Suc [OF j(1)] by simp
    let ?enter = "enter ix dt bf (it_Next (IteratorWrapper ix)) (it_SeekToFirst (IteratorWrapper dt)) t"
    have step: "SkipEmptyDataBlocksForward ix dt bf t = ?enter \<bind> SkipEmptyDataBlocksForward ix dt bf"
      using False data_Valid_at [OF ok at] index_valid_at [OF ok mid] j(1)
      by (subst SkipEmptyDataBlocksForward.simps) (simp add: enter_def)
    have "\<exists>t'. ?enter = Some t' \<and> (if Suc j < length blocks then tl_at ix dt ikvs blocks ipos dpos t' (Suc j) 0
        else tl_mid ix dt ikvs blocks ipos dpos t' (Suc j) \<and> tl_data t' = None)"
    proof (rule enter_ok [OF ok mid])
      show "\<exists>w'. it_Next (IteratorWrapper ix) (tl_index t) = Some w' \<and> wrapper_pos ix ipos w' (Suc j)"
        by (rule ordered_iterator.next_at [OF D(5)]) (use mid j D(3) in \<open>simp_all add: tl_mid_def\<close>)
      show "\<exists>w'. it_SeekToFirst (IteratorWrapper dt) w = Some w' \<and> wrapper_pos dt (dpos (Suc j)) w' 0"
        if "Suc j < length blocks" "wrapper_pos dt (dpos (Suc j)) w m" for w m
        by (rule ordered_iterator.seek_first [OF D(6) [OF that(1)] that(2)])
    qed simp
    then obtain t1 where t1: "?enter = Some t1" "if Suc j < length blocks then tl_at ix dt ikvs blocks ipos dpos t1 (Suc j) 0
        else tl_mid ix dt ikvs blocks ipos dpos t1 (Suc j) \<and> tl_data t1 = None" by blast
    show ?thesis
    proof (cases "Suc j < length blocks")
      case True
      then show ?thesis using less.hyps [of "Suc j" t1 0] t1 off step by simp
    next
      case False
      then have "boff blocks j + m = length (concat blocks)" using off j(1) boff_length [of blocks] by (metis Suc_lessI)
      then show ?thesis using skip_end(1) [OF ok] t1 False step by auto
    qed
  qed
qed

text \<open>Going back from before the source \<open>j\<close>.\<close>

lemma skip_backward_at:
  assumes ok: "two_level_ok ix dt bf cmp ikvs blocks ipos dpos"
  shows "tl_at ix dt ikvs blocks ipos dpos t j (length (blocks ! j)) \<Longrightarrow>
    \<exists>t'. SkipEmptyDataBlocksBackward ix dt bf t = Some t' \<and>
      tl_pos ix dt ikvs blocks ipos dpos t' (if boff blocks j = 0 then length (concat blocks) else boff blocks j - 1)"
proof (induction j arbitrary: t rule: less_induct)
  case (less j)
  note D = two_level_okD [OF ok] and at = less.prems and mid = tl_at_mid [OF less.prems]
  have j: "j < length blocks" using at by (simp add: tl_at_def)
  let ?j = "if j = 0 then length blocks else j - 1"
  let ?m = "length (blocks ! (j - 1)) - 1"
  let ?enter = "enter ix dt bf (it_Prev (IteratorWrapper ix)) (it_SeekToLast (IteratorWrapper dt)) t"
  have step: "SkipEmptyDataBlocksBackward ix dt bf t = ?enter \<bind> SkipEmptyDataBlocksBackward ix dt bf"
    using data_Valid_at [OF ok at] index_valid_at [OF ok mid] j
    by (subst SkipEmptyDataBlocksBackward.simps) (simp add: enter_def)
  have "\<exists>t'. ?enter = Some t' \<and> (if ?j < length blocks then tl_at ix dt ikvs blocks ipos dpos t' ?j ?m
      else tl_mid ix dt ikvs blocks ipos dpos t' ?j \<and> tl_data t' = None)"
  proof (rule enter_ok [OF ok mid])
    show "\<exists>w'. it_Prev (IteratorWrapper ix) (tl_index t) = Some w' \<and> wrapper_pos ix ipos w' ?j"
      using ordered_iterator.prev_at [OF D(5), of "tl_index t" j] mid j D(3) by (cases "j = 0") (auto simp: tl_mid_def)
    show "\<exists>w'. it_SeekToLast (IteratorWrapper dt) w = Some w' \<and> wrapper_pos dt (dpos ?j) w' ?m"
      if "?j < length blocks" "wrapper_pos dt (dpos ?j) w m" for w m
      using ordered_iterator.seek_last [OF D(6) [OF that(1)] that(2)] that(1) by (simp split: if_splits)
  qed (simp split: if_splits)
  then obtain t1 where t1: "?enter = Some t1" "if ?j < length blocks then tl_at ix dt ikvs blocks ipos dpos t1 ?j ?m
      else tl_mid ix dt ikvs blocks ipos dpos t1 ?j \<and> tl_data t1 = None" by blast
  show ?case
  proof (cases "j = 0")
    case True
    then show ?thesis using skip_end(2) [OF ok] t1 step by auto
  next
    case False
    then have at1: "tl_at ix dt ikvs blocks ipos dpos t1 (j - 1) ?m" using t1(2) j by (cases "j = 0") (auto split: if_splits)
    have off: "boff blocks j = boff blocks (j - 1) + length (blocks ! (j - 1))"
      using boff_Suc [of "j - 1" blocks] False j by simp
    show ?thesis
    proof (cases "blocks ! (j - 1) = []")
      case True
      then show ?thesis using less.IH [of "j - 1" t1] at1 False off step t1(1) by (simp split: if_splits)
    next
      case ne: False
      then have "SkipEmptyDataBlocksBackward ix dt bf t1 = Some t1"
        using data_Valid_at [OF ok at1] by (subst SkipEmptyDataBlocksBackward.simps) simp
      moreover have "tl_pos ix dt ikvs blocks ipos dpos t1 (boff blocks j - 1)"
        by (rule tl_posI [OF at1]) (use ne off in \<open>auto simp: Suc_leI\<close>)
      ultimately show ?thesis using step t1(1) off ne by simp
    qed
  qed
qed

section \<open>The contract\<close>

lemma nth_concat_obtain:
  assumes "n < length (concat blocks)"
  obtains j m where "j < length blocks" "m < length (blocks ! j)" "n = boff blocks j + m"
  using assms
proof (induction blocks arbitrary: n thesis)
  case (Cons b blocks)
  show ?case
  proof (cases "n < length b")
    case True
    then show ?thesis using Cons.prems(1) [of 0 n] by simp
  next
    case False
    then have "n - length b < length (concat blocks)" using Cons.prems(2) by simp
    then obtain j m where "j < length blocks" "m < length (blocks ! j)" "n - length b = boff blocks j + m"
      using Cons.IH by blast
    then show ?thesis using Cons.prems(1) [of "Suc j" m] False by (simp add: boff_def)
  qed
qed simp

lemma boff_mono: "j \<le> j' \<Longrightarrow> boff blocks j \<le> boff blocks j'"
  unfolding boff_def by (metis (no_types, lifting) concat_append le_add1 length_append le_Suc_ex take_add)

text \<open>Where the first pair at or past a target is.\<close>

lemma lower_bound_concat:
  fixes target :: bytes
  assumes "three_way cmp" "separates cmp ikvs blocks"
  defines "i \<equiv> lower_bound cmp target ikvs"
  shows "lower_bound cmp target (concat blocks) =
    (if i < length blocks then boff blocks i + lower_bound cmp target (blocks ! i) else length (concat blocks))"
proof -
  have len: "length ikvs = length blocks" using assms(2) by (simp add: separates_def)
  have before: "cmp (fst (concat blocks ! n)) target < 0" if n: "n < boff blocks i" "n < length (concat blocks)" for n
  proof -
    obtain j m where jm: "j < length blocks" "m < length (blocks ! j)" "n = boff blocks j + m"
      using nth_concat_obtain [OF n(2)] by blast
    have "j < i"
    proof (rule ccontr)
      assume "\<not> j < i"
      then have "boff blocks i \<le> boff blocks j" by (intro boff_mono) simp
      with jm(3) n(1) show False by simp
    qed
    then have "cmp (fst (ikvs ! j)) target < 0" unfolding i_def by (rule lower_bound_below)
    moreover have "cmp (fst (blocks ! j ! m)) (fst (ikvs ! j)) \<le> 0" using assms(2) jm by (simp add: separates_def)
    ultimately have "cmp (fst (blocks ! j ! m)) target < 0" using three_way.cmp_le_less_trans [OF assms(1)] by blast
    then show ?thesis using jm concat_boff by simp
  qed
  show ?thesis
  proof (cases "i < length blocks")
    case False
    then have "boff blocks i = length (concat blocks)" using lower_bound_le [of cmp target ikvs] len boff_length [of blocks]
      by (metis i_def le_antisym not_less)
    then have "lower_bound cmp target (concat blocks) = length (concat blocks)"
      using before by (intro lower_bound_eqI) auto
    with False show ?thesis by simp
  next
    case True
    let ?l = "lower_bound cmp target (blocks ! i)"
    have at: "\<not> cmp (fst (ikvs ! i)) target < 0"
      using lower_bound_at [of cmp target ikvs] True len by (simp add: i_def)
    have l: "?l \<le> length (blocks ! i)" by (rule lower_bound_le)
    have "lower_bound cmp target (concat blocks) = boff blocks i + ?l"
    proof (rule lower_bound_eqI)
      show "boff blocks i + ?l \<le> length (concat blocks)" by (rule boff_bound [OF True l])
      show "cmp (fst (concat blocks ! n)) target < 0" if "n < boff blocks i + ?l" for n
      proof (cases "n < boff blocks i")
        case True
        then show ?thesis using before boff_bound [OF \<open>i < length blocks\<close> l] by simp
      next
        case False
        then have "n - boff blocks i < ?l" using that by simp
        then show ?thesis
          using lower_bound_below [of "n - boff blocks i" cmp target "blocks ! i"] l
            concat_boff [OF \<open>i < length blocks\<close>, of "n - boff blocks i"] False by simp
      qed
      show "\<not> cmp (fst (concat blocks ! (boff blocks i + ?l))) target < 0" if n: "boff blocks i + ?l < length (concat blocks)"
      proof (cases "?l < length (blocks ! i)")
        case True
        then show ?thesis using lower_bound_at [OF True] concat_boff [OF \<open>i < length blocks\<close> True] by simp
      next
        case False
        obtain j m where jm: "j < length blocks" "m < length (blocks ! j)" "boff blocks i + ?l = boff blocks j + m"
          using nth_concat_obtain [OF n] by blast
        have "i < j"
        proof (rule ccontr)
          assume "\<not> i < j"
          then have "boff blocks (Suc j) \<le> boff blocks (Suc i)" by (intro boff_mono) simp
          then show False using jm False l True boff_Suc [OF jm(1)] boff_Suc [OF \<open>i < length blocks\<close>] by simp
        qed
        then have "cmp (fst (ikvs ! i)) (fst (blocks ! j ! m)) < 0" using assms(2) jm True by (simp add: separates_def)
        then show ?thesis
          using at jm concat_boff [OF jm(1,2)] three_way.cmp_less_trans [OF assms(1)] by fastforce
      qed
    qed
    with True show ?thesis by simp
  qed
qed

text \<open>Entering a source by an absolute move and skipping on.\<close>

lemma enter_forward:
  assumes ok: "two_level_ok ix dt bf cmp ikvs blocks ipos dpos" and pos: "tl_pos ix dt ikvs blocks ipos dpos t n"
    and i: "\<And>j0. wrapper_pos ix ipos (tl_index t) j0 \<Longrightarrow> \<exists>w'. imove (tl_index t) = Some w' \<and> wrapper_pos ix ipos w' j"
    and d: "\<And>w m. j < length blocks \<Longrightarrow> wrapper_pos dt (dpos j) w m \<Longrightarrow>
        \<exists>w'. dmove w = Some w' \<and> wrapper_pos dt (dpos j) w' m'"
    and m': "j < length blocks \<Longrightarrow> m' \<le> length (blocks ! j)"
  shows "\<exists>t'. enter ix dt bf imove dmove t \<bind> SkipEmptyDataBlocksForward ix dt bf = Some t' \<and>
    tl_pos ix dt ikvs blocks ipos dpos t' (if j < length blocks then boff blocks j + m' else length (concat blocks))"
proof -
  obtain j0 where mid: "tl_mid ix dt ikvs blocks ipos dpos t j0" using tl_pos_mid [OF pos] by blast
  then have w: "wrapper_pos ix ipos (tl_index t) j0" by (simp add: tl_mid_def)
  obtain t1 where t1: "enter ix dt bf imove dmove t = Some t1" "if j < length blocks then tl_at ix dt ikvs blocks ipos dpos t1 j m'
      else tl_mid ix dt ikvs blocks ipos dpos t1 j \<and> tl_data t1 = None"
    using enter_ok [of ix dt bf cmp ikvs blocks ipos dpos t j0 imove j dmove m', OF ok mid i [OF w]] d m' by blast
  show ?thesis
    using t1 skip_forward_at [OF ok, of t1 j m'] skip_end(1) [OF ok, of t1 j] by (cases "j < length blocks") auto
qed

lemma TwoLevel_SeekToLast_ok:
  assumes ok: "two_level_ok ix dt bf cmp ikvs blocks ipos dpos" and pos: "tl_pos ix dt ikvs blocks ipos dpos t n"
  shows "\<exists>t'. TwoLevel_SeekToLast ix dt bf t = Some t' \<and> tl_pos ix dt ikvs blocks ipos dpos t' (length (concat blocks) - 1)"
proof -
  note D = two_level_okD [OF ok]
  let ?j = "length blocks - 1"
  let ?m = "length (blocks ! ?j) - 1"
  let ?enter = "enter ix dt bf (it_SeekToLast (IteratorWrapper ix)) (it_SeekToLast (IteratorWrapper dt)) t"
  obtain j0 where mid: "tl_mid ix dt ikvs blocks ipos dpos t j0" using tl_pos_mid [OF pos] by blast
  have "\<exists>t'. ?enter = Some t' \<and> (if ?j < length blocks then tl_at ix dt ikvs blocks ipos dpos t' ?j ?m
      else tl_mid ix dt ikvs blocks ipos dpos t' ?j \<and> tl_data t' = None)"
  proof (rule enter_ok [OF ok mid])
    show "\<exists>w'. it_SeekToLast (IteratorWrapper ix) (tl_index t) = Some w' \<and> wrapper_pos ix ipos w' ?j"
      using ordered_iterator.seek_last [OF D(5), of "tl_index t" j0] mid D(3) by (simp add: tl_mid_def)
    show "\<exists>w'. it_SeekToLast (IteratorWrapper dt) w = Some w' \<and> wrapper_pos dt (dpos ?j) w' ?m"
      if "?j < length blocks" "wrapper_pos dt (dpos ?j) w m" for w m
      by (rule ordered_iterator.seek_last [OF D(6) [OF that(1)] that(2)])
  qed simp
  then obtain t1 where t1: "?enter = Some t1" "if ?j < length blocks then tl_at ix dt ikvs blocks ipos dpos t1 ?j ?m
      else tl_mid ix dt ikvs blocks ipos dpos t1 ?j \<and> tl_data t1 = None" by blast
  have step: "TwoLevel_SeekToLast ix dt bf t = ?enter \<bind> SkipEmptyDataBlocksBackward ix dt bf"
    by (simp add: TwoLevel_SeekToLast_def enter_def)
  show ?thesis
  proof (cases "blocks = []")
    case True
    then show ?thesis using t1 skip_end(2) [OF ok, of t1 0] step by simp
  next
    case False
    then have j: "?j < length blocks" "Suc ?j = length blocks" by simp_all
    then have at: "tl_at ix dt ikvs blocks ipos dpos t1 ?j ?m" using t1(2) by simp
    have off: "length (concat blocks) = boff blocks ?j + length (blocks ! ?j)"
      using boff_Suc [OF j(1)] boff_length [of blocks] j(2) by simp
    show ?thesis
    proof (cases "blocks ! ?j = []")
      case True
      then have "(if boff blocks ?j = 0 then length (concat blocks) else boff blocks ?j - 1) = length (concat blocks) - 1"
        using off by simp
      with skip_backward_at [OF ok, of t1 ?j] at True show ?thesis unfolding step t1(1) by simp
    next
      case ne: False
      then have "SkipEmptyDataBlocksBackward ix dt bf t1 = Some t1"
        using data_Valid_at [OF ok at] by (subst SkipEmptyDataBlocksBackward.simps) simp
      moreover have "tl_pos ix dt ikvs blocks ipos dpos t1 (length (concat blocks) - 1)"
        by (rule tl_posI [OF at]) (use ne off in \<open>auto simp: Suc_leI\<close>)
      ultimately show ?thesis using step t1(1) by simp
    qed
  qed
qed

lemma TwoLevel_Next_ok:
  assumes ok: "two_level_ok ix dt bf cmp ikvs blocks ipos dpos" and at: "tl_at ix dt ikvs blocks ipos dpos t j m"
    and m: "m < length (blocks ! j)"
  shows "\<exists>t'. TwoLevel_Next ix dt bf t = Some t' \<and> tl_pos ix dt ikvs blocks ipos dpos t' (Suc (boff blocks j + m))"
proof -
  have j: "j < length blocks" using at by (simp add: tl_at_def)
  have "\<exists>t'. data_move (it_Next (IteratorWrapper dt)) t = Some t' \<and> tl_at ix dt ikvs blocks ipos dpos t' j (Suc m)"
  proof (rule data_move_ok [OF at])
    show "\<exists>w'. it_Next (IteratorWrapper dt) w = Some w' \<and> wrapper_pos dt (dpos j) w' (Suc m)"
      if "wrapper_pos dt (dpos j) w m" for w
      by (rule ordered_iterator.next_at [OF two_level_okD(6) [OF ok j] that m])
  qed (use m in simp)
  then show ?thesis using skip_forward_at [OF ok] by (fastforce simp: TwoLevel_Next_def)
qed

lemma TwoLevel_Prev_ok:
  assumes ok: "two_level_ok ix dt bf cmp ikvs blocks ipos dpos" and at: "tl_at ix dt ikvs blocks ipos dpos t j m"
    and m: "m < length (blocks ! j)"
  shows "\<exists>t'. TwoLevel_Prev ix dt bf t = Some t' \<and> tl_pos ix dt ikvs blocks ipos dpos t'
    (if boff blocks j + m = 0 then length (concat blocks) else boff blocks j + m - 1)"
proof -
  have j: "j < length blocks" using at by (simp add: tl_at_def)
  let ?m = "if m = 0 then length (blocks ! j) else m - 1"
  have "\<exists>t'. data_move (it_Prev (IteratorWrapper dt)) t = Some t' \<and> tl_at ix dt ikvs blocks ipos dpos t' j ?m"
  proof (rule data_move_ok [OF at])
    show "\<exists>w'. it_Prev (IteratorWrapper dt) w = Some w' \<and> wrapper_pos dt (dpos j) w' ?m"
      if "wrapper_pos dt (dpos j) w m" for w
      by (rule ordered_iterator.prev_at [OF two_level_okD(6) [OF ok j] that m])
  qed (use m in auto)
  then obtain t1 where t1: "data_move (it_Prev (IteratorWrapper dt)) t = Some t1" "tl_at ix dt ikvs blocks ipos dpos t1 j ?m"
    by blast
  have step: "TwoLevel_Prev ix dt bf t = SkipEmptyDataBlocksBackward ix dt bf t1" using t1(1) by (simp add: TwoLevel_Prev_def)
  show ?thesis
  proof (cases "m = 0")
    case True
    then show ?thesis using skip_backward_at [OF ok, of t1 j] t1(2) step by (simp split: if_splits)
  next
    case False
    then have at1: "tl_at ix dt ikvs blocks ipos dpos t1 j (m - 1)" using t1(2) by simp
    then have "SkipEmptyDataBlocksBackward ix dt bf t1 = Some t1"
      using data_Valid_at [OF ok at1] less_imp_diff_less [OF m, of 1] by (subst SkipEmptyDataBlocksBackward.simps) simp
    moreover have "tl_pos ix dt ikvs blocks ipos dpos t1 (boff blocks j + m - 1)"
      by (rule tl_posI [OF at1]) (use m False in auto)
    ultimately show ?thesis using step False by simp
  qed
qed

lemma TwoLevel_contract:
  assumes ok: "two_level_ok ix dt bf cmp ikvs blocks ipos dpos"
  shows "ordered_iterator (TwoLevelIterator ix dt bf) cmp (concat blocks) (tl_pos ix dt ikvs blocks ipos dpos)"
proof unfold_locales
  fix t n target
  assume p: "tl_pos ix dt ikvs blocks ipos dpos t n"
  note D = two_level_okD [OF ok] and d = TwoLevelIterator_def Iterator.simps
  have at: "\<exists>j m. tl_at ix dt ikvs blocks ipos dpos t j m \<and> m < length (blocks ! j) \<and> j < length blocks \<and> n = boff blocks j + m"
    if "n < length (concat blocks)" using p that by (auto simp: tl_pos_def tl_at_def)
  show "n \<le> length (concat blocks)" using p boff_bound by (fastforce simp: tl_pos_def tl_at_def)
  show "it_Valid (TwoLevelIterator ix dt bf) t = (n < length (concat blocks))"
  proof (cases "tl_data t")
    case None
    then show ?thesis using p by (auto simp: d tl_pos_def tl_at_def data_Valid_def)
  next
    case (Some w)
    then obtain j m where jm: "tl_at ix dt ikvs blocks ipos dpos t j m" "m < length (blocks ! j)" "n = boff blocks j + m"
      using p by (auto simp: tl_pos_def)
    then have "j < length blocks" by (simp add: tl_at_def)
    then show ?thesis using data_Valid_at [OF ok jm(1)] boff_bound_less [of j blocks m] jm(2,3) by (simp add: d)
  qed
  have sd: "it_status (IteratorWrapper dt) w = Status_OK" if "tl_data t = Some w" for w
    using p that by (auto simp: tl_pos_def tl_at_def dest!: ordered_iterator.status_at [OF D(6), rotated])
  have si: "it_status (IteratorWrapper ix) (tl_index t) = Status_OK" "tl_status t = Status_OK"
    using p ordered_iterator.status_at [OF D(5)] by (auto simp: tl_pos_def tl_at_def)
  show "it_status (TwoLevelIterator ix dt bf) t = Status_OK"
    unfolding d TwoLevel_status_def using sd si by (simp split: option.splits)
  have first: "\<exists>t'. it_SeekToFirst (TwoLevelIterator ix dt bf) t = Some t' \<and> tl_pos ix dt ikvs blocks ipos dpos t'
      (if 0 < length blocks then boff blocks 0 + 0 else length (concat blocks))"
    using enter_forward [OF ok p, of "it_SeekToFirst (IteratorWrapper ix)" 0 "it_SeekToFirst (IteratorWrapper dt)" 0]
      ordered_iterator.seek_first [OF D(5)] ordered_iterator.seek_first [OF D(6)]
    unfolding d TwoLevel_SeekToFirst_def enter_def by simp
  then show "\<exists>t'. it_SeekToFirst (TwoLevelIterator ix dt bf) t = Some t' \<and> tl_pos ix dt ikvs blocks ipos dpos t' 0"
    by (cases blocks) simp_all
  show "\<exists>t'. it_SeekToLast (TwoLevelIterator ix dt bf) t = Some t' \<and>
      tl_pos ix dt ikvs blocks ipos dpos t' (length (concat blocks) - 1)"
    unfolding d by (rule TwoLevel_SeekToLast_ok [OF ok p])
  show "\<exists>t'. it_Seek (TwoLevelIterator ix dt bf) target t = Some t' \<and>
      tl_pos ix dt ikvs blocks ipos dpos t' (lower_bound cmp target (concat blocks))"
    using enter_forward [OF ok p, of "it_Seek (IteratorWrapper ix) target" "lower_bound cmp target ikvs"
        "it_Seek (IteratorWrapper dt) target" "lower_bound cmp target (blocks ! lower_bound cmp target ikvs)"]
      ordered_iterator.seek [OF D(5)] ordered_iterator.seek [OF D(6)] lower_bound_le
    unfolding lower_bound_concat [OF D(1,2)] d TwoLevel_Seek_def enter_def by simp
  assume n: "n < length (concat blocks)"
  then obtain j m where jm: "tl_at ix dt ikvs blocks ipos dpos t j m" "m < length (blocks ! j)" "j < length blocks"
    "n = boff blocks j + m" using at by blast
  then obtain w where w: "tl_data t = Some w" "wrapper_pos dt (dpos j) w m" by (auto simp: tl_at_def)
  show "it_key (TwoLevelIterator ix dt bf) t = fst (concat blocks ! n)"
    using w ordered_iterator.key_at [OF D(6) [OF jm(3)] w(2) jm(2)] concat_boff [OF jm(3,2)] jm(4) by (simp add: d)
  show "it_value (TwoLevelIterator ix dt bf) t = snd (concat blocks ! n)"
    using w ordered_iterator.value_at [OF D(6) [OF jm(3)] w(2) jm(2)] concat_boff [OF jm(3,2)] jm(4) by (simp add: d)
  show "\<exists>t'. it_Next (TwoLevelIterator ix dt bf) t = Some t' \<and> tl_pos ix dt ikvs blocks ipos dpos t' (Suc n)"
    unfolding d jm(4) by (rule TwoLevel_Next_ok [OF ok jm(1,2)])
  show "\<exists>t'. it_Prev (TwoLevelIterator ix dt bf) t = Some t' \<and>
      tl_pos ix dt ikvs blocks ipos dpos t' (if n = 0 then length (concat blocks) else n - 1)"
    unfolding d jm(4) by (rule TwoLevel_Prev_ok [OF ok jm(1,2)])
qed

end
