(* ===== verification/Table_Builder_Correct.thy ===== *)
theory Table_Builder_Correct
  imports Table_Builder Two_Level Dbformat
begin

text \<open>
  What a table builder writes: as long as every write succeeds, the file is the data blocks, the
  filter block, the metaindex block, the index block and the footer, and the index separates the
  blocks.
\<close>

section \<open>Comparators whose separators do not grow\<close>

locale short_comparator = key_comparator +
  assumes separator_length: "length (FindShortestSeparator c start limit) \<le> length start"
    and successor_length: "length (FindShortSuccessor c key) \<le> length key"

lemma Bytewise_successor_length: "length (Bytewise_FindShortSuccessor key) \<le> length key"
  by (induction key) simp_all

interpretation bytewise_short: short_comparator BytewiseComparator
  by unfold_locales (auto simp: Bytewise_FindShortestSeparator_def Let_def Bytewise_successor_length)

interpretation internal_short: short_comparator "InternalKeyComparator BytewiseComparator"
  by unfold_locales
     (auto simp: InternalKeyComparator_FindShortestSeparator_def InternalKeyComparator_FindShortSuccessor_def
       Let_def ExtractUserKey_def PutFixed64_def)

lemma short_comparator_key: "short_comparator c \<Longrightarrow> key_comparator c"
  by (simp add: short_comparator_def)

lemma short_comparator_three_way: "short_comparator c \<Longrightarrow> three_way (Compare c)"
  by (simp add: short_comparator_def key_comparator_def)

section \<open>The representation invariant\<close>

text \<open>
  \<open>blocks\<close> are the data blocks in the file, \<open>cur\<close> the pairs of the block being built, \<open>ikvs\<close> the entries
  of the index block so far: one for every block in the file, except for the last one while its entry
  is pending.
\<close>

definition index_entry :: "Snappy \<Rightarrow> Options \<Rightarrow> kv list list \<Rightarrow> kv list \<Rightarrow> nat \<Rightarrow> kv \<Rightarrow> bool" where
  "index_entry sn opts blocks cur j e \<longleftrightarrow>
     snd e = encode_handle (handle_at sn opts blocks j) \<and> length (fst e) \<le> length (fst (last (blocks ! j))) \<and>
     (\<forall>kv \<in> set (blocks ! j). Compare (opt_comparator opts) (fst kv) (fst e) \<le> 0) \<and>
     (\<forall>kv \<in> set (concat (drop (Suc j) blocks) @ cur). Compare (opt_comparator opts) (fst e) (fst kv) < 0) \<and>
     (concat (drop (Suc j) blocks) @ cur \<noteq> [] \<longrightarrow>
        fst e = FindShortestSeparator (opt_comparator opts) (fst (last (blocks ! j)))
                  (fst (hd (concat (drop (Suc j) blocks) @ cur))))"

definition index_entries :: "Snappy \<Rightarrow> Options \<Rightarrow> kv list list \<Rightarrow> kv list \<Rightarrow> kv list \<Rightarrow> bool" where
  "index_entries sn opts blocks cur ikvs \<longleftrightarrow>
     length ikvs \<le> length blocks \<and> (\<forall>j<length ikvs. index_entry sn opts blocks cur j (ikvs ! j))"

definition tb_rep ::
    "('f \<Rightarrow> bytes) \<Rightarrow> ('f \<Rightarrow> bool) \<Rightarrow> Snappy \<Rightarrow> Options \<Rightarrow> kv list list \<Rightarrow> kv list \<Rightarrow> kv list \<Rightarrow> 'f TableBuilder \<Rightarrow> bool" where
  "tb_rep contents ok sn opts blocks cur ikvs r \<longleftrightarrow>
     tb_options r = opts \<and> tb_status r = Status_OK \<and> ok (tb_file r) \<and>
     contents (tb_file r) = data_bytes sn opts blocks \<and> tb_offset r = of_nat (length (data_bytes sn opts blocks)) \<and>
     built (opt_block_restart_interval opts) cur (tb_data_block r) \<and> built 1 ikvs (tb_index_block r) \<and>
     tb_num_entries r = of_nat (length (concat blocks @ cur)) \<and> [] \<notin> set blocks \<and>
     index_entries sn opts blocks cur ikvs \<and>
     (if tb_pending_index_entry r
      then cur = [] \<and> length blocks = Suc (length ikvs) \<and> tb_pending_handle r = handle_at sn opts blocks (length ikvs)
      else length blocks = length ikvs \<and> (cur = [] \<longrightarrow> blocks = [])) \<and>
     (concat blocks @ cur \<noteq> [] \<longrightarrow> tb_last_key r = fst (last (concat blocks @ cur))) \<and>
     tb_filter_block r = map_option (\<lambda>p. (p, add_blocks (fp_CreateFilter p) (filter_calls sn opts blocks cur)
         FilterBlockBuilder_make)) (opt_filter_policy opts)"

lemma index_entries_snoc:
  assumes "index_entries sn opts blocks [] ikvs" "length blocks = Suc (length ikvs)"
    and "\<forall>kv \<in> set (last blocks). Compare (opt_comparator opts) (fst kv) sep \<le> 0"
    and "length sep \<le> length (fst (last (last blocks)))"
  shows "index_entries sn opts blocks [] (ikvs @ [(sep, encode_handle (handle_at sn opts blocks (length ikvs)))])"
proof -
  have "blocks \<noteq> []" "length blocks - 1 = length ikvs" using assms(2) by auto
  then have l: "blocks ! length ikvs = last blocks" by (simp add: last_conv_nth)
  have "index_entry sn opts blocks [] (length ikvs) (sep, encode_handle (handle_at sn opts blocks (length ikvs)))"
    using assms(2-4) by (simp add: index_entry_def l)
  then show ?thesis using assms(1,2) by (simp add: index_entries_def nth_append less_Suc_eq)
qed

lemma index_entries_key:
  assumes "index_entries sn opts blocks cur ikvs" "\<forall>j<length ikvs. Compare (opt_comparator opts) (fst (ikvs ! j)) k < 0"
    and "\<forall>j<length ikvs. concat (drop (Suc j) blocks) @ cur = [] \<longrightarrow>
      fst (ikvs ! j) = FindShortestSeparator (opt_comparator opts) (fst (last (blocks ! j))) k"
  shows "index_entries sn opts blocks (cur @ [(k, v)]) ikvs"
  unfolding index_entries_def
proof (intro conjI allI impI)
  show "length ikvs \<le> length blocks" using assms(1) by (simp add: index_entries_def)
  fix j assume j: "j < length ikvs"
  obtain L where L: "concat (drop (Suc j) blocks) @ cur = L" by simp
  have L': "concat (drop (Suc j) blocks) @ cur @ [(k, v)] = L @ [(k, v)]" by (simp flip: L)
  have "index_entry sn opts blocks cur j (ikvs ! j)" using assms(1) j by (simp add: index_entries_def)
  then show "index_entry sn opts blocks (cur @ [(k, v)]) j (ikvs ! j)"
    using assms(2,3) [rule_format, OF j] unfolding index_entry_def L L' by (cases "L = []") auto
qed

lemma index_entries_flush:
  "index_entries sn opts blocks cur ikvs \<Longrightarrow> index_entries sn opts (blocks @ [cur]) [] ikvs"
  by (simp add: index_entries_def index_entry_def handle_at_append nth_append)

lemma last_in_later:
  assumes "j < length blocks" "[] \<notin> set blocks" "Suc j < length blocks \<or> cur \<noteq> []"
  shows "last (concat blocks @ cur) \<in> set (concat (drop (Suc j) blocks) @ cur)"
proof (cases "cur = []")
  case True
  then have d: "drop (Suc j) blocks \<noteq> []" using assms(3) by simp
  have "last (drop (Suc j) blocks) \<in> set blocks" by (rule in_set_dropD [OF last_in_set [OF d]])
  then have "last (drop (Suc j) blocks) \<noteq> []" using assms(2) by auto
  then have ne: "concat (drop (Suc j) blocks) \<noteq> []" using last_in_set [OF d] by auto
  have "concat blocks = concat (take (Suc j) blocks) @ concat (drop (Suc j) blocks)"
    by (metis append_take_drop_id concat_append)
  then have "last (concat blocks) = last (concat (drop (Suc j) blocks))" using ne by simp
  then show ?thesis using True last_in_set [OF ne] by simp
qed simp

section \<open>Calls on the filter builder\<close>

lemma add_blocks_snoc:
  "add_blocks create (calls @ [(off, [])]) b = StartBlock create off (add_blocks create calls b)"
  by (simp add: add_blocks_def)

lemma add_blocks_AddKey:
  "add_blocks create (filter_calls sn opts blocks (cur @ [(k, v)])) b =
     AddKey k (add_blocks create (filter_calls sn opts blocks cur) b)"
  by (simp add: add_blocks_def filter_calls_def)

lemma add_blocks_flush:
  "add_blocks create (filter_calls sn opts (blocks @ [cur]) []) b =
     StartBlock create (of_nat (length (data_bytes sn opts (blocks @ [cur]))))
       (add_blocks create (filter_calls sn opts blocks cur) b)"
  unfolding filter_calls_flush by (rule add_blocks_snoc)

section \<open>Adding a pair\<close>

text \<open>The key and the pair go to the filter and to the data block.\<close>

definition add_pair :: "bytes \<Rightarrow> bytes \<Rightarrow> 'f TableBuilder \<Rightarrow> 'f TableBuilder" where
  "add_pair key v r =
     r\<lparr>tb_filter_block := map_option (\<lambda>(p, fb). (p, AddKey key fb)) (tb_filter_block r),
       tb_last_key := key, tb_num_entries := tb_num_entries r + 1,
       tb_data_block := BlockBuilder_Add (opt_block_restart_interval (tb_options r)) key v (tb_data_block r)\<rparr>"

lemma TableBuilder_Add_eq:
  "TableBuilder_Add sn fo key v r =
     (if \<not> Status_ok (tb_status r) then r
      else
        (let r1 = (if tb_pending_index_entry r
                   then add_index_entry (FindShortestSeparator (opt_comparator (tb_options r)) (tb_last_key r) key) r
                   else r);
             r2 = add_pair key v r1
         in if BlockBuilder_CurrentSizeEstimate (tb_data_block r2) \<ge> opt_block_size (tb_options r2)
            then TableBuilder_Flush sn fo r2 else r2))"
  by (simp add: TableBuilder_Add_def add_pair_def Let_def)

section \<open>The layout of the whole file\<close>

definition filter_contents :: "Snappy \<Rightarrow> Options \<Rightarrow> kv list list \<Rightarrow> FilterPolicy \<Rightarrow> bytes" where
  "filter_contents sn opts blocks p = fst (FilterBlockBuilder_Finish (fp_CreateFilter p)
     (add_blocks (fp_CreateFilter p) (filter_calls sn opts blocks []) FilterBlockBuilder_make))"

definition filter_handle :: "Snappy \<Rightarrow> Options \<Rightarrow> kv list list \<Rightarrow> FilterPolicy \<Rightarrow> BlockHandle" where
  "filter_handle sn opts blocks p =
     \<lparr>bh_offset = of_nat (length (data_bytes sn opts blocks)), bh_size = of_nat (length (filter_contents sn opts blocks p))\<rparr>"

definition filter_stored :: "Snappy \<Rightarrow> Options \<Rightarrow> kv list list \<Rightarrow> bytes" where
  "filter_stored sn opts blocks =
     (case opt_filter_policy opts of None \<Rightarrow> [] | Some p \<Rightarrow> stored_block (filter_contents sn opts blocks p) kNoCompression)"

definition meta_kvs :: "Snappy \<Rightarrow> Options \<Rightarrow> kv list list \<Rightarrow> kv list" where
  "meta_kvs sn opts blocks =
     (case opt_filter_policy opts of None \<Rightarrow> []
      | Some p \<Rightarrow> [(lit ''filter.'' @ fp_Name p, encode_handle (filter_handle sn opts blocks p))])"

definition before_meta :: "Snappy \<Rightarrow> Options \<Rightarrow> kv list list \<Rightarrow> bytes" where
  "before_meta sn opts blocks = data_bytes sn opts blocks @ filter_stored sn opts blocks"

definition before_index :: "Snappy \<Rightarrow> Options \<Rightarrow> kv list list \<Rightarrow> bytes" where
  "before_index sn opts blocks =
     before_meta sn opts blocks @ stored_kvs sn opts (opt_block_restart_interval opts) (meta_kvs sn opts blocks)"

definition table_footer :: "Snappy \<Rightarrow> Options \<Rightarrow> kv list list \<Rightarrow> kv list \<Rightarrow> Footer" where
  "table_footer sn opts blocks ikvs =
     \<lparr>ft_metaindex_handle = \<lparr>bh_offset = of_nat (length (before_meta sn opts blocks)),
        bh_size = of_nat (stored_size sn opts (opt_block_restart_interval opts) (meta_kvs sn opts blocks))\<rparr>,
      ft_index_handle = \<lparr>bh_offset = of_nat (length (before_index sn opts blocks)),
        bh_size = of_nat (stored_size sn opts 1 ikvs)\<rparr>\<rparr>"

definition table_bytes :: "Snappy \<Rightarrow> Options \<Rightarrow> kv list list \<Rightarrow> kv list \<Rightarrow> bytes" where
  "table_bytes sn opts blocks ikvs =
     before_index sn opts blocks @ stored_kvs sn opts 1 ikvs @ encode_footer (table_footer sn opts blocks ikvs)"

section \<open>Writing a block\<close>

lemma stored_block_trailer:
  "stored_block c type =
     c @ [CompressionType_value type] @
       EncodeFixed32 (Mask (crc32c_Extend (crc32c_Value c) [CompressionType_value type]))"
  by (simp add: stored_block_def crc32c_Value_def crc32c_Extend_append)

definition wrote :: "('f \<Rightarrow> bytes) \<Rightarrow> ('f \<Rightarrow> bool) \<Rightarrow> bytes \<Rightarrow> 'f TableBuilder \<Rightarrow> 'f TableBuilder \<Rightarrow> bool" where
  "wrote contents ok bs r r' \<longleftrightarrow>
     (\<exists>f. r' = r\<lparr>tb_file := f, tb_status := Status_OK, tb_offset := tb_offset r + of_nat (length bs)\<rparr> \<and>
        ok f \<and> contents f = contents (tb_file r) @ bs)"

lemma wrote_trans: "wrote contents ok a r r' \<Longrightarrow> wrote contents ok b r' r'' \<Longrightarrow> wrote contents ok (a @ b) r r''"
  by (auto simp: wrote_def add.assoc)

lemma wrote_simps:
  assumes "wrote contents ok bs r r'"
  shows "tb_options r' = tb_options r" "tb_status r' = Status_OK" "ok (tb_file r')"
    "contents (tb_file r') = contents (tb_file r) @ bs" "tb_offset r' = tb_offset r + of_nat (length bs)"
    "tb_filter_block r' = tb_filter_block r" "tb_index_block r' = tb_index_block r"
    "tb_pending_index_entry r' = tb_pending_index_entry r" "tb_pending_handle r' = tb_pending_handle r"
    "tb_last_key r' = tb_last_key r" "tb_num_entries r' = tb_num_entries r" "tb_closed r' = tb_closed r"
  using assms by (auto simp: wrote_def)

text \<open>Once a write has failed nothing more is written.\<close>

lemma failed_steps:
  assumes "\<not> Status_ok (tb_status r)"
  shows "TableBuilder_Add sn fo k v r = r" "TableBuilder_Flush sn fo r = r" "snd (finish_filter fo r) = r"
    "finish_meta sn fo h r = (BlockHandle_make, r)" "finish_index sn fo r = (BlockHandle_make, r)"
    "finish_footer fo mh ih r = r"
  using assms by (auto simp: TableBuilder_Add_def TableBuilder_Flush_def finish_filter_def finish_meta_def
      finish_index_def finish_footer_def split: option.splits)

text \<open>A client of the builder: every pair in turn, then \<^verbatim>\<open>Finish\<close>.\<close>

definition add_pairs :: "Snappy \<Rightarrow> 'f WritableFile \<Rightarrow> kv list \<Rightarrow> 'f TableBuilder \<Rightarrow> 'f TableBuilder" where
  "add_pairs sn fo kvs r = foldl (\<lambda>r (k, v). TableBuilder_Add sn fo k v r) r kvs"

definition build_table :: "Snappy \<Rightarrow> 'f WritableFile \<Rightarrow> Options \<Rightarrow> kv list \<Rightarrow> 'f \<Rightarrow> Status \<times> 'f TableBuilder" where
  "build_table sn fo opts kvs f = TableBuilder_Finish sn fo (add_pairs sn fo kvs (TableBuilder_make opts f))"

context writable_file
begin

lemma WriteRawBlock_ok:
  assumes "ok (tb_file r)" "WriteRawBlock fo c type r = (h, r')" "Status_ok (tb_status r')"
  shows "h = \<lparr>bh_offset = tb_offset r, bh_size = of_nat (length c)\<rparr> \<and>
    wrote contents ok (stored_block c type) r r'"
proof -
  obtain s1 f1 where a1: "wf_Append fo c (tb_file r) = (s1, f1)" by fastforce
  obtain s2 f2 where a2: "wf_Append fo ([CompressionType_value type] @
      EncodeFixed32 (Mask (crc32c_Extend (crc32c_Value c) [CompressionType_value type]))) f1 = (s2, f2)" by fastforce
  have s1: "Status_ok s1" using assms(2,3) a1 by (auto simp: WriteRawBlock_def Let_def split: if_splits)
  have s2: "Status_ok s2" using assms(2,3) a1 a2 s1 by (auto simp: WriteRawBlock_def Let_def split: if_splits)
  have "contents f2 = contents (tb_file r) @ stored_block c type" "ok f2"
    using append_ok [OF assms(1) a1 s1] append_inv [OF assms(1) a1] append_ok [OF _ a2 s2] append_inv [OF _ a2]
    by (simp_all add: stored_block_trailer)
  then show ?thesis
    using assms(2) a1 a2 s1 s2 by (auto simp: WriteRawBlock_def Let_def Status_ok_iff wrote_def)
qed

lemma WriteBlock_ok:
  assumes "ok (tb_file r)" "built interval kvs b" "WriteBlock sn fo b r = (h, b', r')" "Status_ok (tb_status r')"
  shows "h = \<lparr>bh_offset = tb_offset r, bh_size = of_nat (stored_size sn (tb_options r) interval kvs)\<rparr> \<and> built i' [] b' \<and>
    wrote contents ok (stored_kvs sn (tb_options r) interval kvs) r r'"
proof -
  obtain raw b0 where f: "BlockBuilder_Finish b = (raw, b0)" by fastforce
  then have raw: "raw = block_bytes interval kvs" using built_Finish [OF assms(2)] by simp
  obtain c type where c: "choose_block sn (opt_compression (tb_options r)) raw = (c, type)" by fastforce
  have w: "WriteRawBlock fo c type r = (h, r')" and b': "b' = BlockBuilder_Reset b0"
    using assms(3) f c by (auto simp: WriteBlock_def Let_def split: prod.splits)
  show ?thesis
    using WriteRawBlock_ok [OF assms(1) w assms(4)] c b' built_Reset
    by (simp add: stored_kvs_def stored_size_def raw [symmetric])
qed


lemma Flush_ok:
  assumes rep: "tb_rep contents ok sn opts blocks cur ikvs r" and cur: "cur \<noteq> []"
    and st: "Status_ok (tb_status (TableBuilder_Flush sn fo r))"
  shows "tb_rep contents ok sn opts (blocks @ [cur]) [] ikvs (TableBuilder_Flush sn fo r)"
proof -
  let ?iv = "opt_block_restart_interval opts"
  have np: "\<not> tb_pending_index_entry r" and ok0: "ok (tb_file r)" and o: "tb_options r = opts"
    and b: "built ?iv cur (tb_data_block r)"
    using rep cur by (auto simp: tb_rep_def split: if_splits)
  have ne: "\<not> BlockBuilder_empty (tb_data_block r)"
    using b cur block_entry_not_Nil by (auto simp: built_def BlockBuilder_empty_def entries_def neq_Nil_conv)
  obtain h b' r1 where w: "WriteBlock sn fo (tb_data_block r) r = (h, b', r1)" by (metis prod_cases3)
  define r2 where "r2 = r1\<lparr>tb_data_block := b', tb_pending_handle := h\<rparr>"
  obtain s f where fl: "wf_Flush fo (tb_file r2) = (s, f)" by fastforce
  have e: "TableBuilder_Flush sn fo r =
      filter_StartBlock (tb_offset r2) (if Status_ok (tb_status r2)
        then r2\<lparr>tb_pending_index_entry := True, tb_file := f, tb_status := s\<rparr> else r2)"
    using rep ne w fl by (auto simp: TableBuilder_Flush_def Let_def tb_rep_def r2_def Status_ok_iff)
  have s1: "Status_ok (tb_status r1)"
    using st unfolding e by (auto simp: filter_StartBlock_def r2_def split: if_splits)
  have s2: "Status_ok s"
    using st s1 unfolding e by (simp add: filter_StartBlock_def r2_def)
  note W = WriteBlock_ok [OF ok0 b w s1, unfolded o, of ?iv]
  obtain f1 where r1: "r1 = r\<lparr>tb_file := f1, tb_status := Status_OK,
        tb_offset := tb_offset r + of_nat (length (stored_kvs sn opts ?iv cur))\<rparr>"
    and f1: "ok f1" "contents f1 = contents (tb_file r) @ stored_kvs sn opts ?iv cur"
    using W by (auto simp: wrote_def)
  have f2: "contents f = contents f1" "ok f"
    using flush_ok [of "tb_file r2" s f] flush_inv [of "tb_file r2" s f] fl s2 f1(1) by (simp_all add: r2_def r1)
  have h: "h = handle_at sn opts (blocks @ [cur]) (length blocks)"
    using W rep by (simp add: handle_at_def tb_rep_def)
  have ix: "index_entries sn opts (blocks @ [cur]) [] ikvs"
    using rep by (simp add: tb_rep_def index_entries_flush)
  have d: "length (data_bytes sn opts (blocks @ [cur])) = length (data_bytes sn opts blocks) + length (stored_kvs sn opts ?iv cur)"
    by (simp add: data_bytes_snoc)
  have fb: "tb_filter_block (TableBuilder_Flush sn fo r) = map_option (\<lambda>p. (p, add_blocks (fp_CreateFilter p)
      (filter_calls sn opts (blocks @ [cur]) []) FilterBlockBuilder_make)) (opt_filter_policy opts)"
    unfolding e add_blocks_flush using rep s1
    by (cases "opt_filter_policy opts") (simp_all add: filter_StartBlock_def r2_def r1 tb_rep_def d)
  have len: "length blocks = length ikvs" using rep np by (simp add: tb_rep_def)
  have lk: "tb_last_key r = fst (last cur)" using rep cur by (simp add: tb_rep_def)
  show ?thesis
    using rep np W f1 f2 cur s1 s2 ix fb h len lk unfolding e
    by (simp add: tb_rep_def filter_StartBlock_def r2_def r1 data_bytes_snoc Status_ok_iff)
qed


lemma built_not_Nil: "built interval (kvs @ [kv]) b \<Longrightarrow> \<not> BlockBuilder_empty b"
  by (simp add: built_def BlockBuilder_empty_def entries_Suc)

text \<open>A key past everything so far: the entries of the index stay below it.\<close>

lemma index_below_key:
  assumes rep: "tb_rep contents ok sn opts blocks cur ikvs r" and c: "short_comparator (opt_comparator opts)"
    and lt: "concat blocks @ cur \<noteq> [] \<Longrightarrow> Compare (opt_comparator opts) (fst (last (concat blocks @ cur))) k < 0"
  shows "\<forall>j<length ikvs. Compare (opt_comparator opts) (fst (ikvs ! j)) k < 0"
proof (intro allI impI)
  fix j assume j: "j < length ikvs"
  then have jb: "j < length blocks" and bl: "blocks \<noteq> []" and nn: "[] \<notin> set blocks"
    using rep by (auto simp: tb_rep_def index_entries_def)
  have "Suc j < length blocks \<or> cur \<noteq> []" using rep j by (auto simp: tb_rep_def split: if_splits)
  then have "last (concat blocks @ cur) \<in> set (concat (drop (Suc j) blocks) @ cur)"
    by (rule last_in_later [OF jb nn])
  moreover have "index_entry sn opts blocks cur j (ikvs ! j)"
    using rep j by (simp add: tb_rep_def index_entries_def)
  ultimately have "Compare (opt_comparator opts) (fst (ikvs ! j)) (fst (last (concat blocks @ cur))) < 0"
    unfolding index_entry_def by blast
  moreover have "concat blocks @ cur \<noteq> []" using bl nn by (cases blocks) auto
  ultimately show "Compare (opt_comparator opts) (fst (ikvs ! j)) k < 0" using lt three_way.cmp_less_trans [OF short_comparator_three_way [OF c]] by blast
qed


lemma last_block:
  assumes "blocks \<noteq> []" "[] \<notin> set blocks"
  shows "last (concat blocks) = last (last blocks)" "last blocks \<noteq> []" "last (last blocks) \<in> set (last blocks)"
proof -
  have e: "concat blocks = concat (butlast blocks) @ last blocks"
    using append_butlast_last_id [OF assms(1)] by (metis append_Nil2 concat.simps(1,2) concat_append)
  show n: "last blocks \<noteq> []" using assms last_in_set by metis
  then show "last (concat blocks) = last (last blocks)" by (simp add: e)
  show "last (last blocks) \<in> set (last blocks)" by (rule last_in_set [OF n])
qed

lemma ascending_last:
  assumes "three_way cmp" "ascending cmp (xs @ ys)" "ys \<noteq> []" "kv \<in> set ys"
  shows "cmp (fst kv) (fst (last ys)) \<le> 0"
proof -
  have "ascending cmp ys" using assms(2) by (simp add: ascending_def sorted_wrt_append)
  moreover obtain i where "i < length ys" "kv = ys ! i" using assms(4) by (metis in_set_conv_nth)
  moreover from this have "i < length ys - 1 \<or> i = length ys - 1" by arith
  ultimately show ?thesis
    using three_way.cmp_refl [OF assms(1)] ascending_nth [of cmp ys i "length ys - 1"] assms(3)
    by (auto simp: last_conv_nth)
qed

text \<open>The keys of the last block are at or below any separator of its last key.\<close>

lemma separator_bound:
  assumes "three_way cmp" "ascending cmp (concat blocks)" "blocks \<noteq> []" "[] \<notin> set blocks"
    and "cmp (fst (last (concat blocks))) sep \<le> 0"
  shows "\<forall>kv \<in> set (last blocks). cmp (fst kv) sep \<le> 0"
proof
  fix kv assume kv: "kv \<in> set (last blocks)"
  have "concat blocks = concat (butlast blocks) @ last blocks"
    using append_butlast_last_id [OF assms(3)] by (metis append_Nil2 concat.simps(1,2) concat_append)
  then have "cmp (fst kv) (fst (last (last blocks))) \<le> 0"
    using ascending_last [OF assms(1) _ last_block(2) [OF assms(3,4)] kv] assms(2) by metis
  then show "cmp (fst kv) sep \<le> 0"
    using three_way.cmp_trans [OF assms(1)] assms(5) last_block(1) [OF assms(3,4)] by metis
qed

lemma add_pair_rep:
  assumes "tb_options r = opts" "tb_status r = Status_OK" "ok (tb_file r)" "contents (tb_file r) = data_bytes sn opts blocks"
    "tb_offset r = of_nat (length (data_bytes sn opts blocks))" "built (opt_block_restart_interval opts) cur (tb_data_block r)"
    "built 1 ikvs (tb_index_block r)" "tb_num_entries r = of_nat (length (concat blocks @ cur))" "[] \<notin> set blocks"
    "index_entries sn opts blocks (cur @ [(k, v)]) ikvs" "\<not> tb_pending_index_entry r" "length blocks = length ikvs"
    "tb_filter_block r = map_option (\<lambda>p. (p, add_blocks (fp_CreateFilter p) (filter_calls sn opts blocks cur)
         FilterBlockBuilder_make)) (opt_filter_policy opts)" "1 \<le> opt_block_restart_interval opts"
  shows "tb_rep contents ok sn opts blocks (cur @ [(k, v)]) ikvs (add_pair k v r)"
  using assms built_Add [OF assms(14,6), of k v]
  by (simp add: tb_rep_def add_pair_def add_blocks_AddKey option.map_comp comp_def)

lemma Add_ok:
  assumes rep: "tb_rep contents ok sn opts blocks cur ikvs r" and c: "short_comparator (opt_comparator opts)"
    and asc: "ascending (Compare (opt_comparator opts)) (concat blocks @ cur @ [(k, v)])"
    and iv: "1 \<le> opt_block_restart_interval opts"
    and st: "Status_ok (tb_status (TableBuilder_Add sn fo k v r))"
  shows "\<exists>blocks' cur' ikvs'. tb_rep contents ok sn opts blocks' cur' ikvs' (TableBuilder_Add sn fo k v r) \<and>
    concat blocks' @ cur' = concat blocks @ cur @ [(k, v)]"
proof -
  let ?cmp = "Compare (opt_comparator opts)"
  define r1 where "r1 = (if tb_pending_index_entry r
      then add_index_entry (FindShortestSeparator (opt_comparator opts) (tb_last_key r) k) r else r)"
  define ikvs1 where "ikvs1 = (if tb_pending_index_entry r
      then ikvs @ [(FindShortestSeparator (opt_comparator opts) (tb_last_key r) k, encode_handle (handle_at sn opts blocks (length ikvs)))]
      else ikvs)"
  have lt: "?cmp (fst (last (concat blocks @ cur))) k < 0" if "concat blocks @ cur \<noteq> []"
    using asc last_in_set [OF that] by (auto simp: ascending_def sorted_wrt_append)
  note below = index_below_key [OF rep c lt]
  have "index_entries sn opts blocks (cur @ [(k, v)]) ikvs1 \<and> built 1 ikvs1 (tb_index_block r1) \<and> length blocks = length ikvs1"
  proof (cases "tb_pending_index_entry r")
    case True
    then have cur: "cur = []" and len: "length blocks = Suc (length ikvs)"
      and ph: "tb_pending_handle r = handle_at sn opts blocks (length ikvs)" and nn: "[] \<notin> set blocks"
      and ix: "index_entries sn opts blocks [] ikvs" and b: "built 1 ikvs (tb_index_block r)"
      using rep by (auto simp: tb_rep_def)
    let ?sep = "FindShortestSeparator (opt_comparator opts) (tb_last_key r) k"
    have bl: "blocks \<noteq> []" using len by auto
    then have ne: "concat blocks \<noteq> []" using nn by (cases blocks) auto
    then have lk: "tb_last_key r = fst (last (concat blocks))" using rep cur by (simp add: tb_rep_def)
    have s: "?cmp (tb_last_key r) ?sep \<le> 0" "?cmp ?sep k < 0" "length ?sep \<le> length (tb_last_key r)"
      using key_comparator.separator_ge [OF short_comparator_key [OF c]]
        key_comparator.separator_less [OF short_comparator_key [OF c]] lt cur ne lk
        short_comparator.separator_length [OF c] by simp_all
    have "\<forall>kv \<in> set (last blocks). ?cmp (fst kv) ?sep \<le> 0"
      by (rule separator_bound [OF short_comparator_three_way [OF c] _ bl nn])
        (use asc s(1) lk in \<open>auto simp: ascending_def sorted_wrt_append\<close>)
    then have "index_entries sn opts blocks [] ikvs1"
      using index_entries_snoc [OF ix len] s(3) lk last_block(1) [OF bl nn] True by (simp add: ikvs1_def)
    moreover have "\<forall>j<length ikvs1. ?cmp (fst (ikvs1 ! j)) k < 0"
      using below s(2) True by (simp add: ikvs1_def nth_append less_Suc_eq)
    moreover have "\<forall>j<length ikvs1. concat (drop (Suc j) blocks) @ [] = [] \<longrightarrow>
        fst (ikvs1 ! j) = FindShortestSeparator (opt_comparator opts) (fst (last (blocks ! j))) k"
    proof (intro allI impI)
      fix j assume j: "j < length ikvs1" and e: "concat (drop (Suc j) blocks) @ [] = []"
      have "\<not> Suc j < length blocks" using e last_in_later [of j blocks "[]"] nn by fastforce
      then have "j = length ikvs" using j len True by (simp add: ikvs1_def)
      then show "fst (ikvs1 ! j) = FindShortestSeparator (opt_comparator opts) (fst (last (blocks ! j))) k"
        using True lk last_block(1) [OF bl nn] bl len by (simp add: ikvs1_def last_conv_nth)
    qed
    ultimately have "index_entries sn opts blocks (cur @ [(k, v)]) ikvs1"
      using index_entries_key [of sn opts blocks "[]" ikvs1 k v] cur by simp
    then show ?thesis
      using True len b ph built_Add [of 1 ikvs "tb_index_block r"]
      by (simp add: r1_def ikvs1_def add_index_entry_def BlockHandle_EncodeTo_eq)
  next
    case False
    then show ?thesis
      using rep below index_entries_key [of sn opts blocks cur ikvs k v] by (auto simp: r1_def ikvs1_def tb_rep_def)
  qed
  moreover have "tb_options r1 = tb_options r" "tb_status r1 = tb_status r" "tb_file r1 = tb_file r"
    "tb_offset r1 = tb_offset r" "tb_data_block r1 = tb_data_block r" "tb_num_entries r1 = tb_num_entries r"
    "\<not> tb_pending_index_entry r1" "tb_filter_block r1 = tb_filter_block r"
    by (simp_all add: r1_def add_index_entry_def)
  ultimately have "tb_rep contents ok sn opts blocks (cur @ [(k, v)]) ikvs1 (add_pair k v r1)"
    using rep iv unfolding tb_rep_def [of contents ok sn opts blocks cur] by (intro add_pair_rep) metis+
  moreover have "TableBuilder_Add sn fo k v r = add_pair k v r1 \<or>
      TableBuilder_Add sn fo k v r = TableBuilder_Flush sn fo (add_pair k v r1)"
    using rep unfolding TableBuilder_Add_eq by (auto simp: Let_def tb_rep_def r1_def)
  ultimately show ?thesis
    using Flush_ok [of sn opts blocks "cur @ [(k, v)]" ikvs1 "add_pair k v r1"] st by fastforce
qed


lemma make_rep:
  assumes "ok f" "contents f = []"
  shows "tb_rep contents ok sn opts [] [] [] (TableBuilder_make opts f)"
  using assms
  by (simp add: tb_rep_def TableBuilder_make_def filter_StartBlock_def data_bytes_def built_make index_entries_def
      filter_calls_def add_blocks_def option.map_comp comp_def)

text \<open>After \<^verbatim>\<open>Flush\<close> every pair is in a block of the file.\<close>

lemma Flush_rep:
  assumes "tb_rep contents ok sn opts blocks cur ikvs r" "Status_ok (tb_status (TableBuilder_Flush sn fo r))"
  shows "\<exists>blocks'. tb_rep contents ok sn opts blocks' [] ikvs (TableBuilder_Flush sn fo r) \<and>
    concat blocks' = concat blocks @ cur"
proof (cases "cur = []")
  case True
  then have "TableBuilder_Flush sn fo r = r"
    using assms(1) by (simp add: TableBuilder_Flush_def tb_rep_def built_def BlockBuilder_empty_def entries_def)
  with assms(1) True show ?thesis by auto
next
  case False
  have "tb_rep contents ok sn opts (blocks @ [cur]) [] ikvs (TableBuilder_Flush sn fo r)"
    by (rule Flush_ok [OF assms(1) False assms(2)])
  then show ?thesis by (intro exI [of _ "blocks @ [cur]"]) simp
qed

lemma wrote_refl: "ok (tb_file r) \<Longrightarrow> tb_status r = Status_OK \<Longrightarrow> wrote contents ok [] r r"
  unfolding wrote_def by (intro exI [of _ "tb_file r"]) simp

lemma finish_filter_ok:
  assumes "ok (tb_file r)" "tb_status r = Status_OK" "finish_filter fo r = (h, r')" "Status_ok (tb_status r')"
    and "tb_filter_block r = map_option (\<lambda>p. (p, add_blocks (fp_CreateFilter p) (filter_calls sn opts blocks [])
         FilterBlockBuilder_make)) (opt_filter_policy opts)"
  shows "wrote contents ok (filter_stored sn opts blocks) r r' \<and>
    (opt_filter_policy opts = Some p \<longrightarrow>
       h = \<lparr>bh_offset = tb_offset r, bh_size = of_nat (length (filter_contents sn opts blocks p))\<rparr>)"
proof (cases "opt_filter_policy opts")
  case None
  then show ?thesis using assms by (simp add: finish_filter_def filter_stored_def wrote_refl)
next
  case (Some q)
  have "WriteRawBlock fo (filter_contents sn opts blocks q) kNoCompression r = (h, r')"
    using assms(2,3,5) Some by (simp add: finish_filter_def filter_contents_def Status_ok_iff)
  from WriteRawBlock_ok [OF assms(1) this assms(4)] show ?thesis
    using Some by (simp add: filter_stored_def)
qed

lemma built_meta:
  "built (opt_block_restart_interval opts) (meta_kvs sn opts blocks)
     (case opt_filter_policy opts of None \<Rightarrow> BlockBuilder_make
      | Some p \<Rightarrow> BlockBuilder_Add (opt_block_restart_interval opts) (lit ''filter.'' @ fp_Name p)
          (encode_handle (filter_handle sn opts blocks p)) BlockBuilder_make)"
  if "1 \<le> opt_block_restart_interval opts"
  using built_Add [OF that built_make] by (simp add: meta_kvs_def built_make split: option.splits)

lemma finish_meta_ok:
  assumes "ok (tb_file r)" "tb_status r = Status_OK" "finish_meta sn fo h r = (mh, r')" "Status_ok (tb_status r')"
    and "tb_options r = opts" "tb_filter_block r = None \<longleftrightarrow> opt_filter_policy opts = None"
    and "\<And>p. opt_filter_policy opts = Some p \<Longrightarrow> h = filter_handle sn opts blocks p"
    and "1 \<le> opt_block_restart_interval opts"
  shows "mh = \<lparr>bh_offset = tb_offset r, bh_size = of_nat (stored_size sn opts (opt_block_restart_interval opts) (meta_kvs sn opts blocks))\<rparr> \<and>
    wrote contents ok (stored_kvs sn opts (opt_block_restart_interval opts) (meta_kvs sn opts blocks)) r r'"
proof -
  define b where "b = (case opt_filter_policy opts of None \<Rightarrow> BlockBuilder_make
      | Some p \<Rightarrow> BlockBuilder_Add (opt_block_restart_interval opts) (lit ''filter.'' @ fp_Name p)
          (encode_handle (filter_handle sn opts blocks p)) BlockBuilder_make)"
  have "(case (tb_filter_block r, opt_filter_policy (tb_options r)) of
      (Some _, Some p) \<Rightarrow> BlockBuilder_Add (opt_block_restart_interval (tb_options r)) (lit ''filter.'' @ fp_Name p)
                      (BlockHandle_EncodeTo h []) BlockBuilder_make
    | _ \<Rightarrow> BlockBuilder_make) = b"
    using assms(5-7) by (auto simp: b_def BlockHandle_EncodeTo_eq split: option.splits)
  then obtain b' where "WriteBlock sn fo b r = (mh, b', r')"
    using assms(2,3) by (auto simp: finish_meta_def Let_def Status_ok_iff split: prod.splits)
  from WriteBlock_ok [OF assms(1) built_meta [OF assms(8), of sn blocks, folded b_def] this assms(4)] show ?thesis
    by (simp add: assms(5) wrote_def)
qed


lemma finish_index_ok:
  assumes "ok (tb_file r)" "tb_status r = Status_OK" "finish_index sn fo r = (ih, r')" "Status_ok (tb_status r')"
    and "tb_options r = opts" "short_comparator (opt_comparator opts)"
    and ix: "index_entries sn opts blocks [] ikvs" and b: "built 1 ikvs (tb_index_block r)"
    and nn: "[] \<notin> set blocks" and asc: "ascending (Compare (opt_comparator opts)) (concat blocks)"
    and pend: "if tb_pending_index_entry r
      then length blocks = Suc (length ikvs) \<and> tb_pending_handle r = handle_at sn opts blocks (length ikvs) \<and>
        tb_last_key r = fst (last (concat blocks))
      else length blocks = length ikvs"
  shows "\<exists>ikvs' r1 b'. ih = \<lparr>bh_offset = tb_offset r, bh_size = of_nat (stored_size sn opts 1 ikvs')\<rparr> \<and>
    index_entries sn opts blocks [] ikvs' \<and> length ikvs' = length blocks \<and>
    wrote contents ok (stored_kvs sn opts 1 ikvs') r1 (r'\<lparr>tb_index_block := tb_index_block r1\<rparr>) \<and>
    tb_file r1 = tb_file r \<and> tb_offset r1 = tb_offset r \<and> tb_num_entries r1 = tb_num_entries r \<and> tb_closed r1 = tb_closed r"
proof -
  let ?c = "opt_comparator opts"
  let ?sep = "FindShortSuccessor ?c (tb_last_key r)"
  define r1 where "r1 = (if tb_pending_index_entry r then add_index_entry ?sep r else r)"
  define ikvs' where "ikvs' = (if tb_pending_index_entry r
      then ikvs @ [(?sep, encode_handle (handle_at sn opts blocks (length ikvs)))] else ikvs)"
  have "index_entries sn opts blocks [] ikvs' \<and> built 1 ikvs' (tb_index_block r1) \<and> length ikvs' = length blocks"
  proof (cases "tb_pending_index_entry r")
    case True
    then have len: "length blocks = Suc (length ikvs)" and bl: "blocks \<noteq> []" using pend by auto
    have s: "Compare ?c (tb_last_key r) ?sep \<le> 0" "length ?sep \<le> length (tb_last_key r)"
      using key_comparator.successor_ge [OF short_comparator_key [OF assms(6)]]
        short_comparator.successor_length [OF assms(6)] by blast+
    have "\<forall>kv \<in> set (last blocks). Compare ?c (fst kv) ?sep \<le> 0"
      using separator_bound [OF short_comparator_three_way [OF assms(6)] asc bl nn] s(1) True pend by simp
    then have "index_entries sn opts blocks [] ikvs'"
      using index_entries_snoc [OF ix len] s(2) last_block(1) [OF bl nn] True pend by (simp add: ikvs'_def)
    then show ?thesis
      using True len b pend built_Add [of 1 ikvs "tb_index_block r"]
      by (simp add: r1_def ikvs'_def add_index_entry_def BlockHandle_EncodeTo_eq)
  next
    case False
    then show ?thesis using ix b pend by (simp add: r1_def ikvs'_def)
  qed
  moreover have r1: "tb_options r1 = opts" "tb_file r1 = tb_file r" "tb_offset r1 = tb_offset r"
    "tb_num_entries r1 = tb_num_entries r" "tb_closed r1 = tb_closed r"
    using assms(5) by (simp_all add: r1_def add_index_entry_def)
  moreover obtain b' r2 where w: "WriteBlock sn fo (tb_index_block r1) r1 = (ih, b', r2)"
      and r': "r' = r2\<lparr>tb_index_block := b'\<rparr>"
    using assms(2,3,5) by (auto simp: finish_index_def Let_def Status_ok_iff r1_def split: prod.splits)
  moreover have "Status_ok (tb_status r2)" using assms(4) r' by simp
  moreover have "ok (tb_file r1)" using assms(1) r1(2) by simp
  ultimately have W: "ih = \<lparr>bh_offset = tb_offset r1, bh_size = of_nat (stored_size sn opts 1 ikvs')\<rparr>"
      "wrote contents ok (stored_kvs sn opts 1 ikvs') r1 r2"
      "index_entries sn opts blocks [] ikvs'" "length ikvs' = length blocks"
    using WriteBlock_ok [of r1 1 ikvs' "tb_index_block r1" sn ih b' r2] by simp_all
  have "r'\<lparr>tb_index_block := tb_index_block r1\<rparr> = r2" using wrote_simps(7) [OF W(2)] r' by simp
  then show ?thesis using W r1 by (intro exI [of _ ikvs'] exI [of _ r1]) simp
qed

lemma finish_footer_ok:
  assumes "ok (tb_file r)" "tb_status r = Status_OK" "Status_ok (tb_status (finish_footer fo mh ih r))"
  shows "wrote contents ok (encode_footer \<lparr>ft_metaindex_handle = mh, ft_index_handle = ih\<rparr>) r (finish_footer fo mh ih r)"
proof -
  let ?e = "encode_footer \<lparr>ft_metaindex_handle = mh, ft_index_handle = ih\<rparr>"
  obtain s f where a: "wf_Append fo ?e (tb_file r) = (s, f)" by fastforce
  have e: "finish_footer fo mh ih r = (if Status_ok s
      then r\<lparr>tb_file := f, tb_status := s, tb_offset := tb_offset r + of_nat (length ?e)\<rparr>
      else r\<lparr>tb_file := f, tb_status := s\<rparr>)"
    using a assms(2) by (simp add: finish_footer_def encode_footer_def [symmetric] Let_def Status_ok_iff)
  then have "Status_ok s" using assms(3) by (auto split: if_splits)
  then show ?thesis
    using e append_ok [OF assms(1) a] append_inv [OF assms(1) a] by (auto simp: wrote_def Status_ok_iff)
qed


lemma concat_nonempty: "length bl = Suc n \<Longrightarrow> [] \<notin> set bl \<Longrightarrow> concat bl \<noteq> []"
  by (cases bl) auto

text \<open>A table all of whose writes succeeded.\<close>

lemma Finish_ok:
  assumes rep: "tb_rep contents ok sn opts blocks cur ikvs r" and c: "short_comparator (opt_comparator opts)"
    and asc: "ascending (Compare (opt_comparator opts)) (concat blocks @ cur)"
    and iv: "1 \<le> opt_block_restart_interval opts"
    and fin: "TableBuilder_Finish sn fo r = (s, r')" and st: "Status_ok s"
  shows "\<exists>blocks' ikvs'. concat blocks' = concat blocks @ cur \<and> [] \<notin> set blocks' \<and>
    index_entries sn opts blocks' [] ikvs' \<and> length ikvs' = length blocks' \<and> ok (tb_file r') \<and> tb_closed r' \<and>
    contents (tb_file r') = table_bytes sn opts blocks' ikvs' \<and>
    tb_offset r' = of_nat (length (table_bytes sn opts blocks' ikvs')) \<and> tb_num_entries r' = tb_num_entries r"
proof -
  define r1 where "r1 = (TableBuilder_Flush sn fo r)\<lparr>tb_closed := True\<rparr>"
  obtain fh r2 where f: "finish_filter fo r1 = (fh, r2)" by fastforce
  obtain mh r3 where m: "finish_meta sn fo fh r2 = (mh, r3)" by fastforce
  obtain ih r4 where i: "finish_index sn fo r3 = (ih, r4)" by fastforce
  have r': "r' = finish_footer fo mh ih r4" "s = tb_status r'"
    using fin f m i by (auto simp: TableBuilder_Finish_def Let_def r1_def)
  have s4: "Status_ok (tb_status r4)" using st r' failed_steps(6) by metis
  then have s3: "Status_ok (tb_status r3)" using i failed_steps(5) by (metis prod.inject)
  then have s2: "Status_ok (tb_status r2)" using m failed_steps(4) by (metis prod.inject)
  then have s1: "Status_ok (tb_status r1)" using f failed_steps(3) by (metis snd_conv)
  obtain bl where rep1: "tb_rep contents ok sn opts bl [] ikvs (TableBuilder_Flush sn fo r)" and bl: "concat bl = concat blocks @ cur"
    using Flush_rep [OF rep] s1 by (auto simp: r1_def)
  have n: "tb_num_entries (TableBuilder_Flush sn fo r) = tb_num_entries r"
    using rep1 rep bl by (simp add: tb_rep_def)
  have R1: "ok (tb_file r1)" "tb_status r1 = Status_OK" "tb_options r1 = opts" "tb_offset r1 = of_nat (length (data_bytes sn opts bl))"
    "contents (tb_file r1) = data_bytes sn opts bl" "tb_closed r1" "tb_num_entries r1 = tb_num_entries r"
    "index_entries sn opts bl [] ikvs" "built 1 ikvs (tb_index_block r1)" "[] \<notin> set bl"
    and fb: "tb_filter_block r1 = map_option (\<lambda>p. (p, add_blocks (fp_CreateFilter p) (filter_calls sn opts bl [])
         FilterBlockBuilder_make)) (opt_filter_policy opts)"
    and pend: "if tb_pending_index_entry r1
      then length bl = Suc (length ikvs) \<and> tb_pending_handle r1 = handle_at sn opts bl (length ikvs) \<and>
        tb_last_key r1 = fst (last (concat bl))
      else length bl = length ikvs"
    using rep1 n concat_nonempty by (auto simp: tb_rep_def r1_def split: if_splits)
  have F: "wrote contents ok (filter_stored sn opts bl) r1 r2"
    "opt_filter_policy opts = Some p \<Longrightarrow> fh = filter_handle sn opts bl p" for p
    using finish_filter_ok [OF R1(1,2) f s2 fb] R1(4) by (auto simp: filter_handle_def)
  note W2 = wrote_simps [OF F(1)]
  have M: "mh = \<lparr>bh_offset = tb_offset r2, bh_size = of_nat (stored_size sn opts (opt_block_restart_interval opts) (meta_kvs sn opts bl))\<rparr>"
    "wrote contents ok (stored_kvs sn opts (opt_block_restart_interval opts) (meta_kvs sn opts bl)) r2 r3"
    using finish_meta_ok [OF W2(3,2) m s3 _ _ F(2) iv] W2(1,6) R1(3) fb by simp_all
  note W3 = wrote_simps [OF M(2)]
  obtain ikvs' r5 where I: "ih = \<lparr>bh_offset = tb_offset r3, bh_size = of_nat (stored_size sn opts 1 ikvs')\<rparr>"
    "index_entries sn opts bl [] ikvs'" "length ikvs' = length bl"
    "wrote contents ok (stored_kvs sn opts 1 ikvs') r5 (r4\<lparr>tb_index_block := tb_index_block r5\<rparr>)"
    "tb_file r5 = tb_file r3" "tb_offset r5 = tb_offset r3" "tb_num_entries r5 = tb_num_entries r3" "tb_closed r5 = tb_closed r3"
    using finish_index_ok [OF W3(3,2) i s4 _ c, of bl ikvs] W3 W2 R1 pend asc bl by auto
  note W4 = wrote_simps [OF I(4)]
  have T: "wrote contents ok (encode_footer \<lparr>ft_metaindex_handle = mh, ft_index_handle = ih\<rparr>) r4 r'"
    unfolding r' by (rule finish_footer_ok) (use W4 st r' in simp_all)
  note W5 = wrote_simps [OF T]
  have o2: "tb_offset r2 = of_nat (length (before_meta sn opts bl))" and c2: "contents (tb_file r2) = before_meta sn opts bl"
    using W2(4,5) R1(4,5) by (simp_all add: before_meta_def)
  have o3: "tb_offset r3 = of_nat (length (before_index sn opts bl))" and c3: "contents (tb_file r3) = before_index sn opts bl"
    using W3(4,5) o2 c2 by (simp_all add: before_index_def)
  have ft: "\<lparr>ft_metaindex_handle = mh, ft_index_handle = ih\<rparr> = table_footer sn opts bl ikvs'"
    by (simp add: table_footer_def M(1) I(1) o2 o3)
  have "contents (tb_file r') = table_bytes sn opts bl ikvs'" "tb_offset r' = of_nat (length (table_bytes sn opts bl ikvs'))"
    using W5(4,5) W4(4,5) I(5,6) o3 c3 ft by (simp_all add: table_bytes_def add.assoc)
  moreover have "ok (tb_file r')" "tb_num_entries r' = tb_num_entries r" "tb_closed r'"
    using W5(3,11,12) W4(11,12) I(7,8) W3(11,12) W2(11,12) R1(6,7) by simp_all
  ultimately show ?thesis
    using bl R1(10) I(2,3) by (intro exI [of _ bl] exI [of _ ikvs']) simp
qed


lemma make_adds:
  assumes c: "short_comparator (opt_comparator opts)" and iv: "1 \<le> opt_block_restart_interval opts"
    and f: "ok f" "contents f = []"
  shows "ascending (Compare (opt_comparator opts)) kvs \<Longrightarrow> Status_ok (tb_status (add_pairs sn fo kvs (TableBuilder_make opts f))) \<Longrightarrow>
    \<exists>blocks cur ikvs. tb_rep contents ok sn opts blocks cur ikvs (add_pairs sn fo kvs (TableBuilder_make opts f)) \<and>
      concat blocks @ cur = kvs"
proof (induction kvs rule: rev_induct)
  case Nil
  show ?case using make_rep [OF f] by (intro exI [of _ "[]"]) (simp add: add_pairs_def)
next
  case (snoc kv kvs)
  let ?r = "add_pairs sn fo kvs (TableBuilder_make opts f)"
  have e: "add_pairs sn fo (kvs @ [kv]) (TableBuilder_make opts f) = TableBuilder_Add sn fo (fst kv) (snd kv) ?r"
    by (simp add: add_pairs_def case_prod_unfold)
  have "Status_ok (tb_status ?r)" using snoc.prems(2) failed_steps(1) unfolding e by metis
  moreover have "ascending (Compare (opt_comparator opts)) kvs"
    using snoc.prems(1) by (simp add: ascending_def sorted_wrt_append)
  ultimately obtain blocks cur ikvs where rep: "tb_rep contents ok sn opts blocks cur ikvs ?r" "concat blocks @ cur = kvs"
    using snoc.IH by blast
  have "concat blocks @ cur @ [(fst kv, snd kv)] = kvs @ [kv]" using rep(2) by (simp flip: append_assoc)
  note a = Add_ok [OF rep(1) c _ iv, of "fst kv" "snd kv", unfolded this]
  show ?case unfolding e by (rule a [OF snoc.prems(1)]) (use snoc.prems(2) e in simp)
qed

lemma build_table_ok:
  assumes "short_comparator (opt_comparator opts)" "1 \<le> opt_block_restart_interval opts" "ok f" "contents f = []"
    and "ascending (Compare (opt_comparator opts)) kvs" "build_table sn fo opts kvs f = (s, r)" "Status_ok s"
  shows "\<exists>blocks ikvs. concat blocks = kvs \<and> [] \<notin> set blocks \<and> index_entries sn opts blocks [] ikvs \<and>
    length ikvs = length blocks \<and> ok (tb_file r) \<and> tb_closed r \<and> contents (tb_file r) = table_bytes sn opts blocks ikvs \<and>
    tb_offset r = of_nat (length (table_bytes sn opts blocks ikvs)) \<and> tb_num_entries r = of_nat (length kvs)"
proof -
  let ?r = "add_pairs sn fo kvs (TableBuilder_make opts f)"
  have fin: "TableBuilder_Finish sn fo ?r = (s, r)" using assms(6) by (simp add: build_table_def)
  have "Status_ok (tb_status ?r)"
  proof (rule ccontr)
    assume n: "\<not> Status_ok (tb_status ?r)"
    then have "\<not> Status_ok (tb_status (?r\<lparr>tb_closed := True\<rparr>))" by simp
    note F = failed_steps [OF this]
    obtain h where "finish_filter fo (?r\<lparr>tb_closed := True\<rparr>) = (h, ?r\<lparr>tb_closed := True\<rparr>)"
      using F(3) by (metis prod.collapse)
    then have "s = tb_status ?r"
      using fin F(4,5,6) failed_steps(2) [OF n] by (simp add: TableBuilder_Finish_def Let_def)
    with n assms(7) show False by simp
  qed
  then obtain blocks cur ikvs where rep: "tb_rep contents ok sn opts blocks cur ikvs ?r" "concat blocks @ cur = kvs"
    using make_adds [OF assms(1-5)] by blast
  then have "tb_num_entries ?r = of_nat (length kvs)" by (auto simp: tb_rep_def)
  then show ?thesis using Finish_ok [OF rep(1) assms(1) _ assms(2) fin assms(7)] rep(2) assms(5) by simp
qed

end

end
