(* ===== verification/Table.thy ===== *)
theory Table
  imports Table_Builder_Correct
begin

text \<open>
  \<^verbatim>\<open>table/table.cc\<close>: opening a table file, its iterator, lookups and approximate offsets.  \<open>None\<close> stands for
  a read outside of a buffer or a call that does not return.
\<close>

section \<open>The reader\<close>

record ReadOptions =
  ro_verify_checksums :: bool
  ro_fill_cache :: bool

record Table =
  t_options :: Options
  t_file :: raf
  t_cache_id :: u64
  t_filter :: "FilterBlockReader option"
  t_filter_data :: "bytes option"
  t_metaindex_handle :: BlockHandle
  t_index_block :: Block

text \<open>What \<^verbatim>\<open>Block::NewIterator\<close> returns is an error or empty iterator, or one over the entries.\<close>

type_synonym block_iter = "Status + BlockIter"

abbreviation BlockPtr :: "Comparator \<Rightarrow> block_iter Iterator" where
  "BlockPtr c \<equiv> either_Iterator EmptyIterator (BlockIterator c)"

definition ReadFilter :: "Snappy \<Rightarrow> bytes \<Rightarrow> Table \<Rightarrow> Table option" where
  "ReadFilter sn filter_handle_value t =
     (let (s, filter_handle, _) = BlockHandle_DecodeFrom filter_handle_value BlockHandle_make in
      if \<not> Status_ok s then Some t
      else do {
        (s, block) \<leftarrow> ReadBlock sn (t_file t) (opt_paranoid_checks (t_options t)) filter_handle;
        if \<not> Status_ok s then Some t
        else Some (t\<lparr>t_filter_data := (if bc_heap_allocated block then Some (bc_data block) else t_filter_data t),
                     t_filter := Some (FilterBlockReader_make (bc_data block))\<rparr>)
      })"

definition ReadMeta :: "Snappy \<Rightarrow> Footer \<Rightarrow> Table \<Rightarrow> Table option" where
  "ReadMeta sn footer t =
     (case opt_filter_policy (t_options t) of
        None \<Rightarrow> Some t
      | Some p \<Rightarrow> do {
          (s, contents) \<leftarrow> ReadBlock sn (t_file t) (opt_paranoid_checks (t_options t)) (ft_metaindex_handle footer);
          if \<not> Status_ok s then Some t
          else do {
            let meta = Block_make (bc_data contents);
            let key = lit ''filter.'' @ fp_Name p;
            iter \<leftarrow> it_Seek (BlockPtr BytewiseComparator) key (Block_NewIterator meta);
            if it_Valid (BlockPtr BytewiseComparator) iter \<and> it_key (BlockPtr BytewiseComparator) iter = key
            then ReadFilter sn (it_value (BlockPtr BytewiseComparator) iter) t
            else Some t
          }
        })"

definition Footer_make :: Footer where
  "Footer_make = \<lparr>ft_metaindex_handle = BlockHandle_make, ft_index_handle = BlockHandle_make\<rparr>"

text \<open>
  The footer is decoded from the space for its 48 bytes without a look at how many were read:
  after a short read that is past the end of what the file gave.  \<open>cache_id\<close> is what the block cache's
  \<^verbatim>\<open>NewId\<close> gives, or zero.
\<close>

definition Table_Open :: "Snappy \<Rightarrow> Options \<Rightarrow> raf \<Rightarrow> u64 \<Rightarrow> u64 \<Rightarrow> (Status \<times> Table option) option" where
  "Table_Open sn options file sz cache_id =
     (if sz < of_nat kEncodedLength then Some (Status_Corruption (lit ''file is too short to be an sstable'') [], None)
      else do {
        (s, footer_input, _) \<leftarrow> file (sz - of_nat kEncodedLength) (of_nat kEncodedLength);
        if \<not> Status_ok s then Some (s, None)
        else if length footer_input < kEncodedLength then None
        else (let (s, footer, _) = Footer_DecodeFrom footer_input Footer_make in
              if \<not> Status_ok s then Some (s, None)
              else do {
                (s, index_block_contents) \<leftarrow> ReadBlock sn file (opt_paranoid_checks options) (ft_index_handle footer);
                if Status_ok s
                then do {
                  t \<leftarrow> ReadMeta sn footer
                    \<lparr>t_options = options, t_file = file, t_cache_id = cache_id, t_filter = None, t_filter_data = None,
                     t_metaindex_handle = ft_metaindex_handle footer,
                     t_index_block = Block_make (bc_data index_block_contents)\<rparr>;
                  Some (s, Some t)
                }
                else Some (s, None)
              })
      })"

text \<open>Without a block cache.\<close>

definition Table_BlockReader :: "Snappy \<Rightarrow> Table \<Rightarrow> ReadOptions \<Rightarrow> bytes \<Rightarrow> block_iter option" where
  "Table_BlockReader sn t ro index_value =
     (let (s, handle, _) = BlockHandle_DecodeFrom index_value BlockHandle_make in
      if \<not> Status_ok s then Some (Inl (NewErrorIterator s))
      else do {
        (s, contents) \<leftarrow> ReadBlock sn (t_file t) (ro_verify_checksums ro) handle;
        if Status_ok s then Some (Block_NewIterator (Block_make (bc_data contents)))
        else Some (Inl (NewErrorIterator s))
      })"

type_synonym table_iter = "(block_iter, block_iter) TwoLevel"

definition TableIterator :: "Snappy \<Rightarrow> Table \<Rightarrow> ReadOptions \<Rightarrow> table_iter Iterator" where
  "TableIterator sn t ro =
     TwoLevelIterator (BlockPtr (opt_comparator (t_options t))) (BlockPtr (opt_comparator (t_options t)))
       (Table_BlockReader sn t ro)"

definition Table_NewIterator :: "Table \<Rightarrow> table_iter" where
  "Table_NewIterator t = TwoLevel_make (BlockPtr (opt_comparator (t_options t))) (Block_NewIterator (t_index_block t))"

text \<open>\<^verbatim>\<open>InternalGet\<close>: the status, and the pair its callback is called with, if it is.\<close>

definition InternalGet :: "Snappy \<Rightarrow> Table \<Rightarrow> ReadOptions \<Rightarrow> bytes \<Rightarrow> (Status \<times> kv option) option" where
  "InternalGet sn t ro k =
     (let it = BlockPtr (opt_comparator (t_options t)) in do {
        iiter \<leftarrow> it_Seek it k (Block_NewIterator (t_index_block t));
        (s, result) \<leftarrow>
          (if it_Valid it iiter then
             (let handle_value = it_value it iiter;
                  (s, handle, _) = BlockHandle_DecodeFrom handle_value BlockHandle_make
              in do {
                skip \<leftarrow> (case (t_filter t, opt_filter_policy (t_options t)) of
                         (Some fr, Some p) \<Rightarrow>
                           if Status_ok s
                           then map_option Not (FilterBlockReader_KeyMayMatch (fp_KeyMayMatch p) fr (bh_offset handle) k)
                           else Some False
                       | _ \<Rightarrow> Some False);
                if skip then Some (Status_OK, None)
                else do {
                  block_iter \<leftarrow> Table_BlockReader sn t ro (it_value it iiter);
                  block_iter \<leftarrow> it_Seek it k block_iter;
                  Some (it_status it block_iter,
                        if it_Valid it block_iter then Some (it_key it block_iter, it_value it block_iter) else None)
                }
              })
           else Some (Status_OK, None));
        Some (if Status_ok s then it_status it iiter else s, result)
      })"

definition Table_ApproximateOffsetOf :: "Table \<Rightarrow> bytes \<Rightarrow> u64 option" where
  "Table_ApproximateOffsetOf t key =
     (let it = BlockPtr (opt_comparator (t_options t)) in do {
        index_iter \<leftarrow> it_Seek it key (Block_NewIterator (t_index_block t));
        Some (if it_Valid it index_iter then
                (let (s, handle, _) = BlockHandle_DecodeFrom (it_value it index_iter) BlockHandle_make
                 in if Status_ok s then bh_offset handle else bh_offset (t_metaindex_handle t))
              else bh_offset (t_metaindex_handle t))
      })"

section \<open>Sizes\<close>

definition pairs_size :: "kv list \<Rightarrow> nat" where
  "pairs_size kvs = (\<Sum>kv\<leftarrow>kvs. length (fst kv) + length (snd kv) + 64)"

lemma pairs_size_simps [simp]:
  "pairs_size [] = 0" "pairs_size (kv # kvs) = length (fst kv) + length (snd kv) + 64 + pairs_size kvs"
  "pairs_size (xs @ ys) = pairs_size xs + pairs_size ys"
  by (simp_all add: pairs_size_def)

lemma length_EncodeVarint32_le: "length (EncodeVarint32 v) \<le> 5"
  using GetVarint32_consumes [of "EncodeVarint32 v" v "[]"] GetVarint32_EncodeVarint32 [of v "[]"] by auto

lemma block_entry_size:
  "length (block_entry interval kvs n) \<le> length (fst (kvs ! n)) + length (snd (kvs ! n)) + 15"
proof -
  have "length (EncodeVarint32 a) + length (EncodeVarint32 b) + length (EncodeVarint32 d) + (x - s) + y \<le> x + y + 15"
    for a b d and x s y :: nat
    using length_EncodeVarint32_le [of a] length_EncodeVarint32_le [of b] length_EncodeVarint32_le [of d] by simp
  then show ?thesis by (simp add: block_entry_def Let_def case_prod_unfold add.assoc [symmetric])
qed

lemma entry_off_size: "n \<le> length kvs \<Longrightarrow> entry_off interval kvs n + 49 * n \<le> pairs_size (take n kvs)"
proof (induction n)
  case (Suc n)
  then show ?case
    using block_entry_size [of interval kvs n] by (simp add: entry_off_Suc take_Suc_conv_app_nth)
qed simp

lemma restart_count_le: "restart_count interval n \<le> n + 1"
  by (cases n) (simp_all add: restart_count_def le_SucI)

lemma block_bytes_size: "length (block_bytes interval kvs) \<le> pairs_size kvs + 8"
  using entry_off_size [of "length kvs" kvs interval] restart_count_le [of interval "length kvs"]
  by (simp add: length_block_bytes)

lemma pairs_size_mem: "xs \<in> set blocks \<Longrightarrow> pairs_size xs \<le> pairs_size (concat blocks)"
  by (induction blocks) auto

lemma pairs_size_last: "kvs \<noteq> [] \<Longrightarrow> length (fst (last kvs)) + 64 \<le> pairs_size kvs"
  by (induction kvs) (auto split: if_splits)

text \<open>An index entry is small beside its block.\<close>

lemma index_size:
  assumes "[] \<notin> set blocks" "index_entries sn opts blocks cur ikvs"
  shows "length (block_bytes 1 ikvs) \<le> pairs_size (concat blocks) + 8"
proof -
  have e: "length (block_entry 1 ikvs j) + 4 \<le> pairs_size (blocks ! j)" if "j < length ikvs" for j
  proof -
    have ix: "index_entry sn opts blocks cur j (ikvs ! j)" and jb: "j < length blocks"
      using assms(2) that by (auto simp: index_entries_def)
    have "blocks ! j \<noteq> []" using assms(1) jb by (metis nth_mem)
    moreover have "length (snd (ikvs ! j)) \<le> 20" "length (fst (ikvs ! j)) \<le> length (fst (last (blocks ! j)))"
      using ix length_encode_handle by (auto simp: index_entry_def kMaxEncodedLength_def)
    ultimately show ?thesis using block_entry_size [of 1 ikvs j] pairs_size_last [of "blocks ! j"] by linarith
  qed
  have "entry_off 1 ikvs n + 4 * n \<le> pairs_size (concat (take n blocks))" if "n \<le> length ikvs" for n
    using that
  proof (induction n)
    case (Suc n)
    then have "n < length blocks" using assms(2) by (simp add: index_entries_def)
    then show ?case using Suc e [of n] by (simp add: entry_off_Suc take_Suc_conv_app_nth)
  qed simp
  from this [of "length ikvs"] have "entry_off 1 ikvs (length ikvs) + 4 * length ikvs \<le> pairs_size (concat blocks)"
    using pairs_size_simps(3) [of "concat (take (length ikvs) blocks)" "concat (drop (length ikvs) blocks)"]
    by (simp flip: concat_append)
  then show ?thesis using restart_count_le [of 1 "length ikvs"] by (simp add: length_block_bytes)
qed

section \<open>Opening what a builder wrote\<close>

text \<open>What the reader relies on: compression that can be undone, a policy and its name.\<close>

definition table_params :: "Snappy \<Rightarrow> Options \<Rightarrow> bool" where
  "table_params sn opts \<longleftrightarrow>
     compression sn \<and> short_comparator (opt_comparator opts) \<and> 1 \<le> opt_block_restart_interval opts \<and>
     (\<forall>p. opt_filter_policy opts = Some p \<longrightarrow>
        filter_policy (fp_CreateFilter p) (fp_KeyMayMatch p) \<and> length (fp_Name p) < 2 ^ 31)"

text \<open>The blocks of a table, their index, and the sizes for which 32-bit offsets are enough.\<close>

definition table_blocks :: "Snappy \<Rightarrow> Options \<Rightarrow> kv list list \<Rightarrow> kv list \<Rightarrow> bool" where
  "table_blocks sn opts blocks ikvs \<longleftrightarrow>
     table_params sn opts \<and> ascending (Compare (opt_comparator opts)) (concat blocks) \<and> [] \<notin> set blocks \<and>
     index_entries sn opts blocks [] ikvs \<and> length ikvs = length blocks \<and>
     pairs_size (concat blocks) + 8 < 2 ^ 32 \<and> length (table_bytes sn opts blocks ikvs) < 2 ^ 32"

lemma choose_block_decoded:
  assumes "compression sn" "choose_block sn type raw = (c, type')"
  shows "fst (decode_block sn b (stored_block c type') (length c)) = Status_OK \<and>
    bc_data (snd (decode_block sn b (stored_block c type') (length c))) = raw"
proof -
  have t: "take (length c) (stored_block c type') = c" "stored_block c type' ! length c = CompressionType_value type'"
    by (simp_all add: stored_block_def nth_append)
  show ?thesis
    unfolding decode_block_def t
    using assms(2) compression.uncompress [OF assms(1), of raw c]
    by (auto simp: choose_block_def resize_def split: CompressionType.splits option.splits if_splits)
qed

context random_file
begin

lemma ReadBlock_kvs:
  assumes "compression sn" "ok f" "contents f = pre @ stored_kvs sn opts interval kvs @ post" "length (contents f) < 2 ^ 64"
  shows "\<exists>bc. ReadBlock sn (rd f) verify
      \<lparr>bh_offset = of_nat (length pre), bh_size = of_nat (stored_size sn opts interval kvs)\<rparr> = Some (Status_OK, bc) \<and>
    bc_data bc = block_bytes interval kvs"
proof -
  obtain c type where c: "choose_block sn (opt_compression opts) (block_bytes interval kvs) = (c, type)" by fastforce
  then have s: "stored_kvs sn opts interval kvs = stored_block c type" "stored_size sn opts interval kvs = length c"
    by (simp_all add: stored_kvs_def stored_size_def)
  obtain b where r: "ReadBlock sn (rd f) verify \<lparr>bh_offset = of_nat (length pre), bh_size = of_nat (length c)\<rparr> =
      Some (decode_block sn b (stored_block c type) (length c))"
    using ReadBlock_stored [OF assms(2) assms(3) [unfolded s] assms(4)] by blast
  show ?thesis
    unfolding s(2) r using choose_block_decoded [OF assms(1) c, of b]
    by (cases "decode_block sn b (stored_block c type) (length c)") simp
qed

lemma ReadBlock_raw:
  assumes "ok f" "contents f = pre @ stored_block c kNoCompression @ post" "length (contents f) < 2 ^ 64"
  shows "\<exists>bc. ReadBlock sn (rd f) verify \<lparr>bh_offset = of_nat (length pre), bh_size = of_nat (length c)\<rparr> = Some (Status_OK, bc) \<and>
    bc_data bc = c"
proof -
  obtain b where r: "ReadBlock sn (rd f) verify \<lparr>bh_offset = of_nat (length pre), bh_size = of_nat (length c)\<rparr> =
      Some (decode_block sn b (stored_block c kNoCompression) (length c))"
    using ReadBlock_stored [OF assms] by blast
  show ?thesis unfolding r by (simp add: decode_block_def stored_block_def nth_append)
qed

end

text \<open>A block iterator over the bytes of a block.\<close>

definition ptr_pos :: "Comparator \<Rightarrow> nat \<Rightarrow> kv list \<Rightarrow> block_iter \<Rightarrow> nat \<Rightarrow> bool" where
  "ptr_pos c interval kvs = right_pos (block_pos c interval kvs)"

interpretation block_ptr: ordered_iterator "BlockPtr c" "Compare c" kvs "ptr_pos c interval kvs" for c interval kvs
  unfolding ptr_pos_def by (rule block_iterator.right_contract)

lemma ptr_pos_make:
  assumes "three_way (Compare c)" "ascending (Compare c) kvs" "block_ok interval kvs"
  shows "ptr_pos c interval kvs (Block_NewIterator (Block_make (block_bytes interval kvs))) (length kvs)"
  using block_pos_make [OF assms] by (simp add: Block_make_block_bytes [OF assms(3)] ptr_pos_def right_pos_def)

section \<open>The blocks and their index\<close>

lemma table_blocksD:
  assumes "table_blocks sn opts blocks ikvs"
  shows "compression sn" "three_way (Compare (opt_comparator opts))" "1 \<le> opt_block_restart_interval opts"
    "ascending (Compare (opt_comparator opts)) (concat blocks)" "[] \<notin> set blocks" "length ikvs = length blocks"
    "length (table_bytes sn opts blocks ikvs) < 2 ^ 32" "length (table_bytes sn opts blocks ikvs) < 2 ^ 64"
    "j < length blocks \<Longrightarrow> index_entry sn opts blocks [] j (ikvs ! j)"
  using assms by (auto simp: table_blocks_def table_params_def index_entries_def short_comparator_three_way)

lemma table_separates:
  assumes "table_blocks sn opts blocks ikvs"
  shows "separates (Compare (opt_comparator opts)) ikvs blocks"
  unfolding separates_def
proof (intro conjI allI impI)
  note D = table_blocksD [OF assms]
  show "length ikvs = length blocks" by (rule D(6))
  show "\<forall>kv \<in> set (blocks ! j). Compare (opt_comparator opts) (fst kv) (fst (ikvs ! j)) \<le> 0" if "j < length blocks" for j
    using D(9) [OF that] by (simp add: index_entry_def)
  show "\<forall>kv \<in> set (blocks ! j'). Compare (opt_comparator opts) (fst (ikvs ! j)) (fst kv) < 0"
    if "j < length blocks" "j' < length blocks" "j < j'" for j j'
  proof -
    have "blocks ! j' = drop (Suc j) blocks ! (j' - Suc j)" using that by simp
    then have "blocks ! j' \<in> set (drop (Suc j) blocks)" using that by (metis Suc_leI diff_less_mono length_drop nth_mem)
    then show ?thesis using D(9) [OF that(1)] by (auto simp: index_entry_def)
  qed
qed

lemma table_index_ascending:
  assumes "table_blocks sn opts blocks ikvs"
  shows "ascending (Compare (opt_comparator opts)) ikvs"
  unfolding ascending_def sorted_wrt_iff_nth_less
proof (intro allI impI)
  note D = table_blocksD [OF assms] and S = table_separates [OF assms, unfolded separates_def]
  fix i j assume ij: "i < j" "j < length ikvs"
  then obtain kv where kv: "kv \<in> set (blocks ! j)" using D(5,6) by (metis all_not_in_conv nth_mem set_empty)
  then have "Compare (opt_comparator opts) (fst (ikvs ! i)) (fst kv) < 0"
    "Compare (opt_comparator opts) (fst kv) (fst (ikvs ! j)) \<le> 0" using S ij by auto
  then show "Compare (opt_comparator opts) (fst (ikvs ! i)) (fst (ikvs ! j)) < 0"
    by (rule three_way.cmp_less_le_trans [OF D(2)])
qed

lemma table_block_ok:
  assumes "table_blocks sn opts blocks ikvs"
  shows "block_ok 1 ikvs" "j < length blocks \<Longrightarrow> block_ok (opt_block_restart_interval opts) (blocks ! j)"
    "block_ok (opt_block_restart_interval opts) (meta_kvs sn opts blocks)"
proof -
  have s: "pairs_size (concat blocks) + 8 < 2 ^ 32" and iv: "1 \<le> opt_block_restart_interval opts"
    using assms by (simp_all add: table_blocks_def table_params_def)
  show "block_ok 1 ikvs"
    using index_size [of blocks sn opts "[]" ikvs] assms s by (simp add: block_ok_def table_blocks_def)
  show "block_ok (opt_block_restart_interval opts) (blocks ! j)" if "j < length blocks"
    using block_bytes_size [of "opt_block_restart_interval opts" "blocks ! j"] pairs_size_mem [of "blocks ! j" blocks] that s iv
    by (simp add: block_ok_def)
  have "pairs_size (meta_kvs sn opts blocks) \<le> 2 ^ 31 + 91"
  proof (cases "opt_filter_policy opts")
    case (Some p)
    then have "length (fp_Name p) < 2 ^ 31" using assms by (simp add: table_blocks_def table_params_def)
    then show ?thesis
      using Some length_encode_handle [of "filter_handle sn opts blocks p"]
      by (simp add: meta_kvs_def kMaxEncodedLength_def lit_def)
  qed (simp add: meta_kvs_def)
  then show "block_ok (opt_block_restart_interval opts) (meta_kvs sn opts blocks)"
    using block_bytes_size [of "opt_block_restart_interval opts" "meta_kvs sn opts blocks"] iv by (simp add: block_ok_def)
qed

lemma data_bytes_take: "i < j \<Longrightarrow> j \<le> length blocks \<Longrightarrow>
    length (data_bytes sn opts (take i blocks)) < length (data_bytes sn opts (take j blocks))"
proof (induction j)
  case (Suc j)
  have e: "take (Suc j) blocks = take j blocks @ [blocks ! j]" using Suc.prems(2) by (simp add: take_Suc_conv_app_nth)
  have "0 < length (stored_kvs sn opts (opt_block_restart_interval opts) (blocks ! j))" by (simp add: stored_kvs_not_Nil)
  then show ?case unfolding e data_bytes_snoc using Suc by (cases "i = j") auto
qed simp

lemma data_bytes_prefix: "length (data_bytes sn opts (take j blocks)) \<le> length (table_bytes sn opts blocks ikvs)"
proof -
  have "data_bytes sn opts blocks = data_bytes sn opts (take j blocks) @ data_bytes sn opts (drop j blocks)"
    unfolding data_bytes_def by (metis append_take_drop_id concat_append map_append)
  then show ?thesis by (simp add: table_bytes_def before_index_def before_meta_def)
qed

lemma table_handles_distinct:
  assumes "table_blocks sn opts blocks ikvs"
  shows "distinct (map snd ikvs)"
proof (subst distinct_conv_nth, intro allI impI)
  note D = table_blocksD [OF assms]
  have ne: "snd (ikvs ! i) \<noteq> snd (ikvs ! j)" if "i < j" "j < length ikvs" for i j
  proof
    assume "snd (ikvs ! i) = snd (ikvs ! j)"
    then have "handle_at sn opts blocks i = handle_at sn opts blocks j"
      using D(6) D(9) [of i] D(9) [of j] that by (simp add: index_entry_def encode_handle_inject)
    then have "(of_nat (length (data_bytes sn opts (take i blocks))) :: u64) = of_nat (length (data_bytes sn opts (take j blocks)))"
      by (simp add: handle_at_def)
    from arg_cong [OF this, of unat]
    have "length (data_bytes sn opts (take i blocks)) = length (data_bytes sn opts (take j blocks))"
      using D(8) data_bytes_prefix [of sn opts i blocks ikvs] data_bytes_prefix [of sn opts j blocks ikvs]
      by (simp add: unat_of_nat)
    with data_bytes_take [OF that(1), of blocks sn opts] that(2) D(6) show False by simp
  qed
  fix i j assume "i < length (map snd ikvs)" "j < length (map snd ikvs)" "i \<noteq> j"
  then show "map snd ikvs ! i \<noteq> map snd ikvs ! j" using ne [of i j] ne [of j i] by (cases "i < j") auto
qed

lemma data_block_split:
  assumes "j < length blocks"
  shows "table_bytes sn opts blocks ikvs = data_bytes sn opts (take j blocks) @
    stored_kvs sn opts (opt_block_restart_interval opts) (blocks ! j) @
    data_bytes sn opts (drop (Suc j) blocks) @ drop (length (data_bytes sn opts blocks)) (table_bytes sn opts blocks ikvs)"
proof -
  have "data_bytes sn opts blocks = data_bytes sn opts (take j blocks) @
      stored_kvs sn opts (opt_block_restart_interval opts) (blocks ! j) @ data_bytes sn opts (drop (Suc j) blocks)"
    unfolding data_bytes_def by (subst id_take_nth_drop [OF assms]) simp
  then show ?thesis by (simp add: table_bytes_def before_index_def before_meta_def)
qed

section \<open>Reading a table back\<close>

text \<open>The table that \<^verbatim>\<open>Open\<close> makes of the file.\<close>

definition opened :: "Snappy \<Rightarrow> Options \<Rightarrow> raf \<Rightarrow> kv list list \<Rightarrow> kv list \<Rightarrow> Table \<Rightarrow> bool" where
  "opened sn opts file blocks ikvs t \<longleftrightarrow>
     t_options t = opts \<and> t_file t = file \<and>
     t_filter t = map_option (\<lambda>p. FilterBlockReader_make (filter_contents sn opts blocks p)) (opt_filter_policy opts) \<and>
     t_metaindex_handle t = ft_metaindex_handle (table_footer sn opts blocks ikvs) \<and>
     t_index_block t = Block_make (block_bytes 1 ikvs)"

context random_file
begin

lemma ReadFilter_ok:
  assumes "table_blocks sn opts blocks ikvs" "ok f" "contents f = table_bytes sn opts blocks ikvs"
    and "opt_filter_policy opts = Some p" "t_file t = rd f"
  shows "\<exists>d. ReadFilter sn (encode_handle (filter_handle sn opts blocks p)) t =
    Some (t\<lparr>t_filter_data := d, t_filter := Some (FilterBlockReader_make (filter_contents sn opts blocks p))\<rparr>)"
proof -
  have c: "contents f = data_bytes sn opts blocks @ stored_block (filter_contents sn opts blocks p) kNoCompression @
      drop (length (before_meta sn opts blocks)) (table_bytes sn opts blocks ikvs)"
    using assms(3,4) by (simp add: table_bytes_def before_index_def before_meta_def filter_stored_def)
  obtain bc where "ReadBlock sn (rd f) (opt_paranoid_checks (t_options t)) (filter_handle sn opts blocks p) = Some (Status_OK, bc)"
      "bc_data bc = filter_contents sn opts blocks p"
    using ReadBlock_raw [OF assms(2) c] assms(3) table_blocksD(8) [OF assms(1)] unfolding filter_handle_def by metis
  then have "ReadFilter sn (encode_handle (filter_handle sn opts blocks p)) t =
      Some (t\<lparr>t_filter_data := (if bc_heap_allocated bc then Some (bc_data bc) else t_filter_data t),
              t_filter := Some (FilterBlockReader_make (filter_contents sn opts blocks p))\<rparr>)"
    using assms(5) by (simp add: ReadFilter_def Status_ok_iff)
  then show ?thesis by blast
qed

lemma ReadMeta_ok:
  assumes b: "table_blocks sn opts blocks ikvs" and f: "ok f" "contents f = table_bytes sn opts blocks ikvs"
    and t: "t_options t = opts" "t_file t = rd f" "t_filter t = None"
  shows "\<exists>d. ReadMeta sn (table_footer sn opts blocks ikvs) t =
    Some (t\<lparr>t_filter_data := d, t_filter := map_option (\<lambda>p. FilterBlockReader_make (filter_contents sn opts blocks p)) (opt_filter_policy opts)\<rparr>)"
proof (cases "opt_filter_policy opts")
  case None
  then show ?thesis using t by (auto simp: ReadMeta_def intro: exI [of _ "t_filter_data t"])
next
  case (Some p)
  let ?iv = "opt_block_restart_interval opts" and ?m = "meta_kvs sn opts blocks" and ?key = "lit ''filter.'' @ fp_Name p"
  let ?it = "BlockPtr BytewiseComparator"
  have m: "?m = [(?key, encode_handle (filter_handle sn opts blocks p))]" using Some by (simp add: meta_kvs_def)
  have c: "contents f = before_meta sn opts blocks @ stored_kvs sn opts ?iv ?m @
      drop (length (before_index sn opts blocks)) (table_bytes sn opts blocks ikvs)"
    using f(2) by (simp add: table_bytes_def before_index_def)
  obtain bc where r: "ReadBlock sn (rd f) (opt_paranoid_checks opts) (ft_metaindex_handle (table_footer sn opts blocks ikvs)) =
      Some (Status_OK, bc)" "bc_data bc = block_bytes ?iv ?m"
    using ReadBlock_kvs [OF table_blocksD(1) [OF b] f(1) c] f(2) table_blocksD(8) [OF b] by (auto simp: table_footer_def)
  have p: "ptr_pos BytewiseComparator ?iv ?m (Block_NewIterator (Block_make (block_bytes ?iv ?m))) (length ?m)"
    by (rule ptr_pos_make [OF bytewise.three_way_axioms]) (simp_all add: ascending_def m table_block_ok(3) [OF b, unfolded m])
  obtain i where i: "it_Seek ?it ?key (Block_NewIterator (Block_make (block_bytes ?iv ?m))) = Some i"
      "ptr_pos BytewiseComparator ?iv ?m i (lower_bound Slice_compare ?key ?m)"
    using block_ptr.seek [OF p, of ?key] by auto
  have "\<not> Slice_compare ?key ?key < 0" using bytewise.cmp_refl [of ?key] by (simp only: BytewiseComparator_simps)
  then have lb: "lower_bound Slice_compare ?key ?m = 0" by (simp add: m lower_bound_def)
  have v: "it_Valid ?it i" "it_key ?it i = ?key" "it_value ?it i = encode_handle (filter_handle sn opts blocks p)"
    using block_ptr.valid_iff [OF i(2)] block_ptr.key_at [OF i(2)] block_ptr.value_at [OF i(2)]
    unfolding lb by (simp_all add: m)
  obtain d where "ReadFilter sn (encode_handle (filter_handle sn opts blocks p)) t =
      Some (t\<lparr>t_filter_data := d, t_filter := Some (FilterBlockReader_make (filter_contents sn opts blocks p))\<rparr>)"
    using ReadFilter_ok [OF b f Some t(2)] by blast
  then show ?thesis
    using Some t r i(1) v by (auto simp: ReadMeta_def Status_ok_iff Let_def)
qed

lemma Table_Open_ok:
  assumes b: "table_blocks sn opts blocks ikvs" and f: "ok f" "contents f = table_bytes sn opts blocks ikvs"
  shows "\<exists>t. Table_Open sn opts (rd f) (of_nat (length (contents f))) cache_id = Some (Status_OK, Some t) \<and>
    opened sn opts (rd f) blocks ikvs t"
proof -
  let ?n = "length (contents f)" and ?ft = "table_footer sn opts blocks ikvs"
  have n: "?n < 2 ^ 64" using table_blocksD(8) [OF b] f(2) by simp
  have k: "kEncodedLength \<le> ?n" "unat (of_nat kEncodedLength :: u64) = kEncodedLength"
    using f(2) by (simp_all add: table_bytes_def kEncodedLength_def kMaxEncodedLength_def)
  have u: "unat (of_nat ?n :: u64) = ?n" using n by (simp add: unat_of_nat)
  have le: "of_nat kEncodedLength \<le> (of_nat ?n :: u64)" using k u by (simp add: word_le_nat_alt)
  have o: "unat (of_nat ?n - of_nat kEncodedLength :: u64) = ?n - kEncodedLength"
    using unat_sub [OF le] u k(2) by simp
  have d: "take kEncodedLength (drop (?n - kEncodedLength) (contents f)) = encode_footer ?ft"
    using f(2) by (simp add: table_bytes_def)
  obtain x where r: "rd f (of_nat ?n - of_nat kEncodedLength) (of_nat kEncodedLength) = Some (Status_OK, encode_footer ?ft, x)"
    using read_within [OF f(1), of "of_nat ?n - of_nat kEncodedLength" "of_nat kEncodedLength"] o k d by auto
  have c: "contents f = before_index sn opts blocks @ stored_kvs sn opts 1 ikvs @ encode_footer ?ft"
    using f(2) by (simp add: table_bytes_def)
  obtain bc where bc: "ReadBlock sn (rd f) (opt_paranoid_checks opts) (ft_index_handle ?ft) = Some (Status_OK, bc)"
      "bc_data bc = block_bytes 1 ikvs"
    using ReadBlock_kvs [OF table_blocksD(1) [OF b] f(1) c] n by (auto simp: table_footer_def)
  define t0 where "t0 = \<lparr>t_options = opts, t_file = rd f, t_cache_id = cache_id, t_filter = None, t_filter_data = None,
      t_metaindex_handle = ft_metaindex_handle ?ft, t_index_block = Block_make (bc_data bc)\<rparr>"
  obtain d where m: "ReadMeta sn ?ft t0 = Some (t0\<lparr>t_filter_data := d, t_filter := map_option (\<lambda>p. FilterBlockReader_make
      (filter_contents sn opts blocks p)) (opt_filter_policy opts)\<rparr>)"
    using ReadMeta_ok [OF b f, of t0] by (auto simp: t0_def)
  have D: "Footer_DecodeFrom (encode_footer ?ft) Footer_make = (Status_OK, ?ft, [])"
    using Footer_DecodeFrom_encode [of ?ft "[]"] by simp
  show ?thesis
    using le r D bc m by (simp add: Table_Open_def Status_ok_iff not_less [symmetric] t0_def [symmetric])
      (simp add: opened_def t0_def bc)
qed


text \<open>Every index entry leads to its block.\<close>

lemma data_block_read:
  assumes b: "table_blocks sn opts blocks ikvs" and f: "ok f" "contents f = table_bytes sn opts blocks ikvs" and j: "j < length blocks"
  shows "\<exists>bc. ReadBlock sn (rd f) verify (handle_at sn opts blocks j) = Some (Status_OK, bc) \<and>
    bc_data bc = block_bytes (opt_block_restart_interval opts) (blocks ! j)"
  using ReadBlock_kvs [OF table_blocksD(1) [OF b] f(1) trans [OF f(2) data_block_split [OF j, of sn opts ikvs]]] f(2)
    table_blocksD(8) [OF b] unfolding handle_at_def by metis

lemma BlockReader_eq:
  assumes b: "table_blocks sn opts blocks ikvs" and f: "ok f" "contents f = table_bytes sn opts blocks ikvs"
    and t: "opened sn opts (rd f) blocks ikvs t" and j: "j < length blocks"
  shows "Table_BlockReader sn t ro (snd (ikvs ! j)) =
    Some (Block_NewIterator (Block_make (block_bytes (opt_block_restart_interval opts) (blocks ! j))))"
proof -
  have "snd (ikvs ! j) = encode_handle (handle_at sn opts blocks j)"
    using table_blocksD(9) [OF b j] by (simp add: index_entry_def)
  moreover obtain bc where "ReadBlock sn (rd f) (ro_verify_checksums ro) (handle_at sn opts blocks j) = Some (Status_OK, bc)"
      "bc_data bc = block_bytes (opt_block_restart_interval opts) (blocks ! j)"
    using data_block_read [OF b f j] by blast
  ultimately show ?thesis using t by (simp add: Table_BlockReader_def opened_def Status_ok_iff)
qed

lemma BlockReader_ok:
  assumes b: "table_blocks sn opts blocks ikvs" and f: "ok f" "contents f = table_bytes sn opts blocks ikvs"
    and t: "opened sn opts (rd f) blocks ikvs t" and j: "j < length blocks"
  shows "\<exists>i. Table_BlockReader sn t ro (snd (ikvs ! j)) = Some i \<and>
    ptr_pos (opt_comparator opts) (opt_block_restart_interval opts) (blocks ! j) i (length (blocks ! j))"
proof -
  have "ascending (Compare (opt_comparator opts)) (blocks ! j)"
    using table_blocksD(4) [OF b] unfolding concat_split_nth [OF j] by (simp add: ascending_def sorted_wrt_append)
  from ptr_pos_make [OF table_blocksD(2) [OF b] this table_block_ok(2) [OF b j]] show ?thesis
    using BlockReader_eq [OF b f t j] by simp
qed

lemma table_two_level:
  assumes b: "table_blocks sn opts blocks ikvs" and f: "ok f" "contents f = table_bytes sn opts blocks ikvs"
    and t: "opened sn opts (rd f) blocks ikvs t"
  shows "two_level_ok (BlockPtr (opt_comparator opts)) (BlockPtr (opt_comparator opts)) (Table_BlockReader sn t ro)
    (Compare (opt_comparator opts)) ikvs blocks (ptr_pos (opt_comparator opts) 1 ikvs)
    (\<lambda>j. ptr_pos (opt_comparator opts) (opt_block_restart_interval opts) (blocks ! j))"
  unfolding two_level_ok_def
  using table_blocksD(2) [OF b] table_separates [OF b] table_handles_distinct [OF b] block_ptr.ordered_iterator_axioms
    BlockReader_ok [OF b f t, of _ ro] by blast

lemma index_iterator:
  assumes b: "table_blocks sn opts blocks ikvs" and t: "opened sn opts (rd f) blocks ikvs t"
  shows "ptr_pos (opt_comparator opts) 1 ikvs (Block_NewIterator (t_index_block t)) (length ikvs)"
  using ptr_pos_make [OF table_blocksD(2) [OF b] table_index_ascending [OF b] table_block_ok(1) [OF b]] t
  by (simp add: opened_def)

end

text \<open>The position of a table's iterator.\<close>

definition table_pos :: "Options \<Rightarrow> kv list list \<Rightarrow> kv list \<Rightarrow> table_iter \<Rightarrow> nat \<Rightarrow> bool" where
  "table_pos opts blocks ikvs =
     tl_pos (BlockPtr (opt_comparator opts)) (BlockPtr (opt_comparator opts)) ikvs blocks (ptr_pos (opt_comparator opts) 1 ikvs)
       (\<lambda>j. ptr_pos (opt_comparator opts) (opt_block_restart_interval opts) (blocks ! j))"

context random_file
begin

lemma table_iterator:
  assumes b: "table_blocks sn opts blocks ikvs" and f: "ok f" "contents f = table_bytes sn opts blocks ikvs"
    and t: "opened sn opts (rd f) blocks ikvs t"
  shows "ordered_iterator (TableIterator sn t ro) (Compare (opt_comparator opts)) (concat blocks) (table_pos opts blocks ikvs)"
    "table_pos opts blocks ikvs (Table_NewIterator t) (length (concat blocks))"
proof -
  have o: "t_options t = opts" using t by (simp add: opened_def)
  show "ordered_iterator (TableIterator sn t ro) (Compare (opt_comparator opts)) (concat blocks) (table_pos opts blocks ikvs)"
    unfolding TableIterator_def table_pos_def o by (rule TwoLevel_contract [OF table_two_level [OF b f t]])
  show "table_pos opts blocks ikvs (Table_NewIterator t) (length (concat blocks))"
    using wrapper_pos_Set [of "ptr_pos (opt_comparator opts) 1 ikvs" "Block_NewIterator (t_index_block t)" "length ikvs"
        "BlockPtr (opt_comparator opts)", OF index_iterator [OF b t]]
    by (auto simp: table_pos_def tl_pos_def Table_NewIterator_def TwoLevel_make_def o)
qed

end

section \<open>Lookups\<close>

text \<open>The filter that was written answers every question, and yes for every key of the block.\<close>

lemma filter_answers:
  "\<exists>b. FilterBlockReader_KeyMayMatch may_match (FilterBlockReader_make (filter_contents sn opts blocks p)) off k = Some b"
proof -
  obtain x where x: "filter_contents sn opts blocks p = x @ [of_nat kFilterBaseLg]"
    by (simp add: filter_contents_def FilterBlockBuilder_Finish_def Let_def)
  then have "unat (fr_base_lg (FilterBlockReader_make (filter_contents sn opts blocks p))) \<le> 11"
    by (simp add: FilterBlockReader_make_def Let_def kFilterBaseLg_def nth_append)
  then have "FilterBlockReader_KeyMayMatch may_match (FilterBlockReader_make (filter_contents sn opts blocks p)) off k \<noteq> None"
    by (auto simp: FilterBlockReader_KeyMayMatch_def Let_def)
  then show ?thesis by blast
qed

text \<open>A key is covered by another one if a filter for the other one lets it through.\<close>

definition covered :: "Options \<Rightarrow> bytes \<Rightarrow> bytes \<Rightarrow> bool" where
  "covered opts k k' \<longleftrightarrow>
     (\<forall>p. opt_filter_policy opts = Some p \<longrightarrow>
        (\<forall>keys. k' \<in> set keys \<longrightarrow> fp_KeyMayMatch p k (fp_CreateFilter p keys [])))"

lemma table_offsets:
  assumes "table_blocks sn opts blocks ikvs" "j \<le> length blocks"
  shows "unat (of_nat (length (data_bytes sn opts (take j blocks))) :: u64) = length (data_bytes sn opts (take j blocks))"
  using data_bytes_prefix [of sn opts j blocks ikvs] table_blocksD(8) [OF assms(1)] by (simp add: unat_of_nat)

lemma filter_calls_sorted:
  assumes "table_blocks sn opts blocks ikvs"
  shows "sorted (map fst (filter_calls sn opts blocks []))"
proof -
  have e: "map fst (filter_calls sn opts blocks []) =
      map (\<lambda>j. of_nat (length (data_bytes sn opts (take j blocks)))) [0..<Suc (length blocks)]"
    by (simp add: filter_calls_def)
  show ?thesis
    unfolding e sorted_iff_nth_mono_less
    using data_bytes_take [of _ _ blocks sn opts] table_offsets [OF assms]
    by (auto simp: word_le_nat_alt less_Suc_eq_le simp del: upt_Suc intro: less_imp_le)
qed

lemma KeyMayMatch_cong:
  assumes "\<And>x. mm k' x = mm2 k x"
  shows "FilterBlockReader_KeyMayMatch mm r off k' = FilterBlockReader_KeyMayMatch mm2 r off k"
  by (simp only: FilterBlockReader_KeyMayMatch_def assms)

lemma filter_covers:
  assumes b: "table_blocks sn opts blocks ikvs" and p: "opt_filter_policy opts = Some p"
    and j: "j < length blocks" and k': "k' \<in> fst ` set (blocks ! j)" and cov: "covered opts k k'"
  shows "FilterBlockReader_KeyMayMatch (fp_KeyMayMatch p) (FilterBlockReader_make (filter_contents sn opts blocks p))
    (bh_offset (handle_at sn opts blocks j)) k = Some True"
proof -
  define mm where "mm = (\<lambda>x flt. x = k' \<longrightarrow> fp_KeyMayMatch p k flt)"
  have fp: "filter_policy (fp_CreateFilter p) (fp_KeyMayMatch p)" using b p by (simp add: table_blocks_def table_params_def)
  have m: "filter_policy (fp_CreateFilter p) mm"
  proof
    show "fp_CreateFilter p keys dst = dst @ fp_CreateFilter p keys []" for keys dst
      by (rule filter_policy.create_appends [OF fp])
    show "key \<in> set keys \<Longrightarrow> mm key (fp_CreateFilter p keys [])" for key keys
      using cov p by (auto simp: mm_def covered_def)
  qed
  have c: "(bh_offset (handle_at sn opts blocks j), map fst (blocks ! j)) \<in> set (filter_calls sn opts blocks [])"
    using j by (auto simp: filter_calls_def handle_at_def)
  have l: "length (filter_contents sn opts blocks p) < 2 ^ 32"
    using table_blocksD(7) [OF b] p by (simp add: table_bytes_def before_index_def before_meta_def filter_stored_def)
  have "FilterBlockReader_KeyMayMatch mm (FilterBlockReader_make (filter_contents sn opts blocks p))
      (bh_offset (handle_at sn opts blocks j)) k' = Some True"
    unfolding filter_contents_def
    by (rule filter_policy.add_blocks_no_false_negative [OF m filter_calls_sorted [OF b] c])
      (use k' l in \<open>simp_all add: filter_contents_def\<close>)
  then show ?thesis using KeyMayMatch_cong [of mm k' "fp_KeyMayMatch p" k] by (simp add: mm_def)
qed

text \<open>What a lookup comes to: the first pair at or past the key in the block that the index leads to.\<close>

definition lookup_result :: "Snappy \<Rightarrow> Options \<Rightarrow> kv list list \<Rightarrow> kv list \<Rightarrow> bytes \<Rightarrow> kv option" where
  "lookup_result sn opts blocks ikvs k =
     (let cmp = Compare (opt_comparator opts); j = lower_bound cmp k ikvs in
      if j < length blocks \<and>
         (\<forall>p. opt_filter_policy opts = Some p \<longrightarrow>
            FilterBlockReader_KeyMayMatch (fp_KeyMayMatch p) (FilterBlockReader_make (filter_contents sn opts blocks p))
              (bh_offset (handle_at sn opts blocks j)) k = Some True) \<and>
         lower_bound cmp k (blocks ! j) < length (blocks ! j)
      then Some (blocks ! j ! lower_bound cmp k (blocks ! j)) else None)"

lemma lookup_sound:
  assumes b: "table_blocks sn opts blocks ikvs" and r: "lookup_result sn opts blocks ikvs k = Some kv"
  defines "n \<equiv> lower_bound (Compare (opt_comparator opts)) k (concat blocks)"
  shows "n < length (concat blocks) \<and> kv = concat blocks ! n"
proof -
  let ?cmp = "Compare (opt_comparator opts)"
  define j where "j = lower_bound ?cmp k ikvs"
  have j: "j < length blocks" "lower_bound ?cmp k (blocks ! j) < length (blocks ! j)"
    "kv = blocks ! j ! lower_bound ?cmp k (blocks ! j)"
    using r by (simp_all add: lookup_result_def j_def Let_def split: if_splits)
  have "n = boff blocks j + lower_bound ?cmp k (blocks ! j)"
    using lower_bound_concat [OF table_blocksD(2) [OF b] table_separates [OF b], of k] j(1) by (simp add: n_def j_def)
  then show ?thesis using boff_bound_less [OF j(1,2)] concat_boff [OF j(1,2)] j(3) by simp
qed

text \<open>
  The first pair at or past the key is found if its key covers it, and if no separator before that pair
  is at or past the key.
\<close>

lemma lookup_complete:
  fixes k :: bytes
  assumes b: "table_blocks sn opts blocks ikvs"
  defines "cmp \<equiv> Compare (opt_comparator opts)"
  defines "n \<equiv> lower_bound cmp k (concat blocks)"
  assumes n: "n < length (concat blocks)" and cov: "covered opts k (fst (concat blocks ! n))"
    and sep: "\<And>start. cmp start (fst (concat blocks ! n)) < 0 \<Longrightarrow> cmp start k < 0 \<Longrightarrow>
      cmp (FindShortestSeparator (opt_comparator opts) start (fst (concat blocks ! n))) k < 0"
  shows "lookup_result sn opts blocks ikvs k = Some (concat blocks ! n)"
proof -
  note D = table_blocksD [OF b]
  define j where "j = lower_bound cmp k ikvs"
  define m where "m = lower_bound cmp k (blocks ! j)"
  have n_eq: "n = (if j < length blocks then boff blocks j + m else length (concat blocks))"
    using lower_bound_concat [OF D(2) table_separates [OF b], of k] by (simp add: n_def j_def m_def cmp_def)
  then have j: "j < length blocks" and n': "n = boff blocks j + m" using n by (auto split: if_splits)
  have "m < length (blocks ! j)"
  proof (rule ccontr)
    assume "\<not> m < length (blocks ! j)"
    then have m: "m = length (blocks ! j)" using lower_bound_le [of cmp k "blocks ! j"] by (simp add: m_def)
    let ?L = "concat (drop (Suc j) blocks)"
    have s: "concat blocks = concat (take (Suc j) blocks) @ ?L" by (metis append_take_drop_id concat_append)
    have "n = length (concat (take (Suc j) blocks))" using n' m boff_Suc [OF j] by (simp add: boff_def)
    then have L: "?L \<noteq> []" "concat blocks ! n = hd ?L"
      using n s by (auto simp: nth_append hd_conv_nth)
    have ne: "blocks ! j \<noteq> []" using D(5) j by (metis nth_mem)
    have e: "fst (ikvs ! j) = FindShortestSeparator (opt_comparator opts) (fst (last (blocks ! j))) (fst (concat blocks ! n))"
      using D(9) [OF j] L by (simp add: index_entry_def)
    have "last (blocks ! j) \<in> set (concat (take (Suc j) blocks))"
      using last_in_set [OF ne] j by (auto simp: take_Suc_conv_app_nth)
    moreover have "hd ?L \<in> set ?L" by (rule hd_in_set [OF L(1)])
    ultimately have "cmp (fst (last (blocks ! j))) (fst (hd ?L)) < 0"
      using D(4) unfolding s cmp_def ascending_def sorted_wrt_append by blast
    then have "cmp (fst (last (blocks ! j))) (fst (concat blocks ! n)) < 0" using L(2) by simp
    moreover have "cmp (fst (last (blocks ! j))) k < 0"
      using lower_bound_below [of "length (blocks ! j) - 1" cmp k "blocks ! j"] m ne by (simp add: last_conv_nth m_def)
    ultimately have "cmp (fst (ikvs ! j)) k < 0" using sep e by simp
    then show False using lower_bound_at [of cmp k ikvs] j D(6) by (simp add: j_def)
  qed
  moreover from this have kv: "concat blocks ! n = blocks ! j ! m" using n' concat_boff [OF j] by simp
  moreover have "FilterBlockReader_KeyMayMatch (fp_KeyMayMatch p) (FilterBlockReader_make (filter_contents sn opts blocks p))
      (bh_offset (handle_at sn opts blocks j)) k = Some True" if "opt_filter_policy opts = Some p" for p
    using filter_covers [OF b that j _ cov] calculation by simp
  ultimately show ?thesis using j by (simp add: lookup_result_def Let_def j_def m_def cmp_def)
qed

context random_file
begin

lemma InternalGet_ok:
  assumes b: "table_blocks sn opts blocks ikvs" and f: "ok f" "contents f = table_bytes sn opts blocks ikvs"
    and t: "opened sn opts (rd f) blocks ikvs t"
  shows "InternalGet sn t ro k = Some (Status_OK, lookup_result sn opts blocks ikvs k)"
proof -
  let ?c = "opt_comparator opts" and ?iv = "opt_block_restart_interval opts"
  let ?it = "BlockPtr ?c" and ?j = "lower_bound (Compare ?c) k ikvs"
  note D = table_blocksD [OF b]
  have o: "t_options t = opts" using t by (simp add: opened_def)
  obtain i where i: "it_Seek ?it k (Block_NewIterator (t_index_block t)) = Some i" "ptr_pos ?c 1 ikvs i ?j"
    using block_ptr.seek [OF index_iterator [OF b t], of k] by blast
  have st: "it_status ?it i = Status_OK" and va: "it_Valid ?it i \<longleftrightarrow> ?j < length blocks"
    using block_ptr.status_at [OF i(2)] block_ptr.valid_iff [OF i(2)] D(6) by simp_all
  show ?thesis
  proof (cases "?j < length blocks")
    case False
    then show ?thesis using i(1) st va by (simp add: InternalGet_def o Let_def lookup_result_def Status_ok_iff)
  next
    case True
    have v: "it_value ?it i = snd (ikvs ! ?j)" using block_ptr.value_at [OF i(2)] True D(6) by simp
    have h: "snd (ikvs ! ?j) = encode_handle (handle_at sn opts blocks ?j)"
      using D(9) [OF True] by (simp add: index_entry_def)
    define pass where "pass = (\<forall>p. opt_filter_policy opts = Some p \<longrightarrow>
        FilterBlockReader_KeyMayMatch (fp_KeyMayMatch p) (FilterBlockReader_make (filter_contents sn opts blocks p))
          (bh_offset (handle_at sn opts blocks ?j)) k = Some True)"
    have skip: "(case (t_filter t, opt_filter_policy opts) of
        (Some fr, Some p) \<Rightarrow> if Status_ok Status_OK
          then map_option Not (FilterBlockReader_KeyMayMatch (fp_KeyMayMatch p) fr (bh_offset (handle_at sn opts blocks ?j)) k)
          else Some False
      | _ \<Rightarrow> Some False) = Some (\<not> pass)"
    proof (cases "opt_filter_policy opts")
      case (Some p)
      then show ?thesis
        using t filter_answers [of "fp_KeyMayMatch p" sn opts blocks p "bh_offset (handle_at sn opts blocks ?j)" k]
        by (auto simp: pass_def opened_def Status_ok_iff)
    qed (use t in \<open>simp add: pass_def opened_def\<close>)
    obtain d where d: "Table_BlockReader sn t ro (snd (ikvs ! ?j)) = Some d"
        "ptr_pos ?c ?iv (blocks ! ?j) d (length (blocks ! ?j))"
      using BlockReader_ok [OF b f t True] by blast
    let ?m = "lower_bound (Compare ?c) k (blocks ! ?j)"
    obtain e where e: "it_Seek ?it k d = Some e" "ptr_pos ?c ?iv (blocks ! ?j) e ?m"
      using block_ptr.seek [OF d(2), of k] by blast
    have E: "it_status ?it e = Status_OK" "it_Valid ?it e \<longleftrightarrow> ?m < length (blocks ! ?j)"
      "?m < length (blocks ! ?j) \<Longrightarrow> (it_key ?it e, it_value ?it e) = blocks ! ?j ! ?m"
      using block_ptr.status_at [OF e(2)] block_ptr.valid_iff [OF e(2)] block_ptr.key_at [OF e(2)] block_ptr.value_at [OF e(2)]
      by simp_all
    show ?thesis
      unfolding InternalGet_def o Let_def i(1) lookup_result_def pass_def [symmetric]
      using va True v h skip d(1) e(1) E st by (simp add: Status_ok_iff)
  qed
qed

end

end
