(* ===== verification/Table_Get.thy ===== *)
theory Table_Get
  imports Table Memtable
begin

text \<open>
  Tables from end to end: what was added to a builder comes back from the file, by scans and by the
  lookups the database makes.
\<close>

section \<open>Scans\<close>

lemma table_built:
  assumes "table_params sn opts" "ascending (Compare (opt_comparator opts)) kvs" "pairs_size kvs + 8 < 2 ^ 32"
    and "pw_ok f" "pw_contents f = []" "build_table sn PosixWritable opts kvs f = (s, r)" "Status_ok s"
    and "length (pw_contents (tb_file r)) < 2 ^ 32"
  shows "\<exists>blks ikvs. table_blocks sn opts blks ikvs \<and> concat blks = kvs \<and>
    pw_contents (tb_file r) = table_bytes sn opts blks ikvs \<and> tb_closed r \<and>
    FileSize r = of_nat (length (pw_contents (tb_file r))) \<and> NumEntries r = of_nat (length kvs)"
proof -
  have c: "short_comparator (opt_comparator opts)" "1 \<le> opt_block_restart_interval opts"
    using assms(1) by (simp_all add: table_params_def)
  obtain blks ikvs where "concat blks = kvs" "[] \<notin> set blks" "index_entries sn opts blks [] ikvs"
      "length ikvs = length blks" "tb_closed r" "pw_contents (tb_file r) = table_bytes sn opts blks ikvs"
      "tb_offset r = of_nat (length (table_bytes sn opts blks ikvs))" "tb_num_entries r = of_nat (length kvs)"
    using posix_writable.build_table_ok [OF c assms(4,5,2,6,7)] by blast
  then show ?thesis
    using assms(1,2,3,8) by (intro exI [of _ blks] exI [of _ ikvs]) (simp add: table_blocks_def FileSize_def NumEntries_def)
qed

text \<open>
  C24.  Pairs with strictly ascending keys that are added to a table builder come back if every
  write succeeds, whatever the block size, the restart interval, the compression and the filter policy: the builder's
  file size is the size of the file; opening the file succeeds; the table's iterator gives exactly the pairs in order from the first,
  in reverse order from the last, and after a seek those at or past the target; every move returns.
\<close>

theorem table_roundtrip:
  assumes "table_params sn opts" "ascending (Compare (opt_comparator opts)) kvs" "pairs_size kvs + 8 < 2 ^ 32"
    and "pw_ok f" "pw_contents f = []" "build_table sn PosixWritable opts kvs f = (s, r)" "Status_ok s"
    and "length (pw_contents (tb_file r)) < 2 ^ 32" "pr_ok g" "pr_data g = pw_contents (tb_file r)"
  shows "FileSize r = of_nat (length (pr_data g)) \<and> NumEntries r = of_nat (length kvs) \<and>
    (\<exists>t. Table_Open sn opts (PosixRandomAccessFile_Read g) (FileSize r) cache_id = Some (Status_OK, Some t) \<and>
      (\<exists>i. it_SeekToFirst (TableIterator sn t ro) (Table_NewIterator t) = Some i \<and>
         scan (length kvs) (TableIterator sn t ro) i = Some kvs) \<and>
      (kvs \<noteq> [] \<longrightarrow> (\<exists>i. it_SeekToLast (TableIterator sn t ro) (Table_NewIterator t) = Some i \<and>
         scan_back (length kvs) (TableIterator sn t ro) i = Some (rev kvs))) \<and>
      (\<forall>target. \<exists>i. it_Seek (TableIterator sn t ro) target (Table_NewIterator t) = Some i \<and>
         scan (length kvs) (TableIterator sn t ro) i =
           Some (dropWhile (\<lambda>kv. Compare (opt_comparator opts) (fst kv) target < 0) kvs)))"
proof -
  obtain blks ikvs where b: "table_blocks sn opts blks ikvs" "concat blks = kvs"
      "pr_data g = table_bytes sn opts blks ikvs"
    and n: "FileSize r = of_nat (length (pr_data g))" "NumEntries r = of_nat (length kvs)"
    using table_built [OF assms(1-8)] assms(10) by auto
  obtain t where t: "Table_Open sn opts (PosixRandomAccessFile_Read g) (FileSize r) cache_id = Some (Status_OK, Some t)"
      "opened sn opts (PosixRandomAccessFile_Read g) blks ikvs t"
    using posix_random.Table_Open_ok [OF b(1) assms(9) b(3), of cache_id] n(1) by auto
  note it = posix_random.table_iterator [OF b(1) assms(9) b(3) t(2), unfolded b(2)]
  show ?thesis
    using n t(1) ordered_iterator.scan_all [OF it(1) [of ro] it(2)] ordered_iterator.scan_back_all [OF it(1) [of ro] it(2)]
      ordered_iterator.seek_scan [OF it(1) [of ro] it(2)] by blast
qed

section \<open>Builders on files that do not fail\<close>

text \<open>If appending to and flushing the file always succeeds, so does every operation of the builder.\<close>

definition never_fails :: "'f WritableFile \<Rightarrow> ('f \<Rightarrow> bool) \<Rightarrow> bool" where
  "never_fails fo Q \<longleftrightarrow>
     (\<forall>f bs. Q f \<longrightarrow> fst (wf_Append fo bs f) = Status_OK \<and> Q (snd (wf_Append fo bs f)) \<and>
        fst (wf_Flush fo f) = Status_OK \<and> Q (snd (wf_Flush fo f)))"

definition builder_good :: "('f \<Rightarrow> bool) \<Rightarrow> 'f TableBuilder \<Rightarrow> bool" where
  "builder_good Q r \<longleftrightarrow> tb_status r = Status_OK \<and> Q (tb_file r)"

lemma WriteRawBlock_good:
  "never_fails fo Q \<Longrightarrow> builder_good Q r \<Longrightarrow> builder_good Q (snd (WriteRawBlock fo c type r))"
  by (simp add: WriteRawBlock_def builder_good_def never_fails_def Let_def case_prod_unfold Status_ok_iff)

lemma WriteBlock_good:
  "never_fails fo Q \<Longrightarrow> builder_good Q r \<Longrightarrow> builder_good Q (snd (snd (WriteBlock sn fo b r)))"
  using WriteRawBlock_good [of fo Q r] by (simp add: WriteBlock_def Let_def case_prod_unfold)

lemma filter_StartBlock_good [simp]:
  "tb_status (filter_StartBlock off r) = tb_status r" "tb_file (filter_StartBlock off r) = tb_file r"
  by (simp_all add: filter_StartBlock_def)

lemma Flush_good:
  assumes "never_fails fo Q" "builder_good Q r"
  shows "builder_good Q (TableBuilder_Flush sn fo r)"
proof -
  obtain h b r1 where w: "WriteBlock sn fo (tb_data_block r) r = (h, b, r1)" by (metis prod_cases3)
  have "builder_good Q r1" using WriteBlock_good [OF assms, of sn "tb_data_block r"] w by simp
  then show ?thesis
    using assms w by (simp add: TableBuilder_Flush_def Let_def never_fails_def
        builder_good_def case_prod_unfold Status_ok_iff)
qed

lemma Add_good:
  assumes "never_fails fo Q" "builder_good Q r"
  shows "builder_good Q (TableBuilder_Add sn fo k v r)"
proof -
  have "builder_good Q (add_pair k v r')" if "builder_good Q r'" for r' using that by (simp add: add_pair_def builder_good_def)
  moreover have "builder_good Q (add_index_entry key r)" for key using assms(2) by (simp add: add_index_entry_def builder_good_def)
  ultimately show ?thesis using assms Flush_good [OF assms(1)] by (simp add: TableBuilder_Add_eq Let_def)
qed

lemma Finish_good:
  assumes n: "never_fails fo Q" and r: "builder_good Q r"
  shows "fst (TableBuilder_Finish sn fo r) = Status_OK"
proof -
  have c: "builder_good Q ((TableBuilder_Flush sn fo r)\<lparr>tb_closed := True\<rparr>)"
    using Flush_good [OF n r, of sn] by (simp add: builder_good_def)
  have f: "builder_good Q (snd (finish_filter fo r'))" if "builder_good Q r'" for r'
    using that WriteRawBlock_good [OF n that] by (simp add: finish_filter_def case_prod_unfold split: option.splits)
  have m: "builder_good Q (snd (finish_meta sn fo h r'))" if "builder_good Q r'" for h r'
    using that WriteBlock_good [OF n that] by (simp add: finish_meta_def Let_def case_prod_unfold)
  have i: "builder_good Q (snd (finish_index sn fo r'))" if "builder_good Q r'" for r'
  proof -
    have "builder_good Q (add_index_entry key r')" for key using that by (simp add: add_index_entry_def builder_good_def)
    then have "builder_good Q (snd (snd (WriteBlock sn fo (tb_index_block r1) r1)))"
      if "r1 = r' \<or> (\<exists>key. r1 = add_index_entry key r')" for r1
      using that \<open>builder_good Q r'\<close> WriteBlock_good [OF n] by blast
    then show ?thesis using that by (auto simp: finish_index_def Let_def case_prod_unfold builder_good_def)
  qed
  have t: "tb_status (finish_footer fo mh ih r') = Status_OK" if "builder_good Q r'" for mh ih r'
    using that n by (simp add: finish_footer_def builder_good_def never_fails_def Let_def case_prod_unfold Status_ok_iff)
  show ?thesis using t [OF i [OF m [OF f [OF c]]]] by (simp add: TableBuilder_Finish_def Let_def case_prod_unfold)
qed

lemma build_table_good:
  assumes n: "never_fails fo Q" and f: "Q f"
  shows "fst (build_table sn fo opts kvs f) = Status_OK"
proof -
  have "builder_good Q (add_pairs sn fo kvs (TableBuilder_make opts f))"
  proof (induction kvs rule: rev_induct)
    case Nil
    then show ?case using f by (simp add: add_pairs_def TableBuilder_make_def builder_good_def)
  next
    case (snoc kv kvs)
    then show ?case using Add_good [OF n snoc] by (simp add: add_pairs_def case_prod_unfold)
  qed
  then show ?thesis unfolding build_table_def by (rule Finish_good [OF n])
qed

text \<open>A POSIX file whose system calls do all that they are asked to.\<close>

definition pw_quiet :: "PosixWritableFile \<Rightarrow> bool" where
  "pw_quiet w \<longleftrightarrow> fd_outcomes (pw_fd w) = []"

lemma pw_quiet_write_loop:
  "fd_outcomes f = [] \<Longrightarrow> fst (WriteUnbuffered_loop name bs f) = Status_OK \<and> fd_outcomes (snd (WriteUnbuffered_loop name bs f)) = []"
  by (cases "bs = []") (simp_all add: sys_write_def WriteUnbuffered_loop.simps)

lemma pw_quiet_never_fails: "never_fails PosixWritable pw_quiet"
  using pw_quiet_write_loop
  by (auto simp: never_fails_def PosixWritable_def pw_quiet_def PosixWritableFile_Append_def PosixWritableFile_Flush_def
      FlushBuffer_def WriteUnbuffered_def Let_def case_prod_unfold Status_ok_iff)

section \<open>The size of a table\<close>

lemma stored_kvs_size: "length (stored_kvs sn opts interval kvs) \<le> pairs_size kvs + 13"
proof -
  obtain c type where c: "choose_block sn (opt_compression opts) (block_bytes interval kvs) = (c, type)" by fastforce
  then have "length c \<le> length (block_bytes interval kvs)"
    by (auto simp: choose_block_def split: CompressionType.splits option.splits if_splits)
  then show ?thesis
    using block_bytes_size [of interval kvs] c by (simp add: length_stored_kvs stored_size_def kBlockTrailerSize_def)
qed

lemma data_bytes_size: "[] \<notin> set blks \<Longrightarrow> length (data_bytes sn opts blks) \<le> 2 * pairs_size (concat blks)"
proof (induction blks)
  case (Cons b blks)
  then have "64 \<le> pairs_size b" by (cases b) simp_all
  then show ?case
    using Cons stored_kvs_size [of sn opts "opt_block_restart_interval opts" b] by (simp add: data_bytes_def)
qed (simp add: data_bytes_def)

lemma table_bytes_size:
  assumes "[] \<notin> set blks" "index_entries sn opts blks cur ikvs" "opt_filter_policy opts = None"
  shows "length (table_bytes sn opts blks ikvs) \<le> 3 * pairs_size (concat blks) + 100"
proof -
  obtain c type where c: "choose_block sn (opt_compression opts) (block_bytes 1 ikvs) = (c, type)" by fastforce
  then have "length c \<le> length (block_bytes 1 ikvs)"
    by (auto simp: choose_block_def split: CompressionType.splits option.splits if_splits)
  then have "length (stored_kvs sn opts 1 ikvs) \<le> pairs_size (concat blks) + 13"
    using index_size [OF assms(1,2)] c by (simp add: length_stored_kvs stored_size_def kBlockTrailerSize_def)
  then show ?thesis
    using data_bytes_size [OF assms(1), of sn opts] stored_kvs_size [of sn opts "opt_block_restart_interval opts" "[]"] assms(3)
    by (simp add: table_bytes_def before_index_def before_meta_def filter_stored_def meta_kvs_def kEncodedLength_def kMaxEncodedLength_def)
qed

definition small_options :: Options where
  "small_options = \<lparr>opt_comparator = BytewiseComparator, opt_paranoid_checks = True, opt_block_size = 1,
     opt_block_restart_interval = 16, opt_compression = kSnappyCompression, opt_filter_policy = None\<rparr>"

definition new_file :: PosixWritableFile where
  "new_file = PosixWritableFile_make [] \<lparr>fd_data = [], fd_offset = 0, fd_outcomes = []\<rparr>"

lemma new_file_simps: "pw_ok new_file" "pw_contents new_file = []" "pw_quiet new_file"
  by (simp_all add: new_file_def PosixWritableFile_make_def pw_ok_def pw_contents_def pw_quiet_def pw_durable_def)

lemma small_options_params: "table_params no_snappy small_options"
  by (simp add: table_params_def small_options_def no_snappy.compression_axioms bytewise_short.short_comparator_axioms)

text \<open>A small table on a file that does not fail.\<close>

lemma quiet_table:
  assumes p: "table_params no_snappy opts" "opt_filter_policy opts = None" and asc: "ascending (Compare (opt_comparator opts)) kvs"
    and n: "pairs_size kvs \<le> 1000"
  shows "\<exists>r blks ikvs. build_table no_snappy PosixWritable opts kvs new_file = (Status_OK, r) \<and>
     table_blocks no_snappy opts blks ikvs \<and> concat blks = kvs \<and>
     pw_contents (tb_file r) = table_bytes no_snappy opts blks ikvs \<and> length (pw_contents (tb_file r)) \<le> 3100 \<and>
     FileSize r = of_nat (length (pw_contents (tb_file r)))"
proof -
  obtain r where r: "build_table no_snappy PosixWritable opts kvs new_file = (Status_OK, r)"
    using build_table_good [OF pw_quiet_never_fails new_file_simps(3), of no_snappy opts kvs] by (metis prod.collapse)
  have c: "short_comparator (opt_comparator opts)" "1 \<le> opt_block_restart_interval opts"
    using p by (simp_all add: table_params_def)
  obtain blks ikvs where b: "concat blks = kvs" "[] \<notin> set blks" "index_entries no_snappy opts blks [] ikvs"
      "length ikvs = length blks" "pw_contents (tb_file r) = table_bytes no_snappy opts blks ikvs"
      "tb_offset r = of_nat (length (table_bytes no_snappy opts blks ikvs))"
    using posix_writable.build_table_ok [OF c new_file_simps(1,2) asc r] by (auto simp: Status_ok_iff)
  have l: "length (pw_contents (tb_file r)) \<le> 3100" using table_bytes_size [OF b(2,3) p(2)] b(1,5) n by simp
  have "table_blocks no_snappy opts blks ikvs" using b asc l n p by (simp add: table_blocks_def)
  with r b l show ?thesis by (auto simp: FileSize_def)
qed

lemma small_table:
  "\<exists>r blks ikvs. build_table no_snappy PosixWritable small_options [([1], [5]), ([2], [])] new_file = (Status_OK, r) \<and>
     table_blocks no_snappy small_options blks ikvs \<and> concat blks = [([1], [5]), ([2], [])] \<and>
     pw_contents (tb_file r) = table_bytes no_snappy small_options blks ikvs \<and> length (pw_contents (tb_file r)) \<le> 3100"
proof -
  let ?kvs = "[([1], [5]), ([2], [])] :: kv list"
  have "opt_filter_policy small_options = None" "ascending (Compare (opt_comparator small_options)) ?kvs" "pairs_size ?kvs \<le> 1000"
    by (simp_all add: ascending_def small_options_def Slice_compare_def)
  from quiet_table [OF small_options_params this] show ?thesis by blast
qed

text \<open>A table of two pairs, in two blocks.\<close>

theorem table_roundtrip_witness:
  "\<exists>r t i. build_table no_snappy PosixWritable small_options [([1], [5]), ([2], [])] new_file = (Status_OK, r) \<and>
     Table_Open no_snappy small_options (PosixRandomAccessFile_Read
       \<lparr>pr_filename = [], pr_has_permanent_fd = True, pr_data = pw_contents (tb_file r), pr_open_error = None,
        pr_outcome = \<lambda>_ n. Done (unat n)\<rparr>) (FileSize r) 7 = Some (Status_OK, Some t) \<and>
     it_SeekToFirst (TableIterator no_snappy t \<lparr>ro_verify_checksums = True, ro_fill_cache = True\<rparr>) (Table_NewIterator t) = Some i \<and>
     scan 2 (TableIterator no_snappy t \<lparr>ro_verify_checksums = True, ro_fill_cache = True\<rparr>) i = Some [([1], [5]), ([2], [])]"
proof -
  let ?kvs = "[([1], [5]), ([2], [])] :: kv list"
  have asc: "ascending (Compare (opt_comparator small_options)) ?kvs"
    by (simp add: ascending_def small_options_def Slice_compare_def)
  obtain r where r: "build_table no_snappy PosixWritable small_options ?kvs new_file = (Status_OK, r)"
    and l: "length (pw_contents (tb_file r)) \<le> 3100" using small_table by blast
  let ?g = "\<lparr>pr_filename = [], pr_has_permanent_fd = True, pr_data = pw_contents (tb_file r), pr_open_error = None,
        pr_outcome = \<lambda>_ n. Done (unat n)\<rparr>"
  have ok: "pr_ok ?g" using l by (simp add: pr_ok_def)
  obtain t i where "Table_Open no_snappy small_options (PosixRandomAccessFile_Read ?g) (FileSize r) 7 = Some (Status_OK, Some t)"
      "it_SeekToFirst (TableIterator no_snappy t \<lparr>ro_verify_checksums = True, ro_fill_cache = True\<rparr>) (Table_NewIterator t) = Some i"
      "scan (length ?kvs) (TableIterator no_snappy t \<lparr>ro_verify_checksums = True, ro_fill_cache = True\<rparr>) i = Some ?kvs"
    using table_roundtrip [OF small_options_params asc _ new_file_simps(1,2) r _ _ ok,
        of 7 "\<lparr>ro_verify_checksums = True, ro_fill_cache = True\<rparr>"] l
    by (auto simp: Status_ok_iff simp del: scan.simps)
  with r show ?thesis by (auto simp: numeral_2_eq_2 simp del: scan.simps)
qed

section \<open>The lookups of the database\<close>

text \<open>\<^verbatim>\<open>db/dbformat.h\<close>: the policy the database gives to its tables looks at user keys only.\<close>

definition InternalFilterPolicy :: "FilterPolicy \<Rightarrow> FilterPolicy" where
  "InternalFilterPolicy p =
     \<lparr>fp_Name = fp_Name p, fp_CreateFilter = InternalFilterPolicy_CreateFilter (fp_CreateFilter p),
      fp_KeyMayMatch = InternalFilterPolicy_KeyMayMatch (fp_KeyMayMatch p)\<rparr>"

definition BloomFilterPolicy :: "nat \<Rightarrow> FilterPolicy" where
  "BloomFilterPolicy bits_per_key =
     \<lparr>fp_Name = lit ''leveldb.BuiltinBloomFilter2'', fp_CreateFilter = BloomFilterPolicy_CreateFilter bits_per_key,
      fp_KeyMayMatch = BloomFilterPolicy_KeyMayMatch\<rparr>"

text \<open>The options of the database's tables, with or without a Bloom filter.\<close>

definition db_options :: "nat option \<Rightarrow> Options \<Rightarrow> bool" where
  "db_options bloom_bits opts \<longleftrightarrow>
     opt_comparator opts = InternalKeyComparator BytewiseComparator \<and> 1 \<le> opt_block_restart_interval opts \<and>
     opt_filter_policy opts = map_option (\<lambda>bits. InternalFilterPolicy (BloomFilterPolicy bits)) bloom_bits"

lemma db_options_params: "db_options bloom_bits opts \<Longrightarrow> compression sn \<Longrightarrow> table_params sn opts"
  by (cases bloom_bits) (simp_all add: db_options_def table_params_def internal_short.short_comparator_axioms
      internal_bloom.filter_policy_axioms InternalFilterPolicy_def BloomFilterPolicy_def lit_def)

lemma db_options_covered:
  assumes "db_options bloom_bits opts" "ExtractUserKey k = ExtractUserKey k'"
  shows "covered opts k k'"
proof -
  have "BloomFilterPolicy_KeyMayMatch (ExtractUserKey k) (BloomFilterPolicy_CreateFilter bits (map ExtractUserKey keys) [])"
    if "k' \<in> set keys" for bits keys
    using that assms(2) bloom.no_false_negative [of "ExtractUserKey k" "map ExtractUserKey keys" bits] by auto
  then show ?thesis
    using assms(1) by (auto simp: covered_def db_options_def InternalFilterPolicy_def BloomFilterPolicy_def
        InternalFilterPolicy_CreateFilter_def InternalFilterPolicy_KeyMayMatch_def)
qed

context key_comparator
begin

text \<open>No separator comes between a key and a later key of the same user key.\<close>

lemma internal_separator_same_user:
  assumes "InternalKeyComparator_Compare c start limit < 0" "InternalKeyComparator_Compare c start k < 0"
    and "Compare c (ExtractUserKey limit) (ExtractUserKey k) = 0"
  shows "InternalKeyComparator_Compare c (InternalKeyComparator_FindShortestSeparator c start limit) k < 0"
proof (cases rule: internal_separator_cases [of start limit])
  case shorter
  let ?us = "ExtractUserKey start" and ?ul = "ExtractUserKey limit"
  have "Compare c ?us ?ul \<noteq> 0"
    using separator_same [of ?us ?ul] shorter(2) cmp_less_le_trans [of ?us _ ?ul] by fastforce
  then have "Compare c ?us ?ul < 0" using internal_compare_le_user [of start limit] assms(1) by simp
  then have "Compare c (FindShortestSeparator c ?us ?ul) ?ul < 0" by (rule separator_less)
  then have "Compare c (FindShortestSeparator c ?us ?ul) (ExtractUserKey k) < 0"
    using cmp_less_le_trans assms(3) by fastforce
  then show ?thesis unfolding shorter(1) by (intro internal_compare_user) simp
qed (use assms(2) in simp)

lemma internal_compare_lookup:
  assumes "entry_ok e" "snap \<le> kMaxSequenceNumber"
  shows "InternalKeyComparator_Compare c (entry_internal e) (LookupKey_internal_key (LookupKey_make uk snap)) < 0 \<longleftrightarrow>
    Compare c (e_key e) uk < 0 \<or> Compare c (e_key e) uk = 0 \<and> snap < e_seq e"
proof -
  have "PackSequenceAndType snap kTypeValue < PackSequenceAndType (e_seq e) (e_type e) \<longleftrightarrow> snap < e_seq e"
    using assms Pack_less_iff [of snap "e_seq e" kTypeValue "e_type e"]
    by (cases "e_type e") (auto simp: entry_ok_def)
  then show ?thesis
    by (auto simp: LookupKey_internal_key_make InternalKeyComparator_Compare_def entry_internal_def AppendInternalKey_eq
        kValueTypeForSeek_def Let_def)
qed

text \<open>Among entries in order, the first at or past a lookup key tells which one is visible.\<close>

lemma first_at_lookup:
  fixes uk :: bytes
  assumes asc: "sorted_wrt (\<lambda>a b. InternalKeyComparator_Compare c (entry_internal a) (entry_internal b) < 0) es"
    and ok: "\<forall>e\<in>set es. entry_ok e" and dist: "distinct_entries c es" and snap: "snap \<le> kMaxSequenceNumber"
  defines "P \<equiv> \<lambda>e. InternalKeyComparator_Compare c (entry_internal e) (LookupKey_internal_key (LookupKey_make uk snap)) < 0"
  shows "newest (filter (visible c uk snap) es) =
    (case dropWhile P es of [] \<Rightarrow> None | e # _ \<Rightarrow> if Compare c (e_key e) uk = 0 then Some e else None)"
proof -
  let ?G = "\<lambda>e. \<not> (Compare c (e_key e) uk < 0 \<or> Compare c (e_key e) uk = 0 \<and> snap < e_seq e)"
  have G: "?G e \<longleftrightarrow> \<not> P e" if "e \<in> set es" for e
    using internal_compare_lookup [of e snap uk] that ok snap by (simp add: P_def)
  have mono: "\<not> P b" if "\<not> P a" "InternalKeyComparator_Compare c (entry_internal a) (entry_internal b) < 0" for a b
    using that three_way.cmp_less_trans [OF internal_three_way, of "entry_internal a" "entry_internal b"
        "LookupKey_internal_key (LookupKey_make uk snap)"] by (auto simp: P_def)
  have "filter (\<lambda>e. \<not> P e) es = dropWhile P es"
    using asc
  proof (induction es)
    case (Cons e es)
    then show ?case using mono [of e] by (cases "P e") (auto intro: filter_True)
  qed simp
  moreover have "filter ?G es = filter (\<lambda>e. \<not> P e) es" by (rule filter_cong [OF refl]) (rule G)
  ultimately have f: "filter ?G es = dropWhile P es" by simp
  have s: "sorted_wrt (\<lambda>a b. MemTable_KeyComparator c (entry_bytes a) (entry_bytes b) < 0) es"
    by (rule sorted_wrt_mono_rel [OF _ asc]) (use ok compare_entries in auto)
  show ?thesis
  proof (cases "dropWhile P es")
    case Nil
    then have "filter ?G es = []" using f by simp
    then have "filter (visible c uk snap) es = []" unfolding filter_empty_conv by (auto simp: visible_def)
    then show ?thesis unfolding Nil by (simp add: newest_def)
  next
    case (Cons e rest)
    then show ?thesis using first_not_below [OF s ok dist refl, of uk snap e rest] f by simp
  qed
qed

end

text \<open>The pair of an entry in a table, and what a lookup gives for a visible entry.\<close>

definition entry_kv :: "Entry \<Rightarrow> kv" where
  "entry_kv e = (entry_internal e, e_value e)"

lemma table_lookup_newest:
  fixes uk :: bytes
  assumes o: "db_options bloom_bits opts" and b: "table_blocks sn opts blks ikvs" and kvs: "concat blks = map entry_kv es"
    and ok: "\<forall>e\<in>set es. entry_ok e" and dist: "distinct_entries BytewiseComparator es" and snap: "snap \<le> kMaxSequenceNumber"
  defines "r \<equiv> lookup_result sn opts blks ikvs (LookupKey_internal_key (LookupKey_make uk snap))"
  shows "case newest (filter (visible BytewiseComparator uk snap) es) of
      Some e \<Rightarrow> r = Some (entry_kv e)
    | None \<Rightarrow> (\<forall>kv. r = Some kv \<longrightarrow> ExtractUserKey (fst kv) \<noteq> uk)"
proof -
  let ?lk = "LookupKey_internal_key (LookupKey_make uk snap)" and ?cmp = "InternalKeyComparator_Compare BytewiseComparator"
  let ?P = "\<lambda>e. ?cmp (entry_internal e) ?lk < 0"
  have c: "Compare (opt_comparator opts) = ?cmp"
    "FindShortestSeparator (opt_comparator opts) = InternalKeyComparator_FindShortestSeparator BytewiseComparator"
    using o by (simp_all add: db_options_def)
  have asc: "sorted_wrt (\<lambda>a b. ?cmp (entry_internal a) (entry_internal b) < 0) es"
    using table_blocksD(4) [OF b] unfolding kvs c by (simp add: ascending_def sorted_wrt_map entry_kv_def)
  note new = bytewise.first_at_lookup [OF asc ok dist snap, of uk]
  define n where "n = length (takeWhile ?P es)"
  have lb: "lower_bound ?cmp ?lk (concat blks) = n"
    unfolding kvs lower_bound_def by (simp add: takeWhile_map comp_def entry_kv_def n_def)
  have d: "dropWhile ?P es = drop n es" by (simp add: n_def dropWhile_eq_drop)
  have sound: "n < length es \<and> kv = entry_kv (es ! n)" if "r = Some kv" for kv
    using lookup_sound [OF b that [unfolded r_def]] unfolding c lb by (simp add: kvs)
  have uk_of: "ExtractUserKey (entry_internal e) = e_key e" for e
    by (simp add: entry_internal_def AppendInternalKey_eq)
  have eq: "Compare BytewiseComparator a uk = 0 \<longleftrightarrow> a = uk" for a by simp
  show ?thesis
  proof (cases "n < length es \<and> e_key (es ! n) = uk")
    case True
    then have dn: "drop n es = es ! n # drop (Suc n) es" by (simp add: Cons_nth_drop_Suc)
    have kn: "concat blks ! n = entry_kv (es ! n)" "n < length (concat blks)" using True by (simp_all add: kvs)
    have "r = Some (entry_kv (es ! n))"
      unfolding r_def
    proof (rule lookup_complete [OF b, of ?lk, unfolded c lb kn(1), OF kn(2)])
      show "covered opts ?lk (fst (entry_kv (es ! n)))"
        by (rule db_options_covered [OF o]) (use True uk_of in \<open>simp add: entry_kv_def LookupKey_internal_key_make AppendInternalKey_eq\<close>)
      show "?cmp (InternalKeyComparator_FindShortestSeparator BytewiseComparator start (fst (entry_kv (es ! n)))) ?lk < 0"
        if "?cmp start (fst (entry_kv (es ! n))) < 0" "?cmp start ?lk < 0" for start
        by (rule bytewise.internal_separator_same_user [OF that])
          (use True uk_of in \<open>simp add: entry_kv_def LookupKey_internal_key_make AppendInternalKey_eq\<close>)
    qed
    then show ?thesis unfolding new d dn using True eq by simp
  next
    case False
    then have "newest (filter (visible BytewiseComparator uk snap) es) = None"
      unfolding new d using eq by (cases "n < length es") (simp_all flip: Cons_nth_drop_Suc)
    then show ?thesis using sound False uk_of by (auto simp: entry_kv_def)
  qed
qed

text \<open>
  C25.  The table of a set of entries, in the order of their internal keys and with or without a Bloom
  filter, answers like an abstract store: the lookup of a user key at a snapshot ends with status ok and gives the
  newest visible entry if there is one; otherwise it gives nothing, or a pair of another user key, which the caller drops.
\<close>

theorem table_get:
  assumes "db_options bloom_bits opts" "compression sn" "\<forall>e\<in>set es. entry_ok e" "distinct_entries BytewiseComparator es"
    and "ascending (Compare (opt_comparator opts)) (map entry_kv es)" "pairs_size (map entry_kv es) + 8 < 2 ^ 32"
    and "pw_ok f" "pw_contents f = []" "build_table sn PosixWritable opts (map entry_kv es) f = (s, r)" "Status_ok s"
    and "length (pw_contents (tb_file r)) < 2 ^ 32" "pm_data g = pw_contents (tb_file r)"
  shows "\<exists>t. Table_Open sn opts (PosixMmapReadableFile_Read g) (FileSize r) cache_id = Some (Status_OK, Some t) \<and>
    (\<forall>uk snap. snap \<le> kMaxSequenceNumber \<longrightarrow>
      (\<exists>result. InternalGet sn t ro (LookupKey_internal_key (LookupKey_make uk snap)) = Some (Status_OK, result) \<and>
        (case newest (filter (visible BytewiseComparator uk snap) es) of
           Some e \<Rightarrow> result = Some (entry_internal e, e_value e)
         | None \<Rightarrow> (\<forall>kv. result = Some kv \<longrightarrow> ExtractUserKey (fst kv) \<noteq> uk))))"
proof -
  obtain blks ikvs where b: "table_blocks sn opts blks ikvs" "concat blks = map entry_kv es"
      "pm_data g = table_bytes sn opts blks ikvs"
    and n: "FileSize r = of_nat (length (pm_data g))"
    using table_built [OF db_options_params [OF assms(1,2)] assms(5-11)] assms(12) by auto
  have g: "length (pm_data g) < 2 ^ 64" using assms(11,12) by simp
  obtain t where t: "Table_Open sn opts (PosixMmapReadableFile_Read g) (FileSize r) cache_id = Some (Status_OK, Some t)"
      "opened sn opts (PosixMmapReadableFile_Read g) blks ikvs t"
    using posix_mmap.Table_Open_ok [OF b(1) g b(3), of cache_id] n by auto
  show ?thesis
    using t(1) posix_mmap.InternalGet_ok [OF b(1) g b(3) t(2), of ro] table_lookup_newest [OF assms(1) b(1,2) assms(3,4)]
    unfolding entry_kv_def by blast
qed

text \<open>Two versions of a key, read before and after the second one was written.\<close>

theorem table_get_witness:
  "\<exists>r t. build_table no_snappy PosixWritable
       (small_options\<lparr>opt_comparator := InternalKeyComparator BytewiseComparator\<rparr>)
       (map entry_kv [\<lparr>e_seq = 2, e_type = kTypeDeletion, e_key = [97], e_value = []\<rparr>,
                      \<lparr>e_seq = 1, e_type = kTypeValue, e_key = [97], e_value = [5]\<rparr>]) new_file = (Status_OK, r) \<and>
     Table_Open no_snappy (small_options\<lparr>opt_comparator := InternalKeyComparator BytewiseComparator\<rparr>)
       (PosixMmapReadableFile_Read \<lparr>pm_filename = [], pm_data = pw_contents (tb_file r)\<rparr>) (FileSize r) 0 = Some (Status_OK, Some t) \<and>
     InternalGet no_snappy t \<lparr>ro_verify_checksums = False, ro_fill_cache = True\<rparr> (LookupKey_internal_key (LookupKey_make [97] 1)) =
       Some (Status_OK, Some (entry_internal \<lparr>e_seq = 1, e_type = kTypeValue, e_key = [97], e_value = [5]\<rparr>, [5]))"
proof -
  let ?opts = "small_options\<lparr>opt_comparator := InternalKeyComparator BytewiseComparator\<rparr>"
  let ?es = "[\<lparr>e_seq = 2, e_type = kTypeDeletion, e_key = [97], e_value = []\<rparr>,
              \<lparr>e_seq = 1, e_type = kTypeValue, e_key = [97], e_value = [5]\<rparr>]"
  have o: "db_options None ?opts" by (simp add: db_options_def small_options_def)
  have ok: "\<forall>e\<in>set ?es. entry_ok e" by (simp add: entry_ok_def kMaxSequenceNumber_eq)
  have dist: "distinct_entries BytewiseComparator ?es" by (simp add: distinct_entries_def)
  have asc: "ascending (Compare (opt_comparator ?opts)) (map entry_kv ?es)"
    using ok internal_compare_entries [of "?es ! 0" "?es ! 1" BytewiseComparator] by (simp add: ascending_def entry_kv_def)
  have sz: "pairs_size (map entry_kv ?es) = 147" by (simp add: entry_kv_def entry_internal_def AppendInternalKey_eq)
  have f: "opt_filter_policy ?opts = None" by (simp add: small_options_def)
  obtain r where r: "build_table no_snappy PosixWritable ?opts (map entry_kv ?es) new_file = (Status_OK, r)"
      "length (pw_contents (tb_file r)) \<le> 3100"
    using quiet_table [OF db_options_params [OF o no_snappy.compression_axioms] f asc] sz by auto
  have z: "pairs_size (map entry_kv ?es) + 8 < 2 ^ 32" "length (pw_contents (tb_file r)) < 2 ^ 32" "Status_ok Status_OK"
    using sz r(2) by (simp_all add: Status_ok_iff)
  obtain t where t: "Table_Open no_snappy ?opts (PosixMmapReadableFile_Read
        \<lparr>pm_filename = [], pm_data = pw_contents (tb_file r)\<rparr>) (FileSize r) 0 = Some (Status_OK, Some t)"
    "\<forall>uk snap. snap \<le> kMaxSequenceNumber \<longrightarrow>
      (\<exists>result. InternalGet no_snappy t \<lparr>ro_verify_checksums = False, ro_fill_cache = True\<rparr>
          (LookupKey_internal_key (LookupKey_make uk snap)) = Some (Status_OK, result) \<and>
        (case newest (filter (visible BytewiseComparator uk snap) ?es) of
           Some e \<Rightarrow> result = Some (entry_internal e, e_value e)
         | None \<Rightarrow> (\<forall>kv. result = Some kv \<longrightarrow> ExtractUserKey (fst kv) \<noteq> uk)))"
    using table_get [OF o no_snappy.compression_axioms ok dist asc z(1) new_file_simps(1,2) r(1) z(3,2), of
      "\<lparr>pm_filename = [], pm_data = pw_contents (tb_file r)\<rparr>" 0 "\<lparr>ro_verify_checksums = False, ro_fill_cache = True\<rparr>"]
    by auto
  have m: "(1 :: u64) \<le> kMaxSequenceNumber" by (simp add: kMaxSequenceNumber_eq)
  have v: "newest (filter (visible BytewiseComparator [97] 1) ?es) = Some (?es ! 1)"
    by (simp add: visible_def newest_def newer_def word_le_nat_alt)
  from t(2) [rule_format, OF m, of "[97]", unfolded v] t(1) r(1) show ?thesis by auto
qed

end
