(* ===== verification/Cache.thy ===== *)
theory Cache
  imports Bloom "HOL-Library.Monad_Syntax" "HOL-Library.Multiset"
begin

text \<open>
  \<^verbatim>\<open>util/cache.cc\<close>: the hash table of handles, the cache with least-recently-used eviction, and the
  cache made of sixteen of them.  The circular lists are the \<^verbatim>\<open>next\<close> and \<^verbatim>\<open>prev\<close> pointers of their nodes;
  entries live on a heap, at the addresses the allocator gives; a bucket of the table is the chain of
  its \<^verbatim>\<open>next_hash\<close> pointers as a list.  The value \<open>None\<close> is a failed assertion, an access to freed
  memory, or a loop that does not end.  Counts are natural numbers: a table would need \<open>2 ^ 31\<close>
  entries before the code's 32 bits differ.  Charges and usage are 64-bit.
\<close>

section \<open>Entries\<close>

record 'v LRUHandle =
  h_value :: 'v
  h_charge :: u64
  h_key :: bytes
  h_in_cache :: bool
  h_refs :: nat
  h_hash :: u32

type_synonym 'v heap = "nat \<Rightarrow> 'v LRUHandle option"

section \<open>HandleTable\<close>

record HandleTable =
  ht_length :: nat
  ht_elems :: nat
  ht_list :: "nat list list"

definition bucket_index :: "u32 \<Rightarrow> nat \<Rightarrow> nat" where
  "bucket_index hash len = unat (hash AND (of_nat len - 1))"

text \<open>The chain before the slot that \<^verbatim>\<open>FindPointer\<close> returns, and from it on.\<close>

primrec FindPointer :: "'v heap \<Rightarrow> bytes \<Rightarrow> u32 \<Rightarrow> nat list \<Rightarrow> (nat list \<times> nat list) option" where
  "FindPointer heap key hash [] = Some ([], [])"
| "FindPointer heap key hash (e # es) =
     do {
       h \<leftarrow> heap e;
       if h_hash h \<noteq> hash \<or> key \<noteq> h_key h
       then do { (pre, rest) \<leftarrow> FindPointer heap key hash es; Some (e # pre, rest) }
       else Some ([], e # es)
     }"

definition HandleTable_Lookup :: "'v heap \<Rightarrow> bytes \<Rightarrow> u32 \<Rightarrow> HandleTable \<Rightarrow> nat option option" where
  "HandleTable_Lookup heap key hash t =
     do {
       (pre, rest) \<leftarrow> FindPointer heap key hash (ht_list t ! bucket_index hash (ht_length t));
       Some (case rest of [] \<Rightarrow> None | e # _ \<Rightarrow> Some e)
     }"

text \<open>The loop that doubles the new length, and the two that move the entries.\<close>

function new_length :: "nat \<Rightarrow> nat \<Rightarrow> nat" where
  "new_length k elems = (if 4 * 2 ^ k < elems then new_length (k + 1) elems else 4 * 2 ^ k)"
  by auto
termination
proof (relation "measure (\<lambda>(k, elems). elems - 4 * 2 ^ k)")
  show "((k + 1, elems), k, elems) \<in> measure (\<lambda>(k, elems). elems - 4 * 2 ^ k)" if "4 * 2 ^ k < elems" for k elems :: nat
    using that by (simp add: diff_less_mono2)
qed simp

declare new_length.simps [simp del]

primrec rehash :: "'v heap \<Rightarrow> nat \<Rightarrow> nat list \<Rightarrow> nat list list \<Rightarrow> nat list list option" where
  "rehash heap len [] new_list = Some new_list"
| "rehash heap len (e # es) new_list =
     do {
       h \<leftarrow> heap e;
       rehash heap len es (new_list[bucket_index (h_hash h) len := e # new_list ! bucket_index (h_hash h) len])
     }"

definition HandleTable_Resize :: "'v heap \<Rightarrow> HandleTable \<Rightarrow> HandleTable option" where
  "HandleTable_Resize heap t =
     do {
       let len = new_length 0 (ht_elems t);
       new_list \<leftarrow> rehash heap len (concat (ht_list t)) (replicate len []);
       Some (t\<lparr>ht_list := new_list, ht_length := len\<rparr>)
     }"

definition HandleTable_make :: HandleTable where
  "HandleTable_make = \<lparr>ht_length = 4, ht_elems = 0, ht_list = replicate 4 []\<rparr>"

definition HandleTable_Insert :: "'v heap \<Rightarrow> nat \<Rightarrow> HandleTable \<Rightarrow> (nat option \<times> HandleTable) option" where
  "HandleTable_Insert heap e t =
     do {
       h \<leftarrow> heap e;
       let i = bucket_index (h_hash h) (ht_length t);
       (pre, rest) \<leftarrow> FindPointer heap (h_key h) (h_hash h) (ht_list t ! i);
       case rest of
         old # rest \<Rightarrow> Some (Some old, t\<lparr>ht_list := (ht_list t)[i := pre @ e # rest]\<rparr>)
       | [] \<Rightarrow>
           (let t = t\<lparr>ht_list := (ht_list t)[i := pre @ [e]], ht_elems := ht_elems t + 1\<rparr> in
            if ht_elems t > ht_length t
            then do { t \<leftarrow> HandleTable_Resize heap t; Some (None, t) }
            else Some (None, t))
     }"

definition HandleTable_Remove :: "'v heap \<Rightarrow> bytes \<Rightarrow> u32 \<Rightarrow> HandleTable \<Rightarrow> (nat option \<times> HandleTable) option" where
  "HandleTable_Remove heap key hash t =
     do {
       let i = bucket_index hash (ht_length t);
       (pre, rest) \<leftarrow> FindPointer heap key hash (ht_list t ! i);
       case rest of
         [] \<Rightarrow> Some (None, t)
       | e # rest \<Rightarrow> Some (Some e, t\<lparr>ht_list := (ht_list t)[i := pre @ rest], ht_elems := ht_elems t - 1\<rparr>)
     }"

section \<open>LRUCache\<close>

text \<open>The two list heads are fields of the cache; other nodes are entries.\<close>

datatype node = Lru | In_use | Entry nat

record 'v LRUCache =
  lc_capacity :: u64
  lc_usage :: u64
  lc_next :: "node \<Rightarrow> node"
  lc_prev :: "node \<Rightarrow> node"
  lc_heap :: "'v heap"
  lc_table :: HandleTable
  lc_deleted :: "(bytes \<times> 'v) list"

definition LRUCache_make :: "u64 \<Rightarrow> 'v LRUCache" where
  "LRUCache_make capacity =
     \<lparr>lc_capacity = capacity, lc_usage = 0, lc_next = id, lc_prev = id, lc_heap = Map.empty,
      lc_table = HandleTable_make, lc_deleted = []\<rparr>"

definition LRU_Remove :: "node \<Rightarrow> 'v LRUCache \<Rightarrow> 'v LRUCache" where
  "LRU_Remove e s =
     (let s = s\<lparr>lc_prev := (lc_prev s)(lc_next s e := lc_prev s e)\<rparr>
      in s\<lparr>lc_next := (lc_next s)(lc_prev s e := lc_next s e)\<rparr>)"

definition LRU_Append :: "node \<Rightarrow> node \<Rightarrow> 'v LRUCache \<Rightarrow> 'v LRUCache" where
  "LRU_Append l e s =
     (let s = s\<lparr>lc_next := (lc_next s)(e := l)\<rparr>;
          s = s\<lparr>lc_prev := (lc_prev s)(e := lc_prev s l)\<rparr>;
          s = s\<lparr>lc_next := (lc_next s)(lc_prev s e := e)\<rparr>
      in s\<lparr>lc_prev := (lc_prev s)(lc_next s e := e)\<rparr>)"

definition set_handle :: "nat \<Rightarrow> 'v LRUHandle option \<Rightarrow> 'v LRUCache \<Rightarrow> 'v LRUCache" where
  "set_handle e h s = s\<lparr>lc_heap := (lc_heap s)(e := h)\<rparr>"

definition LRU_Ref :: "nat \<Rightarrow> 'v LRUCache \<Rightarrow> 'v LRUCache option" where
  "LRU_Ref e s =
     do {
       h \<leftarrow> lc_heap s e;
       let s = (if h_refs h = 1 \<and> h_in_cache h then LRU_Append In_use (Entry e) (LRU_Remove (Entry e) s) else s);
       Some (set_handle e (Some (h\<lparr>h_refs := h_refs h + 1\<rparr>)) s)
     }"

definition LRU_Unref :: "nat \<Rightarrow> 'v LRUCache \<Rightarrow> 'v LRUCache option" where
  "LRU_Unref e s =
     do {
       h \<leftarrow> lc_heap s e;
       if h_refs h = 0 then None
       else
         (let h = h\<lparr>h_refs := h_refs h - 1\<rparr>; s = set_handle e (Some h) s in
          if h_refs h = 0 then
            (if h_in_cache h then None
             else Some (set_handle e None (s\<lparr>lc_deleted := lc_deleted s @ [(h_key h, h_value h)]\<rparr>)))
          else if h_in_cache h \<and> h_refs h = 1 then Some (LRU_Append Lru (Entry e) (LRU_Remove (Entry e) s))
          else Some s)
     }"

definition LRUCache_Lookup :: "bytes \<Rightarrow> u32 \<Rightarrow> 'v LRUCache \<Rightarrow> (nat option \<times> 'v LRUCache) option" where
  "LRUCache_Lookup key hash s =
     do {
       e \<leftarrow> HandleTable_Lookup (lc_heap s) key hash (lc_table s);
       case e of None \<Rightarrow> Some (None, s)
       | Some e \<Rightarrow> do { s \<leftarrow> LRU_Ref e s; Some (Some e, s) }
     }"

definition LRUCache_Release :: "nat \<Rightarrow> 'v LRUCache \<Rightarrow> 'v LRUCache option" where
  "LRUCache_Release e s = LRU_Unref e s"

definition FinishErase :: "nat option \<Rightarrow> 'v LRUCache \<Rightarrow> (bool \<times> 'v LRUCache) option" where
  "FinishErase e s =
     (case e of
        None \<Rightarrow> Some (False, s)
      | Some e \<Rightarrow>
          do {
            h \<leftarrow> lc_heap s e;
            if \<not> h_in_cache h then None
            else do {
              let s = LRU_Remove (Entry e) s;
              let s = set_handle e (Some (h\<lparr>h_in_cache := False\<rparr>)) s;
              let s = s\<lparr>lc_usage := lc_usage s - h_charge h\<rparr>;
              s \<leftarrow> LRU_Unref e s;
              Some (True, s)
            }
          })"

text \<open>The oldest entry of the list of unused ones is removed; this is the body of two loops.\<close>

definition erase_oldest :: "'v LRUCache \<Rightarrow> 'v LRUCache option" where
  "erase_oldest s =
     (case lc_next s Lru of
        Entry old \<Rightarrow>
          do {
            h \<leftarrow> lc_heap s old;
            if h_refs h \<noteq> 1 then None
            else do {
              (r, t) \<leftarrow> HandleTable_Remove (lc_heap s) (h_key h) (h_hash h) (lc_table s);
              (erased, s) \<leftarrow> FinishErase r (s\<lparr>lc_table := t\<rparr>);
              if erased then Some s else None
            }
          }
      | _ \<Rightarrow> None)"

partial_function (option) evict :: "'v LRUCache \<Rightarrow> 'v LRUCache option" where
  "evict s =
     (if lc_usage s > lc_capacity s \<and> lc_next s Lru \<noteq> Lru
      then do { s \<leftarrow> erase_oldest s; evict s }
      else Some s)"

text \<open>\<open>e\<close> is the address \<^verbatim>\<open>malloc\<close> returns.\<close>

definition LRUCache_Insert ::
    "nat \<Rightarrow> bytes \<Rightarrow> u32 \<Rightarrow> 'v \<Rightarrow> u64 \<Rightarrow> 'v LRUCache \<Rightarrow> (nat \<times> 'v LRUCache) option" where
  "LRUCache_Insert e key hash value charge s =
     do {
       let h = \<lparr>h_value = value, h_charge = charge, h_key = key, h_in_cache = False, h_refs = 1, h_hash = hash\<rparr>;
       s \<leftarrow> (if lc_capacity s > 0 then
               do {
                 let s = set_handle e (Some (h\<lparr>h_refs := 2, h_in_cache := True\<rparr>)) s;
                 let s = LRU_Append In_use (Entry e) s;
                 let s = s\<lparr>lc_usage := lc_usage s + charge\<rparr>;
                 (old, t) \<leftarrow> HandleTable_Insert (lc_heap s) e (lc_table s);
                 (_, s) \<leftarrow> FinishErase old (s\<lparr>lc_table := t\<rparr>);
                 Some s
               }
             else Some (set_handle e (Some h) s));
       s \<leftarrow> evict s;
       Some (e, s)
     }"

definition LRUCache_Erase :: "bytes \<Rightarrow> u32 \<Rightarrow> 'v LRUCache \<Rightarrow> 'v LRUCache option" where
  "LRUCache_Erase key hash s =
     do {
       (r, t) \<leftarrow> HandleTable_Remove (lc_heap s) key hash (lc_table s);
       (_, s) \<leftarrow> FinishErase r (s\<lparr>lc_table := t\<rparr>);
       Some s
     }"

partial_function (option) LRUCache_Prune :: "'v LRUCache \<Rightarrow> 'v LRUCache option" where
  "LRUCache_Prune s =
     (if lc_next s Lru \<noteq> Lru then do { s \<leftarrow> erase_oldest s; LRUCache_Prune s } else Some s)"

definition TotalCharge :: "'v LRUCache \<Rightarrow> u64" where
  "TotalCharge s = lc_usage s"

text \<open>The destructor: a list walk that reads the next pointer before the entry is freed.\<close>

partial_function (option) destroy_loop :: "node \<Rightarrow> 'v LRUCache \<Rightarrow> 'v LRUCache option" where
  "destroy_loop n s =
     (case n of
        Entry e \<Rightarrow>
          do {
            let next = lc_next s n;
            h \<leftarrow> lc_heap s e;
            if \<not> h_in_cache h then None
            else do {
              let s = set_handle e (Some (h\<lparr>h_in_cache := False\<rparr>)) s;
              if h_refs h \<noteq> 1 then None
              else do { s \<leftarrow> LRU_Unref e s; destroy_loop next s }
            }
          }
      | In_use \<Rightarrow> None
      | Lru \<Rightarrow> Some s)"

definition LRUCache_destroy :: "'v LRUCache \<Rightarrow> 'v LRUCache option" where
  "LRUCache_destroy s = (if lc_next s In_use \<noteq> In_use then None else destroy_loop (lc_next s Lru) s)"

section \<open>ShardedLRUCache\<close>

definition kNumShardBits :: nat where
  "kNumShardBits = 4"

definition kNumShards :: nat where
  "kNumShards = 2 ^ kNumShardBits"

record 'v ShardedLRUCache =
  sc_shard :: "'v LRUCache list"
  sc_last_id :: u64

text \<open>A handle is the address of an entry, with the hash that the entry holds.\<close>

type_synonym Handle = "u32 \<times> nat"

definition HashSlice :: "bytes \<Rightarrow> u32" where
  "HashSlice s = Hash s 0"

definition Shard :: "u32 \<Rightarrow> nat" where
  "Shard hash = unat (drop_bit (32 - kNumShardBits) hash)"

definition ShardedLRUCache_make :: "u64 \<Rightarrow> 'v ShardedLRUCache" where
  "ShardedLRUCache_make capacity =
     (let per_shard = (capacity + (of_nat kNumShards - 1)) div of_nat kNumShards
      in \<lparr>sc_shard = replicate kNumShards (LRUCache_make per_shard), sc_last_id = 0\<rparr>)"

definition Sharded_Insert ::
    "nat \<Rightarrow> bytes \<Rightarrow> 'v \<Rightarrow> u64 \<Rightarrow> 'v ShardedLRUCache \<Rightarrow> (Handle \<times> 'v ShardedLRUCache) option" where
  "Sharded_Insert a key value charge c =
     do {
       let hash = HashSlice key;
       (e, s) \<leftarrow> LRUCache_Insert a key hash value charge (sc_shard c ! Shard hash);
       Some ((hash, e), c\<lparr>sc_shard := (sc_shard c)[Shard hash := s]\<rparr>)
     }"

definition Sharded_Lookup :: "bytes \<Rightarrow> 'v ShardedLRUCache \<Rightarrow> (Handle option \<times> 'v ShardedLRUCache) option" where
  "Sharded_Lookup key c =
     do {
       let hash = HashSlice key;
       (e, s) \<leftarrow> LRUCache_Lookup key hash (sc_shard c ! Shard hash);
       Some (map_option (Pair hash) e, c\<lparr>sc_shard := (sc_shard c)[Shard hash := s]\<rparr>)
     }"

definition Sharded_Release :: "Handle \<Rightarrow> 'v ShardedLRUCache \<Rightarrow> 'v ShardedLRUCache option" where
  "Sharded_Release h c =
     do {
       s \<leftarrow> LRUCache_Release (snd h) (sc_shard c ! Shard (fst h));
       Some (c\<lparr>sc_shard := (sc_shard c)[Shard (fst h) := s]\<rparr>)
     }"

definition Sharded_Erase :: "bytes \<Rightarrow> 'v ShardedLRUCache \<Rightarrow> 'v ShardedLRUCache option" where
  "Sharded_Erase key c =
     do {
       let hash = HashSlice key;
       s \<leftarrow> LRUCache_Erase key hash (sc_shard c ! Shard hash);
       Some (c\<lparr>sc_shard := (sc_shard c)[Shard hash := s]\<rparr>)
     }"

definition Sharded_Value :: "Handle \<Rightarrow> 'v ShardedLRUCache \<Rightarrow> 'v option" where
  "Sharded_Value h c = map_option h_value (lc_heap (sc_shard c ! Shard (fst h)) (snd h))"

definition NewId :: "'v ShardedLRUCache \<Rightarrow> u64 \<times> 'v ShardedLRUCache" where
  "NewId c = (sc_last_id c + 1, c\<lparr>sc_last_id := sc_last_id c + 1\<rparr>)"

definition Sharded_Prune :: "'v ShardedLRUCache \<Rightarrow> 'v ShardedLRUCache option" where
  "Sharded_Prune c =
     do {
       shards \<leftarrow> those (map LRUCache_Prune (sc_shard c));
       Some (c\<lparr>sc_shard := shards\<rparr>)
     }"

definition Sharded_TotalCharge :: "'v ShardedLRUCache \<Rightarrow> u64" where
  "Sharded_TotalCharge c = foldl (\<lambda>total s. total + TotalCharge s) 0 (sc_shard c)"

end
