(* ===== verification/Cache_Invariant.thy ===== *)
theory Cache_Invariant
  imports Cache
begin

text \<open>
  The representation of the cache: circular lists, the hash table as a partial function, and the
  invariant that ties entries, lists, table, references and usage together.
\<close>

section \<open>Circular lists\<close>

text \<open>\<open>lnk next prev a xs b\<close>: from node \<open>a\<close> over the entries \<open>xs\<close> to node \<open>b\<close>.\<close>

fun lnk :: "(node \<Rightarrow> node) \<Rightarrow> (node \<Rightarrow> node) \<Rightarrow> node \<Rightarrow> nat list \<Rightarrow> node \<Rightarrow> bool" where
  "lnk next prev a [] b \<longleftrightarrow> next a = b \<and> prev b = a"
| "lnk next prev a (x # xs) b \<longleftrightarrow> next a = Entry x \<and> prev (Entry x) = a \<and> lnk next prev (Entry x) xs b"

lemma lnk_append:
  "lnk next prev a (xs @ x # ys) b \<longleftrightarrow> lnk next prev a xs (Entry x) \<and> lnk next prev (Entry x) ys b"
  by (induction xs arbitrary: a) auto

lemma lnk_frame_next:
  "u \<noteq> a \<Longrightarrow> u \<notin> Entry ` set xs \<Longrightarrow> lnk (next(u := v)) prev a xs b = lnk next prev a xs b"
  by (induction xs arbitrary: a) auto

lemma lnk_frame_prev:
  "u \<noteq> b \<Longrightarrow> u \<notin> Entry ` set xs \<Longrightarrow> lnk next (prev(u := v)) a xs b = lnk next prev a xs b"
  by (induction xs arbitrary: a) auto

lemma lnk_first: "lnk next prev a xs b \<Longrightarrow> next a = (case xs of [] \<Rightarrow> b | x # _ \<Rightarrow> Entry x)"
  by (cases xs) auto

lemma lnk_last: "lnk next prev a xs b \<Longrightarrow> prev b = (if xs = [] then a else Entry (last xs))"
  by (induction xs arbitrary: a) auto

text \<open>Taking an entry out of a list; \<open>a\<close> and \<open>b\<close> are heads.\<close>

lemma lnk_remove:
  assumes "lnk next prev a (xs @ e # ys) b" "distinct (xs @ e # ys)" "a \<notin> range Entry" "b \<notin> range Entry"
  shows "lnk (next(prev (Entry e) := next (Entry e))) (prev(next (Entry e) := prev (Entry e))) a (xs @ ys) b"
proof -
  have l: "lnk next prev a xs (Entry e)" "lnk next prev (Entry e) ys b" using assms(1) by (simp_all add: lnk_append)
  define p where "p = (if xs = [] then a else Entry (last xs))"
  define q where "q = (case ys of [] \<Rightarrow> b | y # _ \<Rightarrow> Entry y)"
  have pq: "prev (Entry e) = p" "next (Entry e) = q" using lnk_last [OF l(1)] lnk_first [OF l(2)] by (simp_all add: p_def q_def)
  let ?n = "next(p := q)" and ?p = "prev(q := p)"
  have right: "lnk ?n ?p a (xs @ ys) b" if "xs = []"
  proof (cases ys)
    case Nil
    with that show ?thesis by (simp add: p_def q_def)
  next
    case (Cons y ys')
    have "lnk next prev (Entry y) ys' b" using l(2) Cons by simp
    then have "lnk ?n ?p (Entry y) ys' b"
      using assms that Cons by (subst lnk_frame_next, force simp: p_def, force simp: p_def)
        (subst lnk_frame_prev, force simp: q_def, force simp: q_def, simp)
    with that Cons show ?thesis by (simp add: p_def q_def)
  qed
  show ?thesis
  proof (cases xs rule: rev_cases)
    case Nil
    with right pq show ?thesis by simp
  next
    case (snoc xs' x)
    have px: "p = Entry x" by (simp add: p_def snoc)
    have "lnk next prev a xs' (Entry x)" using l(1) by (simp add: snoc lnk_append)
    then have left: "lnk ?n ?p a xs' (Entry x)"
      using assms snoc by (subst lnk_frame_next, force simp: px, force simp: px)
        (subst lnk_frame_prev, force simp: q_def split: list.splits, force simp: q_def split: list.splits, simp)
    have "lnk ?n ?p (Entry x) ys b"
    proof (cases ys)
      case Nil
      then show ?thesis by (simp add: px q_def)
    next
      case (Cons y ys')
      have "lnk next prev (Entry y) ys' b" using l(2) Cons by simp
      then have "lnk ?n ?p (Entry y) ys' b"
        using assms snoc Cons by (subst lnk_frame_next, force simp: px, force simp: px)
          (subst lnk_frame_prev, force simp: q_def, force simp: q_def, simp)
      then show ?thesis using Cons by (simp add: px q_def)
    qed
    with left show ?thesis unfolding pq by (simp add: snoc lnk_append)
  qed
qed

text \<open>Adding an entry at the end of a circular list.\<close>

lemma lnk_insert:
  assumes "lnk next prev l xs l" "e \<notin> set xs" "l \<notin> range Entry" "distinct xs"
  shows "lnk (next(Entry e := l, prev l := Entry e)) (prev(Entry e := prev l, l := Entry e)) l (xs @ [e]) l"
proof -
  define p where "p = prev l"
  have p: "p = (if xs = [] then l else Entry (last xs))" using lnk_last [OF assms(1)] by (simp add: p_def)
  have "lnk (next(Entry e := l, p := Entry e)) (prev(Entry e := p, l := Entry e)) l (xs @ [e]) l"
  proof (cases xs rule: rev_cases)
    case Nil
    then show ?thesis using assms(3) p by auto
  next
    case (snoc xs' x)
    have px: "p = Entry x" using p snoc by simp
    have "lnk next prev l xs' (Entry x)" using assms(1) by (simp add: snoc lnk_append)
    then have "lnk (next(Entry e := l, p := Entry e)) (prev(Entry e := p, l := Entry e)) l xs' (Entry x)"
      using assms snoc px
      by (subst lnk_frame_next, force, force)
         (subst lnk_frame_next, force, force, subst lnk_frame_prev, force, force, subst lnk_frame_prev, force, force, simp)
    then show ?thesis using assms(2,3) px by (auto simp: snoc lnk_append)
  qed
  then show ?thesis by (simp add: p_def)
qed

text \<open>A list that has none of the nodes is not touched.\<close>

lemma lnk_remove_other:
  assumes "lnk next prev l xs l" "prev (Entry e) \<noteq> l" "next (Entry e) \<noteq> l"
    and "prev (Entry e) \<notin> Entry ` set xs" "next (Entry e) \<notin> Entry ` set xs"
  shows "lnk (next(prev (Entry e) := next (Entry e))) (prev(next (Entry e) := prev (Entry e))) l xs l"
  using assms by (simp add: lnk_frame_next lnk_frame_prev)

lemma lnk_neighbours:
  assumes "lnk next prev l (xs @ e # ys) l"
  shows "prev (Entry e) \<in> insert l (Entry ` set (xs @ ys))" "next (Entry e) \<in> insert l (Entry ` set (xs @ ys))"
proof -
  have l: "lnk next prev l xs (Entry e)" "lnk next prev (Entry e) ys l" using assms by (simp_all add: lnk_append)
  show "prev (Entry e) \<in> insert l (Entry ` set (xs @ ys))" using lnk_last [OF l(1)] by (auto split: if_splits)
  show "next (Entry e) \<in> insert l (Entry ` set (xs @ ys))" using lnk_first [OF l(2)] by (auto split: list.splits)
qed

section \<open>The lists of a cache\<close>

definition lists :: "'v LRUCache \<Rightarrow> nat list \<Rightarrow> nat list \<Rightarrow> bool" where
  "lists s lru use \<longleftrightarrow>
     lnk (lc_next s) (lc_prev s) Lru lru Lru \<and> lnk (lc_next s) (lc_prev s) In_use use In_use \<and> distinct (lru @ use)"

lemma LRU_Remove_simps [simp]:
  "lc_heap (LRU_Remove n s) = lc_heap s" "lc_table (LRU_Remove n s) = lc_table s"
  "lc_usage (LRU_Remove n s) = lc_usage s" "lc_capacity (LRU_Remove n s) = lc_capacity s"
  "lc_deleted (LRU_Remove n s) = lc_deleted s"
  by (simp_all add: LRU_Remove_def Let_def)

lemma LRU_Append_simps [simp]:
  "lc_heap (LRU_Append l n s) = lc_heap s" "lc_table (LRU_Append l n s) = lc_table s"
  "lc_usage (LRU_Append l n s) = lc_usage s" "lc_capacity (LRU_Append l n s) = lc_capacity s"
  "lc_deleted (LRU_Append l n s) = lc_deleted s"
  by (simp_all add: LRU_Append_def Let_def)

lemma set_handle_simps [simp]:
  "lc_heap (set_handle e h s) = (lc_heap s)(e := h)" "lc_table (set_handle e h s) = lc_table s"
  "lc_usage (set_handle e h s) = lc_usage s" "lc_capacity (set_handle e h s) = lc_capacity s"
  "lc_deleted (set_handle e h s) = lc_deleted s" "lists (set_handle e h s) lru use = lists s lru use"
  by (simp_all add: set_handle_def lists_def)

lemma lists_update [simp]:
  "lists (s\<lparr>lc_table := t\<rparr>) lru use = lists s lru use"
  "lists (s\<lparr>lc_usage := u\<rparr>) lru use = lists s lru use"
  "lists (s\<lparr>lc_deleted := d\<rparr>) lru use = lists s lru use"
  by (simp_all add: lists_def)

lemma LRU_Remove_pointers:
  "lc_next (LRU_Remove (Entry e) s) = (lc_next s)(lc_prev s (Entry e) := lc_next s (Entry e))"
  "lc_prev (LRU_Remove (Entry e) s) = (lc_prev s)(lc_next s (Entry e) := lc_prev s (Entry e))"
  if "lc_next s (Entry e) \<noteq> Entry e"
  using that by (simp_all add: LRU_Remove_def Let_def)

lemma LRU_Append_pointers:
  assumes "l \<noteq> Entry e" "lc_prev s l \<noteq> Entry e"
  shows "lc_next (LRU_Append l (Entry e) s) = (lc_next s)(Entry e := l, lc_prev s l := Entry e)"
    "lc_prev (LRU_Append l (Entry e) s) = (lc_prev s)(Entry e := lc_prev s l, l := Entry e)"
  using assms by (simp_all add: LRU_Append_def Let_def)

lemma lists_remove_one:
  assumes l: "lnk (lc_next s) (lc_prev s) l (xs @ e # ys) l" and m: "lnk (lc_next s) (lc_prev s) m zs m"
    and d: "distinct (xs @ e # ys @ zs)" and h: "l \<notin> range Entry" "m \<notin> range Entry" "l \<noteq> m"
  defines "s' \<equiv> LRU_Remove (Entry e) s"
  shows "lnk (lc_next s') (lc_prev s') l (xs @ ys) l" "lnk (lc_next s') (lc_prev s') m zs m"
proof -
  note n = lnk_neighbours [OF l]
  have ne: "lc_next s (Entry e) \<noteq> Entry e" using n(2) d h by auto
  have de: "distinct (xs @ e # ys)" using d by auto
  show "lnk (lc_next s') (lc_prev s') l (xs @ ys) l"
    unfolding s'_def LRU_Remove_pointers [OF ne] using lnk_remove [OF l de h(1) h(1)] .
  show "lnk (lc_next s') (lc_prev s') m zs m"
    unfolding s'_def LRU_Remove_pointers [OF ne]
    by (rule lnk_remove_other [OF m]) (use n d h in auto)
qed

lemma lists_append_one:
  assumes l: "lnk (lc_next s) (lc_prev s) l xs l" and m: "lnk (lc_next s) (lc_prev s) m zs m"
    and d: "distinct (e # xs @ zs)" and h: "l \<notin> range Entry" "m \<notin> range Entry" "l \<noteq> m"
  defines "s' \<equiv> LRU_Append l (Entry e) s"
  shows "lnk (lc_next s') (lc_prev s') l (xs @ [e]) l" "lnk (lc_next s') (lc_prev s') m zs m"
proof -
  have p: "lc_prev s l = (if xs = [] then l else Entry (last xs))" by (rule lnk_last [OF l])
  have ne: "l \<noteq> Entry e" "lc_prev s l \<noteq> Entry e" using p d h by (auto split: if_splits)
  have x: "e \<notin> set xs" "distinct xs" using d by auto
  show "lnk (lc_next s') (lc_prev s') l (xs @ [e]) l"
    unfolding s'_def LRU_Append_pointers [OF ne] by (rule lnk_insert [OF l x(1) h(1) x(2)])
  have q: "lc_prev s l \<noteq> m" "lc_prev s l \<notin> Entry ` set zs" using p d h by (auto split: if_splits dest: last_in_set)
  have ez: "Entry e \<noteq> m" "Entry e \<notin> Entry ` set zs" "l \<notin> Entry ` set zs" "l \<noteq> m" using d h by auto
  show "lnk (lc_next s') (lc_prev s') m zs m"
    unfolding s'_def LRU_Append_pointers [OF ne] using m q ez by (simp add: lnk_frame_next lnk_frame_prev)
qed

lemma heads [simp]: "Lru \<notin> range Entry" "In_use \<notin> range Entry"
  by auto

lemma lists_Remove_lru: "lists s (xs @ e # ys) use \<Longrightarrow> lists (LRU_Remove (Entry e) s) (xs @ ys) use"
  unfolding lists_def using lists_remove_one [of s Lru xs e ys In_use use] by auto

lemma lists_Remove_use: "lists s lru (xs @ e # ys) \<Longrightarrow> lists (LRU_Remove (Entry e) s) lru (xs @ ys)"
  unfolding lists_def using lists_remove_one [of s In_use xs e ys Lru lru] by auto

lemma lists_Append_lru: "lists s lru use \<Longrightarrow> e \<notin> set (lru @ use) \<Longrightarrow> lists (LRU_Append Lru (Entry e) s) (lru @ [e]) use"
  unfolding lists_def using lists_append_one [of s Lru lru In_use use e] by auto

lemma lists_Append_use: "lists s lru use \<Longrightarrow> e \<notin> set (lru @ use) \<Longrightarrow> lists (LRU_Append In_use (Entry e) s) lru (use @ [e])"
  unfolding lists_def using lists_append_one [of s In_use use Lru lru e] by auto

lemma lists_first: "lists s lru use \<Longrightarrow> lc_next s Lru = (case lru of [] \<Rightarrow> Lru | e # _ \<Rightarrow> Entry e)"
  unfolding lists_def using lnk_first by blast

section \<open>The hash table\<close>

lemma bucket_index_less:
  assumes "len = 2 ^ k"
  shows "bucket_index hash len < len"
proof (cases "k < 32")
  case True
  have "of_nat len - 1 = (mask k :: u32)" using assms by (simp add: mask_eq_exp_minus_1)
  then have "hash AND (of_nat len - 1) = take_bit k hash" by (simp add: take_bit_eq_mask)
  then show ?thesis
    using assms True by (simp add: bucket_index_def unsigned_take_bit_eq take_bit_nat_less_exp)
next
  case False
  then have "(2::nat) ^ 32 \<le> 2 ^ k" by (intro power_increasing) simp_all
  moreover have "bucket_index hash len < 2 ^ 32"
    using unsigned_less [of "hash AND (of_nat len - 1)"] by (simp add: bucket_index_def)
  ultimately show ?thesis using assms by linarith
qed

text \<open>Key and hash of an entry.\<close>

definition kh :: "'v heap \<Rightarrow> nat \<Rightarrow> (bytes \<times> u32) option" where
  "kh heap e = map_option (\<lambda>h. (h_key h, h_hash h)) (heap e)"

lemma kh_Some [simp]: "heap e = Some h \<Longrightarrow> kh heap e = Some (h_key h, h_hash h)"
  by (simp add: kh_def)

definition bucket :: "'v heap \<Rightarrow> nat set \<Rightarrow> nat \<Rightarrow> nat \<Rightarrow> nat set" where
  "bucket heap E len i = {e \<in> E. \<exists>k hs. kh heap e = Some (k, hs) \<and> bucket_index hs len = i}"

definition table_ok :: "'v heap \<Rightarrow> HandleTable \<Rightarrow> nat set \<Rightarrow> bool" where
  "table_ok heap t E \<longleftrightarrow>
     (\<exists>k. ht_length t = 2 ^ k) \<and> length (ht_list t) = ht_length t \<and> finite E \<and> ht_elems t = card E \<and>
     card E \<le> ht_length t \<and> (\<forall>e\<in>E. kh heap e \<noteq> None) \<and> inj_on (kh heap) E \<and>
     (\<forall>i<ht_length t. distinct (ht_list t ! i) \<and> set (ht_list t ! i) = bucket heap E (ht_length t) i)"

lemma table_ok_cong: "table_ok heap t E \<Longrightarrow> (\<And>e. e \<in> E \<Longrightarrow> kh heap' e = kh heap e) \<Longrightarrow> table_ok heap' t E"
  unfolding table_ok_def bucket_def by (auto cong: inj_on_cong)

lemma table_ok_make: "table_ok heap HandleTable_make {}"
  unfolding table_ok_def HandleTable_make_def bucket_def by (auto intro: exI [of _ 2])

lemma FindPointer_eq:
  "\<forall>e\<in>set es. kh heap e \<noteq> None \<Longrightarrow>
   FindPointer heap key hash es =
     Some (takeWhile (\<lambda>e. kh heap e \<noteq> Some (key, hash)) es, dropWhile (\<lambda>e. kh heap e \<noteq> Some (key, hash)) es)"
  by (induction es) (auto simp: kh_def)

text \<open>Where a key's entry is found in its bucket.\<close>

lemma find_in_bucket:
  fixes hash :: u32 and key :: bytes
  assumes "table_ok heap t E"
  defines "chain \<equiv> ht_list t ! bucket_index hash (ht_length t)"
  obtains (absent) "FindPointer heap key hash chain = Some (chain, [])" "\<forall>e\<in>E. kh heap e \<noteq> Some (key, hash)"
  | (present) pre e rest where "FindPointer heap key hash chain = Some (pre, e # rest)" "chain = pre @ e # rest"
      "e \<in> E" "kh heap e = Some (key, hash)"
proof -
  obtain k where k: "ht_length t = 2 ^ k" using assms(1) by (auto simp: table_ok_def)
  have c: "set chain = bucket heap E (ht_length t) (bucket_index hash (ht_length t))"
    using assms(1) bucket_index_less [OF k] by (simp add: table_ok_def chain_def)
  have f: "FindPointer heap key hash chain =
      Some (takeWhile (\<lambda>e. kh heap e \<noteq> Some (key, hash)) chain, dropWhile (\<lambda>e. kh heap e \<noteq> Some (key, hash)) chain)"
    using assms(1) c by (intro FindPointer_eq) (auto simp: table_ok_def bucket_def)
  show thesis
  proof (cases "\<exists>e\<in>set chain. kh heap e = Some (key, hash)")
    case True
    then obtain e rest where d: "dropWhile (\<lambda>e. kh heap e \<noteq> Some (key, hash)) chain = e # rest"
      by (metis (mono_tags, lifting) dropWhile_eq_Nil_conv list.exhaust)
    then have "kh heap e = Some (key, hash)" using hd_dropWhile [of "\<lambda>e. kh heap e \<noteq> Some (key, hash)" chain] by simp
    moreover have "chain = takeWhile (\<lambda>e. kh heap e \<noteq> Some (key, hash)) chain @ e # rest"
      using takeWhile_dropWhile_id [of "\<lambda>e. kh heap e \<noteq> Some (key, hash)" chain] d by simp
    moreover from this have "e \<in> E" using c by (metis (mono_tags, lifting) bucket_def in_set_conv_decomp mem_Collect_eq)
    ultimately show thesis using present f d by metis
  next
    case False
    then have "takeWhile (\<lambda>e. kh heap e \<noteq> Some (key, hash)) chain = chain"
      "dropWhile (\<lambda>e. kh heap e \<noteq> Some (key, hash)) chain = []" by auto
    moreover have "\<forall>e\<in>E. kh heap e \<noteq> Some (key, hash)" using False c by (auto simp: bucket_def)
    ultimately show thesis using absent f by simp
  qed
qed

lemma HandleTable_Lookup_ok:
  assumes "table_ok heap t E"
  shows "\<exists>r. HandleTable_Lookup heap key hash t = Some r \<and>
    (case r of None \<Rightarrow> \<forall>e\<in>E. kh heap e \<noteq> Some (key, hash) | Some e \<Rightarrow> e \<in> E \<and> kh heap e = Some (key, hash))"
  using assms by (rule find_in_bucket [of heap t E key hash]) (auto simp: HandleTable_Lookup_def)

text \<open>Replacing one bucket.\<close>

lemma table_ok_update:
  assumes "table_ok heap t E" "i < ht_length t" "finite E'" "card E' \<le> ht_length t"
    and "\<forall>e\<in>E'. kh heap e \<noteq> None" "inj_on (kh heap) E'"
    and "distinct chain" "set chain = bucket heap E' (ht_length t) i"
    and "\<And>j. j \<noteq> i \<Longrightarrow> bucket heap E' (ht_length t) j = bucket heap E (ht_length t) j"
  shows "table_ok heap (t\<lparr>ht_list := (ht_list t)[i := chain], ht_elems := card E'\<rparr>) E'"
  using assms unfolding table_ok_def by (simp add: nth_list_update)

lemma bucket_index_of:
  "kh heap e = Some (key, hash) \<Longrightarrow>
     bucket heap (insert e E) len j = (if bucket_index hash len = j then insert e (bucket heap E len j) else bucket heap E len j)"
  "kh heap e = Some (key, hash) \<Longrightarrow>
     bucket heap (E - {e}) len j = (if bucket_index hash len = j then bucket heap E len j - {e} else bucket heap E len j)"
  by (auto simp: bucket_def)

lemma HandleTable_Remove_ok:
  assumes "table_ok heap t E"
  shows "\<exists>r t'. HandleTable_Remove heap key hash t = Some (r, t') \<and>
    (case r of None \<Rightarrow> t' = t \<and> (\<forall>e\<in>E. kh heap e \<noteq> Some (key, hash))
     | Some e \<Rightarrow> e \<in> E \<and> kh heap e = Some (key, hash) \<and> table_ok heap t' (E - {e}))"
  using assms
proof (rule find_in_bucket [of heap t E key hash])
  assume "FindPointer heap key hash (ht_list t ! bucket_index hash (ht_length t)) =
      Some (ht_list t ! bucket_index hash (ht_length t), [])" "\<forall>e\<in>E. kh heap e \<noteq> Some (key, hash)"
  then show ?thesis by (auto simp: HandleTable_Remove_def)
next
  fix pre e rest
  assume f: "FindPointer heap key hash (ht_list t ! bucket_index hash (ht_length t)) = Some (pre, e # rest)"
    and c: "ht_list t ! bucket_index hash (ht_length t) = pre @ e # rest" and e: "e \<in> E" "kh heap e = Some (key, hash)"
  let ?i = "bucket_index hash (ht_length t)"
  obtain k where k: "ht_length t = 2 ^ k" using assms by (auto simp: table_ok_def)
  have i: "?i < ht_length t" by (rule bucket_index_less [OF k])
  have n: "ht_elems t - 1 = card (E - {e})" using assms e(1) by (simp add: table_ok_def)
  have "distinct (ht_list t ! ?i) \<and> set (ht_list t ! ?i) = bucket heap E (ht_length t) ?i"
    using assms i by (simp add: table_ok_def)
  then have b: "distinct (pre @ e # rest)" "set (pre @ e # rest) = bucket heap E (ht_length t) ?i"
    unfolding c by simp_all
  have "table_ok heap (t\<lparr>ht_list := (ht_list t)[?i := pre @ rest], ht_elems := card (E - {e})\<rparr>) (E - {e})"
  proof (rule table_ok_update [OF assms i])
    show "card (E - {e}) \<le> ht_length t" using assms card_Diff1_le [of E e] by (simp add: table_ok_def)
    show "set (pre @ rest) = bucket heap (E - {e}) (ht_length t) ?i"
      using b by (auto simp: bucket_index_of(2) [OF e(2)])
    show "bucket heap (E - {e}) (ht_length t) j = bucket heap E (ht_length t) j" if "j \<noteq> ?i" for j
      using that by (auto simp: bucket_index_of(2) [OF e(2)])
  qed (use assms b in \<open>auto simp: table_ok_def inj_on_def\<close>)
  then show ?thesis using f e n by (simp add: HandleTable_Remove_def)
qed

text \<open>Moving all entries to a new array.\<close>

lemma rehash_ok:
  assumes "\<forall>e\<in>set es. kh heap e \<noteq> None" "len = 2 ^ k" "length new_list = len" "distinct es"
    and "\<forall>i<len. distinct (new_list ! i) \<and> set (new_list ! i) \<inter> set es = {}"
  shows "\<exists>l. rehash heap len es new_list = Some l \<and> length l = len \<and>
    (\<forall>i<len. distinct (l ! i) \<and> set (l ! i) = set (new_list ! i) \<union> bucket heap (set es) len i)"
  using assms
proof (induction es arbitrary: new_list)
  case Nil
  then show ?case by (simp add: bucket_def)
next
  case (Cons e es)
  obtain h where h: "heap e = Some h" using Cons.prems(1) by (auto simp: kh_def)
  let ?i = "bucket_index (h_hash h) len"
  let ?l = "new_list[?i := e # new_list ! ?i]"
  have i: "?i < len" by (rule bucket_index_less [OF Cons.prems(2)])
  have "\<exists>l. rehash heap len es ?l = Some l \<and> length l = len \<and>
      (\<forall>i<len. distinct (l ! i) \<and> set (l ! i) = set (?l ! i) \<union> bucket heap (set es) len i)"
    by (rule Cons.IH) (use Cons.prems i in \<open>auto simp: nth_list_update\<close>)
  then obtain l where l: "rehash heap len es ?l = Some l" "length l = len"
    "\<forall>i<len. distinct (l ! i) \<and> set (l ! i) = set (?l ! i) \<union> bucket heap (set es) len i" by blast
  have "set (?l ! j) \<union> bucket heap (set es) len j = set (new_list ! j) \<union> bucket heap (set (e # es)) len j"
    if "j < len" for j
    using that i Cons.prems(3) bucket_index_of(1) [of heap e "h_key h" "h_hash h" "set es" len j] h
    by (auto simp: nth_list_update)
  with l h show ?case by simp
qed

lemma new_length_ok: "(\<exists>j. new_length k elems = 2 ^ j) \<and> elems \<le> new_length k elems"
proof (induction k elems rule: new_length.induct)
  case (1 k elems)
  show ?case
  proof (cases "4 * 2 ^ k < elems")
    case True
    then show ?thesis using 1 by (subst (1 2) new_length.simps) simp
  next
    case False
    then have n: "new_length k elems = 4 * 2 ^ k" by (subst new_length.simps) simp
    have "new_length k elems = 2 ^ (k + 2)" unfolding n by simp
    then show ?thesis using False n by (intro conjI exI [of _ "k + 2"]) simp_all
  qed
qed

lemma distinct_concat_nth:
  assumes "\<And>i. i < length l \<Longrightarrow> distinct (l ! i)"
    and "\<And>i j. i < j \<Longrightarrow> j < length l \<Longrightarrow> set (l ! i) \<inter> set (l ! j) = {}"
  shows "distinct (concat l)"
  using assms
proof (induction l)
  case (Cons x xs)
  have "distinct (concat xs)"
  proof (rule Cons.IH)
    show "distinct (xs ! i)" if "i < length xs" for i using Cons.prems(1) [of "Suc i"] that by simp
    show "set (xs ! i) \<inter> set (xs ! j) = {}" if "i < j" "j < length xs" for i j
      using Cons.prems(2) [of "Suc i" "Suc j"] that by simp
  qed
  moreover have "set x \<inter> set (xs ! j) = {}" if "j < length xs" for j
    using that Cons.prems(2) [of 0 "Suc j"] by simp
  then have "set x \<inter> set (concat xs) = {}" by (auto simp: set_conv_nth [of xs])
  ultimately show ?case using Cons.prems(1) [of 0] by simp
qed simp

lemma HandleTable_Resize_ok:
  assumes "(\<exists>k. ht_length t = 2 ^ k)" "length (ht_list t) = ht_length t" "finite E" "ht_elems t = card E"
    and "\<forall>e\<in>E. kh heap e \<noteq> None" "inj_on (kh heap) E"
    and "\<forall>i<ht_length t. distinct (ht_list t ! i) \<and> set (ht_list t ! i) = bucket heap E (ht_length t) i"
  shows "\<exists>t'. HandleTable_Resize heap t = Some t' \<and> table_ok heap t' E"
proof -
  let ?len = "new_length 0 (ht_elems t)" and ?es = "concat (ht_list t)"
  obtain k where k: "ht_length t = 2 ^ k" using assms(1) by blast
  obtain j where j: "?len = 2 ^ j" using new_length_ok by blast
  have es: "set ?es = E"
  proof -
    have "e \<in> set ?es" if "e \<in> E" for e
    proof -
      obtain key hash where "kh heap e = Some (key, hash)" using assms(5) \<open>e \<in> E\<close> by auto
      then have "e \<in> set (ht_list t ! bucket_index hash (ht_length t))"
        using assms(7) that bucket_index_less [OF k] by (auto simp: bucket_def)
      then show ?thesis using bucket_index_less [OF k, of hash] assms(2) by (metis UN_I nth_mem set_concat)
    qed
    moreover have "set (ht_list t ! i) \<subseteq> E" if "i < length (ht_list t)" for i
      using assms(2,7) that by (auto simp: bucket_def)
    then have "set ?es \<subseteq> E" by (auto simp: set_conv_nth [of "ht_list t"])
    ultimately show ?thesis by blast
  qed
  have d: "distinct ?es"
    by (rule distinct_concat_nth) (use assms(2,7) in \<open>auto simp: bucket_def\<close>)
  have "\<exists>l. rehash heap ?len ?es (replicate ?len []) = Some l \<and> length l = ?len \<and>
      (\<forall>i<?len. distinct (l ! i) \<and> set (l ! i) = set (replicate ?len [] ! i) \<union> bucket heap (set ?es) ?len i)"
    by (rule rehash_ok [OF _ j]) (use assms(5) es d in auto)
  then obtain l where l: "rehash heap ?len ?es (replicate ?len []) = Some l" "length l = ?len"
    "\<forall>i<?len. distinct (l ! i) \<and> set (l ! i) = bucket heap E ?len i" unfolding es by auto
  then show ?thesis
    using assms(3-6) j new_length_ok [of 0 "ht_elems t"]
    by (auto simp: HandleTable_Resize_def Let_def table_ok_def)
qed

lemma HandleTable_Insert_ok:
  assumes "table_ok heap t E" "heap e = Some h" "e \<notin> E"
  shows "\<exists>r t'. HandleTable_Insert heap e t = Some (r, t') \<and>
    (case r of None \<Rightarrow> (\<forall>e'\<in>E. kh heap e' \<noteq> kh heap e) \<and> table_ok heap t' (insert e E)
     | Some old \<Rightarrow> old \<in> E \<and> kh heap old = kh heap e \<and> table_ok heap t' (insert e (E - {old})))"
  using assms(1)
proof (rule find_in_bucket [of heap t E "h_key h" "h_hash h"])
  let ?i = "bucket_index (h_hash h) (ht_length t)"
  obtain k where k: "ht_length t = 2 ^ k" using assms(1) by (auto simp: table_ok_def)
  have i: "?i < ht_length t" by (rule bucket_index_less [OF k])
  have e: "kh heap e = Some (h_key h, h_hash h)" using assms(2) by simp
  have b: "distinct (ht_list t ! ?i)" "set (ht_list t ! ?i) = bucket heap E (ht_length t) ?i"
    using assms(1) i by (auto simp: table_ok_def)
  {
    assume f: "FindPointer heap (h_key h) (h_hash h) (ht_list t ! ?i) = Some (ht_list t ! ?i, [])"
      and none: "\<forall>e\<in>E. kh heap e \<noteq> Some (h_key h, h_hash h)"
    let ?t = "t\<lparr>ht_list := (ht_list t)[?i := ht_list t ! ?i @ [e]], ht_elems := ht_elems t + 1\<rparr>"
    have n: "ht_elems t + 1 = card (insert e E)" using assms(1,3) by (simp add: table_ok_def)
    have parts: "(\<exists>k. ht_length ?t = 2 ^ k)" "length (ht_list ?t) = ht_length ?t" "finite (insert e E)"
      "ht_elems ?t = card (insert e E)" "\<forall>e'\<in>insert e E. kh heap e' \<noteq> None" "inj_on (kh heap) (insert e E)"
      "\<forall>j<ht_length ?t. distinct (ht_list ?t ! j) \<and> set (ht_list ?t ! j) = bucket heap (insert e E) (ht_length ?t) j"
      using assms(1,3) e none n b i k
      by (auto simp: table_ok_def nth_list_update bucket_index_of(1) [OF e] bucket_def)
    have "\<exists>t'. HandleTable_Insert heap e t = Some (None, t') \<and> table_ok heap t' (insert e E)"
    proof (cases "ht_elems ?t > ht_length ?t")
      case True
      obtain t' where "HandleTable_Resize heap ?t = Some t'" "table_ok heap t' (insert e E)"
        using HandleTable_Resize_ok [OF parts] by blast
      then show ?thesis using True f assms(2) by (simp add: HandleTable_Insert_def Let_def)
    next
      case False
      then have "table_ok heap ?t (insert e E)" using parts unfolding table_ok_def by simp
      then show ?thesis using False f assms(2) by (simp add: HandleTable_Insert_def Let_def)
    qed
    then show ?thesis using none e by auto
  }
  {
    fix pre old rest
    assume f: "FindPointer heap (h_key h) (h_hash h) (ht_list t ! ?i) = Some (pre, old # rest)"
      and c: "ht_list t ! ?i = pre @ old # rest" and old: "old \<in> E" "kh heap old = Some (h_key h, h_hash h)"
    have fin: "finite E" "ht_elems t = card E" using assms(1) by (simp_all add: table_ok_def)
    have n: "ht_elems t = card (insert e (E - {old}))"
      using fin assms(3) card_Suc_Diff1 [OF fin(1) old(1)] by simp
    have "table_ok heap (t\<lparr>ht_list := (ht_list t)[?i := pre @ e # rest], ht_elems := card (insert e (E - {old}))\<rparr>)
        (insert e (E - {old}))"
    proof (rule table_ok_update [OF assms(1) i])
      show "card (insert e (E - {old})) \<le> ht_length t" using n assms(1) by (simp add: table_ok_def)
      have en: "e \<notin> bucket heap E (ht_length t) ?i" using assms(3) by (auto simp: bucket_def)
      show "distinct (pre @ e # rest)" using b c en by auto
      show "set (pre @ e # rest) = bucket heap (insert e (E - {old})) (ht_length t) ?i"
        using b c by (auto simp: bucket_index_of(1) [OF e] bucket_index_of(2) [OF old(2)])
      show "bucket heap (insert e (E - {old})) (ht_length t) j = bucket heap E (ht_length t) j" if "j \<noteq> ?i" for j
        using that by (auto simp: bucket_index_of(1) [OF e] bucket_index_of(2) [OF old(2)])
      show "inj_on (kh heap) (insert e (E - {old}))"
        using assms(1) e old by (auto simp: table_ok_def inj_on_def)
    qed (use assms(1) e in \<open>auto simp: table_ok_def\<close>)
    then have "table_ok heap (t\<lparr>ht_list := (ht_list t)[?i := pre @ e # rest]\<rparr>) (insert e (E - {old}))"
      unfolding n [symmetric] by simp
    then show ?thesis using f assms(2) old e by (simp add: HandleTable_Insert_def Let_def)
  }
qed

end
