(* ===== verification/Cache_Correct.thy ===== *)
theory Cache_Correct
  imports Cache_Invariant
begin

text \<open>
  Every operation of the cache keeps its invariant and returns; what each does to the lists, the
  table and the entries.
\<close>

section \<open>The invariant\<close>

text \<open>What an entry is apart from its state in the cache.\<close>

definition desc :: "'v heap \<Rightarrow> nat \<Rightarrow> (bytes \<times> u32 \<times> 'v \<times> u64) option" where
  "desc heap e = map_option (\<lambda>h. (h_key h, h_hash h, h_value h, h_charge h)) (heap e)"

definition chg :: "'v heap \<Rightarrow> nat \<Rightarrow> u64" where
  "chg heap e = (case heap e of None \<Rightarrow> 0 | Some h \<Rightarrow> h_charge h)"

lemma desc_eq_kh: "desc heap' e = desc heap e \<Longrightarrow> kh heap' e = kh heap e"
  by (cases "heap e"; cases "heap' e") (auto simp: desc_def kh_def)

lemma desc_eq_chg: "desc heap' e = desc heap e \<Longrightarrow> chg heap' e = chg heap e"
  by (cases "heap e"; cases "heap' e") (auto simp: desc_def chg_def)

lemma desc_Some [simp]: "heap e = Some h \<Longrightarrow> desc heap e = Some (h_key h, h_hash h, h_value h, h_charge h)"
  by (simp add: desc_def)

lemma desc_fun_upd: "desc (heap(e := x)) e' = (if e' = e then map_option (\<lambda>h. (h_key h, h_hash h, h_value h, h_charge h)) x else desc heap e')"
  by (simp add: desc_def)

text \<open>\<open>ext e\<close> is the number of handles of entry \<open>e\<close> that clients hold.\<close>

definition entry_ok :: "(nat \<Rightarrow> nat) \<Rightarrow> nat list \<Rightarrow> nat list \<Rightarrow> nat \<Rightarrow> 'v LRUHandle option \<Rightarrow> bool" where
  "entry_ok ext lru use e x =
     (case x of
        None \<Rightarrow> ext e = 0 \<and> e \<notin> set lru \<and> e \<notin> set use
      | Some h \<Rightarrow>
          if e \<in> set lru then h_in_cache h \<and> h_refs h = 1 \<and> ext e = 0
          else if e \<in> set use then h_in_cache h \<and> h_refs h = ext e + 1 \<and> 0 < ext e
          else \<not> h_in_cache h \<and> h_refs h = ext e \<and> 0 < ext e)"

text \<open>The invariant with the entries of the table apart, for the moments when it is ahead of the lists.\<close>

definition inv_table :: "(nat \<Rightarrow> nat) \<Rightarrow> nat list \<Rightarrow> nat list \<Rightarrow> nat set \<Rightarrow> 'v LRUCache \<Rightarrow> bool" where
  "inv_table ext lru use T s \<longleftrightarrow>
     lists s lru use \<and> (\<forall>e. entry_ok ext lru use e (lc_heap s e)) \<and> table_ok (lc_heap s) (lc_table s) T \<and>
     lc_usage s = (\<Sum>e\<in>set lru \<union> set use. chg (lc_heap s) e) \<and> finite (dom (lc_heap s))"

definition cache_inv :: "(nat \<Rightarrow> nat) \<Rightarrow> nat list \<Rightarrow> nat list \<Rightarrow> 'v LRUCache \<Rightarrow> bool" where
  "cache_inv ext lru use s \<longleftrightarrow> inv_table ext lru use (set lru \<union> set use) s"

lemma cache_inv_make: "cache_inv (\<lambda>_. 0) [] [] (LRUCache_make capacity)"
  by (simp add: cache_inv_def inv_table_def LRUCache_make_def lists_def entry_ok_def table_ok_make)

lemma inv_distinct: "inv_table ext lru use T s \<Longrightarrow> distinct (lru @ use)"
  by (simp add: inv_table_def lists_def)

lemma inv_entry: "inv_table ext lru use T s \<Longrightarrow> entry_ok ext lru use e (lc_heap s e)"
  by (simp add: inv_table_def)

lemma inv_live: "inv_table ext lru use T s \<Longrightarrow> e \<in> set lru \<union> set use \<or> 0 < ext e \<Longrightarrow> \<exists>h. lc_heap s e = Some h"
  using inv_entry [of ext lru use T s e] by (cases "lc_heap s e") (auto simp: entry_ok_def)

lemma entry_ok_mono:
  assumes "entry_ok ext lru use e x" "ext' e = ext e" "e \<in> set lru' \<longleftrightarrow> e \<in> set lru" "e \<in> set use' \<longleftrightarrow> e \<in> set use"
  shows "entry_ok ext' lru' use' e x"
  using assms by (auto simp: entry_ok_def split: option.splits)

text \<open>A change of one entry, keeping what it is.\<close>

lemma inv_tableI:
  assumes "inv_table ext lru use T s" "lists s' lru' use'"
    and heap: "lc_heap s' = (lc_heap s)(e := x)" and x: "entry_ok ext' lru' use' e x"
    and ext: "\<And>a. a \<noteq> e \<Longrightarrow> ext' a = ext a"
    and lru: "\<And>a. a \<noteq> e \<Longrightarrow> a \<in> set lru' \<longleftrightarrow> a \<in> set lru" and use: "\<And>a. a \<noteq> e \<Longrightarrow> a \<in> set use' \<longleftrightarrow> a \<in> set use"
    and table: "lc_table s' = lc_table s" and T: "e \<in> T \<Longrightarrow> desc (lc_heap s') e = desc (lc_heap s) e"
    and usage: "lc_usage s' = (\<Sum>a\<in>set lru' \<union> set use'. chg (lc_heap s') a)"
  shows "inv_table ext' lru' use' T s'"
proof -
  have "entry_ok ext' lru' use' a (lc_heap s' a)" for a
    using assms(1) x ext lru use
    by (cases "a = e") (auto simp: heap inv_table_def intro: entry_ok_mono [of ext lru use a])
  moreover have "table_ok (lc_heap s') (lc_table s') T"
    unfolding table
  proof (rule table_ok_cong)
    show "table_ok (lc_heap s) (lc_table s) T" using assms(1) by (simp add: inv_table_def)
    show "kh (lc_heap s') a = kh (lc_heap s) a" if "a \<in> T" for a
      using T that desc_eq_kh [of "lc_heap s'" a "lc_heap s"] by (cases "a = e") (auto simp: heap kh_def)
  qed
  moreover have "finite (dom (lc_heap s'))" using assms(1) by (simp add: heap inv_table_def)
  ultimately show ?thesis using assms(2) usage by (simp add: inv_table_def)
qed

lemma sum_chg_cong: "(\<And>a. a \<in> A \<Longrightarrow> desc heap' a = desc heap a) \<Longrightarrow> (\<Sum>a\<in>A. chg heap' a) = (\<Sum>a\<in>A. chg heap a)"
  by (intro sum.cong) (auto intro: desc_eq_chg)

section \<open>References\<close>

lemma remove1_split: "distinct xs \<Longrightarrow> e \<in> set xs \<Longrightarrow> \<exists>ys zs. xs = ys @ e # zs \<and> remove1 e xs = ys @ zs \<and> e \<notin> set (ys @ zs)"
  by (metis distinct.simps(2) distinct_append in_set_conv_decomp_first not_distinct_conv_prefix remove1_append remove1.simps(2) set_append Un_iff split_list)

lemma LRU_Ref_ok:
  assumes "cache_inv ext lru use s" "lc_heap s e = Some h"
  shows "\<exists>s'. LRU_Ref e s = Some s' \<and>
    cache_inv (ext(e := ext e + 1)) (remove1 e lru) (if e \<in> set lru then use @ [e] else use) s' \<and>
    lc_heap s' = (lc_heap s)(e := Some (h\<lparr>h_refs := h_refs h + 1\<rparr>)) \<and> lc_table s' = lc_table s \<and>
    lc_capacity s' = lc_capacity s \<and> lc_usage s' = lc_usage s \<and> lc_deleted s' = lc_deleted s"
proof -
  note inv = assms(1) [unfolded cache_inv_def]
  have d: "distinct lru" "distinct use" "set lru \<inter> set use = {}" using inv_distinct [OF inv] by auto
  have eo: "entry_ok ext lru use e (Some h)" using inv_entry [OF inv, of e] assms(2) by simp
  have on_lru: "h_refs h = 1 \<and> h_in_cache h \<longleftrightarrow> e \<in> set lru" using eo by (auto simp: entry_ok_def split: if_splits)
  let ?lru = "remove1 e lru" and ?use = "if e \<in> set lru then use @ [e] else use"
  define s1 where "s1 = (if e \<in> set lru then LRU_Append In_use (Entry e) (LRU_Remove (Entry e) s) else s)"
  define s' where "s' = set_handle e (Some (h\<lparr>h_refs := h_refs h + 1\<rparr>)) s1"
  have r: "LRU_Ref e s = Some s'" unfolding LRU_Ref_def assms(2) bind.simps on_lru by (simp add: s'_def s1_def)
  have same: "lc_heap s1 = lc_heap s" "lc_table s1 = lc_table s" "lc_usage s1 = lc_usage s"
    "lc_capacity s1 = lc_capacity s" "lc_deleted s1 = lc_deleted s" by (simp_all add: s1_def)
  have l: "lists s ?lru ?use" if "e \<notin> set lru"
    using inv that by (simp add: inv_table_def remove1_idem)
  have l1: "lists s1 ?lru ?use"
  proof (cases "e \<in> set lru")
    case True
    obtain ys zs where yz: "lru = ys @ e # zs" "remove1 e lru = ys @ zs" "e \<notin> set (ys @ zs)"
      using remove1_split [OF d(1) True] by blast
    have "lists (LRU_Remove (Entry e) s) (ys @ zs) use"
      using inv yz(1) by (intro lists_Remove_lru) (simp add: inv_table_def)
    then have "lists (LRU_Append In_use (Entry e) (LRU_Remove (Entry e) s)) (ys @ zs) (use @ [e])"
      by (rule lists_Append_use) (use yz d True in auto)
    then show ?thesis using True yz(2) by (simp add: s1_def)
  qed (use l in \<open>simp add: s1_def\<close>)
  have E: "set ?lru \<union> set ?use = set lru \<union> set use" using d(1) by auto
  have dsc: "desc (lc_heap s') a = desc (lc_heap s) a" for a
    using assms(2) by (simp add: s'_def same desc_fun_upd desc_def)
  have "inv_table (ext(e := ext e + 1)) ?lru ?use (set lru \<union> set use) s'"
  proof (rule inv_tableI [OF inv])
    show "lists s' ?lru ?use" using l1 by (simp add: s'_def)
    show "lc_heap s' = (lc_heap s)(e := Some (h\<lparr>h_refs := h_refs h + 1\<rparr>))" by (simp add: s'_def same)
    show "entry_ok (ext(e := ext e + 1)) ?lru ?use e (Some (h\<lparr>h_refs := h_refs h + 1\<rparr>))"
      using eo d by (auto simp: entry_ok_def split: if_splits)
    show "lc_usage s' = (\<Sum>a\<in>set ?lru \<union> set ?use. chg (lc_heap s') a)"
      unfolding E sum_chg_cong [OF dsc] using inv by (simp add: s'_def same inv_table_def)
  qed (use d(1) dsc in \<open>auto simp: s'_def same\<close>)
  then show ?thesis
    using r E by (auto simp: cache_inv_def s'_def same)
qed

text \<open>Letting a handle go.\<close>

definition release_lru :: "(nat \<Rightarrow> nat) \<Rightarrow> nat list \<Rightarrow> nat list \<Rightarrow> nat \<Rightarrow> nat list" where
  "release_lru ext lru use e = (if e \<in> set use \<and> ext e = 1 then lru @ [e] else lru)"

definition release_use :: "(nat \<Rightarrow> nat) \<Rightarrow> nat list \<Rightarrow> nat \<Rightarrow> nat list" where
  "release_use ext use e = (if ext e = 1 then remove1 e use else use)"

lemma LRU_Unref_ok:
  assumes "cache_inv ext lru use s" "0 < ext e"
  shows "\<exists>s' h. LRU_Unref e s = Some s' \<and> lc_heap s e = Some h \<and>
    cache_inv (ext(e := ext e - 1)) (release_lru ext lru use e) (release_use ext use e) s' \<and>
    lc_heap s' = (lc_heap s)(e := if h_refs h = 1 then None else Some (h\<lparr>h_refs := h_refs h - 1\<rparr>)) \<and>
    (h_refs h = 1 \<longleftrightarrow> ext e = 1 \<and> e \<notin> set use) \<and>
    lc_table s' = lc_table s \<and> lc_capacity s' = lc_capacity s \<and> lc_usage s' = lc_usage s \<and>
    lc_deleted s' = lc_deleted s @ (if h_refs h = 1 then [(h_key h, h_value h)] else [])"
proof -
  note inv = assms(1) [unfolded cache_inv_def]
  have d: "distinct lru" "distinct use" "set lru \<inter> set use = {}" using inv_distinct [OF inv] by auto
  obtain h where h: "lc_heap s e = Some h" using inv_live [OF inv] assms(2) by blast
  have eo: "entry_ok ext lru use e (Some h)" using inv_entry [OF inv, of e] h by simp
  have e: "e \<notin> set lru" "h_in_cache h \<longleftrightarrow> e \<in> set use" "h_refs h = ext e + (if e \<in> set use then 1 else 0)"
    using eo assms(2) by (auto simp: entry_ok_def split: if_splits)
  let ?h = "h\<lparr>h_refs := h_refs h - 1\<rparr>"
  let ?x = "if h_refs h = 1 then None else Some ?h"
  let ?lru = "release_lru ext lru use e" and ?use = "release_use ext use e"
  define s' where "s' = (if h_refs h = 1
      then set_handle e None (set_handle e (Some ?h) s\<lparr>lc_deleted := lc_deleted s @ [(h_key h, h_value h)]\<rparr>)
      else if e \<in> set use \<and> ext e = 1 then LRU_Append Lru (Entry e) (LRU_Remove (Entry e) (set_handle e (Some ?h) s))
      else set_handle e (Some ?h) s)"
  have r: "LRU_Unref e s = Some s'"
    using h e assms(2) by (auto simp: LRU_Unref_def Let_def s'_def)
  have same: "lc_heap s' = (lc_heap s)(e := ?x)" "lc_table s' = lc_table s" "lc_usage s' = lc_usage s"
    "lc_capacity s' = lc_capacity s"
    "lc_deleted s' = lc_deleted s @ (if h_refs h = 1 then [(h_key h, h_value h)] else [])"
    by (simp_all add: s'_def)
  have l: "lists s' ?lru ?use"
  proof (cases "e \<in> set use \<and> ext e = 1")
    case True
    obtain ys zs where yz: "use = ys @ e # zs" "remove1 e use = ys @ zs" "e \<notin> set (ys @ zs)"
      using remove1_split [OF d(2)] True by blast
    have "lists (LRU_Remove (Entry e) (set_handle e (Some ?h) s)) lru (ys @ zs)"
      using inv yz(1) by (intro lists_Remove_use) (simp add: inv_table_def)
    then have "lists (LRU_Append Lru (Entry e) (LRU_Remove (Entry e) (set_handle e (Some ?h) s))) (lru @ [e]) (ys @ zs)"
      by (rule lists_Append_lru) (use yz e(1) in auto)
    then show ?thesis using True yz(2) e by (simp add: s'_def release_lru_def release_use_def)
  next
    case False
    then have "?lru = lru" "?use = use" by (auto simp: release_lru_def release_use_def remove1_idem)
    moreover have "lists s lru use" using inv by (simp add: inv_table_def)
    ultimately show ?thesis using False by (auto simp: s'_def)
  qed
  have E: "set ?lru \<union> set ?use = set lru \<union> set use" using d by (auto simp: release_lru_def release_use_def)
  have dsc: "desc (lc_heap s') a = desc (lc_heap s) a" if "a \<in> set lru \<union> set use" for a
    using that h e assms(2) by (auto simp: same desc_fun_upd)
  have sm: "(\<Sum>a\<in>set lru \<union> set use. chg (lc_heap s') a) = (\<Sum>a\<in>set lru \<union> set use. chg (lc_heap s) a)"
    by (rule sum_chg_cong) (rule dsc)
  have "inv_table (ext(e := ext e - 1)) ?lru ?use (set lru \<union> set use) s'"
  proof (rule inv_tableI [OF inv l same(1)])
    show "entry_ok (ext(e := ext e - 1)) ?lru ?use e ?x"
      using e d assms(2) by (auto simp: entry_ok_def release_lru_def release_use_def)
    show "lc_usage s' = (\<Sum>a\<in>set ?lru \<union> set ?use. chg (lc_heap s') a)"
      using inv unfolding E same(3) inv_table_def by (simp only: sm)
  qed (use d dsc in \<open>auto simp: same release_lru_def release_use_def\<close>)
  then show ?thesis
    using r h E e assms(2) by (intro exI [of _ s'] exI [of _ h]) (auto simp: cache_inv_def same)
qed

section \<open>Removal\<close>

text \<open>An entry that was taken out of the table leaves its list; it is freed if nobody holds it.\<close>

lemma FinishErase_ok:
  assumes "inv_table ext lru use T s" "T = set lru \<union> set use - {e}" "e \<in> set lru \<union> set use"
  shows "\<exists>s' h. FinishErase (Some e) s = Some (True, s') \<and> lc_heap s e = Some h \<and>
    cache_inv ext (remove1 e lru) (remove1 e use) s' \<and>
    lc_heap s' = (lc_heap s)(e := if e \<in> set lru then None else Some (h\<lparr>h_in_cache := False, h_refs := ext e\<rparr>)) \<and>
    lc_table s' = lc_table s \<and> lc_capacity s' = lc_capacity s \<and> lc_usage s' = lc_usage s - h_charge h \<and>
    lc_deleted s' = lc_deleted s @ (if e \<in> set lru then [(h_key h, h_value h)] else [])"
proof -
  have d: "distinct lru" "distinct use" "set lru \<inter> set use = {}" using inv_distinct [OF assms(1)] by auto
  obtain h where h: "lc_heap s e = Some h" using inv_live [OF assms(1)] assms(3) by blast
  have eo: "entry_ok ext lru use e (Some h)" using inv_entry [OF assms(1), of e] h by simp
  have e: "h_in_cache h" "h_refs h = ext e + 1" "ext e = 0 \<longleftrightarrow> e \<in> set lru"
    using eo assms(3) by (auto simp: entry_ok_def split: if_splits)
  let ?h = "h\<lparr>h_in_cache := False, h_refs := ext e\<rparr>"
  let ?x = "if e \<in> set lru then None else Some ?h"
  let ?s = "set_handle e (Some (h\<lparr>h_in_cache := False\<rparr>)) (LRU_Remove (Entry e) s)\<lparr>lc_usage := lc_usage s - h_charge h\<rparr>"
  define s' where "s' = (if e \<in> set lru
      then set_handle e None (set_handle e (Some ?h) ?s\<lparr>lc_deleted := lc_deleted s @ [(h_key h, h_value h)]\<rparr>)
      else set_handle e (Some ?h) ?s)"
  have "LRU_Unref e ?s = Some s'"
    using e by (simp add: LRU_Unref_def Let_def s'_def)
  then have r: "FinishErase (Some e) s = Some (True, s')"
    using h e(1) by (simp add: FinishErase_def Let_def)
  have same: "lc_heap s' = (lc_heap s)(e := ?x)" "lc_table s' = lc_table s" "lc_usage s' = lc_usage s - h_charge h"
    "lc_capacity s' = lc_capacity s"
    "lc_deleted s' = lc_deleted s @ (if e \<in> set lru then [(h_key h, h_value h)] else [])"
    by (simp_all add: s'_def)
  have "lists (LRU_Remove (Entry e) s) (remove1 e lru) (remove1 e use)"
  proof (cases "e \<in> set lru")
    case True
    then obtain ys zs where yz: "lru = ys @ e # zs" "remove1 e lru = ys @ zs" using remove1_split [OF d(1)] by blast
    moreover have "e \<notin> set use" using d True by auto
    then have "remove1 e use = use" by (rule remove1_idem)
    ultimately show ?thesis using assms(1) by (simp add: inv_table_def lists_Remove_lru)
  next
    case False
    then obtain ys zs where yz: "use = ys @ e # zs" "remove1 e use = ys @ zs"
      using remove1_split [OF d(2)] assms(3) by blast
    moreover have "remove1 e lru = lru" using False by (rule remove1_idem)
    ultimately show ?thesis using assms(1) by (simp add: inv_table_def lists_Remove_use)
  qed
  then have l: "lists s' (remove1 e lru) (remove1 e use)" by (simp add: s'_def)
  have E: "set (remove1 e lru) \<union> set (remove1 e use) = T" using d assms(2) by auto
  have "inv_table ext (remove1 e lru) (remove1 e use) T s'"
  proof (rule inv_tableI [OF assms(1) l same(1)])
    show "entry_ok ext (remove1 e lru) (remove1 e use) e ?x"
      using d e(3) by (auto simp: entry_ok_def)
    have "(\<Sum>a\<in>set lru \<union> set use. chg (lc_heap s) a) = h_charge h + (\<Sum>a\<in>T. chg (lc_heap s) a)"
      unfolding assms(2) using assms(3) h by (simp add: sum.remove chg_def)
    moreover have "(\<Sum>a\<in>T. chg (lc_heap s') a) = (\<Sum>a\<in>T. chg (lc_heap s) a)"
      unfolding same assms(2) by (intro sum.cong) (auto simp: chg_def)
    ultimately show "lc_usage s' = (\<Sum>a\<in>set (remove1 e lru) \<union> set (remove1 e use). chg (lc_heap s') a)"
      unfolding E same using assms(1) by (simp add: inv_table_def)
  qed (use d assms(2) in \<open>auto simp: same\<close>)
  then show ?thesis
    using r h E same by (intro exI [of _ s'] exI [of _ h]) (simp add: cache_inv_def)
qed

text \<open>Erasing a key.\<close>

lemma LRUCache_Erase_ok:
  assumes "cache_inv ext lru use s"
  shows "\<exists>s'. LRUCache_Erase key hash s = Some s' \<and> lc_capacity s' = lc_capacity s \<and>
    (if \<exists>e\<in>set lru \<union> set use. kh (lc_heap s) e = Some (key, hash)
     then \<exists>e h. e \<in> set lru \<union> set use \<and> lc_heap s e = Some h \<and> kh (lc_heap s) e = Some (key, hash) \<and>
       cache_inv ext (remove1 e lru) (remove1 e use) s' \<and>
       lc_heap s' = (lc_heap s)(e := if e \<in> set lru then None else Some (h\<lparr>h_in_cache := False, h_refs := ext e\<rparr>)) \<and>
       lc_deleted s' = lc_deleted s @ (if e \<in> set lru then [(h_key h, h_value h)] else [])
     else s' = s)"
proof -
  have t: "table_ok (lc_heap s) (lc_table s) (set lru \<union> set use)" using assms by (simp add: cache_inv_def inv_table_def)
  obtain r t' where rem: "HandleTable_Remove (lc_heap s) key hash (lc_table s) = Some (r, t')"
    "case r of None \<Rightarrow> t' = lc_table s \<and> (\<forall>e\<in>set lru \<union> set use. kh (lc_heap s) e \<noteq> Some (key, hash))
     | Some e \<Rightarrow> e \<in> set lru \<union> set use \<and> kh (lc_heap s) e = Some (key, hash) \<and>
         table_ok (lc_heap s) t' (set lru \<union> set use - {e})"
    using HandleTable_Remove_ok [OF t] by blast
  show ?thesis
  proof (cases r)
    case None
    then have "LRUCache_Erase key hash s = Some s" using rem by (simp add: LRUCache_Erase_def FinishErase_def)
    with None rem(2) show ?thesis by auto
  next
    case (Some e)
    have "inv_table ext lru use (set lru \<union> set use - {e}) (s\<lparr>lc_table := t'\<rparr>)"
      using assms rem(2) Some by (simp add: cache_inv_def inv_table_def)
    moreover have e: "e \<in> set lru \<union> set use" "kh (lc_heap s) e = Some (key, hash)" using rem(2) Some by auto
    ultimately obtain s' h where s': "FinishErase (Some e) (s\<lparr>lc_table := t'\<rparr>) = Some (True, s')" "lc_heap s e = Some h"
      "cache_inv ext (remove1 e lru) (remove1 e use) s'" "lc_capacity s' = lc_capacity s"
      "lc_heap s' = (lc_heap s)(e := if e \<in> set lru then None else Some (h\<lparr>h_in_cache := False, h_refs := ext e\<rparr>))"
      "lc_deleted s' = lc_deleted s @ (if e \<in> set lru then [(h_key h, h_value h)] else [])"
      using FinishErase_ok [OF _ refl, of ext lru use e "s\<lparr>lc_table := t'\<rparr>"] by auto
    have "LRUCache_Erase key hash s = Some s'" using s'(1) rem(1) Some by (simp add: LRUCache_Erase_def)
    moreover have "\<exists>e\<in>set lru \<union> set use. kh (lc_heap s) e = Some (key, hash)" using e by blast
    ultimately show ?thesis using s' e by (intro exI [of _ s']) (simp only: if_True, blast)
  qed
qed

section \<open>Eviction\<close>

lemma erase_oldest_ok:
  assumes "cache_inv ext (e # lru) use s"
  shows "\<exists>s' h. erase_oldest s = Some s' \<and> lc_heap s e = Some h \<and> cache_inv ext lru use s' \<and>
    lc_heap s' = (lc_heap s)(e := None) \<and> lc_capacity s' = lc_capacity s \<and>
    lc_deleted s' = lc_deleted s @ [(h_key h, h_value h)]"
proof -
  note inv = assms [unfolded cache_inv_def]
  have d: "e \<notin> set lru" "e \<notin> set use" using inv_distinct [OF inv] by auto
  obtain h where h: "lc_heap s e = Some h" using inv_live [OF inv, of e] by auto
  have eo: "entry_ok ext (e # lru) use e (Some h)" using inv_entry [OF inv, of e] h by simp
  have n: "lc_next s Lru = Entry e" using inv lists_first [of s "e # lru" use] by (simp add: inv_table_def)
  have t: "table_ok (lc_heap s) (lc_table s) (set (e # lru) \<union> set use)" using inv by (simp add: inv_table_def)
  obtain r t' where rem: "HandleTable_Remove (lc_heap s) (h_key h) (h_hash h) (lc_table s) = Some (r, t')"
    "case r of None \<Rightarrow> t' = lc_table s \<and> (\<forall>a\<in>set (e # lru) \<union> set use. kh (lc_heap s) a \<noteq> Some (h_key h, h_hash h))
     | Some a \<Rightarrow> a \<in> set (e # lru) \<union> set use \<and> kh (lc_heap s) a = Some (h_key h, h_hash h) \<and>
         table_ok (lc_heap s) t' (set (e # lru) \<union> set use - {a})"
    using HandleTable_Remove_ok [OF t] by blast
  have k: "kh (lc_heap s) e = Some (h_key h, h_hash h)" using h by simp
  then obtain a where a: "r = Some a" using rem(2) by (cases r) auto
  have "inj_on (kh (lc_heap s)) (set (e # lru) \<union> set use)" using t by (simp add: table_ok_def)
  then have ae: "a = e" using rem(2) a k by (auto simp: inj_on_def)
  have "inv_table ext (e # lru) use (set (e # lru) \<union> set use - {e}) (s\<lparr>lc_table := t'\<rparr>)"
    using inv rem(2) a ae by (simp add: inv_table_def)
  from FinishErase_ok [OF this refl] obtain s' where s': "FinishErase (Some e) (s\<lparr>lc_table := t'\<rparr>) = Some (True, s')"
    "cache_inv ext lru (remove1 e use) s'" "lc_heap s' = (lc_heap s)(e := None)" "lc_capacity s' = lc_capacity s"
    "lc_deleted s' = lc_deleted s @ [(h_key h, h_value h)]" using h by auto
  have "erase_oldest s = Some s'"
    using n h eo rem(1) a ae s'(1) by (simp add: erase_oldest_def entry_ok_def)
  with s' h d show ?thesis by (auto simp: remove1_idem)
qed

text \<open>The first \<open>n\<close> of the unused entries are gone.\<close>

definition evicted :: "nat \<Rightarrow> nat list \<Rightarrow> 'v LRUCache \<Rightarrow> 'v LRUCache \<Rightarrow> bool" where
  "evicted n lru s s' \<longleftrightarrow>
     lc_heap s' = (\<lambda>e. if e \<in> set (take n lru) then None else lc_heap s e) \<and> lc_capacity s' = lc_capacity s \<and>
     lc_deleted s' = lc_deleted s @ map (\<lambda>e. (\<lambda>h. (h_key h, h_value h)) (the (lc_heap s e))) (take n lru)"

lemma evicted_0 [simp]: "evicted 0 lru s s"
  by (simp add: evicted_def)

lemma evicted_Suc:
  assumes "lc_heap s e = Some h" "lc_heap s1 = (lc_heap s)(e := None)" "lc_capacity s1 = lc_capacity s"
    and "lc_deleted s1 = lc_deleted s @ [(h_key h, h_value h)]" "evicted n lru s1 s'" "e \<notin> set lru"
  shows "evicted (Suc n) (e # lru) s s'"
proof -
  have "map (\<lambda>a. (\<lambda>h. (h_key h, h_value h)) (the (lc_heap s1 a))) (take n lru) =
      map (\<lambda>a. (\<lambda>h. (h_key h, h_value h)) (the (lc_heap s a))) (take n lru)"
    using assms(2,6) by (auto dest: in_set_takeD)
  then show ?thesis using assms by (auto simp: evicted_def fun_eq_iff)
qed

lemma evict_ok:
  assumes "cache_inv ext lru use s"
  shows "\<exists>s' n. evict s = Some s' \<and> cache_inv ext (drop n lru) use s' \<and> evicted n lru s s' \<and>
    (lc_usage s' \<le> lc_capacity s' \<or> drop n lru = []) \<and>
    (\<forall>m<n. lc_capacity s < (\<Sum>e\<in>set (drop m lru) \<union> set use. chg (lc_heap s) e))"
  using assms
proof (induction lru arbitrary: s)
  case Nil
  then have "lc_next s Lru = Lru" using lists_first [of s "[]" use] by (simp add: cache_inv_def inv_table_def)
  then have "evict s = Some s" by (subst evict.simps) simp
  with Nil show ?case by (intro exI [of _ s] exI [of _ 0]) simp
next
  case (Cons e lru)
  note inv = Cons.prems [unfolded cache_inv_def]
  have n: "lc_next s Lru = Entry e" using inv lists_first [of s "e # lru" use] by (simp add: inv_table_def)
  have u: "lc_usage s = (\<Sum>a\<in>set (e # lru) \<union> set use. chg (lc_heap s) a)" using inv by (simp add: inv_table_def)
  have d: "e \<notin> set lru" "e \<notin> set use" using inv_distinct [OF inv] by auto
  show ?case
  proof (cases "lc_usage s > lc_capacity s")
    case True
    obtain s1 h where s1: "erase_oldest s = Some s1" "lc_heap s e = Some h" "cache_inv ext lru use s1"
      "lc_heap s1 = (lc_heap s)(e := None)" "lc_capacity s1 = lc_capacity s"
      "lc_deleted s1 = lc_deleted s @ [(h_key h, h_value h)]" using erase_oldest_ok [OF Cons.prems] by blast
    obtain s' k where s': "evict s1 = Some s'" "cache_inv ext (drop k lru) use s'" "evicted k lru s1 s'"
      "lc_usage s' \<le> lc_capacity s' \<or> drop k lru = []"
      "\<forall>m<k. lc_capacity s1 < (\<Sum>a\<in>set (drop m lru) \<union> set use. chg (lc_heap s1) a)"
      using Cons.IH [OF s1(3)] by blast
    have c: "(\<Sum>a\<in>set (drop m lru) \<union> set use. chg (lc_heap s1) a) = (\<Sum>a\<in>set (drop m lru) \<union> set use. chg (lc_heap s) a)" for m
      using d s1(4) by (intro sum.cong) (auto simp: chg_def dest: in_set_dropD)
    have "\<forall>m<Suc k. lc_capacity s < (\<Sum>a\<in>set (drop m (e # lru)) \<union> set use. chg (lc_heap s) a)"
    proof (intro allI impI)
      fix m assume "m < Suc k"
      then show "lc_capacity s < (\<Sum>a\<in>set (drop m (e # lru)) \<union> set use. chg (lc_heap s) a)"
        using True u s'(5) s1(5) c by (cases m) auto
    qed
    moreover have "evict s = Some s'" using True n s1(1) s'(1) by (subst evict.simps) simp
    moreover have "evicted (Suc k) (e # lru) s s'" by (rule evicted_Suc [OF s1(2,4,5,6) s'(3) d(1)])
    ultimately show ?thesis using s'(2,4) by (intro exI [of _ s'] exI [of _ "Suc k"]) simp
  next
    case False
    then have "evict s = Some s" by (subst evict.simps) simp
    with False Cons.prems show ?thesis by (intro exI [of _ s] exI [of _ 0]) simp
  qed
qed

lemma LRUCache_Prune_ok:
  assumes "cache_inv ext lru use s"
  shows "\<exists>s'. LRUCache_Prune s = Some s' \<and> cache_inv ext [] use s' \<and> evicted (length lru) lru s s'"
  using assms
proof (induction lru arbitrary: s)
  case Nil
  then have "lc_next s Lru = Lru" using lists_first [of s "[]" use] by (simp add: cache_inv_def inv_table_def)
  then have "LRUCache_Prune s = Some s" by (subst LRUCache_Prune.simps) simp
  with Nil show ?case by auto
next
  case (Cons e lru)
  note inv = Cons.prems [unfolded cache_inv_def]
  have n: "lc_next s Lru = Entry e" using inv lists_first [of s "e # lru" use] by (simp add: inv_table_def)
  have d: "e \<notin> set lru" using inv_distinct [OF inv] by auto
  obtain s1 h where s1: "erase_oldest s = Some s1" "lc_heap s e = Some h" "cache_inv ext lru use s1"
    "lc_heap s1 = (lc_heap s)(e := None)" "lc_capacity s1 = lc_capacity s"
    "lc_deleted s1 = lc_deleted s @ [(h_key h, h_value h)]" using erase_oldest_ok [OF Cons.prems] by blast
  obtain s' where s': "LRUCache_Prune s1 = Some s'" "cache_inv ext [] use s'" "evicted (length lru) lru s1 s'"
    using Cons.IH [OF s1(3)] by blast
  have "LRUCache_Prune s = Some s'" using n s1(1) s'(1) by (subst LRUCache_Prune.simps) simp
  with s'(2) evicted_Suc [OF s1(2,4,5,6) s'(3) d] show ?case by auto
qed

end
