(* ===== verification/Cache_Client.thy ===== *)
theory Cache_Client
  imports Cache_Correct
begin

text \<open>
  The cache as its clients see it: insertion, the states a client can reach, and the properties of all
  of them.
\<close>

section \<open>Insertion\<close>

text \<open>The entry that a new one replaces is taken out of its list.\<close>

definition without :: "nat option \<Rightarrow> nat list \<Rightarrow> nat list" where
  "without old xs = (case old of None \<Rightarrow> xs | Some a \<Rightarrow> remove1 a xs)"

lemma without_simps [simp]: "without None xs = xs" "without (Some a) xs = remove1 a xs"
  by (simp_all add: without_def)

lemma set_without: "distinct xs \<Longrightarrow> set (without old xs) = (case old of None \<Rightarrow> set xs | Some a \<Rightarrow> set xs - {a})"
  by (cases old) simp_all

lemma set_without_subset: "set (without old xs) \<subseteq> set xs"
  by (cases old) (simp_all add: set_remove1_subset)

lemma inv_append:
  assumes "cache_inv ext lru use s" "lc_heap s e = None" "h_in_cache h" "h_refs h = 2"
  shows "inv_table (ext(e := 1)) lru (use @ [e]) (set lru \<union> set use)
    (LRU_Append In_use (Entry e) (set_handle e (Some h) s)\<lparr>lc_usage := lc_usage s + h_charge h\<rparr>)"
    (is "inv_table _ _ _ _ ?s")
proof -
  note inv = assms(1) [unfolded cache_inv_def]
  have e: "e \<notin> set lru" "e \<notin> set use" using inv_entry [OF inv, of e] assms(2) by (simp_all add: entry_ok_def)
  have l: "lists s lru use" using inv by (simp add: inv_table_def)
  show ?thesis
  proof (rule inv_tableI [OF inv])
    show "lists ?s lru (use @ [e])"
      using lists_Append_use [of "set_handle e (Some h) s" lru use e] l e by simp
    show "lc_heap ?s = (lc_heap s)(e := Some h)" by simp
    show "entry_ok (ext(e := 1)) lru (use @ [e]) e (Some h)" using assms(3,4) e by (simp add: entry_ok_def)
    have "(\<Sum>a\<in>set lru \<union> set use. chg ((lc_heap s)(e := Some h)) a) = (\<Sum>a\<in>set lru \<union> set use. chg (lc_heap s) a)"
      using e by (intro sum.cong) (auto simp: chg_def)
    then show "lc_usage ?s = (\<Sum>a\<in>set lru \<union> set (use @ [e]). chg (lc_heap ?s) a)"
      using inv e by (simp add: inv_table_def chg_def)
  qed (use e in auto)
qed

lemma LRUCache_Insert_ok:
  assumes "cache_inv ext lru use s" "lc_heap s e = None" "0 < lc_capacity s"
  shows "\<exists>s1 s' old n. LRUCache_Insert e key hash v c s = Some (e, s') \<and>
    cache_inv (ext(e := 1)) (without old lru) (without old use @ [e]) s1 \<and>
    (case old of
       None \<Rightarrow> (\<forall>a\<in>set lru \<union> set use. kh (lc_heap s) a \<noteq> Some (key, hash)) \<and>
         lc_heap s1 = (lc_heap s)(e \<mapsto> \<lparr>h_value = v, h_charge = c, h_key = key, h_in_cache = True, h_refs = 2, h_hash = hash\<rparr>) \<and>
         lc_deleted s1 = lc_deleted s
     | Some a \<Rightarrow> a \<in> set lru \<union> set use \<and> kh (lc_heap s) a = Some (key, hash) \<and> a \<noteq> e \<and>
         (\<exists>h. lc_heap s a = Some h \<and>
           lc_heap s1 = (lc_heap s)(e \<mapsto> \<lparr>h_value = v, h_charge = c, h_key = key, h_in_cache = True, h_refs = 2, h_hash = hash\<rparr>,
             a := if a \<in> set lru then None else Some (h\<lparr>h_in_cache := False, h_refs := ext a\<rparr>)) \<and>
           lc_deleted s1 = lc_deleted s @ (if a \<in> set lru then [(h_key h, h_value h)] else []))) \<and>
    lc_capacity s1 = lc_capacity s \<and>
    cache_inv (ext(e := 1)) (drop n (without old lru)) (without old use @ [e]) s' \<and>
    evicted n (without old lru) s1 s' \<and> (lc_usage s' \<le> lc_capacity s' \<or> drop n (without old lru) = [])"
proof -
  let ?h = "\<lparr>h_value = v, h_charge = c, h_key = key, h_in_cache = True, h_refs = 2, h_hash = hash\<rparr>"
  let ?s = "LRU_Append In_use (Entry e) (set_handle e (Some ?h) s)\<lparr>lc_usage := lc_usage s + c\<rparr>"
  let ?E = "set lru \<union> set use"
  note inv = assms(1) [unfolded cache_inv_def]
  have e: "e \<notin> set lru" "e \<notin> set use" using inv_entry [OF inv, of e] assms(2) by (simp_all add: entry_ok_def)
  have i1: "inv_table (ext(e := 1)) lru (use @ [e]) ?E ?s"
    using inv_append [OF assms(1,2), of ?h] by simp
  have t: "table_ok (lc_heap ?s) (lc_table s) ?E" using i1 by (simp add: inv_table_def)
  have he: "lc_heap ?s e = Some ?h" by simp
  have kh_s: "kh (lc_heap ?s) a = kh (lc_heap s) a" if "a \<in> ?E" for a using that e by (auto simp: kh_def)
  obtain old t' where ins: "HandleTable_Insert (lc_heap ?s) e (lc_table s) = Some (old, t')"
    "case old of None \<Rightarrow> (\<forall>a\<in>?E. kh (lc_heap ?s) a \<noteq> kh (lc_heap ?s) e) \<and> table_ok (lc_heap ?s) t' (insert e ?E)
     | Some a \<Rightarrow> a \<in> ?E \<and> kh (lc_heap ?s) a = kh (lc_heap ?s) e \<and> table_ok (lc_heap ?s) t' (insert e (?E - {a}))"
    using HandleTable_Insert_ok [OF t he] e by blast
  have step: "LRUCache_Insert e key hash v c s =
      do { (_, s) \<leftarrow> FinishErase old (?s\<lparr>lc_table := t'\<rparr>); s \<leftarrow> evict s; Some (e, s) }"
    using ins(1) assms(3) by (simp add: LRUCache_Insert_def Let_def split: Option.bind_split)
  have fin: "\<exists>s' n. LRUCache_Insert e key hash v c s = Some (e, s') \<and> cache_inv (ext(e := 1)) (drop n l) u s' \<and>
      evicted n l s1 s' \<and> (lc_usage s' \<le> lc_capacity s' \<or> drop n l = [])"
    if "FinishErase old (?s\<lparr>lc_table := t'\<rparr>) = Some (b, s1)" "cache_inv (ext(e := 1)) l u s1" for b s1 l u
    using evict_ok [OF that(2)] that(1) unfolding step by auto
  show ?thesis
  proof (cases old)
    case None
    have f: "FinishErase old (?s\<lparr>lc_table := t'\<rparr>) = Some (False, ?s\<lparr>lc_table := t'\<rparr>)" by (simp add: None FinishErase_def)
    have i2: "cache_inv (ext(e := 1)) lru (use @ [e]) (?s\<lparr>lc_table := t'\<rparr>)"
      using i1 ins(2) None by (simp add: cache_inv_def inv_table_def)
    have n: "\<forall>a\<in>?E. kh (lc_heap s) a \<noteq> Some (key, hash)" using ins(2) None kh_s by simp
    from fin [OF f i2] obtain s' n where "LRUCache_Insert e key hash v c s = Some (e, s')"
      "cache_inv (ext(e := 1)) (drop n lru) (use @ [e]) s'" "evicted n lru (?s\<lparr>lc_table := t'\<rparr>) s'"
      "lc_usage s' \<le> lc_capacity s' \<or> drop n lru = []" by blast
    then show ?thesis using i2 n by (intro exI [of _ "?s\<lparr>lc_table := t'\<rparr>"] exI [of _ s'] exI [of _ None] exI [of _ n]) simp
  next
    case (Some a)
    have a: "a \<in> ?E" "kh (lc_heap s) a = Some (key, hash)" "a \<noteq> e" using ins(2) Some kh_s e by auto
    have "inv_table (ext(e := 1)) lru (use @ [e]) (insert e (?E - {a})) (?s\<lparr>lc_table := t'\<rparr>)"
      using i1 ins(2) Some by (simp add: inv_table_def)
    moreover have "insert e (?E - {a}) = set lru \<union> set (use @ [e]) - {a}" using a(3) by auto
    ultimately obtain s1 h where s1: "FinishErase (Some a) (?s\<lparr>lc_table := t'\<rparr>) = Some (True, s1)"
      "lc_heap s a = Some h" "cache_inv (ext(e := 1)) (remove1 a lru) (remove1 a (use @ [e])) s1"
      "lc_heap s1 = (lc_heap s)(e \<mapsto> ?h, a := if a \<in> set lru then None else Some (h\<lparr>h_in_cache := False, h_refs := ext a\<rparr>))"
      "lc_capacity s1 = lc_capacity s" "lc_deleted s1 = lc_deleted s @ (if a \<in> set lru then [(h_key h, h_value h)] else [])"
      using FinishErase_ok [of "ext(e := 1)" lru "use @ [e]" "insert e (?E - {a})" "?s\<lparr>lc_table := t'\<rparr>" a] a by auto
    have u: "remove1 a (use @ [e]) = remove1 a use @ [e]" using a(3) by (simp add: remove1_append remove1_idem)
    from fin [OF s1(1) [folded Some] s1(3)] obtain s' n where "LRUCache_Insert e key hash v c s = Some (e, s')"
      "cache_inv (ext(e := 1)) (drop n (remove1 a lru)) (remove1 a (use @ [e])) s'" "evicted n (remove1 a lru) s1 s'"
      "lc_usage s' \<le> lc_capacity s' \<or> drop n (remove1 a lru) = []" by blast
    then show ?thesis
      using s1 a unfolding u by (intro exI [of _ s1] exI [of _ s'] exI [of _ "Some a"] exI [of _ n]) simp
  qed
qed

text \<open>A cache of capacity zero holds nothing.\<close>

lemma LRUCache_Insert_zero:
  assumes "cache_inv ext lru use s" "lc_heap s e = None" "lc_capacity s = 0" "lru = []"
    and h_def: "h = \<lparr>h_value = v, h_charge = c, h_key = key, h_in_cache = False, h_refs = 1, h_hash = hash\<rparr>"
  shows "LRUCache_Insert e key hash v c s = Some (e, set_handle e (Some h) s) \<and>
    cache_inv (ext(e := 1)) lru use (set_handle e (Some h) s)"
proof -
  note inv = assms(1) [unfolded cache_inv_def]
  have e: "e \<notin> set lru" "e \<notin> set use" using inv_entry [OF inv, of e] assms(2) by (simp_all add: entry_ok_def)
  have i: "inv_table (ext(e := 1)) lru use (set lru \<union> set use) (set_handle e (Some h) s)"
  proof (rule inv_tableI [OF inv])
    show "lc_heap (set_handle e (Some h) s) = (lc_heap s)(e := Some h)" by simp
    show "lists (set_handle e (Some h) s) lru use" using inv by (simp add: inv_table_def)
    show "entry_ok (ext(e := 1)) lru use e (Some h)" using e by (simp add: entry_ok_def h_def)
    have "(\<Sum>a\<in>set lru \<union> set use. chg ((lc_heap s)(e := Some h)) a) = (\<Sum>a\<in>set lru \<union> set use. chg (lc_heap s) a)"
      using e by (intro sum.cong) (auto simp: chg_def)
    then show "lc_usage (set_handle e (Some h) s) = (\<Sum>a\<in>set lru \<union> set use. chg (lc_heap (set_handle e (Some h) s)) a)"
      using inv by (simp add: inv_table_def)
  qed (use e in auto)
  have "lc_next (set_handle e (Some h) s) Lru = Lru"
    using lists_first [of s lru use] inv assms(4) by (simp add: inv_table_def set_handle_def)
  then have "evict (set_handle e (Some h) s) = Some (set_handle e (Some h) s)" by (subst evict.simps) simp
  then show ?thesis using i assms(3) by (simp add: LRUCache_Insert_def Let_def h_def cache_inv_def)
qed

section \<open>Every value is deleted once\<close>

definition kv_of :: "'v LRUHandle \<Rightarrow> bytes \<times> 'v" where
  "kv_of h = (h_key h, h_value h)"

text \<open>Values that were passed to the deleter, and those still on the heap.\<close>

definition account :: "'v LRUCache \<Rightarrow> (bytes \<times> 'v) multiset" where
  "account s = mset (lc_deleted s) + image_mset (kv_of \<circ> the \<circ> lc_heap s) (mset_set (dom (lc_heap s)))"

lemma live_upd:
  assumes "finite (dom heap)"
  shows "image_mset (kv_of \<circ> the \<circ> heap(e := x)) (mset_set (dom (heap(e := x)))) =
    image_mset (kv_of \<circ> the \<circ> heap) (mset_set (dom heap - {e})) + (case x of None \<Rightarrow> {#} | Some h \<Rightarrow> {#kv_of h#})"
proof -
  have "image_mset (kv_of \<circ> the \<circ> heap(e := x)) (mset_set (dom heap - {e})) =
      image_mset (kv_of \<circ> the \<circ> heap) (mset_set (dom heap - {e}))"
    using assms by (intro image_mset_cong) auto
  moreover have "dom (heap(e := x)) = (case x of None \<Rightarrow> dom heap - {e} | Some _ \<Rightarrow> insert e (dom heap - {e}))"
    by (auto split: option.splits)
  ultimately show ?thesis using assms by (cases x) (simp_all add: mset_set.insert_remove)
qed

lemma live_split:
  assumes "finite (dom heap)" "heap e = Some h"
  shows "image_mset (kv_of \<circ> the \<circ> heap) (mset_set (dom heap)) =
    image_mset (kv_of \<circ> the \<circ> heap) (mset_set (dom heap - {e})) + {#kv_of h#}"
  using live_upd [OF assms(1), of e "Some h"] assms(2) by (simp add: fun_upd_idem)

lemma account_change:
  assumes "finite (dom (lc_heap s))" "lc_heap s e = Some h" "lc_heap s' = (lc_heap s)(e := x)"
    and "case x of None \<Rightarrow> lc_deleted s' = lc_deleted s @ [kv_of h] | Some h' \<Rightarrow> kv_of h' = kv_of h \<and> lc_deleted s' = lc_deleted s"
  shows "account s' = account s"
  using assms(4) live_split [OF assms(1,2)] unfolding account_def assms(3) live_upd [OF assms(1)]
  by (cases x) simp_all

lemma account_new:
  assumes "finite (dom (lc_heap s))" "lc_heap s e = None" "lc_heap s' = (lc_heap s)(e := Some h)" "lc_deleted s' = lc_deleted s"
  shows "account s' = add_mset (kv_of h) (account s)"
proof -
  have "dom (lc_heap s) - {e} = dom (lc_heap s)" using assms(2) by auto
  then show ?thesis unfolding account_def assms(3,4) live_upd [OF assms(1)] by simp
qed

lemma account_evicted:
  assumes "finite (dom (lc_heap s))" "evicted n lru s s'" "distinct lru" "set lru \<subseteq> dom (lc_heap s)"
  shows "account s' = account s"
proof -
  let ?S = "set (take n lru)"
  have S: "?S \<subseteq> dom (lc_heap s)" "finite ?S" using assms(4) by (auto dest: in_set_takeD)
  have d: "dom (lc_heap s') = dom (lc_heap s) - ?S" using assms(2) by (auto simp: evicted_def split: if_splits)
  have "mset (map (kv_of \<circ> the \<circ> lc_heap s) (take n lru)) = image_mset (kv_of \<circ> the \<circ> lc_heap s) (mset_set ?S)"
    using assms(3) by (simp add: mset_set_set)
  moreover have "lc_deleted s' = lc_deleted s @ map (kv_of \<circ> the \<circ> lc_heap s) (take n lru)"
    using assms(2) by (simp add: evicted_def kv_of_def comp_def)
  moreover have "image_mset (kv_of \<circ> the \<circ> lc_heap s') (mset_set (dom (lc_heap s'))) =
      image_mset (kv_of \<circ> the \<circ> lc_heap s) (mset_set (dom (lc_heap s) - ?S))"
    unfolding d using assms(1,2) by (intro image_mset_cong) (auto simp: evicted_def)
  moreover have "mset_set (dom (lc_heap s)) = mset_set (dom (lc_heap s) - ?S) + mset_set ?S"
    using assms(1) S by (metis Diff_disjoint finite_Diff inf_commute mset_set_Union sup.absorb_iff2 Un_Diff_cancel2 sup_commute)
  ultimately show ?thesis by (simp add: account_def)
qed

lemma inv_finite: "cache_inv ext lru use s \<Longrightarrow> finite (dom (lc_heap s))"
  by (simp add: cache_inv_def inv_table_def)

lemma inv_dom: "cache_inv ext lru use s \<Longrightarrow> set lru \<union> set use \<subseteq> dom (lc_heap s)"
  using inv_live by (fastforce simp: cache_inv_def)

lemma inv_distinct_lru: "cache_inv ext lru use s \<Longrightarrow> distinct lru"
  using inv_distinct by (fastforce simp: cache_inv_def)

section \<open>The destructor\<close>

lemma destroy_loop_ok:
  assumes "lnk (lc_next s) (lc_prev s) a xs Lru" "distinct xs"
    and "\<forall>e\<in>set xs. \<exists>h. lc_heap s e = Some h \<and> h_in_cache h \<and> h_refs h = 1"
  shows "\<exists>s'. destroy_loop (lc_next s a) s = Some s' \<and> evicted (length xs) xs s s'"
  using assms
proof (induction xs arbitrary: a s)
  case Nil
  then show ?case by (subst destroy_loop.simps) (simp add: evicted_def)
next
  case (Cons e xs)
  obtain h where h: "lc_heap s e = Some h" "h_in_cache h" "h_refs h = 1" using Cons.prems(3) by auto
  define s1 where "s1 = set_handle e None (set_handle e (Some (h\<lparr>h_in_cache := False, h_refs := 0\<rparr>)) s
      \<lparr>lc_deleted := lc_deleted s @ [(h_key h, h_value h)]\<rparr>)"
  have p: "lc_next s1 = lc_next s" "lc_prev s1 = lc_prev s" by (simp_all add: s1_def set_handle_def)
  have heap: "lc_heap s1 = (lc_heap s)(e := None)" "lc_capacity s1 = lc_capacity s"
    "lc_deleted s1 = lc_deleted s @ [(h_key h, h_value h)]" by (simp_all add: s1_def)
  have u: "LRU_Unref e (set_handle e (Some (h\<lparr>h_in_cache := False\<rparr>)) s) = Some s1"
    using h by (simp add: LRU_Unref_def Let_def s1_def set_handle_def)
  have n: "lc_next s a = Entry e" using Cons.prems(1) by simp
  have "destroy_loop (Entry e) s = destroy_loop (lc_next s1 (Entry e)) s1"
    using h u p by (subst destroy_loop.simps) (simp add: Let_def)
  moreover have "\<exists>s'. destroy_loop (lc_next s1 (Entry e)) s1 = Some s' \<and> evicted (length xs) xs s1 s'"
    by (rule Cons.IH) (use Cons.prems in \<open>auto simp: p heap\<close>)
  ultimately show ?case using n evicted_Suc [OF h(1) heap] Cons.prems(2) by auto
qed

lemma LRUCache_destroy_ok:
  assumes "cache_inv (\<lambda>_. 0) lru use s"
  shows "\<exists>s'. LRUCache_destroy s = Some s' \<and> lc_heap s' = Map.empty \<and> mset (lc_deleted s') = account s"
proof -
  note inv = assms [unfolded cache_inv_def]
  have heap: "e \<in> set lru \<and> h_in_cache h \<and> h_refs h = 1" if "lc_heap s e = Some h" for e h
    using inv_entry [OF inv, of e] that by (auto simp: entry_ok_def split: if_splits)
  have use: "use = []"
  proof (rule ccontr)
    assume "use \<noteq> []"
    then obtain e where e: "e \<in> set use" by (cases use) auto
    then obtain h where "lc_heap s e = Some h" using inv_live [OF inv] by blast
    then show False using heap e inv_distinct [OF inv] by auto
  qed
  have l: "lnk (lc_next s) (lc_prev s) Lru lru Lru" "lc_next s In_use = In_use" "distinct lru"
    using inv use by (auto simp: inv_table_def lists_def)
  have dom: "dom (lc_heap s) = set lru" using heap inv_dom [OF assms] by auto
  have "\<exists>s'. destroy_loop (lc_next s Lru) s = Some s' \<and> evicted (length lru) lru s s'"
    by (rule destroy_loop_ok [OF l(1,3)]) (use heap dom in blast)
  then obtain s' where s': "destroy_loop (lc_next s Lru) s = Some s'" "evicted (length lru) lru s s'" by blast
  have empty: "lc_heap s' = Map.empty"
  proof
    show "lc_heap s' e = None" for e using s'(2) dom by (cases "e \<in> set lru") (auto simp: evicted_def)
  qed
  have "account s' = account s" using account_evicted [OF inv_finite [OF assms] s'(2) l(3)] dom by simp
  with empty have "mset (lc_deleted s') = account s" by (simp add: account_def)
  with empty s'(1) l(2) show ?thesis by (auto simp: LRUCache_destroy_def)
qed

section \<open>Reachable states\<close>

text \<open>
  What clients can do with one cache: \<open>ext\<close> counts the handles they hold, \<open>ins\<close> collects the values
  they inserted.  The allocator returns an address that is not in use.
\<close>

inductive cache_reach :: "u64 \<Rightarrow> 'v LRUCache \<Rightarrow> (nat \<Rightarrow> nat) \<Rightarrow> (bytes \<times> 'v) multiset \<Rightarrow> bool" for capacity where
  make: "cache_reach capacity (LRUCache_make capacity) (\<lambda>_. 0) {#}"
| insert: "cache_reach capacity s ext ins \<Longrightarrow> lc_heap s e = None \<Longrightarrow>
    LRUCache_Insert e key hash v c s = Some (e', s') \<Longrightarrow> cache_reach capacity s' (ext(e := 1)) (add_mset (key, v) ins)"
| lookup_none: "cache_reach capacity s ext ins \<Longrightarrow> LRUCache_Lookup key hash s = Some (None, s') \<Longrightarrow>
    cache_reach capacity s' ext ins"
| lookup_some: "cache_reach capacity s ext ins \<Longrightarrow> LRUCache_Lookup key hash s = Some (Some e, s') \<Longrightarrow>
    cache_reach capacity s' (ext(e := ext e + 1)) ins"
| release: "cache_reach capacity s ext ins \<Longrightarrow> 0 < ext e \<Longrightarrow> LRUCache_Release e s = Some s' \<Longrightarrow>
    cache_reach capacity s' (ext(e := ext e - 1)) ins"
| erase: "cache_reach capacity s ext ins \<Longrightarrow> LRUCache_Erase key hash s = Some s' \<Longrightarrow> cache_reach capacity s' ext ins"
| prune: "cache_reach capacity s ext ins \<Longrightarrow> LRUCache_Prune s = Some s' \<Longrightarrow> cache_reach capacity s' ext ins"

definition reach_inv :: "u64 \<Rightarrow> 'v LRUCache \<Rightarrow> (nat \<Rightarrow> nat) \<Rightarrow> (bytes \<times> 'v) multiset \<Rightarrow> nat list \<Rightarrow> nat list \<Rightarrow> bool" where
  "reach_inv capacity s ext ins lru use \<longleftrightarrow>
     cache_inv ext lru use s \<and> account s = ins \<and> lc_capacity s = capacity \<and> (capacity = 0 \<longrightarrow> lru = [] \<and> use = [])"

text \<open>The entry a key leads to.\<close>

definition cached :: "'v LRUCache \<Rightarrow> bytes \<Rightarrow> u32 \<Rightarrow> nat option" where
  "cached s key hash = (case HandleTable_Lookup (lc_heap s) key hash (lc_table s) of Some r \<Rightarrow> r | None \<Rightarrow> None)"

lemma inv_table_ok: "cache_inv ext lru use s \<Longrightarrow> table_ok (lc_heap s) (lc_table s) (set lru \<union> set use)"
  by (simp add: cache_inv_def inv_table_def)

lemma cached_iff:
  assumes "cache_inv ext lru use s"
  shows "cached s key hash = Some e \<longleftrightarrow> e \<in> set lru \<union> set use \<and> kh (lc_heap s) e = Some (key, hash)"
proof -
  note t = inv_table_ok [OF assms]
  obtain r where r: "HandleTable_Lookup (lc_heap s) key hash (lc_table s) = Some r"
    "case r of None \<Rightarrow> \<forall>e\<in>set lru \<union> set use. kh (lc_heap s) e \<noteq> Some (key, hash)
     | Some e \<Rightarrow> e \<in> set lru \<union> set use \<and> kh (lc_heap s) e = Some (key, hash)"
    using HandleTable_Lookup_ok [OF t] by blast
  have "inj_on (kh (lc_heap s)) (set lru \<union> set use)" using t by (simp add: table_ok_def)
  then show ?thesis using r by (auto simp: cached_def inj_on_def split: option.splits)
qed

lemma LRUCache_Lookup_eq:
  assumes "cache_inv ext lru use s"
  shows "LRUCache_Lookup key hash s =
    (case cached s key hash of None \<Rightarrow> Some (None, s) | Some e \<Rightarrow> map_option (Pair (Some e)) (LRU_Ref e s))"
  using HandleTable_Lookup_ok [OF inv_table_ok [OF assms], of key hash]
  by (auto simp: LRUCache_Lookup_def cached_def split: option.splits Option.bind_split)

text \<open>Each operation returns and keeps the invariant; the lists it leaves.\<close>

lemma reach_insert:
  assumes "reach_inv capacity s ext ins lru use" "lc_heap s e = None"
  shows "\<exists>s' lru' use'. LRUCache_Insert e key hash v c s = Some (e, s') \<and>
    reach_inv capacity s' (ext(e := 1)) (add_mset (key, v) ins) lru' use' \<and>
    (lc_usage s' \<le> capacity \<or> lru' = []) \<and> (0 < capacity \<longrightarrow> e \<in> set use') \<and>
    desc (lc_heap s') e = Some (key, hash, v, c) \<and>
    set lru' \<subseteq> set lru \<and> set use' \<subseteq> insert e (set use) \<and>
    (\<forall>a\<in>set lru \<union> set use. kh (lc_heap s) a \<noteq> Some (key, hash) \<longrightarrow>
       (0 < ext a \<longrightarrow> a \<in> set use') \<and> (a \<in> set lru' \<union> set use' \<longrightarrow> desc (lc_heap s') a = desc (lc_heap s) a)) \<and>
    (\<forall>a. kh (lc_heap s) a = Some (key, hash) \<longrightarrow> a \<notin> set lru' \<union> set use')"
proof (cases "capacity = 0")
  case True
  then have z: "lru = []" "use = []" "lc_capacity s = 0" "cache_inv ext lru use s" "account s = ins"
    using assms(1) by (auto simp: reach_inv_def)
  let ?h = "\<lparr>h_value = v, h_charge = c, h_key = key, h_in_cache = False, h_refs = 1, h_hash = hash\<rparr>"
  let ?s = "set_handle e (Some ?h) s"
  have i: "LRUCache_Insert e key hash v c s = Some (e, ?s)" "cache_inv (ext(e := 1)) [] [] ?s"
    using LRUCache_Insert_zero [OF z(4) assms(2) z(3) z(1) refl] z by auto
  have a: "account ?s = add_mset (key, v) ins"
    using account_new [OF inv_finite [OF z(4)] assms(2), of ?s ?h] z(5) by (simp add: kv_of_def)
  have "lc_usage ?s \<le> 0" using i(2) by (simp add: cache_inv_def inv_table_def)
  with i a True z show ?thesis by (intro exI [of _ ?s] exI [of _ "[]"] exI [of _ "[]"]) (simp add: reach_inv_def)
next
  case False
  have inv: "cache_inv ext lru use s" "account s = ins" and cap: "lc_capacity s = capacity" "0 < lc_capacity s"
    using assms(1) False by (auto simp: reach_inv_def word_gt_0)
  note fin = inv_finite [OF inv(1)]
  let ?h = "\<lparr>h_value = v, h_charge = c, h_key = key, h_in_cache = True, h_refs = 2, h_hash = hash\<rparr>"
  obtain s1 s' old n where r: "LRUCache_Insert e key hash v c s = Some (e, s')"
    and i1: "cache_inv (ext(e := 1)) (without old lru) (without old use @ [e]) s1"
    and old: "case old of
       None \<Rightarrow> (\<forall>a\<in>set lru \<union> set use. kh (lc_heap s) a \<noteq> Some (key, hash)) \<and>
         lc_heap s1 = (lc_heap s)(e \<mapsto> ?h) \<and> lc_deleted s1 = lc_deleted s
     | Some a \<Rightarrow> a \<in> set lru \<union> set use \<and> kh (lc_heap s) a = Some (key, hash) \<and> a \<noteq> e \<and>
         (\<exists>h. lc_heap s a = Some h \<and>
           lc_heap s1 = (lc_heap s)(e \<mapsto> ?h,
             a := if a \<in> set lru then None else Some (h\<lparr>h_in_cache := False, h_refs := ext a\<rparr>)) \<and>
           lc_deleted s1 = lc_deleted s @ (if a \<in> set lru then [(h_key h, h_value h)] else []))"
    and c1: "lc_capacity s1 = lc_capacity s"
    and i2: "cache_inv (ext(e := 1)) (drop n (without old lru)) (without old use @ [e]) s'"
    and ev: "evicted n (without old lru) s1 s'" and u: "lc_usage s' \<le> lc_capacity s' \<or> drop n (without old lru) = []"
    using LRUCache_Insert_ok [OF inv(1) assms(2) cap(2)] by blast
  let ?lru = "drop n (without old lru)" and ?use = "without old use @ [e]"
  have d: "distinct lru" "distinct use" "set lru \<inter> set use = {}"
    using inv_distinct [OF inv(1) [unfolded cache_inv_def]] by auto
  have e: "e \<notin> set lru" "e \<notin> set use" using inv_dom [OF inv(1)] assms(2) by auto
  have acc: "account s1 = add_mset (key, v) ins"
  proof (cases old)
    case None
    then show ?thesis using account_new [OF fin assms(2), of s1 ?h] old inv(2) by (simp add: kv_of_def)
  next
    case (Some a)
    then obtain h where h: "lc_heap s a = Some h" "a \<noteq> e"
      "lc_heap s1 = (lc_heap s)(e \<mapsto> ?h, a := if a \<in> set lru then None else Some (h\<lparr>h_in_cache := False, h_refs := ext a\<rparr>))"
      "lc_deleted s1 = lc_deleted s @ (if a \<in> set lru then [(h_key h, h_value h)] else [])" using old by auto
    let ?s = "set_handle e (Some ?h) s"
    have "account ?s = add_mset (key, v) ins"
      using account_new [OF fin assms(2), of ?s ?h] inv(2) by (simp add: kv_of_def)
    moreover have "account s1 = account ?s"
      by (rule account_change [of ?s a h]) (use h fin in \<open>auto simp: kv_of_def\<close>)
    ultimately show ?thesis by simp
  qed
  have "account s' = account s1"
    by (rule account_evicted [OF inv_finite [OF i1] ev inv_distinct_lru [OF i1]]) (use inv_dom [OF i1] in auto)
  with acc i2 c1 cap ev False have ri: "reach_inv capacity s' (ext(e := 1)) (add_mset (key, v) ins) ?lru ?use"
    by (simp add: reach_inv_def evicted_def)
  have sub: "set ?lru \<subseteq> set lru" "set ?use \<subseteq> insert e (set use)" "set (take n (without old lru)) \<subseteq> set lru"
    using set_without_subset [of old lru] set_without_subset [of old use]
      set_drop_subset [of n "without old lru"] set_take_subset [of n "without old lru"] by auto
  have keep: "a \<noteq> e \<Longrightarrow> old \<noteq> Some a \<Longrightarrow> lc_heap s1 a = lc_heap s a" for a
    using old by (cases old) auto
  have new: "lc_heap s1 e = Some ?h" using old by (cases old) auto
  have "desc (lc_heap s') e = desc (lc_heap s1) e" using ev sub(3) e by (auto simp: evicted_def desc_def)
  then have de: "desc (lc_heap s') e = Some (key, hash, v, c)" using new by simp
  have other: "(0 < ext a \<longrightarrow> a \<in> set ?use) \<and> (a \<in> set ?lru \<union> set ?use \<longrightarrow> desc (lc_heap s') a = desc (lc_heap s) a)"
    if "a \<in> set lru \<union> set use" "kh (lc_heap s) a \<noteq> Some (key, hash)" for a
  proof -
    have o: "old \<noteq> Some a" "a \<noteq> e" using old that e by (auto split: option.splits)
    have "a \<in> set use" if "0 < ext a"
      using inv_entry [OF inv(1) [unfolded cache_inv_def], of a] that \<open>a \<in> set lru \<union> set use\<close>
      by (auto simp: entry_ok_def split: option.splits if_splits)
    then have use: "0 < ext a \<longrightarrow> a \<in> set ?use" using o(1) by (auto simp: set_without [OF d(2)] split: option.split)
    have dj: "set (take n (without old lru)) \<inter> set ?lru = {}"
      by (rule set_take_disj_set_drop_if_distinct [OF inv_distinct_lru [OF i1]]) simp
    have dj': "set (take n (without old lru)) \<inter> set ?use = {}" using sub(2,3) d(3) e(1) by blast
    have "a \<notin> set (take n (without old lru))" if "a \<in> set ?lru \<union> set ?use"
      using that dj dj' by blast
    then have "a \<in> set ?lru \<union> set ?use \<longrightarrow> desc (lc_heap s') a = desc (lc_heap s) a"
      using ev keep [OF o(2,1)] by (auto simp: evicted_def desc_def)
    with use show ?thesis by blast
  qed
  have gone: "a \<notin> set ?lru \<union> set ?use" if "kh (lc_heap s) a = Some (key, hash)" for a
  proof (cases "a \<in> set lru \<union> set use")
    case True
    have "inj_on (kh (lc_heap s)) (set lru \<union> set use)" using inv_table_ok [OF inv(1)] by (simp add: table_ok_def)
    then have "old = Some a" using old that True by (auto simp: inj_on_def split: option.splits)
    then have "a \<notin> set (without old lru)" "a \<notin> set (without old use)" "a \<noteq> e"
      using d True e by (auto simp: set_without)
    then show ?thesis using in_set_dropD [of a n "without old lru"] by auto
  next
    case False
    moreover have "a \<noteq> e" using that assms(2) by (auto simp: kh_def)
    ultimately show ?thesis using sub by auto
  qed
  show ?thesis
  proof (rule exI [of _ s'], rule exI [of _ ?lru], rule exI [of _ ?use], intro conjI ballI allI impI)
    show "lc_usage s' \<le> capacity \<or> ?lru = []" using u ev c1 cap by (simp add: evicted_def)
    show "a \<in> set ?use" if "a \<in> set lru \<union> set use" "kh (lc_heap s) a \<noteq> Some (key, hash)" "0 < ext a" for a
      using other [OF that(1,2)] that(3) by blast
    show "desc (lc_heap s') a = desc (lc_heap s) a"
      if "a \<in> set lru \<union> set use" "kh (lc_heap s) a \<noteq> Some (key, hash)" "a \<in> set ?lru \<union> set ?use" for a
      using other [OF that(1,2)] that(3) by blast
  qed (use r ri de gone sub(1,2) in simp_all)
qed

lemma reach_lookup:
  assumes "reach_inv capacity s ext ins lru use" "cached s key hash = Some e"
  shows "\<exists>s' lru' use'. LRUCache_Lookup key hash s = Some (Some e, s') \<and>
    reach_inv capacity s' (ext(e := ext e + 1)) ins lru' use' \<and> set lru' \<union> set use' = set lru \<union> set use \<and>
    desc (lc_heap s') = desc (lc_heap s)"
proof -
  have inv: "cache_inv ext lru use s" using assms(1) by (simp add: reach_inv_def)
  have e: "e \<in> set lru \<union> set use" using cached_iff [OF inv] assms(2) by blast
  then obtain h where h: "lc_heap s e = Some h" using inv_dom [OF inv] by blast
  let ?lru = "remove1 e lru" and ?use = "if e \<in> set lru then use @ [e] else use"
  obtain s' where s': "LRU_Ref e s = Some s'" "cache_inv (ext(e := ext e + 1)) ?lru ?use s'"
    "lc_heap s' = (lc_heap s)(e := Some (h\<lparr>h_refs := h_refs h + 1\<rparr>))" "lc_capacity s' = lc_capacity s"
    "lc_deleted s' = lc_deleted s" using LRU_Ref_ok [OF inv h] by blast
  have "account s' = account s"
    by (rule account_change [OF inv_finite [OF inv] h s'(3)]) (simp add: s'(5) kv_of_def)
  then have "reach_inv capacity s' (ext(e := ext e + 1)) ins ?lru ?use"
    using s'(2,4) assms(1) e by (auto simp: reach_inv_def)
  moreover have "set ?lru \<union> set ?use = set lru \<union> set use" using inv_distinct_lru [OF inv] by auto
  moreover have "desc (lc_heap s') = desc (lc_heap s)" using h by (auto simp: s'(3) desc_fun_upd)
  moreover have "LRUCache_Lookup key hash s = Some (Some e, s')"
    using LRUCache_Lookup_eq [OF inv] assms(2) s'(1) by simp
  ultimately show ?thesis by blast
qed

lemma reach_release:
  assumes "reach_inv capacity s ext ins lru use" "0 < ext e"
  shows "\<exists>s' lru' use'. LRUCache_Release e s = Some s' \<and> reach_inv capacity s' (ext(e := ext e - 1)) ins lru' use' \<and>
    set lru' \<union> set use' = set lru \<union> set use \<and> (\<forall>a\<in>set lru \<union> set use. desc (lc_heap s') a = desc (lc_heap s) a)"
proof -
  have inv: "cache_inv ext lru use s" using assms(1) by (simp add: reach_inv_def)
  let ?lru = "release_lru ext lru use e" and ?use = "release_use ext use e"
  obtain s' h where s': "LRU_Unref e s = Some s'" "lc_heap s e = Some h" "cache_inv (ext(e := ext e - 1)) ?lru ?use s'"
    "lc_heap s' = (lc_heap s)(e := if h_refs h = 1 then None else Some (h\<lparr>h_refs := h_refs h - 1\<rparr>))"
    "h_refs h = 1 \<longleftrightarrow> ext e = 1 \<and> e \<notin> set use" "lc_capacity s' = lc_capacity s"
    "lc_deleted s' = lc_deleted s @ (if h_refs h = 1 then [(h_key h, h_value h)] else [])"
    using LRU_Unref_ok [OF inv assms(2)] by blast
  have "account s' = account s"
    by (rule account_change [OF inv_finite [OF inv] s'(2,4)]) (use s'(7) in \<open>simp add: kv_of_def\<close>)
  then have "reach_inv capacity s' (ext(e := ext e - 1)) ins ?lru ?use"
    using s'(3,6) assms(1) by (auto simp: reach_inv_def release_lru_def release_use_def)
  moreover have d: "distinct use" "set lru \<inter> set use = {}" using inv_distinct [OF inv [unfolded cache_inv_def]] by auto
  then have "set ?lru \<union> set ?use = set lru \<union> set use" by (auto simp: release_lru_def release_use_def)
  moreover have "e \<notin> set lru"
    using inv_entry [OF inv [unfolded cache_inv_def], of e] assms(2) by (auto simp: entry_ok_def split: option.splits if_splits)
  then have "\<forall>a\<in>set lru \<union> set use. desc (lc_heap s') a = desc (lc_heap s) a" using s'(2,5) by (auto simp: s'(4) desc_fun_upd)
  ultimately show ?thesis using s'(1) by (auto simp: LRUCache_Release_def)
qed

lemma reach_erase:
  assumes "reach_inv capacity s ext ins lru use"
  shows "\<exists>s' lru' use'. LRUCache_Erase key hash s = Some s' \<and> reach_inv capacity s' ext ins lru' use' \<and>
    set lru' \<union> set use' = {a \<in> set lru \<union> set use. kh (lc_heap s) a \<noteq> Some (key, hash)} \<and>
    (\<forall>a\<in>set lru' \<union> set use'. desc (lc_heap s') a = desc (lc_heap s) a)"
proof -
  have inv: "cache_inv ext lru use s" using assms by (simp add: reach_inv_def)
  have d: "distinct lru" "distinct use" using inv_distinct [OF inv [unfolded cache_inv_def]] by auto
  show ?thesis
  proof (cases "\<exists>e\<in>set lru \<union> set use. kh (lc_heap s) e = Some (key, hash)")
    case False
    then have "LRUCache_Erase key hash s = Some s" using LRUCache_Erase_ok [OF inv, of key hash] by auto
    with False assms show ?thesis by (intro exI [of _ s] exI [of _ lru] exI [of _ use]) auto
  next
    case True
    then obtain s' e h where s': "LRUCache_Erase key hash s = Some s'" "lc_capacity s' = lc_capacity s"
      "e \<in> set lru \<union> set use" "lc_heap s e = Some h" "kh (lc_heap s) e = Some (key, hash)"
      "cache_inv ext (remove1 e lru) (remove1 e use) s'"
      "lc_heap s' = (lc_heap s)(e := if e \<in> set lru then None else Some (h\<lparr>h_in_cache := False, h_refs := ext e\<rparr>))"
      "lc_deleted s' = lc_deleted s @ (if e \<in> set lru then [(h_key h, h_value h)] else [])"
      using LRUCache_Erase_ok [OF inv, of key hash] by (simp only: if_True) blast
    have "account s' = account s"
      by (rule account_change [OF inv_finite [OF inv] s'(4,7)]) (use s'(8) in \<open>simp add: kv_of_def\<close>)
    then have "reach_inv capacity s' ext ins (remove1 e lru) (remove1 e use)"
      using s'(2,6) assms by (auto simp: reach_inv_def)
    moreover have "inj_on (kh (lc_heap s)) (set lru \<union> set use)" using inv_table_ok [OF inv] by (simp add: table_ok_def)
    then have "set (remove1 e lru) \<union> set (remove1 e use) = {a \<in> set lru \<union> set use. kh (lc_heap s) a \<noteq> Some (key, hash)}"
      using d s'(3,5) by (auto simp: inj_on_def)
    moreover have "\<forall>a\<in>set (remove1 e lru) \<union> set (remove1 e use). desc (lc_heap s') a = desc (lc_heap s) a"
      using d by (auto simp: s'(7) desc_fun_upd)
    ultimately show ?thesis using s'(1) by blast
  qed
qed

lemma reach_prune:
  assumes "reach_inv capacity s ext ins lru use"
  shows "\<exists>s'. LRUCache_Prune s = Some s' \<and> reach_inv capacity s' ext ins [] use \<and>
    (\<forall>a\<in>set use. desc (lc_heap s') a = desc (lc_heap s) a)"
proof -
  have inv: "cache_inv ext lru use s" using assms by (simp add: reach_inv_def)
  obtain s' where s': "LRUCache_Prune s = Some s'" "cache_inv ext [] use s'" "evicted (length lru) lru s s'"
    using LRUCache_Prune_ok [OF inv] by blast
  have "account s' = account s"
    by (rule account_evicted [OF inv_finite [OF inv] s'(3) inv_distinct_lru [OF inv]]) (use inv_dom [OF inv] in auto)
  then have "reach_inv capacity s' ext ins [] use" using s' assms by (auto simp: reach_inv_def evicted_def)
  moreover have "\<forall>a\<in>set use. desc (lc_heap s') a = desc (lc_heap s) a"
    using s'(3) inv_distinct [OF inv [unfolded cache_inv_def]] by (auto simp: evicted_def desc_def)
  ultimately show ?thesis using s'(1) by blast
qed

lemma cache_reach_inv: "cache_reach capacity s ext ins \<Longrightarrow> \<exists>lru use. reach_inv capacity s ext ins lru use"
proof (induction rule: cache_reach.induct)
  case make
  have "cache_inv (\<lambda>_. 0) [] [] (LRUCache_make capacity)" by (rule cache_inv_make)
  then show ?case
    by (intro exI [of _ "[]"]) (simp add: reach_inv_def account_def LRUCache_make_def)
next
  case (insert s ext ins e key hash v c e' s')
  then obtain lru use where "reach_inv capacity s ext ins lru use" by blast
  from reach_insert [OF this insert.hyps(2), of key hash v c] show ?case using insert.hyps(3) unfolding fun_upd_def by auto
next
  case (lookup_none s ext ins key hash s')
  then obtain lru use where i: "reach_inv capacity s ext ins lru use" by blast
  then have "cache_inv ext lru use s" by (simp add: reach_inv_def)
  then have "s' = s"
    using lookup_none.hyps(2) LRUCache_Lookup_eq [of ext lru use s key hash] by (auto split: option.splits)
  with i show ?case by blast
next
  case (lookup_some s ext ins key hash e s')
  then obtain lru use where i: "reach_inv capacity s ext ins lru use" by blast
  then have "cache_inv ext lru use s" by (simp add: reach_inv_def)
  then have "cached s key hash = Some e"
    using lookup_some.hyps(2) LRUCache_Lookup_eq [of ext lru use s key hash] by (auto split: option.splits)
  from reach_lookup [OF i this] show ?case using lookup_some.hyps(2) unfolding fun_upd_def by auto
next
  case (release s ext ins e s')
  then obtain lru use where "reach_inv capacity s ext ins lru use" by blast
  from reach_release [OF this release.hyps(2)] show ?case using release.hyps(3) unfolding fun_upd_def by auto
next
  case (erase s ext ins key hash s')
  then obtain lru use where "reach_inv capacity s ext ins lru use" by blast
  from reach_erase [OF this, of key hash] show ?case using erase.hyps(2) by auto
next
  case (prune s ext ins s')
  then obtain lru use where "reach_inv capacity s ext ins lru use" by blast
  from reach_prune [OF this] show ?case using prune.hyps(2) by auto
qed

section \<open>The properties\<close>



text \<open>The cache as a map from keys to values.\<close>

definition cval :: "'v LRUCache \<Rightarrow> bytes \<Rightarrow> u32 \<Rightarrow> 'v option" where
  "cval s key hash = (case cached s key hash of None \<Rightarrow> None | Some e \<Rightarrow> map_option h_value (lc_heap s e))"

lemma kh_desc: "kh heap e = map_option (\<lambda>(k, h, v, c). (k, h)) (desc heap e)"
  by (simp add: kh_def desc_def option.map_comp comp_def)

lemma cval_iff:
  assumes "reach_inv capacity s ext ins lru use"
  shows "cval s key hash = Some v \<longleftrightarrow> (\<exists>e\<in>set lru \<union> set use. \<exists>c. desc (lc_heap s) e = Some (key, hash, v, c))"
proof -
  have inv: "cache_inv ext lru use s" using assms by (simp add: reach_inv_def)
  have "cval s key hash = Some v \<longleftrightarrow> (\<exists>e. cached s key hash = Some e \<and> (\<exists>h. lc_heap s e = Some h \<and> h_value h = v))"
    by (auto simp: cval_def split: option.splits)
  then show ?thesis unfolding cached_iff [OF inv] by (fastforce simp: desc_def kh_def)
qed

lemma cval_cong:
  assumes "reach_inv capacity s ext ins lru use" "reach_inv capacity s' ext' ins' lru' use'"
    and "\<And>e v c. e \<in> set lru' \<union> set use' \<and> desc (lc_heap s') e = Some (key, hash, v, c) \<longleftrightarrow>
       e \<in> set lru \<union> set use \<and> desc (lc_heap s) e = Some (key, hash, v, c)"
  shows "cval s' key hash = cval s key hash"
proof -
  have "cval s' key hash = Some v \<longleftrightarrow> cval s key hash = Some v" for v
    unfolding cval_iff [OF assms(1)] cval_iff [OF assms(2)] using assms(3) by blast
  then show ?thesis by (metis option.exhaust)
qed

lemma cval_None:
  assumes "reach_inv capacity s ext ins lru use" "\<And>e. e \<in> set lru \<union> set use \<Longrightarrow> kh (lc_heap s) e \<noteq> Some (key, hash)"
  shows "cval s key hash = None"
proof (rule ccontr)
  assume "cval s key hash \<noteq> None"
  then obtain v where "cval s key hash = Some v" by blast
  then obtain e c where "e \<in> set lru \<union> set use" "desc (lc_heap s) e = Some (key, hash, v, c)"
    unfolding cval_iff [OF assms(1)] by blast
  with assms(2) [of e] show False by (simp add: kh_desc)
qed

lemma reach_inv_inv: "reach_inv capacity s ext ins lru use \<Longrightarrow> cache_inv ext lru use s"
  by (simp add: reach_inv_def)

lemma ext_iff:
  assumes "reach_inv capacity s ext ins lru use" "a \<in> set lru \<union> set use"
  shows "a \<in> set use \<longleftrightarrow> 0 < ext a"
  using inv_entry [OF reach_inv_inv [OF assms(1), unfolded cache_inv_def], of a] assms(2)
    inv_distinct [OF reach_inv_inv [OF assms(1), unfolded cache_inv_def]]
  by (auto simp: entry_ok_def split: option.splits if_splits)

lemma cval_lookup:
  assumes r: "reach_inv capacity s ext ins lru use"
  shows "\<exists>r s'. LRUCache_Lookup key hash s = Some (r, s') \<and> cval s' = cval s \<and>
     (case r of None \<Rightarrow> cval s key hash = None
      | Some e \<Rightarrow> \<exists>h. lc_heap s' e = Some h \<and> h_key h = key \<and> cval s key hash = Some (h_value h))"
proof (cases "cached s key hash")
  case None
  then show ?thesis using LRUCache_Lookup_eq [OF reach_inv_inv [OF r]] by (simp add: cval_def)
next
  case (Some a)
  obtain s' lru' use' where s': "LRUCache_Lookup key hash s = Some (Some a, s')"
    "reach_inv capacity s' (ext(a := ext a + 1)) ins lru' use'" "set lru' \<union> set use' = set lru \<union> set use"
    "desc (lc_heap s') = desc (lc_heap s)" using reach_lookup [OF r Some] by blast
  have "cval s' k' h' = cval s k' h'" for k' h' by (rule cval_cong [OF r s'(2)]) (simp add: s'(3,4))
  moreover obtain h where h: "lc_heap s a = Some h" "h_key h = key" using Some cached_iff [OF reach_inv_inv [OF r]] by (auto simp: kh_def)
  moreover obtain h' where "lc_heap s' a = Some h'" "h_key h' = key" "h_value h' = h_value h"
    using fun_cong [OF s'(4), of a] h by (auto simp: desc_def)
  ultimately show ?thesis using s'(1) Some by (auto simp: cval_def fun_eq_iff)
qed

lemma cval_insert:
  assumes r: "reach_inv capacity s ext ins lru use" and new: "lc_heap s e = None \<and> 0 < capacity"
  shows "\<exists>s'. LRUCache_Insert e key hash v c s = Some (e, s') \<and> cval s' key hash = Some v \<and>
        (\<forall>k' h'. (k', h') \<noteq> (key, hash) \<longrightarrow> cval s' k' h' \<in> {None, cval s k' h'} \<and>
           (\<forall>a. cached s k' h' = Some a \<and> 0 < ext a \<longrightarrow> cval s' k' h' = cval s k' h'))"
proof -
  note inv = reach_inv_inv [OF r]
  obtain s' lru' use' where s': "LRUCache_Insert e key hash v c s = Some (e, s')"
    and r': "reach_inv capacity s' (ext(e := 1)) (add_mset (key, v) ins) lru' use'"
    and e: "e \<in> set use'" "desc (lc_heap s') e = Some (key, hash, v, c)"
    and sub: "set lru' \<subseteq> set lru" "set use' \<subseteq> insert e (set use)"
    and keep: "\<forall>a\<in>set lru \<union> set use. kh (lc_heap s) a \<noteq> Some (key, hash) \<longrightarrow>
      (0 < ext a \<longrightarrow> a \<in> set use') \<and> (a \<in> set lru' \<union> set use' \<longrightarrow> desc (lc_heap s') a = desc (lc_heap s) a)"
    and gone: "\<forall>a. kh (lc_heap s) a = Some (key, hash) \<longrightarrow> a \<notin> set lru' \<union> set use'"
    using reach_insert [OF r conjunct1 [OF new], of key hash v c] conjunct2 [OF new] by blast
  have "cval s' key hash = Some v" using cval_iff [OF r'] e by blast
  moreover have "cval s' k' h' \<in> {None, cval s k' h'} \<and>
      (\<forall>a. cached s k' h' = Some a \<and> 0 < ext a \<longrightarrow> cval s' k' h' = cval s k' h')" if ne: "(k', h') \<noteq> (key, hash)" for k' h'
  proof -
    have orig: "a \<in> set lru \<union> set use \<and> desc (lc_heap s) a = Some (k', h', w, d)"
      if "a \<in> set lru' \<union> set use'" "desc (lc_heap s') a = Some (k', h', w, d)" for a w d
    proof -
      have "a \<noteq> e" using that(2) e(2) ne by auto
      then have a: "a \<in> set lru \<union> set use" using that(1) sub by auto
      moreover have "kh (lc_heap s) a \<noteq> Some (key, hash)" using gone that(1) by blast
      ultimately show ?thesis using keep that by auto
    qed
    then have "cval s' k' h' = None \<or> cval s' k' h' = cval s k' h'"
      using cval_iff [OF r', of k' h'] cval_iff [OF r, of k' h'] by (cases "cval s' k' h'") (simp, metis)
    moreover have "cval s' k' h' = cval s k' h'" if "cached s k' h' = Some a" "0 < ext a" for a
    proof -
      have a: "a \<in> set lru \<union> set use" "kh (lc_heap s) a = Some (k', h')" using that(1) cached_iff [OF inv] by auto
      then have k: "a \<in> set use'" "desc (lc_heap s') a = desc (lc_heap s) a" using keep ne that(2) by auto
      obtain w d where w: "desc (lc_heap s) a = Some (k', h', w, d)" using a(2) by (auto simp: kh_def desc_def)
      have "cval s' k' h' = Some w" using cval_iff [OF r'] k w by auto
      moreover have "cval s k' h' = Some w" using cval_iff [OF r] a(1) w by auto
      ultimately show ?thesis by simp
    qed
    ultimately show ?thesis by auto
  qed
  ultimately show ?thesis using s' by blast
qed

lemma cval_erase:
  assumes r: "reach_inv capacity s ext ins lru use"
  shows "\<exists>s'. LRUCache_Erase key hash s = Some s' \<and>
     (\<forall>k' h'. cval s' k' h' = (if (k', h') = (key, hash) then None else cval s k' h'))"
proof -
  note inv = reach_inv_inv [OF r]
  obtain s' lru' use' where s': "LRUCache_Erase key hash s = Some s'" "reach_inv capacity s' ext ins lru' use'"
    "set lru' \<union> set use' = {a \<in> set lru \<union> set use. kh (lc_heap s) a \<noteq> Some (key, hash)}"
    "\<forall>a\<in>set lru' \<union> set use'. desc (lc_heap s') a = desc (lc_heap s) a"
    using reach_erase [OF r, of key hash] by blast
  have "cval s' key hash = None"
    by (rule cval_None [OF s'(2)]) (use s'(3,4) in \<open>auto simp: kh_desc\<close>)
  moreover have "cval s' k' h' = cval s k' h'" if "(k', h') \<noteq> (key, hash)" for k' h'
    by (rule cval_cong [OF r s'(2)]) (use s'(3,4) that in \<open>auto simp: kh_desc\<close>)
  ultimately show ?thesis using s'(1) by auto
qed

lemma cval_release:
  assumes r: "reach_inv capacity s ext ins lru use" and e: "0 < ext e"
  shows "\<exists>s'. LRUCache_Release e s = Some s' \<and> cval s' = cval s"
proof -
  note inv = reach_inv_inv [OF r]
  obtain s' lru' use' where s': "LRUCache_Release e s = Some s'" "reach_inv capacity s' (ext(e := ext e - 1)) ins lru' use'"
    "set lru' \<union> set use' = set lru \<union> set use" "\<forall>a\<in>set lru \<union> set use. desc (lc_heap s') a = desc (lc_heap s) a"
    using reach_release [OF r e] by blast
  have "cval s' k' h' = cval s k' h'" for k' h' by (rule cval_cong [OF r s'(2)]) (use s'(3,4) in auto)
  then show ?thesis using s'(1) by (auto simp: fun_eq_iff)
qed

lemma cval_prune:
  assumes r: "reach_inv capacity s ext ins lru use"
  shows "\<exists>s'. LRUCache_Prune s = Some s' \<and>
     (\<forall>k' h'. cval s' k' h' = (case cached s k' h' of Some a \<Rightarrow> if 0 < ext a then cval s k' h' else None | None \<Rightarrow> None))"
proof -
  note inv = reach_inv_inv [OF r]
  obtain s' where s': "LRUCache_Prune s = Some s'" "reach_inv capacity s' ext ins [] use"
    "\<forall>a\<in>set use. desc (lc_heap s') a = desc (lc_heap s) a" using reach_prune [OF r] by blast
  have "cval s' k' h' = (case cached s k' h' of Some a \<Rightarrow> if 0 < ext a then cval s k' h' else None | None \<Rightarrow> None)" for k' h'
  proof (cases "\<exists>a\<in>set use. kh (lc_heap s) a = Some (k', h')")
    case True
    then obtain a where a: "cached s k' h' = Some a" "a \<in> set use" using cached_iff [OF inv] by blast
    have u: "b \<in> set use" if "b \<in> set lru \<union> set use" "desc (lc_heap s) b = Some (k', h', w, d)" for b w d
    proof -
      have "cached s k' h' = Some b" using cached_iff [OF inv] that by (simp add: kh_desc)
      with a show ?thesis by simp
    qed
    have "cval s' k' h' = cval s k' h'"
    proof (rule cval_cong [OF r s'(2)])
      show "b \<in> set [] \<union> set use \<and> desc (lc_heap s') b = Some (k', h', w, d) \<longleftrightarrow>
          b \<in> set lru \<union> set use \<and> desc (lc_heap s) b = Some (k', h', w, d)" for b w d
        using u [of b w d] s'(3) by auto
    qed
    then show ?thesis using a ext_iff [OF r] by auto
  next
    case False
    then have "cval s' k' h' = None" by (intro cval_None [OF s'(2)]) (use s'(3) in \<open>auto simp: kh_desc\<close>)
    moreover have "\<not> 0 < ext a" if "cached s k' h' = Some a" for a
      using that False cached_iff [OF inv] ext_iff [OF r] by blast
    ultimately show ?thesis by (auto split: option.splits)
  qed
  then show ?thesis using s'(1) by blast
qed



section \<open>The sharded cache\<close>

lemma Shard_less: "Shard hash < kNumShards"
proof -
  have "unat (drop_bit 28 hash) = unat hash div 2 ^ 28" by (rule unat_drop_bit)
  moreover have "unat hash < 2 ^ 32" using unsigned_less [of hash] by simp
  ultimately show ?thesis by (simp add: Shard_def kNumShardBits_def kNumShards_def)
qed

text \<open>Each shard is in a state its clients can reach.\<close>

definition sharded_ok :: "u64 \<Rightarrow> 'v ShardedLRUCache \<Rightarrow> (nat \<Rightarrow> nat \<Rightarrow> nat) \<Rightarrow> (nat \<Rightarrow> (bytes \<times> 'v) multiset) \<Rightarrow> bool" where
  "sharded_ok per_shard c ext ins \<longleftrightarrow>
     length (sc_shard c) = kNumShards \<and> (\<forall>i<kNumShards. cache_reach per_shard (sc_shard c ! i) (ext i) (ins i))"

lemma sharded_ok_make:
  "sharded_ok ((capacity + 15) div 16) (ShardedLRUCache_make capacity) (\<lambda>_ _. 0) (\<lambda>_. {#})"
  by (auto intro: cache_reach.make simp: sharded_ok_def ShardedLRUCache_make_def Let_def kNumShards_def kNumShardBits_def)

lemma sharded_ok_shard: "sharded_ok p c ext ins \<Longrightarrow> cache_reach p (sc_shard c ! Shard h) (ext (Shard h)) (ins (Shard h))"
  by (simp add: sharded_ok_def Shard_less)

lemma sharded_ok_update:
  assumes "sharded_ok p c ext ins" "cache_reach p s x m"
  shows "sharded_ok p (c\<lparr>sc_shard := (sc_shard c)[Shard h := s]\<rparr>) (ext(Shard h := x)) (ins(Shard h := m))"
  using assms by (simp add: sharded_ok_def nth_list_update)

text \<open>What was inserted is found again, through the shard its hash selects.\<close>

lemma Sharded_Insert_Lookup:
  assumes "sharded_ok p c ext ins" "0 < p" "lc_heap (sc_shard c ! Shard (HashSlice key)) a = None"
  shows "\<exists>h c' h' c''. Sharded_Insert a key v charge c = Some (h, c') \<and> sharded_ok p c'
      (ext(Shard (HashSlice key) := (ext (Shard (HashSlice key)))(a := 1)))
      (ins(Shard (HashSlice key) := add_mset (key, v) (ins (Shard (HashSlice key))))) \<and>
    Sharded_Lookup key c' = Some (Some h', c'') \<and> Sharded_Value h' c'' = Some v"
proof -
  let ?h = "HashSlice key"
  let ?i = "Shard ?h"
  note r = sharded_ok_shard [OF assms(1), of ?h]
  obtain lru use where ri: "reach_inv p (sc_shard c ! ?i) (ext ?i) (ins ?i) lru use" using cache_reach_inv [OF r] by blast
  obtain s where s: "LRUCache_Insert a key ?h v charge (sc_shard c ! ?i) = Some (a, s)" "cval s key ?h = Some v"
    using cval_insert [OF ri, of a key ?h v charge] assms(2,3) by blast
  note r' = cache_reach.insert [OF r assms(3) s(1)]
  obtain lru' use' where ri': "reach_inv p s ((ext ?i)(a := 1)) (add_mset (key, v) (ins ?i)) lru' use'"
    using cache_reach_inv [OF r'] by blast
  obtain e s' h where s': "LRUCache_Lookup key ?h s = Some (Some e, s')" "lc_heap s' e = Some h" "h_value h = v"
    using cval_lookup [OF ri', of key ?h] s(2) by (auto split: option.splits)
  let ?c = "c\<lparr>sc_shard := (sc_shard c)[?i := s]\<rparr>"
  have i: "?i < length (sc_shard c)" using assms(1) Shard_less by (simp add: sharded_ok_def)
  have "Sharded_Insert a key v charge c = Some ((?h, a), ?c)" using s(1) by (simp add: Sharded_Insert_def Let_def)
  moreover have "Sharded_Lookup key ?c = Some (Some (?h, e), ?c\<lparr>sc_shard := (sc_shard ?c)[?i := s']\<rparr>)"
    using s'(1) i by (simp add: Sharded_Lookup_def Let_def)
  moreover have "Sharded_Value (?h, e) (?c\<lparr>sc_shard := (sc_shard ?c)[?i := s']\<rparr>) = Some v"
    using s'(2,3) i by (simp add: Sharded_Value_def)
  ultimately show ?thesis using sharded_ok_update [OF assms(1) r', of ?h] by blast
qed

text \<open>The shards together hold what was asked for.\<close>

lemma sharded_capacity:
  fixes capacity :: u64
  assumes "unat capacity + 15 < 2 ^ 64"
  shows "unat capacity \<le> kNumShards * unat ((capacity + 15) div 16)"
proof -
  have "unat (capacity + 15) = unat capacity + 15" using assms by (simp add: unat_plus_if')
  then show ?thesis by (simp add: unat_div kNumShards_def kNumShardBits_def)
qed

end
