(* ===== verification/Cache_Interface.thy ===== *)
theory Cache_Interface
  imports Cache_Client
begin

text \<open>
  The cache as an interface (\<^verbatim>\<open>include/leveldb/cache.h\<close>): what tables and the table cache rely on, with
  the sharded cache as its implementation.
\<close>

text \<open>
  A client that only inserts what it would compute itself: whatever it finds is that.
  \<open>I k v\<close> says that \<open>v\<close> is right for \<open>k\<close>.
\<close>

definition agrees :: "('k \<Rightarrow> 'v option) \<Rightarrow> ('k \<Rightarrow> 'v \<Rightarrow> bool) \<Rightarrow> bool" where
  "agrees m I \<longleftrightarrow> (\<forall>k v. m k = Some v \<longrightarrow> I k v)"

section \<open>The contract\<close>

text \<open>
  \<open>inv c ext\<close> is a state in which \<open>ext\<close> counts the references clients hold on every entry; \<open>holds\<close> is the
  map the cache stands for.  An address is \<open>fresh\<close> if the allocator may give it for a new entry.
\<close>

locale value_cache =
  fixes inv :: "'c \<Rightarrow> ('e \<Rightarrow> nat) \<Rightarrow> bool"
    and holds :: "'c \<Rightarrow> bytes \<Rightarrow> 'v option"
    and fresh :: "nat \<Rightarrow> bytes \<Rightarrow> 'c \<Rightarrow> bool"
    and entry :: "'h \<Rightarrow> 'e"
    and lookup_op :: "bytes \<Rightarrow> 'c \<Rightarrow> ('h option \<times> 'c) option"
    and insert_op :: "nat \<Rightarrow> bytes \<Rightarrow> 'v \<Rightarrow> u64 \<Rightarrow> 'c \<Rightarrow> ('h \<times> 'c) option"
    and value_op :: "'h \<Rightarrow> 'c \<Rightarrow> 'v option"
    and release_op :: "'h \<Rightarrow> 'c \<Rightarrow> 'c option"
  assumes lookup_law: "inv c ext \<Longrightarrow> \<exists>r c'. lookup_op k c = Some (r, c') \<and> holds c' = holds c \<and>
      (case r of None \<Rightarrow> holds c k = None \<and> inv c' ext
       | Some h \<Rightarrow> \<exists>v. holds c k = Some v \<and> value_op h c' = Some v \<and> inv c' (ext(entry h := ext (entry h) + 1)))"
    and insert_law: "inv c ext \<Longrightarrow> fresh a k c \<Longrightarrow> \<exists>h c'. insert_op a k v charge c = Some (h, c') \<and>
      value_op h c' = Some v \<and> inv c' (ext(entry h := 1)) \<and> holds c' k = Some v \<and>
      (\<forall>k'. k' \<noteq> k \<longrightarrow> holds c' k' \<in> {None, holds c k'})"
    and release_law: "inv c ext \<Longrightarrow> 0 < ext (entry h) \<Longrightarrow> \<exists>c'. release_op h c = Some c' \<and> holds c' = holds c \<and>
      inv c' (ext(entry h := ext (entry h) - 1))"
begin

lemma lookup_agrees:
  assumes "inv c ext" "agrees (holds c) I"
  shows "\<exists>r c'. lookup_op k c = Some (r, c') \<and> agrees (holds c') I \<and>
    (case r of None \<Rightarrow> inv c' ext
     | Some h \<Rightarrow> \<exists>v. value_op h c' = Some v \<and> I k v \<and> inv c' (ext(entry h := ext (entry h) + 1)))"
proof -
  obtain r c' where r: "lookup_op k c = Some (r, c')" "holds c' = holds c"
    "case r of None \<Rightarrow> holds c k = None \<and> inv c' ext
     | Some h \<Rightarrow> \<exists>v. holds c k = Some v \<and> value_op h c' = Some v \<and> inv c' (ext(entry h := ext (entry h) + 1))"
    using lookup_law [OF assms(1)] by blast
  then show ?thesis using assms(2) by (auto simp: agrees_def split: option.splits)
qed

lemma insert_agrees:
  assumes "inv c ext" "agrees (holds c) I" "fresh a k c" "I k v"
  shows "\<exists>h c'. insert_op a k v charge c = Some (h, c') \<and> value_op h c' = Some v \<and> agrees (holds c') I \<and> inv c' (ext(entry h := 1))"
proof -
  obtain h c' where h: "insert_op a k v charge c = Some (h, c')" "value_op h c' = Some v" "inv c' (ext(entry h := 1))"
      "holds c' k = Some v" "\<And>k'. k' \<noteq> k \<Longrightarrow> holds c' k' \<in> {None, holds c k'}"
    using insert_law [OF assms(1,3)] by blast
  have "I k' v'" if "holds c' k' = Some v'" for k' v'
    using that h(4) h(5) [of k'] assms(2,4) by (cases "k' = k") (auto simp: agrees_def)
  with h show ?thesis by (auto simp: agrees_def)
qed

end

section \<open>The sharded cache\<close>

definition sharded_state :: "u64 \<Rightarrow> 'v ShardedLRUCache \<Rightarrow> (nat \<times> nat \<Rightarrow> nat) \<Rightarrow> bool" where
  "sharded_state p c ext \<longleftrightarrow> 0 < p \<and> (\<exists>ins. sharded_ok p c (curry ext) ins)"

definition sharded_holds :: "'v ShardedLRUCache \<Rightarrow> bytes \<Rightarrow> 'v option" where
  "sharded_holds c k = cval (sc_shard c ! Shard (HashSlice k)) k (HashSlice k)"

definition sharded_fresh :: "nat \<Rightarrow> bytes \<Rightarrow> 'v ShardedLRUCache \<Rightarrow> bool" where
  "sharded_fresh a k c \<longleftrightarrow> lc_heap (sc_shard c ! Shard (HashSlice k)) a = None"

definition sharded_entry :: "Handle \<Rightarrow> nat \<times> nat" where
  "sharded_entry h = (Shard (fst h), snd h)"

lemma curry_upd: "(curry ext)(i := (curry ext i)(a := n)) = curry (ext((i, a) := n))"
  by (auto simp: fun_eq_iff)

lemma sharded_state_update:
  assumes "sharded_state p c ext" "cache_reach p s ((curry ext (Shard h))(a := n)) m"
  shows "sharded_state p (c\<lparr>sc_shard := (sc_shard c)[Shard h := s]\<rparr>) (ext((Shard h, a) := n))"
proof -
  obtain ins where "0 < p" "sharded_ok p c (curry ext) ins" using assms(1) by (auto simp: sharded_state_def)
  then show ?thesis
    using sharded_ok_update [OF _ assms(2), of c "curry ext" ins h] curry_upd [of ext "Shard h" a n]
    unfolding sharded_state_def by metis
qed

lemma sharded_state_same:
  assumes "sharded_state p c ext" "cache_reach p s (curry ext (Shard h)) m"
  shows "sharded_state p (c\<lparr>sc_shard := (sc_shard c)[Shard h := s]\<rparr>) ext"
  using sharded_state_update [OF assms(1), of s h 0 "ext (Shard h, 0)" m] assms(2)
  by (simp add: fun_upd_idem)

lemma sharded_holds_update:
  assumes "sharded_state p c ext" "cval s = cval (sc_shard c ! Shard h)"
  shows "sharded_holds (c\<lparr>sc_shard := (sc_shard c)[Shard h := s]\<rparr>) = sharded_holds c"
  using assms by (auto simp: sharded_holds_def fun_eq_iff sharded_state_def sharded_ok_def nth_list_update Shard_less)

lemma sharded_state_shard:
  assumes "sharded_state p c ext"
  shows "\<exists>ins lru use. cache_reach p (sc_shard c ! Shard h) (curry ext (Shard h)) ins \<and>
    reach_inv p (sc_shard c ! Shard h) (curry ext (Shard h)) ins lru use \<and> Shard h < length (sc_shard c) \<and> 0 < p"
proof -
  obtain ins where ins: "0 < p" "sharded_ok p c (curry ext) ins" using assms by (auto simp: sharded_state_def)
  note r = sharded_ok_shard [OF ins(2), of h]
  have "Shard h < length (sc_shard c)" using ins(2) by (simp add: sharded_ok_def Shard_less)
  then show ?thesis using r cache_reach_inv [OF r] ins(1) by blast
qed

interpretation sharded: value_cache "sharded_state p" sharded_holds sharded_fresh sharded_entry
  Sharded_Lookup Sharded_Insert Sharded_Value Sharded_Release for p
proof
  fix c :: "'v ShardedLRUCache" and ext k
  assume c: "sharded_state p c ext"
  let ?h = "HashSlice k"
  let ?s = "sc_shard c ! Shard ?h"
  obtain ins lru use where s: "cache_reach p ?s (curry ext (Shard ?h)) ins" "reach_inv p ?s (curry ext (Shard ?h)) ins lru use"
      "Shard ?h < length (sc_shard c)" "0 < p"
    using sharded_state_shard [OF c] by blast
  obtain r s' where r: "LRUCache_Lookup k ?h ?s = Some (r, s')" "cval s' = cval ?s"
      "case r of None \<Rightarrow> cval ?s k ?h = None
       | Some e \<Rightarrow> \<exists>h. lc_heap s' e = Some h \<and> h_key h = k \<and> cval ?s k ?h = Some (h_value h)"
    using cval_lookup [OF s(2), of k ?h] by blast
  let ?c = "c\<lparr>sc_shard := (sc_shard c)[Shard ?h := s']\<rparr>"
  have l: "Sharded_Lookup k c = Some (map_option (Pair ?h) r, ?c)" using r(1) by (simp add: Sharded_Lookup_def Let_def)
  have hs: "sharded_holds ?c = sharded_holds c" by (rule sharded_holds_update [OF c r(2)])
  show "\<exists>r c'. Sharded_Lookup k c = Some (r, c') \<and> sharded_holds c' = sharded_holds c \<and>
      (case r of None \<Rightarrow> sharded_holds c k = None \<and> sharded_state p c' ext
       | Some h \<Rightarrow> \<exists>v. sharded_holds c k = Some v \<and> Sharded_Value h c' = Some v \<and>
           sharded_state p c' (ext(sharded_entry h := ext (sharded_entry h) + 1)))"
  proof (cases r)
    case None
    then have "sharded_state p ?c ext" using sharded_state_same [OF c cache_reach.lookup_none [OF s(1)]] r(1) by blast
    then show ?thesis using l hs r(3) None by (simp add: sharded_holds_def)
  next
    case (Some e)
    have "sharded_state p ?c (ext((Shard ?h, e) := curry ext (Shard ?h) e + 1))"
      using sharded_state_update [OF c cache_reach.lookup_some [OF s(1)]] r(1) Some by blast
    then show ?thesis
      using l hs r(3) Some s(3) by (auto simp: sharded_holds_def sharded_entry_def Sharded_Value_def)
  qed
next
  fix c :: "'v ShardedLRUCache" and ext a k v charge
  assume c: "sharded_state p c ext" and a: "sharded_fresh a k c"
  let ?h = "HashSlice k"
  let ?s = "sc_shard c ! Shard ?h"
  obtain ins lru use where s: "cache_reach p ?s (curry ext (Shard ?h)) ins" "reach_inv p ?s (curry ext (Shard ?h)) ins lru use"
      "Shard ?h < length (sc_shard c)" "0 < p"
    using sharded_state_shard [OF c] by blast
  have f: "lc_heap ?s a = None" using a by (simp add: sharded_fresh_def)
  obtain s' where i: "LRUCache_Insert a k ?h v charge ?s = Some (a, s')" "cval s' k ?h = Some v"
      "\<And>k' h'. (k', h') \<noteq> (k, ?h) \<Longrightarrow> cval s' k' h' \<in> {None, cval ?s k' h'}"
    using cval_insert [OF s(2), of a k ?h v charge] f s(4) by blast
  have d: "desc (lc_heap s') a = Some (k, ?h, v, charge)"
    using reach_insert [OF s(2) f, of k ?h v charge] i(1) by auto
  let ?c = "c\<lparr>sc_shard := (sc_shard c)[Shard ?h := s']\<rparr>"
  have "Sharded_Insert a k v charge c = Some ((?h, a), ?c)" using i(1) by (simp add: Sharded_Insert_def Let_def)
  moreover have "Sharded_Value (?h, a) ?c = Some v" using d s(3) by (auto simp: Sharded_Value_def desc_def)
  moreover have "sharded_state p ?c (ext(sharded_entry (?h, a) := 1))"
    using sharded_state_update [OF c cache_reach.insert [OF s(1) f i(1)]] by (simp add: sharded_entry_def)
  moreover have "sharded_holds ?c k = Some v" using i(2) s(3) by (simp add: sharded_holds_def)
  moreover have "sharded_holds ?c k' \<in> {None, sharded_holds c k'}" if "k' \<noteq> k" for k'
    using i(3) [of k' "HashSlice k'"] that s(3)
    by (cases "Shard (HashSlice k') = Shard ?h") (auto simp: sharded_holds_def nth_list_update)
  ultimately show "\<exists>h c'. Sharded_Insert a k v charge c = Some (h, c') \<and> Sharded_Value h c' = Some v \<and>
      sharded_state p c' (ext(sharded_entry h := 1)) \<and> sharded_holds c' k = Some v \<and>
      (\<forall>k'. k' \<noteq> k \<longrightarrow> sharded_holds c' k' \<in> {None, sharded_holds c k'})" by blast
next
  fix c :: "'v ShardedLRUCache" and ext and h :: Handle
  assume c: "sharded_state p c ext" and h: "0 < ext (sharded_entry h)"
  let ?s = "sc_shard c ! Shard (fst h)"
  obtain ins lru use where s: "cache_reach p ?s (curry ext (Shard (fst h))) ins" "reach_inv p ?s (curry ext (Shard (fst h))) ins lru use"
    using sharded_state_shard [OF c] by blast
  have e: "0 < curry ext (Shard (fst h)) (snd h)" using h by (simp add: sharded_entry_def)
  obtain s' where r: "LRUCache_Release (snd h) ?s = Some s'" "cval s' = cval ?s" using cval_release [OF s(2) e] by blast
  show "\<exists>c'. Sharded_Release h c = Some c' \<and> sharded_holds c' = sharded_holds c \<and>
      sharded_state p c' (ext(sharded_entry h := ext (sharded_entry h) - 1))"
    using r(1) sharded_holds_update [OF c r(2)] sharded_state_update [OF c cache_reach.release [OF s(1) e r(1)]]
    by (auto simp: Sharded_Release_def sharded_entry_def)
qed

text \<open>A new cache is empty.\<close>

lemma sharded_state_make:
  fixes c :: "'v ShardedLRUCache"
  assumes c: "c = ShardedLRUCache_make capacity" and p: "0 < (capacity + 15) div 16"
  shows "sharded_state ((capacity + 15) div 16) c (\<lambda>_. 0)" "sharded_holds c k = None" "sharded_fresh a k c"
  unfolding c
proof -
  let ?c = "ShardedLRUCache_make capacity :: 'v ShardedLRUCache" and ?s = "LRUCache_make ((capacity + 15) div 16) :: 'v LRUCache"
  have s: "sc_shard ?c ! Shard h = ?s" for h
    using Shard_less [of h] by (simp add: ShardedLRUCache_make_def Let_def kNumShards_def kNumShardBits_def)
  show "sharded_state ((capacity + 15) div 16) ?c (\<lambda>_. 0)"
    using sharded_ok_make [of capacity] p by (auto simp: sharded_state_def curry_def)
  show "sharded_fresh a k ?c" by (simp add: sharded_fresh_def s LRUCache_make_def)
  obtain lru use where r: "reach_inv ((capacity + 15) div 16) ?s (\<lambda>_. 0) {#} lru use"
    using cache_reach_inv [OF cache_reach.make] by blast
  then have "set lru \<union> set use = {}" using inv_dom [OF reach_inv_inv [OF r]] by (simp add: LRUCache_make_def)
  then have "cval ?s k h \<noteq> Some v" for h v using cval_iff [OF r, of k h v] by simp
  then show "sharded_holds ?c k = None" unfolding sharded_holds_def s by (cases "cval ?s k (HashSlice k)") auto
qed

end
