(* ===== verification/Block_Cache.thy ===== *)
theory Block_Cache
  imports Table_Get Cache_Interface
begin

text \<open>
  \<^verbatim>\<open>Table::BlockReader\<close> with a block cache: blocks are kept under the table's cache id and their offset.
  The cache is shared; what it gives is what a read of the file would give.
\<close>

section \<open>Reading through the cache\<close>

definition block_cache_key :: "Table \<Rightarrow> BlockHandle \<Rightarrow> bytes" where
  "block_cache_key t handle = EncodeFixed64 (t_cache_id t) @ EncodeFixed64 (bh_offset handle)"

text \<open>
  The iterator, the cache handle its cleanup function releases (if there is none, the block is deleted instead), and
  the cache.  \<open>a\<close> is the address of a new cache entry.
\<close>

definition Table_BlockReader_cached ::
    "Snappy \<Rightarrow> Table \<Rightarrow> ReadOptions \<Rightarrow> nat \<Rightarrow> bytes \<Rightarrow> Block ShardedLRUCache \<Rightarrow>
     (block_iter \<times> Handle option \<times> Block ShardedLRUCache) option" where
  "Table_BlockReader_cached sn t ro a index_value cache =
     (let (s, handle, _) = BlockHandle_DecodeFrom index_value BlockHandle_make in
      if \<not> Status_ok s then Some (Inl (NewErrorIterator s), None, cache)
      else do {
        let key = block_cache_key t handle;
        (cache_handle, cache) \<leftarrow> Sharded_Lookup key cache;
        case cache_handle of
          Some h \<Rightarrow> do {
            block \<leftarrow> Sharded_Value h cache;
            Some (Block_NewIterator block, Some h, cache)
          }
        | None \<Rightarrow> do {
            (s, contents) \<leftarrow> ReadBlock sn (t_file t) (ro_verify_checksums ro) handle;
            if \<not> Status_ok s then Some (Inl (NewErrorIterator s), None, cache)
            else do {
              let block = Block_make (bc_data contents);
              if bc_cachable contents \<and> ro_fill_cache ro
              then do {
                (h, cache) \<leftarrow> Sharded_Insert a key block (of_nat (blk_size block)) cache;
                Some (Block_NewIterator block, Some h, cache)
              }
              else Some (Block_NewIterator block, None, cache)
            }
          }
      })"

text \<open>\<^verbatim>\<open>ReleaseBlock\<close>, the cleanup function of an iterator over a cached block.\<close>

definition ReleaseBlock :: "Handle \<Rightarrow> Block ShardedLRUCache \<Rightarrow> Block ShardedLRUCache option" where
  "ReleaseBlock h cache = Sharded_Release h cache"

section \<open>What the cache may hold\<close>

text \<open>Under a key of this table there is the block that is at that offset in the file.\<close>

definition right_block :: "Snappy \<Rightarrow> Options \<Rightarrow> kv list list \<Rightarrow> Table \<Rightarrow> bytes \<Rightarrow> Block \<Rightarrow> bool" where
  "right_block sn opts blks t k b \<longleftrightarrow>
     (\<forall>j<length blks. k = block_cache_key t (handle_at sn opts blks j) \<longrightarrow>
        b = Block_make (block_bytes (opt_block_restart_interval opts) (blks ! j)))"

lemma EncodeFixed64_inject:
  assumes "EncodeFixed64 a = EncodeFixed64 b"
  shows "a = b"
  using DecodeFixed64_EncodeFixed64 [of a "[]"] DecodeFixed64_EncodeFixed64 [of b "[]"] unfolding assms by (rule trans [OF sym])

lemma block_cache_key_inject:
  assumes b: "table_blocks sn opts blks ikvs" and ij: "i < length blks" "j < length blks"
    and e: "block_cache_key t (handle_at sn opts blks i) = block_cache_key t (handle_at sn opts blks j)"
  shows "i = j"
proof -
  have "EncodeFixed64 (bh_offset (handle_at sn opts blks i)) = EncodeFixed64 (bh_offset (handle_at sn opts blks j))"
    using e unfolding block_cache_key_def by (rule same_append_eq [THEN iffD1])
  from arg_cong [OF EncodeFixed64_inject [OF this], of unat]
  have l: "length (data_bytes sn opts (take i blks)) = length (data_bytes sn opts (take j blks))"
    unfolding handle_at_def BlockHandle.simps table_offsets [OF b less_imp_le [OF ij(1)]] table_offsets [OF b less_imp_le [OF ij(2)]] .
  have "\<not> i < j" "\<not> j < i"
    using data_bytes_take [of i j blks sn opts] data_bytes_take [of j i blks sn opts] ij l by fastforce+
  then show ?thesis by simp
qed

lemma right_block_at:
  assumes "table_blocks sn opts blks ikvs" "j < length blks"
  shows "right_block sn opts blks t (block_cache_key t (handle_at sn opts blks j)) b \<longleftrightarrow>
    b = Block_make (block_bytes (opt_block_restart_interval opts) (blks ! j))"
  using assms block_cache_key_inject [OF assms(1)] by (auto simp: right_block_def)

lemma Lookup_miss: "sharded_state p c ext \<Longrightarrow> Sharded_Lookup k c = Some (None, c') \<Longrightarrow> c' = c"
  by (auto simp: Sharded_Lookup_def LRUCache_Lookup_def Let_def split: Option.bind_splits option.splits)

context random_file
begin

text \<open>Every way through the code ends with the iterator that a read without the cache gives.\<close>

lemma BlockReader_cached_ok:
  assumes b: "table_blocks sn opts blks ikvs" and f: "ok f" "contents f = table_bytes sn opts blks ikvs"
    and t: "opened sn opts (rd f) blks ikvs t" and j: "j < length blks"
    and c: "sharded_state p cache ext" "agrees (sharded_holds cache) (right_block sn opts blks t)"
    and a: "sharded_fresh a (block_cache_key t (handle_at sn opts blks j)) cache"
  shows "\<exists>i h cache'. Table_BlockReader_cached sn t ro a (snd (ikvs ! j)) cache = Some (i, h, cache') \<and>
    Table_BlockReader sn t ro (snd (ikvs ! j)) = Some i \<and> agrees (sharded_holds cache') (right_block sn opts blks t) \<and>
    (case h of None \<Rightarrow> sharded_state p cache' ext
     | Some h \<Rightarrow> \<exists>ext'. sharded_state p cache' ext' \<and> 0 < ext' (sharded_entry h) \<and>
         (\<forall>e. e \<noteq> sharded_entry h \<longrightarrow> ext' e = ext e))"
proof -
  let ?I = "right_block sn opts blks t" and ?h = "handle_at sn opts blks j"
  let ?k = "block_cache_key t ?h" and ?B = "Block_make (block_bytes (opt_block_restart_interval opts) (blks ! j))"
  have iv: "snd (ikvs ! j) = encode_handle ?h" using table_blocksD(9) [OF b j] by (simp add: index_entry_def)
  have I: "?I ?k v \<longleftrightarrow> v = ?B" for v by (rule right_block_at [OF b j])
  have T: "Table_BlockReader sn t ro (snd (ikvs ! j)) = Some (Block_NewIterator ?B)" by (rule BlockReader_eq [OF b f t j])
  obtain bc where bc: "ReadBlock sn (t_file t) (ro_verify_checksums ro) ?h = Some (Status_OK, bc)" "Block_make (bc_data bc) = ?B"
    using data_block_read [OF b f j, of "ro_verify_checksums ro"] t by (auto simp: opened_def)
  obtain r c1 where l: "Sharded_Lookup ?k cache = Some (r, c1)" "agrees (sharded_holds c1) ?I"
      "case r of None \<Rightarrow> sharded_state p c1 ext
       | Some h \<Rightarrow> \<exists>v. Sharded_Value h c1 = Some v \<and> ?I ?k v \<and> sharded_state p c1 (ext(sharded_entry h := ext (sharded_entry h) + 1))"
    using sharded.lookup_agrees [OF c] by blast
  show ?thesis
  proof (cases r)
    case (Some h)
    then have "Table_BlockReader_cached sn t ro a (snd (ikvs ! j)) cache = Some (Block_NewIterator ?B, Some h, c1)"
      using l I iv by (auto simp: Table_BlockReader_cached_def Status_ok_iff Let_def)
    moreover obtain ext' where "sharded_state p c1 ext'" "ext' = ext(sharded_entry h := ext (sharded_entry h) + 1)"
      using l(3) Some by auto
    ultimately show ?thesis using T l(2) by (intro exI [of _ "Block_NewIterator ?B"] exI [of _ "Some h"] exI [of _ c1]) auto
  next
    case None
    then have c1: "c1 = cache" using Lookup_miss [OF c(1)] l(1) by blast
    show ?thesis
    proof (cases "bc_cachable bc \<and> ro_fill_cache ro")
      case True
      obtain h c2 where i: "Sharded_Insert a ?k ?B (of_nat (blk_size ?B)) cache = Some (h, c2)" "agrees (sharded_holds c2) ?I"
          "sharded_state p c2 (ext(sharded_entry h := 1))"
        using sharded.insert_agrees [OF c a, of ?B "of_nat (blk_size ?B)"] I by blast
      have "Table_BlockReader_cached sn t ro a (snd (ikvs ! j)) cache = Some (Block_NewIterator ?B, Some h, c2)"
        using l(1) None True i(1) bc iv c1 by (simp add: Table_BlockReader_cached_def Status_ok_iff Let_def)
      then show ?thesis
        using T i by (intro exI [of _ "Block_NewIterator ?B"] exI [of _ "Some h"] exI [of _ c2]) (auto intro!: exI [of _ "ext(sharded_entry h := 1)"])
    next
      case False
      have "Table_BlockReader_cached sn t ro a (snd (ikvs ! j)) cache = Some (Block_NewIterator ?B, None, cache)"
        using l(1) None False bc iv c1 by (auto simp: Table_BlockReader_cached_def Status_ok_iff Let_def)
      then show ?thesis
        using T c by (intro exI [of _ "Block_NewIterator ?B"] exI [of _ "None :: Handle option"] exI [of _ cache]) simp
    qed
  qed
qed

end

section \<open>The cache does not show\<close>



end
