(* ===== verification/Merger.thy ===== *)
theory Merger
  imports Iterators "HOL-Library.Monad_Syntax"
begin

text \<open>
  \<^verbatim>\<open>table/merger.cc\<close>: one iterator over the union of several ordered sources.  The children are
  \<^verbatim>\<open>IteratorWrapper\<close>s in an array, \<^verbatim>\<open>current_\<close> is an index of it, and a null \<^verbatim>\<open>current_\<close> is \<open>None\<close>.
  The main lemma is that the iterator keeps the contract of its children over their merged list.
\<close>

section \<open>The iterator\<close>

datatype Direction = kForward | kReverse

record 'i Merging =
  mg_children :: "'i Wrapper list"
  mg_current :: "nat option"
  mg_direction :: Direction

definition Merging_make :: "'i Iterator \<Rightarrow> 'i list \<Rightarrow> 'i Merging" where
  "Merging_make it children =
     \<lparr>mg_children = map (Wrapper_Set it) children, mg_current = None, mg_direction = kForward\<rparr>"

text \<open>
  The loops of \<^verbatim>\<open>FindSmallest\<close> and \<^verbatim>\<open>FindLargest\<close>, the first over \<^verbatim>\<open>0 .. n-1\<close> and the second over
  \<^verbatim>\<open>n-1 .. 0\<close>.
\<close>

primrec FindSmallest_loop ::
    "(bytes \<Rightarrow> bytes \<Rightarrow> int) \<Rightarrow> 'i Wrapper list \<Rightarrow> nat list \<Rightarrow> nat option \<Rightarrow> nat option" where
  "FindSmallest_loop cmp ws [] smallest = smallest"
| "FindSmallest_loop cmp ws (i # is) smallest =
     FindSmallest_loop cmp ws is
       (if iw_valid (ws ! i) then
          (case smallest of
             None \<Rightarrow> Some i
           | Some s \<Rightarrow> if cmp (iw_key (ws ! i)) (iw_key (ws ! s)) < 0 then Some i else smallest)
        else smallest)"

definition FindSmallest :: "(bytes \<Rightarrow> bytes \<Rightarrow> int) \<Rightarrow> 'i Merging \<Rightarrow> 'i Merging" where
  "FindSmallest cmp m =
     m\<lparr>mg_current := FindSmallest_loop cmp (mg_children m) [0..<length (mg_children m)] None\<rparr>"

primrec FindLargest_loop ::
    "(bytes \<Rightarrow> bytes \<Rightarrow> int) \<Rightarrow> 'i Wrapper list \<Rightarrow> nat list \<Rightarrow> nat option \<Rightarrow> nat option" where
  "FindLargest_loop cmp ws [] largest = largest"
| "FindLargest_loop cmp ws (i # is) largest =
     FindLargest_loop cmp ws is
       (if iw_valid (ws ! i) then
          (case largest of
             None \<Rightarrow> Some i
           | Some s \<Rightarrow> if 0 < cmp (iw_key (ws ! i)) (iw_key (ws ! s)) then Some i else largest)
        else largest)"

definition FindLargest :: "(bytes \<Rightarrow> bytes \<Rightarrow> int) \<Rightarrow> 'i Merging \<Rightarrow> 'i Merging" where
  "FindLargest cmp m =
     m\<lparr>mg_current := FindLargest_loop cmp (mg_children m) (rev [0..<length (mg_children m)]) None\<rparr>"

text \<open>A loop over the array that moves its elements, from index \<open>i\<close> on.\<close>

primrec each_child :: "(nat \<Rightarrow> 'w \<Rightarrow> 'w option) \<Rightarrow> nat \<Rightarrow> 'w list \<Rightarrow> 'w list option" where
  "each_child f i [] = Some []"
| "each_child f i (w # ws) = do { w \<leftarrow> f i w; ws \<leftarrow> each_child f (Suc i) ws; Some (w # ws) }"

definition move_children :: "(nat \<Rightarrow> 'i Wrapper \<Rightarrow> 'i Wrapper option) \<Rightarrow> 'i Merging \<Rightarrow> 'i Merging option" where
  "move_children f m = do { ws \<leftarrow> each_child f 0 (mg_children m); Some (m\<lparr>mg_children := ws\<rparr>) }"

definition Merging_SeekToFirst :: "'i Iterator \<Rightarrow> (bytes \<Rightarrow> bytes \<Rightarrow> int) \<Rightarrow> 'i Merging \<Rightarrow> 'i Merging option" where
  "Merging_SeekToFirst it cmp m =
     do { m \<leftarrow> move_children (\<lambda>_. it_SeekToFirst (IteratorWrapper it)) m;
          Some ((FindSmallest cmp m)\<lparr>mg_direction := kForward\<rparr>) }"

definition Merging_SeekToLast :: "'i Iterator \<Rightarrow> (bytes \<Rightarrow> bytes \<Rightarrow> int) \<Rightarrow> 'i Merging \<Rightarrow> 'i Merging option" where
  "Merging_SeekToLast it cmp m =
     do { m \<leftarrow> move_children (\<lambda>_. it_SeekToLast (IteratorWrapper it)) m;
          Some ((FindLargest cmp m)\<lparr>mg_direction := kReverse\<rparr>) }"

definition Merging_Seek ::
    "'i Iterator \<Rightarrow> (bytes \<Rightarrow> bytes \<Rightarrow> int) \<Rightarrow> bytes \<Rightarrow> 'i Merging \<Rightarrow> 'i Merging option" where
  "Merging_Seek it cmp target m =
     do { m \<leftarrow> move_children (\<lambda>_. it_Seek (IteratorWrapper it) target) m;
          Some ((FindSmallest cmp m)\<lparr>mg_direction := kForward\<rparr>) }"

text \<open>What a change of direction does to a child other than the current one.\<close>

definition turn_forward ::
    "'i Iterator \<Rightarrow> (bytes \<Rightarrow> bytes \<Rightarrow> int) \<Rightarrow> bytes \<Rightarrow> 'i Wrapper \<Rightarrow> 'i Wrapper option" where
  "turn_forward it cmp k w =
     do { w \<leftarrow> it_Seek (IteratorWrapper it) k w;
          if iw_valid w \<and> cmp k (iw_key w) = 0 then it_Next (IteratorWrapper it) w else Some w }"

definition turn_back :: "'i Iterator \<Rightarrow> bytes \<Rightarrow> 'i Wrapper \<Rightarrow> 'i Wrapper option" where
  "turn_back it k w =
     do { w \<leftarrow> it_Seek (IteratorWrapper it) k w;
          if iw_valid w then it_Prev (IteratorWrapper it) w else it_SeekToLast (IteratorWrapper it) w }"

text \<open>Dereferencing a null \<^verbatim>\<open>current_\<close> is the case \<open>None\<close> of the two steps.\<close>

definition Merging_Next :: "'i Iterator \<Rightarrow> (bytes \<Rightarrow> bytes \<Rightarrow> int) \<Rightarrow> 'i Merging \<Rightarrow> 'i Merging option" where
  "Merging_Next it cmp m =
     (case mg_current m of
        None \<Rightarrow> None
      | Some c \<Rightarrow>
          do { m \<leftarrow> (if mg_direction m \<noteq> kForward then
                       map_option (\<lambda>m. m\<lparr>mg_direction := kForward\<rparr>)
                         (move_children (\<lambda>i w. if i \<noteq> c then turn_forward it cmp (iw_key (mg_children m ! c)) w
                                               else Some w) m)
                     else Some m);
               m \<leftarrow> move_children (\<lambda>i w. if i = c then it_Next (IteratorWrapper it) w else Some w) m;
               Some (FindSmallest cmp m) })"

definition Merging_Prev :: "'i Iterator \<Rightarrow> (bytes \<Rightarrow> bytes \<Rightarrow> int) \<Rightarrow> 'i Merging \<Rightarrow> 'i Merging option" where
  "Merging_Prev it cmp m =
     (case mg_current m of
        None \<Rightarrow> None
      | Some c \<Rightarrow>
          do { m \<leftarrow> (if mg_direction m \<noteq> kReverse then
                       map_option (\<lambda>m. m\<lparr>mg_direction := kReverse\<rparr>)
                         (move_children (\<lambda>i w. if i \<noteq> c then turn_back it (iw_key (mg_children m ! c)) w
                                               else Some w) m)
                     else Some m);
               m \<leftarrow> move_children (\<lambda>i w. if i = c then it_Prev (IteratorWrapper it) w else Some w) m;
               Some (FindLargest cmp m) })"

text \<open>The status of the first child that is not well.\<close>

primrec first_error :: "Status list \<Rightarrow> Status \<Rightarrow> Status" where
  "first_error [] s = s"
| "first_error (t # ts) s = (if \<not> Status_ok t then t else first_error ts t)"

definition MergingIterator :: "'i Iterator \<Rightarrow> (bytes \<Rightarrow> bytes \<Rightarrow> int) \<Rightarrow> 'i Merging Iterator" where
  "MergingIterator it cmp =
     \<lparr>it_Valid = (\<lambda>m. mg_current m \<noteq> None),
      it_SeekToFirst = Merging_SeekToFirst it cmp,
      it_SeekToLast = Merging_SeekToLast it cmp,
      it_Seek = Merging_Seek it cmp,
      it_Next = Merging_Next it cmp,
      it_Prev = Merging_Prev it cmp,
      it_key = (\<lambda>m. case mg_current m of None \<Rightarrow> [] | Some c \<Rightarrow> iw_key (mg_children m ! c)),
      it_value = (\<lambda>m. case mg_current m of None \<Rightarrow> []
                      | Some c \<Rightarrow> it_value (IteratorWrapper it) (mg_children m ! c)),
      it_status = (\<lambda>m. first_error (map (it_status (IteratorWrapper it)) (mg_children m)) Status_OK)\<rparr>"

text \<open>No child gives the empty iterator, one child is the result itself.\<close>

definition MergedIterator :: "'i Iterator \<Rightarrow> (bytes \<Rightarrow> bytes \<Rightarrow> int) \<Rightarrow> (Status + 'i + 'i Merging) Iterator" where
  "MergedIterator it cmp = either_Iterator EmptyIterator (either_Iterator it (MergingIterator it cmp))"

definition NewMergingIterator :: "'i Iterator \<Rightarrow> 'i list \<Rightarrow> Status + 'i + 'i Merging" where
  "NewMergingIterator it children =
     (case children of
        [] \<Rightarrow> Inl NewEmptyIterator
      | [child] \<Rightarrow> Inr (Inl child)
      | _ \<Rightarrow> Inr (Inr (Merging_make it children)))"

section \<open>Cutting an ascending list\<close>

text \<open>
  A predicate that holds of everything before what it holds of cuts an ascending list in two; the
  first index past the cut and the last one before it are where the moves put the children.
\<close>

definition down_closed :: "(bytes \<Rightarrow> bytes \<Rightarrow> int) \<Rightarrow> (kv \<Rightarrow> bool) \<Rightarrow> bool" where
  "down_closed cmp P \<longleftrightarrow> (\<forall>a b. cmp (fst a) (fst b) < 0 \<longrightarrow> P b \<longrightarrow> P a)"

definition cut :: "(kv \<Rightarrow> bool) \<Rightarrow> kv list \<Rightarrow> nat" where
  "cut P kvs = length (takeWhile P kvs)"

definition last_pos :: "(kv \<Rightarrow> bool) \<Rightarrow> kv list \<Rightarrow> nat" where
  "last_pos P kvs = (if cut P kvs = 0 then length kvs else cut P kvs - 1)"

lemma lower_bound_cut: "lower_bound cmp target kvs = cut (\<lambda>kv. cmp (fst kv) target < 0) kvs"
  by (simp add: lower_bound_def cut_def)

lemma cut_le: "cut P kvs \<le> length kvs"
  by (simp add: cut_def length_takeWhile_le)

lemma cut_cong: "(\<And>x. x \<in> set kvs \<Longrightarrow> P x = Q x) \<Longrightarrow> cut P kvs = cut Q kvs"
  by (simp add: cut_def cong: takeWhile_cong)

lemma cut_iff:
  assumes "ascending cmp kvs" "down_closed cmp P" "i < length kvs"
  shows "P (kvs ! i) \<longleftrightarrow> i < cut P kvs"
proof
  assume P: "P (kvs ! i)"
  show "i < cut P kvs"
  proof (rule ccontr)
    assume "\<not> i < cut P kvs"
    then have le: "cut P kvs \<le> i" by simp
    then have at: "\<not> P (kvs ! cut P kvs)" using assms(3) nth_length_takeWhile [of P kvs] by (simp add: cut_def)
    then have "cut P kvs < i" using P le by (cases "cut P kvs = i") auto
    then have "cmp (fst (kvs ! cut P kvs)) (fst (kvs ! i)) < 0" using ascending_nth [OF assms(1)] assms(3) by blast
    with assms(2) P at show False unfolding down_closed_def by blast
  qed
next
  assume "i < cut P kvs"
  then show "P (kvs ! i)" unfolding cut_def by (metis nth_mem set_takeWhileD takeWhile_nth)
qed

lemma cut_eqI:
  assumes "ascending cmp kvs" "down_closed cmp P" "n \<le> length kvs" "\<And>i. i < length kvs \<Longrightarrow> P (kvs ! i) \<longleftrightarrow> i < n"
  shows "cut P kvs = n"
proof (rule ccontr)
  assume ne: "cut P kvs \<noteq> n"
  then have "min n (cut P kvs) < length kvs" using assms(3) cut_le [of P kvs] by simp
  with assms(4) [OF this] cut_iff [OF assms(1,2) this] ne show False by linarith
qed

context three_way
begin

lemma less_iff_nth:
  assumes "sorted_wrt (\<lambda>a b. cmp (fst a) (fst b) < 0) xs" "i < length xs" "j < length xs"
  shows "cmp (fst (xs ! i)) (fst (xs ! j)) < 0 \<longleftrightarrow> i < j"
proof (cases rule: linorder_cases [of i j])
  case less
  then show ?thesis using assms sorted_wrt_nth_less by blast
next
  case equal
  then show ?thesis by simp
next
  case greater
  then have "cmp (fst (xs ! j)) (fst (xs ! i)) < 0" using assms sorted_wrt_nth_less by blast
  then show ?thesis using greater cmp_flip [of "fst (xs ! j)" "fst (xs ! i)"] by simp
qed

end

lemma ascending_less_iff:
  "three_way cmp \<Longrightarrow> ascending cmp kvs \<Longrightarrow> i < length kvs \<Longrightarrow> j < length kvs \<Longrightarrow>
   cmp (fst (kvs ! i)) (fst (kvs ! j)) < 0 \<longleftrightarrow> i < j"
  unfolding ascending_def by (rule three_way.less_iff_nth)

lemma down_closed_less: "three_way cmp \<Longrightarrow> down_closed cmp (\<lambda>kv. cmp (fst kv) k < 0)"
  unfolding down_closed_def using three_way.cmp_less_trans [of cmp _ _ k] by blast

lemma down_closed_upto:
  assumes "three_way cmp"
  shows "down_closed cmp (\<lambda>kv. \<not> cmp k (fst kv) < 0)"
  unfolding down_closed_def
proof (intro allI impI notI)
  fix a b assume "cmp (fst a) (fst b) < 0" "\<not> cmp k (fst b) < 0" "cmp k (fst a) < 0"
  with three_way.cmp_less_trans [OF assms, of k "fst a" "fst b"] show False by simp
qed

section \<open>The smallest and the largest child\<close>

text \<open>The best of the valid children among those looked at so far.\<close>

definition best_of :: "(bytes \<Rightarrow> bytes \<Rightarrow> int) \<Rightarrow> 'i Wrapper list \<Rightarrow> nat set \<Rightarrow> nat option \<Rightarrow> bool" where
  "best_of cmp ws J s \<longleftrightarrow>
     (case s of
        None \<Rightarrow> \<forall>i\<in>J. \<not> iw_valid (ws ! i)
      | Some r \<Rightarrow> r \<in> J \<and> iw_valid (ws ! r) \<and>
          (\<forall>i\<in>J. iw_valid (ws ! i) \<longrightarrow> cmp (iw_key (ws ! r)) (iw_key (ws ! i)) \<le> 0))"

lemma best_of_better:
  assumes "three_way cmp" "best_of cmp ws J (Some s)" "iw_valid (ws ! i)" "cmp (iw_key (ws ! i)) (iw_key (ws ! s)) < 0"
  shows "best_of cmp ws (insert i J) (Some i)"
proof -
  have "cmp (iw_key (ws ! i)) (iw_key (ws ! j)) \<le> 0" if "j \<in> J" "iw_valid (ws ! j)" for j
    using three_way.cmp_trans [OF assms(1), of "iw_key (ws ! i)" "iw_key (ws ! s)" "iw_key (ws ! j)"] assms(2,4) that
    by (simp add: best_of_def)
  then show ?thesis using assms(3) three_way.cmp_refl [OF assms(1)] by (simp add: best_of_def)
qed

lemma best_of_step:
  assumes "three_way cmp" "best_of cmp ws J s"
  shows "best_of cmp ws (insert i J)
    (if iw_valid (ws ! i) then
       (case s of None \<Rightarrow> Some i | Some j \<Rightarrow> if cmp (iw_key (ws ! i)) (iw_key (ws ! j)) < 0 then Some i else s)
     else s)"
proof (cases s)
  case None
  then show ?thesis using assms(2) three_way.cmp_refl [OF assms(1)] by (simp add: best_of_def)
next
  case (Some j)
  show ?thesis
  proof (cases "iw_valid (ws ! i) \<and> cmp (iw_key (ws ! i)) (iw_key (ws ! j)) < 0")
    case True
    then show ?thesis using best_of_better [OF assms(1), of ws J j i] assms(2) Some by simp
  next
    case False
    then have "iw_valid (ws ! i) \<longrightarrow> cmp (iw_key (ws ! j)) (iw_key (ws ! i)) \<le> 0"
      using three_way.cmp_flip_ge [OF assms(1)] by force
    then show ?thesis using False Some assms(2) by (simp add: best_of_def)
  qed
qed

lemma FindSmallest_loop_ok:
  "three_way cmp \<Longrightarrow> best_of cmp ws J s \<Longrightarrow> best_of cmp ws (J \<union> set is) (FindSmallest_loop cmp ws is s)"
proof (induction "is" arbitrary: J s)
  case (Cons i "is")
  from Cons.IH [OF Cons.prems(1) best_of_step [OF Cons.prems, of i]] show ?case by simp
qed simp

lemma three_way_minus: "three_way cmp \<Longrightarrow> three_way (\<lambda>a b. - cmp a b)"
proof
  assume t: "three_way cmp"
  show "- cmp a b < 0 \<longleftrightarrow> 0 < - cmp b a" for a b using three_way.cmp_flip [OF t, of b a] by auto
  show "- cmp a b \<le> 0 \<Longrightarrow> - cmp b c \<le> 0 \<Longrightarrow> - cmp a c \<le> 0" for a b c
    using three_way.cmp_trans [OF t, of c b a] three_way.cmp_flip_ge [OF t] by simp
qed

lemma FindLargest_loop_minus: "FindLargest_loop cmp ws is s = FindSmallest_loop (\<lambda>a b. - cmp a b) ws is s"
  by (induction "is" arbitrary: s) (auto split: option.splits)

lemma best_of_none: "best_of cmp ws {} None"
  by (simp add: best_of_def)

lemma FindSmallest_current:
  "three_way cmp \<Longrightarrow> best_of cmp (mg_children m) {..<length (mg_children m)} (mg_current (FindSmallest cmp m))"
  using FindSmallest_loop_ok [OF _ best_of_none, of cmp "mg_children m" "[0..<length (mg_children m)]"]
  by (simp add: FindSmallest_def atLeast0LessThan)

lemma FindLargest_current:
  "three_way cmp \<Longrightarrow>
   best_of (\<lambda>a b. - cmp a b) (mg_children m) {..<length (mg_children m)} (mg_current (FindLargest cmp m))"
  using FindSmallest_loop_ok [OF three_way_minus best_of_none, of cmp "mg_children m" "rev [0..<length (mg_children m)]"]
  by (simp add: FindLargest_def FindLargest_loop_minus atLeast0LessThan)

lemma Find_simps [simp]:
  "mg_children (FindSmallest cmp m) = mg_children m" "mg_direction (FindSmallest cmp m) = mg_direction m"
  "mg_children (FindLargest cmp m) = mg_children m" "mg_direction (FindLargest cmp m) = mg_direction m"
  by (simp_all add: FindSmallest_def FindLargest_def)

section \<open>The merged list\<close>

text \<open>
  Every child lists its pairs in ascending order, no two children have keys that compare equal, and
  \<open>kvs\<close> lists the pairs of all of them in ascending order.
\<close>

definition merges :: "(bytes \<Rightarrow> bytes \<Rightarrow> int) \<Rightarrow> kv list list \<Rightarrow> kv list \<Rightarrow> bool" where
  "merges cmp kvss kvs \<longleftrightarrow>
     ascending cmp kvs \<and> set kvs = (\<Union>l\<in>set kvss. set l) \<and> (\<forall>l\<in>set kvss. ascending cmp l) \<and>
     (\<forall>i<length kvss. \<forall>j<length kvss. i \<noteq> j \<longrightarrow>
        (\<forall>a\<in>set (kvss ! i). \<forall>b\<in>set (kvss ! j). cmp (fst a) (fst b) \<noteq> 0))"

definition merge_ok ::
    "'i Iterator \<Rightarrow> (bytes \<Rightarrow> bytes \<Rightarrow> int) \<Rightarrow> kv list list \<Rightarrow> kv list \<Rightarrow> (nat \<Rightarrow> 'i \<Rightarrow> nat \<Rightarrow> bool) \<Rightarrow> nat \<Rightarrow> bool" where
  "merge_ok it cmp kvss kvs cpos lim \<longleftrightarrow>
     three_way cmp \<and> merges cmp kvss kvs \<and> (\<forall>kv\<in>set kvs. length (fst kv) < lim) \<and>
     (\<forall>j<length kvss. bounded_iterator it cmp (kvss ! j) (cpos j) lim)"

lemma merge_okD:
  assumes "merge_ok it cmp kvss kvs cpos lim"
  shows "three_way cmp" "ascending cmp kvs" "j < length kvss \<Longrightarrow> ascending cmp (kvss ! j)"
    "j < length kvss \<Longrightarrow> bounded_iterator (IteratorWrapper it) cmp (kvss ! j) (wrapper_pos it (cpos j)) lim"
    "n < length kvs \<Longrightarrow> length (fst (kvs ! n)) < lim"
  using assms by (auto simp: merge_ok_def merges_def intro: bounded_iterator.wrapper_contract)

lemma merged_nth:
  assumes "merge_ok it cmp kvss kvs cpos lim" "j < length kvss" "p < length (kvss ! j)"
  obtains n where "n < length kvs" "kvs ! n = kvss ! j ! p"
proof -
  have "kvss ! j ! p \<in> set kvs"
    using assms(1) nth_mem [OF assms(2)] nth_mem [OF assms(3)] by (auto simp: merge_ok_def merges_def)
  then show thesis using that by (auto simp: in_set_conv_nth)
qed

lemma merged_from:
  assumes "merge_ok it cmp kvss kvs cpos lim" "n < length kvs"
  obtains j p where "j < length kvss" "p < length (kvss ! j)" "kvss ! j ! p = kvs ! n"
proof -
  have "kvs ! n \<in> (\<Union>l\<in>set kvss. set l)" using assms nth_mem by (fastforce simp: merge_ok_def merges_def)
  then obtain l where "l \<in> set kvss" "kvs ! n \<in> set l" by blast
  then show thesis using that by (metis in_set_conv_nth)
qed

text \<open>A cut of the merged list and the cuts of the children are the same cut.\<close>

lemma cut_same:
  assumes ok: "merge_ok it cmp kvss kvs cpos lim" and P: "down_closed cmp P" and j: "j < length kvss"
    and Q: "\<And>n. n < length kvs \<Longrightarrow> kvs ! n \<in> set (kvss ! j) \<Longrightarrow> Q (kvs ! n) \<longleftrightarrow> n < cut P kvs"
  shows "cut Q (kvss ! j) = cut P (kvss ! j)"
proof (rule cut_cong)
  fix x assume "x \<in> set (kvss ! j)"
  then obtain p where p: "p < length (kvss ! j)" "x = kvss ! j ! p" by (auto simp: in_set_conv_nth)
  obtain n where n: "n < length kvs" "kvs ! n = x" using merged_nth [OF ok j p(1)] p(2) by metis
  show "Q x = P x" using Q [OF n(1)] cut_iff [OF merge_okD(2) [OF ok] P n(1)] n(2) \<open>x \<in> set (kvss ! j)\<close> by simp
qed

lemma merged_other:
  assumes ok: "merge_ok it cmp kvss kvs cpos lim" and "i < length kvss" "j < length kvss" "i \<noteq> j"
    and "a \<in> set (kvss ! i)" "b \<in> set (kvss ! j)"
  shows "a \<noteq> b"
  using assms three_way.cmp_refl [of cmp "fst a"] unfolding merge_ok_def merges_def by metis

section \<open>Positions\<close>

definition children_at ::
    "'i Iterator \<Rightarrow> kv list list \<Rightarrow> (nat \<Rightarrow> 'i \<Rightarrow> nat \<Rightarrow> bool) \<Rightarrow> 'i Merging \<Rightarrow> (nat \<Rightarrow> nat) \<Rightarrow> bool" where
  "children_at it kvss cpos m ps \<longleftrightarrow>
     length (mg_children m) = length kvss \<and> (\<forall>j<length kvss. wrapper_pos it (cpos j) (mg_children m ! j) (ps j))"

text \<open>
  The current child stands at the pair; the others stand at the first pair past it when the iterator
  moves forward and at the last one before it when it moves back.
\<close>

definition mg_pos ::
    "'i Iterator \<Rightarrow> (bytes \<Rightarrow> bytes \<Rightarrow> int) \<Rightarrow> kv list list \<Rightarrow> kv list \<Rightarrow> (nat \<Rightarrow> 'i \<Rightarrow> nat \<Rightarrow> bool) \<Rightarrow> 'i Merging \<Rightarrow> nat \<Rightarrow> bool" where
  "mg_pos it cmp kvss kvs cpos m n \<longleftrightarrow>
     (\<exists>ps. children_at it kvss cpos m ps \<and>
        (n = length kvs \<and> mg_current m = None \<or>
         n < length kvs \<and>
         (\<exists>c. mg_current m = Some c \<and> c < length kvss \<and> ps c < length (kvss ! c) \<and> kvss ! c ! ps c = kvs ! n \<and>
            (\<forall>j<length kvss. j \<noteq> c \<longrightarrow>
               ps j = (if mg_direction m = kForward then cut (\<lambda>kv. cmp (fst kv) (fst (kvs ! n)) < 0) (kvss ! j)
                       else last_pos (\<lambda>kv. cmp (fst kv) (fst (kvs ! n)) < 0) (kvss ! j))))))"

lemma child_at:
  assumes "merge_ok it cmp kvss kvs cpos lim" "children_at it kvss cpos m ps" "j < length kvss"
  shows "iw_valid (mg_children m ! j) \<longleftrightarrow> ps j < length (kvss ! j)"
    "ps j < length (kvss ! j) \<Longrightarrow> iw_key (mg_children m ! j) = fst (kvss ! j ! ps j)"
    "ps j < length (kvss ! j) \<Longrightarrow> it_value (IteratorWrapper it) (mg_children m ! j) = snd (kvss ! j ! ps j)"
    "it_status (IteratorWrapper it) (mg_children m ! j) = Status_OK"
proof -
  note o = merge_okD(4) [OF assms(1,3)]
  have w: "wrapper_pos it (cpos j) (mg_children m ! j) (ps j)" using assms(2,3) by (simp add: children_at_def)
  show "iw_valid (mg_children m ! j) \<longleftrightarrow> ps j < length (kvss ! j)"
    using bounded_iterator.valid_iff [OF o w] by (simp add: IteratorWrapper_def)
  show "it_status (IteratorWrapper it) (mg_children m ! j) = Status_OK"
    by (rule bounded_iterator.status_at [OF o w])
  assume p: "ps j < length (kvss ! j)"
  show "iw_key (mg_children m ! j) = fst (kvss ! j ! ps j)"
    using bounded_iterator.key_at [OF o w p] by (simp add: IteratorWrapper_def)
  show "it_value (IteratorWrapper it) (mg_children m ! j) = snd (kvss ! j ! ps j)"
    by (rule bounded_iterator.value_at [OF o w p])
qed

lemma children_at_turn [simp]: "children_at it kvss cpos (m\<lparr>mg_direction := d\<rparr>) ps = children_at it kvss cpos m ps"
  by (simp add: children_at_def)

lemma each_child_ok:
  assumes "\<And>j. j < length ws \<Longrightarrow> \<exists>w'. f (i + j) (ws ! j) = Some w' \<and> Q j w'"
  shows "\<exists>ws'. each_child f i ws = Some ws' \<and> length ws' = length ws \<and> (\<forall>j<length ws. Q j (ws' ! j))"
  using assms
proof (induction ws arbitrary: i Q)
  case (Cons w ws)
  obtain w' where w': "f i w = Some w'" "Q 0 w'" using Cons.prems [of 0] by auto
  obtain ws' where ws': "each_child f (Suc i) ws = Some ws'" "length ws' = length ws" "\<forall>j<length ws. Q (Suc j) (ws' ! j)"
    using Cons.IH [of "Suc i" "\<lambda>j. Q (Suc j)"] Cons.prems [of "Suc _"] by auto
  have "Q j ((w' # ws') ! j)" if "j < length (w # ws)" for j using that w'(2) ws'(3) by (cases j) simp_all
  with w' ws' show ?case by simp
qed simp

lemma move_children_ok:
  assumes "children_at it kvss cpos m ps"
    and "\<And>j w. j < length kvss \<Longrightarrow> w = mg_children m ! j \<Longrightarrow> wrapper_pos it (cpos j) w (ps j) \<Longrightarrow>
           \<exists>w'. f j w = Some w' \<and> wrapper_pos it (cpos j) w' (ps' j)"
  shows "\<exists>m'. move_children f m = Some m' \<and> children_at it kvss cpos m' ps' \<and>
    mg_direction m' = mg_direction m \<and> mg_current m' = mg_current m"
proof -
  have "\<exists>ws'. each_child f 0 (mg_children m) = Some ws' \<and> length ws' = length (mg_children m) \<and>
      (\<forall>j<length (mg_children m). wrapper_pos it (cpos j) (ws' ! j) (ps' j))"
    by (rule each_child_ok) (use assms in \<open>simp add: children_at_def\<close>)
  with assms(1) show ?thesis by (auto simp: move_children_def children_at_def)
qed

section \<open>Finding the next current child\<close>

lemma mg_pos_none:
  assumes ok: "merge_ok it cmp kvss kvs cpos lim" and m: "children_at it kvss cpos m ps" and c: "mg_current m = None"
  shows "mg_pos it cmp kvss kvs cpos m (length kvs)"
  unfolding mg_pos_def using m c by blast

lemma FindSmallest_pos:
  assumes ok: "merge_ok it cmp kvss kvs cpos lim" and m: "children_at it kvss cpos m (\<lambda>j. cut P (kvss ! j))"
    and P: "down_closed cmp P"
  shows "mg_pos it cmp kvss kvs cpos ((FindSmallest cmp m)\<lparr>mg_direction := kForward\<rparr>) (cut P kvs)"
proof -
  let ?p = "\<lambda>j. cut P (kvss ! j)" and ?m = "(FindSmallest cmp m)\<lparr>mg_direction := kForward\<rparr>" and ?n = "cut P kvs"
  note D = merge_okD [OF ok]
  have len: "length (mg_children m) = length kvss" using m by (simp add: children_at_def)
  have m': "children_at it kvss cpos ?m ?p" using m by (simp add: children_at_def)
  note best = FindSmallest_current [OF D(1), of m, unfolded len best_of_def]
  have early: "?p j < length (kvss ! j) \<and> cmp (fst (kvss ! j ! ?p j)) (fst (kvs ! ?n)) \<le> 0"
    if j: "j < length kvss" "p < length (kvss ! j)" "kvss ! j ! p = kvs ! ?n" "?n < length kvs" for j p
  proof -
    have "\<not> P (kvs ! ?n)" using cut_iff [OF D(2) P j(4)] by simp
    then have "?p j \<le> p" using cut_iff [OF D(3) P j(2)] j by force
    then show ?thesis
      using j(2,3) ascending_nth [OF D(3), of j "?p j" p] j(1) three_way.cmp_refl [OF D(1)]
      by (cases "?p j = p") simp_all
  qed
  show ?thesis
  proof (cases "mg_current (FindSmallest cmp m)")
    case None
    have "\<not> ?n < length kvs"
    proof
      assume n: "?n < length kvs"
      obtain j p where j: "j < length kvss" "p < length (kvss ! j)" "kvss ! j ! p = kvs ! ?n"
        using merged_from [OF ok n] by metis
      then show False using early [OF j n] best None child_at(1) [OF ok m j(1)] by simp
    qed
    then have "?n = length kvs" using cut_le [of P kvs] by simp
    then show ?thesis using mg_pos_none [OF ok m'] None by simp
  next
    case (Some c)
    have c: "c < length kvss" "?p c < length (kvss ! c)"
      using best Some child_at(1) [OF ok m, of c] by simp_all
    have min: "cmp (fst (kvss ! c ! ?p c)) (fst (kvss ! j ! ?p j)) \<le> 0"
      if "j < length kvss" "?p j < length (kvss ! j)" for j
      using best Some that child_at [OF ok m that(1)] child_at(2) [OF ok m c] by (auto dest: bspec [of _ _ j])
    obtain n where n: "n < length kvs" "kvs ! n = kvss ! c ! ?p c" using merged_nth [OF ok c] by metis
    have "\<not> P (kvs ! n)" using cut_iff [OF D(3) [OF c(1)] P c(2)] n(2) by simp
    then have ge: "?n \<le> n" using cut_iff [OF D(2) P n(1)] by simp
    have "?n = n"
    proof (rule ccontr)
      assume "?n \<noteq> n"
      then have lt: "?n < n" using ge by simp
      then have n': "?n < length kvs" using n(1) by simp
      obtain j p where j: "j < length kvss" "p < length (kvss ! j)" "kvss ! j ! p = kvs ! ?n"
        using merged_from [OF ok n'] by metis
      have "cmp (fst (kvss ! c ! ?p c)) (fst (kvs ! ?n)) \<le> 0"
        using three_way.cmp_trans [OF D(1) min [OF j(1)]] early [OF j n'] by blast
      then have "\<not> cmp (fst (kvs ! ?n)) (fst (kvs ! n)) < 0"
        using three_way.cmp_flip [OF D(1)] n(2) by force
      then show False using ascending_nth [OF D(2) lt n(1)] by simp
    qed
    have "cut (\<lambda>kv. cmp (fst kv) (fst (kvs ! ?n)) < 0) (kvss ! j) = ?p j" if "j < length kvss" for j
      using n(1) \<open>?n = n\<close> by (intro cut_same [OF ok P that] ascending_less_iff [OF D(1,2)]) simp_all
    then show ?thesis
      unfolding mg_pos_def using m' c n \<open>?n = n\<close> Some by (intro exI [of _ ?p] conjI disjI2) simp_all
  qed
qed

text \<open>Where the last pair before a cut is.\<close>

lemma last_pos_valid:
  "last_pos P kvs < length kvs \<longleftrightarrow> 0 < cut P kvs"
  using cut_le [of P kvs] by (auto simp: last_pos_def)

lemma cut_none [simp]: "cut (\<lambda>_. False) kvs = 0"
  by (cases kvs) (simp_all add: cut_def)

lemma cut_all [simp]: "cut (\<lambda>_. True) kvs = length kvs"
  by (induction kvs) (simp_all add: cut_def)

lemma last_pos_all: "last_pos (\<lambda>_. True) kvs = length kvs - 1"
  by (simp add: last_pos_def)

lemma last_pos_cong: "cut P kvs = cut Q kvs \<Longrightarrow> last_pos P kvs = last_pos Q kvs"
  by (simp add: last_pos_def)

lemma FindLargest_pos:
  assumes ok: "merge_ok it cmp kvss kvs cpos lim" and m: "children_at it kvss cpos m (\<lambda>j. last_pos P (kvss ! j))"
    and P: "down_closed cmp P"
  shows "mg_pos it cmp kvss kvs cpos ((FindLargest cmp m)\<lparr>mg_direction := kReverse\<rparr>) (last_pos P kvs)"
proof -
  let ?p = "\<lambda>j. last_pos P (kvss ! j)" and ?m = "(FindLargest cmp m)\<lparr>mg_direction := kReverse\<rparr>" and ?n = "last_pos P kvs"
  note D = merge_okD [OF ok]
  have len: "length (mg_children m) = length kvss" using m by (simp add: children_at_def)
  have m': "children_at it kvss cpos ?m ?p" using m by (simp add: children_at_def)
  note best = FindLargest_current [OF D(1), of m, unfolded len best_of_def]
  have late: "?p j < length (kvss ! j) \<and> cmp (fst (kvs ! ?n)) (fst (kvss ! j ! ?p j)) \<le> 0"
    if j: "j < length kvss" "p < length (kvss ! j)" "kvss ! j ! p = kvs ! ?n" "?n < length kvs" for j p
  proof -
    have "P (kvs ! ?n)" using cut_iff [OF D(2) P j(4)] j(4) by (auto simp: last_pos_def split: if_splits)
    then have "p < cut P (kvss ! j)" using cut_iff [OF D(3) P j(2)] j by simp
    then have v: "p \<le> ?p j" "?p j < length (kvss ! j)" using last_pos_valid [of P "kvss ! j"] by (auto simp: last_pos_def)
    then show ?thesis
      using j(2,3) ascending_nth [OF D(3), of j p "?p j"] j(1) three_way.cmp_refl [OF D(1)]
      by (cases "?p j = p") simp_all
  qed
  show ?thesis
  proof (cases "mg_current (FindLargest cmp m)")
    case None
    have "\<not> ?n < length kvs"
    proof
      assume n: "?n < length kvs"
      obtain j p where j: "j < length kvss" "p < length (kvss ! j)" "kvss ! j ! p = kvs ! ?n"
        using merged_from [OF ok n] by metis
      then show False using late [OF j n] best None child_at(1) [OF ok m j(1)] by simp
    qed
    then have "?n = length kvs" using cut_le [of P kvs] by (auto simp: last_pos_def split: if_splits)
    then show ?thesis using mg_pos_none [OF ok m'] None by simp
  next
    case (Some c)
    have c: "c < length kvss" "?p c < length (kvss ! c)"
      using best Some child_at(1) [OF ok m, of c] by simp_all
    have max: "cmp (fst (kvss ! j ! ?p j)) (fst (kvss ! c ! ?p c)) \<le> 0"
      if "j < length kvss" "?p j < length (kvss ! j)" for j
      using best Some that child_at [OF ok m that(1)] child_at(2) [OF ok m c] three_way.cmp_flip_ge [OF D(1)]
      by (auto dest: bspec [of _ _ j])
    obtain n where n: "n < length kvs" "kvs ! n = kvss ! c ! ?p c" using merged_nth [OF ok c] by metis
    have "P (kvs ! n)"
      using cut_iff [OF D(3) [OF c(1)] P c(2)] n(2) c(2) last_pos_valid [of P "kvss ! c"] by (simp add: last_pos_def)
    then have "n < cut P kvs" using cut_iff [OF D(2) P n(1)] by simp
    then have le: "n \<le> ?n" and n': "?n < length kvs" using last_pos_valid [of P kvs] by (auto simp: last_pos_def)
    have "?n = n"
    proof (rule ccontr)
      assume "?n \<noteq> n"
      then have lt: "n < ?n" using le by simp
      obtain j p where j: "j < length kvss" "p < length (kvss ! j)" "kvss ! j ! p = kvs ! ?n"
        using merged_from [OF ok n'] by metis
      have "cmp (fst (kvs ! ?n)) (fst (kvss ! c ! ?p c)) \<le> 0"
        using three_way.cmp_trans [OF D(1) _ max [OF j(1)]] late [OF j n'] by blast
      then have "\<not> cmp (fst (kvs ! n)) (fst (kvs ! ?n)) < 0"
        using three_way.cmp_flip [OF D(1)] n(2) by force
      then show False using ascending_nth [OF D(2) lt n'] by simp
    qed
    have cutn: "cut P kvs = Suc ?n" using n' last_pos_valid [of P kvs] by (simp add: last_pos_def)
    have "cut (\<lambda>kv. cmp (fst kv) (fst (kvs ! ?n)) < 0) (kvss ! j) = cut P (kvss ! j)"
      if j: "j < length kvss" "j \<noteq> c" for j
    proof (rule cut_same [OF ok P j(1)])
      fix k assume k: "k < length kvs" "kvs ! k \<in> set (kvss ! j)"
      have "kvs ! n \<in> set (kvss ! c)" using n(2) c(2) by simp
      then have "k \<noteq> ?n" using merged_other [OF ok j(1) c(1) j(2) k(2)] \<open>?n = n\<close> by blast
      then show "cmp (fst (kvs ! k)) (fst (kvs ! ?n)) < 0 \<longleftrightarrow> k < cut P kvs"
        using ascending_less_iff [OF D(1,2) k(1) n'] cutn by (simp add: less_Suc_eq)
    qed
    then have "last_pos (\<lambda>kv. cmp (fst kv) (fst (kvs ! ?n)) < 0) (kvss ! j) = ?p j"
      if "j < length kvss" "j \<noteq> c" for j using that by (intro last_pos_cong) simp
    then show ?thesis
      unfolding mg_pos_def using m' c n \<open>?n = n\<close> Some by (intro exI [of _ ?p] conjI disjI2) simp_all
  qed
qed

section \<open>The moves\<close>

lemma Merging_SeekToFirst_ok:
  assumes ok: "merge_ok it cmp kvss kvs cpos lim" and m: "children_at it kvss cpos m ps"
  shows "\<exists>m'. Merging_SeekToFirst it cmp m = Some m' \<and> mg_pos it cmp kvss kvs cpos m' 0"
proof -
  obtain m' where m': "move_children (\<lambda>_. it_SeekToFirst (IteratorWrapper it)) m = Some m'"
      "children_at it kvss cpos m' (\<lambda>j. cut (\<lambda>_. False) (kvss ! j))"
    using move_children_ok [OF m, of "\<lambda>_. it_SeekToFirst (IteratorWrapper it)" "\<lambda>j. cut (\<lambda>_. False) (kvss ! j)"]
      bounded_iterator.seek_first [OF merge_okD(4) [OF ok]] by auto
  have "mg_pos it cmp kvss kvs cpos ((FindSmallest cmp m')\<lparr>mg_direction := kForward\<rparr>) (cut (\<lambda>_. False) kvs)"
    by (rule FindSmallest_pos [OF ok m'(2)]) (simp add: down_closed_def)
  then show ?thesis using m'(1) by (simp add: Merging_SeekToFirst_def)
qed

lemma Merging_SeekToLast_ok:
  assumes ok: "merge_ok it cmp kvss kvs cpos lim" and m: "children_at it kvss cpos m ps"
  shows "\<exists>m'. Merging_SeekToLast it cmp m = Some m' \<and> mg_pos it cmp kvss kvs cpos m' (length kvs - 1)"
proof -
  obtain m' where m': "move_children (\<lambda>_. it_SeekToLast (IteratorWrapper it)) m = Some m'"
      "children_at it kvss cpos m' (\<lambda>j. last_pos (\<lambda>_. True) (kvss ! j))"
    using move_children_ok [OF m, of "\<lambda>_. it_SeekToLast (IteratorWrapper it)" "\<lambda>j. last_pos (\<lambda>_. True) (kvss ! j)"]
      bounded_iterator.seek_last [OF merge_okD(4) [OF ok]] by (auto simp: last_pos_all)
  have "mg_pos it cmp kvss kvs cpos ((FindLargest cmp m')\<lparr>mg_direction := kReverse\<rparr>) (last_pos (\<lambda>_. True) kvs)"
    by (rule FindLargest_pos [OF ok m'(2)]) (simp add: down_closed_def)
  then show ?thesis using m'(1) by (simp add: Merging_SeekToLast_def last_pos_all)
qed

lemma Merging_Seek_ok:
  assumes ok: "merge_ok it cmp kvss kvs cpos lim" and m: "children_at it kvss cpos m ps" and target: "length target < lim"
  shows "\<exists>m'. Merging_Seek it cmp target m = Some m' \<and> mg_pos it cmp kvss kvs cpos m' (lower_bound cmp target kvs)"
proof -
  obtain m' where m': "move_children (\<lambda>_. it_Seek (IteratorWrapper it) target) m = Some m'"
      "children_at it kvss cpos m' (\<lambda>j. cut (\<lambda>kv. cmp (fst kv) target < 0) (kvss ! j))"
    using move_children_ok [OF m, of "\<lambda>_. it_Seek (IteratorWrapper it) target" "\<lambda>j. lower_bound cmp target (kvss ! j)"]
      bounded_iterator.seek [OF merge_okD(4) [OF ok] _ target] by (auto simp: lower_bound_cut)
  have "mg_pos it cmp kvss kvs cpos ((FindSmallest cmp m')\<lparr>mg_direction := kForward\<rparr>) (lower_bound cmp target kvs)"
    unfolding lower_bound_cut by (rule FindSmallest_pos [OF ok m'(2) down_closed_less [OF merge_okD(1) [OF ok]]])
  then show ?thesis using m'(1) by (simp add: Merging_Seek_def)
qed

text \<open>At a pair: the keys, and the cuts just before and just past it.\<close>

lemma mg_posE:
  assumes "mg_pos it cmp kvss kvs cpos m n" "n < length kvs"
  obtains ps c where "children_at it kvss cpos m ps" "mg_current m = Some c" "c < length kvss"
    "ps c < length (kvss ! c)" "kvss ! c ! ps c = kvs ! n"
    "\<forall>j<length kvss. j \<noteq> c \<longrightarrow>
      ps j = (if mg_direction m = kForward then cut (\<lambda>kv. cmp (fst kv) (fst (kvs ! n)) < 0) (kvss ! j)
              else last_pos (\<lambda>kv. cmp (fst kv) (fst (kvs ! n)) < 0) (kvss ! j))"
  using assms unfolding mg_pos_def by auto

lemma cut_before:
  assumes ok: "merge_ok it cmp kvss kvs cpos lim" and n: "n < length kvs"
    and c: "c < length kvss" "p < length (kvss ! c)" "kvss ! c ! p = kvs ! n"
  shows "cut (\<lambda>kv. cmp (fst kv) (fst (kvs ! n)) < 0) kvs = n"
    "cut (\<lambda>kv. cmp (fst kv) (fst (kvs ! n)) < 0) (kvss ! c) = p"
proof -
  note D = merge_okD [OF ok]
  show "cut (\<lambda>kv. cmp (fst kv) (fst (kvs ! n)) < 0) kvs = n"
    by (rule cut_eqI [OF D(2) down_closed_less [OF D(1)]]) (use n ascending_less_iff [OF D(1,2)] in auto)
  show "cut (\<lambda>kv. cmp (fst kv) (fst (kvs ! n)) < 0) (kvss ! c) = p"
    unfolding c(3) [symmetric]
    by (rule cut_eqI [OF D(3) down_closed_less [OF D(1)]]) (use c(1,2) ascending_less_iff [OF D(1) D(3) [OF c(1)]] in auto)
qed

lemma cut_past:
  assumes ok: "merge_ok it cmp kvss kvs cpos lim" and n: "n < length kvs"
    and c: "c < length kvss" "p < length (kvss ! c)" "kvss ! c ! p = kvs ! n"
  shows "cut (\<lambda>kv. \<not> cmp (fst (kvs ! n)) (fst kv) < 0) kvs = Suc n"
    "cut (\<lambda>kv. \<not> cmp (fst (kvs ! n)) (fst kv) < 0) (kvss ! c) = Suc p"
    "j < length kvss \<Longrightarrow> j \<noteq> c \<Longrightarrow> cut (\<lambda>kv. \<not> cmp (fst (kvs ! n)) (fst kv) < 0) (kvss ! j) =
       cut (\<lambda>kv. cmp (fst kv) (fst (kvs ! n)) < 0) (kvss ! j)"
proof -
  note D = merge_okD [OF ok]
  note P = down_closed_upto [OF D(1)]
  show all: "cut (\<lambda>kv. \<not> cmp (fst (kvs ! n)) (fst kv) < 0) kvs = Suc n"
    by (rule cut_eqI [OF D(2) P]) (use n ascending_less_iff [OF D(1,2)] in auto)
  show "cut (\<lambda>kv. \<not> cmp (fst (kvs ! n)) (fst kv) < 0) (kvss ! c) = Suc p"
    unfolding c(3) [symmetric] by (rule cut_eqI [OF D(3) P]) (use c(1,2) ascending_less_iff [OF D(1) D(3) [OF c(1)]] in auto)
  assume j: "j < length kvss" "j \<noteq> c"
  have "kvs ! n \<in> set (kvss ! c)" using c(2) by (simp add: c(3) [symmetric])
  then have "k \<noteq> n" if "kvs ! k \<in> set (kvss ! j)" for k using merged_other [OF ok j(1) c(1) j(2) that] by blast
  then show "cut (\<lambda>kv. \<not> cmp (fst (kvs ! n)) (fst kv) < 0) (kvss ! j) = cut (\<lambda>kv. cmp (fst kv) (fst (kvs ! n)) < 0) (kvss ! j)"
    using n by (intro cut_same [OF ok P j(1), symmetric]) (auto simp: all ascending_less_iff [OF D(1,2)] less_Suc_eq)
qed

lemma turn_forward_ok:
  assumes ok: "merge_ok it cmp kvss kvs cpos lim" and n: "n < length kvs"
    and c: "c < length kvss" "p < length (kvss ! c)" "kvss ! c ! p = kvs ! n"
    and j: "j < length kvss" "j \<noteq> c" "wrapper_pos it (cpos j) w q"
  shows "\<exists>w'. turn_forward it cmp (fst (kvs ! n)) w = Some w' \<and>
    wrapper_pos it (cpos j) w' (cut (\<lambda>kv. cmp (fst kv) (fst (kvs ! n)) < 0) (kvss ! j))"
proof -
  let ?k = "fst (kvs ! n)"
  note o = merge_okD(4) [OF ok j(1)]
  obtain w' where w': "it_Seek (IteratorWrapper it) ?k w = Some w'" "wrapper_pos it (cpos j) w' (lower_bound cmp ?k (kvss ! j))"
    using bounded_iterator.seek [OF o j(3) merge_okD(5) [OF ok n]] by blast
  have "cmp ?k (iw_key w') \<noteq> 0" if "iw_valid w'"
  proof -
    have l: "lower_bound cmp ?k (kvss ! j) < length (kvss ! j)"
      using bounded_iterator.valid_iff [OF o w'(2)] that by (simp add: IteratorWrapper_def)
    then have "iw_key w' = fst (kvss ! j ! lower_bound cmp ?k (kvss ! j))"
      using bounded_iterator.key_at [OF o w'(2)] by (simp add: IteratorWrapper_def)
    moreover have "kvs ! n \<in> set (kvss ! c)" using c(2) by (simp add: c(3) [symmetric])
    ultimately show ?thesis using ok c(1) j(1,2) nth_mem [OF l] by (simp add: merge_ok_def merges_def)
  qed
  then show ?thesis using w' by (auto simp: turn_forward_def lower_bound_cut)
qed

lemma turn_back_ok:
  assumes ok: "merge_ok it cmp kvss kvs cpos lim" and j: "j < length kvss" "wrapper_pos it (cpos j) w q" and k: "length k < lim"
  shows "\<exists>w'. turn_back it k w = Some w' \<and>
    wrapper_pos it (cpos j) w' (last_pos (\<lambda>kv. cmp (fst kv) k < 0) (kvss ! j))"
proof -
  note o = merge_okD(4) [OF ok j(1)]
  let ?l = "lower_bound cmp k (kvss ! j)"
  obtain w' where w': "it_Seek (IteratorWrapper it) k w = Some w'" "wrapper_pos it (cpos j) w' ?l"
    using bounded_iterator.seek [OF o j(2) k] by blast
  have v: "iw_valid w' \<longleftrightarrow> ?l < length (kvss ! j)"
    using bounded_iterator.valid_iff [OF o w'(2)] by (simp add: IteratorWrapper_def)
  show ?thesis
  proof (cases "?l < length (kvss ! j)")
    case True
    with bounded_iterator.prev_at [OF o w'(2)] v w'(1) show ?thesis
      by (auto simp: turn_back_def last_pos_def lower_bound_cut)
  next
    case False
    then have "last_pos (\<lambda>kv. cmp (fst kv) k < 0) (kvss ! j) = length (kvss ! j) - 1"
      using lower_bound_le [of cmp k "kvss ! j"] by (auto simp: last_pos_def lower_bound_cut)
    with False bounded_iterator.seek_last [OF o w'(2)] v w'(1) show ?thesis by (auto simp: turn_back_def)
  qed
qed

lemma Merging_Next_ok:
  assumes ok: "merge_ok it cmp kvss kvs cpos lim" and m: "mg_pos it cmp kvss kvs cpos m n" and n: "n < length kvs"
  shows "\<exists>m'. Merging_Next it cmp m = Some m' \<and> mg_pos it cmp kvss kvs cpos m' (Suc n)"
proof -
  let ?lt = "\<lambda>kv. cmp (fst kv) (fst (kvs ! n)) < 0" and ?le = "\<lambda>kv. \<not> cmp (fst (kvs ! n)) (fst kv) < 0"
  obtain ps c where ps: "children_at it kvss cpos m ps" "mg_current m = Some c" "c < length kvss"
      "ps c < length (kvss ! c)" "kvss ! c ! ps c = kvs ! n"
      "\<forall>j<length kvss. j \<noteq> c \<longrightarrow>
        ps j = (if mg_direction m = kForward then cut ?lt (kvss ! j) else last_pos ?lt (kvss ! j))"
    by (rule mg_posE [OF m n])
  have key: "iw_key (mg_children m ! c) = fst (kvs ! n)" using child_at(2) [OF ok ps(1,3,4)] ps(5) by simp
  let ?turn = "if mg_direction m \<noteq> kForward then
                 map_option (\<lambda>m. m\<lparr>mg_direction := kForward\<rparr>)
                   (move_children (\<lambda>i w. if i \<noteq> c then turn_forward it cmp (iw_key (mg_children m ! c)) w else Some w) m)
               else Some m"
  have "\<exists>m1. ?turn = Some m1 \<and> children_at it kvss cpos m1 (\<lambda>j. cut ?lt (kvss ! j)) \<and> mg_direction m1 = kForward"
  proof (cases "mg_direction m = kForward")
    case True
    then have "children_at it kvss cpos m (\<lambda>j. cut ?lt (kvss ! j))"
      using ps(1,6) cut_before(2) [OF ok n ps(3-5)] by (fastforce simp: children_at_def)
    with True show ?thesis by simp
  next
    case False
    have "\<exists>m1. move_children (\<lambda>i w. if i \<noteq> c then turn_forward it cmp (iw_key (mg_children m ! c)) w else Some w) m = Some m1 \<and>
        children_at it kvss cpos m1 (\<lambda>j. cut ?lt (kvss ! j)) \<and> mg_direction m1 = mg_direction m \<and> mg_current m1 = mg_current m"
      by (rule move_children_ok [OF ps(1)])
        (use turn_forward_ok [OF ok n ps(3-5)] cut_before(2) [OF ok n ps(3-5)] key in auto)
    with False show ?thesis by auto
  qed
  then obtain m1 where m1: "?turn = Some m1" "children_at it kvss cpos m1 (\<lambda>j. cut ?lt (kvss ! j))" "mg_direction m1 = kForward"
    by blast
  have "\<exists>m2. move_children (\<lambda>i w. if i = c then it_Next (IteratorWrapper it) w else Some w) m1 = Some m2 \<and>
      children_at it kvss cpos m2 (\<lambda>j. cut ?le (kvss ! j)) \<and> mg_direction m2 = mg_direction m1 \<and> mg_current m2 = mg_current m1"
    by (rule move_children_ok [OF m1(2)])
      (use bounded_iterator.next_at [OF merge_okD(4) [OF ok ps(3)]] cut_before(2) [OF ok n ps(3-5)]
         cut_past [OF ok n ps(3-5)] ps(4) in auto)
  then obtain m2 where m2: "move_children (\<lambda>i w. if i = c then it_Next (IteratorWrapper it) w else Some w) m1 = Some m2"
      "children_at it kvss cpos m2 (\<lambda>j. cut ?le (kvss ! j))" "mg_direction m2 = kForward" using m1(3) by auto
  have "(FindSmallest cmp m2)\<lparr>mg_direction := kForward\<rparr> = FindSmallest cmp m2" using m2(3) by (simp add: FindSmallest_def)
  then have "mg_pos it cmp kvss kvs cpos (FindSmallest cmp m2) (Suc n)"
    using FindSmallest_pos [OF ok m2(2) down_closed_upto [OF merge_okD(1) [OF ok]]] cut_past(1) [OF ok n ps(3-5)] by simp
  then show ?thesis using m1(1) m2(1) by (simp add: Merging_Next_def ps(2))
qed

lemma Merging_Prev_ok:
  assumes ok: "merge_ok it cmp kvss kvs cpos lim" and m: "mg_pos it cmp kvss kvs cpos m n" and n: "n < length kvs"
  shows "\<exists>m'. Merging_Prev it cmp m = Some m' \<and>
    mg_pos it cmp kvss kvs cpos m' (if n = 0 then length kvs else n - 1)"
proof -
  let ?lt = "\<lambda>kv. cmp (fst kv) (fst (kvs ! n)) < 0"
  obtain ps c where ps: "children_at it kvss cpos m ps" "mg_current m = Some c" "c < length kvss"
      "ps c < length (kvss ! c)" "kvss ! c ! ps c = kvs ! n"
      "\<forall>j<length kvss. j \<noteq> c \<longrightarrow>
        ps j = (if mg_direction m = kForward then cut ?lt (kvss ! j) else last_pos ?lt (kvss ! j))"
    by (rule mg_posE [OF m n])
  have key: "iw_key (mg_children m ! c) = fst (kvs ! n)" using child_at(2) [OF ok ps(1,3,4)] ps(5) by simp
  let ?turn = "if mg_direction m \<noteq> kReverse then
                 map_option (\<lambda>m. m\<lparr>mg_direction := kReverse\<rparr>)
                   (move_children (\<lambda>i w. if i \<noteq> c then turn_back it (iw_key (mg_children m ! c)) w else Some w) m)
               else Some m"
  let ?ps = "\<lambda>j. if j = c then ps c else last_pos ?lt (kvss ! j)"
  have "\<exists>m1. ?turn = Some m1 \<and> children_at it kvss cpos m1 ?ps \<and> mg_direction m1 = kReverse"
  proof (cases "mg_direction m = kReverse")
    case True
    then have "children_at it kvss cpos m ?ps" using ps(1,6) by (fastforce simp: children_at_def)
    with True show ?thesis by simp
  next
    case False
    have "\<exists>m1. move_children (\<lambda>i w. if i \<noteq> c then turn_back it (iw_key (mg_children m ! c)) w else Some w) m = Some m1 \<and>
        children_at it kvss cpos m1 ?ps \<and> mg_direction m1 = mg_direction m \<and> mg_current m1 = mg_current m"
      by (rule move_children_ok [OF ps(1)]) (use turn_back_ok [OF ok _ _ merge_okD(5) [OF ok n]] key in auto)
    with False show ?thesis by auto
  qed
  then obtain m1 where m1: "?turn = Some m1" "children_at it kvss cpos m1 ?ps" "mg_direction m1 = kReverse"
    by blast
  have "\<exists>m2. move_children (\<lambda>i w. if i = c then it_Prev (IteratorWrapper it) w else Some w) m1 = Some m2 \<and>
      children_at it kvss cpos m2 (\<lambda>j. last_pos ?lt (kvss ! j)) \<and> mg_direction m2 = mg_direction m1 \<and> mg_current m2 = mg_current m1"
    by (rule move_children_ok [OF m1(2)])
      (use bounded_iterator.prev_at [OF merge_okD(4) [OF ok ps(3)] _ ps(4)] cut_before(2) [OF ok n ps(3-5)] in
        \<open>auto simp: last_pos_def\<close>)
  then obtain m2 where m2: "move_children (\<lambda>i w. if i = c then it_Prev (IteratorWrapper it) w else Some w) m1 = Some m2"
      "children_at it kvss cpos m2 (\<lambda>j. last_pos ?lt (kvss ! j))" "mg_direction m2 = kReverse" using m1(3) by auto
  have "(FindLargest cmp m2)\<lparr>mg_direction := kReverse\<rparr> = FindLargest cmp m2" using m2(3) by (simp add: FindLargest_def)
  then have "mg_pos it cmp kvss kvs cpos (FindLargest cmp m2) (last_pos ?lt kvs)"
    using FindLargest_pos [OF ok m2(2) down_closed_less [OF merge_okD(1) [OF ok]]] by simp
  moreover have "last_pos ?lt kvs = (if n = 0 then length kvs else n - 1)"
    using cut_before(1) [OF ok n ps(3-5)] by (simp add: last_pos_def)
  ultimately show ?thesis using m1(1) m2(1) by (simp add: Merging_Prev_def ps(2))
qed

section \<open>The contract\<close>

lemma first_error_ok: "(\<And>t. t \<in> set ts \<Longrightarrow> t = Status_OK) \<Longrightarrow> first_error ts Status_OK = Status_OK"
  by (induction ts) auto

lemma Merging_contract:
  assumes ok: "merge_ok it cmp kvss kvs cpos lim"
  shows "bounded_iterator (MergingIterator it cmp) cmp kvs (mg_pos it cmp kvss kvs cpos) lim"
proof unfold_locales
  fix m n target
  assume pos: "mg_pos it cmp kvss kvs cpos m n"
  then obtain ps where ps: "children_at it kvss cpos m ps" unfolding mg_pos_def by blast
  show "n \<le> length kvs" using pos by (auto simp: mg_pos_def)
  show "it_Valid (MergingIterator it cmp) m = (n < length kvs)" using pos by (auto simp: mg_pos_def MergingIterator_def)
  have "t = Status_OK" if "t \<in> set (map (it_status (IteratorWrapper it)) (mg_children m))" for t
    using that child_at(4) [OF ok ps] ps by (auto simp: in_set_conv_nth children_at_def)
  then show "it_status (MergingIterator it cmp) m = Status_OK"
    unfolding MergingIterator_def Iterator.simps by (rule first_error_ok)
  show "\<exists>i'. it_SeekToFirst (MergingIterator it cmp) m = Some i' \<and> mg_pos it cmp kvss kvs cpos i' 0"
    unfolding MergingIterator_def Iterator.simps by (rule Merging_SeekToFirst_ok [OF ok ps])
  show "\<exists>i'. it_SeekToLast (MergingIterator it cmp) m = Some i' \<and> mg_pos it cmp kvss kvs cpos i' (length kvs - 1)"
    unfolding MergingIterator_def Iterator.simps by (rule Merging_SeekToLast_ok [OF ok ps])
  show "\<exists>i'. it_Seek (MergingIterator it cmp) target m = Some i' \<and>
      mg_pos it cmp kvss kvs cpos i' (lower_bound cmp target kvs)"
    if "length target < lim"
    unfolding MergingIterator_def Iterator.simps by (rule Merging_Seek_ok [OF ok ps that])
  assume n: "n < length kvs"
  obtain qs c where c: "children_at it kvss cpos m qs" "mg_current m = Some c" "c < length kvss"
      "qs c < length (kvss ! c)" "kvss ! c ! qs c = kvs ! n"
    by (rule mg_posE [OF pos n]) blast
  show "it_key (MergingIterator it cmp) m = fst (kvs ! n)" "it_value (MergingIterator it cmp) m = snd (kvs ! n)"
    using c child_at [OF ok c(1,3)] by (simp_all add: MergingIterator_def)
  show "\<exists>i'. it_Next (MergingIterator it cmp) m = Some i' \<and> mg_pos it cmp kvss kvs cpos i' (Suc n)"
    unfolding MergingIterator_def Iterator.simps by (rule Merging_Next_ok [OF ok pos n])
  show "\<exists>i'. it_Prev (MergingIterator it cmp) m = Some i' \<and>
      mg_pos it cmp kvss kvs cpos i' (if n = 0 then length kvs else n - 1)"
    unfolding MergingIterator_def Iterator.simps by (rule Merging_Prev_ok [OF ok pos n])
qed

text \<open>A fresh iterator is not valid.\<close>

lemma Merging_make_pos:
  assumes "length children = length kvss" "\<And>j. j < length kvss \<Longrightarrow> \<exists>n. cpos j (children ! j) n"
  shows "mg_pos it cmp kvss kvs cpos (Merging_make it children) (length kvs)"
proof -
  obtain ps where "\<And>j. j < length kvss \<Longrightarrow> cpos j (children ! j) (ps j)" using assms(2) by metis
  then have "children_at it kvss cpos (Merging_make it children) ps"
    using assms(1) wrapper_pos_Set [of "cpos _" _ _ it] by (simp add: children_at_def Merging_make_def)
  then show ?thesis unfolding mg_pos_def by (auto simp: Merging_make_def)
qed

text \<open>With one child the merged list is the child's list, since an ascending list is determined by its set.\<close>

lemma ascending_unique:
  assumes "three_way cmp" "ascending cmp xs" "ascending cmp ys" "set xs = set ys"
  shows "xs = ys"
  using assms(2-4)
proof (induction xs arbitrary: ys)
  case (Cons x xs)
  note irrefl = three_way.cmp_refl [OF assms(1)]
  obtain y ys' where ys: "ys = y # ys'" using Cons.prems(3) by (cases ys) auto
  have x: "\<And>z. z \<in> set xs \<Longrightarrow> cmp (fst x) (fst z) < 0" and y: "\<And>z. z \<in> set ys' \<Longrightarrow> cmp (fst y) (fst z) < 0"
    using Cons.prems(1,2) by (auto simp: ascending_def ys)
  have eq: "x = y"
  proof (rule ccontr)
    assume "x \<noteq> y"
    then have "y \<in> set xs" "x \<in> set ys'" using Cons.prems(3) by (auto simp: ys)
    then show False using x [of y] y [of x] three_way.cmp_flip [OF assms(1), of "fst x" "fst y"] by simp
  qed
  have "x \<notin> set xs" "y \<notin> set ys'" using x [of x] y [of y] irrefl by auto
  then have "set xs = set ys'" using Cons.prems(3) eq by (auto simp: ys)
  then show ?case using Cons.IH [of ys'] Cons.prems(1,2) eq by (simp add: ascending_def ys)
qed simp

text \<open>
  C27. A merging iterator lists the union of its children: when every child keeps the
  iterator contract over a list of its own, no two of them with equal keys and no key longer than what
  can be sought, the iterator that \<^verbatim>\<open>NewMergingIterator\<close> returns (empty, the only child, or a merge)
  keeps the same contract over the ascending list of all their pairs: every seek lands on the first pair at or past the target, and
  \<^verbatim>\<open>Next\<close> and \<^verbatim>\<open>Prev\<close>, in any order and with any changes of direction, step to the neighbours in that list.
\<close>

theorem merging_iterator:
  assumes "three_way cmp" and "merges cmp kvss kvs" and "length children = length kvss"
    and "\<forall>j<length kvss. bounded_iterator it cmp (kvss ! j) (cpos j) lim \<and> (\<exists>n. cpos j (children ! j) n)"
    and "\<forall>kv\<in>set kvs. length (fst kv) < lim"
  shows "\<exists>pos. bounded_iterator (MergedIterator it cmp) cmp kvs pos lim \<and> (\<exists>n. pos (NewMergingIterator it children) n)"
proof (cases children rule: remdups_adj.cases)
  case 1
  have "kvs = []" using assms(2,3) 1 by (simp add: merges_def)
  then have "bounded_iterator (MergedIterator it cmp) cmp kvs (left_pos (\<lambda>s n. s = NewEmptyIterator \<and> n = 0)) lim"
    unfolding MergedIterator_def using bounded_iterator.left_contract [OF empty_iterator.bounded] by simp
  then show ?thesis using 1 by (auto simp: NewMergingIterator_def left_pos_def)
next
  case (2 child)
  obtain l where l: "kvss = [l]" using assms(3) 2 by (cases kvss) auto
  have "kvs = l" using assms(2) by (intro ascending_unique [OF assms(1)]) (simp_all add: merges_def l)
  then have "bounded_iterator it cmp kvs (cpos 0) lim" and p: "\<exists>n. cpos 0 child n" using assms(4) l 2 by auto
  then have "bounded_iterator (MergedIterator it cmp) cmp kvs (right_pos (left_pos (cpos 0))) lim"
    unfolding MergedIterator_def by (intro bounded_iterator.right_contract bounded_iterator.left_contract)
  then show ?thesis using 2 p
    by (intro exI [of _ "right_pos (left_pos (cpos 0))"]) (simp add: NewMergingIterator_def left_pos_def right_pos_def)
next
  case (3 x y zs)
  have "merge_ok it cmp kvss kvs cpos lim" using assms by (simp add: merge_ok_def)
  then have "bounded_iterator (MergedIterator it cmp) cmp kvs (right_pos (right_pos (mg_pos it cmp kvss kvs cpos))) lim"
    unfolding MergedIterator_def by (intro bounded_iterator.right_contract Merging_contract)
  moreover have "mg_pos it cmp kvss kvs cpos (Merging_make it children) (length kvs)"
    by (rule Merging_make_pos) (use assms(3,4) in auto)
  ultimately show ?thesis using 3
    by (intro exI [of _ "right_pos (right_pos (mg_pos it cmp kvss kvs cpos))"])
      (auto simp: NewMergingIterator_def right_pos_def)
qed

theorem merging_iterator_witness:
  "\<exists>pos. bounded_iterator (MergedIterator (ListIterator Slice_compare) Slice_compare) Slice_compare
       [([1], [10]), ([2], [20]), ([3], [30]), ([4], [40])] pos 9 \<and>
     (\<exists>n. pos (NewMergingIterator (ListIterator Slice_compare)
                [([([1], [10]), ([4], [40])], 0), ([], 0), ([([2], [20]), ([3], [30])], 2)]) n)"
proof (rule merging_iterator [of _ "[[([1], [10]), ([4], [40])], [], [([2], [20]), ([3], [30])]]" _ _ _
      "\<lambda>j. list_pos ([[([1], [10]), ([4], [40])], [], [([2], [20]), ([3], [30])]] ! j)"])
  show "three_way Slice_compare" using bytewise.three_way_axioms by simp
  show "merges Slice_compare [[([1], [10]), ([4], [40])], [], [([2], [20]), ([3], [30])]]
      [([1], [10]), ([2], [20]), ([3], [30]), ([4], [40])]"
    by (auto simp: merges_def ascending_def less_Suc_eq)
qed (auto simp: list_pos_def less_Suc_eq intro: list_iterator.bounded)

end
