(* ===== verification/DB_Iter.thy ===== *)
theory DB_Iter
  imports Merger Memtable
begin

text \<open>
  \<^verbatim>\<open>db/db_iter.cc\<close>: the iterator a client sees.  It walks an iterator over internal keys in both
  directions, hides what is newer than its sequence number, overwritten or deleted, and now and then
  reports a key it has read to the database.  The keys given to \<^verbatim>\<open>db_->RecordReadSample\<close> are kept in a
  list, and a call that does not return is \<open>None\<close>.
\<close>

section \<open>The iterator\<close>

text \<open>The capacities of the two strings are not part of the state: they only tell when memory is given back.\<close>

record 'i DBIter =
  di_iter :: 'i
  di_sequence :: SequenceNumber
  di_status :: Status
  di_saved_key :: bytes
  di_saved_value :: bytes
  di_direction :: Direction
  di_valid :: bool
  di_rnd :: Random
  di_bytes_until :: nat
  di_samples :: "bytes list"

definition RandomCompactionPeriod :: "Random \<Rightarrow> nat \<times> Random" where
  "RandomCompactionPeriod r = Random_Uniform r (2 * kReadBytesPeriod)"

definition NewDBIterator :: "'i \<Rightarrow> SequenceNumber \<Rightarrow> u32 \<Rightarrow> 'i DBIter" where
  "NewDBIterator internal_iter sequence sd =
     (let (period, r) = RandomCompactionPeriod (Random_make sd)
      in \<lparr>di_iter = internal_iter, di_sequence = sequence, di_status = Status_OK, di_saved_key = [],
          di_saved_value = [], di_direction = kForward, di_valid = False, di_rnd = r,
          di_bytes_until = period, di_samples = []\<rparr>)"

definition DBIter_key :: "'i Iterator \<Rightarrow> 'i DBIter \<Rightarrow> bytes" where
  "DBIter_key it d =
     (if di_direction d = kForward then ExtractUserKey (it_key it (di_iter d)) else di_saved_key d)"

definition DBIter_value :: "'i Iterator \<Rightarrow> 'i DBIter \<Rightarrow> bytes" where
  "DBIter_value it d = (if di_direction d = kForward then it_value it (di_iter d) else di_saved_value d)"

definition DBIter_status :: "'i Iterator \<Rightarrow> 'i DBIter \<Rightarrow> Status" where
  "DBIter_status it d = (if Status_ok (di_status d) then it_status it (di_iter d) else di_status d)"

text \<open>The loop at the head of \<^verbatim>\<open>ParseKey\<close>.\<close>

partial_function (option) sampling_loop :: "bytes \<Rightarrow> nat \<Rightarrow> 'i DBIter \<Rightarrow> 'i DBIter option" where
  "sampling_loop k bytes_read d =
     (if di_bytes_until d < bytes_read then
        (let (period, r) = RandomCompactionPeriod (di_rnd d)
         in sampling_loop k bytes_read
              (d\<lparr>di_rnd := r, di_bytes_until := di_bytes_until d + period, di_samples := di_samples d @ [k]\<rparr>))
      else Some d)"

definition DBIter_ParseKey :: "'i Iterator \<Rightarrow> 'i DBIter \<Rightarrow> (ParsedInternalKey option \<times> 'i DBIter) option" where
  "DBIter_ParseKey it d =
     (let k = it_key it (di_iter d);
          bytes_read = length k + length (it_value it (di_iter d))
      in do {
           d \<leftarrow> sampling_loop k bytes_read d;
           let d = d\<lparr>di_bytes_until := di_bytes_until d - bytes_read\<rparr>;
           case ParseInternalKey k of
             None \<Rightarrow> Some (None, d\<lparr>di_status := Status_Corruption (lit ''corrupted internal key in DBIter'') []\<rparr>)
           | Some ikey \<Rightarrow> Some (Some ikey, d)
         })"

text \<open>A move of the internal iterator.\<close>

definition iter_move :: "('i \<Rightarrow> 'i option) \<Rightarrow> 'i DBIter \<Rightarrow> 'i DBIter option" where
  "iter_move move d = do { i \<leftarrow> move (di_iter d); Some (d\<lparr>di_iter := i\<rparr>) }"

text \<open>
  The string \<^verbatim>\<open>skip\<close> is \<^verbatim>\<open>saved_key_\<close> in all calls.  One turn of the loop ends with an answer
  (\<open>True\<close>: an entry to yield) or goes on with a new value of \<^verbatim>\<open>skipping\<close>.
\<close>

definition next_entry ::
    "Comparator \<Rightarrow> bool \<Rightarrow> ParsedInternalKey option \<Rightarrow> 'i DBIter \<Rightarrow> bool \<times> bool \<times> 'i DBIter" where
  "next_entry c skipping parsed d =
     (case parsed of
        None \<Rightarrow> (False, skipping, d)
      | Some ikey \<Rightarrow>
          if pk_sequence ikey \<le> di_sequence d then
            (case pk_type ikey of
               kTypeDeletion \<Rightarrow> (False, True, d\<lparr>di_saved_key := pk_user_key ikey\<rparr>)
             | kTypeValue \<Rightarrow>
                 if skipping \<and> Compare c (pk_user_key ikey) (di_saved_key d) \<le> 0 then (False, skipping, d)
                 else (True, skipping, d\<lparr>di_valid := True, di_saved_key := []\<rparr>))
          else (False, skipping, d))"

partial_function (option) FindNextUserEntry ::
    "'i Iterator \<Rightarrow> Comparator \<Rightarrow> bool \<Rightarrow> 'i DBIter \<Rightarrow> 'i DBIter option" where
  "FindNextUserEntry it c skipping d =
     do {
       (parsed, d) \<leftarrow> DBIter_ParseKey it d;
       (case next_entry c skipping parsed d of
          (found, skipping, d) \<Rightarrow>
            if found then Some d
            else do {
              d \<leftarrow> iter_move (it_Next it) d;
              if it_Valid it (di_iter d) then FindNextUserEntry it c skipping d
              else Some (d\<lparr>di_saved_key := [], di_valid := False\<rparr>)
            })
     }"

definition DBIter_Next :: "'i Iterator \<Rightarrow> Comparator \<Rightarrow> 'i DBIter \<Rightarrow> 'i DBIter option" where
  "DBIter_Next it c d =
     do {
       d \<leftarrow> (if di_direction d = kReverse then
               (let d = d\<lparr>di_direction := kForward\<rparr>
                in if \<not> it_Valid it (di_iter d) then iter_move (it_SeekToFirst it) d else iter_move (it_Next it) d)
             else iter_move (it_Next it) (d\<lparr>di_saved_key := ExtractUserKey (it_key it (di_iter d))\<rparr>));
       if \<not> it_Valid it (di_iter d) then Some (d\<lparr>di_valid := False, di_saved_key := []\<rparr>)
       else FindNextUserEntry it c True d
     }"

text \<open>
  The loop of \<^verbatim>\<open>FindPrevUserEntry\<close>: the first component of a turn tells whether it breaks, the second is
  \<^verbatim>\<open>value_type\<close>.
\<close>

definition prev_entry ::
    "'i Iterator \<Rightarrow> Comparator \<Rightarrow> ValueType \<Rightarrow> ParsedInternalKey option \<Rightarrow> 'i DBIter \<Rightarrow> bool \<times> ValueType \<times> 'i DBIter" where
  "prev_entry it c value_type parsed d =
     (case parsed of
        None \<Rightarrow> (False, value_type, d)
      | Some ikey \<Rightarrow>
          if pk_sequence ikey \<le> di_sequence d then
            if value_type \<noteq> kTypeDeletion \<and> Compare c (pk_user_key ikey) (di_saved_key d) < 0 then (True, value_type, d)
            else
              (case pk_type ikey of
                 kTypeDeletion \<Rightarrow> (False, kTypeDeletion, d\<lparr>di_saved_key := [], di_saved_value := []\<rparr>)
               | kTypeValue \<Rightarrow>
                   (False, kTypeValue,
                    d\<lparr>di_saved_key := ExtractUserKey (it_key it (di_iter d)),
                      di_saved_value := it_value it (di_iter d)\<rparr>))
          else (False, value_type, d))"

partial_function (option) FindPrevUserEntry_loop ::
    "'i Iterator \<Rightarrow> Comparator \<Rightarrow> ValueType \<Rightarrow> 'i DBIter \<Rightarrow> (ValueType \<times> 'i DBIter) option" where
  "FindPrevUserEntry_loop it c value_type d =
     do {
       (parsed, d) \<leftarrow> DBIter_ParseKey it d;
       (case prev_entry it c value_type parsed d of
          (stop, value_type, d) \<Rightarrow>
            if stop then Some (value_type, d)
            else do {
              d \<leftarrow> iter_move (it_Prev it) d;
              if it_Valid it (di_iter d) then FindPrevUserEntry_loop it c value_type d else Some (value_type, d)
            })
     }"

definition FindPrevUserEntry :: "'i Iterator \<Rightarrow> Comparator \<Rightarrow> 'i DBIter \<Rightarrow> 'i DBIter option" where
  "FindPrevUserEntry it c d =
     do {
       (value_type, d) \<leftarrow> (if it_Valid it (di_iter d) then FindPrevUserEntry_loop it c kTypeDeletion d
                            else Some (kTypeDeletion, d));
       Some (if value_type = kTypeDeletion
             then d\<lparr>di_valid := False, di_saved_key := [], di_saved_value := [], di_direction := kForward\<rparr>
             else d\<lparr>di_valid := True\<rparr>)
     }"

text \<open>
  The loop of \<^verbatim>\<open>Prev\<close> that leaves the entries of the current key; the boolean tells whether there are
  entries before them.
\<close>

partial_function (option) leave_key :: "'i Iterator \<Rightarrow> Comparator \<Rightarrow> 'i DBIter \<Rightarrow> (bool \<times> 'i DBIter) option" where
  "leave_key it c d =
     do {
       d \<leftarrow> iter_move (it_Prev it) d;
       if \<not> it_Valid it (di_iter d) then
         Some (False, d\<lparr>di_valid := False, di_saved_key := [], di_saved_value := []\<rparr>)
       else if Compare c (ExtractUserKey (it_key it (di_iter d))) (di_saved_key d) < 0 then Some (True, d)
       else leave_key it c d
     }"

definition DBIter_Prev :: "'i Iterator \<Rightarrow> Comparator \<Rightarrow> 'i DBIter \<Rightarrow> 'i DBIter option" where
  "DBIter_Prev it c d =
     (if di_direction d = kForward then
        do {
          (more_entries, d) \<leftarrow> leave_key it c (d\<lparr>di_saved_key := ExtractUserKey (it_key it (di_iter d))\<rparr>);
          if more_entries then FindPrevUserEntry it c (d\<lparr>di_direction := kReverse\<rparr>) else Some d
        }
      else FindPrevUserEntry it c d)"

definition DBIter_Seek :: "'i Iterator \<Rightarrow> Comparator \<Rightarrow> bytes \<Rightarrow> 'i DBIter \<Rightarrow> 'i DBIter option" where
  "DBIter_Seek it c target d =
     do {
       let d = d\<lparr>di_direction := kForward, di_saved_value := [],
                 di_saved_key := AppendInternalKey []
                   \<lparr>pk_user_key = target, pk_sequence = di_sequence d, pk_type = kValueTypeForSeek\<rparr>\<rparr>;
       d \<leftarrow> iter_move (it_Seek it (di_saved_key d)) d;
       if it_Valid it (di_iter d) then FindNextUserEntry it c False d else Some (d\<lparr>di_valid := False\<rparr>)
     }"

definition DBIter_SeekToFirst :: "'i Iterator \<Rightarrow> Comparator \<Rightarrow> 'i DBIter \<Rightarrow> 'i DBIter option" where
  "DBIter_SeekToFirst it c d =
     do {
       d \<leftarrow> iter_move (it_SeekToFirst it) (d\<lparr>di_direction := kForward, di_saved_value := []\<rparr>);
       if it_Valid it (di_iter d) then FindNextUserEntry it c False d else Some (d\<lparr>di_valid := False\<rparr>)
     }"

definition DBIter_SeekToLast :: "'i Iterator \<Rightarrow> Comparator \<Rightarrow> 'i DBIter \<Rightarrow> 'i DBIter option" where
  "DBIter_SeekToLast it c d =
     do {
       d \<leftarrow> iter_move (it_SeekToLast it) (d\<lparr>di_direction := kReverse, di_saved_value := []\<rparr>);
       FindPrevUserEntry it c d
     }"

definition DBIterator :: "'i Iterator \<Rightarrow> Comparator \<Rightarrow> 'i DBIter Iterator" where
  "DBIterator it c =
     \<lparr>it_Valid = di_valid,
      it_SeekToFirst = DBIter_SeekToFirst it c,
      it_SeekToLast = DBIter_SeekToLast it c,
      it_Seek = DBIter_Seek it c,
      it_Next = DBIter_Next it c,
      it_Prev = DBIter_Prev it c,
      it_key = DBIter_key it,
      it_value = DBIter_value it,
      it_status = DBIter_status it\<rparr>"

section \<open>The sampling loop ends\<close>

text \<open>
  A drawn period may be zero, but never twice in a row: after a multiple of \<open>2 ^ 21\<close> the generator
  gives a number whose low bits are the quotient by \<open>1024\<close> of a number above \<open>16806\<close>.
\<close>

lemma lehmer_no_two_zeros:
  fixes s :: nat
  assumes "1 \<le> s" "s < 2147483647" "s mod 2097152 = 0"
  shows "(s * 16807 mod 2147483647) mod 2097152 \<noteq> 0"
proof -
  define t where "t = s div 2097152"
  define h l where "h = t * 16807 div 1024" and "l = t * 16807 mod 1024"
  have s: "s = 2097152 * t" using assms(3) mult_div_mod_eq [of 2097152 s] unfolding t_def by simp
  have t: "1 \<le> t" "t \<le> 1023" using assms(1,2) s by linarith+
  have hl: "t * 16807 = 1024 * h + l" unfolding h_def l_def by (rule mult_div_mod_eq [symmetric])
  have l: "l < 1024" unfolding l_def by simp
  have h: "16 \<le> h" "h \<le> 16790" using t hl l by linarith+
  from hl have "s * 16807 = 2147483647 * h + (h + 2097152 * l)" using s by simp
  moreover have "h + 2097152 * l < 2147483647" using h l by linarith
  ultimately have "s * 16807 mod 2147483647 = h + 2097152 * l" by (metis mod_less mod_mult_self4)
  then have "(s * 16807 mod 2147483647) mod 2097152 = h" using h(2) by simp
  with h(1) show ?thesis by simp
qed

lemma RandomCompactionPeriod_ok:
  assumes "random_ok r"
  shows "random_ok (snd (RandomCompactionPeriod r))" "fst (RandomCompactionPeriod r) < 2 * kReadBytesPeriod"
    "fst (RandomCompactionPeriod r) = 0 \<Longrightarrow> fst (RandomCompactionPeriod (snd (RandomCompactionPeriod r))) \<noteq> 0"
proof -
  have u: "fst (RandomCompactionPeriod r) = unat (fst (Random_Next r)) mod 2097152"
      "snd (RandomCompactionPeriod r) = snd (Random_Next r)" for r
    by (simp_all add: RandomCompactionPeriod_def Random_Uniform_def kReadBytesPeriod_def split: prod.splits)
  show ok: "random_ok (snd (RandomCompactionPeriod r))" using Random_Next_mod(2) [OF assms] u by simp
  show "fst (RandomCompactionPeriod r) < 2 * kReadBytesPeriod" unfolding u by (simp add: kReadBytesPeriod_def)
  assume "fst (RandomCompactionPeriod r) = 0"
  then have "unat (seed (snd (Random_Next r))) mod 2097152 = 0" using Random_Next_mod(3) [OF assms] u by simp
  then have "(unat (seed (snd (Random_Next r))) * 16807 mod 2147483647) mod 2097152 \<noteq> 0"
    using ok by (intro lehmer_no_two_zeros) (simp_all add: random_ok_def u)
  then show "fst (RandomCompactionPeriod (snd (RandomCompactionPeriod r))) \<noteq> 0"
    using Random_Next_mod(1) [OF ok] by (simp add: u)
qed

lemma sampling_loop_ends:
  assumes "random_ok (di_rnd d)"
  shows "\<exists>r m n. sampling_loop k b d = Some (d\<lparr>di_rnd := r, di_bytes_until := m, di_samples := di_samples d @ replicate n k\<rparr>) \<and>
    random_ok r \<and> b \<le> m \<and> m < max (Suc (di_bytes_until d)) (b + 2 * kReadBytesPeriod) \<and>
    n \<le> 2 * (b - di_bytes_until d) + (if fst (RandomCompactionPeriod (di_rnd d)) = 0 then 1 else 0)"
  using assms
proof (induction "2 * (b - di_bytes_until d) + (if fst (RandomCompactionPeriod (di_rnd d)) = 0 then 1 else 0)"
    arbitrary: d rule: less_induct)
  case less
  note unf = sampling_loop.simps [of k b d]
  show ?case
  proof (cases "di_bytes_until d < b")
    case False
    have "d = d\<lparr>di_rnd := di_rnd d, di_bytes_until := di_bytes_until d, di_samples := di_samples d @ replicate 0 k\<rparr>" by simp
    then have "sampling_loop k b d =
        Some (d\<lparr>di_rnd := di_rnd d, di_bytes_until := di_bytes_until d, di_samples := di_samples d @ replicate 0 k\<rparr>)"
      using False unf by simp
    then show ?thesis using False less.prems
      by (intro exI [of _ "di_rnd d"] exI [of _ "di_bytes_until d"] exI [of _ 0]) auto
  next
    case True
    define q r where "q = fst (RandomCompactionPeriod (di_rnd d))" and "r = snd (RandomCompactionPeriod (di_rnd d))"
    let ?d = "d\<lparr>di_rnd := r, di_bytes_until := di_bytes_until d + q, di_samples := di_samples d @ [k]\<rparr>"
    have step: "sampling_loop k b d = sampling_loop k b ?d"
      using True unf by (simp add: q_def r_def split: prod.splits)
    note P = RandomCompactionPeriod_ok [OF less.prems, folded q_def r_def]
    have dec: "Suc (2 * (b - di_bytes_until ?d) + (if fst (RandomCompactionPeriod (di_rnd ?d)) = 0 then 1 else 0)) \<le>
        2 * (b - di_bytes_until d) + (if q = 0 then 1 else 0)"
      using True P(3) by (cases "q = 0") auto
    obtain r' m n where IH: "sampling_loop k b ?d =
          Some (?d\<lparr>di_rnd := r', di_bytes_until := m, di_samples := di_samples ?d @ replicate n k\<rparr>)"
        "random_ok r'" "b \<le> m" "m < max (Suc (di_bytes_until ?d)) (b + 2 * kReadBytesPeriod)"
        "n \<le> 2 * (b - di_bytes_until ?d) + (if fst (RandomCompactionPeriod (di_rnd ?d)) = 0 then 1 else 0)"
      using less.hyps [of ?d] dec P(1) by (auto simp: q_def)
    have "sampling_loop k b d = Some (d\<lparr>di_rnd := r', di_bytes_until := m, di_samples := di_samples d @ replicate (Suc n) k\<rparr>)"
      unfolding step IH(1) by simp
    moreover have "m < max (Suc (di_bytes_until d)) (b + 2 * kReadBytesPeriod)"
      using IH(4) P(2) True by simp
    moreover have "Suc n \<le> 2 * (b - di_bytes_until d) + (if q = 0 then 1 else 0)" using IH(5) dec by linarith
    ultimately show ?thesis using IH(2,3) unfolding q_def by (intro exI conjI)
  qed
qed

section \<open>What a client sees\<close>

text \<open>
  The entries of a database in the order of their internal keys, and the pairs a client sees at a
  sequence number: the newest visible entry of every key, unless it is a deletion.
\<close>

definition entry_pair :: "Entry \<Rightarrow> kv" where
  "entry_pair e = (entry_internal e, e_value e)"

definition entry_before :: "Comparator \<Rightarrow> Entry \<Rightarrow> Entry \<Rightarrow> bool" where
  "entry_before c a b \<longleftrightarrow>
     Compare c (e_key a) (e_key b) < 0 \<or> Compare c (e_key a) (e_key b) = 0 \<and> e_seq b < e_seq a"

definition live :: "Comparator \<Rightarrow> SequenceNumber \<Rightarrow> Entry list \<Rightarrow> Entry \<Rightarrow> bool" where
  "live c seq es e \<longleftrightarrow>
     e_type e = kTypeValue \<and> e_seq e \<le> seq \<and> (\<forall>b\<in>set es. visible c (e_key e) seq b \<longrightarrow> e_seq b \<le> e_seq e)"

definition user_view :: "Comparator \<Rightarrow> SequenceNumber \<Rightarrow> Entry list \<Rightarrow> kv list" where
  "user_view c seq es = map (\<lambda>e. (e_key e, e_value e)) (filter (live c seq es) es)"

text \<open>The number of pairs of the view before an index of the entries.\<close>

definition nlive :: "Comparator \<Rightarrow> SequenceNumber \<Rightarrow> Entry list \<Rightarrow> nat \<Rightarrow> nat" where
  "nlive c seq es i = length (filter (live c seq es) (take i es))"

lemma nlive_0 [simp]: "nlive c seq es 0 = 0"
  by (simp add: nlive_def)

lemma nlive_all: "nlive c seq es (length es) = length (user_view c seq es)"
  by (simp add: nlive_def user_view_def)

lemma nlive_Suc: "i < length es \<Longrightarrow> nlive c seq es (Suc i) = nlive c seq es i + (if live c seq es (es ! i) then 1 else 0)"
  by (simp add: nlive_def take_Suc_conv_app_nth)

lemma nlive_less: "i < length es \<Longrightarrow> live c seq es (es ! i) \<Longrightarrow> nlive c seq es i < length (user_view c seq es)"
proof -
  assume i: "i < length es" "live c seq es (es ! i)"
  have "filter (live c seq es) es = filter (live c seq es) (take i es) @ es ! i # filter (live c seq es) (drop (Suc i) es)"
    using i arg_cong [OF id_take_nth_drop [of i es], of "filter (live c seq es)"] by simp
  then have "length (filter (live c seq es) (take i es)) < length (filter (live c seq es) es)" by simp
  then show ?thesis by (simp add: nlive_def user_view_def)
qed

lemma user_view_nth:
  assumes "i < length es" "live c seq es (es ! i)"
  shows "user_view c seq es ! nlive c seq es i = (e_key (es ! i), e_value (es ! i))"
proof -
  have "filter (live c seq es) es = filter (live c seq es) (take i es) @ es ! i # filter (live c seq es) (drop (Suc i) es)"
    using assms arg_cong [OF id_take_nth_drop [of i es], of "filter (live c seq es)"] by simp
  then show ?thesis by (simp add: user_view_def nlive_def nth_append)
qed

lemma nlive_none:
  assumes "p \<le> q" "q \<le> length es" "\<And>j. p \<le> j \<Longrightarrow> j < q \<Longrightarrow> \<not> live c seq es (es ! j)"
  shows "nlive c seq es q = nlive c seq es p"
  using assms
proof (induction q rule: dec_induct)
  case (step q)
  then show ?case by (simp add: nlive_Suc)
qed simp

text \<open>In sorted entries what hides an entry is before it.\<close>

definition entries_ok :: "Comparator \<Rightarrow> Entry list \<Rightarrow> bool" where
  "entries_ok c es \<longleftrightarrow> sorted_wrt (entry_before c) es \<and> (\<forall>e\<in>set es. e_seq e \<le> kMaxSequenceNumber)"

lemma entries_key_le:
  assumes "three_way (Compare c)" "entries_ok c es" "i \<le> j" "j < length es"
  shows "Compare c (e_key (es ! i)) (e_key (es ! j)) \<le> 0"
proof (cases "i = j")
  case True
  then show ?thesis using three_way.cmp_refl [OF assms(1)] by simp
next
  case False
  then have "entry_before c (es ! i) (es ! j)"
    using sorted_wrt_nth_less [of "entry_before c" es i j] assms(2-4) by (simp add: entries_ok_def)
  then show ?thesis by (auto simp: entry_before_def)
qed

lemma entries_between:
  assumes "three_way (Compare c)" "entries_ok c es" "i \<le> j" "j \<le> k" "k < length es"
    and "Compare c (e_key (es ! i)) (e_key (es ! k)) = 0"
  shows "Compare c (e_key (es ! i)) (e_key (es ! j)) = 0" "Compare c (e_key (es ! j)) (e_key (es ! k)) = 0"
    "Compare c (e_key (es ! k)) (e_key (es ! j)) = 0"
proof -
  note T = assms(1) and le = entries_key_le [OF assms(1,2)]
  have ij: "Compare c (e_key (es ! i)) (e_key (es ! j)) \<le> 0" and jk: "Compare c (e_key (es ! j)) (e_key (es ! k)) \<le> 0"
    using le assms(3-5) by simp_all
  have ki: "Compare c (e_key (es ! k)) (e_key (es ! i)) \<le> 0" 
    using assms(6) three_way.cmp_flip_eq [OF T, of "e_key (es ! i)" "e_key (es ! k)"] by simp
  have kj: "Compare c (e_key (es ! k)) (e_key (es ! j)) \<le> 0" by (rule three_way.cmp_trans [OF T ki ij])
  have ji: "Compare c (e_key (es ! j)) (e_key (es ! i)) \<le> 0" by (rule three_way.cmp_trans [OF T jk ki])
  show "Compare c (e_key (es ! i)) (e_key (es ! j)) = 0" "Compare c (e_key (es ! j)) (e_key (es ! k)) = 0"
    "Compare c (e_key (es ! k)) (e_key (es ! j)) = 0"
    using ij ji jk kj three_way.cmp_flip_le [OF T, of "e_key (es ! j)" "e_key (es ! i)"]
      three_way.cmp_flip_le [OF T, of "e_key (es ! k)" "e_key (es ! j)"]
      three_way.cmp_flip_le [OF T, of "e_key (es ! j)" "e_key (es ! k)"] by linarith+
qed

lemma live_iff:
  assumes T: "three_way (Compare c)" and ok: "entries_ok c es" and i: "i < length es"
  shows "live c seq es (es ! i) \<longleftrightarrow> e_type (es ! i) = kTypeValue \<and> e_seq (es ! i) \<le> seq \<and>
    (\<forall>k<i. \<not> (Compare c (e_key (es ! k)) (e_key (es ! i)) = 0 \<and> e_seq (es ! k) \<le> seq))"
proof -
  have newer: "e_seq (es ! i) < e_seq (es ! k)" if "k < i" "Compare c (e_key (es ! k)) (e_key (es ! i)) = 0" for k
    using sorted_wrt_nth_less [of "entry_before c" es k i] ok that i by (auto simp: entries_ok_def entry_before_def)
  have older: "e_seq (es ! k) \<le> e_seq (es ! i)"
    if "\<not> k < i" "k < length es" "Compare c (e_key (es ! k)) (e_key (es ! i)) = 0" for k
  proof (cases "k = i")
    case False
    then have "entry_before c (es ! i) (es ! k)" using sorted_wrt_nth_less [of "entry_before c" es i k] ok that by (simp add: entries_ok_def)
    then show ?thesis using three_way.cmp_flip [OF T, of "e_key (es ! i)" "e_key (es ! k)"] that(3)
      by (auto simp: entry_before_def)
  qed simp
  have "(\<forall>b\<in>set es. visible c (e_key (es ! i)) seq b \<longrightarrow> e_seq b \<le> e_seq (es ! i)) \<longleftrightarrow>
      (\<forall>k<i. \<not> (Compare c (e_key (es ! k)) (e_key (es ! i)) = 0 \<and> e_seq (es ! k) \<le> seq))"
    (is "?all \<longleftrightarrow> ?before")
  proof
    assume all: ?all
    show ?before
    proof (intro allI impI notI)
      fix k assume k: "k < i" "Compare c (e_key (es ! k)) (e_key (es ! i)) = 0 \<and> e_seq (es ! k) \<le> seq"
      then have "e_seq (es ! k) \<le> e_seq (es ! i)" using all i by (simp add: visible_def)
      with newer k show False by (meson leD)
    qed
  next
    assume b: ?before
    show ?all
    proof (intro ballI impI)
      fix x assume "x \<in> set es" "visible c (e_key (es ! i)) seq x"
      then obtain k where k: "k < length es" "x = es ! k" "Compare c (e_key (es ! k)) (e_key (es ! i)) = 0" "e_seq (es ! k) \<le> seq"
        by (auto simp: in_set_conv_nth visible_def)
      then show "e_seq x \<le> e_seq (es ! i)" using b older [of k] by blast
    qed
  qed
  then show ?thesis by (simp add: live_def)
qed

section \<open>Positions\<close>

definition db_ok :: "'i Iterator \<Rightarrow> Comparator \<Rightarrow> Entry list \<Rightarrow> ('i \<Rightarrow> nat \<Rightarrow> bool) \<Rightarrow> nat \<Rightarrow> bool" where
  "db_ok it c es ipos lim \<longleftrightarrow>
     three_way (Compare c) \<and> entries_ok c es \<and>
     bounded_iterator it (InternalKeyComparator_Compare c) (map entry_pair es) ipos (lim + 8)"

lemma db_okD:
  assumes "db_ok it c es ipos lim"
  shows "three_way (Compare c)" "entries_ok c es"
    "bounded_iterator it (InternalKeyComparator_Compare c) (map entry_pair es) ipos (lim + 8)"
  using assms by (simp_all add: db_ok_def)

text \<open>What every method keeps, with the internal iterator at index \<open>i\<close>.\<close>

definition di_at :: "SequenceNumber \<Rightarrow> ('i \<Rightarrow> nat \<Rightarrow> bool) \<Rightarrow> 'i DBIter \<Rightarrow> nat \<Rightarrow> bool" where
  "di_at seq ipos d i \<longleftrightarrow>
     di_sequence d = seq \<and> di_status d = Status_OK \<and> random_ok (di_rnd d) \<and> ipos (di_iter d) i"

text \<open>
  At the \<open>n\<close>th pair of the view, which is entry \<open>i\<close>: moving forward the internal iterator is there;
  moving back the pair is saved and the internal iterator is before it, with only invisible entries
  between.
\<close>

definition db_pos ::
    "Comparator \<Rightarrow> SequenceNumber \<Rightarrow> Entry list \<Rightarrow> ('i \<Rightarrow> nat \<Rightarrow> bool) \<Rightarrow> 'i DBIter \<Rightarrow> nat \<Rightarrow> bool" where
  "db_pos c seq es ipos d n \<longleftrightarrow>
     (if di_valid d then
        \<exists>i<length es. live c seq es (es ! i) \<and> n = nlive c seq es i \<and>
          (if di_direction d = kForward then di_at seq ipos d i
           else di_saved_key d = e_key (es ! i) \<and> di_saved_value d = e_value (es ! i) \<and>
             (\<exists>q\<le>i. di_at seq ipos d (if q = 0 then length es else q - 1) \<and>
                (\<forall>j. q \<le> j \<longrightarrow> j < i \<longrightarrow> \<not> e_seq (es ! j) \<le> seq)))
      else n = length (user_view c seq es) \<and> (\<exists>i. di_at seq ipos d i))"

lemma di_at_simps [simp]:
  "di_at seq ipos (d\<lparr>di_saved_key := k\<rparr>) i = di_at seq ipos d i"
  "di_at seq ipos (d\<lparr>di_saved_value := v\<rparr>) i = di_at seq ipos d i"
  "di_at seq ipos (d\<lparr>di_direction := dir\<rparr>) i = di_at seq ipos d i"
  "di_at seq ipos (d\<lparr>di_valid := b\<rparr>) i = di_at seq ipos d i"
  by (simp_all add: di_at_def)

lemma db_pos_invalid: "di_at seq ipos d i \<Longrightarrow> \<not> di_valid d \<Longrightarrow> db_pos c seq es ipos d (length (user_view c seq es))"
  by (auto simp: db_pos_def)

lemma db_posE:
  assumes "db_pos c seq es ipos d n" "n < length (user_view c seq es)"
  obtains i where "i < length es" "live c seq es (es ! i)" "n = nlive c seq es i"
    "if di_direction d = kForward then di_at seq ipos d i
     else di_saved_key d = e_key (es ! i) \<and> di_saved_value d = e_value (es ! i) \<and>
       (\<exists>q\<le>i. di_at seq ipos d (if q = 0 then length es else q - 1) \<and> (\<forall>j. q \<le> j \<longrightarrow> j < i \<longrightarrow> \<not> e_seq (es ! j) \<le> seq))"
proof -
  have "di_valid d" using assms by (cases "di_valid d") (simp_all add: db_pos_def)
  with assms(1) show thesis unfolding db_pos_def if_P [OF \<open>di_valid d\<close>] using that by blast
qed

lemma entry_parse: "e_seq e \<le> kMaxSequenceNumber \<Longrightarrow> ParseInternalKey (entry_internal e) =
    Some \<lparr>pk_user_key = e_key e, pk_sequence = e_seq e, pk_type = e_type e\<rparr>"
  unfolding entry_internal_def by (rule ParseInternalKey_Append) simp

lemma entry_user_key [simp]: "ExtractUserKey (entry_internal e) = e_key e"
  by (simp add: entry_internal_def AppendInternalKey_eq)

lemma di_entry:
  assumes ok: "db_ok it c es ipos lim" and d: "di_at seq ipos d i"
  shows "it_Valid it (di_iter d) \<longleftrightarrow> i < length es"
    "i < length es \<Longrightarrow> it_key it (di_iter d) = entry_internal (es ! i)"
    "i < length es \<Longrightarrow> it_value it (di_iter d) = e_value (es ! i)"
    "i < length es \<Longrightarrow> ExtractUserKey (it_key it (di_iter d)) = e_key (es ! i)"
  using d bounded_iterator.valid_iff [OF db_okD(3) [OF ok], of "di_iter d" i]
    bounded_iterator.key_at [OF db_okD(3) [OF ok], of "di_iter d" i]
    bounded_iterator.value_at [OF db_okD(3) [OF ok], of "di_iter d" i]
  by (auto simp: di_at_def entry_pair_def)

lemma iter_move_ok:
  assumes "di_at seq ipos d i" "\<exists>x. move (di_iter d) = Some x \<and> ipos x j"
  shows "\<exists>x. iter_move move d = Some (d\<lparr>di_iter := x\<rparr>) \<and> di_at seq ipos (d\<lparr>di_iter := x\<rparr>) j"
  using assms by (auto simp: iter_move_def di_at_def)

lemma DBIter_ParseKey_ok:
  assumes ok: "db_ok it c es ipos lim" and d: "di_at seq ipos d i" and i: "i < length es"
  shows "\<exists>r m s. DBIter_ParseKey it d =
      Some (Some \<lparr>pk_user_key = e_key (es ! i), pk_sequence = e_seq (es ! i), pk_type = e_type (es ! i)\<rparr>,
            d\<lparr>di_rnd := r, di_bytes_until := m, di_samples := s\<rparr>) \<and>
      di_at seq ipos (d\<lparr>di_rnd := r, di_bytes_until := m, di_samples := s\<rparr>) i"
proof -
  let ?k = "it_key it (di_iter d)"
  let ?b = "length ?k + length (it_value it (di_iter d))"
  obtain r m n where l: "sampling_loop ?k ?b d =
        Some (d\<lparr>di_rnd := r, di_bytes_until := m, di_samples := di_samples d @ replicate n ?k\<rparr>)" "random_ok r"
    using sampling_loop_ends [of d ?k ?b] d by (auto simp: di_at_def)
  have "e_seq (es ! i) \<le> kMaxSequenceNumber" using db_okD(2) [OF ok] i by (simp add: entries_ok_def)
  then have p: "ParseInternalKey ?k = Some \<lparr>pk_user_key = e_key (es ! i), pk_sequence = e_seq (es ! i), pk_type = e_type (es ! i)\<rparr>"
    using di_entry(2) [OF ok d i] entry_parse by simp
  show ?thesis
    using l d by (intro exI [of _ r] exI [of _ "m - ?b"] exI [of _ "di_samples d @ replicate n ?k"])
      (simp add: DBIter_ParseKey_def Let_def p di_at_def)
qed

section \<open>Searching forward\<close>

text \<open>An entry is hidden by what was passed: a visible entry of the same key.\<close>

definition hidden :: "Comparator \<Rightarrow> SequenceNumber \<Rightarrow> Entry list \<Rightarrow> nat \<Rightarrow> nat \<Rightarrow> bool" where
  "hidden c seq es i j \<longleftrightarrow> (\<exists>k<i. Compare c (e_key (es ! k)) (e_key (es ! j)) = 0 \<and> e_seq (es ! k) \<le> seq)"

definition skip_inv :: "Comparator \<Rightarrow> SequenceNumber \<Rightarrow> Entry list \<Rightarrow> nat \<Rightarrow> bool \<Rightarrow> bytes \<Rightarrow> bool" where
  "skip_inv c seq es i skipping skip \<longleftrightarrow>
     (\<forall>j. i \<le> j \<longrightarrow> j < length es \<longrightarrow> e_seq (es ! j) \<le> seq \<longrightarrow>
        (skipping \<and> Compare c (e_key (es ! j)) skip \<le> 0) = hidden c seq es i j)"

lemma live_hidden:
  "three_way (Compare c) \<Longrightarrow> entries_ok c es \<Longrightarrow> i < length es \<Longrightarrow>
   live c seq es (es ! i) \<longleftrightarrow> e_type (es ! i) = kTypeValue \<and> e_seq (es ! i) \<le> seq \<and> \<not> hidden c seq es i i"
  unfolding live_iff hidden_def by blast

lemma hidden_Suc_invisible: "\<not> e_seq (es ! i) \<le> seq \<Longrightarrow> hidden c seq es (Suc i) j = hidden c seq es i j"
  by (auto simp: hidden_def less_Suc_eq)

lemma hidden_Suc_hidden:
  assumes T: "three_way (Compare c)" and "hidden c seq es i i"
  shows "hidden c seq es (Suc i) j = hidden c seq es i j"
proof
  assume "hidden c seq es (Suc i) j"
  then obtain k where k: "k < Suc i" "Compare c (e_key (es ! k)) (e_key (es ! j)) = 0" "e_seq (es ! k) \<le> seq"
    by (auto simp: hidden_def)
  obtain l where l: "l < i" "Compare c (e_key (es ! l)) (e_key (es ! i)) = 0" "e_seq (es ! l) \<le> seq"
    using assms(2) by (auto simp: hidden_def)
  show "hidden c seq es i j"
  proof (cases "k = i")
    case True
    have "Compare c (e_key (es ! l)) (e_key (es ! j)) \<le> 0" "0 \<le> Compare c (e_key (es ! l)) (e_key (es ! j))"
      using three_way.cmp_trans [OF T, of "e_key (es ! l)" "e_key (es ! i)" "e_key (es ! j)"]
        three_way.cmp_trans [OF T, of "e_key (es ! j)" "e_key (es ! i)" "e_key (es ! l)"] k(2) l(2)
        three_way.cmp_flip_eq [OF T, of "e_key (es ! l)" "e_key (es ! i)"]
        three_way.cmp_flip_eq [OF T, of "e_key (es ! i)" "e_key (es ! j)"]
        three_way.cmp_flip_ge [OF T, of "e_key (es ! l)" "e_key (es ! j)"] True by simp_all
    then show ?thesis using l unfolding hidden_def by (intro exI [of _ l]) simp
  next
    case False
    then show ?thesis using k unfolding hidden_def by (intro exI [of _ k]) simp
  qed
next
  assume "hidden c seq es i j"
  then show "hidden c seq es (Suc i) j" unfolding hidden_def using less_SucI by blast
qed

lemma hidden_Suc_visible:
  assumes T: "three_way (Compare c)" and ok: "entries_ok c es" and "i \<le> j" "j < length es" "e_seq (es ! i) \<le> seq"
  shows "hidden c seq es (Suc i) j \<longleftrightarrow> Compare c (e_key (es ! j)) (e_key (es ! i)) \<le> 0"
proof
  assume "hidden c seq es (Suc i) j"
  then obtain k where k: "k < Suc i" "Compare c (e_key (es ! k)) (e_key (es ! j)) = 0" by (auto simp: hidden_def)
  then show "Compare c (e_key (es ! j)) (e_key (es ! i)) \<le> 0"
    using entries_between(3) [OF T ok, of k i j] assms(3,4) by simp
next
  assume "Compare c (e_key (es ! j)) (e_key (es ! i)) \<le> 0"
  then have "Compare c (e_key (es ! i)) (e_key (es ! j)) = 0"
    using entries_key_le [OF T ok assms(3,4)] three_way.cmp_flip_le [OF T, of "e_key (es ! j)" "e_key (es ! i)"] by simp
  then show "hidden c seq es (Suc i) j" using assms(5) by (auto simp: hidden_def)
qed

lemma skip_inv_visible:
  "three_way (Compare c) \<Longrightarrow> entries_ok c es \<Longrightarrow> e_seq (es ! i) \<le> seq \<Longrightarrow> skip_inv c seq es (Suc i) True (e_key (es ! i))"
  using hidden_Suc_visible [of c es i _ seq] by (simp add: skip_inv_def)

text \<open>Going on past the last entry or with the next one.\<close>

definition next_or_end :: "'i Iterator \<Rightarrow> Comparator \<Rightarrow> bool \<Rightarrow> 'i DBIter \<Rightarrow> 'i DBIter option" where
  "next_or_end it c skipping d =
     do {
       d \<leftarrow> iter_move (it_Next it) d;
       if it_Valid it (di_iter d) then FindNextUserEntry it c skipping d
       else Some (d\<lparr>di_saved_key := [], di_valid := False\<rparr>)
     }"

lemma FindNextUserEntry_unfold:
  "FindNextUserEntry it c skipping d =
     do {
       (parsed, d) \<leftarrow> DBIter_ParseKey it d;
       (case next_entry c skipping parsed d of
          (found, skipping, d) \<Rightarrow> if found then Some d else next_or_end it c skipping d)
     }"
  unfolding next_or_end_def by (rule FindNextUserEntry.simps)

lemma next_or_end_ok:
  assumes ok: "db_ok it c es ipos lim" and d: "di_at seq ipos d i" and i: "i < length es"
    and IH: "\<And>d'. di_at seq ipos d' (Suc i) \<Longrightarrow> di_direction d' = di_direction d \<Longrightarrow> di_saved_key d' = di_saved_key d \<Longrightarrow>
       Suc i < length es \<Longrightarrow> \<exists>d''. FindNextUserEntry it c skipping d' = Some d'' \<and> db_pos c seq es ipos d'' n"
    and n: "Suc i = length es \<Longrightarrow> n = length (user_view c seq es)"
  shows "\<exists>d'. next_or_end it c skipping d = Some d' \<and> db_pos c seq es ipos d' n"
proof -
  have "\<exists>x. it_Next it (di_iter d) = Some x \<and> ipos x (Suc i)"
    using bounded_iterator.next_at [OF db_okD(3) [OF ok], of "di_iter d" i] d i by (auto simp: di_at_def)
  then obtain x where x: "iter_move (it_Next it) d = Some (d\<lparr>di_iter := x\<rparr>)"
      "di_at seq ipos (d\<lparr>di_iter := x\<rparr>) (Suc i)" using iter_move_ok [OF d, of "it_Next it" "Suc i"] by blast
  show ?thesis
  proof (cases "Suc i < length es")
    case True
    then show ?thesis
      using IH [OF x(2) _ _ True] x(1) di_entry(1) [OF ok x(2)] by (simp add: next_or_end_def)
  next
    case False
    then have "n = length (user_view c seq es)" using n i by simp
    then have "db_pos c seq es ipos (d\<lparr>di_iter := x, di_saved_key := [], di_valid := False\<rparr>) n"
      using x(2) by (auto simp: db_pos_def)
    then show ?thesis using False x(1) di_entry(1) [OF ok x(2)] by (simp add: next_or_end_def)
  qed
qed

lemma FindNextUserEntry_ok:
  assumes ok: "db_ok it c es ipos lim"
  shows "di_at seq ipos d i \<Longrightarrow> i < length es \<Longrightarrow> di_direction d = kForward \<Longrightarrow>
    skip_inv c seq es i skipping (di_saved_key d) \<Longrightarrow>
    \<exists>d'. FindNextUserEntry it c skipping d = Some d' \<and> db_pos c seq es ipos d' (nlive c seq es i)"
proof (induction "length es - i" arbitrary: d i skipping)
  case (Suc len)
  note T = db_okD(1) [OF ok] and E = db_okD(2) [OF ok] and d = Suc.prems(1) and i = Suc.prems(2)
  let ?e = "es ! i"
  let ?p = "\<lparr>pk_user_key = e_key ?e, pk_sequence = e_seq ?e, pk_type = e_type ?e\<rparr>"
  obtain r m s where p: "DBIter_ParseKey it d = Some (Some ?p, d\<lparr>di_rnd := r, di_bytes_until := m, di_samples := s\<rparr>)"
      "di_at seq ipos (d\<lparr>di_rnd := r, di_bytes_until := m, di_samples := s\<rparr>) i"
    using DBIter_ParseKey_ok [OF ok d i] by blast
  define d1 where "d1 = d\<lparr>di_rnd := r, di_bytes_until := m, di_samples := s\<rparr>"
  have d1: "di_at seq ipos d1 i" "di_sequence d1 = seq" "di_saved_key d1 = di_saved_key d" "di_direction d1 = kForward"
    using p(2) Suc.prems(3) by (simp_all add: d1_def di_at_def)
  note unf = FindNextUserEntry_unfold [of it c skipping d, unfolded p(1), folded d1_def]
  have go: "\<exists>d'. next_or_end it c sk d2 = Some d' \<and> db_pos c seq es ipos d' (nlive c seq es i)"
    if "di_at seq ipos d2 i" "di_direction d2 = kForward" "\<not> live c seq es ?e" "skip_inv c seq es (Suc i) sk (di_saved_key d2)" for sk d2
    by (rule next_or_end_ok [OF ok that(1) i])
      (use Suc.hyps(1) [of "Suc i"] Suc.hyps(2) that nlive_Suc [OF i, of c seq] nlive_all [of c seq es] in auto)
  show ?case
  proof (cases "e_seq ?e \<le> seq")
    case False
    then have "skip_inv c seq es (Suc i) skipping (di_saved_key d1)" "\<not> live c seq es ?e"
      using Suc.prems(4) d1(3) hidden_Suc_invisible [OF False] by (simp_all add: skip_inv_def live_def)
    then show ?thesis using go [OF d1(1,4)] False unf d1(2) by (simp add: next_entry_def)
  next
    case vis: True
    have hid: "skipping \<and> Compare c (e_key ?e) (di_saved_key d1) \<le> 0 \<longleftrightarrow> hidden c seq es i i"
      using Suc.prems(4) i vis d1(3) by (simp add: skip_inv_def)
    show ?thesis
    proof (cases "e_type ?e")
      case kTypeDeletion
      then have "\<not> live c seq es ?e" by (simp add: live_def)
      then show ?thesis
        using go [of "d1\<lparr>di_saved_key := e_key ?e\<rparr>" True] d1 skip_inv_visible [OF T E vis] kTypeDeletion vis unf
        by (simp add: next_entry_def)
    next
      case kTypeValue
      show ?thesis
      proof (cases "hidden c seq es i i")
        case True
        then have "\<not> live c seq es ?e" using live_hidden [OF T E i] by simp
        moreover have "skip_inv c seq es (Suc i) skipping (di_saved_key d1)"
          using Suc.prems(4) d1(3) hidden_Suc_hidden [OF T True] by (simp add: skip_inv_def)
        ultimately show ?thesis using go [OF d1(1,4)] True hid kTypeValue vis unf d1(2) by (simp add: next_entry_def)
      next
        case False
        then have l: "live c seq es ?e" using live_hidden [OF T E i] kTypeValue vis by simp
        have "FindNextUserEntry it c skipping d = Some (d1\<lparr>di_valid := True, di_saved_key := []\<rparr>)"
          using False hid kTypeValue vis unf d1(2) by (auto simp: next_entry_def)
        then show ?thesis using l i d1 by (auto simp: db_pos_def)
      qed
    qed
  qed
qed simp

text \<open>Past an entry that has been yielded.\<close>

lemma next_past:
  assumes ok: "db_ok it c es ipos lim" and d: "di_at seq ipos d i" "di_direction d = kForward" "di_saved_key d = e_key (es ! i)"
    and i: "i < length es" and vis: "e_seq (es ! i) \<le> seq"
  shows "\<exists>d'. next_or_end it c True d = Some d' \<and> db_pos c seq es ipos d' (nlive c seq es (Suc i))"
proof (rule next_or_end_ok [OF ok d(1) i])
  fix d' assume d': "di_at seq ipos d' (Suc i)" "di_direction d' = di_direction d" "di_saved_key d' = di_saved_key d" "Suc i < length es"
  show "\<exists>d''. FindNextUserEntry it c True d' = Some d'' \<and> db_pos c seq es ipos d'' (nlive c seq es (Suc i))"
    by (rule FindNextUserEntry_ok [OF ok d'(1,4)]) (use d d' skip_inv_visible [OF db_okD(1) [OF ok] db_okD(2) [OF ok] vis] in auto)
qed (use nlive_all [of c seq es] in auto)

lemma FindNextUserEntry_over:
  assumes ok: "db_ok it c es ipos lim" and i: "i < length es" "live c seq es (es ! i)"
  shows "di_at seq ipos d q \<Longrightarrow> q \<le> i \<Longrightarrow> di_direction d = kForward \<Longrightarrow> di_saved_key d = e_key (es ! i) \<Longrightarrow>
    (\<forall>j. q \<le> j \<longrightarrow> j < i \<longrightarrow> \<not> e_seq (es ! j) \<le> seq) \<Longrightarrow>
    \<exists>d'. FindNextUserEntry it c True d = Some d' \<and> db_pos c seq es ipos d' (nlive c seq es (Suc i))"
proof (induction "i - q" arbitrary: d q)
  case 0
  then have q: "q = i" by simp
  let ?p = "\<lparr>pk_user_key = e_key (es ! i), pk_sequence = e_seq (es ! i), pk_type = e_type (es ! i)\<rparr>"
  obtain r m s where p: "DBIter_ParseKey it d = Some (Some ?p, d\<lparr>di_rnd := r, di_bytes_until := m, di_samples := s\<rparr>)"
      "di_at seq ipos (d\<lparr>di_rnd := r, di_bytes_until := m, di_samples := s\<rparr>) i"
    using DBIter_ParseKey_ok [OF ok 0(2) [unfolded q] i(1)] by blast
  have "FindNextUserEntry it c True d = next_or_end it c True (d\<lparr>di_rnd := r, di_bytes_until := m, di_samples := s\<rparr>)"
    using i(2) 0(5) p three_way.cmp_refl [OF db_okD(1) [OF ok]]
    by (simp add: FindNextUserEntry_unfold [of it c True d] next_entry_def live_def di_at_def)
  then show ?case using next_past [OF ok p(2) _ _ i(1)] 0 i(2) by (simp add: live_def)
next
  case (Suc n)
  then have q: "q < i" by simp
  then have ql: "q < length es" and inv: "\<not> e_seq (es ! q) \<le> seq" using i(1) Suc.prems(5) by auto
  obtain r m s where p: "DBIter_ParseKey it d =
        Some (Some \<lparr>pk_user_key = e_key (es ! q), pk_sequence = e_seq (es ! q), pk_type = e_type (es ! q)\<rparr>,
              d\<lparr>di_rnd := r, di_bytes_until := m, di_samples := s\<rparr>)"
      "di_at seq ipos (d\<lparr>di_rnd := r, di_bytes_until := m, di_samples := s\<rparr>) q"
    using DBIter_ParseKey_ok [OF ok Suc.prems(1) ql] by blast
  have "FindNextUserEntry it c True d = next_or_end it c True (d\<lparr>di_rnd := r, di_bytes_until := m, di_samples := s\<rparr>)"
    using p inv by (simp add: FindNextUserEntry_unfold [of it c True d] next_entry_def di_at_def)
  moreover have "\<exists>d'. next_or_end it c True (d\<lparr>di_rnd := r, di_bytes_until := m, di_samples := s\<rparr>) = Some d' \<and>
      db_pos c seq es ipos d' (nlive c seq es (Suc i))"
    by (rule next_or_end_ok [OF ok p(2) ql]) (use Suc.hyps(1) [of "Suc q"] Suc.hyps(2) Suc.prems i(1) q in auto)
  ultimately show ?case by simp
qed

lemma DBIter_Next_ok:
  assumes ok: "db_ok it c es ipos lim" and d: "db_pos c seq es ipos d n" and n: "n < length (user_view c seq es)"
  shows "\<exists>d'. DBIter_Next it c d = Some d' \<and> db_pos c seq es ipos d' (Suc n)"
proof -
  obtain i where i: "i < length es" "live c seq es (es ! i)" "n = nlive c seq es i"
    and dir: "if di_direction d = kForward then di_at seq ipos d i
      else di_saved_key d = e_key (es ! i) \<and> di_saved_value d = e_value (es ! i) \<and>
        (\<exists>q\<le>i. di_at seq ipos d (if q = 0 then length es else q - 1) \<and> (\<forall>j. q \<le> j \<longrightarrow> j < i \<longrightarrow> \<not> e_seq (es ! j) \<le> seq))"
    by (rule db_posE [OF d n])
  have sn: "nlive c seq es (Suc i) = Suc n" using i by (simp add: nlive_Suc)
  show ?thesis
  proof (cases "di_direction d")
    case kForward
    let ?d = "d\<lparr>di_saved_key := e_key (es ! i)\<rparr>"
    have at: "di_at seq ipos d i" using dir kForward by simp
    have "DBIter_Next it c d = next_or_end it c True ?d"
      using kForward di_entry(4) [OF ok at i(1)] by (auto simp: DBIter_Next_def next_or_end_def intro!: Option.bind_cong)
    then show ?thesis using next_past [OF ok, of seq ?d i] at i kForward sn by (simp add: live_def)
  next
    case kReverse
    then obtain q where q: "q \<le> i" "di_at seq ipos d (if q = 0 then length es else q - 1)"
        "\<forall>j. q \<le> j \<longrightarrow> j < i \<longrightarrow> \<not> e_seq (es ! j) \<le> seq" and k: "di_saved_key d = e_key (es ! i)"
      using dir by auto
    let ?d = "d\<lparr>di_direction := kForward\<rparr>"
    let ?move = "if \<not> it_Valid it (di_iter d) then it_SeekToFirst it else it_Next it"
    have "\<exists>x. ?move (di_iter ?d) = Some x \<and> ipos x q"
      using q(1,2) i(1) di_entry(1) [OF ok q(2)] bounded_iterator.seek_first [OF db_okD(3) [OF ok], of "di_iter d"]
        bounded_iterator.next_at [OF db_okD(3) [OF ok], of "di_iter d" "q - 1"]
      by (cases "q = 0") (auto simp: di_at_def)
    then obtain x where x: "iter_move ?move ?d = Some (?d\<lparr>di_iter := x\<rparr>)" "di_at seq ipos (?d\<lparr>di_iter := x\<rparr>) q"
      using iter_move_ok [of seq ipos ?d _ ?move q] q(2) by auto
    have "DBIter_Next it c d = FindNextUserEntry it c True (?d\<lparr>di_iter := x\<rparr>)"
      using kReverse x(1) di_entry(1) [OF ok x(2)] q(1) i(1) by (simp add: DBIter_Next_def Let_def split: if_splits)
    then show ?thesis using FindNextUserEntry_over [OF ok i(1,2) x(2) q(1)] q(3) k sn by simp
  qed
qed

section \<open>Searching back\<close>

text \<open>
  The loop before it looks at entry \<open>i\<close>, having started at \<open>p\<close>: the last visible entry passed, if it
  is a value, is saved.
\<close>

definition back_inv ::
    "Comparator \<Rightarrow> SequenceNumber \<Rightarrow> Entry list \<Rightarrow> nat \<Rightarrow> nat \<Rightarrow> ValueType \<Rightarrow> 'i DBIter \<Rightarrow> bool" where
  "back_inv c seq es q n value_type d \<longleftrightarrow>
     (case value_type of
        kTypeDeletion \<Rightarrow> nlive c seq es q = n
      | kTypeValue \<Rightarrow>
          \<exists>j<length es. q \<le> j \<and> e_seq (es ! j) \<le> seq \<and> e_type (es ! j) = kTypeValue \<and>
            di_saved_key d = e_key (es ! j) \<and> di_saved_value d = e_value (es ! j) \<and>
            (\<forall>k. q \<le> k \<longrightarrow> k < j \<longrightarrow> \<not> e_seq (es ! k) \<le> seq) \<and> nlive c seq es (Suc j) = n)"

lemma back_inv_simps [simp]:
  "back_inv c seq es q n vt (d\<lparr>di_rnd := r\<rparr>) = back_inv c seq es q n vt d"
  "back_inv c seq es q n vt (d\<lparr>di_bytes_until := m\<rparr>) = back_inv c seq es q n vt d"
  "back_inv c seq es q n vt (d\<lparr>di_samples := s\<rparr>) = back_inv c seq es q n vt d"
  "back_inv c seq es q n vt (d\<lparr>di_iter := x\<rparr>) = back_inv c seq es q n vt d"
  by (simp_all add: back_inv_def split: ValueType.split)

text \<open>What is saved when the loop ends is a pair of the view.\<close>

definition back_done ::
    "Comparator \<Rightarrow> SequenceNumber \<Rightarrow> Entry list \<Rightarrow> ('i \<Rightarrow> nat \<Rightarrow> bool) \<Rightarrow> nat \<Rightarrow> ValueType \<Rightarrow> 'i DBIter \<Rightarrow> bool" where
  "back_done c seq es ipos n value_type d \<longleftrightarrow>
     (\<exists>i. di_at seq ipos d i) \<and>
     (case value_type of
        kTypeDeletion \<Rightarrow> n = 0
      | kTypeValue \<Rightarrow>
          di_direction d = kReverse \<and>
          (\<exists>i<length es. live c seq es (es ! i) \<and> n = Suc (nlive c seq es i) \<and>
             di_saved_key d = e_key (es ! i) \<and> di_saved_value d = e_value (es ! i) \<and>
             (\<exists>q\<le>i. di_at seq ipos d (if q = 0 then length es else q - 1) \<and>
                (\<forall>j. q \<le> j \<longrightarrow> j < i \<longrightarrow> \<not> e_seq (es ! j) \<le> seq))))"

lemma back_stop:
  assumes T: "three_way (Compare c)" and ok: "entries_ok c es"
    and inv: "back_inv c seq es q n kTypeValue d" and d: "di_direction d = kReverse"
    and at: "di_at seq ipos d (if q = 0 then length es else q - 1)"
    and lt: "0 < q \<Longrightarrow> Compare c (e_key (es ! (q - 1))) (di_saved_key d) < 0"
  shows "back_done c seq es ipos n kTypeValue d"
proof -
  obtain j where j: "j < length es" "q \<le> j" "e_seq (es ! j) \<le> seq" "e_type (es ! j) = kTypeValue"
      "di_saved_key d = e_key (es ! j)" "di_saved_value d = e_value (es ! j)"
      "\<forall>k. q \<le> k \<longrightarrow> k < j \<longrightarrow> \<not> e_seq (es ! k) \<le> seq" "nlive c seq es (Suc j) = n"
    using inv by (auto simp: back_inv_def)
  have "\<not> (Compare c (e_key (es ! k)) (e_key (es ! j)) = 0 \<and> e_seq (es ! k) \<le> seq)" if "k < j" for k
  proof (cases "k < q")
    case True
    then have "Compare c (e_key (es ! k)) (e_key (es ! (q - 1))) \<le> 0" using entries_key_le [OF T ok, of k "q - 1"] j(1,2) by simp
    then have "Compare c (e_key (es ! k)) (e_key (es ! j)) < 0"
      using three_way.cmp_le_less_trans [OF T] lt True j(5) by fastforce
    then show ?thesis by simp
  qed (use j(7) that in auto)
  then have l: "live c seq es (es ! j)" using live_iff [OF T ok j(1)] j(3,4) by simp
  then have "n = Suc (nlive c seq es j)" using nlive_Suc [OF j(1), of c seq] j(8) by simp
  with l show ?thesis unfolding back_done_def ValueType.case using j at d by blast
qed

lemma back_step:
  assumes T: "three_way (Compare c)" and ok: "entries_ok c es" and q: "q < length es"
    and inv: "back_inv c seq es (Suc q) n vt d" and seq: "di_sequence d = seq"
    and key: "ExtractUserKey (it_key it (di_iter d)) = e_key (es ! q)" "it_value it (di_iter d) = e_value (es ! q)"
  shows "case prev_entry it c vt (Some \<lparr>pk_user_key = e_key (es ! q), pk_sequence = e_seq (es ! q), pk_type = e_type (es ! q)\<rparr>) d of
     (stop, vt', d') \<Rightarrow> if stop then vt = kTypeValue \<and> vt' = vt \<and> d' = d \<and> Compare c (e_key (es ! q)) (di_saved_key d) < 0
       else back_inv c seq es q n vt' d'"
proof (cases "e_seq (es ! q) \<le> seq")
  case False
  then have nl: "\<not> live c seq es (es ! q)" by (simp add: live_def)
  have "back_inv c seq es q n vt d"
  proof (cases vt)
    case kTypeDeletion
    then show ?thesis using inv nlive_Suc [OF q, of c seq] nl by (simp add: back_inv_def)
  next
    case kTypeValue
    then obtain j where j: "j < length es" "Suc q \<le> j" "e_seq (es ! j) \<le> seq" "e_type (es ! j) = kTypeValue"
      "di_saved_key d = e_key (es ! j)" "di_saved_value d = e_value (es ! j)"
      "\<forall>k. Suc q \<le> k \<longrightarrow> k < j \<longrightarrow> \<not> e_seq (es ! k) \<le> seq" "nlive c seq es (Suc j) = n"
      using inv by (auto simp: back_inv_def)
    have "\<not> e_seq (es ! k) \<le> seq" if "q \<le> k" "k < j" for k
      using that j(7) False by (cases "k = q") auto
    then show ?thesis using kTypeValue j by (auto simp: back_inv_def intro!: exI [of _ j])
  qed
  then show ?thesis using False seq by (simp add: prev_entry_def)
next
  case vis: True
  show ?thesis
  proof (cases "vt \<noteq> kTypeDeletion \<and> Compare c (e_key (es ! q)) (di_saved_key d) < 0")
    case True
    then show ?thesis using vis seq by (cases vt) (simp_all add: prev_entry_def)
  next
    case False
    have n: "nlive c seq es (Suc q) = n"
    proof (cases vt)
      case kTypeDeletion
      then show ?thesis using inv by (simp add: back_inv_def)
    next
      case kTypeValue
      then obtain j where j: "j < length es" "Suc q \<le> j" "di_saved_key d = e_key (es ! j)"
        "\<forall>k. Suc q \<le> k \<longrightarrow> k < j \<longrightarrow> \<not> e_seq (es ! k) \<le> seq" "nlive c seq es (Suc j) = n"
        using inv by (auto simp: back_inv_def)
      have "Compare c (e_key (es ! q)) (e_key (es ! j)) = 0"
        using False kTypeValue j(3) entries_key_le [OF T ok, of q j] j(1,2) by simp
      then have "\<not> live c seq es (es ! j)" using live_iff [OF T ok j(1), of seq] Suc_le_lessD [OF j(2)] vis by blast
      moreover have "nlive c seq es j = nlive c seq es (Suc q)"
        by (rule nlive_none) (use j in \<open>auto simp: live_def\<close>)
      ultimately show ?thesis using j(5) nlive_Suc [OF j(1), of c seq] by simp
    qed
    show ?thesis
    proof (cases "e_type (es ! q)")
      case kTypeDeletion
      then have "nlive c seq es q = n" using n nlive_Suc [OF q, of c seq] by (simp add: live_def)
      then show ?thesis using False kTypeDeletion vis seq by (auto simp: prev_entry_def back_inv_def)
    next
      case kTypeValue
      then show ?thesis using False vis seq key n q by (auto simp: prev_entry_def back_inv_def)
    qed
  qed
qed

lemma FindPrevUserEntry_loop_ok:
  assumes ok: "db_ok it c es ipos lim"
  shows "di_at seq ipos d q \<Longrightarrow> q < length es \<Longrightarrow> di_direction d = kReverse \<Longrightarrow> back_inv c seq es (Suc q) n vt d \<Longrightarrow>
    \<exists>vt' d'. FindPrevUserEntry_loop it c vt d = Some (vt', d') \<and> back_done c seq es ipos n vt' d'"
proof (induction q arbitrary: d vt rule: less_induct)
  case (less q)
  note T = db_okD(1) [OF ok] and E = db_okD(2) [OF ok] and q = less.prems(2)
  let ?p = "\<lparr>pk_user_key = e_key (es ! q), pk_sequence = e_seq (es ! q), pk_type = e_type (es ! q)\<rparr>"
  obtain r m s where p: "DBIter_ParseKey it d = Some (Some ?p, d\<lparr>di_rnd := r, di_bytes_until := m, di_samples := s\<rparr>)"
      "di_at seq ipos (d\<lparr>di_rnd := r, di_bytes_until := m, di_samples := s\<rparr>) q"
    using DBIter_ParseKey_ok [OF ok less.prems(1) q] by blast
  define d1 where "d1 = d\<lparr>di_rnd := r, di_bytes_until := m, di_samples := s\<rparr>"
  have d1: "di_at seq ipos d1 q" "di_direction d1 = kReverse" "back_inv c seq es (Suc q) n vt d1" "di_sequence d1 = seq"
    using p(2) less.prems(3,4) unfolding d1_def by (simp_all add: di_at_def)
  obtain stop vt' d2 where st: "prev_entry it c vt (Some ?p) d1 = (stop, vt', d2)" by (cases "prev_entry it c vt (Some ?p) d1")
  note step = back_step [OF T E q d1(3,4), of it, unfolded st prod.case, OF di_entry(4,3) [OF ok d1(1) q]]
  note unf = FindPrevUserEntry_loop.simps [of it c vt d, unfolded p(1), folded d1_def]
  show ?case
  proof (cases stop)
    case True
    then have s: "vt = kTypeValue" "vt' = kTypeValue" "d2 = d1" "Compare c (e_key (es ! q)) (di_saved_key d1) < 0" using step by auto
    have "back_done c seq es ipos n kTypeValue d1"
      by (rule back_stop [OF T E d1(3) [unfolded s(1)] d1(2)]) (use s(4) d1(1) in simp_all)
    then show ?thesis using True s unf st by simp
  next
    case False
    then have inv: "back_inv c seq es q n vt' d2" using step by simp
    have d2: "di_at seq ipos d2 q" "di_direction d2 = kReverse" "di_iter d2 = di_iter d1"
      using st d1(1,2) by (auto simp: prev_entry_def split: if_splits ValueType.splits)
    have "\<exists>x. it_Prev it (di_iter d2) = Some x \<and> ipos x (if q = 0 then length es else q - 1)"
      using bounded_iterator.prev_at [OF db_okD(3) [OF ok], of "di_iter d2" q] d2(1) q by (auto simp: di_at_def)
    then obtain x where x: "iter_move (it_Prev it) d2 = Some (d2\<lparr>di_iter := x\<rparr>)"
        "di_at seq ipos (d2\<lparr>di_iter := x\<rparr>) (if q = 0 then length es else q - 1)"
      using iter_move_ok [OF d2(1), of "it_Prev it"] by blast
    have inv': "back_inv c seq es q n vt' (d2\<lparr>di_iter := x\<rparr>)" using inv by simp
    show ?thesis
    proof (cases "q = 0")
      case True
      have "back_done c seq es ipos n vt' (d2\<lparr>di_iter := x\<rparr>)"
      proof (cases vt')
        case kTypeDeletion
        then show ?thesis using inv' x(2) True by (auto simp: back_done_def back_inv_def)
      next
        case kTypeValue
        show ?thesis unfolding kTypeValue
          by (rule back_stop [OF T E inv' [unfolded kTypeValue]]) (use x(2) d2(2) True in simp_all)
      qed
      then show ?thesis using True False unf st x(1) di_entry(1) [OF ok x(2)] by simp
    next
      case nz: False
      have "q - 1 < length es" using q by simp
      with nz show ?thesis
        using less.IH [of "q - 1" "d2\<lparr>di_iter := x\<rparr>" vt'] x inv' d2(2) q False unf st di_entry(1) [OF ok x(2)] by simp
    qed
  qed
qed

text \<open>From just before index \<open>q\<close> the search ends at the last pair of the view before \<open>q\<close>.\<close>

lemma FindPrevUserEntry_ok:
  assumes ok: "db_ok it c es ipos lim" and d: "di_at seq ipos d (if q = 0 then length es else q - 1)" "q \<le> length es"
    and dir: "di_direction d = kReverse"
  shows "\<exists>d'. FindPrevUserEntry it c d = Some d' \<and>
    db_pos c seq es ipos d' (if nlive c seq es q = 0 then length (user_view c seq es) else nlive c seq es q - 1)"
proof -
  let ?n = "nlive c seq es q"
  have "\<exists>vt d1. (if it_Valid it (di_iter d) then FindPrevUserEntry_loop it c kTypeDeletion d else Some (kTypeDeletion, d)) = Some (vt, d1) \<and>
      back_done c seq es ipos ?n vt d1"
  proof (cases "q = 0")
    case True
    then show ?thesis using di_entry(1) [OF ok d(1)] d(1) by (auto simp: back_done_def)
  next
    case False
    then have "back_inv c seq es (Suc (q - 1)) ?n kTypeDeletion d" by (simp add: back_inv_def)
    moreover have at: "di_at seq ipos d (q - 1)" "q - 1 < length es" using d False by simp_all
    ultimately have "\<exists>vt d1. FindPrevUserEntry_loop it c kTypeDeletion d = Some (vt, d1) \<and> back_done c seq es ipos ?n vt d1"
      using FindPrevUserEntry_loop_ok [OF ok at dir] by blast
    then show ?thesis using di_entry(1) [OF ok at(1)] at(2) by simp
  qed
  then obtain vt d1 where l: "(if it_Valid it (di_iter d) then FindPrevUserEntry_loop it c kTypeDeletion d else Some (kTypeDeletion, d)) =
      Some (vt, d1)" "back_done c seq es ipos ?n vt d1" by blast
  let ?d = "if vt = kTypeDeletion
     then d1\<lparr>di_valid := False, di_saved_key := [], di_saved_value := [], di_direction := kForward\<rparr> else d1\<lparr>di_valid := True\<rparr>"
  have "FindPrevUserEntry it c d = Some ?d" using l(1) by (simp add: FindPrevUserEntry_def)
  moreover have "db_pos c seq es ipos ?d (if ?n = 0 then length (user_view c seq es) else ?n - 1)"
  proof (cases vt)
    case kTypeDeletion
    then show ?thesis using l(2) by (auto simp: back_done_def db_pos_def)
  next
    case kTypeValue
    then obtain i where i: "i < length es" "live c seq es (es ! i)" "?n = Suc (nlive c seq es i)"
      "di_saved_key d1 = e_key (es ! i)" "di_saved_value d1 = e_value (es ! i)" "di_direction d1 = kReverse"
      "\<exists>q\<le>i. di_at seq ipos d1 (if q = 0 then length es else q - 1) \<and> (\<forall>j. q \<le> j \<longrightarrow> j < i \<longrightarrow> \<not> e_seq (es ! j) \<le> seq)"
      using l(2) unfolding back_done_def kTypeValue ValueType.case by blast
    define d2 where "d2 = d1\<lparr>di_valid := True\<rparr>"
    have d2: "di_valid d2" "di_direction d2 \<noteq> kForward" "di_saved_key d2 = di_saved_key d1"
        "di_saved_value d2 = di_saved_value d1" "di_at seq ipos d2 = di_at seq ipos d1"
      using i(6) by (simp_all add: d2_def fun_eq_iff)
    have "db_pos c seq es ipos d2 (nlive c seq es i)"
      unfolding db_pos_def if_P [OF d2(1)] if_not_P [OF d2(2)] d2(3-5) using i by blast
    moreover have "?d = d2" using kTypeValue by (simp add: d2_def)
    ultimately show ?thesis using i(3) by simp
  qed
  ultimately show ?thesis by blast
qed

lemma leave_key_ok:
  assumes ok: "db_ok it c es ipos lim" and i: "i < length es" "live c seq es (es ! i)"
  shows "di_at seq ipos d q \<Longrightarrow> q \<le> i \<Longrightarrow> di_saved_key d = e_key (es ! i) \<Longrightarrow> nlive c seq es q = n \<Longrightarrow>
    \<exists>b d'. leave_key it c d = Some (b, d') \<and>
      (if b then \<exists>q'. 0 < q' \<and> q' \<le> i \<and> di_at seq ipos d' (q' - 1) \<and> nlive c seq es q' = n
       else n = 0 \<and> \<not> di_valid d' \<and> (\<exists>i. di_at seq ipos d' i))"
proof (induction q arbitrary: d rule: less_induct)
  case (less q)
  note T = db_okD(1) [OF ok] and E = db_okD(2) [OF ok]
  have ql: "q < length es" using less.prems(2) i(1) by simp
  have "\<exists>x. it_Prev it (di_iter d) = Some x \<and> ipos x (if q = 0 then length es else q - 1)"
    using bounded_iterator.prev_at [OF db_okD(3) [OF ok], of "di_iter d" q] less.prems(1) ql by (auto simp: di_at_def)
  then obtain x where x: "iter_move (it_Prev it) d = Some (d\<lparr>di_iter := x\<rparr>)"
      "di_at seq ipos (d\<lparr>di_iter := x\<rparr>) (if q = 0 then length es else q - 1)"
    using iter_move_ok [OF less.prems(1), of "it_Prev it"] by blast
  note unf = leave_key.simps [of it c d, unfolded x(1)]
  show ?case
  proof (cases "q = 0")
    case True
    then show ?thesis using unf di_entry(1) [OF ok x(2)] x(2) less.prems(4) by auto
  next
    case False
    then have at: "di_at seq ipos (d\<lparr>di_iter := x\<rparr>) (q - 1)" "q - 1 < length es" using x(2) ql by simp_all
    note k = di_entry(4) [OF ok at]
    have v: "it_Valid it (di_iter (d\<lparr>di_iter := x\<rparr>))" using di_entry(1) [OF ok at(1)] at(2) by simp
    show ?thesis
    proof (cases "Compare c (e_key (es ! (q - 1))) (e_key (es ! i)) < 0")
      case True
      then have "leave_key it c d = Some (True, d\<lparr>di_iter := x\<rparr>)" using unf v k less.prems(3) by simp
      then show ?thesis using at(1) less.prems(2,4) False by auto
    next
      case same: False
      have "q - 1 < i" using False less.prems(2) by simp
      moreover have "Compare c (e_key (es ! (q - 1))) (e_key (es ! i)) = 0"
        using same entries_key_le [OF T E, of "q - 1" i] less.prems(2) i(1) by simp
      ultimately have "\<not> e_seq (es ! (q - 1)) \<le> seq" using live_iff [OF T E i(1), of seq] i(2) by blast
      then have "nlive c seq es (q - 1) = n"
        using nlive_Suc [OF at(2), of c seq] less.prems(4) False by (simp add: live_def)
      moreover have "leave_key it c d = leave_key it c (d\<lparr>di_iter := x\<rparr>)" using unf v k less.prems(3) same by simp
      ultimately show ?thesis
        using less.IH [of "q - 1" "d\<lparr>di_iter := x\<rparr>"] False at(1) less.prems(2,3) by simp
    qed
  qed
qed

lemma DBIter_Prev_ok:
  assumes ok: "db_ok it c es ipos lim" and d: "db_pos c seq es ipos d n" and n: "n < length (user_view c seq es)"
  shows "\<exists>d'. DBIter_Prev it c d = Some d' \<and>
    db_pos c seq es ipos d' (if n = 0 then length (user_view c seq es) else n - 1)"
proof -
  obtain i where i: "i < length es" "live c seq es (es ! i)" "n = nlive c seq es i"
    and dir: "if di_direction d = kForward then di_at seq ipos d i
      else di_saved_key d = e_key (es ! i) \<and> di_saved_value d = e_value (es ! i) \<and>
        (\<exists>q\<le>i. di_at seq ipos d (if q = 0 then length es else q - 1) \<and> (\<forall>j. q \<le> j \<longrightarrow> j < i \<longrightarrow> \<not> e_seq (es ! j) \<le> seq))"
    by (rule db_posE [OF d n])
  show ?thesis
  proof (cases "di_direction d")
    case kReverse
    then obtain q where q: "q \<le> i" "di_at seq ipos d (if q = 0 then length es else q - 1)"
        "\<forall>j. q \<le> j \<longrightarrow> j < i \<longrightarrow> \<not> e_seq (es ! j) \<le> seq" using dir by auto
    have "nlive c seq es i = nlive c seq es q" by (rule nlive_none) (use q i in \<open>auto simp: live_def\<close>)
    then have n: "n = nlive c seq es q" using i(3) by simp
    have "DBIter_Prev it c d = FindPrevUserEntry it c d" using kReverse by (simp add: DBIter_Prev_def)
    moreover have "q \<le> length es" using q(1) i(1) by simp
    ultimately show ?thesis using FindPrevUserEntry_ok [OF ok q(2) _ kReverse] unfolding n by simp
  next
    case kForward
    let ?d = "d\<lparr>di_saved_key := e_key (es ! i)\<rparr>"
    have at: "di_at seq ipos d i" using dir kForward by simp
    then obtain b d' where l: "leave_key it c ?d = Some (b, d')"
        "if b then \<exists>q'. 0 < q' \<and> q' \<le> i \<and> di_at seq ipos d' (q' - 1) \<and> nlive c seq es q' = n
         else n = 0 \<and> \<not> di_valid d' \<and> (\<exists>i. di_at seq ipos d' i)"
      using leave_key_ok [OF ok i(1,2), of ?d i n] i(3) by auto
    have prev: "DBIter_Prev it c d = (if b then FindPrevUserEntry it c (d'\<lparr>di_direction := kReverse\<rparr>) else Some d')"
      using kForward di_entry(4) [OF ok at i(1)] l(1) by (simp add: DBIter_Prev_def)
    show ?thesis
    proof (cases b)
      case True
      then obtain q where q: "0 < q" "q \<le> i" "di_at seq ipos d' (q - 1)" "nlive c seq es q = n" using l(2) by auto
      have "DBIter_Prev it c d = FindPrevUserEntry it c (d'\<lparr>di_direction := kReverse\<rparr>)" using True prev by simp
      moreover have "q \<le> length es" "di_at seq ipos (d'\<lparr>di_direction := kReverse\<rparr>) (if q = 0 then length es else q - 1)"
        using q(1-3) i(1) by simp_all
      ultimately show ?thesis
        using FindPrevUserEntry_ok [OF ok, of seq "d'\<lparr>di_direction := kReverse\<rparr>" q] unfolding q(4) [symmetric] by simp
    next
      case False
      then show ?thesis using prev l(2) by (auto simp: db_pos_def)
    qed
  qed
qed

section \<open>Seeking\<close>

definition seek_key :: "bytes \<Rightarrow> SequenceNumber \<Rightarrow> bytes" where
  "seek_key target seq = AppendInternalKey [] \<lparr>pk_user_key = target, pk_sequence = seq, pk_type = kValueTypeForSeek\<rparr>"

lemma length_seek_key: "length (seek_key target seq) = length target + 8"
  by (simp add: seek_key_def AppendInternalKey_eq)

lemma compare_seek_key:
  assumes "e_seq e \<le> kMaxSequenceNumber" "seq \<le> kMaxSequenceNumber"
  shows "InternalKeyComparator_Compare c (entry_internal e) (seek_key target seq) < 0 \<longleftrightarrow>
    Compare c (e_key e) target < 0 \<or> Compare c (e_key e) target = 0 \<and> seq < e_seq e"
proof -
  have "PackSequenceAndType seq kTypeValue < PackSequenceAndType (e_seq e) (e_type e) \<longleftrightarrow> seq < e_seq e"
    using assms Pack_less_iff [of seq "e_seq e" kTypeValue "e_type e"] by (cases "e_type e") auto
  then show ?thesis
    by (auto simp: InternalKeyComparator_Compare_def entry_internal_def seek_key_def kValueTypeForSeek_def
        AppendInternalKey_eq Let_def)
qed

lemma takeWhile_split:
  assumes "\<And>x. x \<in> set xs \<Longrightarrow> P x" "\<And>y. y \<in> set ys \<Longrightarrow> \<not> P y"
  shows "takeWhile P (xs @ ys) = xs"
proof -
  have "takeWhile P ys = []" using assms(2) by (cases ys) auto
  then show ?thesis using assms(1) by simp
qed

lemma seek_index:
  fixes target :: bytes
  assumes T: "three_way (Compare c)" and ok: "entries_ok c es" and seq: "seq \<le> kMaxSequenceNumber"
  defines "i \<equiv> lower_bound (InternalKeyComparator_Compare c) (seek_key target seq) (map entry_pair es)"
  shows "i \<le> length es" "nlive c seq es i = lower_bound (Compare c) target (user_view c seq es)"
    "skip_inv c seq es i False k"
proof -
  let ?P = "\<lambda>e. Compare c (e_key e) target < 0 \<or> Compare c (e_key e) target = 0 \<and> seq < e_seq e"
  have iff: "InternalKeyComparator_Compare c (fst (map entry_pair es ! j)) (seek_key target seq) < 0 \<longleftrightarrow> ?P (es ! j)"
    if "j < length es" for j
    using that ok seq compare_seek_key [of "es ! j" seq c target] by (simp add: entry_pair_def entries_ok_def)
  show le: "i \<le> length es" using lower_bound_le [of _ _ "map entry_pair es"] unfolding i_def by simp
  have below: "?P (es ! j)" if "j < i" for j
    using lower_bound_below [of j _ _ "map entry_pair es"] iff [of j] that le unfolding i_def by simp
  have above: "\<not> ?P (es ! j)" if j: "i \<le> j" "j < length es" for j
  proof
    assume P: "?P (es ! j)"
    have "\<not> ?P (es ! i)" using lower_bound_at [of _ _ "map entry_pair es"] iff [of i] j unfolding i_def by simp
    then have "i \<noteq> j" using P by auto
    then have "entry_before c (es ! i) (es ! j)"
      using sorted_wrt_nth_less [of "entry_before c" es i j] ok j by (simp add: entries_ok_def)
    then have le: "Compare c (e_key (es ! i)) (e_key (es ! j)) < 0 \<or>
        Compare c (e_key (es ! i)) (e_key (es ! j)) = 0 \<and> e_seq (es ! j) < e_seq (es ! i)" by (simp add: entry_before_def)
    have "?P (es ! i)"
    proof (cases "Compare c (e_key (es ! j)) target < 0 \<or> Compare c (e_key (es ! i)) (e_key (es ! j)) < 0")
      case True
      then have "Compare c (e_key (es ! i)) target < 0"
        using P le three_way.cmp_less_le_trans [OF T, of "e_key (es ! i)" "e_key (es ! j)" target]
          three_way.cmp_le_less_trans [OF T, of "e_key (es ! i)" "e_key (es ! j)" target] by auto
      then show ?thesis by simp
    next
      case False
      then have "Compare c (e_key (es ! i)) target \<le> 0" "seq < e_seq (es ! i)"
        using P le three_way.cmp_trans [OF T, of "e_key (es ! i)" "e_key (es ! j)" target] by auto
      then show ?thesis by linarith
    qed
    with \<open>\<not> ?P (es ! i)\<close> show False by simp
  qed
  have "takeWhile (\<lambda>kv. Compare c (fst kv) target < 0)
      (map (\<lambda>e. (e_key e, e_value e)) (filter (live c seq es) (take i es)) @
       map (\<lambda>e. (e_key e, e_value e)) (filter (live c seq es) (drop i es))) =
      map (\<lambda>e. (e_key e, e_value e)) (filter (live c seq es) (take i es))"
  proof (rule takeWhile_split)
    fix x assume "x \<in> set (map (\<lambda>e. (e_key e, e_value e)) (filter (live c seq es) (take i es)))"
    then obtain j where "j < i" "live c seq es (es ! j)" "x = (e_key (es ! j), e_value (es ! j))"
      using le by (auto simp: in_set_conv_nth)
    then show "Compare c (fst x) target < 0" using below [of j] by (auto simp: live_def)
  next
    fix x assume "x \<in> set (map (\<lambda>e. (e_key e, e_value e)) (filter (live c seq es) (drop i es)))"
    then obtain j where "i + j < length es" "x = (e_key (es ! (i + j)), e_value (es ! (i + j)))"
      using le by (auto simp: in_set_conv_nth less_diff_conv add.commute)
    then show "\<not> Compare c (fst x) target < 0" using above [of "i + j"] by auto
  qed
  then show "nlive c seq es i = lower_bound (Compare c) target (user_view c seq es)"
    unfolding lower_bound_def nlive_def user_view_def filter_append [symmetric] map_append [symmetric] append_take_drop_id by simp
  have "\<not> hidden c seq es i j" if j: "i \<le> j" "j < length es" for j
  proof
    assume "hidden c seq es i j"
    then obtain l where l: "l < i" "Compare c (e_key (es ! l)) (e_key (es ! j)) = 0" "e_seq (es ! l) \<le> seq" by (auto simp: hidden_def)
    have "Compare c (e_key (es ! l)) target < 0" using below [OF l(1)] l(3) by auto
    then have "Compare c (e_key (es ! j)) target < 0"
      using l(2) three_way.cmp_flip_eq [OF T, of "e_key (es ! l)" "e_key (es ! j)"]
        three_way.cmp_le_less_trans [OF T, of "e_key (es ! j)" "e_key (es ! l)" target] by simp
    with above [OF j] show False by simp
  qed
  then show "skip_inv c seq es i False k" by (simp add: skip_inv_def)
qed

lemma find_first_ok:
  assumes ok: "db_ok it c es ipos lim" and d: "di_at seq ipos d i" "i \<le> length es" "di_direction d = kForward"
    and inv: "skip_inv c seq es i False (di_saved_key d)"
  shows "\<exists>d'. (if it_Valid it (di_iter d) then FindNextUserEntry it c False d else Some (d\<lparr>di_valid := False\<rparr>)) = Some d' \<and>
    db_pos c seq es ipos d' (nlive c seq es i)"
proof (cases "i < length es")
  case True
  then show ?thesis using FindNextUserEntry_ok [OF ok d(1) True d(3) inv] di_entry(1) [OF ok d(1)] by simp
next
  case False
  then have "i = length es" using d(2) by simp
  then show ?thesis using False di_entry(1) [OF ok d(1)] d(1) nlive_all [of c seq es] by (auto simp: db_pos_def)
qed

lemma db_pos_at: "db_pos c seq es ipos d n \<Longrightarrow> \<exists>i. di_at seq ipos d i"
  by (auto simp: db_pos_def split: if_splits)

lemma DBIter_Seek_ok:
  assumes ok: "db_ok it c es ipos lim" and seq: "seq \<le> kMaxSequenceNumber" and d: "di_at seq ipos d j"
    and target: "length target < lim"
  shows "\<exists>d'. DBIter_Seek it c target d = Some d' \<and>
    db_pos c seq es ipos d' (lower_bound (Compare c) target (user_view c seq es))"
proof -
  let ?d = "d\<lparr>di_direction := kForward, di_saved_value := [], di_saved_key := seek_key target seq\<rparr>"
  let ?i = "lower_bound (InternalKeyComparator_Compare c) (seek_key target seq) (map entry_pair es)"
  have ds: "di_sequence d = seq" using d by (simp add: di_at_def)
  have "\<exists>x. it_Seek it (seek_key target seq) (di_iter ?d) = Some x \<and> ipos x ?i"
    using bounded_iterator.seek [OF db_okD(3) [OF ok], of "di_iter d" j "seek_key target seq"] d target
    by (simp add: di_at_def length_seek_key)
  then obtain x where x: "iter_move (it_Seek it (seek_key target seq)) ?d = Some (?d\<lparr>di_iter := x\<rparr>)"
      "di_at seq ipos (?d\<lparr>di_iter := x\<rparr>) ?i"
    using iter_move_ok [of seq ipos ?d j "it_Seek it (seek_key target seq)" ?i] d by auto
  note s = seek_index [OF db_okD(1) [OF ok] db_okD(2) [OF ok] seq, of target]
  have "DBIter_Seek it c target d = (if it_Valid it (di_iter (?d\<lparr>di_iter := x\<rparr>))
      then FindNextUserEntry it c False (?d\<lparr>di_iter := x\<rparr>) else Some (?d\<lparr>di_iter := x, di_valid := False\<rparr>))"
    using x(1) by (simp add: DBIter_Seek_def Let_def ds seek_key_def)
  then show ?thesis using find_first_ok [OF ok x(2) s(1) _ s(3)] s(2) by simp
qed

lemma DBIter_SeekToFirst_ok:
  assumes ok: "db_ok it c es ipos lim" and d: "di_at seq ipos d j"
  shows "\<exists>d'. DBIter_SeekToFirst it c d = Some d' \<and> db_pos c seq es ipos d' 0"
proof -
  let ?d = "d\<lparr>di_direction := kForward, di_saved_value := []\<rparr>"
  have "\<exists>x. it_SeekToFirst it (di_iter ?d) = Some x \<and> ipos x 0"
    using bounded_iterator.seek_first [OF db_okD(3) [OF ok], of "di_iter d" j] d by (simp add: di_at_def)
  then obtain x where x: "iter_move (it_SeekToFirst it) ?d = Some (?d\<lparr>di_iter := x\<rparr>)" "di_at seq ipos (?d\<lparr>di_iter := x\<rparr>) 0"
    using iter_move_ok [of seq ipos ?d j "it_SeekToFirst it" 0] d by auto
  have "skip_inv c seq es 0 False (di_saved_key (?d\<lparr>di_iter := x\<rparr>))" by (simp add: skip_inv_def hidden_def)
  from find_first_ok [OF ok x(2) _ _ this] show ?thesis using x(1) by (simp add: DBIter_SeekToFirst_def)
qed

lemma DBIter_SeekToLast_ok:
  assumes ok: "db_ok it c es ipos lim" and d: "di_at seq ipos d j"
  shows "\<exists>d'. DBIter_SeekToLast it c d = Some d' \<and> db_pos c seq es ipos d' (length (user_view c seq es) - 1)"
proof -
  let ?d = "d\<lparr>di_direction := kReverse, di_saved_value := []\<rparr>" and ?q = "length es"
  have "\<exists>x. it_SeekToLast it (di_iter ?d) = Some x \<and> ipos x (if ?q = 0 then length es else ?q - 1)"
    using bounded_iterator.seek_last [OF db_okD(3) [OF ok], of "di_iter d" j] d by (auto simp: di_at_def)
  then obtain x where x: "iter_move (it_SeekToLast it) ?d = Some (?d\<lparr>di_iter := x\<rparr>)"
      "di_at seq ipos (?d\<lparr>di_iter := x\<rparr>) (if ?q = 0 then length es else ?q - 1)"
    using iter_move_ok [of seq ipos ?d j "it_SeekToLast it" "if ?q = 0 then length es else ?q - 1"] d by auto
  have "(if nlive c seq es ?q = 0 then length (user_view c seq es) else nlive c seq es ?q - 1) = length (user_view c seq es) - 1"
    using nlive_all [of c seq es] by simp
  then show ?thesis using FindPrevUserEntry_ok [OF ok x(2)] x(1) by (simp add: DBIter_SeekToLast_def)
qed

section \<open>The contract\<close>

lemma DBIterator_contract:
  assumes ok: "db_ok it c es ipos lim" and seq: "seq \<le> kMaxSequenceNumber"
  shows "bounded_iterator (DBIterator it c) (Compare c) (user_view c seq es) (db_pos c seq es ipos) lim"
proof unfold_locales
  fix d n target
  assume pos: "db_pos c seq es ipos d n"
  then obtain j where j: "di_at seq ipos d j" using db_pos_at by blast
  note defs = DBIterator_def Iterator.simps
  show "n \<le> length (user_view c seq es)"
    using pos nlive_less by (auto simp: db_pos_def less_imp_le split: if_splits)
  show "it_Valid (DBIterator it c) d = (n < length (user_view c seq es))"
    using pos nlive_less by (auto simp: db_pos_def defs split: if_splits)
  show "it_status (DBIterator it c) d = Status_OK"
    using j bounded_iterator.status_at [OF db_okD(3) [OF ok], of "di_iter d" j] by (simp add: defs DBIter_status_def di_at_def)
  show "\<exists>i'. it_SeekToFirst (DBIterator it c) d = Some i' \<and> db_pos c seq es ipos i' 0"
    unfolding defs by (rule DBIter_SeekToFirst_ok [OF ok j])
  show "\<exists>i'. it_SeekToLast (DBIterator it c) d = Some i' \<and> db_pos c seq es ipos i' (length (user_view c seq es) - 1)"
    unfolding defs by (rule DBIter_SeekToLast_ok [OF ok j])
  show "\<exists>i'. it_Seek (DBIterator it c) target d = Some i' \<and>
      db_pos c seq es ipos i' (lower_bound (Compare c) target (user_view c seq es))"
    if "length target < lim" unfolding defs by (rule DBIter_Seek_ok [OF ok seq j that])
  assume n: "n < length (user_view c seq es)"
  obtain i where i: "i < length es" "live c seq es (es ! i)" "n = nlive c seq es i"
      "if di_direction d = kForward then di_at seq ipos d i
       else di_saved_key d = e_key (es ! i) \<and> di_saved_value d = e_value (es ! i) \<and>
         (\<exists>q\<le>i. di_at seq ipos d (if q = 0 then length es else q - 1) \<and> (\<forall>j. q \<le> j \<longrightarrow> j < i \<longrightarrow> \<not> e_seq (es ! j) \<le> seq))"
    by (rule db_posE [OF pos n])
  then show "it_key (DBIterator it c) d = fst (user_view c seq es ! n)" "it_value (DBIterator it c) d = snd (user_view c seq es ! n)"
    using user_view_nth [OF i(1,2)] di_entry [OF ok _, of seq d i]
    by (auto simp: defs DBIter_key_def DBIter_value_def split: if_splits)
  show "\<exists>i'. it_Next (DBIterator it c) d = Some i' \<and> db_pos c seq es ipos i' (Suc n)"
    unfolding defs by (rule DBIter_Next_ok [OF ok pos n])
  show "\<exists>i'. it_Prev (DBIterator it c) d = Some i' \<and>
      db_pos c seq es ipos i' (if n = 0 then length (user_view c seq es) else n - 1)"
    unfolding defs by (rule DBIter_Prev_ok [OF ok pos n])
qed

lemma NewDBIterator_pos:
  assumes "ipos i n"
  shows "db_pos c seq es ipos (NewDBIterator i seq sd) (length (user_view c seq es))"
proof -
  have "random_ok (snd (RandomCompactionPeriod (Random_make sd)))"
    by (rule RandomCompactionPeriod_ok(1) [OF random_ok_make])
  then show ?thesis using assms by (auto simp: db_pos_def di_at_def NewDBIterator_def split: prod.splits)
qed

text \<open>The view holds what lookups return: a key is in it with the value of its newest visible entry.\<close>

lemma newest_unique:
  assumes T: "three_way (Compare c)" and ok: "entries_ok c es"
    and e: "e \<in> set es" "visible c uk seq e" "\<And>b. b \<in> set es \<Longrightarrow> visible c uk seq b \<Longrightarrow> e_seq b \<le> e_seq e"
  shows "newest (filter (visible c uk seq) es) = Some e"
proof -
  obtain f where f: "newest (filter (visible c uk seq) es) = Some f" "f \<in> set es" "visible c uk seq f"
      "\<forall>b\<in>set (filter (visible c uk seq) es). e_seq b \<le> e_seq f"
    using newest_cases [of "filter (visible c uk seq) es"] e(1,2) by (auto simp: filter_empty_conv)
  have s: "e_seq e = e_seq f" using e f by (intro antisym) auto
  obtain i j where ij: "i < length es" "es ! i = e" "j < length es" "es ! j = f" using e(1) f(2) by (metis in_set_conv_nth)
  have k: "Compare c (e_key e) (e_key f) = 0" "Compare c (e_key f) (e_key e) = 0"
    using e(2) f(3) three_way.cmp_trans [OF T, of "e_key e" uk "e_key f"] three_way.cmp_trans [OF T, of "e_key f" uk "e_key e"]
      three_way.cmp_flip_eq [OF T, of "e_key e" uk] three_way.cmp_flip_eq [OF T, of "e_key f" uk]
      three_way.cmp_flip_le [OF T, of "e_key e" "e_key f"] three_way.cmp_flip_le [OF T, of "e_key f" "e_key e"]
    by (auto simp: visible_def)
  have "\<not> i < j" "\<not> j < i"
    using sorted_wrt_nth_less [of "entry_before c" es] ok ij s k by (fastforce simp: entries_ok_def entry_before_def)+
  then show ?thesis using f(1) ij by auto
qed

lemma visible_same:
  "three_way (Compare c) \<Longrightarrow> Compare c k uk = 0 \<Longrightarrow> visible c k seq b = visible c uk seq b"
  using three_way.cmp_trans [of "Compare c" "e_key b" k uk] three_way.cmp_trans [of "Compare c" "e_key b" uk k]
    three_way.cmp_trans [of "Compare c" k uk "e_key b"] three_way.cmp_trans [of "Compare c" uk k "e_key b"]
    three_way.cmp_flip_eq [of "Compare c" k uk] three_way.cmp_flip_ge [of "Compare c" "e_key b" k]
    three_way.cmp_flip_ge [of "Compare c" "e_key b" uk]
  unfolding visible_def by (metis antisym order_refl)

lemma user_view_get:
  assumes T: "three_way (Compare c)" and ok: "entries_ok c es"
  shows "(\<exists>k. (k, w) \<in> set (user_view c seq es) \<and> Compare c k uk = 0) \<longleftrightarrow>
    (\<exists>e. newest (filter (visible c uk seq) es) = Some e \<and> e_type e = kTypeValue \<and> e_value e = w)"
proof
  assume "\<exists>k. (k, w) \<in> set (user_view c seq es) \<and> Compare c k uk = 0"
  then obtain e where e: "e \<in> set es" "live c seq es e" "e_value e = w" "Compare c (e_key e) uk = 0"
    by (auto simp: user_view_def)
  have "newest (filter (visible c uk seq) es) = Some e"
    by (rule newest_unique [OF T ok e(1)]) (use e visible_same [OF T e(4)] in \<open>auto simp: live_def visible_def\<close>)
  with e show "\<exists>e. newest (filter (visible c uk seq) es) = Some e \<and> e_type e = kTypeValue \<and> e_value e = w"
    by (auto simp: live_def)
next
  assume "\<exists>e. newest (filter (visible c uk seq) es) = Some e \<and> e_type e = kTypeValue \<and> e_value e = w"
  then obtain e where e: "newest (filter (visible c uk seq) es) = Some e" "e_type e = kTypeValue" "e_value e = w" by blast
  then have m: "e \<in> set es" "visible c uk seq e" "\<forall>b\<in>set es. visible c uk seq b \<longrightarrow> e_seq b \<le> e_seq e"
    using newest_cases [of "filter (visible c uk seq) es"] by auto
  have k: "Compare c (e_key e) uk = 0" using m(2) by (simp add: visible_def)
  have "live c seq es e" using e(2) m visible_same [OF T k] by (auto simp: live_def visible_def)
  then show "\<exists>k. (k, w) \<in> set (user_view c seq es) \<and> Compare c k uk = 0"
    using m(1) e(3) k by (auto simp: user_view_def intro!: exI [of _ "e_key e"])
qed

text \<open>
  C28. The iterator a client gets shows the database as it was at a sequence number: over an
  internal iterator with the iterator contract for the entries of the database, \<^verbatim>\<open>DBIter\<close> keeps the
  contract (for keys eight bytes shorter) for the list of user keys with the value of their newest visible entry, deleted and hidden
  keys left out: all seeks, \<^verbatim>\<open>Next\<close> and \<^verbatim>\<open>Prev\<close> return, in any order and with any changes of direction, and
  move in that list.
\<close>

theorem db_iterator:
  assumes "three_way (Compare c)" and "entries_ok c es" and "seq \<le> kMaxSequenceNumber"
    and "bounded_iterator it (InternalKeyComparator_Compare c) (map entry_pair es) ipos (lim + 8)" and "ipos i n"
  shows "\<exists>pos. bounded_iterator (DBIterator it c) (Compare c) (user_view c seq es) pos lim \<and>
    pos (NewDBIterator i seq sd) (length (user_view c seq es))"
proof -
  have "db_ok it c es ipos lim" using assms by (simp add: db_ok_def)
  with DBIterator_contract [OF this assms(3)] NewDBIterator_pos [of ipos i n, OF assms(5)] show ?thesis by blast
qed

definition sample_entries :: "Entry list" where
  "sample_entries =
     [\<lparr>e_seq = 9, e_type = kTypeValue, e_key = [1], e_value = [19]\<rparr>,
      \<lparr>e_seq = 3, e_type = kTypeValue, e_key = [1], e_value = [13]\<rparr>,
      \<lparr>e_seq = 4, e_type = kTypeDeletion, e_key = [2], e_value = []\<rparr>,
      \<lparr>e_seq = 2, e_type = kTypeValue, e_key = [2], e_value = [22]\<rparr>,
      \<lparr>e_seq = 5, e_type = kTypeValue, e_key = [3], e_value = [35]\<rparr>,
      \<lparr>e_seq = 1, e_type = kTypeValue, e_key = [3], e_value = [31]\<rparr>]"

theorem db_iterator_witness:
  "\<exists>pos. bounded_iterator
       (DBIterator (ListIterator (InternalKeyComparator_Compare BytewiseComparator)) BytewiseComparator)
       (Compare BytewiseComparator) [([1], [13]), ([3], [35])] pos 9 \<and>
     pos (NewDBIterator (map entry_pair sample_entries, 0) 6 301) 2"
proof -
  have v: "user_view BytewiseComparator 6 sample_entries = [([1], [13]), ([3], [35])]"
    by (simp add: user_view_def sample_entries_def live_def visible_def word_le_nat_alt)
  have ok: "entries_ok BytewiseComparator sample_entries"
    by (simp add: entries_ok_def sample_entries_def entry_before_def kMaxSequenceNumber_eq)
  have len: "length [([1] :: bytes, [13] :: bytes), ([3], [35])] = 2" by simp
  show ?thesis
    using db_iterator [OF bytewise.three_way_axioms ok, of 6
        "ListIterator (InternalKeyComparator_Compare BytewiseComparator)" "list_pos (map entry_pair sample_entries)"
        9 "(map entry_pair sample_entries, 0)" 0 301]
      list_iterator.bounded
    unfolding v len by (simp add: kMaxSequenceNumber_eq list_pos_def)
qed

text \<open>
  C29. The loop that reports read samples ends: although a drawn period may be zero, the
  counter reaches the number of bytes read after at most two draws for every missing byte and one
  more, it exceeds what is needed by less than two periods, and the same key is reported at every draw.
\<close>

theorem read_sampling:
  assumes "random_ok (di_rnd d)"
  shows "\<exists>r m n. sampling_loop k b d = Some (d\<lparr>di_rnd := r, di_bytes_until := m, di_samples := di_samples d @ replicate n k\<rparr>) \<and>
    random_ok r \<and> b \<le> m \<and> m < max (Suc (di_bytes_until d)) (b + 2 * kReadBytesPeriod) \<and>
    n \<le> 2 * (b - di_bytes_until d) + 1"
proof -
  have "2 * (b - di_bytes_until d) + (if fst (RandomCompactionPeriod (di_rnd d)) = 0 then 1 else 0) \<le> 2 * (b - di_bytes_until d) + 1"
    by simp
  with sampling_loop_ends [OF assms, of k b] show ?thesis by (meson order_trans)
qed

theorem read_sampling_witness:
  "\<exists>r m n. sampling_loop [7] 3000000 (NewDBIterator () 6 301) =
      Some ((NewDBIterator () 6 301)\<lparr>di_rnd := r, di_bytes_until := m, di_samples := di_samples (NewDBIterator () 6 301) @ replicate n [7]\<rparr>) \<and>
    random_ok r \<and> 3000000 \<le> m \<and> m < max (Suc (di_bytes_until (NewDBIterator () 6 301))) (3000000 + 2 * kReadBytesPeriod) \<and>
    n \<le> 2 * (3000000 - di_bytes_until (NewDBIterator () 6 301)) + 1"
proof (rule read_sampling)
  show "random_ok (di_rnd (NewDBIterator () 6 301))"
    using RandomCompactionPeriod_ok(1) [OF random_ok_make [of 301]]
    by (cases "RandomCompactionPeriod (Random_make 301)") (simp add: NewDBIterator_def)
qed

end
