(* ===== verification/Version_Files.thy ===== *)
theory Version_Files
  imports Version_Edit DB_Iter
begin

text \<open>
  The file lists of \<^verbatim>\<open>db/version_set.cc\<close>: finding the file that may hold a key, the overlap of a range of
  user keys with the files of a level, the files a range leads to in a level whose files may overlap
  each other, boundary files, and the size limits.  A level is a list of pointers to file
  descriptions, of any type \<open>'f\<close>; \<open>fm\<close> follows a pointer.  A null pointer to a key is \<open>None\<close>.
\<close>

section \<open>Sizes\<close>

text \<open>
  A signed 64-bit number is a word read with \<^term>\<open>sint\<close>.  Of the options these functions read
  \<^verbatim>\<open>max_file_size\<close>.
\<close>

definition TargetFileSize :: "u64 \<Rightarrow> u64" where
  "TargetFileSize max_file_size = max_file_size"

definition MaxGrandParentOverlapBytes :: "u64 \<Rightarrow> int" where
  "MaxGrandParentOverlapBytes max_file_size = sint (10 * TargetFileSize max_file_size)"

definition ExpandedCompactionByteSizeLimit :: "u64 \<Rightarrow> int" where
  "ExpandedCompactionByteSizeLimit max_file_size = sint (25 * TargetFileSize max_file_size)"

definition MaxFileSizeForLevel :: "u64 \<Rightarrow> nat \<Rightarrow> u64" where
  "MaxFileSizeForLevel max_file_size level = TargetFileSize max_file_size"

definition TotalFileSize :: "('f \<Rightarrow> FileMetaData) \<Rightarrow> 'f list \<Rightarrow> int" where
  "TotalFileSize fm files = sint (foldl (\<lambda>s f. s + fm_file_size (fm f)) 0 files)"

section \<open>Keys of files\<close>

abbreviation smallest_of :: "('f \<Rightarrow> FileMetaData) \<Rightarrow> 'f \<Rightarrow> bytes" where
  "smallest_of fm f \<equiv> InternalKey_Encode (fm_smallest (fm f))"

abbreviation largest_of :: "('f \<Rightarrow> FileMetaData) \<Rightarrow> 'f \<Rightarrow> bytes" where
  "largest_of fm f \<equiv> InternalKey_Encode (fm_largest (fm f))"

abbreviation start_of :: "('f \<Rightarrow> FileMetaData) \<Rightarrow> 'f \<Rightarrow> bytes" where
  "start_of fm f \<equiv> InternalKey_user_key (fm_smallest (fm f))"

abbreviation limit_of :: "('f \<Rightarrow> FileMetaData) \<Rightarrow> 'f \<Rightarrow> bytes" where
  "limit_of fm f \<equiv> InternalKey_user_key (fm_largest (fm f))"

section \<open>Finding a file\<close>

text \<open>The 32-bit sum of \<^verbatim>\<open>left\<close> and \<^verbatim>\<open>right\<close> does not wrap for fewer than \<open>2 ^ 31\<close> files.\<close>

function FindFile_loop :: "Comparator \<Rightarrow> ('f \<Rightarrow> FileMetaData) \<Rightarrow> 'f list \<Rightarrow> bytes \<Rightarrow> nat \<Rightarrow> nat \<Rightarrow> nat" where
  "FindFile_loop c fm files key left right =
     (if left < right then
        (let mid = (left + right) div 2 in
         if InternalKeyComparator_Compare c (largest_of fm (files ! mid)) key < 0
         then FindFile_loop c fm files key (mid + 1) right
         else FindFile_loop c fm files key left mid)
      else right)"
  by pat_completeness auto
termination
  by (relation "measure (\<lambda>(_, _, _, _, left, right). right - left)") auto

declare FindFile_loop.simps [simp del]

definition FindFile :: "Comparator \<Rightarrow> ('f \<Rightarrow> FileMetaData) \<Rightarrow> 'f list \<Rightarrow> bytes \<Rightarrow> nat" where
  "FindFile c fm files key = FindFile_loop c fm files key 0 (length files)"

definition AfterFile :: "Comparator \<Rightarrow> bytes option \<Rightarrow> FileMetaData \<Rightarrow> bool" where
  "AfterFile c user_key f =
     (case user_key of None \<Rightarrow> False | Some k \<Rightarrow> Compare c k (InternalKey_user_key (fm_largest f)) > 0)"

definition BeforeFile :: "Comparator \<Rightarrow> bytes option \<Rightarrow> FileMetaData \<Rightarrow> bool" where
  "BeforeFile c user_key f =
     (case user_key of None \<Rightarrow> False | Some k \<Rightarrow> Compare c k (InternalKey_user_key (fm_smallest f)) < 0)"

definition SomeFileOverlapsRange ::
    "Comparator \<Rightarrow> ('f \<Rightarrow> FileMetaData) \<Rightarrow> bool \<Rightarrow> 'f list \<Rightarrow> bytes option \<Rightarrow> bytes option \<Rightarrow> bool" where
  "SomeFileOverlapsRange c fm disjoint_sorted_files files smallest_user_key largest_user_key =
     (if \<not> disjoint_sorted_files then
        list_ex (\<lambda>f. \<not> (AfterFile c smallest_user_key (fm f) \<or> BeforeFile c largest_user_key (fm f))) files
      else
        (let index = (case smallest_user_key of
                        None \<Rightarrow> 0
                      | Some k \<Rightarrow> FindFile c fm files
                                    (InternalKey_Encode (InternalKey_make k kMaxSequenceNumber kValueTypeForSeek)))
         in if index \<ge> length files then False
            else \<not> BeforeFile c largest_user_key (fm (files ! index))))"

section \<open>The files that overlap a range\<close>

partial_function (option) GetOverlappingInputs_loop ::
    "Comparator \<Rightarrow> ('f \<Rightarrow> FileMetaData) \<Rightarrow> nat \<Rightarrow> 'f list \<Rightarrow> bytes option \<Rightarrow> bytes option \<Rightarrow> nat \<Rightarrow> 'f list \<Rightarrow> 'f list option"
    where
  "GetOverlappingInputs_loop c fm level files user_begin user_end i inputs =
     (if i < length files then
        (let f = files ! i; file_start = start_of fm f; file_limit = limit_of fm f in
         if user_begin \<noteq> None \<and> Compare c file_limit (the user_begin) < 0 then
           GetOverlappingInputs_loop c fm level files user_begin user_end (Suc i) inputs
         else if user_end \<noteq> None \<and> Compare c file_start (the user_end) > 0 then
           GetOverlappingInputs_loop c fm level files user_begin user_end (Suc i) inputs
         else if level = 0 \<and> user_begin \<noteq> None \<and> Compare c file_start (the user_begin) < 0 then
           GetOverlappingInputs_loop c fm level files (Some file_start) user_end 0 []
         else if level = 0 \<and> user_end \<noteq> None \<and> Compare c file_limit (the user_end) > 0 then
           GetOverlappingInputs_loop c fm level files user_begin (Some file_limit) 0 []
         else GetOverlappingInputs_loop c fm level files user_begin user_end (Suc i) (inputs @ [f]))
      else Some inputs)"

declare GetOverlappingInputs_loop.simps [code]

definition GetOverlappingInputs ::
    "Comparator \<Rightarrow> ('f \<Rightarrow> FileMetaData) \<Rightarrow> nat \<Rightarrow> 'f list \<Rightarrow> InternalKey option \<Rightarrow> InternalKey option \<Rightarrow> 'f list option" where
  "GetOverlappingInputs c fm level files begin_key end_key =
     GetOverlappingInputs_loop c fm level files
       (map_option InternalKey_user_key begin_key) (map_option InternalKey_user_key end_key) 0 []"

section \<open>Ranges of keys\<close>

definition GetRange :: "Comparator \<Rightarrow> ('f \<Rightarrow> FileMetaData) \<Rightarrow> 'f list \<Rightarrow> InternalKey \<times> InternalKey" where
  "GetRange c fm inputs =
     (case inputs of
        [] \<Rightarrow> (InternalKey_Clear \<lparr>ik_rep = []\<rparr>, InternalKey_Clear \<lparr>ik_rep = []\<rparr>)
      | f # fs \<Rightarrow>
          foldl (\<lambda>(s, l) f.
              (if InternalKeyComparator_Compare c (smallest_of fm f) (InternalKey_Encode s) < 0 then fm_smallest (fm f) else s,
               if InternalKeyComparator_Compare c (largest_of fm f) (InternalKey_Encode l) > 0 then fm_largest (fm f) else l))
            (fm_smallest (fm f), fm_largest (fm f)) fs)"

definition GetRange2 :: "Comparator \<Rightarrow> ('f \<Rightarrow> FileMetaData) \<Rightarrow> 'f list \<Rightarrow> 'f list \<Rightarrow> InternalKey \<times> InternalKey" where
  "GetRange2 c fm inputs1 inputs2 = GetRange c fm (inputs1 @ inputs2)"

section \<open>Boundary files\<close>

definition FindLargestKey :: "Comparator \<Rightarrow> ('f \<Rightarrow> FileMetaData) \<Rightarrow> 'f list \<Rightarrow> InternalKey option" where
  "FindLargestKey c fm files =
     (case files of
        [] \<Rightarrow> None
      | f # fs \<Rightarrow>
          Some (foldl (\<lambda>l f. if InternalKeyComparator_Compare c (largest_of fm f) (InternalKey_Encode l) > 0
                             then fm_largest (fm f) else l)
                  (fm_largest (fm f)) fs))"

definition boundary_step :: "Comparator \<Rightarrow> ('f \<Rightarrow> FileMetaData) \<Rightarrow> InternalKey \<Rightarrow> 'f option \<Rightarrow> 'f \<Rightarrow> 'f option" where
  "boundary_step c fm largest_key smallest_boundary_file f =
     (if InternalKeyComparator_Compare c (smallest_of fm f) (InternalKey_Encode largest_key) > 0 \<and>
         Compare c (start_of fm f) (InternalKey_user_key largest_key) = 0
      then (case smallest_boundary_file of
              None \<Rightarrow> Some f
            | Some b \<Rightarrow> if InternalKeyComparator_Compare c (smallest_of fm f) (smallest_of fm b) < 0 then Some f
                        else smallest_boundary_file)
      else smallest_boundary_file)"

definition FindSmallestBoundaryFile ::
    "Comparator \<Rightarrow> ('f \<Rightarrow> FileMetaData) \<Rightarrow> 'f list \<Rightarrow> InternalKey \<Rightarrow> 'f option" where
  "FindSmallestBoundaryFile c fm level_files largest_key = foldl (boundary_step c fm largest_key) None level_files"

partial_function (option) AddBoundaryInputs_loop ::
    "Comparator \<Rightarrow> ('f \<Rightarrow> FileMetaData) \<Rightarrow> 'f list \<Rightarrow> InternalKey \<Rightarrow> 'f list \<Rightarrow> 'f list option" where
  "AddBoundaryInputs_loop c fm level_files largest_key compaction_files =
     (case FindSmallestBoundaryFile c fm level_files largest_key of
        Some f \<Rightarrow> AddBoundaryInputs_loop c fm level_files (fm_largest (fm f)) (compaction_files @ [f])
      | None \<Rightarrow> Some compaction_files)"

declare AddBoundaryInputs_loop.simps [code]

definition AddBoundaryInputs :: "Comparator \<Rightarrow> ('f \<Rightarrow> FileMetaData) \<Rightarrow> 'f list \<Rightarrow> 'f list \<Rightarrow> 'f list option" where
  "AddBoundaryInputs c fm level_files compaction_files =
     (case FindLargestKey c fm compaction_files of
        None \<Rightarrow> Some compaction_files
      | Some largest_key \<Rightarrow> AddBoundaryInputs_loop c fm level_files largest_key compaction_files)"

section \<open>Binary search\<close>

text \<open>The files of a level above zero: their ranges are disjoint and ascending.\<close>

definition key_valid :: "bytes \<Rightarrow> bool" where
  "key_valid k \<longleftrightarrow> ParseInternalKey k \<noteq> None"

definition file_wf :: "Comparator \<Rightarrow> FileMetaData \<Rightarrow> bool" where
  "file_wf c f \<longleftrightarrow>
     key_valid (ik_rep (fm_smallest f)) \<and> key_valid (ik_rep (fm_largest f)) \<and>
     InternalKeyComparator_Compare c (ik_rep (fm_smallest f)) (ik_rep (fm_largest f)) \<le> 0"

definition level_sorted :: "Comparator \<Rightarrow> ('f \<Rightarrow> FileMetaData) \<Rightarrow> 'f list \<Rightarrow> bool" where
  "level_sorted c fm files \<longleftrightarrow>
     (\<forall>f\<in>set files. file_wf c (fm f)) \<and>
     sorted_wrt (\<lambda>f g. InternalKeyComparator_Compare c (largest_of fm f) (smallest_of fm g) < 0) files"

definition first_index :: "('f \<Rightarrow> bool) \<Rightarrow> 'f list \<Rightarrow> nat" where
  "first_index P files = length (takeWhile (\<lambda>f. \<not> P f) files)"

lemma first_index_le: "first_index P files \<le> length files"
  by (simp add: first_index_def length_takeWhile_le)

lemma first_index_at: "first_index P files < length files \<Longrightarrow> P (files ! first_index P files)"
  unfolding first_index_def using nth_length_takeWhile by fastforce

lemma first_index_before: "i < first_index P files \<Longrightarrow> \<not> P (files ! i)"
  unfolding first_index_def by (metis nth_mem set_takeWhileD takeWhile_nth)

lemma first_index_eqI:
  assumes "n \<le> length files" "\<And>i. i < n \<Longrightarrow> \<not> P (files ! i)" "n < length files \<Longrightarrow> P (files ! n)"
  shows "first_index P files = n"
proof (cases "first_index P files < n")
  case True
  then show ?thesis using first_index_at [of P files] assms(1,2) by fastforce
next
  case False
  then show ?thesis using first_index_before [of n P files] first_index_le [of P files] assms(1,3)
    by (cases "n < first_index P files") auto
qed

text \<open>An order whose laws the proofs use: that of internal keys.\<close>

lemma internal_three_way_of: "three_way (Compare c) \<Longrightarrow> three_way (InternalKeyComparator_Compare c)"
proof -
  assume "three_way (Compare c)"
  then have "three_way (three_way.tagged (Compare c) ExtractUserKey ExtractTag)" by (rule three_way.three_way_tagged)
  moreover have "InternalKeyComparator_Compare c = three_way.tagged (Compare c) ExtractUserKey ExtractTag"
    by (intro ext)
      (auto simp: InternalKeyComparator_Compare_def Let_def three_way.tagged_def [OF \<open>three_way (Compare c)\<close>])
  ultimately show ?thesis by simp
qed

lemma internal_user_le:
  "InternalKeyComparator_Compare c a b \<le> 0 \<Longrightarrow> Compare c (ExtractUserKey a) (ExtractUserKey b) \<le> 0"
  by (auto simp: InternalKeyComparator_Compare_def Let_def split: if_splits)

lemma internal_user_less:
  "Compare c (ExtractUserKey a) (ExtractUserKey b) < 0 \<Longrightarrow> InternalKeyComparator_Compare c a b < 0"
  by (simp add: InternalKeyComparator_Compare_def)

lemma level_sorted_largest:
  assumes T: "three_way (Compare c)" and s: "level_sorted c fm files" and "i \<le> j" "j < length files"
  shows "InternalKeyComparator_Compare c (largest_of fm (files ! i)) (largest_of fm (files ! j)) \<le> 0"
proof (cases "i = j")
  case True
  then show ?thesis using three_way.cmp_refl [OF internal_three_way_of [OF T]] by simp
next
  case False
  then have "InternalKeyComparator_Compare c (largest_of fm (files ! i)) (smallest_of fm (files ! j)) < 0"
    using s sorted_wrt_nth_less [of "\<lambda>f g. InternalKeyComparator_Compare c (largest_of fm f) (smallest_of fm g) < 0" files i j] assms(3,4)
    by (simp add: level_sorted_def)
  moreover have "InternalKeyComparator_Compare c (smallest_of fm (files ! j)) (largest_of fm (files ! j)) \<le> 0"
    using s assms(4) by (simp add: level_sorted_def file_wf_def InternalKey_Encode_def)
  ultimately show ?thesis using three_way.cmp_less_le_trans [OF internal_three_way_of [OF T]] by (metis less_imp_le)
qed

lemma FindFile_loop_eq:
  fixes c fm files key
  defines "P \<equiv> \<lambda>f. \<not> InternalKeyComparator_Compare c (largest_of fm f) key < 0"
  assumes mono: "\<And>i j. i \<le> j \<Longrightarrow> j < length files \<Longrightarrow> P (files ! i) \<Longrightarrow> P (files ! j)"
    and "left \<le> right" "right \<le> length files" "\<And>i. i < left \<Longrightarrow> \<not> P (files ! i)" "right < length files \<Longrightarrow> P (files ! right)"
  shows "FindFile_loop c fm files key left right = first_index P files"
  using assms(3-)
proof (induction "right - left" arbitrary: left right rule: less_induct)
  case less
  note unf = FindFile_loop.simps [of c fm files key left right]
  show ?case
  proof (cases "left < right")
    case False
    then have "left = right" using less.prems(1) by simp
    then have "first_index P files = right" using less.prems by (intro first_index_eqI) auto
    then show ?thesis using unf False by simp
  next
    case True
    define mid where "mid = (left + right) div 2"
    have mid: "left \<le> mid" "mid < right" using True by (auto simp: mid_def)
    show ?thesis
    proof (cases "P (files ! mid)")
      case False
      have "FindFile_loop c fm files key (mid + 1) right = first_index P files"
      proof (rule less.hyps)
        fix i assume "i < mid + 1"
        then show "\<not> P (files ! i)" using mono [of i mid] mid less.prems(2) False by auto
      qed (use mid less.prems in auto)
      then show ?thesis using True False unf by (simp add: Let_def mid_def P_def)
    next
      case ge: True
      have "FindFile_loop c fm files key left mid = first_index P files"
        by (rule less.hyps) (use mid less.prems ge in auto)
      then show ?thesis using True ge unf by (simp add: Let_def mid_def P_def)
    qed
  qed
qed

lemma FindFile_eq:
  assumes T: "three_way (Compare c)" and s: "level_sorted c fm files"
  shows "FindFile c fm files key = first_index (\<lambda>f. \<not> InternalKeyComparator_Compare c (largest_of fm f) key < 0) files"
  unfolding FindFile_def
proof (rule FindFile_loop_eq)
  fix i j assume "i \<le> j" "j < length files" "\<not> InternalKeyComparator_Compare c (largest_of fm (files ! i)) key < 0"
  then show "\<not> InternalKeyComparator_Compare c (largest_of fm (files ! j)) key < 0"
    using three_way.cmp_le_less_trans [OF internal_three_way_of [OF T] level_sorted_largest [OF T s]] by blast
qed auto

text \<open>Against the smallest internal key of a user key only the user keys count.\<close>

lemma compare_first_key:
  assumes "key_valid k"
  shows "InternalKeyComparator_Compare c k (InternalKey_Encode (InternalKey_make uk kMaxSequenceNumber kValueTypeForSeek)) < 0 \<longleftrightarrow>
    Compare c (ExtractUserKey k) uk < 0"
proof -
  obtain p where p: "ParseInternalKey k = Some p" using assms by (auto simp: key_valid_def)
  let ?e = "\<lparr>e_seq = pk_sequence p, e_type = pk_type p, e_key = pk_user_key p, e_value = []\<rparr>"
  have "k = entry_internal ?e" using Append_ParseInternalKey(1) [OF p] by (cases p) (simp add: entry_internal_def)
  then show ?thesis
    using compare_seek_key [of ?e kMaxSequenceNumber c uk] Append_ParseInternalKey(2) [OF p]
    by (auto simp: seek_key_def InternalKey_make_def InternalKey_Encode_def)
qed

lemma level_sorted_start:
  assumes T: "three_way (Compare c)" and s: "level_sorted c fm files" and ij: "i \<le> j" "j < length files"
  shows "Compare c (start_of fm (files ! i)) (start_of fm (files ! j)) \<le> 0"
proof (cases "i = j")
  case True
  then show ?thesis using three_way.cmp_refl [OF T] by simp
next
  case False
  note I = internal_three_way_of [OF T]
  have "InternalKeyComparator_Compare c (largest_of fm (files ! i)) (smallest_of fm (files ! j)) < 0"
    using False s ij sorted_wrt_nth_less [of "\<lambda>f g. InternalKeyComparator_Compare c (largest_of fm f) (smallest_of fm g) < 0" files i j]
    by (simp add: level_sorted_def)
  moreover have "InternalKeyComparator_Compare c (smallest_of fm (files ! i)) (largest_of fm (files ! i)) \<le> 0"
    using s ij by (simp add: level_sorted_def file_wf_def InternalKey_Encode_def)
  ultimately have "InternalKeyComparator_Compare c (smallest_of fm (files ! i)) (smallest_of fm (files ! j)) < 0"
    using three_way.cmp_le_less_trans [OF I] by blast
  then show ?thesis using internal_user_le by (fastforce simp: InternalKey_user_key_def InternalKey_Encode_def)
qed

text \<open>The search by bisection gives the answer of the search through all files.\<close>

lemma SomeFileOverlapsRange_sorted:
  assumes T: "three_way (Compare c)" and s: "level_sorted c fm files"
  shows "SomeFileOverlapsRange c fm True files lo hi = SomeFileOverlapsRange c fm False files lo hi"
proof -
  let ?index = "case lo of None \<Rightarrow> 0 | Some k \<Rightarrow>
      FindFile c fm files (InternalKey_Encode (InternalKey_make k kMaxSequenceNumber kValueTypeForSeek))"
  have index: "?index = first_index (\<lambda>f. \<not> AfterFile c lo (fm f)) files"
  proof (cases lo)
    case None
    then show ?thesis by (cases files) (simp_all add: AfterFile_def first_index_def)
  next
    case (Some k)
    have "\<not> InternalKeyComparator_Compare c (largest_of fm f)
          (InternalKey_Encode (InternalKey_make k kMaxSequenceNumber kValueTypeForSeek)) < 0 \<longleftrightarrow> \<not> AfterFile c lo (fm f)"
      if "f \<in> set files" for f
      using compare_first_key [of "largest_of fm f" c k] s that three_way.cmp_flip [OF T, of "limit_of fm f" k] Some
      by (auto simp: level_sorted_def file_wf_def AfterFile_def InternalKey_Encode_def InternalKey_user_key_def)
    then have "first_index (\<lambda>f. \<not> InternalKeyComparator_Compare c (largest_of fm f)
          (InternalKey_Encode (InternalKey_make k kMaxSequenceNumber kValueTypeForSeek)) < 0) files =
        first_index (\<lambda>f. \<not> AfterFile c lo (fm f)) files"
      unfolding first_index_def by (intro arg_cong [where f = length] takeWhile_cong) auto
    then show ?thesis using FindFile_eq [OF T s] Some by simp
  qed
  let ?n = "first_index (\<lambda>f. \<not> AfterFile c lo (fm f)) files"
  have later: "BeforeFile c hi (fm (files ! j))" if "BeforeFile c hi (fm (files ! ?n))" "?n \<le> j" "j < length files" for j
    using that level_sorted_start [OF T s that(2,3)]
      three_way.cmp_less_le_trans [OF T, of _ "start_of fm (files ! ?n)" "start_of fm (files ! j)"]
    by (auto simp: BeforeFile_def split: option.splits)
  have "(?n < length files \<and> \<not> BeforeFile c hi (fm (files ! ?n))) \<longleftrightarrow>
      (\<exists>f\<in>set files. \<not> (AfterFile c lo (fm f) \<or> BeforeFile c hi (fm f)))"
  proof
    assume "?n < length files \<and> \<not> BeforeFile c hi (fm (files ! ?n))"
    then show "\<exists>f\<in>set files. \<not> (AfterFile c lo (fm f) \<or> BeforeFile c hi (fm f))"
      using first_index_at [of "\<lambda>f. \<not> AfterFile c lo (fm f)" files] nth_mem by blast
  next
    assume "\<exists>f\<in>set files. \<not> (AfterFile c lo (fm f) \<or> BeforeFile c hi (fm f))"
    then obtain j where j: "j < length files" "\<not> AfterFile c lo (fm (files ! j))" "\<not> BeforeFile c hi (fm (files ! j))"
      by (auto simp: in_set_conv_nth)
    then have "?n \<le> j" using first_index_before [of j "\<lambda>f. \<not> AfterFile c lo (fm f)" files] by (meson not_le)
    with j later show "?n < length files \<and> \<not> BeforeFile c hi (fm (files ! ?n))" by fastforce
  qed
  then show ?thesis using index by (auto simp: SomeFileOverlapsRange_def list_ex_iff)
qed

section \<open>The least closed range\<close>

text \<open>Bounds of a range: \<open>None\<close> is no bound.\<close>

definition lo_le :: "Comparator \<Rightarrow> bytes option \<Rightarrow> bytes option \<Rightarrow> bool" where
  "lo_le c a b = (case a of None \<Rightarrow> True | Some x \<Rightarrow> (case b of None \<Rightarrow> False | Some y \<Rightarrow> Compare c x y \<le> 0))"

definition hi_le :: "Comparator \<Rightarrow> bytes option \<Rightarrow> bytes option \<Rightarrow> bool" where
  "hi_le c a b = (case b of None \<Rightarrow> True | Some y \<Rightarrow> (case a of None \<Rightarrow> False | Some x \<Rightarrow> Compare c x y \<le> 0))"

definition file_overlaps :: "Comparator \<Rightarrow> bytes option \<Rightarrow> bytes option \<Rightarrow> FileMetaData \<Rightarrow> bool" where
  "file_overlaps c lo hi f \<longleftrightarrow>
     lo_le c lo (Some (InternalKey_user_key (fm_largest f))) \<and> hi_le c (Some (InternalKey_user_key (fm_smallest f))) hi"

definition file_within :: "Comparator \<Rightarrow> bytes option \<Rightarrow> bytes option \<Rightarrow> FileMetaData \<Rightarrow> bool" where
  "file_within c lo hi f \<longleftrightarrow>
     lo_le c lo (Some (InternalKey_user_key (fm_smallest f))) \<and> hi_le c (Some (InternalKey_user_key (fm_largest f))) hi"

text \<open>A file that overlaps the range lies within it.\<close>

definition closed_range :: "Comparator \<Rightarrow> ('f \<Rightarrow> FileMetaData) \<Rightarrow> 'f list \<Rightarrow> bytes option \<Rightarrow> bytes option \<Rightarrow> bool" where
  "closed_range c fm files lo hi \<longleftrightarrow> (\<forall>f\<in>set files. file_overlaps c lo hi (fm f) \<longrightarrow> file_within c lo hi (fm f))"

definition range_le :: "Comparator \<Rightarrow> bytes option \<Rightarrow> bytes option \<Rightarrow> bytes option \<Rightarrow> bytes option \<Rightarrow> bool" where
  "range_le c lo hi lo' hi' \<longleftrightarrow> lo_le c lo' lo \<and> hi_le c hi hi'"

lemma lo_le_refl: "three_way (Compare c) \<Longrightarrow> lo_le c a a"
  using three_way.cmp_refl by (fastforce simp: lo_le_def split: option.splits)

lemma hi_le_refl: "three_way (Compare c) \<Longrightarrow> hi_le c a a"
  using three_way.cmp_refl by (fastforce simp: hi_le_def split: option.splits)

lemma lo_le_trans: "three_way (Compare c) \<Longrightarrow> lo_le c a b \<Longrightarrow> lo_le c b d \<Longrightarrow> lo_le c a d"
  using three_way.cmp_trans [of "Compare c"] by (auto simp: lo_le_def split: option.splits)

lemma hi_le_trans: "three_way (Compare c) \<Longrightarrow> hi_le c a b \<Longrightarrow> hi_le c b d \<Longrightarrow> hi_le c a d"
  using three_way.cmp_trans [of "Compare c"] by (auto simp: hi_le_def split: option.splits)

lemma overlap_tests:
  assumes "three_way (Compare c)"
  shows "(b \<noteq> None \<and> Compare c k (the b) < 0) \<longleftrightarrow> \<not> lo_le c b (Some k)"
    "(e \<noteq> None \<and> Compare c k (the e) > 0) \<longleftrightarrow> \<not> hi_le c (Some k) e"
proof -
  show "(b \<noteq> None \<and> Compare c k (the b) < 0) \<longleftrightarrow> \<not> lo_le c b (Some k)"
    using three_way.cmp_flip [OF assms, of k "the b"] by (auto simp: lo_le_def split: option.splits)
  show "(e \<noteq> None \<and> Compare c k (the e) > 0) \<longleftrightarrow> \<not> hi_le c (Some k) e"
    by (auto simp: hi_le_def split: option.splits)
qed

lemma GetOverlappingInputs_unfold:
  assumes "three_way (Compare c)"
  shows "GetOverlappingInputs_loop c fm level files lo hi i inputs =
     (if i < length files then
        (let f = files ! i in
         if \<not> file_overlaps c lo hi (fm f) then GetOverlappingInputs_loop c fm level files lo hi (Suc i) inputs
         else if level = 0 \<and> \<not> lo_le c lo (Some (start_of fm f)) then
           GetOverlappingInputs_loop c fm level files (Some (start_of fm f)) hi 0 []
         else if level = 0 \<and> \<not> hi_le c (Some (limit_of fm f)) hi then
           GetOverlappingInputs_loop c fm level files lo (Some (limit_of fm f)) 0 []
         else GetOverlappingInputs_loop c fm level files lo hi (Suc i) (inputs @ [f]))
      else Some inputs)"
  using GetOverlappingInputs_loop.simps [of c fm level files lo hi i inputs]
  unfolding overlap_tests [OF assms] by (simp add: Let_def file_overlaps_def)

text \<open>How many files stick out of a range, below and above.\<close>

definition out_lo :: "Comparator \<Rightarrow> ('f \<Rightarrow> FileMetaData) \<Rightarrow> 'f list \<Rightarrow> bytes option \<Rightarrow> nat" where
  "out_lo c fm files lo = length (filter (\<lambda>f. \<not> lo_le c lo (Some (start_of fm f))) files)"

definition out_hi :: "Comparator \<Rightarrow> ('f \<Rightarrow> FileMetaData) \<Rightarrow> 'f list \<Rightarrow> bytes option \<Rightarrow> nat" where
  "out_hi c fm files hi = length (filter (\<lambda>f. \<not> hi_le c (Some (limit_of fm f)) hi) files)"

lemma filter_less:
  assumes "\<And>x. Q x \<Longrightarrow> P x" "y \<in> set xs" "P y" "\<not> Q y"
  shows "length (filter Q xs) < length (filter P xs)"
  using assms(2)
proof (induction xs)
  case (Cons x xs)
  have le: "length (filter Q ys) \<le> length (filter P ys)" for ys
    by (induction ys) (auto dest: assms(1))
  show ?case
  proof (cases "x = y")
    case True
    then show ?thesis using le [of xs] assms(3,4) by simp
  next
    case False
    then show ?thesis using Cons assms(1) by auto
  qed
qed simp

lemma out_lo_less:
  assumes T: "three_way (Compare c)" and f: "f \<in> set files" "\<not> lo_le c lo (Some (start_of fm f))"
  shows "out_lo c fm files (Some (start_of fm f)) < out_lo c fm files lo"
  unfolding out_lo_def
proof (rule filter_less [OF _ f(1)])
  show "\<not> lo_le c lo (Some (start_of fm f))" by (rule f(2))
  show "\<not> \<not> lo_le c (Some (start_of fm f)) (Some (start_of fm f))" using lo_le_refl [OF T] by blast
  fix g assume g: "\<not> lo_le c (Some (start_of fm f)) (Some (start_of fm g))"
  have le: "lo_le c (Some (start_of fm g)) (Some (start_of fm f))"
    using g three_way.cmp_flip_le [OF T, of "start_of fm f" "start_of fm g"] by (simp add: lo_le_def)
  show "\<not> lo_le c lo (Some (start_of fm g))" using lo_le_trans [OF T _ le] f(2) by blast
qed

lemma out_hi_less:
  assumes T: "three_way (Compare c)" and f: "f \<in> set files" "\<not> hi_le c (Some (limit_of fm f)) hi"
  shows "out_hi c fm files (Some (limit_of fm f)) < out_hi c fm files hi"
  unfolding out_hi_def
proof (rule filter_less [OF _ f(1)])
  show "\<not> hi_le c (Some (limit_of fm f)) hi" by (rule f(2))
  show "\<not> \<not> hi_le c (Some (limit_of fm f)) (Some (limit_of fm f))" using hi_le_refl [OF T] by blast
  fix g assume g: "\<not> hi_le c (Some (limit_of fm g)) (Some (limit_of fm f))"
  have le: "hi_le c (Some (limit_of fm f)) (Some (limit_of fm g))"
    using g three_way.cmp_flip_le [OF T, of "limit_of fm f" "limit_of fm g"] by (simp add: hi_le_def)
  show "\<not> hi_le c (Some (limit_of fm g)) hi" using hi_le_trans [OF T le] f(2) by blast
qed

lemma lo_le_flip: "three_way (Compare c) \<Longrightarrow> \<not> lo_le c lo (Some k) \<Longrightarrow> lo_le c (Some k) lo"
  using three_way.cmp_flip_le [of "Compare c" k "the lo"] by (auto simp: lo_le_def split: option.splits)

lemma hi_le_flip: "three_way (Compare c) \<Longrightarrow> \<not> hi_le c (Some k) hi \<Longrightarrow> hi_le c hi (Some k)"
  using three_way.cmp_flip_le [of "Compare c" "the hi" k] by (auto simp: hi_le_def split: option.splits)

lemma range_le_refl: "three_way (Compare c) \<Longrightarrow> range_le c lo hi lo hi"
  by (simp add: range_le_def lo_le_refl hi_le_refl)

lemma range_le_trans:
  "three_way (Compare c) \<Longrightarrow> range_le c lo hi lo' hi' \<Longrightarrow> range_le c lo' hi' lo'' hi'' \<Longrightarrow> range_le c lo hi lo'' hi''"
  unfolding range_le_def using lo_le_trans hi_le_trans by blast

lemma file_overlaps_mono:
  "three_way (Compare c) \<Longrightarrow> range_le c lo hi lo' hi' \<Longrightarrow> file_overlaps c lo hi f \<Longrightarrow> file_overlaps c lo' hi' f"
  unfolding range_le_def file_overlaps_def using lo_le_trans hi_le_trans by blast

text \<open>The least closed range above a range.\<close>

definition least_closed ::
    "Comparator \<Rightarrow> ('f \<Rightarrow> FileMetaData) \<Rightarrow> 'f list \<Rightarrow> bytes option \<Rightarrow> bytes option \<Rightarrow> bytes option \<Rightarrow> bytes option \<Rightarrow> bool" where
  "least_closed c fm files b e lo hi \<longleftrightarrow>
     range_le c b e lo hi \<and> closed_range c fm files lo hi \<and>
     (\<forall>lo' hi'. range_le c b e lo' hi' \<longrightarrow> closed_range c fm files lo' hi' \<longrightarrow> range_le c lo hi lo' hi')"

lemma GetOverlappingInputs_zero:
  assumes T: "three_way (Compare c)" and be: "range_le c b e lo hi"
    and least: "\<And>lo' hi'. range_le c b e lo' hi' \<Longrightarrow> closed_range c fm files lo' hi' \<Longrightarrow> range_le c lo hi lo' hi'"
    and "i \<le> length files" "inputs = filter (\<lambda>f. file_overlaps c lo hi (fm f)) (take i files)"
    and "\<forall>f\<in>set inputs. file_within c lo hi (fm f)"
  shows "\<exists>lo' hi'. least_closed c fm files b e lo' hi' \<and>
    GetOverlappingInputs_loop c fm 0 files lo hi i inputs = Some (filter (\<lambda>f. file_overlaps c lo' hi' (fm f)) files)"
  using assms(2-)
proof (induction "(out_lo c fm files lo + out_hi c fm files hi, length files - i)" arbitrary: lo hi i inputs
    rule: wf_induct_rule [OF wf_lex_prod [OF wf_less_than wf_less_than]])
  case (1 lo hi i inputs)
  note IH = "1.hyps" and P = "1.prems"
  note unf = GetOverlappingInputs_unfold [OF T, of fm 0 files lo hi i inputs]
  show ?case
  proof (cases "i < length files")
    case False
    then have "inputs = filter (\<lambda>f. file_overlaps c lo hi (fm f)) files" using P(3,4) by simp
    moreover from this have "closed_range c fm files lo hi" using P(5) by (simp add: closed_range_def)
    then have "least_closed c fm files b e lo hi" unfolding least_closed_def using P(1,2) by blast
    ultimately show ?thesis using unf False by auto
  next
    case True
    let ?f = "files ! i"
    have f: "?f \<in> set files" using True by simp
    have tk: "take (Suc i) files = take i files @ [?f]" using True by (simp add: take_Suc_conv_app_nth)
    show ?thesis
    proof (cases "file_overlaps c lo hi (fm ?f)")
      case no: False
      have "\<exists>lo' hi'. least_closed c fm files b e lo' hi' \<and>
          GetOverlappingInputs_loop c fm 0 files lo hi (Suc i) inputs = Some (filter (\<lambda>f. file_overlaps c lo' hi' (fm f)) files)"
        by (rule IH) (use True no P tk in auto)
      then show ?thesis using unf True no by (simp add: Let_def)
    next
      case ov: True
      have in_closed: "file_within c lo' hi' (fm ?f)" if "range_le c b e lo' hi'" "closed_range c fm files lo' hi'" for lo' hi'
        using that file_overlaps_mono [OF T P(2) [OF that] ov] f by (simp add: closed_range_def)
      consider (lo) "\<not> lo_le c lo (Some (start_of fm ?f))"
        | (hi) "lo_le c lo (Some (start_of fm ?f))" "\<not> hi_le c (Some (limit_of fm ?f)) hi"
        | (ok) "file_within c lo hi (fm ?f)" unfolding file_within_def by blast
      then show ?thesis
      proof cases
        case lo
        have "\<exists>lo' hi'. least_closed c fm files b e lo' hi' \<and>
            GetOverlappingInputs_loop c fm 0 files (Some (start_of fm ?f)) hi 0 [] = Some (filter (\<lambda>f. file_overlaps c lo' hi' (fm f)) files)"
        proof (rule IH)
          show "((out_lo c fm files (Some (start_of fm ?f)) + out_hi c fm files hi, length files - 0),
              out_lo c fm files lo + out_hi c fm files hi, length files - i) \<in> less_than <*lex*> less_than"
            using out_lo_less [where fm = fm and lo = lo, OF T f lo] by simp
          show "range_le c b e (Some (start_of fm ?f)) hi"
            using P(1) lo_le_trans [OF T lo_le_flip [OF T lo]] by (simp add: range_le_def)
          show "range_le c (Some (start_of fm ?f)) hi lo' hi'" if "range_le c b e lo' hi'" "closed_range c fm files lo' hi'" for lo' hi'
            using in_closed [OF that] P(2) [OF that] by (simp add: range_le_def file_within_def)
        qed simp_all
        then show ?thesis using unf True ov lo by (simp add: Let_def)
      next
        case hi
        have "\<exists>lo' hi'. least_closed c fm files b e lo' hi' \<and>
            GetOverlappingInputs_loop c fm 0 files lo (Some (limit_of fm ?f)) 0 [] = Some (filter (\<lambda>f. file_overlaps c lo' hi' (fm f)) files)"
        proof (rule IH)
          show "((out_lo c fm files lo + out_hi c fm files (Some (limit_of fm ?f)), length files - 0),
              out_lo c fm files lo + out_hi c fm files hi, length files - i) \<in> less_than <*lex*> less_than"
            using out_hi_less [where fm = fm and hi = hi, OF T f hi(2)] by simp
          show "range_le c b e lo (Some (limit_of fm ?f))"
            using P(1) hi_le_trans [OF T _ hi_le_flip [OF T hi(2)]] by (simp add: range_le_def)
          show "range_le c lo (Some (limit_of fm ?f)) lo' hi'" if "range_le c b e lo' hi'" "closed_range c fm files lo' hi'" for lo' hi'
            using in_closed [OF that] P(2) [OF that] by (simp add: range_le_def file_within_def)
        qed simp_all
        then show ?thesis using unf True ov hi by (simp add: Let_def)
      next
        case ok
        have "\<exists>lo' hi'. least_closed c fm files b e lo' hi' \<and>
            GetOverlappingInputs_loop c fm 0 files lo hi (Suc i) (inputs @ [?f]) = Some (filter (\<lambda>f. file_overlaps c lo' hi' (fm f)) files)"
          by (rule IH) (use True ov ok P tk in auto)
        then show ?thesis using unf True ov ok by (simp add: Let_def file_within_def)
      qed
    qed
  qed
qed

lemma GetOverlappingInputs_above:
  assumes T: "three_way (Compare c)"
  shows "i \<le> length files \<Longrightarrow> 0 < level \<Longrightarrow> GetOverlappingInputs_loop c fm level files lo hi i inputs =
    Some (inputs @ filter (\<lambda>f. file_overlaps c lo hi (fm f)) (drop i files))"
proof (induction "length files - i" arbitrary: i inputs)
  case 0
  then show ?case using GetOverlappingInputs_unfold [OF T, of fm level files lo hi i inputs] by simp
next
  case (Suc n)
  then have i: "i < length files" by simp
  then have d: "drop i files = files ! i # drop (Suc i) files" by (simp add: Cons_nth_drop_Suc)
  show ?case
    using GetOverlappingInputs_unfold [OF T, of fm level files lo hi i inputs] i Suc.hyps(1) [of "Suc i"] Suc.hyps(2) Suc.prems(2)
    by (simp add: d Let_def)
qed

section \<open>Boundary files are all found\<close>

text \<open>A file that starts past a key, with the same user key.\<close>

definition is_boundary :: "Comparator \<Rightarrow> ('f \<Rightarrow> FileMetaData) \<Rightarrow> InternalKey \<Rightarrow> 'f \<Rightarrow> bool" where
  "is_boundary c fm k f \<longleftrightarrow>
     InternalKeyComparator_Compare c (smallest_of fm f) (InternalKey_Encode k) > 0 \<and>
     Compare c (start_of fm f) (InternalKey_user_key k) = 0"

lemma boundary_step_cases:
  "boundary_step c fm k sbf f = (if is_boundary c fm k f then boundary_step c fm k sbf f else sbf)"
  "is_boundary c fm k f \<Longrightarrow> boundary_step c fm k sbf f = Some f \<or> boundary_step c fm k sbf f = sbf \<and> sbf \<noteq> None"
  by (auto simp: boundary_step_def is_boundary_def split: option.splits)

lemma FindSmallestBoundaryFile_fold:
  "case foldl (boundary_step c fm k) sbf files of
      None \<Rightarrow> sbf = None \<and> (\<forall>f\<in>set files. \<not> is_boundary c fm k f)
    | Some f \<Rightarrow> sbf = Some f \<or> f \<in> set files \<and> is_boundary c fm k f"
proof (induction files arbitrary: sbf)
  case (Cons f files)
  from Cons.IH [where sbf = "boundary_step c fm k sbf f"] boundary_step_cases [where c = c and fm = fm and k = k and sbf = sbf and f = f] show ?case
    by (cases "is_boundary c fm k f") (auto split: option.splits)
qed (simp split: option.splits)

lemma FindSmallestBoundaryFile_ok:
  "case FindSmallestBoundaryFile c fm level_files k of
      None \<Rightarrow> \<forall>f\<in>set level_files. \<not> is_boundary c fm k f
    | Some f \<Rightarrow> f \<in> set level_files \<and> is_boundary c fm k f"
  using FindSmallestBoundaryFile_fold [where c = c and fm = fm and k = k and sbf = None and files = level_files]
  by (auto simp: FindSmallestBoundaryFile_def split: option.splits)

lemma FindLargestKey_snoc:
  assumes "FindLargestKey c fm files = Some k" "InternalKeyComparator_Compare c (largest_of fm f) (InternalKey_Encode k) > 0"
  shows "FindLargestKey c fm (files @ [f]) = Some (fm_largest (fm f))"
  using assms by (cases files) (auto simp: FindLargestKey_def)

lemma AddBoundaryInputs_loop_ok:
  assumes T: "three_way (Compare c)" and wf: "\<forall>f\<in>set level_files. file_wf c (fm f)"
    and "FindLargestKey c fm files = Some k"
  shows "\<exists>bs k'. AddBoundaryInputs_loop c fm level_files k files = Some (files @ bs) \<and> set bs \<subseteq> set level_files \<and>
    FindLargestKey c fm (files @ bs) = Some k' \<and> (\<forall>f\<in>set level_files. \<not> is_boundary c fm k' f)"
  using assms(3)
proof (induction "length (filter (\<lambda>f. InternalKeyComparator_Compare c (smallest_of fm f) (InternalKey_Encode k) > 0) level_files)"
    arbitrary: k files rule: less_induct)
  case less
  note I = internal_three_way_of [OF T]
  note unf = AddBoundaryInputs_loop.simps [of c fm level_files k files]
  note found = FindSmallestBoundaryFile_ok [where c = c and fm = fm and k = k and level_files = level_files]
  show ?case
  proof (cases "FindSmallestBoundaryFile c fm level_files k")
    case None
    then show ?thesis using unf found less.prems by (intro exI [of _ "[]"]) auto
  next
    case (Some f)
    then have f: "f \<in> set level_files" "InternalKeyComparator_Compare c (smallest_of fm f) (InternalKey_Encode k) > 0"
      using found by (auto simp: is_boundary_def)
    have sl: "InternalKeyComparator_Compare c (smallest_of fm f) (largest_of fm f) \<le> 0"
      using wf f(1) by (simp add: file_wf_def InternalKey_Encode_def)
    have kl: "InternalKeyComparator_Compare c (InternalKey_Encode k) (largest_of fm f) < 0"
      using three_way.cmp_less_le_trans [OF I _ sl] three_way.cmp_flip_gt [OF I] f(2) by blast
    have "length (filter (\<lambda>g. InternalKeyComparator_Compare c (smallest_of fm g) (InternalKey_Encode (fm_largest (fm f))) > 0) level_files) <
        length (filter (\<lambda>g. InternalKeyComparator_Compare c (smallest_of fm g) (InternalKey_Encode k) > 0) level_files)"
    proof (rule filter_less [OF _ f(1)])
      show "0 < InternalKeyComparator_Compare c (smallest_of fm f) (InternalKey_Encode k)" by (rule f(2))
      show "\<not> 0 < InternalKeyComparator_Compare c (smallest_of fm f) (InternalKey_Encode (fm_largest (fm f)))" using sl by simp
      fix g assume "0 < InternalKeyComparator_Compare c (smallest_of fm g) (InternalKey_Encode (fm_largest (fm f)))"
      then have "InternalKeyComparator_Compare c (largest_of fm f) (smallest_of fm g) < 0" using three_way.cmp_flip_gt [OF I] by blast
      then have "InternalKeyComparator_Compare c (InternalKey_Encode k) (smallest_of fm g) < 0"
        by (rule three_way.cmp_less_trans [OF I kl])
      then show "0 < InternalKeyComparator_Compare c (smallest_of fm g) (InternalKey_Encode k)" using three_way.cmp_flip_gt [OF I] by blast
    qed
    moreover have "FindLargestKey c fm (files @ [f]) = Some (fm_largest (fm f))"
      by (rule FindLargestKey_snoc [OF less.prems]) (use kl three_way.cmp_flip_gt [OF I] in blast)
    ultimately obtain bs k' where bs: "AddBoundaryInputs_loop c fm level_files (fm_largest (fm f)) (files @ [f]) = Some ((files @ [f]) @ bs)"
        "set bs \<subseteq> set level_files" "FindLargestKey c fm ((files @ [f]) @ bs) = Some k'" "\<forall>f\<in>set level_files. \<not> is_boundary c fm k' f"
      using less.hyps by blast
    then show ?thesis using unf Some f(1) by (intro exI [of _ "f # bs"]) simp
  qed
qed

lemma AddBoundaryInputs_ok:
  assumes "three_way (Compare c)" "\<forall>f\<in>set level_files. file_wf c (fm f)" "files \<noteq> []"
  shows "\<exists>bs k. AddBoundaryInputs c fm level_files files = Some (files @ bs) \<and> set bs \<subseteq> set level_files \<and>
    FindLargestKey c fm (files @ bs) = Some k \<and> (\<forall>f\<in>set level_files. \<not> is_boundary c fm k f)"
proof -
  obtain k where k: "FindLargestKey c fm files = Some k" using assms(3) by (cases files) (auto simp: FindLargestKey_def)
  then show ?thesis using AddBoundaryInputs_loop_ok [OF assms(1,2) k] by (simp add: AddBoundaryInputs_def)
qed

section \<open>Choosing files for a compaction\<close>

text \<open>
  C22.  The search for the files of a level that overlap a range of keys ends, although in level zero it starts
  again every time a file widens the range: above level zero it gives the files that overlap the range, in order; in
  level zero those that overlap the least range that contains the given one and is closed, so that no
  file outside of the result shares a key with a file in it.
\<close>

theorem overlapping_inputs:
  assumes "three_way (Compare c)"
  shows "\<exists>lo hi. GetOverlappingInputs c fm level files begin_key end_key = Some (filter (\<lambda>f. file_overlaps c lo hi (fm f)) files) \<and>
    (if level = 0
     then least_closed c fm files (map_option InternalKey_user_key begin_key) (map_option InternalKey_user_key end_key) lo hi
     else lo = map_option InternalKey_user_key begin_key \<and> hi = map_option InternalKey_user_key end_key)"
proof (cases "level = 0")
  case True
  let ?b = "map_option InternalKey_user_key begin_key" and ?e = "map_option InternalKey_user_key end_key"
  obtain lo hi where "least_closed c fm files ?b ?e lo hi"
      "GetOverlappingInputs_loop c fm 0 files ?b ?e 0 [] = Some (filter (\<lambda>f. file_overlaps c lo hi (fm f)) files)"
    using GetOverlappingInputs_zero [OF assms range_le_refl [OF assms], of ?b ?e fm files 0 "[]"] by auto
  with True show ?thesis by (auto simp: GetOverlappingInputs_def)
next
  case False
  then show ?thesis using GetOverlappingInputs_above [OF assms, of 0 files level fm] by (auto simp: GetOverlappingInputs_def)
qed

text \<open>Files with the given numbers and the ranges \<open>a..c\<close>, \<open>c..e\<close> and \<open>x..z\<close>: asking for \<open>a..b\<close> gives the first two.\<close>

definition range_file :: "bytes \<Rightarrow> bytes \<Rightarrow> FileMetaData" where
  "range_file s l = FileMetaData_make\<lparr>fm_smallest := InternalKey_make s 9 kTypeValue, fm_largest := InternalKey_make l 9 kTypeValue\<rparr>"

definition chain_file :: "nat \<Rightarrow> FileMetaData" where
  "chain_file n = (if n = 0 then range_file [99] [101] else if n = 1 then range_file [97] [99] else range_file [120] [122])"

theorem overlapping_inputs_witness:
  "GetOverlappingInputs BytewiseComparator chain_file 0 [0, 1, 2] (Some (InternalKey_make [97] 9 kTypeValue)) (Some (InternalKey_make [98] 9 kTypeValue)) =
     Some [0, 1] \<and>
   (\<exists>lo hi. least_closed BytewiseComparator chain_file [0, 1, 2] (Some [97]) (Some [98]) lo hi \<and>
     [0, 1] = filter (\<lambda>f. file_overlaps BytewiseComparator lo hi (chain_file f)) [0, 1, 2])"
proof -
  have k: "InternalKey_user_key (InternalKey_make uk 9 kTypeValue) = uk" for uk
    by (simp add: InternalKey_user_key_def InternalKey_make_def AppendInternalKey_eq)
  have g: "GetOverlappingInputs BytewiseComparator chain_file 0 [0, 1, 2] (Some (InternalKey_make [97] 9 kTypeValue)) (Some (InternalKey_make [98] 9 kTypeValue)) =
     Some [0, 1]"
    by code_simp
  show ?thesis
    using overlapping_inputs [OF bytewise.three_way_axioms, of chain_file 0 "[0, 1, 2]" "Some (InternalKey_make [97] 9 kTypeValue)"
        "Some (InternalKey_make [98] 9 kTypeValue)"] unfolding g option.map k if_P [OF refl] option.inject by blast
qed

text \<open>
  C23.  The search for boundary files ends and adds files of the level after which no other is missing: no file of the
  level starts past the largest key of the compaction's files with the same user key, so that no older entry of that user key is left behind.
\<close>

theorem boundary_inputs:
  assumes "three_way (Compare c)" "\<forall>f\<in>set level_files. file_wf c (fm f)"
  shows "\<exists>bs. AddBoundaryInputs c fm level_files files = Some (files @ bs) \<and> set bs \<subseteq> set level_files \<and>
    (\<forall>k. FindLargestKey c fm (files @ bs) = Some k \<longrightarrow> (\<forall>f\<in>set level_files. \<not> is_boundary c fm k f))"
proof (cases "files = []")
  case True
  then show ?thesis by (intro exI [of _ "[]"]) (simp add: AddBoundaryInputs_def FindLargestKey_def)
next
  case False
  then show ?thesis using AddBoundaryInputs_ok [OF assms False] by fastforce
qed

text \<open>Two files that split one user key: starting from the first, the other is added.\<close>

definition split_file :: "nat \<Rightarrow> FileMetaData" where
  "split_file n = FileMetaData_make\<lparr>fm_smallest := InternalKey_make [107] (9 - of_nat n) kTypeValue,
     fm_largest := InternalKey_make [107] (9 - of_nat n) kTypeValue\<rparr>"

theorem boundary_inputs_witness:
  "AddBoundaryInputs BytewiseComparator split_file [0, 1] [0] = Some [0, 1] \<and>
   (\<exists>k. FindLargestKey BytewiseComparator split_file [0, 1] = Some k \<and>
     \<not> is_boundary BytewiseComparator split_file k 0 \<and> \<not> is_boundary BytewiseComparator split_file k 1)"
proof -
  have wf: "\<forall>f\<in>set [0, 1]. file_wf BytewiseComparator (split_file f)"
    by (simp add: split_file_def file_wf_def key_valid_def InternalKey_make_def ParseInternalKey_Append kMaxSequenceNumber_eq
        three_way.cmp_refl [OF internal_three_way_of [OF bytewise.three_way_axioms]])
  have g: "AddBoundaryInputs BytewiseComparator split_file [0, 1] [0] = Some [0, 1]" by code_simp
  moreover obtain k where "FindLargestKey BytewiseComparator split_file [0, 1] = Some k" by (simp add: FindLargestKey_def)
  ultimately show ?thesis using boundary_inputs [OF bytewise.three_way_axioms wf, of "[0]"] by auto
qed

end
