(* ===== verification/Version_Get.thy ===== *)
theory Version_Get
  imports Version_Files Two_Level Complex_Main
begin

text \<open>
  \<^verbatim>\<open>Version\<close> of \<^verbatim>\<open>db/version_set.cc\<close>: the files of every level, lookups through the levels from the newest
  data to the oldest, the statistics that trigger compactions by seeks, the level for the output of
  a memtable, and the iterators over the levels.  The table cache is an argument: \<open>table_get\<close> takes its
  state, a file number, a file size and an internal key and gives a status and the pair it hands to
  the callback, if any.
\<close>

section \<open>Versions\<close>

text \<open>
  Files are pointers of type \<open>'f\<close>; the linked list of versions belongs to the version set.  The score,
  a double, is the exact quotient: for levels below \<open>2 ^ 50\<close> bytes rounding does not change the comparisons
  made with it.
\<close>

record 'f Version =
  v_files :: "'f list list"
  v_refs :: int
  v_file_to_compact :: "'f option"
  v_file_to_compact_level :: int
  v_compaction_score :: rat
  v_compaction_level :: int

definition Version_make :: "'f Version" where
  "Version_make =
     \<lparr>v_files = replicate kNumLevels [], v_refs = 0, v_file_to_compact = None, v_file_to_compact_level = - 1,
      v_compaction_score = - 1, v_compaction_level = - 1\<rparr>"

definition NumFiles :: "'f Version \<Rightarrow> nat \<Rightarrow> nat" where
  "NumFiles v level = length (v_files v ! level)"

section \<open>The files a key may be in\<close>

definition NewestFirst :: "('f \<Rightarrow> FileMetaData) \<Rightarrow> 'f list \<Rightarrow> 'f list" where
  "NewestFirst fm files = sort_key (\<lambda>f. - int (unat (fm_number (fm f)))) files"

definition level0_candidates :: "Comparator \<Rightarrow> ('f \<Rightarrow> FileMetaData) \<Rightarrow> 'f list \<Rightarrow> bytes \<Rightarrow> 'f list" where
  "level0_candidates c fm files user_key =
     NewestFirst fm (filter (\<lambda>f. Compare c user_key (start_of fm f) \<ge> 0 \<and> Compare c user_key (limit_of fm f) \<le> 0) files)"

definition level_candidate :: "Comparator \<Rightarrow> ('f \<Rightarrow> FileMetaData) \<Rightarrow> 'f list \<Rightarrow> bytes \<Rightarrow> bytes \<Rightarrow> 'f list" where
  "level_candidate c fm files user_key internal_key =
     (let num_files = length files in
      if num_files = 0 then []
      else
        (let index = FindFile c fm files internal_key in
         if index < num_files then
           (let f = files ! index in if Compare c user_key (start_of fm f) < 0 then [] else [f])
         else []))"

definition candidates :: "Comparator \<Rightarrow> ('f \<Rightarrow> FileMetaData) \<Rightarrow> 'f Version \<Rightarrow> bytes \<Rightarrow> bytes \<Rightarrow> (nat \<times> 'f) list" where
  "candidates c fm v user_key internal_key =
     map (Pair 0) (level0_candidates c fm (v_files v ! 0) user_key) @
     concat (map (\<lambda>level. map (Pair level) (level_candidate c fm (v_files v ! level) user_key internal_key)) [1..<kNumLevels])"

text \<open>The callback returns whether to go on; it is called on the candidates in order.\<close>

primrec visit :: "('s \<Rightarrow> nat \<Rightarrow> 'f \<Rightarrow> (bool \<times> 's) option) \<Rightarrow> (nat \<times> 'f) list \<Rightarrow> 's \<Rightarrow> 's option" where
  "visit func [] s = Some s"
| "visit func (lf # lfs) s =
     (case func s (fst lf) (snd lf) of
        None \<Rightarrow> None
      | Some (go_on, s) \<Rightarrow> if go_on then visit func lfs s else Some s)"

definition ForEachOverlapping ::
    "Comparator \<Rightarrow> ('f \<Rightarrow> FileMetaData) \<Rightarrow> 'f Version \<Rightarrow> bytes \<Rightarrow> bytes \<Rightarrow>
     ('s \<Rightarrow> nat \<Rightarrow> 'f \<Rightarrow> (bool \<times> 's) option) \<Rightarrow> 's \<Rightarrow> 's option" where
  "ForEachOverlapping c fm v user_key internal_key func s = visit func (candidates c fm v user_key internal_key) s"

section \<open>Lookups\<close>

datatype SaverState = Saver_NotFound | Saver_Found | Saver_Deleted | Saver_Corrupt

record Saver =
  sv_state :: SaverState
  sv_user_key :: bytes
  sv_value :: bytes

definition SaveValue :: "Comparator \<Rightarrow> Saver \<Rightarrow> bytes \<Rightarrow> bytes \<Rightarrow> Saver" where
  "SaveValue c s ikey v =
     (case ParseInternalKey ikey of
        None \<Rightarrow> s\<lparr>sv_state := Saver_Corrupt\<rparr>
      | Some parsed_key \<Rightarrow>
          if Compare c (pk_user_key parsed_key) (sv_user_key s) = 0 then
            (case pk_type parsed_key of
               kTypeValue \<Rightarrow> s\<lparr>sv_state := Saver_Found, sv_value := v\<rparr>
             | kTypeDeletion \<Rightarrow> s\<lparr>sv_state := Saver_Deleted\<rparr>)
          else s)"

text \<open>\<open>gs_seek_file\<close> holds \<^verbatim>\<open>stats->seek_file\<close> with its level.\<close>

record ('f, 't) GetState =
  gs_saver :: Saver
  gs_seek_file :: "(nat \<times> 'f) option"
  gs_last_file_read :: "(nat \<times> 'f) option"
  gs_s :: Status
  gs_found :: bool
  gs_cache :: 't

type_synonym 't table_get = "'t \<Rightarrow> u64 \<Rightarrow> u64 \<Rightarrow> bytes \<Rightarrow> ((Status \<times> kv option) \<times> 't) option"

definition Get_Match ::
    "Comparator \<Rightarrow> ('f \<Rightarrow> FileMetaData) \<Rightarrow> 't table_get \<Rightarrow> bytes \<Rightarrow> ('f, 't) GetState \<Rightarrow> nat \<Rightarrow> 'f \<Rightarrow>
     (bool \<times> ('f, 't) GetState) option" where
  "Get_Match c fm table_get ikey st level f =
     (let st = (if gs_seek_file st = None \<and> gs_last_file_read st \<noteq> None
                then st\<lparr>gs_seek_file := gs_last_file_read st\<rparr> else st);
          st = st\<lparr>gs_last_file_read := Some (level, f)\<rparr>
      in case table_get (gs_cache st) (fm_number (fm f)) (fm_file_size (fm f)) ikey of
           None \<Rightarrow> None
         | Some ((s, result), cache) \<Rightarrow>
             (let st = st\<lparr>gs_cache := cache, gs_s := s,
                          gs_saver := (case result of None \<Rightarrow> gs_saver st | Some (k, v) \<Rightarrow> SaveValue c (gs_saver st) k v)\<rparr>
              in if \<not> Status_ok s then Some (False, st\<lparr>gs_found := True\<rparr>)
                 else Some (case sv_state (gs_saver st) of
                        Saver_NotFound \<Rightarrow> (True, st)
                      | Saver_Found \<Rightarrow> (False, st\<lparr>gs_found := True\<rparr>)
                      | Saver_Deleted \<Rightarrow> (False, st)
                      | Saver_Corrupt \<Rightarrow>
                          (False, st\<lparr>gs_s := Status_Corruption (lit ''corrupted key for '') (sv_user_key (gs_saver st)),
                                     gs_found := True\<rparr>))))"

definition Version_Get ::
    "Comparator \<Rightarrow> ('f \<Rightarrow> FileMetaData) \<Rightarrow> 't table_get \<Rightarrow> 'f Version \<Rightarrow> LookupKey \<Rightarrow> bytes \<Rightarrow> 't \<Rightarrow>
     (Status \<times> bytes \<times> (nat \<times> 'f) option \<times> 't) option" where
  "Version_Get c fm table_get v k value cache =
     (let st = \<lparr>gs_saver = \<lparr>sv_state = Saver_NotFound, sv_user_key = LookupKey_user_key k, sv_value = value\<rparr>,
                gs_seek_file = None, gs_last_file_read = None, gs_s = Status_OK, gs_found = False, gs_cache = cache\<rparr>
      in do {
           st \<leftarrow> ForEachOverlapping c fm v (LookupKey_user_key k) (LookupKey_internal_key k)
                   (Get_Match c fm table_get (LookupKey_internal_key k)) st;
           Some (if gs_found st then gs_s st else Status_NotFound [] [], sv_value (gs_saver st), gs_seek_file st, gs_cache st)
         })"

section \<open>Statistics\<close>

text \<open>The heap of file descriptions is the function \<open>fm\<close>, which the counting of seeks changes.\<close>

definition UpdateStats ::
    "(nat \<times> 'f) option \<Rightarrow> ('f \<Rightarrow> FileMetaData) \<Rightarrow> 'f Version \<Rightarrow> bool \<times> ('f \<Rightarrow> FileMetaData) \<times> 'f Version" where
  "UpdateStats stats fm v =
     (case stats of
        None \<Rightarrow> (False, fm, v)
      | Some (level, f) \<Rightarrow>
          (let fm = fm(f := (fm f)\<lparr>fm_allowed_seeks := fm_allowed_seeks (fm f) - 1\<rparr>)
           in if fm_allowed_seeks (fm f) \<le> 0 \<and> v_file_to_compact v = None
              then (True, fm, v\<lparr>v_file_to_compact := Some f, v_file_to_compact_level := int level\<rparr>)
              else (False, fm, v)))"

text \<open>The state of the callback: the first match and the number of matches.\<close>

definition Sample_Match :: "(nat \<times> 'f) option \<times> nat \<Rightarrow> nat \<Rightarrow> 'f \<Rightarrow> (bool \<times> ((nat \<times> 'f) option \<times> nat)) option" where
  "Sample_Match st level f =
     (let matches = snd st + 1;
          stats = (if matches = 1 then Some (level, f) else fst st)
      in Some (matches < 2, (stats, matches)))"

definition Version_RecordReadSample ::
    "Comparator \<Rightarrow> bytes \<Rightarrow> ('f \<Rightarrow> FileMetaData) \<Rightarrow> 'f Version \<Rightarrow> (bool \<times> ('f \<Rightarrow> FileMetaData) \<times> 'f Version) option" where
  "Version_RecordReadSample c internal_key fm v =
     (case ParseInternalKey internal_key of
        None \<Rightarrow> Some (False, fm, v)
      | Some ikey \<Rightarrow>
          do {
            (stats, matches) \<leftarrow> ForEachOverlapping c fm v (pk_user_key ikey) internal_key Sample_Match (None, 0);
            Some (if matches \<ge> 2 then UpdateStats stats fm v else (False, fm, v))
          })"

section \<open>The level for the output of a memtable\<close>

definition OverlapInLevel ::
    "Comparator \<Rightarrow> ('f \<Rightarrow> FileMetaData) \<Rightarrow> 'f Version \<Rightarrow> nat \<Rightarrow> bytes option \<Rightarrow> bytes option \<Rightarrow> bool" where
  "OverlapInLevel c fm v level smallest_user_key largest_user_key =
     SomeFileOverlapsRange c fm (level > 0) (v_files v ! level) smallest_user_key largest_user_key"

function PickLevel_loop ::
    "Comparator \<Rightarrow> ('f \<Rightarrow> FileMetaData) \<Rightarrow> u64 \<Rightarrow> 'f Version \<Rightarrow> bytes \<Rightarrow> bytes \<Rightarrow> nat \<Rightarrow> nat option" where
  "PickLevel_loop c fm max_file_size v smallest_user_key largest_user_key level =
     (if level < kMaxMemCompactLevel then
        if OverlapInLevel c fm v (level + 1) (Some smallest_user_key) (Some largest_user_key) then Some level
        else if level + 2 < kNumLevels then
          (case GetOverlappingInputs c fm (level + 2) (v_files v ! (level + 2))
                  (Some (InternalKey_make smallest_user_key kMaxSequenceNumber kValueTypeForSeek))
                  (Some (InternalKey_make largest_user_key 0 kTypeDeletion)) of
             None \<Rightarrow> None
           | Some overlaps \<Rightarrow>
               if TotalFileSize fm overlaps > MaxGrandParentOverlapBytes max_file_size then Some level
               else PickLevel_loop c fm max_file_size v smallest_user_key largest_user_key (level + 1))
        else PickLevel_loop c fm max_file_size v smallest_user_key largest_user_key (level + 1)
      else Some level)"
  by pat_completeness auto
termination
  by (relation "measure (\<lambda>(_, _, _, _, _, _, level). kMaxMemCompactLevel - level)") auto

declare PickLevel_loop.simps [simp del]

definition PickLevelForMemTableOutput ::
    "Comparator \<Rightarrow> ('f \<Rightarrow> FileMetaData) \<Rightarrow> u64 \<Rightarrow> 'f Version \<Rightarrow> bytes \<Rightarrow> bytes \<Rightarrow> nat option" where
  "PickLevelForMemTableOutput c fm max_file_size v smallest_user_key largest_user_key =
     (if \<not> OverlapInLevel c fm v 0 (Some smallest_user_key) (Some largest_user_key)
      then PickLevel_loop c fm max_file_size v smallest_user_key largest_user_key 0
      else Some 0)"

section \<open>Iterators over the levels\<close>

definition LevelFileNumIterator :: "Comparator \<Rightarrow> ('f \<Rightarrow> FileMetaData) \<Rightarrow> 'f list \<Rightarrow> nat Iterator" where
  "LevelFileNumIterator c fm flist =
     \<lparr>it_Valid = (\<lambda>index. index < length flist),
      it_SeekToFirst = (\<lambda>_. Some 0),
      it_SeekToLast = (\<lambda>_. Some (if flist = [] then 0 else length flist - 1)),
      it_Seek = (\<lambda>target _. Some (FindFile c fm flist target)),
      it_Next = (\<lambda>index. Some (index + 1)),
      it_Prev = (\<lambda>index. Some (if index = 0 then length flist else index - 1)),
      it_key = (\<lambda>index. largest_of fm (flist ! index)),
      it_value = (\<lambda>index. EncodeFixed64 (fm_number (fm (flist ! index))) @ EncodeFixed64 (fm_file_size (fm (flist ! index)))),
      it_status = (\<lambda>_. Status_OK)\<rparr>"

definition LevelFileNumIterator_make :: "'f list \<Rightarrow> nat" where
  "LevelFileNumIterator_make flist = length flist"

text \<open>
  \<open>new_iterator\<close> is \<^verbatim>\<open>TableCache::NewIterator\<close> with the file number and size; an error iterator is the left
  case of the sum.
\<close>

definition GetFileIterator :: "(u64 \<Rightarrow> u64 \<Rightarrow> 'd option) \<Rightarrow> bytes \<Rightarrow> (Status + 'd) option" where
  "GetFileIterator new_iterator file_value =
     (if length file_value \<noteq> 16
      then Some (Inl (NewErrorIterator (Status_Corruption (lit ''FileReader invoked with unexpected value'') [])))
      else map_option Inr (new_iterator (DecodeFixed64 file_value) (DecodeFixed64 (drop 8 file_value))))"

definition ConcatenatingIterator ::
    "Comparator \<Rightarrow> ('f \<Rightarrow> FileMetaData) \<Rightarrow> 'd Iterator \<Rightarrow> (u64 \<Rightarrow> u64 \<Rightarrow> 'd option) \<Rightarrow> 'f list \<Rightarrow>
     (nat, Status + 'd) TwoLevel Iterator" where
  "ConcatenatingIterator c fm dt new_iterator files =
     TwoLevelIterator (LevelFileNumIterator c fm files) (either_Iterator EmptyIterator dt) (GetFileIterator new_iterator)"

definition NewConcatenatingIterator ::
    "Comparator \<Rightarrow> ('f \<Rightarrow> FileMetaData) \<Rightarrow> 'f Version \<Rightarrow> nat \<Rightarrow> (nat, Status + 'd) TwoLevel" where
  "NewConcatenatingIterator c fm v level =
     TwoLevel_make (LevelFileNumIterator c fm (v_files v ! level)) (LevelFileNumIterator_make (v_files v ! level))"

section \<open>The entries of a version\<close>

text \<open>
  \<open>contents f\<close> are the entries of the table of a file, in order; its bounds are their first and last
  internal keys.
\<close>

definition file_holds :: "Comparator \<Rightarrow> FileMetaData \<Rightarrow> Entry list \<Rightarrow> bool" where
  "file_holds c f es \<longleftrightarrow>
     es \<noteq> [] \<and> entries_ok c es \<and>
     ik_rep (fm_smallest f) = entry_internal (hd es) \<and> ik_rep (fm_largest f) = entry_internal (last es)"

text \<open>For one user key, all of the first is newer than all of the second.\<close>

definition newer_than :: "Comparator \<Rightarrow> Entry list \<Rightarrow> Entry list \<Rightarrow> bool" where
  "newer_than c as bs \<longleftrightarrow> (\<forall>a\<in>set as. \<forall>b\<in>set bs. Compare c (e_key a) (e_key b) = 0 \<longrightarrow> e_seq b < e_seq a)"

definition level_entries :: "('f \<Rightarrow> Entry list) \<Rightarrow> 'f list \<Rightarrow> Entry list" where
  "level_entries contents files = concat (map contents files)"

definition version_entries :: "('f \<Rightarrow> Entry list) \<Rightarrow> 'f Version \<Rightarrow> Entry list" where
  "version_entries contents v = concat (map (level_entries contents) (v_files v))"

text \<open>
  The order of a version: a level above zero is sorted as a whole, in level zero the file with the
  greater number is newer, and a level is newer than those below it.
\<close>

definition version_ok :: "Comparator \<Rightarrow> ('f \<Rightarrow> FileMetaData) \<Rightarrow> ('f \<Rightarrow> Entry list) \<Rightarrow> 'f Version \<Rightarrow> bool" where
  "version_ok c fm contents v \<longleftrightarrow>
     length (v_files v) = kNumLevels \<and>
     (\<forall>files\<in>set (v_files v). \<forall>f\<in>set files. file_holds c (fm f) (contents f)) \<and>
     (\<forall>level. 0 < level \<longrightarrow> level < kNumLevels \<longrightarrow> entries_ok c (level_entries contents (v_files v ! level))) \<and>
     distinct (map (\<lambda>f. fm_number (fm f)) (v_files v ! 0)) \<and>
     (\<forall>f\<in>set (v_files v ! 0). \<forall>g\<in>set (v_files v ! 0).
        fm_number (fm g) < fm_number (fm f) \<longrightarrow> newer_than c (contents f) (contents g)) \<and>
     sorted_wrt (newer_than c) (map (level_entries contents) (v_files v))"

definition lookup_newest :: "Comparator \<Rightarrow> bytes \<Rightarrow> SequenceNumber \<Rightarrow> Entry list \<Rightarrow> Entry option" where
  "lookup_newest c uk snap es = newest (filter (visible c uk snap) es)"

primrec first_some :: "'a option list \<Rightarrow> 'a option" where
  "first_some [] = None"
| "first_some (x # xs) = (case x of Some a \<Rightarrow> Some a | None \<Rightarrow> first_some xs)"

lemma first_some_append: "first_some (xs @ ys) = (case first_some xs of Some a \<Rightarrow> Some a | None \<Rightarrow> first_some ys)"
  by (induction xs) (simp_all split: option.splits)

lemma first_some_concat: "first_some (concat xss) = first_some (map first_some xss)"
  by (induction xss) (simp_all add: first_some_append split: option.splits)

lemma lookup_None: "lookup_newest c uk snap es = None \<longleftrightarrow> (\<forall>e\<in>set es. \<not> visible c uk snap e)"
  using newest_cases [of "filter (visible c uk snap) es"] by (auto simp: lookup_newest_def newest_def filter_empty_conv)

lemma lookup_SomeD:
  assumes "lookup_newest c uk snap es = Some e"
  shows "e \<in> set es" "visible c uk snap e" "b \<in> set es \<Longrightarrow> visible c uk snap b \<Longrightarrow> e_seq b \<le> e_seq e"
  using newest_cases [of "filter (visible c uk snap) es"] assms by (auto simp: lookup_newest_def)

lemma lookup_SomeI:
  assumes "e \<in> set es" "visible c uk snap e"
    and "\<And>b. b \<in> set es \<Longrightarrow> visible c uk snap b \<Longrightarrow> b \<noteq> e \<Longrightarrow> e_seq b < e_seq e"
  shows "lookup_newest c uk snap es = Some e"
proof -
  obtain f where f: "lookup_newest c uk snap es = Some f" using assms(1,2) lookup_None [of c uk snap es] by fastforce
  show ?thesis
  proof (cases "f = e")
    case False
    then have "e_seq f < e_seq e" using assms(3) lookup_SomeD(1,2) [OF f] by blast
    moreover have "e_seq e \<le> e_seq f" using lookup_SomeD(3) [OF f] assms(1,2) by blast
    ultimately show ?thesis by (meson leD)
  qed (use f in simp)
qed

lemma visible_keys:
  assumes T: "three_way (Compare c)" and "visible c uk snap a" "visible c uk snap b"
  shows "Compare c (e_key a) (e_key b) = 0"
  using assms(2,3) three_way.cmp_trans [OF T, of "e_key a" uk "e_key b"] three_way.cmp_trans [OF T, of "e_key b" uk "e_key a"]
    three_way.cmp_flip_eq [OF T, of "e_key a" uk] three_way.cmp_flip_eq [OF T, of "e_key b" uk]
    three_way.cmp_flip_le [OF T, of "e_key b" "e_key a"]
  by (simp add: visible_def)

lemma lookup_append:
  assumes T: "three_way (Compare c)" and n: "newer_than c xs ys"
  shows "lookup_newest c uk snap (xs @ ys) =
    (case lookup_newest c uk snap xs of Some e \<Rightarrow> Some e | None \<Rightarrow> lookup_newest c uk snap ys)"
proof (cases "lookup_newest c uk snap xs")
  case None
  then have "filter (visible c uk snap) xs = []" by (simp add: lookup_None filter_empty_conv)
  then show ?thesis using None by (simp add: lookup_newest_def)
next
  case (Some e)
  have "fold newer zs (Some e) = Some e" if "\<And>b. b \<in> set zs \<Longrightarrow> \<not> e_seq e < e_seq b" for zs
    using that by (induction zs) (auto simp: newer_def)
  moreover have "\<not> e_seq e < e_seq b" if "b \<in> set (filter (visible c uk snap) ys)" for b
    using n lookup_SomeD(1,2) [OF Some] visible_keys [OF T lookup_SomeD(2) [OF Some]] that
    by (fastforce simp: newer_than_def)
  ultimately have "fold newer (filter (visible c uk snap) ys) (Some e) = Some e" by blast
  then show ?thesis using Some by (simp add: lookup_newest_def newest_def)
qed

lemma newer_than_concat: "(\<forall>bs\<in>set bss. newer_than c as bs) \<longleftrightarrow> newer_than c as (concat bss)"
  by (auto simp: newer_than_def)

lemma lookup_concat:
  assumes T: "three_way (Compare c)"
  shows "sorted_wrt (newer_than c) ess \<Longrightarrow> lookup_newest c uk snap (concat ess) = first_some (map (lookup_newest c uk snap) ess)"
proof (induction ess)
  case Nil
  then show ?case by (simp add: lookup_None)
next
  case (Cons es ess)
  have "newer_than c es (concat ess)" using Cons.prems newer_than_concat [of ess c es] by simp
  then show ?case using Cons lookup_append [OF T, of es "concat ess" uk snap] by (simp split: option.splits)
qed

section \<open>A level and its candidates\<close>

lemma entries_bounds:
  assumes T: "three_way (Compare c)" and f: "file_holds c f es" and e: "e \<in> set es"
  shows "Compare c (InternalKey_user_key (fm_smallest f)) (e_key e) \<le> 0"
    "Compare c (e_key e) (InternalKey_user_key (fm_largest f)) \<le> 0"
proof -
  obtain i where i: "i < length es" "es ! i = e" using e by (auto simp: in_set_conv_nth)
  have ne: "es \<noteq> []" and ok: "entries_ok c es" using f by (simp_all add: file_holds_def)
  have "Compare c (e_key (es ! 0)) (e_key (es ! i)) \<le> 0" by (rule entries_key_le [OF T ok]) (use i in auto)
  then show "Compare c (InternalKey_user_key (fm_smallest f)) (e_key e) \<le> 0"
    using f i ne by (simp add: file_holds_def InternalKey_user_key_def hd_conv_nth)
  have "Compare c (e_key (es ! i)) (e_key (es ! (length es - 1))) \<le> 0" by (rule entries_key_le [OF T ok]) (use i in auto)
  then show "Compare c (e_key e) (InternalKey_user_key (fm_largest f)) \<le> 0"
    using f i ne by (simp add: file_holds_def InternalKey_user_key_def last_conv_nth)
qed

lemma no_visible_outside:
  assumes T: "three_way (Compare c)" and f: "file_holds c f es"
    and out: "\<not> (Compare c uk (InternalKey_user_key (fm_smallest f)) \<ge> 0 \<and> Compare c uk (InternalKey_user_key (fm_largest f)) \<le> 0)"
  shows "lookup_newest c uk snap es = None"
  unfolding lookup_None
proof (intro ballI notI)
  fix e assume e: "e \<in> set es" "visible c uk snap e"
  then have k: "Compare c (e_key e) uk = 0" "Compare c uk (e_key e) = 0"
    using three_way.cmp_flip_eq [OF T, of "e_key e" uk] by (simp_all add: visible_def)
  have "Compare c (InternalKey_user_key (fm_smallest f)) uk \<le> 0" "Compare c uk (InternalKey_user_key (fm_largest f)) \<le> 0"
    using three_way.cmp_trans [OF T entries_bounds(1) [OF T f e(1)], of uk] k
      three_way.cmp_trans [OF T _ entries_bounds(2) [OF T f e(1)], of uk] by simp_all
  then show False using out three_way.cmp_flip_ge [OF T, of uk "InternalKey_user_key (fm_smallest f)"] by simp
qed

lemma entries_distinct:
  assumes "entries_ok c es" "a \<in> set es" "b \<in> set es" "Compare c (e_key a) (e_key b) = 0" "Compare c (e_key b) (e_key a) = 0"
    and "e_seq a = e_seq b"
  shows "a = b"
proof -
  obtain i j where ij: "i < length es" "es ! i = a" "j < length es" "es ! j = b" using assms(2,3) by (metis in_set_conv_nth)
  have "\<not> i < j" "\<not> j < i"
    using sorted_wrt_nth_less [of "entry_before c" es] assms ij by (fastforce simp: entries_ok_def entry_before_def)+
  then show ?thesis using ij by (metis nat_neq_iff)
qed

lemma NewestFirst_sorted:
  assumes "distinct (map (\<lambda>f. fm_number (fm f)) files)"
  shows "sorted_wrt (\<lambda>f g. fm_number (fm g) < fm_number (fm f)) (NewestFirst fm files)"
proof -
  let ?k = "\<lambda>f. - int (unat (fm_number (fm f)))"
  have "sorted (map ?k (NewestFirst fm files))" by (simp add: NewestFirst_def)
  moreover have "distinct (map ?k (NewestFirst fm files))"
    using assms by (auto simp: NewestFirst_def distinct_map distinct_sort inj_on_def dest: word_uint_eqI)
  ultimately have "sorted_wrt (<) (map ?k (NewestFirst fm files))" by (simp add: strict_sorted_iff)
  then show ?thesis by (simp add: sorted_wrt_map word_less_def)
qed

lemma lookup_level0:
  assumes T: "three_way (Compare c)" and ok: "version_ok c fm contents v"
  shows "first_some (map (\<lambda>f. lookup_newest c uk snap (contents f)) (level0_candidates c fm (v_files v ! 0) uk)) =
    lookup_newest c uk snap (level_entries contents (v_files v ! 0))"
proof -
  let ?L = "lookup_newest c uk snap" and ?files = "v_files v ! 0"
  let ?sorted = "NewestFirst fm ?files"
  have holds: "file_holds c (fm f) (contents f)" if "f \<in> set ?files" for f
    using ok that nth_mem [of 0 "v_files v"] by (auto simp: version_ok_def kNumLevels_def)
  have newer: "sorted_wrt (newer_than c) (map contents ?sorted)"
  proof -
    have d: "distinct (map (\<lambda>f. fm_number (fm f)) ?files)" using ok by (simp add: version_ok_def)
    have "newer_than c (contents f) (contents g)"
      if "f \<in> set ?sorted" "g \<in> set ?sorted" "fm_number (fm g) < fm_number (fm f)" for f g
      using ok that by (simp add: version_ok_def NewestFirst_def)
    then show ?thesis using sorted_wrt_mono_rel [OF _ NewestFirst_sorted [OF d]] by (simp add: sorted_wrt_map)
  qed
  have keep: "first_some (map (\<lambda>f. ?L (contents f)) (filter P fs)) = first_some (map (\<lambda>f. ?L (contents f)) fs)"
    if "\<And>f. f \<in> set fs \<Longrightarrow> \<not> P f \<Longrightarrow> ?L (contents f) = None" for P fs
    using that by (induction fs) (auto split: option.splits)
  have "first_some (map (\<lambda>f. ?L (contents f)) (level0_candidates c fm ?files uk)) = first_some (map (\<lambda>f. ?L (contents f)) ?sorted)"
    unfolding level0_candidates_def NewestFirst_def filter_sort [symmetric]
    by (rule keep) (use no_visible_outside [OF T holds] in auto)
  also have "\<dots> = ?L (concat (map contents ?sorted))" using lookup_concat [OF T newer] by (simp add: o_def)
  also have "\<dots> = ?L (level_entries contents ?files)"
  proof (cases "?L (concat (map contents ?sorted))")
    case None
    then have "?L (level_entries contents ?files) = None" by (simp add: lookup_None level_entries_def NewestFirst_def)
    with None show ?thesis by simp
  next
    case (Some e)
    obtain f where f: "f \<in> set ?files" "e \<in> set (contents f)" using lookup_SomeD(1) [OF Some] by (auto simp: NewestFirst_def)
    have "?L (level_entries contents ?files) = Some e"
    proof (rule lookup_SomeI)
      show "e \<in> set (level_entries contents ?files)" "visible c uk snap e"
        using f lookup_SomeD(2) [OF Some] by (auto simp: level_entries_def)
      fix b assume b: "b \<in> set (level_entries contents ?files)" "visible c uk snap b" "b \<noteq> e"
      then obtain g where g: "g \<in> set ?files" "b \<in> set (contents g)" by (auto simp: level_entries_def)
      have le: "e_seq b \<le> e_seq e" by (rule lookup_SomeD(3) [OF Some]) (use g b(2) in \<open>auto simp: NewestFirst_def\<close>)
      have k: "Compare c (e_key e) (e_key b) = 0" "Compare c (e_key b) (e_key e) = 0"
        using visible_keys [OF T] lookup_SomeD(2) [OF Some] b(2) by blast+
      have "e_seq b \<noteq> e_seq e"
      proof (cases "fm_number (fm f) = fm_number (fm g)")
        case True
        then have "f = g" using ok f(1) g(1) by (auto simp: version_ok_def distinct_map inj_on_def)
        then show ?thesis
          using holds [OF f(1)] f(2) g(2) b(3) k entries_distinct [of c "contents f" e b] by (auto simp: file_holds_def)
      next
        case False
        then show ?thesis using ok f g k by (auto simp: version_ok_def newer_than_def neq_iff)
      qed
      with le show "e_seq b < e_seq e" by simp
    qed
    with Some show ?thesis by simp
  qed
  finally show ?thesis .
qed

lemma entry_before_internal:
  assumes "entry_before c a b" "e_seq a \<le> kMaxSequenceNumber" "e_seq b \<le> kMaxSequenceNumber"
  shows "InternalKeyComparator_Compare c (entry_internal a) (entry_internal b) < 0"
  using assms Pack_less_iff [of "e_seq b" "e_seq a" "e_type b" "e_type a"]
  by (auto simp: entry_before_def InternalKeyComparator_Compare_def entry_internal_def AppendInternalKey_eq Let_def)

lemma last_entry_le:
  assumes T: "three_way (Compare c)" and ok: "entries_ok c es" and e: "e \<in> set es"
  shows "Compare c (e_key e) (e_key (last es)) \<le> 0 \<and> (Compare c (e_key e) (e_key (last es)) = 0 \<longrightarrow> e_seq (last es) \<le> e_seq e)"
proof -
  obtain i where i: "i < length es" "es ! i = e" using e by (auto simp: in_set_conv_nth)
  then have l: "last es = es ! (length es - 1)" by (cases es) (simp_all add: last_conv_nth)
  show ?thesis
  proof (cases "i = length es - 1")
    case True
    then show ?thesis using i l three_way.cmp_refl [OF T] by simp
  next
    case False
    then have "entry_before c e (last es)"
      using sorted_wrt_nth_less [of "entry_before c" es i "length es - 1"] ok i l by (simp add: entries_ok_def)
    then show ?thesis by (auto simp: entry_before_def)
  qed
qed

lemma file_wf_holds: "three_way (Compare c) \<Longrightarrow> file_holds c f es \<Longrightarrow> file_wf c f"
proof -
  assume T: "three_way (Compare c)" and f: "file_holds c f es"
  note I = internal_three_way_of [OF T]
  have ne: "es \<noteq> []" and ok: "entries_ok c es" using f by (simp_all add: file_holds_def)
  have seq: "e_seq (hd es) \<le> kMaxSequenceNumber" "e_seq (last es) \<le> kMaxSequenceNumber"
    using ok ne by (simp_all add: entries_ok_def)
  have "InternalKeyComparator_Compare c (entry_internal (hd es)) (entry_internal (last es)) \<le> 0"
  proof (cases "length es = 1")
    case True
    then have "hd es = last es" by (cases es) auto
    then show ?thesis using three_way.cmp_refl [OF I] by simp
  next
    case False
    then have "entry_before c (es ! 0) (es ! (length es - 1))"
      using sorted_wrt_nth_less [of "entry_before c" es 0 "length es - 1"] ok ne by (cases es) (auto simp: entries_ok_def)
    then have "entry_before c (hd es) (last es)" using ne by (simp add: hd_conv_nth last_conv_nth)
    then show ?thesis using entry_before_internal [OF _ seq] by force
  qed
  then show "file_wf c f" using f entry_parse seq by (simp add: file_wf_def file_holds_def key_valid_def)
qed

text \<open>The files of a sorted level are sorted.\<close>

lemma concat_nth_before:
  assumes "sorted_wrt R (concat xss)" "i < j" "j < length xss" "a \<in> set (xss ! i)" "b \<in> set (xss ! j)"
  shows "R a b"
proof -
  have "concat xss = concat (take j xss) @ xss ! j @ concat (drop (Suc j) xss)" using assms(3) by (rule concat_split_nth)
  moreover have "xss ! i \<in> set (take j xss)" using assms(2,3) by (auto simp: in_set_conv_nth intro!: exI [of _ i])
  ultimately show ?thesis using assms(1,4,5) by (auto simp: sorted_wrt_append)
qed

lemma level_sorted_entries:
  assumes T: "three_way (Compare c)" and ok: "entries_ok c (level_entries contents files)"
    and f: "\<And>f. f \<in> set files \<Longrightarrow> file_holds c (fm f) (contents f)"
  shows "level_sorted c fm files"
  unfolding level_sorted_def
proof (intro conjI ballI)
  show "file_wf c (fm g)" if "g \<in> set files" for g using file_wf_holds [OF T f [OF that]] .
  show "sorted_wrt (\<lambda>f g. InternalKeyComparator_Compare c (largest_of fm f) (smallest_of fm g) < 0) files"
    unfolding sorted_wrt_iff_nth_less
  proof (intro allI impI)
    fix i j assume ij: "i < j" "j < length files"
    have h: "file_holds c (fm (files ! i)) (contents (files ! i))" "file_holds c (fm (files ! j)) (contents (files ! j))"
      using f ij by simp_all
    have "entry_before c (last (contents (files ! i))) (hd (contents (files ! j)))"
      by (rule concat_nth_before [of _ "map contents files" i j])
        (use ok ij h in \<open>auto simp: entries_ok_def level_entries_def file_holds_def\<close>)
    moreover have "e_seq (last (contents (files ! i))) \<le> kMaxSequenceNumber" "e_seq (hd (contents (files ! j))) \<le> kMaxSequenceNumber"
      using h by (auto simp: file_holds_def entries_ok_def)
    ultimately show "InternalKeyComparator_Compare c (largest_of fm (files ! i)) (smallest_of fm (files ! j)) < 0"
      using entry_before_internal h by (simp add: file_holds_def InternalKey_Encode_def)
  qed
qed

lemma lookup_level:
  assumes T: "three_way (Compare c)" and ok: "entries_ok c (level_entries contents files)" and snap: "snap \<le> kMaxSequenceNumber"
    and f: "\<And>f. f \<in> set files \<Longrightarrow> file_holds c (fm f) (contents f)"
  shows "first_some (map (\<lambda>f. lookup_newest c uk snap (contents f)) (level_candidate c fm files uk (seek_key uk snap))) =
    lookup_newest c uk snap (level_entries contents files)"
proof -
  let ?L = "lookup_newest c uk snap" and ?ik = "seek_key uk snap" and ?es = "level_entries contents files"
  let ?P = "\<lambda>f. \<not> InternalKeyComparator_Compare c (largest_of fm f) ?ik < 0"
  note sorted = level_sorted_entries [OF T ok f]
  define n where "n = first_index ?P files"
  have idx: "FindFile c fm files ?ik = n" unfolding n_def by (rule FindFile_eq [OF T sorted])
  have seqs: "e_seq e \<le> kMaxSequenceNumber" if "g \<in> set files" "e \<in> set (contents g)" for g e
    using f [OF that(1)] that(2) by (simp add: file_holds_def entries_ok_def)
  have early: "\<not> visible c uk snap e" if "i < n" "e \<in> set (contents (files ! i))" for i e
  proof
    assume v: "visible c uk snap e"
    have i: "i < length files" using that(1) first_index_le [of ?P files] by (simp add: n_def)
    let ?l = "last (contents (files ! i))"
    have h: "file_holds c (fm (files ! i)) (contents (files ! i))" using f i by simp
    have "InternalKeyComparator_Compare c (entry_internal ?l) ?ik < 0"
      using first_index_before [of i ?P files] that(1) h by (simp add: n_def file_holds_def InternalKey_Encode_def)
    then have "Compare c (e_key ?l) uk < 0 \<or> Compare c (e_key ?l) uk = 0 \<and> snap < e_seq ?l"
      using compare_seek_key [of ?l snap c uk] seqs [of "files ! i" ?l] snap h i by (simp add: file_holds_def)
    moreover have "Compare c (e_key e) (e_key ?l) \<le> 0 \<and> (Compare c (e_key e) (e_key ?l) = 0 \<longrightarrow> e_seq ?l \<le> e_seq e)"
      using last_entry_le [OF T _ that(2)] h by (simp add: file_holds_def)
    ultimately show False using v three_way.cmp_le_less_trans [OF T, of "e_key e" "e_key ?l" uk]
        three_way.cmp_flip_eq [OF T, of "e_key ?l" uk] visible_same [OF T, of "e_key ?l" uk snap e]
      by (auto simp: visible_def)
  qed
  show ?thesis
  proof (cases "n < length files")
    case False
    then have "\<not> visible c uk snap e" if "e \<in> set ?es" for e
      using that early first_index_le [of ?P files] by (fastforce simp: level_entries_def in_set_conv_nth [of _ files] n_def)
    then have "?L ?es = None" by (simp add: lookup_None)
    then show ?thesis using False idx by (auto simp: level_candidate_def Let_def)
  next
    case True
    let ?f = "files ! n"
    have h: "file_holds c (fm ?f) (contents ?f)" using f True by simp
    have after: "entry_before c a b" if "a \<in> set (contents ?f)" "n < i" "i < length files" "b \<in> set (contents (files ! i))" for a b i
      by (rule concat_nth_before [of _ "map contents files" n i]) (use ok that True in \<open>auto simp: entries_ok_def level_entries_def\<close>)
    have main: "?L ?es = ?L (contents ?f)"
    proof (cases "?L (contents ?f)")
      case (Some e)
      have "newest (filter (visible c uk snap) ?es) = Some e"
      proof (rule newest_unique [OF T ok])
        show "e \<in> set ?es" "visible c uk snap e" using lookup_SomeD(1,2) [OF Some] True by (auto simp: level_entries_def)
        fix b assume b: "b \<in> set ?es" "visible c uk snap b"
        then obtain i where i: "i < length files" "b \<in> set (contents (files ! i))"
          by (auto simp: level_entries_def in_set_conv_nth [of _ files])
        consider "i < n" | "i = n" | "n < i" by linarith
        then show "e_seq b \<le> e_seq e"
        proof cases
          case 2
          then show ?thesis using lookup_SomeD(3) [OF Some] i(2) b(2) by simp
        next
          case 3
          have "entry_before c e b" by (rule after [OF lookup_SomeD(1) [OF Some] 3 i])
          then show ?thesis using visible_keys [OF T lookup_SomeD(2) [OF Some] b(2)] by (simp add: entry_before_def)
        qed (use early i b(2) in blast)
      qed
      with Some show ?thesis by (simp add: lookup_newest_def)
    next
      case None
      have "\<not> visible c uk snap b" if b: "b \<in> set ?es" for b
      proof
        assume v: "visible c uk snap b"
        obtain i where i: "i < length files" "b \<in> set (contents (files ! i))"
          using b by (auto simp: level_entries_def in_set_conv_nth [of _ files])
        have "\<not> i < n" "i \<noteq> n" using early [OF _ i(2)] v None i(2) by (auto simp: lookup_None)
        then have "n < i" by simp
        let ?l = "last (contents ?f)"
        have l: "?l \<in> set (contents ?f)" using h by (simp add: file_holds_def)
        have "entry_before c ?l b" by (rule after [OF l \<open>n < i\<close> i])
        then have kl: "Compare c (e_key ?l) uk \<le> 0"
          using v three_way.cmp_trans [OF T, of "e_key ?l" "e_key b" uk] by (auto simp: entry_before_def visible_def)
        have "\<not> InternalKeyComparator_Compare c (entry_internal ?l) ?ik < 0"
          using first_index_at [of ?P files] True h by (simp add: n_def file_holds_def InternalKey_Encode_def)
        then have "\<not> (Compare c (e_key ?l) uk < 0 \<or> Compare c (e_key ?l) uk = 0 \<and> snap < e_seq ?l)"
          using compare_seek_key [of ?l snap c uk] seqs [of ?f ?l] snap l True by simp
        then have "visible c uk snap ?l" using kl by (simp add: visible_def not_less)
        then show False using None l by (simp add: lookup_None)
      qed
      then have "?L ?es = None" by (simp add: lookup_None)
      then show ?thesis using None by simp
    qed
    show ?thesis
    proof (cases "Compare c uk (start_of fm ?f) < 0")
      case before: True
      then have "?L (contents ?f) = None" using no_visible_outside [OF T h] by simp
      then show ?thesis using main True before idx by (auto simp: level_candidate_def Let_def)
    next
      case False
      then show ?thesis using main True idx by (auto simp: level_candidate_def Let_def split: option.splits)
    qed
  qed
qed

section \<open>Lookups give the newest visible entry\<close>

text \<open>What the caller may rely on when it looks up a key in the table of a set of entries.\<close>

definition answers :: "Comparator \<Rightarrow> Entry list \<Rightarrow> bytes \<Rightarrow> SequenceNumber \<Rightarrow> kv option \<Rightarrow> bool" where
  "answers c es uk snap result \<longleftrightarrow>
     (case lookup_newest c uk snap es of
        Some e \<Rightarrow> result = Some (entry_pair e)
      | None \<Rightarrow> (case result of
                   None \<Rightarrow> True
                 | Some kv \<Rightarrow> key_valid (fst kv) \<and> Compare c (ExtractUserKey (fst kv)) uk \<noteq> 0))"

text \<open>
  The table cache as a client sees it: \<open>cache_ok\<close> is its invariant, \<open>stored n s es\<close> says that the file with
  number \<open>n\<close> and size \<open>s\<close> is the table of the entries \<open>es\<close>.
\<close>

locale table_store =
  fixes c :: Comparator and table_get :: "'t table_get" and cache_ok :: "'t \<Rightarrow> bool"
    and stored :: "u64 \<Rightarrow> u64 \<Rightarrow> Entry list \<Rightarrow> bool"
  assumes get_ok: "cache_ok t \<Longrightarrow> stored number file_size es \<Longrightarrow> snap \<le> kMaxSequenceNumber \<Longrightarrow>
     \<exists>result t'. table_get t number file_size (seek_key uk snap) = Some ((Status_OK, result), t') \<and> cache_ok t' \<and>
       answers c es uk snap result"
begin

definition readable :: "('f \<Rightarrow> FileMetaData) \<Rightarrow> ('f \<Rightarrow> Entry list) \<Rightarrow> 'f \<Rightarrow> bool" where
  "readable fm contents f \<longleftrightarrow> entries_ok c (contents f) \<and> stored (fm_number (fm f)) (fm_file_size (fm f)) (contents f)"

lemma SaveValue_entry:
  assumes "e_seq e \<le> kMaxSequenceNumber" "Compare c (e_key e) (sv_user_key s) = 0"
  shows "SaveValue c s (entry_internal e) v =
    (case e_type e of kTypeValue \<Rightarrow> s\<lparr>sv_state := Saver_Found, sv_value := v\<rparr> | kTypeDeletion \<Rightarrow> s\<lparr>sv_state := Saver_Deleted\<rparr>)"
  using assms entry_parse by (simp add: SaveValue_def)

lemma SaveValue_other:
  assumes "key_valid k" "Compare c (ExtractUserKey k) (sv_user_key s) \<noteq> 0"
  shows "SaveValue c s k v = s"
  using assms Parse_user_key by (auto simp: SaveValue_def key_valid_def)

text \<open>The search through a list of candidates.\<close>

lemma visit_ok:
  assumes snap: "snap \<le> kMaxSequenceNumber"
  shows "\<forall>lf\<in>set lfs. readable fm contents (snd lf) \<Longrightarrow> cache_ok (gs_cache st) \<Longrightarrow>
    sv_state (gs_saver st) = Saver_NotFound \<Longrightarrow> sv_user_key (gs_saver st) = uk \<Longrightarrow> \<not> gs_found st \<Longrightarrow>
    \<exists>st'. visit (Get_Match c fm table_get (seek_key uk snap)) lfs st = Some st' \<and> cache_ok (gs_cache st') \<and>
      (case first_some (map (\<lambda>lf. lookup_newest c uk snap (contents (snd lf))) lfs) of
         None \<Rightarrow> \<not> gs_found st' \<and> sv_value (gs_saver st') = sv_value (gs_saver st)
       | Some e \<Rightarrow> (case e_type e of
             kTypeValue \<Rightarrow> gs_found st' \<and> gs_s st' = Status_OK \<and> sv_value (gs_saver st') = e_value e
           | kTypeDeletion \<Rightarrow> \<not> gs_found st' \<and> sv_value (gs_saver st') = sv_value (gs_saver st)))"
proof (induction lfs arbitrary: st)
  case (Cons lf lfs)
  obtain level f where lf: "lf = (level, f)" by (cases lf)
  have r: "entries_ok c (contents f)" "stored (fm_number (fm f)) (fm_file_size (fm f)) (contents f)"
    using Cons.prems(1) by (simp_all add: lf readable_def)
  obtain result t where g: "table_get (gs_cache st) (fm_number (fm f)) (fm_file_size (fm f)) (seek_key uk snap) = Some ((Status_OK, result), t)"
      "cache_ok t" "answers c (contents f) uk snap result"
    using get_ok [OF Cons.prems(2) r(2) snap] by blast
  let ?L = "lookup_newest c uk snap (contents f)"
  let ?saver = "case result of None \<Rightarrow> gs_saver st | Some (k, v) \<Rightarrow> SaveValue c (gs_saver st) k v"
  define st1 where "st1 = (if gs_seek_file st = None \<and> gs_last_file_read st \<noteq> None
      then st\<lparr>gs_seek_file := gs_last_file_read st\<rparr> else st)\<lparr>gs_last_file_read := Some (level, f), gs_cache := t, gs_s := Status_OK, gs_saver := ?saver\<rparr>"
  have m: "Get_Match c fm table_get (seek_key uk snap) st level f =
      Some (case sv_state ?saver of
          Saver_NotFound \<Rightarrow> (True, st1)
        | Saver_Found \<Rightarrow> (False, st1\<lparr>gs_found := True\<rparr>)
        | Saver_Deleted \<Rightarrow> (False, st1)
        | Saver_Corrupt \<Rightarrow>
            (False, st1\<lparr>gs_s := Status_Corruption (lit ''corrupted key for '') (sv_user_key ?saver), gs_found := True\<rparr>))"
    using g(1) by (cases "gs_seek_file st = None \<and> gs_last_file_read st \<noteq> None"; cases "sv_state ?saver"; cases result)
      (simp_all add: Get_Match_def Let_def st1_def split_beta)
  have st1: "gs_cache st1 = t" "gs_saver st1 = ?saver" "gs_s st1 = Status_OK" "gs_found st1 = gs_found st"
    by (simp_all add: st1_def)
  show ?case
  proof (cases ?L)
    case None
    then have sv: "?saver = gs_saver st"
      using g(3) SaveValue_other Cons.prems(4) by (auto simp: answers_def split: option.splits)
    have "visit (Get_Match c fm table_get (seek_key uk snap)) (lf # lfs) st = visit (Get_Match c fm table_get (seek_key uk snap)) lfs st1"
      using m sv Cons.prems(3) by (simp add: lf)
    moreover have s1: "gs_saver st1 = gs_saver st" using st1(2) sv by simp
    have "\<forall>lf\<in>set lfs. readable fm contents (snd lf)" using Cons.prems(1) by simp
    note IH = Cons.IH [OF this, of st1, unfolded s1 st1(1,4), OF g(2) Cons.prems(3-5)]
    have "first_some (map (\<lambda>lf. lookup_newest c uk snap (contents (snd lf))) (lf # lfs)) =
        first_some (map (\<lambda>lf. lookup_newest c uk snap (contents (snd lf))) lfs)" using None by (simp add: lf)
    ultimately show ?thesis using IH by presburger
  next
    case (Some e)
    have e: "e \<in> set (contents f)" "Compare c (e_key e) uk = 0" using lookup_SomeD(1,2) [OF Some] by (simp_all add: visible_def)
    have "result = Some (entry_pair e)" using g(3) Some by (simp add: answers_def)
    then have sv: "?saver = (case e_type e of kTypeValue \<Rightarrow> (gs_saver st)\<lparr>sv_state := Saver_Found, sv_value := e_value e\<rparr>
        | kTypeDeletion \<Rightarrow> (gs_saver st)\<lparr>sv_state := Saver_Deleted\<rparr>)"
      using SaveValue_entry [of e "gs_saver st" "e_value e"] e r(1) Cons.prems(4) by (simp add: entry_pair_def entries_ok_def)
    show ?thesis
    proof (cases "e_type e")
      case kTypeValue
      then have "Get_Match c fm table_get (seek_key uk snap) st level f = Some (False, st1\<lparr>gs_found := True\<rparr>)"
        unfolding m sv by simp
      then show ?thesis using Some st1 g(2) kTypeValue sv by (simp add: lf)
    next
      case kTypeDeletion
      then have "Get_Match c fm table_get (seek_key uk snap) st level f = Some (False, st1)"
        unfolding m sv by simp
      then show ?thesis using Some st1 g(2) kTypeDeletion sv Cons.prems(5) by (simp add: lf)
    qed
  qed
qed simp

lemma Version_Get_ok:
  assumes T: "three_way (Compare c)" and ok: "version_ok c fm contents v" and snap: "snap \<le> kMaxSequenceNumber"
    and stored: "\<And>files f. files \<in> set (v_files v) \<Longrightarrow> f \<in> set files \<Longrightarrow> stored (fm_number (fm f)) (fm_file_size (fm f)) (contents f)"
    and cache: "cache_ok cache"
  shows "\<exists>stats cache'. cache_ok cache' \<and>
    Version_Get c fm table_get v (LookupKey_make uk snap) value cache =
      Some (case lookup_newest c uk snap (version_entries contents v) of
              None \<Rightarrow> (Status_NotFound [] [], value, stats, cache')
            | Some e \<Rightarrow> (case e_type e of
                  kTypeValue \<Rightarrow> (Status_OK, e_value e, stats, cache')
                | kTypeDeletion \<Rightarrow> (Status_NotFound [] [], value, stats, cache')))"
proof -
  let ?ik = "seek_key uk snap" and ?L = "\<lambda>f. lookup_newest c uk snap (contents f)"
  let ?cs = "candidates c fm v uk ?ik"
  have len: "length (v_files v) = kNumLevels" using ok by (simp add: version_ok_def)
  have holds: "file_holds c (fm f) (contents f)" if "level < kNumLevels" "f \<in> set (v_files v ! level)" for level f
    using ok that nth_mem [of level "v_files v"] by (auto simp: version_ok_def)
  have cand_in: "\<exists>level<kNumLevels. snd lf \<in> set (v_files v ! level)" if "lf \<in> set ?cs" for lf
  proof -
    have "snd lf \<in> set (v_files v ! 0) \<or> (\<exists>level\<in>set [1..<kNumLevels]. snd lf \<in> set (level_candidate c fm (v_files v ! level) uk ?ik))"
      using that by (auto simp: candidates_def level0_candidates_def NewestFirst_def)
    moreover have "set (level_candidate c fm fs uk ?ik) \<subseteq> set fs" for fs by (auto simp: level_candidate_def Let_def)
    moreover have "0 < kNumLevels" by (simp add: kNumLevels_def)
    ultimately show ?thesis by (metis atLeastLessThan_upt atLeastLessThan_iff subsetD)
  qed
  have readable: "readable fm contents (snd lf)" if "lf \<in> set ?cs" for lf
    using cand_in [OF that] holds stored len unfolding readable_def file_holds_def by (metis nth_mem)
  have "first_some (map (\<lambda>lf. ?L (snd lf)) ?cs) =
      first_some (map (\<lambda>level. lookup_newest c uk snap (level_entries contents (v_files v ! level))) [0..<kNumLevels])"
  proof -
    have lv: "first_some (map ?L (level_candidate c fm (v_files v ! level) uk ?ik)) =
        lookup_newest c uk snap (level_entries contents (v_files v ! level))" if "level \<in> set [1..<kNumLevels]" for level
      using ok that holds by (intro lookup_level [OF T _ snap]) (auto simp: version_ok_def)
    have "first_some (map (\<lambda>lf. ?L (snd lf)) (concat (map (\<lambda>level. map (Pair level) (level_candidate c fm (v_files v ! level) uk ?ik)) [1..<kNumLevels]))) =
        first_some (map (\<lambda>level. lookup_newest c uk snap (level_entries contents (v_files v ! level))) [1..<kNumLevels])"
      unfolding map_concat first_some_concat map_map o_def snd_conv
      by (intro arg_cong [of _ _ first_some] map_cong [OF refl] lv)
    moreover have "[0..<kNumLevels] = 0 # [1..<kNumLevels]" by (simp add: kNumLevels_def upt_rec)
    ultimately show ?thesis
      using lookup_level0 [OF T ok, of uk snap] by (simp add: candidates_def first_some_append o_def split: option.splits)
  qed
  also have "\<dots> = first_some (map (lookup_newest c uk snap) (map (level_entries contents) (v_files v)))"
  proof -
    have "map (\<lambda>level. g (v_files v ! level)) [0..<kNumLevels] = map g (v_files v)" for g :: "'a list \<Rightarrow> Entry option"
      using len by (simp add: list_eq_iff_nth_eq)
    from this [of "\<lambda>fs. lookup_newest c uk snap (level_entries contents fs)"] show ?thesis by (simp add: o_def)
  qed
  also have "\<dots> = lookup_newest c uk snap (version_entries contents v)"
    unfolding version_entries_def using ok by (intro lookup_concat [OF T, symmetric]) (simp add: version_ok_def)
  finally have fs: "first_some (map (\<lambda>lf. ?L (snd lf)) ?cs) = lookup_newest c uk snap (version_entries contents v)" .
  have keys: "LookupKey_internal_key (LookupKey_make uk snap) = ?ik" "LookupKey_user_key (LookupKey_make uk snap) = uk"
    by (simp_all add: LookupKey_internal_key_make LookupKey_user_key_make seek_key_def)
  let ?st = "\<lparr>gs_saver = \<lparr>sv_state = Saver_NotFound, sv_user_key = uk, sv_value = value\<rparr>,
      gs_seek_file = None, gs_last_file_read = None, gs_s = Status_OK, gs_found = False, gs_cache = cache\<rparr>"
  obtain st' where st': "visit (Get_Match c fm table_get ?ik) ?cs ?st = Some st'" "cache_ok (gs_cache st')"
      "case lookup_newest c uk snap (version_entries contents v) of
         None \<Rightarrow> \<not> gs_found st' \<and> sv_value (gs_saver st') = value
       | Some e \<Rightarrow> (case e_type e of
             kTypeValue \<Rightarrow> gs_found st' \<and> gs_s st' = Status_OK \<and> sv_value (gs_saver st') = e_value e
           | kTypeDeletion \<Rightarrow> \<not> gs_found st' \<and> sv_value (gs_saver st') = value)"
    using visit_ok [OF snap, of ?cs fm contents ?st uk, unfolded fs GetState.simps Saver.simps] readable cache by blast
  show ?thesis
    using st' by (intro exI [of _ "gs_seek_file st'"] exI [of _ "gs_cache st'"])
      (auto simp: Version_Get_def keys ForEachOverlapping_def split: option.splits ValueType.splits)
qed

end

end
