(* ===== verification/Compaction.thy ===== *)
theory Compaction
  imports Version_Get
begin

text \<open>
  \<^verbatim>\<open>Compaction\<close> of \<^verbatim>\<open>db/version_set.cc\<close> and how the version set chooses one: by the score of a level, by seeks, or for a
  range; the inputs in the next level and the grandparents; and the two questions that are asked for every key during
  the merge, whether older data may lie below, and whether the output file ends before it.
\<close>

section \<open>Compactions\<close>

text \<open>The version that is compacted keeps its files; \<open>c_input_version\<close> is reset when its reference is given up.\<close>

record 'f Compaction =
  c_level :: nat
  c_max_output_file_size :: u64
  c_input_version :: "'f Version option"
  c_edit :: VersionEdit
  c_inputs0 :: "'f list"
  c_inputs1 :: "'f list"
  c_grandparents :: "'f list"
  c_grandparent_index :: nat
  c_seen_key :: bool
  c_overlapped_bytes :: int
  c_level_ptrs :: "nat list"

definition Compaction_make :: "u64 \<Rightarrow> nat \<Rightarrow> 'f Compaction" where
  "Compaction_make max_file_size level =
     \<lparr>c_level = level, c_max_output_file_size = MaxFileSizeForLevel max_file_size level, c_input_version = None,
      c_edit = VersionEdit_make, c_inputs0 = [], c_inputs1 = [], c_grandparents = [], c_grandparent_index = 0,
      c_seen_key = False, c_overlapped_bytes = 0, c_level_ptrs = replicate kNumLevels 0\<rparr>"

definition IsTrivialMove :: "('f \<Rightarrow> FileMetaData) \<Rightarrow> u64 \<Rightarrow> 'f Compaction \<Rightarrow> bool" where
  "IsTrivialMove fm max_file_size cpt \<longleftrightarrow>
     length (c_inputs0 cpt) = 1 \<and> length (c_inputs1 cpt) = 0 \<and>
     TotalFileSize fm (c_grandparents cpt) \<le> MaxGrandParentOverlapBytes max_file_size"

definition AddInputDeletions :: "('f \<Rightarrow> FileMetaData) \<Rightarrow> 'f Compaction \<Rightarrow> VersionEdit \<Rightarrow> VersionEdit" where
  "AddInputDeletions fm cpt edit =
     (let edit = foldl (\<lambda>e f. VersionEdit_RemoveFile (int (c_level cpt)) (fm_number (fm f)) e) edit (c_inputs0 cpt)
      in foldl (\<lambda>e f. VersionEdit_RemoveFile (int (c_level cpt) + 1) (fm_number (fm f)) e) edit (c_inputs1 cpt))"

text \<open>The scan of one level: whether the key is in the range of a file, and the new position.\<close>

function base_scan :: "Comparator \<Rightarrow> ('f \<Rightarrow> FileMetaData) \<Rightarrow> bytes \<Rightarrow> 'f list \<Rightarrow> nat \<Rightarrow> bool \<times> nat" where
  "base_scan c fm user_key files ptr =
     (if ptr < length files then
        (let f = files ! ptr in
         if Compare c user_key (limit_of fm f) \<le> 0 then (Compare c user_key (start_of fm f) \<ge> 0, ptr)
         else base_scan c fm user_key files (ptr + 1))
      else (False, ptr))"
  by pat_completeness auto
termination
  by (relation "measure (\<lambda>(_, _, _, files, ptr). length files - ptr)") auto

declare base_scan.simps [simp del]

primrec base_levels ::
    "Comparator \<Rightarrow> ('f \<Rightarrow> FileMetaData) \<Rightarrow> 'f Version \<Rightarrow> bytes \<Rightarrow> nat list \<Rightarrow> nat list \<Rightarrow> bool \<times> nat list" where
  "base_levels c fm v user_key [] ptrs = (True, ptrs)"
| "base_levels c fm v user_key (lvl # lvls) ptrs =
     (let (found, p) = base_scan c fm user_key (v_files v ! lvl) (ptrs ! lvl);
          ptrs = ptrs[lvl := p]
      in if found then (False, ptrs) else base_levels c fm v user_key lvls ptrs)"

definition IsBaseLevelForKey ::
    "Comparator \<Rightarrow> ('f \<Rightarrow> FileMetaData) \<Rightarrow> bytes \<Rightarrow> 'f Compaction \<Rightarrow> (bool \<times> 'f Compaction) option" where
  "IsBaseLevelForKey c fm user_key cpt =
     (case c_input_version cpt of
        None \<Rightarrow> None
      | Some v \<Rightarrow>
          (let (r, ptrs) = base_levels c fm v user_key [c_level cpt + 2..<kNumLevels] (c_level_ptrs cpt)
           in Some (r, cpt\<lparr>c_level_ptrs := ptrs\<rparr>)))"

function grandparent_scan ::
    "Comparator \<Rightarrow> ('f \<Rightarrow> FileMetaData) \<Rightarrow> bytes \<Rightarrow> bool \<Rightarrow> 'f list \<Rightarrow> nat \<Rightarrow> int \<Rightarrow> nat \<times> int" where
  "grandparent_scan c fm internal_key seen_key grandparents index overlapped =
     (if index < length grandparents \<and>
         InternalKeyComparator_Compare c internal_key (largest_of fm (grandparents ! index)) > 0
      then grandparent_scan c fm internal_key seen_key grandparents (index + 1)
             (if seen_key then overlapped + int (unat (fm_file_size (fm (grandparents ! index)))) else overlapped)
      else (index, overlapped))"
  by pat_completeness auto
termination
  by (relation "measure (\<lambda>(_, _, _, _, grandparents, index, _). length grandparents - index)") auto

declare grandparent_scan.simps [simp del]

definition ShouldStopBefore ::
    "Comparator \<Rightarrow> ('f \<Rightarrow> FileMetaData) \<Rightarrow> u64 \<Rightarrow> bytes \<Rightarrow> 'f Compaction \<Rightarrow> bool \<times> 'f Compaction" where
  "ShouldStopBefore c fm max_file_size internal_key cpt =
     (let (index, overlapped) = grandparent_scan c fm internal_key (c_seen_key cpt) (c_grandparents cpt)
            (c_grandparent_index cpt) (c_overlapped_bytes cpt);
          cpt = cpt\<lparr>c_grandparent_index := index, c_seen_key := True\<rparr>
      in if overlapped > MaxGrandParentOverlapBytes max_file_size
         then (True, cpt\<lparr>c_overlapped_bytes := 0\<rparr>)
         else (False, cpt\<lparr>c_overlapped_bytes := overlapped\<rparr>))"

section \<open>Choosing the inputs\<close>

text \<open>
  The state is the current version and the compaction pointers.  The tuple in the middle holds the two sets of inputs, the largest
  key of the first, and the range of both.
\<close>

definition ExpandInputs ::
    "Comparator \<Rightarrow> ('f \<Rightarrow> FileMetaData) \<Rightarrow> u64 \<Rightarrow> 'f Version \<Rightarrow> nat \<Rightarrow> 'f list \<times> 'f list \<times> InternalKey \<times> InternalKey \<times> InternalKey \<Rightarrow>
     ('f list \<times> 'f list \<times> InternalKey \<times> InternalKey \<times> InternalKey) option" where
  "ExpandInputs c fm max_file_size v level st =
     (let (inputs0, inputs1, largest, all_start, all_limit) = st in
      if inputs1 \<noteq> [] then do {
        expanded0 \<leftarrow> GetOverlappingInputs c fm level (v_files v ! level) (Some all_start) (Some all_limit);
        expanded0 \<leftarrow> AddBoundaryInputs c fm (v_files v ! level) expanded0;
        let inputs1_size = TotalFileSize fm inputs1;
        let expanded0_size = TotalFileSize fm expanded0;
        if length expanded0 > length inputs0 \<and> inputs1_size + expanded0_size < ExpandedCompactionByteSizeLimit max_file_size
        then do {
          let (new_start, new_limit) = GetRange c fm expanded0;
          expanded1 \<leftarrow> GetOverlappingInputs c fm (level + 1) (v_files v ! (level + 1)) (Some new_start) (Some new_limit);
          Some (if length expanded1 = length inputs1
                then (let (all_start, all_limit) = GetRange2 c fm expanded0 expanded1
                      in (expanded0, expanded1, new_limit, all_start, all_limit))
                else st)
        }
        else Some st
      }
      else Some st)"

definition SetupOtherInputs ::
    "Comparator \<Rightarrow> ('f \<Rightarrow> FileMetaData) \<Rightarrow> u64 \<Rightarrow> 'f Version \<Rightarrow> bytes list \<Rightarrow> 'f Compaction \<Rightarrow> ('f Compaction \<times> bytes list) option" where
  "SetupOtherInputs c fm max_file_size v compact_pointer cpt =
     (let level = c_level cpt in do {
        inputs0 \<leftarrow> AddBoundaryInputs c fm (v_files v ! level) (c_inputs0 cpt);
        let (smallest, largest) = GetRange c fm inputs0;
        inputs1 \<leftarrow> GetOverlappingInputs c fm (level + 1) (v_files v ! (level + 1)) (Some smallest) (Some largest);
        let (all_start, all_limit) = GetRange2 c fm inputs0 inputs1;
        (inputs0, inputs1, largest, all_start, all_limit) \<leftarrow>
          ExpandInputs c fm max_file_size v level (inputs0, inputs1, largest, all_start, all_limit);
        grandparents \<leftarrow>
          (if level + 2 < kNumLevels
           then GetOverlappingInputs c fm (level + 2) (v_files v ! (level + 2)) (Some all_start) (Some all_limit)
           else Some (c_grandparents cpt));
        Some (cpt\<lparr>c_inputs0 := inputs0, c_inputs1 := inputs1, c_grandparents := grandparents,
                   c_edit := SetCompactPointer (int level) largest (c_edit cpt)\<rparr>,
              compact_pointer[level := InternalKey_Encode largest])
      })"

text \<open>The first file after the compaction pointer, or the first file.\<close>

definition pick_file :: "Comparator \<Rightarrow> ('f \<Rightarrow> FileMetaData) \<Rightarrow> bytes \<Rightarrow> 'f list \<Rightarrow> 'f option" where
  "pick_file c fm pointer files =
     (case find (\<lambda>f. pointer = [] \<or> InternalKeyComparator_Compare c (largest_of fm f) pointer > 0) files of
        Some f \<Rightarrow> Some f
      | None \<Rightarrow> (case files of [] \<Rightarrow> None | f # _ \<Rightarrow> Some f))"

definition PickCompaction ::
    "Comparator \<Rightarrow> ('f \<Rightarrow> FileMetaData) \<Rightarrow> u64 \<Rightarrow> 'f Version \<Rightarrow> bytes list \<Rightarrow> ('f Compaction option \<times> 'f Version \<times> bytes list) option" where
  "PickCompaction c fm max_file_size current compact_pointer =
     (let size_compaction = (v_compaction_score current \<ge> 1);
          seek_compaction = (v_file_to_compact current \<noteq> None)
      in if \<not> size_compaction \<and> \<not> seek_compaction then Some (None, current, compact_pointer)
         else do {
           let level = nat (if size_compaction then v_compaction_level current else v_file_to_compact_level current);
           f \<leftarrow> (if size_compaction then pick_file c fm (compact_pointer ! level) (v_files current ! level)
                 else v_file_to_compact current);
           let current = current\<lparr>v_refs := v_refs current + 1\<rparr>;
           let (smallest, largest) = GetRange c fm [f];
           inputs0 \<leftarrow> (if level = 0 then GetOverlappingInputs c fm 0 (v_files current ! 0) (Some smallest) (Some largest) else Some [f]);
           (cpt, compact_pointer) \<leftarrow> SetupOtherInputs c fm max_file_size current compact_pointer
             ((Compaction_make max_file_size level)\<lparr>c_input_version := Some current, c_inputs0 := inputs0\<rparr>);
           Some (Some cpt, current, compact_pointer)
         })"

text \<open>The first files whose sizes reach the limit; sums of sizes wrap.\<close>

primrec limit_inputs :: "('f \<Rightarrow> FileMetaData) \<Rightarrow> u64 \<Rightarrow> u64 \<Rightarrow> 'f list \<Rightarrow> 'f list" where
  "limit_inputs fm limit sum_size [] = []"
| "limit_inputs fm limit sum_size (f # fs) =
     (let sum_size = sum_size + fm_file_size (fm f) in if sum_size \<ge> limit then [f] else f # limit_inputs fm limit sum_size fs)"

definition CompactRange ::
    "Comparator \<Rightarrow> ('f \<Rightarrow> FileMetaData) \<Rightarrow> u64 \<Rightarrow> nat \<Rightarrow> InternalKey option \<Rightarrow> InternalKey option \<Rightarrow> 'f Version \<Rightarrow> bytes list \<Rightarrow>
     ('f Compaction option \<times> 'f Version \<times> bytes list) option" where
  "CompactRange c fm max_file_size level begin_key end_key current compact_pointer =
     do {
       inputs \<leftarrow> GetOverlappingInputs c fm level (v_files current ! level) begin_key end_key;
       if inputs = [] then Some (None, current, compact_pointer)
       else do {
         let inputs = (if level > 0 then limit_inputs fm (MaxFileSizeForLevel max_file_size level) 0 inputs else inputs);
         let current = current\<lparr>v_refs := v_refs current + 1\<rparr>;
         (cpt, compact_pointer) \<leftarrow> SetupOtherInputs c fm max_file_size current compact_pointer
           ((Compaction_make max_file_size level)\<lparr>c_input_version := Some current, c_inputs0 := inputs\<rparr>);
         Some (Some cpt, current, compact_pointer)
       }
     }"

definition ReleaseInputs :: "'f Compaction \<Rightarrow> 'f Version option \<times> 'f Compaction" where
  "ReleaseInputs cpt =
     (map_option (\<lambda>v. v\<lparr>v_refs := v_refs v - 1\<rparr>) (c_input_version cpt), cpt\<lparr>c_input_version := None\<rparr>)"

section \<open>The base level of a key\<close>

text \<open>No file below the two levels of the compaction has the key in its range.\<close>

definition in_file :: "Comparator \<Rightarrow> ('f \<Rightarrow> FileMetaData) \<Rightarrow> bytes \<Rightarrow> 'f \<Rightarrow> bool" where
  "in_file c fm uk f \<longleftrightarrow> Compare c uk (limit_of fm f) \<le> 0 \<and> Compare c uk (start_of fm f) \<ge> 0"

definition base_level :: "Comparator \<Rightarrow> ('f \<Rightarrow> FileMetaData) \<Rightarrow> 'f Version \<Rightarrow> nat \<Rightarrow> bytes \<Rightarrow> bool" where
  "base_level c fm v level uk \<longleftrightarrow>
     (\<forall>lvl. level + 2 \<le> lvl \<longrightarrow> lvl < kNumLevels \<longrightarrow> (\<forall>f\<in>set (v_files v ! lvl). \<not> in_file c fm uk f))"

text \<open>The files before the position of a level end before the key; this stays true for later keys.\<close>

definition passed :: "Comparator \<Rightarrow> ('f \<Rightarrow> FileMetaData) \<Rightarrow> 'f list \<Rightarrow> bytes \<Rightarrow> nat \<Rightarrow> bool" where
  "passed c fm files uk ptr \<longleftrightarrow> (\<forall>i<ptr. i < length files \<longrightarrow> Compare c uk (limit_of fm (files ! i)) > 0)"

definition ptrs_ok :: "Comparator \<Rightarrow> ('f \<Rightarrow> FileMetaData) \<Rightarrow> 'f Version \<Rightarrow> bytes \<Rightarrow> nat list \<Rightarrow> bool" where
  "ptrs_ok c fm v uk ptrs \<longleftrightarrow> length ptrs = kNumLevels \<and> (\<forall>lvl<kNumLevels. passed c fm (v_files v ! lvl) uk (ptrs ! lvl))"

lemma passed_later:
  assumes T: "three_way (Compare c)" and "passed c fm files uk ptr" "Compare c uk uk' \<le> 0"
  shows "passed c fm files uk' ptr"
  unfolding passed_def
proof (intro allI impI)
  fix i assume "i < ptr" "i < length files"
  then have "Compare c (limit_of fm (files ! i)) uk < 0" using assms(2) three_way.cmp_flip_gt [OF T] by (auto simp: passed_def)
  then have "Compare c (limit_of fm (files ! i)) uk' < 0" by (rule three_way.cmp_less_le_trans [OF T _ assms(3)])
  then show "Compare c uk' (limit_of fm (files ! i)) > 0" using three_way.cmp_flip_gt [OF T] by blast
qed

lemma ptrs_ok_later: "three_way (Compare c) \<Longrightarrow> ptrs_ok c fm v uk ptrs \<Longrightarrow> Compare c uk uk' \<le> 0 \<Longrightarrow> ptrs_ok c fm v uk' ptrs"
  using passed_later by (fastforce simp: ptrs_ok_def)

lemma ptrs_ok_start: "ptrs_ok c fm v uk (replicate kNumLevels 0)"
  by (simp add: ptrs_ok_def passed_def)

lemma base_scan_ok:
  assumes T: "three_way (Compare c)" and s: "level_sorted c fm files" and "passed c fm files uk ptr"
    and "base_scan c fm uk files ptr = (r, p)"
  shows "r \<longleftrightarrow> (\<exists>f\<in>set files. in_file c fm uk f)" "passed c fm files uk p"
proof -
  have "(r \<longleftrightarrow> (\<exists>f\<in>set files. in_file c fm uk f)) \<and> passed c fm files uk p"
    using assms(3,4)
  proof (induction "length files - ptr" arbitrary: ptr)
    case 0
    then have "r = False" "p = ptr" "length files \<le> ptr" by (simp_all add: base_scan.simps [of c fm uk files ptr])
    moreover from this 0 have "\<not> in_file c fm uk f" if f: "f \<in> set files" for f
    proof -
      obtain i where i: "i < length files" "f = files ! i" using f by (auto simp: in_set_conv_nth)
      then have "i < ptr" using \<open>length files \<le> ptr\<close> by simp
      then have "Compare c uk (limit_of fm (files ! i)) > 0" using 0(2) i(1) by (simp add: passed_def)
      then show ?thesis using i(2) by (simp add: in_file_def)
    qed
    ultimately show ?case using 0 by blast
  next
    case (Suc n)
    then have lt: "ptr < length files" by simp
    let ?f = "files ! ptr"
    show ?case
    proof (cases "Compare c uk (limit_of fm ?f) \<le> 0")
      case True
      then have rp: "r \<longleftrightarrow> Compare c uk (start_of fm ?f) \<ge> 0" "p = ptr"
        using Suc.prems(2) lt by (auto simp add: base_scan.simps [of c fm uk files ptr] Let_def)
      have "\<not> in_file c fm uk (files ! i)" if "\<not> r" "i < length files" for i
      proof (cases "i < ptr")
        case True
        then show ?thesis using Suc.prems(1) that(2) by (auto simp: passed_def in_file_def)
      next
        case False
        then have "Compare c (start_of fm ?f) (start_of fm (files ! i)) \<le> 0" using level_sorted_start [OF T s, of ptr i] that(2) by simp
        then have "Compare c uk (start_of fm (files ! i)) < 0"
          using three_way.cmp_less_le_trans [OF T, of uk "start_of fm ?f" "start_of fm (files ! i)"] that(1) rp(1) by simp
        then show ?thesis by (simp add: in_file_def)
      qed
      moreover have "in_file c fm uk ?f" if r using that rp(1) True by (simp add: in_file_def)
      ultimately show ?thesis using Suc.prems(1) rp(2) lt by (metis in_set_conv_nth nth_mem)
    next
      case False
      then have "base_scan c fm uk files (ptr + 1) = (r, p)"
        using Suc.prems(2) lt by (simp add: base_scan.simps [of c fm uk files ptr] Let_def)
      moreover have "passed c fm files uk (ptr + 1)" using Suc.prems(1) False by (auto simp: passed_def less_Suc_eq)
      ultimately show ?thesis using Suc.hyps(1) [of "ptr + 1"] Suc.hyps(2) by simp
    qed
  qed
  then show "r \<longleftrightarrow> (\<exists>f\<in>set files. in_file c fm uk f)" "passed c fm files uk p" by simp_all
qed

lemma base_levels_ok:
  assumes T: "three_way (Compare c)"
  shows "\<forall>lvl\<in>set lvls. lvl < kNumLevels \<and> level_sorted c fm (v_files v ! lvl) \<Longrightarrow> ptrs_ok c fm v uk ptrs \<Longrightarrow>
    \<exists>ptrs'. base_levels c fm v uk lvls ptrs = ((\<forall>lvl\<in>set lvls. \<forall>f\<in>set (v_files v ! lvl). \<not> in_file c fm uk f), ptrs') \<and>
      ptrs_ok c fm v uk ptrs'"
proof (induction lvls arbitrary: ptrs)
  case (Cons lvl lvls)
  obtain r p where rp: "base_scan c fm uk (v_files v ! lvl) (ptrs ! lvl) = (r, p)" by fastforce
  have l: "lvl < kNumLevels" "level_sorted c fm (v_files v ! lvl)" "passed c fm (v_files v ! lvl) uk (ptrs ! lvl)"
    using Cons.prems by (auto simp: ptrs_ok_def)
  note b = base_scan_ok [OF T l(2,3) rp]
  have p': "ptrs_ok c fm v uk (ptrs[lvl := p])"
    using Cons.prems(2) b(2) l(1) by (auto simp: ptrs_ok_def nth_list_update)
  show ?case
  proof (cases r)
    case True
    then show ?thesis using b(1) rp p' by auto
  next
    case False
    then show ?thesis using Cons.IH [OF _ p'] Cons.prems(1) b(1) rp by auto
  qed
qed simp

lemma IsBaseLevelForKey_ok:
  assumes T: "three_way (Compare c)" and v: "c_input_version cpt = Some v"
    and s: "\<And>lvl. 0 < lvl \<Longrightarrow> lvl < kNumLevels \<Longrightarrow> level_sorted c fm (v_files v ! lvl)"
    and p: "ptrs_ok c fm v uk (c_level_ptrs cpt)"
  shows "\<exists>ptrs. IsBaseLevelForKey c fm uk cpt = Some (base_level c fm v (c_level cpt) uk, cpt\<lparr>c_level_ptrs := ptrs\<rparr>) \<and>
    ptrs_ok c fm v uk ptrs"
proof -
  let ?ls = "[c_level cpt + 2..<kNumLevels]"
  have ls: "\<forall>lvl\<in>set ?ls. lvl < kNumLevels \<and> level_sorted c fm (v_files v ! lvl)" using s by simp
  obtain ptrs where "base_levels c fm v uk ?ls (c_level_ptrs cpt) =
      ((\<forall>lvl\<in>set ?ls. \<forall>f\<in>set (v_files v ! lvl). \<not> in_file c fm uk f), ptrs)" "ptrs_ok c fm v uk ptrs"
    using base_levels_ok [OF T ls p] by blast
  moreover have "(\<forall>lvl\<in>set ?ls. \<forall>f\<in>set (v_files v ! lvl). \<not> in_file c fm uk f) \<longleftrightarrow> base_level c fm v (c_level cpt) uk"
    by (auto simp: base_level_def)
  ultimately show ?thesis using v by (auto simp: IsBaseLevelForKey_def)
qed

end
