(* ===== verification/Table_Cache.thy ===== *)
theory Table_Cache
  imports Cache_Interface Filename Table_Get Version_Get
begin

text \<open>
  \<^verbatim>\<open>db/table_cache.cc\<close>: the open tables of a database, kept in a sharded cache under their file number.  A table
  that is not in the cache is opened, by its name or by the name of older versions of the database.
\<close>

section \<open>The cache of open tables\<close>

text \<open>
  \<open>tc_env\<close> is \<^verbatim>\<open>env_->NewRandomAccessFile\<close> of an environment whose files do not change; \<open>tc_alloc\<close> gives the
  address of a new cache entry.  The tables are opened without a block cache.
\<close>

record TableAndFile =
  tf_file :: raf
  tf_table :: Table

type_synonym table_lru = "TableAndFile ShardedLRUCache"

record TableCache =
  tc_env :: "bytes \<Rightarrow> Status \<times> raf option"
  tc_dbname :: bytes
  tc_options :: Options
  tc_alloc :: "bytes \<Rightarrow> table_lru \<Rightarrow> nat"

definition OpenTableFile :: "TableCache \<Rightarrow> u64 \<Rightarrow> Status \<times> raf option" where
  "OpenTableFile tc file_number =
     (let fname = TableFileName (tc_dbname tc) file_number;
          (s, file) = tc_env tc fname
      in if \<not> Status_ok s then
           (let old_fname = SSTTableFileName (tc_dbname tc) file_number;
                (s', file) = tc_env tc old_fname
            in if Status_ok s' then (Status_OK, file) else (s, file))
         else (s, file))"

definition FindTable ::
    "Snappy \<Rightarrow> TableCache \<Rightarrow> u64 \<Rightarrow> u64 \<Rightarrow> table_lru \<Rightarrow> (Status \<times> Handle option \<times> table_lru) option" where
  "FindTable sn tc file_number file_size cache =
     (let key = EncodeFixed64 file_number in do {
        (handle, cache) \<leftarrow> Sharded_Lookup key cache;
        if handle \<noteq> None then Some (Status_OK, handle, cache)
        else (let (s, file) = OpenTableFile tc file_number in do {
          (s, table) \<leftarrow> (if Status_ok s then do { f \<leftarrow> file; Table_Open sn (tc_options tc) f file_size 0 }
                        else Some (s, None));
          if \<not> Status_ok s then Some (s, None, cache)
          else do {
            f \<leftarrow> file;
            t \<leftarrow> table;
            (h, cache) \<leftarrow> Sharded_Insert (tc_alloc tc key cache) key \<lparr>tf_file = f, tf_table = t\<rparr> 1 cache;
            Some (s, Some h, cache)
          }
        })
      })"

text \<open>An iterator comes with the table it runs on and the handle that its cleanup function releases.\<close>

definition TableCache_NewIterator ::
    "Snappy \<Rightarrow> TableCache \<Rightarrow> u64 \<Rightarrow> u64 \<Rightarrow> table_lru \<Rightarrow> ((Status + (Table \<times> table_iter \<times> Handle)) \<times> table_lru) option" where
  "TableCache_NewIterator sn tc file_number file_size cache =
     do {
       (s, handle, cache) \<leftarrow> FindTable sn tc file_number file_size cache;
       if \<not> Status_ok s then Some (Inl (NewErrorIterator s), cache)
       else do {
         h \<leftarrow> handle;
         tf \<leftarrow> Sharded_Value h cache;
         Some (Inr (tf_table tf, Table_NewIterator (tf_table tf), h), cache)
       }
     }"

definition UnrefEntry :: "Handle \<Rightarrow> table_lru \<Rightarrow> table_lru option" where
  "UnrefEntry h cache = Sharded_Release h cache"

definition TableCache_Get :: "Snappy \<Rightarrow> TableCache \<Rightarrow> ReadOptions \<Rightarrow> table_lru table_get" where
  "TableCache_Get sn tc ro cache file_number file_size k =
     do {
       (s, handle, cache) \<leftarrow> FindTable sn tc file_number file_size cache;
       if Status_ok s then do {
         h \<leftarrow> handle;
         tf \<leftarrow> Sharded_Value h cache;
         (s, result) \<leftarrow> InternalGet sn (tf_table tf) ro k;
         cache \<leftarrow> Sharded_Release h cache;
         Some ((s, result), cache)
       }
       else Some ((s, None), cache)
     }"

definition Evict :: "u64 \<Rightarrow> table_lru \<Rightarrow> table_lru option" where
  "Evict file_number cache = Sharded_Erase (EncodeFixed64 file_number) cache"

section \<open>The files of a database\<close>

text \<open>\<open>r\<close> reads the bytes \<open>d\<close>; this is the contract of both kinds of random-access files of the POSIX environment.\<close>

definition reads :: "raf \<Rightarrow> bytes \<Rightarrow> bool" where
  "reads r d \<longleftrightarrow> random_file (\<lambda>_ :: unit. r) (\<lambda>_. d) (\<lambda>_. True)"

lemma posix_reads:
  "pr_ok f \<Longrightarrow> reads (PosixRandomAccessFile_Read f) (pr_data f)"
  "length (pm_data g) < 2 ^ 64 \<Longrightarrow> reads (PosixMmapReadableFile_Read g) (pm_data g)"
  using posix_random.read_within posix_mmap.read_within by (simp_all add: reads_def random_file_def)

text \<open>
  A catalogue says what is in the files: the entries, and how they are cut into blocks.
\<close>

type_synonym catalogue = "u64 \<Rightarrow> (Entry list \<times> kv list list \<times> kv list) option"

definition table_of :: "Snappy \<Rightarrow> Options \<Rightarrow> raf \<Rightarrow> Entry list \<Rightarrow> kv list list \<Rightarrow> kv list \<Rightarrow> bool" where
  "table_of sn opts r es blks ikvs \<longleftrightarrow>
     reads r (table_bytes sn opts blks ikvs) \<and> table_blocks sn opts blks ikvs \<and> concat blks = map entry_kv es \<and>
     (\<forall>e\<in>set es. Memtable.entry_ok e) \<and> distinct_entries BytewiseComparator es"

definition stored_table :: "Snappy \<Rightarrow> TableCache \<Rightarrow> catalogue \<Rightarrow> u64 \<Rightarrow> u64 \<Rightarrow> Entry list \<Rightarrow> bool" where
  "stored_table sn tc cat number file_size es \<longleftrightarrow>
     (\<exists>r blks ikvs. cat number = Some (es, blks, ikvs) \<and> OpenTableFile tc number = (Status_OK, Some r) \<and>
        table_of sn (tc_options tc) r es blks ikvs \<and>
        file_size = of_nat (length (table_bytes sn (tc_options tc) blks ikvs)))"

text \<open>What the cache may hold under a file number.\<close>

definition right_table :: "Snappy \<Rightarrow> TableCache \<Rightarrow> catalogue \<Rightarrow> bytes \<Rightarrow> TableAndFile \<Rightarrow> bool" where
  "right_table sn tc cat k tf \<longleftrightarrow>
     (\<forall>number es r blks ikvs. k = EncodeFixed64 number \<longrightarrow> cat number = Some (es, blks, ikvs) \<longrightarrow>
        OpenTableFile tc number = (Status_OK, Some r) \<longrightarrow> opened sn (tc_options tc) r blks ikvs (tf_table tf))"

definition allocates :: "(bytes \<Rightarrow> table_lru \<Rightarrow> nat) \<Rightarrow> bool" where
  "allocates alloc \<longleftrightarrow> (\<forall>p k cache ext. sharded_state p cache ext \<longrightarrow> sharded_fresh (alloc k cache) k cache)"

definition tables_ok :: "nat option \<Rightarrow> Snappy \<Rightarrow> TableCache \<Rightarrow> catalogue \<Rightarrow> table_lru \<Rightarrow> bool" where
  "tables_ok bloom_bits sn tc cat cache \<longleftrightarrow>
     db_options bloom_bits (tc_options tc) \<and> allocates (tc_alloc tc) \<and>
     (\<exists>p ext. sharded_state p cache ext \<and> agrees (sharded_holds cache) (right_table sn tc cat))"

section \<open>Finding a table\<close>

lemma table_ofD:
  assumes "table_of sn opts r es blks ikvs"
  shows "random_file (\<lambda>_ :: unit. r) (\<lambda>_. table_bytes sn opts blks ikvs) (\<lambda>_. True)" "table_blocks sn opts blks ikvs"
    "concat blks = map entry_kv es" "\<forall>e\<in>set es. Memtable.entry_ok e" "distinct_entries BytewiseComparator es"
  using assms by (simp_all add: table_of_def reads_def)

lemma FixedKey_inject: "EncodeFixed64 a = EncodeFixed64 b \<longleftrightarrow> a = b"
  by (metis DecodeFixed64_EncodeFixed64)

text \<open>A table of the catalogue is found, and what is put in the cache is right.\<close>

lemma FindTable_ok:
  assumes inv: "sharded_state p cache ext" and ag: "agrees (sharded_holds cache) (right_table sn tc cat)" and al: "allocates (tc_alloc tc)"
    and cat: "cat number = Some (es, blks, ikvs)" and r: "OpenTableFile tc number = (Status_OK, Some r)"
    and t: "table_of sn (tc_options tc) r es blks ikvs"
    and n: "file_size = of_nat (length (table_bytes sn (tc_options tc) blks ikvs))"
  shows "\<exists>h cache' tf ext'. FindTable sn tc number file_size cache = Some (Status_OK, Some h, cache') \<and>
    Sharded_Value h cache' = Some tf \<and> opened sn (tc_options tc) r blks ikvs (tf_table tf) \<and>
    agrees (sharded_holds cache') (right_table sn tc cat) \<and> sharded_state p cache' ext' \<and> 0 < ext' (sharded_entry h)"
proof -
  let ?k = "EncodeFixed64 number" and ?I = "right_table sn tc cat"
  have I: "?I ?k tf \<longleftrightarrow> opened sn (tc_options tc) r blks ikvs (tf_table tf)" for tf
    using cat r by (auto simp: right_table_def FixedKey_inject)
  obtain h c1 where l: "Sharded_Lookup ?k cache = Some (h, c1)" "agrees (sharded_holds c1) ?I"
      "case h of None \<Rightarrow> sharded_state p c1 ext
       | Some h \<Rightarrow> \<exists>v. Sharded_Value h c1 = Some v \<and> ?I ?k v \<and> sharded_state p c1 (ext(sharded_entry h := ext (sharded_entry h) + 1))"
    using sharded.lookup_agrees [OF inv ag] by blast
  show ?thesis
  proof (cases h)
    case (Some a)
    then obtain tf where "Sharded_Value a c1 = Some tf" "?I ?k tf" "sharded_state p c1 (ext(sharded_entry a := ext (sharded_entry a) + 1))"
      using l(3) by auto
    moreover have "FindTable sn tc number file_size cache = Some (Status_OK, Some a, c1)" using l(1) Some by (simp add: FindTable_def)
    ultimately show ?thesis using l(2) I by (metis fun_upd_same zero_less_Suc add.commute plus_1_eq_Suc)
  next
    case None
    note T = table_ofD [OF t]
    obtain tb where tb: "Table_Open sn (tc_options tc) r file_size 0 = Some (Status_OK, Some tb)" "opened sn (tc_options tc) r blks ikvs tb"
      using random_file.Table_Open_ok [OF T(1,2) TrueI refl, of 0] n by auto
    let ?tf = "\<lparr>tf_file = r, tf_table = tb\<rparr>"
    have s1: "sharded_state p c1 ext" using l(3) None by simp
    have fresh: "sharded_fresh (tc_alloc tc ?k c1) ?k c1" using al s1 by (auto simp: allocates_def)
    obtain a c2 where i: "Sharded_Insert (tc_alloc tc ?k c1) ?k ?tf 1 c1 = Some (a, c2)" "Sharded_Value a c2 = Some ?tf"
        "agrees (sharded_holds c2) ?I" "sharded_state p c2 (ext(sharded_entry a := 1))"
      using sharded.insert_agrees [OF s1 l(2) fresh, of ?tf 1] I tb(2) by auto
    have "FindTable sn tc number file_size cache = Some (Status_OK, Some a, c2)"
      using l(1) None r tb(1) i(1) by (simp add: FindTable_def Status_ok_iff)
    with i tb(2) show ?thesis by (intro exI [of _ a] exI [of _ c2] exI [of _ ?tf] exI [of _ "ext(sharded_entry a := 1)"]) simp
  qed
qed

text \<open>The lookup of a key, and the release of the table.\<close>

lemma table_answers:
  assumes o: "db_options bloom_bits opts" and t: "table_of sn opts r es blks ikvs" and snap: "snap \<le> kMaxSequenceNumber"
  shows "answers BytewiseComparator es uk snap (lookup_result sn opts blks ikvs (seek_key uk snap))"
proof -
  note T = table_ofD [OF t]
  let ?r = "lookup_result sn opts blks ikvs (seek_key uk snap)"
  have k: "LookupKey_internal_key (LookupKey_make uk snap) = seek_key uk snap" by (simp add: LookupKey_internal_key_make seek_key_def)
  have "key_valid (fst kv)" if "?r = Some kv" for kv
  proof -
    have "kv \<in> set (map entry_kv es)" using lookup_sound [OF T(2) that] unfolding T(3) by (metis nth_mem)
    then show ?thesis using T(4) entry_parse by (auto simp: key_valid_def entry_kv_def Memtable.entry_ok_def)
  qed
  then show ?thesis
    using table_lookup_newest [OF o T(2-5) snap, of uk, unfolded k]
    by (auto simp: answers_def lookup_newest_def entry_pair_def entry_kv_def split: option.splits)
qed

lemma TableCache_Get_ok:
  assumes "tables_ok bloom_bits sn tc cat cache" "stored_table sn tc cat number file_size es" "snap \<le> kMaxSequenceNumber"
  shows "\<exists>result cache'. TableCache_Get sn tc ro cache number file_size (seek_key uk snap) = Some ((Status_OK, result), cache') \<and>
    tables_ok bloom_bits sn tc cat cache' \<and> answers BytewiseComparator es uk snap result"
proof -
  obtain p ext where c: "db_options bloom_bits (tc_options tc)" "allocates (tc_alloc tc)" "sharded_state p cache ext"
      "agrees (sharded_holds cache) (right_table sn tc cat)"
    using assms(1) by (auto simp: tables_ok_def)
  obtain r blks ikvs where t: "cat number = Some (es, blks, ikvs)" "OpenTableFile tc number = (Status_OK, Some r)"
      "table_of sn (tc_options tc) r es blks ikvs" "file_size = of_nat (length (table_bytes sn (tc_options tc) blks ikvs))"
    using assms(2) by (auto simp: stored_table_def)
  obtain h c1 tf ext1 where f: "FindTable sn tc number file_size cache = Some (Status_OK, Some h, c1)" "Sharded_Value h c1 = Some tf"
      "opened sn (tc_options tc) r blks ikvs (tf_table tf)" "agrees (sharded_holds c1) (right_table sn tc cat)"
      "sharded_state p c1 ext1" "0 < ext1 (sharded_entry h)"
    using FindTable_ok [OF c(3,4,2) t] by blast
  note T = table_ofD [OF t(3)]
  have g: "InternalGet sn (tf_table tf) ro k = Some (Status_OK, lookup_result sn (tc_options tc) blks ikvs k)" for k
    using random_file.InternalGet_ok [OF T(1,2) _ _ f(3)] by simp
  obtain c2 where c2: "Sharded_Release h c1 = Some c2" "sharded_holds c2 = sharded_holds c1"
      "sharded_state p c2 (ext1(sharded_entry h := ext1 (sharded_entry h) - 1))"
    using sharded.release_law [OF f(5,6)] by blast
  have "tables_ok bloom_bits sn tc cat c2" using c(1,2) c2(2,3) f(4) by (auto simp: tables_ok_def agrees_def)
  then show ?thesis using f(1,2) g c2(1) table_answers [OF c(1) t(3) assms(3)] by (simp add: TableCache_Get_def Status_ok_iff)
qed

text \<open>The table cache is a store of tables for lookups through the levels.\<close>

interpretation table_cache: table_store BytewiseComparator "TableCache_Get sn tc ro" "tables_ok bloom_bits sn tc cat" "stored_table sn tc cat"
  for sn tc ro bloom_bits cat
  by unfold_locales (rule TableCache_Get_ok)

text \<open>Iterators: over a table of the catalogue there is one with the contract of sorted sequences.\<close>

lemma TableCache_NewIterator_ok:
  assumes "tables_ok bloom_bits sn tc cat cache" "stored_table sn tc cat number file_size es"
  shows "\<exists>t i h cache' pos. TableCache_NewIterator sn tc number file_size cache = Some (Inr (t, i, h), cache') \<and>
    tables_ok bloom_bits sn tc cat cache' \<and> pos i (length es) \<and>
    ordered_iterator (TableIterator sn t ro) (InternalKeyComparator_Compare BytewiseComparator) (map entry_pair es) pos"
proof -
  obtain p ext where c: "db_options bloom_bits (tc_options tc)" "allocates (tc_alloc tc)" "sharded_state p cache ext"
      "agrees (sharded_holds cache) (right_table sn tc cat)"
    using assms(1) by (auto simp: tables_ok_def)
  obtain r blks ikvs where t: "cat number = Some (es, blks, ikvs)" "OpenTableFile tc number = (Status_OK, Some r)"
      "table_of sn (tc_options tc) r es blks ikvs" "file_size = of_nat (length (table_bytes sn (tc_options tc) blks ikvs))"
    using assms(2) by (auto simp: stored_table_def)
  obtain h c1 tf ext1 where f: "FindTable sn tc number file_size cache = Some (Status_OK, Some h, c1)" "Sharded_Value h c1 = Some tf"
      "opened sn (tc_options tc) r blks ikvs (tf_table tf)" "agrees (sharded_holds c1) (right_table sn tc cat)" "sharded_state p c1 ext1"
    using FindTable_ok [OF c(3,4,2) t] by blast
  note T = table_ofD [OF t(3)]
  have m: "map entry_kv es = map entry_pair es" by (simp add: entry_kv_def entry_pair_def)
  have k: "Compare (opt_comparator (tc_options tc)) = InternalKeyComparator_Compare BytewiseComparator" using c(1) by (simp add: db_options_def)
  note it = random_file.table_iterator [OF T(1,2) TrueI refl f(3), unfolded T(3) m k length_map]
  have "tables_ok bloom_bits sn tc cat c1" using c(1,2) f(4,5) by (auto simp: tables_ok_def)
  moreover have "TableCache_NewIterator sn tc number file_size cache = Some (Inr (tf_table tf, Table_NewIterator (tf_table tf), h), c1)"
    using f(1,2) by (simp add: TableCache_NewIterator_def Status_ok_iff)
  ultimately show ?thesis using it by blast
qed

text \<open>A file that cannot be opened gives its error, and nothing is cached.\<close>

lemma FindTable_error:
  assumes "sharded_state p cache ext" "sharded_holds cache (EncodeFixed64 number) = None"
    and "OpenTableFile tc number = (s, file)" "\<not> Status_ok s"
  shows "\<exists>cache'. FindTable sn tc number file_size cache = Some (s, None, cache') \<and> sharded_holds cache' = sharded_holds cache \<and>
    sharded_state p cache' ext"
proof -
  obtain r c1 where l: "Sharded_Lookup (EncodeFixed64 number) cache = Some (r, c1)" "sharded_holds c1 = sharded_holds cache"
      "case r of None \<Rightarrow> sharded_holds cache (EncodeFixed64 number) = None \<and> sharded_state p c1 ext
       | Some h \<Rightarrow> \<exists>v. sharded_holds cache (EncodeFixed64 number) = Some v \<and> Sharded_Value h c1 = Some v \<and>
           sharded_state p c1 (ext(sharded_entry h := ext (sharded_entry h) + 1))"
    using sharded.lookup_law [OF assms(1)] by blast
  then have "r = None" using assms(2) by (cases r) auto
  then show ?thesis using l assms(3,4) by (simp add: FindTable_def)
qed

text \<open>After an eviction the next lookup of the file opens it anew.\<close>

lemma Evict_ok:
  assumes "sharded_state p cache ext"
  shows "\<exists>cache'. Evict number cache = Some cache' \<and> sharded_state p cache' ext \<and>
    sharded_holds cache' = (sharded_holds cache)(EncodeFixed64 number := None)"
proof -
  let ?k = "EncodeFixed64 number"
  let ?h = "HashSlice ?k"
  let ?s = "sc_shard cache ! Shard ?h"
  obtain ins lru use where s: "cache_reach p ?s (curry ext (Shard ?h)) ins" "reach_inv p ?s (curry ext (Shard ?h)) ins lru use"
      "Shard ?h < length (sc_shard cache)"
    using sharded_state_shard [OF assms] by blast
  obtain s' where e: "LRUCache_Erase ?k ?h ?s = Some s'"
      "\<And>k' h'. cval s' k' h' = (if (k', h') = (?k, ?h) then None else cval ?s k' h')"
    using cval_erase [OF s(2)] by blast
  let ?c = "cache\<lparr>sc_shard := (sc_shard cache)[Shard ?h := s']\<rparr>"
  have "sharded_holds ?c = (sharded_holds cache)(?k := None)"
  proof
    fix k'
    show "sharded_holds ?c k' = ((sharded_holds cache)(?k := None)) k'"
      using e(2) [of k' "HashSlice k'"] s(3)
      by (cases "Shard (HashSlice k') = Shard ?h") (auto simp: sharded_holds_def nth_list_update)
  qed
  moreover have "sharded_state p ?c ext" by (rule sharded_state_same [OF assms cache_reach.erase [OF s(1) e(1)]])
  ultimately show ?thesis using e(1) by (simp add: Evict_def Sharded_Erase_def Let_def)
qed

section \<open>Reading the levels\<close>

text \<open>
  C16.  A version of tables, each level newer than those below it, answers like an abstract store: the
  search through the files that may hold a key, in level zero from the newest file and below it at most one file of each level, ends; it gives the value of the
  newest entry of the key that the snapshot sees among all entries of all files; not found if there is none or it is a deletion.  This holds with
  any state of the table cache, whose entries stay right, and with or without a Bloom filter.
\<close>

theorem version_get:
  assumes "version_ok BytewiseComparator fm contents v" "snap \<le> kMaxSequenceNumber" "tables_ok bloom_bits sn tc cat cache"
    and "\<forall>files\<in>set (v_files v). \<forall>f\<in>set files. stored_table sn tc cat (fm_number (fm f)) (fm_file_size (fm f)) (contents f)"
  shows "\<exists>stats cache'. tables_ok bloom_bits sn tc cat cache' \<and>
    Version_Get BytewiseComparator fm (TableCache_Get sn tc ro) v (LookupKey_make uk snap) value cache =
      Some (case newest (filter (visible BytewiseComparator uk snap) (version_entries contents v)) of
              None \<Rightarrow> (Status_NotFound [] [], value, stats, cache')
            | Some e \<Rightarrow> (case e_type e of
                  kTypeValue \<Rightarrow> (Status_OK, e_value e, stats, cache')
                | kTypeDeletion \<Rightarrow> (Status_NotFound [] [], value, stats, cache')))"
  using table_cache.Version_Get_ok [OF bytewise.three_way_axioms assms(1,2) _ assms(3)] assms(4)
  unfolding lookup_newest_def by blast

text \<open>A cache of the code always has room at some address.\<close>

definition least_alloc :: "bytes \<Rightarrow> table_lru \<Rightarrow> nat" where
  "least_alloc k cache = (LEAST a. sharded_fresh a k cache)"

lemma least_alloc_ok: "allocates least_alloc"
  unfolding allocates_def
proof (intro allI impI)
  fix p k and cache :: table_lru and ext
  assume "sharded_state p cache ext"
  then obtain ins lru use where "reach_inv p (sc_shard cache ! Shard (HashSlice k)) (curry ext (Shard (HashSlice k))) ins lru use"
    using sharded_state_shard by blast
  then have "finite (dom (lc_heap (sc_shard cache ! Shard (HashSlice k))))" using inv_finite by (auto simp: reach_inv_def)
  then obtain a where "a \<notin> dom (lc_heap (sc_shard cache ! Shard (HashSlice k)))" using ex_new_if_finite [OF infinite_UNIV_nat] by blast
  then have "sharded_fresh a k cache" by (auto simp: sharded_fresh_def)
  then show "sharded_fresh (least_alloc k cache) k cache" unfolding least_alloc_def by (rule LeastI)
qed

text \<open>A table of one entry.\<close>

definition one_options :: Options where
  "one_options = small_options\<lparr>opt_comparator := InternalKeyComparator BytewiseComparator\<rparr>"

lemma one_options_db: "db_options None one_options"
  by (simp add: one_options_def db_options_def small_options_def)

lemma one_entry_table:
  assumes e: "Memtable.entry_ok e" "length (e_key e) + length (e_value e) \<le> 500"
  shows "\<exists>r blks ikvs. build_table no_snappy PosixWritable one_options [entry_kv e] new_file = (Status_OK, r) \<and>
    table_of no_snappy one_options (PosixMmapReadableFile_Read \<lparr>pm_filename = [], pm_data = pw_contents (tb_file r)\<rparr>) [e] blks ikvs \<and>
    FileSize r = of_nat (length (table_bytes no_snappy one_options blks ikvs))"
proof -
  have f: "opt_filter_policy one_options = None" by (simp add: one_options_def small_options_def)
  have "pairs_size [entry_kv e] \<le> 1000" using e(2) by (simp add: entry_kv_def entry_internal_def AppendInternalKey_eq)
  moreover have "ascending (Compare (opt_comparator one_options)) [entry_kv e]" by (simp add: ascending_def)
  ultimately obtain r blks ikvs where r: "build_table no_snappy PosixWritable one_options [entry_kv e] new_file = (Status_OK, r)"
      "table_blocks no_snappy one_options blks ikvs" "concat blks = [entry_kv e]"
      "pw_contents (tb_file r) = table_bytes no_snappy one_options blks ikvs" "length (pw_contents (tb_file r)) \<le> 3100"
      "FileSize r = of_nat (length (pw_contents (tb_file r)))"
    using quiet_table [OF db_options_params [OF one_options_db no_snappy.compression_axioms] f] by blast
  have "reads (PosixMmapReadableFile_Read \<lparr>pm_filename = [], pm_data = pw_contents (tb_file r)\<rparr>) (table_bytes no_snappy one_options blks ikvs)"
    using posix_reads(2) [of "\<lparr>pm_filename = [], pm_data = pw_contents (tb_file r)\<rparr>"] r(4,5) by simp
  then have "table_of no_snappy one_options (PosixMmapReadableFile_Read \<lparr>pm_filename = [], pm_data = pw_contents (tb_file r)\<rparr>) [e] blks ikvs"
    using r(2,3) e(1) by (simp add: table_of_def distinct_entries_def)
  then show ?thesis using r(1,4,6) by auto
qed

definition one_file :: "u64 \<Rightarrow> u64 \<Rightarrow> Entry \<Rightarrow> FileMetaData" where
  "one_file number file_size e =
     \<lparr>fm_refs = 1, fm_allowed_seeks = 100, fm_number = number, fm_file_size = file_size,
      fm_smallest = \<lparr>ik_rep = entry_internal e\<rparr>, fm_largest = \<lparr>ik_rep = entry_internal e\<rparr>\<rparr>"

definition old_entry :: Entry where
  "old_entry = \<lparr>e_seq = 1, e_type = kTypeValue, e_key = [97], e_value = [5]\<rparr>"

definition new_entry :: Entry where
  "new_entry = \<lparr>e_seq = 2, e_type = kTypeDeletion, e_key = [97], e_value = []\<rparr>"

lemma two_entries: "Memtable.entry_ok old_entry" "Memtable.entry_ok new_entry"
  "length (e_key old_entry) + length (e_value old_entry) \<le> 500" "length (e_key new_entry) + length (e_value new_entry) \<le> 500"
  by (simp_all add: old_entry_def new_entry_def Memtable.entry_ok_def kMaxSequenceNumber_eq)

lemma table_names_differ: "TableFileName [] 7 \<noteq> TableFileName [] 9" "SSTTableFileName [] 7 \<noteq> TableFileName [] 9"
  "SSTTableFileName [] 7 \<noteq> TableFileName [] 7"
  by code_simp+

lemma two_files_version:
  "version_ok BytewiseComparator (\<lambda>f. f) (\<lambda>f. if fm_number f = 9 then [new_entry] else [old_entry])
     (Version_make\<lparr>v_files := [[one_file 9 n new_entry], [], [one_file 7 m old_entry], [], [], [], []]\<rparr>)"
proof -
  let ?v = "Version_make\<lparr>v_files := [[one_file 9 n new_entry], [], [one_file 7 m old_entry], [], [], [], []]\<rparr>"
  let ?c = "\<lambda>f. if fm_number f = 9 then [new_entry] else [old_entry]"
  have e: "entries_ok BytewiseComparator [new_entry]" "entries_ok BytewiseComparator [old_entry]" "entries_ok BytewiseComparator []"
    by (simp_all add: entries_ok_def new_entry_def old_entry_def kMaxSequenceNumber_eq)
  have "\<forall>files\<in>set (v_files ?v). entries_ok BytewiseComparator (level_entries ?c files)"
    using e by (simp add: level_entries_def one_file_def)
  then have lv: "entries_ok BytewiseComparator (level_entries ?c (v_files ?v ! level))" if "level < kNumLevels" for level
    by (rule bspec) (rule nth_mem, use that in \<open>simp add: kNumLevels_def\<close>)
  have num: "fm_number (one_file k l e) = k" for k l e by (simp add: one_file_def)
  have "file_holds BytewiseComparator (one_file 9 n new_entry) [new_entry]" "file_holds BytewiseComparator (one_file 7 m old_entry) [old_entry]"
    using e by (simp_all add: file_holds_def one_file_def)
  then have holds: "\<forall>files\<in>set (v_files ?v). \<forall>f\<in>set files. file_holds BytewiseComparator f (?c f)" by (simp add: num)
  have "newer_than BytewiseComparator [new_entry] [old_entry]" by (simp add: newer_than_def new_entry_def old_entry_def)
  moreover have "newer_than c xs []" "newer_than c [] xs" for c xs by (simp_all add: newer_than_def)
  ultimately have "sorted_wrt (newer_than BytewiseComparator) (map (level_entries ?c) (v_files ?v))" by (simp add: level_entries_def num)
  then show ?thesis unfolding version_ok_def
    by (intro conjI holds) (assumption | use lv in blast | simp add: kNumLevels_def)+
qed

text \<open>
  A deletion in level zero over a value in level two, in a file with an old name: the lookup sees the value at the first sequence
  number, not at the second.
\<close>

theorem version_get_witness:
  "\<exists>tc r1 r2 stats cache stats' cache'.
     build_table no_snappy PosixWritable one_options [entry_kv new_entry] new_file = (Status_OK, r1) \<and>
     build_table no_snappy PosixWritable one_options [entry_kv old_entry] new_file = (Status_OK, r2) \<and>
     (let v = Version_make\<lparr>v_files := [[one_file 9 (FileSize r1) new_entry], [], [one_file 7 (FileSize r2) old_entry], [], [], [], []]\<rparr>;
          g = Version_Get BytewiseComparator (\<lambda>f. f) (TableCache_Get no_snappy tc \<lparr>ro_verify_checksums = False, ro_fill_cache = True\<rparr>) v
      in g (LookupKey_make [97] 1) [] (ShardedLRUCache_make 990) = Some (Status_OK, [5], stats, cache) \<and>
         g (LookupKey_make [97] 2) [] cache = Some (Status_NotFound [] [], [], stats', cache'))"
proof -
  obtain r1 b1 i1 where 1: "build_table no_snappy PosixWritable one_options [entry_kv new_entry] new_file = (Status_OK, r1)"
      "table_of no_snappy one_options (PosixMmapReadableFile_Read \<lparr>pm_filename = [], pm_data = pw_contents (tb_file r1)\<rparr>) [new_entry] b1 i1"
      "FileSize r1 = of_nat (length (table_bytes no_snappy one_options b1 i1))"
    using one_entry_table [OF two_entries(2,4)] by blast
  obtain r2 b2 i2 where 2: "build_table no_snappy PosixWritable one_options [entry_kv old_entry] new_file = (Status_OK, r2)"
      "table_of no_snappy one_options (PosixMmapReadableFile_Read \<lparr>pm_filename = [], pm_data = pw_contents (tb_file r2)\<rparr>) [old_entry] b2 i2"
      "FileSize r2 = of_nat (length (table_bytes no_snappy one_options b2 i2))"
    using one_entry_table [OF two_entries(1,3)] by blast
  let ?f = "\<lambda>r. PosixMmapReadableFile_Read \<lparr>pm_filename = [], pm_data = pw_contents (tb_file r)\<rparr>"
  define tc where "tc = \<lparr>tc_env = (\<lambda>name. if name = TableFileName [] 9 then (Status_OK, Some (?f r1))
      else if name = SSTTableFileName [] 7 then (Status_OK, Some (?f r2)) else (Status_IOError [] [], None)),
    tc_dbname = [], tc_options = one_options, tc_alloc = least_alloc\<rparr>"
  define cat :: catalogue where "cat = [9 \<mapsto> ([new_entry], b1, i1), 7 \<mapsto> ([old_entry], b2, i2)]"
  define v where "v = Version_make\<lparr>v_files := [[one_file 9 (FileSize r1) new_entry], [], [one_file 7 (FileSize r2) old_entry], [], [], [], []]\<rparr>"
  let ?c = "\<lambda>f. if fm_number f = 9 then [new_entry] else [old_entry]"
  have files: "OpenTableFile tc 9 = (Status_OK, Some (?f r1))" "OpenTableFile tc 7 = (Status_OK, Some (?f r2))"
    using table_names_differ by (simp_all add: OpenTableFile_def tc_def Status_ok_def Status_IOError_def Status_make_def Status_OK_def)
  have st: "\<forall>files\<in>set (v_files v). \<forall>f\<in>set files. stored_table no_snappy tc cat (fm_number f) (fm_file_size f) (?c f)"
    using files 1 2 by (simp add: v_def Version_make_def one_file_def stored_table_def cat_def tc_def)
  have p: "0 < (990 + 15 :: u64) div 16" by simp
  have t0: "tables_ok None no_snappy tc cat (ShardedLRUCache_make 990)"
    unfolding tables_ok_def agrees_def sharded_state_make(2) [OF refl p]
    using sharded_state_make(1) [OF refl p] one_options_db least_alloc_ok by (auto simp: tc_def)
  have m: "(1 :: u64) \<le> kMaxSequenceNumber" "(2 :: u64) \<le> kMaxSequenceNumber" by (simp_all add: kMaxSequenceNumber_eq)
  note g = version_get [OF two_files_version [of "FileSize r1" "FileSize r2", folded v_def] _ _ st,
      of _ None _ "\<lparr>ro_verify_checksums = False, ro_fill_cache = True\<rparr>" "[97]" "[]"]
  have n: "newest (filter (visible BytewiseComparator [97] 1) (version_entries ?c v)) = Some old_entry"
    "newest (filter (visible BytewiseComparator [97] 2) (version_entries ?c v)) = Some new_entry"
    by (simp_all add: version_entries_def level_entries_def v_def Version_make_def one_file_def visible_def newest_def newer_def
        old_entry_def new_entry_def word_le_nat_alt)
  obtain stats cache where c1: "tables_ok None no_snappy tc cat cache"
      "Version_Get BytewiseComparator (\<lambda>f. f) (TableCache_Get no_snappy tc \<lparr>ro_verify_checksums = False, ro_fill_cache = True\<rparr>) v
         (LookupKey_make [97] 1) [] (ShardedLRUCache_make 990) = Some (Status_OK, [5], stats, cache)"
    using g [OF m(1) t0, unfolded n] by (auto simp: old_entry_def)
  obtain stats' cache' where "Version_Get BytewiseComparator (\<lambda>f. f) (TableCache_Get no_snappy tc \<lparr>ro_verify_checksums = False, ro_fill_cache = True\<rparr>) v
         (LookupKey_make [97] 2) [] cache = Some (Status_NotFound [] [], [], stats', cache')"
    using g [OF m(2) c1(1), unfolded n] by (auto simp: new_entry_def)
  with 1(1) 2(1) c1(2) show ?thesis unfolding Let_def v_def by blast
qed

end
