(* ===== verification/Compaction_Work.thy ===== *)
theory Compaction_Work
  imports Compaction Table_Cache
begin

text \<open>
  The merge of a compaction in \<^verbatim>\<open>db/db_impl.cc\<close>: which entries are dropped, how the rest is cut into output files,
  and that no reader can tell the difference.
\<close>

section \<open>Dropping entries\<close>

record DropState =
  ds_current_user_key :: bytes
  ds_has_current_user_key :: bool
  ds_last_sequence_for_key :: SequenceNumber

definition DropState_make :: DropState where
  "DropState_make = \<lparr>ds_current_user_key = [], ds_has_current_user_key = False, ds_last_sequence_for_key = kMaxSequenceNumber\<rparr>"

definition drop_key ::
    "Comparator \<Rightarrow> ('f \<Rightarrow> FileMetaData) \<Rightarrow> SequenceNumber \<Rightarrow> bytes \<Rightarrow> DropState \<Rightarrow> 'f Compaction \<Rightarrow>
     (bool \<times> DropState \<times> 'f Compaction) option" where
  "drop_key c fm smallest_snapshot key ds cpt =
     (case ParseInternalKey key of
        None \<Rightarrow> Some (False, DropState_make, cpt)
      | Some ikey \<Rightarrow>
          (let ds = (if \<not> ds_has_current_user_key ds \<or> Compare c (pk_user_key ikey) (ds_current_user_key ds) \<noteq> 0
                     then \<lparr>ds_current_user_key = pk_user_key ikey, ds_has_current_user_key = True,
                           ds_last_sequence_for_key = kMaxSequenceNumber\<rparr>
                     else ds)
           in do {
             (drop, cpt) \<leftarrow>
               (if ds_last_sequence_for_key ds \<le> smallest_snapshot then Some (True, cpt)
                else if pk_type ikey = kTypeDeletion \<and> pk_sequence ikey \<le> smallest_snapshot
                then IsBaseLevelForKey c fm (pk_user_key ikey) cpt
                else Some (False, cpt));
             Some (drop, ds\<lparr>ds_last_sequence_for_key := pk_sequence ikey\<rparr>, cpt)
           }))"

section \<open>Output files\<close>

record Output =
  out_number :: u64
  out_file_size :: u64
  out_smallest :: InternalKey
  out_largest :: InternalKey

text \<open>
  The environment and the table cache as far as the merge uses them: creating a table file, the operations of a file, and the
  status of an iterator over a finished file.
\<close>

record 'w CompactionEnv =
  ce_NewWritableFile :: "u64 \<Rightarrow> Status \<times> 'w"
  ce_file :: "'w WritableFile"
  ce_Sync :: "'w \<Rightarrow> Status \<times> 'w"
  ce_Close :: "'w \<Rightarrow> Status \<times> 'w"
  ce_table_status :: "u64 \<Rightarrow> u64 \<Rightarrow> 'w \<Rightarrow> Status"

text \<open>
  The state of the compaction, with the counter of file numbers and the set of pending outputs of the database; the builder
  holds the output file.  \<open>cs_files\<close> are the files that were closed, under their numbers.
\<close>

record ('f, 'w) CompactionState =
  cs_compaction :: "'f Compaction"
  cs_smallest_snapshot :: SequenceNumber
  cs_outputs :: "Output list"
  cs_builder :: "'w TableBuilder option"
  cs_total_bytes :: u64
  cs_next_file_number :: u64
  cs_pending_outputs :: "u64 list"
  cs_files :: "(u64 \<times> 'w) list"

definition CompactionState_make :: "'f Compaction \<Rightarrow> u64 \<Rightarrow> u64 list \<Rightarrow> ('f, 'w) CompactionState" where
  "CompactionState_make cpt next_file_number pending =
     \<lparr>cs_compaction = cpt, cs_smallest_snapshot = 0, cs_outputs = [], cs_builder = None, cs_total_bytes = 0,
      cs_next_file_number = next_file_number, cs_pending_outputs = pending, cs_files = []\<rparr>"

definition OpenCompactionOutputFile ::
    "'w CompactionEnv \<Rightarrow> Options \<Rightarrow> ('f, 'w) CompactionState \<Rightarrow> Status \<times> ('f, 'w) CompactionState" where
  "OpenCompactionOutputFile ce options st =
     (let file_number = cs_next_file_number st;
          st = st\<lparr>cs_next_file_number := file_number + 1, cs_pending_outputs := file_number # cs_pending_outputs st,
                 cs_outputs := cs_outputs st @
                   [\<lparr>out_number = file_number, out_file_size = 0, out_smallest = InternalKey_Clear \<lparr>ik_rep = []\<rparr>,
                     out_largest = InternalKey_Clear \<lparr>ik_rep = []\<rparr>\<rparr>]\<rparr>;
          (s, outfile) = ce_NewWritableFile ce file_number
      in if Status_ok s then (s, st\<lparr>cs_builder := Some (TableBuilder_make options outfile)\<rparr>) else (s, st))"

text \<open>\<open>None\<close>: there is no output, or no builder.\<close>

definition update_current_output ::
    "(Output \<Rightarrow> Output) \<Rightarrow> ('f, 'w) CompactionState \<Rightarrow> ('f, 'w) CompactionState option" where
  "update_current_output g st =
     (if cs_outputs st = [] then None
      else Some (st\<lparr>cs_outputs := butlast (cs_outputs st) @ [g (last (cs_outputs st))]\<rparr>))"

definition FinishCompactionOutputFile ::
    "Snappy \<Rightarrow> 'w CompactionEnv \<Rightarrow> Status \<Rightarrow> ('f, 'w) CompactionState \<Rightarrow> (Status \<times> ('f, 'w) CompactionState) option" where
  "FinishCompactionOutputFile sn ce input_status st =
     do {
       b \<leftarrow> cs_builder st;
       let current_entries = NumEntries b;
       let (s, b) = (if Status_ok input_status then TableBuilder_Finish sn (ce_file ce) b else (input_status, Abandon b));
       let current_bytes = FileSize b;
       st \<leftarrow> update_current_output (\<lambda>out. out\<lparr>out_file_size := current_bytes\<rparr>) st;
       let output_number = out_number (last (cs_outputs st));
       let st = st\<lparr>cs_total_bytes := cs_total_bytes st + current_bytes, cs_builder := None\<rparr>;
       let (s, f) = (if Status_ok s then ce_Sync ce (tb_file b) else (s, tb_file b));
       let (s, f) = (if Status_ok s then ce_Close ce f else (s, f));
       let st = st\<lparr>cs_files := cs_files st @ [(output_number, f)]\<rparr>;
       Some (if Status_ok s \<and> current_entries > 0 then ce_table_status ce output_number current_bytes f else s, st)
     }"

section \<open>The loop\<close>

text \<open>Adding a pair to the current output, which is opened if necessary and closed if it is big enough.\<close>

definition add_output ::
    "Snappy \<Rightarrow> 'w CompactionEnv \<Rightarrow> Options \<Rightarrow> Status \<Rightarrow> bytes \<Rightarrow> bytes \<Rightarrow> ('f, 'w) CompactionState \<Rightarrow>
     (Status \<times> ('f, 'w) CompactionState) option" where
  "add_output sn ce options input_status key value st =
     (let (s, st) = (if cs_builder st = None then OpenCompactionOutputFile ce options st else (Status_OK, st)) in
      if \<not> Status_ok s then Some (s, st)
      else do {
        b \<leftarrow> cs_builder st;
        st \<leftarrow> (if NumEntries b = 0 then update_current_output (\<lambda>out. out\<lparr>out_smallest := snd (InternalKey_DecodeFrom key)\<rparr>) st else Some st);
        st \<leftarrow> update_current_output (\<lambda>out. out\<lparr>out_largest := snd (InternalKey_DecodeFrom key)\<rparr>) st;
        let b = TableBuilder_Add sn (ce_file ce) key value b;
        let st = st\<lparr>cs_builder := Some b\<rparr>;
        if FileSize b \<ge> c_max_output_file_size (cs_compaction st)
        then FinishCompactionOutputFile sn ce input_status st
        else Some (Status_OK, st)
      })"

definition compact_entry ::
    "Snappy \<Rightarrow> 'w CompactionEnv \<Rightarrow> Options \<Rightarrow> Comparator \<Rightarrow> ('f \<Rightarrow> FileMetaData) \<Rightarrow> u64 \<Rightarrow> Status \<Rightarrow> bytes \<Rightarrow> bytes \<Rightarrow>
     DropState \<Rightarrow> ('f, 'w) CompactionState \<Rightarrow> (Status \<times> DropState \<times> ('f, 'w) CompactionState) option" where
  "compact_entry sn ce options c fm max_file_size input_status key value ds st =
     (let (stop, cpt) = ShouldStopBefore c fm max_file_size key (cs_compaction st);
          st = st\<lparr>cs_compaction := cpt\<rparr>
      in do {
        (s, st) \<leftarrow> (if stop \<and> cs_builder st \<noteq> None then FinishCompactionOutputFile sn ce input_status st else Some (Status_OK, st));
        if \<not> Status_ok s then Some (s, ds, st)
        else do {
          (drop, ds, cpt) \<leftarrow> drop_key c fm (cs_smallest_snapshot st) key ds (cs_compaction st);
          let st = st\<lparr>cs_compaction := cpt\<rparr>;
          (s, st) \<leftarrow> (if drop then Some (Status_OK, st) else add_output sn ce options input_status key value st);
          Some (s, ds, st)
        }
      })"

text \<open>
  \<open>shutting_down n\<close> is the value of the flag in the \<open>n\<close>-th round of the loop; after the loop it is read once more, in a round of its own.  The flush of a full memtable between two entries
  is a step of the database and does not touch the state of the merge.
\<close>

partial_function (option) compact_loop ::
    "Snappy \<Rightarrow> 'w CompactionEnv \<Rightarrow> Options \<Rightarrow> Comparator \<Rightarrow> ('f \<Rightarrow> FileMetaData) \<Rightarrow> u64 \<Rightarrow> 'i Iterator \<Rightarrow> (nat \<Rightarrow> bool) \<Rightarrow> nat \<Rightarrow>
     'i \<Rightarrow> DropState \<Rightarrow> ('f, 'w) CompactionState \<Rightarrow> (Status \<times> 'i \<times> nat \<times> ('f, 'w) CompactionState) option" where
  "compact_loop sn ce options c fm max_file_size it shutting_down n input ds st =
     (if it_Valid it input \<and> \<not> shutting_down n then do {
        (s, ds, st) \<leftarrow> compact_entry sn ce options c fm max_file_size (it_status it input) (it_key it input) (it_value it input) ds st;
        if \<not> Status_ok s then Some (s, input, n, st)
        else do {
          input \<leftarrow> it_Next it input;
          compact_loop sn ce options c fm max_file_size it shutting_down (Suc n) input ds st
        }
      }
      else Some (Status_OK, input, n, st))"

text \<open>\<^verbatim>\<open>DoCompactionWork\<close> up to the installation of the results; \<open>oldest_snapshot\<close> is the oldest snapshot, if there is any.\<close>

definition DoCompactionWork_merge ::
    "Snappy \<Rightarrow> 'w CompactionEnv \<Rightarrow> Options \<Rightarrow> Comparator \<Rightarrow> ('f \<Rightarrow> FileMetaData) \<Rightarrow> u64 \<Rightarrow> 'i Iterator \<Rightarrow> (nat \<Rightarrow> bool) \<Rightarrow>
     SequenceNumber option \<Rightarrow> SequenceNumber \<Rightarrow> 'i \<Rightarrow> ('f, 'w) CompactionState \<Rightarrow> (Status \<times> ('f, 'w) CompactionState) option" where
  "DoCompactionWork_merge sn ce options c fm max_file_size it shutting_down oldest_snapshot last_sequence input st =
     (let st = st\<lparr>cs_smallest_snapshot := (case oldest_snapshot of None \<Rightarrow> last_sequence | Some s \<Rightarrow> s)\<rparr> in
      do {
        input \<leftarrow> it_SeekToFirst it input;
        (s, input, n, st) \<leftarrow> compact_loop sn ce options c fm max_file_size it shutting_down 0 input DropState_make st;
        let s = (if Status_ok s \<and> shutting_down (Suc n) then Status_IOError (lit ''Deleting DB during compaction'') [] else s);
        (s, st) \<leftarrow> (if Status_ok s \<and> cs_builder st \<noteq> None then FinishCompactionOutputFile sn ce (it_status it input) st else Some (s, st));
        Some (if Status_ok s then it_status it input else s, st)
      })"

text \<open>\<^verbatim>\<open>InstallCompactionResults\<close>: the edit that it gives to the version set.\<close>

definition CompactionEdit :: "('f \<Rightarrow> FileMetaData) \<Rightarrow> ('f, 'w) CompactionState \<Rightarrow> VersionEdit" where
  "CompactionEdit fm st =
     (let cpt = cs_compaction st
      in foldl (\<lambda>e out. AddFile (int (c_level cpt) + 1) (out_number out) (out_file_size out) (out_smallest out) (out_largest out) e)
           (AddInputDeletions fm cpt (c_edit cpt)) (cs_outputs st))"

definition CleanupCompaction :: "('f, 'w) CompactionState \<Rightarrow> u64 list" where
  "CleanupCompaction st = fold (\<lambda>out. removeAll (out_number out)) (cs_outputs st) (cs_pending_outputs st)"

section \<open>What a reader sees\<close>

text \<open>The value that a lookup at a snapshot gives for a set of entries.\<close>

definition seen :: "Comparator \<Rightarrow> bytes \<Rightarrow> SequenceNumber \<Rightarrow> Entry list \<Rightarrow> bytes option" where
  "seen c uk snap es =
     (case lookup_newest c uk snap es of
        None \<Rightarrow> None
      | Some e \<Rightarrow> (case e_type e of kTypeValue \<Rightarrow> Some (e_value e) | kTypeDeletion \<Rightarrow> None))"

text \<open>
  What the merge keeps: an entry is hidden if a newer one of its key is visible at every snapshot that can still be read; a deletion is obsolete if
  there is nothing below that it could hide.
\<close>

definition overwritten :: "Comparator \<Rightarrow> SequenceNumber \<Rightarrow> Entry list \<Rightarrow> Entry \<Rightarrow> bool" where
  "overwritten c smallest es e \<longleftrightarrow>
     (\<exists>e'\<in>set es. Compare c (e_key e') (e_key e) = 0 \<and> e_seq e < e_seq e' \<and> e_seq e' \<le> smallest)"

definition obsolete :: "SequenceNumber \<Rightarrow> (bytes \<Rightarrow> bool) \<Rightarrow> Entry \<Rightarrow> bool" where
  "obsolete smallest base e \<longleftrightarrow> e_type e = kTypeDeletion \<and> e_seq e \<le> smallest \<and> base (e_key e)"

definition compact_entries :: "Comparator \<Rightarrow> SequenceNumber \<Rightarrow> (bytes \<Rightarrow> bool) \<Rightarrow> Entry list \<Rightarrow> Entry list" where
  "compact_entries c smallest base es = filter (\<lambda>e. \<not> overwritten c smallest es e \<and> \<not> obsolete smallest base e) es"

definition unique_entries :: "Comparator \<Rightarrow> Entry list \<Rightarrow> bool" where
  "unique_entries c es \<longleftrightarrow>
     (\<forall>a\<in>set es. \<forall>b\<in>set es. Compare c (e_key a) (e_key b) = 0 \<longrightarrow> e_seq a = e_seq b \<longrightarrow> a = b)"

lemma compact_entries_seen:
  assumes T: "three_way (Compare c)" and U: "unique_entries c old"
    and old: "set old = set es \<union> set others" and new: "set new = set (compact_entries c smallest base es) \<union> set others"
    and base: "\<And>a b. a \<in> set es \<Longrightarrow> base (e_key a) \<Longrightarrow> b \<in> set others \<Longrightarrow> Compare c (e_key b) (e_key a) = 0 \<Longrightarrow> e_seq a < e_seq b"
    and snap: "smallest \<le> snap"
  shows "seen c uk snap new = seen c uk snap old"
proof -
  have sub: "set new \<subseteq> set old" using old new by (auto simp: compact_entries_def)
  show ?thesis
  proof (cases "lookup_newest c uk snap old")
    case None
    then have "lookup_newest c uk snap new = None" using sub by (auto simp: lookup_None)
    with None show ?thesis by (simp add: seen_def)
  next
    case (Some e)
    note e = lookup_SomeD [OF Some]
    have less: "e_seq b < e_seq e" if "b \<in> set old" "visible c uk snap b" "b \<noteq> e" for b
    proof -
      have "e_seq b \<noteq> e_seq e" using U that e(1) visible_keys [OF T that(2) e(2)] by (auto simp: unique_entries_def)
      then show ?thesis using e(3) [OF that(1,2)] by simp
    qed
    show ?thesis
    proof (cases "e \<in> set new")
      case True
      have "lookup_newest c uk snap new = Some e" by (rule lookup_SomeI [OF True e(2)]) (use less sub in blast)
      with Some show ?thesis by (simp add: seen_def)
    next
      case False
      then have e': "e \<in> set es" "overwritten c smallest es e \<or> obsolete smallest base e"
        using e(1) old new by (auto simp: compact_entries_def)
      have nh: "\<not> overwritten c smallest es e"
      proof
        assume "overwritten c smallest es e"
        then obtain h where h: "h \<in> set es" "Compare c (e_key h) (e_key e) = 0" "e_seq e < e_seq h" "e_seq h \<le> smallest"
          by (auto simp: overwritten_def)
        have "visible c uk snap h"
          using visible_same [OF T, of "e_key e" uk snap h] e(2) h(2,4) snap by (auto simp: visible_def)
        then show False using e(3) [of h] h(1,3) old by fastforce
      qed
      then have ob: "e_type e = kTypeDeletion" "e_seq e \<le> smallest" "base (e_key e)" using e'(2) by (auto simp: obsolete_def)
      have "\<not> visible c uk snap b" if b: "b \<in> set new" for b
      proof
        assume v: "visible c uk snap b"
        have k: "Compare c (e_key b) (e_key e) = 0" "Compare c (e_key e) (e_key b) = 0" using visible_keys [OF T] v e(2) by blast+
        have lt: "e_seq b < e_seq e" using less [OF _ v] b sub False by blast
        show False
        proof (cases "b \<in> set others")
          case True
          then show False using base [OF e'(1) ob(3) True k(1)] lt by simp
        next
          case False
          then have "\<not> overwritten c smallest es b" using b new by (auto simp: compact_entries_def)
          then show False using e'(1) k(2) lt ob(2) by (auto simp: overwritten_def)
        qed
      qed
      then have "lookup_newest c uk snap new = None" by (simp add: lookup_None)
      with Some ob(1) show ?thesis by (simp add: seen_def)
    qed
  qed
qed

section \<open>Versions before and after\<close>

lemma version_entries_at: "e \<in> set (version_entries contents v) \<longleftrightarrow>
    (\<exists>lvl<length (v_files v). \<exists>f\<in>set (v_files v ! lvl). e \<in> set (contents f))"
  unfolding version_entries_def level_entries_def set_concat set_map by (auto dest: nth_mem) (metis in_set_conv_nth)

lemma version_okD:
  assumes "version_ok c fm contents v"
  shows "length (v_files v) = kNumLevels"
    "lvl < kNumLevels \<Longrightarrow> f \<in> set (v_files v ! lvl) \<Longrightarrow> file_holds c (fm f) (contents f)"
    "0 < lvl \<Longrightarrow> lvl < kNumLevels \<Longrightarrow> entries_ok c (level_entries contents (v_files v ! lvl))"
  using assms nth_mem [of lvl "v_files v"] by (auto simp: version_ok_def)

lemma version_levels_newer:
  assumes "version_ok c fm contents v" "i < j" "j < kNumLevels" "f \<in> set (v_files v ! i)" "g \<in> set (v_files v ! j)"
  shows "newer_than c (contents f) (contents g)"
proof -
  have "newer_than c (level_entries contents (v_files v ! i)) (level_entries contents (v_files v ! j))"
    using assms sorted_wrt_nth_less [of "newer_than c" "map (level_entries contents) (v_files v)" i j] by (simp add: version_ok_def)
  then show ?thesis using assms(4,5) by (fastforce simp: newer_than_def level_entries_def)
qed

lemma version_unique:
  assumes T: "three_way (Compare c)" and ok: "version_ok c fm contents v"
  shows "unique_entries c (version_entries contents v)"
  unfolding unique_entries_def
proof (intro ballI impI)
  fix a b assume ab: "a \<in> set (version_entries contents v)" "b \<in> set (version_entries contents v)"
    and k: "Compare c (e_key a) (e_key b) = 0" and s: "e_seq a = e_seq b"
  have k': "Compare c (e_key b) (e_key a) = 0" using k three_way.cmp_flip_eq [OF T] by blast
  note len = version_okD(1) [OF ok]
  obtain i f where f: "i < kNumLevels" "f \<in> set (v_files v ! i)" "a \<in> set (contents f)" using ab(1) len by (auto simp: version_entries_at)
  obtain j g where g: "j < kNumLevels" "g \<in> set (v_files v ! j)" "b \<in> set (contents g)" using ab(2) len by (auto simp: version_entries_at)
  have "\<not> i < j" using version_levels_newer [OF ok _ g(1) f(2) g(2)] f(3) g(3) k s by (fastforce simp: newer_than_def)
  moreover have "\<not> j < i" using version_levels_newer [OF ok _ f(1) g(2) f(2)] f(3) g(3) k' s by (fastforce simp: newer_than_def)
  ultimately have ij: "i = j" by simp
  show "a = b"
  proof (cases "i = 0")
    case False
    show ?thesis
      by (rule entries_distinct [OF version_okD(3) [OF ok, of i]]) (use False f g ij k k' s in \<open>auto simp: level_entries_def\<close>)
  next
    case True
    have o: "\<forall>f\<in>set (v_files v ! 0). \<forall>g\<in>set (v_files v ! 0). fm_number (fm g) < fm_number (fm f) \<longrightarrow> newer_than c (contents f) (contents g)"
      "distinct (map (\<lambda>f. fm_number (fm f)) (v_files v ! 0))"
      using ok by (simp_all add: version_ok_def)
    have "\<not> fm_number (fm g) < fm_number (fm f)" "\<not> fm_number (fm f) < fm_number (fm g)"
      using o(1) f g ij True k k' s by (fastforce simp: newer_than_def)+
    then have "f = g" using o(2) f(2) g(2) ij True by (auto simp: distinct_map inj_on_def)
    then show ?thesis
      using entries_distinct [of c "contents f" a b] version_okD(2) [OF ok f(1,2)] f(3) g(3) k k' s by (simp add: file_holds_def)
  qed
qed

text \<open>
  The inputs of a compaction are closed: what stays in the two levels is newer than what is merged, for every user key they share.
\<close>

definition inputs_closed :: "Comparator \<Rightarrow> ('f \<Rightarrow> Entry list) \<Rightarrow> 'f Version \<Rightarrow> nat \<Rightarrow> 'f list \<Rightarrow> 'f list \<Rightarrow> bool" where
  "inputs_closed c contents v level inputs0 inputs1 \<longleftrightarrow>
     (\<forall>f\<in>set inputs0. \<forall>g\<in>set (v_files v ! level) - set inputs0. newer_than c (contents g) (contents f)) \<and>
     (\<forall>f\<in>set inputs0 \<union> set inputs1. \<forall>g\<in>set (v_files v ! (level + 1)) - set inputs1. newer_than c (contents g) (contents f))"

text \<open>The files of the new version: the inputs are gone, the outputs are in the lower of the two levels.\<close>

definition compacted :: "'f Version \<Rightarrow> nat \<Rightarrow> 'f list \<Rightarrow> 'f list \<Rightarrow> 'f list \<Rightarrow> 'f Version \<Rightarrow> bool" where
  "compacted v level inputs0 inputs1 outs v' \<longleftrightarrow>
     (\<exists>upper lower. v_files v' = (v_files v)[level := upper, level + 1 := lower] \<and>
        set upper = set (v_files v ! level) - set inputs0 \<and>
        set lower = set (v_files v ! (level + 1)) - set inputs1 \<union> set outs)"

definition input_entries :: "('f \<Rightarrow> Entry list) \<Rightarrow> 'f list \<Rightarrow> 'f list \<Rightarrow> Entry set" where
  "input_entries contents inputs0 inputs1 = (\<Union>f\<in>set inputs0 \<union> set inputs1. set (contents f))"


text \<open>A deletion over a value, with nothing below: the merge leaves nothing, and the key is absent before and after.\<close>

lemma version_of_levels:
  assumes "length levels = kNumLevels" "hd levels = []" and e: "\<forall>files\<in>set levels. entries_ok c (level_entries contents files)"
    and "\<forall>files\<in>set levels. \<forall>f\<in>set files. file_holds c (fm f) (contents f)" "sorted_wrt (newer_than c) (map (level_entries contents) levels)"
  shows "version_ok c fm contents (Version_make\<lparr>v_files := levels\<rparr>)"
proof -
  have "levels ! 0 = []" using assms(1,2) by (cases levels) (auto simp: kNumLevels_def)
  moreover have "entries_ok c (level_entries contents (levels ! level))" if "level < kNumLevels" for level
    by (rule bspec [OF e nth_mem]) (use that assms(1) in simp)
  ultimately show ?thesis using assms(1,4,5) by (simp add: version_ok_def)
qed

lemma deleted_version:
  "version_ok BytewiseComparator (\<lambda>f. f) (\<lambda>f. if fm_number f = 9 then [new_entry] else [old_entry])
     (Version_make\<lparr>v_files := [[], [one_file 9 n new_entry], [one_file 7 m old_entry], [], [], [], []]\<rparr>)"
  by (rule version_of_levels)
    (simp_all add: entries_ok_def new_entry_def old_entry_def kMaxSequenceNumber_eq kNumLevels_def level_entries_def one_file_def
      file_holds_def newer_than_def)


section \<open>Inputs that are not closed\<close>

text \<open>
  \<^verbatim>\<open>SetupOtherInputs\<close> adds the boundary files of the upper level, not those of the lower one.  Here the first file of level two ends with the deletion of
  a key whose older value starts the second file, and only the first one overlaps the file of level one.
\<close>

definition cut_contents :: "FileMetaData \<Rightarrow> Entry list" where
  "cut_contents f =
     (if fm_number f = 9 then [\<lparr>e_seq = 6, e_type = kTypeValue, e_key = [97], e_value = [3]\<rparr>]
      else if fm_number f = 7 then [\<lparr>e_seq = 1, e_type = kTypeValue, e_key = [97], e_value = [1]\<rparr>,
                                    \<lparr>e_seq = 5, e_type = kTypeDeletion, e_key = [99], e_value = []\<rparr>]
      else if fm_number f = 8 then [\<lparr>e_seq = 4, e_type = kTypeValue, e_key = [99], e_value = [2]\<rparr>]
      else [\<lparr>e_seq = 6, e_type = kTypeValue, e_key = [97], e_value = [3]\<rparr>])"

definition cut_file :: "u64 \<Rightarrow> FileMetaData" where
  "cut_file number =
     \<lparr>fm_refs = 1, fm_allowed_seeks = 100, fm_number = number, fm_file_size = 100,
      fm_smallest = \<lparr>ik_rep = entry_internal (hd (cut_contents (one_file number 100 old_entry)))\<rparr>,
      fm_largest = \<lparr>ik_rep = entry_internal (last (cut_contents (one_file number 100 old_entry)))\<rparr>\<rparr>"

definition cut_version :: "FileMetaData Version" where
  "cut_version = Version_make\<lparr>v_files := [[], [cut_file 9], [cut_file 7, cut_file 8], [], [], [], []]\<rparr>"

lemma cut_version_ok: "version_ok BytewiseComparator (\<lambda>f. f) cut_contents cut_version"
  unfolding cut_version_def
  by (rule version_of_levels)
    (simp_all add: entries_ok_def entry_before_def cut_contents_def cut_file_def one_file_def kMaxSequenceNumber_eq kNumLevels_def level_entries_def
      file_holds_def newer_than_def)


section \<open>The decisions of the merge\<close>

text \<open>What the variables of the loop remember of the entries before.\<close>

definition ds_ok :: "Comparator \<Rightarrow> Entry list \<Rightarrow> DropState \<Rightarrow> bool" where
  "ds_ok c pre ds \<longleftrightarrow>
     (if pre = [] then ds = DropState_make
      else ds_has_current_user_key ds \<and> Compare c (ds_current_user_key ds) (e_key (last pre)) = 0 \<and>
           ds_last_sequence_for_key ds = e_seq (last pre))"

lemma overwritten_iff_last:
  assumes T: "three_way (Compare c)" and ok: "entries_ok c (pre @ e # post)"
  shows "overwritten c smallest (pre @ e # post) e \<longleftrightarrow>
    pre \<noteq> [] \<and> Compare c (e_key (last pre)) (e_key e) = 0 \<and> e_seq (last pre) \<le> smallest"
proof
  assume "overwritten c smallest (pre @ e # post) e"
  then obtain h where h: "h \<in> set (pre @ e # post)" "Compare c (e_key h) (e_key e) = 0" "e_seq e < e_seq h" "e_seq h \<le> smallest"
    by (auto simp: overwritten_def)
  have post: "entry_before c e b" if "b \<in> set post" for b using ok that by (auto simp: entries_ok_def sorted_wrt_append)
  have "h \<notin> set post" using post [of h] h(2,3) three_way.cmp_flip_eq [OF T, of "e_key e" "e_key h"] three_way.cmp_flip [OF T, of "e_key e" "e_key h"]
    by (auto simp: entry_before_def)
  then have hp: "h \<in> set pre" using h(1,3) by auto
  then have ne: "pre \<noteq> []" by auto
  have pre: "entries_ok c pre" using ok by (auto simp: entries_ok_def sorted_wrt_append)
  have le: "entry_before c (last pre) e" using ok ne by (auto simp: entries_ok_def sorted_wrt_append)
  note hl = last_entry_le [OF T pre hp]
  have "Compare c (e_key (last pre)) (e_key e) \<le> 0" using le by (auto simp: entry_before_def)
  moreover have "Compare c (e_key e) (e_key (last pre)) \<le> 0"
    using three_way.cmp_trans [OF T, of "e_key e" "e_key h" "e_key (last pre)"] hl h(2) three_way.cmp_flip_eq [OF T, of "e_key h" "e_key e"] by simp
  ultimately have k: "Compare c (e_key (last pre)) (e_key e) = 0"
    using three_way.cmp_flip_le [OF T, of "e_key e" "e_key (last pre)"] by simp
  have "Compare c (e_key h) (e_key (last pre)) = 0"
    using hl three_way.cmp_trans [OF T, of "e_key (last pre)" "e_key e" "e_key h"] k h(2) three_way.cmp_flip_eq [OF T, of "e_key h" "e_key e"]
      three_way.cmp_flip_ge [OF T, of "e_key h" "e_key (last pre)"] by simp
  then show "pre \<noteq> [] \<and> Compare c (e_key (last pre)) (e_key e) = 0 \<and> e_seq (last pre) \<le> smallest" using ne k hl h(4) by simp
next
  assume a: "pre \<noteq> [] \<and> Compare c (e_key (last pre)) (e_key e) = 0 \<and> e_seq (last pre) \<le> smallest"
  then have "entry_before c (last pre) e" using ok by (auto simp: entries_ok_def sorted_wrt_append)
  then show "overwritten c smallest (pre @ e # post) e" using a by (auto simp: overwritten_def entry_before_def intro!: bexI [of _ "last pre"])
qed

lemma drop_key_ok:
  assumes T: "three_way (Compare c)" and ok: "entries_ok c (pre @ e # post)" and ds: "ds_ok c pre ds" and sm: "smallest < kMaxSequenceNumber"
    and v: "c_input_version cpt = Some v"
    and s: "\<And>lvl. 0 < lvl \<Longrightarrow> lvl < kNumLevels \<Longrightarrow> level_sorted c fm (v_files v ! lvl)"
    and p: "\<forall>x\<in>set (e # post). ptrs_ok c fm v (e_key x) (c_level_ptrs cpt)"
  shows "\<exists>ds' ptrs. drop_key c fm smallest (entry_internal e) ds cpt =
      Some (overwritten c smallest (pre @ e # post) e \<or> obsolete smallest (base_level c fm v (c_level cpt)) e, ds', cpt\<lparr>c_level_ptrs := ptrs\<rparr>) \<and>
    ds_ok c (pre @ [e]) ds' \<and> (\<forall>x\<in>set post. ptrs_ok c fm v (e_key x) ptrs)"
proof -
  have seq: "e_seq e \<le> kMaxSequenceNumber" using ok by (simp add: entries_ok_def)
  note parse = entry_parse [OF seq]
  define ds1 where "ds1 = (if \<not> ds_has_current_user_key ds \<or> Compare c (e_key e) (ds_current_user_key ds) \<noteq> 0
      then \<lparr>ds_current_user_key = e_key e, ds_has_current_user_key = True, ds_last_sequence_for_key = kMaxSequenceNumber\<rparr> else ds)"
  have same: "Compare c (e_key e) (ds_current_user_key ds) = 0 \<longleftrightarrow> Compare c (e_key (last pre)) (e_key e) = 0" if "pre \<noteq> []"
  proof -
    have k: "Compare c (ds_current_user_key ds) (e_key (last pre)) = 0" using ds that by (simp add: ds_ok_def)
    have eq: "Compare c a d = 0" if "Compare c a b = 0" "Compare c b d = 0" for a b d
      using that three_way.cmp_trans [OF T, of a b d] three_way.cmp_trans [OF T, of d b a] three_way.cmp_flip_eq [OF T, of a b]
        three_way.cmp_flip_eq [OF T, of b d] three_way.cmp_flip_ge [OF T, of a d] by simp
    show ?thesis using eq k three_way.cmp_flip_eq [OF T] by metis
  qed
  have hid: "ds_last_sequence_for_key ds1 \<le> smallest \<longleftrightarrow> overwritten c smallest (pre @ e # post) e"
    unfolding overwritten_iff_last [OF T ok] using ds sm same
    by (cases "pre = []") (auto simp: ds1_def ds_ok_def DropState_make_def)
  have d1: "ds_has_current_user_key ds1" "Compare c (ds_current_user_key ds1) (e_key e) = 0"
    using three_way.cmp_refl [OF T] three_way.cmp_flip_eq [OF T] by (auto simp: ds1_def)
  let ?ds = "ds1\<lparr>ds_last_sequence_for_key := e_seq e\<rparr>"
  have dsn: "ds_ok c (pre @ [e]) ?ds" using d1 by (simp add: ds_ok_def)
  have d: "drop_key c fm smallest (entry_internal e) ds cpt =
      do {
        (drop, cpt) \<leftarrow>
          (if overwritten c smallest (pre @ e # post) e then Some (True, cpt)
           else if e_type e = kTypeDeletion \<and> e_seq e \<le> smallest then IsBaseLevelForKey c fm (e_key e) cpt
           else Some (False, cpt));
        Some (drop, ?ds, cpt)
      }"
    unfolding hid [symmetric] by (simp add: drop_key_def parse ds1_def Let_def)
  have later: "Compare c (e_key e) (e_key x) \<le> 0" if "x \<in> set post" for x
    using ok that by (auto simp: entries_ok_def sorted_wrt_append entry_before_def)
  show ?thesis
  proof (cases "\<not> overwritten c smallest (pre @ e # post) e \<and> e_type e = kTypeDeletion \<and> e_seq e \<le> smallest")
    case True
    obtain ptrs where ptrs: "IsBaseLevelForKey c fm (e_key e) cpt = Some (base_level c fm v (c_level cpt) (e_key e), cpt\<lparr>c_level_ptrs := ptrs\<rparr>)"
        "ptrs_ok c fm v (e_key e) ptrs"
      using IsBaseLevelForKey_ok [OF T v s, of "e_key e"] p by auto
    have "\<forall>x\<in>set post. ptrs_ok c fm v (e_key x) ptrs" using ptrs_ok_later [OF T ptrs(2)] later by blast
    then show ?thesis using d ptrs(1) True dsn by (auto simp: obsolete_def)
  next
    case False
    then show ?thesis using d p dsn by (intro exI [of _ ?ds] exI [of _ "c_level_ptrs cpt"]) (auto simp: obsolete_def)
  qed
qed

section \<open>The outputs of the merge\<close>

text \<open>A finished output: the table of its pairs was built, synced and closed without an error, and its bounds are the first and the last key.\<close>

definition finished_output :: "Snappy \<Rightarrow> 'w CompactionEnv \<Rightarrow> Options \<Rightarrow> Output \<Rightarrow> u64 \<times> 'w \<Rightarrow> kv list \<Rightarrow> bool" where
  "finished_output sn ce opts out nf kvs \<longleftrightarrow>
     kvs \<noteq> [] \<and> fst nf = out_number out \<and> ik_rep (out_smallest out) = fst (hd kvs) \<and> ik_rep (out_largest out) = fst (last kvs) \<and>
     (\<exists>f b f'. ce_NewWritableFile ce (out_number out) = (Status_OK, f) \<and> build_table sn (ce_file ce) opts kvs f = (Status_OK, b) \<and>
        out_file_size out = FileSize b \<and> ce_Sync ce (tb_file b) = (Status_OK, f') \<and> ce_Close ce f' = (Status_OK, snd nf))"

definition outputs_ok :: "Snappy \<Rightarrow> 'w CompactionEnv \<Rightarrow> Options \<Rightarrow> Output list \<Rightarrow> (u64 \<times> 'w) list \<Rightarrow> kv list list \<Rightarrow> bool" where
  "outputs_ok sn ce opts outs files kvss \<longleftrightarrow>
     length outs = length kvss \<and> length files = length kvss \<and>
     (\<forall>i<length kvss. finished_output sn ce opts (outs ! i) (files ! i) (kvss ! i))"

lemma outputs_ok_snoc:
  "outputs_ok sn ce opts outs files kvss \<Longrightarrow> finished_output sn ce opts out nf kvs \<Longrightarrow>
   outputs_ok sn ce opts (outs @ [out]) (files @ [nf]) (kvss @ [kvs])"
  by (auto simp: outputs_ok_def nth_append less_Suc_eq)

text \<open>The state in the middle: finished outputs, and the pairs in the builder of the current one.\<close>

definition work_ok :: "Snappy \<Rightarrow> 'w CompactionEnv \<Rightarrow> Options \<Rightarrow> ('f, 'w) CompactionState \<Rightarrow> kv list list \<Rightarrow> kv list \<Rightarrow> bool" where
  "work_ok sn ce opts st kvss cur \<longleftrightarrow>
     (if cs_builder st = None then cur = [] \<and> outputs_ok sn ce opts (cs_outputs st) (cs_files st) kvss
      else cur \<noteq> [] \<and>
        (\<exists>outs out f. cs_outputs st = outs @ [out] \<and> outputs_ok sn ce opts outs (cs_files st) kvss \<and>
           ce_NewWritableFile ce (out_number out) = (Status_OK, f) \<and>
           cs_builder st = Some (add_pairs sn (ce_file ce) cur (TableBuilder_make opts f)) \<and>
           ik_rep (out_smallest out) = fst (hd cur) \<and> ik_rep (out_largest out) = fst (last cur)))"

lemma work_ok_compaction [simp]:
  "work_ok sn ce opts (st\<lparr>cs_compaction := cpt\<rparr>) kvss cur \<longleftrightarrow> work_ok sn ce opts st kvss cur"
  unfolding work_ok_def by simp

definition same_merge :: "('f, 'w) CompactionState \<Rightarrow> ('f, 'w) CompactionState \<Rightarrow> bool" where
  "same_merge st st' \<longleftrightarrow> cs_compaction st' = cs_compaction st \<and> cs_smallest_snapshot st' = cs_smallest_snapshot st"

lemma Flush_num_entries: "tb_num_entries (TableBuilder_Flush sn fo r) = tb_num_entries r"
  by (auto simp: TableBuilder_Flush_def WriteBlock_def WriteRawBlock_def filter_StartBlock_def Let_def split: prod.splits)

lemma Add_num_entries:
  "tb_num_entries (TableBuilder_Add sn fo k v r) = (if Status_ok (tb_status r) then tb_num_entries r + 1 else tb_num_entries r)"
  by (auto simp: TableBuilder_Add_def Flush_num_entries add_index_entry_def Let_def)

lemma add_pairs_num_entries:
  assumes "length kvs < 2 ^ 64" "kvs \<noteq> []"
  shows "tb_num_entries (add_pairs sn fo kvs (TableBuilder_make opts f)) \<noteq> 0"
proof -
  have "\<exists>k. 1 \<le> k \<and> k \<le> length kvs \<and> tb_num_entries (add_pairs sn fo kvs (TableBuilder_make opts f)) = of_nat k"
    using assms(2)
  proof (induction kvs rule: rev_nonempty_induct)
    case (single kv)
    show ?case
      by (intro exI [of _ 1]) (simp add: add_pairs_def Add_num_entries TableBuilder_make_def filter_StartBlock_def Status_ok_iff split_beta)
  next
    case (snoc kv kvs)
    then obtain k where k: "1 \<le> k" "k \<le> length kvs" "tb_num_entries (add_pairs sn fo kvs (TableBuilder_make opts f)) = of_nat k" by blast
    have "tb_num_entries (add_pairs sn fo (kvs @ [kv]) (TableBuilder_make opts f)) \<in> {of_nat k, of_nat (Suc k)}"
      using k(3) by (auto simp: add_pairs_def Add_num_entries split_beta)
    then show ?case using k(1,2) by (metis insertE singletonD le_SucI length_append_singleton Suc_le_mono)
  qed
  then obtain k where k: "1 \<le> k" "k \<le> length kvs" "tb_num_entries (add_pairs sn fo kvs (TableBuilder_make opts f)) = of_nat k" by blast
  have "unat (of_nat k :: u64) = k" using k(2) assms(1) by (simp add: unat_of_nat)
  then show ?thesis using k(1,3) by force
qed

text \<open>An environment in which nothing fails.\<close>

definition env_good :: "'w CompactionEnv \<Rightarrow> ('w \<Rightarrow> bool) \<Rightarrow> bool" where
  "env_good ce good \<longleftrightarrow>
     never_fails (ce_file ce) good \<and> (\<forall>n. fst (ce_NewWritableFile ce n) = Status_OK \<and> good (snd (ce_NewWritableFile ce n))) \<and>
     (\<forall>f. fst (ce_Sync ce f) = Status_OK \<and> fst (ce_Close ce f) = Status_OK) \<and> (\<forall>n k f. ce_table_status ce n k f = Status_OK)"

lemma FinishCompactionOutputFile_ok:
  assumes w: "work_ok sn ce opts st kvss cur" and b: "cs_builder st \<noteq> None"
  shows "\<exists>s st'. FinishCompactionOutputFile sn ce Status_OK st = Some (s, st') \<and> same_merge st st' \<and>
    (Status_ok s \<longrightarrow> work_ok sn ce opts st' (kvss @ [cur]) []) \<and> (env_good ce good \<longrightarrow> Status_ok s)"
proof -
  obtain outs out f where o: "cur \<noteq> []" "cs_outputs st = outs @ [out]" "outputs_ok sn ce opts outs (cs_files st) kvss"
      "ce_NewWritableFile ce (out_number out) = (Status_OK, f)"
      "cs_builder st = Some (add_pairs sn (ce_file ce) cur (TableBuilder_make opts f))"
      "ik_rep (out_smallest out) = fst (hd cur)" "ik_rep (out_largest out) = fst (last cur)"
    using w b by (auto simp: work_ok_def split: if_splits)
  obtain s1 b1 where b1: "build_table sn (ce_file ce) opts cur f = (s1, b1)" by fastforce
  then have fin: "TableBuilder_Finish sn (ce_file ce) (add_pairs sn (ce_file ce) cur (TableBuilder_make opts f)) = (s1, b1)"
    by (simp add: build_table_def)
  define out' where "out' = out\<lparr>out_file_size := FileSize b1\<rparr>"
  obtain s2 f2 where s2: "(if Status_ok s1 then ce_Sync ce (tb_file b1) else (s1, tb_file b1)) = (s2, f2)" by fastforce
  obtain s3 f3 where s3: "(if Status_ok s2 then ce_Close ce f2 else (s2, f2)) = (s3, f3)" by fastforce
  define st' where "st' = st\<lparr>cs_outputs := outs @ [out'], cs_total_bytes := cs_total_bytes st + FileSize b1, cs_builder := None,
      cs_files := cs_files st @ [(out_number out, f3)]\<rparr>"
  define s4 where "s4 = (if Status_ok s3 \<and> NumEntries (add_pairs sn (ce_file ce) cur (TableBuilder_make opts f)) > 0
      then ce_table_status ce (out_number out) (FileSize b1) f3 else s3)"
  have F: "FinishCompactionOutputFile sn ce Status_OK st = Some (s4, st')"
    using o(2,5) fin s2 s3
    by (simp add: FinishCompactionOutputFile_def update_current_output_def Status_ok_iff Let_def st'_def out'_def s4_def)
  have good: "Status_ok s4" if g: "env_good ce good"
  proof -
    have "good f" using g o(4) by (auto simp: env_good_def) (metis snd_conv)
    then have "s1 = Status_OK" using build_table_good [of "ce_file ce" good f sn opts cur] g b1 by (simp add: env_good_def)
    then have "s3 = Status_OK" using g s2 s3 by (auto simp: env_good_def Status_ok_iff split: if_splits) (metis fst_conv)+
    then show ?thesis using g by (simp add: s4_def env_good_def Status_ok_iff)
  qed
  have "work_ok sn ce opts st' (kvss @ [cur]) []" if "Status_ok s4"
  proof -
    have ok3: "Status_ok s3" using that by (auto simp: s4_def split: if_splits)
    then have ok2: "Status_ok s2" using s3 by (auto split: if_splits)
    then have ok1: "Status_ok s1" using s2 by (auto split: if_splits)
    have "finished_output sn ce opts out' (out_number out, f3) cur"
      using o b1 s2 s3 ok1 ok2 ok3 by (auto simp: finished_output_def out'_def Status_ok_iff)
    then have "outputs_ok sn ce opts (outs @ [out']) (cs_files st @ [(out_number out, f3)]) (kvss @ [cur])" by (rule outputs_ok_snoc [OF o(3)])
    then show ?thesis by (simp add: work_ok_def st'_def)
  qed
  then show ?thesis using F good by (auto simp: same_merge_def st'_def)
qed

lemma add_output_ok:
  assumes w: "work_ok sn ce opts st kvss cur" and n: "length cur < 2 ^ 64"
  shows "\<exists>s st'. add_output sn ce opts Status_OK k v st = Some (s, st') \<and> same_merge st st' \<and>
    (Status_ok s \<longrightarrow> (\<exists>kvss' cur'. work_ok sn ce opts st' kvss' cur' \<and> concat kvss' @ cur' = concat kvss @ cur @ [(k, v)])) \<and>
    (env_good ce good \<longrightarrow> Status_ok s)"
proof -
  let ?out = "\<lparr>out_number = cs_next_file_number st, out_file_size = 0, out_smallest = InternalKey_Clear \<lparr>ik_rep = []\<rparr>,
      out_largest = InternalKey_Clear \<lparr>ik_rep = []\<rparr>\<rparr>"
  obtain s0 st0 where s0: "(if cs_builder st = None then OpenCompactionOutputFile ce opts st else (Status_OK, st)) = (s0, st0)" by fastforce
  have sm0: "same_merge st st0" using s0 by (auto simp: OpenCompactionOutputFile_def same_merge_def Let_def split: if_splits prod.splits)
  show ?thesis
  proof (cases "Status_ok s0")
    case False
    have "\<not> env_good ce good"
      using False s0 by (auto simp: OpenCompactionOutputFile_def env_good_def Let_def Status_ok_iff split: if_splits prod.splits) (metis fst_conv)+
    then show ?thesis using False s0 sm0 by (simp add: add_output_def)
  next
    case True
    have "\<exists>outs out f. cs_outputs st0 = outs @ [out] \<and> outputs_ok sn ce opts outs (cs_files st0) kvss \<and>
        ce_NewWritableFile ce (out_number out) = (Status_OK, f) \<and>
        cs_builder st0 = Some (add_pairs sn (ce_file ce) cur (TableBuilder_make opts f)) \<and>
        (cur \<noteq> [] \<longrightarrow> ik_rep (out_smallest out) = fst (hd cur))"
    proof (cases "cs_builder st = None")
      case n: True
      obtain s1 f where f: "ce_NewWritableFile ce (cs_next_file_number st) = (s1, f)" by fastforce
      then have "s1 = Status_OK" "cs_outputs st0 = cs_outputs st @ [?out]" "cs_files st0 = cs_files st"
          "cs_builder st0 = Some (TableBuilder_make opts f)"
        using s0 n True by (auto simp: OpenCompactionOutputFile_def Let_def Status_ok_iff split: if_splits)
      then show ?thesis using w n f by (auto simp: work_ok_def add_pairs_def)
    next
      case False
      then have st0: "st0 = st" using s0 by (auto split: if_splits)
      obtain outs out f where "cs_outputs st = outs @ [out]" "outputs_ok sn ce opts outs (cs_files st) kvss"
          "ce_NewWritableFile ce (out_number out) = (Status_OK, f)"
          "cs_builder st = Some (add_pairs sn (ce_file ce) cur (TableBuilder_make opts f))" "ik_rep (out_smallest out) = fst (hd cur)"
        using w False unfolding work_ok_def by (simp only: if_False) blast
      then show ?thesis unfolding st0 by blast
    qed
    then obtain outs out f where o: "cs_outputs st0 = outs @ [out]" "outputs_ok sn ce opts outs (cs_files st0) kvss"
        "ce_NewWritableFile ce (out_number out) = (Status_OK, f)"
        "cs_builder st0 = Some (add_pairs sn (ce_file ce) cur (TableBuilder_make opts f))"
        "cur \<noteq> [] \<longrightarrow> ik_rep (out_smallest out) = fst (hd cur)"
      by blast
    let ?b = "add_pairs sn (ce_file ce) cur (TableBuilder_make opts f)"
    have ne: "NumEntries ?b = 0 \<longleftrightarrow> cur = []"
      using add_pairs_num_entries [OF n, of sn "ce_file ce" opts f]
      by (cases "cur = []") (simp_all add: NumEntries_def add_pairs_def TableBuilder_make_def filter_StartBlock_def)
    define out1 where "out1 = (if cur = [] then out\<lparr>out_smallest := \<lparr>ik_rep = k\<rparr>\<rparr> else out)\<lparr>out_largest := \<lparr>ik_rep = k\<rparr>\<rparr>"
    let ?b1 = "TableBuilder_Add sn (ce_file ce) k v ?b"
    have b1: "add_pairs sn (ce_file ce) (cur @ [(k, v)]) (TableBuilder_make opts f) = ?b1" by (simp add: add_pairs_def)
    define st1 where "st1 = st0\<lparr>cs_outputs := outs @ [out1], cs_builder := Some ?b1\<rparr>"
    have A: "add_output sn ce opts Status_OK k v st =
        (if FileSize ?b1 \<ge> c_max_output_file_size (cs_compaction st0)
         then FinishCompactionOutputFile sn ce Status_OK st1 else Some (Status_OK, st1))"
      using s0 True o(1,4) ne
      by (auto simp: add_output_def update_current_output_def InternalKey_DecodeFrom_def Let_def st1_def out1_def)
    have w1: "work_ok sn ce opts st1 kvss (cur @ [(k, v)])"
      using o(1-3,5) b1 by (auto simp: work_ok_def st1_def out1_def hd_append)
    have sm1: "same_merge st st1" using sm0 by (simp add: same_merge_def st1_def)
    show ?thesis
    proof (cases "FileSize ?b1 \<ge> c_max_output_file_size (cs_compaction st0)")
      case True
      obtain s st' where F: "FinishCompactionOutputFile sn ce Status_OK st1 = Some (s, st')" "same_merge st1 st'"
          "Status_ok s \<longrightarrow> work_ok sn ce opts st' (kvss @ [cur @ [(k, v)]]) []" "env_good ce good \<longrightarrow> Status_ok s"
        using FinishCompactionOutputFile_ok [OF w1, of good] by (auto simp: st1_def)
      have "same_merge st st'" using sm1 F(2) by (simp add: same_merge_def)
      moreover have "concat (kvss @ [cur @ [(k, v)]]) @ [] = concat kvss @ cur @ [(k, v)]" by simp
      moreover have "add_output sn ce opts Status_OK k v st = Some (s, st')" using A True F(1) by simp
      ultimately show ?thesis using F(3,4) by blast
    next
      case False
      then show ?thesis using A sm1 w1 by (auto simp: Status_ok_iff)
    qed
  qed
qed

text \<open>One round of the loop.\<close>

lemma ShouldStopBefore_frame:
  assumes "ShouldStopBefore c fm max_file_size key cpt = (stop, cpt')"
  shows "c_input_version cpt' = c_input_version cpt" "c_level cpt' = c_level cpt" "c_level_ptrs cpt' = c_level_ptrs cpt"
    "c_inputs0 cpt' = c_inputs0 cpt" "c_inputs1 cpt' = c_inputs1 cpt" "c_edit cpt' = c_edit cpt"
  using assms by (auto simp: ShouldStopBefore_def Let_def split: prod.splits if_splits)

text \<open>The part of the compaction that the merge does not change.\<close>

definition merge_frame :: "('f, 'w) CompactionState \<Rightarrow> ('f, 'w) CompactionState \<Rightarrow> bool" where
  "merge_frame st st' \<longleftrightarrow>
     cs_smallest_snapshot st' = cs_smallest_snapshot st \<and>
     c_input_version (cs_compaction st') = c_input_version (cs_compaction st) \<and> c_level (cs_compaction st') = c_level (cs_compaction st) \<and>
     c_inputs0 (cs_compaction st') = c_inputs0 (cs_compaction st) \<and> c_inputs1 (cs_compaction st') = c_inputs1 (cs_compaction st) \<and>
     c_edit (cs_compaction st') = c_edit (cs_compaction st)"

lemma merge_frame_trans: "merge_frame a b \<Longrightarrow> merge_frame b d \<Longrightarrow> merge_frame a d"
  by (simp add: merge_frame_def)

lemma compact_entry_ok:
  assumes T: "three_way (Compare c)" and ok: "entries_ok c (pre @ e # post)" and ds: "ds_ok c pre ds"
    and sm: "cs_smallest_snapshot st < kMaxSequenceNumber" and v: "c_input_version (cs_compaction st) = Some v"
    and s: "\<And>lvl. 0 < lvl \<Longrightarrow> lvl < kNumLevels \<Longrightarrow> level_sorted c fm (v_files v ! lvl)"
    and p: "\<forall>x\<in>set (e # post). ptrs_ok c fm v (e_key x) (c_level_ptrs (cs_compaction st))"
    and w: "work_ok sn ce opts st kvss cur" and n: "length cur < 2 ^ 64"
  defines "kept \<equiv> \<not> overwritten c (cs_smallest_snapshot st) (pre @ e # post) e \<and>
      \<not> obsolete (cs_smallest_snapshot st) (base_level c fm v (c_level (cs_compaction st))) e"
  shows "\<exists>r ds' st'. compact_entry sn ce opts c fm max_file_size Status_OK (entry_internal e) (e_value e) ds st = Some (r, ds', st') \<and>
    (env_good ce good \<longrightarrow> Status_ok r) \<and> (Status_ok r \<longrightarrow> merge_frame st st' \<and> ds_ok c (pre @ [e]) ds' \<and>
       (\<forall>x\<in>set post. ptrs_ok c fm v (e_key x) (c_level_ptrs (cs_compaction st'))) \<and>
       (\<exists>kvss' cur'. work_ok sn ce opts st' kvss' cur' \<and>
          concat kvss' @ cur' = concat kvss @ cur @ (if kept then [entry_pair e] else [])))"
proof -
  obtain stop cpt where stop: "ShouldStopBefore c fm max_file_size (entry_internal e) (cs_compaction st) = (stop, cpt)" by fastforce
  note fr = ShouldStopBefore_frame [OF stop]
  let ?st0 = "st\<lparr>cs_compaction := cpt\<rparr>"
  have w0: "work_ok sn ce opts ?st0 kvss cur" using w by simp
  have "\<exists>s1 st1. (if stop \<and> cs_builder ?st0 \<noteq> None then FinishCompactionOutputFile sn ce Status_OK ?st0 else Some (Status_OK, ?st0)) = Some (s1, st1) \<and>
      same_merge ?st0 st1 \<and> (env_good ce good \<longrightarrow> Status_ok s1) \<and> (Status_ok s1 \<longrightarrow> (\<exists>kvss1 cur1. work_ok sn ce opts st1 kvss1 cur1 \<and> length cur1 \<le> length cur \<and> concat kvss1 @ cur1 = concat kvss @ cur))"
  proof (cases "stop \<and> cs_builder ?st0 \<noteq> None")
    case True
    then show ?thesis using FinishCompactionOutputFile_ok [OF w0, of good] by fastforce
  next
    case False
    then show ?thesis using w0 by (auto simp: same_merge_def Status_ok_iff)
  qed
  then obtain s1 st1 where f: "(if stop \<and> cs_builder ?st0 \<noteq> None then FinishCompactionOutputFile sn ce Status_OK ?st0 else Some (Status_OK, ?st0)) = Some (s1, st1)"
      "same_merge ?st0 st1" "env_good ce good \<longrightarrow> Status_ok s1" "Status_ok s1 \<Longrightarrow> \<exists>kvss1 cur1. work_ok sn ce opts st1 kvss1 cur1 \<and> length cur1 \<le> length cur \<and> concat kvss1 @ cur1 = concat kvss @ cur"
    by blast
  show ?thesis
  proof (cases "Status_ok s1")
    case False
    then show ?thesis using stop f(1,3) by (simp add: compact_entry_def)
  next
    case True
    obtain kvss1 cur1 where w1: "work_ok sn ce opts st1 kvss1 cur1" "length cur1 \<le> length cur" "concat kvss1 @ cur1 = concat kvss @ cur"
      using f(4) [OF True] by blast
    have c1: "cs_compaction st1 = cpt" "cs_smallest_snapshot st1 = cs_smallest_snapshot st" using f(2) by (simp_all add: same_merge_def)
    obtain ds' ptrs where d: "drop_key c fm (cs_smallest_snapshot st) (entry_internal e) ds cpt = Some (\<not> kept, ds', cpt\<lparr>c_level_ptrs := ptrs\<rparr>)"
        "ds_ok c (pre @ [e]) ds'" "\<forall>x\<in>set post. ptrs_ok c fm v (e_key x) ptrs"
      using drop_key_ok [OF T ok ds sm, of cpt v fm] v s p fr(1-3) by (auto simp: kept_def)
    let ?st2 = "st1\<lparr>cs_compaction := cpt\<lparr>c_level_ptrs := ptrs\<rparr>\<rparr>"
    have w2: "work_ok sn ce opts ?st2 kvss1 cur1" using w1(1) by simp
    have fr2: "merge_frame st ?st2" using fr c1 by (simp add: merge_frame_def)
    have "\<exists>s3 st3. (if \<not> kept then Some (Status_OK, ?st2) else add_output sn ce opts Status_OK (entry_internal e) (e_value e) ?st2) = Some (s3, st3) \<and>
        same_merge ?st2 st3 \<and> (env_good ce good \<longrightarrow> Status_ok s3) \<and> (Status_ok s3 \<longrightarrow> (\<exists>kvss' cur'. work_ok sn ce opts st3 kvss' cur' \<and>
          concat kvss' @ cur' = concat kvss @ cur @ (if kept then [entry_pair e] else [])))"
    proof (cases kept)
      case True
      have cat: "concat kvss1 @ cur1 @ [(entry_internal e, e_value e)] = concat kvss @ cur @ [entry_pair e]"
        using w1(3) by (simp add: entry_pair_def flip: append_assoc)
      have "length cur1 < 2 ^ 64" using n w1(2) by simp
      then show ?thesis using add_output_ok [OF w2, of "entry_internal e" "e_value e" good, unfolded cat] True by auto
    next
      case False
      then show ?thesis using w2 w1(3) by (auto simp: same_merge_def Status_ok_iff)
    qed
    then obtain s3 st3 where a: "(if \<not> kept then Some (Status_OK, ?st2) else add_output sn ce opts Status_OK (entry_internal e) (e_value e) ?st2) = Some (s3, st3)"
        "same_merge ?st2 st3" "env_good ce good \<longrightarrow> Status_ok s3" "Status_ok s3 \<longrightarrow> (\<exists>kvss' cur'. work_ok sn ce opts st3 kvss' cur' \<and>
          concat kvss' @ cur' = concat kvss @ cur @ (if kept then [entry_pair e] else []))"
      by blast
    have "compact_entry sn ce opts c fm max_file_size Status_OK (entry_internal e) (e_value e) ds st = Some (s3, ds', st3)"
      using stop f(1) True d(1) a(1) c1 by (simp add: compact_entry_def)
    moreover have "merge_frame st st3" using fr2 a(2) by (simp add: merge_frame_def same_merge_def)
    moreover have "c_level_ptrs (cs_compaction st3) = ptrs" using a(2) by (simp add: same_merge_def)
    ultimately show ?thesis using d(2,3) a(3,4) by auto
  qed
qed

lemma compact_loop_ok:
  assumes T: "three_way (Compare c)" and ok: "entries_ok c es" and I: "bounded_iterator it cmp (map entry_pair es) pos lm"
    and s: "\<And>lvl. 0 < lvl \<Longrightarrow> lvl < kNumLevels \<Longrightarrow> level_sorted c fm (v_files v ! lvl)" and len: "length es < 2 ^ 64"
  shows "pos input i \<Longrightarrow> ds_ok c (take i es) ds \<Longrightarrow> cs_smallest_snapshot st = smallest \<Longrightarrow> smallest < kMaxSequenceNumber \<Longrightarrow>
    c_input_version (cs_compaction st) = Some v \<Longrightarrow> c_level (cs_compaction st) = level \<Longrightarrow>
    \<forall>x\<in>set (drop i es). ptrs_ok c fm v (e_key x) (c_level_ptrs (cs_compaction st)) \<Longrightarrow> work_ok sn ce opts st kvss cur \<Longrightarrow>
    length (concat kvss @ cur) \<le> i \<Longrightarrow>
    \<exists>r input' m st'. compact_loop sn ce opts c fm max_file_size it shutting_down n input ds st = Some (r, input', m, st') \<and>
      (\<exists>j. pos input' j) \<and> (env_good ce good \<longrightarrow> Status_ok r) \<and> (Status_ok r \<longrightarrow> merge_frame st st' \<and>
        (\<exists>kvss' cur'. work_ok sn ce opts st' kvss' cur' \<and> (shutting_down m \<or> concat kvss' @ cur' = concat kvss @ cur @
           map entry_pair (filter (\<lambda>e. \<not> overwritten c smallest es e \<and> \<not> obsolete smallest (base_level c fm v level) e) (drop i es)))))"
proof (induction "length es - i" arbitrary: i input ds st kvss cur n)
  case 0
  have "i = length es" using bounded_iterator.pos_le [OF I 0(2)] 0(1) by simp
  moreover have "\<not> it_Valid it input" using bounded_iterator.valid_iff [OF I 0(2)] calculation by simp
  ultimately show ?case
    using 0 by (subst compact_loop.simps) (auto simp: merge_frame_def Status_ok_iff)
next
  case (Suc d)
  have i: "i < length es" using Suc.hyps(2) by simp
  note pos = Suc.prems(1)
  have valid: "it_Valid it input" using bounded_iterator.valid_iff [OF I pos] i by simp
  let ?e = "es ! i" and ?keep = "\<lambda>e. \<not> overwritten c smallest es e \<and> \<not> obsolete smallest (base_level c fm v level) e"
  have split: "es = take i es @ ?e # drop (Suc i) es" using i by (simp add: id_take_nth_drop)
  have dr: "drop i es = ?e # drop (Suc i) es" using i by (simp add: Cons_nth_drop_Suc)
  have tk: "take i es @ [?e] = take (Suc i) es" using i by (simp add: take_Suc_conv_app_nth)
  show ?case
  proof (cases "shutting_down n")
    case True
    then show ?thesis using pos Suc.prems(8) by (subst compact_loop.simps) (auto simp: merge_frame_def Status_ok_iff)
  next
    case False
    have kv: "it_key it input = entry_internal ?e" "it_value it input = e_value ?e" "it_status it input = Status_OK"
      using bounded_iterator.key_at [OF I pos] bounded_iterator.value_at [OF I pos] bounded_iterator.status_at [OF I pos] i
      by (simp_all add: entry_pair_def)
    obtain r ds' st1 where ce: "compact_entry sn ce opts c fm max_file_size Status_OK (entry_internal ?e) (e_value ?e) ds st = Some (r, ds', st1)"
        "env_good ce good \<longrightarrow> Status_ok r" "Status_ok r \<Longrightarrow> merge_frame st st1 \<and> ds_ok c (take i es @ [?e]) ds' \<and>
         (\<forall>x\<in>set (drop (Suc i) es). ptrs_ok c fm v (e_key x) (c_level_ptrs (cs_compaction st1))) \<and>
         (\<exists>kvss' cur'. work_ok sn ce opts st1 kvss' cur' \<and>
            concat kvss' @ cur' = concat kvss @ cur @ (if ?keep ?e then [entry_pair ?e] else []))"
    proof -
      have ok': "entries_ok c (take i es @ ?e # drop (Suc i) es)" using ok split by simp
      have p: "\<forall>x\<in>set (?e # drop (Suc i) es). ptrs_ok c fm v (e_key x) (c_level_ptrs (cs_compaction st))" using Suc.prems(7) dr by simp
      have sm: "cs_smallest_snapshot st < kMaxSequenceNumber" using Suc.prems(3,4) by simp
      have n: "length cur < 2 ^ 64" using Suc.prems(9) i len by simp
      show ?thesis
        using that compact_entry_ok [OF T ok' Suc.prems(2) sm Suc.prems(5) s p Suc.prems(8) n, of max_file_size good]
        unfolding split [symmetric] Suc.prems(3,6) by blast
    qed
    show ?thesis
    proof (cases "Status_ok r")
      case bad: False
      then have "compact_loop sn ce opts c fm max_file_size it shutting_down n input ds st = Some (r, input, n, st1)"
        using valid False kv ce(1) by (subst compact_loop.simps) simp
      then show ?thesis using bad pos ce(2) by blast
    next
      case True
      obtain kvss1 cur1 where 1: "merge_frame st st1" "ds_ok c (take (Suc i) es) ds'"
          "\<forall>x\<in>set (drop (Suc i) es). ptrs_ok c fm v (e_key x) (c_level_ptrs (cs_compaction st1))" "work_ok sn ce opts st1 kvss1 cur1"
          "concat kvss1 @ cur1 = concat kvss @ cur @ (if ?keep ?e then [entry_pair ?e] else [])"
        using ce(3) [OF True] unfolding tk by blast
      obtain input1 where nx: "it_Next it input = Some input1" "pos input1 (Suc i)" using bounded_iterator.next_at [OF I pos] i by auto
      have f: "cs_smallest_snapshot st1 = smallest" "c_input_version (cs_compaction st1) = Some v" "c_level (cs_compaction st1) = level"
        using 1(1) Suc.prems(3,5,6) by (simp_all add: merge_frame_def)
      have d: "d = length es - Suc i" using Suc.hyps(2) by simp
      have l: "length (concat kvss1 @ cur1) \<le> Suc i" unfolding 1(5) using Suc.prems(9) by simp
      obtain r2 input2 m st2 where r2: "compact_loop sn ce opts c fm max_file_size it shutting_down (Suc n) input1 ds' st1 = Some (r2, input2, m, st2)"
          "\<exists>j. pos input2 j" "env_good ce good \<longrightarrow> Status_ok r2" "Status_ok r2 \<longrightarrow> merge_frame st1 st2 \<and>
            (\<exists>kvss' cur'. work_ok sn ce opts st2 kvss' cur' \<and> (shutting_down m \<or> concat kvss' @ cur' = concat kvss1 @ cur1 @
               map entry_pair (filter ?keep (drop (Suc i) es))))"
        using Suc.hyps(1) [OF d nx(2) 1(2) f(1) Suc.prems(4) f(2,3) 1(3,4) l, of "Suc n"] by blast
      have "compact_loop sn ce opts c fm max_file_size it shutting_down n input ds st = Some (r2, input2, m, st2)"
        using valid False kv ce(1) True nx(1) r2(1) by (subst compact_loop.simps) simp
      moreover have cat: "concat kvss1 @ cur1 @ map entry_pair (filter ?keep (drop (Suc i) es)) =
          concat kvss @ cur @ map entry_pair (filter ?keep (drop i es))"
        unfolding dr append_assoc [symmetric] 1(5) by simp
      have "Status_ok r2 \<longrightarrow> merge_frame st st2 \<and>
          (\<exists>kvss' cur'. work_ok sn ce opts st2 kvss' cur' \<and> (shutting_down m \<or> concat kvss' @ cur' = concat kvss @ cur @
             map entry_pair (filter ?keep (drop i es))))"
        using r2(4) [unfolded cat] merge_frame_trans [OF 1(1), of st2] by blast
      ultimately show ?thesis using r2(2,3) by blast
    qed
  qed
qed

text \<open>
  C18.  The merge of a compaction ends for every behaviour of the files and every moment of a shutdown.  If it reports success, every output is the finished
  table of its pairs, built, synced and closed without an error, with its first and last key as bounds, and the outputs in order hold exactly the entries that
  are neither overwritten for every snapshot nor deletions without anything below; they fail to do so only with an error.  Without failures
  and shutdown it succeeds.
\<close>

theorem compaction_outputs:
  fixes ce :: "'w CompactionEnv" and v :: "'f Version"
  assumes "three_way (Compare c)" "entries_ok c es" "bounded_iterator it cmp (map entry_pair es) pos lm" "pos input i" "length es < 2 ^ 64"
    and "\<forall>lvl. 0 < lvl \<longrightarrow> lvl < kNumLevels \<longrightarrow> level_sorted c fm (v_files v ! lvl)"
    and "c_input_version cpt = Some v" "c_level_ptrs cpt = replicate kNumLevels 0"
    and "smallest = (case oldest_snapshot of None \<Rightarrow> last_sequence | Some s \<Rightarrow> s)" "smallest < kMaxSequenceNumber"
    and "\<forall>n. shutting_down n \<longrightarrow> shutting_down (Suc n)"
  shows "\<exists>s st :: ('f, 'w) CompactionState. DoCompactionWork_merge sn ce opts c fm max_file_size it shutting_down oldest_snapshot last_sequence input
        (CompactionState_make cpt next_file_number pending) = Some (s, st) \<and>
    (Status_ok s \<longrightarrow> (\<exists>kvss. outputs_ok sn ce opts (cs_outputs st) (cs_files st) kvss \<and>
       concat kvss = map entry_pair (compact_entries c smallest (base_level c fm v (c_level cpt)) es))) \<and>
    (env_good ce good \<longrightarrow> (\<forall>n. \<not> shutting_down n) \<longrightarrow> Status_ok s)"
proof -
  let ?st = "(CompactionState_make cpt next_file_number pending :: ('f, 'w) CompactionState)\<lparr>cs_smallest_snapshot := smallest\<rparr>"
  obtain input1 where i1: "it_SeekToFirst it input = Some input1" "pos input1 0" using bounded_iterator.seek_first [OF assms(3,4)] by blast
  have w: "work_ok sn ce opts ?st [] []" by (simp add: work_ok_def outputs_ok_def CompactionState_make_def)
  have p: "\<forall>x\<in>set (drop 0 es). ptrs_ok c fm v (e_key x) (c_level_ptrs (cs_compaction ?st))"
    using assms(8) by (simp add: CompactionState_make_def ptrs_ok_start)
  have d: "ds_ok c (take 0 es) DropState_make" by (simp add: ds_ok_def)
  have l: "length (concat ([] :: kv list list) @ []) \<le> 0" by simp
  have lv: "\<And>lvl. 0 < lvl \<Longrightarrow> lvl < kNumLevels \<Longrightarrow> level_sorted c fm (v_files v ! lvl)" using assms(6) by blast
  have st: "cs_smallest_snapshot ?st = smallest" "c_input_version (cs_compaction ?st) = Some v" "c_level (cs_compaction ?st) = c_level cpt"
    using assms(7) by (simp_all add: CompactionState_make_def)
  obtain r input2 m st1 where r: "compact_loop sn ce opts c fm max_file_size it shutting_down 0 input1 DropState_make ?st = Some (r, input2, m, st1)"
      "\<exists>j. pos input2 j" "env_good ce good \<longrightarrow> Status_ok r"
      "Status_ok r \<longrightarrow> merge_frame ?st st1 \<and>
        (\<exists>kvss' cur'. work_ok sn ce opts st1 kvss' cur' \<and> (shutting_down m \<or> concat kvss' @ cur' = concat [] @ [] @
           map entry_pair (filter (\<lambda>e. \<not> overwritten c smallest es e \<and> \<not> obsolete smallest (base_level c fm v (c_level cpt)) e) (drop 0 es))))"
    using compact_loop_ok [OF assms(1-3) lv assms(5) i1(2) d st(1) assms(10) st(2,3) p w l, where max_file_size = max_file_size
        and shutting_down = shutting_down and good = good and n = 0] by blast
  have status: "it_status it input2 = Status_OK" using r(2) bounded_iterator.status_at [OF assms(3)] by blast
  let ?s1 = "if Status_ok r \<and> shutting_down (Suc m) then Status_IOError (lit ''Deleting DB during compaction'') [] else r"
  have s1: "Status_ok ?s1 \<longleftrightarrow> Status_ok r \<and> \<not> shutting_down (Suc m)" by auto
  have ok1: "\<exists>kvss cur. work_ok sn ce opts st1 kvss cur \<and> concat kvss @ cur = map entry_pair (compact_entries c smallest (base_level c fm v (c_level cpt)) es)"
    if "Status_ok ?s1"
    using that r(4) assms(11) unfolding s1 compact_entries_def by (auto simp: Status_ok_iff)
  have "\<exists>s st. (if Status_ok ?s1 \<and> cs_builder st1 \<noteq> None then FinishCompactionOutputFile sn ce (it_status it input2) st1 else Some (?s1, st1)) = Some (s, st) \<and>
      (Status_ok s \<longrightarrow> (\<exists>kvss. outputs_ok sn ce opts (cs_outputs st) (cs_files st) kvss \<and>
         concat kvss = map entry_pair (compact_entries c smallest (base_level c fm v (c_level cpt)) es))) \<and>
      (env_good ce good \<longrightarrow> (\<forall>n. \<not> shutting_down n) \<longrightarrow> Status_ok s)"
  proof (cases "Status_ok ?s1 \<and> cs_builder st1 \<noteq> None")
    case True
    obtain kvss cur where k: "work_ok sn ce opts st1 kvss cur" "concat kvss @ cur = map entry_pair (compact_entries c smallest (base_level c fm v (c_level cpt)) es)"
      using ok1 True by blast
    obtain s st where F: "FinishCompactionOutputFile sn ce Status_OK st1 = Some (s, st)" "same_merge st1 st"
        "Status_ok s \<longrightarrow> work_ok sn ce opts st (kvss @ [cur]) []" "env_good ce good \<longrightarrow> Status_ok s"
      using FinishCompactionOutputFile_ok [OF k(1), of good] True by blast
    have "outputs_ok sn ce opts (cs_outputs st) (cs_files st) (kvss @ [cur])" if "Status_ok s"
      using F(3) that by (auto simp: work_ok_def split: if_splits)
    moreover have "concat (kvss @ [cur]) = map entry_pair (compact_entries c smallest (base_level c fm v (c_level cpt)) es)" using k(2) by simp
    ultimately show ?thesis using True F(1,4) status by (intro exI [of _ s] exI [of _ st]) auto
  next
    case False
    have "\<exists>kvss. outputs_ok sn ce opts (cs_outputs st1) (cs_files st1) kvss \<and>
         concat kvss = map entry_pair (compact_entries c smallest (base_level c fm v (c_level cpt)) es)" if k1: "Status_ok ?s1"
    proof -
      obtain kvss cur where k: "work_ok sn ce opts st1 kvss cur" "concat kvss @ cur = map entry_pair (compact_entries c smallest (base_level c fm v (c_level cpt)) es)"
        using ok1 [OF k1] by blast
      moreover have "cs_builder st1 = None" using False k1 by blast
      ultimately have "cur = []" "outputs_ok sn ce opts (cs_outputs st1) (cs_files st1) kvss" by (simp_all add: work_ok_def)
      with k(2) show ?thesis by auto
    qed
    moreover have "Status_ok ?s1" if "env_good ce good" "\<forall>n. \<not> shutting_down n" using r(3) that s1 by blast
    ultimately show ?thesis using False by (intro exI [of _ ?s1] exI [of _ st1]) auto
  qed
  then obtain s st where S: "(if Status_ok ?s1 \<and> cs_builder st1 \<noteq> None then FinishCompactionOutputFile sn ce (it_status it input2) st1 else Some (?s1, st1)) = Some (s, st)"
      "Status_ok s \<longrightarrow> (\<exists>kvss. outputs_ok sn ce opts (cs_outputs st) (cs_files st) kvss \<and>
         concat kvss = map entry_pair (compact_entries c smallest (base_level c fm v (c_level cpt)) es))"
      "env_good ce good \<longrightarrow> (\<forall>n. \<not> shutting_down n) \<longrightarrow> Status_ok s"
    by blast
  have "DoCompactionWork_merge sn ce opts c fm max_file_size it shutting_down oldest_snapshot last_sequence input
      (CompactionState_make cpt next_file_number pending) = Some (s, st)"
    unfolding DoCompactionWork_merge_def Let_def assms(9) [symmetric] using i1(1) r(1) S(1) status by (simp add: Status_ok_iff)
  with S(2,3) show ?thesis by blast
qed

definition posix_compaction_env :: "PosixWritableFile CompactionEnv" where
  "posix_compaction_env =
     \<lparr>ce_NewWritableFile = (\<lambda>n. (Status_OK, new_file)), ce_file = PosixWritable, ce_Sync = Pair Status_OK, ce_Close = Pair Status_OK,
      ce_table_status = (\<lambda>n k f. Status_OK)\<rparr>"

text \<open>The merge of a deletion and the value below it, while a snapshot from before the deletion is still open: both entries are kept.\<close>

theorem compaction_outputs_witness:
  "\<exists>s st kvss. DoCompactionWork_merge no_snappy posix_compaction_env one_options BytewiseComparator (\<lambda>f. f) 2097152
      (ListIterator (InternalKeyComparator_Compare BytewiseComparator)) (\<lambda>n. False) (Some 1) 2 (map entry_pair [new_entry, old_entry], 0)
      (CompactionState_make ((Compaction_make 2097152 1)\<lparr>c_input_version := Some (Version_make :: FileMetaData Version)\<rparr>) 10 []) = Some (s, st) \<and>
     Status_ok s \<and> outputs_ok no_snappy posix_compaction_env one_options (cs_outputs st) (cs_files st) kvss \<and>
     concat kvss = map entry_pair [new_entry, old_entry]"
proof -
  let ?cpt = "(Compaction_make 2097152 1)\<lparr>c_input_version := Some (Version_make :: FileMetaData Version)\<rparr>"
  have ok: "entries_ok BytewiseComparator [new_entry, old_entry]"
    by (simp add: entries_ok_def entry_before_def new_entry_def old_entry_def kMaxSequenceNumber_eq)
  have p: "list_pos (map entry_pair [new_entry, old_entry]) (map entry_pair [new_entry, old_entry], 0) 0" by (simp add: list_pos_def)
  note I = list_iterator.bounded [of "InternalKeyComparator_Compare BytewiseComparator" "map entry_pair [new_entry, old_entry]"]
  have l: "\<forall>lvl. 0 < lvl \<longrightarrow> lvl < kNumLevels \<longrightarrow> level_sorted BytewiseComparator (\<lambda>f. f) (v_files Version_make ! lvl)"
    by (simp add: Version_make_def level_sorted_def)
  have g: "env_good posix_compaction_env pw_quiet"
    using pw_quiet_never_fails new_file_simps(3) by (simp add: env_good_def posix_compaction_env_def)
  have c: "compact_entries BytewiseComparator 1 base [new_entry, old_entry] = [new_entry, old_entry]" for base
    by (simp add: compact_entries_def overwritten_def obsolete_def new_entry_def old_entry_def word_le_nat_alt)
  have "(1 :: u64) < kMaxSequenceNumber" by (simp add: kMaxSequenceNumber_eq)
  then show ?thesis
    using compaction_outputs [OF bytewise.three_way_axioms ok I p _ l, where cpt = ?cpt and smallest = 1
        and oldest_snapshot = "Some 1" and last_sequence = 2 and shutting_down = "\<lambda>n. False" and sn = no_snappy and ce = posix_compaction_env
        and opts = one_options and max_file_size = 2097152 and next_file_number = 10 and pending = "[]" and good = pw_quiet] g
    by (simp add: Compaction_make_def c) blast
qed

end
