(* ===== verification/Version_Builder.thy ===== *)
theory Version_Builder
  imports Version_Get "HOL-Library.Multiset"
begin

text \<open>
  \<^verbatim>\<open>VersionSet::Builder\<close> of \<^verbatim>\<open>db/version_set.cc\<close>: edits are collected per level and applied to a base version.  Files are shared between
  versions and counted, so they live in a store; a reference is the address of a file.
\<close>

section \<open>Shared files\<close>

type_synonym file_ref = nat

record FileStore =
  fs_mem :: "file_ref \<rightharpoonup> FileMetaData"
  fs_next :: file_ref

abbreviation fm_at :: "FileStore \<Rightarrow> file_ref \<Rightarrow> FileMetaData" where
  "fm_at h f \<equiv> the (fs_mem h f)"

definition new_file_meta :: "FileMetaData \<Rightarrow> FileStore \<Rightarrow> file_ref \<times> FileStore" where
  "new_file_meta m h = (fs_next h, h\<lparr>fs_mem := (fs_mem h)(fs_next h \<mapsto> m), fs_next := fs_next h + 1\<rparr>)"

text \<open>\<open>None\<close>: the file was deleted already.\<close>

definition ref_file :: "file_ref \<Rightarrow> FileStore \<Rightarrow> FileStore option" where
  "ref_file f h =
     (case fs_mem h f of
        None \<Rightarrow> None
      | Some m \<Rightarrow> Some (h\<lparr>fs_mem := (fs_mem h)(f \<mapsto> m\<lparr>fm_refs := fm_refs m + 1\<rparr>)\<rparr>))"

definition unref_file :: "file_ref \<Rightarrow> FileStore \<Rightarrow> FileStore option" where
  "unref_file f h =
     (case fs_mem h f of
        None \<Rightarrow> None
      | Some m \<Rightarrow>
          (let m = m\<lparr>fm_refs := fm_refs m - 1\<rparr>
           in Some (h\<lparr>fs_mem := (fs_mem h)(f := (if fm_refs m \<le> 0 then None else Some m))\<rparr>)))"

primrec fold_option :: "('a \<Rightarrow> 'b \<Rightarrow> 'b option) \<Rightarrow> 'a list \<Rightarrow> 'b \<Rightarrow> 'b option" where
  "fold_option g [] s = Some s"
| "fold_option g (x # xs) s = do { s \<leftarrow> g x s; fold_option g xs s }"

section \<open>The builder\<close>

definition BySmallestKey :: "Comparator \<Rightarrow> ('f \<Rightarrow> FileMetaData) \<Rightarrow> 'f \<Rightarrow> 'f \<Rightarrow> bool" where
  "BySmallestKey c fm f1 f2 =
     (let r = InternalKeyComparator_Compare c (smallest_of fm f1) (smallest_of fm f2)
      in if r \<noteq> 0 then r < 0 else fm_number (fm f1) < fm_number (fm f2))"

text \<open>A set of files ordered by \<^verbatim>\<open>BySmallestKey\<close>; an element that is equivalent to one of the set is not inserted.\<close>

primrec FileSet_insert :: "('f \<Rightarrow> 'f \<Rightarrow> bool) \<Rightarrow> 'f \<Rightarrow> 'f list \<Rightarrow> 'f list" where
  "FileSet_insert lt f [] = [f]"
| "FileSet_insert lt f (x # xs) =
     (if lt x f then x # FileSet_insert lt f xs else if lt f x then f # x # xs else x # xs)"

record LevelState =
  ls_deleted_files :: "u64 set"
  ls_added_files :: "file_ref list"

record Builder =
  b_base :: "file_ref Version"
  b_levels :: "LevelState list"

definition Builder_make :: "file_ref Version \<Rightarrow> Builder" where
  "Builder_make base = \<lparr>b_base = base, b_levels = replicate kNumLevels \<lparr>ls_deleted_files = {}, ls_added_files = []\<rparr>\<rparr>"

text \<open>The parts of \<^verbatim>\<open>Apply\<close>; \<open>None\<close>: a level that does not exist.\<close>

definition apply_pointer :: "int \<times> InternalKey \<Rightarrow> bytes list \<Rightarrow> bytes list option" where
  "apply_pointer p compact_pointer =
     (if level_ok (fst p) then Some (compact_pointer[nat (fst p) := InternalKey_Encode (snd p)]) else None)"

definition update_level :: "int \<Rightarrow> (LevelState \<Rightarrow> LevelState) \<Rightarrow> Builder \<Rightarrow> Builder option" where
  "update_level level g b =
     (if level_ok level then Some (b\<lparr>b_levels := (b_levels b)[nat level := g (b_levels b ! nat level)]\<rparr>) else None)"

definition apply_deleted :: "int \<times> u64 \<Rightarrow> Builder \<Rightarrow> Builder option" where
  "apply_deleted d = update_level (fst d) (\<lambda>l. l\<lparr>ls_deleted_files := insert (snd d) (ls_deleted_files l)\<rparr>)"

definition seeks_allowed :: "u64 \<Rightarrow> int" where
  "seeks_allowed file_size = (let n = sint (ucast (file_size div 16384) :: 32 word) in if n < 100 then 100 else n)"

definition apply_new :: "Comparator \<Rightarrow> int \<times> FileMetaData \<Rightarrow> Builder \<times> FileStore \<Rightarrow> (Builder \<times> FileStore) option" where
  "apply_new c nf bh =
     (let (b, h) = bh;
          (f, h) = new_file_meta ((snd nf)\<lparr>fm_refs := 1, fm_allowed_seeks := seeks_allowed (fm_file_size (snd nf))\<rparr>) h
      in do {
        b \<leftarrow> update_level (fst nf)
               (\<lambda>l. l\<lparr>ls_deleted_files := ls_deleted_files l - {fm_number (snd nf)},
                      ls_added_files := FileSet_insert (BySmallestKey c (fm_at h)) f (ls_added_files l)\<rparr>) b;
        Some (b, h)
      })"

definition Builder_Apply ::
    "Comparator \<Rightarrow> VersionEdit \<Rightarrow> bytes list \<times> Builder \<times> FileStore \<Rightarrow> (bytes list \<times> Builder \<times> FileStore) option" where
  "Builder_Apply c edit st =
     (let (compact_pointer, b, h) = st
      in do {
        compact_pointer \<leftarrow> fold_option apply_pointer (ve_compact_pointers edit) compact_pointer;
        b \<leftarrow> fold_option apply_deleted (ve_deleted_files edit) b;
        (b, h) \<leftarrow> fold_option (apply_new c) (ve_new_files edit) (b, h);
        Some (compact_pointer, b, h)
      })"

text \<open>\<open>None\<close>: the assertion that the files of a level other than zero do not overlap fails.\<close>

definition MaybeAddFile ::
    "Comparator \<Rightarrow> u64 set \<Rightarrow> nat \<Rightarrow> file_ref \<Rightarrow> file_ref list \<times> FileStore \<Rightarrow> (file_ref list \<times> FileStore) option" where
  "MaybeAddFile c deleted_files level f fh =
     (let (files, h) = fh in
      if fm_number (fm_at h f) \<in> deleted_files then Some (files, h)
      else if level > 0 \<and> files \<noteq> [] \<and>
              \<not> InternalKeyComparator_Compare c (largest_of (fm_at h) (last files)) (smallest_of (fm_at h) f) < 0 then None
      else do { h \<leftarrow> ref_file f h; Some (files @ [f], h) })"

text \<open>The order in which the files of a level are visited: before each added file the smaller ones of the base, which \<^verbatim>\<open>upper_bound\<close> finds.\<close>

primrec save_order :: "('f \<Rightarrow> 'f \<Rightarrow> bool) \<Rightarrow> 'f list \<Rightarrow> 'f list \<Rightarrow> 'f list" where
  "save_order lt [] base = base"
| "save_order lt (a # added) base =
     takeWhile (\<lambda>b. \<not> lt a b) base @ a # save_order lt added (dropWhile (\<lambda>b. \<not> lt a b) base)"

definition SaveTo_level ::
    "Comparator \<Rightarrow> Builder \<Rightarrow> nat \<Rightarrow> file_ref Version \<times> FileStore \<Rightarrow> (file_ref Version \<times> FileStore) option" where
  "SaveTo_level c b level vh =
     (let (v, h) = vh; l = b_levels b ! level
      in do {
        (files, h) \<leftarrow> fold_option (MaybeAddFile c (ls_deleted_files l) level)
                        (save_order (BySmallestKey c (fm_at h)) (ls_added_files l) (v_files (b_base b) ! level))
                        (v_files v ! level, h);
        Some (v\<lparr>v_files := (v_files v)[level := files]\<rparr>, h)
      })"

definition Builder_SaveTo :: "Comparator \<Rightarrow> Builder \<Rightarrow> file_ref Version \<times> FileStore \<Rightarrow> (file_ref Version \<times> FileStore) option" where
  "Builder_SaveTo c b = fold_option (SaveTo_level c b) [0..<kNumLevels]"

text \<open>The destructor, without the reference to the base version.\<close>

definition Builder_destroy :: "Builder \<Rightarrow> FileStore \<Rightarrow> FileStore option" where
  "Builder_destroy b = fold_option unref_file (concat (map ls_added_files (b_levels b)))"

section \<open>Reference counts\<close>

text \<open>Every file is there as often as it is counted, and the references are counted by a multiset.\<close>

definition refs_ok :: "FileStore \<Rightarrow> file_ref multiset \<Rightarrow> bool" where
  "refs_ok h M \<longleftrightarrow>
     (\<forall>f. fs_mem h f = None \<longleftrightarrow> f \<notin># M) \<and> (\<forall>f m. fs_mem h f = Some m \<longrightarrow> fm_refs m = int (count M f)) \<and>
     (\<forall>f\<ge>fs_next h. fs_mem h f = None)"

text \<open>What a file is, without its counters: the form in which an edit describes it.\<close>

definition desc :: "FileMetaData \<Rightarrow> FileMetaData" where
  "desc m = m\<lparr>fm_refs := 0, fm_allowed_seeks := 2 ^ 30\<rparr>"

lemma desc_simps [simp]: "fm_number (desc m) = fm_number m" "fm_smallest (desc m) = fm_smallest m" "fm_largest (desc m) = fm_largest m"
  "fm_file_size (desc m) = fm_file_size m" "desc (desc m) = desc m" "desc (m\<lparr>fm_refs := r\<rparr>) = desc m" "desc (m\<lparr>fm_allowed_seeks := a\<rparr>) = desc m"
  by (simp_all add: desc_def)

definition kept :: "FileStore \<Rightarrow> FileStore \<Rightarrow> file_ref multiset \<Rightarrow> bool" where
  "kept h h' M \<longleftrightarrow> (\<forall>f\<in>#M. fs_mem h' f \<noteq> None \<and> desc (fm_at h' f) = desc (fm_at h f))"

lemma kept_trans: "kept h h' M \<Longrightarrow> kept h' h'' M \<Longrightarrow> kept h h'' M"
  by (simp add: kept_def)

lemma kept_subset: "kept h h' M \<Longrightarrow> set_mset M' \<subseteq> set_mset M \<Longrightarrow> kept h h' M'"
  by (auto simp: kept_def)

lemma refs_ok_live: "refs_ok h M \<Longrightarrow> f \<in># M \<Longrightarrow> \<exists>m. fs_mem h f = Some m \<and> fm_refs m = int (count M f) \<and> f < fs_next h"
  unfolding refs_ok_def by (metis not_le not_None_eq)

lemma refs_ok_kept: "refs_ok h M \<Longrightarrow> kept h h M"
  by (auto simp: kept_def dest: refs_ok_live)

lemma refs_ok_update:
  assumes "refs_ok h M" "f < fs_next h" "\<And>g. g \<noteq> f \<Longrightarrow> count M' g = count M g" "x = None \<longleftrightarrow> f \<notin># M'"
    "\<And>m. x = Some m \<Longrightarrow> fm_refs m = int (count M' f)"
  shows "refs_ok (h\<lparr>fs_mem := (fs_mem h)(f := x)\<rparr>) M'"
proof -
  have "g \<in># M' \<longleftrightarrow> g \<in># M" if "g \<noteq> f" for g using assms(3) [OF that] by (metis count_eq_zero_iff)
  then show ?thesis using assms by (auto simp: refs_ok_def)
qed

lemma ref_file_ok:
  assumes "refs_ok h M" "f \<in># M"
  shows "\<exists>h'. ref_file f h = Some h' \<and> refs_ok h' (add_mset f M) \<and> kept h h' M"
proof -
  obtain m where m: "fs_mem h f = Some m" "fm_refs m = int (count M f)" "f < fs_next h" using refs_ok_live [OF assms] by blast
  let ?h = "h\<lparr>fs_mem := (fs_mem h)(f \<mapsto> m\<lparr>fm_refs := fm_refs m + 1\<rparr>)\<rparr>"
  have "refs_ok ?h (add_mset f M)" by (rule refs_ok_update [OF assms(1) m(3)]) (use m in auto)
  moreover have "kept h ?h M" using m refs_ok_live [OF assms(1)] by (auto simp: kept_def)
  ultimately show ?thesis using m(1) by (simp add: ref_file_def)
qed

lemma unref_file_ok:
  assumes "refs_ok h (add_mset f M)"
  shows "\<exists>h'. unref_file f h = Some h' \<and> refs_ok h' M \<and> kept h h' M"
proof -
  obtain m where m: "fs_mem h f = Some m" "fm_refs m = int (count M f) + 1" "f < fs_next h" using refs_ok_live [OF assms, of f] by auto
  let ?x = "if fm_refs m - 1 \<le> 0 then None else Some (m\<lparr>fm_refs := fm_refs m - 1\<rparr>)"
  have "refs_ok (h\<lparr>fs_mem := (fs_mem h)(f := ?x)\<rparr>) M"
    by (rule refs_ok_update [OF assms m(3)]) (use m in \<open>auto simp: count_eq_zero_iff [symmetric] split: if_splits\<close>)
  moreover have "kept h (h\<lparr>fs_mem := (fs_mem h)(f := ?x)\<rparr>) M"
  proof -
    have "\<exists>y. fs_mem h g = Some y" if "g \<in># M" for g using refs_ok_live [OF assms, of g] that by auto
    moreover have "f \<in># M \<Longrightarrow> 0 < fm_refs m - 1" using m(2) by (simp add: count_greater_zero_iff [symmetric] del: count_greater_zero_iff)
    ultimately show ?thesis using m(1) by (auto simp: kept_def)
  qed
  ultimately show ?thesis using m(1) by (simp add: unref_file_def)
qed

lemma unref_files_ok:
  "refs_ok h (mset fs + M) \<Longrightarrow> \<exists>h'. fold_option unref_file fs h = Some h' \<and> refs_ok h' M \<and> kept h h' M"
proof (induction fs arbitrary: h)
  case Nil
  then show ?case using refs_ok_kept by auto
next
  case (Cons f fs)
  obtain h1 where h1: "unref_file f h = Some h1" "refs_ok h1 (mset fs + M)" "kept h h1 (mset fs + M)"
    using unref_file_ok [of h f "mset fs + M"] Cons.prems by auto
  obtain h2 where "fold_option unref_file fs h1 = Some h2" "refs_ok h2 M" "kept h1 h2 M" using Cons.IH [OF h1(2)] by blast
  then show ?case using h1 kept_trans [of h h1 M h2] kept_subset [of h h1 "mset fs + M" M] by auto
qed

lemma new_file_meta_ok:
  assumes "refs_ok h M" "new_file_meta (m\<lparr>fm_refs := 1, fm_allowed_seeks := a\<rparr>) h = (f, h')"
  shows "refs_ok h' (add_mset f M) \<and> kept h h' M \<and> f \<notin># M \<and> desc (fm_at h' f) = desc m"
proof -
  have f: "f = fs_next h" "fs_mem h f = None" "h' = h\<lparr>fs_mem := (fs_mem h)(f \<mapsto> m\<lparr>fm_refs := 1, fm_allowed_seeks := a\<rparr>), fs_next := f + 1\<rparr>"
    using assms by (auto simp: new_file_meta_def refs_ok_def)
  then have n: "f \<notin># M" using assms(1) by (auto simp: refs_ok_def)
  then have "count M f = 0" by (simp add: count_eq_zero_iff)
  then have "refs_ok h' (add_mset f M)" using assms(1) f by (auto simp: refs_ok_def)
  moreover have "kept h h' M" using n f(3) refs_ok_live [OF assms(1)] by (auto simp: kept_def)
  ultimately show ?thesis using n f(3) by simp
qed

section \<open>The order of files\<close>

definition desc_less :: "Comparator \<Rightarrow> FileMetaData \<Rightarrow> FileMetaData \<Rightarrow> bool" where
  "desc_less c = BySmallestKey c (\<lambda>m. m)"

lemma BySmallestKey_desc: "BySmallestKey c fm f g = desc_less c (desc (fm f)) (desc (fm g))"
  by (simp add: BySmallestKey_def desc_less_def)

lemma desc_less_trans:
  assumes T: "three_way (Compare c)" and "desc_less c x y" "desc_less c y z"
  shows "desc_less c x z"
proof -
  note I = internal_three_way_of [OF T]
  show ?thesis
    using assms(2,3) three_way.cmp_trans [OF I, of "InternalKey_Encode (fm_smallest x)" "InternalKey_Encode (fm_smallest y)" "InternalKey_Encode (fm_smallest z)"]
      three_way.cmp_less_le_trans [OF I, of "InternalKey_Encode (fm_smallest x)" "InternalKey_Encode (fm_smallest y)" "InternalKey_Encode (fm_smallest z)"]
      three_way.cmp_le_less_trans [OF I, of "InternalKey_Encode (fm_smallest x)" "InternalKey_Encode (fm_smallest y)" "InternalKey_Encode (fm_smallest z)"]
    by (auto simp: desc_less_def BySmallestKey_def Let_def split: if_splits)
qed

lemma desc_less_total:
  assumes T: "three_way (Compare c)" and "fm_number x \<noteq> fm_number y"
  shows "desc_less c x y \<or> desc_less c y x"
proof -
  note I = internal_three_way_of [OF T]
  show ?thesis
    using assms(2) three_way.cmp_flip_eq [OF I, of "InternalKey_Encode (fm_smallest x)" "InternalKey_Encode (fm_smallest y)"]
      three_way.cmp_flip_ge [OF I, of "InternalKey_Encode (fm_smallest x)" "InternalKey_Encode (fm_smallest y)"]
    by (auto simp: desc_less_def BySmallestKey_def Let_def)
qed

lemma desc_less_irrefl: "three_way (Compare c) \<Longrightarrow> \<not> desc_less c x x"
  using three_way.cmp_refl [OF internal_three_way_of] by (simp add: desc_less_def BySmallestKey_def)

lemma desc_less_asym: "three_way (Compare c) \<Longrightarrow> desc_less c x y \<Longrightarrow> \<not> desc_less c y x"
  using desc_less_trans desc_less_irrefl by blast

text \<open>A strictly sorted list is determined by its elements.\<close>

lemma sorted_unique:
  assumes "\<And>x y. lt x y \<Longrightarrow> \<not> lt y x" "sorted_wrt lt xs" "sorted_wrt lt ys" "set xs = set ys"
  shows "xs = ys"
  using assms(2-4)
proof (induction xs arbitrary: ys)
  case Nil
  then show ?case by simp
next
  case (Cons x xs)
  then obtain y ys' where ys: "ys = y # ys'" by (cases ys) auto
  have "x = y"
  proof (rule ccontr)
    assume "x \<noteq> y"
    then have "x \<in> set ys'" "y \<in> set xs" using Cons.prems(3) ys by auto
    then show False using Cons.prems(1,2) ys assms(1) by auto
  qed
  moreover have "x \<notin> set xs" "y \<notin> set ys'" using Cons.prems(1,2) ys assms(1) by auto
  ultimately have "set xs = set ys'" using Cons.prems(3) ys by auto
  then show ?case using Cons.IH [of ys'] Cons.prems(1,2) ys \<open>x = y\<close> by simp
qed

lemma FileSet_insert_ok:
  assumes tr: "\<And>x y z. lt x y \<Longrightarrow> lt y z \<Longrightarrow> lt x z" and "sorted_wrt lt xs" "\<forall>x\<in>set xs. lt f x \<or> lt x f"
  shows "sorted_wrt lt (FileSet_insert lt f xs) \<and> mset (FileSet_insert lt f xs) = add_mset f (mset xs)"
  using assms(2,3)
proof (induction xs)
  case (Cons x xs)
  then have IH: "sorted_wrt lt (FileSet_insert lt f xs)" "mset (FileSet_insert lt f xs) = add_mset f (mset xs)" by auto
  have s: "set (FileSet_insert lt f xs) = insert f (set xs)" using IH(2) by (metis set_mset_add_mset_insert set_mset_mset)
  show ?case using Cons.prems IH s tr by auto
qed simp

lemma save_order_mset: "mset (save_order lt added base) = mset added + mset base"
proof (induction added arbitrary: base)
  case (Cons a added)
  have "mset (takeWhile P base) + mset (dropWhile P base) = mset base" for P
    by (metis mset_append takeWhile_dropWhile_id)
  then show ?case by (simp add: Cons.IH add.left_commute)
qed simp

lemma save_order_set: "set (save_order lt added base) = set added \<union> set base"
  by (metis save_order_mset set_mset_mset set_mset_union)

lemma save_order_sorted:
  assumes tr: "\<And>x y z. lt x y \<Longrightarrow> lt y z \<Longrightarrow> lt x z"
  shows "sorted_wrt lt added \<Longrightarrow> sorted_wrt lt base \<Longrightarrow> \<forall>a\<in>set added. \<forall>b\<in>set base. lt a b \<or> lt b a \<Longrightarrow>
    sorted_wrt lt (save_order lt added base)"
proof (induction added arbitrary: base)
  case (Cons a added)
  define low high where "low = takeWhile (\<lambda>b. \<not> lt a b) base" and "high = dropWhile (\<lambda>b. \<not> lt a b) base"
  have base: "base = low @ high" by (simp add: low_def high_def)
  have s: "sorted_wrt lt low" "sorted_wrt lt high" "\<forall>x\<in>set low. \<forall>y\<in>set high. lt x y"
    using Cons.prems(2) by (simp_all add: base sorted_wrt_append)
  have low: "lt x a" if "x \<in> set low" for x using that Cons.prems(3) set_takeWhileD [of x] by (fastforce simp: low_def)
  have "high \<noteq> [] \<Longrightarrow> lt a (hd high)" using hd_dropWhile [of "\<lambda>b. \<not> lt a b" base] by (simp add: high_def)
  then have high: "lt a x" if "x \<in> set high" for x using that s(2) tr by (cases high) auto
  have IH: "sorted_wrt lt (save_order lt added high)"
    by (rule Cons.IH) (use Cons.prems(1,3) s(2) base in auto)
  have la: "lt x y" if "x \<in> set low" "y \<in> set added" for x y using low [OF that(1)] Cons.prems(1) that(2) tr by (meson sorted_wrt.simps(2))
  show ?case
    using IH s(1,3) low high la Cons.prems(1) unfolding save_order.simps low_def [symmetric] high_def [symmetric]
    by (auto simp: sorted_wrt_append save_order_set)
qed simp

section \<open>Applying edits\<close>

definition base_files :: "Builder \<Rightarrow> nat \<Rightarrow> file_ref list" where
  "base_files b level = v_files (b_base b) ! level"

definition added_files :: "Builder \<Rightarrow> nat \<Rightarrow> file_ref list" where
  "added_files b level = ls_added_files (b_levels b ! level)"

definition all_added :: "Builder \<Rightarrow> file_ref list" where
  "all_added b = concat (map ls_added_files (b_levels b))"

definition deleted_numbers :: "Builder \<Rightarrow> nat \<Rightarrow> u64 set" where
  "deleted_numbers b level = ls_deleted_files (b_levels b ! level)"

text \<open>The descriptions of the files that are in a level at this point, and the numbers the level has ever had.\<close>

definition view :: "FileStore \<Rightarrow> Builder \<Rightarrow> nat \<Rightarrow> FileMetaData set" where
  "view h b level =
     {m \<in> (\<lambda>f. desc (fm_at h f)) ` (set (added_files b level) \<union> set (base_files b level)). fm_number m \<notin> deleted_numbers b level}"

definition known :: "FileStore \<Rightarrow> Builder \<Rightarrow> nat \<Rightarrow> u64 set" where
  "known h b level = (\<lambda>f. fm_number (fm_at h f)) ` (set (added_files b level) \<union> set (base_files b level))"

text \<open>The invariant: \<open>M\<close> counts the references of the versions.\<close>

definition builder_ok :: "Comparator \<Rightarrow> file_ref multiset \<Rightarrow> Builder \<times> FileStore \<Rightarrow> bool" where
  "builder_ok c M bh \<longleftrightarrow>
     (let (b, h) = bh in
      length (b_levels b) = kNumLevels \<and> refs_ok h (M + mset (all_added b)) \<and>
      (\<forall>level<kNumLevels.
         set (base_files b level) \<subseteq> set_mset M \<and>
         sorted_wrt (BySmallestKey c (fm_at h)) (base_files b level) \<and> sorted_wrt (BySmallestKey c (fm_at h)) (added_files b level) \<and>
         (\<forall>f\<in>set (added_files b level). \<forall>g\<in>set (base_files b level). fm_number (fm_at h f) \<noteq> fm_number (fm_at h g))))"

text \<open>What an edit does to a level.\<close>

definition edit_new :: "VersionEdit \<Rightarrow> nat \<Rightarrow> FileMetaData list" where
  "edit_new e level = map snd (filter (\<lambda>p. fst p = int level) (ve_new_files e))"

definition edit_deleted :: "VersionEdit \<Rightarrow> nat \<Rightarrow> u64 set" where
  "edit_deleted e level = snd ` {p \<in> set (ve_deleted_files e). fst p = int level}"

definition apply_edit :: "nat \<Rightarrow> FileMetaData set \<Rightarrow> VersionEdit \<Rightarrow> FileMetaData set" where
  "apply_edit level S e = {m \<in> S. fm_number m \<notin> edit_deleted e level} \<union> desc ` set (edit_new e level)"

definition edit_levels :: "VersionEdit \<Rightarrow> bool" where
  "edit_levels e \<longleftrightarrow>
     (\<forall>p\<in>set (ve_compact_pointers e). level_ok (fst p)) \<and> (\<forall>p\<in>set (ve_deleted_files e). level_ok (fst p)) \<and>
     (\<forall>p\<in>set (ve_new_files e). level_ok (fst p))"

lemma added_in_all: "length (b_levels b) = kNumLevels \<Longrightarrow> level < kNumLevels \<Longrightarrow> set (added_files b level) \<subseteq> set (all_added b)"
  by (auto simp: added_files_def all_added_def intro!: bexI [of _ "b_levels b ! level"])

lemma concat_update:
  "i < length xs \<Longrightarrow> mset (g y) = mset (g (xs ! i)) + N \<Longrightarrow> mset (concat (map g (xs[i := y]))) = mset (concat (map g xs)) + N"
  by (subst (2) id_take_nth_drop [of i xs]) (simp_all add: upd_conv_take_nth_drop add.assoc add.commute add.left_commute)

lemma builder_okD:
  assumes "builder_ok c M (b, h)"
  shows "length (b_levels b) = kNumLevels" "refs_ok h (M + mset (all_added b))"
    "level < kNumLevels \<Longrightarrow> set (base_files b level) \<subseteq> set_mset M"
    "level < kNumLevels \<Longrightarrow> sorted_wrt (BySmallestKey c (fm_at h)) (base_files b level)"
    "level < kNumLevels \<Longrightarrow> sorted_wrt (BySmallestKey c (fm_at h)) (added_files b level)"
    "level < kNumLevels \<Longrightarrow> f \<in> set (added_files b level) \<Longrightarrow> g \<in> set (base_files b level) \<Longrightarrow> fm_number (fm_at h f) \<noteq> fm_number (fm_at h g)"
  using assms by (simp_all add: builder_ok_def)

lemma kept_number: "kept h h' M \<Longrightarrow> f \<in># M \<Longrightarrow> fm_number (fm_at h' f) = fm_number (fm_at h f)"
  unfolding kept_def by (metis desc_simps(1))

lemma kept_sorted: "kept h h' M \<Longrightarrow> set fs \<subseteq> set_mset M \<Longrightarrow> sorted_wrt (BySmallestKey c (fm_at h)) fs \<Longrightarrow> sorted_wrt (BySmallestKey c (fm_at h')) fs"
  by (erule sorted_wrt_mono_rel [rotated]) (simp add: BySmallestKey_desc kept_def subset_iff)

lemma apply_deleted_ok:
  assumes "builder_ok c M (b, h)" "level_ok (fst d)"
  shows "\<exists>b'. apply_deleted d b = Some b' \<and> builder_ok c M (b', h) \<and> (\<forall>level<kNumLevels. known h b' level = known h b level) \<and>
    (\<forall>level<kNumLevels. view h b' level = (if int level = fst d then {m \<in> view h b level. fm_number m \<noteq> snd d} else view h b level))"
proof -
  let ?l = "nat (fst d)"
  let ?b = "b\<lparr>b_levels := (b_levels b)[?l := (b_levels b ! ?l)\<lparr>ls_deleted_files := insert (snd d) (ls_deleted_files (b_levels b ! ?l))\<rparr>]\<rparr>"
  have l: "?l < kNumLevels" "int ?l = fst d" using assms(2) by (auto simp: level_ok_def)
  note len = builder_okD(1) [OF assms(1)]
  have a: "added_files ?b level = added_files b level" if "level < kNumLevels" for level
    using that len l(1) by (simp add: added_files_def nth_list_update)
  have bs: "base_files ?b = base_files b" by (simp add: base_files_def fun_eq_iff)
  have al: "all_added ?b = all_added b"
    by (simp add: all_added_def map_update) (metis list_update_id map_update)
  have dl: "deleted_numbers ?b level = (if level = ?l then insert (snd d) (deleted_numbers b level) else deleted_numbers b level)" if "level < kNumLevels" for level
    using that len l(1) by (simp add: deleted_numbers_def nth_list_update)
  have "builder_ok c M (?b, h)" using assms(1) a bs al by (simp add: builder_ok_def)
  moreover have "\<forall>level<kNumLevels. known h ?b level = known h b level" using a bs by (simp add: known_def)
  moreover have "view h ?b level = (if int level = fst d then {m \<in> view h b level. fm_number m \<noteq> snd d} else view h b level)" if "level < kNumLevels" for level
  proof -
    have "level = ?l \<longleftrightarrow> int level = fst d" using l(2) by auto
    then show ?thesis using a [OF that] bs dl [OF that] by (auto simp: view_def)
  qed
  ultimately show ?thesis using assms(2) by (simp add: apply_deleted_def update_level_def)
qed

lemma apply_deleteds_ok:
  "builder_ok c M (b, h) \<Longrightarrow> \<forall>d\<in>set ds. level_ok (fst d) \<Longrightarrow>
   \<exists>b'. fold_option apply_deleted ds b = Some b' \<and> builder_ok c M (b', h) \<and> (\<forall>level<kNumLevels. known h b' level = known h b level) \<and>
    (\<forall>level<kNumLevels. view h b' level = {m \<in> view h b level. fm_number m \<notin> snd ` {p \<in> set ds. fst p = int level}})"
proof (induction ds arbitrary: b)
  case (Cons d ds)
  obtain b1 where b1: "apply_deleted d b = Some b1" "builder_ok c M (b1, h)" "\<forall>level<kNumLevels. known h b1 level = known h b level"
      "\<forall>level<kNumLevels. view h b1 level = (if int level = fst d then {m \<in> view h b level. fm_number m \<noteq> snd d} else view h b level)"
    using apply_deleted_ok [OF Cons.prems(1), of d] Cons.prems(2) by auto
  obtain b2 where b2: "fold_option apply_deleted ds b1 = Some b2" "builder_ok c M (b2, h)" "\<forall>level<kNumLevels. known h b2 level = known h b1 level"
      "\<forall>level<kNumLevels. view h b2 level = {m \<in> view h b1 level. fm_number m \<notin> snd ` {p \<in> set ds. fst p = int level}}"
    using Cons.IH [OF b1(2)] Cons.prems(2) by auto
  have "view h b2 level = {m \<in> view h b level. fm_number m \<notin> snd ` {p \<in> set (d # ds). fst p = int level}}" if "level < kNumLevels" for level
    using b1(4) b2(4) that by (auto split: if_splits)
  then show ?case using b1 b2 by auto
qed simp

lemma kept_parts:
  assumes "kept h h' (M + mset (all_added b))" "builder_ok c M (b, h)" "level < kNumLevels"
  shows "f \<in> set (added_files b level) \<union> set (base_files b level) \<Longrightarrow> desc (fm_at h' f) = desc (fm_at h f)"
  using assms(1) added_in_all [OF builder_okD(1) [OF assms(2)] assms(3)] builder_okD(3) [OF assms(2,3)] by (auto simp: kept_def)

lemma known_mem: "f \<in> set (added_files b level) \<union> set (base_files b level) \<Longrightarrow> fm_number (fm_at h f) \<in> known h b level"
  by (simp add: known_def)

lemma apply_new_ok:
  assumes T: "three_way (Compare c)" and B: "builder_ok c M (b, h)" and lv: "level_ok (fst p)"
    and fresh: "fm_number (snd p) \<notin> known h b (nat (fst p))"
  shows "\<exists>b' h'. apply_new c p (b, h) = Some (b', h') \<and> builder_ok c M (b', h') \<and> kept h h' M \<and>
    (\<forall>level<kNumLevels. known h' b' level = (if int level = fst p then insert (fm_number (snd p)) (known h b level) else known h b level)) \<and>
    (\<forall>level<kNumLevels. view h' b' level = (if int level = fst p then insert (desc (snd p)) (view h b level) else view h b level))"
proof -
  let ?l = "nat (fst p)" and ?m = "(snd p)\<lparr>fm_refs := 1, fm_allowed_seeks := seeks_allowed (fm_file_size (snd p))\<rparr>"
  note len = builder_okD(1) [OF B]
  have l: "?l < kNumLevels" "int ?l = fst p" using lv by (auto simp: level_ok_def)
  obtain f h1 where f: "new_file_meta ?m h = (f, h1)" by fastforce
  note n = new_file_meta_ok [OF builder_okD(2) [OF B] f]
  have k: "kept h h1 (M + mset (all_added b))" using n by blast
  have same: "desc (fm_at h1 g) = desc (fm_at h g)" if "level < kNumLevels" "g \<in> set (added_files b level) \<union> set (base_files b level)" for g level
    using kept_parts [OF k B that(1)] that(2) by blast
  have num: "fm_number (fm_at h1 g) = fm_number (fm_at h g)" if "level < kNumLevels" "g \<in> set (added_files b level) \<union> set (base_files b level)" for g level
    using same [OF that] by (metis desc_simps(1))
  have fnum: "fm_number (fm_at h1 f) = fm_number (snd p)" using n by (metis desc_simps(1))
  let ?lt = "BySmallestKey c (fm_at h1)"
  let ?ls = "b_levels b ! ?l"
  let ?new = "?ls\<lparr>ls_deleted_files := ls_deleted_files ?ls - {fm_number (snd p)}, ls_added_files := FileSet_insert ?lt f (ls_added_files ?ls)\<rparr>"
  let ?b = "b\<lparr>b_levels := (b_levels b)[?l := ?new]\<rparr>"
  have srt: "sorted_wrt ?lt (added_files b level)" "sorted_wrt ?lt (base_files b level)" if "level < kNumLevels" for level
    using kept_sorted [OF k _ builder_okD(5) [OF B that]] kept_sorted [OF k _ builder_okD(4) [OF B that]] added_in_all [OF len that]
      builder_okD(3) [OF B that] by auto
  have "\<forall>x\<in>set (added_files b ?l). ?lt f x \<or> ?lt x f"
  proof
    fix x assume x: "x \<in> set (added_files b ?l)"
    then have "fm_number (fm_at h1 x) \<noteq> fm_number (snd p)" using num [OF l(1), of x] fresh known_mem [of x b ?l h] by auto
    then show "?lt f x \<or> ?lt x f"
      using desc_less_total [OF T, of "desc (fm_at h1 f)" "desc (fm_at h1 x)"] fnum by (simp add: BySmallestKey_desc)
  qed
  then have ins: "sorted_wrt ?lt (FileSet_insert ?lt f (added_files b ?l))"
      "mset (FileSet_insert ?lt f (added_files b ?l)) = add_mset f (mset (added_files b ?l))"
    using FileSet_insert_ok [of ?lt "added_files b ?l" f] srt(1) [OF l(1)] desc_less_trans [OF T] by (simp_all add: BySmallestKey_desc)
  have a: "added_files ?b level = (if level = ?l then FileSet_insert ?lt f (added_files b level) else added_files b level)" if "level < kNumLevels" for level
    using that len l(1) by (simp add: added_files_def nth_list_update)
  have as: "set (added_files ?b level) = (if level = ?l then insert f (set (added_files b level)) else set (added_files b level))" if "level < kNumLevels" for level
    using a [OF that] arg_cong [OF ins(2), of set_mset] by auto
  have bs: "base_files ?b = base_files b" by (simp add: base_files_def fun_eq_iff)
  have dl: "deleted_numbers ?b level = (if level = ?l then deleted_numbers b level - {fm_number (snd p)} else deleted_numbers b level)" if "level < kNumLevels" for level
    using that len l(1) by (simp add: deleted_numbers_def nth_list_update)
  have al: "mset (all_added ?b) = add_mset f (mset (all_added b))"
    using concat_update [of ?l "b_levels b" ls_added_files ?new "{#f#}"] ins(2) len l(1) by (simp add: all_added_def added_files_def)
  have app: "apply_new c p (b, h) = Some (?b, h1)" using lv f by (simp add: apply_new_def update_level_def)
  have ok: "builder_ok c M (?b, h1)"
    unfolding builder_ok_def prod.case Let_def
  proof (intro conjI allI impI)
    show "length (b_levels ?b) = kNumLevels" using len by simp
    show "refs_ok h1 (M + mset (all_added ?b))" using n al by simp
    fix level assume lt: "level < kNumLevels"
    show "set (base_files ?b level) \<subseteq> set_mset M" using builder_okD(3) [OF B lt] bs by simp
    show "sorted_wrt ?lt (base_files ?b level)" using srt(2) [OF lt] bs by simp
    show "sorted_wrt ?lt (added_files ?b level)" using srt(1) [OF lt] ins(1) a [OF lt] by simp
    have "fm_number (fm_at h1 x) \<noteq> fm_number (fm_at h1 y)" if "x \<in> set (added_files b level)" "y \<in> set (base_files b level)" for x y
      using builder_okD(6) [OF B lt that] num [OF lt, of x] num [OF lt, of y] that by auto
    moreover have "fm_number (snd p) \<noteq> fm_number (fm_at h1 y)" if "y \<in> set (base_files b ?l)" for y
      using fresh that num [OF l(1), of y] known_mem [of y b ?l h] by auto
    ultimately show "\<forall>x\<in>set (added_files ?b level). \<forall>y\<in>set (base_files ?b level). fm_number (fm_at h1 x) \<noteq> fm_number (fm_at h1 y)"
      using as [OF lt] bs fnum by (auto split: if_splits)
  qed
  have lev: "level = ?l \<longleftrightarrow> int level = fst p" for level using l(2) by auto
  have kn: "known h1 ?b level = (if int level = fst p then insert (fm_number (snd p)) (known h b level) else known h b level)" if lt: "level < kNumLevels" for level
  proof -
    have "(\<lambda>g. fm_number (fm_at h1 g)) ` (set (added_files b level) \<union> set (base_files b level)) = known h b level"
      using num [OF lt] by (auto simp: known_def intro!: image_cong)
    then show ?thesis using as [OF lt] bs fnum lev [of level] by (auto simp: known_def image_Un)
  qed
  have vw: "view h1 ?b level = (if int level = fst p then insert (desc (snd p)) (view h b level) else view h b level)" if lt: "level < kNumLevels" for level
  proof -
    let ?S = "(\<lambda>g. desc (fm_at h g)) ` (set (added_files b level) \<union> set (base_files b level))"
    have S: "(\<lambda>g. desc (fm_at h1 g)) ` (set (added_files b level) \<union> set (base_files b level)) = ?S"
      using same [OF lt] by (auto intro!: image_cong)
    show ?thesis
    proof (cases "level = ?l")
      case False
      then show ?thesis using S as [OF lt] bs dl [OF lt] lev [of level] by (simp add: view_def)
    next
      case True
      have no: "fm_number x \<noteq> fm_number (snd p)" if "x \<in> ?S" for x
        using fresh that True known_mem [of _ b level h] by fastforce
      have img: "(\<lambda>g. desc (fm_at h1 g)) ` (set (added_files ?b level) \<union> set (base_files ?b level)) = insert (desc (snd p)) ?S"
        using S as [OF lt] True bs n by auto
      have "view h1 ?b level = insert (desc (snd p)) {m \<in> ?S. fm_number m \<notin> deleted_numbers b level}"
        unfolding view_def img using dl [OF lt] True no by auto
      then show ?thesis using True lev [of level] by (simp add: view_def)
    qed
  qed
  show ?thesis using app ok kn vw kept_subset [OF k, of M] by auto
qed

lemma apply_news_ok:
  assumes T: "three_way (Compare c)"
  shows "builder_ok c M (b, h) \<Longrightarrow> \<forall>p\<in>set ps. level_ok (fst p) \<Longrightarrow> distinct (map (\<lambda>p. (fst p, fm_number (snd p))) ps) \<Longrightarrow>
    \<forall>p\<in>set ps. fm_number (snd p) \<notin> known h b (nat (fst p)) \<Longrightarrow>
    \<exists>b' h'. fold_option (apply_new c) ps (b, h) = Some (b', h') \<and> builder_ok c M (b', h') \<and> kept h h' M \<and>
      (\<forall>level<kNumLevels. known h' b' level = known h b level \<union> (\<lambda>p. fm_number (snd p)) ` {p \<in> set ps. fst p = int level}) \<and>
      (\<forall>level<kNumLevels. view h' b' level = view h b level \<union> (\<lambda>p. desc (snd p)) ` {p \<in> set ps. fst p = int level})"
proof (induction ps arbitrary: b h)
  case Nil
  have "kept h h M" using refs_ok_kept [OF builder_okD(2) [OF Nil.prems(1)]] by (rule kept_subset) simp
  then show ?case using Nil by simp
next
  case (Cons p ps)
  obtain b1 h1 where 1: "apply_new c p (b, h) = Some (b1, h1)" "builder_ok c M (b1, h1)" "kept h h1 M"
      "\<forall>level<kNumLevels. known h1 b1 level = (if int level = fst p then insert (fm_number (snd p)) (known h b level) else known h b level)"
      "\<forall>level<kNumLevels. view h1 b1 level = (if int level = fst p then insert (desc (snd p)) (view h b level) else view h b level)"
    using apply_new_ok [OF T Cons.prems(1), of p] Cons.prems(2,4) by auto
  have "fm_number (snd q) \<notin> known h1 b1 (nat (fst q))" if q: "q \<in> set ps" for q
  proof -
    have "nat (fst q) < kNumLevels" "int (nat (fst q)) = fst q" using Cons.prems(2) q by (auto simp: level_ok_def)
    then show ?thesis using 1(4) Cons.prems(3,4) q by (auto simp: image_iff split: if_splits)
  qed
  then obtain b2 h2 where 2: "fold_option (apply_new c) ps (b1, h1) = Some (b2, h2)" "builder_ok c M (b2, h2)" "kept h1 h2 M"
      "\<forall>level<kNumLevels. known h2 b2 level = known h1 b1 level \<union> (\<lambda>p. fm_number (snd p)) ` {p \<in> set ps. fst p = int level}"
      "\<forall>level<kNumLevels. view h2 b2 level = view h1 b1 level \<union> (\<lambda>p. desc (snd p)) ` {p \<in> set ps. fst p = int level}"
    using Cons.IH [OF 1(2)] Cons.prems(2,3) by auto
  have sel: "{q \<in> set (p # ps). fst q = l} = (if fst p = l then insert p {q \<in> set ps. fst q = l} else {q \<in> set ps. fst q = l})" for l by auto
  have "fold_option (apply_new c) (p # ps) (b, h) = Some (b2, h2)" using 1(1) 2(1) by simp
  moreover have "\<forall>level<kNumLevels. known h2 b2 level = known h b level \<union> (\<lambda>p. fm_number (snd p)) ` {q \<in> set (p # ps). fst q = int level}"
    using 1(4) 2(4) unfolding sel by auto
  moreover have "\<forall>level<kNumLevels. view h2 b2 level = view h b level \<union> (\<lambda>p. desc (snd p)) ` {q \<in> set (p # ps). fst q = int level}"
    using 1(5) 2(5) unfolding sel by auto
  ultimately show ?case using 2(2) kept_trans [OF 1(3) 2(3)] by blast
qed

lemma apply_pointers_ok: "\<forall>p\<in>set ps. level_ok (fst p) \<Longrightarrow>
    fold_option apply_pointer ps cp = Some (foldl (\<lambda>cp p. cp[nat (fst p) := InternalKey_Encode (snd p)]) cp ps)"
  by (induction ps arbitrary: cp) (simp_all add: apply_pointer_def)

text \<open>An edit is applied as it says, if the numbers of its new files are new in their levels.\<close>

definition new_numbers :: "VersionEdit \<Rightarrow> nat \<Rightarrow> u64 set" where
  "new_numbers e level = fm_number ` set (edit_new e level)"

definition fresh_edit :: "(nat \<Rightarrow> u64 set) \<Rightarrow> VersionEdit \<Rightarrow> bool" where
  "fresh_edit used e \<longleftrightarrow>
     edit_levels e \<and> distinct (map (\<lambda>p. (fst p, fm_number (snd p))) (ve_new_files e)) \<and>
     (\<forall>level<kNumLevels. new_numbers e level \<inter> used level = {})"

definition pointers_after :: "VersionEdit \<Rightarrow> bytes list \<Rightarrow> bytes list" where
  "pointers_after e cp = foldl (\<lambda>cp p. cp[nat (fst p) := InternalKey_Encode (snd p)]) cp (ve_compact_pointers e)"

lemma Builder_Apply_ok:
  assumes T: "three_way (Compare c)" and B: "builder_ok c M (b, h)" and e: "fresh_edit (known h b) e"
  shows "\<exists>b' h'. Builder_Apply c e (cp, b, h) = Some (pointers_after e cp, b', h') \<and> builder_ok c M (b', h') \<and> kept h h' M \<and>
    (\<forall>level<kNumLevels. known h' b' level = known h b level \<union> new_numbers e level) \<and>
    (\<forall>level<kNumLevels. view h' b' level = apply_edit level (view h b level) e)"
proof -
  have lv: "edit_levels e" using e by (simp add: fresh_edit_def)
  obtain b1 where 1: "fold_option apply_deleted (ve_deleted_files e) b = Some b1" "builder_ok c M (b1, h)"
      "\<forall>level<kNumLevels. known h b1 level = known h b level"
      "\<forall>level<kNumLevels. view h b1 level = {m \<in> view h b level. fm_number m \<notin> edit_deleted e level}"
    using apply_deleteds_ok [OF B, of "ve_deleted_files e"] lv by (auto simp: edit_levels_def edit_deleted_def)
  have "fm_number (snd p) \<notin> known h b1 (nat (fst p))" if p: "p \<in> set (ve_new_files e)" for p
  proof -
    have l: "nat (fst p) < kNumLevels" "fst p = int (nat (fst p))" using lv p by (auto simp: edit_levels_def level_ok_def)
    then have "snd p \<in> set (edit_new e (nat (fst p)))" using p by (auto simp: edit_new_def)
    then have "fm_number (snd p) \<in> new_numbers e (nat (fst p))" by (simp add: new_numbers_def)
    then show ?thesis using e l(1) 1(3) unfolding fresh_edit_def by blast
  qed
  then obtain b2 h2 where 2: "fold_option (apply_new c) (ve_new_files e) (b1, h) = Some (b2, h2)" "builder_ok c M (b2, h2)" "kept h h2 M"
      "\<forall>level<kNumLevels. known h2 b2 level = known h b1 level \<union> (\<lambda>p. fm_number (snd p)) ` {p \<in> set (ve_new_files e). fst p = int level}"
      "\<forall>level<kNumLevels. view h2 b2 level = view h b1 level \<union> (\<lambda>p. desc (snd p)) ` {p \<in> set (ve_new_files e). fst p = int level}"
    using apply_news_ok [OF T 1(2), of "ve_new_files e"] e lv by (auto simp: fresh_edit_def edit_levels_def)
  have "Builder_Apply c e (cp, b, h) = Some (pointers_after e cp, b2, h2)"
    using lv 1(1) 2(1) by (simp add: Builder_Apply_def apply_pointers_ok edit_levels_def pointers_after_def)
  moreover have "\<forall>level<kNumLevels. known h2 b2 level = known h b level \<union> new_numbers e level"
    using 1(3) 2(4) by (auto simp: new_numbers_def edit_new_def)
  moreover have "\<forall>level<kNumLevels. view h2 b2 level = apply_edit level (view h b level) e"
    using 1(4) 2(5) by (auto simp: apply_edit_def edit_new_def)
  ultimately show ?thesis using 2(2,3) by blast
qed

section \<open>Saving the result\<close>

definition saved :: "Comparator \<Rightarrow> FileStore \<Rightarrow> Builder \<Rightarrow> nat \<Rightarrow> file_ref list" where
  "saved c h b level =
     filter (\<lambda>f. fm_number (fm_at h f) \<notin> deleted_numbers b level)
       (save_order (BySmallestKey c (fm_at h)) (added_files b level) (base_files b level))"

abbreviation disjoint_files :: "Comparator \<Rightarrow> FileStore \<Rightarrow> file_ref \<Rightarrow> file_ref \<Rightarrow> bool" where
  "disjoint_files c h f g \<equiv> InternalKeyComparator_Compare c (largest_of (fm_at h) f) (smallest_of (fm_at h) g) < 0"

lemma save_order_cong:
  "\<forall>x\<in>set added \<union> set base. \<forall>y\<in>set added \<union> set base. lt x y = lt' x y \<Longrightarrow> save_order lt added base = save_order lt' added base"
proof (induction added arbitrary: base)
  case (Cons a added)
  have t: "takeWhile (\<lambda>b. \<not> lt a b) base = takeWhile (\<lambda>b. \<not> lt' a b) base" "dropWhile (\<lambda>b. \<not> lt a b) base = dropWhile (\<lambda>b. \<not> lt' a b) base"
    using Cons.prems by (auto intro!: takeWhile_cong dropWhile_cong)
  have "save_order lt added (dropWhile (\<lambda>b. \<not> lt' a b) base) = save_order lt' added (dropWhile (\<lambda>b. \<not> lt' a b) base)"
    by (rule Cons.IH) (use Cons.prems set_dropWhileD [of _ "\<lambda>b. \<not> lt' a b" base] in auto)
  then show ?case by (simp add: t)
qed simp

lemma saved_cong:
  assumes "\<And>f. f \<in> set (added_files b level) \<union> set (base_files b level) \<Longrightarrow> desc (fm_at h' f) = desc (fm_at h f)"
  shows "saved c h' b level = saved c h b level"
proof -
  have o: "save_order (BySmallestKey c (fm_at h')) (added_files b level) (base_files b level) =
      save_order (BySmallestKey c (fm_at h)) (added_files b level) (base_files b level)"
    by (rule save_order_cong) (use assms in \<open>simp add: BySmallestKey_desc\<close>)
  show ?thesis unfolding saved_def o
    by (rule filter_cong [OF refl]) (metis assms desc_simps(1) save_order_set)
qed

lemma saved_set: "(\<lambda>f. desc (fm_at h f)) ` set (saved c h b level) = view h b level"
  by (auto simp: saved_def view_def save_order_set)

lemma saved_sorted:
  assumes T: "three_way (Compare c)" and B: "builder_ok c M (b, h)" and l: "level < kNumLevels"
  shows "sorted_wrt (BySmallestKey c (fm_at h)) (saved c h b level)"
  unfolding saved_def
proof (intro sorted_wrt_filter save_order_sorted)
  show "BySmallestKey c (fm_at h) x z" if "BySmallestKey c (fm_at h) x y" "BySmallestKey c (fm_at h) y z" for x y z
    using that desc_less_trans [OF T] by (simp add: BySmallestKey_desc)
  show "\<forall>a\<in>set (added_files b level). \<forall>d\<in>set (base_files b level). BySmallestKey c (fm_at h) a d \<or> BySmallestKey c (fm_at h) d a"
    using builder_okD(6) [OF B l] desc_less_total [OF T] by (simp add: BySmallestKey_desc)
qed (use builder_okD(4,5) [OF B l] in auto)

lemma MaybeAddFiles_ok:
  assumes "\<forall>f\<in>set fs. f \<in># M" "kept h0 h M" "refs_ok h (M + mset files)" "set files \<subseteq> set_mset M"
    and "0 < level \<Longrightarrow> sorted_wrt (disjoint_files c h0) (files @ filter (\<lambda>f. fm_number (fm_at h0 f) \<notin> ds) fs)"
  shows "\<exists>h'. fold_option (MaybeAddFile c ds level) fs (files, h) = Some (files @ filter (\<lambda>f. fm_number (fm_at h0 f) \<notin> ds) fs, h') \<and>
    kept h0 h' M \<and> refs_ok h' (M + mset (files @ filter (\<lambda>f. fm_number (fm_at h0 f) \<notin> ds) fs))"
  using assms
proof (induction fs arbitrary: files h)
  case (Cons f fs)
  have num: "fm_number (fm_at h f) = fm_number (fm_at h0 f)" using kept_number [OF Cons.prems(2)] Cons.prems(1) by simp
  show ?case
  proof (cases "fm_number (fm_at h0 f) \<in> ds")
    case True
    then have "MaybeAddFile c ds level f (files, h) = Some (files, h)" using num by (simp add: MaybeAddFile_def)
    then show ?thesis using Cons.IH [OF _ Cons.prems(2-4)] Cons.prems(1,5) True by simp
  next
    case False
    have key: "smallest_of (fm_at h) g = smallest_of (fm_at h0) g" "largest_of (fm_at h) g = largest_of (fm_at h0) g" if "g \<in># M" for g
      using Cons.prems(2) that unfolding kept_def by (metis desc_simps(2,3))+
    have "disjoint_files c h (last files) f" if "0 < level" "files \<noteq> []"
    proof -
      have "disjoint_files c h0 (last files) f" using Cons.prems(5) that False by (simp add: sorted_wrt_append)
      moreover have "last files \<in># M" using Cons.prems(4) that by (auto dest!: subsetD)
      ultimately show ?thesis using key [of f] key [of "last files"] Cons.prems(1) by simp
    qed
    moreover obtain h1 where h1: "ref_file f h = Some h1" "refs_ok h1 (add_mset f (M + mset files))" "kept h h1 (M + mset files)"
      using ref_file_ok [OF Cons.prems(3), of f] Cons.prems(1) by auto
    ultimately have step: "MaybeAddFile c ds level f (files, h) = Some (files @ [f], h1)" using num False by (auto simp: MaybeAddFile_def)
    have k1: "kept h0 h1 M" using kept_trans [OF Cons.prems(2) kept_subset [OF h1(3)]] by simp
    show ?thesis
      using Cons.IH [OF _ k1, of "files @ [f]"] Cons.prems(1,4,5) h1(2) step False by simp
  qed
qed simp

lemma SaveTo_level_ok:
  assumes B: "builder_ok c M (b, h)" and l: "level < kNumLevels" and k: "kept h h1 (M + mset (all_added b))"
    and r: "refs_ok h1 (M + mset (all_added b) + N)" "set_mset N \<subseteq> set_mset (M + mset (all_added b))" and v: "v_files v ! level = []" "level < length (v_files v)"
    and d: "0 < level \<Longrightarrow> sorted_wrt (disjoint_files c h) (saved c h b level)"
  shows "\<exists>h2. SaveTo_level c b level (v, h1) = Some (v\<lparr>v_files := (v_files v)[level := saved c h b level]\<rparr>, h2) \<and>
    kept h h2 (M + mset (all_added b)) \<and> refs_ok h2 (M + mset (all_added b) + N + mset (saved c h b level))"
proof -
  let ?A = "M + mset (all_added b)"
  let ?fs = "save_order (BySmallestKey c (fm_at h)) (added_files b level) (base_files b level)"
  have sub: "set (added_files b level) \<union> set (base_files b level) \<subseteq> set_mset ?A"
    using added_in_all [OF builder_okD(1) [OF B] l] builder_okD(3) [OF B l] by auto
  have o: "save_order (BySmallestKey c (fm_at h1)) (added_files b level) (base_files b level) = ?fs"
    by (rule save_order_cong) (use k sub in \<open>auto simp: BySmallestKey_desc kept_def subset_iff\<close>)
  have fs: "\<forall>f\<in>set ?fs. f \<in># ?A + N" using sub by (auto simp: save_order_set)
  have k': "kept h h1 (?A + N)" using kept_subset [OF k] r(2) by auto
  have r': "refs_ok h1 (?A + N + mset [])" using r(1) by simp
  have d': "0 < level \<Longrightarrow> sorted_wrt (disjoint_files c h) ([] @ filter (\<lambda>f. fm_number (fm_at h f) \<notin> deleted_numbers b level) ?fs)"
    using d by (simp add: saved_def)
  obtain h2 where h2: "fold_option (MaybeAddFile c (deleted_numbers b level) level) ?fs ([], h1) = Some (saved c h b level, h2)"
      "kept h h2 (?A + N)" "refs_ok h2 (?A + N + mset (saved c h b level))"
    using MaybeAddFiles_ok [OF fs k' r' _ d'] unfolding saved_def by auto
  have "SaveTo_level c b level (v, h1) = Some (v\<lparr>v_files := (v_files v)[level := saved c h b level]\<rparr>, h2)"
    using h2(1) v o by (simp add: SaveTo_level_def Let_def added_files_def base_files_def deleted_numbers_def)
  then show ?thesis using h2(3) kept_subset [OF h2(2), of ?A] by auto
qed

lemma SaveTo_levels_ok:
  assumes B: "builder_ok c M (b, h)" and d: "\<And>level. 0 < level \<Longrightarrow> level < kNumLevels \<Longrightarrow> sorted_wrt (disjoint_files c h) (saved c h b level)"
  shows "distinct ls \<Longrightarrow> \<forall>l\<in>set ls. l < kNumLevels \<and> v_files v ! l = [] \<Longrightarrow> length (v_files v) = kNumLevels \<Longrightarrow>
    kept h h1 (M + mset (all_added b)) \<Longrightarrow> refs_ok h1 (M + mset (all_added b) + N) \<Longrightarrow> set_mset N \<subseteq> set_mset (M + mset (all_added b)) \<Longrightarrow>
    \<exists>v' h2. fold_option (SaveTo_level c b) ls (v, h1) = Some (v', h2) \<and> kept h h2 (M + mset (all_added b)) \<and>
      (\<exists>fs. v' = v\<lparr>v_files := fs\<rparr> \<and> length fs = kNumLevels \<and> (\<forall>l<kNumLevels. fs ! l = (if l \<in> set ls then saved c h b l else v_files v ! l))) \<and>
      refs_ok h2 (M + mset (all_added b) + N + mset (concat (map (saved c h b) ls)))"
proof (induction ls arbitrary: v h1 N)
  case Nil
  then show ?case by (intro exI [of _ v] exI [of _ h1] conjI exI [of _ "v_files v"]) auto
next
  case (Cons l ls)
  let ?A = "M + mset (all_added b)" and ?v = "v\<lparr>v_files := (v_files v)[l := saved c h b l]\<rparr>"
  have l: "l < kNumLevels" "v_files v ! l = []" using Cons.prems(2) by auto
  obtain h2 where h2: "SaveTo_level c b l (v, h1) = Some (?v, h2)" "kept h h2 ?A" "refs_ok h2 (?A + (N + mset (saved c h b l)))"
    using SaveTo_level_ok [OF B l(1) Cons.prems(4-6) l(2) _ d] l(1) Cons.prems(3) by (auto simp: add.assoc)
  have sub: "set_mset (N + mset (saved c h b l)) \<subseteq> set_mset ?A"
    using Cons.prems(6) added_in_all [OF builder_okD(1) [OF B] l(1)] builder_okD(3) [OF B l(1)] by (auto simp: saved_def save_order_set)
  have e: "\<forall>l'\<in>set ls. l' < kNumLevels \<and> v_files ?v ! l' = []" using Cons.prems(1-3) by (auto simp: nth_list_update)
  obtain v' h3 fs where 3: "fold_option (SaveTo_level c b) ls (?v, h2) = Some (v', h3)" "kept h h3 ?A" "v' = ?v\<lparr>v_files := fs\<rparr>" "length fs = kNumLevels"
      "\<forall>l'<kNumLevels. fs ! l' = (if l' \<in> set ls then saved c h b l' else v_files ?v ! l')"
      "refs_ok h3 (?A + (N + mset (saved c h b l)) + mset (concat (map (saved c h b) ls)))"
    using Cons.IH [OF _ e _ h2(2,3) sub] Cons.prems(1,3) by auto
  have "fs ! l' = (if l' \<in> set (l # ls) then saved c h b l' else v_files v ! l')" if "l' < kNumLevels" for l'
    using 3(5) that Cons.prems(1,3) by (auto simp: nth_list_update)
  moreover have "refs_ok h3 (?A + N + mset (concat (map (saved c h b) (l # ls))))" using 3(6) by (simp add: add.assoc)
  ultimately show ?case using h2(1) 3(1-4) by auto
qed

lemma Builder_SaveTo_ok:
  assumes B: "builder_ok c M (b, h)" and d: "\<And>level. 0 < level \<Longrightarrow> level < kNumLevels \<Longrightarrow> sorted_wrt (disjoint_files c h) (saved c h b level)"
  shows "\<exists>v h2. Builder_SaveTo c b (Version_make, h) = Some (v, h2) \<and> v = Version_make\<lparr>v_files := map (saved c h b) [0..<kNumLevels]\<rparr> \<and>
    kept h h2 (M + mset (all_added b)) \<and> refs_ok h2 (M + mset (all_added b) + mset (concat (v_files v)))"
proof -
  have r: "refs_ok h (M + mset (all_added b) + {#})" using builder_okD(2) [OF B] by simp
  have e: "\<forall>l\<in>set [0..<kNumLevels]. l < kNumLevels \<and> v_files Version_make ! l = []" "length (v_files Version_make) = kNumLevels" by (simp_all add: Version_make_def)
  obtain h2 fs where "Builder_SaveTo c b (Version_make, h) = Some (Version_make\<lparr>v_files := fs\<rparr>, h2)" "kept h h2 (M + mset (all_added b))"
      and fs: "length fs = kNumLevels" "\<forall>l<kNumLevels. fs ! l = saved c h b l"
      and "refs_ok h2 (M + mset (all_added b) + mset (concat (map (saved c h b) [0..<kNumLevels])))"
    using SaveTo_levels_ok [OF B d _ e refs_ok_kept [OF builder_okD(2) [OF B]] r] unfolding Builder_SaveTo_def by auto
  moreover have "fs = map (saved c h b) [0..<kNumLevels]" using fs by (intro nth_equalityI) auto
  ultimately show ?thesis by auto
qed

text \<open>A whole round: a builder on a version, a list of edits, the new version, and the builder is gone.\<close>

definition Builder_run ::
    "Comparator \<Rightarrow> file_ref Version \<Rightarrow> VersionEdit list \<Rightarrow> bytes list \<times> FileStore \<Rightarrow> (file_ref Version \<times> bytes list \<times> FileStore) option" where
  "Builder_run c base edits st =
     (let (compact_pointer, h) = st
      in do {
        (compact_pointer, b, h) \<leftarrow> fold_option (Builder_Apply c) edits (compact_pointer, Builder_make base, h);
        (v, h) \<leftarrow> Builder_SaveTo c b (Version_make, h);
        h \<leftarrow> Builder_destroy b h;
        Some (v, compact_pointer, h)
      })"

primrec fresh_edits :: "(nat \<Rightarrow> u64 set) \<Rightarrow> VersionEdit list \<Rightarrow> bool" where
  "fresh_edits used [] \<longleftrightarrow> True"
| "fresh_edits used (e # es) \<longleftrightarrow> fresh_edit used e \<and> fresh_edits (\<lambda>level. used level \<union> new_numbers e level) es"

lemma fresh_edits_cong:
  "\<forall>level<kNumLevels. used level = used' level \<Longrightarrow> fresh_edits used es \<Longrightarrow> fresh_edits used' es"
proof (induction es arbitrary: used used')
  case (Cons e es)
  have "fresh_edits (\<lambda>level. used' level \<union> new_numbers e level) es"
    by (rule Cons.IH [where used = "\<lambda>level. used level \<union> new_numbers e level"]) (use Cons.prems in auto)
  then show ?case using Cons.prems by (simp add: fresh_edit_def)
qed simp

lemma Builder_Applies_ok:
  assumes T: "three_way (Compare c)"
  shows "builder_ok c M (b, h) \<Longrightarrow> fresh_edits (known h b) es \<Longrightarrow>
    \<exists>b' h'. fold_option (Builder_Apply c) es (cp, b, h) = Some (foldl (\<lambda>cp e. pointers_after e cp) cp es, b', h') \<and> builder_ok c M (b', h') \<and>
      kept h h' M \<and> (\<forall>level<kNumLevels. view h' b' level = foldl (apply_edit level) (view h b level) es)"
proof (induction es arbitrary: b h cp)
  case Nil
  have "kept h h M" using refs_ok_kept [OF builder_okD(2) [OF Nil.prems(1)]] by (rule kept_subset) simp
  then show ?case using Nil by simp
next
  case (Cons e es)
  obtain b1 h1 where 1: "Builder_Apply c e (cp, b, h) = Some (pointers_after e cp, b1, h1)" "builder_ok c M (b1, h1)" "kept h h1 M"
      "\<forall>level<kNumLevels. known h1 b1 level = known h b level \<union> new_numbers e level"
      "\<forall>level<kNumLevels. view h1 b1 level = apply_edit level (view h b level) e"
    using Builder_Apply_ok [OF T Cons.prems(1), of e cp] Cons.prems(2) by auto
  have "fresh_edits (known h1 b1) es"
    by (rule fresh_edits_cong [where used = "\<lambda>level. known h b level \<union> new_numbers e level"]) (use 1(4) Cons.prems(2) in auto)
  then obtain b2 h2 where 2: "fold_option (Builder_Apply c) es (pointers_after e cp, b1, h1) = Some (foldl (\<lambda>cp e. pointers_after e cp) (pointers_after e cp) es, b2, h2)"
      "builder_ok c M (b2, h2)" "kept h1 h2 M" "\<forall>level<kNumLevels. view h2 b2 level = foldl (apply_edit level) (view h1 b1 level) es"
    using Cons.IH [OF 1(2), of "pointers_after e cp"] by auto
  then show ?case using 1 kept_trans [OF 1(3) 2(3)] by auto
qed

text \<open>The files of a version as the edits describe them, and a version whose levels are in order.\<close>

definition descs :: "FileStore \<Rightarrow> file_ref list \<Rightarrow> FileMetaData list" where
  "descs h = map (\<lambda>f. desc (fm_at h f))"

definition version_sorted :: "Comparator \<Rightarrow> FileStore \<Rightarrow> file_ref Version \<Rightarrow> bool" where
  "version_sorted c h v \<longleftrightarrow> length (v_files v) = kNumLevels \<and> (\<forall>files\<in>set (v_files v). sorted_wrt (BySmallestKey c (fm_at h)) files)"

definition level_numbers :: "FileStore \<Rightarrow> file_ref Version \<Rightarrow> nat \<Rightarrow> u64 set" where
  "level_numbers h v level = fm_number ` set (descs h (v_files v ! level))"

definition disjoint_descs :: "Comparator \<Rightarrow> FileMetaData set \<Rightarrow> bool" where
  "disjoint_descs c S \<longleftrightarrow>
     (\<forall>x\<in>S. \<forall>y\<in>S. desc_less c x y \<longrightarrow> InternalKeyComparator_Compare c (InternalKey_Encode (fm_largest x)) (InternalKey_Encode (fm_smallest y)) < 0)"

lemma builder_start:
  assumes "version_sorted c h v" "refs_ok h M" "set (concat (v_files v)) \<subseteq> set_mset M"
  shows "builder_ok c M (Builder_make v, h)" "level < kNumLevels \<Longrightarrow> known h (Builder_make v) level = level_numbers h v level"
    "level < kNumLevels \<Longrightarrow> view h (Builder_make v) level = set (descs h (v_files v ! level))"
proof -
  have a: "added_files (Builder_make v) level = []" "deleted_numbers (Builder_make v) level = {}" if "level < kNumLevels" for level
    using that by (simp_all add: added_files_def deleted_numbers_def Builder_make_def)
  have al: "all_added (Builder_make v) = []" by (simp add: all_added_def Builder_make_def)
  have bs: "base_files (Builder_make v) level = v_files v ! level" for level by (simp add: base_files_def Builder_make_def)
  have len: "length (v_files v) = kNumLevels" using assms(1) by (simp add: version_sorted_def)
  show "builder_ok c M (Builder_make v, h)"
    unfolding builder_ok_def prod.case Let_def
  proof (intro conjI allI impI)
    show "length (b_levels (Builder_make v)) = kNumLevels" by (simp add: Builder_make_def)
    show "refs_ok h (M + mset (all_added (Builder_make v)))" using assms(2) al by simp
    fix level assume l: "level < kNumLevels"
    have mem: "v_files v ! level \<in> set (v_files v)" using l len by simp
    show "set (base_files (Builder_make v) level) \<subseteq> set_mset M" using mem assms(3) bs by auto
    show "sorted_wrt (BySmallestKey c (fm_at h)) (base_files (Builder_make v) level)" using mem assms(1) bs by (simp add: version_sorted_def)
    show "sorted_wrt (BySmallestKey c (fm_at h)) (added_files (Builder_make v) level)" using a [OF l] by simp
    show "\<forall>f\<in>set (added_files (Builder_make v) level). \<forall>g\<in>set (base_files (Builder_make v) level). fm_number (fm_at h f) \<noteq> fm_number (fm_at h g)"
      using a [OF l] by simp
  qed
  show "level < kNumLevels \<Longrightarrow> known h (Builder_make v) level = level_numbers h v level"
    using a bs by (simp add: known_def level_numbers_def descs_def image_image)
  show "level < kNumLevels \<Longrightarrow> view h (Builder_make v) level = set (descs h (v_files v ! level))"
    using a bs by (simp add: view_def descs_def)
qed

lemma Builder_run_ok:
  assumes "three_way (Compare c)" "version_sorted c h v" "refs_ok h M" "set (concat (v_files v)) \<subseteq> set_mset M"
    and "fresh_edits (level_numbers h v) es"
    and "\<forall>level\<in>{1..<kNumLevels}. disjoint_descs c (foldl (apply_edit level) (set (descs h (v_files v ! level))) es)"
  shows "\<exists>v' h'. Builder_run c v es (cp, h) = Some (v', foldl (\<lambda>cp e. pointers_after e cp) cp es, h') \<and>
    version_sorted c h' v' \<and> refs_ok h' (M + mset (concat (v_files v'))) \<and> kept h h' M \<and>
    (\<forall>level<kNumLevels. set (descs h' (v_files v' ! level)) = foldl (apply_edit level) (set (descs h (v_files v ! level))) es) \<and>
    v' = Version_make\<lparr>v_files := v_files v'\<rparr>"
proof -
  note T = assms(1)
  note start = builder_start [OF assms(2-4)]
  have "fresh_edits (known h (Builder_make v)) es"
    by (rule fresh_edits_cong [OF _ assms(5)]) (simp add: start(2))
  then obtain b h1 where 1: "fold_option (Builder_Apply c) es (cp, Builder_make v, h) = Some (foldl (\<lambda>cp e. pointers_after e cp) cp es, b, h1)"
      "builder_ok c M (b, h1)" "kept h h1 M"
      "\<forall>level<kNumLevels. view h1 b level = foldl (apply_edit level) (view h (Builder_make v) level) es"
    using Builder_Applies_ok [OF T start(1)] by blast
  have vw: "view h1 b level = foldl (apply_edit level) (set (descs h (v_files v ! level))) es" if "level < kNumLevels" for level
    using 1(4) start(3) [OF that] that by simp
  have dis: "sorted_wrt (disjoint_files c h1) (saved c h1 b level)" if l: "0 < level" "level < kNumLevels" for level
  proof (rule sorted_wrt_mono_rel [OF _ saved_sorted [OF T 1(2) l(2)]])
    fix x y assume xy: "x \<in> set (saved c h1 b level)" "y \<in> set (saved c h1 b level)" "BySmallestKey c (fm_at h1) x y"
    have "disjoint_descs c (view h1 b level)" using assms(6) l vw [OF l(2)] by simp
    moreover have "desc (fm_at h1 x) \<in> view h1 b level" "desc (fm_at h1 y) \<in> view h1 b level" using xy saved_set [of h1 c b level] by blast+
    ultimately show "disjoint_files c h1 x y" using xy(3) unfolding disjoint_descs_def BySmallestKey_desc by (metis desc_simps(2,3))
  qed
  let ?v = "Version_make\<lparr>v_files := map (saved c h1 b) [0..<kNumLevels]\<rparr>"
  obtain h2 where 2: "Builder_SaveTo c b (Version_make, h1) = Some (?v, h2)" "kept h1 h2 (M + mset (all_added b))"
      "refs_ok h2 (M + mset (all_added b) + mset (concat (v_files ?v)))"
    using Builder_SaveTo_ok [OF 1(2) dis] by auto
  have "refs_ok h2 (mset (all_added b) + (M + mset (concat (v_files ?v))))" using 2(3) by (simp add: add.left_commute add.assoc)
  then obtain h3 where 3: "Builder_destroy b h2 = Some h3" "refs_ok h3 (M + mset (concat (v_files ?v)))" "kept h2 h3 (M + mset (concat (v_files ?v)))"
    using unref_files_ok unfolding Builder_destroy_def all_added_def by blast
  have same: "desc (fm_at h3 f) = desc (fm_at h1 f)" if "level < kNumLevels" "f \<in> set (saved c h1 b level)" for f level
  proof -
    have "f \<in># M + mset (concat (v_files ?v))" using that by auto
    moreover have "f \<in># M + mset (all_added b)"
      using that added_in_all [OF builder_okD(1) [OF 1(2)] that(1)] builder_okD(3) [OF 1(2) that(1)] by (auto simp: saved_def save_order_set)
    ultimately show ?thesis using 2(2) 3(3) by (simp add: kept_def)
  qed
  have "version_sorted c h3 ?v"
    unfolding version_sorted_def
  proof (intro conjI ballI)
    fix files assume "files \<in> set (v_files ?v)"
    then obtain level where l: "level < kNumLevels" "files = saved c h1 b level" by auto
    show "sorted_wrt (BySmallestKey c (fm_at h3)) files"
      unfolding l(2) by (rule sorted_wrt_mono_rel [OF _ saved_sorted [OF T 1(2) l(1)]]) (simp add: BySmallestKey_desc same [OF l(1)])
  qed simp
  moreover have "set (descs h3 (v_files ?v ! level)) = foldl (apply_edit level) (set (descs h (v_files v ! level))) es" if l: "level < kNumLevels" for level
    using saved_set [of h1 c b level] same [OF l] vw [OF l] l by (simp add: descs_def cong: image_cong)
  moreover have "kept h h3 M" using kept_trans [OF 1(3) kept_trans [OF kept_subset [OF 2(2)] kept_subset [OF 3(3)]]] by simp
  moreover have "Builder_run c v es (cp, h) = Some (?v, foldl (\<lambda>cp e. pointers_after e cp) cp es, h3)"
    using 1(1) 2(1) 3(1) by (simp add: Builder_run_def)
  ultimately show ?thesis using 3(2) by (intro exI [of _ ?v] exI [of _ h3]) auto
qed

text \<open>
  Applying edits to a version gives, in every level, exactly the files that the edits leave when they are read one after the other as
  deletions and additions, sorted by their first key and number, with their counters; every file of the other versions stays as it was, and the
  reference counts are exact again: one for each place in a version.  The edits must use a file number at most once per level, and the files they leave in
  a level other than zero must not overlap, which the code asserts.
\<close>

theorem builder_applies:
  assumes "three_way (Compare c)" "version_sorted c h v" "refs_ok h M" "set (concat (v_files v)) \<subseteq> set_mset M"
    and "fresh_edits (level_numbers h v) es"
    and "\<forall>level\<in>{1..<kNumLevels}. disjoint_descs c (foldl (apply_edit level) (set (descs h (v_files v ! level))) es)"
  shows "\<exists>v' h'. Builder_run c v es (cp, h) = Some (v', foldl (\<lambda>cp e. pointers_after e cp) cp es, h') \<and>
    version_sorted c h' v' \<and> refs_ok h' (M + mset (concat (v_files v'))) \<and> kept h h' M \<and>
    (\<forall>level<kNumLevels. set (descs h' (v_files v' ! level)) = foldl (apply_edit level) (set (descs h (v_files v ! level))) es) \<and>
    v' = Version_make\<lparr>v_files := v_files v'\<rparr>"
  by (rule Builder_run_ok [OF assms])

text \<open>A first file in an empty database.\<close>

definition first_key :: InternalKey where
  "first_key = \<lparr>ik_rep = entry_internal \<lparr>e_seq = 1, e_type = kTypeValue, e_key = [97], e_value = []\<rparr>\<rparr>"

definition first_edit :: VersionEdit where
  "first_edit = AddFile 1 7 100 first_key first_key VersionEdit_make"

lemma first_edit_parts: "ve_new_files first_edit = [(1, desc FileMetaData_make\<lparr>fm_number := 7, fm_file_size := 100, fm_smallest := first_key, fm_largest := first_key\<rparr>)]"
  "ve_deleted_files first_edit = []" "ve_compact_pointers first_edit = []" "\<not> ve_has_log_number first_edit"
  by (simp_all add: first_edit_def AddFile_def VersionEdit_make_def FileMetaData_make_def desc_def)

lemma first_edit_fresh: "(\<And>level. level < kNumLevels \<Longrightarrow> used level = {}) \<Longrightarrow> fresh_edit used first_edit"
  by (simp add: fresh_edit_def edit_levels_def level_ok_def first_edit_parts kNumLevels_def)

lemma first_edit_disjoint: "disjoint_descs BytewiseComparator (apply_edit level {} first_edit)"
  using desc_less_irrefl [OF bytewise.three_way_axioms]
  by (auto simp: disjoint_descs_def apply_edit_def edit_new_def first_edit_parts)

theorem builder_applies_witness:
  "\<exists>v' h'. Builder_run BytewiseComparator Version_make [first_edit] ([], \<lparr>fs_mem = Map.empty, fs_next = 0\<rparr>) = Some (v', [], h') \<and>
     refs_ok h' (mset (concat (v_files v'))) \<and>
     map fm_number (descs h' (v_files v' ! 1)) = [7]"
proof -
  let ?h = "\<lparr>fs_mem = Map.empty, fs_next = 0\<rparr>"
  have v: "version_sorted BytewiseComparator ?h Version_make" "refs_ok ?h {#}" "set (concat (v_files Version_make)) \<subseteq> set_mset {#}"
    "level < kNumLevels \<Longrightarrow> descs ?h (v_files Version_make ! level) = []" for level
    by (simp_all add: version_sorted_def Version_make_def refs_ok_def descs_def)
  have f: "fresh_edits (level_numbers ?h Version_make) [first_edit]" using first_edit_fresh v(4) by (simp add: level_numbers_def)
  have d: "\<forall>level\<in>{1..<kNumLevels}. disjoint_descs BytewiseComparator (foldl (apply_edit level) (set (descs ?h (v_files Version_make ! level))) [first_edit])"
    using first_edit_disjoint v(4) by simp
  obtain v' h' where r: "Builder_run BytewiseComparator Version_make [first_edit] ([], ?h) = Some (v', [], h')"
      "refs_ok h' (mset (concat (v_files v')))" "version_sorted BytewiseComparator h' v'"
      "set (descs h' (v_files v' ! 1)) = apply_edit 1 {} first_edit"
    using builder_applies [OF bytewise.three_way_axioms v(1-3) f d, of "[]"] v(4) [of 1] by (auto simp: pointers_after_def first_edit_parts kNumLevels_def)
  have srt: "sorted_wrt (desc_less BytewiseComparator) (descs h' (v_files v' ! 1))"
  proof -
    have "v_files v' ! 1 \<in> set (v_files v')" using r(3) by (simp add: version_sorted_def kNumLevels_def)
    then have "sorted_wrt (BySmallestKey BytewiseComparator (fm_at h')) (v_files v' ! 1)" using r(3) by (simp add: version_sorted_def)
    then show ?thesis by (simp add: descs_def sorted_wrt_map BySmallestKey_desc [abs_def])
  qed
  have "descs h' (v_files v' ! 1) = map snd (ve_new_files first_edit)"
    by (rule sorted_unique [OF desc_less_asym [OF bytewise.three_way_axioms] srt]) (use r(4) in \<open>auto simp: apply_edit_def edit_new_def first_edit_parts desc_def\<close>)
  then show ?thesis using r(1,2) by (simp add: first_edit_parts)
qed

end
