(* ===== verification/Version_Set.thy ===== *)
theory Version_Set
  imports Version_Builder Compaction Filename Log_Reader
begin

text \<open>
  \<^verbatim>\<open>VersionSet\<close> of \<^verbatim>\<open>db/version_set.cc\<close>: the versions that are in use, how a new one is installed and logged in the manifest, and how
  the last one is recovered.
\<close>

section \<open>The versions in use\<close>

text \<open>
  The circular list of versions from the oldest to the newest, each under the identity that its address gives it; the current version; the files.
\<close>

record VersionSet =
  vs_next_file_number :: u64
  vs_manifest_file_number :: u64
  vs_last_sequence :: u64
  vs_log_number :: u64
  vs_prev_log_number :: u64
  vs_descriptor_log :: "PosixWritableFile Writer option"
  vs_versions :: "(nat \<times> file_ref Version) list"
  vs_current :: "nat option"
  vs_next_version :: nat
  vs_compact_pointer :: "bytes list"
  vs_store :: FileStore

record VersionSetOptions =
  vo_dbname :: bytes
  vo_comparator :: Comparator
  vo_comparator_name :: bytes
  vo_max_file_size :: u64
  vo_reuse_logs :: bool

definition Version_Ref :: "nat \<Rightarrow> VersionSet \<Rightarrow> VersionSet option" where
  "Version_Ref i vs =
     (case map_of (vs_versions vs) i of
        None \<Rightarrow> None
      | Some v \<Rightarrow> Some (vs\<lparr>vs_versions := map (\<lambda>(j, w). if j = i then (j, w\<lparr>v_refs := v_refs w + 1\<rparr>) else (j, w)) (vs_versions vs)\<rparr>))"

text \<open>The destructor of a version, which takes it out of the list and gives up its files.\<close>

definition Version_delete :: "nat \<Rightarrow> file_ref Version \<Rightarrow> VersionSet \<Rightarrow> VersionSet option" where
  "Version_delete i v vs =
     do {
       h \<leftarrow> fold_option unref_file (concat (v_files v)) (vs_store vs);
       Some (vs\<lparr>vs_versions := filter (\<lambda>p. fst p \<noteq> i) (vs_versions vs), vs_store := h\<rparr>)
     }"

definition Version_Unref :: "nat \<Rightarrow> VersionSet \<Rightarrow> VersionSet option" where
  "Version_Unref i vs =
     (case map_of (vs_versions vs) i of
        None \<Rightarrow> None
      | Some v \<Rightarrow>
          if v_refs v < 1 then None
          else if v_refs v - 1 = 0 then Version_delete i v vs
          else Some (vs\<lparr>vs_versions := map (\<lambda>(j, w). if j = i then (j, w\<lparr>v_refs := v_refs w - 1\<rparr>) else (j, w)) (vs_versions vs)\<rparr>))"

definition AppendVersion :: "file_ref Version \<Rightarrow> VersionSet \<Rightarrow> VersionSet option" where
  "AppendVersion v vs =
     (if v_refs v \<noteq> 0 then None
      else do {
        vs \<leftarrow> (case vs_current vs of None \<Rightarrow> Some vs | Some i \<Rightarrow> Version_Unref i vs);
        let i = vs_next_version vs;
        Some (vs\<lparr>vs_current := Some i, vs_next_version := i + 1, vs_versions := vs_versions vs @ [(i, v\<lparr>v_refs := v_refs v + 1\<rparr>)]\<rparr>)
      })"

definition VersionSet_empty :: VersionSet where
  "VersionSet_empty =
     \<lparr>vs_next_file_number = 2, vs_manifest_file_number = 0, vs_last_sequence = 0, vs_log_number = 0, vs_prev_log_number = 0,
      vs_descriptor_log = None, vs_versions = [], vs_current = None, vs_next_version = 0, vs_compact_pointer = replicate kNumLevels [],
      vs_store = \<lparr>fs_mem = Map.empty, fs_next = 0\<rparr>\<rparr>"

definition VersionSet_make :: "VersionSet option" where
  "VersionSet_make = AppendVersion Version_make VersionSet_empty"

definition current_version :: "VersionSet \<Rightarrow> file_ref Version option" where
  "current_version vs = do { i \<leftarrow> vs_current vs; map_of (vs_versions vs) i }"

section \<open>Numbers\<close>

definition NewFileNumber :: "VersionSet \<Rightarrow> u64 \<times> VersionSet" where
  "NewFileNumber vs = (vs_next_file_number vs, vs\<lparr>vs_next_file_number := vs_next_file_number vs + 1\<rparr>)"

definition ReuseFileNumber :: "u64 \<Rightarrow> VersionSet \<Rightarrow> VersionSet" where
  "ReuseFileNumber file_number vs =
     (if vs_next_file_number vs = file_number + 1 then vs\<lparr>vs_next_file_number := file_number\<rparr> else vs)"

definition MarkFileNumberUsed :: "u64 \<Rightarrow> VersionSet \<Rightarrow> VersionSet" where
  "MarkFileNumberUsed number vs =
     (if vs_next_file_number vs \<le> number then vs\<lparr>vs_next_file_number := number + 1\<rparr> else vs)"

definition NumLevelFiles :: "nat \<Rightarrow> VersionSet \<Rightarrow> nat option" where
  "NumLevelFiles level vs = map_option (\<lambda>v. length (v_files v ! level)) (current_version vs)"

definition NumLevelBytes :: "nat \<Rightarrow> VersionSet \<Rightarrow> int option" where
  "NumLevelBytes level vs = map_option (\<lambda>v. TotalFileSize (fm_at (vs_store vs)) (v_files v ! level)) (current_version vs)"

definition NeedsCompaction :: "VersionSet \<Rightarrow> bool option" where
  "NeedsCompaction vs = map_option (\<lambda>v. v_compaction_score v \<ge> 1 \<or> v_file_to_compact v \<noteq> None) (current_version vs)"

definition AddLiveFiles :: "VersionSet \<Rightarrow> u64 set \<Rightarrow> u64 set" where
  "AddLiveFiles vs numbers =
     fold (\<lambda>(i, v) numbers. fold (\<lambda>files numbers. fold (\<lambda>f numbers. insert (fm_number (fm_at (vs_store vs) f)) numbers) files numbers) (v_files v) numbers)
       (vs_versions vs) numbers"

section \<open>The score of a version\<close>

text \<open>The scores are computed exactly; the code rounds them to doubles.\<close>

fun MaxBytesForLevel :: "nat \<Rightarrow> rat" where
  "MaxBytesForLevel level = (if level > 1 then 10 * MaxBytesForLevel (level - 1) else 10 * 1048576)"

declare MaxBytesForLevel.simps [simp del]

definition level_score :: "(file_ref \<Rightarrow> FileMetaData) \<Rightarrow> file_ref Version \<Rightarrow> nat \<Rightarrow> rat" where
  "level_score fm v level =
     (if level = 0 then of_nat (length (v_files v ! 0)) / 4
      else of_nat (unat (word_of_int (TotalFileSize fm (v_files v ! level)) :: u64)) / MaxBytesForLevel level)"

definition Finalize :: "(file_ref \<Rightarrow> FileMetaData) \<Rightarrow> file_ref Version \<Rightarrow> file_ref Version" where
  "Finalize fm v =
     (let (best_level, best_score) =
        foldl (\<lambda>(best_level, best_score) level.
            let score = level_score fm v level in if score > best_score then (int level, score) else (best_level, best_score))
          (- 1, - 1) [0..<kNumLevels - 1]
      in v\<lparr>v_compaction_level := best_level, v_compaction_score := best_score\<rparr>)"

section \<open>The manifest\<close>

text \<open>An operation of the log writer on a file of the file system.\<close>

definition on_log :: "(PosixWritableFile Writer \<Rightarrow> Status \<times> PosixWritableFile Writer) \<Rightarrow> PosixWritableFile Writer \<Rightarrow> os \<Rightarrow>
    Status \<times> PosixWritableFile Writer \<times> os" where
  "on_log act w st =
     (let f = w_dest w;
          (s, w) = act (w\<lparr>w_dest := f\<lparr>pw_fd := (pw_fd f)\<lparr>fd_outcomes := os_calls st\<rparr>\<rparr>\<rparr>);
          f = w_dest w;
          st = st\<lparr>os_calls := fd_outcomes (pw_fd f)\<rparr>
      in (s, w, set_file (pw_filename f) (Some (fd_data (pw_fd f))) st))"

definition snapshot_edit :: "VersionSetOptions \<Rightarrow> (file_ref \<Rightarrow> FileMetaData) \<Rightarrow> bytes list \<Rightarrow> file_ref Version \<Rightarrow> VersionEdit" where
  "snapshot_edit opts fm compact_pointer current =
     (let e = SetComparatorName (vo_comparator_name opts) VersionEdit_make;
          e = foldl (\<lambda>e level. if compact_pointer ! level \<noteq> []
                        then SetCompactPointer (int level) (snd (InternalKey_DecodeFrom (compact_pointer ! level))) e else e) e [0..<kNumLevels]
      in foldl (\<lambda>e level. foldl (\<lambda>e f. AddFile (int level) (fm_number (fm f)) (fm_file_size (fm f)) (fm_smallest (fm f)) (fm_largest (fm f)) e)
                        e (v_files current ! level)) e [0..<kNumLevels])"

definition WriteSnapshot ::
    "VersionSetOptions \<Rightarrow> VersionSet \<Rightarrow> PosixWritableFile Writer \<Rightarrow> os \<Rightarrow> (Status \<times> PosixWritableFile Writer \<times> os) option" where
  "WriteSnapshot opts vs writer st =
     do {
       current \<leftarrow> current_version vs;
       Some (on_log (AddRecord PosixWritable
               (VersionEdit_EncodeTo (snapshot_edit opts (fm_at (vs_store vs)) (vs_compact_pointer vs) current) [])) writer st)
     }"

text \<open>The edit that is logged; \<open>None\<close>: the assertions on its log number fail.\<close>

definition complete_edit :: "VersionSet \<Rightarrow> VersionEdit \<Rightarrow> VersionEdit option" where
  "complete_edit vs edit =
     (if ve_has_log_number edit \<and> \<not> (ve_log_number edit \<ge> vs_log_number vs \<and> ve_log_number edit < vs_next_file_number vs) then None
      else
        (let edit = (if ve_has_log_number edit then edit else SetLogNumber (vs_log_number vs) edit);
             edit = (if ve_has_prev_log_number edit then edit else SetPrevLogNumber (vs_prev_log_number vs) edit)
         in Some (SetLastSequence (vs_last_sequence vs) (SetNextFile (vs_next_file_number vs) edit))))"

text \<open>
  Opening a new manifest with a snapshot, if there is none yet.  The result has its name, or the empty one.
\<close>

definition open_manifest ::
    "VersionSetOptions \<Rightarrow> VersionSet \<Rightarrow> os \<Rightarrow> (Status \<times> bytes \<times> VersionSet \<times> os) option" where
  "open_manifest opts vs st =
     (case vs_descriptor_log vs of
        Some writer \<Rightarrow> Some (Status_OK, [], vs, st)
      | None \<Rightarrow>
          (let new_manifest_file = DescriptorFileName (vo_dbname opts) (vs_manifest_file_number vs) in
           case NewWritableFile new_manifest_file st of
             (s, None, st) \<Rightarrow> Some (s, new_manifest_file, vs, st)
           | (s, Some f, st) \<Rightarrow> do {
               (s, writer, st) \<leftarrow> WriteSnapshot opts vs (Writer_make f) st;
               Some (s, new_manifest_file, vs\<lparr>vs_descriptor_log := Some writer\<rparr>, st)
             }))"

definition log_edit ::
    "VersionSetOptions \<Rightarrow> bytes \<Rightarrow> VersionEdit \<Rightarrow> VersionSet \<Rightarrow> os \<Rightarrow> (Status \<times> VersionSet \<times> os) option" where
  "log_edit opts new_manifest_file edit vs st =
     do {
       writer \<leftarrow> vs_descriptor_log vs;
       let (s, writer, st) = on_log (AddRecord PosixWritable (VersionEdit_EncodeTo edit [])) writer st;
       let (s, f, st) = (if Status_ok s then file_Sync (w_dest writer) st else (s, w_dest writer, st));
       let vs = vs\<lparr>vs_descriptor_log := Some (writer\<lparr>w_dest := f\<rparr>)\<rparr>;
       let (s, st) = (if Status_ok s \<and> new_manifest_file \<noteq> [] then SetCurrentFile (vo_dbname opts) (vs_manifest_file_number vs) st else (s, st));
       Some (s, vs, st)
     }"

definition LogAndApply ::
    "VersionSetOptions \<Rightarrow> VersionEdit \<Rightarrow> VersionSet \<times> os \<Rightarrow> (Status \<times> VersionSet \<times> os) option" where
  "LogAndApply opts edit vst =
     (let (vs, st) = vst
      in do {
        edit \<leftarrow> complete_edit vs edit;
        i \<leftarrow> vs_current vs;
        base \<leftarrow> current_version vs;
        vs \<leftarrow> Version_Ref i vs;
        (v, compact_pointer, h) \<leftarrow> Builder_run (vo_comparator opts) base [edit] (vs_compact_pointer vs, vs_store vs);
        vs \<leftarrow> Version_Unref i (vs\<lparr>vs_compact_pointer := compact_pointer, vs_store := h\<rparr>);
        let v = Finalize (fm_at (vs_store vs)) v;
        (s, new_manifest_file, vs, st) \<leftarrow> open_manifest opts vs st;
        (s, vs, st) \<leftarrow> (if Status_ok s then log_edit opts new_manifest_file edit vs st else Some (s, vs, st));
        if Status_ok s then do {
          vs \<leftarrow> AppendVersion v vs;
          Some (s, vs\<lparr>vs_log_number := ve_log_number edit, vs_prev_log_number := ve_prev_log_number edit\<rparr>, st)
        }
        else do {
          h \<leftarrow> fold_option unref_file (concat (v_files v)) (vs_store vs);
          let vs = vs\<lparr>vs_store := h\<rparr>;
          let (vs, st) =
            (if new_manifest_file \<noteq> []
             then (vs\<lparr>vs_descriptor_log := None\<rparr>,
                   snd (RemoveFile new_manifest_file (case vs_descriptor_log vs of None \<Rightarrow> st | Some writer \<Rightarrow> file_delete (w_dest writer) st)))
             else (vs, st));
          Some (s, vs, st)
        }
      })"

section \<open>Recovery\<close>

record RecoverState =
  rs_log_number :: "u64 option"
  rs_prev_log_number :: "u64 option"
  rs_next_file :: "u64 option"
  rs_last_sequence :: "u64 option"

definition RecoverState_make :: RecoverState where
  "RecoverState_make = \<lparr>rs_log_number = None, rs_prev_log_number = None, rs_next_file = None, rs_last_sequence = None\<rparr>"

definition note_edit :: "VersionEdit \<Rightarrow> RecoverState \<Rightarrow> RecoverState" where
  "note_edit edit rs =
     \<lparr>rs_log_number = (if ve_has_log_number edit then Some (ve_log_number edit) else rs_log_number rs),
      rs_prev_log_number = (if ve_has_prev_log_number edit then Some (ve_prev_log_number edit) else rs_prev_log_number rs),
      rs_next_file = (if ve_has_next_file_number edit then Some (ve_next_file_number edit) else rs_next_file rs),
      rs_last_sequence = (if ve_has_last_sequence edit then Some (ve_last_sequence edit) else rs_last_sequence rs)\<rparr>"

text \<open>The reporter keeps the first error.\<close>

definition reported :: "(u64 \<times> Status) list \<Rightarrow> Status \<Rightarrow> Status" where
  "reported reports s = foldl (\<lambda>s r. if Status_ok s then snd r else s) s reports"

definition recover_record ::
    "VersionSetOptions \<Rightarrow> bytes \<Rightarrow> (bytes list \<times> Builder \<times> FileStore) \<times> RecoverState \<Rightarrow>
     (Status \<times> (bytes list \<times> Builder \<times> FileStore) \<times> RecoverState) option" where
  "recover_record opts rec st =
     (let (bst, rs) = st;
          (s, edit) = VersionEdit_DecodeFrom rec VersionEdit_make;
          s = (if Status_ok s \<and> ve_has_comparator edit \<and> ve_comparator edit \<noteq> vo_comparator_name opts
               then Status_InvalidArgument (ve_comparator edit @ lit '' does not match existing comparator '') (vo_comparator_name opts) else s)
      in do {
        bst \<leftarrow> (if Status_ok s then Builder_Apply (vo_comparator opts) edit bst else Some bst);
        Some (s, bst, note_edit edit rs)
      })"

partial_function (option) recover_loop ::
    "VersionSetOptions \<Rightarrow> PosixSequentialFile Reader \<Rightarrow> Status \<Rightarrow> (bytes list \<times> Builder \<times> FileStore) \<times> RecoverState \<Rightarrow>
     (Status \<times> PosixSequentialFile Reader \<times> (bytes list \<times> Builder \<times> FileStore) \<times> RecoverState) option" where
  "recover_loop opts reader s st =
     do {
       (rec, reader') \<leftarrow> ReadRecord PosixSequential reader;
       let s = reported (drop (length (r_reports reader)) (r_reports reader')) s;
       case rec of
         None \<Rightarrow> Some (s, reader', st)
       | Some rec \<Rightarrow>
           if \<not> Status_ok s then Some (s, reader', st)
           else do {
             (s, st) \<leftarrow> recover_record opts rec st;
             recover_loop opts reader' s st
           }
     }"

definition check_recovered :: "RecoverState \<Rightarrow> Status \<Rightarrow> Status" where
  "check_recovered rs s =
     (if rs_next_file rs = None then Status_Corruption (lit ''no meta-nextfile entry in descriptor'') []
      else if rs_log_number rs = None then Status_Corruption (lit ''no meta-lognumber entry in descriptor'') []
      else if rs_last_sequence rs = None then Status_Corruption (lit ''no last-sequence-number entry in descriptor'') []
      else s)"

definition ReuseManifest :: "VersionSetOptions \<Rightarrow> bytes \<Rightarrow> bytes \<Rightarrow> VersionSet \<times> os \<Rightarrow> bool \<times> VersionSet \<times> os" where
  "ReuseManifest opts dscname dscbase vst =
     (let (vs, st) = vst in
      if \<not> vo_reuse_logs opts then (False, vs, st)
      else
        (case ParseFileName dscbase of
           None \<Rightarrow> (False, vs, st)
         | Some (manifest_number, manifest_type) \<Rightarrow>
             if manifest_type \<noteq> kDescriptorFile then (False, vs, st)
             else
               (case GetFileSize dscname st of
                  (s, manifest_size, st) \<Rightarrow>
                    if \<not> Status_ok s \<or> manifest_size \<ge> TargetFileSize (vo_max_file_size opts) then (False, vs, st)
                    else
                      (case NewAppendableFile dscname st of
                         (r, None, st) \<Rightarrow> (False, vs, st)
                       | (r, Some f, st) \<Rightarrow>
                           (True, vs\<lparr>vs_descriptor_log := Some (Writer_make_at f (unat manifest_size)),
                                     vs_manifest_file_number := manifest_number\<rparr>, st)))))"

text \<open>
  Reading the manifest into a builder on the current version.  The builder is destroyed at the very end, when the recovered version is
  already installed.
\<close>

definition install_recovered ::
    "VersionSetOptions \<Rightarrow> bytes \<Rightarrow> bytes \<Rightarrow> Builder \<Rightarrow> RecoverState \<Rightarrow> VersionSet \<times> os \<Rightarrow> (bool \<times> VersionSet \<times> os) option" where
  "install_recovered opts dscname current b rs vst =
     (let (vs, st) = vst
      in do {
        next_file \<leftarrow> rs_next_file rs;
        last_sequence \<leftarrow> rs_last_sequence rs;
        log_number \<leftarrow> rs_log_number rs;
        (v, h) \<leftarrow> Builder_SaveTo (vo_comparator opts) b (Version_make, vs_store vs);
        vs \<leftarrow> AppendVersion (Finalize (fm_at h) v) (vs\<lparr>vs_store := h\<rparr>);
        let vs = vs\<lparr>vs_manifest_file_number := next_file, vs_next_file_number := next_file + 1, vs_last_sequence := last_sequence,
                    vs_log_number := log_number,
                    vs_prev_log_number := (case rs_prev_log_number rs of None \<Rightarrow> 0 | Some n \<Rightarrow> n)\<rparr>;
        let (reused, vs, st) = ReuseManifest opts dscname current (vs, st);
        Some (\<not> reused, vs, st)
      })"

definition Recover :: "VersionSetOptions \<Rightarrow> bool \<Rightarrow> VersionSet \<times> os \<Rightarrow> (Status \<times> bool \<times> VersionSet \<times> os) option" where
  "Recover opts save_manifest vst =
     (let (vs, st) = vst
      in do {
        (s, current, st) \<leftarrow> ReadFileToString (CurrentFileName (vo_dbname opts)) st;
        if \<not> Status_ok s then Some (s, save_manifest, vs, st)
        else if current = [] \<or> last current \<noteq> 10
        then Some (Status_Corruption (lit ''CURRENT file does not end with newline'') [], save_manifest, vs, st)
        else
          (let current = butlast current;
               dscname = vo_dbname opts @ lit ''/'' @ current
           in case NewSequentialFile dscname st of
             (s, None, st) \<Rightarrow>
               Some (if Status_IsNotFound s then Status_Corruption (lit ''CURRENT points to a non-existent file'') (Status_ToString s) else s, save_manifest, vs, st)
           | (s, Some file, st) \<Rightarrow> do {
               i \<leftarrow> vs_current vs;
               base \<leftarrow> current_version vs;
               vs \<leftarrow> Version_Ref i vs;
               (s, reader, (compact_pointer, b, h), rs) \<leftarrow>
                 recover_loop opts (Reader_make (file\<lparr>ps_fd := (ps_fd file)\<lparr>fd_outcomes := os_calls st\<rparr>\<rparr>) True True 0) s
                   ((vs_compact_pointer vs, Builder_make base, vs_store vs), RecoverState_make);
               let vs = vs\<lparr>vs_compact_pointer := compact_pointer, vs_store := h\<rparr>;
               let st = st\<lparr>os_calls := fd_outcomes (ps_fd (r_file reader))\<rparr>;
               let (s, vs) =
                 (if Status_ok s
                  then (check_recovered rs s,
                        MarkFileNumberUsed (case rs_log_number rs of None \<Rightarrow> 0 | Some n \<Rightarrow> n)
                          (MarkFileNumberUsed (case rs_prev_log_number rs of None \<Rightarrow> 0 | Some n \<Rightarrow> n) vs))
                  else (s, vs));
               (save_manifest, vs, st) \<leftarrow>
                 (if Status_ok s then do {
                    (save, vs, st) \<leftarrow> install_recovered opts dscname current b rs (vs, st);
                    Some (save_manifest \<or> save, vs, st)
                  } else Some (save_manifest, vs, st));
               h \<leftarrow> Builder_destroy b (vs_store vs);
               vs \<leftarrow> Version_Unref i (vs\<lparr>vs_store := h\<rparr>);
               Some (s, save_manifest, vs, st)
             })
      })"

section \<open>The invariant of the versions\<close>

text \<open>Every use of a file by a version in the list.\<close>

definition file_uses :: "VersionSet \<Rightarrow> file_ref multiset" where
  "file_uses vs = mset (concat (map (\<lambda>p. concat (v_files (snd p))) (vs_versions vs)))"

text \<open>
  \<open>H\<close> has the references to versions that clients hold, \<open>N\<close> the uses of files outside of the list.  A version is referenced by its holders and by being current;
  the reference counts of the files are exact.
\<close>

definition versions_ok :: "Comparator \<Rightarrow> nat multiset \<Rightarrow> file_ref multiset \<Rightarrow> VersionSet \<Rightarrow> bool" where
  "versions_ok c H N vs \<longleftrightarrow>
     distinct (map fst (vs_versions vs)) \<and> set_mset H \<subseteq> fst ` set (vs_versions vs) \<and>
     (\<forall>p\<in>set (vs_versions vs).
        fst p < vs_next_version vs \<and> v_refs (snd p) = int (count H (fst p)) + (if vs_current vs = Some (fst p) then 1 else 0) \<and>
        1 \<le> v_refs (snd p) \<and> version_sorted c (vs_store vs) (snd p)) \<and>
     refs_ok (vs_store vs) (file_uses vs + N)"

definition vset_ok :: "Comparator \<Rightarrow> nat multiset \<Rightarrow> VersionSet \<Rightarrow> bool" where
  "vset_ok c H vs \<longleftrightarrow> versions_ok c H {#} vs \<and> current_version vs \<noteq> None"

lemma version_sorted_kept:
  "version_sorted c h v \<Longrightarrow> kept h h' M \<Longrightarrow> set (concat (v_files v)) \<subseteq> set_mset M \<Longrightarrow> version_sorted c h' v"
  unfolding version_sorted_def by (auto intro!: kept_sorted [of h h' M])

lemma file_uses_mem: "p \<in> set (vs_versions vs) \<Longrightarrow> set (concat (v_files (snd p))) \<subseteq> set_mset (file_uses vs)"
  by (auto simp: file_uses_def)

lemma file_uses_update:
  assumes "\<And>w. v_files (g w) = v_files w"
  shows "file_uses (vs\<lparr>vs_versions := map (\<lambda>(j, w). if j = i then (j, g w) else (j, w)) (vs_versions vs)\<rparr>) = file_uses vs"
proof -
  have "(\<lambda>p. concat (v_files (snd p))) \<circ> (\<lambda>(j, w). if j = i then (j, g w) else (j, w)) = (\<lambda>p. concat (v_files (snd p)))"
    using assms by (auto simp: fun_eq_iff)
  then show ?thesis by (simp add: file_uses_def)
qed

text \<open>Counting a reference to a version up or down, with the holders.\<close>

lemma versions_ok_count:
  fixes d :: int
  assumes V: "versions_ok c H N vs" and i: "map_of (vs_versions vs) i = Some v"
    and H': "int (count H' i) = int (count H i) + d" "\<And>j. j \<noteq> i \<Longrightarrow> count H' j = count H j" and pos: "1 \<le> v_refs v + d"
  shows "versions_ok c H' N (vs\<lparr>vs_versions := map (\<lambda>(j, w). if j = i then (j, w\<lparr>v_refs := v_refs w + d\<rparr>) else (j, w)) (vs_versions vs)\<rparr>)"
proof -
  let ?vs = "vs\<lparr>vs_versions := map (\<lambda>(j, w). if j = i then (j, w\<lparr>v_refs := v_refs w + d\<rparr>) else (j, w)) (vs_versions vs)\<rparr>"
  have dist: "distinct (map fst (vs_versions vs))" and sub: "set_mset H \<subseteq> fst ` set (vs_versions vs)"
    and each: "\<And>j w. (j, w) \<in> set (vs_versions vs) \<Longrightarrow> j < vs_next_version vs \<and>
        v_refs w = int (count H j) + (if vs_current vs = Some j then 1 else 0) \<and> 1 \<le> v_refs w \<and> version_sorted c (vs_store vs) w"
    and refs: "refs_ok (vs_store vs) (file_uses vs + N)"
    using V by (fastforce simp: versions_ok_def)+
  have iv: "(i, v) \<in> set (vs_versions vs)" using i by (rule map_of_SomeD)
  have fst: "map fst (vs_versions ?vs) = map fst (vs_versions vs)" by (simp add: case_prod_beta comp_def)
  have elems: "q \<in> set (vs_versions ?vs) \<Longrightarrow> \<exists>j w. (j, w) \<in> set (vs_versions vs) \<and> q = (j, if j = i then w\<lparr>v_refs := v_refs w + d\<rparr> else w)" for q by auto
  show ?thesis
    unfolding versions_ok_def
  proof (intro conjI ballI)
    show "distinct (map fst (vs_versions ?vs))" unfolding fst by (rule dist)
    have "set_mset H' \<subseteq> insert i (set_mset H)" using H'(2) by (metis count_eq_zero_iff insert_iff subsetI)
    then have "set_mset H' \<subseteq> set (map fst (vs_versions vs))" using sub iv by force
    then show "set_mset H' \<subseteq> fst ` set (vs_versions ?vs)" using fst by (metis set_map)
    show "refs_ok (vs_store ?vs) (file_uses ?vs + N)" using refs file_uses_update [where g = "\<lambda>w. w\<lparr>v_refs := v_refs w + d\<rparr>" and vs = vs and i = i] by simp
    fix q assume "q \<in> set (vs_versions ?vs)"
    then obtain j w where q: "(j, w) \<in> set (vs_versions vs)" "q = (j, if j = i then w\<lparr>v_refs := v_refs w + d\<rparr> else w)" using elems by blast
    have "w = v" if "j = i" using q(1) iv dist that by (metis eq_key_imp_eq_value)
    then show "fst q < vs_next_version ?vs"
        "v_refs (snd q) = int (count H' (fst q)) + (if vs_current ?vs = Some (fst q) then 1 else 0)" "1 \<le> v_refs (snd q)"
        "version_sorted c (vs_store ?vs) (snd q)"
      using each [OF q(1)] q(2) H' pos by (auto simp: version_sorted_def)
  qed
qed

lemma Version_Ref_ok:
  assumes V: "versions_ok c H N vs" and i: "map_of (vs_versions vs) i = Some v"
  shows "\<exists>vs'. Version_Ref i vs = Some vs' \<and> versions_ok c (add_mset i H) N vs' \<and> vs_current vs' = vs_current vs \<and>
    (\<exists>ps. vs' = vs\<lparr>vs_versions := ps\<rparr>) \<and> map_of (vs_versions vs') i = Some (v\<lparr>v_refs := v_refs v + 1\<rparr>)"
proof -
  have pos: "1 \<le> v_refs v + 1" using V map_of_SomeD [OF i] by (fastforce simp: versions_ok_def)
  have m: "map_of (map (\<lambda>(j, w). if j = i then (j, g w) else (j, w)) ps) i = map_option g (map_of ps i)" for g :: "file_ref Version \<Rightarrow> file_ref Version" and ps
    by (induction ps) auto
  show ?thesis
    using versions_ok_count [OF V i, of "add_mset i H" 1] pos m [of "\<lambda>w. w\<lparr>v_refs := v_refs w + 1\<rparr>"] i by (auto simp: Version_Ref_def)
qed

lemma Version_Unref_more:
  assumes V: "versions_ok c (add_mset i H) N vs" and i: "map_of (vs_versions vs) i = Some v" and more: "2 \<le> v_refs v"
  shows "\<exists>vs'. Version_Unref i vs = Some vs' \<and> versions_ok c H N vs' \<and> (\<exists>ps. vs' = vs\<lparr>vs_versions := ps\<rparr>) \<and>
    map_of (vs_versions vs') i = Some (v\<lparr>v_refs := v_refs v - 1\<rparr>) \<and> (\<forall>j. j \<noteq> i \<longrightarrow> map_of (vs_versions vs') j = map_of (vs_versions vs) j)"
proof -
  have m: "map_of (map (\<lambda>(j, w). if j = i then (j, g w) else (j, w)) ps) k = (if k = i then map_option g (map_of ps i) else map_of ps k)"
    for g :: "file_ref Version \<Rightarrow> file_ref Version" and ps k
    by (induction ps) auto
  show ?thesis
    using versions_ok_count [OF V i, of H "- 1", unfolded diff_conv_add_uminus [symmetric]] more m [of "\<lambda>w. w\<lparr>v_refs := v_refs w - 1\<rparr>"] i
    by (auto simp: Version_Unref_def)
qed

lemma file_uses_remove:
  assumes "distinct (map fst (vs_versions vs))" "map_of (vs_versions vs) i = Some v"
  shows "file_uses vs = mset (concat (v_files v)) + file_uses (vs\<lparr>vs_versions := filter (\<lambda>p. fst p \<noteq> i) (vs_versions vs), vs_store := h\<rparr>)"
proof -
  obtain xs ys where ps: "vs_versions vs = xs @ (i, v) # ys" using split_list [OF map_of_SomeD [OF assms(2)]] by blast
  have "i \<notin> fst ` set xs" "i \<notin> fst ` set ys" using assms(1) ps by auto
  then have "filter (\<lambda>p. fst p \<noteq> i) xs = xs" "filter (\<lambda>p. fst p \<noteq> i) ys = ys" by (auto simp: filter_id_conv)
  then show ?thesis by (simp add: file_uses_def ps)
qed

text \<open>The last reference: the version goes, and with it the files that no other one has.\<close>

lemma Version_Unref_last:
  assumes V: "versions_ok c H N vs" and i: "map_of (vs_versions vs) i = Some v" and one: "v_refs v = 1"
    and H': "set_mset H' \<subseteq> set_mset H - {i}" "\<And>j. j \<noteq> i \<Longrightarrow> count H' j = count H j" and cur: "cur \<noteq> Some i" "vs_current vs \<noteq> Some i \<Longrightarrow> cur = vs_current vs"
      "vs_current vs = Some i \<Longrightarrow> cur = None"
  shows "\<exists>vs'. Version_Unref i vs = Some vs' \<and> versions_ok c H' N (vs'\<lparr>vs_current := cur\<rparr>) \<and> kept (vs_store vs) (vs_store vs') (file_uses vs' + N) \<and>
    (\<exists>h. vs' = vs\<lparr>vs_versions := filter (\<lambda>p. fst p \<noteq> i) (vs_versions vs), vs_store := h\<rparr>)"
proof -
  let ?vs = "\<lambda>h. vs\<lparr>vs_versions := filter (\<lambda>p. fst p \<noteq> i) (vs_versions vs), vs_store := h\<rparr>"
  have dist: "distinct (map fst (vs_versions vs))" and sub: "set_mset H \<subseteq> fst ` set (vs_versions vs)"
    and each: "\<And>p. p \<in> set (vs_versions vs) \<Longrightarrow> fst p < vs_next_version vs \<and>
        v_refs (snd p) = int (count H (fst p)) + (if vs_current vs = Some (fst p) then 1 else 0) \<and> 1 \<le> v_refs (snd p) \<and> version_sorted c (vs_store vs) (snd p)"
    and refs: "refs_ok (vs_store vs) (file_uses vs + N)"
    using V by (auto simp: versions_ok_def)
  have uses: "file_uses (?vs h) = file_uses (?vs (vs_store vs))" for h by (simp add: file_uses_def)
  obtain h where h: "fold_option unref_file (concat (v_files v)) (vs_store vs) = Some h" "refs_ok h (file_uses (?vs (vs_store vs)) + N)"
      "kept (vs_store vs) h (file_uses (?vs (vs_store vs)) + N)"
    using unref_files_ok [of "vs_store vs" "concat (v_files v)" "file_uses (?vs (vs_store vs)) + N"] refs file_uses_remove [OF dist i, of "vs_store vs"]
    by (auto simp: add.assoc)
  have "Version_Unref i vs = Some (?vs h)" using i one h(1) by (simp add: Version_Unref_def Version_delete_def)
  moreover have "versions_ok c H' N ((?vs h)\<lparr>vs_current := cur\<rparr>)"
    unfolding versions_ok_def
  proof (intro conjI ballI)
    show "distinct (map fst (vs_versions ((?vs h)\<lparr>vs_current := cur\<rparr>)))" using dist by (simp add: distinct_map_filter)
    have "set_mset H' \<subseteq> fst ` set (vs_versions vs) - {i}" using H'(1) sub by blast
    then show "set_mset H' \<subseteq> fst ` set (vs_versions ((?vs h)\<lparr>vs_current := cur\<rparr>))" by (auto simp: image_iff)
    show "refs_ok (vs_store ((?vs h)\<lparr>vs_current := cur\<rparr>)) (file_uses ((?vs h)\<lparr>vs_current := cur\<rparr>) + N)"
      using h(2) by (simp add: file_uses_def)
    fix p assume p: "p \<in> set (vs_versions ((?vs h)\<lparr>vs_current := cur\<rparr>))"
    then have p': "p \<in> set (vs_versions vs)" "fst p \<noteq> i" by auto
    have "set (concat (v_files (snd p))) \<subseteq> set_mset (file_uses (?vs (vs_store vs)) + N)"
      using file_uses_mem [of p "?vs (vs_store vs)"] p' by auto
    then show "version_sorted c (vs_store ((?vs h)\<lparr>vs_current := cur\<rparr>)) (snd p)"
      using version_sorted_kept [OF _ h(3)] each [OF p'(1)] by simp
    show "fst p < vs_next_version ((?vs h)\<lparr>vs_current := cur\<rparr>)" "1 \<le> v_refs (snd p)" using each [OF p'(1)] by auto
    show "v_refs (snd p) = int (count H' (fst p)) + (if vs_current ((?vs h)\<lparr>vs_current := cur\<rparr>) = Some (fst p) then 1 else 0)"
      using each [OF p'(1)] p'(2) H'(2) cur by (cases "vs_current vs = Some i") auto
  qed
  ultimately show ?thesis using h(3) uses by auto
qed

lemma versions_ok_current_swap:
  assumes V: "versions_ok c H N vs" and cur: "vs_current vs = Some i" and ex: "map_of (vs_versions vs) i \<noteq> None"
  shows "versions_ok c (add_mset i H) N (vs\<lparr>vs_current := None\<rparr>)"
proof -
  have "(if Some (fst p) = None then 1 else 0 :: int) = 0" for p :: "nat \<times> file_ref Version" by simp
  moreover have "i \<in> fst ` set (vs_versions vs)" using ex by (metis map_of_eq_None_iff)
  ultimately show ?thesis using V cur by (auto simp: versions_ok_def file_uses_def)
qed

lemma Version_Unref_ok:
  assumes V: "versions_ok c (add_mset i H) N vs" and i: "map_of (vs_versions vs) i = Some v"
  shows "\<exists>vs'. Version_Unref i vs = Some vs' \<and> versions_ok c H N vs' \<and> kept (vs_store vs) (vs_store vs') (file_uses vs' + N) \<and>
    (\<exists>ps h. vs' = vs\<lparr>vs_versions := ps, vs_store := h\<rparr>) \<and>
    (\<forall>j w. map_of (vs_versions vs) j = Some w \<longrightarrow> j \<noteq> i \<or> 2 \<le> v_refs v \<longrightarrow>
       (\<exists>w'. map_of (vs_versions vs') j = Some w' \<and> v_files w' = v_files w))"
proof (cases "2 \<le> v_refs v")
  case True
  obtain vs' ps where 1: "Version_Unref i vs = Some vs'" "versions_ok c H N vs'" "vs' = vs\<lparr>vs_versions := ps\<rparr>"
      "map_of (vs_versions vs') i = Some (v\<lparr>v_refs := v_refs v - 1\<rparr>)" "\<forall>j. j \<noteq> i \<longrightarrow> map_of (vs_versions vs') j = map_of (vs_versions vs) j"
    using Version_Unref_more [OF V i True] by blast
  have "kept (vs_store vs) (vs_store vs') (file_uses vs' + N)" using 1(2,3) refs_ok_kept by (auto simp: versions_ok_def)
  moreover have "vs' = vs\<lparr>vs_versions := ps, vs_store := vs_store vs\<rparr>" using 1(3) by simp
  moreover have "\<exists>w'. map_of (vs_versions vs') j = Some w' \<and> v_files w' = v_files w" if "map_of (vs_versions vs) j = Some w" for j w
    using that i 1(4,5) by (cases "j = i") auto
  ultimately show ?thesis using 1(1,2) by blast
next
  case False
  have p: "v_refs v = int (count (add_mset i H) i) + (if vs_current vs = Some i then 1 else 0)" "1 \<le> v_refs v"
    using V map_of_SomeD [OF i] by (fastforce simp: versions_ok_def)+
  then have one: "v_refs v = 1" "count H i = 0" "vs_current vs \<noteq> Some i" using False by (auto simp: count_eq_zero_iff [symmetric] split: if_splits simp del: count_eq_zero_iff)
  have H: "set_mset H \<subseteq> set_mset (add_mset i H) - {i}" using one(2) count_eq_zero_iff [of H i] by auto
  obtain vs' h where 1: "Version_Unref i vs = Some vs'" "versions_ok c H N (vs'\<lparr>vs_current := vs_current vs\<rparr>)"
      "kept (vs_store vs) (vs_store vs') (file_uses vs' + N)" "vs' = vs\<lparr>vs_versions := filter (\<lambda>p. fst p \<noteq> i) (vs_versions vs), vs_store := h\<rparr>"
    using Version_Unref_last [OF V i one(1) H _ one(3)] one(3) by auto
  have m: "map_of (filter (\<lambda>p. fst p \<noteq> i) ps) j = (if j = i then None else map_of ps j)" for j and ps :: "(nat \<times> file_ref Version) list"
    by (induction ps) auto
  have "vs'\<lparr>vs_current := vs_current vs\<rparr> = vs'" using 1(4) by simp
  moreover have "map_of (vs_versions vs') j = Some w" if "map_of (vs_versions vs) j = Some w" "j \<noteq> i" for j w
    using that 1(4) m by simp
  ultimately show ?thesis using 1 False by auto
qed

lemma AppendVersion_ok:
  assumes V: "versions_ok c H (mset (concat (v_files v)) + N) vs" and v: "v_refs v = 0" "version_sorted c (vs_store vs) v"
    and cur: "vs_current vs = None \<or> current_version vs \<noteq> None"
  shows "\<exists>vs'. AppendVersion v vs = Some vs' \<and> versions_ok c H N vs' \<and> current_version vs' = Some (v\<lparr>v_refs := 1\<rparr>) \<and>
    kept (vs_store vs) (vs_store vs') (file_uses vs' + N) \<and>
    (\<exists>ps h k n. vs' = vs\<lparr>vs_versions := ps, vs_store := h, vs_current := k, vs_next_version := n\<rparr>) \<and>
    (\<forall>j w. map_of (vs_versions vs) j = Some w \<longrightarrow> vs_current vs \<noteq> Some j \<or> j \<in># H \<longrightarrow>
       (\<exists>w'. map_of (vs_versions vs') j = Some w' \<and> v_files w' = v_files w))"
proof -
  let ?N = "mset (concat (v_files v)) + N"
  obtain vs1 where 1: "(case vs_current vs of None \<Rightarrow> Some vs | Some i \<Rightarrow> Version_Unref i vs) = Some vs1" "versions_ok c H ?N (vs1\<lparr>vs_current := None\<rparr>)"
      "kept (vs_store vs) (vs_store vs1) (file_uses vs1 + ?N)" "\<exists>ps h. vs1 = vs\<lparr>vs_versions := ps, vs_store := h\<rparr>"
      "\<forall>j w. map_of (vs_versions vs) j = Some w \<longrightarrow> vs_current vs \<noteq> Some j \<or> j \<in># H \<longrightarrow>
         (\<exists>w'. map_of (vs_versions vs1) j = Some w' \<and> v_files w' = v_files w)"
  proof (cases "vs_current vs")
    case None
    moreover have "vs\<lparr>vs_current := None\<rparr> = vs" using None by simp
    moreover have "kept (vs_store vs) (vs_store vs) (file_uses vs + ?N)" using V refs_ok_kept by (auto simp: versions_ok_def)
    moreover have "vs = vs\<lparr>vs_versions := vs_versions vs, vs_store := vs_store vs\<rparr>" by simp
    ultimately show ?thesis using that [of vs] V by (metis option.simps(4))
  next
    case (Some i)
    then obtain w where i: "map_of (vs_versions vs) i = Some w" using cur by (auto simp: current_version_def)
    let ?vs = "vs\<lparr>vs_current := None\<rparr>"
    have V': "versions_ok c (add_mset i H) ?N ?vs" using versions_ok_current_swap [OF V Some] i by simp
    have com: "Version_Unref i (vs\<lparr>vs_current := None\<rparr>) = map_option (\<lambda>u. u\<lparr>vs_current := None\<rparr>) (Version_Unref i vs)"
      by (auto simp: Version_Unref_def Version_delete_def split: option.splits bind_splits)
    have i': "map_of (vs_versions ?vs) i = Some w" using i by simp
    obtain u where u: "Version_Unref i ?vs = Some u" "versions_ok c H ?N u" "kept (vs_store ?vs) (vs_store u) (file_uses u + ?N)"
        "\<exists>ps h. u = ?vs\<lparr>vs_versions := ps, vs_store := h\<rparr>"
        "\<forall>j x. map_of (vs_versions ?vs) j = Some x \<longrightarrow> j \<noteq> i \<or> 2 \<le> v_refs w \<longrightarrow>
          (\<exists>w'. map_of (vs_versions u) j = Some w' \<and> v_files w' = v_files x)"
      using Version_Unref_ok [OF V' i'] by blast
    obtain ps h where up: "u = ?vs\<lparr>vs_versions := ps, vs_store := h\<rparr>" using u(4) by blast
    obtain vs1 where vs1: "Version_Unref i vs = Some vs1" "u = vs1\<lparr>vs_current := None\<rparr>" using u(1) com by auto
    have "vs_current vs1 = Some i" using vs1(1) Some by (auto simp: Version_Unref_def Version_delete_def split: option.splits bind_splits if_splits)
    then have "vs1 = u\<lparr>vs_current := Some i\<rparr>" using vs1(2) by simp
    then have v1: "vs1 = vs\<lparr>vs_versions := ps, vs_store := h\<rparr>" using up Some by simp
    have refs: "2 \<le> v_refs w" if "i \<in># H"
    proof -
      have "v_refs w = int (count H i) + 1" using V map_of_SomeD [OF i] Some by (fastforce simp: versions_ok_def)
      then show ?thesis using that by (simp add: Suc_le_eq)
    qed
    show ?thesis
    proof (rule that [of vs1])
      show "(case vs_current vs of None \<Rightarrow> Some vs | Some i \<Rightarrow> Version_Unref i vs) = Some vs1" using Some vs1(1) by simp
      show "versions_ok c H ?N (vs1\<lparr>vs_current := None\<rparr>)" using u(2) vs1(2) by simp
      show "kept (vs_store vs) (vs_store vs1) (file_uses vs1 + ?N)" using u(3) vs1(2) by (simp add: file_uses_def)
      show "\<exists>ps h. vs1 = vs\<lparr>vs_versions := ps, vs_store := h\<rparr>" using v1 by blast
      show "\<forall>j x. map_of (vs_versions vs) j = Some x \<longrightarrow> vs_current vs \<noteq> Some j \<or> j \<in># H \<longrightarrow>
         (\<exists>w'. map_of (vs_versions vs1) j = Some w' \<and> v_files w' = v_files x)"
        using u(5) vs1(2) Some refs by auto
    qed
  qed
  let ?i = "vs_next_version vs1"
  let ?vs' = "vs1\<lparr>vs_current := Some ?i, vs_next_version := ?i + 1, vs_versions := vs_versions vs1 @ [(?i, v\<lparr>v_refs := 1\<rparr>)]\<rparr>"
  have app: "AppendVersion v vs = Some ?vs'" using 1(1) v(1) by (simp add: AppendVersion_def Let_def)
  have new: "?i \<notin> fst ` set (vs_versions vs1)" "?i \<notin># H" using 1(2) by (fastforce simp: versions_ok_def)+
  then have c0: "count H ?i = 0" by (simp add: count_eq_zero_iff)
  have uses: "file_uses ?vs' = file_uses vs1 + mset (concat (v_files v))" by (simp add: file_uses_def)
  have sv: "version_sorted c (vs_store vs1) v" by (rule version_sorted_kept [OF v(2) 1(3)]) auto
  have "versions_ok c H N ?vs'"
    using 1(2) v(1) new c0 sv uses
    by (auto simp: versions_ok_def version_sorted_def file_uses_def add.assoc less_Suc_eq)
  moreover have "current_version ?vs' = Some (v\<lparr>v_refs := 1\<rparr>)" 
  proof -
    have "map_of (vs_versions vs1) ?i = None" using new(1) by (simp add: map_of_eq_None_iff)
    then show ?thesis by (simp add: current_version_def map_add_def)
  qed
  moreover have "kept (vs_store vs) (vs_store ?vs') (file_uses ?vs' + N)" using 1(3) uses by (simp add: add.assoc)
  moreover have "\<exists>ps h k n. ?vs' = vs\<lparr>vs_versions := ps, vs_store := h, vs_current := k, vs_next_version := n\<rparr>" 
  proof -
    obtain ps h where "vs1 = vs\<lparr>vs_versions := ps, vs_store := h\<rparr>" using 1(4) by blast
    then show ?thesis
      by (intro exI [of _ "ps @ [(?i, v\<lparr>v_refs := 1\<rparr>)]"] exI [of _ h] exI [of _ "Some ?i"] exI [of _ "?i + 1"]) simp
  qed
  moreover have "\<exists>w'. map_of (vs_versions ?vs') j = Some w' \<and> v_files w' = v_files w"
    if j: "map_of (vs_versions vs) j = Some w" "vs_current vs \<noteq> Some j \<or> j \<in># H" for j w
  proof -
    obtain w' where w': "map_of (vs_versions vs1) j = Some w'" "v_files w' = v_files w" using 1(5) j by blast
    then have "j \<noteq> ?i" using new(1) by (metis map_of_eq_None_iff option.distinct(1))
    then show ?thesis using w' by (simp add: map_add_def)
  qed
  ultimately show ?thesis using app by blast
qed

section \<open>Installing a version\<close>

text \<open>What the manifest does not touch.\<close>

lemma open_manifest_frame:
  assumes "current_version vs \<noteq> None"
  shows "\<exists>s name d st'. open_manifest opts vs st = Some (s, name, vs\<lparr>vs_descriptor_log := d\<rparr>, st') \<and> (Status_ok s \<longrightarrow> d \<noteq> None)"
proof (cases "vs_descriptor_log vs")
  case (Some w)
  then have e: "vs\<lparr>vs_descriptor_log := Some w\<rparr> = vs" by simp
  show ?thesis
    by (rule exI [of _ Status_OK], rule exI [of _ "[]"], rule exI [of _ "Some w"], rule exI [of _ st]) (simp only: e, simp add: open_manifest_def Some)
next
  case None
  let ?name = "DescriptorFileName (vo_dbname opts) (vs_manifest_file_number vs)"
  obtain s f st1 where n: "NewWritableFile ?name st = (s, f, st1)" by (metis surj_pair)
  show ?thesis
  proof (cases f)
    case None' : None
    have e: "vs\<lparr>vs_descriptor_log := None\<rparr> = vs" using None by simp
    moreover have "\<not> Status_ok s" using n None' by (auto simp: NewWritableFile_def PosixError_def split: prod.splits option.splits if_splits)
    ultimately show ?thesis using None n None'
      by (intro exI [of _ s] exI [of _ ?name] exI [of _ None] exI [of _ st1]) (simp only: e, simp add: open_manifest_def)
  next
    case (Some w)
    obtain cur where c: "current_version vs = Some cur" using assms by blast
    obtain s2 w2 st2 where "WriteSnapshot opts vs (Writer_make w) st1 = Some (s2, w2, st2)" using c by (auto simp: WriteSnapshot_def) (metis surj_pair)
    then show ?thesis using None n Some by (auto simp: open_manifest_def)
  qed
qed

lemma log_edit_frame:
  assumes "vs_descriptor_log vs \<noteq> None"
  shows "\<exists>s d st'. log_edit opts name e vs st = Some (s, vs\<lparr>vs_descriptor_log := d\<rparr>, st')"
  using assms unfolding log_edit_def by (auto simp: Let_def split: prod.splits)

lemma Finalize_simps [simp]: "v_files (Finalize fm v) = v_files v" "v_refs (Finalize fm v) = v_refs v"
  by (simp_all add: Finalize_def Let_def split: prod.splits)

lemma complete_edit_parts:
  assumes "complete_edit vs edit = Some e"
  shows "ve_compact_pointers e = ve_compact_pointers edit" "ve_deleted_files e = ve_deleted_files edit" "ve_new_files e = ve_new_files edit"
  using assms by (auto simp: complete_edit_def SetLogNumber_def SetPrevLogNumber_def SetNextFile_def SetLastSequence_def Let_def split: if_splits)

lemma versions_ok_frame:
  "versions_ok c H N (vs\<lparr>vs_descriptor_log := d\<rparr>) = versions_ok c H N vs"
  "versions_ok c H N (vs\<lparr>vs_compact_pointer := cp\<rparr>) = versions_ok c H N vs"
  "versions_ok c H N (vs\<lparr>vs_log_number := a\<rparr>) = versions_ok c H N vs"
  "versions_ok c H N (vs\<lparr>vs_prev_log_number := b\<rparr>) = versions_ok c H N vs"
  "versions_ok c H N (vs\<lparr>vs_next_file_number := n\<rparr>) = versions_ok c H N vs"
  "versions_ok c H N (vs\<lparr>vs_last_sequence := q\<rparr>) = versions_ok c H N vs"
  by (simp_all add: versions_ok_def file_uses_def)

lemma versions_ok_store:
  assumes "versions_ok c H N vs" "refs_ok h (file_uses vs + N')" "kept (vs_store vs) h (file_uses vs)"
  shows "versions_ok c H N' (vs\<lparr>vs_store := h\<rparr>)"
proof -
  have "version_sorted c h (snd p)" if "p \<in> set (vs_versions vs)" for p
    using version_sorted_kept [OF _ assms(3) file_uses_mem [OF that]] assms(1) that by (auto simp: versions_ok_def)
  then show ?thesis using assms(1,2) by (auto simp: versions_ok_def file_uses_def)
qed

text \<open>The reference that the builder holds on its base comes and goes.\<close>

lemma Ref_Unref:
  assumes V: "versions_ok c H N vs" and i: "map_of (vs_versions vs) i = Some v"
  shows "\<exists>ps. Version_Ref i vs = Some (vs\<lparr>vs_versions := ps\<rparr>) \<and>
    (\<forall>h cp. Version_Unref i (vs\<lparr>vs_versions := ps, vs_compact_pointer := cp, vs_store := h\<rparr>) = Some (vs\<lparr>vs_compact_pointer := cp, vs_store := h\<rparr>))"
proof -
  let ?ps = "map (\<lambda>(j, w). if j = i then (j, w\<lparr>v_refs := v_refs w + 1\<rparr>) else (j, w)) (vs_versions vs)"
  have m: "map_of (map (\<lambda>(j, w). if j = i then (j, g w) else (j, w)) ps) i = map_option g (map_of ps i)" for g :: "file_ref Version \<Rightarrow> file_ref Version" and ps
    by (induction ps) auto
  have "(\<lambda>(j, w). if j = i then (j, w\<lparr>v_refs := v_refs w - 1\<rparr>) else (j, w)) \<circ> (\<lambda>(j, w). if j = i then (j, w\<lparr>v_refs := v_refs w + 1\<rparr>) else (j, w)) =
      (\<lambda>p :: nat \<times> file_ref Version. p)"
    by (auto simp: fun_eq_iff)
  then have again: "map (\<lambda>(j, w). if j = i then (j, w\<lparr>v_refs := v_refs w - 1\<rparr>) else (j, w)) ?ps = vs_versions vs" by simp
  have "1 \<le> v_refs v" using V map_of_SomeD [OF i] by (fastforce simp: versions_ok_def)
  then have "Version_Unref i (vs\<lparr>vs_versions := ?ps, vs_compact_pointer := cp, vs_store := h\<rparr>) = Some (vs\<lparr>vs_compact_pointer := cp, vs_store := h\<rparr>)" for h cp
    using again m [of "\<lambda>w. w\<lparr>v_refs := v_refs w + 1\<rparr>"] i by (simp add: Version_Unref_def del: map_map)
  then show ?thesis using i by (intro exI [of _ ?ps]) (simp add: Version_Ref_def)
qed

text \<open>
  The descriptions of the current version by level; an edit that may be applied to it.
\<close>

definition current_descs :: "VersionSet \<Rightarrow> nat \<Rightarrow> FileMetaData set" where
  "current_descs vs level = (case current_version vs of None \<Rightarrow> {} | Some v \<Rightarrow> set (descs (vs_store vs) (v_files v ! level)))"

definition good_edit :: "Comparator \<Rightarrow> VersionSet \<Rightarrow> VersionEdit \<Rightarrow> bool" where
  "good_edit c vs edit \<longleftrightarrow>
     (ve_has_log_number edit \<longrightarrow> vs_log_number vs \<le> ve_log_number edit \<and> ve_log_number edit < vs_next_file_number vs) \<and>
     fresh_edit (\<lambda>level. fm_number ` current_descs vs level) edit \<and>
     (\<forall>level\<in>{1..<kNumLevels}. disjoint_descs c (apply_edit level (current_descs vs level) edit))"

definition versions_kept :: "nat multiset \<Rightarrow> VersionSet \<Rightarrow> VersionSet \<Rightarrow> bool" where
  "versions_kept H vs vs' \<longleftrightarrow>
     (\<forall>i\<in>#H. \<exists>v v'. map_of (vs_versions vs) i = Some v \<and> map_of (vs_versions vs') i = Some v' \<and> v_files v' = v_files v \<and>
        map (descs (vs_store vs')) (v_files v') = map (descs (vs_store vs)) (v_files v))"

lemma kept_descs: "kept h h' M \<Longrightarrow> set fs \<subseteq> set_mset M \<Longrightarrow> descs h' fs = descs h fs"
  by (auto simp: kept_def descs_def)

lemma versions_keptI:
  assumes "versions_ok c H N vs" "kept (vs_store vs) h (file_uses vs)" "kept h (vs_store vs') (file_uses vs')"
    "\<And>i v. map_of (vs_versions vs) i = Some v \<Longrightarrow> i \<in># H \<Longrightarrow> \<exists>v'. map_of (vs_versions vs') i = Some v' \<and> v_files v' = v_files v"
  shows "versions_kept H vs vs'"
  unfolding versions_kept_def
proof
  fix i assume i: "i \<in># H"
  then obtain v where v: "map_of (vs_versions vs) i = Some v"
    using assms(1) by (metis (no_types, lifting) map_of_eq_None_iff option.exhaust subsetD versions_ok_def)
  obtain v' where v': "map_of (vs_versions vs') i = Some v'" "v_files v' = v_files v" using assms(4) [OF v i] by blast
  have "set (concat (v_files v)) \<subseteq> set_mset (file_uses vs')" "set (concat (v_files v)) \<subseteq> set_mset (file_uses vs)"
    using file_uses_mem [OF map_of_SomeD [OF v'(1)]] file_uses_mem [OF map_of_SomeD [OF v]] v'(2) by simp_all
  then have "descs (vs_store vs') fs = descs (vs_store vs) fs" if "fs \<in> set (v_files v)" for fs
    using kept_descs [OF assms(2), of fs] kept_descs [OF assms(3), of fs] that by (metis UN_subset_iff set_concat)
  then show "\<exists>v v'. map_of (vs_versions vs) i = Some v \<and> map_of (vs_versions vs') i = Some v' \<and> v_files v' = v_files v \<and>
      map (descs (vs_store vs')) (v_files v') = map (descs (vs_store vs)) (v_files v)"
    using v v' by auto
qed

lemma current_descs_kept:
  assumes "current_version vs = Some v" "kept h (vs_store vs) (file_uses vs)" "level < length (v_files v)"
  shows "current_descs vs level = set (descs h (v_files v ! level))"
proof -
  obtain i where "(i, v) \<in> set (vs_versions vs)" using assms(1) by (auto simp: current_version_def bind_eq_Some_conv dest: map_of_SomeD)
  then have "set (v_files v ! level) \<subseteq> set_mset (file_uses vs)" using file_uses_mem [of "(i, v)" vs] nth_mem [OF assms(3)] by auto
  then show ?thesis using assms(1) kept_descs [OF assms(2)] by (simp add: current_descs_def)
qed

lemma complete_edit_good:
  assumes "good_edit c vs edit"
  obtains e where "complete_edit vs edit = Some e"
  using assms that by (auto simp: good_edit_def complete_edit_def Let_def)

lemma apply_edit_cong: "ve_deleted_files e = ve_deleted_files e' \<Longrightarrow> ve_new_files e = ve_new_files e' \<Longrightarrow> apply_edit level S e = apply_edit level S e'"
  by (simp add: apply_edit_def edit_deleted_def edit_new_def)

lemma fresh_edit_cong:
  "ve_compact_pointers e = ve_compact_pointers e' \<Longrightarrow> ve_deleted_files e = ve_deleted_files e' \<Longrightarrow> ve_new_files e = ve_new_files e' \<Longrightarrow>
   fresh_edit used e = fresh_edit used e'"
  by (simp add: fresh_edit_def edit_levels_def new_numbers_def edit_new_def)

text \<open>The state in which the manifest is written: the new version exists beside the list.\<close>

lemma build_version:
  assumes T: "three_way (Compare c)" and V: "vset_ok c H vs" and g: "good_edit c vs edit" and e: "complete_edit vs edit = Some e"
  shows "\<exists>i base ps v h. vs_current vs = Some i \<and> current_version vs = Some base \<and> Version_Ref i vs = Some (vs\<lparr>vs_versions := ps\<rparr>) \<and>
    Builder_run c base [e] (vs_compact_pointer vs, vs_store vs) = Some (v, pointers_after e (vs_compact_pointer vs), h) \<and>
    Version_Unref i (vs\<lparr>vs_versions := ps, vs_compact_pointer := pointers_after e (vs_compact_pointer vs), vs_store := h\<rparr>) =
      Some (vs\<lparr>vs_compact_pointer := pointers_after e (vs_compact_pointer vs), vs_store := h\<rparr>) \<and>
    versions_ok c H (mset (concat (v_files v))) (vs\<lparr>vs_compact_pointer := pointers_after e (vs_compact_pointer vs), vs_store := h\<rparr>) \<and>
    kept (vs_store vs) h (file_uses vs) \<and> version_sorted c h v \<and> v_refs v = 0 \<and>
    (\<forall>level<kNumLevels. set (descs h (v_files v ! level)) = apply_edit level (current_descs vs level) edit)"
proof -
  obtain i base where i: "vs_current vs = Some i" "map_of (vs_versions vs) i = Some base" "current_version vs = Some base"
    using V by (auto simp: vset_ok_def current_version_def bind_eq_Some_conv)
  have W: "versions_ok c H {#} vs" using V by (simp add: vset_ok_def)
  note parts = complete_edit_parts [OF e]
  have base: "version_sorted c (vs_store vs) base" "refs_ok (vs_store vs) (file_uses vs)" "set (concat (v_files base)) \<subseteq> set_mset (file_uses vs)"
    using W map_of_SomeD [OF i(2)] file_uses_mem [OF map_of_SomeD [OF i(2)]] by (auto simp: versions_ok_def)
  have cd: "current_descs vs level = set (descs (vs_store vs) (v_files base ! level))" for level using i(3) by (simp add: current_descs_def)
  have fr: "fresh_edits (level_numbers (vs_store vs) base) [e]"
    using g fresh_edit_cong [OF parts] cd by (simp add: good_edit_def level_numbers_def [abs_def])
  have ae: "apply_edit level (set (descs (vs_store vs) (v_files base ! level))) e = apply_edit level (current_descs vs level) edit" for level
    using apply_edit_cong [OF parts(2,3)] cd by simp
  have dj: "\<forall>level\<in>{1..<kNumLevels}. disjoint_descs c (foldl (apply_edit level) (set (descs (vs_store vs) (v_files base ! level))) [e])"
    using g ae by (simp add: good_edit_def)
  obtain v h where r: "Builder_run c base [e] (vs_compact_pointer vs, vs_store vs) = Some (v, pointers_after e (vs_compact_pointer vs), h)"
      "version_sorted c h v" "refs_ok h (file_uses vs + mset (concat (v_files v)))" "kept (vs_store vs) h (file_uses vs)"
      "\<forall>level<kNumLevels. set (descs h (v_files v ! level)) = foldl (apply_edit level) (set (descs (vs_store vs) (v_files base ! level))) [e]"
      "v = Version_make\<lparr>v_files := v_files v\<rparr>"
    using Builder_run_ok [OF T base fr dj, of "vs_compact_pointer vs"] by auto
  obtain ps where ps: "Version_Ref i vs = Some (vs\<lparr>vs_versions := ps\<rparr>)"
      "\<And>h cp. Version_Unref i (vs\<lparr>vs_versions := ps, vs_compact_pointer := cp, vs_store := h\<rparr>) = Some (vs\<lparr>vs_compact_pointer := cp, vs_store := h\<rparr>)"
    using Ref_Unref [OF W i(2)] by blast
  have "versions_ok c H (mset (concat (v_files v))) (vs\<lparr>vs_store := h\<rparr>)" by (rule versions_ok_store [OF W r(3,4)])
  then have "versions_ok c H (mset (concat (v_files v))) (vs\<lparr>vs_compact_pointer := pointers_after e (vs_compact_pointer vs), vs_store := h\<rparr>)"
  proof -
    assume a: "versions_ok c H (mset (concat (v_files v))) (vs\<lparr>vs_store := h\<rparr>)"
    have "vs\<lparr>vs_compact_pointer := cp, vs_store := h\<rparr> = vs\<lparr>vs_store := h, vs_compact_pointer := cp\<rparr>" for cp by simp
    then show ?thesis using a versions_ok_frame(2) by metis
  qed
  moreover have "v_refs v = 0" by (subst r(6)) (simp add: Version_make_def)
  ultimately show ?thesis using i(1,3) ps r(1,2,4,5) ae by auto
qed

lemma log_and_apply_ok:
  assumes "three_way (Compare (vo_comparator opts))" "vset_ok (vo_comparator opts) H vs" "good_edit (vo_comparator opts) vs edit"
  shows "\<exists>s vs' st'. LogAndApply opts edit (vs, st) = Some (s, vs', st') \<and> vset_ok (vo_comparator opts) H vs' \<and> versions_kept H vs vs' \<and>
    (\<forall>level<kNumLevels. current_descs vs' level = (if Status_ok s then apply_edit level (current_descs vs level) edit else current_descs vs level))"
proof -
  let ?c = "vo_comparator opts"
  obtain e where e: "complete_edit vs edit = Some e" using complete_edit_good [OF assms(3)] .
  obtain i base ps v h where b: "vs_current vs = Some i" "current_version vs = Some base" "Version_Ref i vs = Some (vs\<lparr>vs_versions := ps\<rparr>)"
      "Builder_run ?c base [e] (vs_compact_pointer vs, vs_store vs) = Some (v, pointers_after e (vs_compact_pointer vs), h)"
      "Version_Unref i (vs\<lparr>vs_versions := ps, vs_compact_pointer := pointers_after e (vs_compact_pointer vs), vs_store := h\<rparr>) =
        Some (vs\<lparr>vs_compact_pointer := pointers_after e (vs_compact_pointer vs), vs_store := h\<rparr>)"
      "versions_ok ?c H (mset (concat (v_files v))) (vs\<lparr>vs_compact_pointer := pointers_after e (vs_compact_pointer vs), vs_store := h\<rparr>)"
      "kept (vs_store vs) h (file_uses vs)" "version_sorted ?c h v" "v_refs v = 0"
      "\<forall>level<kNumLevels. set (descs h (v_files v ! level)) = apply_edit level (current_descs vs level) edit"
    using build_version [OF assms e] by blast
  let ?cp = "pointers_after e (vs_compact_pointer vs)" and ?v = "Finalize (fm_at h) v"
  let ?vs1 = "vs\<lparr>vs_compact_pointer := ?cp, vs_store := h\<rparr>"
  have cv: "current_version (vs'\<lparr>vs_descriptor_log := d\<rparr>) = current_version vs'" "current_version ?vs1 = current_version vs" for vs' d
    by (simp_all add: current_version_def)
  obtain s1 name d1 st1 where m: "open_manifest opts ?vs1 st = Some (s1, name, ?vs1\<lparr>vs_descriptor_log := d1\<rparr>, st1)" "Status_ok s1 \<longrightarrow> d1 \<noteq> None"
    using open_manifest_frame [of ?vs1 opts st] b(2) cv by auto
  obtain s2 d2 st2 where l: "(if Status_ok s1 then log_edit opts name e (?vs1\<lparr>vs_descriptor_log := d1\<rparr>) st1 else Some (s1, ?vs1\<lparr>vs_descriptor_log := d1\<rparr>, st1)) =
      Some (s2, ?vs1\<lparr>vs_descriptor_log := d2\<rparr>, st2)"
  proof (cases "Status_ok s1")
    case True
    then show ?thesis using that log_edit_frame [of "?vs1\<lparr>vs_descriptor_log := d1\<rparr>" opts name e st1] m(2) by auto
  qed (use that in auto)
  let ?vs2 = "?vs1\<lparr>vs_descriptor_log := d2\<rparr>"
  have V2: "versions_ok ?c H (mset (concat (v_files v))) ?vs2" using b(6) versions_ok_frame(1) by blast
  have head: "LogAndApply opts edit (vs, st) =
      (if Status_ok s2 then do {
         vs \<leftarrow> AppendVersion ?v ?vs2;
         Some (s2, vs\<lparr>vs_log_number := ve_log_number e, vs_prev_log_number := ve_prev_log_number e\<rparr>, st2)
       }
       else do {
         h \<leftarrow> fold_option unref_file (concat (v_files ?v)) (vs_store ?vs2);
         let vs = ?vs2\<lparr>vs_store := h\<rparr>;
         let (vs, st) =
            (if name \<noteq> []
             then (vs\<lparr>vs_descriptor_log := None\<rparr>,
                   snd (RemoveFile name (case vs_descriptor_log vs of None \<Rightarrow> st2 | Some writer \<Rightarrow> file_delete (w_dest writer) st2)))
             else (vs, st2));
         Some (s2, vs, st)
       })"
    unfolding LogAndApply_def prod.case using e b(1-5) m(1) l by simp
  show ?thesis
  proof (cases "Status_ok s2")
    case True
    have V2': "versions_ok ?c H (mset (concat (v_files ?v)) + {#}) ?vs2" using V2 by simp
    have sv: "version_sorted ?c (vs_store ?vs2) ?v" using b(8) by (simp add: version_sorted_def)
    obtain vs3 where a: "AppendVersion ?v ?vs2 = Some vs3" "versions_ok ?c H {#} vs3" "current_version vs3 = Some (?v\<lparr>v_refs := 1\<rparr>)"
        "kept (vs_store ?vs2) (vs_store vs3) (file_uses vs3 + {#})"
        "\<forall>j w. map_of (vs_versions ?vs2) j = Some w \<longrightarrow> vs_current ?vs2 \<noteq> Some j \<or> j \<in># H \<longrightarrow>
           (\<exists>w'. map_of (vs_versions vs3) j = Some w' \<and> v_files w' = v_files w)"
      using AppendVersion_ok [OF V2' _ sv] b(2,9) cv by (metis (no_types, lifting) Finalize_simps(2) option.distinct(1))
    let ?vs4 = "vs3\<lparr>vs_log_number := ve_log_number e, vs_prev_log_number := ve_prev_log_number e\<rparr>"
    have c4: "current_version ?vs4 = Some (?v\<lparr>v_refs := 1\<rparr>)" using a(3) by (simp add: current_version_def)
    have "vset_ok ?c H ?vs4" using a(2) c4 versions_ok_frame(3,4) by (simp add: vset_ok_def)
    moreover have k4: "kept h (vs_store ?vs4) (file_uses ?vs4)" using a(4) by (simp add: file_uses_def)
    have "versions_kept H vs ?vs4"
    proof (rule versions_keptI [OF _ b(7)])
      show "versions_ok ?c H {#} vs" using assms(2) by (simp add: vset_ok_def)
      show "\<exists>v'. map_of (vs_versions ?vs4) j = Some v' \<and> v_files v' = v_files w" if "map_of (vs_versions vs) j = Some w" "j \<in># H" for j w
        using a(5) that by simp
      show "kept h (vs_store ?vs4) (file_uses ?vs4)" using k4 .
    qed
    moreover have "current_descs ?vs4 level = apply_edit level (current_descs vs level) edit" if "level < kNumLevels" for level
      using current_descs_kept [OF c4 k4] b(8,10) that by (simp add: version_sorted_def)
    ultimately show ?thesis using head True a(1) by auto
  next
    case False
    have refs: "refs_ok h (mset (concat (v_files v)) + file_uses vs)" using b(6) by (simp add: versions_ok_def file_uses_def add.commute)
    obtain h' where h': "fold_option unref_file (concat (v_files v)) h = Some h'" "refs_ok h' (file_uses vs)" "kept h h' (file_uses vs)"
      using unref_files_ok [OF refs] by blast
    obtain d st' where res: "LogAndApply opts edit (vs, st) = Some (s2, ?vs1\<lparr>vs_store := h', vs_descriptor_log := d\<rparr>, st')"
    proof (cases "name = []")
      case True
      have "?vs2\<lparr>vs_store := h'\<rparr> = ?vs1\<lparr>vs_store := h', vs_descriptor_log := d2\<rparr>" by simp
      then show ?thesis using that [of d2 st2] head False h'(1) True by simp
    next
      case f: False
      then show ?thesis using that [of None] head False h'(1) by (simp add: Let_def)
    qed
    let ?vs3 = "?vs1\<lparr>vs_store := h', vs_descriptor_log := d\<rparr>"
    have uses: "file_uses ?vs3 = file_uses vs" by (simp add: file_uses_def)
    have "versions_ok ?c H {#} (?vs1\<lparr>vs_store := h'\<rparr>)"
      by (rule versions_ok_store [OF b(6)]) (use h'(2,3) in \<open>simp_all add: file_uses_def\<close>)
    then have "versions_ok ?c H {#} ?vs3" using versions_ok_frame(1) by blast
    moreover have c3: "current_version ?vs3 = Some base" using b(2) by (simp add: current_version_def)
    ultimately have "vset_ok ?c H ?vs3" by (simp add: vset_ok_def)
    moreover have k3: "kept h (vs_store ?vs3) (file_uses ?vs3)" using h'(3) uses by simp
    have "versions_kept H vs ?vs3"
      by (rule versions_keptI [OF _ b(7) k3]) (use assms(2) in \<open>auto simp: vset_ok_def\<close>)
    moreover have "current_descs ?vs3 level = current_descs vs level" if "level < kNumLevels" for level
    proof -
      have k: "kept (vs_store vs) (vs_store ?vs3) (file_uses ?vs3)" using kept_trans [OF b(7) h'(3)] uses by simp
      have "length (v_files base) = kNumLevels"
        using assms(2) b(1,2) by (auto simp: vset_ok_def versions_ok_def version_sorted_def current_version_def dest!: map_of_SomeD)
      then show ?thesis using current_descs_kept [OF c3 k] that b(2) by (simp add: current_descs_def)
    qed
    ultimately show ?thesis using res False by (intro exI [of _ s2] exI [of _ ?vs3] exI [of _ st']) simp
  qed
qed

text \<open>
  C20.  Whatever the system calls do, installing an edit ends; afterwards the counts are exact again and every version that a client holds has its
  files unchanged.  If the status is ok, the current version has exactly the files of the old one without the deleted and with the new ones; otherwise
  it has the files it had.
\<close>

theorem log_and_apply:
  assumes "three_way (Compare (vo_comparator opts))" "vset_ok (vo_comparator opts) H vs" "good_edit (vo_comparator opts) vs edit"
  shows "\<exists>s vs' st'. LogAndApply opts edit (vs, st) = Some (s, vs', st') \<and> vset_ok (vo_comparator opts) H vs' \<and> versions_kept H vs vs' \<and>
    (\<forall>level<kNumLevels. current_descs vs' level = (if Status_ok s then apply_edit level (current_descs vs level) edit else current_descs vs level))"
  by (rule log_and_apply_ok [OF assms])

section \<open>Reachable states\<close>

text \<open>
  Clients take references to the current version and give them back, edits are installed, and numbers are handed out, in any order.
\<close>

inductive vs_reach :: "VersionSetOptions \<Rightarrow> VersionSet \<Rightarrow> nat multiset \<Rightarrow> bool" for opts where
  start: "VersionSet_make = Some vs \<Longrightarrow> vs_reach opts vs {#}"
| hold: "vs_reach opts vs H \<Longrightarrow> vs_current vs = Some i \<Longrightarrow> Version_Ref i vs = Some vs' \<Longrightarrow> vs_reach opts vs' (add_mset i H)"
| release: "vs_reach opts vs (add_mset i H) \<Longrightarrow> Version_Unref i vs = Some vs' \<Longrightarrow> vs_reach opts vs' H"
| install: "vs_reach opts vs H \<Longrightarrow> good_edit (vo_comparator opts) vs edit \<Longrightarrow> LogAndApply opts edit (vs, st) = Some (s, vs', st') \<Longrightarrow> vs_reach opts vs' H"
| numbers: "vs_reach opts vs H \<Longrightarrow> vs_reach opts (vs\<lparr>vs_next_file_number := n, vs_last_sequence := q\<rparr>) H"

lemma VersionSet_make_ok: "VersionSet_make = Some vs \<Longrightarrow> vset_ok c {#} vs"
proof -
  assume vs: "VersionSet_make = Some vs"
  have "refs_ok \<lparr>fs_mem = Map.empty, fs_next = 0\<rparr> {#}" by (simp add: refs_ok_def)
  then have "versions_ok c {#} (mset (concat (v_files (Version_make :: file_ref Version))) + {#}) VersionSet_empty"
    by (simp add: versions_ok_def VersionSet_empty_def file_uses_def Version_make_def)
  moreover have "version_sorted c (vs_store VersionSet_empty) Version_make" by (simp add: version_sorted_def Version_make_def)
  moreover have "v_refs (Version_make :: file_ref Version) = 0" by (simp add: Version_make_def)
  moreover have "vs_current VersionSet_empty = None" by (simp add: VersionSet_empty_def)
  ultimately show ?thesis using AppendVersion_ok [of c "{#}" Version_make "{#}" VersionSet_empty] vs by (auto simp: VersionSet_make_def vset_ok_def)
qed

lemma current_held:
  assumes "vset_ok c H vs"
  obtains i v where "vs_current vs = Some i" "map_of (vs_versions vs) i = Some v" "current_version vs = Some v"
  using assms by (auto simp: vset_ok_def current_version_def bind_eq_Some_conv)

lemma held_version: "versions_ok c H N vs \<Longrightarrow> i \<in># H \<Longrightarrow> \<exists>v. map_of (vs_versions vs) i = Some v"
  unfolding versions_ok_def by (metis map_of_eq_None_iff option.exhaust subsetD)

lemma Unref_ok:
  assumes "vset_ok c (add_mset i H) vs"
  shows "\<exists>vs'. Version_Unref i vs = Some vs' \<and> vset_ok c H vs'"
proof -
  have V: "versions_ok c (add_mset i H) {#} vs" using assms by (simp add: vset_ok_def)
  obtain v where v: "map_of (vs_versions vs) i = Some v" using held_version [OF V, of i] by auto
  obtain k w where k: "vs_current vs = Some k" "map_of (vs_versions vs) k = Some w" using current_held [OF assms] by metis
  obtain vs' ps h where u: "Version_Unref i vs = Some vs'" "versions_ok c H {#} vs'" "vs' = vs\<lparr>vs_versions := ps, vs_store := h\<rparr>"
      "\<forall>j w. map_of (vs_versions vs) j = Some w \<longrightarrow> j \<noteq> i \<or> 2 \<le> v_refs v \<longrightarrow> (\<exists>w'. map_of (vs_versions vs') j = Some w' \<and> v_files w' = v_files w)"
    using Version_Unref_ok [OF V v] by blast
  have "v_refs v = int (count (add_mset i H) i) + (if vs_current vs = Some i then 1 else 0)"
    using V map_of_SomeD [OF v] by (fastforce simp: versions_ok_def)
  then have "k \<noteq> i \<or> 2 \<le> v_refs v" using k(1) by auto
  then have "\<exists>w'. map_of (vs_versions vs') k = Some w'" using u(4) k(2) by blast
  moreover have "vs_current vs' = Some k" using u(3) k(1) by simp
  ultimately have "current_version vs' \<noteq> None" by (auto simp: current_version_def)
  then show ?thesis using u(1,2) by (simp add: vset_ok_def)
qed

lemma Ref_ok:
  assumes "vset_ok c H vs" "vs_current vs = Some i"
  shows "\<exists>vs'. Version_Ref i vs = Some vs' \<and> vset_ok c (add_mset i H) vs'"
proof -
  obtain v where v: "map_of (vs_versions vs) i = Some v" using current_held [OF assms(1)] assms(2) by (metis option.inject)
  have V: "versions_ok c H {#} vs" using assms(1) by (simp add: vset_ok_def)
  show ?thesis using Version_Ref_ok [OF V v] assms(2) by (auto simp: vset_ok_def current_version_def)
qed

lemma vs_reach_ok:
  assumes T: "three_way (Compare (vo_comparator opts))"
  shows "vs_reach opts vs H \<Longrightarrow> vset_ok (vo_comparator opts) H vs"
proof (induction rule: vs_reach.induct)
  case (start vs)
  then show ?case by (rule VersionSet_make_ok)
next
  case (hold vs H i vs')
  then show ?case using Ref_ok by fastforce
next
  case (release vs i H vs')
  then show ?case using Unref_ok by fastforce
next
  case (install vs H edit st s vs' st')
  then show ?case using log_and_apply_ok [OF T install.IH install.hyps(2), of st] by auto
next
  case (numbers vs H n q)
  then show ?case using versions_ok_frame(5,6) by (simp add: vset_ok_def current_version_def)
qed

lemma AddLiveFiles_eq: "AddLiveFiles vs S = S \<union> (\<lambda>f. fm_number (fm_at (vs_store vs) f)) ` set_mset (file_uses vs)"
proof -
  let ?n = "\<lambda>f. fm_number (fm_at (vs_store vs) f)"
  have f: "fold (\<lambda>f S. insert (?n f) S) fs S = S \<union> ?n ` set fs" for fs S by (induction fs arbitrary: S) auto
  have g: "fold (\<lambda>files S. fold (\<lambda>f S. insert (?n f) S) files S) fss S = S \<union> ?n ` set (concat fss)" for fss S
    by (induction fss arbitrary: S) (auto simp: f)
  have "fold (\<lambda>(i, v) S. fold (\<lambda>files S. fold (\<lambda>f S. insert (?n f) S) files S) (v_files v) S) ps S =
      S \<union> ?n ` set (concat (map (\<lambda>p. concat (v_files (snd p))) ps))" for ps :: "(nat \<times> file_ref Version) list" and S
    by (induction ps arbitrary: S) (simp_all add: g case_prod_beta image_Un Un_assoc del: set_concat)
  then show ?thesis by (simp add: AddLiveFiles_def file_uses_def)
qed


section \<open>A first file\<close>

definition first_options :: VersionSetOptions where
  "first_options = \<lparr>vo_dbname = lit ''d'', vo_comparator = BytewiseComparator, vo_comparator_name = lit ''leveldb.BytewiseComparator'',
     vo_max_file_size = 2097152, vo_reuse_logs = False\<rparr>"

lemma new_version_set: "\<exists>vs. VersionSet_make = Some vs \<and> (\<forall>level<kNumLevels. current_descs vs level = {})"
  by (simp add: VersionSet_make_def AppendVersion_def VersionSet_empty_def Version_make_def current_descs_def current_version_def descs_def Let_def)

lemma first_edit_good: "\<forall>level<kNumLevels. current_descs vs level = {} \<Longrightarrow> good_edit BytewiseComparator vs first_edit"
  using first_edit_disjoint first_edit_fresh [of "\<lambda>level. fm_number ` current_descs vs level"] by (simp add: good_edit_def first_edit_parts)

text \<open>Installing the first file of a new database.\<close>

theorem log_and_apply_witness:
  "\<exists>vs s vs' st'. VersionSet_make = Some vs \<and>
     LogAndApply first_options first_edit (vs, \<lparr>os_files = \<lambda>_. None, os_dirs = \<lambda>_. True, os_calls = [], os_past = []\<rparr>) = Some (s, vs', st') \<and>
     vset_ok BytewiseComparator {#} vs' \<and> current_descs vs' 1 = (if Status_ok s then apply_edit 1 {} first_edit else {})"
proof -
  obtain vs where vs: "VersionSet_make = Some vs" "\<forall>level<kNumLevels. current_descs vs level = {}" using new_version_set by blast
  have o: "vo_comparator first_options = BytewiseComparator" by (simp add: first_options_def)
  have "1 < kNumLevels" by (simp add: kNumLevels_def)
  then show ?thesis
    using log_and_apply [of first_options "{#}" vs first_edit, unfolded o, OF bytewise.three_way_axioms VersionSet_make_ok [OF vs(1)] first_edit_good [OF vs(2)]] vs
    by metis
qed


end
