(* ===== verification/Spec2Isabelle.thy ===== *)
theory Spec2Isabelle
  imports Log_Reader Write_Batch Skiplist_Readers Bloom Filename Version_Edit
    Block_Cache DB_Iter Compaction_Work Version_Set
begin

text \<open>
  \<^bold>\<open>Verification of the storage engine of the event-manager application.\<close>

  The application's own screens are Dart and its data layer is Firebase; the C++ code it ships is
  the key-value store under the Firebase client,
  \<^verbatim>\<open>src/event_system/ios/pods/leveldb-library\<close>. Paths below are relative to that directory.

  \<^bold>\<open>Parts and theories.\<close>
  \<^item> \<^verbatim>\<open>util/coding\<close> (Coding), \<^verbatim>\<open>util/logging\<close> (Logging), \<^verbatim>\<open>slice.h\<close> (Slice),
    \<^verbatim>\<open>util/comparator\<close> (Comparator), \<^verbatim>\<open>util/status\<close> (Status), \<^verbatim>\<open>util/crc32c\<close>
    (Crc32c\_Tables, Crc32c), \<^verbatim>\<open>util/bloom\<close> and \<^verbatim>\<open>util/hash\<close> (Bloom), \<^verbatim>\<open>util/random.h\<close> (Random\_Gen),
    \<^verbatim>\<open>util/arena\<close> (Arena): the utilities.
  \<^item> \<^verbatim>\<open>db/dbformat\<close> (Dbformat): internal keys, their order and filters.
  \<^item> \<^verbatim>\<open>db/skiplist.h\<close> (Skiplist, Skiplist\_Readers), \<^verbatim>\<open>db/memtable\<close> (Memtable),
    \<^verbatim>\<open>db/write_batch\<close> (Write\_Batch): the write path in memory.
  \<^item> \<^verbatim>\<open>util/env_posix\<close> (Env\_Files), \<^verbatim>\<open>db/log_writer\<close> (Log\_Writer), \<^verbatim>\<open>db/log_reader\<close> (Log\_Reader): the
    write-ahead log.

  Theory Prelude holds what they share.
\<close>

end
